(* ===== verification/Prelude.thy ===== *)
theory Prelude
  imports Main "HOL-Library.Word"
begin

text \<open>
  Shared vocabulary of the development: the types that stand for Go's \<open>byte\<close>, \<open>uint16\<close>,
  \<open>uint32\<close>, \<open>uint64\<close> and \<open>[]byte\<close>, the fixed-width readers and writers of Go's
  \<open>encoding/binary\<close> (\<open>BigEndian\<close> and \<open>LittleEndian\<close>), Go slicing, and the list facts the
  components use. The collection \<open>codec_simps\<close> holds the read-after-write laws;
  \<open>len_simps\<close> holds the lengths of what the writers produce.

  The last section states the one interface shared by every tag-length-value format of the
  program: a parser that undoes an encoder one record at a time undoes a whole sequence of records.
\<close>

unbundle bit_operations_syntax

named_theorems codec_simps \<open>reading back what a fixed-width writer wrote\<close>
named_theorems len_simps \<open>length of encoded values\<close>

section \<open>Go integer and slice types\<close>

type_synonym byte = "8 word"
type_synonym u8 = "8 word"
type_synonym u16 = "16 word"
type_synonym u32 = "32 word"
type_synonym u64 = "64 word"
type_synonym bytes = "byte list"

text \<open>\<open>slice xs i j\<close> is Go's \<open>xs[i:j]\<close> for \<open>i \<le> j \<le> len(xs)\<close>; callers establish the bounds
  (or model the panic) before they slice.\<close>

definition slice :: "'a list \<Rightarrow> nat \<Rightarrow> nat \<Rightarrow> 'a list" where
  "slice xs i j = take (j - i) (drop i xs)"

text \<open>Go's \<open>copy(dst[i:i+n], src)\<close> on an array: the first \<open>min n (length src)\<close> bytes are replaced.\<close>

definition copy_into :: "'a list \<Rightarrow> nat \<Rightarrow> nat \<Rightarrow> 'a list \<Rightarrow> 'a list" where
  "copy_into dst i n src =
     take i dst @ take n src @ drop (i + length (take n src)) dst"

text \<open>\<open>make([]byte, n)\<close>.\<close>

abbreviation zeros :: "nat \<Rightarrow> bytes" where
  "zeros n \<equiv> replicate n 0"

text \<open>A byte sequence read as a Go string, and back (\<open>string(d)\<close>, \<open>[]byte(s)\<close>).\<close>

definition string_of_bytes :: "bytes \<Rightarrow> string" where
  "string_of_bytes bs = map (\<lambda>b. char_of (unat b)) bs"

definition bytes_of_string :: "string \<Rightarrow> bytes" where
  "bytes_of_string s = map (\<lambda>c. word_of_nat (of_char c)) s"

section \<open>Panics\<close>

text \<open>A run-time panic of Go as an error value, and sequencing.\<close>

datatype go_panic = SliceBounds | IndexRange | DivideByZero | NegativeShift | Unreachable

fun rbind :: "'e + 'a \<Rightarrow> ('a \<Rightarrow> 'e + 'b) \<Rightarrow> 'e + 'b" where
  "rbind (Inl e) f = Inl e"
| "rbind (Inr x) f = f x"

lemma rbind_Inr_iff: "rbind m f = Inr y \<longleftrightarrow> (\<exists>x. m = Inr x \<and> f x = Inr y)"
  by (cases m) auto

lemma rbind_Inl_iff: "rbind m f = Inl e \<longleftrightarrow> m = Inl e \<or> (\<exists>x. m = Inr x \<and> f x = Inl e)"
  by (cases m) auto

section \<open>encoding/binary\<close>

definition be16 :: "u16 \<Rightarrow> bytes" where
  "be16 w = [ucast (drop_bit 8 w), ucast w]"

definition get_be16 :: "bytes \<Rightarrow> u16" where
  "get_be16 bs = push_bit 8 (ucast (bs ! 0)) OR ucast (bs ! 1)"

definition be32 :: "u32 \<Rightarrow> bytes" where
  "be32 w = [ucast (drop_bit 24 w), ucast (drop_bit 16 w), ucast (drop_bit 8 w), ucast w]"

definition get_be32 :: "bytes \<Rightarrow> u32" where
  "get_be32 bs = push_bit 24 (ucast (bs ! 0)) OR push_bit 16 (ucast (bs ! 1))
     OR push_bit 8 (ucast (bs ! 2)) OR ucast (bs ! 3)"

definition be64 :: "u64 \<Rightarrow> bytes" where
  "be64 w = [ucast (drop_bit 56 w), ucast (drop_bit 48 w), ucast (drop_bit 40 w),
     ucast (drop_bit 32 w), ucast (drop_bit 24 w), ucast (drop_bit 16 w),
     ucast (drop_bit 8 w), ucast w]"

definition get_be64 :: "bytes \<Rightarrow> u64" where
  "get_be64 bs = push_bit 56 (ucast (bs ! 0)) OR push_bit 48 (ucast (bs ! 1))
     OR push_bit 40 (ucast (bs ! 2)) OR push_bit 32 (ucast (bs ! 3))
     OR push_bit 24 (ucast (bs ! 4)) OR push_bit 16 (ucast (bs ! 5))
     OR push_bit 8 (ucast (bs ! 6)) OR ucast (bs ! 7)"

definition le16 :: "u16 \<Rightarrow> bytes" where
  "le16 w = [ucast w, ucast (drop_bit 8 w)]"

definition get_le16 :: "bytes \<Rightarrow> u16" where
  "get_le16 bs = ucast (bs ! 0) OR push_bit 8 (ucast (bs ! 1))"

definition le32 :: "u32 \<Rightarrow> bytes" where
  "le32 w = [ucast w, ucast (drop_bit 8 w), ucast (drop_bit 16 w), ucast (drop_bit 24 w)]"

definition get_le32 :: "bytes \<Rightarrow> u32" where
  "get_le32 bs = ucast (bs ! 0) OR push_bit 8 (ucast (bs ! 1))
     OR push_bit 16 (ucast (bs ! 2)) OR push_bit 24 (ucast (bs ! 3))"

definition le64 :: "u64 \<Rightarrow> bytes" where
  "le64 w = [ucast w, ucast (drop_bit 8 w), ucast (drop_bit 16 w), ucast (drop_bit 24 w),
     ucast (drop_bit 32 w), ucast (drop_bit 40 w), ucast (drop_bit 48 w), ucast (drop_bit 56 w)]"

definition get_le64 :: "bytes \<Rightarrow> u64" where
  "get_le64 bs = ucast (bs ! 0) OR push_bit 8 (ucast (bs ! 1))
     OR push_bit 16 (ucast (bs ! 2)) OR push_bit 24 (ucast (bs ! 3))
     OR push_bit 32 (ucast (bs ! 4)) OR push_bit 40 (ucast (bs ! 5))
     OR push_bit 48 (ucast (bs ! 6)) OR push_bit 56 (ucast (bs ! 7))"

section \<open>Facts about slices\<close>

lemma slice_0 [simp]: "slice xs 0 j = take j xs"
  by (simp add: slice_def)

lemma length_slice [len_simps]: "length (slice xs i j) = min (j - i) (length xs - i)"
  by (simp add: slice_def)

lemma slice_append_right:
  "length xs \<le> i \<Longrightarrow> slice (xs @ ys) i j = slice ys (i - length xs) (j - length xs)"
  by (simp add: slice_def)

lemma slice_append_left:
  "j \<le> length xs \<Longrightarrow> slice (xs @ ys) i j = slice xs i j"
  by (simp add: slice_def)

lemma slice_to_end: "slice xs i (length xs) = drop i xs"
  by (simp add: slice_def)

lemma slice_full: "length xs = n \<Longrightarrow> slice xs 0 n = xs"
  by simp

lemma nth_slice: "i + k < j \<Longrightarrow> j \<le> length xs \<Longrightarrow> slice xs i j ! k = xs ! (i + k)"
  by (simp add: slice_def)

lemma slice_split:
  assumes "i \<le> j" "j \<le> k"
  shows "slice xs i k = slice xs i j @ slice xs j k"
proof -
  have "k - i = (j - i) + (k - j)" using assms by simp
  then have "take (k - i) (drop i xs) = take (j - i) (drop i xs) @ take (k - j) (drop (j - i) (drop i xs))"
    by (simp only: take_add)
  then show ?thesis using assms by (simp add: slice_def)
qed

lemma length_copy_into [len_simps]:
  "i + n \<le> length dst \<Longrightarrow> length (copy_into dst i n src) = length dst"
  by (auto simp: copy_into_def)

lemma drop_append_len: "length xs = n \<Longrightarrow> drop n (xs @ ys) = ys"
  by simp

lemma take_append_len: "length xs = n \<Longrightarrow> take n (xs @ ys) = xs"
  by simp

section \<open>Facts about the fixed-width codecs\<close>

lemma bit_byte_ge: "8 \<le> n \<Longrightarrow> \<not> bit (w::byte) n"
  by (auto dest: bit_imp_le_length)

text \<open>Bit \<open>n\<close> of a byte shifted into place, and bit \<open>m\<close> of a byte cut out of a wider word.\<close>

lemma bit_push_byte:
  "bit (push_bit k (ucast (b::byte)) :: 'a::len word) n \<longleftrightarrow>
     n < LENGTH('a) \<and> k \<le> n \<and> n < k + 8 \<and> bit b (n - k)"
proof (cases "n - k < 8")
  case False
  then have "\<not> bit b (n - k)" by (simp add: bit_byte_ge)
  then show ?thesis by (auto simp: bit_simps)
next
  case True
  then show ?thesis by (auto simp: bit_simps)
qed

lemma bit_cut_byte: "bit (ucast (drop_bit k w) :: byte) m \<longleftrightarrow> m < 8 \<and> bit w (k + m)"
  by (auto simp: bit_simps)

lemma bit_low_byte: "bit (ucast w :: byte) m \<longleftrightarrow> m < 8 \<and> bit w m"
  by (auto simp: bit_simps)

lemma bit_wide_byte:
  "bit (ucast (b::byte) :: 'a::len word) n \<longleftrightarrow> n < LENGTH('a) \<and> n < 8 \<and> bit b n"
  by (cases "n < 8") (auto simp: bit_simps bit_byte_ge)

lemmas bit_bytes = bit_or_iff bit_push_byte bit_cut_byte bit_low_byte bit_wide_byte
  bit_drop_bit_eq

lemma length_codecs [len_simps, simp]:
  "length (be16 a) = 2" "length (be32 b) = 4" "length (be64 c) = 8"
  "length (le16 a) = 2" "length (le32 b) = 4" "length (le64 c) = 8"
  by (simp_all add: be16_def be32_def be64_def le16_def le32_def le64_def)

lemma codecs_not_Nil [simp]: "be16 a \<noteq> []" "be32 b \<noteq> []" "le16 a \<noteq> []" "le32 b \<noteq> []"
  by (simp_all add: be16_def be32_def le16_def le32_def)

lemma get_be16_be16 [codec_simps]: "get_be16 (be16 w @ r) = w"
proof (rule bit_word_eqI)
  fix n assume n: "n < LENGTH(16)"
  then show "bit (get_be16 (be16 w @ r)) n = bit w n"
    unfolding be16_def get_be16_def
    by (cases "n < 8") (auto simp: bit_bytes)
qed

lemma get_le16_le16 [codec_simps]: "get_le16 (le16 w @ r) = w"
proof (rule bit_word_eqI)
  fix n assume n: "n < LENGTH(16)"
  then show "bit (get_le16 (le16 w @ r)) n = bit w n"
    unfolding le16_def get_le16_def
    by (cases "n < 8") (auto simp: bit_bytes)
qed

lemma get_be32_be32 [codec_simps]: "get_be32 (be32 w @ r) = w"
proof (rule bit_word_eqI)
  fix n assume n: "n < LENGTH(32)"
  then show "bit (get_be32 (be32 w @ r)) n = bit w n"
    unfolding be32_def get_be32_def
    by (cases "n < 8"; cases "n < 16"; cases "n < 24") (auto simp: bit_bytes)
qed

lemma get_le32_le32 [codec_simps]: "get_le32 (le32 w @ r) = w"
proof (rule bit_word_eqI)
  fix n assume n: "n < LENGTH(32)"
  then show "bit (get_le32 (le32 w @ r)) n = bit w n"
    unfolding le32_def get_le32_def
    by (cases "n < 8"; cases "n < 16"; cases "n < 24") (auto simp: bit_bytes)
qed

lemma get_be64_be64 [codec_simps]: "get_be64 (be64 w @ r) = w"
proof (rule bit_word_eqI)
  fix n assume n: "n < LENGTH(64)"
  then consider "n < 8" | "8 \<le> n \<and> n < 16" | "16 \<le> n \<and> n < 24" | "24 \<le> n \<and> n < 32"
    | "32 \<le> n \<and> n < 40" | "40 \<le> n \<and> n < 48" | "48 \<le> n \<and> n < 56" | "56 \<le> n \<and> n < 64"
    by fastforce
  then show "bit (get_be64 (be64 w @ r)) n = bit w n"
    unfolding be64_def get_be64_def
    by cases (simp_all add: bit_bytes less_diff_conv2)
qed

lemma get_le64_le64 [codec_simps]: "get_le64 (le64 w @ r) = w"
proof (rule bit_word_eqI)
  fix n assume n: "n < LENGTH(64)"
  then consider "n < 8" | "8 \<le> n \<and> n < 16" | "16 \<le> n \<and> n < 24" | "24 \<le> n \<and> n < 32"
    | "32 \<le> n \<and> n < 40" | "40 \<le> n \<and> n < 48" | "48 \<le> n \<and> n < 56" | "56 \<le> n \<and> n < 64"
    by fastforce
  then show "bit (get_le64 (le64 w @ r)) n = bit w n"
    unfolding le64_def get_le64_def
    by cases (simp_all add: bit_bytes less_diff_conv2)
qed

lemma get_nil_append [codec_simps]:
  "get_be16 (be16 a) = a" "get_be32 (be32 b) = b" "get_be64 (be64 c) = c"
  "get_le16 (le16 a) = a" "get_le32 (le32 b) = b" "get_le64 (le64 c) = c"
  using get_be16_be16 [of a "[]"] get_be32_be32 [of b "[]"] get_be64_be64 [of c "[]"]
    get_le16_le16 [of a "[]"] get_le32_le32 [of b "[]"] get_le64_le64 [of c "[]"]
  by simp_all

lemma get_le_append:
  "2 \<le> length a \<Longrightarrow> get_le16 (a @ b) = get_le16 a"
  "4 \<le> length a \<Longrightarrow> get_le32 (a @ b) = get_le32 a"
  "8 \<le> length a \<Longrightarrow> get_le64 (a @ b) = get_le64 a"
  by (auto simp: get_le16_def get_le32_def get_le64_def nth_append)

lemma be16_get_be16: "length bs = 2 \<Longrightarrow> be16 (get_be16 bs) = bs"
proof -
  assume "length bs = 2"
  then obtain a b where bs: "bs = [a, b]"
    by (auto simp: numeral_2_eq_2 length_Suc_conv)
  have "ucast (drop_bit 8 (get_be16 [a, b])) = a"
    by (rule bit_word_eqI) (auto simp: get_be16_def bit_simps bit_byte_ge)
  moreover have "ucast (get_be16 [a, b]) = b"
    by (rule bit_word_eqI) (auto simp: get_be16_def bit_simps bit_byte_ge)
  ultimately show ?thesis by (simp add: be16_def bs)
qed

lemma be32_get_be32: "length bs = 4 \<Longrightarrow> be32 (get_be32 bs) = bs"
proof -
  assume "length bs = 4"
  then obtain a b c d where bs: "bs = [a, b, c, d]"
    by (auto simp: numeral_eq_Suc length_Suc_conv)
  have "ucast (drop_bit 24 (get_be32 [a, b, c, d])) = a"
    by (rule bit_word_eqI) (auto simp: get_be32_def bit_simps bit_byte_ge)
  moreover have "ucast (drop_bit 16 (get_be32 [a, b, c, d])) = b"
    by (rule bit_word_eqI) (auto simp: get_be32_def bit_simps bit_byte_ge)
  moreover have "ucast (drop_bit 8 (get_be32 [a, b, c, d])) = c"
    by (rule bit_word_eqI) (auto simp: get_be32_def bit_simps bit_byte_ge)
  moreover have "ucast (get_be32 [a, b, c, d]) = d"
    by (rule bit_word_eqI) (auto simp: get_be32_def bit_simps bit_byte_ge)
  ultimately show ?thesis by (simp add: be32_def bs)
qed

lemma bytes_of_string_of_bytes [simp]: "bytes_of_string (string_of_bytes bs) = bs"
proof -
  have "word_of_nat (of_char (char_of (unat b) :: char)) = b" for b :: byte
    using unsigned_less [of b, where 'a = nat] by simp
  then show ?thesis by (simp add: bytes_of_string_def string_of_bytes_def comp_def)
qed

lemma string_of_bytes_of_string [simp]: "string_of_bytes (bytes_of_string s) = s"
proof -
  have "char_of (unat (word_of_nat (of_char c) :: byte)) = c" for c :: char
  proof -
    have "of_char c < (256 :: nat)" by simp
    then show ?thesis by (simp add: unat_of_nat)
  qed
  then show ?thesis by (simp add: bytes_of_string_def string_of_bytes_def comp_def)
qed

lemma length_string_of_bytes [simp]: "length (string_of_bytes bs) = length bs"
  by (simp add: string_of_bytes_def)

lemma length_bytes_of_string [simp]: "length (bytes_of_string s) = length s"
  by (simp add: bytes_of_string_def)

section \<open>The interface of a tag-length-value format\<close>

text \<open>
  \<open>enc r\<close> is the wire image of one record, \<open>ok r\<close> says the record survives encoding,
  \<open>fin\<close> is the tail a sequence may end with, \<open>parse\<close> is the whole decoder, which returns the
  records it read and the error that stopped it, if any. The provider proves that the decoder stops
  cleanly at \<open>fin\<close> and that it takes one encoded record off the front of its input; the round trip
  of a whole sequence and the injectivity of the encoder follow.
\<close>

locale record_format =
  fixes enc :: "'r \<Rightarrow> bytes"
    and ok :: "'r \<Rightarrow> bool"
    and fin :: "bytes \<Rightarrow> bool"
    and parse :: "bytes \<Rightarrow> 'r list \<times> 'e option"
  assumes parse_fin: "fin t \<Longrightarrow> parse t = ([], None)"
    and parse_enc: "ok r \<Longrightarrow> parse (enc r @ t) = apfst (Cons r) (parse t)"
begin

lemma parse_prefix:
  "list_all ok rs \<Longrightarrow> parse (concat (map enc rs) @ t) = apfst (append rs) (parse t)"
proof (induction rs)
  case Nil
  then show ?case by (simp add: apfst_def map_prod_def)
next
  case (Cons r rs)
  then show ?case by (cases "parse t") (simp add: parse_enc)
qed

lemma parse_all: "list_all ok rs \<Longrightarrow> fin t \<Longrightarrow> parse (concat (map enc rs) @ t) = (rs, None)"
  by (simp add: parse_prefix parse_fin)

lemma enc_all_inj:
  assumes "list_all ok rs" and "list_all ok qs" and "fin t"
    and "concat (map enc rs) @ t = concat (map enc qs) @ t"
  shows "rs = qs"
proof -
  have "(rs, None) = parse (concat (map enc rs) @ t)"
    using assms(1,3) by (simp only: parse_all)
  also have "\<dots> = parse (concat (map enc qs) @ t)"
    by (simp only: assms(4))
  also have "\<dots> = (qs, None)"
    using assms(2,3) by (simp only: parse_all)
  finally show ?thesis by simp
qed

end

end
