(* ===== verification/GoNet.thy ===== *)
theory GoNet
  imports GoStrings
begin

text \<open>
  The parts of Go's \<open>net\<close> package the program relies on: \<open>net.IP\<close> as a byte slice of any
  length (the empty list also stands for \<open>nil\<close>: every \<open>net\<close> function treats the two alike),
  \<open>To4\<close>, \<open>To16\<close>, \<open>Equal\<close>, masks and \<open>IPNet.Contains\<close>. An IPv4 address has two
  representations, 4 bytes or 16 bytes with the prefix \<open>::ffff:0:0/96\<close>, and code that indexes
  the slice directly sees the difference.
\<close>

type_synonym ip = bytes
type_synonym ipmask = bytes

record IPNet =
  nIP :: ip
  nMask :: ipmask

definition v4InV6Prefix :: bytes where
  "v4InV6Prefix = zeros 10 @ [0xff, 0xff]"

text \<open>\<open>IP.To4\<close>; \<open>None\<close> is Go's \<open>nil\<close> result.\<close>

definition To4 :: "ip \<Rightarrow> ip option" where
  "To4 ip =
     (if length ip = 4 then Some ip
      else if length ip = 16 \<and> take 12 ip = v4InV6Prefix then Some (drop 12 ip)
      else None)"

definition To16 :: "ip \<Rightarrow> ip option" where
  "To16 ip =
     (if length ip = 4 then Some (v4InV6Prefix @ ip)
      else if length ip = 16 then Some ip
      else None)"

definition ipv4zero :: ip where
  "ipv4zero = zeros 4"

text \<open>\<open>IP.Equal\<close>: the 4-byte and the 16-byte form of an IPv4 address are equal.\<close>

definition ip_Equal :: "ip \<Rightarrow> ip \<Rightarrow> bool" where
  "ip_Equal a b =
     (if length a = length b then a = b
      else if length a = 4 \<and> length b = 16 then take 12 b = v4InV6Prefix \<and> a = drop 12 b
      else if length a = 16 \<and> length b = 4 then take 12 a = v4InV6Prefix \<and> drop 12 a = b
      else False)"

text \<open>The number of leading ones of a mask, \<open>None\<close> when a one follows a zero
  (\<open>simpleMaskLength\<close>).\<close>

fun byte_ones :: "nat \<Rightarrow> byte \<Rightarrow> nat option" where
  "byte_ones 0 b = Some 0"
| "byte_ones (Suc k) b =
     (if bit b k then map_option Suc (byte_ones k b)
      else if take_bit k b = 0 then Some 0 else None)"

fun mask_ones :: "ipmask \<Rightarrow> nat option" where
  "mask_ones [] = Some 0"
| "mask_ones (b # m) =
     (if b = 0xff then map_option (\<lambda>n. n + 8) (mask_ones m)
      else if list_all (\<lambda>x. x = 0) m then byte_ones 8 b
      else None)"

text \<open>\<open>IPMask.Size\<close>: \<open>(ones, bits)\<close>, and \<open>(0, 0)\<close> for a non-canonical mask.\<close>

definition mask_Size :: "ipmask \<Rightarrow> nat \<times> nat" where
  "mask_Size m = (case mask_ones m of None \<Rightarrow> (0, 0) | Some n \<Rightarrow> (n, 8 * length m))"

text \<open>\<open>CIDRMask(ones, bits)\<close>; \<open>None\<close> is \<open>nil\<close>.\<close>

fun cidr_bytes :: "nat \<Rightarrow> nat \<Rightarrow> bytes" where
  "cidr_bytes 0 n = []"
| "cidr_bytes (Suc k) n =
     (if 8 \<le> n then 0xff # cidr_bytes k (n - 8)
      else (NOT (drop_bit n 0xff)) # cidr_bytes k 0)"

definition CIDRMask :: "nat \<Rightarrow> nat \<Rightarrow> ipmask option" where
  "CIDRMask ones bits =
     (if bits \<noteq> 32 \<and> bits \<noteq> 128 then None
      else if bits < ones then None
      else Some (cidr_bytes (bits div 8) ones))"

definition and_bytes :: "bytes \<Rightarrow> bytes \<Rightarrow> bytes" where
  "and_bytes a b = map2 (AND) a b"

text \<open>\<open>IP.Mask\<close>; \<open>None\<close> is \<open>nil\<close>. A 16-byte mask of twelve \<open>0xff\<close> bytes is shortened for a
  4-byte address, a 16-byte IPv4 address for a 4-byte mask.\<close>

definition ip_Mask :: "ip \<Rightarrow> ipmask \<Rightarrow> ip option" where
  "ip_Mask ip m =
     (let m' = (if length m = 16 \<and> length ip = 4 \<and> list_all (\<lambda>x. x = 0xff) (take 12 m)
                then drop 12 m else m);
          ip' = (if length m' = 4 \<and> length ip = 16 \<and> take 12 ip = v4InV6Prefix
                then drop 12 ip else ip)
      in if length ip' \<noteq> length m' then None else Some (and_bytes ip' m'))"

text \<open>\<open>networkNumberAndMask\<close> and \<open>IPNet.Contains\<close>.\<close>

definition networkNumberAndMask :: "IPNet \<Rightarrow> (ip \<times> ipmask) option" where
  "networkNumberAndMask n =
     (let ip = (case To4 (nIP n) of Some v4 \<Rightarrow> v4 | None \<Rightarrow> nIP n);
          m = nMask n
      in if length ip \<noteq> 4 \<and> length ip \<noteq> 16 then None
         else if length m = 4 then (if length ip = 4 then Some (ip, m) else None)
         else if length m = 16 then Some (ip, if length ip = 4 then drop 12 m else m)
         else None)"

definition Contains :: "IPNet \<Rightarrow> ip \<Rightarrow> bool" where
  "Contains n x =
     (case networkNumberAndMask n of
        None \<Rightarrow> x = []
      | Some (nn, m) \<Rightarrow>
          (let x' = (case To4 x of Some v4 \<Rightarrow> v4 | None \<Rightarrow> x)
           in length x' = length nn \<and> and_bytes nn m = and_bytes x' m))"

section \<open>Facts\<close>

lemma length_v4InV6Prefix [simp]: "length v4InV6Prefix = 12"
  by (simp add: v4InV6Prefix_def)

lemma To4_len4 [simp]: "length ip = 4 \<Longrightarrow> To4 ip = Some ip"
  by (simp add: To4_def)

lemma To4_length: "To4 ip = Some v \<Longrightarrow> length v = 4"
  by (auto simp: To4_def split: if_splits)

lemma To16_length: "To16 ip = Some v \<Longrightarrow> length v = 16"
  by (auto simp: To16_def split: if_splits)

lemma To4_mapped [simp]: "length ip = 4 \<Longrightarrow> To4 (v4InV6Prefix @ ip) = Some ip"
  by (simp add: To4_def)

lemma To16_len16 [simp]: "length ip = 16 \<Longrightarrow> To16 ip = Some ip"
  by (simp add: To16_def)

lemma To4_To16: "To4 ip = Some v \<Longrightarrow> To16 ip = Some (v4InV6Prefix @ v)"
  by (auto simp: To4_def To16_def split: if_splits) (metis append_take_drop_id)

lemma length_and_bytes [simp]: "length (and_bytes a b) = min (length a) (length b)"
  by (simp add: and_bytes_def)

lemma nth_and_bytes:
  "i < length a \<Longrightarrow> i < length b \<Longrightarrow> and_bytes a b ! i = a ! i AND b ! i"
  by (simp add: and_bytes_def)

lemma length_cidr_bytes [simp]: "length (cidr_bytes k n) = k"
  by (induction k n rule: cidr_bytes.induct) auto

lemma ip_Equal_refl [simp]: "ip_Equal a a"
  by (simp add: ip_Equal_def)

lemma ip_Equal_sym: "ip_Equal a b = ip_Equal b a"
  by (auto simp: ip_Equal_def)

text \<open>\<open>Equal\<close> is equality of the 16-byte forms whenever both are real addresses.\<close>

lemma ip_Equal_To16:
  assumes "To16 a = Some a'" "To16 b = Some b'"
  shows "ip_Equal a b \<longleftrightarrow> a' = b'"
  using assms
  by (auto simp: ip_Equal_def To16_def split: if_splits)
    (metis append_take_drop_id append_eq_conv_conj length_v4InV6Prefix)+

lemma CIDRMask_len: "CIDRMask n b = Some m \<Longrightarrow> length m = b div 8"
  by (auto simp: CIDRMask_def split: if_splits)

end
