(* ===== verification/Dhcp4.thy ===== *)
theory Dhcp4
  imports GoNet
begin

text \<open>
  The DHCPv4 wire format of \<open>src/pkg/lib/dhcp/options.go\<close> and \<open>src/pkg/lib/dhcp/packet.go\<close>:
  option lists, their accessors and builders, \<open>Packet.Marshal\<close> and \<open>Unmarshal\<close>.

  Lemmas: the option parser is an instance of \<open>record_format\<close>, so a list of encodable options
  survives a round trip whatever follows the end marker; a whole packet survives it up to the
  normalisations the encoder makes (IPv4 form of the addresses, hardware address cut or padded to
  \<open>HLen\<close>, pad and end options dropped); the parser never reads past its input.
\<close>

section \<open>Constants\<close>

abbreviation OpRequest :: u8 where "OpRequest \<equiv> 1"
abbreviation OpReply :: u8 where "OpReply \<equiv> 2"
abbreviation HTypeEthernet :: u8 where "HTypeEthernet \<equiv> 1"
abbreviation FlagBroadcast :: u16 where "FlagBroadcast \<equiv> 0x8000"
abbreviation magicCookie :: u32 where "magicCookie \<equiv> 0x63825363"
abbreviation headerSize :: nat where "headerSize \<equiv> 236"

abbreviation OptPad :: u8 where "OptPad \<equiv> 0"
abbreviation OptSubnetMask :: u8 where "OptSubnetMask \<equiv> 1"
abbreviation OptRouter :: u8 where "OptRouter \<equiv> 3"
abbreviation OptDNS :: u8 where "OptDNS \<equiv> 6"
abbreviation OptHostname :: u8 where "OptHostname \<equiv> 12"
abbreviation OptDomainName :: u8 where "OptDomainName \<equiv> 15"
abbreviation OptRequestedIP :: u8 where "OptRequestedIP \<equiv> 50"
abbreviation OptLeaseTime :: u8 where "OptLeaseTime \<equiv> 51"
abbreviation OptMessageType :: u8 where "OptMessageType \<equiv> 53"
abbreviation OptServerID :: u8 where "OptServerID \<equiv> 54"
abbreviation OptParamRequestList :: u8 where "OptParamRequestList \<equiv> 55"
abbreviation OptClientID :: u8 where "OptClientID \<equiv> 61"
abbreviation OptEnd :: u8 where "OptEnd \<equiv> 255"

type_synonym MessageType = u8

abbreviation MsgDiscover :: MessageType where "MsgDiscover \<equiv> 1"
abbreviation MsgOffer :: MessageType where "MsgOffer \<equiv> 2"
abbreviation MsgRequest :: MessageType where "MsgRequest \<equiv> 3"
abbreviation MsgDecline :: MessageType where "MsgDecline \<equiv> 4"
abbreviation MsgAck :: MessageType where "MsgAck \<equiv> 5"
abbreviation MsgNak :: MessageType where "MsgNak \<equiv> 6"
abbreviation MsgRelease :: MessageType where "MsgRelease \<equiv> 7"

definition MessageType_String :: "MessageType \<Rightarrow> string" where
  "MessageType_String m =
     (let names = [[], ''DISCOVER'', ''OFFER'', ''REQUEST'', ''DECLINE'', ''ACK'', ''NAK'', ''RELEASE'']
      in if unat m < length names then names ! unat m
         else ''UNKNOWN('' @ itoa (unat m) @ '')'')"

section \<open>Options\<close>

record Option4 =
  Code :: u8
  Data :: bytes

type_synonym Options = "Option4 list"

datatype dhcp_error =
    OptionNoLength u8
  | OptionTruncated u8 nat nat
  | PacketTooShort nat
  | InvalidCookie u32

fun Options_Get :: "Options \<Rightarrow> u8 \<Rightarrow> bytes option" where
  "Options_Get [] code = None"
| "Options_Get (q # qs) code = (if Code q = code then Some (Data q) else Options_Get qs code)"

text \<open>\<open>len(opts.Get(c))\<close> is 0 for \<open>nil\<close>; \<open>opt_data\<close> is the slice Go then works on.\<close>

definition opt_data :: "bytes option \<Rightarrow> bytes" where
  "opt_data d = (case d of None \<Rightarrow> [] | Some x \<Rightarrow> x)"

definition Options_MessageType :: "Options \<Rightarrow> MessageType" where
  "Options_MessageType qs =
     (let d = opt_data (Options_Get qs OptMessageType) in if length d = 1 then d ! 0 else 0)"

definition Options_ServerID :: "Options \<Rightarrow> ip option" where
  "Options_ServerID qs =
     (let d = opt_data (Options_Get qs OptServerID) in if length d = 4 then Some d else None)"

definition Options_SubnetMask :: "Options \<Rightarrow> ipmask option" where
  "Options_SubnetMask qs =
     (let d = opt_data (Options_Get qs OptSubnetMask) in if length d = 4 then Some d else None)"

definition Options_Router :: "Options \<Rightarrow> ip option" where
  "Options_Router qs =
     (let d = opt_data (Options_Get qs OptRouter)
      in if 4 \<le> length d then Some (take 4 d) else None)"

text \<open>The loop \<open>for i := 0; i+n <= len(d); i += n\<close> of \<open>DNS\<close>.\<close>

function chunks :: "nat \<Rightarrow> bytes \<Rightarrow> bytes list" where
  "chunks n d = (if 0 < n \<and> n \<le> length d then take n d # chunks n (drop n d) else [])"
  by pat_completeness auto
termination
  by (relation "measure (\<lambda>(n, d). length d)") auto

declare chunks.simps [simp del]

definition Options_DNS :: "Options \<Rightarrow> ip list" where
  "Options_DNS qs = chunks 4 (opt_data (Options_Get qs OptDNS))"

definition Options_LeaseTime :: "Options \<Rightarrow> u32" where
  "Options_LeaseTime qs =
     (let d = opt_data (Options_Get qs OptLeaseTime) in if length d = 4 then get_be32 d else 0)"

definition Options_DomainName :: "Options \<Rightarrow> string" where
  "Options_DomainName qs =
     (let d = opt_data (Options_Get qs OptDomainName)
      in if 0 < length d then string_of_bytes d else [])"

definition enc_option :: "Option4 \<Rightarrow> bytes" where
  "enc_option q = [Code q, word_of_nat (length (Data q))] @ Data q"

fun Options_Marshal :: "Options \<Rightarrow> bytes" where
  "Options_Marshal [] = []"
| "Options_Marshal (q # qs) =
     (if Code q = OptPad \<or> Code q = OptEnd then Options_Marshal qs
      else enc_option q @ Options_Marshal qs)"

function ParseOptions :: "bytes \<Rightarrow> Options \<times> dhcp_error option" where
  "ParseOptions [] = ([], None)"
| "ParseOptions (code # rest) =
     (if code = OptPad then ParseOptions rest
      else if code = OptEnd then ([], None)
      else case rest of
          [] \<Rightarrow> ([], Some (OptionNoLength code))
        | n # d \<Rightarrow>
            if length d < unat n then ([], Some (OptionTruncated code (unat n) (length d)))
            else apfst (Cons \<lparr>Code = code, Data = take (unat n) d\<rparr>) (ParseOptions (drop (unat n) d)))"
  by pat_completeness auto
termination
  by (relation "measure length") auto

section \<open>Option builders\<close>

definition ipTo4 :: "ip \<Rightarrow> ip" where
  "ipTo4 ip = (case To4 ip of Some v4 \<Rightarrow> v4 | None \<Rightarrow> ipv4zero)"

definition OptionMessageType :: "MessageType \<Rightarrow> Option4" where
  "OptionMessageType mt = \<lparr>Code = OptMessageType, Data = [mt]\<rparr>"

definition OptionRequestedIP :: "ip \<Rightarrow> Option4" where
  "OptionRequestedIP ip = \<lparr>Code = OptRequestedIP, Data = ipTo4 ip\<rparr>"

definition OptionServerID :: "ip \<Rightarrow> Option4" where
  "OptionServerID ip = \<lparr>Code = OptServerID, Data = ipTo4 ip\<rparr>"

definition OptionClientID :: "u8 \<Rightarrow> bytes \<Rightarrow> Option4" where
  "OptionClientID hwType mac = \<lparr>Code = OptClientID, Data = hwType # mac\<rparr>"

definition OptionParamRequestList :: "bytes \<Rightarrow> Option4" where
  "OptionParamRequestList codes = \<lparr>Code = OptParamRequestList, Data = codes\<rparr>"

definition OptionHostname :: "string \<Rightarrow> Option4" where
  "OptionHostname name = \<lparr>Code = OptHostname, Data = bytes_of_string name\<rparr>"

section \<open>Packets\<close>

record Packet =
  Op :: u8
  HType :: u8
  HLen :: u8
  Hops :: u8
  XID :: u32
  Secs :: u16
  Flags :: u16
  CIAddr :: ip
  YIAddr :: ip
  SIAddr :: ip
  GIAddr :: ip
  CHAddr :: bytes
  POptions :: Options

definition Packet_Marshal :: "Packet \<Rightarrow> bytes" where
  "Packet_Marshal p =
     [Op p, HType p, HLen p, Hops p] @ be32 (XID p) @ be16 (Secs p) @ be16 (Flags p)
     @ ipTo4 (CIAddr p) @ ipTo4 (YIAddr p) @ ipTo4 (SIAddr p) @ ipTo4 (GIAddr p)
     @ copy_into (zeros 16) 0 16 (CHAddr p)
     @ zeros 192 @ be32 magicCookie
     @ Options_Marshal (POptions p) @ [OptEnd]"

definition copyIP4 :: "bytes \<Rightarrow> ip" where
  "copyIP4 b = take 4 b"

definition Unmarshal :: "bytes \<Rightarrow> dhcp_error + Packet" where
  "Unmarshal data =
     (if length data < headerSize + 4 then Inl (PacketTooShort (length data))
      else let cookie = get_be32 (slice data headerSize (headerSize + 4))
      in if cookie \<noteq> magicCookie then Inl (InvalidCookie cookie)
      else let hlen = min (unat (data ! 2)) 16;
               (opts, err) = ParseOptions (drop (headerSize + 4) data)
      in case err of
           Some e \<Rightarrow> Inl e
         | None \<Rightarrow> Inr \<lparr>Op = data ! 0, HType = data ! 1, HLen = data ! 2, Hops = data ! 3,
             XID = get_be32 (slice data 4 8), Secs = get_be16 (slice data 8 10),
             Flags = get_be16 (slice data 10 12),
             CIAddr = copyIP4 (slice data 12 16), YIAddr = copyIP4 (slice data 16 20),
             SIAddr = copyIP4 (slice data 20 24), GIAddr = copyIP4 (slice data 24 28),
             CHAddr = slice data 28 (28 + hlen), POptions = opts\<rparr>)"

section \<open>The option codec\<close>

text \<open>An option survives encoding when its code is neither of the two one-byte markers and its data
  fits the length byte.\<close>

definition option_ok :: "Option4 \<Rightarrow> bool" where
  "option_ok q \<longleftrightarrow> Code q \<noteq> OptPad \<and> Code q \<noteq> OptEnd \<and> length (Data q) < 256"

definition options_end :: "bytes \<Rightarrow> bool" where
  "options_end t \<longleftrightarrow> t = [] \<or> hd t = OptEnd"

lemma Options_Marshal_concat:
  "Options_Marshal qs =
     concat (map enc_option (filter (\<lambda>q. Code q \<noteq> OptPad \<and> Code q \<noteq> OptEnd) qs))"
  by (induction qs) auto

interpretation opts4: record_format enc_option option_ok options_end ParseOptions
proof unfold_locales
  fix t assume "options_end t"
  then show "ParseOptions t = ([], None)"
    by (cases t) (auto simp: options_end_def)
next
  fix q t assume ok: "option_ok q"
  then have "unat (word_of_nat (length (Data q)) :: u8) = length (Data q)"
    by (simp add: option_ok_def unat_of_nat)
  with ok show "ParseOptions (enc_option q @ t) = apfst (Cons q) (ParseOptions t)"
    by (cases "ParseOptions t") (simp add: enc_option_def option_ok_def)
qed

lemma ParseOptions_Marshal:
  assumes "list_all (\<lambda>q. length (Data q) < 256) qs"
  shows "ParseOptions (Options_Marshal qs @ OptEnd # junk) =
           (filter (\<lambda>q. Code q \<noteq> OptPad \<and> Code q \<noteq> OptEnd) qs, None)"
proof -
  let ?f = "filter (\<lambda>q. Code q \<noteq> OptPad \<and> Code q \<noteq> OptEnd) qs"
  have "list_all option_ok ?f"
    using assms by (auto simp: list_all_iff option_ok_def)
  moreover have "options_end (OptEnd # junk)"
    by (simp add: options_end_def)
  ultimately show ?thesis
    unfolding Options_Marshal_concat by (rule opts4.parse_all)
qed

text \<open>Whatever the input, the parser yields encodable options, and together they take no more bytes
  than the input has.\<close>

lemma ParseOptions_ok: "ParseOptions data = (qs, e) \<Longrightarrow> list_all option_ok qs"
proof (induction data arbitrary: qs e rule: ParseOptions.induct)
  case 1
  then show ?case by simp
next
  case (2 code rest)
  show ?case
  proof (cases "code = OptPad \<or> code = OptEnd \<or> rest = []")
    case True
    with "2.prems" "2.IH"(1) show ?thesis by (auto split: if_splits)
  next
    case False
    then obtain n d where rest: "rest = n # d" by (cases rest) auto
    show ?thesis
    proof (cases "length d < unat n")
      case True
      with False rest "2.prems" show ?thesis by auto
    next
      case fits: False
      obtain qs' e' where r: "ParseOptions (drop (unat n) d) = (qs', e')" by fastforce
      have "list_all option_ok qs'"
        using "2.IH"(2) [of n d] False rest fits r by simp
      moreover have "option_ok \<lparr>Code = code, Data = take (unat n) d\<rparr>"
        using unsigned_less [of n, where 'a = nat] False by (auto simp: option_ok_def)
      ultimately show ?thesis
        using "2.prems" False rest fits r by auto
    qed
  qed
qed

lemma ParseOptions_length:
  "ParseOptions data = (qs, e) \<Longrightarrow> sum_list (map (\<lambda>q. 2 + length (Data q)) qs) \<le> length data"
proof (induction data arbitrary: qs e rule: ParseOptions.induct)
  case 1
  then show ?case by simp
next
  case (2 code rest)
  show ?case
  proof (cases "code = OptPad \<or> code = OptEnd \<or> rest = []")
    case True
    with "2.prems" "2.IH"(1) show ?thesis by (auto split: if_splits intro: le_SucI)
  next
    case False
    then obtain n d where rest: "rest = n # d" by (cases rest) auto
    show ?thesis
    proof (cases "length d < unat n")
      case True
      with False rest "2.prems" show ?thesis by auto
    next
      case fits: False
      obtain qs' e' where r: "ParseOptions (drop (unat n) d) = (qs', e')" by fastforce
      have "sum_list (map (\<lambda>q. 2 + length (Data q)) qs') \<le> length d - unat n"
        using "2.IH"(2) [of n d] False rest fits r by simp
      then show ?thesis
        using "2.prems" False rest fits r by auto
    qed
  qed
qed

section \<open>The packet codec\<close>

lemma length_ipTo4 [simp]: "length (ipTo4 ip) = 4"
  by (auto simp: ipTo4_def ipv4zero_def dest: To4_length split: option.split)

lemma ipTo4_idem [simp]: "ipTo4 (ipTo4 ip) = ipTo4 ip"
  by (simp add: ipTo4_def [of "ipTo4 ip"])

lemma length_chaddr_field [simp]: "length (copy_into (zeros 16) 0 16 mac) = 16"
  by (simp add: len_simps)

text \<open>What the encoder makes of a packet: the addresses in IPv4 form, the hardware address in a
  16-byte field of which \<open>HLen\<close> bytes count, the marker options gone.\<close>

definition wire_packet :: "Packet \<Rightarrow> Packet" where
  "wire_packet p = p\<lparr>CIAddr := ipTo4 (CIAddr p), YIAddr := ipTo4 (YIAddr p),
     SIAddr := ipTo4 (SIAddr p), GIAddr := ipTo4 (GIAddr p),
     CHAddr := take (min (unat (HLen p)) 16) (copy_into (zeros 16) 0 16 (CHAddr p)),
     POptions := filter (\<lambda>q. Code q \<noteq> OptPad \<and> Code q \<noteq> OptEnd) (POptions p)\<rparr>"

lemma Unmarshal_Marshal_wire:
  assumes "list_all (\<lambda>q. length (Data q) < 256) (POptions p)"
  shows "Unmarshal (Packet_Marshal p) = Inr (wire_packet p)"
proof -
  let ?ch = "copy_into (zeros 16) 0 16 (CHAddr p)"
  let ?o = "Options_Marshal (POptions p) @ [OptEnd]"
  have po: "ParseOptions ?o =
      (filter (\<lambda>q. Code q \<noteq> OptPad \<and> Code q \<noteq> OptEnd) (POptions p), None)"
    using ParseOptions_Marshal [OF assms, of "[]"] by simp
  show ?thesis
    by (simp add: Unmarshal_def Packet_Marshal_def Let_def slice_append_right slice_append_left
        slice_full codec_simps copyIP4_def po wire_packet_def slice_def)
qed

text \<open>A packet that is already in wire form is its own wire form.\<close>

definition packet_wf :: "Packet \<Rightarrow> bool" where
  "packet_wf p \<longleftrightarrow>
     length (CIAddr p) = 4 \<and> length (YIAddr p) = 4 \<and> length (SIAddr p) = 4 \<and> length (GIAddr p) = 4
     \<and> length (CHAddr p) = min (unat (HLen p)) 16 \<and> list_all option_ok (POptions p)"

lemma wire_packet_wf: "packet_wf p \<Longrightarrow> wire_packet p = p"
  by (auto simp: packet_wf_def wire_packet_def ipTo4_def copy_into_def option_ok_def list_all_iff
      filter_id_conv intro!: Packet.equality)

lemma Unmarshal_wf:
  assumes "Unmarshal data = Inr p"
  shows "packet_wf p"
proof -
  obtain qs e where po: "ParseOptions (drop (headerSize + 4) data) = (qs, e)" by fastforce
  have "list_all option_ok qs" by (rule ParseOptions_ok [OF po])
  with assms po show "packet_wf p"
    by (auto simp: Unmarshal_def Let_def packet_wf_def copyIP4_def len_simps
        split: if_splits option.splits)
qed

lemma option_ok_short: "list_all option_ok qs \<Longrightarrow> list_all (\<lambda>q. length (Data q) < 256) qs"
  by (simp add: list_all_iff option_ok_def)

lemma chunks_length: "0 < n \<Longrightarrow> x \<in> set (chunks n d) \<Longrightarrow> length x = n"
proof (induction n d rule: chunks.induct)
  case (1 n d)
  from "1.prems" have "n \<le> length d"
    by (auto simp: chunks.simps [of n d] split: if_splits)
  with 1 show ?case
    by (auto simp: chunks.simps [of n d] min_def)
qed

lemma chunks_concat:
  assumes "0 < n" "list_all (\<lambda>x. length x = n) xs" "length t < n"
  shows "chunks n (concat xs @ t) = xs"
  using assms(2)
proof (induction xs)
  case Nil
  with assms(3) show ?case by (simp add: chunks.simps)
next
  case (Cons x xs)
  with assms(1) show ?case by (subst chunks.simps) simp
qed

section \<open>Properties\<close>

definition ex_packet :: Packet where
  "ex_packet = \<lparr>Op = OpRequest, HType = HTypeEthernet, HLen = 6, Hops = 0, XID = 0xdeadbeef,
     Secs = 0, Flags = FlagBroadcast, CIAddr = zeros 4, YIAddr = zeros 4, SIAddr = zeros 4,
     GIAddr = zeros 4, CHAddr = [2, 0, 0, 0, 0, 1],
     POptions = [OptionMessageType MsgDiscover, OptionClientID HTypeEthernet [2, 0, 0, 0, 0, 1]]\<rparr>"

lemma ex_packet_wf: "packet_wf ex_packet"
  by (simp add: packet_wf_def ex_packet_def option_ok_def OptionMessageType_def OptionClientID_def)

text \<open>Encoding a DHCPv4 packet and decoding the bytes gives the packet back up to its wire form,
  provided no option is longer than its length byte can say; a packet already in wire form (IPv4
  addresses of four bytes, a hardware address of \<open>HLen\<close> bytes, no marker options) comes back
  unchanged.\<close>

theorem dhcp4_roundtrip:
  assumes "list_all (\<lambda>q. length (Data q) < 256) (POptions p)"
  shows "Unmarshal (Packet_Marshal p) = Inr (wire_packet p) \<and> (packet_wf p \<longrightarrow> wire_packet p = p)"
  using Unmarshal_Marshal_wire [OF assms] wire_packet_wf by blast

theorem dhcp4_roundtrip_witness:
  "Unmarshal (Packet_Marshal ex_packet) = Inr ex_packet"
proof -
  have "list_all (\<lambda>q. length (Data q) < 256) (POptions ex_packet)"
    using ex_packet_wf by (simp add: packet_wf_def option_ok_short)
  from dhcp4_roundtrip [OF this] ex_packet_wf show ?thesis by simp
qed

text \<open>Whatever bytes arrive, a packet that decodes is in wire form, and encoding it and decoding
  the result gives the same packet: a relayed packet does not change under the client's codec.\<close>

theorem dhcp4_decode_stable:
  assumes "Unmarshal data = Inr p"
  shows "packet_wf p \<and> Unmarshal (Packet_Marshal p) = Inr p"
proof -
  have wf: "packet_wf p" by (rule Unmarshal_wf [OF assms])
  then have "list_all (\<lambda>q. length (Data q) < 256) (POptions p)"
    by (simp add: packet_wf_def option_ok_short)
  from Unmarshal_Marshal_wire [OF this] wf show ?thesis by (simp add: wire_packet_wf)
qed

theorem dhcp4_decode_stable_witness:
  "packet_wf ex_packet \<and> Unmarshal (Packet_Marshal ex_packet) = Inr ex_packet"
proof -
  have "list_all (\<lambda>q. length (Data q) < 256) (POptions ex_packet)"
    using ex_packet_wf by (simp add: packet_wf_def option_ok_short)
  then have "Unmarshal (Packet_Marshal ex_packet) = Inr ex_packet"
    using ex_packet_wf by (simp add: Unmarshal_Marshal_wire wire_packet_wf)
  then show ?thesis by (rule dhcp4_decode_stable)
qed

text \<open>The option parser is total and memory-safe on arbitrary input: the options it returns, with
  or without an error, are encodable and their encodings together are no longer than the input.\<close>

theorem dhcp4_parse_bounds:
  "list_all option_ok (fst (ParseOptions data))
   \<and> length (Options_Marshal (fst (ParseOptions data))) \<le> length data"
proof -
  obtain qs e where po: "ParseOptions data = (qs, e)" by fastforce
  have ok: "list_all option_ok qs" by (rule ParseOptions_ok [OF po])
  then have "length (Options_Marshal qs) = sum_list (map (\<lambda>q. 2 + length (Data q)) qs)"
    by (induction qs) (auto simp: option_ok_def enc_option_def)
  with ParseOptions_length [OF po] ok po show ?thesis by simp
qed

end
