(* ===== verification/Dhcp6.thy ===== *)
theory Dhcp6
  imports Dhcp4
begin

text \<open>
  The DHCPv6 wire format of \<open>src/pkg/lib/dhcp/options6.go\<close>, \<open>options6_pd.go\<close> and
  \<open>packet6.go\<close>: two-byte option codes and lengths, the nested identity associations IA_NA and
  IA_PD, and the message codec.

  Lemmas: the option parser is a second instance of \<open>record_format\<close>; messages, IA_NA, IA_PD and
  IA_PREFIX values survive a round trip through their encoders; every option list that was parsed
  without error is re-encoded to exactly the bytes it came from.
\<close>

section \<open>Constants\<close>

abbreviation Msg6Solicit :: u8 where "Msg6Solicit \<equiv> 1"
abbreviation Msg6Advertise :: u8 where "Msg6Advertise \<equiv> 2"
abbreviation Msg6Request :: u8 where "Msg6Request \<equiv> 3"
abbreviation Msg6Renew :: u8 where "Msg6Renew \<equiv> 5"
abbreviation Msg6Rebind :: u8 where "Msg6Rebind \<equiv> 6"
abbreviation Msg6Reply :: u8 where "Msg6Reply \<equiv> 7"
abbreviation Msg6Release :: u8 where "Msg6Release \<equiv> 8"

abbreviation Opt6ClientID :: u16 where "Opt6ClientID \<equiv> 1"
abbreviation Opt6ServerID :: u16 where "Opt6ServerID \<equiv> 2"
abbreviation Opt6IANA :: u16 where "Opt6IANA \<equiv> 3"
abbreviation Opt6IAAddr :: u16 where "Opt6IAAddr \<equiv> 5"
abbreviation Opt6ORO :: u16 where "Opt6ORO \<equiv> 6"
abbreviation Opt6ElapsedTime :: u16 where "Opt6ElapsedTime \<equiv> 8"
abbreviation Opt6StatusCode :: u16 where "Opt6StatusCode \<equiv> 13"
abbreviation Opt6DNSServers :: u16 where "Opt6DNSServers \<equiv> 23"
abbreviation Opt6IAPD :: u16 where "Opt6IAPD \<equiv> 25"
abbreviation Opt6IAPrefix :: u16 where "Opt6IAPrefix \<equiv> 26"
abbreviation DUIDTypeLL :: u16 where "DUIDTypeLL \<equiv> 3"
abbreviation Status6Success :: u16 where "Status6Success \<equiv> 0"

definition MessageType6 :: "u8 \<Rightarrow> string" where
  "MessageType6 mt =
     (case map_of [(1, ''SOLICIT''), (2, ''ADVERTISE''), (3, ''REQUEST''), (4, ''CONFIRM''),
         (5, ''RENEW''), (6, ''REBIND''), (7, ''REPLY''), (8, ''RELEASE''), (9, ''DECLINE''),
         (11, ''INFORMATION-REQUEST'')] mt of
        Some s \<Rightarrow> s
      | None \<Rightarrow> ''UNKNOWN('' @ itoa (unat mt) @ '')'')"

section \<open>Options\<close>

record Option6 =
  Code6 :: u16
  Data6 :: bytes

type_synonym Options6 = "Option6 list"

datatype dhcp6_error =
    HeaderTruncated
  | Option6Truncated u16 nat nat
  | Packet6TooShort nat
  | IAPrefixTooShort

fun Options6_Get :: "Options6 \<Rightarrow> u16 \<Rightarrow> bytes option" where
  "Options6_Get [] code = None"
| "Options6_Get (q # qs) code = (if Code6 q = code then Some (Data6 q) else Options6_Get qs code)"

definition Options6_ClientID :: "Options6 \<Rightarrow> bytes option" where
  "Options6_ClientID qs = Options6_Get qs Opt6ClientID"

definition Options6_ServerID :: "Options6 \<Rightarrow> bytes option" where
  "Options6_ServerID qs = Options6_Get qs Opt6ServerID"

definition Options6_DNS :: "Options6 \<Rightarrow> ip list" where
  "Options6_DNS qs = chunks 16 (opt_data (Options6_Get qs Opt6DNSServers))"

definition Options6_StatusCode :: "Options6 \<Rightarrow> u16 \<times> string" where
  "Options6_StatusCode qs =
     (let d = opt_data (Options6_Get qs Opt6StatusCode)
      in if length d < 2 then (Status6Success, [])
         else (get_be16 (take 2 d), if 2 < length d then string_of_bytes (drop 2 d) else []))"

definition enc_option6 :: "Option6 \<Rightarrow> bytes" where
  "enc_option6 q = be16 (Code6 q) @ be16 (word_of_nat (length (Data6 q))) @ Data6 q"

fun Options6_Marshal :: "Options6 \<Rightarrow> bytes" where
  "Options6_Marshal [] = []"
| "Options6_Marshal (q # qs) = enc_option6 q @ Options6_Marshal qs"

function ParseOptions6 :: "bytes \<Rightarrow> Options6 \<times> dhcp6_error option" where
  "ParseOptions6 data =
     (if data = [] then ([], None)
      else if length data < 4 then ([], Some HeaderTruncated)
      else let code = get_be16 (slice data 0 2); n = unat (get_be16 (slice data 2 4));
               d = drop 4 data
        in if length d < n then ([], Some (Option6Truncated code n (length d)))
           else apfst (Cons \<lparr>Code6 = code, Data6 = take n d\<rparr>) (ParseOptions6 (drop n d)))"
  by pat_completeness auto
termination
  by (relation "measure length") auto

declare ParseOptions6.simps [simp del]

section \<open>Identity associations\<close>

record IANA =
  IAID :: u32
  T1 :: u32
  T2 :: u32
  IAOptions :: Options6

type_synonym IAPD = IANA

record IAAddr =
  AddrIP :: ip
  APreferredLifetime :: u32
  AValidLifetime :: u32

record IAPrefix =
  PreferredLifetime :: u32
  ValidLifetime :: u32
  PrefixLength :: u8
  Prefix :: ip
  PrefOptions :: Options6

text \<open>\<open>Options6.IANA\<close> and \<open>parseIAPD\<close> share one body; the options of a malformed tail are those
  read before the error.\<close>

definition parseIA :: "bytes \<Rightarrow> IANA option" where
  "parseIA d =
     (if length d < 12 then None
      else Some \<lparr>IAID = get_be32 (slice d 0 4), T1 = get_be32 (slice d 4 8),
             T2 = get_be32 (slice d 8 12),
             IAOptions = (if 12 < length d then fst (ParseOptions6 (drop 12 d)) else [])\<rparr>)"

definition Options6_IANA :: "Options6 \<Rightarrow> IANA option" where
  "Options6_IANA qs = parseIA (opt_data (Options6_Get qs Opt6IANA))"

definition parseIAPD :: "bytes \<Rightarrow> IAPD option" where
  "parseIAPD d = parseIA d"

definition Options6_IAPD :: "Options6 \<Rightarrow> IAPD option" where
  "Options6_IAPD qs = parseIAPD (opt_data (Options6_Get qs Opt6IAPD))"

definition IANA_Marshal :: "IANA \<Rightarrow> bytes" where
  "IANA_Marshal ia = be32 (IAID ia) @ be32 (T1 ia) @ be32 (T2 ia) @ Options6_Marshal (IAOptions ia)"

definition IAPD_Marshal :: "IAPD \<Rightarrow> bytes" where
  "IAPD_Marshal ia = be32 (IAID ia) @ be32 (T1 ia) @ be32 (T2 ia) @ Options6_Marshal (IAOptions ia)"

definition IANA_Addresses :: "IANA \<Rightarrow> IAAddr list" where
  "IANA_Addresses ia =
     map (\<lambda>q. \<lparr>AddrIP = slice (Data6 q) 0 16,
               APreferredLifetime = get_be32 (slice (Data6 q) 16 20),
               AValidLifetime = get_be32 (slice (Data6 q) 20 24)\<rparr>)
       (filter (\<lambda>q. Code6 q = Opt6IAAddr \<and> 24 \<le> length (Data6 q)) (IAOptions ia))"

definition parseIAPrefix :: "bytes \<Rightarrow> dhcp6_error + IAPrefix" where
  "parseIAPrefix d =
     (if length d < 25 then Inl IAPrefixTooShort
      else Inr \<lparr>PreferredLifetime = get_be32 (slice d 0 4), ValidLifetime = get_be32 (slice d 4 8),
             PrefixLength = d ! 8, Prefix = slice d 9 25,
             PrefOptions = (if 25 < length d then fst (ParseOptions6 (drop 25 d)) else [])\<rparr>)"

fun prefixes_of :: "Options6 \<Rightarrow> IAPrefix list" where
  "prefixes_of [] = []"
| "prefixes_of (q # qs) =
     (if Code6 q \<noteq> Opt6IAPrefix then prefixes_of qs
      else case parseIAPrefix (Data6 q) of
          Inl _ \<Rightarrow> prefixes_of qs
        | Inr p \<Rightarrow> p # prefixes_of qs)"

definition IAPD_Prefixes :: "IAPD \<Rightarrow> IAPrefix list" where
  "IAPD_Prefixes ia = prefixes_of (IAOptions ia)"

section \<open>Builders\<close>

definition DUIDLL :: "u16 \<Rightarrow> bytes \<Rightarrow> bytes" where
  "DUIDLL hwType mac = be16 DUIDTypeLL @ be16 hwType @ mac"

definition Option6ClientID :: "bytes \<Rightarrow> Option6" where
  "Option6ClientID duid = \<lparr>Code6 = Opt6ClientID, Data6 = duid\<rparr>"

definition Option6ServerID :: "bytes \<Rightarrow> Option6" where
  "Option6ServerID duid = \<lparr>Code6 = Opt6ServerID, Data6 = duid\<rparr>"

definition Option6IANAOpt :: "IANA \<Rightarrow> Option6" where
  "Option6IANAOpt ia = \<lparr>Code6 = Opt6IANA, Data6 = IANA_Marshal ia\<rparr>"

text \<open>\<open>copy(d[0:16], ip.To16())\<close> leaves zeros when \<open>To16\<close> is \<open>nil\<close>.\<close>

definition ip16_field :: "ip \<Rightarrow> bytes" where
  "ip16_field ip = (case To16 ip of Some v \<Rightarrow> v | None \<Rightarrow> zeros 16)"

definition Option6IAAddr :: "ip \<Rightarrow> u32 \<Rightarrow> u32 \<Rightarrow> Option6" where
  "Option6IAAddr ip preferred valid =
     \<lparr>Code6 = Opt6IAAddr, Data6 = ip16_field ip @ be32 preferred @ be32 valid\<rparr>"

definition Option6ORO :: "u16 list \<Rightarrow> Option6" where
  "Option6ORO codes = \<lparr>Code6 = Opt6ORO, Data6 = concat (map be16 codes)\<rparr>"

definition Option6ElapsedTime :: "u16 \<Rightarrow> Option6" where
  "Option6ElapsedTime cs = \<lparr>Code6 = Opt6ElapsedTime, Data6 = be16 cs\<rparr>"

definition Option6IAPDOpt :: "IAPD \<Rightarrow> Option6" where
  "Option6IAPDOpt ia = \<lparr>Code6 = Opt6IAPD, Data6 = IAPD_Marshal ia\<rparr>"

definition Option6IAPrefixOpt :: "IAPrefix \<Rightarrow> Option6" where
  "Option6IAPrefixOpt p =
     \<lparr>Code6 = Opt6IAPrefix,
      Data6 = be32 (PreferredLifetime p) @ be32 (ValidLifetime p) @ [PrefixLength p]
        @ ip16_field (Prefix p) @ Options6_Marshal (PrefOptions p)\<rparr>"

section \<open>Messages\<close>

record Packet6 =
  MsgType :: u8
  TransactionID :: bytes
  P6Options :: Options6

definition Packet6_Marshal :: "Packet6 \<Rightarrow> bytes" where
  "Packet6_Marshal p = MsgType p # copy_into (zeros 3) 0 3 (TransactionID p) @ Options6_Marshal (P6Options p)"

definition Unmarshal6 :: "bytes \<Rightarrow> dhcp6_error + Packet6" where
  "Unmarshal6 data =
     (if length data < 4 then Inl (Packet6TooShort (length data))
      else case ParseOptions6 (drop 4 data) of
          (_, Some e) \<Rightarrow> Inl e
        | (qs, None) \<Rightarrow> Inr \<lparr>MsgType = data ! 0, TransactionID = slice data 1 4, P6Options = qs\<rparr>)"

section \<open>The option codec\<close>

definition option6_ok :: "Option6 \<Rightarrow> bool" where
  "option6_ok q \<longleftrightarrow> length (Data6 q) < 65536"

lemma Options6_Marshal_concat: "Options6_Marshal qs = concat (map enc_option6 qs)"
  by (induction qs) auto

lemma ParseOptions6_enc:
  assumes "option6_ok q"
  shows "ParseOptions6 (enc_option6 q @ t) = apfst (Cons q) (ParseOptions6 t)"
proof -
  have "unat (word_of_nat (length (Data6 q)) :: u16) = length (Data6 q)"
    using assms by (simp add: option6_ok_def unat_of_nat)
  then show ?thesis
    by (subst ParseOptions6.simps)
      (simp add: enc_option6_def Let_def slice_append_right slice_append_left slice_full
        codec_simps slice_def)
qed

interpretation opts6: record_format enc_option6 option6_ok "\<lambda>t. t = []" ParseOptions6
  by unfold_locales (simp_all add: ParseOptions6.simps [of "[]"] ParseOptions6_enc)

lemma ParseOptions6_Marshal:
  "list_all option6_ok qs \<Longrightarrow> ParseOptions6 (Options6_Marshal qs) = (qs, None)"
  using opts6.parse_all [of qs "[]"] by (simp add: Options6_Marshal_concat)

text \<open>The other direction: an error-free parse loses nothing.\<close>

lemma enc_option6_parsed:
  assumes "4 \<le> length data" "unat (get_be16 (slice data 2 4)) = n" "n \<le> length data - 4"
  shows "enc_option6 \<lparr>Code6 = get_be16 (take 2 data), Data6 = take n (drop 4 data)\<rparr>
           = take (4 + n) data"
proof -
  have n: "word_of_nat n = get_be16 (slice data 2 4)"
    using assms(2) by auto
  have "be16 (get_be16 (take 2 data)) = take 2 data"
    using assms(1) by (simp add: be16_get_be16)
  moreover have "be16 (get_be16 (slice data 2 4)) = slice data 2 4"
    using assms(1) by (simp add: be16_get_be16 len_simps)
  moreover have "take 2 data @ slice data 2 4 = take 4 data"
    by (simp add: slice_def flip: take_add)
  moreover have "take 4 data @ take n (drop 4 data) = take (4 + n) data"
    by (simp add: take_add)
  ultimately show ?thesis
    using assms(3) n by (simp add: enc_option6_def min_absorb2) (metis append_assoc)
qed

lemma Marshal_ParseOptions6:
  "ParseOptions6 data = (qs, None) \<Longrightarrow> Options6_Marshal qs = data \<and> list_all option6_ok qs"
proof (induction data arbitrary: qs rule: ParseOptions6.induct)
  case (1 data)
  define n where "n = unat (get_be16 (slice data 2 4))"
  show ?case
  proof (cases "data = []")
    case True
    with "1.prems" show ?thesis by (simp add: ParseOptions6.simps)
  next
    case False
    with "1.prems" have fits: "4 \<le> length data" "n \<le> length data - 4"
      by (auto simp: ParseOptions6.simps [of data] Let_def n_def not_less split: if_splits)
    obtain qs' e where r: "ParseOptions6 (drop n (drop 4 data)) = (qs', e)" by fastforce
    with "1.prems" False fits have qs: "e = None"
      "qs = \<lparr>Code6 = get_be16 (slice data 0 2), Data6 = take n (drop 4 data)\<rparr> # qs'"
      by (auto simp: ParseOptions6.simps [of data] Let_def n_def)
    have IH: "Options6_Marshal qs' = drop n (drop 4 data) \<and> list_all option6_ok qs'"
      using "1.IH" [OF False _ refl refl refl] r qs fits by (simp add: n_def)
    have "unat (get_be16 (slice data 2 4)) < 65536"
      using unsigned_less [of "get_be16 (slice data 2 4)", where 'a = nat] by simp
    then have ok: "option6_ok \<lparr>Code6 = get_be16 (slice data 0 2), Data6 = take n (drop 4 data)\<rparr>"
      by (simp add: option6_ok_def n_def)
    have "enc_option6 \<lparr>Code6 = get_be16 (take 2 data), Data6 = take n (drop 4 data)\<rparr>
        = take (4 + n) data"
      using fits by (intro enc_option6_parsed) (simp_all add: n_def)
    then have "Options6_Marshal qs = take (4 + n) data @ drop n (drop 4 data)"
      using IH by (simp add: qs)
    then have "Options6_Marshal qs = data"
      by (simp add: add.commute)
    with IH ok show ?thesis by (simp add: qs)
  qed
qed

section \<open>Nested options and messages\<close>

lemma length_ip16_field [simp]: "length (ip16_field ip) = 16"
  by (auto simp: ip16_field_def dest: To16_length split: option.split)

lemma Options6_Marshal_Nil_iff: "Options6_Marshal qs = [] \<longleftrightarrow> qs = []"
  by (cases qs) (auto simp: enc_option6_def be16_def)

lemma parseIA_Marshal:
  assumes "list_all option6_ok (IAOptions ia)"
  shows "parseIA (IANA_Marshal ia) = Some ia"
proof -
  have "IAOptions ia = [] \<or> Options6_Marshal (IAOptions ia) \<noteq> []"
    by (simp add: Options6_Marshal_Nil_iff)
  then show ?thesis
    using ParseOptions6_Marshal [OF assms]
    by (auto simp: parseIA_def IANA_Marshal_def slice_append_right slice_append_left codec_simps
        slice_def)
qed

lemma parseIAPrefix_Marshal:
  assumes "list_all option6_ok (PrefOptions p)" "length (Prefix p) = 16"
  shows "parseIAPrefix (Data6 (Option6IAPrefixOpt p)) = Inr p"
proof -
  have "PrefOptions p = [] \<or> Options6_Marshal (PrefOptions p) \<noteq> []"
    by (simp add: Options6_Marshal_Nil_iff)
  then show ?thesis
    using ParseOptions6_Marshal [OF assms(1)] assms(2)
    by (auto simp: parseIAPrefix_def Option6IAPrefixOpt_def ip16_field_def slice_append_right
        slice_append_left codec_simps slice_def nth_append)
qed

lemma Unmarshal6_Marshal:
  assumes "list_all option6_ok (P6Options p)" "length (TransactionID p) = 3"
  shows "Unmarshal6 (Packet6_Marshal p) = Inr p"
  using ParseOptions6_Marshal [OF assms(1)] assms(2)
  by (simp add: Unmarshal6_def Packet6_Marshal_def copy_into_def slice_def)

lemma Marshal_Unmarshal6:
  assumes "Unmarshal6 data = Inr p"
  shows "Packet6_Marshal p = data"
proof -
  obtain qs where len: "4 \<le> length data" and po: "ParseOptions6 (drop 4 data) = (qs, None)"
    and p: "p = \<lparr>MsgType = data ! 0, TransactionID = slice data 1 4, P6Options = qs\<rparr>"
    using assms
    by (auto simp: Unmarshal6_def not_less split: if_splits prod.splits option.splits)
  have "Options6_Marshal qs = drop 4 data"
    using Marshal_ParseOptions6 [OF po] by simp
  moreover have "data = data ! 0 # slice data 1 4 @ drop 4 data"
    using len by (cases data) (simp_all add: slice_def)
  ultimately show ?thesis
    using len by (simp add: Packet6_Marshal_def p copy_into_def len_simps slice_def)
qed

section \<open>Properties\<close>

definition ex_ia :: IANA where
  "ex_ia = \<lparr>IAID = 1, T1 = 100, T2 = 160,
     IAOptions = [Option6IAAddr (0x20 # 0x01 # zeros 13 @ [1]) 200 300]\<rparr>"

definition ex_packet6 :: Packet6 where
  "ex_packet6 = \<lparr>MsgType = Msg6Reply, TransactionID = [1, 2, 3],
     P6Options = [Option6ClientID (DUIDLL 1 [2, 0, 0, 0, 0, 1]), Option6IANAOpt ex_ia]\<rparr>"

lemma ex_packet6_ok:
  "list_all option6_ok (P6Options ex_packet6)" "length (TransactionID ex_packet6) = 3"
  by (simp_all add: ex_packet6_def ex_ia_def option6_ok_def Option6ClientID_def DUIDLL_def
      Option6IANAOpt_def IANA_Marshal_def enc_option6_def Option6IAAddr_def)

text \<open>A DHCPv6 message whose options fit their 16-bit length fields is decoded from its encoding
  unchanged.\<close>

theorem dhcp6_roundtrip:
  assumes "list_all option6_ok (P6Options p)" "length (TransactionID p) = 3"
  shows "Unmarshal6 (Packet6_Marshal p) = Inr p"
  by (rule Unmarshal6_Marshal [OF assms])

theorem dhcp6_roundtrip_witness: "Unmarshal6 (Packet6_Marshal ex_packet6) = Inr ex_packet6"
  by (rule dhcp6_roundtrip [OF ex_packet6_ok])

text \<open>C22. The DHCPv6 format has no slack: a datagram that decodes is, byte for byte, the encoding of
  the message it decodes to, so no two datagrams decode to the same message.\<close>

theorem dhcp6_decode_exact:
  assumes "Unmarshal6 data = Inr p"
  shows "Packet6_Marshal p = data"
  by (rule Marshal_Unmarshal6 [OF assms])

theorem dhcp6_decode_exact_witness:
  "\<exists>data. Unmarshal6 data = Inr ex_packet6 \<and> Packet6_Marshal ex_packet6 = data"
proof -
  have "Unmarshal6 (Packet6_Marshal ex_packet6) = Inr ex_packet6"
    by (rule Unmarshal6_Marshal [OF ex_packet6_ok])
  with dhcp6_decode_exact show ?thesis by blast
qed

text \<open>The nested identity associations survive their own encoders: the IA_NA and IA_PD option
  data and the IA_PREFIX option data decode to the values they were built from, so the address or
  prefix a client echoes in a Renew is the one it was given.\<close>

theorem dhcp6_ia_roundtrip:
  assumes "list_all option6_ok (IAOptions ia)" "list_all option6_ok (PrefOptions p)"
    "length (Prefix p) = 16"
  shows "Options6_IANA [Option6IANAOpt ia] = Some ia \<and> Options6_IAPD [Option6IAPDOpt ia] = Some ia
    \<and> IAPD_Prefixes (ia\<lparr>IAOptions := [Option6IAPrefixOpt p]\<rparr>) = [p]"
  using parseIA_Marshal [OF assms(1)] parseIAPrefix_Marshal [OF assms(2,3)]
  by (simp add: Options6_IANA_def Options6_IAPD_def parseIAPD_def IAPD_Prefixes_def opt_data_def
      Option6IANAOpt_def Option6IAPDOpt_def IANA_Marshal_def IAPD_Marshal_def)
    (simp add: Option6IAPrefixOpt_def)

definition ex_prefix :: IAPrefix where
  "ex_prefix = \<lparr>PreferredLifetime = 10, ValidLifetime = 20, PrefixLength = 60,
     Prefix = 0x20 # 0x01 # zeros 14, PrefOptions = []\<rparr>"

theorem dhcp6_ia_roundtrip_witness:
  "Options6_IANA [Option6IANAOpt ex_ia] = Some ex_ia
   \<and> Options6_IAPD [Option6IAPDOpt ex_ia] = Some ex_ia
   \<and> IAPD_Prefixes (ex_ia\<lparr>IAOptions := [Option6IAPrefixOpt ex_prefix]\<rparr>) = [ex_prefix]"
  by (rule dhcp6_ia_roundtrip)
    (simp_all add: ex_ia_def ex_prefix_def option6_ok_def Option6IAAddr_def)

end
