(* ===== verification/ContainerConfig.thy ===== *)
theory ContainerConfig
  imports GoStrings
begin

text \<open>
  The container record of \<open>src/pkg/container/config/definitions.go\<close>, the name and file-name rules of
  \<open>src/pkg/container/config/tools.go\<close>, and the process-identity check of
  \<open>src/pkg/container/runtime/status.go\<close>.

  The record carries the fields that the controller and the daemon read; the JSON text of all other
  fields travels in \<open>Others\<close>, which no modelled operation looks into. Lemmas: a valid name makes a
  file name that stays in its directory and decodes to the name again, and the temporary file of an
  atomic write is never taken for a state file.
\<close>

record Config =
  Name :: string
  Generation :: u64
  HostPid :: int
  ContPid :: int
  HostPidStart :: u64
  ContPidStart :: u64
  Startup :: bool
  Status :: string
  HostArgs :: "string list"
  VM :: string
  Others :: string

text \<open>\<open>Clone\<close> copies through JSON; on values it is the identity.\<close>

definition Clone :: "Config \<Rightarrow> Config" where
  "Clone c = c"

definition MonitorPidIdentity :: "Config \<Rightarrow> int \<times> u64" where
  "MonitorPidIdentity c =
     (if VM c \<noteq> [] then (HostPid c, HostPidStart c) else (ContPid c, ContPidStart c))"

section \<open>Names\<close>

datatype name_error = NameEmpty | NameTooLong | NameInvalid

definition is_alnum :: "char \<Rightarrow> bool" where
  "is_alnum c \<longleftrightarrow>
     (let n = of_char c :: nat
      in 97 \<le> n \<and> n \<le> 122 \<or> 65 \<le> n \<and> n \<le> 90 \<or> 48 \<le> n \<and> n \<le> 57)"

definition is_name_char :: "char \<Rightarrow> bool" where
  "is_name_char c \<longleftrightarrow> is_alnum c \<or> c = CHR ''_'' \<or> c = CHR ''.'' \<or> c = CHR ''-''"

text \<open>The regular expression \<open>^[a-zA-Z0-9][a-zA-Z0-9_.-]*$\<close>.\<close>

fun validContainerName :: "string \<Rightarrow> bool" where
  "validContainerName [] = False"
| "validContainerName (c # s) = (is_alnum c \<and> list_all is_name_char s)"

definition ValidateName :: "string \<Rightarrow> name_error option" where
  "ValidateName name =
     (if name = [] then Some NameEmpty
      else if 128 < length name then Some NameTooLong
      else if \<not> validContainerName name then Some NameInvalid
      else None)"

text \<open>The base name of \<open>ConfigFileLoc\<close>; the directory is \<open>env.BaseStateDir\<close>.\<close>

definition ConfigFileBase :: "string \<Rightarrow> string" where
  "ConfigFileBase name = name @ ''.json''"

definition IsStateTempFile :: "string \<Rightarrow> bool" where
  "IsStateTempFile base \<longleftrightarrow> has_prefix ''.'' base \<and> index base ''.json.tmp-'' \<noteq> None"

definition NameFromConfigFile :: "string \<Rightarrow> string option" where
  "NameFromConfigFile base =
     (if \<not> has_suffix ''.json'' base then None
      else let name = take (length base - 5) base
           in if ValidateName name \<noteq> None then None else Some name)"

text \<open>The name pattern of \<open>os.CreateTemp(dir, "." + base + ".tmp-*")\<close>, the star replaced by a
  random suffix.\<close>

definition tempName :: "string \<Rightarrow> string \<Rightarrow> string" where
  "tempName base rnd = ''.'' @ base @ ''.tmp-'' @ rnd"

section \<open>Process identity\<close>

text \<open>
  What the operating system reports about a pid: whether it is alive (with the error of the probe)
  and its start time. \<open>None\<close> as start time is a read error.
\<close>

record proc_view =
  pid_alive :: bool
  pid_err :: bool
  pid_start :: "u64 option"

text \<open>\<open>IsPidRunningAs(pid, wantStart)\<close>: the result and whether an error is returned.\<close>

definition IsPidRunningAs :: "(int \<Rightarrow> proc_view) \<Rightarrow> int \<Rightarrow> u64 \<Rightarrow> bool \<times> bool" where
  "IsPidRunningAs ps pid wantStart =
     (if pid \<le> 0 then (False, False)
      else let v = ps pid
      in if pid_err v \<or> \<not> pid_alive v then (pid_alive v, pid_err v)
         else if wantStart = 0 then (True, False)
         else case pid_start v of
             None \<Rightarrow> (True, False)
           | Some got \<Rightarrow> (if got \<noteq> wantStart then (False, False) else (True, False)))"

section \<open>Facts\<close>

lemma map_Clone [simp]: "map Clone cs = cs"
  by (rule map_idI) (simp add: Clone_def)

lemma ValidateName_None_iff:
  "ValidateName n = None \<longleftrightarrow> validContainerName n \<and> length n \<le> 128"
  by (cases n) (auto simp: ValidateName_def)

lemma is_alnum_name_char: "is_alnum c \<Longrightarrow> is_name_char c"
  by (simp add: is_name_char_def)

lemma valid_name_chars: "validContainerName n \<Longrightarrow> list_all is_name_char n"
  by (cases n) (auto simp: is_alnum_name_char)

lemma name_char_simps [simp]:
  "\<not> is_name_char CHR ''/''" "\<not> is_name_char CHR 0x00" "\<not> is_alnum CHR ''.''" "\<not> is_alnum CHR ''/''"
  by (simp_all add: is_name_char_def is_alnum_def Let_def)

lemma valid_name_no_slash: "validContainerName n \<Longrightarrow> CHR ''/'' \<notin> set n"
  using valid_name_chars [of n] by (auto simp: list_all_iff)

lemma valid_name_hd: "validContainerName n \<Longrightarrow> n \<noteq> [] \<and> hd n \<noteq> CHR ''.''"
  by (cases n) auto

lemma NameFromConfigFile_base:
  "NameFromConfigFile (ConfigFileBase n) = (if ValidateName n = None then Some n else None)"
  by (simp add: NameFromConfigFile_def ConfigFileBase_def has_suffix_def Let_def)

lemma NameFromConfigFile_SomeD:
  "NameFromConfigFile b = Some n \<Longrightarrow> b = ConfigFileBase n \<and> ValidateName n = None"
proof -
  assume h: "NameFromConfigFile b = Some n"
  then have suf: "has_suffix ''.json'' b" and v: "ValidateName n = None"
    and n: "n = take (length b - 5) b"
    by (auto simp: NameFromConfigFile_def Let_def split: if_splits)
  from suf have "drop (length b - 5) b = ''.json''"
    by (simp add: has_suffix_def eval_nat_numeral)
  then have "b = n @ ''.json''"
    unfolding n using append_take_drop_id [of "length b - 5" b] by simp
  with v show ?thesis by (simp add: ConfigFileBase_def)
qed

lemma ConfigFileBase_inj [simp]: "ConfigFileBase a = ConfigFileBase b \<longleftrightarrow> a = b"
  by (simp add: ConfigFileBase_def)

lemma tempName_not_state: "NameFromConfigFile (tempName base rnd) = None"
proof (rule ccontr)
  assume "NameFromConfigFile (tempName base rnd) \<noteq> None"
  then obtain n where n: "tempName base rnd = ConfigFileBase n" "validContainerName n"
    by (auto dest!: NameFromConfigFile_SomeD simp: ValidateName_None_iff)
  then obtain c s where "n = c # s" by (cases n) auto
  with n show False by (auto simp: tempName_def ConfigFileBase_def)
qed

lemma index_append_Some: "index (a @ sub @ b) sub \<noteq> None"
  by (auto simp: index_None_iff)

lemma tempName_is_temp: "IsStateTempFile (tempName (ConfigFileBase n) rnd)"
proof -
  have "tempName (ConfigFileBase n) rnd = (''.'' @ n) @ ''.json.tmp-'' @ rnd"
    by (simp add: tempName_def ConfigFileBase_def)
  then have "index (tempName (ConfigFileBase n) rnd) ''.json.tmp-'' \<noteq> None"
    using index_append_Some by metis
  then show ?thesis
    by (simp add: IsStateTempFile_def tempName_def has_prefix_def)
qed

end
