(* ===== verification/Controller.thy ===== *)
theory Controller
  imports ContainerConfig "HOL-Library.AList" "HOL-Library.Multiset"
begin

text \<open>
  The state store of \<open>src/pkg/controller/set.go\<close>, \<open>get.go\<close>, \<open>del.go\<close> and \<open>containers.go\<close> and
  its reconciliation in \<open>src/pkg/daemon/disk-events.go\<close>: the daemon's in-memory container list, the
  directory of state files, and the generation counter that orders the writes of one record.

  The store is a record of the list and of the directory (an association list from base names to
  files). A file holds a record, or bytes that do not decode to one but may still carry a readable
  generation. Every write to disk takes the outcome of its file operations as an argument. The
  functions are atomic, as \<open>containerListMu\<close> makes them; the interleaving of the daemon, the command
  line and the file watcher is the step relation \<open>sys_step\<close>, in which a file read and the later use
  of what was read are separate steps.
\<close>

section \<open>The store\<close>

datatype state_file = StateFile Config | BadFile u64

record store =
  containerList :: "Config list"
  stateDir :: "(string \<times> state_file) list"

datatype ctl_error = EName name_error | EWrite | ERefused nat | ENotFound | EUnknownType

fun find_index :: "Config list \<Rightarrow> string \<Rightarrow> nat option" where
  "find_index [] n = None"
| "find_index (c # cs) n = (if Name c = n then Some 0 else map_option Suc (find_index cs n))"

definition readFile :: "store \<Rightarrow> string \<Rightarrow> state_file option" where
  "readFile s name = map_of (stateDir s) (ConfigFileBase name)"

definition fileGeneration :: "state_file option \<Rightarrow> u64" where
  "fileGeneration f = (case f of None \<Rightarrow> 0 | Some (StateFile c) \<Rightarrow> Generation c | Some (BadFile g) \<Rightarrow> g)"

text \<open>
  The steps of \<open>writeStateFile\<close> in order. An attempt is the random suffix of the temporary file, the
  step that fails, if any, and whether \<open>os.IsNotExist\<close> holds of that failure. The temporary file is
  created with \<open>O_EXCL\<close>, so an existing name fails the attempt, and it is gone when the function
  returns.
\<close>

datatype wstep = CreateTemp | WriteTemp | ChmodTemp | SyncTemp | CloseTemp | RenameTemp

record attempt =
  a_rnd :: string
  a_fail :: "wstep option"
  a_notexist :: bool

definition writeStateFile ::
  "(string \<times> state_file) list \<Rightarrow> string \<Rightarrow> state_file \<Rightarrow> attempt \<Rightarrow> (string \<times> state_file) list \<times> bool" where
  "writeStateFile dir base data a =
     (let tmp = tempName base (a_rnd a)
      in if a_fail a = Some CreateTemp \<or> tmp \<in> fst ` set dir then (dir, False)
      else let d1 = AList.update tmp (BadFile 0) dir
      in if a_fail a = Some WriteTemp then (AList.delete tmp d1, False)
      else let d2 = AList.update tmp data d1
      in if a_fail a \<noteq> None then (AList.delete tmp d2, False)
         else (AList.update base data (AList.delete tmp d2), True))"

definition writeContainerFile ::
  "(string \<times> state_file) list \<Rightarrow> string \<Rightarrow> state_file \<Rightarrow> attempt \<Rightarrow> attempt
     \<Rightarrow> (string \<times> state_file) list \<times> bool" where
  "writeContainerFile dir base data a1 a2 =
     (let (d1, ok1) = writeStateFile dir base data a1
      in if ok1 then (d1, True)
         else if a_notexist a1 then writeStateFile d1 base data a2
         else (d1, False))"

section \<open>Setting a record\<close>

text \<open>The result is the new store and the caller's record, whose generation was raised. A failed write
  is only logged.\<close>

definition setContainerByMemory ::
  "store \<Rightarrow> Config \<Rightarrow> attempt \<Rightarrow> attempt \<Rightarrow> store \<times> Config" where
  "setContainerByMemory s c a1 a2 =
     (let idx = find_index (containerList s) (Name c);
          gen = (case idx of None \<Rightarrow> Generation c
                 | Some i \<Rightarrow> max (Generation c) (Generation (containerList s ! i)));
          disk = readFile s (Name c);
          c' = c\<lparr>Generation := max gen (fileGeneration disk) + 1\<rparr>;
          clone = Clone c';
          dir = (if disk = Some (StateFile clone) then stateDir s
                 else fst (writeContainerFile (stateDir s) (ConfigFileBase (Name c)) (StateFile clone) a1 a2));
          cl = (case idx of Some i \<Rightarrow> (containerList s)[i := clone]
                | None \<Rightarrow> containerList s @ [clone])
      in (s\<lparr>containerList := cl, stateDir := dir\<rparr>, c'))"

definition setContainerByDisk ::
  "store \<Rightarrow> Config \<Rightarrow> attempt \<Rightarrow> attempt \<Rightarrow> store \<times> ctl_error option \<times> Config" where
  "setContainerByDisk s c a1 a2 =
     (if Name c = [] then (s, Some (EName NameEmpty), c)
      else let c' = c\<lparr>Generation := max (Generation c) (fileGeneration (readFile s (Name c))) + 1\<rparr>;
               (dir, ok) = writeContainerFile (stateDir s) (ConfigFileBase (Name c)) (StateFile c') a1 a2
           in (s\<lparr>stateDir := dir\<rparr>, if ok then None else Some EWrite, c'))"

text \<open>The daemon's POST handler: 200 or 500.\<close>

definition serverPost :: "store \<Rightarrow> Config \<Rightarrow> attempt \<Rightarrow> attempt \<Rightarrow> store \<times> nat" where
  "serverPost s c a1 a2 =
     (if ValidateName (Name c) \<noteq> None then (s, 500)
      else (fst (setContainerByMemory s c a1 a2), 200))"

text \<open>\<open>reach\<close> says whether the daemon answers at all.\<close>

definition setContainerByServer ::
  "store \<Rightarrow> Config \<Rightarrow> bool \<Rightarrow> attempt \<Rightarrow> attempt \<Rightarrow> store \<times> ctl_error option \<times> Config" where
  "setContainerByServer s c reach a1 a2 =
     (if \<not> reach then setContainerByDisk s c a1 a2
      else let (s', code) = serverPost s c a1 a2
           in (s', if code < 200 \<or> 299 < code then Some (ERefused code) else None, c))"

datatype ConrollerType = ControllerTypeDisk | ControllerTypeMemory | ControllerTypeServer

definition SetContainer ::
  "ConrollerType \<Rightarrow> store \<Rightarrow> Config \<Rightarrow> bool \<Rightarrow> attempt \<Rightarrow> attempt
     \<Rightarrow> store \<times> ctl_error option \<times> Config" where
  "SetContainer ct s c reach a1 a2 =
     (case ValidateName (Name c) of
        Some e \<Rightarrow> (s, Some (EName e), c)
      | None \<Rightarrow>
          (case ct of
             ControllerTypeDisk \<Rightarrow> setContainerByDisk s c a1 a2
           | ControllerTypeMemory \<Rightarrow>
               (let (s', c') = setContainerByMemory s c a1 a2 in (s', None, c'))
           | ControllerTypeServer \<Rightarrow> setContainerByServer s c reach a1 a2))"

section \<open>Loading, reading, deleting\<close>

definition LoadFromDisk :: "store \<Rightarrow> Config option \<Rightarrow> store \<times> bool" where
  "LoadFromDisk s co =
     (case co of
        None \<Rightarrow> (s, False)
      | Some c \<Rightarrow>
          if ValidateName (Name c) \<noteq> None then (s, False)
          else case find_index (containerList s) (Name c) of
              Some i \<Rightarrow>
                (let mem = containerList s ! i
                 in if Generation mem < Generation c
                       \<or> Generation c = 0 \<and> Generation mem = 0 \<and> c \<noteq> mem
                    then (s\<lparr>containerList := (containerList s)[i := Clone c]\<rparr>, True)
                    else (s, False))
            | None \<Rightarrow>
                (if readFile s (Name c) = None then (s, False)
                 else (s\<lparr>containerList := containerList s @ [Clone c]\<rparr>, True)))"

definition LoadFile :: "store \<Rightarrow> string \<Rightarrow> Config option" where
  "LoadFile s name =
     (case readFile s name of Some (StateFile c) \<Rightarrow> Some c | _ \<Rightarrow> None)"

definition containersFromMemory :: "store \<Rightarrow> Config list" where
  "containersFromMemory s = map Clone (containerList s)"

definition containersFromDir :: "store \<Rightarrow> Config list" where
  "containersFromDir s =
     concat (map (\<lambda>(b, f).
        case NameFromConfigFile b of
          None \<Rightarrow> []
        | Some _ \<Rightarrow> (case f of StateFile c \<Rightarrow> [c] | BadFile _ \<Rightarrow> [])) (stateDir s))"

text \<open>An unreachable daemon makes the client fall back to the files.\<close>

definition containersFromServer :: "store \<Rightarrow> bool \<Rightarrow> Config list" where
  "containersFromServer s reach = (if reach then containersFromMemory s else containersFromDir s)"

text \<open>The first call of \<open>Containers\<close> picks the controller: the daemon process loads its list from the
  directory; any other process uses the daemon when its socket answers, and the files otherwise.\<close>

definition containersInit :: "bool \<Rightarrow> bool \<Rightarrow> store \<Rightarrow> ConrollerType \<times> store \<times> Config list" where
  "containersInit is_daemon ping s =
     (if is_daemon
      then let s' = s\<lparr>containerList := containersFromDir s\<rparr>
           in (ControllerTypeMemory, s', containersFromMemory s')
      else if ping then (ControllerTypeServer, s, containersFromServer s ping)
      else (ControllerTypeDisk, s, containersFromDir s))"

text \<open>\<open>GetContainer\<close> over the list that the controller type provides.\<close>

definition GetContainer :: "Config list \<Rightarrow> string \<Rightarrow> ctl_error + Config" where
  "GetContainer conts n =
     (if n = [] \<or> n = '' '' then Inl (EName NameEmpty)
      else case find (\<lambda>c. Name c = n) conts of Some c \<Rightarrow> Inr c | None \<Rightarrow> Inl ENotFound)"

definition DeleteContainer :: "store \<Rightarrow> string \<Rightarrow> store \<times> ctl_error option" where
  "DeleteContainer s n =
     (case find_index (containerList s) n of
        None \<Rightarrow> (s, Some ENotFound)
      | Some i \<Rightarrow>
          (s\<lparr>containerList := butlast ((containerList s)[i := last (containerList s)])\<rparr>, None))"

section \<open>The daemon's view of the directory\<close>

datatype EventType = FolderCreate | FileCreate | Delete | Modified | MovedFrom | MovedTo | WatchStop

datatype diskAction = actionUnknown | actionIgnore | actionLoad | actionDelete

definition diskEventAction :: "EventType \<Rightarrow> string \<Rightarrow> diskAction" where
  "diskEventAction ev base =
     (if IsStateTempFile base then actionIgnore
      else if NameFromConfigFile base = None then actionUnknown
      else case ev of
          Modified \<Rightarrow> actionLoad | FileCreate \<Rightarrow> actionLoad | MovedTo \<Rightarrow> actionLoad
        | Delete \<Rightarrow> actionDelete | MovedFrom \<Rightarrow> actionDelete
        | FolderCreate \<Rightarrow> actionUnknown | WatchStop \<Rightarrow> actionUnknown)"

text \<open>One event of the watcher loop, when the file is read and applied at once.\<close>

definition loadByEvent :: "EventType \<Rightarrow> string \<Rightarrow> store \<Rightarrow> store" where
  "loadByEvent ev base s =
     (if ev = FolderCreate \<or> ev = WatchStop then s
      else case diskEventAction ev base of
          actionLoad \<Rightarrow>
            (case map_of (stateDir s) base of
               Some (StateFile c) \<Rightarrow> fst (LoadFromDisk s (Some c))
             | _ \<Rightarrow> s)
        | actionDelete \<Rightarrow>
            (case NameFromConfigFile base of Some n \<Rightarrow> fst (DeleteContainer s n) | None \<Rightarrow> s)
        | _ \<Rightarrow> s)"

definition onDisk :: "store \<Rightarrow> string list" where
  "onDisk s = List.map_filter (\<lambda>(b, _). NameFromConfigFile b) (stateDir s)"

definition reconcile_drop :: "string list \<Rightarrow> Config list \<Rightarrow> store \<Rightarrow> store" where
  "reconcile_drop disk mem s =
     fold (\<lambda>c s. if Name c \<in> set disk then s else fst (DeleteContainer s (Name c))) mem s"

definition reconcile_add :: "string list \<Rightarrow> Config list \<Rightarrow> store \<Rightarrow> store" where
  "reconcile_add disk mem s =
     fold (\<lambda>n s. if n \<in> Name ` set mem then s
                 else case LoadFile s n of None \<Rightarrow> s | Some c \<Rightarrow> fst (LoadFromDisk s (Some c))) disk s"

definition reconcileState :: "store \<Rightarrow> store" where
  "reconcileState s =
     (let mem = containersFromMemory s; disk = onDisk s
      in reconcile_add disk mem (reconcile_drop disk mem s))"

section \<open>Interleavings\<close>

text \<open>
  The daemon (\<open>LSet\<close> through memory, \<open>LDelete\<close>), the command line (\<open>LSet\<close> through disk, \<open>LUnlink\<close>)
  and the watcher (\<open>LRead\<close> a file, later \<open>LLoad\<close> what was read) act in any order. \<open>gen_room\<close>
  excludes only the wrap-around of the 64-bit counter.
\<close>

definition newGeneration :: "store \<Rightarrow> Config \<Rightarrow> u64" where
  "newGeneration s c =
     max (case find_index (containerList s) (Name c) of None \<Rightarrow> Generation c
          | Some i \<Rightarrow> max (Generation c) (Generation (containerList s ! i)))
       (fileGeneration (readFile s (Name c)))"

definition gen_room :: "store \<Rightarrow> Config \<Rightarrow> bool" where
  "gen_room s c \<longleftrightarrow> newGeneration s c < - 1"

record sys =
  sstore :: store
  inflight :: "Config list"

datatype label = LSet | LRead | LLoad | LDelete string | LUnlink

inductive sys_step :: "label \<Rightarrow> sys \<Rightarrow> sys \<Rightarrow> bool" where
  daemon_set: "ValidateName (Name c) = None \<Longrightarrow> gen_room (sstore s) c \<Longrightarrow>
     sys_step LSet s (s\<lparr>sstore := fst (setContainerByMemory (sstore s) c a1 a2)\<rparr>)"
| cli_set: "ValidateName (Name c) = None \<Longrightarrow>
     sys_step LSet s (s\<lparr>sstore := fst (setContainerByDisk (sstore s) c a1 a2)\<rparr>)"
| read: "LoadFile (sstore s) n = Some c \<Longrightarrow> sys_step LRead s (s\<lparr>inflight := c # inflight s\<rparr>)"
| load: "c \<in> set (inflight s) \<Longrightarrow>
     sys_step LLoad s (s\<lparr>sstore := fst (LoadFromDisk (sstore s) (Some c))\<rparr>)"
| delete: "sys_step (LDelete n) s (s\<lparr>sstore := fst (DeleteContainer (sstore s) n)\<rparr>)"
| unlink: "sys_step LUnlink s
     (s\<lparr>sstore := (sstore s)\<lparr>stateDir := AList.delete (ConfigFileBase n) (stateDir (sstore s))\<rparr>\<rparr>)"

text \<open>Runs in which the daemon does not delete \<open>n\<close>.\<close>

inductive sys_run :: "string \<Rightarrow> sys \<Rightarrow> sys \<Rightarrow> bool" for n where
  refl: "sys_run n s s"
| step: "sys_run n s t \<Longrightarrow> sys_step l t u \<Longrightarrow> l \<noteq> LDelete n \<Longrightarrow> sys_run n s u"

section \<open>The list as a map\<close>

definition mem_lookup :: "store \<Rightarrow> string \<rightharpoonup> Config" where
  "mem_lookup s n = find (\<lambda>c. Name c = n) (containerList s)"

lemma find_index_None_iff: "find_index cs n = None \<longleftrightarrow> n \<notin> Name ` set cs"
  by (induction cs) auto

lemma find_index_SomeD:
  "find_index cs n = Some i \<Longrightarrow> i < length cs \<and> Name (cs ! i) = n"
  by (induction cs arbitrary: i) (auto split: if_splits)

lemma find_as_index: "find (\<lambda>c. Name c = n) cs = map_option ((!) cs) (find_index cs n)"
  by (induction cs) (auto simp: option.map_comp comp_def)

lemma mem_lookup_index: "mem_lookup s n = map_option ((!) (containerList s)) (find_index (containerList s) n)"
  by (simp add: mem_lookup_def find_as_index)

lemma find_name_iff:
  assumes "distinct (map Name cs)"
  shows "find (\<lambda>c. Name c = n) cs = Some c \<longleftrightarrow> c \<in> set cs \<and> Name c = n"
  using assms by (induction cs) (auto simp: find_None_iff)

lemma find_name_None_iff: "find (\<lambda>c. Name c = n) cs = None \<longleftrightarrow> n \<notin> Name ` set cs"
  by (auto simp: find_None_iff)

lemma drop_absent: "n \<notin> Name ` A \<Longrightarrow> {c \<in> A. Name c \<noteq> n} = A"
  by blast

lemma map_Name_update:
  "Name c = Name (cs ! i) \<Longrightarrow> map Name (cs[i := c]) = map Name cs"
  by (metis list_update_id map_update)

lemma set_update_named:
  assumes "distinct (map Name cs)" "i < length cs" "Name c = Name (cs ! i)"
  shows "set (cs[i := c]) = insert c {d \<in> set cs. Name d \<noteq> Name c}"
proof -
  have "distinct cs" using assms(1) by (simp add: distinct_map)
  then have "set (cs[i := c]) = insert c (set cs - {cs ! i})"
    using assms(2) by (rule set_update_distinct)
  moreover have "{d \<in> set cs. Name d \<noteq> Name c} = set cs - {cs ! i}"
    using assms by (auto simp: distinct_map inj_on_def)
  ultimately show ?thesis by simp
qed

text \<open>Overwriting one slot with the last entry and cutting the list removes that slot.\<close>

lemma mset_swap_remove:
  assumes "i < length xs"
  shows "mset (butlast (xs[i := last xs])) = mset (remove1 (xs ! i) xs)"
proof -
  from assms obtain ys z where xs: "xs = ys @ [z]" by (cases xs rule: rev_cases) auto
  show ?thesis
  proof (cases "i < length ys")
    case True
    then show ?thesis
      by (simp add: xs list_update_append nth_append mset_update)
  next
    case False
    with assms xs have "i = length ys" by simp
    then show ?thesis by (simp add: xs)
  qed
qed

lemma distinct_swap_remove:
  assumes "distinct (map Name cs)" "find_index cs n = Some i"
  shows "distinct (map Name (butlast (cs[i := last cs])))"
    and "set (butlast (cs[i := last cs])) = {c \<in> set cs. Name c \<noteq> n}"
proof -
  have i: "i < length cs" "Name (cs ! i) = n" using find_index_SomeD [OF assms(2)] by auto
  have m: "mset (butlast (cs[i := last cs])) = mset (remove1 (cs ! i) cs)"
    by (rule mset_swap_remove [OF i(1)])
  have "distinct (map Name (remove1 (cs ! i) cs))"
    using assms(1) by (auto simp: distinct_map inj_on_def dest: notin_set_remove1)
  moreover have "mset (map Name (butlast (cs[i := last cs]))) = mset (map Name (remove1 (cs ! i) cs))"
    by (simp add: m mset_map)
  ultimately show "distinct (map Name (butlast (cs[i := last cs])))"
    using mset_eq_imp_distinct_iff by blast
  have "set (butlast (cs[i := last cs])) = set (remove1 (cs ! i) cs)"
    by (rule mset_eq_setD [OF m])
  also have "\<dots> = set cs - {cs ! i}"
    using assms(1) by (simp add: distinct_map)
  also have "\<dots> = {c \<in> set cs. Name c \<noteq> n}"
    using assms(1) i by (auto simp: distinct_map inj_on_def)
  finally show "set (butlast (cs[i := last cs])) = {c \<in> set cs. Name c \<noteq> n}" .
qed

section \<open>The invariant of the store\<close>

text \<open>Names are valid and unique in memory, the directory has one entry per base name, and a state file
  holds the record its file name says.\<close>

definition store_inv :: "store \<Rightarrow> bool" where
  "store_inv s \<longleftrightarrow>
     distinct (map Name (containerList s))
     \<and> (\<forall>c \<in> set (containerList s). ValidateName (Name c) = None)
     \<and> distinct (map fst (stateDir s))
     \<and> (\<forall>n c. readFile s n = Some (StateFile c) \<longrightarrow> Name c = n)"

lemma mem_lookup_iff:
  "store_inv s \<Longrightarrow> mem_lookup s n = Some c \<longleftrightarrow> c \<in> set (containerList s) \<and> Name c = n"
  by (simp add: mem_lookup_def store_inv_def find_name_iff)

lemma mem_lookup_None_iff: "mem_lookup s n = None \<longleftrightarrow> n \<notin> Name ` set (containerList s)"
  by (simp add: mem_lookup_def find_name_None_iff)

lemma AList_delete_fresh: "k \<notin> fst ` set al \<Longrightarrow> AList.delete k (AList.update k v al) = al"
  by (induction al) (auto simp: AList.delete_eq)

lemma writeStateFile_cases:
  assumes "base \<noteq> tempName base (a_rnd a)"
  shows "writeStateFile dir base data a = (dir, False)
    \<or> writeStateFile dir base data a = (AList.update base data dir, True)"
proof (cases "tempName base (a_rnd a) \<in> fst ` set dir")
  case True
  then show ?thesis by (simp add: writeStateFile_def Let_def)
next
  case False
  have "AList.update k v2 (AList.update k v1 dir) = AList.update k v2 dir" for k :: string and v1 v2 :: state_file
    by (induction dir) auto
  with False show ?thesis
    by (auto simp: writeStateFile_def Let_def AList_delete_fresh)
qed

lemma tempName_neq: "base \<noteq> tempName base r"
proof
  assume "base = tempName base r"
  then have "length base = length (tempName base r)" by simp
  then show False by (simp add: tempName_def)
qed

lemma writeContainerFile_cases:
  "writeContainerFile dir base data a1 a2 = (dir, False)
   \<or> writeContainerFile dir base data a1 a2 = (AList.update base data dir, True)"
  using writeStateFile_cases [OF tempName_neq, of dir base data a1]
    writeStateFile_cases [OF tempName_neq, of dir base data a2]
  by (auto simp: writeContainerFile_def)

lemma dir_inv_update:
  assumes "distinct (map fst dir)"
  shows "distinct (map fst (AList.update b f dir))"
  using assms by (rule AList.distinct_update)

text \<open>What is stored for \<open>c\<close>: the record under its new generation.\<close>

definition stamped :: "store \<Rightarrow> Config \<Rightarrow> Config" where
  "stamped s c = c\<lparr>Generation := newGeneration s c + 1\<rparr>"

lemma Name_stamped [simp]: "Name (stamped s c) = Name c"
  by (simp add: stamped_def)

lemma setContainerByMemory_eq:
  "setContainerByMemory s c a1 a2 =
     (s\<lparr>containerList := (case find_index (containerList s) (Name c) of
            Some i \<Rightarrow> (containerList s)[i := stamped s c] | None \<Rightarrow> containerList s @ [stamped s c]),
        stateDir := (if readFile s (Name c) = Some (StateFile (stamped s c)) then stateDir s
            else fst (writeContainerFile (stateDir s) (ConfigFileBase (Name c)) (StateFile (stamped s c)) a1 a2))\<rparr>,
      stamped s c)"
  by (cases "find_index (containerList s) (Name c)")
    (simp_all add: setContainerByMemory_def stamped_def newGeneration_def Clone_def Let_def)

lemma setContainerByMemory_dir:
  "stateDir (fst (setContainerByMemory s c a1 a2)) = stateDir s
   \<or> stateDir (fst (setContainerByMemory s c a1 a2)) =
       AList.update (ConfigFileBase (Name c)) (StateFile (stamped s c)) (stateDir s)"
  using writeContainerFile_cases [of "stateDir s" "ConfigFileBase (Name c)" "StateFile (stamped s c)" a1 a2]
  by (auto simp: setContainerByMemory_eq)

lemma setContainerByMemory_list:
  assumes "distinct (map Name (containerList s))"
  shows "set (containerList (fst (setContainerByMemory s c a1 a2))) =
           insert (stamped s c) {d \<in> set (containerList s). Name d \<noteq> Name c}"
    and "distinct (map Name (containerList (fst (setContainerByMemory s c a1 a2))))"
proof -
  let ?cs = "containerList s"
  have "set (case find_index ?cs (Name c) of Some i \<Rightarrow> ?cs[i := stamped s c] | None \<Rightarrow> ?cs @ [stamped s c])
      = insert (stamped s c) {d \<in> set ?cs. Name d \<noteq> Name c}
    \<and> distinct (map Name (case find_index ?cs (Name c) of Some i \<Rightarrow> ?cs[i := stamped s c]
        | None \<Rightarrow> ?cs @ [stamped s c]))"
  proof (cases "find_index ?cs (Name c)")
    case None
    then have n: "Name c \<notin> Name ` set ?cs" by (simp add: find_index_None_iff)
    with assms None show ?thesis by (simp add: drop_absent)
  next
    case (Some i)
    then have i: "i < length ?cs" "Name (?cs ! i) = Name c" using find_index_SomeD by auto
    have "map Name (?cs[i := stamped s c]) = map Name ?cs"
      by (rule map_Name_update) (simp add: i)
    with assms Some i set_update_named [OF assms i(1), of "stamped s c"] show ?thesis by simp
  qed
  then show "set (containerList (fst (setContainerByMemory s c a1 a2))) =
        insert (stamped s c) {d \<in> set ?cs. Name d \<noteq> Name c}"
    and "distinct (map Name (containerList (fst (setContainerByMemory s c a1 a2))))"
    by (simp_all add: setContainerByMemory_eq)
qed

lemma readFile_inv_update:
  assumes "\<forall>n c. map_of dir (ConfigFileBase n) = Some (StateFile c) \<longrightarrow> Name c = n" "Name c = m"
  shows "\<forall>n d. map_of (AList.update (ConfigFileBase m) (StateFile c) dir) (ConfigFileBase n)
     = Some (StateFile d) \<longrightarrow> Name d = n"
  using assms by (auto simp: AList.update_conv')

text \<open>The shape of every write: a list with valid unique names, and a directory that is unchanged or has
  one record stored under its own name.\<close>

lemma store_inv_write:
  assumes "store_inv s"
    and dir: "stateDir t = stateDir s \<or> stateDir t = AList.update (ConfigFileBase (Name c)) (StateFile c) (stateDir s)"
    and cl: "distinct (map Name (containerList t))" "\<forall>d \<in> set (containerList t). ValidateName (Name d) = None"
  shows "store_inv t"
  using dir
proof
  assume "stateDir t = stateDir s"
  with assms(1) cl show ?thesis by (simp add: store_inv_def readFile_def)
next
  assume *: "stateDir t = AList.update (ConfigFileBase (Name c)) (StateFile c) (stateDir s)"
  have "\<forall>n d. map_of (stateDir t) (ConfigFileBase n) = Some (StateFile d) \<longrightarrow> Name d = n"
    unfolding * by (rule readFile_inv_update) (use assms(1) in \<open>simp_all add: store_inv_def readFile_def\<close>)
  moreover have "distinct (map fst (stateDir t))"
    unfolding * by (rule dir_inv_update) (use assms(1) in \<open>simp add: store_inv_def\<close>)
  ultimately show ?thesis
    using cl by (simp add: store_inv_def readFile_def)
qed

lemma setContainerByMemory_inv:
  assumes "store_inv s" "ValidateName (Name c) = None"
  shows "store_inv (fst (setContainerByMemory s c a1 a2))"
proof (rule store_inv_write [OF assms(1)])
  have d: "distinct (map Name (containerList s))" using assms(1) by (simp add: store_inv_def)
  note l = setContainerByMemory_list [OF d, of c a1 a2]
  show "distinct (map Name (containerList (fst (setContainerByMemory s c a1 a2))))" by (rule l(2))
  show "\<forall>d \<in> set (containerList (fst (setContainerByMemory s c a1 a2))). ValidateName (Name d) = None"
    using assms by (simp add: l(1) store_inv_def)
  show "stateDir (fst (setContainerByMemory s c a1 a2)) = stateDir s
    \<or> stateDir (fst (setContainerByMemory s c a1 a2)) =
       AList.update (ConfigFileBase (Name (stamped s c))) (StateFile (stamped s c)) (stateDir s)"
    using setContainerByMemory_dir [of s c a1 a2] by simp
qed

lemma mem_lookup_set:
  assumes "store_inv s"
  shows "mem_lookup (fst (setContainerByMemory s c a1 a2)) = (mem_lookup s)(Name c \<mapsto> stamped s c)"
proof
  fix n
  have d: "distinct (map Name (containerList s))" using assms by (simp add: store_inv_def)
  note l = setContainerByMemory_list [OF d, of c a1 a2]
  show "mem_lookup (fst (setContainerByMemory s c a1 a2)) n = ((mem_lookup s)(Name c \<mapsto> stamped s c)) n"
  proof (cases "n = Name c")
    case True
    then show ?thesis by (simp add: mem_lookup_def find_name_iff l)
  next
    case False
    have "find (\<lambda>c. Name c = n) (containerList (fst (setContainerByMemory s c a1 a2))) = Some e
        \<longleftrightarrow> find (\<lambda>c. Name c = n) (containerList s) = Some e" for e
      using False by (auto simp: find_name_iff l d)
    then show ?thesis
      using False by (metis (no_types) fun_upd_other mem_lookup_def option.exhaust)
  qed
qed

lemma mem_lookup_delete:
  assumes "store_inv s"
  shows "mem_lookup (fst (DeleteContainer s n)) = (mem_lookup s)(n := None)"
proof (cases "find_index (containerList s) n")
  case None
  then show ?thesis
    by (auto simp: DeleteContainer_def mem_lookup_index fun_eq_iff)
next
  case (Some i)
  have d: "distinct (map Name (containerList s))" using assms by (simp add: store_inv_def)
  note r = distinct_swap_remove [OF d Some]
  have eq: "containerList (fst (DeleteContainer s n)) = butlast ((containerList s)[i := last (containerList s)])"
    by (simp add: DeleteContainer_def Some)
  have "mem_lookup (fst (DeleteContainer s n)) m = ((mem_lookup s)(n := None)) m" for m
  proof (cases "m = n")
    case True
    have "n \<notin> Name ` set (containerList (fst (DeleteContainer s n)))"
      by (auto simp: eq r)
    with True show ?thesis by (simp add: mem_lookup_None_iff)
  next
    case False
    have "find (\<lambda>c. Name c = m) (containerList (fst (DeleteContainer s n))) = Some e
        \<longleftrightarrow> find (\<lambda>c. Name c = m) (containerList s) = Some e" for e
      using False by (auto simp: find_name_iff eq r d)
    then show ?thesis
      using False by (metis (no_types) fun_upd_other mem_lookup_def option.exhaust)
  qed
  then show ?thesis by blast
qed

lemma DeleteContainer_dir [simp]: "stateDir (fst (DeleteContainer s n)) = stateDir s"
  by (auto simp: DeleteContainer_def split: option.split)

lemma DeleteContainer_set:
  assumes "store_inv s"
  shows "set (containerList (fst (DeleteContainer s n))) = {c \<in> set (containerList s). Name c \<noteq> n}"
    and "distinct (map Name (containerList (fst (DeleteContainer s n))))"
proof -
  have d: "distinct (map Name (containerList s))" using assms by (simp add: store_inv_def)
  show "set (containerList (fst (DeleteContainer s n))) = {c \<in> set (containerList s). Name c \<noteq> n}"
  proof (cases "find_index (containerList s) n")
    case None
    then have "n \<notin> Name ` set (containerList s)" by (simp add: find_index_None_iff)
    with None show ?thesis by (simp add: DeleteContainer_def drop_absent)
  next
    case (Some i)
    with distinct_swap_remove [OF d Some] show ?thesis by (simp add: DeleteContainer_def)
  qed
  show "distinct (map Name (containerList (fst (DeleteContainer s n))))"
    using d distinct_swap_remove(1) [OF d]
    by (cases "find_index (containerList s) n") (simp_all add: DeleteContainer_def)
qed

lemma DeleteContainer_inv: "store_inv s \<Longrightarrow> store_inv (fst (DeleteContainer s n))"
  using DeleteContainer_set [of s n] by (auto simp: store_inv_def readFile_def)

section \<open>A store as an interface\<close>

text \<open>What the rest of the daemon relies on: after a set the record is found under its name with its
  stamp, after a delete it is not found, other names are untouched.\<close>

locale record_store =
  fixes invar :: "'s \<Rightarrow> bool"
    and lookup :: "'s \<Rightarrow> string \<rightharpoonup> 'c"
    and key :: "'c \<Rightarrow> string"
    and okkey :: "string \<Rightarrow> bool"
    and stamp :: "'s \<Rightarrow> 'c \<Rightarrow> 'c"
    and put :: "'s \<Rightarrow> 'c \<Rightarrow> 's"
    and del :: "'s \<Rightarrow> string \<Rightarrow> 's"
  assumes invar_put: "invar s \<Longrightarrow> okkey (key c) \<Longrightarrow> invar (put s c)"
    and invar_del: "invar s \<Longrightarrow> invar (del s n)"
    and lookup_put: "invar s \<Longrightarrow> lookup (put s c) = (lookup s)(key c \<mapsto> stamp s c)"
    and lookup_del: "invar s \<Longrightarrow> lookup (del s n) = (lookup s)(n := None)"
begin

lemma put_del: "invar s \<Longrightarrow> okkey (key c) \<Longrightarrow> lookup (del (put s c) (key c)) = (lookup s)(key c := None)"
  by (simp add: lookup_del lookup_put invar_put)

lemma del_put: "invar s \<Longrightarrow> lookup (put (del s (key c)) c) = (lookup s)(key c \<mapsto> stamp (del s (key c)) c)"
  by (simp add: lookup_del lookup_put invar_del)

lemma dom_put: "invar s \<Longrightarrow> dom (lookup (put s c)) = insert (key c) (dom (lookup s))"
  by (simp add: lookup_put)

lemma puts_dom:
  "invar s \<Longrightarrow> list_all (\<lambda>c. okkey (key c)) cs \<Longrightarrow>
     invar (foldl put s cs) \<and> dom (lookup (foldl put s cs)) = dom (lookup s) \<union> key ` set cs"
proof (induction cs arbitrary: s)
  case Nil
  then show ?case by simp
next
  case (Cons c cs)
  then have "invar (put s c)" by (simp add: invar_put)
  with Cons show ?case by (auto simp: dom_put)
qed

end

interpretation mem: record_store store_inv mem_lookup Name "\<lambda>n. ValidateName n = None" stamped
  "\<lambda>s c. fst (setContainerByMemory s c a1 a2)" "\<lambda>s n. fst (DeleteContainer s n)" for a1 a2
  by unfold_locales
    (auto simp: setContainerByMemory_inv DeleteContainer_inv mem_lookup_set mem_lookup_delete)


section \<open>Every step keeps the invariant\<close>

lemma store_invD:
  assumes "store_inv s"
  shows "distinct (map Name (containerList s))" "\<forall>c \<in> set (containerList s). ValidateName (Name c) = None"
    "distinct (map fst (stateDir s))" "readFile s n = Some (StateFile c) \<Longrightarrow> Name c = n"
  using assms by (auto simp: store_inv_def)

lemma setContainerByDisk_list [simp]:
  "containerList (fst (setContainerByDisk s c a1 a2)) = containerList s"
  by (simp add: setContainerByDisk_def Let_def split: prod.split)

lemma setContainerByDisk_inv:
  assumes "store_inv s"
  shows "store_inv (fst (setContainerByDisk s c a1 a2))"
proof (cases "Name c = []")
  case True
  with assms show ?thesis by (simp add: setContainerByDisk_def)
next
  case False
  let ?c = "c\<lparr>Generation := max (Generation c) (fileGeneration (readFile s (Name c))) + 1\<rparr>"
  let ?t = "fst (setContainerByDisk s c a1 a2)"
  have "stateDir ?t = stateDir s
      \<or> stateDir ?t = AList.update (ConfigFileBase (Name ?c)) (StateFile ?c) (stateDir s)"
    using writeContainerFile_cases [of "stateDir s" "ConfigFileBase (Name c)" "StateFile ?c" a1 a2] False
    by (auto simp: setContainerByDisk_def Let_def)
  then show ?thesis
    by (rule store_inv_write [OF assms]) (use assms in \<open>simp_all add: store_inv_def\<close>)
qed

lemma LoadFromDisk_dir [simp]: "stateDir (fst (LoadFromDisk s co)) = stateDir s"
  by (auto simp: LoadFromDisk_def Let_def split: option.split)

lemma LoadFromDisk_list:
  assumes "store_inv s"
  shows "containerList (fst (LoadFromDisk s (Some c))) = containerList s
    \<or> ValidateName (Name c) = None
       \<and> distinct (map Name (containerList (fst (LoadFromDisk s (Some c)))))
       \<and> set (containerList (fst (LoadFromDisk s (Some c)))) = insert c {d \<in> set (containerList s). Name d \<noteq> Name c}
       \<and> (\<forall>m. mem_lookup s (Name c) = Some m \<longrightarrow>
             Generation m < Generation c \<or> Generation c = 0 \<and> Generation m = 0)"
proof (cases "ValidateName (Name c)")
  case None
  note d = store_invD(1) [OF assms]
  show ?thesis
  proof (cases "find_index (containerList s) (Name c)")
    assume i: "find_index (containerList s) (Name c) = None"
    then have "Name c \<notin> Name ` set (containerList s)" by (simp add: find_index_None_iff)
    with None i d show ?thesis
      by (simp add: LoadFromDisk_def drop_absent Clone_def mem_lookup_index)
  next
    fix i assume s: "find_index (containerList s) (Name c) = Some i"
    then have i: "i < length (containerList s)" "Name (containerList s ! i) = Name c"
      using find_index_SomeD by auto
    have m: "map Name ((containerList s)[i := c]) = map Name (containerList s)"
      by (rule map_Name_update) (simp add: i)
    from None s i m d set_update_named [OF d i(1), of c] show ?thesis
      by (auto simp: LoadFromDisk_def Clone_def mem_lookup_index Let_def)
  qed
qed (simp add: LoadFromDisk_def)

lemma LoadFromDisk_inv:
  assumes "store_inv s"
  shows "store_inv (fst (LoadFromDisk s co))"
proof (cases co)
  case None
  with assms show ?thesis by (simp add: LoadFromDisk_def)
next
  case (Some c)
  from LoadFromDisk_list [OF assms, of c] show ?thesis
  proof
    assume "containerList (fst (LoadFromDisk s (Some c))) = containerList s"
    with assms Some show ?thesis by (simp add: store_inv_def readFile_def)
  next
    assume "ValidateName (Name c) = None
       \<and> distinct (map Name (containerList (fst (LoadFromDisk s (Some c)))))
       \<and> set (containerList (fst (LoadFromDisk s (Some c)))) = insert c {d \<in> set (containerList s). Name d \<noteq> Name c}
       \<and> (\<forall>m. mem_lookup s (Name c) = Some m \<longrightarrow>
             Generation m < Generation c \<or> Generation c = 0 \<and> Generation m = 0)"
    with assms Some show ?thesis by (simp add: store_inv_def readFile_def)
  qed
qed

lemma unlink_inv:
  assumes "store_inv s"
  shows "store_inv (s\<lparr>stateDir := AList.delete (ConfigFileBase n) (stateDir s)\<rparr>)"
  using assms by (auto simp: store_inv_def readFile_def AList.delete_conv' AList.distinct_delete)

lemma loadByEvent_inv: "store_inv s \<Longrightarrow> store_inv (loadByEvent ev base s)"
  by (auto simp: loadByEvent_def LoadFromDisk_inv DeleteContainer_inv
      split: diskAction.split option.split state_file.split)

inductive_cases sys_stepE: "sys_step l s t"

lemma sys_step_inv: "sys_step l s t \<Longrightarrow> store_inv (sstore s) \<Longrightarrow> store_inv (sstore t)"
  by (erule sys_stepE)
    (simp_all add: setContainerByMemory_inv setContainerByDisk_inv LoadFromDisk_inv DeleteContainer_inv unlink_inv)

lemma sys_run_inv: "sys_run n s t \<Longrightarrow> store_inv (sstore s) \<Longrightarrow> store_inv (sstore t)"
  by (induction rule: sys_run.induct) (auto intro: sys_step_inv)


section \<open>Generations only grow\<close>

text \<open>The record \<open>d\<close> is not older than \<open>c\<close>.\<close>

definition not_older :: "Config \<Rightarrow> Config \<Rightarrow> bool" where
  "not_older c d \<longleftrightarrow> d = c \<or> Generation c < Generation d \<or> Generation c = 0 \<and> Generation d = 0"

lemma not_older_trans: "not_older c d \<Longrightarrow> not_older d e \<Longrightarrow> not_older c e"
  by (auto simp: not_older_def)

lemma word_less_Suc: "x < - 1 \<Longrightarrow> x < x + 1" for x :: u64
  by unat_arith

lemma stamped_newer:
  assumes "gen_room s c" "mem_lookup s (Name c) = Some m"
  shows "Generation m < Generation (stamped s c)"
proof -
  have "newGeneration s c < newGeneration s c + 1"
    using assms(1) word_less_Suc by (simp add: gen_room_def)
  moreover have "Generation m \<le> newGeneration s c"
    using assms(2) by (auto simp: newGeneration_def mem_lookup_index le_max_iff_disj)
  ultimately show ?thesis by (simp add: stamped_def)
qed

lemma LoadFromDisk_not_older:
  assumes "store_inv s" "mem_lookup s n = Some m"
  shows "\<exists>d. mem_lookup (fst (LoadFromDisk s (Some c))) n = Some d \<and> not_older m d"
proof -
  let ?t = "fst (LoadFromDisk s (Some c))"
  have inv: "store_inv ?t" by (rule LoadFromDisk_inv [OF assms(1)])
  note m = mem_lookup_iff [OF assms(1), THEN iffD1, OF assms(2)]
  from LoadFromDisk_list [OF assms(1), of c] show ?thesis
  proof
    assume "containerList ?t = containerList s"
    with assms(2) show ?thesis by (simp add: mem_lookup_def not_older_def)
  next
    assume l: "ValidateName (Name c) = None \<and> distinct (map Name (containerList ?t))
       \<and> set (containerList ?t) = insert c {d \<in> set (containerList s). Name d \<noteq> Name c}
       \<and> (\<forall>m. mem_lookup s (Name c) = Some m \<longrightarrow>
             Generation m < Generation c \<or> Generation c = 0 \<and> Generation m = 0)"
    show ?thesis
    proof (cases "n = Name c")
      case True
      with l assms(2) have "not_older m c" by (auto simp: not_older_def)
      with l True mem_lookup_iff [OF inv, of n c] show ?thesis by simp
    next
      case False
      with l m mem_lookup_iff [OF inv, of n m] show ?thesis by (auto simp: not_older_def)
    qed
  qed
qed

lemma sys_step_not_older:
  assumes "sys_step l s t" "store_inv (sstore s)" "l \<noteq> LDelete n" "mem_lookup (sstore s) n = Some c"
  shows "\<exists>d. mem_lookup (sstore t) n = Some d \<and> not_older c d"
  using assms(1)
proof (cases rule: sys_step.cases)
  case (daemon_set e a1 a2)
  then show ?thesis
    using assms stamped_newer [of "sstore s" e]
    by (cases "n = Name e") (auto simp: mem_lookup_set not_older_def)
next
  case (load e)
  then show ?thesis using LoadFromDisk_not_older [OF assms(2,4)] by simp
qed (use assms in \<open>auto simp: mem_lookup_delete mem_lookup_def not_older_def\<close>)

lemma sys_run_not_older:
  "sys_run n s t \<Longrightarrow> store_inv (sstore s) \<Longrightarrow> mem_lookup (sstore s) n = Some c \<Longrightarrow>
     \<exists>d. mem_lookup (sstore t) n = Some d \<and> not_older c d"
proof (induction rule: sys_run.induct)
  case (refl s)
  then show ?case by (simp add: not_older_def)
next
  case (step s t l u)
  then obtain d where "mem_lookup (sstore t) n = Some d" "not_older c d" by auto
  moreover have "store_inv (sstore t)" using step sys_run_inv by blast
  ultimately show ?case
    using sys_step_not_older [OF step.hyps(2)] step.hyps(3) not_older_trans by blast
qed

section \<open>Reconciliation\<close>

lemma onDisk_iff:
  assumes "store_inv s"
  shows "n \<in> set (onDisk s) \<longleftrightarrow> ValidateName n = None \<and> readFile s n \<noteq> None"
proof -
  have "n \<in> set (onDisk s) \<longleftrightarrow> (\<exists>b \<in> fst ` set (stateDir s). NameFromConfigFile b = Some n)"
    by (force simp: onDisk_def List.map_filter_def)
  also have "\<dots> \<longleftrightarrow> ValidateName n = None \<and> ConfigFileBase n \<in> fst ` set (stateDir s)"
    using NameFromConfigFile_SomeD NameFromConfigFile_base by (metis option.inject option.simps(3))
  finally show ?thesis by (simp add: readFile_def map_of_eq_None_iff)
qed

lemma onDisk_distinct:
  assumes "store_inv s"
  shows "distinct (onDisk s)"
proof -
  have "distinct (List.map_filter (\<lambda>(b, _). NameFromConfigFile b) d)" if "distinct (map fst d)"
    for d :: "(string \<times> state_file) list"
    using that
  proof (induction d)
    case (Cons x d)
    have "n \<notin> set (List.map_filter (\<lambda>(b, _). NameFromConfigFile b) d)"
      if "NameFromConfigFile (fst x) = Some n" for n
      using Cons.prems NameFromConfigFile_SomeD [OF that]
      by (force simp: List.map_filter_def dest: NameFromConfigFile_SomeD)
    with Cons show ?case by (cases x) (auto simp: map_filter_simps split: option.split)
  qed (simp add: map_filter_simps)
  from this [OF store_invD(3) [OF assms]] show ?thesis by (simp add: onDisk_def)
qed

lemma reconcile_drop_lookup:
  assumes "store_inv s"
  shows "store_inv (reconcile_drop disk mem s) \<and> stateDir (reconcile_drop disk mem s) = stateDir s
    \<and> mem_lookup (reconcile_drop disk mem s) n =
        (if n \<in> Name ` set mem \<and> n \<notin> set disk then None else mem_lookup s n)"
  using assms
proof (induction mem arbitrary: s)
  case Nil
  then show ?case by (simp add: reconcile_drop_def)
next
  case (Cons c mem)
  show ?case
  proof (cases "Name c \<in> set disk")
    case True
    with Cons.IH [OF Cons.prems] show ?thesis by (auto simp: reconcile_drop_def)
  next
    case False
    with Cons.IH [OF DeleteContainer_inv [OF Cons.prems, of "Name c"]] show ?thesis
      by (auto simp: reconcile_drop_def mem_lookup_delete [OF Cons.prems])
  qed
qed

lemma LoadFromDisk_add:
  assumes "store_inv s" "ValidateName n = None" "mem_lookup s n = None" "LoadFile s n = Some c"
  shows "mem_lookup (fst (LoadFromDisk s (Some c))) = (mem_lookup s)(n \<mapsto> c)"
proof -
  from assms(4) have f: "readFile s n = Some (StateFile c)"
    by (auto simp: LoadFile_def split: option.splits state_file.splits)
  then have n: "Name c = n" using store_invD(4) [OF assms(1)] by blast
  from assms(3) n have i: "find_index (containerList s) (Name c) = None"
    by (simp add: mem_lookup_index)
  have l: "containerList (fst (LoadFromDisk s (Some c))) = containerList s @ [c]"
    using assms(2) f n i by (simp add: LoadFromDisk_def Clone_def)
  have "find P (xs @ [x]) = (case find P xs of None \<Rightarrow> if P x then Some x else None | Some y \<Rightarrow> Some y)"
    for P :: "Config \<Rightarrow> bool" and xs x by (induction xs) auto
  then show ?thesis
    using assms(3) n by (auto simp: fun_eq_iff mem_lookup_def l split: option.split)
qed

lemma reconcile_add_lookup:
  assumes "store_inv s" "distinct disk" "\<forall>n \<in> set disk. ValidateName n = None"
    "\<forall>n \<in> set disk. n \<notin> Name ` set mem \<longrightarrow> mem_lookup s n = None"
  shows "store_inv (reconcile_add disk mem s) \<and> stateDir (reconcile_add disk mem s) = stateDir s
    \<and> mem_lookup (reconcile_add disk mem s) n =
        (if n \<in> set disk \<and> n \<notin> Name ` set mem then LoadFile s n else mem_lookup s n)"
  using assms
proof (induction disk arbitrary: s)
  case Nil
  then show ?case by (simp add: reconcile_add_def)
next
  case (Cons m disk)
  show ?case
  proof (cases "m \<notin> Name ` set mem \<and> LoadFile s m \<noteq> None")
    case True
    then obtain c where c: "LoadFile s m = Some c" by auto
    let ?t = "fst (LoadFromDisk s (Some c))"
    have l: "mem_lookup ?t = (mem_lookup s)(m \<mapsto> c)"
      using LoadFromDisk_add [OF Cons.prems(1) _ _ c] Cons.prems(3,4) True by simp
    have f: "LoadFile ?t = LoadFile s" by (simp add: LoadFile_def readFile_def fun_eq_iff)
    have r: "reconcile_add (m # disk) mem s = reconcile_add disk mem ?t"
      using True c by (simp add: reconcile_add_def)
    have pre: "\<forall>n \<in> set disk. n \<notin> Name ` set mem \<longrightarrow> mem_lookup ?t n = None"
      using Cons.prems(2,4) by (auto simp: l)
    have "store_inv ?t" by (rule LoadFromDisk_inv [OF Cons.prems(1)])
    from Cons.IH [OF this _ _ pre] Cons.prems(2,3) True c show ?thesis
      unfolding r by (simp add: l f)
  next
    case False
    then have r: "reconcile_add (m # disk) mem s = reconcile_add disk mem s"
      by (auto simp: reconcile_add_def)
    have "mem_lookup s m = LoadFile s m" if "m \<notin> Name ` set mem"
      using False that Cons.prems(4) by simp
    then show ?thesis
      unfolding r using Cons.IH [of s] Cons.prems by auto
  qed
qed

lemma reconcileState_lookup:
  assumes "store_inv s"
  shows "store_inv (reconcileState s) \<and> stateDir (reconcileState s) = stateDir s
    \<and> mem_lookup (reconcileState s) n =
        (if n \<in> set (onDisk s)
         then (case mem_lookup s n of Some c \<Rightarrow> Some c | None \<Rightarrow> LoadFile s n) else None)"
proof -
  let ?mem = "containersFromMemory s" and ?d = "onDisk s"
  let ?s1 = "reconcile_drop ?d ?mem s"
  have nm: "m \<in> Name ` set ?mem \<longleftrightarrow> mem_lookup s m \<noteq> None" for m
    by (auto simp: containersFromMemory_def mem_lookup_None_iff image_iff)
  note dr = reconcile_drop_lookup [OF assms, of ?d ?mem]
  have lf: "LoadFile ?s1 = LoadFile s" using dr by (simp add: LoadFile_def readFile_def fun_eq_iff)
  have ad: "store_inv (reconcile_add ?d ?mem ?s1) \<and> stateDir (reconcile_add ?d ?mem ?s1) = stateDir ?s1
    \<and> mem_lookup (reconcile_add ?d ?mem ?s1) n =
        (if n \<in> set ?d \<and> n \<notin> Name ` set ?mem then LoadFile ?s1 n else mem_lookup ?s1 n)"
    by (rule reconcile_add_lookup)
      (use dr onDisk_distinct [OF assms] onDisk_iff [OF assms] nm in auto)
  have "reconcileState s = reconcile_add ?d ?mem ?s1" by (simp add: reconcileState_def Let_def)
  with ad dr [of n] nm [of n] lf show ?thesis by (auto split: option.split)
qed


section \<open>Properties\<close>

text \<open>Sample values for the witnesses.\<close>

definition cfg0 :: Config where
  "cfg0 = \<lparr>Name = ''web'', Generation = 3, HostPid = 10, ContPid = 11, HostPidStart = 1, ContPidStart = 2,
     Startup = True, Status = ''running'', HostArgs = [], VM = [], Others = []\<rparr>"

definition att0 :: attempt where
  "att0 = \<lparr>a_rnd = ''42'', a_fail = None, a_notexist = False\<rparr>"

definition store0 :: store where
  "store0 = \<lparr>containerList = [cfg0], stateDir = [(''web.json'', StateFile cfg0)]\<rparr>"

lemma cfg0_simps [simp]: "Name cfg0 = ''web''" "Generation cfg0 = 3"
  by (simp_all add: cfg0_def)

lemma web_valid [simp]: "ValidateName ''web'' = None"
  by code_simp

lemma store0_inv: "store_inv store0"
  by (auto simp: store_inv_def store0_def readFile_def ConfigFileBase_def split: if_splits)

lemma controller_map_laws:
  assumes "store_inv s"
  shows "ValidateName (Name c) = None \<Longrightarrow>
      SetContainer ControllerTypeMemory s c reach a1 a2 = (s', e, c') \<Longrightarrow>
        e = None \<and> store_inv s' \<and> c' = stamped s c
        \<and> GetContainer (containersFromMemory s') (Name c) = Inr c'
        \<and> (\<forall>n. n \<noteq> Name c \<longrightarrow>
             GetContainer (containersFromMemory s') n = GetContainer (containersFromMemory s) n)"
    and "ValidateName (Name c) = Some err \<Longrightarrow>
      SetContainer ct s c reach a1 a2 = (s, Some (EName err), c)"
    and "DeleteContainer s n = (s', e) \<Longrightarrow>
      store_inv s' \<and> (e = None \<longleftrightarrow> n \<in> Name ` set (containerList s))
      \<and> (\<forall>m. mem_lookup s' m = (if m = n then None else mem_lookup s m))"
proof -
  have gc: "GetContainer (containersFromMemory t) m =
      (if m = [] \<or> m = '' '' then Inl (EName NameEmpty)
       else case mem_lookup t m of Some d \<Rightarrow> Inr d | None \<Rightarrow> Inl ENotFound)" for t m
    by (simp add: GetContainer_def containersFromMemory_def mem_lookup_def)
  {
    assume v: "ValidateName (Name c) = None"
      and set: "SetContainer ControllerTypeMemory s c reach a1 a2 = (s', e, c')"
    then have m: "s' = fst (setContainerByMemory s c a1 a2)" "c' = stamped s c" "e = None"
      by (auto simp: SetContainer_def setContainerByMemory_eq)
    have "Name c \<noteq> []" "Name c \<noteq> '' ''"
      using v by (auto simp: ValidateName_None_iff is_alnum_def Let_def)
    with m show "e = None \<and> store_inv s' \<and> c' = stamped s c
        \<and> GetContainer (containersFromMemory s') (Name c) = Inr c'
        \<and> (\<forall>n. n \<noteq> Name c \<longrightarrow>
             GetContainer (containersFromMemory s') n = GetContainer (containersFromMemory s) n)"
      using mem.invar_put [OF assms v] mem.lookup_put [OF assms] by (simp add: gc)
  next
    assume "ValidateName (Name c) = Some err"
    then show "SetContainer ct s c reach a1 a2 = (s, Some (EName err), c)"
      by (simp add: SetContainer_def)
  next
    assume d: "DeleteContainer s n = (s', e)"
    then have "s' = fst (DeleteContainer s n)" "e = snd (DeleteContainer s n)" by simp_all
    moreover have "snd (DeleteContainer s n) = None \<longleftrightarrow> n \<in> Name ` set (containerList s)"
      using find_index_None_iff [of "containerList s" n]
      by (auto simp: DeleteContainer_def split: option.split)
    ultimately show "store_inv s' \<and> (e = None \<longleftrightarrow> n \<in> Name ` set (containerList s))
      \<and> (\<forall>m. mem_lookup s' m = (if m = n then None else mem_lookup s m))"
      using mem.invar_del [OF assms] mem.lookup_del [OF assms] by simp
  }
qed

text \<open>C2: the daemon's store implements a map. A record set through the memory controller is the one
  \<open>GetContainer\<close> returns afterwards, with a raised generation; a deleted name is reported as not found;
  every other name keeps its record; a name that \<open>ValidateName\<close> refuses changes nothing and returns the
  error.\<close>

theorem controller_map:
  assumes "store_inv s"
  shows "(ValidateName (Name c) = None \<longrightarrow>
      SetContainer ControllerTypeMemory s c reach a1 a2 = (s', e, c') \<longrightarrow>
        e = None \<and> store_inv s' \<and> c' = stamped s c
        \<and> GetContainer (containersFromMemory s') (Name c) = Inr c'
        \<and> (\<forall>n. n \<noteq> Name c \<longrightarrow>
             GetContainer (containersFromMemory s') n = GetContainer (containersFromMemory s) n))
   \<and> (ValidateName (Name c) = Some err \<longrightarrow>
      SetContainer ct s c reach a1 a2 = (s, Some (EName err), c))
   \<and> (DeleteContainer s n = (s', e) \<longrightarrow>
      store_inv s' \<and> (e = None \<longleftrightarrow> n \<in> Name ` set (containerList s))
      \<and> (\<forall>m. mem_lookup s' m = (if m = n then None else mem_lookup s m)))"
  using assms by - (rule controller_map_laws | assumption | rule conjI | rule impI)+

theorem controller_map_witness:
  "GetContainer (containersFromMemory (fst (SetContainer ControllerTypeMemory store0 cfg0 True att0 att0))) ''web''
     = Inr (snd (snd (SetContainer ControllerTypeMemory store0 cfg0 True att0 att0)))"
  using controller_map [OF store0_inv, THEN conjunct1, rule_format, of cfg0 True att0 att0] by (metis cfg0_simps(1) prod.collapse web_valid)

text \<open>C1: no update is lost. In every interleaving of daemon sets, command-line writes, unlinks and
  reads of state files that are applied later, a record the daemon holds stays and is replaced only by a
  higher generation or, while its generation is 0 (files that predate generations), by another record with
  generation 0, as long as the daemon does not delete that name. Steps in which the generation counter would wrap
  around 64 bits (\<open>gen_room\<close>) are left out.\<close>

theorem no_lost_update:
  assumes "sys_run n s t" "store_inv (sstore s)" "mem_lookup (sstore s) n = Some c"
  shows "\<exists>d. mem_lookup (sstore t) n = Some d \<and> Name d = n
    \<and> (d = c \<or> Generation c < Generation d \<or> Generation c = 0 \<and> Generation d = 0)"
proof -
  obtain d where d: "mem_lookup (sstore t) n = Some d" "not_older c d"
    using sys_run_not_older [OF assms] by blast
  have "Name d = n" using d(1) mem_lookup_iff [OF sys_run_inv [OF assms(1,2)]] by simp
  with d show ?thesis by (auto simp: not_older_def)
qed

text \<open>A stale read is applied after a daemon set: the newer record stays.\<close>

definition run0 :: "sys list" where
  "run0 = (let s0 = \<lparr>sstore = store0, inflight = []\<rparr>; s1 = s0\<lparr>inflight := [cfg0]\<rparr>;
      s2 = s1\<lparr>sstore := fst (setContainerByMemory store0 cfg0 att0 att0)\<rparr>;
      s3 = s2\<lparr>sstore := fst (LoadFromDisk (sstore s2) (Some cfg0))\<rparr>
    in [s0, s1, s2, s3])"

lemma run0_run: "sys_run ''web'' (run0 ! 0) (run0 ! 3)"
proof -
  let ?s0 = "\<lparr>sstore = store0, inflight = []\<rparr>"
  let ?s1 = "?s0\<lparr>inflight := cfg0 # inflight ?s0\<rparr>"
  have rd: "LoadFile (sstore ?s0) ''web'' = Some cfg0"
    by (simp add: LoadFile_def readFile_def store0_def ConfigFileBase_def)
  have gr: "gen_room store0 cfg0" by code_simp
  have "sys_run ''web'' ?s0 ?s1"
    by (rule sys_run.step [OF sys_run.refl read [OF rd]]) simp
  moreover have "sys_step LSet ?s1 (?s1\<lparr>sstore := fst (setContainerByMemory (sstore ?s1) cfg0 att0 att0)\<rparr>)"
    by (rule daemon_set) (simp_all add: gr)
  ultimately have "sys_run ''web'' ?s0 (?s1\<lparr>sstore := fst (setContainerByMemory (sstore ?s1) cfg0 att0 att0)\<rparr>)"
    by (rule sys_run.step) simp
  then have "sys_run ''web'' ?s0 (?s1\<lparr>sstore := fst (LoadFromDisk (fst (setContainerByMemory store0 cfg0 att0 att0)) (Some cfg0))\<rparr>)"
    using sys_run.step [OF _ load, of "''web''" ?s0
        "?s1\<lparr>sstore := fst (setContainerByMemory (sstore ?s1) cfg0 att0 att0)\<rparr>" cfg0] by simp
  then show ?thesis by (simp add: run0_def Let_def)
qed

theorem no_lost_update_witness:
  "\<exists>d. mem_lookup (sstore (run0 ! 3)) ''web'' = Some d \<and> Name d = ''web''
    \<and> (d = cfg0 \<or> Generation cfg0 < Generation d \<or> Generation cfg0 = 0 \<and> Generation d = 0)"
proof (rule no_lost_update [OF run0_run])
  have "sstore (run0 ! 0) = store0" by (simp add: run0_def Let_def)
  then show "store_inv (sstore (run0 ! 0))" "mem_lookup (sstore (run0 ! 0)) ''web'' = Some cfg0"
    by (simp_all add: store0_inv) (simp add: store0_def mem_lookup_def)
qed

lemma state_write_atomic_laws:
  "writeContainerFile dir (ConfigFileBase n) data a1 a2 = (dir, False)
   \<or> writeContainerFile dir (ConfigFileBase n) data a1 a2 = (AList.update (ConfigFileBase n) data dir, True)"
  "NameFromConfigFile (tempName (ConfigFileBase n) r) = None
   \<and> diskEventAction ev (tempName (ConfigFileBase n) r) = actionIgnore"
  "a_fail a1 = None \<Longrightarrow> tempName (ConfigFileBase n) (a_rnd a1) \<notin> fst ` set dir \<Longrightarrow>
     writeContainerFile dir (ConfigFileBase n) data a1 a2 = (AList.update (ConfigFileBase n) data dir, True)"
  subgoal by (rule writeContainerFile_cases)
  subgoal by (simp add: tempName_not_state tempName_is_temp diskEventAction_def)
  subgoal using writeStateFile_cases [OF tempName_neq, of dir "ConfigFileBase n" data a1]
    by (auto simp: writeContainerFile_def writeStateFile_def Let_def)
  done

text \<open>C3: replacing a state file is atomic. Whichever step of the write fails, the directory afterwards is
  the old one or the old one with the complete new record under that name; the temporary file in
  between is never a state file and its events are ignored; and once no step fails the write is done.\<close>

theorem state_write_atomic:
  "(writeContainerFile dir (ConfigFileBase n) data a1 a2 = (dir, False)
   \<or> writeContainerFile dir (ConfigFileBase n) data a1 a2 = (AList.update (ConfigFileBase n) data dir, True))
   \<and> (NameFromConfigFile (tempName (ConfigFileBase n) r) = None
   \<and> diskEventAction ev (tempName (ConfigFileBase n) r) = actionIgnore)
   \<and> (a_fail a1 = None \<longrightarrow> tempName (ConfigFileBase n) (a_rnd a1) \<notin> fst ` set dir \<longrightarrow>
     writeContainerFile dir (ConfigFileBase n) data a1 a2 = (AList.update (ConfigFileBase n) data dir, True))"
  by - (rule state_write_atomic_laws | assumption | rule conjI | rule impI)+

theorem state_write_atomic_witness:
  "writeContainerFile [] (ConfigFileBase ''web'') (StateFile cfg0) att0 att0
     = ([(''web.json'', StateFile cfg0)], True)"
  by (subst state_write_atomic [THEN conjunct2, THEN conjunct2, rule_format]) (simp_all add: att0_def ConfigFileBase_def)

lemma reconcile_converges_laws:
  assumes "store_inv s"
  shows "store_inv (reconcileState s)" "stateDir (reconcileState s) = stateDir s"
    and "mem_lookup (reconcileState s) n =
      (if ValidateName n = None \<and> readFile s n \<noteq> None
       then (case mem_lookup s n of Some c \<Rightarrow> Some c | None \<Rightarrow> LoadFile s n) else None)"
  using reconcileState_lookup [OF assms, of n] onDisk_iff [OF assms, of n] by auto

text \<open>C4: reconciliation converges to the directory. Afterwards exactly the names with a valid state file
  are in memory: a name that was already tracked keeps its record, a missed create gets the record of
  its file (and is skipped when the file does not decode), and a name without a file is gone.\<close>

theorem reconcile_converges:
  assumes "store_inv s"
  shows "(store_inv (reconcileState s))
   \<and> (stateDir (reconcileState s) = stateDir s)
   \<and> (mem_lookup (reconcileState s) n =
      (if ValidateName n = None \<and> readFile s n \<noteq> None
       then (case mem_lookup s n of Some c \<Rightarrow> Some c | None \<Rightarrow> LoadFile s n) else None))"
  using assms by - (rule reconcile_converges_laws | assumption | rule conjI | rule impI)+

definition store1 :: store where
  "store1 = \<lparr>containerList = [cfg0\<lparr>Name := ''gone''\<rparr>], stateDir = [(''web.json'', StateFile cfg0)]\<rparr>"

lemma gone_valid [simp]: "ValidateName ''gone'' = None"
  by code_simp

lemma store1_inv: "store_inv store1"
  by (auto simp: store_inv_def store1_def readFile_def ConfigFileBase_def split: if_splits)

theorem reconcile_converges_witness:
  "store_inv store1 \<and> mem_lookup (reconcileState store1) ''web'' = Some cfg0
    \<and> mem_lookup (reconcileState store1) ''gone'' = None"
proof -
  show ?thesis
    using reconcile_converges [OF store1_inv, THEN conjunct2, THEN conjunct2, rule_format, of "''web''"]
      reconcile_converges [OF store1_inv, THEN conjunct2, THEN conjunct2, rule_format, of "''gone''"] store1_inv
    by (simp add: store1_def mem_lookup_def readFile_def LoadFile_def ConfigFileBase_def)
qed

lemma map_filter_concat:
  assumes "\<forall>x \<in> set xs. F x = (case H x of None \<Rightarrow> [] | Some n \<Rightarrow> (case G n of None \<Rightarrow> [] | Some c \<Rightarrow> [c]))"
  shows "concat (map F xs) = List.map_filter G (List.map_filter H xs)"
  using assms by (induction xs) (auto simp: map_filter_simps split: option.split)

lemma containersFromDir_eq:
  assumes "store_inv s"
  shows "containersFromDir s = List.map_filter (LoadFile s) (onDisk s)"
  unfolding containersFromDir_def onDisk_def
proof (rule map_filter_concat, rule ballI)
  fix x assume x: "x \<in> set (stateDir s)"
  obtain b f where bf: "x = (b, f)" by (cases x)
  have "readFile s n = Some f" if "NameFromConfigFile b = Some n" for n
    using x bf NameFromConfigFile_SomeD [OF that] store_invD(3) [OF assms] by (simp add: readFile_def)
  then show "(case x of (b, f) \<Rightarrow> case NameFromConfigFile b of None \<Rightarrow> []
        | Some _ \<Rightarrow> (case f of StateFile c \<Rightarrow> [c] | BadFile _ \<Rightarrow> [])) =
      (case case x of (b, uu_) \<Rightarrow> NameFromConfigFile b of None \<Rightarrow> []
       | Some n \<Rightarrow> (case LoadFile s n of None \<Rightarrow> [] | Some c \<Rightarrow> [c]))"
    by (auto simp: bf LoadFile_def split: option.split state_file.split)
qed

lemma containersFromDir_names:
  assumes "store_inv s"
  shows "distinct (map Name (containersFromDir s))"
    and "set (containersFromDir s) = {c. ValidateName (Name c) = None \<and> LoadFile s (Name c) = Some c}"
proof -
  have nm: "Name c = n" if "LoadFile s n = Some c" for n c
    using that store_invD(4) [OF assms] by (auto simp: LoadFile_def split: option.splits state_file.splits)
  have mn: "map Name (List.map_filter (LoadFile s) ns) = filter (\<lambda>n. LoadFile s n \<noteq> None) ns" for ns
    by (induction ns) (auto simp: map_filter_simps nm split: option.split)
  show "distinct (map Name (containersFromDir s))"
    using onDisk_distinct [OF assms] by (simp add: containersFromDir_eq [OF assms] mn)
  have rd: "LoadFile s n = Some c \<Longrightarrow> readFile s n \<noteq> None" for n c
    by (auto simp: LoadFile_def split: option.splits)
  have "c \<in> set (containersFromDir s) \<longleftrightarrow> (\<exists>n \<in> set (onDisk s). LoadFile s n = Some c)" for c
    by (force simp: containersFromDir_eq [OF assms] List.map_filter_def)
  then have "c \<in> set (containersFromDir s) \<longleftrightarrow> ValidateName (Name c) = None \<and> LoadFile s (Name c) = Some c" for c
    using nm rd unfolding onDisk_iff [OF assms] Bex_def by metis
  then show "set (containersFromDir s) = {c. ValidateName (Name c) = None \<and> LoadFile s (Name c) = Some c}"
    by blast
qed

text \<open>the daemon starts in a consistent state: the list it loads from the directory is a valid store
  in which exactly the decodable state files are found, each under its own name.\<close>

theorem daemon_start:
  assumes "store_inv s" "containersInit True ping s = (ct, s', cs)"
  shows "ct = ControllerTypeMemory \<and> store_inv s' \<and> cs = containerList s'
    \<and> (\<forall>n. mem_lookup s' n = (if ValidateName n = None then LoadFile s n else None))"
proof -
  have s': "ct = ControllerTypeMemory" "s' = s\<lparr>containerList := containersFromDir s\<rparr>" "cs = containerList s'"
    using assms(2) by (auto simp: containersInit_def containersFromMemory_def)
  note c = containersFromDir_names [OF assms(1)]
  have inv: "store_inv s'"
    using assms(1) c by (simp add: s' store_inv_def readFile_def)
  have nm: "Name d = n" if "LoadFile s n = Some d" for n d
    using that store_invD(4) [OF assms(1)] by (auto simp: LoadFile_def split: option.splits state_file.splits)
  have "mem_lookup s' n = Some d \<longleftrightarrow> ValidateName n = None \<and> LoadFile s n = Some d" for n d
    using mem_lookup_iff [OF inv, of n d] nm [of n d] by (auto simp: s' c)
  then have "mem_lookup s' n = (if ValidateName n = None then LoadFile s n else None)" for n
    by (metis (no_types) not_Some_eq)
  with s' inv show ?thesis by simp
qed

theorem daemon_start_witness:
  "mem_lookup (fst (snd (containersInit True False store1))) ''web'' = Some cfg0"
proof -
  obtain ct s' cs where c: "containersInit True False store1 = (ct, s', cs)" by (cases "containersInit True False store1")
  have "LoadFile store1 ''web'' = Some cfg0"
    by (simp add: LoadFile_def readFile_def store1_def ConfigFileBase_def)
  with c daemon_start [OF store1_inv c] show ?thesis by simp
qed

text \<open>a failed write is not reported, and the next reconciliation forgets the container. There is a
  consistent store in which a set through the daemon reports success while its file could not be
  written, and \<open>reconcileState\<close> then drops the record although nobody removed it.\<close>

theorem unwritten_set_is_dropped:
  "\<exists>s c a1 a2 s' c'. store_inv s
     \<and> SetContainer ControllerTypeMemory s c True a1 a2 = (s', None, c')
     \<and> mem_lookup s' (Name c) = Some c' \<and> mem_lookup (reconcileState s') (Name c) = None"
proof -
  let ?s = "\<lparr>containerList = [], stateDir = []\<rparr>"
  let ?a = "att0\<lparr>a_fail := Some WriteTemp\<rparr>"
  let ?t = "fst (setContainerByMemory ?s cfg0 ?a ?a)"
  have i: "store_inv ?s" by (simp add: store_inv_def readFile_def)
  have it: "store_inv ?t" by (rule setContainerByMemory_inv [OF i]) simp
  have set: "SetContainer ControllerTypeMemory ?s cfg0 True ?a ?a = (?t, None, stamped ?s cfg0)"
    by (simp add: SetContainer_def setContainerByMemory_eq)
  have l: "mem_lookup ?t ''web'' = Some (stamped ?s cfg0)"
    by (simp add: mem_lookup_set [OF i])
  have "readFile ?t ''web'' = None"
    by (simp add: setContainerByMemory_eq readFile_def writeContainerFile_def writeStateFile_def att0_def)
  then have "mem_lookup (reconcileState ?t) ''web'' = None"
    using reconcileState_lookup [OF it, of "''web''"] onDisk_iff [OF it] by simp
  with i set l show ?thesis by (metis cfg0_simps(1))
qed

definition stale :: Config where "stale = cfg0\<lparr>Generation := 9\<rparr>"
definition fresh :: Config where "fresh = cfg0\<lparr>Generation := 1, Status := ''created''\<rparr>"

text \<open>A stale read can shadow a newer file. After a delete and a re-creation of a name by the command
  line (which restarts the generation), applying an older read adds the old record, and applying the
  new file afterwards is ignored.\<close>

theorem stale_read_shadows_recreated:
  "let s = \<lparr>containerList = [stale], stateDir = [(''web.json'', StateFile stale)]\<rparr>;
       s1 = fst (DeleteContainer (s\<lparr>stateDir := AList.delete (ConfigFileBase ''web'') (stateDir s)\<rparr>) ''web'');
       s2 = fst (setContainerByDisk s1 (fresh\<lparr>Generation := 0\<rparr>) att0 att0);
       s3 = fst (LoadFromDisk s2 (LoadFile s ''web''));
       s4 = fst (LoadFromDisk s3 (LoadFile s3 ''web''))
   in readFile s4 ''web'' = Some (StateFile fresh) \<and> mem_lookup s4 ''web'' = Some stale
      \<and> reconcileState s4 = s4"
  by code_simp

end
