(* ===== verification/Virtio.thy ===== *)
theory Virtio
  imports Prelude
begin

text \<open>
  The virtio-MMIO transport of \<open>src/pkg/vm/kvm/virtio.go\<close>: guest memory access, the register file, and
  the split virtqueue.

  Guest memory is a byte list; a Go slice into it is a pair of offset and length, so that a device
  that writes through such a slice writes guest memory. \<open>base\<close> is the architecture's
  \<open>guestMemBase\<close>. A Go panic is a value of \<^typ>\<open>go_panic\<close>. The two loops of the queue may not end (a
  descriptor chain can be cyclic), so they take fuel and return \<open>None\<close> when it runs out; the lemmas
  show how much is enough and that a cycle really never ends. The goroutines a register write starts
  are returned as effects.
\<close>

section \<open>Guest memory\<close>

type_synonym gbuf = "nat \<times> nat"

definition guestSlice :: "u64 \<Rightarrow> bytes \<Rightarrow> u64 \<Rightarrow> u64 \<Rightarrow> go_panic + gbuf option" where
  "guestSlice base mem gpa sz =
     (let offset = gpa - base
      in if length mem < unat (offset + sz) then Inr None
         else if offset + sz < offset then Inl SliceBounds
         else Inr (Some (unat offset, unat (offset + sz) - unat offset)))"

definition buf_bytes :: "bytes \<Rightarrow> gbuf \<Rightarrow> bytes" where
  "buf_bytes mem b = slice mem (fst b) (fst b + snd b)"

text \<open>Writing \<open>bs\<close> at the start of a buffer.\<close>

definition buf_write :: "bytes \<Rightarrow> gbuf \<Rightarrow> bytes \<Rightarrow> bytes" where
  "buf_write mem b bs = copy_into mem (fst b) (snd b) bs"

definition readGuestU16 :: "u64 \<Rightarrow> bytes \<Rightarrow> u64 \<Rightarrow> go_panic + u16" where
  "readGuestU16 base mem gpa =
     rbind (guestSlice base mem gpa 2)
       (\<lambda>b. Inr (case b of None \<Rightarrow> 0 | Some g \<Rightarrow> get_le16 (buf_bytes mem g)))"

definition readGuestU32 :: "u64 \<Rightarrow> bytes \<Rightarrow> u64 \<Rightarrow> go_panic + u32" where
  "readGuestU32 base mem gpa =
     rbind (guestSlice base mem gpa 4)
       (\<lambda>b. Inr (case b of None \<Rightarrow> 0 | Some g \<Rightarrow> get_le32 (buf_bytes mem g)))"

definition readGuestU64 :: "u64 \<Rightarrow> bytes \<Rightarrow> u64 \<Rightarrow> go_panic + u64" where
  "readGuestU64 base mem gpa =
     rbind (guestSlice base mem gpa 8)
       (\<lambda>b. Inr (case b of None \<Rightarrow> 0 | Some g \<Rightarrow> get_le64 (buf_bytes mem g)))"

definition writeGuestU16 :: "u64 \<Rightarrow> bytes \<Rightarrow> u64 \<Rightarrow> u16 \<Rightarrow> go_panic + bytes" where
  "writeGuestU16 base mem gpa val =
     rbind (guestSlice base mem gpa 2)
       (\<lambda>b. Inr (case b of None \<Rightarrow> mem | Some g \<Rightarrow> buf_write mem g (le16 val)))"

definition writeGuestU32 :: "u64 \<Rightarrow> bytes \<Rightarrow> u64 \<Rightarrow> u32 \<Rightarrow> go_panic + bytes" where
  "writeGuestU32 base mem gpa val =
     rbind (guestSlice base mem gpa 4)
       (\<lambda>b. Inr (case b of None \<Rightarrow> mem | Some g \<Rightarrow> buf_write mem g (le32 val)))"

section \<open>The register file\<close>

definition virtqueueMaxSize :: u32 where "virtqueueMaxSize = 256"
definition virtioMagicValue :: u32 where "virtioMagicValue = 0x74726976"
definition virtioMMIORegionSize :: u64 where "virtioMMIORegionSize = 0x200"
definition vringDescFNext :: u16 where "vringDescFNext = 1"
definition vringDescFWrite :: u16 where "vringDescFWrite = 2"
definition virtioStatusDriverOK :: u32 where "virtioStatusDriverOK = 4"

record virtqueue =
  num :: u32
  ready :: bool
  descAddr :: u64
  drvAddr :: u64
  devAddr :: u64
  lastAvail :: u16

definition virtqueue0 :: virtqueue where
  "virtqueue0 = \<lparr>num = 0, ready = False, descAddr = 0, drvAddr = 0, devAddr = 0, lastAvail = 0\<rparr>"

text \<open>What the transport asks of a device (the Go interface \<open>virtioDevice\<close>), with the device's state as
  an argument. \<open>setup_on_ok\<close> marks the two device types that start a backend at \<open>DRIVER_OK\<close>.\<close>

record 'd virtioDevice =
  DeviceID :: u32
  Features :: "'d \<Rightarrow> u64"
  ConfigRead :: "'d \<Rightarrow> u32 \<Rightarrow> u32 \<Rightarrow> u32"
  ConfigWrite :: "'d \<Rightarrow> u32 \<Rightarrow> u32 \<Rightarrow> u32 \<Rightarrow> 'd"
  setup_on_ok :: bool

text \<open>\<open>irqEvents\<close> counts the writes to the interrupt eventfd.\<close>

record 'd virtioMMIODev =
  baseAddr :: u64
  mem :: bytes
  irqOn :: bool
  irqEvents :: nat
  device :: 'd
  status :: u32
  devFeatSel :: u32
  drvFeatSel :: u32
  drvFeatures :: u64
  queueSel :: u32
  queues :: "virtqueue list"
  interruptStat :: u32
  configGen :: u32

definition newVirtioMMIODev :: "u64 \<Rightarrow> bytes \<Rightarrow> 'd \<Rightarrow> 'd virtioMMIODev" where
  "newVirtioMMIODev addr m d =
     \<lparr>baseAddr = addr, mem = m, irqOn = False, irqEvents = 0, device = d, status = 0, devFeatSel = 0,
      drvFeatSel = 0, drvFeatures = 0, queueSel = 0, queues = replicate 3 virtqueue0,
      interruptStat = 0, configGen = 0\<rparr>"

datatype spawn = SpawnHandleQueue nat | SpawnBackend

definition currentQueue :: "'d virtioMMIODev \<Rightarrow> virtqueue option" where
  "currentQueue v =
     (if of_nat (length (queues v)) \<le> queueSel v then None
      else Some (queues v ! unat (queueSel v)))"

text \<open>\<open>if q := v.currentQueue(); q != nil { f(q) }\<close>\<close>

definition on_queue :: "'d virtioMMIODev \<Rightarrow> (virtqueue \<Rightarrow> virtqueue) \<Rightarrow> 'd virtioMMIODev" where
  "on_queue v f =
     (case currentQueue v of None \<Rightarrow> v
      | Some q \<Rightarrow> v\<lparr>queues := (queues v)[unat (queueSel v) := f q]\<rparr>)"

definition set_low :: "u64 \<Rightarrow> u32 \<Rightarrow> u64" where
  "set_low w val = (w AND 0xFFFFFFFF00000000) OR ucast val"

definition set_high :: "u64 \<Rightarrow> u32 \<Rightarrow> u64" where
  "set_high w val = (w AND 0x00000000FFFFFFFF) OR push_bit 32 (ucast val)"

definition vreset :: "'d virtioMMIODev \<Rightarrow> 'd virtioMMIODev" where
  "vreset v = v\<lparr>status := 0, devFeatSel := 0, drvFeatSel := 0, drvFeatures := 0, queueSel := 0,
     interruptStat := 0, queues := map (\<lambda>_. virtqueue0) (queues v)\<rparr>"

definition readReg :: "'d virtioDevice \<Rightarrow> 'd virtioMMIODev \<Rightarrow> u32 \<Rightarrow> u32 \<Rightarrow> u32" where
  "readReg D v off sz =
     (if off = 0x000 then virtioMagicValue
      else if off = 0x004 then 2
      else if off = 0x008 then DeviceID D
      else if off = 0x00C then 0x554D4551
      else if off = 0x010 then
        (let features = Features D (device v) OR push_bit 32 1
         in if devFeatSel v = 0 then ucast features else ucast (drop_bit 32 features))
      else if off = 0x034 then virtqueueMaxSize
      else if off = 0x044 then
        (case currentQueue v of None \<Rightarrow> 0 | Some q \<Rightarrow> if ready q then 1 else 0)
      else if off = 0x060 then interruptStat v
      else if off = 0x070 then status v
      else if off = 0x0FC then configGen v
      else if 0x100 \<le> off then ConfigRead D (device v) (off - 0x100) sz
      else 0)"

definition writeReg ::
  "'d virtioDevice \<Rightarrow> 'd virtioMMIODev \<Rightarrow> u32 \<Rightarrow> u32 \<Rightarrow> 'd virtioMMIODev \<times> spawn list" where
  "writeReg D v off val =
     (if off = 0x014 then (v\<lparr>devFeatSel := val\<rparr>, [])
      else if off = 0x020 then
        (v\<lparr>drvFeatures := (if drvFeatSel v = 0 then set_low else set_high) (drvFeatures v) val\<rparr>, [])
      else if off = 0x024 then (v\<lparr>drvFeatSel := val\<rparr>, [])
      else if off = 0x030 then (v\<lparr>queueSel := val\<rparr>, [])
      else if off = 0x038 then (on_queue v (\<lambda>q. q\<lparr>num := val\<rparr>), [])
      else if off = 0x044 then (on_queue v (\<lambda>q. q\<lparr>ready := val \<noteq> 0\<rparr>), [])
      else if off = 0x050 then (v, [SpawnHandleQueue (unat val)])
      else if off = 0x064 then (v\<lparr>interruptStat := interruptStat v AND NOT val\<rparr>, [])
      else if off = 0x070 then
        (let v1 = v\<lparr>status := val\<rparr>; v2 = (if val = 0 then vreset v1 else v1)
         in (v2, if val AND virtioStatusDriverOK \<noteq> 0 \<and> setup_on_ok D then [SpawnBackend] else []))
      else if off = 0x080 then (on_queue v (\<lambda>q. q\<lparr>descAddr := set_low (descAddr q) val\<rparr>), [])
      else if off = 0x084 then (on_queue v (\<lambda>q. q\<lparr>descAddr := set_high (descAddr q) val\<rparr>), [])
      else if off = 0x090 then (on_queue v (\<lambda>q. q\<lparr>drvAddr := set_low (drvAddr q) val\<rparr>), [])
      else if off = 0x094 then (on_queue v (\<lambda>q. q\<lparr>drvAddr := set_high (drvAddr q) val\<rparr>), [])
      else if off = 0x0A0 then (on_queue v (\<lambda>q. q\<lparr>devAddr := set_low (devAddr q) val\<rparr>), [])
      else if off = 0x0A4 then (on_queue v (\<lambda>q. q\<lparr>devAddr := set_high (devAddr q) val\<rparr>), [])
      else if 0x100 \<le> off then (v\<lparr>device := ConfigWrite D (device v) (off - 0x100) 4 val\<rparr>, [])
      else (v, []))"

text \<open>The data array of an MMIO exit has eight bytes; a size other than 1, 2 or 4 reads as 0 and writes
  nothing.\<close>

definition readLE :: "bytes \<Rightarrow> u32 \<Rightarrow> u32" where
  "readLE data sz =
     (if sz = 1 then ucast (data ! 0)
      else if sz = 2 then ucast (get_le16 data)
      else if sz = 4 then get_le32 data else 0)"

definition writeLE :: "bytes \<Rightarrow> u32 \<Rightarrow> u32 \<Rightarrow> bytes" where
  "writeLE data sz val =
     (if sz = 1 then copy_into data 0 1 [ucast val]
      else if sz = 2 then copy_into data 0 2 (le16 (ucast val))
      else if sz = 4 then copy_into data 0 4 (le32 val) else data)"

definition HandleMMIO ::
  "'d virtioDevice \<Rightarrow> 'd virtioMMIODev \<Rightarrow> u64 \<Rightarrow> u32 \<Rightarrow> u8 \<Rightarrow> bytes
     \<Rightarrow> bool \<times> 'd virtioMMIODev \<times> bytes \<times> spawn list" where
  "HandleMMIO D v addr len isWrite data =
     (if addr < baseAddr v \<or> baseAddr v + virtioMMIORegionSize \<le> addr then (False, v, data, [])
      else let off = ucast (addr - baseAddr v) :: u32
      in if isWrite \<noteq> 0
         then (let (v', sp) = writeReg D v off (readLE data len) in (True, v', data, sp))
         else (True, v, writeLE data len (readReg D v off len), []))"

section \<open>Virtqueues\<close>

record vringDesc =
  dAddr :: u64
  dLen :: u32
  dFlags :: u16
  dNext :: u16

definition readDescriptor :: "u64 \<Rightarrow> bytes \<Rightarrow> virtqueue \<Rightarrow> u16 \<Rightarrow> go_panic + vringDesc" where
  "readDescriptor base m q idx =
     (let off = descAddr q + ucast idx * 16
      in rbind (readGuestU64 base m off) (\<lambda>a.
         rbind (readGuestU32 base m (off + 8)) (\<lambda>l.
         rbind (readGuestU16 base m (off + 12)) (\<lambda>f.
         rbind (readGuestU16 base m (off + 14)) (\<lambda>n.
         Inr \<lparr>dAddr = a, dLen = l, dFlags = f, dNext = n\<rparr>)))))"

text \<open>The inner loop: the readable and writable buffers of a chain, in order. A descriptor whose range
  is outside guest memory is skipped.\<close>

fun walkChain ::
  "nat \<Rightarrow> u64 \<Rightarrow> bytes \<Rightarrow> virtqueue \<Rightarrow> u16 \<Rightarrow> (go_panic + gbuf list \<times> gbuf list) option" where
  "walkChain 0 base m q idx = None"
| "walkChain (Suc fuel) base m q idx =
     (case rbind (readDescriptor base m q idx) (\<lambda>d.
             rbind (guestSlice base m (dAddr d) (ucast (dLen d))) (\<lambda>b. Inr (d, b))) of
        Inl e \<Rightarrow> Some (Inl e)
      | Inr (d, b) \<Rightarrow>
          let here = (case b of None \<Rightarrow> ([], [])
                | Some g \<Rightarrow> if dFlags d AND vringDescFWrite \<noteq> 0 then ([], [g]) else ([g], []))
          in if dFlags d AND vringDescFNext = 0 then Some (Inr here)
             else map_option (\<lambda>r. rbind r (\<lambda>(rs, ws). Inr (fst here @ rs, snd here @ ws)))
                    (walkChain fuel base m q (dNext d)))"

text \<open>A device's request handler: device state, memory and the two buffer lists to the new device
  state, the new memory and the number of bytes written.\<close>

type_synonym 'd handler = "'d \<Rightarrow> bytes \<Rightarrow> gbuf list \<Rightarrow> gbuf list \<Rightarrow> 'd \<times> bytes \<times> u32"

definition pushUsed ::
  "u64 \<Rightarrow> bytes \<Rightarrow> virtqueue \<Rightarrow> u16 \<Rightarrow> u32 \<Rightarrow> go_panic + bytes" where
  "pushUsed base m q descIdx written =
     rbind (readGuestU16 base m (devAddr q + 2)) (\<lambda>usedIdx.
     let usedRingOff = 4 + ucast (usedIdx mod ucast (num q)) * 8 :: u64
     in rbind (writeGuestU32 base m (devAddr q + usedRingOff) (ucast descIdx)) (\<lambda>m1.
        rbind (writeGuestU32 base m1 (devAddr q + usedRingOff + 4) written) (\<lambda>m2.
        writeGuestU16 base m2 (devAddr q + 2) (usedIdx + 1))))"

text \<open>The head of the next available chain; \<open>uint16(q.num)\<close> is the divisor.\<close>

definition nextAvail :: "u64 \<Rightarrow> bytes \<Rightarrow> virtqueue \<Rightarrow> go_panic + u16" where
  "nextAvail base m q =
     (if (ucast (num q) :: u16) = 0 then Inl DivideByZero
      else readGuestU16 base m (drvAddr q + (4 + ucast (lastAvail q mod ucast (num q)) * 2)))"

text \<open>One round of the loop body: \<open>Some (Inr None)\<close> when nothing is available.\<close>

definition processOne ::
  "nat \<Rightarrow> u64 \<Rightarrow> 'd handler \<Rightarrow> 'd \<Rightarrow> bytes \<Rightarrow> virtqueue
     \<Rightarrow> (go_panic + ('d \<times> bytes \<times> virtqueue) option) option" where
  "processOne fuel base h d m q =
     (case readGuestU16 base m (drvAddr q + 2) of
        Inl e \<Rightarrow> Some (Inl e)
      | Inr availIdx \<Rightarrow>
          if lastAvail q = availIdx then Some (Inr None)
          else case nextAvail base m q of
              Inl e \<Rightarrow> Some (Inl e)
            | Inr descIdx \<Rightarrow>
                map_option (\<lambda>r. rbind r (\<lambda>(rs, ws).
                    let (d', m', written) = h d m rs ws
                    in rbind (pushUsed base m' q descIdx written) (\<lambda>m2.
                       Inr (Some (d', m2, q\<lparr>lastAvail := lastAvail q + 1\<rparr>)))))
                  (walkChain fuel base m q descIdx))"

fun availLoop ::
  "nat \<Rightarrow> nat \<Rightarrow> u64 \<Rightarrow> 'd handler \<Rightarrow> 'd \<Rightarrow> bytes \<Rightarrow> virtqueue \<Rightarrow> bool
     \<Rightarrow> (go_panic + 'd \<times> bytes \<times> virtqueue \<times> bool) option" where
  "availLoop 0 fuel base h d m q processed = None"
| "availLoop (Suc k) fuel base h d m q processed =
     (case processOne fuel base h d m q of
        None \<Rightarrow> None
      | Some (Inl e) \<Rightarrow> Some (Inl e)
      | Some (Inr None) \<Rightarrow> Some (Inr (d, m, q, processed))
      | Some (Inr (Some (d', m', q'))) \<Rightarrow> availLoop k fuel base h d' m' q' True)"

definition injectIRQ :: "'d virtioMMIODev \<Rightarrow> 'd virtioMMIODev" where
  "injectIRQ v = v\<lparr>interruptStat := interruptStat v OR 1,
     irqEvents := (if irqOn v then irqEvents v + 1 else irqEvents v)\<rparr>"

definition ProcessAvailRing ::
  "nat \<Rightarrow> nat \<Rightarrow> u64 \<Rightarrow> 'd handler \<Rightarrow> 'd virtioMMIODev \<Rightarrow> nat
     \<Rightarrow> (go_panic + 'd virtioMMIODev) option" where
  "ProcessAvailRing k fuel base h v qi =
     (if length (queues v) \<le> qi then Some (Inr v)
      else let q = queues v ! qi
      in if \<not> ready q \<or> num q = 0 then Some (Inr v)
      else map_option (\<lambda>r. rbind r (\<lambda>(d, m, q', processed).
             let v' = v\<lparr>device := d, mem := m, queues := (queues v)[qi := q']\<rparr>
             in Inr (if processed then injectIRQ v' else v')))
           (availLoop k fuel base h (device v) (mem v) q False))"

definition ProcessSingleAvailNoIRQ ::
  "nat \<Rightarrow> u64 \<Rightarrow> 'd handler \<Rightarrow> 'd virtioMMIODev \<Rightarrow> nat
     \<Rightarrow> (go_panic + bool \<times> 'd virtioMMIODev) option" where
  "ProcessSingleAvailNoIRQ fuel base h v qi =
     (if length (queues v) \<le> qi then Some (Inr (False, v))
      else let q = queues v ! qi
      in if \<not> ready q \<or> num q = 0 then Some (Inr (False, v))
      else map_option (\<lambda>r. rbind r (\<lambda>x. Inr (case x of
               None \<Rightarrow> (False, v)
             | Some (d, m, q') \<Rightarrow> (True, v\<lparr>device := d, mem := m, queues := (queues v)[qi := q']\<rparr>))))
           (processOne fuel base h (device v) (mem v) q))"

definition ProcessSingleAvail ::
  "nat \<Rightarrow> u64 \<Rightarrow> 'd handler \<Rightarrow> 'd virtioMMIODev \<Rightarrow> nat
     \<Rightarrow> (go_panic + bool \<times> 'd virtioMMIODev) option" where
  "ProcessSingleAvail fuel base h v qi =
     map_option (\<lambda>r. rbind r (\<lambda>(ok, v'). Inr (if ok then (True, injectIRQ v') else (False, v'))))
       (ProcessSingleAvailNoIRQ fuel base h v qi)"

section \<open>Memory frames\<close>

text \<open>\<open>same_outside R m m'\<close>: the memories differ at most at the offsets in \<open>R\<close>.\<close>

definition same_outside :: "nat set \<Rightarrow> bytes \<Rightarrow> bytes \<Rightarrow> bool" where
  "same_outside R m m' \<longleftrightarrow> length m' = length m \<and> (\<forall>i < length m. i \<notin> R \<longrightarrow> m' ! i = m ! i)"

definition buf_set :: "gbuf \<Rightarrow> nat set" where
  "buf_set b = {fst b ..< fst b + snd b}"

abbreviation bufs_set :: "gbuf list \<Rightarrow> nat set" where
  "bufs_set bs \<equiv> \<Union> (buf_set ` set bs)"

lemma same_outside_refl [simp, intro]: "same_outside R m m"
  by (simp add: same_outside_def)

lemma same_outside_trans [trans]:
  "same_outside R m m1 \<Longrightarrow> same_outside S m1 m2 \<Longrightarrow> same_outside (R \<union> S) m m2"
  by (simp add: same_outside_def)

lemma same_outside_mono: "same_outside R m m' \<Longrightarrow> R \<subseteq> S \<Longrightarrow> same_outside S m m'"
  by (auto simp: same_outside_def)

lemma same_outside_length: "same_outside R m m' \<Longrightarrow> length m' = length m"
  by (simp add: same_outside_def)

lemma slice_same:
  assumes "same_outside R m m'" "{i ..< j} \<inter> R = {}"
  shows "slice m' i j = slice m i j"
proof (rule nth_equalityI)
  show "length (slice m' i j) = length (slice m i j)"
    using assms(1) by (simp add: length_slice same_outside_def)
  fix k assume "k < length (slice m' i j)"
  then have k: "k < j - i" "i + k < length m" "i + k < length m'"
    using assms(1) by (auto simp: length_slice same_outside_def)
  then have "i + k \<in> {i ..< j}" by auto
  then have "i + k \<notin> R" using assms(2) by blast
  then show "slice m' i j ! k = slice m i j ! k"
    using k assms(1) by (simp add: slice_def same_outside_def)
qed

lemma copy_into_nth:
  assumes "i + n \<le> length dst" "k < length dst"
  shows "copy_into dst i n src ! k = (if i \<le> k \<and> k < i + min n (length src) then src ! (k - i) else dst ! k)"
  using assms by (auto simp: copy_into_def nth_append min_def)

lemma copy_into_same_outside:
  "i + n \<le> length dst \<Longrightarrow> same_outside {i ..< i + n} dst (copy_into dst i n src)"
  by (auto simp: same_outside_def length_copy_into copy_into_nth)

lemma buf_write_same_outside:
  "fst b + snd b \<le> length m \<Longrightarrow> same_outside (buf_set b) m (buf_write m b bs)"
  by (simp add: buf_write_def buf_set_def copy_into_same_outside)

lemma slice_copy_into:
  assumes "i + length src \<le> length dst"
  shows "slice (copy_into dst i (length src) src) i (i + length src) = src"
  using assms by (simp add: slice_def copy_into_def)

section \<open>Bounds of guest accesses\<close>

lemma unat_add_offset:
  fixes a b :: u64
  assumes "unat (a - b) + n < 2 ^ 64"
  shows "unat (a + of_nat n - b) = unat (a - b) + n"
proof -
  have "n < 2 ^ 64" using assms by simp
  then have n: "unat (of_nat n :: u64) = n" by (simp add: unat_of_nat)
  have "a + of_nat n - b = (a - b) + of_nat n" by simp
  also have "unat \<dots> = unat (a - b) + unat (of_nat n :: u64)"
    using assms n by (intro unat_add_lem [THEN iffD1]) simp
  finally show ?thesis using n by simp
qed

lemma guestSlice_SomeD:
  assumes "guestSlice base m gpa sz = Inr (Some (a, n))"
  shows "a = unat (gpa - base)" "n = unat sz" "a + n \<le> length m"
proof -
  let ?o = "gpa - base"
  from assms have h: "\<not> length m < unat (?o + sz)" "\<not> ?o + sz < ?o"
    "a = unat ?o" "n = unat (?o + sz) - unat ?o"
    by (auto simp: guestSlice_def Let_def split: if_splits)
  from h(2) have "unat (?o + sz) = unat ?o + unat sz"
    by (metis linorder_not_less unat_plus_simple)
  with h show "a = unat ?o" "n = unat sz" "a + n \<le> length m" by simp_all
qed

lemma guestSlice_in:
  assumes "unat (gpa - base) + n \<le> length m" "length m < 2 ^ 64"
  shows "guestSlice base m gpa (of_nat n) = Inr (Some (unat (gpa - base), n))"
proof -
  have u: "unat (gpa - base + of_nat n) = unat (gpa - base) + n"
    using unat_add_offset [of gpa base n] assms by (simp add: algebra_simps)
  then have "\<not> gpa - base + of_nat n < gpa - base"
    by (simp add: word_less_nat_alt)
  with u assms show ?thesis by (simp add: guestSlice_def Let_def)
qed

lemmas guestSlice_in2 = guestSlice_in [where n = 2, simplified]
lemmas guestSlice_in4 = guestSlice_in [where n = 4, simplified]
lemmas guestSlice_in8 = guestSlice_in [where n = 8, simplified]

text \<open>Reads and writes by offset.\<close>

lemma readGuestU16_in:
  "unat (gpa - base) + 2 \<le> length m \<Longrightarrow> length m < 2 ^ 64 \<Longrightarrow>
     readGuestU16 base m gpa = Inr (get_le16 (slice m (unat (gpa - base)) (unat (gpa - base) + 2)))"
  by (simp add: readGuestU16_def guestSlice_in2 buf_bytes_def)

lemma readGuestU32_in:
  "unat (gpa - base) + 4 \<le> length m \<Longrightarrow> length m < 2 ^ 64 \<Longrightarrow>
     readGuestU32 base m gpa = Inr (get_le32 (slice m (unat (gpa - base)) (unat (gpa - base) + 4)))"
  by (simp add: readGuestU32_def guestSlice_in4 buf_bytes_def)

lemma readGuestU64_in:
  "unat (gpa - base) + 8 \<le> length m \<Longrightarrow> length m < 2 ^ 64 \<Longrightarrow>
     readGuestU64 base m gpa = Inr (get_le64 (slice m (unat (gpa - base)) (unat (gpa - base) + 8)))"
  by (simp add: readGuestU64_def guestSlice_in8 buf_bytes_def)

lemma writeGuestU16_in:
  "unat (gpa - base) + 2 \<le> length m \<Longrightarrow> length m < 2 ^ 64 \<Longrightarrow>
     writeGuestU16 base m gpa v = Inr (copy_into m (unat (gpa - base)) 2 (le16 v))"
  by (simp add: writeGuestU16_def guestSlice_in2 buf_write_def)

lemma writeGuestU32_in:
  "unat (gpa - base) + 4 \<le> length m \<Longrightarrow> length m < 2 ^ 64 \<Longrightarrow>
     writeGuestU32 base m gpa v = Inr (copy_into m (unat (gpa - base)) 4 (le32 v))"
  by (simp add: writeGuestU32_def guestSlice_in4 buf_write_def)

lemmas guest_in = readGuestU16_in readGuestU32_in readGuestU64_in writeGuestU16_in writeGuestU32_in

lemma walkChain_bufs:
  "walkChain fuel base m q idx = Some (Inr (rs, ws)) \<Longrightarrow>
     \<forall>b \<in> set rs \<union> set ws. fst b + snd b \<le> length m"
proof (induction fuel arbitrary: idx rs ws)
  case 0
  then show ?case by simp
next
  case (Suc fuel)
  let ?r = "rbind (readDescriptor base m q idx) (\<lambda>d.
             rbind (guestSlice base m (dAddr d) (ucast (dLen d))) (\<lambda>b. Inr (d, b)))"
  from Suc.prems obtain d b where r: "?r = Inr (d, b)" by (cases ?r) auto
  then have g: "guestSlice base m (dAddr d) (ucast (dLen d)) = Inr b"
    by (auto simp: rbind_Inr_iff)
  have b: "fst g + snd g \<le> length m" if "b = Some g" for g
    using guestSlice_SomeD [of base m _ _ "fst g" "snd g"] g that by auto
  show ?case
  proof (cases "dFlags d AND vringDescFNext = 0")
    case True
    with Suc.prems r b show ?thesis by (auto split: option.splits if_splits)
  next
    case False
    with Suc.prems r obtain rs' ws' where w: "walkChain fuel base m q (dNext d) = Some (Inr (rs', ws'))"
      by (auto simp: Let_def rbind_Inr_iff)
    with Suc.prems r False b Suc.IH [OF w] show ?thesis
      by (auto split: option.splits if_splits)
  qed
qed

section \<open>How long a chain can be\<close>

lemma walkChain_more: "walkChain fuel base m q idx = Some r \<Longrightarrow> walkChain (fuel + j) base m q idx = Some r"
proof (induction fuel arbitrary: idx r)
  case (Suc fuel)
  let ?r = "rbind (readDescriptor base m q idx) (\<lambda>d.
             rbind (guestSlice base m (dAddr d) (ucast (dLen d))) (\<lambda>b. Inr (d, b)))"
  show ?case
  proof (cases ?r)
    case (Inr x)
    obtain d b where x: "x = (d, b)" by (cases x)
    show ?thesis
    proof (cases "dFlags d AND vringDescFNext = 0")
      case False
      with Suc.prems Inr x obtain r' where "walkChain fuel base m q (dNext d) = Some r'"
        by (auto simp: Let_def)
      with Suc Inr x False show ?thesis by (auto simp: Let_def dest!: Suc.IH)
    qed (use Suc.prems Inr x in auto)
  qed (use Suc.prems in auto)
qed simp

text \<open>The successor of a descriptor, if the walk goes on there.\<close>

definition chain_next :: "u64 \<Rightarrow> bytes \<Rightarrow> virtqueue \<Rightarrow> u16 \<Rightarrow> u16 option" where
  "chain_next base m q idx =
     (case rbind (readDescriptor base m q idx) (\<lambda>d.
             rbind (guestSlice base m (dAddr d) (ucast (dLen d))) (\<lambda>b. Inr d)) of
        Inl _ \<Rightarrow> None
      | Inr d \<Rightarrow> if dFlags d AND vringDescFNext = 0 then None else Some (dNext d))"

lemma walkChain_None_iff:
  "walkChain (Suc fuel) base m q idx = None \<longleftrightarrow>
     (\<exists>i. chain_next base m q idx = Some i \<and> walkChain fuel base m q i = None)"
  by (cases "readDescriptor base m q idx")
    (auto simp: chain_next_def Let_def rbind_Inr_iff rbind_Inl_iff split: sum.split)

fun chain_path :: "u64 \<Rightarrow> bytes \<Rightarrow> virtqueue \<Rightarrow> nat \<Rightarrow> u16 \<Rightarrow> u16 option" where
  "chain_path base m q 0 idx = Some idx"
| "chain_path base m q (Suc k) idx =
     (case chain_next base m q idx of None \<Rightarrow> None | Some i \<Rightarrow> chain_path base m q k i)"

lemma walkChain_None_path: "walkChain fuel base m q idx = None \<longleftrightarrow> chain_path base m q fuel idx \<noteq> None"
proof (induction fuel arbitrary: idx)
  case (Suc fuel)
  then show ?case by (auto simp: walkChain_None_iff simp del: walkChain.simps split: option.split)
qed simp

lemma chain_path_add:
  "chain_path base m q (j + k) idx =
     (case chain_path base m q j idx of None \<Rightarrow> None | Some i \<Rightarrow> chain_path base m q k i)"
  by (induction j arbitrary: idx) (auto split: option.split)

lemma chain_path_prefix: "chain_path base m q k idx \<noteq> None \<Longrightarrow> j \<le> k \<Longrightarrow> chain_path base m q j idx \<noteq> None"
  using chain_path_add [of base m q j "k - j" idx] by (auto split: option.splits)

text \<open>A walk of 65536 steps has met some index twice and therefore goes on forever.\<close>

lemma chain_path_cycle:
  assumes p: "chain_path base m q i idx = Some x" "chain_path base m q j idx = Some x" and "i < j"
  shows "chain_path base m q k idx \<noteq> None"
proof -
  have step: "chain_path base m q (j - i) x = Some x"
    using chain_path_add [of base m q i "j - i" idx] p assms(3) by simp
  have loop: "chain_path base m q (n * (j - i)) x = Some x" for n
    by (induction n) (auto simp: chain_path_add step)
  have "chain_path base m q (i + k * (j - i)) idx = Some x"
    by (simp add: chain_path_add p loop)
  moreover have "k \<le> i + k * (j - i)"
    using assms(3) by (metis Suc_leI le_add2 le_trans mult.right_neutral mult_le_mono2 zero_less_diff One_nat_def)
  ultimately show ?thesis using chain_path_prefix by blast
qed

lemma chain_path_forever:
  assumes "chain_path base m q 65536 idx \<noteq> None"
  shows "chain_path base m q k idx \<noteq> None"
proof -
  define f where "f j = the (chain_path base m q j idx)" for j
  have some: "chain_path base m q j idx = Some (f j)" if "j \<le> 65536" for j
    using chain_path_prefix [OF assms that] by (auto simp: f_def)
  have "\<not> inj_on f {0..65536}"
  proof
    assume "inj_on f {0..65536}"
    then have "card (f ` {0..65536}) = 65537" by (simp add: card_image)
    moreover have "card (f ` {0..65536}) \<le> CARD(u16)" by (rule card_mono) simp_all
    ultimately show False by (simp add: card_word)
  qed
  then obtain a b where "a \<in> {0..65536}" "b \<in> {0..65536}" "f a = f b" "a < b"
    unfolding inj_on_def by (metis linorder_neqE_nat)
  then show ?thesis
    using chain_path_cycle [of base m q a idx "f a" b] some by auto
qed

lemma walkChain_fuel:
  "walkChain 65536 base m q idx = None \<longleftrightarrow> (\<forall>fuel. walkChain fuel base m q idx = None)"
  using chain_path_forever [of base m q idx] by (auto simp: walkChain_None_path)

section \<open>A well-laid-out queue\<close>

text \<open>Offsets of the three areas of a queue, and the areas.\<close>

definition availOff :: "u64 \<Rightarrow> virtqueue \<Rightarrow> nat" where "availOff base q = unat (drvAddr q - base)"
definition usedOff :: "u64 \<Rightarrow> virtqueue \<Rightarrow> nat" where "usedOff base q = unat (devAddr q - base)"
definition descOff :: "u64 \<Rightarrow> virtqueue \<Rightarrow> nat" where "descOff base q = unat (descAddr q - base)"

abbreviation qlen :: "virtqueue \<Rightarrow> nat" where "qlen q \<equiv> unat (num q)"

definition avail_reg :: "u64 \<Rightarrow> virtqueue \<Rightarrow> nat set" where
  "avail_reg base q = {availOff base q ..< availOff base q + 4 + 2 * qlen q}"
definition used_reg :: "u64 \<Rightarrow> virtqueue \<Rightarrow> nat set" where
  "used_reg base q = {usedOff base q ..< usedOff base q + 4 + 8 * qlen q}"
definition desc_reg :: "u64 \<Rightarrow> virtqueue \<Rightarrow> nat set" where
  "desc_reg base q = {descOff base q ..< descOff base q + 16 * qlen q}"

text \<open>The driver's obligations: a power-of-two size of at most 32768 and three disjoint areas inside
  guest memory.\<close>

definition queue_ok :: "u64 \<Rightarrow> bytes \<Rightarrow> virtqueue \<Rightarrow> bool" where
  "queue_ok base m q \<longleftrightarrow>
     length m < 2 ^ 64 \<and> qlen q dvd 65536 \<and> qlen q < 65536
     \<and> availOff base q + 4 + 2 * qlen q \<le> length m
     \<and> usedOff base q + 4 + 8 * qlen q \<le> length m
     \<and> descOff base q + 16 * qlen q \<le> length m
     \<and> avail_reg base q \<inter> used_reg base q = {} \<and> desc_reg base q \<inter> used_reg base q = {}"

definition availIdx :: "u64 \<Rightarrow> bytes \<Rightarrow> virtqueue \<Rightarrow> u16" where
  "availIdx base m q = get_le16 (slice m (availOff base q + 2) (availOff base q + 4))"

definition usedIdx :: "u64 \<Rightarrow> bytes \<Rightarrow> virtqueue \<Rightarrow> u16" where
  "usedIdx base m q = get_le16 (slice m (usedOff base q + 2) (usedOff base q + 4))"

text \<open>The \<open>i\<close>-th pending head, and the raw used entry in a slot.\<close>

definition availHead :: "u64 \<Rightarrow> bytes \<Rightarrow> virtqueue \<Rightarrow> nat \<Rightarrow> u16" where
  "availHead base m q i =
     (let x = availOff base q + 4 + 2 * (unat (lastAvail q + of_nat i) mod qlen q)
      in get_le16 (slice m x (x + 2)))"

definition usedSlot :: "u64 \<Rightarrow> bytes \<Rightarrow> virtqueue \<Rightarrow> nat \<Rightarrow> bytes" where
  "usedSlot base m q s = slice m (usedOff base q + 4 + 8 * s) (usedOff base q + 12 + 8 * s)"

definition usedId :: "u64 \<Rightarrow> bytes \<Rightarrow> virtqueue \<Rightarrow> nat \<Rightarrow> u32" where
  "usedId base m q s = get_le32 (usedSlot base m q s)"

fun chainIdxs :: "nat \<Rightarrow> u64 \<Rightarrow> bytes \<Rightarrow> virtqueue \<Rightarrow> u16 \<Rightarrow> u16 list" where
  "chainIdxs 0 base m q idx = []"
| "chainIdxs (Suc fuel) base m q idx =
     idx # (case chain_next base m q idx of None \<Rightarrow> [] | Some i \<Rightarrow> chainIdxs fuel base m q i)"

definition writable :: "nat \<Rightarrow> u64 \<Rightarrow> bytes \<Rightarrow> virtqueue \<Rightarrow> u16 \<Rightarrow> gbuf list" where
  "writable fuel base m q head =
     (case walkChain fuel base m q head of Some (Inr (rs, ws)) \<Rightarrow> ws | _ \<Rightarrow> [])"

text \<open>A chain that ends, stays in the table, and whose writable buffers avoid the control areas.\<close>

definition chain_ok :: "nat \<Rightarrow> u64 \<Rightarrow> bytes \<Rightarrow> virtqueue \<Rightarrow> u16 \<Rightarrow> bool" where
  "chain_ok fuel base m q head \<longleftrightarrow>
     (case walkChain fuel base m q head of Some (Inr _) \<Rightarrow> True | _ \<Rightarrow> False)
     \<and> list_all (\<lambda>i. unat i < qlen q) (chainIdxs fuel base m q head)
     \<and> bufs_set (writable fuel base m q head) \<inter> (avail_reg base q \<union> used_reg base q \<union> desc_reg base q) = {}"

lemma queue_okD:
  assumes "queue_ok base m q"
  shows "length m < 2 ^ 64" "0 < qlen q" "qlen q < 65536" "qlen q dvd 65536"
    "availOff base q + 4 + 2 * qlen q \<le> length m" "usedOff base q + 4 + 8 * qlen q \<le> length m"
    "descOff base q + 16 * qlen q \<le> length m"
  using assms by (auto simp: queue_ok_def intro: Nat.gr0I)

lemma queue_ok_same: "queue_ok base m q \<Longrightarrow> same_outside R m m' \<Longrightarrow> queue_ok base m' q"
  by (simp add: queue_ok_def same_outside_length)

lemma queue_ok_lastAvail [simp]: "queue_ok base m (q\<lparr>lastAvail := x\<rparr>) = queue_ok base m q"
  by (simp add: queue_ok_def avail_reg_def used_reg_def desc_reg_def availOff_def usedOff_def descOff_def)

lemma num16: "qlen q < 65536 \<Longrightarrow> unat (ucast (num q) :: u16) = qlen q"
  by (simp add: unsigned_ucast_eq take_bit_nat_eq_self)

lemma readGuestU16_off:
  assumes "unat (a - base) + n + 2 \<le> length m" "length m < 2 ^ 64"
  shows "readGuestU16 base m (a + of_nat n) = Inr (get_le16 (slice m (unat (a - base) + n) (unat (a - base) + n + 2)))"
proof -
  have "unat (a + of_nat n - base) = unat (a - base) + n"
    by (rule unat_add_offset) (use assms in simp)
  with assms show ?thesis by (simp add: readGuestU16_in)
qed

lemma writeGuestU32_off:
  assumes "unat (a - base) + n + 4 \<le> length m" "length m < 2 ^ 64"
  shows "writeGuestU32 base m (a + of_nat n) v = Inr (copy_into m (unat (a - base) + n) 4 (le32 v))"
proof -
  have "unat (a + of_nat n - base) = unat (a - base) + n"
    by (rule unat_add_offset) (use assms in simp)
  with assms show ?thesis by (simp add: writeGuestU32_in)
qed

lemma availIdx_read:
  "queue_ok base m q \<Longrightarrow> readGuestU16 base m (drvAddr q + 2) = Inr (availIdx base m q)"
  using readGuestU16_off [of "drvAddr q" base 2 m] queue_okD [of base m q]
  by (simp add: availIdx_def availOff_def add.commute [of 4] del: add_2_eq_Suc add_2_eq_Suc')

lemma usedIdx_read:
  "queue_ok base m q \<Longrightarrow> readGuestU16 base m (devAddr q + 2) = Inr (usedIdx base m q)"
  using readGuestU16_off [of "devAddr q" base 2 m] queue_okD [of base m q]
  by (simp add: usedIdx_def usedOff_def add.commute [of 4] del: add_2_eq_Suc add_2_eq_Suc')

lemma nextAvail_read:
  assumes "queue_ok base m q"
  shows "nextAvail base m q = Inr (availHead base m q 0)"
proof -
  note q = queue_okD [OF assms]
  let ?s = "unat (lastAvail q) mod qlen q"
  have n: "unat (ucast (num q) :: u16) = qlen q" using q(3) by (rule num16)
  have s: "?s < qlen q" using q(2) by simp
  have e: "unat (lastAvail q mod ucast (num q)) = ?s" by (simp add: unat_mod n)
  have "4 + ucast (lastAvail q mod ucast (num q)) * 2 = (of_nat (4 + 2 * ?s) :: u64)"
    by (simp add: flip: e)
  moreover have "unat (drvAddr q - base) + (4 + 2 * ?s) + 2 \<le> length m"
    using q(5) s by (simp add: availOff_def)
  moreover have "(ucast (num q) :: u16) \<noteq> 0" using n q(2) by auto
  ultimately show ?thesis
    using readGuestU16_off [of "drvAddr q" base "4 + 2 * ?s" m] q(1)
    by (simp add: nextAvail_def availHead_def availOff_def Let_def add.assoc)
qed

lemma pushUsed_eq:
  assumes "queue_ok base m q"
  shows "pushUsed base m q di w =
    (let u = usedIdx base m q; x = usedOff base q + 4 + 8 * (unat u mod qlen q)
     in Inr (copy_into (copy_into (copy_into m x 4 (le32 (ucast di))) (x + 4) 4 (le32 w))
          (usedOff base q + 2) 2 (le16 (u + 1))))"
proof -
  note q = queue_okD [OF assms]
  let ?u = "usedIdx base m q"
  let ?s = "unat ?u mod qlen q"
  have n: "unat (ucast (num q) :: u16) = qlen q" using q(3) by (rule num16)
  have s: "?s < qlen q" using q(2) by simp
  then have b: "usedOff base q + (4 + 8 * ?s) + 8 \<le> length m" using q(6) by simp
  have e: "unat (?u mod ucast (num q)) = ?s" by (simp add: unat_mod n)
  have a: "4 + ucast (?u mod ucast (num q)) * 8 = (of_nat (4 + 8 * ?s) :: u64)"
    by (simp add: flip: e)
  have a4: "devAddr q + of_nat (4 + 8 * ?s) + 4 = devAddr q + of_nat (8 + 8 * ?s)" by simp
  have l: "length (copy_into m (usedOff base q + (4 + 8 * ?s)) 4 v) = length m" for v
    using b by (simp add: length_copy_into)
  have l2: "length (copy_into (copy_into m (usedOff base q + (4 + 8 * ?s)) 4 v) (usedOff base q + (8 + 8 * ?s)) 4 v') = length m" for v v'
    using b l by (subst length_copy_into) (simp_all add: l)
  have w1: "writeGuestU32 base m (devAddr q + of_nat (4 + 8 * ?s)) (ucast di)
      = Inr (copy_into m (usedOff base q + (4 + 8 * ?s)) 4 (le32 (ucast di)))"
    using writeGuestU32_off [of "devAddr q" base "4 + 8 * ?s" m] b q(1) by (simp add: usedOff_def)
  have w2: "writeGuestU32 base m' (devAddr q + of_nat (8 + 8 * ?s)) w
      = Inr (copy_into m' (usedOff base q + (8 + 8 * ?s)) 4 (le32 w))" if "length m' = length m" for m'
    using writeGuestU32_off [of "devAddr q" base "8 + 8 * ?s" m'] b q(1) that by (simp add: usedOff_def)
  have w3: "writeGuestU16 base m' (devAddr q + 2) v = Inr (copy_into m' (usedOff base q + 2) 2 (le16 v))"
    if "length m' = length m" for m' v
    using writeGuestU16_in [of "devAddr q + 2" base m'] unat_add_offset [of "devAddr q" base 2] q(1,6) that
    by (simp add: usedOff_def)
  have x4: "usedOff base q + 4 + 8 * ?s + 4 = usedOff base q + 8 + 8 * ?s" by simp
  show ?thesis
    unfolding pushUsed_def usedIdx_read [OF assms] rbind.simps Let_def a a4 w1 w2 [OF l] w3 [OF l2]
    by (simp only: add.assoc [symmetric] x4)
qed

section \<open>One used entry\<close>

lemma slice_overwritten:
  fixes m :: bytes
  assumes "i + n \<le> length m" "j + k \<le> length m" "i + n \<le> j \<or> j + k \<le> i"
  shows "slice (copy_into m i n src) j (j + k) = slice m j (j + k)"
  by (rule slice_same [OF copy_into_same_outside [OF assms(1)]]) (use assms in auto)

lemma pushUsed_effect:
  assumes ok: "queue_ok base m q" and p: "pushUsed base m q di w = Inr m'"
  shows "same_outside (used_reg base q) m m'"
    and "usedIdx base m' q = usedIdx base m q + 1"
    and "usedId base m' q (unat (usedIdx base m q) mod qlen q) = ucast di"
    and "s < qlen q \<Longrightarrow> s \<noteq> unat (usedIdx base m q) mod qlen q \<Longrightarrow> usedSlot base m' q s = usedSlot base m q s"
proof -
  note q = queue_okD [OF ok]
  let ?u = "usedIdx base m q" and ?U = "usedOff base q"
  let ?s = "unat ?u mod qlen q"
  let ?x = "?U + 4 + 8 * ?s"
  let ?m1 = "copy_into m ?x 4 (le32 (ucast di))"
  let ?m2 = "copy_into ?m1 (?x + 4) 4 (le32 w)"
  have s: "?s < qlen q" using q(2) by simp
  have b: "?x + 8 \<le> length m" "?U + 4 \<le> length m" using q(6) s by simp_all
  have m': "m' = copy_into ?m2 (?U + 2) 2 (le16 (?u + 1))"
    using p pushUsed_eq [OF ok, of di w] by (simp add: Let_def)
  have l1: "length ?m1 = length m" using b by (simp add: length_copy_into)
  have l2: "length ?m2 = length m" using b l1 by (simp add: length_copy_into)
  have s1: "same_outside {?x ..< ?x + 4} m ?m1"
    by (rule copy_into_same_outside) (use b in simp)
  have s2: "same_outside {?x + 4 ..< ?x + 4 + 4} ?m1 ?m2"
    by (rule copy_into_same_outside) (use b l1 in simp)
  have s3: "same_outside {?U + 2 ..< ?U + 2 + 2} ?m2 m'"
    unfolding m' by (rule copy_into_same_outside) (use b l2 in simp)
  have "same_outside ({?x ..< ?x + 4} \<union> {?x + 4 ..< ?x + 4 + 4} \<union> {?U + 2 ..< ?U + 2 + 2}) m m'"
    by (rule same_outside_trans [OF same_outside_trans [OF s1 s2] s3])
  then show "same_outside (used_reg base q) m m'"
    by (rule same_outside_mono) (use s in \<open>auto simp: used_reg_def\<close>)
  have "slice m' (?U + 2) (?U + 2 + length (le16 (?u + 1))) = le16 (?u + 1)"
    unfolding m' using slice_copy_into [of "?U + 2" "le16 (?u + 1)" ?m2] b l2 by simp
  then show "usedIdx base m' q = ?u + 1"
    by (simp add: usedIdx_def codec_simps add.commute [of 4] del: add_2_eq_Suc add_2_eq_Suc')
  have "slice m' ?x (?x + 4) = slice ?m2 ?x (?x + 4)"
    unfolding m' by (rule slice_overwritten) (use b l2 in auto)
  also have "\<dots> = slice ?m1 ?x (?x + 4)"
    by (rule slice_overwritten) (use b l1 in auto)
  also have "\<dots> = le32 (ucast di)"
    using slice_copy_into [of ?x "le32 (ucast di)" m] b by simp
  finally have e: "slice m' ?x (?x + 4) = le32 (ucast di)" .
  have "usedSlot base m' q ?s = slice m' ?x (?x + 4) @ slice m' (?x + 4) (?x + 8)"
    using slice_split [of ?x "?x + 4" "?x + 8" m'] by (simp add: usedSlot_def ac_simps)
  then show "usedId base m' q ?s = ucast di"
    unfolding usedId_def e by (simp only: codec_simps)
  assume t: "s < qlen q" "s \<noteq> ?s"
  let ?y = "?U + 4 + 8 * s"
  have y: "?y + 8 \<le> length m" using t(1) q(6) by simp
  have d: "?x + 8 \<le> ?y \<or> ?y + 8 \<le> ?x" using t(2) by linarith
  have "slice m' ?y (?y + 8) = slice ?m2 ?y (?y + 8)"
    unfolding m' by (rule slice_overwritten) (use b y l2 in auto)
  also have "\<dots> = slice ?m1 ?y (?y + 8)"
    by (rule slice_overwritten) (use b y l1 d in auto)
  also have "\<dots> = slice m ?y (?y + 8)"
    by (rule slice_overwritten) (use b y d in auto)
  finally have "slice m' ?y (?y + 8) = slice m ?y (?y + 8)" .
  moreover have "?y + 8 = ?U + 12 + 8 * s" by simp
  ultimately show "usedSlot base m' q s = usedSlot base m q s"
    unfolding usedSlot_def by simp
qed

section \<open>The walk depends on the table only\<close>

lemma readDescriptor_same:
  assumes ok: "queue_ok base m q" and so: "same_outside R m m'" "R \<inter> desc_reg base q = {}"
    and i: "unat idx < qlen q"
  shows "readDescriptor base m' q idx = readDescriptor base m q idx"
proof -
  note q = queue_okD [OF ok]
  let ?D = "descOff base q + 16 * unat idx"
  have a: "descAddr q + ucast idx * 16 = descAddr q + of_nat (16 * unat idx)" by simp
  have b: "?D + 16 \<le> length m" using i q(7) by simp
  have l: "length m' = length m" using so(1) by (rule same_outside_length)
  have off: "unat (descAddr q + of_nat (16 * unat idx) + of_nat k - base) = ?D + k" if "k \<le> 16" for k
    using unat_add_offset [of "descAddr q" base "16 * unat idx + k"] b q(1) that
    by (simp add: descOff_def add.assoc)
  have sl: "slice m' (?D + j) (?D + j + k) = slice m (?D + j) (?D + j + k)" if "j + k \<le> 16" for j k
    by (rule slice_same [OF so(1)]) (use so(2) that i in \<open>auto simp: desc_reg_def\<close>)
  show ?thesis
    unfolding readDescriptor_def Let_def a
    using off [of 0] off [of 8] off [of 12] off [of 14] sl [of 0 8] sl [of 8 4] sl [of 12 2] sl [of 14 2] b q(1)
    by (simp add: guest_in l)
qed

lemma guestSlice_length: "length m' = length m \<Longrightarrow> guestSlice base m' = guestSlice base m"
  by (simp add: guestSlice_def fun_eq_iff)

lemma walk_same:
  assumes ok: "queue_ok base m q" and so: "same_outside R m m'" "R \<inter> desc_reg base q = {}"
  shows "list_all (\<lambda>i. unat i < qlen q) (chainIdxs fuel base m q idx) \<Longrightarrow>
     walkChain fuel base m' q idx = walkChain fuel base m q idx
     \<and> chainIdxs fuel base m' q idx = chainIdxs fuel base m q idx"
proof (induction fuel arbitrary: idx)
  case (Suc fuel)
  then have i: "unat idx < qlen q" by simp
  note rd = readDescriptor_same [OF ok so i] and gs = guestSlice_length [OF same_outside_length [OF so(1)], of base]
  have cn: "chain_next base m' q idx = chain_next base m q idx"
    by (simp add: chain_next_def rd gs)
  show ?case
  proof (cases "chain_next base m q idx")
    case None
    then show ?thesis
      by (auto simp: cn rd gs chain_next_def Let_def rbind_Inr_iff split: sum.splits if_splits)
  next
    case (Some j)
    with Suc have "walkChain fuel base m' q j = walkChain fuel base m q j
        \<and> chainIdxs fuel base m' q j = chainIdxs fuel base m q j" by simp
    with Some show ?thesis
      by (auto simp: cn rd gs chain_next_def Let_def rbind_Inr_iff split: sum.splits if_splits)
  qed
qed simp

lemma chain_ok_same:
  assumes "queue_ok base m q" "same_outside R m m'" "R \<inter> desc_reg base q = {}" "chain_ok fuel base m q head"
  shows "chain_ok fuel base m' q head" "writable fuel base m' q head = writable fuel base m q head"
  using walk_same [OF assms(1-3), of fuel head] assms(4) by (auto simp: chain_ok_def writable_def)

lemma avail_same:
  assumes "queue_ok base m q" "same_outside R m m'" "R \<inter> avail_reg base q = {}"
  shows "availIdx base m' q = availIdx base m q" "availHead base m' q i = availHead base m q i"
proof -
  show "availIdx base m' q = availIdx base m q"
    unfolding availIdx_def
    by (subst slice_same [OF assms(2)]) (use assms(3) in \<open>auto simp: avail_reg_def\<close>)
  let ?s = "unat (lastAvail q + of_nat i) mod qlen q"
  have "?s < qlen q" using queue_okD(2) [OF assms(1)] by simp
  then have "{availOff base q + 4 + 2 * ?s ..< availOff base q + 4 + 2 * ?s + 2} \<subseteq> avail_reg base q"
    by (auto simp: avail_reg_def)
  then have "{availOff base q + 4 + 2 * ?s ..< availOff base q + 4 + 2 * ?s + 2} \<inter> R = {}"
    using assms(3) by blast
  then show "availHead base m' q i = availHead base m q i"
    unfolding availHead_def Let_def by (subst slice_same [OF assms(2)]) simp_all
qed

section \<open>Moving the index\<close>

lemma lastAvail_layout [simp]:
  "availIdx base m (q\<lparr>lastAvail := x\<rparr>) = availIdx base m q" "usedIdx base m (q\<lparr>lastAvail := x\<rparr>) = usedIdx base m q"
  "usedSlot base m (q\<lparr>lastAvail := x\<rparr>) s = usedSlot base m q s" "usedId base m (q\<lparr>lastAvail := x\<rparr>) s = usedId base m q s"
  "avail_reg base (q\<lparr>lastAvail := x\<rparr>) = avail_reg base q" "used_reg base (q\<lparr>lastAvail := x\<rparr>) = used_reg base q"
  "desc_reg base (q\<lparr>lastAvail := x\<rparr>) = desc_reg base q"
  by (simp_all add: availIdx_def usedIdx_def usedId_def usedSlot_def avail_reg_def used_reg_def desc_reg_def
      availOff_def usedOff_def descOff_def)

lemma lastAvail_walk [simp]:
  "readDescriptor base m (q\<lparr>lastAvail := x\<rparr>) idx = readDescriptor base m q idx"
  "chain_next base m (q\<lparr>lastAvail := x\<rparr>) idx = chain_next base m q idx"
  "walkChain fuel base m (q\<lparr>lastAvail := x\<rparr>) idx = walkChain fuel base m q idx"
  "chainIdxs fuel base m (q\<lparr>lastAvail := x\<rparr>) idx = chainIdxs fuel base m q idx"
proof -
  show r: "readDescriptor base m (q\<lparr>lastAvail := x\<rparr>) i = readDescriptor base m q i" for i
    by (simp add: readDescriptor_def)
  then show c: "chain_next base m (q\<lparr>lastAvail := x\<rparr>) i = chain_next base m q i" for i
    by (simp add: chain_next_def)
  show "walkChain fuel base m (q\<lparr>lastAvail := x\<rparr>) idx = walkChain fuel base m q idx"
    by (induction fuel arbitrary: idx) (simp_all add: r Let_def split: sum.split prod.split)
  show "chainIdxs fuel base m (q\<lparr>lastAvail := x\<rparr>) idx = chainIdxs fuel base m q idx"
    by (induction fuel arbitrary: idx) (simp_all add: c split: option.split)
qed

lemma lastAvail_chain [simp]:
  "writable fuel base m (q\<lparr>lastAvail := x\<rparr>) = writable fuel base m q"
  "chain_ok fuel base m (q\<lparr>lastAvail := x\<rparr>) = chain_ok fuel base m q"
  by (simp_all add: writable_def chain_ok_def fun_eq_iff)

lemma availHead_Suc: "availHead base m (q\<lparr>lastAvail := lastAvail q + 1\<rparr>) i = availHead base m q (Suc i)"
  by (simp add: availHead_def availOff_def add.assoc)

lemma slot_add:
  assumes "n dvd 65536"
  shows "unat (u + of_nat j :: u16) mod n = (unat u + j) mod n"
proof -
  have "unat (u + of_nat j) = (unat u + j) mod 65536"
    by (simp add: unat_word_ariths unat_of_nat mod_add_right_eq)
  with assms show ?thesis by (simp add: mod_mod_cancel)
qed

lemma slot_neq:
  assumes "n dvd 65536" "0 < j" "j < n"
  shows "unat (u :: u16) mod n \<noteq> unat (u + of_nat j) mod n"
proof
  assume "unat u mod n = unat (u + of_nat j) mod n"
  then have "(unat u + j) mod n = unat u mod n" by (simp add: slot_add [OF assms(1)])
  then have "n dvd j" by (metis add_diff_cancel_left' le_add1 mod_eq_dvd_iff_nat)
  with assms(2,3) show False by (simp add: nat_dvd_not_less)
qed

section \<open>The contract of a device and the service of a queue\<close>

text \<open>
  What the transport needs from a device: it writes guest memory only inside the writable buffers it
  was given, and it does not claim to have written more than they hold.
\<close>

text \<open>
  One chain served, as seen from the memory \<open>m\<close> in which the driver published it: its buffers go to the device's handler,
  with the state and the memory of that moment, and its head goes to the used ring with the handler's byte count.
\<close>

definition served :: "'d handler \<Rightarrow> nat \<Rightarrow> u64 \<Rightarrow> bytes \<Rightarrow> virtqueue \<Rightarrow> u16 \<Rightarrow> 'd \<times> bytes \<Rightarrow> 'd \<times> bytes \<Rightarrow> bool" where
  "served h fuel base m q head s t \<longleftrightarrow>
     (\<exists>rs ws m1 w. walkChain fuel base m q head = Some (Inr (rs, ws)) \<and> h (fst s) (snd s) rs ws = (fst t, m1, w) \<and>
        pushUsed base m1 q head w = Inr (snd t))"

lemma pushUsed_lastAvail [simp]: "pushUsed base m (q\<lparr>lastAvail := x\<rparr>) di w = pushUsed base m q di w"
  by (simp add: pushUsed_def)

lemma served_same:
  assumes "queue_ok base m q" "same_outside R m m'" "R \<inter> desc_reg base q = {}" "chain_ok fuel base m q head"
  shows "served h fuel base m' (q\<lparr>lastAvail := x\<rparr>) head = served h fuel base m q head"
  using walk_same [OF assms(1-3), of fuel head] assms(4) by (intro ext) (simp add: served_def chain_ok_def)

text \<open>What is left after one chain is a smaller instance.\<close>

lemma avail_differs:
  assumes "availIdx base m q = lastAvail q + of_nat (Suc k)" "Suc k < 65536"
  shows "availIdx base m q \<noteq> lastAvail q"
proof -
  have "unat (of_nat (Suc k) :: u16) = Suc k"
    using assms(2) by (simp add: unat_of_nat del: of_nat_Suc)
  then have "(of_nat (Suc k) :: u16) \<noteq> 0" by (metis nat.simps(3) unsigned_0)
  with assms(1) show ?thesis by (simp del: of_nat_Suc)
qed

lemma after_one:
  assumes ok: "queue_ok base m q" and "availIdx base m q = lastAvail q + of_nat (Suc k)" "Suc k < 65536"
    and ch: "\<forall>i < Suc k. chain_ok fuel base m q (availHead base m q i)"
    and so: "same_outside (used_reg base q \<union> bufs_set (writable fuel base m q (availHead base m q 0))) m m1"
    (is "same_outside ?R m m1")
  shows "queue_ok base m1 (q\<lparr>lastAvail := lastAvail q + 1\<rparr>)"
    "availIdx base m1 (q\<lparr>lastAvail := lastAvail q + 1\<rparr>) = lastAvail (q\<lparr>lastAvail := lastAvail q + 1\<rparr>) + of_nat k"
    "k < 65536"
    "\<forall>i < k. chain_ok fuel base m1 (q\<lparr>lastAvail := lastAvail q + 1\<rparr>) (availHead base m1 (q\<lparr>lastAvail := lastAvail q + 1\<rparr>) i)"
    "availHead base m1 (q\<lparr>lastAvail := lastAvail q + 1\<rparr>) i = availHead base m q (Suc i)"
    "?R \<inter> desc_reg base q = {}"
    "availIdx base m1 q = availIdx base m q"
proof -
  have dis: "?R \<inter> avail_reg base q = {}" "?R \<inter> desc_reg base q = {}"
    using ok ch by (auto simp: queue_ok_def chain_ok_def)
  note as = avail_same [OF ok so dis(1)]
  have hd: "availHead base m1 (q\<lparr>lastAvail := lastAvail q + 1\<rparr>) i = availHead base m q (Suc i)" for i
    using avail_same(2) [OF ok so dis(1), of "Suc i"] by (simp add: availHead_Suc)
  then show "availHead base m1 (q\<lparr>lastAvail := lastAvail q + 1\<rparr>) i = availHead base m q (Suc i)" .
  show "?R \<inter> desc_reg base q = {}" "availIdx base m1 q = availIdx base m q" "k < 65536"
    using dis as(1) assms(3) by simp_all
  show "queue_ok base m1 (q\<lparr>lastAvail := lastAvail q + 1\<rparr>)"
    "availIdx base m1 (q\<lparr>lastAvail := lastAvail q + 1\<rparr>) = lastAvail (q\<lparr>lastAvail := lastAvail q + 1\<rparr>) + of_nat k"
    "\<forall>i < k. chain_ok fuel base m1 (q\<lparr>lastAvail := lastAvail q + 1\<rparr>) (availHead base m1 (q\<lparr>lastAvail := lastAvail q + 1\<rparr>) i)"
    using queue_ok_same [OF ok so] assms(2) as(1) chain_ok_same(1) [OF ok so dis(2)] ch by (simp_all add: hd add.assoc)
qed

locale virtio_handler =
  fixes h :: "'d handler"
  assumes frame: "\<forall>b \<in> set ws. fst b + snd b \<le> length m \<Longrightarrow> h d m rs ws = (d', m', w) \<Longrightarrow>
      same_outside (bufs_set ws) m m'"
    and written: "\<forall>b \<in> set ws. fst b + snd b \<le> length m \<Longrightarrow> h d m rs ws = (d', m', w) \<Longrightarrow> unat w \<le> sum_list (map snd ws)"
begin

lemma processOne_ok:
  assumes ok: "queue_ok base m q" and av: "availIdx base m q \<noteq> lastAvail q"
    and ch: "chain_ok fuel base m q (availHead base m q 0)"
  obtains d' m' where
    "processOne fuel base h d m q = Some (Inr (Some (d', m', q\<lparr>lastAvail := lastAvail q + 1\<rparr>)))"
    "same_outside (used_reg base q \<union> bufs_set (writable fuel base m q (availHead base m q 0))) m m'"
    "usedIdx base m' q = usedIdx base m q + 1"
    "usedId base m' q (unat (usedIdx base m q) mod qlen q) = ucast (availHead base m q 0)"
    "\<forall>s < qlen q. s \<noteq> unat (usedIdx base m q) mod qlen q \<longrightarrow> usedSlot base m' q s = usedSlot base m q s"
    "served h fuel base m q (availHead base m q 0) (d, m) (d', m')"
proof -
  let ?hd = "availHead base m q 0"
  from ch obtain rs ws where w: "walkChain fuel base m q ?hd = Some (Inr (rs, ws))"
    by (auto simp: chain_ok_def split: option.splits sum.splits)
  then have wr: "writable fuel base m q ?hd = ws" by (simp add: writable_def)
  obtain d1 m1 wn where h: "h d m rs ws = (d1, m1, wn)" by (metis prod_cases3)
  have so: "same_outside (bufs_set ws) m m1"
    by (rule frame [OF _ h]) (use walkChain_bufs [OF w] in auto)
  have dis: "bufs_set ws \<inter> (avail_reg base q \<union> used_reg base q \<union> desc_reg base q) = {}"
    using ch by (simp add: chain_ok_def wr)
  have ok1: "queue_ok base m1 q" by (rule queue_ok_same [OF ok so])
  have us: "usedIdx base m1 q = usedIdx base m q"
    unfolding usedIdx_def by (subst slice_same [OF so]) (use dis in \<open>auto simp: used_reg_def\<close>)
  have sl: "usedSlot base m1 q s = usedSlot base m q s" if "s < qlen q" for s
  proof -
    have "{usedOff base q + 4 + 8 * s ..< usedOff base q + 12 + 8 * s} \<subseteq> used_reg base q"
      using that by (auto simp: used_reg_def)
    then show ?thesis unfolding usedSlot_def by (subst slice_same [OF so]) (use dis in auto)
  qed
  obtain m2 where p: "pushUsed base m1 q ?hd wn = Inr m2"
    using pushUsed_eq [OF ok1] by (simp add: Let_def)
  note e = pushUsed_effect [OF ok1 p, unfolded us]
  show thesis
  proof
    show "processOne fuel base h d m q = Some (Inr (Some (d1, m2, q\<lparr>lastAvail := lastAvail q + 1\<rparr>)))"
      using av by (simp add: processOne_def availIdx_read [OF ok] nextAvail_read [OF ok] w h p)
    show "same_outside (used_reg base q \<union> bufs_set (writable fuel base m q ?hd)) m m2"
      using same_outside_trans [OF so e(1)] by (simp add: wr Un_commute)
    show "usedIdx base m2 q = usedIdx base m q + 1" by (rule e(2))
    show "usedId base m2 q (unat (usedIdx base m q) mod qlen q) = ucast ?hd" by (rule e(3))
    show "\<forall>s < qlen q. s \<noteq> unat (usedIdx base m q) mod qlen q \<longrightarrow> usedSlot base m2 q s = usedSlot base m q s"
      using e(4) sl by simp
    show "served h fuel base m q ?hd (d, m) (d1, m2)"
      using w h p by (auto simp: served_def)
  qed
qed

lemma availLoop_complete:
  assumes "queue_ok base m q" "availIdx base m q = lastAvail q + of_nat k" "k < 65536"
    "\<forall>i < k. chain_ok fuel base m q (availHead base m q i)"
  shows "\<exists>d' m'. availLoop (Suc k) fuel base h d m q p =
        Some (Inr (d', m', q\<lparr>lastAvail := availIdx base m q\<rparr>, p \<or> 0 < k))
      \<and> same_outside (used_reg base q \<union> (\<Union>i < k. bufs_set (writable fuel base m q (availHead base m q i)))) m m'
      \<and> usedIdx base m' q = usedIdx base m q + of_nat k
      \<and> (\<forall>s < qlen q. (\<forall>i < k. s \<noteq> unat (usedIdx base m q + of_nat i) mod qlen q) \<longrightarrow>
            usedSlot base m' q s = usedSlot base m q s)
      \<and> (k \<le> qlen q \<longrightarrow> (\<forall>i < k. usedId base m' q (unat (usedIdx base m q + of_nat i) mod qlen q)
            = ucast (availHead base m q i)))"
  using assms
proof (induction k arbitrary: d m q p)
  case 0
  then show ?case by (simp add: processOne_def availIdx_read)
next
  case (Suc k)
  note ok = Suc.prems(1)
  let ?q = "q\<lparr>lastAvail := lastAvail q + 1\<rparr>"
  let ?A = "\<lambda>i. availHead base m q i"
  let ?W = "\<lambda>i. bufs_set (writable fuel base m q (?A i))"
  note ne = avail_differs [OF Suc.prems(2,3)]
  have ch0: "chain_ok fuel base m q (?A 0)" using Suc.prems(4) by simp
  obtain d1 m1 where
    one: "processOne fuel base h d m q = Some (Inr (Some (d1, m1, ?q)))"
    and so: "same_outside (used_reg base q \<union> ?W 0) m m1"
    and ui: "usedIdx base m1 q = usedIdx base m q + 1"
    and id0: "usedId base m1 q (unat (usedIdx base m q) mod qlen q) = ucast (?A 0)"
    and sl: "\<forall>s < qlen q. s \<noteq> unat (usedIdx base m q) mod qlen q \<longrightarrow> usedSlot base m1 q s = usedSlot base m q s"
    by (rule processOne_ok [OF ok ne ch0, of d])
  have dis: "(used_reg base q \<union> ?W 0) \<inter> avail_reg base q = {}" "(used_reg base q \<union> ?W 0) \<inter> desc_reg base q = {}"
    using ok Suc.prems(4) by (auto simp: queue_ok_def chain_ok_def)
  note as = avail_same [OF ok so dis(1)]
  have cs: "chain_ok fuel base m1 q (?A i)" "writable fuel base m1 q (?A i) = writable fuel base m q (?A i)"
    if "i < Suc k" for i using chain_ok_same [OF ok so dis(2)] Suc.prems(4) that by auto
  have hd: "availHead base m1 ?q i = ?A (Suc i)" for i
    using avail_same(2) [OF ok so dis(1), of "Suc i"] by (simp add: availHead_Suc)
  have pre: "queue_ok base m1 ?q" "availIdx base m1 ?q = lastAvail ?q + of_nat k" "k < 65536"
    "\<forall>i < k. chain_ok fuel base m1 ?q (availHead base m1 ?q i)"
    using queue_ok_same [OF ok so] Suc.prems(2,3) as(1) cs(1) by (simp_all add: hd add.assoc)
  from Suc.IH [OF pre, of d1 True] obtain d2 m2 where
    loop: "availLoop (Suc k) fuel base h d1 m1 ?q True = Some (Inr (d2, m2, ?q\<lparr>lastAvail := availIdx base m1 q\<rparr>, True))"
    and so2: "same_outside (used_reg base q \<union> (\<Union>i < k. bufs_set (writable fuel base m1 q (?A (Suc i))))) m1 m2"
    and ui2: "usedIdx base m2 q = usedIdx base m1 q + of_nat k"
    and sl2: "\<And>s. s < qlen q \<Longrightarrow> (\<forall>i < k. s \<noteq> unat (usedIdx base m1 q + of_nat i) mod qlen q) \<Longrightarrow>
            usedSlot base m2 q s = usedSlot base m1 q s"
    and id2: "k \<le> qlen q \<Longrightarrow> (\<forall>i < k. usedId base m2 q (unat (usedIdx base m1 q + of_nat i) mod qlen q)
            = ucast (?A (Suc i)))"
    by (auto simp: hd)
  have W: "(\<Union>i < k. bufs_set (writable fuel base m1 q (?A (Suc i)))) = (\<Union>i < k. ?W (Suc i))"
    using cs(2) by simp
  have so3: "same_outside (used_reg base q \<union> (\<Union>i < Suc k. ?W i)) m m2"
    by (rule same_outside_mono [OF same_outside_trans [OF so so2 [unfolded W]]])
      (auto simp: lessThan_Suc_eq_insert_0)
  have sl3: "usedSlot base m2 q s = usedSlot base m q s"
    if s: "s < qlen q" "\<forall>i < Suc k. s \<noteq> unat (usedIdx base m q + of_nat i) mod qlen q" for s
  proof -
    have "s \<noteq> unat (usedIdx base m q) mod qlen q" using s(2) by auto
    moreover have "s \<noteq> unat (usedIdx base m1 q + of_nat i) mod qlen q" if "i < k" for i
      using s(2) that by (auto simp: ui add.assoc dest: spec [of _ "Suc i"])
    ultimately show ?thesis using sl sl2 s(1) by simp
  qed
  have id3: "usedId base m2 q (unat (usedIdx base m q + of_nat i) mod qlen q) = ucast (?A i)"
    if i: "Suc k \<le> qlen q" "i < Suc k" for i
  proof (cases i)
    case 0
    let ?s = "unat (usedIdx base m q) mod qlen q"
    have "usedSlot base m2 q ?s = usedSlot base m1 q ?s"
    proof (rule sl2)
      show "?s < qlen q" using i by simp
      show "\<forall>j < k. ?s \<noteq> unat (usedIdx base m1 q + of_nat j) mod qlen q"
        using slot_neq [OF queue_okD(4) [OF ok], of "Suc _" "usedIdx base m q"] i(1) by (simp add: ui add.assoc)
    qed
    with 0 id0 show ?thesis by (simp add: usedId_def)
  next
    case (Suc j)
    with id2 i show ?thesis by (simp add: ui add.assoc)
  qed
  have "availLoop (Suc (Suc k)) fuel base h d m q p = Some (Inr (d2, m2, q\<lparr>lastAvail := availIdx base m q\<rparr>, True))"
    using loop by (simp add: one as(1))
  with so3 sl3 id3 ui2 show ?case by (auto simp: ui add.assoc)
qed

text \<open>The state of the device and the memory after each chain.\<close>

lemma availLoop_trace:
  assumes "queue_ok base m q" "availIdx base m q = lastAvail q + of_nat k" "k < 65536"
    "\<forall>i < k. chain_ok fuel base m q (availHead base m q i)"
  shows "\<exists>st q' p'. availLoop (Suc k) fuel base h d m q p = Some (Inr (fst (st k), snd (st k), q', p')) \<and> st 0 = (d, m) \<and>
    (\<forall>i < k. served h fuel base m q (availHead base m q i) (st i) (st (Suc i))) \<and> (\<forall>i \<le> k. length (snd (st i)) = length m)"
  using assms
proof (induction k arbitrary: d m q p)
  case 0
  then show ?case by (intro exI [of _ "\<lambda>_. (d, m)"]) (simp add: processOne_def availIdx_read)
next
  case (Suc k)
  note ok = Suc.prems(1)
  let ?q = "q\<lparr>lastAvail := lastAvail q + 1\<rparr>"
  note ne = avail_differs [OF Suc.prems(2,3)]
  have ch0: "chain_ok fuel base m q (availHead base m q 0)" using Suc.prems(4) by simp
  obtain d1 m1 where one: "processOne fuel base h d m q = Some (Inr (Some (d1, m1, ?q)))"
    and so: "same_outside (used_reg base q \<union> bufs_set (writable fuel base m q (availHead base m q 0))) m m1"
    and sv: "served h fuel base m q (availHead base m q 0) (d, m) (d1, m1)"
    by (rule processOne_ok [OF ok ne ch0, of d])
  note pre = after_one [OF Suc.prems so]
  from Suc.IH [OF pre(1-4), of d1 True] obtain st q' p' where st:
    "availLoop (Suc k) fuel base h d1 m1 ?q True = Some (Inr (fst (st k), snd (st k), q', p'))" "st 0 = (d1, m1)"
    "\<forall>i < k. served h fuel base m1 ?q (availHead base m1 ?q i) (st i) (st (Suc i))" "\<forall>i \<le> k. length (snd (st i)) = length m1"
    by blast
  have len: "length (snd (case_nat (d, m) st i)) = length m" if "i \<le> Suc k" for i
    using st(4) same_outside_length [OF so] that by (cases i) auto
  have "served h fuel base m q (availHead base m q i) (case_nat (d, m) st i) (case_nat (d, m) st (Suc i))" if i: "i < Suc k" for i
  proof (cases i)
    case 0
    then show ?thesis using sv st(2) by simp
  next
    case (Suc j)
    then show ?thesis
      using st(3) i pre(5) served_same [OF ok so pre(6), of fuel "availHead base m q i" h] Suc.prems(4) by auto
  qed
  then show ?case
    using one st(1) len by (intro exI [of _ "case_nat (d, m) st"]) simp
qed

lemma ProcessAvailRing_complete:
  assumes q: "qi < length (queues v)" "q = queues v ! qi" "ready q" and ok: "queue_ok base (mem v) q"
    and k: "k = unat (availIdx base (mem v) q - lastAvail q)"
    and ch: "\<forall>i < k. chain_ok fuel base (mem v) q (availHead base (mem v) q i)"
  shows "\<exists>v'. ProcessAvailRing (Suc k) fuel base h v qi = Some (Inr v')
      \<and> queues v' = (queues v)[qi := q\<lparr>lastAvail := availIdx base (mem v) q\<rparr>]
      \<and> interruptStat v' = (if 0 < k then interruptStat v OR 1 else interruptStat v)
      \<and> same_outside (used_reg base q \<union> (\<Union>i < k. bufs_set (writable fuel base (mem v) q (availHead base (mem v) q i))))
            (mem v) (mem v')
      \<and> usedIdx base (mem v') q = usedIdx base (mem v) q + of_nat k
      \<and> (k \<le> qlen q \<longrightarrow> (\<forall>i < k. usedId base (mem v') q (unat (usedIdx base (mem v) q + of_nat i) mod qlen q)
            = ucast (availHead base (mem v) q i)))
      \<and> (\<exists>st. st 0 = (device v, mem v) \<and> st k = (device v', mem v') \<and>
            (\<forall>i < k. served h fuel base (mem v) q (availHead base (mem v) q i) (st i) (st (Suc i))) \<and>
            (\<forall>i \<le> k. length (snd (st i)) = length (mem v)))"
proof -
  have "num q \<noteq> 0" using queue_okD(2) [OF ok] by auto
  have "availIdx base (mem v) q = lastAvail q + of_nat k" by (simp add: k)
  moreover have "k < 65536" using unsigned_less [of "availIdx base (mem v) q - lastAvail q", where 'a = nat] by (simp add: k)
  ultimately obtain d' m' where r: "availLoop (Suc k) fuel base h (device v) (mem v) q False =
        Some (Inr (d', m', q\<lparr>lastAvail := availIdx base (mem v) q\<rparr>, 0 < k))"
    "same_outside (used_reg base q \<union> (\<Union>i < k. bufs_set (writable fuel base (mem v) q (availHead base (mem v) q i))))
            (mem v) m'"
    "usedIdx base m' q = usedIdx base (mem v) q + of_nat k"
    "k \<le> qlen q \<longrightarrow> (\<forall>i < k. usedId base m' q (unat (usedIdx base (mem v) q + of_nat i) mod qlen q)
            = ucast (availHead base (mem v) q i))"
    using availLoop_complete [OF ok, of k fuel "device v" False] ch by auto
  obtain st where st: "st k = (d', m')" "st 0 = (device v, mem v)"
    "\<forall>i < k. served h fuel base (mem v) q (availHead base (mem v) q i) (st i) (st (Suc i))"
    "\<forall>i \<le> k. length (snd (st i)) = length (mem v)"
    using availLoop_trace [OF ok _ _ ch, of "device v" False] r(1) \<open>k < 65536\<close> \<open>availIdx base (mem v) q = _\<close>
    by (auto simp del: availLoop.simps)
  let ?v = "v\<lparr>device := d', mem := m', queues := (queues v)[qi := q\<lparr>lastAvail := availIdx base (mem v) q\<rparr>]\<rparr>"
  have "ProcessAvailRing (Suc k) fuel base h v qi = Some (Inr (if 0 < k then injectIRQ ?v else ?v))"
    using q \<open>num q \<noteq> 0\<close> r(1) by (simp add: ProcessAvailRing_def Let_def del: availLoop.simps)
  moreover have "\<exists>st. st 0 = (device v, mem v) \<and> st k = (d', m') \<and>
      (\<forall>i < k. served h fuel base (mem v) q (availHead base (mem v) q i) (st i) (st (Suc i))) \<and>
      (\<forall>i \<le> k. length (snd (st i)) = length (mem v))"
    using st by blast
  ultimately show ?thesis using r(2-4) by (auto simp: injectIRQ_def)
qed

end

section \<open>Registers\<close>

text \<open>The transport's invariant: three queues, and the selector is only used when it names one.\<close>

definition vdev_inv :: "'d virtioMMIODev \<Rightarrow> bool" where
  "vdev_inv v \<longleftrightarrow> length (queues v) = 3"

lemma set_halves:
  "set_low w val = (w AND NOT (mask 32)) OR ucast val" "set_high w val = (w AND mask 32) OR push_bit 32 (ucast val)"
proof -
  have "(0xFFFFFFFF00000000 :: u64) = NOT (mask 32)" "(0x00000000FFFFFFFF :: u64) = mask 32"
    by (simp_all add: mask_eq_exp_minus_1)
  then show "set_low w val = (w AND NOT (mask 32)) OR ucast val" "set_high w val = (w AND mask 32) OR push_bit 32 (ucast val)"
    by (simp_all only: set_low_def set_high_def)
qed

lemma set_low_high: "set_high (set_low w lo) hi = push_bit 32 (ucast hi) OR ucast lo"
  unfolding set_halves by (rule bit_word_eqI) (auto simp: bit_simps dest: bit_imp_le_length)

lemma set_high_low: "set_low (set_high w hi) lo = push_bit 32 (ucast hi) OR ucast lo"
  unfolding set_halves by (rule bit_word_eqI) (auto simp: bit_simps dest: bit_imp_le_length)

lemma on_queue_inv: "vdev_inv v \<Longrightarrow> vdev_inv (on_queue v f)"
  by (simp add: vdev_inv_def on_queue_def split: option.split)

lemma vdev_inv_update [simp]:
  "vdev_inv (v\<lparr>devFeatSel := a\<rparr>) = vdev_inv v" "vdev_inv (v\<lparr>drvFeatures := b\<rparr>) = vdev_inv v"
  "vdev_inv (v\<lparr>drvFeatSel := a\<rparr>) = vdev_inv v" "vdev_inv (v\<lparr>queueSel := a\<rparr>) = vdev_inv v"
  "vdev_inv (v\<lparr>interruptStat := a\<rparr>) = vdev_inv v" "vdev_inv (v\<lparr>status := a\<rparr>) = vdev_inv v"
  "vdev_inv (v\<lparr>device := d\<rparr>) = vdev_inv v" "vdev_inv (vreset v) = vdev_inv v"
  by (simp_all add: vdev_inv_def vreset_def)

lemma inv_ifI: "vdev_inv (fst a) \<Longrightarrow> vdev_inv (fst b) \<Longrightarrow> vdev_inv (fst (if P then a else b))"
  by simp

lemma writeReg_inv: "vdev_inv v \<Longrightarrow> vdev_inv (fst (writeReg D v off val))"
  unfolding writeReg_def Let_def by (intro inv_ifI) (simp_all add: on_queue_inv)

lemma currentQueue_lt:
  assumes "vdev_inv v"
  shows "currentQueue v = (if unat (queueSel v) < 3 then Some (queues v ! unat (queueSel v)) else None)"
proof -
  have "(3 \<le> queueSel v) = (\<not> unat (queueSel v) < 3)"
    by (simp add: word_le_nat_alt linorder_not_less)
  with assms show ?thesis by (simp add: currentQueue_def vdev_inv_def)
qed


lemma writeReg_queue_addr:
  "fst (writeReg D v 0x080 val) = on_queue v (\<lambda>q. q\<lparr>descAddr := set_low (descAddr q) val\<rparr>)"
  "fst (writeReg D v 0x084 val) = on_queue v (\<lambda>q. q\<lparr>descAddr := set_high (descAddr q) val\<rparr>)"
  "fst (writeReg D v 0x090 val) = on_queue v (\<lambda>q. q\<lparr>drvAddr := set_low (drvAddr q) val\<rparr>)"
  "fst (writeReg D v 0x094 val) = on_queue v (\<lambda>q. q\<lparr>drvAddr := set_high (drvAddr q) val\<rparr>)"
  "fst (writeReg D v 0x0A0 val) = on_queue v (\<lambda>q. q\<lparr>devAddr := set_low (devAddr q) val\<rparr>)"
  "fst (writeReg D v 0x0A4 val) = on_queue v (\<lambda>q. q\<lparr>devAddr := set_high (devAddr q) val\<rparr>)"
  by (simp_all add: writeReg_def)

lemma on_queue_twice:
  assumes "vdev_inv v"
  shows "on_queue (on_queue v f) g = on_queue v (\<lambda>q. g (f q))"
proof (cases "unat (queueSel v) < 3")
  case True
  with assms have "currentQueue (on_queue v f) = Some (f (queues v ! unat (queueSel v)))"
    by (simp add: currentQueue_lt on_queue_def vdev_inv_def)
  with True assms show ?thesis by (simp add: on_queue_def currentQueue_lt)
next
  case False
  with assms show ?thesis by (simp add: on_queue_def currentQueue_lt)
qed

section \<open>Properties\<close>

lemma guest_access_bounds_laws:
  "guestSlice base m gpa sz = Inr (Some (a, n)) \<Longrightarrow> a = unat (gpa - base) \<and> n = unat sz \<and> a + n \<le> length m"
  "walkChain fuel base m q idx = Some (Inr (rs, ws)) \<Longrightarrow> b \<in> set rs \<union> set ws \<Longrightarrow> fst b + snd b \<le> length m"
  "(\<exists>e. guestSlice base m gpa sz = Inl e) \<longleftrightarrow>
     2 ^ 64 \<le> unat (gpa - base) + unat sz \<and> unat (gpa - base) + unat sz \<le> 2 ^ 64 + length m"
  subgoal using guestSlice_SomeD by blast
  subgoal using walkChain_bufs by blast
  subgoal
  proof -
    let ?o = "gpa - base"
    have lt: "unat ?o < 2 ^ 64" "unat sz < 2 ^ 64"
      using unsigned_less [of ?o, where 'a = nat] unsigned_less [of sz, where 'a = nat] by simp_all
    have u: "unat (?o + sz) = (unat ?o + unat sz) mod 2 ^ 64" by (simp add: unat_word_ariths)
    show ?thesis
    proof (cases "2 ^ 64 \<le> unat ?o + unat sz")
      case True
      then have "unat (?o + sz) = unat ?o + unat sz - 2 ^ 64" using u lt by (simp add: le_mod_geq)
      moreover from this have "?o + sz < ?o" using lt True unfolding word_less_nat_alt by linarith
      ultimately show ?thesis using True by (auto simp: guestSlice_def Let_def)
    next
      case False
      then have "unat (?o + sz) = unat ?o + unat sz" using u by simp
      then have "\<not> ?o + sz < ?o" by (simp add: word_less_nat_alt)
      with False show ?thesis by (auto simp: guestSlice_def Let_def)
    qed
  qed
  done

text \<open>C5: a guest access never leaves guest memory. A slice that \<open>guestSlice\<close> grants starts at the guest
  address, has the requested length and ends inside the memory; every buffer a chain hands to a device
  lies inside the memory; and the access panics exactly when the sum of offset and size lies between
  2^64 and 2^64 plus the memory size, that is, when it wraps around 64 bits to an end inside the memory.\<close>

theorem guest_access_bounds:
  "(guestSlice base m gpa sz = Inr (Some (a, n)) \<longrightarrow> a = unat (gpa - base) \<and> n = unat sz \<and> a + n \<le> length m)
   \<and> (walkChain fuel base m q idx = Some (Inr (rs, ws)) \<longrightarrow> b \<in> set rs \<union> set ws \<longrightarrow> fst b + snd b \<le> length m)
   \<and> ((\<exists>e. guestSlice base m gpa sz = Inl e) \<longleftrightarrow>
     2 ^ 64 \<le> unat (gpa - base) + unat sz \<and> unat (gpa - base) + unat sz \<le> 2 ^ 64 + length m)"
  by - (rule guest_access_bounds_laws | assumption | rule conjI | rule impI)+

theorem guest_access_bounds_witness:
  "guestSlice 0x40000000 (zeros 64) 0x40000010 8 = Inr (Some (16, 8)) \<and> (16::nat) + 8 \<le> length (zeros 64)"
  using guest_access_bounds [THEN conjunct1, rule_format, of "0x40000000" "zeros 64" "0x40000010" 8 16 8]
  by (simp add: guestSlice_def Let_def)

lemma chain_walk_bound_laws:
  "walkChain 65536 base m q idx = None \<longleftrightarrow> (\<forall>fuel. walkChain fuel base m q idx = None)"
  "chain_next base m q idx = Some idx \<Longrightarrow> walkChain fuel base m q idx = None"
  subgoal by (rule walkChain_fuel)
  subgoal
  proof -
    assume "chain_next base m q idx = Some idx"
    then have "chain_path base m q fuel idx = Some idx" by (induction fuel) simp_all
    then show ?thesis by (simp add: walkChain_None_path)
  qed
  done

text \<open>C26: the descriptor walk either ends within 65536 steps or never ends, so a walk with 65536 units of
  fuel decides it; a descriptor whose \<open>next\<close> field names itself is a chain that never ends.\<close>

theorem chain_walk_bound:
  "(walkChain 65536 base m q idx = None \<longleftrightarrow> (\<forall>fuel. walkChain fuel base m q idx = None))
   \<and> (chain_next base m q idx = Some idx \<longrightarrow> walkChain fuel base m q idx = None)"
  by - (rule chain_walk_bound_laws | assumption | rule conjI | rule impI)+

definition cyc_mem :: bytes where
  "cyc_mem = zeros 12 @ [1, 0, 0, 0]"

definition cyc_queue :: virtqueue where
  "cyc_queue = virtqueue0\<lparr>num := 1, ready := True\<rparr>"

theorem chain_walk_bound_witness:
  "chain_next 0 cyc_mem cyc_queue 0 = Some 0 \<and> walkChain 65536 0 cyc_mem cyc_queue 0 = None"
proof -
  have c: "chain_next 0 cyc_mem cyc_queue 0 = Some 0" by code_simp
  show ?thesis using chain_walk_bound [THEN conjunct2, rule_format, OF c] c by blast
qed

lemma register_file_laws:
  assumes "vdev_inv v"
  shows "fst (writeReg D (fst (writeReg D v 0x080 lo)) 0x084 hi)
      = on_queue v (\<lambda>q. q\<lparr>descAddr := push_bit 32 (ucast hi) OR ucast lo\<rparr>)"
    and "fst (writeReg D (fst (writeReg D v 0x094 hi)) 0x090 lo)
      = on_queue v (\<lambda>q. q\<lparr>drvAddr := push_bit 32 (ucast hi) OR ucast lo\<rparr>)"
    and "fst (writeReg D (fst (writeReg D v 0x0A0 lo)) 0x0A4 hi)
      = on_queue v (\<lambda>q. q\<lparr>devAddr := push_bit 32 (ucast hi) OR ucast lo\<rparr>)"
    and "3 \<le> unat (queueSel v) \<Longrightarrow> on_queue v f = v"
    and "fst (writeReg D v 0x070 0) =
      (newVirtioMMIODev (baseAddr v) (mem v) (device v))\<lparr>irqOn := irqOn v, irqEvents := irqEvents v, configGen := configGen v\<rparr>"
    and "vdev_inv (fst (writeReg D v off val))"
    and "addr < baseAddr v \<or> baseAddr v + virtioMMIORegionSize \<le> addr \<Longrightarrow>
      HandleMMIO D v addr len isW data = (False, v, data, [])"
  subgoal by (simp add: writeReg_queue_addr on_queue_twice [OF assms] set_low_high)
  subgoal by (simp add: writeReg_queue_addr on_queue_twice [OF assms] set_high_low)
  subgoal by (simp add: writeReg_queue_addr on_queue_twice [OF assms] set_low_high)
  subgoal by (simp add: on_queue_def currentQueue_lt [OF assms])
  subgoal using assms
    by (simp add: writeReg_def vreset_def newVirtioMMIODev_def vdev_inv_def map_replicate_const numeral_3_eq_3)
  subgoal by (rule writeReg_inv [OF assms])
  subgoal by (simp add: HandleMMIO_def)
  done

text \<open>The queue registers. The two halves of an address register, written in either order, set the
  64-bit address of the selected queue and touch nothing else; with a selector that names no queue the
  writes have no effect; writing 0 to the status register returns the device to its initial registers;
  every register write keeps the three queues; and an access outside the window is declined unchanged.\<close>

theorem register_file:
  assumes "vdev_inv v"
  shows "(fst (writeReg D (fst (writeReg D v 0x080 lo)) 0x084 hi)
      = on_queue v (\<lambda>q. q\<lparr>descAddr := push_bit 32 (ucast hi) OR ucast lo\<rparr>))
   \<and> (fst (writeReg D (fst (writeReg D v 0x094 hi)) 0x090 lo)
      = on_queue v (\<lambda>q. q\<lparr>drvAddr := push_bit 32 (ucast hi) OR ucast lo\<rparr>))
   \<and> (fst (writeReg D (fst (writeReg D v 0x0A0 lo)) 0x0A4 hi)
      = on_queue v (\<lambda>q. q\<lparr>devAddr := push_bit 32 (ucast hi) OR ucast lo\<rparr>))
   \<and> (3 \<le> unat (queueSel v) \<longrightarrow> on_queue v f = v)
   \<and> (fst (writeReg D v 0x070 0) =
      (newVirtioMMIODev (baseAddr v) (mem v) (device v))\<lparr>irqOn := irqOn v, irqEvents := irqEvents v, configGen := configGen v\<rparr>)
   \<and> (vdev_inv (fst (writeReg D v off val)))
   \<and> (addr < baseAddr v \<or> baseAddr v + virtioMMIORegionSize \<le> addr \<longrightarrow>
      HandleMMIO D v addr len isW data = (False, v, data, []))"
  using assms by - (rule register_file_laws | assumption | rule conjI | rule impI)+

theorem register_file_witness:
  "vdev_inv (newVirtioMMIODev 0x0a000000 [] ()) \<and>
   on_queue ((newVirtioMMIODev 0x0a000000 [] ())\<lparr>queueSel := 7\<rparr>) (\<lambda>q. q\<lparr>num := 9\<rparr>)
     = (newVirtioMMIODev 0x0a000000 [] ())\<lparr>queueSel := 7\<rparr>"
proof -
  have i: "vdev_inv (newVirtioMMIODev 0x0a000000 [] ())" "vdev_inv ((newVirtioMMIODev 0x0a000000 [] ())\<lparr>queueSel := 7\<rparr>)"
    by (simp_all add: vdev_inv_def newVirtioMMIODev_def)
  show ?thesis using register_file [OF i(2), THEN conjunct2, THEN conjunct2, THEN conjunct2, THEN conjunct1, rule_format] i(1) by simp
qed

end
