(* ===== verification/VirtioDevices.thy ===== *)
theory VirtioDevices
  imports Virtio
begin

text \<open>
  The block and console devices of \<open>src/pkg/vm/kvm/virtio_blk.go\<close> and \<open>virtio_console.go\<close> on top of the
  virtqueue of theory \<open>Virtio\<close>.

  A disk image is a byte list; \<open>os.File.ReadAt\<close> and \<open>WriteAt\<close> take a fault: \<open>None\<close> for success,
  \<open>Some k\<close> for an I/O error after \<open>k\<close> bytes. A request gets one fault per file operation it makes.
  Both devices interpret the locale \<open>virtio_handler\<close>, so the queue-service lemmas hold for them.
\<close>

section \<open>Files\<close>

definition file_ReadAt :: "bytes \<Rightarrow> nat option \<Rightarrow> nat \<Rightarrow> int \<Rightarrow> bytes \<times> bool" where
  "file_ReadAt content fault len off =
     (if off < 0 then ([], True)
      else if len = 0 then ([], False)
      else let avail = take len (drop (nat off) content);
               got = (case fault of None \<Rightarrow> avail | Some k \<Rightarrow> take k avail)
           in (got, fault \<noteq> None \<or> length got < len))"

definition write_at :: "bytes \<Rightarrow> nat \<Rightarrow> bytes \<Rightarrow> bytes" where
  "write_at content off bs =
     (if bs = [] then content
      else take off (content @ zeros (off - length content)) @ bs @ drop (off + length bs) content)"

definition file_WriteAt :: "bytes \<Rightarrow> nat option \<Rightarrow> bytes \<Rightarrow> int \<Rightarrow> bytes \<times> nat \<times> bool" where
  "file_WriteAt content fault bs off =
     (if off < 0 then (content, 0, True)
      else if bs = [] then (content, 0, False)
      else case fault of
          None \<Rightarrow> (write_at content (nat off) bs, length bs, False)
        | Some k \<Rightarrow> (write_at content (nat off) (take k bs), length (take k bs), True))"

section \<open>Block device\<close>

definition sectorSize :: u64 where "sectorSize = 512"
definition virtioBlkTIn :: u32 where "virtioBlkTIn = 0"
definition virtioBlkTOut :: u32 where "virtioBlkTOut = 1"
definition virtioBlkTFlush :: u32 where "virtioBlkTFlush = 4"
definition virtioBlkSOK :: u8 where "virtioBlkSOK = 0"
definition virtioBlkSIOErr :: u8 where "virtioBlkSIOErr = 1"
definition virtioBlkSUnsup :: u8 where "virtioBlkSUnsup = 2"

record VirtioBlkDevice =
  disk :: bytes
  readOnly :: bool
  bsize :: u64

definition NewVirtioBlkDevice :: "bytes \<Rightarrow> bool \<Rightarrow> VirtioBlkDevice" where
  "NewVirtioBlkDevice content ro = \<lparr>disk = content, readOnly = ro, bsize = of_nat (length content)\<rparr>"

definition blk_Features :: "VirtioBlkDevice \<Rightarrow> u64" where
  "blk_Features d =
     (let f = push_bit 9 1 OR push_bit 6 1 OR push_bit 2 1 OR push_bit 1 1
      in if readOnly d then f OR push_bit 5 1 else f)"

definition blk_config :: "VirtioBlkDevice \<Rightarrow> bytes" where
  "blk_config d =
     le64 (bsize d div sectorSize) @ le32 (push_bit 20 1) @ le32 128 @ zeros 4 @ le32 512 @ zeros 8"

text \<open>Reading a device's configuration bytes with an access of size 1, 2 or 4.\<close>

definition config_access :: "bytes \<Rightarrow> u32 \<Rightarrow> u32 \<Rightarrow> u32" where
  "config_access config off sz =
     (if of_nat (length config) < off + sz then 0
      else if sz = 1 then ucast (config ! unat off)
      else if sz = 2 then ucast (get_le16 (drop (unat off) config))
      else if sz = 4 then get_le32 (drop (unat off) config)
      else 0)"

definition blk_ConfigRead :: "VirtioBlkDevice \<Rightarrow> u32 \<Rightarrow> u32 \<Rightarrow> u32" where
  "blk_ConfigRead d off sz = config_access (blk_config d) off sz"

definition blk_ConfigWrite :: "VirtioBlkDevice \<Rightarrow> u32 \<Rightarrow> u32 \<Rightarrow> u32 \<Rightarrow> VirtioBlkDevice" where
  "blk_ConfigWrite d off sz val = d"

definition blk_ops :: "VirtioBlkDevice virtioDevice" where
  "blk_ops = \<lparr>DeviceID = 2, Features = blk_Features, ConfigRead = blk_ConfigRead,
     ConfigWrite = blk_ConfigWrite, setup_on_ok = False\<rparr>"

text \<open>The loops over the data buffers. \<open>io\<close> is the list of faults still to come.\<close>

definition next_fault :: "nat option list \<Rightarrow> nat option \<times> nat option list" where
  "next_fault io = (case io of [] \<Rightarrow> (None, []) | f # fs \<Rightarrow> (f, fs))"

fun blk_read_bufs ::
  "bytes \<Rightarrow> nat option list \<Rightarrow> u64 \<Rightarrow> bytes \<Rightarrow> gbuf list \<Rightarrow> u32 \<Rightarrow> bytes \<times> u32 \<times> u8" where
  "blk_read_bufs content io off m [] written = (m, written, virtioBlkSOK)"
| "blk_read_bufs content io off m (b # bs) written =
     (let (f, io') = next_fault io;
          (got, err) = file_ReadAt content f (snd b) (sint off);
          m' = buf_write m b got
      in if err \<and> got = [] then (m', written, virtioBlkSIOErr)
         else blk_read_bufs content io' (off + of_nat (length got)) m' bs (written + of_nat (length got)))"

fun blk_write_bufs ::
  "bytes \<Rightarrow> nat option list \<Rightarrow> u64 \<Rightarrow> bytes \<Rightarrow> gbuf list \<Rightarrow> bytes \<times> u8" where
  "blk_write_bufs content io off m [] = (content, virtioBlkSOK)"
| "blk_write_bufs content io off m (b # bs) =
     (let (f, io') = next_fault io;
          (content', n, err) = file_WriteAt content f (buf_bytes m b) (sint off)
      in if err then (content', virtioBlkSIOErr)
         else blk_write_bufs content' io' (off + of_nat n) m bs)"

definition blk_request ::
  "nat option list \<Rightarrow> VirtioBlkDevice \<Rightarrow> bytes \<Rightarrow> u32 \<Rightarrow> u64 \<Rightarrow> gbuf list \<Rightarrow> gbuf list
     \<Rightarrow> VirtioBlkDevice \<times> bytes \<times> u32 \<times> u8" where
  "blk_request io d m reqType offset readBufs writeBufs =
     (if reqType = virtioBlkTIn then
        (let (m', w, st) = blk_read_bufs (disk d) io offset m (butlast writeBufs) 0 in (d, m', w, st))
      else if reqType = virtioBlkTOut then
        (if readOnly d then (d, m, 0, virtioBlkSIOErr)
         else let (c, st) = blk_write_bufs (disk d) io offset m (tl readBufs)
              in (d\<lparr>disk := c\<rparr>, m, 0, st))
      else if reqType = virtioBlkTFlush then
        (d, m, 0, if fst (next_fault io) = None then virtioBlkSOK else virtioBlkSIOErr)
      else (d, m, 0, virtioBlkSUnsup))"

definition handleRequest :: "nat option list \<Rightarrow> VirtioBlkDevice handler" where
  "handleRequest io d m readBufs writeBufs =
     (if readBufs = [] \<or> writeBufs = [] then (d, m, 0)
      else let header = buf_bytes m (hd readBufs)
      in if length header < 16 then (d, m, 0)
      else let reqType = get_le32 header;
               sector = get_le64 (drop 8 header);
               statusBuf = last writeBufs;
               (d', m', written, st) = blk_request io d m reqType (sector * sectorSize) readBufs writeBufs
      in if 0 < snd statusBuf then (d', buf_write m' statusBuf [st], written + 1)
         else (d', m', written))"

definition blk_HandleQueue ::
  "nat \<Rightarrow> nat \<Rightarrow> u64 \<Rightarrow> nat option list \<Rightarrow> VirtioBlkDevice virtioMMIODev \<Rightarrow> nat
     \<Rightarrow> (go_panic + VirtioBlkDevice virtioMMIODev) option" where
  "blk_HandleQueue k fuel base io v qi =
     (if qi \<noteq> 0 then Some (Inr v) else ProcessAvailRing k fuel base (handleRequest io) v 0)"

section \<open>Console device\<close>

record VirtioConsoleDevice =
  txOut :: bytes

definition console_config :: bytes where
  "console_config = le16 80 @ le16 25 @ le32 1 @ le32 0"

definition console_Features :: "VirtioConsoleDevice \<Rightarrow> u64" where
  "console_Features d = push_bit 2 1"

definition console_ConfigRead :: "VirtioConsoleDevice \<Rightarrow> u32 \<Rightarrow> u32 \<Rightarrow> u32" where
  "console_ConfigRead d off sz = config_access console_config off sz"

definition console_ConfigWrite :: "VirtioConsoleDevice \<Rightarrow> u32 \<Rightarrow> u32 \<Rightarrow> u32 \<Rightarrow> VirtioConsoleDevice" where
  "console_ConfigWrite d off sz val =
     (if off = 8 \<and> sz = 4 then d\<lparr>txOut := txOut d @ [ucast val]\<rparr> else d)"

definition console_ops :: "VirtioConsoleDevice virtioDevice" where
  "console_ops = \<lparr>DeviceID = 3, Features = console_Features, ConfigRead = console_ConfigRead,
     ConfigWrite = console_ConfigWrite, setup_on_ok = False\<rparr>"

definition console_tx :: "VirtioConsoleDevice handler" where
  "console_tx d m readBufs writeBufs =
     (d\<lparr>txOut := txOut d @ concat (map (buf_bytes m) readBufs)\<rparr>, m, 0)"

text \<open>Queue 0 is driven by the receive loop.\<close>

definition console_HandleQueue ::
  "nat \<Rightarrow> nat \<Rightarrow> u64 \<Rightarrow> VirtioConsoleDevice virtioMMIODev \<Rightarrow> nat
     \<Rightarrow> (go_panic + VirtioConsoleDevice virtioMMIODev) option" where
  "console_HandleQueue k fuel base v qi =
     (if qi = 1 then ProcessAvailRing k fuel base console_tx v 1 else Some (Inr v))"

fun rx_copy :: "bytes \<Rightarrow> gbuf list \<Rightarrow> bytes \<Rightarrow> nat \<Rightarrow> bytes \<times> nat" where
  "rx_copy m [] remaining written = (m, written)"
| "rx_copy m (b # bs) remaining written =
     (let cn = min (snd b) (length remaining);
          m' = buf_write m b remaining
      in if drop cn remaining = [] then (m', written + cn)
         else rx_copy m' bs (drop cn remaining) (written + cn))"

definition console_rx :: "bytes \<Rightarrow> VirtioConsoleDevice handler" where
  "console_rx input d m readBufs writeBufs =
     (if writeBufs = [] then (d, m, 0)
      else let (m', n) = rx_copy m writeBufs input 0 in (d, m', of_nat n))"

text \<open>One round of the receive loop: \<open>input\<close> is what one \<open>Read\<close> returned.\<close>

definition rxLoop_round ::
  "nat \<Rightarrow> nat \<Rightarrow> u64 \<Rightarrow> VirtioConsoleDevice virtioMMIODev \<Rightarrow> bytes
     \<Rightarrow> (go_panic + VirtioConsoleDevice virtioMMIODev) option" where
  "rxLoop_round k fuel base v input =
     (if input = [] then Some (Inr v) else ProcessAvailRing k fuel base (console_rx input) v 0)"

section \<open>The devices keep the contract\<close>

lemma file_ReadAt_len: "file_ReadAt content f len off = (got, err) \<Longrightarrow> length got \<le> len"
  by (auto simp: file_ReadAt_def Let_def split: if_splits option.splits)

lemma unat_add_le: "unat (a + b) \<le> unat a + unat b" for a b :: "'a::len word"
  by (simp add: unat_word_ariths)

lemma unat_of_nat_le: "unat (of_nat n :: 'a::len word) \<le> n"
  by (simp add: unat_of_nat)

lemma blk_read_bufs_frame:
  assumes "\<forall>b \<in> set bs. fst b + snd b \<le> length m" "blk_read_bufs content io off m bs w = (m', w', st)"
  shows "same_outside (bufs_set bs) m m' \<and> unat w' \<le> unat w + sum_list (map snd bs)"
  using assms
proof (induction bs arbitrary: m io off w)
  case (Cons b bs)
  obtain f io' where f: "next_fault io = (f, io')" by (cases "next_fault io")
  obtain got err where g: "file_ReadAt content f (snd b) (sint off) = (got, err)"
    by (cases "file_ReadAt content f (snd b) (sint off)")
  let ?m = "buf_write m b got"
  have so: "same_outside (buf_set b) m ?m" using Cons.prems(1) by (simp add: buf_write_same_outside)
  show ?case
  proof (cases "err \<and> got = []")
    case True
    with Cons.prems(2) f g have "m' = ?m" "w' = w" by auto
    with so show ?thesis by (auto intro: same_outside_mono)
  next
    case False
    with Cons.prems f g have r: "blk_read_bufs content io' (off + of_nat (length got)) ?m bs
        (w + of_nat (length got)) = (m', w', st)" by auto
    have "\<forall>b \<in> set bs. fst b + snd b \<le> length ?m"
      using Cons.prems(1) so by (simp add: same_outside_length)
    from Cons.IH [OF this r] have ih: "same_outside (bufs_set bs) ?m m'"
      "unat w' \<le> unat (w + of_nat (length got)) + sum_list (map snd bs)" by auto
    have "unat (w + of_nat (length got)) \<le> unat w + snd b"
      using unat_add_le [of w "of_nat (length got)"] unat_of_nat_le [of "length got", where 'a = 32]
        file_ReadAt_len [OF g] by linarith
    with ih same_outside_trans [OF so ih(1)] show ?thesis by (auto simp: Un_commute)
  qed
qed simp

lemma sum_butlast_last:
  "xs \<noteq> [] \<Longrightarrow> sum_list (map f xs) = sum_list (map f (butlast xs)) + (f (last xs) :: nat)"
  by (induction xs rule: rev_induct) auto

lemma bufs_set_butlast_last:
  "xs \<noteq> [] \<Longrightarrow> bufs_set xs = bufs_set (butlast xs) \<union> buf_set (last xs)"
  by (induction xs rule: rev_induct) auto

lemma status_frame:
  assumes ws: "ws \<noteq> []" "\<forall>b \<in> set ws. fst b + snd b \<le> length m"
    and so: "same_outside (bufs_set (butlast ws)) m m1" "unat w \<le> sum_list (map snd (butlast ws))"
    and r: "(if 0 < snd (last ws) then (d1, buf_write m1 (last ws) [st], w + 1) else (d1, m1, w)) = (d', m', w')"
  shows "same_outside (bufs_set ws) m m' \<and> unat w' \<le> sum_list (map snd ws)"
proof (cases "0 < snd (last ws)")
  case True
  then have m': "m' = buf_write m1 (last ws) [st]" "w' = w + 1" using r by auto
  have "fst (last ws) + snd (last ws) \<le> length m1"
    using ws so(1) by (simp add: same_outside_length)
  then have "same_outside (buf_set (last ws)) m1 m'" unfolding m' by (rule buf_write_same_outside)
  from same_outside_trans [OF so(1) this] show ?thesis
    using unat_add_le [of w 1] so(2) True ws by (simp add: m' bufs_set_butlast_last sum_butlast_last)
next
  case False
  with r so ws show ?thesis
    by (auto simp: bufs_set_butlast_last sum_butlast_last intro: same_outside_mono)
qed

lemma blk_request_frame:
  assumes "ws \<noteq> []" "\<forall>b \<in> set ws. fst b + snd b \<le> length m"
    and "blk_request io d m t off rs ws = (d', m', w, st)"
  shows "same_outside (bufs_set (butlast ws)) m m' \<and> unat w \<le> sum_list (map snd (butlast ws))"
proof (cases "t = virtioBlkTIn")
  case True
  obtain m1 w1 st1 where b: "blk_read_bufs (disk d) io off m (butlast ws) 0 = (m1, w1, st1)"
    by (metis prod_cases3)
  have "\<forall>b \<in> set (butlast ws). fst b + snd b \<le> length m" using assms(2) by (auto dest: in_set_butlastD)
  from blk_read_bufs_frame [OF this b] True b assms(3) show ?thesis by (auto simp: blk_request_def)
next
  case False
  with assms(3) have "m' = m" "w = 0"
    by (auto simp: blk_request_def split: if_splits prod.splits)
  then show ?thesis by simp
qed

lemma handleRequest_short:
  "rs = [] \<or> ws = [] \<or> length (buf_bytes m (hd rs)) < 16 \<Longrightarrow> handleRequest io d m rs ws = (d, m, 0)"
  by (cases "rs = [] \<or> ws = []") (auto simp: handleRequest_def Let_def)

lemma handleRequest_full:
  assumes "rs \<noteq> []" "ws \<noteq> []" "16 \<le> length (buf_bytes m (hd rs))"
    "blk_request io d m (get_le32 (buf_bytes m (hd rs)))
       (get_le64 (drop 8 (buf_bytes m (hd rs))) * sectorSize) rs ws = (d1, m1, w1, st)"
  shows "handleRequest io d m rs ws =
    (if 0 < snd (last ws) then (d1, buf_write m1 (last ws) [st], w1 + 1) else (d1, m1, w1))"
  using assms by (simp add: handleRequest_def Let_def)

lemma handleRequest_frame:
  assumes ws: "\<forall>b \<in> set ws. fst b + snd b \<le> length m" and r: "handleRequest io d m rs ws = (d', m', w)"
  shows "same_outside (bufs_set ws) m m' \<and> unat w \<le> sum_list (map snd ws)"
proof (cases "rs = [] \<or> ws = [] \<or> length (buf_bytes m (hd rs)) < 16")
  case True
  with r handleRequest_short [OF this] show ?thesis by simp
next
  case False
  obtain d1 m1 w1 st where b: "blk_request io d m (get_le32 (buf_bytes m (hd rs)))
       (get_le64 (drop 8 (buf_bytes m (hd rs))) * sectorSize) rs ws = (d1, m1, w1, st)"
    by (metis prod_cases4)
  have "ws \<noteq> []" using False by simp
  with blk_request_frame [OF this ws b] handleRequest_full [OF _ _ _ b] False r show ?thesis
    using status_frame [OF _ ws, of m1 w1 d1 st d' m' w] by simp
qed

interpretation blk: virtio_handler "handleRequest io" for io
  by unfold_locales (use handleRequest_frame in blast)+

lemma rx_copy_frame:
  assumes "\<forall>b \<in> set bs. fst b + snd b \<le> length m" "rx_copy m bs rest n = (m', n')"
  shows "same_outside (bufs_set bs) m m' \<and> n' \<le> n + sum_list (map snd bs)"
  using assms
proof (induction bs arbitrary: m rest n)
  case (Cons b bs)
  let ?m = "buf_write m b rest"
  have so: "same_outside (buf_set b) m ?m" using Cons.prems(1) by (simp add: buf_write_same_outside)
  show ?case
  proof (cases "drop (min (snd b) (length rest)) rest = []")
    case True
    with Cons.prems(2) have "m' = ?m" "n' = n + min (snd b) (length rest)" by (auto simp: Let_def)
    with so show ?thesis by (auto intro: same_outside_mono)
  next
    case False
    with Cons.prems(2) have r: "rx_copy ?m bs (drop (min (snd b) (length rest)) rest)
        (n + min (snd b) (length rest)) = (m', n')" by (simp add: Let_def)
    have "\<forall>b \<in> set bs. fst b + snd b \<le> length ?m"
      using Cons.prems(1) so by (simp add: same_outside_length)
    from Cons.IH [OF this r] same_outside_trans [OF so, of "bufs_set bs" m'] show ?thesis by auto
  qed
qed simp

interpretation ctx: virtio_handler console_tx
  by unfold_locales (auto simp: console_tx_def)

interpretation crx: virtio_handler "console_rx input" for input
proof unfold_locales
  fix ws m d rs d' m' w
  assume ws: "\<forall>b \<in> set ws. fst b + snd b \<le> length m" and r: "console_rx input d m rs ws = (d', m', w)"
  obtain m1 n where c: "rx_copy m ws input 0 = (m1, n)" by (cases "rx_copy m ws input 0")
  note f = rx_copy_frame [OF ws c]
  have "ws = [] \<and> m' = m \<and> w = 0 \<or> m' = m1 \<and> w = of_nat n"
    using r c by (auto simp: console_rx_def split: if_splits)
  then show "same_outside (bufs_set ws) m m'" "unat w \<le> sum_list (map snd ws)"
    using f unat_of_nat_le [of n, where 'a = 32] by (auto intro: order.trans)
qed

section \<open>What the block device transfers\<close>

fun disjoint_bufs :: "gbuf list \<Rightarrow> bool" where
  "disjoint_bufs [] = True"
| "disjoint_bufs (b # bs) = (buf_set b \<inter> bufs_set bs = {} \<and> disjoint_bufs bs)"

lemma sint_of_nat: "o' < 2 ^ 63 \<Longrightarrow> sint (of_nat o' :: u64) = int o'"
  by (simp add: signed_of_nat signed_take_bit_int_eq_self)

lemma buf_write_read:
  "fst b + snd b \<le> length m \<Longrightarrow> length bs = snd b \<Longrightarrow> buf_bytes (buf_write m b bs) b = bs"
  using slice_copy_into [of "fst b" bs m] by (simp add: buf_bytes_def buf_write_def)

lemma buf_bytes_same: "same_outside R m m' \<Longrightarrow> buf_set b \<inter> R = {} \<Longrightarrow> buf_bytes m' b = buf_bytes m b"
  unfolding buf_bytes_def by (rule slice_same) (auto simp: buf_set_def)

lemma length_buf_bytes: "fst b + snd b \<le> length m \<Longrightarrow> length (buf_bytes m b) = snd b"
  by (simp add: buf_bytes_def length_slice)

lemma blk_read_bufs_ok:
  assumes "\<forall>b \<in> set bs. fst b + snd b \<le> length m" "disjoint_bufs bs" "\<forall>f \<in> set io. f = None"
    and "off + sum_list (map snd bs) \<le> length content" "off + sum_list (map snd bs) < 2 ^ 63"
  shows "\<exists>m'. blk_read_bufs content io (of_nat off) m bs w = (m', w + of_nat (sum_list (map snd bs)), virtioBlkSOK)
     \<and> concat (map (buf_bytes m') bs) = slice content off (off + sum_list (map snd bs))"
  using assms
proof (induction bs arbitrary: m io off w)
  case Nil
  then show ?case by (simp add: slice_def)
next
  case (Cons b bs)
  obtain f io' where f: "next_fault io = (f, io')" by (cases "next_fault io")
  with Cons.prems(3) have fn: "f = None" "\<forall>f \<in> set io'. f = None"
    by (auto simp: next_fault_def split: list.splits)
  let ?got = "take (snd b) (drop off content)"
  let ?m = "buf_write m b ?got"
  have len: "length ?got = snd b" using Cons.prems(4) by simp
  have g: "file_ReadAt content f (snd b) (sint (of_nat off :: u64)) = (?got, False)"
    using Cons.prems(4,5) len fn by (auto simp: file_ReadAt_def sint_of_nat Let_def)
  have so: "same_outside (buf_set b) m ?m" using Cons.prems(1) by (simp add: buf_write_same_outside)
  have pre: "\<forall>b \<in> set bs. fst b + snd b \<le> length ?m"
    using Cons.prems(1) so by (simp add: same_outside_length)
  obtain m' where r: "blk_read_bufs content io' (of_nat (off + snd b)) ?m bs (w + of_nat (snd b))
      = (m', w + of_nat (snd b) + of_nat (sum_list (map snd bs)), virtioBlkSOK)"
    and c: "concat (map (buf_bytes m') bs) = slice content (off + snd b) (off + snd b + sum_list (map snd bs))"
    using Cons.IH [OF pre _ fn(2), of "off + snd b" "w + of_nat (snd b)"] Cons.prems by (auto simp: add.assoc)
  have "buf_bytes m' b = buf_bytes ?m b"
    by (rule buf_bytes_same [OF blk_read_bufs_frame [OF pre r, THEN conjunct1]]) (use Cons.prems(2) in simp)
  also have "\<dots> = ?got" by (rule buf_write_read) (use Cons.prems(1) len in simp_all)
  finally have "concat (map (buf_bytes m') (b # bs)) = slice content off (off + sum_list (map snd (b # bs)))"
    using slice_split [of off "off + snd b" "off + snd b + sum_list (map snd bs)" content]
    by (simp add: c slice_def add.assoc)
  with r f g len show ?case by (auto simp: add.assoc)
qed

lemma write_at_Nil [simp]: "write_at c off [] = c"
  by (simp add: write_at_def)

lemma min_fill [simp]: "min a b + (b - a) = (b :: nat)"
  by simp

lemma write_at_append: "write_at (write_at c off a) (off + length a) b = write_at c off (a @ b)"
  apply (cases "a = []"; cases "b = []")
     apply (simp_all add: write_at_def add.assoc)
  apply (simp add: add.commute add.left_commute)
  done

lemma write_at_slice:
  "slice (write_at c off bs) off (off + length bs) = bs"
  "j \<le> off \<Longrightarrow> j \<le> length c \<Longrightarrow> slice (write_at c off bs) i j = slice c i j"
  "off + length bs \<le> i \<Longrightarrow> slice (write_at c off bs) i j = slice c i j"
  subgoal by (simp add: write_at_def slice_def)
  subgoal by (simp add: write_at_def slice_def drop_take min_absorb2)
  subgoal by (simp add: write_at_def slice_def)
  done

lemma blk_write_bufs_ok:
  assumes "\<forall>b \<in> set bs. fst b + snd b \<le> length m" "\<forall>f \<in> set io. f = None" "off + sum_list (map snd bs) < 2 ^ 63"
  shows "blk_write_bufs content io (of_nat off) m bs = (write_at content off (concat (map (buf_bytes m) bs)), virtioBlkSOK)"
  using assms
proof (induction bs arbitrary: content io off)
  case (Cons b bs)
  obtain f io' where f: "next_fault io = (f, io')" by (cases "next_fault io")
  with Cons.prems(2) have fn: "f = None" "\<forall>f \<in> set io'. f = None"
    by (auto simp: next_fault_def split: list.splits)
  let ?p = "buf_bytes m b"
  have len: "length ?p = snd b" using Cons.prems(1) by (simp add: length_buf_bytes)
  have w: "file_WriteAt content f ?p (sint (of_nat off :: u64)) = (write_at content off ?p, snd b, False)"
    using Cons.prems(3) len fn by (auto simp: file_WriteAt_def sint_of_nat)
  have "blk_write_bufs (write_at content off ?p) io' (of_nat (off + snd b)) m bs
      = (write_at (write_at content off ?p) (off + snd b) (concat (map (buf_bytes m) bs)), virtioBlkSOK)"
    by (rule Cons.IH) (use Cons.prems fn in simp_all)
  with f w show ?case
    using write_at_append [of content off ?p "concat (map (buf_bytes m) bs)"] by (simp add: len)
qed simp

section \<open>Properties\<close>

lemma blk_io_correct_laws:
  assumes hd: "16 \<le> snd h" "\<forall>b \<in> insert h (set rs \<union> set ws \<union> {st}). fst b + snd b \<le> length m" "0 < snd st"
    and nf: "\<forall>f \<in> set io. f = None"
    and sec: "unat (get_le64 (drop 8 (buf_bytes m h))) = sector"
  shows "get_le32 (buf_bytes m h) = virtioBlkTIn \<Longrightarrow> disjoint_bufs (ws @ [st]) \<Longrightarrow>
      sector * 512 + sum_list (map snd ws) \<le> length (disk d) \<Longrightarrow> sector * 512 + sum_list (map snd ws) < 2 ^ 63 \<Longrightarrow>
      \<exists>m'. handleRequest io d m (h # rs) (ws @ [st]) = (d, m', of_nat (sum_list (map snd ws)) + 1)
        \<and> concat (map (buf_bytes m') ws) = slice (disk d) (sector * 512) (sector * 512 + sum_list (map snd ws))
        \<and> m' ! fst st = virtioBlkSOK"
    and "get_le32 (buf_bytes m h) = virtioBlkTOut \<Longrightarrow> \<not> readOnly d \<Longrightarrow>
      sector * 512 + sum_list (map snd rs) < 2 ^ 63 \<Longrightarrow>
      \<exists>d' m'. handleRequest io d m (h # rs) (ws @ [st]) = (d', m', 1)
        \<and> d' = d\<lparr>disk := write_at (disk d) (sector * 512) (concat (map (buf_bytes m) rs))\<rparr>
        \<and> slice (disk d') (sector * 512) (sector * 512 + sum_list (map snd rs)) = concat (map (buf_bytes m) rs)
        \<and> m' ! fst st = virtioBlkSOK"
proof -
  have lenh: "16 \<le> length (buf_bytes m h)" using hd by (simp add: length_buf_bytes)
  have off: "get_le64 (drop 8 (buf_bytes m h)) * sectorSize = of_nat (sector * 512)"
    by (simp add: sectorSize_def flip: sec)
  have stb: "buf_write m' st [x] ! fst st = x" if "length m' = length m" for m' x
    using hd that by (simp add: buf_write_def copy_into_nth)
  {
    assume rd: "get_le32 (buf_bytes m h) = virtioBlkTIn" and dj: "disjoint_bufs (ws @ [st])"
      and b: "sector * 512 + sum_list (map snd ws) \<le> length (disk d)" "sector * 512 + sum_list (map snd ws) < 2 ^ 63"
    have dj': "disjoint_bufs ws" "bufs_set ws \<inter> buf_set st = {}"
      using dj by (induction ws) auto
    obtain m1 where r: "blk_read_bufs (disk d) io (of_nat (sector * 512)) m ws 0 = (m1, of_nat (sum_list (map snd ws)), virtioBlkSOK)"
      and c: "concat (map (buf_bytes m1) ws) = slice (disk d) (sector * 512) (sector * 512 + sum_list (map snd ws))"
      using blk_read_bufs_ok [of ws m io "sector * 512" "disk d" 0] dj'(1) b nf hd(2) by auto
    have wsm: "\<forall>b \<in> set ws. fst b + snd b \<le> length m" using hd(2) by simp
    have l1: "length m1 = length m"
      by (rule same_outside_length [OF blk_read_bufs_frame [OF wsm r, THEN conjunct1]])
    let ?m = "buf_write m1 st [virtioBlkSOK]"
    have "same_outside (buf_set st) m1 ?m" by (rule buf_write_same_outside) (use hd(2) l1 in simp)
    then have "buf_bytes ?m b = buf_bytes m1 b" if "b \<in> set ws" for b
      by (rule buf_bytes_same) (use dj'(2) that in auto)
    then have "concat (map (buf_bytes ?m) ws) = concat (map (buf_bytes m1) ws)"
      by (metis (mono_tags, lifting) map_eq_conv)
    moreover have "handleRequest io d m (h # rs) (ws @ [st]) = (d, ?m, of_nat (sum_list (map snd ws)) + 1)"
      using handleRequest_full [of "h # rs" "ws @ [st]" m io d d m1 "of_nat (sum_list (map snd ws))" virtioBlkSOK]
        lenh rd r hd(3) by (simp add: off blk_request_def)
    ultimately show "\<exists>m'. handleRequest io d m (h # rs) (ws @ [st]) = (d, m', of_nat (sum_list (map snd ws)) + 1)
        \<and> concat (map (buf_bytes m') ws) = slice (disk d) (sector * 512) (sector * 512 + sum_list (map snd ws))
        \<and> m' ! fst st = virtioBlkSOK"
      using c stb [OF l1] by auto
  next
    assume wr: "get_le32 (buf_bytes m h) = virtioBlkTOut" and ro: "\<not> readOnly d"
      and b: "sector * 512 + sum_list (map snd rs) < 2 ^ 63"
    let ?p = "concat (map (buf_bytes m) rs)"
    have "length ?p = sum_list (map snd rs)"
      using hd(2) by (induction rs) (simp_all add: length_buf_bytes)
    then have sl: "slice (write_at (disk d) (sector * 512) ?p) (sector * 512) (sector * 512 + sum_list (map snd rs)) = ?p"
      using write_at_slice(1) [of "disk d" "sector * 512" ?p] by simp
    have r: "blk_write_bufs (disk d) io (of_nat (sector * 512)) m rs = (write_at (disk d) (sector * 512) ?p, virtioBlkSOK)"
      by (rule blk_write_bufs_ok) (use b nf hd(2) in simp_all)
    have "virtioBlkTOut \<noteq> virtioBlkTIn" by (simp add: virtioBlkTOut_def virtioBlkTIn_def)
    then have "handleRequest io d m (h # rs) (ws @ [st])
        = (d\<lparr>disk := write_at (disk d) (sector * 512) ?p\<rparr>, buf_write m st [virtioBlkSOK], 1)"
      using handleRequest_full [of "h # rs" "ws @ [st]" m io d "d\<lparr>disk := write_at (disk d) (sector * 512) ?p\<rparr>" m 0 virtioBlkSOK]
        lenh wr r ro hd(3) by (simp add: off blk_request_def)
    then show "\<exists>d' m'. handleRequest io d m (h # rs) (ws @ [st]) = (d', m', 1)
        \<and> d' = d\<lparr>disk := write_at (disk d) (sector * 512) ?p\<rparr>
        \<and> slice (disk d') (sector * 512) (sector * 512 + sum_list (map snd rs)) = ?p
        \<and> m' ! fst st = virtioBlkSOK"
      using sl stb [of m] by simp
  }
qed

text \<open>
  What a request has to do, in terms of the disk and of guest memory, when the file operations succeed: a read inside the
  disk fills the data buffers with the sectors, a write puts the data buffers there (or is refused), a flush changes
  nothing; the status byte and the byte count tell so.
\<close>

definition blk_effect :: "VirtioBlkDevice \<Rightarrow> bytes \<Rightarrow> gbuf list \<Rightarrow> gbuf list \<Rightarrow> VirtioBlkDevice \<Rightarrow> bytes \<Rightarrow> u32 \<Rightarrow> bool" where
  "blk_effect d m rs ws d' m' w \<longleftrightarrow>
     (\<forall>h data bufs st off. rs = h # data \<and> ws = bufs @ [st] \<and> 16 \<le> snd h \<and> 0 < snd st \<and>
        off = unat (get_le64 (drop 8 (buf_bytes m h))) * 512 \<longrightarrow>
        (get_le32 (buf_bytes m h) = virtioBlkTIn \<and> disjoint_bufs ws \<and> off + sum_list (map snd bufs) \<le> length (disk d) \<and>
           off + sum_list (map snd bufs) < 2 ^ 63 \<longrightarrow>
           d' = d \<and> concat (map (buf_bytes m') bufs) = slice (disk d) off (off + sum_list (map snd bufs)) \<and>
           m' ! fst st = virtioBlkSOK \<and> w = of_nat (sum_list (map snd bufs)) + 1) \<and>
        (get_le32 (buf_bytes m h) = virtioBlkTOut \<and> \<not> readOnly d \<and> off + sum_list (map snd data) < 2 ^ 63 \<longrightarrow>
           d' = d\<lparr>disk := write_at (disk d) off (concat (map (buf_bytes m) data))\<rparr> \<and> m' ! fst st = virtioBlkSOK \<and> w = 1) \<and>
        (get_le32 (buf_bytes m h) = virtioBlkTOut \<and> readOnly d \<longrightarrow> d' = d \<and> m' ! fst st = virtioBlkSIOErr \<and> w = 1) \<and>
        (get_le32 (buf_bytes m h) = virtioBlkTFlush \<longrightarrow> d' = d \<and> m' ! fst st = virtioBlkSOK \<and> w = 1))"

lemma handleRequest_effect:
  assumes "handleRequest io d m rs ws = (d', m', w)" "\<forall>b \<in> set rs \<union> set ws. fst b + snd b \<le> length m" "\<forall>f \<in> set io. f = None"
  shows "blk_effect d m rs ws d' m' w"
  unfolding blk_effect_def
proof (intro allI impI, elim conjE)
  fix h data bufs st off
  assume e: "rs = h # data" "ws = bufs @ [st]" "16 \<le> snd h" "0 < snd st" "off = unat (get_le64 (drop 8 (buf_bytes m h))) * 512"
  have mem: "\<forall>b \<in> insert h (set data \<union> set bufs \<union> {st}). fst b + snd b \<le> length m" using assms(2) e by auto
  note laws = blk_io_correct_laws [OF e(3) mem e(4) assms(3) refl, folded e(1,2,5), of d, unfolded assms(1)]
  have nf: "fst (next_fault io) = None" using assms(3) by (cases io) (auto simp: next_fault_def)
  have stb: "buf_write m st [x] ! fst st = x" for x using mem e(4) by (simp add: buf_write_def copy_into_nth)
  have full: "handleRequest io d m rs ws = (d, buf_write m st [x], 1)"
    if "blk_request io d m (get_le32 (buf_bytes m h)) (get_le64 (drop 8 (buf_bytes m h)) * sectorSize) rs ws = (d, m, 0, x)" for x
    using handleRequest_full [of rs ws m io d d m 0 x] that mem e by (simp add: length_buf_bytes)
  have ro: "d' = d \<and> m' ! fst st = virtioBlkSIOErr \<and> w = 1"
    if "get_le32 (buf_bytes m h) = virtioBlkTOut" "readOnly d"
    using full [of virtioBlkSIOErr] that assms(1) stb by (simp add: blk_request_def virtioBlkTOut_def virtioBlkTIn_def)
  have fl: "d' = d \<and> m' ! fst st = virtioBlkSOK \<and> w = 1" if "get_le32 (buf_bytes m h) = virtioBlkTFlush"
    using full [of virtioBlkSOK] that assms(1) stb nf by (simp add: blk_request_def virtioBlkTFlush_def virtioBlkTOut_def virtioBlkTIn_def)
  show "(get_le32 (buf_bytes m h) = virtioBlkTIn \<and> disjoint_bufs ws \<and> off + sum_list (map snd bufs) \<le> length (disk d) \<and>
           off + sum_list (map snd bufs) < 2 ^ 63 \<longrightarrow>
           d' = d \<and> concat (map (buf_bytes m') bufs) = slice (disk d) off (off + sum_list (map snd bufs)) \<and>
           m' ! fst st = virtioBlkSOK \<and> w = of_nat (sum_list (map snd bufs)) + 1) \<and>
        (get_le32 (buf_bytes m h) = virtioBlkTOut \<and> \<not> readOnly d \<and> off + sum_list (map snd data) < 2 ^ 63 \<longrightarrow>
           d' = d\<lparr>disk := write_at (disk d) off (concat (map (buf_bytes m) data))\<rparr> \<and> m' ! fst st = virtioBlkSOK \<and> w = 1) \<and>
        (get_le32 (buf_bytes m h) = virtioBlkTOut \<and> readOnly d \<longrightarrow> d' = d \<and> m' ! fst st = virtioBlkSIOErr \<and> w = 1) \<and>
        (get_le32 (buf_bytes m h) = virtioBlkTFlush \<longrightarrow> d' = d \<and> m' ! fst st = virtioBlkSOK \<and> w = 1)"
    using laws ro fl by blast
qed

text \<open>C6: the block device serves its queue. On a queue whose rings lie in guest memory apart from each other, with pending
  chains that end and whose buffers lie outside the rings, one call of
  \<open>HandleQueue\<close> ends, takes every pending chain exactly once and in order, returns each of them in the
  used ring, advances both indices by their number, raises the interrupt if there was any, and changes
  guest memory only in the used ring and in the device-writable buffers of those chains. The disk and the memory it leaves
  are those after executing the requests one after the other: each chain, with its descriptors as published, is handled in the state and
  memory that the previous one left, and when the file operations succeed each well-formed read, write or flush has its
  effect on the disk, on the buffers and on the status byte.\<close>

theorem blk_queue_service:
  assumes "0 < length (queues v)" "q = queues v ! 0" "ready q" "queue_ok base (mem v) q"
    and "k = unat (availIdx base (mem v) q - lastAvail q)"
    and "\<forall>i < k. chain_ok fuel base (mem v) q (availHead base (mem v) q i)"
  shows "\<exists>v' st. blk_HandleQueue (Suc k) fuel base io v 0 = Some (Inr v')
      \<and> queues v' = (queues v)[0 := q\<lparr>lastAvail := availIdx base (mem v) q\<rparr>]
      \<and> interruptStat v' = (if 0 < k then interruptStat v OR 1 else interruptStat v)
      \<and> same_outside (used_reg base q \<union> (\<Union>i < k. bufs_set (writable fuel base (mem v) q (availHead base (mem v) q i))))
            (mem v) (mem v')
      \<and> usedIdx base (mem v') q = usedIdx base (mem v) q + of_nat k
      \<and> (k \<le> qlen q \<longrightarrow> (\<forall>i < k. usedId base (mem v') q (unat (usedIdx base (mem v) q + of_nat i) mod qlen q)
            = ucast (availHead base (mem v) q i)))
      \<and> st 0 = (device v, mem v) \<and> st k = (device v', mem v')
      \<and> (\<forall>i < k. \<exists>rs ws m1 w. walkChain fuel base (mem v) q (availHead base (mem v) q i) = Some (Inr (rs, ws))
            \<and> handleRequest io (fst (st i)) (snd (st i)) rs ws = (fst (st (Suc i)), m1, w)
            \<and> pushUsed base m1 q (availHead base (mem v) q i) w = Inr (snd (st (Suc i)))
            \<and> ((\<forall>f \<in> set io. f = None) \<longrightarrow> blk_effect (fst (st i)) (snd (st i)) rs ws (fst (st (Suc i))) m1 w))"
proof -
  from blk.ProcessAvailRing_complete [OF assms, of io] obtain v' st where v':
    "ProcessAvailRing (Suc k) fuel base (handleRequest io) v 0 = Some (Inr v')"
    "queues v' = (queues v)[0 := q\<lparr>lastAvail := availIdx base (mem v) q\<rparr>]"
    "interruptStat v' = (if 0 < k then interruptStat v OR 1 else interruptStat v)"
    "same_outside (used_reg base q \<union> (\<Union>i < k. bufs_set (writable fuel base (mem v) q (availHead base (mem v) q i)))) (mem v) (mem v')"
    "usedIdx base (mem v') q = usedIdx base (mem v) q + of_nat k"
    "k \<le> qlen q \<longrightarrow> (\<forall>i < k. usedId base (mem v') q (unat (usedIdx base (mem v) q + of_nat i) mod qlen q)
            = ucast (availHead base (mem v) q i))"
    "st 0 = (device v, mem v)" "st k = (device v', mem v')"
    "\<forall>i < k. served (handleRequest io) fuel base (mem v) q (availHead base (mem v) q i) (st i) (st (Suc i))"
    "\<forall>i \<le> k. length (snd (st i)) = length (mem v)" by blast
  have "\<exists>rs ws m1 w. walkChain fuel base (mem v) q (availHead base (mem v) q i) = Some (Inr (rs, ws))
            \<and> handleRequest io (fst (st i)) (snd (st i)) rs ws = (fst (st (Suc i)), m1, w)
            \<and> pushUsed base m1 q (availHead base (mem v) q i) w = Inr (snd (st (Suc i)))
            \<and> ((\<forall>f \<in> set io. f = None) \<longrightarrow> blk_effect (fst (st i)) (snd (st i)) rs ws (fst (st (Suc i))) m1 w)" if i: "i < k" for i
  proof -
    obtain rs ws m1 w where s: "walkChain fuel base (mem v) q (availHead base (mem v) q i) = Some (Inr (rs, ws))"
      "handleRequest io (fst (st i)) (snd (st i)) rs ws = (fst (st (Suc i)), m1, w)"
      "pushUsed base m1 q (availHead base (mem v) q i) w = Inr (snd (st (Suc i)))"
      using v'(9) i by (auto simp: served_def)
    have "\<forall>b \<in> set rs \<union> set ws. fst b + snd b \<le> length (snd (st i))"
      using walkChain_bufs [OF s(1)] v'(10) i by auto
    from handleRequest_effect [OF s(2) this] s show ?thesis by blast
  qed
  then show ?thesis using v'(1-8) unfolding blk_HandleQueue_def by (intro exI [of _ v'] exI [of _ st]) simp
qed

text \<open>A memory of 96 bytes: two descriptors at 0 (a flush header of 16 bytes at 64, a status byte with other contents at 80),
  the available ring at 32, the used ring at 40; one chain is pending.\<close>

definition blk_mem0 :: bytes where
  "blk_mem0 = le64 64 @ le32 16 @ le16 1 @ le16 1 @ le64 80 @ le32 1 @ le16 2 @ le16 0
     @ [0, 0, 1, 0, 0, 0, 0, 0] @ zeros 24 @ [4, 0, 0, 0] @ zeros 12 @ [255] @ zeros 15"

definition blk_queue0 :: virtqueue where
  "blk_queue0 = virtqueue0\<lparr>num := 2, ready := True, drvAddr := 32, devAddr := 40\<rparr>"

definition blk_dev0 :: "VirtioBlkDevice virtioMMIODev" where
  "blk_dev0 = (newVirtioMMIODev 0 blk_mem0 (NewVirtioBlkDevice (zeros 4) True))\<lparr>queues := [blk_queue0, virtqueue0, virtqueue0]\<rparr>"

lemma blk_mem0_facts:
  "availIdx 0 blk_mem0 blk_queue0 = 1" "availHead 0 blk_mem0 blk_queue0 0 = 0" "usedIdx 0 blk_mem0 blk_queue0 = 0"
  "length blk_mem0 = 96" "walkChain 4 0 blk_mem0 blk_queue0 0 = Some (Inr ([(64, 16)], [(80, 1)]))"
  "chainIdxs 4 0 blk_mem0 blk_queue0 0 = [0, 1]"
  by code_simp+

lemma blk_queue0_facts:
  "lastAvail blk_queue0 = 0" "num blk_queue0 = 2" "ready blk_queue0"
  "availOff 0 blk_queue0 = 32" "usedOff 0 blk_queue0 = 40" "descOff 0 blk_queue0 = 0"
  by code_simp+

lemma blk_queue0_ok: "queue_ok 0 blk_mem0 blk_queue0"
  by (simp add: queue_ok_def blk_mem0_facts blk_queue0_facts avail_reg_def used_reg_def desc_reg_def)

lemma blk_chain0_ok: "chain_ok 4 0 blk_mem0 blk_queue0 0"
  by (auto simp: chain_ok_def writable_def blk_mem0_facts(5,6) blk_queue0_facts avail_reg_def used_reg_def
      desc_reg_def buf_set_def simp del: walkChain.simps chainIdxs.simps)

theorem blk_queue_service_witness:
  "\<exists>v' m1. blk_HandleQueue 2 4 0 [] blk_dev0 0 = Some (Inr v') \<and> interruptStat v' = 1 \<and> usedIdx 0 (mem v') blk_queue0 = 1
     \<and> blk_mem0 ! 80 = 255 \<and> m1 ! 80 = 0 \<and> pushUsed 0 m1 blk_queue0 0 1 = Inr (mem v')"
proof -
  have f: "length (queues blk_dev0) = 3" "queues blk_dev0 ! 0 = blk_queue0" "mem blk_dev0 = blk_mem0" "interruptStat blk_dev0 = 0"
    by (simp_all add: blk_dev0_def newVirtioMMIODev_def)
  have k: "unat (availIdx 0 (mem blk_dev0) blk_queue0 - lastAvail blk_queue0) = 1"
    by (simp add: f blk_mem0_facts(1) blk_queue0_facts)
  have t: "get_le32 (buf_bytes blk_mem0 (64, 16)) = virtioBlkTFlush" "blk_mem0 ! 80 = 255" by code_simp+
  have "0 < length (queues blk_dev0)" "blk_queue0 = queues blk_dev0 ! 0" "queue_ok 0 (mem blk_dev0) blk_queue0"
    "\<forall>i < 1. chain_ok 4 0 (mem blk_dev0) blk_queue0 (availHead 0 (mem blk_dev0) blk_queue0 i)"
    by (simp_all add: f blk_queue0_ok blk_mem0_facts blk_chain0_ok)
  from blk_queue_service [OF this(1,2) blk_queue0_facts(3) this(3) k [symmetric] this(4), of "[]"] show ?thesis
  proof (elim exE conjE, goal_cases)
    case (1 v' st)
    have v': "blk_HandleQueue 2 4 0 [] blk_dev0 0 = Some (Inr v')" "interruptStat v' = 1" "usedIdx 0 (mem v') blk_queue0 = 1"
      using 1(1,3,5) by (simp_all add: f blk_mem0_facts numeral_2_eq_2)
    have "\<exists>m1 w. pushUsed 0 m1 blk_queue0 0 w = Inr (mem v') \<and> blk_effect (device blk_dev0) blk_mem0 [(64, 16)] [(80, 1)] (device v') m1 w"
      using 1(7-9) by (auto simp: f blk_mem0_facts(2,5) simp del: walkChain.simps)
    then obtain m1 w where m1: "pushUsed 0 m1 blk_queue0 0 w = Inr (mem v')"
      "blk_effect (device blk_dev0) blk_mem0 [(64, 16)] [(80, 1)] (device v') m1 w" by auto
    then have "m1 ! 80 = 0" "w = 1" using t(1) by (auto simp: blk_effect_def virtioBlkSOK_def)
    with m1(1) v'(1-3) t(2) show ?thesis by auto
qed
qed

text \<open>C7: the block device moves the right bytes. Without I/O faults and inside the image, a read request
  fills the data buffers with the bytes of the disk from that sector on, reports success and counts them;
  a write request to a writable disk puts the concatenated buffers there and changes nothing else of the
  disk, so a later read of that range returns them.\<close>

theorem blk_io_correct:
  assumes hd: "16 \<le> snd h" "\<forall>b \<in> insert h (set rs \<union> set ws \<union> {st}). fst b + snd b \<le> length m" "0 < snd st"
    and nf: "\<forall>f \<in> set io. f = None"
    and sec: "unat (get_le64 (drop 8 (buf_bytes m h))) = sector"
  shows "(get_le32 (buf_bytes m h) = virtioBlkTIn \<longrightarrow> disjoint_bufs (ws @ [st]) \<longrightarrow>
      sector * 512 + sum_list (map snd ws) \<le> length (disk d) \<longrightarrow> sector * 512 + sum_list (map snd ws) < 2 ^ 63 \<longrightarrow>
      (\<exists>m'. handleRequest io d m (h # rs) (ws @ [st]) = (d, m', of_nat (sum_list (map snd ws)) + 1)
        \<and> concat (map (buf_bytes m') ws) = slice (disk d) (sector * 512) (sector * 512 + sum_list (map snd ws))
        \<and> m' ! fst st = virtioBlkSOK))
   \<and> (get_le32 (buf_bytes m h) = virtioBlkTOut \<longrightarrow> \<not> readOnly d \<longrightarrow>
      sector * 512 + sum_list (map snd rs) < 2 ^ 63 \<longrightarrow>
      (\<exists>d' m'. handleRequest io d m (h # rs) (ws @ [st]) = (d', m', 1)
        \<and> d' = d\<lparr>disk := write_at (disk d) (sector * 512) (concat (map (buf_bytes m) rs))\<rparr>
        \<and> slice (disk d') (sector * 512) (sector * 512 + sum_list (map snd rs)) = concat (map (buf_bytes m) rs)
        \<and> m' ! fst st = virtioBlkSOK))"
  using assms by - (rule blk_io_correct_laws | assumption | rule conjI | rule impI)+

theorem blk_io_correct_witness:
  "\<exists>m'. handleRequest [] (NewVirtioBlkDevice [7, 8, 9] False) (zeros 20) [(0, 16)] [(16, 2), (18, 1)]
        = (NewVirtioBlkDevice [7, 8, 9] False, m', of_nat 2 + 1) \<and> buf_bytes m' (16, 2) = [7, 8]"
proof -
  have h: "buf_bytes (zeros 20) (0, 16) = zeros 16" by code_simp
  have z: "get_le64 (zeros 8) = 0" "get_le32 (zeros 16) = 0" by code_simp+
  show ?thesis
    using blk_io_correct [of "(0, 16)" "[]" "[(16, 2)]" "(18, 1)" "zeros 20" "[]" 0 "NewVirtioBlkDevice [7, 8, 9] False", THEN conjunct1]
    by (auto simp: h z virtioBlkTIn_def NewVirtioBlkDevice_def buf_set_def)
qed

text \<open>C8: a read-only disk never changes: whatever the guest sends, and whatever the file operations do,
  a request leaves the image of a device opened read-only as it was, and a write is answered with an I/O
  error.\<close>

theorem blk_readonly:
  assumes "readOnly d" "handleRequest io d m rs ws = (d', m', w)"
  shows "disk d' = disk d \<and> readOnly d'
    \<and> (ws \<noteq> [] \<and> rs \<noteq> [] \<and> 16 \<le> length (buf_bytes m (hd rs)) \<and> 0 < snd (last ws) \<and> fst (last ws) < length m
        \<and> fst (last ws) + snd (last ws) \<le> length m
        \<and> get_le32 (buf_bytes m (hd rs)) = virtioBlkTOut \<longrightarrow> m' ! fst (last ws) = virtioBlkSIOErr)"
proof (cases "rs = [] \<or> ws = [] \<or> length (buf_bytes m (hd rs)) < 16")
  case True
  with assms handleRequest_short [OF True] show ?thesis by auto
next
  case False
  obtain d1 m1 w1 st where b: "blk_request io d m (get_le32 (buf_bytes m (hd rs)))
       (get_le64 (drop 8 (buf_bytes m (hd rs))) * sectorSize) rs ws = (d1, m1, w1, st)"
    by (metis prod_cases4)
  have d1: "d1 = d" using b assms(1) by (auto simp: blk_request_def split: if_splits prod.splits)
  have "st = virtioBlkSIOErr \<and> m1 = m" if "get_le32 (buf_bytes m (hd rs)) = virtioBlkTOut"
    using b that assms(1) by (simp add: blk_request_def virtioBlkTOut_def virtioBlkTIn_def)
  then show ?thesis
    using assms handleRequest_full [OF _ _ _ b] False d1
    by (auto simp: buf_write_def copy_into_nth split: if_splits)
qed

theorem blk_readonly_witness:
  "disk (fst (handleRequest [] (NewVirtioBlkDevice [7] True) ([1] @ zeros 16) [(0, 16)] [(16, 1)])) = [7]"
  using blk_readonly [of "NewVirtioBlkDevice [7] True" "[]" "[1] @ zeros 16" "[(0, 16)]" "[(16, 1)]"]
  by (metis NewVirtioBlkDevice_def VirtioBlkDevice.select_convs(1,2) prod_cases3 fst_conv)

definition rx_mem0 :: bytes where
  "rx_mem0 = le64 64 @ le32 1 @ le16 2 @ le16 0 @ le64 65 @ le32 1 @ le16 2 @ le16 0
     @ [0, 0, 2, 0, 0, 0, 1, 0] @ zeros 26"

definition rx_dev0 :: "VirtioConsoleDevice virtioMMIODev" where
  "rx_dev0 = (newVirtioMMIODev 0 rx_mem0 \<lparr>txOut = []\<rparr>)\<lparr>queues := [blk_queue0, virtqueue0, virtqueue0]\<rparr>"

text \<open>console input is delivered once per available buffer, not once. When the driver has posted two
  receive buffers, one round of the receive loop writes the same input bytes into both, so the guest reads
  a single key press twice.\<close>

theorem console_input_duplicated:
  "\<exists>v'. rxLoop_round 3 2 0 rx_dev0 [0x61] = Some (Inr v')
     \<and> usedIdx 0 (mem v') blk_queue0 = 2 \<and> slice (mem v') 64 66 = [0x61, 0x61]"
proof -
  have "(case rxLoop_round 3 2 0 rx_dev0 [0x61] of
      Some (Inr v') \<Rightarrow> usedIdx 0 (mem v') blk_queue0 = 2 \<and> slice (mem v') 64 66 = [0x61, 0x61]
    | _ \<Rightarrow> False)" by code_simp
  then show ?thesis by (auto split: option.splits sum.splits)
qed

end
