(* ===== verification/Mmio.thy ===== *)
theory Mmio
  imports Virtio "HOL-Library.Signed_Division"
begin

text \<open>
  The platform devices of the KVM monitor: the serial port of \<open>src/pkg/vm/kvm/uart.go\<close> (PL011 and 16550
  views of one device), the clock of \<open>rtc.go\<close>, the dispatch of MMIO exits to the devices
  (\<open>handleExitMMIO\<close> of \<open>vm.go\<close>) and the classification of vCPU exits (\<open>runVCPU\<close>, \<open>guestStopError\<close>).

  The output file is a byte list, the level changes sent with \<open>KVM_IRQ_LINE\<close> are a list of booleans.
  Every method of the serial port runs under its mutex, so the methods are atomic steps.
\<close>

section \<open>Serial port\<close>

definition pl011IntTX :: u32 where "pl011IntTX = push_bit 5 1"
definition pl011IntRX :: u32 where "pl011IntRX = push_bit 4 1"

record uart =
  inputBuf :: bytes
  uout :: bytes
  irqLine :: "bool list"
  intLevel :: u32
  intEnabled :: u32
  lcr :: u32
  cr :: u32
  irqAsserted :: bool

definition newUART :: uart where
  "newUART = \<lparr>inputBuf = [], uout = [], irqLine = [], intLevel = 0, intEnabled = 0, lcr = 0,
     cr = 0x0301, irqAsserted = False\<rparr>"

definition updateIRQLocked :: "uart \<Rightarrow> uart" where
  "updateIRQLocked u =
     (let shouldAssert = (intLevel u AND intEnabled u \<noteq> 0)
      in if shouldAssert \<noteq> irqAsserted u
         then u\<lparr>irqAsserted := shouldAssert, irqLine := irqLine u @ [shouldAssert]\<rparr> else u)"

text \<open>One successful read of the input pipe.\<close>

definition readInput :: "uart \<Rightarrow> bytes \<Rightarrow> uart" where
  "readInput u bs =
     (if bs = [] then u
      else updateIRQLocked (u\<lparr>inputBuf := inputBuf u @ bs, intLevel := intLevel u OR pl011IntRX\<rparr>))"

definition hasInput :: "uart \<Rightarrow> bool" where
  "hasInput u \<longleftrightarrow> inputBuf u \<noteq> []"

definition readByte :: "uart \<Rightarrow> uart \<times> byte option" where
  "readByte u =
     (case inputBuf u of
        [] \<Rightarrow> (u, None)
      | b # bs \<Rightarrow>
          (updateIRQLocked (u\<lparr>inputBuf := bs,
             intLevel := (if bs = [] then intLevel u AND NOT pl011IntRX else intLevel u)\<rparr>), Some b))"

definition writeByte :: "uart \<Rightarrow> byte \<Rightarrow> uart" where
  "writeByte u b = updateIRQLocked (u\<lparr>uout := uout u @ [b], intLevel := intLevel u OR pl011IntTX\<rparr>)"

text \<open>16550 port access: the new state and, for an input access, the byte read.\<close>

definition handleIO :: "uart \<Rightarrow> u8 \<Rightarrow> u16 \<Rightarrow> byte \<Rightarrow> uart \<times> byte" where
  "handleIO u direction port val =
     (let reg = port - 0x3F8
      in if 7 < reg then (u, val)
         else if direction = 1 then (if reg = 0 then writeByte u val else u, val)
         else if reg = 0 then (let (u', ob) = readByte u in (u', case ob of None \<Rightarrow> 0 | Some b \<Rightarrow> b))
         else if reg = 5 then (u, if hasInput u then 0x61 else 0x60)
         else if reg = 2 then (u, 0x01)
         else (u, 0))"

definition pl011Base :: u64 where "pl011Base = 0x09000000"
definition pl011Size :: u64 where "pl011Size = 0x1000"

definition pl011IDs :: "u32 list" where
  "pl011IDs = [0x11, 0x10, 0x34, 0x00, 0x0D, 0xF0, 0x05, 0xB1]"

definition readMMIOVal :: "bytes \<Rightarrow> u32 \<Rightarrow> u32" where
  "readMMIOVal data len =
     (if len = 1 then ucast (data ! 0)
      else if len = 2 then ucast (data ! 0) OR push_bit 8 (ucast (data ! 1))
      else if len = 4 then ucast (data ! 0) OR push_bit 8 (ucast (data ! 1))
          OR push_bit 16 (ucast (data ! 2)) OR push_bit 24 (ucast (data ! 3))
      else 0)"

definition writeMMIOVal :: "bytes \<Rightarrow> u32 \<Rightarrow> u32 \<Rightarrow> bytes" where
  "writeMMIOVal data len val = copy_into data 0 (min (unat len) 4) (le32 val)"

text \<open>The register switch of a write and of a read.\<close>

definition pl011_write :: "uart \<Rightarrow> u64 \<Rightarrow> u32 \<Rightarrow> uart" where
  "pl011_write u off val =
     (if off = 0x000 then writeByte u (ucast val)
      else if off = 0x038 then
        updateIRQLocked (u\<lparr>intEnabled := val,
          intLevel := (if val AND pl011IntTX \<noteq> 0 then intLevel u OR pl011IntTX else intLevel u)\<rparr>)
      else if off = 0x044 then updateIRQLocked (u\<lparr>intLevel := intLevel u AND NOT val\<rparr>)
      else if off = 0x02C then u\<lparr>lcr := val\<rparr>
      else if off = 0x030 then u\<lparr>cr := val\<rparr>
      else u)"

definition pl011_read :: "uart \<Rightarrow> u64 \<Rightarrow> uart \<times> u32" where
  "pl011_read u off =
     (if off = 0x000 then (let (u', ob) = readByte u in (u', case ob of None \<Rightarrow> 0 | Some b \<Rightarrow> ucast b))
      else if off = 0x018 then (u, if inputBuf u = [] then 0x90 else 0x80)
      else if off = 0x030 then (u, cr u)
      else if off = 0x02C then (u, lcr u)
      else if off = 0x038 then (u, intEnabled u)
      else if off = 0x03C then (u, intLevel u)
      else if off = 0x040 then (u, intLevel u AND intEnabled u)
      else if 0xFE0 \<le> off \<and> off \<le> 0xFFC then (u, pl011IDs ! unat ((off - 0xFE0) div 4))
      else (u, 0))"

definition uart_handleMMIO :: "uart \<Rightarrow> u64 \<Rightarrow> u32 \<Rightarrow> u8 \<Rightarrow> bytes \<Rightarrow> uart \<times> bytes" where
  "uart_handleMMIO u addr len isWrite data =
     (if addr < pl011Base \<or> pl011Base + pl011Size \<le> addr then (u, data)
      else let off = addr - pl011Base
      in if isWrite \<noteq> 0 then (pl011_write u off (readMMIOVal data len), data)
         else let (u', val) = pl011_read u off in (u', writeMMIOVal data len val))"

section \<open>Clock\<close>

text \<open>Times are integers; \<open>now\<close> is the wall clock in nanoseconds. Go's integer division truncates.\<close>

record rtc =
  baseTime :: int
  baseNano :: int

definition pl031Base :: u64 where "pl031Base = 0x09010000"
definition pl031Size :: u64 where "pl031Size = 0x1000"
definition pl031IDs :: "u32 list" where
  "pl031IDs = [0x31, 0x10, 0x04, 0x00, 0x0D, 0xF0, 0x05, 0xB1]"

definition newRTC :: "int \<Rightarrow> rtc" where
  "newRTC now = \<lparr>baseTime = now sdiv 1000000000, baseNano = now\<rparr>"

definition currentTime :: "rtc \<Rightarrow> int \<Rightarrow> u32" where
  "currentTime r now = word_of_int (baseTime r + (now - baseNano r) sdiv 1000000000)"

definition rtc_handleMMIO :: "rtc \<Rightarrow> int \<Rightarrow> u64 \<Rightarrow> u32 \<Rightarrow> u8 \<Rightarrow> bytes \<Rightarrow> bool \<times> rtc \<times> bytes" where
  "rtc_handleMMIO r now addr len isWrite data =
     (if addr < pl031Base \<or> pl031Base + pl031Size \<le> addr then (False, r, data)
      else let off = addr - pl031Base
      in if isWrite \<noteq> 0
         then (True, if off = 0x008 then r\<lparr>baseTime := uint (readMMIOVal data len), baseNano := now\<rparr> else r, data)
         else (True, r, writeMMIOVal data len
                (if off = 0x000 then currentTime r now
                 else if off = 0x004 then 0
                 else if off = 0x00C then 1
                 else if off = 0x014 \<or> off = 0x018 then 0
                 else if off = 0x010 then 0
                 else if 0xFE0 \<le> off \<and> off \<le> 0xFFC then pl031IDs ! unat ((off - 0xFE0) div 4)
                 else 0)))"

section \<open>Exits\<close>

record 'd vmm =
  virtioDevs :: "('d virtioDevice \<times> 'd virtioMMIODev) list"
  vrtc :: rtc
  vuart :: uart

fun try_virtio ::
  "('d virtioDevice \<times> 'd virtioMMIODev) list \<Rightarrow> u64 \<Rightarrow> u32 \<Rightarrow> u8 \<Rightarrow> bytes
     \<Rightarrow> bool \<times> ('d virtioDevice \<times> 'd virtioMMIODev) list \<times> bytes \<times> spawn list" where
  "try_virtio [] addr len isWrite data = (False, [], data, [])"
| "try_virtio ((D, v) # vs) addr len isWrite data =
     (case HandleMMIO D v addr len isWrite data of
        (True, v', data', sp) \<Rightarrow> (True, (D, v') # vs, data', sp)
      | (False, _, _, _) \<Rightarrow>
          (let (ok, vs', data', sp) = try_virtio vs addr len isWrite data
           in (ok, (D, v) # vs', data', sp)))"

definition handleExitMMIO ::
  "'d vmm \<Rightarrow> int \<Rightarrow> u64 \<Rightarrow> u32 \<Rightarrow> u8 \<Rightarrow> bytes \<Rightarrow> 'd vmm \<times> bytes \<times> spawn list" where
  "handleExitMMIO vm now addr len isWrite data =
     (case try_virtio (virtioDevs vm) addr len isWrite data of
        (True, vs, data', sp) \<Rightarrow> (vm\<lparr>virtioDevs := vs\<rparr>, data', sp)
      | (False, _, _, _) \<Rightarrow>
          (case rtc_handleMMIO (vrtc vm) now addr len isWrite data of
             (True, r, data') \<Rightarrow> (vm\<lparr>vrtc := r\<rparr>, data', [])
           | (False, _, _) \<Rightarrow>
               (let (u, data') = uart_handleMMIO (vuart vm) addr len isWrite data
                in (vm\<lparr>vuart := u\<rparr>, data', []))))"

datatype guest_error = ErrGuestReset | ErrGuestCrash

definition guestStopError :: "u32 \<Rightarrow> u32 \<Rightarrow> bool \<times> guest_error option" where
  "guestStopError exitReason eventType =
     (if exitReason = 5 then (True, None)
      else if exitReason = 8 then (True, Some ErrGuestReset)
      else if exitReason = 24 then
        (if eventType = 1 then (True, None)
         else if eventType = 2 then (True, Some ErrGuestReset)
         else if eventType = 3 then (True, Some ErrGuestCrash)
         else (False, None))
      else (False, None))"

text \<open>What the vCPU loop does after an exit: handle I/O and go on, or stop the machine.\<close>

datatype vcpu_next = DoIO | DoMMIO | Continue | StopGuest "guest_error option" | StopError

definition runVCPU_exit :: "u32 \<Rightarrow> u32 \<Rightarrow> vcpu_next" where
  "runVCPU_exit exitReason evType =
     (if exitReason = 2 then DoIO
      else if exitReason = 6 then DoMMIO
      else if exitReason = 5 \<or> exitReason = 8 \<or> exitReason = 24 then
        (let (stopped, reason) = guestStopError exitReason (if exitReason = 24 then evType else 0)
         in if \<not> stopped then Continue else StopGuest reason)
      else if exitReason = 9 \<or> exitReason = 17 then StopError
      else if exitReason = 10 then Continue
      else StopError)"

section \<open>The serial port's invariant\<close>

text \<open>The interrupt line follows the masked status, the last level sent to KVM is the current one, and an
  empty input buffer has no receive interrupt pending.\<close>

definition uart_inv :: "uart \<Rightarrow> bool" where
  "uart_inv u \<longleftrightarrow>
     irqAsserted u = (intLevel u AND intEnabled u \<noteq> 0)
     \<and> irqAsserted u = (irqLine u \<noteq> [] \<and> last (irqLine u))
     \<and> (inputBuf u = [] \<longrightarrow> intLevel u AND pl011IntRX = 0)"

text \<open>What holds before the line is brought up to date.\<close>

definition uart_pre :: "uart \<Rightarrow> bool" where
  "uart_pre u \<longleftrightarrow>
     irqAsserted u = (irqLine u \<noteq> [] \<and> last (irqLine u))
     \<and> (inputBuf u = [] \<longrightarrow> intLevel u AND pl011IntRX = 0)"

lemma updateIRQ_inv: "uart_pre u \<Longrightarrow> uart_inv (updateIRQLocked u)"
  by (cases "(intLevel u AND intEnabled u \<noteq> 0) = irqAsserted u")
    (auto simp: uart_pre_def uart_inv_def updateIRQLocked_def Let_def)

lemma uart_invD: "uart_inv u \<Longrightarrow> uart_pre u"
  unfolding uart_inv_def uart_pre_def by blast

lemma updateIRQ_fields [simp]:
  "inputBuf (updateIRQLocked u) = inputBuf u" "uout (updateIRQLocked u) = uout u"
  by (simp_all add: updateIRQLocked_def Let_def)

lemma rx_bits:
  "(x OR pl011IntTX) AND pl011IntRX = x AND pl011IntRX"
  "x AND pl011IntRX = 0 \<Longrightarrow> (x AND NOT y) AND pl011IntRX = 0"
  "(x AND NOT pl011IntRX) AND pl011IntRX = 0"
proof -
  have t: "pl011IntTX AND pl011IntRX = 0" by (simp add: pl011IntTX_def pl011IntRX_def)
  show "(x OR pl011IntTX) AND pl011IntRX = x AND pl011IntRX"
    by (simp add: bit.conj_disj_distrib2 t)
  assume x: "x AND pl011IntRX = 0"
  have "(x AND NOT y) AND pl011IntRX = (x AND pl011IntRX) AND NOT y"
    by (simp only: ac_simps)
  with x show "(x AND NOT y) AND pl011IntRX = 0" by simp
next
  show "(x AND NOT pl011IntRX) AND pl011IntRX = 0"
    by (rule bit_word_eqI) (simp add: bit_simps)
qed

lemma uart_pre_level:
  "uart_pre u \<Longrightarrow> x AND pl011IntRX = intLevel u AND pl011IntRX \<Longrightarrow> uart_pre (u\<lparr>intLevel := x\<rparr>)"
  "uart_pre u \<Longrightarrow> uart_pre (u\<lparr>intLevel := intLevel u AND NOT y\<rparr>)"
  "uart_pre u \<Longrightarrow> uart_pre (u\<lparr>intEnabled := z\<rparr>)" "uart_pre u \<Longrightarrow> uart_pre (u\<lparr>uout := w\<rparr>)"
  by (simp_all add: uart_pre_def rx_bits)

lemma writeByte_inv: "uart_inv u \<Longrightarrow> uart_inv (writeByte u b)"
  unfolding writeByte_def
  by (rule updateIRQ_inv, drule uart_invD) (simp add: uart_pre_def rx_bits)

lemma readByte_inv: "uart_inv u \<Longrightarrow> uart_inv (fst (readByte u))"
proof (cases "inputBuf u")
  case (Cons b bs)
  assume "uart_inv u"
  then have "uart_pre u" by (rule uart_invD)
  then show ?thesis unfolding readByte_def Cons list.case fst_conv
    by (intro updateIRQ_inv) (simp add: uart_pre_def rx_bits)
qed (simp add: readByte_def)

lemma readInput_inv: "uart_inv u \<Longrightarrow> uart_inv (readInput u bs)"
proof (cases "bs = []")
  case False
  assume "uart_inv u"
  then have "uart_pre u" by (rule uart_invD)
  with False show ?thesis unfolding readInput_def
    by (simp, intro updateIRQ_inv) (simp add: uart_pre_def)
qed (simp add: readInput_def)

lemma uart_inv_other: "uart_inv (u\<lparr>lcr := x\<rparr>) = uart_inv u" "uart_inv (u\<lparr>cr := x\<rparr>) = uart_inv u"
  by (simp_all add: uart_inv_def)

lemma pl011_write_inv:
  assumes "uart_inv u"
  shows "uart_inv (pl011_write u off val)"
proof -
  note p = uart_invD [OF assms]
  let ?l = "if val AND pl011IntTX \<noteq> 0 then intLevel u OR pl011IntTX else intLevel u"
  have "?l AND pl011IntRX = intLevel u AND pl011IntRX" by (simp add: rx_bits)
  then have "uart_pre (u\<lparr>intEnabled := val, intLevel := ?l\<rparr>)"
    using uart_pre_level(1) [OF uart_pre_level(3) [OF p, of val], of ?l] by simp
  note imsc = updateIRQ_inv [OF this] and icr = updateIRQ_inv [OF uart_pre_level(2) [OF p, of val]]
  have "uart_inv (u\<lparr>lcr := val\<rparr>)" "uart_inv (u\<lparr>cr := val\<rparr>)"
    using assms by (simp_all only: uart_inv_other)
  with imsc icr writeByte_inv [OF assms] assms show ?thesis
    unfolding pl011_write_def by (simp only: if_True if_False split: if_split) blast
qed

lemma pl011_read_inv: "uart_inv u \<Longrightarrow> uart_inv (fst (pl011_read u off))"
proof (cases "off = 0")
  case True
  assume "uart_inv u"
  with True readByte_inv [of u] show ?thesis by (simp add: pl011_read_def split: prod.split) (metis fst_conv)
next
  case False
  assume "uart_inv u"
  moreover have "fst (pl011_read u off) = u" using False by (simp add: pl011_read_def)
  ultimately show ?thesis by simp
qed

section \<open>MMIO windows as an interface\<close>

text \<open>A device decodes the addresses of its window and leaves everything else alone; hence a sequence of
  accesses outside the window is invisible to it.\<close>

locale mmio_window =
  fixes inwin :: "'s \<Rightarrow> u64 \<Rightarrow> bool"
    and touch :: "'s \<Rightarrow> u64 \<Rightarrow> u32 \<Rightarrow> u8 \<Rightarrow> bytes \<Rightarrow> 's \<times> bytes"
  assumes outside: "\<not> inwin s addr \<Longrightarrow> touch s addr len w data = (s, data)"
begin

lemma outside_run:
  "list_all (\<lambda>(a, l, w, d). \<not> inwin s a) xs \<Longrightarrow> foldl (\<lambda>s (a, l, w, d). fst (touch s a l w d)) s xs = s"
  by (induction xs) (auto simp: outside)

end

definition in_range :: "u64 \<Rightarrow> u64 \<Rightarrow> u64 \<Rightarrow> bool" where
  "in_range base sz addr \<longleftrightarrow> \<not> (addr < base \<or> base + sz \<le> addr)"

interpretation uwin: mmio_window "\<lambda>_. in_range pl011Base pl011Size" uart_handleMMIO
  by unfold_locales (simp add: in_range_def uart_handleMMIO_def)

interpretation rwin: mmio_window "\<lambda>_. in_range pl031Base pl031Size" "\<lambda>r a l w d. snd (rtc_handleMMIO r now a l w d)" for now
  by unfold_locales (simp add: in_range_def rtc_handleMMIO_def)

interpretation vwin: mmio_window "\<lambda>v. in_range (baseAddr v) virtioMMIORegionSize"
  "\<lambda>v a l w d. (fst (snd (HandleMMIO D v a l w d)), fst (snd (snd (HandleMMIO D v a l w d))))" for D
  by unfold_locales (simp add: in_range_def HandleMMIO_def)

lemma HandleMMIO_iff: "fst (HandleMMIO D v addr len w data) = in_range (baseAddr v) virtioMMIORegionSize addr"
  by (simp add: HandleMMIO_def in_range_def Let_def split: prod.split)

lemma rtc_handle_iff: "fst (rtc_handleMMIO r now addr len w data) = in_range pl031Base pl031Size addr"
  by (simp add: rtc_handleMMIO_def in_range_def Let_def)

lemma try_virtio_none:
  "\<forall>(D, v) \<in> set vs. \<not> in_range (baseAddr v) virtioMMIORegionSize addr \<Longrightarrow>
     try_virtio vs addr len w data = (False, vs, data, [])"
proof (induction vs)
  case (Cons x vs)
  obtain D v where x: "x = (D, v)" by (cases x)
  with Cons.prems have "HandleMMIO D v addr len w data = (False, v, data, [])"
    by (simp add: HandleMMIO_def in_range_def)
  with Cons x show ?case by simp
qed simp

lemma try_virtio_some:
  assumes "i < length vs" "in_range (baseAddr (snd (vs ! i))) virtioMMIORegionSize addr"
    "\<forall>j < i. \<not> in_range (baseAddr (snd (vs ! j))) virtioMMIORegionSize addr"
    "HandleMMIO (fst (vs ! i)) (snd (vs ! i)) addr len w data = (ok, v', data', sp)"
  shows "try_virtio vs addr len w data = (True, vs[i := (fst (vs ! i), v')], data', sp)"
  using assms
proof (induction vs arbitrary: i)
  case (Cons x vs)
  obtain D v where x: "x = (D, v)" by (cases x)
  show ?case
  proof (cases i)
    case 0
    with Cons.prems x HandleMMIO_iff [of D v addr len w data] show ?thesis by auto
  next
    case (Suc j)
    have "HandleMMIO D v addr len w data = (False, v, data, [])"
      using Cons.prems(3) Suc x by (force simp: HandleMMIO_def in_range_def)
    moreover have "try_virtio vs addr len w data = (True, vs[j := (fst (vs ! j), v')], data', sp)"
      by (rule Cons.IH) (use Cons.prems Suc in auto)
    ultimately show ?thesis by (simp add: x Suc)
  qed
qed simp

text \<open>The addresses that \<open>NewVM\<close> gives to the virtio devices.\<close>

definition virtioBase :: "nat \<Rightarrow> u64" where
  "virtioBase i = 0x0a000000 + of_nat i * virtioMMIORegionSize"

definition layout_ok :: "'d vmm \<Rightarrow> bool" where
  "layout_ok vm \<longleftrightarrow> length (virtioDevs vm) \<le> 4096
     \<and> list_all (\<lambda>i. baseAddr (snd (virtioDevs vm ! i)) = virtioBase i) [0..<length (virtioDevs vm)]"

lemma unat_virtioBase: "i \<le> 4096 \<Longrightarrow> unat (virtioBase i) = 0x0a000000 + i * 0x200"
proof -
  assume i: "i \<le> 4096"
  have "virtioBase i = of_nat (0x0a000000 + i * 0x200)" by (simp add: virtioBase_def virtioMMIORegionSize_def)
  then have "unat (virtioBase i) = (0x0a000000 + i * 0x200) mod 2 ^ 64" by (simp only: unat_of_nat) simp
  with i show ?thesis by simp
qed

lemma in_virtio_range:
  assumes "i \<le> 4095"
  shows "in_range (virtioBase i) virtioMMIORegionSize addr \<longleftrightarrow>
     0x0a000000 + i * 0x200 \<le> unat addr \<and> unat addr < 0x0a000000 + (i + 1) * 0x200"
proof -
  have "virtioBase i + virtioMMIORegionSize = virtioBase (i + 1)"
    by (simp add: virtioBase_def algebra_simps)
  then show ?thesis
    using unat_virtioBase [of i] unat_virtioBase [of "i + 1"] assms
    by (auto simp: in_range_def word_less_nat_alt word_le_nat_alt not_less)
qed

lemma layout_baseAddr: "layout_ok vm \<Longrightarrow> i < length (virtioDevs vm) \<Longrightarrow>
    baseAddr (snd (virtioDevs vm ! i)) = virtioBase i \<and> i \<le> 4095"
  by (auto simp: layout_ok_def list_all_iff)

lemma layout_low: "layout_ok vm \<Longrightarrow> unat addr < 0x0a000000 \<Longrightarrow>
    try_virtio (virtioDevs vm) addr len w data = (False, virtioDevs vm, data, [])"
proof (rule try_virtio_none, clarify)
  fix D v assume l: "layout_ok vm" "unat addr < 0x0a000000" and m: "(D, v) \<in> set (virtioDevs vm)"
    and r: "in_range (baseAddr v) virtioMMIORegionSize addr"
  from m obtain i where i: "i < length (virtioDevs vm)" "virtioDevs vm ! i = (D, v)"
    by (auto simp: in_set_conv_nth)
  with layout_baseAddr [OF l(1) i(1)] have "baseAddr v = virtioBase i" "i \<le> 4095" by simp_all
  with r in_virtio_range [of i addr] l(2) show False by simp
qed

section \<open>Properties\<close>

text \<open>What happens to the port: input arrives, or the guest accesses an address of the monitor with \<open>len\<close> bytes.\<close>

datatype uart_op = UInput bytes | UAccess u64 u32 u8 bytes

text \<open>The guest keeps the byte that a read of the data register delivers into its buffer, when the flag register told it
  that the input is not empty.\<close>

definition input_flagged :: "uart \<Rightarrow> bool" where
  "input_flagged u \<longleftrightarrow> \<not> bit (get_le32 (snd (uart_handleMMIO u (pl011Base + 0x018) 4 0 (zeros 8)))) 4"

fun uart_do :: "uart \<times> bytes \<Rightarrow> uart_op \<Rightarrow> uart \<times> bytes" where
  "uart_do (u, got) (UInput bs) = (readInput u bs, got)"
| "uart_do (u, got) (UAccess addr len isWrite data) =
     (case uart_handleMMIO u addr len isWrite data of
        (u', data') \<Rightarrow>
          (u', if isWrite = 0 \<and> addr = pl011Base \<and> input_flagged u then got @ [hd data'] else got))"

definition access_ok :: "uart_op \<Rightarrow> bool" where
  "access_ok x \<longleftrightarrow> (case x of UInput bs \<Rightarrow> True | UAccess addr len w data \<Rightarrow> 0 < len \<and> data \<noteq> [])"

definition arrived :: "uart_op list \<Rightarrow> bytes" where
  "arrived ops = concat (map (\<lambda>x. case x of UInput bs \<Rightarrow> bs | _ \<Rightarrow> []) ops)"

lemma uart_fifo_step:
  "inputBuf (readInput u bs) = inputBuf u @ bs"
  "inputBuf (fst (pl011_read u off)) = (if off = 0 then drop 1 (inputBuf u) else inputBuf u)"
  "inputBuf (pl011_write u off val) = inputBuf u"
  by (simp_all add: readInput_def pl011_read_def pl011_write_def writeByte_def readByte_def split: list.split)

lemma writeMMIOVal_hd:
  assumes "0 < len" "data \<noteq> []"
  shows "hd (writeMMIOVal data len val) = ucast val"
proof -
  have "0 < min (unat len) 4" using assms(1) by (simp add: word_less_nat_alt)
  then obtain k where k: "min (unat len) 4 = Suc k" using gr0_implies_Suc by blast
  then show ?thesis
    using assms(2) by (cases data) (simp_all add: writeMMIOVal_def copy_into_def le32_def)
qed

lemma read_flag: "input_flagged u \<longleftrightarrow> inputBuf u \<noteq> []"
proof -
  have "bit (get_le32 (writeMMIOVal (zeros 8) 4 0x90)) 4" "\<not> bit (get_le32 (writeMMIOVal (zeros 8) 4 0x80)) 4"
    by code_simp+
  then show ?thesis
    by (simp add: input_flagged_def uart_handleMMIO_def pl011_read_def pl011Base_def pl011Size_def)
qed

lemma uart_access:
  assumes "uart_handleMMIO u addr len w data = (u', data')" "uart_inv u"
  shows "uart_inv u'" "inputBuf u' = (if w = 0 \<and> addr = pl011Base then drop 1 (inputBuf u) else inputBuf u)"
    "0 < len \<Longrightarrow> data \<noteq> [] \<Longrightarrow> w = 0 \<Longrightarrow> addr = pl011Base \<Longrightarrow> inputBuf u \<noteq> [] \<Longrightarrow> hd data' = hd (inputBuf u)"
proof -
  have off: "addr - pl011Base = 0 \<longleftrightarrow> addr = pl011Base" by simp
  show "uart_inv u'"
    using assms pl011_read_inv [of u "addr - pl011Base"] pl011_write_inv [of u "addr - pl011Base"]
    by (auto simp: uart_handleMMIO_def Let_def split: if_splits prod.splits)
  show "inputBuf u' = (if w = 0 \<and> addr = pl011Base then drop 1 (inputBuf u) else inputBuf u)"
    using assms(1) uart_fifo_step(2) [of u "addr - pl011Base"] uart_fifo_step(3) [of u "addr - pl011Base"] off
    by (auto simp: uart_handleMMIO_def Let_def pl011Base_def pl011Size_def split: if_splits prod.splits)
  assume h: "0 < len" "data \<noteq> []" "w = 0" "addr = pl011Base" "inputBuf u \<noteq> []"
  then have "snd (pl011_read u 0) = ucast (hd (inputBuf u))"
    by (cases "inputBuf u") (simp_all add: pl011_read_def readByte_def)
  moreover have "(ucast (ucast (hd (inputBuf u)) :: u32) :: u8) = hd (inputBuf u)"
    by (rule bit_word_eqI) (simp add: bit_simps)
  ultimately show "hd data' = hd (inputBuf u)"
    using assms(1) h writeMMIOVal_hd [OF h(1,2)]
    by (auto simp: uart_handleMMIO_def Let_def pl011Size_def pl011Base_def split: prod.splits)
qed

lemma uart_run:
  "uart_inv u \<Longrightarrow> list_all access_ok ops \<Longrightarrow> foldl uart_do (u, got) ops = (u', got') \<Longrightarrow>
     uart_inv u' \<and> got' @ inputBuf u' = got @ inputBuf u @ arrived ops"
proof (induction ops arbitrary: u got)
  case (Cons x ops)
  obtain u1 got1 where s: "uart_do (u, got) x = (u1, got1)" by (cases "uart_do (u, got) x")
  have "uart_inv u1 \<and> got1 @ inputBuf u1 = got @ inputBuf u @ arrived [x]"
  proof (cases x)
    case (UInput bs)
    then show ?thesis using s Cons.prems(1) readInput_inv by (auto simp: uart_fifo_step arrived_def)
  next
    case (UAccess addr len w data)
    obtain data' where a: "uart_handleMMIO u addr len w data = (u1, data')"
      using s UAccess by (auto split: prod.splits)
    note acc = uart_access [OF a Cons.prems(1)]
    have ok: "0 < len" "data \<noteq> []" using Cons.prems(2) UAccess by (auto simp: access_ok_def)
    then show ?thesis
      using s UAccess a acc by (cases "inputBuf u") (auto simp: arrived_def read_flag split: if_splits)
  qed
  then show ?case using Cons.IH [of u1 got1] Cons.prems(2,3) s by (simp add: arrived_def)
qed (simp add: arrived_def)

text \<open>C11: the interrupt line of the serial port is exact. Starting from a new port, after any sequence of
  input arrivals and accesses of the guest, the line is asserted exactly when an enabled
  interrupt is pending, the last level reported to KVM is that level, and no receive interrupt is pending
  for an empty buffer; and the bytes that reads of the data register delivered, while the flag register showed input,
  followed by the bytes still buffered are the bytes that
  arrived, in order: none is lost, duplicated, reordered or changed. An access has a length and a buffer for it.\<close>

theorem uart_exact:
  assumes "list_all access_ok ops" "foldl uart_do (newUART, []) ops = (u, got)"
  shows "irqAsserted u = (intLevel u AND intEnabled u \<noteq> 0)
    \<and> irqAsserted u = (irqLine u \<noteq> [] \<and> last (irqLine u))
    \<and> (inputBuf u = [] \<longrightarrow> intLevel u AND pl011IntRX = 0)
    \<and> got @ inputBuf u = arrived ops"
proof -
  have "uart_inv newUART" by (simp add: uart_inv_def newUART_def)
  from uart_run [OF this assms] have "uart_inv u" "got @ inputBuf u = arrived ops"
    by (simp_all add: newUART_def)
  then show ?thesis unfolding uart_inv_def by blast
qed

text \<open>Two bytes arrive, the guest enables the receive interrupt and reads one of them.\<close>

definition uart_ops0 :: "uart_op list" where
  "uart_ops0 = [UInput [65, 66], UAccess (pl011Base + 0x38) 4 1 (le32 0x10 @ zeros 4), UAccess pl011Base 1 0 (zeros 8)]"

theorem uart_exact_witness:
  "snd (foldl uart_do (newUART, []) uart_ops0) @ inputBuf (fst (foldl uart_do (newUART, []) uart_ops0)) = [65, 66]
   \<and> snd (foldl uart_do (newUART, []) uart_ops0) = [65] \<and> irqAsserted (fst (foldl uart_do (newUART, []) uart_ops0))"
proof -
  have "arrived uart_ops0 = [65, 66]" "list_all access_ok uart_ops0"
    by (simp_all add: arrived_def uart_ops0_def access_ok_def)
  moreover have "snd (foldl uart_do (newUART, []) uart_ops0) = [65]" "irqAsserted (fst (foldl uart_do (newUART, []) uart_ops0))"
    by code_simp+
  ultimately show ?thesis
    using uart_exact [OF _ prod.collapse [symmetric], of uart_ops0] by (simp only: simp_thms)
qed

lemma mmio_dispatch_laws:
  assumes "layout_ok vm"
  shows "i < length (virtioDevs vm) \<Longrightarrow> in_range (virtioBase i) virtioMMIORegionSize addr \<Longrightarrow>
      HandleMMIO (fst (virtioDevs vm ! i)) (snd (virtioDevs vm ! i)) addr len w data = (ok, v', data', sp) \<Longrightarrow>
      handleExitMMIO vm now addr len w data =
        (vm\<lparr>virtioDevs := (virtioDevs vm)[i := (fst (virtioDevs vm ! i), v')]\<rparr>, data', sp)"
    and "in_range pl031Base pl031Size addr \<Longrightarrow>
      handleExitMMIO vm now addr len w data =
        (vm\<lparr>vrtc := fst (snd (rtc_handleMMIO (vrtc vm) now addr len w data))\<rparr>,
         snd (snd (rtc_handleMMIO (vrtc vm) now addr len w data)), [])"
    and "in_range pl011Base pl011Size addr \<Longrightarrow>
      handleExitMMIO vm now addr len w data =
        (vm\<lparr>vuart := fst (uart_handleMMIO (vuart vm) addr len w data)\<rparr>,
         snd (uart_handleMMIO (vuart vm) addr len w data), [])"
    and "unat addr < 0x0a000000 \<Longrightarrow> \<not> in_range pl031Base pl031Size addr \<Longrightarrow>
      \<not> in_range pl011Base pl011Size addr \<Longrightarrow> handleExitMMIO vm now addr len w data = (vm, data, [])"
proof -
  have rlow: "unat addr < 0x0a000000" if "in_range pl031Base pl031Size addr"
    using that by (simp add: in_range_def pl031Base_def pl031Size_def word_less_nat_alt word_le_nat_alt)
  have ulow: "unat addr < 0x0a000000" "\<not> in_range pl031Base pl031Size addr" if "in_range pl011Base pl011Size addr"
    using that by (auto simp: in_range_def pl011Base_def pl011Size_def pl031Base_def pl031Size_def
        word_less_nat_alt word_le_nat_alt)
  have nortc: "rtc_handleMMIO (vrtc vm) now addr len w data = (False, vrtc vm, data)"
    if "\<not> in_range pl031Base pl031Size addr"
    using that by (simp add: rtc_handleMMIO_def in_range_def)
  {
    assume i: "i < length (virtioDevs vm)" "in_range (virtioBase i) virtioMMIORegionSize addr"
      and h: "HandleMMIO (fst (virtioDevs vm ! i)) (snd (virtioDevs vm ! i)) addr len w data = (ok, v', data', sp)"
    have other: "\<not> in_range (baseAddr (snd (virtioDevs vm ! j))) virtioMMIORegionSize addr" if "j < i" for j
    proof -
      have "baseAddr (snd (virtioDevs vm ! j)) = virtioBase j" "j \<le> 4095" "i \<le> 4095"
        using layout_baseAddr [OF assms] i(1) that by simp_all
      then show ?thesis
        using in_virtio_range [of j addr] in_virtio_range [of i addr] i(2) that by simp
    qed
    have "try_virtio (virtioDevs vm) addr len w data
        = (True, (virtioDevs vm)[i := (fst (virtioDevs vm ! i), v')], data', sp)"
      by (rule try_virtio_some [OF i(1) _ _ h])
        (use layout_baseAddr [OF assms i(1)] i(2) other in simp_all)
    then show "handleExitMMIO vm now addr len w data =
        (vm\<lparr>virtioDevs := (virtioDevs vm)[i := (fst (virtioDevs vm ! i), v')]\<rparr>, data', sp)"
      by (simp add: handleExitMMIO_def)
  next
    assume r: "in_range pl031Base pl031Size addr"
    obtain ok r' d' where h: "rtc_handleMMIO (vrtc vm) now addr len w data = (ok, r', d')" by (metis prod_cases3)
    with r rtc_handle_iff [of "vrtc vm" now addr len w data] layout_low [OF assms rlow [OF r], of len w data]
    show "handleExitMMIO vm now addr len w data =
        (vm\<lparr>vrtc := fst (snd (rtc_handleMMIO (vrtc vm) now addr len w data))\<rparr>,
         snd (snd (rtc_handleMMIO (vrtc vm) now addr len w data)), [])"
      by (simp add: handleExitMMIO_def)
  next
    assume u: "in_range pl011Base pl011Size addr"
    show "handleExitMMIO vm now addr len w data =
        (vm\<lparr>vuart := fst (uart_handleMMIO (vuart vm) addr len w data)\<rparr>,
         snd (uart_handleMMIO (vuart vm) addr len w data), [])"
      using layout_low [OF assms ulow(1) [OF u], of len w data] nortc [OF ulow(2) [OF u]]
      by (simp add: handleExitMMIO_def split: prod.split)
  next
    assume n: "unat addr < 0x0a000000" "\<not> in_range pl031Base pl031Size addr" "\<not> in_range pl011Base pl011Size addr"
    show "handleExitMMIO vm now addr len w data = (vm, data, [])"
      using layout_low [OF assms n(1), of len w data] nortc [OF n(2)] uwin.outside [OF n(3), of "vuart vm" len w data]
      by (simp add: handleExitMMIO_def)
  }
qed

text \<open>C10: an MMIO exit reaches exactly the device that owns the address. With the address layout of the
  monitor, an access in the window of the \<open>i\<close>-th virtio device is that device's own handler and changes
  no other device; accesses in the clock's and the serial port's windows change only those; every other
  address below the virtio windows changes nothing.\<close>

theorem mmio_dispatch:
  assumes "layout_ok vm"
  shows "(i < length (virtioDevs vm) \<longrightarrow> in_range (virtioBase i) virtioMMIORegionSize addr \<longrightarrow>
      HandleMMIO (fst (virtioDevs vm ! i)) (snd (virtioDevs vm ! i)) addr len w data = (ok, v', data', sp) \<longrightarrow>
      handleExitMMIO vm now addr len w data =
        (vm\<lparr>virtioDevs := (virtioDevs vm)[i := (fst (virtioDevs vm ! i), v')]\<rparr>, data', sp))
   \<and> (in_range pl031Base pl031Size addr \<longrightarrow>
      handleExitMMIO vm now addr len w data =
        (vm\<lparr>vrtc := fst (snd (rtc_handleMMIO (vrtc vm) now addr len w data))\<rparr>,
         snd (snd (rtc_handleMMIO (vrtc vm) now addr len w data)), []))
   \<and> (in_range pl011Base pl011Size addr \<longrightarrow>
      handleExitMMIO vm now addr len w data =
        (vm\<lparr>vuart := fst (uart_handleMMIO (vuart vm) addr len w data)\<rparr>,
         snd (uart_handleMMIO (vuart vm) addr len w data), []))
   \<and> (unat addr < 0x0a000000 \<longrightarrow> \<not> in_range pl031Base pl031Size addr \<longrightarrow>
      \<not> in_range pl011Base pl011Size addr \<longrightarrow> handleExitMMIO vm now addr len w data = (vm, data, []))"
  using assms by - (rule mmio_dispatch_laws | assumption | rule conjI | rule impI)+

text \<open>A machine with two virtio devices without registers of their own; the guest reads the magic value of the second one.\<close>

definition dev0 :: "unit virtioDevice" where
  "dev0 = \<lparr>DeviceID = 2, Features = (\<lambda>_. 0), ConfigRead = (\<lambda>_ _ _. 0), ConfigWrite = (\<lambda>d _ _ _. d), setup_on_ok = False\<rparr>"

definition vm0 :: "unit vmm" where
  "vm0 = \<lparr>virtioDevs = [(dev0, newVirtioMMIODev (virtioBase 0) [] ()), (dev0, newVirtioMMIODev (virtioBase 1) [] ())],
     vrtc = newRTC 0, vuart = newUART\<rparr>"

theorem mmio_dispatch_witness:
  "\<exists>v'. layout_ok vm0 \<and> handleExitMMIO vm0 0 0x0a000200 4 0 (zeros 8) =
     (vm0\<lparr>virtioDevs := (virtioDevs vm0)[1 := (dev0, v')]\<rparr>, le32 0x74726976 @ zeros 4, [])"
proof -
  have l: "layout_ok vm0" by (simp add: layout_ok_def vm0_def newVirtioMMIODev_def upt_rec numeral_2_eq_2)
  have r: "in_range (virtioBase 1) virtioMMIORegionSize 0x0a000200" by code_simp
  obtain ok v' data' sp where h: "HandleMMIO (fst (virtioDevs vm0 ! 1)) (snd (virtioDevs vm0 ! 1)) 0x0a000200 4 0 (zeros 8) = (ok, v', data', sp)"
    by (metis prod_cases4)
  moreover have "snd (snd (HandleMMIO (fst (virtioDevs vm0 ! 1)) (snd (virtioDevs vm0 ! 1)) 0x0a000200 4 0 (zeros 8))) =
      (le32 0x74726976 @ zeros 4, [])" by code_simp
  ultimately have d: "data' = le32 0x74726976 @ zeros 4" "sp = []" by simp_all
  have f: "fst (virtioDevs vm0 ! 1) = dev0" "1 < length (virtioDevs vm0)" by (simp_all add: vm0_def)
  from mmio_dispatch [OF l, THEN conjunct1, rule_format, OF f(2) r h] show ?thesis
    using l by (auto simp: d f(1) [simplified])
qed

text \<open>the clock keeps the time it is given. After the guest sets the clock to \<open>t\<close>, a read of the data
  register \<open>s\<close> nanoseconds later returns \<open>t\<close> plus the whole seconds that passed, modulo 2^32.\<close>

theorem rtc_keeps_time:
  assumes "0 \<le> s" "length data = 8"
  shows "rtc_handleMMIO r now (pl031Base + 0x008) 4 1 (writeMMIOVal data 4 t) = (True, r', data') \<Longrightarrow>
    rtc_handleMMIO r' (now + s) pl031Base 4 0 data =
      (True, r', writeMMIOVal data 4 (t + word_of_int (s div 1000000000)))"
proof -
  have rw: "readMMIOVal (writeMMIOVal data 4 t) 4 = t"
  proof -
    have "writeMMIOVal data 4 t = le32 t @ drop 4 data"
      using assms(2) by (simp add: writeMMIOVal_def copy_into_def)
    moreover have "readMMIOVal (le32 t @ drop 4 data) 4 = get_le32 (le32 t @ drop 4 data)"
      by (simp add: readMMIOVal_def get_le32_def)
    ultimately show ?thesis by (simp only: codec_simps)
  qed
  assume "rtc_handleMMIO r now (pl031Base + 0x008) 4 1 (writeMMIOVal data 4 t) = (True, r', data')"
  then have r': "r' = r\<lparr>baseTime := uint t, baseNano := now\<rparr>"
    by (simp add: rtc_handleMMIO_def pl031Base_def pl031Size_def rw)
  have "s sdiv 1000000000 = s div 1000000000"
    using assms(1) by (cases "s = 0") (simp_all add: signed_divide_int_def)
  then have "currentTime r' (now + s) = t + word_of_int (s div 1000000000)"
    by (simp add: currentTime_def r')
  then show ?thesis by (simp add: rtc_handleMMIO_def pl031Base_def pl031Size_def)
qed

theorem rtc_keeps_time_witness:
  "rtc_handleMMIO (snd (False, (newRTC 0)\<lparr>baseTime := uint (5::u32), baseNano := 7\<rparr>)) (7 + 2500000000) pl031Base 4 0 (zeros 8)
     = (True, (newRTC 0)\<lparr>baseTime := uint (5::u32), baseNano := 7\<rparr>, writeMMIOVal (zeros 8) 4 (5 + word_of_int 2))"
proof -
  have w: "writeMMIOVal (zeros 8) 4 5 = [5, 0, 0, 0, 0, 0, 0, 0]" by code_simp
  have "rtc_handleMMIO (newRTC 0) 7 (pl031Base + 0x008) 4 1 (writeMMIOVal (zeros 8) 4 5)
      = (True, (newRTC 0)\<lparr>baseTime := uint (5::u32), baseNano := 7\<rparr>, writeMMIOVal (zeros 8) 4 5)"
    unfolding w by (simp add: rtc_handleMMIO_def pl031Base_def pl031Size_def readMMIOVal_def)
  from rtc_keeps_time [OF _ _ this, of 2500000000] show ?thesis by simp
qed

lemma vcpu_exit_reasons_laws:
  "runVCPU_exit r e = StopGuest None \<longleftrightarrow> r = 5 \<or> r = 24 \<and> e = 1"
  "runVCPU_exit r e = StopGuest (Some ErrGuestReset) \<longleftrightarrow> r = 8 \<or> r = 24 \<and> e = 2"
  "runVCPU_exit r e = StopGuest (Some ErrGuestCrash) \<longleftrightarrow> r = 24 \<and> e = 3"
  "runVCPU_exit r e = StopError \<longleftrightarrow> r \<notin> {2, 5, 6, 8, 10, 24}"
  by (auto simp: runVCPU_exit_def guestStopError_def split: if_splits)

text \<open>a vCPU exit stops the machine for the right reason: clean power-off gives no error, reset and
  crash give theirs, an exit the monitor does not know stops it with an error, and only I/O, MMIO, signal
  and unknown system events let the guest go on.\<close>

theorem vcpu_exit_reasons:
  "(runVCPU_exit r e = StopGuest None \<longleftrightarrow> r = 5 \<or> r = 24 \<and> e = 1)
   \<and> (runVCPU_exit r e = StopGuest (Some ErrGuestReset) \<longleftrightarrow> r = 8 \<or> r = 24 \<and> e = 2)
   \<and> (runVCPU_exit r e = StopGuest (Some ErrGuestCrash) \<longleftrightarrow> r = 24 \<and> e = 3)
   \<and> (runVCPU_exit r e = StopError \<longleftrightarrow> r \<notin> {2, 5, 6, 8, 10, 24})"
  by - (rule vcpu_exit_reasons_laws | assumption | rule conjI | rule impI)+

end
