(* ===== verification/IpAlloc.thy ===== *)
theory IpAlloc
  imports GoNet
begin

text \<open>
  Address selection: the container address allocator of \<open>src/pkg/container/net/ip-allocation.go\<close> and
  \<open>addr.go\<close>, and the choice of the IPv6 prefix to mirror, \<open>src/pkg/container/net/renumber/prefix.go\<close>.

  \<open>ipIncrement\<close> works in place on a 16-byte address, so whether its argument is the same array as the
  network's address matters: \<open>shared\<close> says so, and then the network changes with it. \<open>deepCopy\<close> goes
  through JSON, which keeps the mask bytes and turns an IPv4 address into its 16-byte form. The search
  loop takes fuel; the lemmas bound it by the number of addresses in use.
\<close>

section \<open>Incrementing an address\<close>

text \<open>\<open>for j := 16; j >= 0; j--\<close> with \<open>cur = j - 1\<close>; the round \<open>j = 0\<close> indexes with \<open>-1\<close>.\<close>

fun inc_loop :: "nat \<Rightarrow> ip \<Rightarrow> go_panic + ip" where
  "inc_loop 0 i = Inl IndexRange"
| "inc_loop (Suc cur) i =
     (if i ! cur = 255 then inc_loop cur (i[cur := 0]) else Inr (i[cur := i ! cur + 1]))"

datatype alloc_error = ECannotIncrement | EExceedsNetwork | EBitSize | EExhausted | ECopy

text \<open>The result: the new address, the network (whose address may be the same array) and the error.\<close>

definition ipIncrement :: "bool \<Rightarrow> ip \<Rightarrow> IPNet \<Rightarrow> go_panic + ip \<times> IPNet \<times> alloc_error option" where
  "ipIncrement shared i n =
     (case To16 i of
        None \<Rightarrow> Inr ([], n, Some ECannotIncrement)
      | Some i16 \<Rightarrow>
          rbind (inc_loop 16 i16) (\<lambda>i'.
            let n' = (if shared \<and> length i = 16 then n\<lparr>nIP := i'\<rparr> else n)
            in Inr (i', n', if Contains n' i' then None else Some EExceedsNetwork)))"

text \<open>\<open>lastIP\<close> indexes the first 4 (or 16) bytes of the network's address.\<close>

definition lastIP :: "IPNet \<Rightarrow> go_panic + ip" where
  "lastIP n =
     (let sz = (if To4 (nIP n) \<noteq> None then 4 else 16)
      in if length (nIP n) < sz \<or> length (nMask n) < sz then Inl IndexRange
         else Inr (map (\<lambda>i. (nIP n ! i AND nMask n ! i) OR (nMask n ! i XOR 0xff)) [0..<sz]))"

section \<open>Allocating an address\<close>

definition deepCopy :: "IPNet \<Rightarrow> IPNet option" where
  "deepCopy x =
     (if nIP x = [] then Some x
      else case To16 (nIP x) of None \<Rightarrow> None | Some i \<Rightarrow> Some (x\<lparr>nIP := i\<rparr>))"

text \<open>A container as the allocator sees it: its status and its interfaces with their addresses
  (\<open>None\<close> when the network record does not decode).\<close>

record cont_net =
  cStatus :: string
  cLinks :: "(string \<times> ip list) list option"

definition cont_uses :: "cont_net \<Rightarrow> ip \<Rightarrow> bool" where
  "cont_uses c ip =
     (if has_prefix ''exit'' (cStatus c) \<or> has_prefix ''err'' (cStatus c) then False
      else case cLinks c of
          None \<Rightarrow> False
        | Some ls \<Rightarrow> list_ex (\<lambda>(iface, as). iface \<noteq> ''lo'' \<and> list_ex (\<lambda>a. ip_Equal a ip) as) ls)"

definition addrInUse :: "ip list \<Rightarrow> cont_net list \<Rightarrow> ip \<Rightarrow> bool" where
  "addrInUse hosts conts ip \<longleftrightarrow>
     list_ex (\<lambda>h. ip_Equal ip h) hosts \<or> list_ex (\<lambda>c. cont_uses c ip) conts"

fun alloc_loop ::
  "nat \<Rightarrow> ip list \<Rightarrow> cont_net list \<Rightarrow> bool \<Rightarrow> ip \<Rightarrow> IPNet \<Rightarrow> (go_panic + alloc_error + ip) option" where
  "alloc_loop 0 hosts conts bcast ip n = None"
| "alloc_loop (Suc fuel) hosts conts bcast ip n =
     (if \<not> addrInUse hosts conts ip then
        (if To4 ip \<noteq> None \<and> bcast then
           (case lastIP n of
              Inl p \<Rightarrow> Some (Inl p)
            | Inr l \<Rightarrow> Some (Inr (if ip_Equal ip l then Inl EExhausted else Inr ip)))
         else Some (Inr (Inr ip)))
      else case ipIncrement True ip n of
          Inl p \<Rightarrow> Some (Inl p)
        | Inr (ip', n', Some e) \<Rightarrow> Some (Inr (Inl e))
        | Inr (ip', n', None) \<Rightarrow> alloc_loop fuel hosts conts bcast ip' n')"

definition IPRequest :: "nat \<Rightarrow> ip list \<Rightarrow> cont_net list \<Rightarrow> IPNet \<Rightarrow> (go_panic + alloc_error + ip) option" where
  "IPRequest fuel hosts conts x =
     (case deepCopy x of
        None \<Rightarrow> Some (Inr (Inl ECopy))
      | Some n \<Rightarrow>
          (let (cidr, bits) = mask_Size (nMask n)
           in if bits = 128 \<and> cidr \<le> 120 \<or> bits = 32 \<and> cidr \<le> 24 then
                (case ipIncrement True (nIP n) n of
                   Inl p \<Rightarrow> Some (Inl p)
                 | Inr (ip, n', Some e) \<Rightarrow> Some (Inr (Inl e))
                 | Inr (ip, n', None) \<Rightarrow> alloc_loop fuel hosts conts (bits = 32) ip n')
              else if bits = 128 \<or> bits = 32 then alloc_loop fuel hosts conts False (nIP n) n
              else Some (Inr (Inl EBitSize))))"

section \<open>Global addresses\<close>

record Addr =
  aIP :: ip
  aNet :: IPNet

definition ll_net :: IPNet where
  "ll_net = \<lparr>nIP = [0xfe, 0x80] @ zeros 14, nMask = [0xff, 0xc0] @ zeros 14\<rparr>"

definition ula_net :: IPNet where
  "ula_net = \<lparr>nIP = [0xfc, 0x00] @ zeros 14, nMask = [0xfe, 0x00] @ zeros 14\<rparr>"

definition isLinkLocal :: "ip \<Rightarrow> bool" where "isLinkLocal ip = Contains ll_net ip"
definition isULA :: "ip \<Rightarrow> bool" where "isULA ip = Contains ula_net ip"

definition isGlobal :: "ip \<Rightarrow> bool" where
  "isGlobal ip \<longleftrightarrow> To4 ip = None \<and> \<not> isLinkLocal ip \<and> \<not> isULA ip"

definition pickGlobal :: "Addr list \<Rightarrow> Addr option" where
  "pickGlobal a = find (\<lambda>x. \<not> (To4 (aIP x) \<noteq> None) \<and> \<not> (isLinkLocal (aIP x) \<or> isULA (aIP x))) a"

text \<open>An address that is neither 4 nor 16 bytes long makes \<open>To16\<close> return \<open>nil\<close>, and slicing \<open>nil\<close> panics.\<close>

definition pickIID :: "Addr list \<Rightarrow> go_panic + bytes option" where
  "pickIID a =
     (case pickGlobal a of
        None \<Rightarrow> Inr None
      | Some g \<Rightarrow>
          (case To16 (aIP g) of None \<Rightarrow> Inl SliceBounds | Some ip \<Rightarrow> Inr (Some (slice ip 8 16))))"

definition ReplaceGlobals :: "Addr list \<Rightarrow> (ip \<Rightarrow> bool) \<Rightarrow> IPNet list \<Rightarrow> Addr list" where
  "ReplaceGlobals a owned want =
     filter (\<lambda>e. \<not> (To4 (aIP e) = None \<and> \<not> isLinkLocal (aIP e) \<and> \<not> isULA (aIP e) \<and> owned (aIP e))) a
     @ map (\<lambda>w. \<lparr>aIP = nIP w, aNet = \<lparr>nIP = nIP w, nMask = nMask w\<rparr>\<rparr>) want"

section \<open>The prefix to mirror\<close>

text \<open>\<open>ValidUntil\<close> is a point in time, an integer here.\<close>

record Candidate =
  Prefix :: "IPNet option"
  ValidUntil :: int

definition iidEqual :: "ip \<Rightarrow> ip \<Rightarrow> bool" where
  "iidEqual a b =
     (case (To16 a, To16 b) of (Some a16, Some b16) \<Rightarrow> drop 8 a16 = drop 8 b16 | _ \<Rightarrow> False)"

definition cidrEqual :: "IPNet \<Rightarrow> IPNet \<Rightarrow> bool" where
  "cidrEqual a b \<longleftrightarrow> ip_Equal (nIP a) (nIP b) \<and> fst (mask_Size (nMask a)) = fst (mask_Size (nMask b))"

fun bytes_first_diff :: "bytes \<Rightarrow> bytes \<Rightarrow> bool option" where
  "bytes_first_diff (x # xs) (y # ys) = (if x \<noteq> y then Some (x < y) else bytes_first_diff xs ys)"
| "bytes_first_diff _ _ = None"

definition cidrLess :: "IPNet \<Rightarrow> IPNet \<Rightarrow> bool" where
  "cidrLess a b =
     (case bytes_first_diff (nIP a) (nIP b) of
        Some r \<Rightarrow> r
      | None \<Rightarrow> fst (mask_Size (nMask a)) < fst (mask_Size (nMask b)))"

definition better :: "Candidate \<Rightarrow> Candidate \<Rightarrow> bool" where
  "better c best \<longleftrightarrow> ValidUntil best < ValidUntil c
     \<or> ValidUntil c = ValidUntil best \<and> cidrLess (the (Prefix c)) (the (Prefix best))"

definition select_globals :: "Candidate list \<Rightarrow> Candidate list" where
  "select_globals cands =
     filter (\<lambda>c. case Prefix c of None \<Rightarrow> False | Some p \<Rightarrow> \<not> (isLinkLocal (nIP p) \<or> isULA (nIP p))) cands"

definition Select :: "Candidate list \<Rightarrow> IPNet option \<Rightarrow> IPNet option" where
  "Select cands current =
     (case select_globals cands of
        [] \<Rightarrow> None
      | g # gs \<Rightarrow>
          (case (case current of None \<Rightarrow> None
                 | Some cur \<Rightarrow> find (\<lambda>c. cidrEqual (the (Prefix c)) cur) (g # gs)) of
             Some c \<Rightarrow> Prefix c
           | None \<Rightarrow> Prefix (foldl (\<lambda>best c. if better c best then c else best) g gs)))"

text \<open>A route as the kernel reports it.\<close>

record Route =
  rDst :: "IPNet option"
  rGw :: "ip option"
  rProtocol :: nat

definition routeCandidates :: "Route list \<Rightarrow> int \<Rightarrow> Candidate list" where
  "routeCandidates routes until =
     List.map_filter (\<lambda>r.
       case rDst r of
         None \<Rightarrow> None
       | Some d \<Rightarrow>
           if rGw r \<noteq> None \<or> rProtocol r \<noteq> 2 \<or> mask_Size (nMask d) \<noteq> (64, 128) \<or> \<not> isGlobal (nIP d) then None
           else Some \<lparr>Prefix = Some \<lparr>nIP = (case ip_Mask (nIP d) (nMask d) of None \<Rightarrow> [] | Some i \<Rightarrow> i),
                        nMask = nMask d\<rparr>, ValidUntil = until\<rparr>) routes"

section \<open>Addresses as numbers\<close>

fun ip_val :: "bytes \<Rightarrow> nat" where
  "ip_val [] = 0"
| "ip_val (b # bs) = unat b * 256 ^ length bs + ip_val bs"

lemma ip_val_append: "ip_val (a @ b) = ip_val a * 256 ^ length b + ip_val b"
  by (induction a) (simp_all add: power_add algebra_simps)

lemma ip_val_less: "ip_val bs < 256 ^ length bs"
proof (induction bs)
  case (Cons b bs)
  have "unat b \<le> 255" using unsigned_less [of b, where 'a = nat] by simp
  then have "unat b * 256 ^ length bs \<le> 255 * 256 ^ length bs" by (rule mult_le_mono1)
  with Cons have "unat b * 256 ^ length bs + ip_val bs < 255 * 256 ^ length bs + 256 ^ length bs" by linarith
  then show ?case by simp
qed simp

lemma ip_val_inj: "length a = length b \<Longrightarrow> ip_val a = ip_val b \<Longrightarrow> a = b"
proof (induction a b rule: list_induct2)
  case (Cons x xs y ys)
  let ?B = "256 ^ length xs :: nat"
  have l: "ip_val xs < ?B" "ip_val ys < ?B" using ip_val_less [of xs] ip_val_less [of ys] Cons.hyps by simp_all
  have e: "unat x * ?B + ip_val xs = unat y * ?B + ip_val ys" using Cons.prems Cons.hyps by simp
  have "unat x = unat y"
    using arg_cong [OF e, of "\<lambda>v. v div ?B"] l by simp
  with e have "ip_val xs = ip_val ys" by simp
  with \<open>unat x = unat y\<close> Cons.IH show ?case by (simp add: word_unat_eq_iff)
qed simp

lemma inc_loop_split:
  "length p = c \<Longrightarrow> inc_loop c (p @ s) =
     (if list_all (\<lambda>b. b = 255) p then Inl IndexRange
      else rbind (inc_loop c p) (\<lambda>p'. Inr (p' @ s)))"
proof (induction c arbitrary: p s)
  case (Suc c)
  then obtain q b where p: "p = q @ [b]" "length q = c"
    by (metis append_butlast_last_id length_append_singleton length_0_conv nat.simps(3) old.nat.inject)
  show ?case
  proof (cases "b = 255")
    case True
    have "inc_loop c (q @ 0 # s) = (if list_all (\<lambda>b. b = 255) q then Inl IndexRange
        else rbind (inc_loop c q) (\<lambda>q'. Inr (q' @ 0 # s)))" by (rule Suc.IH [OF p(2)])
    moreover have "inc_loop c (q @ [0]) = (if list_all (\<lambda>b. b = 255) q then Inl IndexRange
        else rbind (inc_loop c q) (\<lambda>q'. Inr (q' @ [0])))" by (rule Suc.IH [OF p(2)])
    ultimately show ?thesis
      using True p by (cases "inc_loop c q") (auto simp: nth_append list_update_append)
  next
    case False
    with p show ?thesis by (auto simp: nth_append list_update_append)
  qed
qed simp

lemma inc_loop_val:
  "length p = c \<Longrightarrow> \<not> list_all (\<lambda>b. b = 255) p \<Longrightarrow>
     \<exists>p'. inc_loop c p = Inr p' \<and> length p' = c \<and> ip_val p' = ip_val p + 1"
proof (induction c arbitrary: p)
  case (Suc c)
  then obtain q b where p: "p = q @ [b]" "length q = c"
    by (metis append_butlast_last_id length_append_singleton length_0_conv nat.simps(3) old.nat.inject)
  show ?case
  proof (cases "b = 255")
    case True
    with Suc.prems p have nq: "\<not> list_all (\<lambda>b. b = 255) q" by simp
    from Suc.IH [OF p(2) nq] obtain q' where q': "inc_loop c q = Inr q'" "length q' = c" "ip_val q' = ip_val q + 1"
      by blast
    have "inc_loop c (q @ [0]) = Inr (q' @ [0])" using inc_loop_split [OF p(2), of "[0]"] nq q' by simp
    with True p q' show ?thesis by (simp add: nth_append list_update_append ip_val_append)
  next
    case False
    have "unat b \<noteq> 255" using False by (simp add: word_unat_eq_iff)
    then have "unat b < 255" using unsigned_less [of b, where 'a = nat] by simp
    then have "unat (b + 1) = unat b + 1" by (simp add: unat_word_ariths)
    with False p show ?thesis by (simp add: nth_append list_update_append ip_val_append)
  qed
qed simp

lemma inc_loop_ones: "length p = c \<Longrightarrow> list_all (\<lambda>b. b = 255) p \<Longrightarrow> inc_loop c p = Inl IndexRange"
  using inc_loop_split [of p c "[]"] by simp

section \<open>The search loop\<close>

definition used_ips :: "ip list \<Rightarrow> cont_net list \<Rightarrow> ip list" where
  "used_ips hosts conts = hosts @ concat (map (\<lambda>c. case cLinks c of None \<Rightarrow> [] | Some ls \<Rightarrow> concat (map snd ls)) conts)"

definition used_vals :: "ip list \<Rightarrow> cont_net list \<Rightarrow> nat set" where
  "used_vals hosts conts = ip_val ` {a. \<exists>u \<in> set (used_ips hosts conts). To16 u = Some a}"

lemma addrInUse_used:
  assumes "addrInUse hosts conts ip"
  shows "\<exists>u \<in> set (used_ips hosts conts). ip_Equal ip u"
proof -
  consider h where "h \<in> set hosts" "ip_Equal ip h"
    | c where "c \<in> set conts" "cont_uses c ip"
    using assms by (auto simp: addrInUse_def list_ex_iff)
  then show ?thesis
  proof cases
    case 1
    then show ?thesis by (auto simp: used_ips_def)
  next
    case (2 c)
    then obtain ls iface as a where "cLinks c = Some ls" "(iface, as) \<in> set ls" "a \<in> set as" "ip_Equal a ip"
      by (auto simp: cont_uses_def list_ex_iff split: if_splits option.splits)
    with 2(1) show ?thesis
      by (force simp: used_ips_def ip_Equal_sym [of a])
  qed
qed

lemma addrInUse_val:
  assumes "addrInUse hosts conts ip" "length ip = 16"
  shows "ip_val ip \<in> used_vals hosts conts"
proof -
  from addrInUse_used [OF assms(1)] obtain u where u: "u \<in> set (used_ips hosts conts)" "ip_Equal ip u" by blast
  with assms(2) obtain u' where u': "To16 u = Some u'"
    by (cases "To16 u") (auto simp: ip_Equal_def To16_def split: if_splits)
  with u ip_Equal_To16 [of ip ip u u'] assms(2) show ?thesis by (auto simp: used_vals_def)
qed

lemma finite_used_vals: "finite (used_vals hosts conts)"
  and card_used_vals: "card (used_vals hosts conts) \<le> length (used_ips hosts conts)"
proof -
  let ?A = "{a. \<exists>u \<in> set (used_ips hosts conts). To16 u = Some a}"
  have s: "?A \<subseteq> (\<lambda>u. the (To16 u)) ` set (used_ips hosts conts)" by force
  then have f: "finite ?A" by (rule finite_subset) simp
  then show "finite (used_vals hosts conts)" by (simp add: used_vals_def)
  have "card (used_vals hosts conts) \<le> card ?A" unfolding used_vals_def by (rule card_image_le [OF f])
  also have "\<dots> \<le> card ((\<lambda>u. the (To16 u)) ` set (used_ips hosts conts))" by (rule card_mono [OF _ s]) simp
  also have "\<dots> \<le> length (used_ips hosts conts)"
    by (metis card_image_le card_length finite_set order.trans)
  finally show "card (used_vals hosts conts) \<le> length (used_ips hosts conts)" .
qed

definition above :: "nat set \<Rightarrow> nat \<Rightarrow> nat" where
  "above V k = card {v \<in> V. k \<le> v}"

lemma above_Suc: "finite V \<Longrightarrow> k \<in> V \<Longrightarrow> above V k = Suc (above V (Suc k))"
proof -
  assume V: "finite V" "k \<in> V"
  then have "{v \<in> V. k \<le> v} = insert k {v \<in> V. Suc k \<le> v}" by auto
  with V show ?thesis by (simp add: above_def)
qed

lemma above_le: "finite V \<Longrightarrow> above V k \<le> card V"
  unfolding above_def by (rule card_mono) auto

lemma ipIncrement_cases:
  assumes "length ip = 16" "nIP n = ip"
  shows "ipIncrement True ip n = Inl IndexRange
    \<or> (\<exists>ip' e. ipIncrement True ip n = Inr (ip', n\<lparr>nIP := ip'\<rparr>, e) \<and> length ip' = 16 \<and> ip_val ip' = ip_val ip + 1)"
proof (cases "list_all (\<lambda>b. b = 255) ip")
  case True
  with assms inc_loop_ones [of ip 16] show ?thesis by (simp add: ipIncrement_def)
next
  case False
  with assms inc_loop_val [of ip 16] obtain ip' where "inc_loop 16 ip = Inr ip'" "length ip' = 16" "ip_val ip' = ip_val ip + 1"
    by blast
  with assms show ?thesis by (simp add: ipIncrement_def Let_def del: inc_loop.simps)
qed

lemma alloc_loop_spec:
  assumes "length ip = 16" "nIP n = ip" "above (used_vals hosts conts) (ip_val ip) < fuel"
  shows "\<exists>r. alloc_loop fuel hosts conts bc ip n = Some r
    \<and> (\<forall>a. r = Inr (Inr a) \<longrightarrow> length a = 16 \<and> \<not> addrInUse hosts conts a \<and> ip_val ip \<le> ip_val a
        \<and> (\<forall>k. ip_val ip \<le> k \<and> k < ip_val a \<longrightarrow> (\<exists>b. length b = 16 \<and> ip_val b = k \<and> addrInUse hosts conts b)))"
  using assms
proof (induction fuel arbitrary: ip n)
  case (Suc fuel)
  show ?case
  proof (cases "addrInUse hosts conts ip")
    case False
    with Suc.prems show ?thesis by (auto split: sum.split)
  next
    case True
    note v = addrInUse_val [OF True Suc.prems(1)]
    have ab: "above (used_vals hosts conts) (ip_val ip + 1) < fuel"
      using above_Suc [OF finite_used_vals v] Suc.prems(3) by simp
    from ipIncrement_cases [OF Suc.prems(1,2)] show ?thesis
    proof
      assume "ipIncrement True ip n = Inl IndexRange"
      with True show ?thesis by simp
    next
      assume "\<exists>ip' e. ipIncrement True ip n = Inr (ip', n\<lparr>nIP := ip'\<rparr>, e) \<and> length ip' = 16 \<and> ip_val ip' = ip_val ip + 1"
      then obtain ip' e where i: "ipIncrement True ip n = Inr (ip', n\<lparr>nIP := ip'\<rparr>, e)" "length ip' = 16"
        "ip_val ip' = ip_val ip + 1" by blast
      show ?thesis
      proof (cases e)
        case (Some x)
        with True i show ?thesis by simp
      next
        case None
        from Suc.IH [of ip' "n\<lparr>nIP := ip'\<rparr>"] i ab obtain r where
          r: "alloc_loop fuel hosts conts bc ip' (n\<lparr>nIP := ip'\<rparr>) = Some r"
          "\<And>a. r = Inr (Inr a) \<Longrightarrow> length a = 16 \<and> \<not> addrInUse hosts conts a \<and> ip_val ip' \<le> ip_val a
            \<and> (\<forall>k. ip_val ip' \<le> k \<and> k < ip_val a \<longrightarrow> (\<exists>b. length b = 16 \<and> ip_val b = k \<and> addrInUse hosts conts b))"
          by auto
        have "\<exists>b. length b = 16 \<and> ip_val b = k \<and> addrInUse hosts conts b"
          if "r = Inr (Inr a)" "ip_val ip \<le> k" "k < ip_val a" for a k
          using r(2) [OF that(1)] that i(3) True Suc.prems(1)
          by (cases "k = ip_val ip") (blast, metis Suc_eq_plus1 le_neq_implies_less Suc_leI)
        with True i None r show ?thesis by (auto simp: i(3) dest!: r(2))
      qed
    qed
  qed
qed simp

section \<open>Properties\<close>

lemma alloc_loop_nil: "\<exists>r. alloc_loop (Suc fuel) hosts conts bc [] n = Some r"
  by (simp add: ipIncrement_def To16_def To4_def)

lemma deepCopy_len: "deepCopy x = Some n \<Longrightarrow> nIP n = [] \<or> length (nIP n) = 16"
  by (auto simp: deepCopy_def To16_length split: if_splits option.splits)

definition fuel_for :: "ip list \<Rightarrow> cont_net list \<Rightarrow> nat" where
  "fuel_for hosts conts = Suc (length (used_ips hosts conts))"

lemma fuel_enough: "above (used_vals hosts conts) k < fuel_for hosts conts"
  using above_le [OF finite_used_vals, of hosts conts k] card_used_vals [of hosts conts]
  by (simp add: fuel_for_def)

text \<open>Where the search starts: one above the network's address unless the network is small.\<close>

definition alloc_start :: "IPNet \<Rightarrow> nat \<Rightarrow> nat" where
  "alloc_start x base =
     (let (cidr, bits) = mask_Size (nMask x)
      in if bits = 128 \<and> cidr \<le> 120 \<or> bits = 32 \<and> cidr \<le> 24 then base + 1 else base)"

lemma ip_alloc_first_free_laws:
  "\<exists>r. IPRequest (fuel_for hosts conts) hosts conts x = Some r"
  "To16 (nIP x) = Some i \<Longrightarrow> IPRequest (fuel_for hosts conts) hosts conts x = Some (Inr (Inr a)) \<Longrightarrow>
     length a = 16 \<and> \<not> addrInUse hosts conts a \<and> alloc_start x (ip_val i) \<le> ip_val a
     \<and> (\<forall>f. length f = 16 \<and> alloc_start x (ip_val i) \<le> ip_val f \<and> \<not> addrInUse hosts conts f \<longrightarrow> ip_val a \<le> ip_val f)"
proof -
  have loop: "\<exists>r. alloc_loop (fuel_for hosts conts) hosts conts bc ip n = Some r
      \<and> (\<forall>a. r = Inr (Inr a) \<longrightarrow> length a = 16 \<and> \<not> addrInUse hosts conts a \<and> ip_val ip \<le> ip_val a
         \<and> (\<forall>f. length f = 16 \<and> ip_val ip \<le> ip_val f \<and> \<not> addrInUse hosts conts f \<longrightarrow> ip_val a \<le> ip_val f))"
    if l: "length ip = 16" "nIP n = ip" for bc ip n
  proof -
    obtain r where r: "alloc_loop (fuel_for hosts conts) hosts conts bc ip n = Some r"
      "\<And>a. r = Inr (Inr a) \<Longrightarrow> length a = 16 \<and> \<not> addrInUse hosts conts a \<and> ip_val ip \<le> ip_val a
        \<and> (\<forall>k. ip_val ip \<le> k \<and> k < ip_val a \<longrightarrow> (\<exists>b. length b = 16 \<and> ip_val b = k \<and> addrInUse hosts conts b))"
      using alloc_loop_spec [OF l fuel_enough, of hosts conts bc] by blast
    have "ip_val a \<le> ip_val f" if "r = Inr (Inr a)" "length f = 16" "ip_val ip \<le> ip_val f" "\<not> addrInUse hosts conts f" for a f
      using r(2) [OF that(1)] that ip_val_inj [of _ f] by (metis linorder_not_le)
    with r show ?thesis by blast
  qed
  then have ret: "\<exists>r. alloc_loop (fuel_for hosts conts) hosts conts bc ip n = Some r"
    if "length ip = 16" "nIP n = ip" for bc ip n using that by blast
  have nil: "\<exists>r. alloc_loop (fuel_for hosts conts) hosts conts bc [] n = Some r" for bc n
    using alloc_loop_nil [of "length (used_ips hosts conts)"] by (simp add: fuel_for_def del: alloc_loop.simps)
  show "\<exists>r. IPRequest (fuel_for hosts conts) hosts conts x = Some r"
  proof (cases "deepCopy x")
    case (Some n)
    from deepCopy_len [OF Some] show ?thesis
    proof
      assume "nIP n = []"
      with Some nil show ?thesis by (auto simp: IPRequest_def ipIncrement_def To16_def split: prod.split)
    next
      assume l: "length (nIP n) = 16"
      from ipIncrement_cases [OF l refl] show ?thesis
      proof
        assume "ipIncrement True (nIP n) n = Inl IndexRange"
        with Some ret [OF l refl] show ?thesis by (auto simp: IPRequest_def split: prod.split)
      next
        assume "\<exists>ip' e. ipIncrement True (nIP n) n = Inr (ip', n\<lparr>nIP := ip'\<rparr>, e) \<and> length ip' = 16 \<and> ip_val ip' = ip_val (nIP n) + 1"
        then obtain ip' e where "ipIncrement True (nIP n) n = Inr (ip', n\<lparr>nIP := ip'\<rparr>, e)" "length ip' = 16" by blast
        with Some ret [OF l refl] ret [of ip' "n\<lparr>nIP := ip'\<rparr>"] show ?thesis
          by (cases e) (auto simp: IPRequest_def split: prod.split)
      qed
    qed
  qed (simp add: IPRequest_def)
  assume i: "To16 (nIP x) = Some i" and r: "IPRequest (fuel_for hosts conts) hosts conts x = Some (Inr (Inr a))"
  let ?n = "x\<lparr>nIP := i\<rparr>"
  have dc: "deepCopy x = Some ?n" using i by (auto simp: deepCopy_def To16_def)
  have l: "length (nIP ?n) = 16" using To16_length [OF i] by simp
  obtain cidr bits where m: "mask_Size (nMask x) = (cidr, bits)" by (cases "mask_Size (nMask x)")
  show "length a = 16 \<and> \<not> addrInUse hosts conts a \<and> alloc_start x (ip_val i) \<le> ip_val a
     \<and> (\<forall>f. length f = 16 \<and> alloc_start x (ip_val i) \<le> ip_val f \<and> \<not> addrInUse hosts conts f \<longrightarrow> ip_val a \<le> ip_val f)"
  proof (cases "bits = 128 \<and> cidr \<le> 120 \<or> bits = 32 \<and> cidr \<le> 24")
    case True
    with r dc m obtain ip' n' where inc: "ipIncrement True i ?n = Inr (ip', n', None)"
      and al: "alloc_loop (fuel_for hosts conts) hosts conts (bits = 32) ip' n' = Some (Inr (Inr a))"
      by (auto simp: IPRequest_def split: sum.splits prod.splits option.splits)
    with ipIncrement_cases [OF l refl] have "length ip' = 16" "ip_val ip' = ip_val i + 1" "nIP n' = ip'" by auto
    with loop [of ip' n' "bits = 32"] al True m show ?thesis by (auto simp: alloc_start_def)
  next
    case False
    with r dc m have "alloc_loop (fuel_for hosts conts) hosts conts False i ?n = Some (Inr (Inr a))"
      by (auto simp: IPRequest_def split: if_splits)
    with loop [OF l refl, of False] False m show ?thesis by (auto simp: alloc_start_def)
  qed
qed

text \<open>C9: the allocator always answers, and never hands out an address twice. One more round than there
  are addresses in use is enough for the search to end; an address it returns is used neither by the host
  nor by a live container, and it is the smallest such address at or after the start of the search.\<close>

theorem ip_alloc_first_free:
  "(\<exists>r. IPRequest (fuel_for hosts conts) hosts conts x = Some r)
   \<and> (To16 (nIP x) = Some i \<longrightarrow> IPRequest (fuel_for hosts conts) hosts conts x = Some (Inr (Inr a)) \<longrightarrow>
     length a = 16 \<and> \<not> addrInUse hosts conts a \<and> alloc_start x (ip_val i) \<le> ip_val a
     \<and> (\<forall>f. length f = 16 \<and> alloc_start x (ip_val i) \<le> ip_val f \<and> \<not> addrInUse hosts conts f \<longrightarrow> ip_val a \<le> ip_val f))"
  by - (rule ip_alloc_first_free_laws | assumption | rule conjI | rule impI)+

definition v4 :: "byte \<Rightarrow> byte \<Rightarrow> byte \<Rightarrow> byte \<Rightarrow> ip" where
  "v4 a b c d = v4InV6Prefix @ [a, b, c, d]"

theorem ip_alloc_first_free_witness:
  "IPRequest (fuel_for [[10, 0, 0, 1]] []) [[10, 0, 0, 1]] [] \<lparr>nIP = [10, 0, 0, 0], nMask = [255, 255, 255, 0]\<rparr>
     = Some (Inr (Inr (v4 10 0 0 2))) \<and> \<not> addrInUse [[10, 0, 0, 1]] [] (v4 10 0 0 2)"
proof -
  have r: "IPRequest (fuel_for [[10, 0, 0, 1]] []) [[10, 0, 0, 1]] [] \<lparr>nIP = [10, 0, 0, 0], nMask = [255, 255, 255, 0]\<rparr>
     = Some (Inr (Inr (v4 10 0 0 2)))" by code_simp
  show ?thesis using ip_alloc_first_free [THEN conjunct2, rule_format, OF _ r, of "v4 10 0 0 0"] r by (simp add: To16_def v4_def)
qed

lemma ip_increment_value_laws:
  assumes "length i = 16"
  shows "ip_val i + 1 < 256 ^ 16 \<Longrightarrow> \<exists>i'. inc_loop 16 i = Inr i' \<and> length i' = 16 \<and> ip_val i' = ip_val i + 1"
    and "i = replicate 16 255 \<Longrightarrow> ipIncrement shared i n = Inl IndexRange"
proof -
  show "\<exists>i'. inc_loop 16 i = Inr i' \<and> length i' = 16 \<and> ip_val i' = ip_val i + 1" if h: "ip_val i + 1 < 256 ^ 16"
  proof (rule inc_loop_val [OF assms])
    have o1: "ip_val (replicate k 255) + 1 = 256 ^ k" for k
      by (induction k) simp_all
    show "\<not> list_all (\<lambda>b. b = 255) i"
    proof
      assume "list_all (\<lambda>b. b = 255) i"
      then have "i = replicate (length i) 255" by (induction i) auto
      then have "ip_val i + 1 = 256 ^ length i" using o1 by metis
      with h assms show False by simp
    qed
  qed
  show "ipIncrement shared i n = Inl IndexRange" if "i = replicate 16 255"
  proof -
    have "list_all (\<lambda>b. b = 255) i" by (simp add: that list_all_iff)
    from inc_loop_ones [OF assms this] show ?thesis using assms by (simp add: ipIncrement_def)
  qed
qed

text \<open>incrementing. The 16-byte address grows by one as a number, with carries; the all-ones address
  makes the loop index the slice with -1.\<close>

theorem ip_increment_value:
  assumes "length i = 16"
  shows "(ip_val i + 1 < 256 ^ 16 \<longrightarrow> (\<exists>i'. inc_loop 16 i = Inr i' \<and> length i' = 16 \<and> ip_val i' = ip_val i + 1))
   \<and> (i = replicate 16 255 \<longrightarrow> ipIncrement shared i n = Inl IndexRange)"
  using assms by - (rule ip_increment_value_laws | assumption | rule conjI | rule impI)+

theorem ip_increment_value_witness:
  "\<exists>i'. inc_loop 16 (v4 10 0 0 255) = Inr i' \<and> length i' = 16 \<and> ip_val i' = ip_val (v4 10 0 0 255) + 1"
proof (rule ip_increment_value [THEN conjunct1, rule_format])
  have "ip_val (zeros k) = 0" for k by (induction k) simp_all
  then show "ip_val (v4 10 0 0 255) + 1 < 256 ^ 16"
    by (simp add: v4_def v4InV6Prefix_def ip_val_append)
qed (simp add: v4_def)

text \<open>The order of the tie-break: addresses as numbers, then prefix lengths.\<close>

definition prefix_le :: "IPNet \<Rightarrow> IPNet \<Rightarrow> bool" where
  "prefix_le a b \<longleftrightarrow> ip_val (nIP a) < ip_val (nIP b)
     \<or> ip_val (nIP a) = ip_val (nIP b) \<and> fst (mask_Size (nMask a)) \<le> fst (mask_Size (nMask b))"

lemma first_diff_val:
  "length xs = length ys \<Longrightarrow>
     (case bytes_first_diff xs ys of None \<Rightarrow> xs = ys | Some r \<Rightarrow> ip_val xs \<noteq> ip_val ys \<and> (r \<longleftrightarrow> ip_val xs < ip_val ys))"
proof (induction xs ys rule: list_induct2)
  case (Cons x xs y ys)
  let ?B = "256 ^ length ys :: nat"
  have lt: "ip_val (a # as) < ip_val (b # bs)" if "a < b" "length as = length bs" for a b :: byte and as bs
  proof -
    have "unat a + 1 \<le> unat b" using that(1) by (simp add: word_less_nat_alt)
    then have "(unat a + 1) * 256 ^ length bs \<le> unat b * 256 ^ length bs" by (rule mult_le_mono1)
    then show ?thesis using ip_val_less [of as] that(2) by simp
  qed
  show ?case
  proof (cases "x = y")
    case True
    then show ?thesis using Cons by (auto split: option.splits)
  next
    case False
    then consider "x < y" | "y < x" by fastforce
    then show ?thesis
    proof cases
      case 1
      then show ?thesis using lt [OF 1 Cons.hyps] False by (simp del: ip_val.simps)
    next
      case 2
      then show ?thesis using lt [OF 2 Cons.hyps [symmetric]] False by (simp del: ip_val.simps)
    qed
  qed
qed simp

lemma cidrLess_prefix_le: "length (nIP a) = length (nIP b) \<Longrightarrow> cidrLess a b \<longleftrightarrow> \<not> prefix_le b a"
  using first_diff_val [of "nIP a" "nIP b"] by (auto simp: cidrLess_def prefix_le_def split: option.splits)

lemma prefix_le_trans: "prefix_le a b \<Longrightarrow> prefix_le b c \<Longrightarrow> prefix_le a c"
  by (auto simp: prefix_le_def)

lemma prefix_le_linear: "prefix_le a b \<or> prefix_le b a"
  by (auto simp: prefix_le_def)

text \<open>What \<open>Select\<close> looks for: a longest-lived candidate, and of those the first in the order.\<close>

definition long_lived :: "Candidate set \<Rightarrow> Candidate \<Rightarrow> bool" where
  "long_lived cs c \<longleftrightarrow> c \<in> cs \<and> (\<forall>d \<in> cs. ValidUntil d \<le> ValidUntil c)"

definition same_length :: "Candidate set \<Rightarrow> bool" where
  "same_length cs \<longleftrightarrow> (\<forall>c \<in> cs. \<forall>d \<in> cs. length (nIP (the (Prefix c))) = length (nIP (the (Prefix d))))"

definition first_of_ties :: "Candidate set \<Rightarrow> Candidate \<Rightarrow> bool" where
  "first_of_ties cs c \<longleftrightarrow> (\<forall>d \<in> cs. ValidUntil d = ValidUntil c \<longrightarrow> prefix_le (the (Prefix c)) (the (Prefix d)))"

lemma select_fold_best:
  "\<exists>c. foldl (\<lambda>best c. if better c best then c else best) g gs = c \<and> long_lived (insert g (set gs)) c
     \<and> (same_length (insert g (set gs)) \<longrightarrow> first_of_ties (insert g (set gs)) c)"
proof (induction gs arbitrary: g)
  case Nil
  then show ?case using prefix_le_linear by (auto simp: long_lived_def first_of_ties_def)
next
  case (Cons x gs)
  let ?g = "if better x g then x else g"
  let ?S = "insert ?g (set gs)" and ?T = "insert g (set (x # gs))"
  obtain c where c: "foldl (\<lambda>best c. if better c best then c else best) ?g gs = c" "long_lived ?S c"
    "same_length ?S \<longrightarrow> first_of_ties ?S c" using Cons.IH [of ?g] by blast
  have m: "ValidUntil x \<le> ValidUntil ?g" "ValidUntil g \<le> ValidUntil ?g" by (auto simp: better_def)
  have g: "ValidUntil ?g \<le> ValidUntil c" using c(2) by (auto simp: long_lived_def)
  have sub: "?S \<subseteq> ?T" by auto
  have "ValidUntil x \<le> ValidUntil c" "ValidUntil g \<le> ValidUntil c" using m g by (meson order_trans)+
  then have "\<forall>d \<in> ?T. ValidUntil d \<le> ValidUntil c" using c(2) by (auto simp: long_lived_def)
  moreover have "c \<in> ?T" using c(2) sub unfolding long_lived_def by blast
  ultimately have "long_lived ?T c" unfolding long_lived_def by blast
  moreover have "first_of_ties ?T c" if l: "same_length ?T"
  proof -
    have "same_length ?S" using l sub unfolding same_length_def by (meson subsetD)
    with c(3) have f: "first_of_ties ?S c" by blast
    have tie: "prefix_le (the (Prefix ?g)) (the (Prefix d))" if "d \<in> {x, g}" "ValidUntil d = ValidUntil ?g" for d
    proof -
      have "length (nIP (the (Prefix x))) = length (nIP (the (Prefix g)))"
        using l unfolding same_length_def by (meson insertI1 insertI2 list.set_intros(1))
      from cidrLess_prefix_le [OF this] have b: "better x g \<longleftrightarrow> ValidUntil g < ValidUntil x
          \<or> ValidUntil x = ValidUntil g \<and> \<not> prefix_le (the (Prefix g)) (the (Prefix x))" by (simp add: better_def)
      have refl: "prefix_le p p" for p by (simp add: prefix_le_def)
      show ?thesis using that b refl prefix_le_linear [of "the (Prefix x)" "the (Prefix g)"] by (cases "better x g") auto
    qed
    show ?thesis unfolding first_of_ties_def
    proof (intro ballI impI)
      fix d assume d: "d \<in> ?T" "ValidUntil d = ValidUntil c"
      show "prefix_le (the (Prefix c)) (the (Prefix d))"
      proof (cases "d \<in> set gs")
        case True
        with f d(2) show ?thesis by (auto simp: first_of_ties_def)
      next
        case False
        then have e: "d \<in> {x, g}" using d(1) by auto
        then have v: "ValidUntil ?g = ValidUntil c" "ValidUntil d = ValidUntil ?g" using m g d(2) by auto
        have "prefix_le (the (Prefix c)) (the (Prefix ?g))" using f v(1) by (simp add: first_of_ties_def)
        with tie [OF e v(2)] show ?thesis by (rule prefix_le_trans [rotated])
      qed
    qed
  qed
  ultimately show ?case using c(1) by simp
qed

lemma select_prefix_laws:
  "Select cands cur = None \<longleftrightarrow> select_globals cands = []"
  "Select cands cur = Some p \<Longrightarrow>
     (\<exists>c \<in> set cands. Prefix c = Some p) \<and> \<not> isLinkLocal (nIP p) \<and> \<not> isULA (nIP p)"
  "c \<in> set (select_globals cands) \<Longrightarrow> Prefix c = Some q \<Longrightarrow> cidrEqual q r \<Longrightarrow>
     \<exists>p. Select cands (Some r) = Some p \<and> cidrEqual p r"
  "select_globals cands \<noteq> [] \<Longrightarrow> \<forall>r. cur = Some r \<longrightarrow> (\<forall>d \<in> set (select_globals cands). \<not> cidrEqual (the (Prefix d)) r) \<Longrightarrow>
     \<exists>c. Select cands cur = Prefix c \<and> long_lived (set (select_globals cands)) c
       \<and> (same_length (set (select_globals cands)) \<longrightarrow> first_of_ties (set (select_globals cands)) c)"
proof -
  have gl: "\<exists>p. Prefix c = Some p \<and> \<not> isLinkLocal (nIP p) \<and> \<not> isULA (nIP p) \<and> c \<in> set cands"
    if "c \<in> set (select_globals cands)" for c
    using that by (auto simp: select_globals_def split: option.splits)
  have sel: "\<exists>c \<in> set (select_globals cands). Select cands cur = Prefix c" if "select_globals cands \<noteq> []" for cur
  proof (cases "select_globals cands")
    case (Cons g gs)
    have "\<exists>c \<in> set (g # gs). Prefix (foldl (\<lambda>best c. if better c best then c else best) g gs) = Prefix c"
      using select_fold_best [of g gs] by (auto simp: long_lived_def)
    then show ?thesis
      unfolding Select_def Cons
      by (auto split: option.splits simp: find_Some_iff)
  qed (use that in simp)
  show "Select cands cur = None \<longleftrightarrow> select_globals cands = []"
  proof (cases "select_globals cands = []")
    case False
    with sel [OF False, of cur] gl show ?thesis by fastforce
  qed (simp add: Select_def)
  show "(\<exists>c \<in> set cands. Prefix c = Some p) \<and> \<not> isLinkLocal (nIP p) \<and> \<not> isULA (nIP p)" if h: "Select cands cur = Some p"
  proof -
    have "select_globals cands \<noteq> []" using h by (auto simp: Select_def)
    from sel [OF this, of cur] h gl show ?thesis by fastforce
  qed
  show "\<exists>p. Select cands (Some r) = Some p \<and> cidrEqual p r"
    if c: "c \<in> set (select_globals cands)" "Prefix c = Some q" "cidrEqual q r"
  proof -
    obtain g gs where G: "select_globals cands = g # gs" using c(1) by (cases "select_globals cands") auto
    obtain d where d: "find (\<lambda>c. cidrEqual (the (Prefix c)) r) (g # gs) = Some d"
      using c unfolding G by (metis find_None_iff option.exhaust option.sel)
    then have "d \<in> set (g # gs)" "cidrEqual (the (Prefix d)) r"
      unfolding find_Some_iff using nth_mem by blast+
    moreover from this(1) obtain p where "Prefix d = Some p" using gl unfolding G by blast
    ultimately show ?thesis using d by (simp add: Select_def G)
  qed
  show "\<exists>c. Select cands cur = Prefix c \<and> long_lived (set (select_globals cands)) c
       \<and> (same_length (set (select_globals cands)) \<longrightarrow> first_of_ties (set (select_globals cands)) c)"
    if ne: "select_globals cands \<noteq> []" and no: "\<forall>r. cur = Some r \<longrightarrow> (\<forall>d \<in> set (select_globals cands). \<not> cidrEqual (the (Prefix d)) r)"
  proof (cases "select_globals cands")
    case (Cons g gs)
    have "(case cur of None \<Rightarrow> None | Some r \<Rightarrow> find (\<lambda>c. cidrEqual (the (Prefix c)) r) (g # gs)) = None"
      using no unfolding Cons by (auto simp: find_None_iff split: option.split)
    then have "Select cands cur = Prefix (foldl (\<lambda>best c. if better c best then c else best) g gs)" by (simp add: Select_def Cons)
    moreover have s: "set (select_globals cands) = insert g (set gs)" by (simp add: Cons)
    ultimately show ?thesis unfolding s using select_fold_best [of g gs] by auto
  qed (use ne in simp)
qed

definition cand0 :: Candidate where
  "cand0 = \<lparr>Prefix = Some \<lparr>nIP = [0x20, 0x01] @ zeros 14, nMask = replicate 8 0xff @ zeros 8\<rparr>, ValidUntil = 5\<rparr>"

text \<open>C29: the prefix to mirror. \<open>Select\<close> returns nothing exactly when there is no global candidate; it
  returns a global candidate; it keeps the current prefix while that is among the candidates; and
  otherwise, whether there is no current prefix or it is no longer offered, it takes one with the longest remaining lifetime
  and, when all addresses have the same length, among those the one that comes first by address and then by prefix length.\<close>

theorem select_prefix:
  "(Select cands cur = None \<longleftrightarrow> select_globals cands = [])
   \<and> (Select cands cur = Some p \<longrightarrow>
        (\<exists>c \<in> set cands. Prefix c = Some p) \<and> \<not> isLinkLocal (nIP p) \<and> \<not> isULA (nIP p))
   \<and> (c \<in> set (select_globals cands) \<and> Prefix c = Some q \<and> cidrEqual q r \<longrightarrow>
        (\<exists>p. Select cands (Some r) = Some p \<and> cidrEqual p r))
   \<and> (select_globals cands \<noteq> [] \<and> (\<forall>r. cur = Some r \<longrightarrow> (\<forall>d \<in> set (select_globals cands). \<not> cidrEqual (the (Prefix d)) r)) \<longrightarrow>
        (\<exists>c. Select cands cur = Prefix c \<and> long_lived (set (select_globals cands)) c
           \<and> (same_length (set (select_globals cands)) \<longrightarrow> first_of_ties (set (select_globals cands)) c)))"
  using select_prefix_laws by blast

text \<open>The prefix in use is no longer offered; two of the three offered prefixes live equally long.\<close>

definition cands0 :: "Candidate list" where
  "cands0 = map (\<lambda>(n, t). \<lparr>Prefix = Some \<lparr>nIP = [0x20, 0x01, n] @ zeros 13, nMask = replicate 8 0xff @ zeros 8\<rparr>, ValidUntil = t\<rparr>)
     [(3, 9), (2, 9), (1, 5)]"

theorem select_prefix_witness:
  "\<exists>c. Select cands0 (Prefix cand0) = Prefix c \<and> long_lived (set cands0) c \<and> first_of_ties (set cands0) c
     \<and> Prefix c = Prefix (cands0 ! 1)"
proof -
  have g: "select_globals cands0 = cands0" by code_simp
  have l: "same_length (set cands0)" by code_simp
  have "\<forall>d \<in> set cands0. \<not> cidrEqual (the (Prefix d)) (the (Prefix cand0))" by code_simp
  then have "select_globals cands0 \<noteq> [] \<and> (\<forall>r. Prefix cand0 = Some r \<longrightarrow>
      (\<forall>d \<in> set (select_globals cands0). \<not> cidrEqual (the (Prefix d)) r))" unfolding g by (auto simp: cands0_def)
  then obtain c where "Select cands0 (Prefix cand0) = Prefix c" "long_lived (set cands0) c" "first_of_ties (set cands0) c"
    using select_prefix [of cands0 "Prefix cand0"] l unfolding g by blast
  moreover have "Select cands0 (Prefix cand0) = Prefix (cands0 ! 1)" by code_simp
  ultimately show ?thesis by metis
qed

text \<open>An address that renumbering may not touch.\<close>

definition kept :: "(ip \<Rightarrow> bool) \<Rightarrow> Addr \<Rightarrow> bool" where
  "kept owned e \<longleftrightarrow> \<not> (isGlobal (aIP e) \<and> owned (aIP e))"

lemma ReplaceGlobals_kept:
  "ReplaceGlobals a owned want = filter (kept owned) a
     @ map (\<lambda>w. \<lparr>aIP = nIP w, aNet = \<lparr>nIP = nIP w, nMask = nMask w\<rparr>\<rparr>) want"
  by (auto simp: ReplaceGlobals_def isGlobal_def kept_def intro!: filter_cong)

lemma wanted_not_kept:
  assumes "\<forall>w \<in> set want. isGlobal (nIP w) \<and> owned (nIP w)"
  shows "filter (kept owned) (map (\<lambda>w. \<lparr>aIP = nIP w, aNet = \<lparr>nIP = nIP w, nMask = nMask w\<rparr>\<rparr>) want) = []"
  using assms by (simp add: filter_empty_conv kept_def)

text \<open>renumbering keeps what it does not own. Replacing the owned global addresses by wanted ones that
  are owned globals keeps every other address, in order and as often as before, leaves exactly the wanted
  addresses as owned globals, and doing it twice is the same as doing it once.\<close>

theorem replace_globals:
  assumes "\<forall>w \<in> set want. isGlobal (nIP w) \<and> owned (nIP w)"
  shows "filter (kept owned) (ReplaceGlobals a owned want) = filter (kept owned) a
    \<and> map aIP (filter (Not \<circ> kept owned) (ReplaceGlobals a owned want)) = map nIP want
    \<and> ReplaceGlobals (ReplaceGlobals a owned want) owned want = ReplaceGlobals a owned want"
proof -
  have "filter (Not \<circ> kept owned) (map (\<lambda>w. \<lparr>aIP = nIP w, aNet = \<lparr>nIP = nIP w, nMask = nMask w\<rparr>\<rparr>) want)
      = map (\<lambda>w. \<lparr>aIP = nIP w, aNet = \<lparr>nIP = nIP w, nMask = nMask w\<rparr>\<rparr>) want"
    using assms by (simp add: filter_id_conv kept_def)
  moreover have "filter (Not \<circ> kept owned) (filter (kept owned) a) = []"
    by (simp add: filter_empty_conv)
  ultimately show ?thesis
    by (simp only: ReplaceGlobals_kept filter_append wanted_not_kept [OF assms]) (simp add: comp_def)
qed

definition addr0 :: Addr where
  "addr0 = \<lparr>aIP = [10, 0, 0, 1], aNet = \<lparr>nIP = [10, 0, 0, 1], nMask = [255, 255, 255, 0]\<rparr>\<rparr>"

definition glob0 :: IPNet where
  "glob0 = \<lparr>nIP = [0x20, 0x01] @ zeros 14, nMask = replicate 8 0xff @ zeros 8\<rparr>"

theorem replace_globals_witness:
  "ReplaceGlobals (ReplaceGlobals [addr0] (\<lambda>_. True) [glob0]) (\<lambda>_. True) [glob0] = ReplaceGlobals [addr0] (\<lambda>_. True) [glob0]
   \<and> filter (kept (\<lambda>_. True)) (ReplaceGlobals [addr0] (\<lambda>_. True) [glob0]) = [addr0]"
proof -
  have "\<forall>w \<in> set [glob0]. isGlobal (nIP w) \<and> True" by code_simp
  moreover have "filter (kept (\<lambda>_. True)) [addr0] = [addr0]" by code_simp
  ultimately show ?thesis using replace_globals [of "[glob0]" "\<lambda>_. True" "[addr0]"] by simp
qed

end
