(* ===== verification/PortForward.thy ===== *)
theory PortForward
  imports GoStrings
begin

text \<open>
  The \<open>-p\<close> flag of \<open>src/pkg/container/forward/spec.go\<close>: endpoints, port mappings, the parser and
  its defaults. Go's \<open>net.SplitHostPort\<close> and \<open>net.JoinHostPort\<close> are written out. Lemmas: every mapping
  the parser accepts is complete (no empty address, no missing protocol), the flag text of a mapping
  parses to it, and which inputs are refused.
\<close>

section \<open>net.SplitHostPort\<close>

definition SplitHostPort :: "string \<Rightarrow> (string \<times> string) option" where
  "SplitHostPort hp =
     (case last_index_byte hp CHR '':'' of
        None \<Rightarrow> None
      | Some i \<Rightarrow>
          if hp ! 0 = CHR ''['' then
            (case index_byte hp CHR '']'' of
               None \<Rightarrow> None
             | Some e \<Rightarrow>
                 if e + 1 = i \<and> CHR ''['' \<notin> set (drop 1 hp) \<and> CHR '']'' \<notin> set (drop (e + 1) hp)
                 then Some (slice hp 1 e, drop (i + 1) hp) else None)
          else if CHR '':'' \<in> set (take i hp) \<or> CHR ''['' \<in> set hp \<or> CHR '']'' \<in> set hp then None
          else Some (take i hp, drop (i + 1) hp))"

definition JoinHostPort :: "string \<Rightarrow> string \<Rightarrow> string" where
  "JoinHostPort host port =
     (if CHR '':'' \<in> set host then ''['' @ host @ '']:'' @ port else host @ '':'' @ port)"

section \<open>Mappings\<close>

datatype Scheme = SchemeTCP | SchemeUDP | SchemeTLS

definition scheme_text :: "Scheme \<Rightarrow> string" where
  "scheme_text s = (case s of SchemeTCP \<Rightarrow> ''tcp'' | SchemeUDP \<Rightarrow> ''udp'' | SchemeTLS \<Rightarrow> ''tls'')"

datatype EndpointKind = KindNone | KindNet | KindUnix

record Endpoint =
  Kind :: EndpointKind
  IP :: string
  Port :: int
  Path :: string
  Proto :: string

definition endpoint0 :: Endpoint where
  "endpoint0 = \<lparr>Kind = KindNone, IP = [], Port = 0, Path = [], Proto = []\<rparr>"

definition Endpoint_String :: "Endpoint \<Rightarrow> string" where
  "Endpoint_String e =
     (if Kind e = KindUnix then ''unix://'' @ Path e
      else if IP e = [] then itoa_int (Port e)
      else JoinHostPort (IP e) (itoa_int (Port e)))"

record PortMapping =
  ID :: int
  Raw :: string
  MScheme :: Scheme
  Host :: Endpoint
  Cont :: Endpoint

definition PortMapping_String :: "PortMapping \<Rightarrow> string" where
  "PortMapping_String p =
     scheme_text (MScheme p) @ ''://'' @ Endpoint_String (Host p) @ ''->'' @ Endpoint_String (Cont p)"

datatype flag_error =
  EmptyMapping | TooManyColons | UnixNotAbsolute | BadEndpoint | BadPort | ContRequired
  | HostEndpoint flag_error | ContEndpoint flag_error

section \<open>Parsing\<close>

definition parseEndpoint :: "string \<Rightarrow> bool \<Rightarrow> flag_error + Endpoint" where
  "parseEndpoint s allowPortOnly =
     (case cut_prefix ''unix://'' s of
        Some path \<Rightarrow>
          if path = [] \<or> path ! 0 \<noteq> CHR ''/'' then Inl UnixNotAbsolute
          else Inr (endpoint0\<lparr>Kind := KindUnix, Path := path\<rparr>)
      | None \<Rightarrow>
          (case (if allowPortOnly then atoi s else None) of
             Some p \<Rightarrow> Inr (endpoint0\<lparr>Kind := KindNet, Port := p\<rparr>)
           | None \<Rightarrow>
               (case SplitHostPort s of
                  None \<Rightarrow>
                    (case atoi s of
                       Some p \<Rightarrow> Inr (endpoint0\<lparr>Kind := KindNet, Port := p\<rparr>)
                     | None \<Rightarrow> Inl BadEndpoint)
                | Some (host, portStr) \<Rightarrow>
                    (case atoi portStr of
                       None \<Rightarrow> Inl BadPort
                     | Some port \<Rightarrow> Inr (endpoint0\<lparr>Kind := KindNet, IP := host, Port := port\<rparr>)))))"

text \<open>The smallest index at which one of the markers occurs.\<close>

fun first_marker :: "string \<Rightarrow> string list \<Rightarrow> nat option \<Rightarrow> nat option" where
  "first_marker s [] best = best"
| "first_marker s (m # ms) best =
     first_marker s ms
       (case index s m of
          None \<Rightarrow> best
        | Some i \<Rightarrow> (case best of None \<Rightarrow> Some i | Some b \<Rightarrow> if i < b then Some i else Some b))"

definition splitAfterUnix :: "string \<Rightarrow> string \<times> string" where
  "splitAfterUnix s =
     (let best = first_marker s ['':tcp://'', '':udp://'', '':tls://'', '':unix://''] None;
          best' = (case last_index_byte s CHR '':'' of
              None \<Rightarrow> best
            | Some i \<Rightarrow>
                if i + 1 < length s \<and> list_all is_digit (drop (i + 1) s)
                   \<and> (case best of None \<Rightarrow> True | Some b \<Rightarrow> i < b)
                then Some i else best)
      in case best' of None \<Rightarrow> (s, []) | Some b \<Rightarrow> (take b s, drop (b + 1) s))"

definition splitHostCont :: "string \<Rightarrow> flag_error + string \<times> string" where
  "splitHostCont s =
     (if s = [] then Inl EmptyMapping
      else if has_prefix ''unix://'' s then Inr (splitAfterUnix s)
      else case first_marker s ['':unix://'', '':tcp://'', '':udp://''] None of
          Some b \<Rightarrow> Inr (take b s, drop (b + 1) s)
        | None \<Rightarrow>
            (case split_on CHR '':'' s of
               [a] \<Rightarrow> Inr (a, [])
             | [a, b] \<Rightarrow> Inr (if atoi a \<noteq> None then (a, b) else (s, []))
             | [a, b, c] \<Rightarrow> Inr (a @ '':'' @ b, c)
             | _ \<Rightarrow> Inl TooManyColons))"

fun cut_first :: "string \<Rightarrow> (string \<times> 'a) list \<Rightarrow> 'a \<Rightarrow> string \<times> 'a" where
  "cut_first s [] d = (s, d)"
| "cut_first s ((p, x) # ps) d = (case cut_prefix p s of Some r \<Rightarrow> (r, x) | None \<Rightarrow> cut_first s ps d)"

definition cont_endpoint :: "Endpoint \<Rightarrow> string \<Rightarrow> flag_error + Endpoint" where
  "cont_endpoint host contPart =
     (if contPart = [] then
        (if Kind host \<noteq> KindNet then Inl ContRequired
         else Inr (endpoint0\<lparr>Kind := KindNet, IP := ''127.0.0.1'', Port := Port host\<rparr>))
      else let (part, contProto) = cut_first contPart [(''tcp://'', ''tcp''), (''udp://'', ''udp'')] []
           in case parseEndpoint part False of
                Inl e \<Rightarrow> Inl (ContEndpoint e)
              | Inr c \<Rightarrow>
                  Inr ((if Kind c = KindNet \<and> IP c = [] then c\<lparr>IP := ''127.0.0.1''\<rparr> else c)
                         \<lparr>Proto := contProto\<rparr>))"

definition ParseFlag :: "string \<Rightarrow> flag_error + PortMapping" where
  "ParseFlag raw =
     (let (s, scheme) = cut_first raw
            [(''tcp://'', SchemeTCP), (''udp://'', SchemeUDP), (''tls://'', SchemeTLS)] SchemeTCP
      in rbind (splitHostCont s) (\<lambda>(hostPart, contPart).
         case parseEndpoint hostPart True of
           Inl e \<Rightarrow> Inl (HostEndpoint e)
         | Inr host \<Rightarrow>
             rbind (cont_endpoint host contPart) (\<lambda>cont.
               let cont' = (if Kind cont = KindNet \<and> Proto cont = []
                     then cont\<lparr>Proto := (if scheme = SchemeUDP then ''udp'' else ''tcp'')\<rparr> else cont);
                   host' = (if Kind host = KindNet \<and> IP host = [] then host\<lparr>IP := ''127.0.0.1''\<rparr> else host)
               in Inr \<lparr>ID = 0, Raw = raw, MScheme = scheme, Host = host', Cont = cont'\<rparr>)))"

text \<open>\<open>Scheme\<close> has no empty value here, so the second test of \<open>Validate\<close> never fires.\<close>

definition Validate :: "PortMapping \<Rightarrow> bool" where
  "Validate p \<longleftrightarrow> \<not> (MScheme p = SchemeTLS \<and> Kind (Host p) = KindNet \<and> Port (Host p) = 0)"

section \<open>What the parser produces\<close>

text \<open>A complete mapping: each endpoint has a kind, network endpoints have an address, the container side
  a protocol, and socket paths are absolute.\<close>

definition endpoint_ok :: "Endpoint \<Rightarrow> bool" where
  "endpoint_ok e \<longleftrightarrow>
     (case Kind e of
        KindNone \<Rightarrow> False
      | KindNet \<Rightarrow> Path e = []
      | KindUnix \<Rightarrow> Path e \<noteq> [] \<and> hd (Path e) = CHR ''/'' \<and> IP e = [] \<and> Port e = 0)"

definition mapping_ok :: "PortMapping \<Rightarrow> bool" where
  "mapping_ok p \<longleftrightarrow>
     endpoint_ok (Host p) \<and> endpoint_ok (Cont p)
     \<and> (Kind (Host p) = KindNet \<longrightarrow> IP (Host p) \<noteq> [])
     \<and> (Kind (Cont p) = KindNet \<longrightarrow> IP (Cont p) \<noteq> [] \<and> (Proto (Cont p) = ''tcp'' \<or> Proto (Cont p) = ''udp''))"

lemma endpoint0_simps [simp]:
  "Kind endpoint0 = KindNone" "IP endpoint0 = []" "Port endpoint0 = 0" "Path endpoint0 = []" "Proto endpoint0 = []"
  by (simp_all add: endpoint0_def)

lemma parseEndpoint_ok: "parseEndpoint s b = Inr e \<Longrightarrow> endpoint_ok e \<and> Proto e = []"
  by (auto simp: parseEndpoint_def endpoint_ok_def hd_conv_nth split: option.splits if_splits prod.splits)

lemma cut_first_value: "snd (cut_first s ps d) = d \<or> snd (cut_first s ps d) \<in> snd ` set ps"
  by (induction s ps d rule: cut_first.induct) (auto split: option.splits intro: rev_image_eqI)

lemma cont_endpoint_ok:
  assumes "cont_endpoint host part = Inr c"
  shows "endpoint_ok c \<and> (Kind c = KindNet \<longrightarrow> IP c \<noteq> []) \<and> (Proto c = [] \<or> Proto c = ''tcp'' \<or> Proto c = ''udp'')"
proof (cases "part = []")
  case True
  with assms show ?thesis by (auto simp: cont_endpoint_def endpoint_ok_def split: if_splits)
next
  case False
  obtain rest pr where cf: "cut_first part [(''tcp://'', ''tcp''), (''udp://'', ''udp'')] [] = (rest, pr)"
    by (cases "cut_first part [(''tcp://'', ''tcp''), (''udp://'', ''udp'')] []")
  have pr: "pr = [] \<or> pr = ''tcp'' \<or> pr = ''udp''"
    using cut_first_value [of part "[(''tcp://'', ''tcp''), (''udp://'', ''udp'')]" "[]"] unfolding cf by auto
  from assms False cf obtain e where e: "parseEndpoint rest False = Inr e"
    and c: "c = (if Kind e = KindNet \<and> IP e = [] then e\<lparr>IP := ''127.0.0.1''\<rparr> else e)\<lparr>Proto := pr\<rparr>"
    by (auto simp: cont_endpoint_def split: sum.splits)
  with parseEndpoint_ok [OF e] pr show ?thesis by (cases "Kind e") (auto simp: endpoint_ok_def)
qed

lemma no_slash_markers:
  assumes "CHR ''/'' \<notin> set s" "\<forall>m \<in> set ms. CHR ''/'' \<in> set m"
  shows "first_marker s ms None = None"
proof -
  have "index s m = None" if "m \<in> set ms" for m
  proof -
    have "s \<noteq> a @ m @ b" for a b using assms that by auto
    then show ?thesis by (simp add: index_None_iff)
  qed
  then show ?thesis by (induction ms) auto
qed

lemma no_slash_prefix: "CHR ''/'' \<notin> set s \<Longrightarrow> CHR ''/'' \<in> set p \<Longrightarrow> \<not> has_prefix p s"
  by (auto simp: has_prefix_iff)

lemma atoi_None_colon: "CHR '':'' \<in> set s \<Longrightarrow> atoi s = None"
proof -
  assume c: "CHR '':'' \<in> set s"
  have "\<not> is_digit CHR '':''" by (simp add: is_digit_def)
  with c have "parse_digits s = None" "tl s \<noteq> [] \<Longrightarrow> CHR '':'' \<in> set (tl s) \<Longrightarrow> parse_digits (tl s) = None"
    by (auto simp: parse_digits_def list_all_iff)
  with c show ?thesis
    by (cases s) (auto simp: atoi_def parse_digits_def list_all_iff is_digit_def)
qed

lemma SplitHostPort_plain:
  assumes "ip \<noteq> []" "CHR '':'' \<notin> set ip" "CHR ''['' \<notin> set ip" "CHR '']'' \<notin> set ip"
    "CHR '':'' \<notin> set p" "CHR ''['' \<notin> set p" "CHR '']'' \<notin> set p"
  shows "SplitHostPort (ip @ CHR '':'' # p) = Some (ip, p)"
proof -
  have "(ip @ CHR '':'' # p) ! 0 \<noteq> CHR ''[''" using assms(1,3) by (cases ip) auto
  with assms show ?thesis by (simp add: SplitHostPort_def last_index_byte_append)
qed

lemma not_digit_simps [simp]:
  "\<not> is_digit CHR '':''" "\<not> is_digit CHR ''/''" "\<not> is_digit CHR ''[''" "\<not> is_digit CHR '']''"
  by (simp_all add: is_digit_def)

section \<open>Properties\<close>

text \<open>every mapping that the parser accepts is complete: each endpoint is a network address or an
  absolute socket path, network addresses are never empty, and the container side of a network mapping
  has a protocol.\<close>

theorem parse_flag_complete:
  assumes "ParseFlag raw = Inr pm"
  shows "mapping_ok pm \<and> Raw pm = raw"
proof -
  obtain s scheme where cf: "cut_first raw [(''tcp://'', SchemeTCP), (''udp://'', SchemeUDP), (''tls://'', SchemeTLS)] SchemeTCP = (s, scheme)"
    by (cases "cut_first raw [(''tcp://'', SchemeTCP), (''udp://'', SchemeUDP), (''tls://'', SchemeTLS)] SchemeTCP")
  from assms obtain hp cp where
    r: "(case parseEndpoint hp True of Inl e \<Rightarrow> Inl (HostEndpoint e)
         | Inr host \<Rightarrow>
             rbind (cont_endpoint host cp) (\<lambda>cont.
               let cont' = (if Kind cont = KindNet \<and> Proto cont = []
                     then cont\<lparr>Proto := (if scheme = SchemeUDP then ''udp'' else ''tcp'')\<rparr> else cont);
                   host' = (if Kind host = KindNet \<and> IP host = [] then host\<lparr>IP := ''127.0.0.1''\<rparr> else host)
               in Inr \<lparr>ID = 0, Raw = raw, MScheme = scheme, Host = host', Cont = cont'\<rparr>)) = Inr pm"
    unfolding ParseFlag_def cf by (auto simp: rbind_Inr_iff)
  then obtain host where h: "parseEndpoint hp True = Inr host" by (cases "parseEndpoint hp True") auto
  with r obtain cont where c: "cont_endpoint host cp = Inr cont"
    and pm: "pm = \<lparr>ID = 0, Raw = raw, MScheme = scheme,
       Host = (if Kind host = KindNet \<and> IP host = [] then host\<lparr>IP := ''127.0.0.1''\<rparr> else host),
       Cont = (if Kind cont = KindNet \<and> Proto cont = []
               then cont\<lparr>Proto := (if scheme = SchemeUDP then ''udp'' else ''tcp'')\<rparr> else cont)\<rparr>"
    by (auto simp: rbind_Inr_iff Let_def)
  have "endpoint_ok (x\<lparr>IP := i\<rparr>)" if "endpoint_ok x" "Kind x = KindNet" for x i
    using that by (simp add: endpoint_ok_def)
  moreover have "endpoint_ok (x\<lparr>Proto := i\<rparr>)" if "endpoint_ok x" for x i
    using that by (cases "Kind x") (simp_all add: endpoint_ok_def)
  ultimately show ?thesis
    using parseEndpoint_ok [OF h] cont_endpoint_ok [OF c]
    by (auto simp: pm mapping_ok_def)
qed

theorem parse_flag_complete_witness:
  "mapping_ok \<lparr>ID = 0, Raw = ''80'', MScheme = SchemeTCP,
      Host = endpoint0\<lparr>Kind := KindNet, IP := ''127.0.0.1'', Port := 80\<rparr>,
      Cont = endpoint0\<lparr>Kind := KindNet, IP := ''127.0.0.1'', Port := 80, Proto := ''tcp''\<rparr>\<rparr>"
proof -
  have p: "ParseFlag ''80'' = Inr \<lparr>ID = 0, Raw = ''80'', MScheme = SchemeTCP,
      Host = endpoint0\<lparr>Kind := KindNet, IP := ''127.0.0.1'', Port := 80\<rparr>,
      Cont = endpoint0\<lparr>Kind := KindNet, IP := ''127.0.0.1'', Port := 80, Proto := ''tcp''\<rparr>\<rparr>" by code_simp
  show ?thesis using parse_flag_complete [OF p] by blast
qed

text \<open>a full flag round-trips. The text \<open>scheme://ip:port:port\<close> of an address without colons, slashes
  and brackets parses to exactly that mapping, with the container on the loopback address and the
  protocol that belongs to the scheme.\<close>

theorem parse_flag_roundtrip:
  assumes "ip \<noteq> []" "\<forall>c \<in> {CHR '':'', CHR ''/'', CHR ''['', CHR '']''}. c \<notin> set ip"
    and "int hp < 2 ^ 63" "int cp < 2 ^ 63"
  shows "ParseFlag (scheme_text sch @ ''://'' @ ip @ '':'' @ itoa hp @ '':'' @ itoa cp) =
    Inr \<lparr>ID = 0, Raw = scheme_text sch @ ''://'' @ ip @ '':'' @ itoa hp @ '':'' @ itoa cp, MScheme = sch,
         Host = endpoint0\<lparr>Kind := KindNet, IP := ip, Port := int hp\<rparr>,
         Cont = endpoint0\<lparr>Kind := KindNet, IP := ''127.0.0.1'', Port := int cp,
                          Proto := (if sch = SchemeUDP then ''udp'' else ''tcp'')\<rparr>\<rparr>"
proof -
  let ?s = "ip @ CHR '':'' # itoa hp @ CHR '':'' # itoa cp"
  have cf: "cut_first (scheme_text sch @ ''://'' @ r) [(''tcp://'', SchemeTCP), (''udp://'', SchemeUDP), (''tls://'', SchemeTLS)] SchemeTCP
      = (r, sch)" for r
    by (cases sch) (simp_all add: scheme_text_def cut_prefix_def has_prefix_def)
  have nc: "c \<notin> set (itoa n)" if "c \<in> {CHR '':'', CHR ''/'', CHR ''['', CHR '']''}" for c n
    using that digit_notin_itoa [of c n] by auto
  have slash: "CHR ''/'' \<notin> set ?s" using assms(2) nc by auto
  have "split_on CHR '':'' ?s = [ip, itoa hp, itoa cp]"
    using assms(2) nc by (simp add: split_on_append split_on_notin)
  then have sp: "splitHostCont ?s = Inr (ip @ '':'' @ itoa hp, itoa cp)"
    using no_slash_prefix [OF slash, of "''unix://''"] no_slash_markers [OF slash, of "['':unix://'', '':tcp://'', '':udp://'']"]
    by (simp add: splitHostCont_def)
  have sl1: "CHR ''/'' \<notin> set (ip @ '':'' @ itoa hp)" "CHR ''/'' \<notin> set (itoa cp)" using assms(2) nc by auto
  have hst: "parseEndpoint (ip @ '':'' @ itoa hp) True = Inr (endpoint0\<lparr>Kind := KindNet, IP := ip, Port := int hp\<rparr>)"
    using no_slash_prefix [OF sl1(1), of "''unix://''"] SplitHostPort_plain [of ip "itoa hp"] assms nc
    by (simp add: parseEndpoint_def cut_prefix_def atoi_None_colon atoi_itoa)
  have cp: "parseEndpoint (itoa cp) False = Inr (endpoint0\<lparr>Kind := KindNet, Port := int cp\<rparr>)"
    using no_slash_prefix [OF sl1(2), of "''unix://''"] nc [of "CHR '':''" cp] assms(4)
    by (simp add: parseEndpoint_def cut_prefix_def SplitHostPort_def last_index_byte_None_iff [THEN iffD2] atoi_itoa)
  have cut: "cut_first (itoa cp) [(''tcp://'', ''tcp''), (''udp://'', ''udp'')] [] = (itoa cp, [])"
    using no_slash_prefix [OF sl1(2), of "''tcp://''"] no_slash_prefix [OF sl1(2), of "''udp://''"]
    by (simp add: cut_prefix_def)
  have "cont_endpoint h (itoa cp) = Inr (endpoint0\<lparr>Kind := KindNet, IP := ''127.0.0.1'', Port := int cp\<rparr>)" for h
    using cp cut by (simp add: cont_endpoint_def endpoint0_def)
  with cf sp hst assms(1) show ?thesis
    unfolding ParseFlag_def cf by (simp add: endpoint0_def)
qed

theorem parse_flag_roundtrip_witness:
  "ParseFlag (scheme_text SchemeUDP @ ''://'' @ ''0.0.0.0'' @ '':'' @ itoa 53 @ '':'' @ itoa 5353) =
    Inr \<lparr>ID = 0, Raw = scheme_text SchemeUDP @ ''://'' @ ''0.0.0.0'' @ '':'' @ itoa 53 @ '':'' @ itoa 5353, MScheme = SchemeUDP,
         Host = endpoint0\<lparr>Kind := KindNet, IP := ''0.0.0.0'', Port := int 53\<rparr>,
         Cont = endpoint0\<lparr>Kind := KindNet, IP := ''127.0.0.1'', Port := int 5353, Proto := ''udp''\<rparr>\<rparr>"
  using parse_flag_roundtrip [of "''0.0.0.0''" 53 5353 SchemeUDP] by (simp del: itoa.simps)

text \<open>Bracketed IPv6 hosts are refused, and port numbers are not checked. \<open>[::1]:80\<close> and
  \<open>[::1]:80:80\<close> fail with too many colons, although the endpoint parser accepts \<open>[::1]:80\<close>; a mapping of
  port -2 to port -1 is accepted and passes \<open>Validate\<close>.\<close>

theorem parse_flag_limits:
  "ParseFlag ''[::1]:80'' = Inl TooManyColons" "ParseFlag ''[::1]:80:80'' = Inl TooManyColons"
  "parseEndpoint ''[::1]:80'' True = Inr (endpoint0\<lparr>Kind := KindNet, IP := ''::1'', Port := 80\<rparr>)"
  "\<exists>pm. ParseFlag ''-2:-1'' = Inr pm \<and> Port (Host pm) = - 2 \<and> Port (Cont pm) = - 1 \<and> Validate pm"
proof -
  show "ParseFlag ''[::1]:80'' = Inl TooManyColons" by code_simp
  show "ParseFlag ''[::1]:80:80'' = Inl TooManyColons" by code_simp
  show "parseEndpoint ''[::1]:80'' True = Inr (endpoint0\<lparr>Kind := KindNet, IP := ''::1'', Port := 80\<rparr>)" by code_simp
  have "(case ParseFlag ''-2:-1'' of Inr pm \<Rightarrow> Port (Host pm) = - 2 \<and> Port (Cont pm) = - 1 \<and> Validate pm | _ \<Rightarrow> False)"
    by code_simp
  then show "\<exists>pm. ParseFlag ''-2:-1'' = Inr pm \<and> Port (Host pm) = - 2 \<and> Port (Cont pm) = - 1 \<and> Validate pm"
    by (auto split: sum.splits)
qed

end
