(* ===== verification/Dockerfile.thy ===== *)
theory Dockerfile
  imports GoStrings "HOL-Library.AList"
begin

text \<open>
  The Dockerfile front end of \<open>src/pkg/lib/container/build\<close>: instructions (\<open>instruction.go\<close>), the
  line reader and the instruction parser (\<open>dockerfile.go\<close>), variable expansion (\<open>expand.go\<close>) and
  stages (\<open>stage.go\<close>).

  The text is ASCII. The input is the list of lines that \<open>bufio.Scanner\<close> yields, with a flag for its
  error. \<open>json_strings\<close> is \<open>json.Unmarshal\<close> into a list of strings. Flags are an association list. A
  variable map is a partial function; a missing variable reads as the empty string.
\<close>

section \<open>Instructions\<close>

datatype InstrKind =
  InstrUnknown | InstrFrom | InstrRun | InstrCopy | InstrAdd | InstrEnv | InstrWorkDir | InstrUser
  | InstrCmd | InstrEntrypoint | InstrLabel | InstrExpose | InstrArg | InstrVolume | InstrShell
  | InstrStopSignal

definition InstrKind_String :: "InstrKind \<Rightarrow> string" where
  "InstrKind_String k =
     (case k of
        InstrFrom \<Rightarrow> ''FROM'' | InstrRun \<Rightarrow> ''RUN'' | InstrCopy \<Rightarrow> ''COPY'' | InstrAdd \<Rightarrow> ''ADD''
      | InstrEnv \<Rightarrow> ''ENV'' | InstrWorkDir \<Rightarrow> ''WORKDIR'' | InstrUser \<Rightarrow> ''USER'' | InstrCmd \<Rightarrow> ''CMD''
      | InstrEntrypoint \<Rightarrow> ''ENTRYPOINT'' | InstrLabel \<Rightarrow> ''LABEL'' | InstrExpose \<Rightarrow> ''EXPOSE''
      | InstrArg \<Rightarrow> ''ARG'' | InstrVolume \<Rightarrow> ''VOLUME'' | InstrShell \<Rightarrow> ''SHELL''
      | InstrStopSignal \<Rightarrow> ''STOPSIGNAL'' | InstrUnknown \<Rightarrow> ''UNKNOWN'')"

definition upperASCII :: "string \<Rightarrow> string" where
  "upperASCII s = map upper_ascii s"

definition parseKind :: "string \<Rightarrow> InstrKind" where
  "parseKind word =
     (let w = upperASCII word
      in if w = ''FROM'' then InstrFrom
         else if w = ''RUN'' then InstrRun
         else if w = ''COPY'' then InstrCopy
         else if w = ''ADD'' then InstrAdd
         else if w = ''ENV'' then InstrEnv
         else if w = ''WORKDIR'' then InstrWorkDir
         else if w = ''USER'' then InstrUser
         else if w = ''CMD'' then InstrCmd
         else if w = ''ENTRYPOINT'' then InstrEntrypoint
         else if w = ''LABEL'' then InstrLabel
         else if w = ''EXPOSE'' then InstrExpose
         else if w = ''ARG'' then InstrArg
         else if w = ''VOLUME'' then InstrVolume
         else if w = ''SHELL'' then InstrShell
         else if w = ''STOPSIGNAL'' then InstrStopSignal
         else InstrUnknown)"

record Instruction =
  IKind :: InstrKind
  Args :: "string list"
  JSON :: bool
  Flags :: "(string \<times> string) list"
  IRaw :: string
  Line :: nat

section \<open>JSON arrays of strings\<close>

definition json_ws :: "char \<Rightarrow> bool" where
  "json_ws c \<longleftrightarrow> c = CHR '' '' \<or> c = CHR 0x09 \<or> c = CHR 0x0A \<or> c = CHR 0x0D"

definition hex_val :: "char \<Rightarrow> nat option" where
  "hex_val c =
     (let n = of_char c
      in if 48 \<le> n \<and> n \<le> 57 then Some (n - 48)
         else if 97 \<le> n \<and> n \<le> 102 then Some (n - 87)
         else if 65 \<le> n \<and> n \<le> 70 then Some (n - 55) else None)"

fun hex4 :: "string \<Rightarrow> nat option" where
  "hex4 [a, b, c, d] =
     (case (hex_val a, hex_val b, hex_val c, hex_val d) of
        (Some w, Some x, Some y, Some z) \<Rightarrow> Some (4096 * w + 256 * x + 16 * y + z)
      | _ \<Rightarrow> None)"
| "hex4 _ = None"

definition utf8_enc :: "nat \<Rightarrow> string" where
  "utf8_enc n =
     (if n < 0x80 then [char_of n]
      else if n < 0x800 then [char_of (0xC0 + n div 64), char_of (0x80 + n mod 64)]
      else if 0xD800 \<le> n \<and> n < 0xE000 then [CHR 0xEF, CHR 0xBF, CHR 0xBD]
      else if n < 0x10000 then
        [char_of (0xE0 + n div 4096), char_of (0x80 + n div 64 mod 64), char_of (0x80 + n mod 64)]
      else [char_of (0xF0 + n div 262144), char_of (0x80 + n div 4096 mod 64),
            char_of (0x80 + n div 64 mod 64), char_of (0x80 + n mod 64)])"

definition simple_escape :: "char \<Rightarrow> char option" where
  "simple_escape c =
     (if c = CHR 0x22 then Some (CHR 0x22) else if c = CHR 0x5C then Some (CHR 0x5C)
      else if c = CHR ''/'' then Some CHR ''/'' else if c = CHR ''b'' then Some (CHR 0x08)
      else if c = CHR ''f'' then Some (CHR 0x0C) else if c = CHR ''n'' then Some (CHR 0x0A)
      else if c = CHR ''r'' then Some (CHR 0x0D) else if c = CHR ''t'' then Some (CHR 0x09) else None)"

text \<open>The body of a string after its opening quote: the decoded text and what follows the closing
  quote. A pair of \<open>\u\<close> surrogates is one character.\<close>

function json_string :: "string \<Rightarrow> (string \<times> string) option" where
  "json_string s =
     (case s of
        [] \<Rightarrow> None
      | c # r \<Rightarrow>
          if c = CHR 0x22 then Some ([], r)
          else if (of_char c :: nat) < 32 then None
          else if c \<noteq> CHR 0x5C then map_option (apfst (Cons c)) (json_string r)
          else case r of
              [] \<Rightarrow> None
            | e # r' \<Rightarrow>
                if e = CHR ''u'' then
                  (case hex4 (take 4 r') of
                     None \<Rightarrow> None
                   | Some u \<Rightarrow>
                       let r2 = drop 4 r'
                       in case (if 0xD800 \<le> u \<and> u < 0xDC00 \<and> take 2 r2 = [CHR 0x5C, CHR ''u'']
                                then hex4 (take 4 (drop 2 r2)) else None) of
                            Some v \<Rightarrow>
                              if 0xDC00 \<le> v \<and> v < 0xE000
                              then map_option (apfst (append (utf8_enc (0x10000 + (u - 0xD800) * 1024 + (v - 0xDC00)))))
                                     (json_string (drop 6 r2))
                              else map_option (apfst (append (utf8_enc u))) (json_string r2)
                          | None \<Rightarrow> map_option (apfst (append (utf8_enc u))) (json_string r2))
                else (case simple_escape e of
                        None \<Rightarrow> None
                      | Some x \<Rightarrow> map_option (apfst (Cons x)) (json_string r')))"
  by pat_completeness auto
termination
  by (relation "measure length") auto

declare json_string.simps [simp del]

text \<open>An element that is a string, or \<open>null\<close>, which leaves the empty string.\<close>

definition json_elem :: "string \<Rightarrow> (string \<times> string) option" where
  "json_elem s =
     (case s of
        [] \<Rightarrow> None
      | c # r \<Rightarrow> if c = CHR 0x22 then json_string r
                 else if has_prefix ''null'' s then Some ([], drop 4 s) else None)"

fun json_elems :: "nat \<Rightarrow> string \<Rightarrow> (string list \<times> string) option" where
  "json_elems 0 s = None"
| "json_elems (Suc fuel) s =
     (case json_elem (dropWhile json_ws s) of
        None \<Rightarrow> None
      | Some (x, r) \<Rightarrow>
          (case dropWhile json_ws r of
             [] \<Rightarrow> None
           | c # r' \<Rightarrow>
               if c = CHR '']'' then Some ([x], r')
               else if c = CHR '','' then map_option (apfst (Cons x)) (json_elems fuel r')
               else None))"

definition json_strings :: "string \<Rightarrow> string list option" where
  "json_strings s =
     (case dropWhile json_ws s of
        [] \<Rightarrow> None
      | c # r \<Rightarrow>
          if c \<noteq> CHR ''['' then None
          else (case dropWhile json_ws r of
                  [] \<Rightarrow> None
                | d # r' \<Rightarrow>
                    if d = CHR '']'' then (if list_all json_ws r' then Some [] else None)
                    else (case json_elems (length r + 1) r of
                            Some (xs, t) \<Rightarrow> if list_all json_ws t then Some xs else None
                          | None \<Rightarrow> None)))"

section \<open>Parsing an instruction\<close>

datatype docker_error =
  UnknownInstruction nat string | MissingKey nat | ExpectedKV nat string | ScanError
  | FromNeedsRef nat | FromExpectedAs nat string | FromArgCount nat nat | BeforeFrom nat InstrKind | NoFrom

definition splitFirst :: "string \<Rightarrow> string \<times> string" where
  "splitFirst s =
     (let t = dropWhile is_blank s
      in (takeWhile (\<lambda>c. \<not> is_blank c) t, dropWhile is_blank (dropWhile (\<lambda>c. \<not> is_blank c) t)))"

function extractFlags :: "string \<Rightarrow> (string \<times> string) list \<Rightarrow> string \<times> (string \<times> string) list" where
  "extractFlags rest flags =
     (let r = dropWhile is_blank rest
      in if \<not> has_prefix ''--'' r then (r, flags)
         else let tok = takeWhile (\<lambda>c. \<not> is_blank c) r; r' = dropWhile (\<lambda>c. \<not> is_blank c) r
         in if tok = ''--'' then (r', flags)
            else case index_byte tok CHR ''='' of
                None \<Rightarrow> extractFlags r' (AList.update (drop 2 tok) ''true'' flags)
              | Some eq \<Rightarrow> extractFlags r' (AList.update (slice tok 2 eq) (drop (eq + 1) tok) flags))"
  by pat_completeness auto
termination
proof (relation "measure (\<lambda>(r, _). length r)")
  have shorter: "length (dropWhile (\<lambda>c. \<not> is_blank c) r) < length rest"
    if r: "r = dropWhile is_blank rest" and p: "has_prefix ''--'' r" for r rest
  proof -
    obtain t where t: "r = CHR ''-'' # t" using p by (auto simp: has_prefix_iff)
    then have "length (dropWhile (\<lambda>c. \<not> is_blank c) r) \<le> length t"
      by (simp add: is_blank_def length_dropWhile_le)
    moreover have "length r \<le> length rest" unfolding r by (rule length_dropWhile_le)
    ultimately show ?thesis using t by simp
  qed
  fix rest :: string and flags :: "(string \<times> string) list" and r tok r' eq
  assume "r = dropWhile is_blank rest" "\<not> \<not> has_prefix ''--'' r" "r' = dropWhile (\<lambda>c. \<not> is_blank c) r"
  then show "((r', AList.update (drop 2 tok) ''true'' flags), rest, flags) \<in> measure (\<lambda>(r, _). length r)"
    and "((r', AList.update (slice tok 2 eq) (drop (eq + 1) tok) flags), rest, flags) \<in> measure (\<lambda>(r, _). length r)"
    using shorter by simp_all
qed simp_all

declare extractFlags.simps [simp del]

text \<open>\<open>shellSplit\<close> as a state machine: outside quotes, in single quotes, in double quotes, with the
  word read so far.\<close>

datatype quote = Plain | Single | Double

fun shell_go :: "quote \<Rightarrow> string \<Rightarrow> string \<Rightarrow> string list" where
  "shell_go q cur [] = (if cur = [] then [] else [cur])"
| "shell_go Single cur (c # s) =
     (if c = CHR 0x27 then shell_go Plain cur s else shell_go Single (cur @ [c]) s)"
| "shell_go Double cur [c] =
     (if c = CHR 0x22 then shell_go Plain cur [] else shell_go Double (cur @ [c]) [])"
| "shell_go Double cur (c # d # s) =
     (if c = CHR 0x22 then shell_go Plain cur (d # s)
      else if c = CHR 0x5C then shell_go Double (cur @ [d]) s
      else shell_go Double (cur @ [c]) (d # s))"
| "shell_go Plain cur (c # s) =
     (if c = CHR 0x27 then shell_go Single cur s
      else if c = CHR 0x22 then shell_go Double cur s
      else if is_blank c then (if cur = [] then shell_go Plain [] s else cur # shell_go Plain [] s)
      else shell_go Plain (cur @ [c]) s)"

definition shellSplit :: "string \<Rightarrow> string list" where
  "shellSplit s = shell_go Plain [] s"

definition strip_quotes :: "string \<Rightarrow> string" where
  "strip_quotes val =
     (if 2 \<le> length val \<and> (hd val = CHR 0x22 \<and> last val = CHR 0x22 \<or> hd val = CHR 0x27 \<and> last val = CHR 0x27)
      then slice val 1 (length val - 1) else val)"

definition parseKVList :: "nat \<Rightarrow> string \<Rightarrow> docker_error + string list" where
  "parseKVList line rest =
     (let (first, after) = splitFirst rest
      in if first = [] then Inl (MissingKey line)
         else if CHR ''='' \<notin> set first \<and> CHR ''='' \<notin> set after
         then Inr [first @ ''='' @ strip_quotes (trim_space after)]
         else let tokens = shellSplit rest
              in case find (\<lambda>t. CHR ''='' \<notin> set t) tokens of
                   Some t \<Rightarrow> Inl (ExpectedKV line t)
                 | None \<Rightarrow> Inr tokens)"

definition parseInstruction :: "string \<Rightarrow> nat \<Rightarrow> docker_error + Instruction" where
  "parseInstruction raw line =
     (let (keyword, rest0) = splitFirst raw; kind = parseKind keyword
      in if kind = InstrUnknown then Inl (UnknownInstruction line keyword)
         else let (rest1, flags) = extractFlags rest0 [];
                  rest = trim_space rest1;
                  instr = \<lparr>IKind = kind, Args = [], JSON = False, Flags = flags, IRaw = raw, Line = line\<rparr>
         in case (if has_prefix ''['' rest then json_strings rest else None) of
              Some arr \<Rightarrow> Inr (instr\<lparr>JSON := True, Args := arr\<rparr>)
            | None \<Rightarrow>
                if kind = InstrEnv \<or> kind = InstrLabel \<or> kind = InstrArg
                then rbind (parseKVList line rest) (\<lambda>pairs. Inr (instr\<lparr>Args := pairs\<rparr>))
                else if kind = InstrRun \<or> kind = InstrCmd \<or> kind = InstrEntrypoint
                then Inr (instr\<lparr>Args := [rest]\<rparr>)
                else Inr (instr\<lparr>Args := shellSplit rest\<rparr>))"

section \<open>Reading the file\<close>

definition is_letter :: "char \<Rightarrow> bool" where
  "is_letter c \<longleftrightarrow> (let n = of_char c :: nat in 97 \<le> n \<and> n \<le> 122 \<or> 65 \<le> n \<and> n \<le> 90)"

definition parseDirective :: "string \<Rightarrow> (string \<times> string) option" where
  "parseDirective line =
     (if \<not> has_prefix ''#'' line then None
      else let rest = trim_space (drop 1 line)
      in case index_byte rest CHR ''='' of
           None \<Rightarrow> None
         | Some eq \<Rightarrow>
             if eq < 1 then None
             else let key = trim_space (take eq rest); val = trim_space (drop (eq + 1) rest)
             in if key = [] \<or> val = [] then None
                else if \<not> list_all (\<lambda>r. is_letter r \<or> r = CHR ''_'' \<or> r = CHR ''-'') key then None
                else Some (map lower_ascii key, val))"

record reader =
  escape :: char
  directivesAllowed :: bool
  instrs :: "Instruction list"
  rbuf :: string
  startLine :: nat
  curLine :: nat

definition reader0 :: reader where
  "reader0 = \<lparr>escape = CHR 0x5C, directivesAllowed = True, instrs = [], rbuf = [], startLine = 0, curLine = 0\<rparr>"

definition flush :: "reader \<Rightarrow> docker_error + reader" where
  "flush st =
     (let raw = trim_space (rbuf st); st' = st\<lparr>rbuf := []\<rparr>
      in if raw = [] then Inr st'
         else rbind (parseInstruction raw (startLine st)) (\<lambda>instr. Inr (st'\<lparr>instrs := instrs st @ [instr]\<rparr>)))"

definition is_cr :: "char \<Rightarrow> bool" where "is_cr c \<longleftrightarrow> c = CHR 0x0D"

definition read_line :: "reader \<Rightarrow> string \<Rightarrow> docker_error + reader" where
  "read_line st0 text =
     (let st = st0\<lparr>curLine := curLine st0 + 1\<rparr>;
          line = trim_right is_cr text;
          trimmed = dropWhile is_blank line
      in if directivesAllowed st \<and> has_prefix ''#'' trimmed then
           (case parseDirective trimmed of
              Some (d, v) \<Rightarrow>
                Inr (if d = ''escape'' \<and> (v = [CHR 0x5C] \<or> v = [CHR 0x60]) then st\<lparr>escape := hd v\<rparr> else st)
            | None \<Rightarrow> Inr (st\<lparr>directivesAllowed := False\<rparr>))
         else if has_prefix ''#'' trimmed then Inr st
         else if trim_space line = [] then
           rbind (flush st) (\<lambda>st1. Inr (st1\<lparr>directivesAllowed := False\<rparr>))
         else let st1 = st\<lparr>directivesAllowed := False,
                    startLine := (if rbuf st = [] then curLine st else startLine st)\<rparr>;
                  stripped = trim_right is_blank line
         in if stripped \<noteq> [] \<and> last stripped = escape st1
            then Inr (st1\<lparr>rbuf := rbuf st1 @ butlast stripped @ '' ''\<rparr>)
            else flush (st1\<lparr>rbuf := rbuf st1 @ line\<rparr>))"

fun read_lines :: "reader \<Rightarrow> string list \<Rightarrow> docker_error + reader" where
  "read_lines st [] = Inr st"
| "read_lines st (l # ls) = rbind (read_line st l) (\<lambda>st'. read_lines st' ls)"

definition ParseDockerfile :: "string list \<Rightarrow> bool \<Rightarrow> docker_error + Instruction list" where
  "ParseDockerfile ls scanErr =
     rbind (read_lines reader0 ls) (\<lambda>st.
       if scanErr then Inl ScanError
       else rbind (flush st) (\<lambda>st'. Inr (instrs st')))"

section \<open>Variable expansion\<close>

definition isIdentChar :: "char \<Rightarrow> bool" where
  "isIdentChar c \<longleftrightarrow> c = CHR ''_'' \<or> is_letter c \<or> is_digit c"

definition var :: "(string \<rightharpoonup> string) \<Rightarrow> string \<Rightarrow> string" where
  "var vars n = (case vars n of None \<Rightarrow> [] | Some v \<Rightarrow> v)"

definition evalBracedExpr :: "string \<Rightarrow> (string \<rightharpoonup> string) \<Rightarrow> string" where
  "evalBracedExpr expr vars =
     (case index expr '':-'' of
        Some (Suc i) \<Rightarrow>
          (let v = var vars (take (Suc i) expr) in if v \<noteq> [] then v else drop (Suc i + 2) expr)
      | _ \<Rightarrow>
          (case index expr '':+'' of
             Some (Suc i) \<Rightarrow>
               (if var vars (take (Suc i) expr) \<noteq> [] then drop (Suc i + 2) expr else [])
           | _ \<Rightarrow> var vars expr))"

function Expand :: "string \<Rightarrow> (string \<rightharpoonup> string) \<Rightarrow> string" where
  "Expand [] vars = []"
| "Expand [c] vars = [c]"
| "Expand (c # d # s) vars =
     (if c = CHR 0x5C then d # Expand s vars
      else if c \<noteq> CHR ''$'' then c # Expand (d # s) vars
      else if d = CHR ''{'' then
        (case index_byte s CHR ''}'' of
           None \<Rightarrow> CHR ''$'' # Expand (d # s) vars
         | Some e \<Rightarrow> evalBracedExpr (take e s) vars @ Expand (drop (e + 1) s) vars)
      else let name = takeWhile isIdentChar (d # s)
      in if name = [] then CHR ''$'' # Expand (d # s) vars
         else var vars name @ Expand (dropWhile isIdentChar (d # s)) vars)"
  by pat_completeness auto
termination
  by (relation "measure (\<lambda>(s, _). length s)") (auto simp: le_imp_less_Suc length_dropWhile_le le_SucI)

section \<open>Stages\<close>

record Stage =
  Index :: nat
  SName :: string
  BaseRef :: string
  Instrs :: "Instruction list"

definition equal_fold :: "string \<Rightarrow> string \<Rightarrow> bool" where
  "equal_fold a b \<longleftrightarrow> map lower_ascii a = map lower_ascii b"

definition parseFromArgs :: "nat \<Rightarrow> string list \<Rightarrow> docker_error + string \<times> string" where
  "parseFromArgs line args =
     (case args of
        [] \<Rightarrow> Inl (FromNeedsRef line)
      | [a] \<Rightarrow> Inr ([], a)
      | [a, b, c] \<Rightarrow> if \<not> equal_fold b ''AS'' then Inl (FromExpectedAs line b) else Inr (c, a)
      | _ \<Rightarrow> Inl (FromArgCount line (length args)))"

definition append_instr :: "Stage list \<Rightarrow> Instruction \<Rightarrow> Stage list" where
  "append_instr stages i = butlast stages @ [(last stages)\<lparr>Instrs := Instrs (last stages) @ [i]\<rparr>]"

fun split_go :: "Instruction list \<Rightarrow> Stage list \<Rightarrow> Instruction list \<Rightarrow> docker_error + Instruction list \<times> Stage list" where
  "split_go globals stages [] = Inr (globals, stages)"
| "split_go globals stages (i # is) =
     (if IKind i = InstrFrom then
        rbind (parseFromArgs (Line i) (Args i)) (\<lambda>(name, base).
          split_go globals (stages @ [\<lparr>Index = length stages, SName = name, BaseRef = base, Instrs = []\<rparr>]) is)
      else if stages = [] then
        (if IKind i \<noteq> InstrArg then Inl (BeforeFrom (Line i) (IKind i)) else split_go (globals @ [i]) stages is)
      else split_go globals (append_instr stages i) is)"

definition SplitStages :: "Instruction list \<Rightarrow> docker_error + Instruction list \<times> Stage list" where
  "SplitStages is =
     rbind (split_go [] [] is) (\<lambda>(globals, stages).
       if stages = [] then Inl NoFrom else Inr (globals, stages))"

definition FindStage :: "Stage list \<Rightarrow> string \<Rightarrow> Stage option" where
  "FindStage stages name = find (\<lambda>s. SName s = name \<or> itoa (Index s) = name) stages"

section \<open>Facts about the reader\<close>

lemma trim_right_snoc: "\<not> P c \<Longrightarrow> trim_right P (s @ [c]) = s @ [c]"
  by (simp add: trim_right_def)

lemma trim_space_Nil_iff: "trim_space s = [] \<longleftrightarrow> list_all is_space s"
proof
  assume "trim_space s = []"
  then have "list_all is_space (dropWhile is_space s)"
    by (simp add: trim_space_def trim_right_def dropWhile_eq_Nil_conv list_all_iff)
  moreover have "list_all is_space (takeWhile is_space s)"
    by (auto simp: list_all_iff dest: set_takeWhileD)
  ultimately show "list_all is_space s"
    by (metis list_all_append takeWhile_dropWhile_id)
next
  assume "list_all is_space s"
  then show "trim_space s = []"
    by (auto simp: trim_space_def trim_right_def list_all_iff dest: set_dropWhileD)
qed

lemma parseInstruction_kind:
  "parseInstruction raw line = Inr i \<Longrightarrow> IKind i \<noteq> InstrUnknown \<and> Line i = line \<and> IRaw i = raw"
  unfolding parseInstruction_def
  by (auto simp: Let_def rbind_Inr_iff split: prod.splits if_splits option.splits)

text \<open>The reader's invariant: known kinds, line numbers that grow and stay within the lines read.\<close>

definition reader_inv :: "reader \<Rightarrow> bool" where
  "reader_inv st \<longleftrightarrow>
     list_all (\<lambda>i. IKind i \<noteq> InstrUnknown) (instrs st)
     \<and> sorted_wrt (<) (map Line (instrs st))
     \<and> list_all (\<lambda>i. 0 < Line i \<and> Line i \<le> curLine st) (instrs st)
     \<and> (rbuf st \<noteq> [] \<longrightarrow> 0 < startLine st \<and> startLine st \<le> curLine st
           \<and> list_all (\<lambda>i. Line i < startLine st) (instrs st))"

lemma flush_inv:
  assumes "reader_inv st" "flush st = Inr st'"
  shows "reader_inv st' \<and> rbuf st' = [] \<and> curLine st' = curLine st \<and> escape st' = escape st"
proof (cases "trim_space (rbuf st) = []")
  case True
  with assms show ?thesis by (auto simp: flush_def reader_inv_def)
next
  case False
  then have nb: "rbuf st \<noteq> []" by (auto simp: trim_space_def trim_right_def)
  from assms(2) False obtain i where p: "parseInstruction (trim_space (rbuf st)) (startLine st) = Inr i"
    and st': "st' = st\<lparr>rbuf := [], instrs := instrs st @ [i]\<rparr>"
    by (auto simp: flush_def Let_def rbind_Inr_iff)
  from parseInstruction_kind [OF p] assms(1) nb show ?thesis
    by (auto simp: st' reader_inv_def sorted_wrt_append list_all_iff)
qed

lemma reader_inv_step:
  "reader_inv st \<Longrightarrow> reader_inv (st\<lparr>curLine := curLine st + 1\<rparr>)"
  "reader_inv st \<Longrightarrow> reader_inv (st\<lparr>directivesAllowed := b\<rparr>)" "reader_inv st \<Longrightarrow> reader_inv (st\<lparr>escape := e\<rparr>)"
  by (auto simp: reader_inv_def list_all_iff)

lemma read_line_inv:
  assumes "reader_inv st" "read_line st text = Inr st'"
  shows "reader_inv st' \<and> curLine st' = curLine st + 1"
proof -
  let ?st = "st\<lparr>curLine := curLine st + 1\<rparr>"
  let ?line = "trim_right is_cr text"
  let ?t = "dropWhile is_blank ?line"
  have i0: "reader_inv ?st" by (rule reader_inv_step(1) [OF assms(1)])
  have lt: "list_all (\<lambda>i. Line i < curLine st + 1) (instrs st)"
    using assms(1) by (auto simp: reader_inv_def list_all_iff)
  have st1: "reader_inv (?st\<lparr>directivesAllowed := False, startLine := (if rbuf st = [] then curLine st + 1 else startLine st), rbuf := b\<rparr>)" for b
    using i0 lt by (auto simp: reader_inv_def list_all_iff)
  consider (dir) "directivesAllowed st \<and> has_prefix ''#'' ?t" | (com) "\<not> directivesAllowed st" "has_prefix ''#'' ?t"
    | (blank) "\<not> has_prefix ''#'' ?t" "trim_space ?line = []" | (content) "\<not> has_prefix ''#'' ?t" "trim_space ?line \<noteq> []" by blast
  then show ?thesis
  proof cases
    case dir
    with assms(2) i0 show ?thesis
      by (auto simp: read_line_def Let_def reader_inv_step split: option.splits if_splits)
  next
    case com
    with assms(2) have "?st = st'" by (simp add: read_line_def)
    with i0 show ?thesis by auto
  next
    case blank
    with assms(2) obtain st2 where f: "flush ?st = Inr st2" "st' = st2\<lparr>directivesAllowed := False\<rparr>"
      by (auto simp: read_line_def rbind_Inr_iff)
    with flush_inv [OF i0 f(1)] show ?thesis by (simp add: reader_inv_step)
  next
    case content
    let ?s1 = "?st\<lparr>directivesAllowed := False, startLine := (if rbuf st = [] then curLine st + 1 else startLine st)\<rparr>"
    show ?thesis
    proof (cases "trim_right is_blank ?line \<noteq> [] \<and> last (trim_right is_blank ?line) = escape st")
      case True
      with content assms(2) have "st' = ?s1\<lparr>rbuf := rbuf st @ butlast (trim_right is_blank ?line) @ '' ''\<rparr>"
        by (cases "rbuf st = []") (auto simp: read_line_def Let_def)
      with st1 show ?thesis by simp
    next
      case False
      with content assms(2) have f: "flush (?s1\<lparr>rbuf := rbuf st @ ?line\<rparr>) = Inr st'"
        by (auto simp: read_line_def Let_def)
      from flush_inv [OF _ this] st1 show ?thesis by simp
    qed
  qed
qed

lemma read_lines_inv:
  "reader_inv st \<Longrightarrow> read_lines st ls = Inr st' \<Longrightarrow> reader_inv st' \<and> curLine st' = curLine st + length ls"
proof (induction ls arbitrary: st)
  case (Cons l ls)
  from Cons.prems(2) obtain s1 where s1: "read_line st l = Inr s1" "read_lines s1 ls = Inr st'"
    by (auto simp: rbind_Inr_iff)
  from read_line_inv [OF Cons.prems(1) s1(1)] Cons.IH [of s1] s1(2) show ?case by simp
qed simp

section \<open>Logical lines\<close>

text \<open>A block: lines that end in the escape character, then a last line without it.\<close>

definition block_lines :: "string list \<times> string \<Rightarrow> string list" where
  "block_lines b = map (\<lambda>p. p @ [CHR 0x5C]) (fst b) @ [snd b]"

definition block_text :: "string list \<times> string \<Rightarrow> string" where
  "block_text b = trim_space (concat (map (\<lambda>p. p @ '' '') (fst b)) @ snd b)"

definition piece_ok :: "string \<Rightarrow> bool" where
  "piece_ok p \<longleftrightarrow> \<not> has_prefix ''#'' (dropWhile is_blank p)"

definition block_ok :: "string list \<times> string \<Rightarrow> bool" where
  "block_ok b \<longleftrightarrow>
     list_all piece_ok (fst b) \<and> piece_ok (snd b) \<and> trim_right is_cr (snd b) = snd b
     \<and> trim_space (snd b) \<noteq> [] \<and> last (trim_right is_blank (snd b)) \<noteq> CHR 0x5C"

fun parse_blocks :: "nat \<Rightarrow> (string list \<times> string) list \<Rightarrow> docker_error + Instruction list" where
  "parse_blocks n [] = Inr []"
| "parse_blocks n (b # bs) =
     rbind (parseInstruction (block_text b) (n + 1)) (\<lambda>i.
       rbind (parse_blocks (n + length (block_lines b)) bs) (\<lambda>is. Inr (i # is)))"

lemma piece_ok_escape: "piece_ok p \<Longrightarrow> \<not> has_prefix ''#'' (dropWhile is_blank (p @ [CHR 0x5C]))"
  by (cases "dropWhile is_blank p") (auto simp: piece_ok_def dropWhile_append has_prefix_def is_blank_def)

lemma read_line_cont:
  assumes "piece_ok p" "escape st = CHR 0x5C"
  shows "read_line st (p @ [CHR 0x5C]) =
    Inr (st\<lparr>curLine := curLine st + 1, directivesAllowed := False,
           startLine := (if rbuf st = [] then curLine st + 1 else startLine st), rbuf := rbuf st @ p @ '' ''\<rparr>)"
proof -
  have "trim_right is_cr (p @ [CHR 0x5C]) = p @ [CHR 0x5C]" "trim_right is_blank (p @ [CHR 0x5C]) = p @ [CHR 0x5C]"
    by (simp_all add: trim_right_snoc is_cr_def is_blank_def)
  moreover have "trim_space (p @ [CHR 0x5C]) \<noteq> []"
    by (simp add: trim_space_Nil_iff is_space_def)
  ultimately show ?thesis
    using piece_ok_escape [OF assms(1)] assms(2) by (simp add: read_line_def Let_def)
qed

lemma read_conts:
  assumes "list_all piece_ok ps" "escape st = CHR 0x5C"
  shows "read_lines st (map (\<lambda>p. p @ [CHR 0x5C]) ps @ ls) =
    (if ps = [] then read_lines st ls
     else read_lines (st\<lparr>curLine := curLine st + length ps, directivesAllowed := False,
           startLine := (if rbuf st = [] then curLine st + 1 else startLine st),
           rbuf := rbuf st @ concat (map (\<lambda>p. p @ '' '') ps)\<rparr>) ls)"
  using assms
proof (induction ps arbitrary: st)
  case (Cons p ps)
  then show ?case by (simp add: read_line_cont)
qed simp

lemma read_block:
  assumes ok: "block_ok b" and st: "rbuf st = []" "escape st = CHR 0x5C"
  shows "read_lines st (block_lines b @ ls) =
    rbind (parseInstruction (block_text b) (curLine st + 1)) (\<lambda>i.
      read_lines (st\<lparr>curLine := curLine st + length (block_lines b), directivesAllowed := False,
          startLine := curLine st + 1, rbuf := [], instrs := instrs st @ [i]\<rparr>) ls)"
proof -
  obtain ps l where b: "b = (ps, l)" by (cases b)
  have l: "\<not> has_prefix ''#'' (dropWhile is_blank l)" "trim_right is_cr l = l" "trim_space l \<noteq> []"
    "last (trim_right is_blank l) \<noteq> CHR 0x5C" and ps: "list_all piece_ok ps"
    using ok by (simp_all add: block_ok_def piece_ok_def b)
  let ?raw = "concat (map (\<lambda>p. p @ '' '') ps) @ l"
  have ne: "trim_space ?raw \<noteq> []" using l(3) by (simp add: trim_space_Nil_iff)
  have rl: "read_line s l = rbind (parseInstruction (trim_space (rbuf s @ l)) (if rbuf s = [] then curLine s + 1 else startLine s))
      (\<lambda>i. Inr (s\<lparr>curLine := curLine s + 1, directivesAllowed := False,
             startLine := (if rbuf s = [] then curLine s + 1 else startLine s), rbuf := [], instrs := instrs s @ [i]\<rparr>))"
    if "escape s = CHR 0x5C" "trim_space (rbuf s @ l) \<noteq> []" for s
    using l that by (simp add: read_line_def flush_def Let_def)
  show ?thesis
  proof (cases "ps = []")
    case True
    then show ?thesis
      using rl [of st] st ne by (cases "parseInstruction (trim_space l) (Suc (curLine st))")
        (simp_all add: b block_lines_def block_text_def)
  next
    case False
    let ?s = "st\<lparr>curLine := curLine st + length ps, directivesAllowed := False,
           startLine := curLine st + 1, rbuf := concat (map (\<lambda>p. p @ '' '') ps)\<rparr>"
    have "rbuf ?s \<noteq> []" using False by (cases ps) auto
    with False show ?thesis
      using rl [of ?s] read_conts [OF ps, of st "l # ls"] st ne
      by (cases "parseInstruction (trim_space ?raw) (Suc (curLine st))")
        (simp_all add: b block_lines_def block_text_def)
  qed
qed

lemma read_blocks:
  assumes "list_all block_ok bs" "rbuf st = []" "escape st = CHR 0x5C"
  shows "rbind (read_lines st (concat (map block_lines bs))) (\<lambda>s. rbind (flush s) (\<lambda>s'. Inr (instrs s')))
    = rbind (parse_blocks (curLine st) bs) (\<lambda>is. Inr (instrs st @ is))"
  using assms
proof (induction bs arbitrary: st)
  case Nil
  then show ?case by (simp add: flush_def trim_space_def trim_right_def)
next
  case (Cons b bs)
  let ?n = "curLine st + length (block_lines b)"
  show ?case
  proof (cases "parseInstruction (block_text b) (curLine st + 1)")
    case (Inl e)
    with Cons.prems show ?thesis by (simp add: read_block)
  next
    case (Inr i)
    let ?s = "st\<lparr>curLine := ?n, directivesAllowed := False, startLine := curLine st + 1, rbuf := [], instrs := instrs st @ [i]\<rparr>"
    have "rbind (read_lines ?s (concat (map block_lines bs))) (\<lambda>s. rbind (flush s) (\<lambda>s'. Inr (instrs s')))
        = rbind (parse_blocks ?n bs) (\<lambda>is. Inr (instrs st @ i # is))"
      using Cons.IH [of ?s] Cons.prems by simp
    with Inr Cons.prems show ?thesis by (cases "parse_blocks ?n bs") (simp_all add: read_block)
  qed
qed

section \<open>Words and templates\<close>

definition quote_word :: "string \<Rightarrow> string" where
  "quote_word w = CHR 0x22 # concat (map (\<lambda>c. if c = CHR 0x22 \<or> c = CHR 0x5C then [CHR 0x5C, c] else [c]) w) @ [CHR 0x22]"

fun quote_words :: "string list \<Rightarrow> string" where
  "quote_words [] = []"
| "quote_words (w # ws) = quote_word w @ CHR '' '' # quote_words ws"

lemma shell_go_Double_plain:
  "c \<noteq> CHR 0x22 \<Longrightarrow> c \<noteq> CHR 0x5C \<Longrightarrow> shell_go Double cur (c # s) = shell_go Double (cur @ [c]) s"
  by (cases s) simp_all

lemma shell_go_Double_end: "shell_go Double cur (CHR 0x22 # s) = shell_go Plain cur s"
  by (cases s) simp_all

lemma shell_go_word:
  "shell_go Double cur (concat (map (\<lambda>c. if c = CHR 0x22 \<or> c = CHR 0x5C then [CHR 0x5C, c] else [c]) w) @ CHR 0x22 # s)
   = shell_go Plain (cur @ w) s"
  by (induction w arbitrary: cur) (simp_all add: shell_go_Double_plain shell_go_Double_end)

lemma shell_go_words: "list_all (\<lambda>w. w \<noteq> []) ws \<Longrightarrow> shell_go Plain [] (quote_words ws) = ws"
  by (induction ws) (simp_all add: quote_word_def shell_go_word is_blank_def)

text \<open>A template is a sequence of literal text and references.\<close>

datatype segment = Lit string | Ref string | Braced string | Default string string | Alternate string string

definition escape_text :: "string \<Rightarrow> string" where
  "escape_text s = concat (map (\<lambda>c. if c = CHR 0x5C \<or> c = CHR ''$'' then [CHR 0x5C, c] else [c]) s)"

fun seg_text :: "segment \<Rightarrow> string" where
  "seg_text (Lit s) = escape_text s"
| "seg_text (Ref n) = CHR ''$'' # n"
| "seg_text (Braced n) = ''${'' @ n @ ''}''"
| "seg_text (Default n d) = ''${'' @ n @ '':-'' @ d @ ''}''"
| "seg_text (Alternate n a) = ''${'' @ n @ '':+'' @ a @ ''}''"

fun seg_value :: "(string \<rightharpoonup> string) \<Rightarrow> segment \<Rightarrow> string" where
  "seg_value vars (Lit s) = s"
| "seg_value vars (Ref n) = var vars n"
| "seg_value vars (Braced n) = var vars n"
| "seg_value vars (Default n d) = (if var vars n \<noteq> [] then var vars n else d)"
| "seg_value vars (Alternate n a) = (if var vars n \<noteq> [] then a else [])"

definition name_ok :: "string \<Rightarrow> bool" where
  "name_ok n \<longleftrightarrow> n \<noteq> [] \<and> list_all isIdentChar n"

fun seg_ok :: "string \<Rightarrow> segment \<Rightarrow> bool" where
  "seg_ok t (Lit s) = True"
| "seg_ok t (Ref n) = (name_ok n \<and> (t = [] \<or> \<not> isIdentChar (hd t)))"
| "seg_ok t (Braced n) = name_ok n"
| "seg_ok t (Default n d) = (name_ok n \<and> CHR ''}'' \<notin> set d)"
| "seg_ok t (Alternate n a) = (name_ok n \<and> CHR ''}'' \<notin> set a \<and> index a '':-'' = None)"

fun template_text :: "segment list \<Rightarrow> string" where
  "template_text [] = []"
| "template_text (g # gs) = seg_text g @ template_text gs"

fun template_ok :: "segment list \<Rightarrow> bool" where
  "template_ok [] = True"
| "template_ok (g # gs) = (seg_ok (template_text gs) g \<and> template_ok gs)"

lemma ident_not_special:
  "isIdentChar c \<Longrightarrow> c \<noteq> CHR ''}'' \<and> c \<noteq> CHR ''{'' \<and> c \<noteq> CHR '':'' \<and> c \<noteq> CHR ''-'' \<and> c \<noteq> CHR ''+''"
  by (auto simp: isIdentChar_def is_letter_def is_digit_def Let_def)

lemma Expand_plain: "c \<noteq> CHR 0x5C \<Longrightarrow> c \<noteq> CHR ''$'' \<Longrightarrow> Expand (c # s) vars = c # Expand s vars"
  by (cases s) simp_all

lemma Expand_escape_text: "Expand (escape_text s @ t) vars = s @ Expand t vars"
  by (induction s) (simp_all add: escape_text_def Expand_plain)

lemma Expand_ref:
  assumes "name_ok n" "t = [] \<or> \<not> isIdentChar (hd t)"
  shows "Expand (CHR ''$'' # n @ t) vars = var vars n @ Expand t vars"
proof -
  obtain c m where n: "n = c # m" "isIdentChar c" using assms(1) by (cases n) (auto simp: name_ok_def)
  have tw: "takeWhile isIdentChar (n @ t) = n" "dropWhile isIdentChar (n @ t) = t"
    using assms by (cases t; auto simp: name_ok_def list_all_iff takeWhile_append dropWhile_append)+
  from tw n ident_not_special [OF n(2)] show ?thesis by simp
qed

lemma Expand_braced:
  "CHR ''}'' \<notin> set e \<Longrightarrow> Expand (''${'' @ e @ ''}'' @ t) vars = evalBracedExpr e vars @ Expand t vars"
  using index_byte_append [of "CHR ''}''" e t] by simp

lemma index_skip:
  "\<lbrakk>sub = c # cs; c \<notin> set n\<rbrakk> \<Longrightarrow> index (n @ s) sub = map_option ((+) (length n)) (index s sub)"
proof (induction n)
  case Nil
  then show ?case by (cases "index s sub") simp_all
next
  case (Cons a n)
  then show ?case by (cases "index s sub") (auto simp: has_prefix_def)
qed

lemma eval_default:
  assumes "name_ok n"
  shows "evalBracedExpr (n @ '':-'' @ d) vars = (if var vars n \<noteq> [] then var vars n else d)"
proof -
  have c: "CHR '':'' \<notin> set n" using assms ident_not_special by (auto simp: name_ok_def list_all_iff)
  have "index (n @ '':-'' @ d) '':-'' = Some (length n)"
    using c by (subst index_skip [of _ "CHR '':''" "''-''"]) (simp_all add: has_prefix_def)
  with assms show ?thesis by (cases n) (simp_all add: evalBracedExpr_def name_ok_def)
qed

lemma eval_alternate:
  assumes "name_ok n" "index a '':-'' = None"
  shows "evalBracedExpr (n @ '':+'' @ a) vars = (if var vars n \<noteq> [] then a else [])"
proof -
  have c: "CHR '':'' \<notin> set n" using assms ident_not_special by (auto simp: name_ok_def list_all_iff)
  have "index (n @ '':+'' @ a) '':-'' = None" "index (n @ '':+'' @ a) '':+'' = Some (length n)"
    using c assms(2) by (subst index_skip [of _ "CHR '':''" "''-''"] index_skip [of _ "CHR '':''" "''+''"],
        simp_all add: has_prefix_def)+
  with assms show ?thesis by (cases n) (simp_all add: evalBracedExpr_def name_ok_def)
qed

lemma eval_name:
  assumes "name_ok n"
  shows "evalBracedExpr n vars = var vars n"
proof -
  have c: "CHR '':'' \<notin> set n" using assms ident_not_special by (auto simp: name_ok_def list_all_iff)
  have "index n '':-'' = None" "index n '':+'' = None"
    using index_skip [of "'':-''" "CHR '':''" "''-''" n "[]"] index_skip [of "'':+''" "CHR '':''" "''+''" n "[]"] c by simp_all
  then show ?thesis by (simp add: evalBracedExpr_def)
qed

lemma Expand_seg:
  assumes "seg_ok t g"
  shows "Expand (seg_text g @ t) vars = seg_value vars g @ Expand t vars"
proof -
  have nm: "CHR ''}'' \<notin> set n" if "name_ok n" for n
    using that ident_not_special by (auto simp: name_ok_def list_all_iff)
  show ?thesis
  proof (cases g)
    case (Lit s)
    then show ?thesis by (simp add: Expand_escape_text)
  next
    case (Ref n)
    with assms show ?thesis by (simp add: Expand_ref)
  next
    case (Braced n)
    with assms show ?thesis using Expand_braced [of n t vars] nm by (simp add: eval_name)
  next
    case (Default n d)
    with assms show ?thesis using Expand_braced [of "n @ '':-'' @ d" t vars] nm eval_default [of n d vars] by simp
  next
    case (Alternate n a)
    with assms show ?thesis using Expand_braced [of "n @ '':+'' @ a" t vars] nm eval_alternate [of n a vars] by simp
  qed
qed

lemma Expand_template: "template_ok gs \<Longrightarrow> Expand (template_text gs) vars = concat (map (seg_value vars) gs)"
  by (induction gs) (simp_all add: Expand_seg)

section \<open>Stages of an instruction list\<close>

definition from_of :: "Instruction \<Rightarrow> Stage \<Rightarrow> bool" where
  "from_of f s \<longleftrightarrow> IKind f = InstrFrom \<and> parseFromArgs (Line f) (Args f) = Inr (SName s, BaseRef s)"

definition not_from :: "Instruction \<Rightarrow> bool" where "not_from i \<longleftrightarrow> IKind i \<noteq> InstrFrom"

definition is_arg :: "Instruction \<Rightarrow> bool" where "is_arg i \<longleftrightarrow> IKind i = InstrArg"

text \<open>\<open>stages_of is gs fs ss\<close>: the list is the global arguments \<open>gs\<close> followed by one FROM of \<open>fs\<close> and
  the instructions of its stage of \<open>ss\<close>, in order.\<close>

definition stages_of :: "Instruction list \<Rightarrow> Instruction list \<Rightarrow> Instruction list \<Rightarrow> Stage list \<Rightarrow> bool" where
  "stages_of is gs fs ss \<longleftrightarrow>
     is = gs @ concat (map2 (\<lambda>f s. f # Instrs s) fs ss)
     \<and> list_all is_arg gs \<and> list_all2 from_of fs ss
     \<and> list_all (\<lambda>s. list_all not_from (Instrs s)) ss
     \<and> map Index ss = [0..<length ss]"

lemma stages_of_arg: "stages_of is gs [] [] \<Longrightarrow> is_arg i \<Longrightarrow> stages_of (is @ [i]) (gs @ [i]) [] []"
  by (simp add: stages_of_def)

lemma stages_of_from:
  assumes "stages_of is gs fs ss" "IKind i = InstrFrom" "parseFromArgs (Line i) (Args i) = Inr (n, b)"
  shows "stages_of (is @ [i]) gs (fs @ [i]) (ss @ [\<lparr>Index = length ss, SName = n, BaseRef = b, Instrs = []\<rparr>])"
proof -
  have "length fs = length ss" using assms(1) by (auto simp: stages_of_def list_all2_lengthD)
  with assms show ?thesis by (simp add: stages_of_def from_of_def list_all2_append)
qed

lemma stages_of_instr:
  assumes "stages_of is gs fs ss" "ss \<noteq> []" "not_from i"
  shows "stages_of (is @ [i]) gs fs (append_instr ss i)"
proof -
  obtain ss' s where ss: "ss = ss' @ [s]" using assms(2) by (cases ss rule: rev_cases) auto
  have len: "length fs = length ss" using assms(1) by (auto simp: stages_of_def list_all2_lengthD)
  then obtain fs' f where fs: "fs = fs' @ [f]" by (cases fs rule: rev_cases) (auto simp: ss)
  have l': "length fs' = length ss'" using len by (simp add: ss fs)
  with assms show ?thesis
    by (simp add: stages_of_def ss fs append_instr_def list_all2_append from_of_def)
qed

lemma split_go_sound:
  assumes "split_go gs ss is = Inr (gs', ss')" "stages_of pre gs fs ss"
  shows "\<exists>fs'. stages_of (pre @ is) gs' fs' ss'"
  using assms
proof (induction "is" arbitrary: gs ss pre fs)
  case Nil
  then show ?case by auto
next
  case (Cons i "is")
  have step: ?case if "split_go gs2 ss2 is = Inr (gs', ss')" "stages_of (pre @ [i]) gs2 fs2 ss2" for gs2 ss2 fs2
    using Cons.IH [OF that] by simp
  show ?case
  proof (cases "IKind i = InstrFrom")
    case True
    with Cons.prems(1) obtain n b where p: "parseFromArgs (Line i) (Args i) = Inr (n, b)"
      and r: "split_go gs (ss @ [\<lparr>Index = length ss, SName = n, BaseRef = b, Instrs = []\<rparr>]) is = Inr (gs', ss')"
      by (auto simp: rbind_Inr_iff)
    from step [OF r stages_of_from [OF Cons.prems(2) True p]] show ?thesis .
  next
    case False
    show ?thesis
    proof (cases "ss = []")
      case True
      with False Cons.prems have "is_arg i" "split_go (gs @ [i]) [] is = Inr (gs', ss')" "stages_of pre gs [] []"
        by (auto simp: is_arg_def stages_of_def split: if_splits)
      with step stages_of_arg show ?thesis by blast
    next
      case ne: False
      with False Cons.prems(1) have r: "split_go gs (append_instr ss i) is = Inr (gs', ss')" by simp
      from step [OF r stages_of_instr [OF Cons.prems(2) ne]] False show ?thesis by (simp add: not_from_def)
    qed
  qed
qed

lemma split_go_append:
  "split_go gs ss (a @ b) = rbind (split_go gs ss a) (\<lambda>(gs', ss'). split_go gs' ss' b)"
proof (induction a arbitrary: gs ss)
  case (Cons i a)
  then show ?case by (cases "parseFromArgs (Line i) (Args i)") auto
qed simp

lemma split_go_args: "list_all is_arg is \<Longrightarrow> split_go gs [] is = Inr (gs @ is, [])"
  by (induction "is" arbitrary: gs) (simp_all add: is_arg_def)

lemma split_go_instrs:
  "list_all not_from is \<Longrightarrow> split_go gs (ss @ [s]) is = Inr (gs, ss @ [s\<lparr>Instrs := Instrs s @ is\<rparr>])"
  by (induction "is" arbitrary: s) (simp_all add: not_from_def append_instr_def)

lemma split_go_complete: "stages_of is gs fs ss \<Longrightarrow> split_go [] [] is = Inr (gs, ss)"
proof (induction ss arbitrary: "is" fs rule: rev_induct)
  case Nil
  then show ?case by (simp add: stages_of_def split_go_args)
next
  case (snoc s ss)
  then have len: "length fs = Suc (length ss)" by (auto simp: stages_of_def dest: list_all2_lengthD)
  then obtain fs' f where fs: "fs = fs' @ [f]" by (cases fs rule: rev_cases) auto
  with len have l': "length fs' = length ss" by simp
  let ?pre = "gs @ concat (map2 (\<lambda>f s. f # Instrs s) fs' ss)"
  have pre: "stages_of ?pre gs fs' ss" and i: "is = ?pre @ f # Instrs s" and f: "from_of f s"
    and ns: "list_all not_from (Instrs s)" and ix: "Index s = length ss"
    using snoc.prems l' by (auto simp: stages_of_def fs list_all2_append)
  have s: "s = \<lparr>Index = length ss, SName = SName s, BaseRef = BaseRef s, Instrs = []\<rparr>\<lparr>Instrs := Instrs s\<rparr>"
    using ix by simp
  have "split_go [] [] is = split_go gs ss (f # Instrs s)"
    using snoc.IH [OF pre] by (simp only: i split_go_append rbind.simps prod.case)
  also have "\<dots> = Inr (gs, ss @ [s])"
    using f ns split_go_instrs [of "Instrs s" gs ss "\<lparr>Index = length ss, SName = SName s, BaseRef = BaseRef s, Instrs = []\<rparr>"] ix
    by (simp add: from_of_def)
  finally show ?case .
qed

section \<open>Properties\<close>

text \<open>C27: line continuation. A file made of blocks, each a sequence of lines that end in the escape
  character followed by one that does not, is parsed block by block: each block is one instruction, whose
  text is its lines joined by spaces with the outer white space removed, numbered by its first line, and
  the first block that is no instruction is the error.\<close>

theorem parse_blocks_exact:
  assumes "list_all block_ok bs"
  shows "ParseDockerfile (concat (map block_lines bs)) False = parse_blocks 0 bs"
  using read_blocks [OF assms, of reader0]
  by (cases "parse_blocks 0 bs") (simp_all add: ParseDockerfile_def reader0_def)

theorem parse_blocks_exact_witness:
  "ParseDockerfile [''FROM alpine'', ''RUN apk add '' @ [CHR 0x5C], ''  curl'', ''CMD sh''] False
   = Inr [\<lparr>IKind = InstrFrom, Args = [''alpine''], JSON = False, Flags = [], IRaw = ''FROM alpine'', Line = 1\<rparr>,
          \<lparr>IKind = InstrRun, Args = [''apk add    curl''], JSON = False, Flags = [], IRaw = ''RUN apk add    curl'', Line = 2\<rparr>,
          \<lparr>IKind = InstrCmd, Args = [''sh''], JSON = False, Flags = [], IRaw = ''CMD sh'', Line = 4\<rparr>]"
proof -
  have ok: "list_all block_ok [([], ''FROM alpine''), ([''RUN apk add ''], ''  curl''), ([], ''CMD sh'')]" by code_simp
  have "concat (map block_lines [([], ''FROM alpine''), ([''RUN apk add ''], ''  curl''), ([], ''CMD sh'')])
     = [''FROM alpine'', ''RUN apk add '' @ [CHR 0x5C], ''  curl'', ''CMD sh'']" by code_simp
  moreover have "parse_blocks 0 [([], ''FROM alpine''), ([''RUN apk add ''], ''  curl''), ([], ''CMD sh'')] =
      Inr [\<lparr>IKind = InstrFrom, Args = [''alpine''], JSON = False, Flags = [], IRaw = ''FROM alpine'', Line = 1\<rparr>,
          \<lparr>IKind = InstrRun, Args = [''apk add    curl''], JSON = False, Flags = [], IRaw = ''RUN apk add    curl'', Line = 2\<rparr>,
          \<lparr>IKind = InstrCmd, Args = [''sh''], JSON = False, Flags = [], IRaw = ''CMD sh'', Line = 4\<rparr>]"
    by code_simp
  ultimately show ?thesis using parse_blocks_exact [OF ok] by simp
qed

text \<open>Whatever the file holds, the instructions a successful parse returns have known kinds and line
  numbers that strictly grow and lie within the file; a read error is never swallowed.\<close>

theorem parse_line_numbers:
  "ParseDockerfile ls err = Inr is \<Longrightarrow>
     \<not> err \<and> list_all (\<lambda>i. IKind i \<noteq> InstrUnknown) is \<and> sorted_wrt (<) (map Line is)
     \<and> list_all (\<lambda>i. 1 \<le> Line i \<and> Line i \<le> length ls) is"
proof -
  assume "ParseDockerfile ls err = Inr is"
  then obtain st st' where r: "read_lines reader0 ls = Inr st" "flush st = Inr st'" "\<not> err" "is = instrs st'"
    by (auto simp: ParseDockerfile_def rbind_Inr_iff split: if_splits)
  have "reader_inv reader0" "curLine reader0 = 0" by (simp_all add: reader0_def reader_inv_def)
  with read_lines_inv [OF _ r(1)] flush_inv [OF _ r(2)] have "reader_inv st'" "curLine st' = length ls" by simp_all
  with r(3,4) show ?thesis by (auto simp: reader_inv_def list_all_iff)
qed

theorem parse_line_numbers_witness:
  "\<exists>is. ParseDockerfile [''# syntax=x'', ''FROM a'', '''', ''USER b''] False = Inr is \<and> map Line is = [2, 4]
        \<and> sorted_wrt (<) (map Line is)"
proof -
  have p: "ParseDockerfile [''# syntax=x'', ''FROM a'', '''', ''USER b''] False
    = Inr [\<lparr>IKind = InstrFrom, Args = [''a''], JSON = False, Flags = [], IRaw = ''FROM a'', Line = 2\<rparr>,
          \<lparr>IKind = InstrUser, Args = [''b''], JSON = False, Flags = [], IRaw = ''USER b'', Line = 4\<rparr>]" by code_simp
  with parse_line_numbers [OF p] show ?thesis by simp
qed

text \<open>quoting. Words written in double quotes, with a backslash before each quote and backslash, are
  split back into the same words, whatever characters they hold, as long as none is empty.\<close>

theorem shell_split_quotes:
  assumes "list_all (\<lambda>w. w \<noteq> []) ws"
  shows "shellSplit (quote_words ws) = ws"
  using shell_go_words [OF assms] by (simp add: shellSplit_def)

theorem shell_split_quotes_witness:
  "shellSplit (quote_words [''a b'', [CHR 0x22, CHR 0x5C]]) = [''a b'', [CHR 0x22, CHR 0x5C]]"
  by (rule shell_split_quotes) simp

text \<open>expansion. A template of escaped text and of the four reference forms expands to the
  concatenation of its parts: the text as written, the value of the variable, the default when it is unset
  or empty, the alternate when it is not.\<close>

theorem expand_template:
  assumes "template_ok gs"
  shows "Expand (template_text gs) vars = concat (map (seg_value vars) gs)"
  using assms by (rule Expand_template)

theorem expand_template_witness:
  "Expand ''$A-${B:-x}${A:+y}'' [''A'' \<mapsto> ''1''] = ''1-xy''"
proof -
  have ok: "template_ok [Ref ''A'', Lit ''-'', Default ''B'' ''x'', Alternate ''A'' ''y'']" by code_simp
  have t: "template_text [Ref ''A'', Lit ''-'', Default ''B'' ''x'', Alternate ''A'' ''y''] = ''$A-${B:-x}${A:+y}''" by code_simp
  show ?thesis using expand_template [OF ok, of "[''A'' \<mapsto> ''1'']"] unfolding t by (simp add: var_def)
qed

text \<open>An alternate that contains the default operator is misread: with \<open>X\<close> set, \<open>${X:+a:-b}\<close> expands
  to \<open>b\<close>, although the alternate of a set variable is \<open>a:-b\<close>. An empty quoted word is dropped.\<close>

theorem expand_alternate_misread:
  "Expand ''${X:+a:-b}'' [''X'' \<mapsto> ''1''] = ''b''
   \<and> shellSplit [CHR 0x22, CHR 0x22] = []"
  by code_simp

text \<open>C28: stages. A list of instructions is accepted with the global arguments \<open>gs\<close> and the stages \<open>ss\<close>
  exactly when it is the ARGs \<open>gs\<close> followed by at least one stage, each its FROM, whose arguments give the
  name and the base, and its other instructions in order, with the stages numbered from 0.\<close>

theorem split_stages_exact:
  "SplitStages is = Inr (gs, ss) \<longleftrightarrow> ss \<noteq> [] \<and> (\<exists>fs. stages_of is gs fs ss)"
proof
  assume "SplitStages is = Inr (gs, ss)"
  then have "split_go [] [] is = Inr (gs, ss)" "ss \<noteq> []"
    by (auto simp: SplitStages_def rbind_Inr_iff split: prod.splits if_splits)
  with split_go_sound [of "[]" "[]" "is" gs ss "[]" "[]"] show "ss \<noteq> [] \<and> (\<exists>fs. stages_of is gs fs ss)"
    by (simp add: stages_of_def)
next
  assume "ss \<noteq> [] \<and> (\<exists>fs. stages_of is gs fs ss)"
  then show "SplitStages is = Inr (gs, ss)" using split_go_complete by (auto simp: SplitStages_def)
qed

end
