(* ===== verification/GoPath.thy ===== *)
theory GoPath
  imports GoStrings
begin

text \<open>
  The functions of Go's package \<open>path\<close> in use: \<open>Clean\<close>, \<open>Dir\<close>, \<open>Base\<close>, \<open>Join\<close>. They work on slash-separated
  segments; a path without empty, dot and dot-dot segments is written \<open>join_path\<close> of its segments here.
\<close>

section \<open>Clean, Dir, Base and Join\<close>

definition clean_step :: "bool \<Rightarrow> string list \<Rightarrow> string \<Rightarrow> string list" where
  "clean_step rooted out seg =
     (if seg = [] \<or> seg = ''.'' then out
      else if seg = ''..'' then
        (if out \<noteq> [] \<and> last out \<noteq> ''..'' then butlast out else if rooted then out else out @ [seg])
      else out @ [seg])"

abbreviation join_path :: "string list \<Rightarrow> string" where
  "join_path \<equiv> join_with ''/''"

definition path_clean :: "string \<Rightarrow> string" where
  "path_clean p =
     (let rooted = has_prefix ''/'' p;
          out = (if rooted then ''/'' else []) @ join_path (foldl (clean_step rooted) [] (split_on CHR ''/'' p))
      in if out = [] then ''.'' else out)"

definition path_dir :: "string \<Rightarrow> string" where
  "path_dir p = path_clean (case last_index_byte p CHR ''/'' of Some i \<Rightarrow> take (i + 1) p | None \<Rightarrow> [])"

definition path_base :: "string \<Rightarrow> string" where
  "path_base p =
     (if p = [] then ''.''
      else let q = trim_right (\<lambda>c. c = CHR ''/'') p;
               b = (case last_index_byte q CHR ''/'' of Some i \<Rightarrow> drop (i + 1) q | None \<Rightarrow> q)
           in if b = [] then ''/'' else b)"

definition path_join :: "string list \<Rightarrow> string" where
  "path_join es = (let es' = filter (\<lambda>e. e \<noteq> []) es in if es' = [] then [] else path_clean (join_path es'))"

section \<open>Paths by their segments\<close>

definition good_seg :: "string \<Rightarrow> bool" where
  "good_seg s \<longleftrightarrow> s \<noteq> [] \<and> CHR ''/'' \<notin> set s \<and> s \<noteq> ''.'' \<and> s \<noteq> ''..''"

lemma good_ends: "good_seg x \<Longrightarrow> x \<noteq> [] \<and> hd x \<noteq> CHR ''/'' \<and> last x \<noteq> CHR ''/'' \<and> CHR ''/'' \<notin> set x"
  unfolding good_seg_def by (metis hd_in_set last_in_set)

lemma join_path_Cons: "xs \<noteq> [] \<Longrightarrow> join_path (x # xs) = x @ ''/'' @ join_path xs"
  by (cases xs) simp_all

lemma join_path_append: "xs \<noteq> [] \<Longrightarrow> ys \<noteq> [] \<Longrightarrow> join_path (xs @ ys) = join_path xs @ ''/'' @ join_path ys"
proof (induction xs)
  case (Cons x xs)
  then show ?case by (cases "xs = []") (simp_all add: join_path_Cons)
qed simp

lemma join_path_snoc: "xs \<noteq> [] \<Longrightarrow> join_path (xs @ [x]) = join_path xs @ ''/'' @ x"
  by (simp add: join_path_append)

lemma split_join: "xs \<noteq> [] \<Longrightarrow> list_all (\<lambda>x. CHR ''/'' \<notin> set x) xs \<Longrightarrow> split_on CHR ''/'' (join_path xs) = xs"
proof (induction xs)
  case (Cons x xs)
  then show ?case by (cases xs) (auto simp: split_on_notin split_on_append)
qed simp

lemma good_noslash: "list_all good_seg xs \<Longrightarrow> list_all (\<lambda>x. CHR ''/'' \<notin> set x) xs"
  by (auto simp: list_all_iff good_seg_def)

lemma join_path_inj: "xs \<noteq> [] \<Longrightarrow> ys \<noteq> [] \<Longrightarrow> list_all good_seg xs \<Longrightarrow> list_all good_seg ys \<Longrightarrow>
    join_path xs = join_path ys \<longleftrightarrow> xs = ys"
  using split_join good_noslash by metis

lemma join_path_not_Nil: "xs \<noteq> [] \<Longrightarrow> list_all good_seg xs \<Longrightarrow> join_path xs \<noteq> []"
  by (cases xs; cases "tl xs") (auto simp: good_seg_def join_path_Cons)

lemma foldl_clean_good: "list_all good_seg xs \<Longrightarrow> foldl (clean_step r) out xs = out @ xs"
  by (induction xs arbitrary: out) (auto simp: clean_step_def good_seg_def)

lemma hd_join: "xs \<noteq> [] \<Longrightarrow> list_all good_seg xs \<Longrightarrow> \<not> has_prefix ''/'' (join_path xs)"
proof (cases xs)
  case (Cons x ys)
  moreover assume "list_all good_seg xs"
  ultimately have "x \<noteq> []" "hd x \<noteq> CHR ''/''" using good_ends [of x] by simp_all
  with Cons show ?thesis by (cases x; cases ys) (auto simp: has_prefix_def)
qed simp

lemma clean_good: "xs \<noteq> [] \<Longrightarrow> list_all good_seg xs \<Longrightarrow> path_clean (join_path xs) = join_path xs"
  by (simp add: path_clean_def hd_join split_join good_noslash foldl_clean_good join_path_not_Nil)

lemma last_slash: "xs \<noteq> [] \<Longrightarrow> good_seg x \<Longrightarrow> last_index_byte (join_path (xs @ [x])) CHR ''/'' = Some (length (join_path xs))"
  by (simp add: join_path_snoc last_index_byte_append good_seg_def)

lemma no_slash: "good_seg x \<Longrightarrow> last_index_byte x CHR ''/'' = None"
  by (simp add: last_index_byte_None_iff good_seg_def)

lemma split_on_snoc: "split_on c (s @ [c]) = split_on c s @ [[]]"
  by (induction s) (auto split: list.split)

lemma dir_good:
  assumes "list_all good_seg (xs @ [x])"
  shows "path_dir (join_path (xs @ [x])) = (if xs = [] then ''.'' else join_path xs)"
proof (cases "xs = []")
  case True
  with assms show ?thesis by (simp add: path_dir_def no_slash path_clean_def clean_step_def has_prefix_def)
next
  case False
  have "\<not> has_prefix ''/'' (join_path xs @ ''/'')"
    using hd_join [OF False] join_path_not_Nil [OF False] assms by (cases "join_path xs") (simp_all add: has_prefix_def)
  then have "path_clean (join_path xs @ ''/'') = join_path xs"
    using False assms hd_join [OF False] join_path_not_Nil [OF False]
    by (auto simp: path_clean_def split_on_snoc split_join good_noslash foldl_clean_good clean_step_def)
  with False assms show ?thesis by (simp add: path_dir_def last_slash) (simp add: join_path_snoc)
qed

lemma base_good:
  assumes "list_all good_seg (xs @ [x])"
  shows "path_base (join_path (xs @ [x])) = x"
proof -
  have x: "x \<noteq> []" "last x \<noteq> CHR ''/''" "CHR ''/'' \<notin> set x" using assms good_ends [of x] by simp_all
  have l: "join_path (xs @ [x]) \<noteq> []" "last (join_path (xs @ [x])) = last x"
    using x by (cases "xs = []"; simp add: join_path_snoc)+
  then have "dropWhile (\<lambda>c. c = CHR ''/'') (rev (join_path (xs @ [x]))) = rev (join_path (xs @ [x]))"
    using x by (subst dropWhile_eq_self_iff) (simp add: hd_rev)
  then have t: "trim_right (\<lambda>c. c = CHR ''/'') (join_path (xs @ [x])) = join_path (xs @ [x])" by (simp add: trim_right_def)
  show ?thesis
  proof (cases "xs = []")
    case True
    with x t assms show ?thesis by (simp add: path_base_def no_slash)
  next
    case False
    with x t l assms show ?thesis by (simp add: path_base_def last_slash Let_def) (simp add: join_path_snoc)
  qed
qed

lemma join_good:
  assumes "list_all good_seg (xs @ [x])"
  shows "path_join [if xs = [] then ''.'' else join_path xs, x] = join_path (xs @ [x])"
proof -
  have x: "good_seg x" "x \<noteq> []" using assms by (auto simp: good_seg_def)
  show ?thesis
  proof (cases "xs = []")
    case True
    have "split_on CHR ''/'' (''./'' @ x) = [''.'', x]" using x by (simp add: split_on_notin good_seg_def)
    then have "path_clean (''./'' @ x) = x" using x by (simp add: path_clean_def has_prefix_def clean_step_def good_seg_def)
    with True x show ?thesis by (simp add: path_join_def)
  next
    case False
    then have "path_join [join_path xs, x] = path_clean (join_path (xs @ [x]))"
      using assms x join_path_not_Nil [OF False] by (simp add: path_join_def join_path_snoc)
    with False assms show ?thesis by (simp add: clean_good)
  qed
qed

text \<open>A prefix with a slash is a prefix of the segments.\<close>

lemma below_good:
  assumes "xs \<noteq> []" "ys \<noteq> []" "list_all good_seg xs" "list_all good_seg ys"
  shows "has_prefix (join_path xs @ ''/'') (join_path ys) \<longleftrightarrow> (\<exists>zs. zs \<noteq> [] \<and> ys = xs @ zs)"
proof
  assume "has_prefix (join_path xs @ ''/'') (join_path ys)"
  then obtain t where t: "join_path ys = join_path xs @ CHR ''/'' # t" by (auto simp: has_prefix_iff)
  have "ys = split_on CHR ''/'' (join_path ys)" using assms by (simp add: split_join good_noslash)
  also have "\<dots> = xs @ split_on CHR ''/'' t"
    unfolding t using assms(1,3)
  proof (induction xs)
    case (Cons x xs)
    then show ?case by (cases xs) (auto simp: good_seg_def split_on_append)
  qed simp
  finally show "\<exists>zs. zs \<noteq> [] \<and> ys = xs @ zs" by auto
next
  assume "\<exists>zs. zs \<noteq> [] \<and> ys = xs @ zs"
  with assms(1) show "has_prefix (join_path xs @ ''/'') (join_path ys)" by (auto simp: has_prefix_iff join_path_append)
qed

end
