(* ===== verification/ImageLayers.thy ===== *)
theory ImageLayers
  imports GoPath "HOL-Library.AList" "HOL-Library.Char_ord" "HOL-Library.List_Lexorder" "HOL-Library.Sublist"
begin

text \<open>
  The merge of image layers: \<open>src/pkg/lib/container/image/flatten.go\<close> and \<open>pathindex.go\<close>. A layer is a tar stream
  whose entries add files, or delete them from the layers below by whiteout markers. Maps are association lists with
  distinct keys; the order of Go's map iteration does not matter, since the loops only delete. The reference is an
  overlay of change sets on segment paths.
\<close>

section \<open>Tar entries and layers\<close>

text \<open>The header fields that the code reads; \<open>tmeta\<close> stands for the rest, which is copied.\<close>

datatype tar_type = TypeReg | TypeLink | TypeSymlink | TypeDir | TypeOther

record tar_header =
  tname :: string
  ttype :: tar_type
  tsize :: nat
  tmeta :: string

text \<open>A member: its header and its contents or the error of reading them; a layer ends with \<open>io.EOF\<close> or an error.\<close>

type_synonym tar_member = "tar_header \<times> (string + bytes)"

record layer =
  members :: "tar_member list"
  next_error :: "string option"

record fileEntry =
  header :: tar_header
  body :: bytes
  order :: nat

definition cleanPath :: "string \<Rightarrow> string" where
  "cleanPath p0 =
     (let p1 = path_clean p0; p2 = trim_prefix ''./'' p1; p3 = trim_prefix ''/'' p2
      in if p3 = ''.'' then [] else p3)"

definition delete_keys :: "('k \<Rightarrow> bool) \<Rightarrow> ('k \<times> 'v) list \<Rightarrow> ('k \<times> 'v) list" where
  "delete_keys P m = filter (\<lambda>(k, _). \<not> P k) m"

section \<open>Flatten\<close>

record flatten_state =
  files :: "(string \<times> fileEntry) list"
  norder :: nat
  currentLayerPaths :: "string list"

definition flatten_member :: "flatten_state \<Rightarrow> tar_member \<Rightarrow> string + flatten_state" where
  "flatten_member s m =
     (case m of (hdr, content) \<Rightarrow>
        let name = cleanPath (tname hdr); dir = path_dir name; base = path_base name
        in if base = ''.wh..wh..opq'' then
             Inr (s\<lparr>files := delete_keys (\<lambda>p. (p = dir \<or> has_prefix (dir @ ''/'') p) \<and> p \<notin> set (currentLayerPaths s)) (files s)\<rparr>)
           else if has_prefix ''.wh.'' base then
             let target = path_join [dir, drop 4 base]
             in Inr (s\<lparr>files := delete_keys (\<lambda>p. has_prefix (target @ ''/'') p) (AList.delete target (files s))\<rparr>)
           else if name = [] then Inr s
           else rbind (if ttype hdr = TypeReg \<and> 0 < tsize hdr then content else Inr []) (\<lambda>b.
             Inr (s\<lparr>files := AList.update name \<lparr>header = hdr, body = b, order = norder s\<rparr> (files s),
                    currentLayerPaths := name # currentLayerPaths s, norder := norder s + 1\<rparr>)))"

fun flatten_members :: "flatten_state \<Rightarrow> tar_member list \<Rightarrow> string + flatten_state" where
  "flatten_members s [] = Inr s"
| "flatten_members s (m # ms) = rbind (flatten_member s m) (\<lambda>s'. flatten_members s' ms)"

fun flatten_layers :: "flatten_state \<Rightarrow> layer list \<Rightarrow> string + flatten_state" where
  "flatten_layers s [] = Inr s"
| "flatten_layers s (l # ls) =
     rbind (flatten_members (s\<lparr>currentLayerPaths := []\<rparr>) (members l)) (\<lambda>s'.
       case next_error l of Some e \<Rightarrow> Inl e | None \<Rightarrow> flatten_layers s' ls)"

text \<open>The headers and bodies that go to the tar writer, sorted by path.\<close>

definition flatten_output :: "(string \<times> fileEntry) list \<Rightarrow> (tar_header \<times> bytes) list" where
  "flatten_output fs =
     concat (map (\<lambda>p. case map_of fs p of Some e \<Rightarrow> [((header e)\<lparr>tname := p\<rparr>, body e)] | None \<Rightarrow> []) (sort (map fst fs)))"

definition Flatten :: "layer list \<Rightarrow> string + (tar_header \<times> bytes) list" where
  "Flatten ls = rbind (flatten_layers \<lparr>files = [], norder = 0, currentLayerPaths = []\<rparr> ls) (\<lambda>s. Inr (flatten_output (files s)))"

section \<open>The path index\<close>

type_synonym path_index = "(string \<times> tar_type) list"

definition removeDescendants :: "path_index \<Rightarrow> string \<Rightarrow> path_index" where
  "removeDescendants p target = (if target = [] then [] else delete_keys (has_prefix (target @ ''/'')) p)"

definition removeTree :: "path_index \<Rightarrow> string \<Rightarrow> path_index" where
  "removeTree p target = removeDescendants (AList.delete target p) target"

definition path_record :: "path_index \<Rightarrow> string \<Rightarrow> tar_type \<Rightarrow> path_index" where
  "path_record p name0 typeflag =
     (let name = cleanPath name0; dir = path_dir name; base = path_base name
      in if name = [] then p
         else if base = ''.wh..wh..opq'' then removeDescendants p (if dir = ''.'' then [] else dir)
         else if has_prefix ''.wh.'' base then removeTree p (path_join [dir, drop 4 base])
         else if typeflag \<in> {TypeReg, TypeSymlink, TypeLink, TypeDir} then AList.update name typeflag p
         else p)"

definition sortedPaths :: "path_index \<Rightarrow> string list" where
  "sortedPaths p = sort (map fst p)"

definition countRegularFiles :: "path_index \<Rightarrow> nat" where
  "countRegularFiles p = length (filter (\<lambda>(_, t). t = TypeReg \<or> t = TypeLink) p)"

section \<open>Change sets\<close>

type_synonym segs = "string list"

datatype 'v change = Add segs 'v | Whiteout segs | Opaque segs

definition good_path :: "segs \<Rightarrow> bool" where
  "good_path p \<longleftrightarrow> p \<noteq> [] \<and> list_all good_seg p"

fun change_ok :: "'v change \<Rightarrow> bool" where
  "change_ok (Add p t) \<longleftrightarrow> good_path p \<and> \<not> has_prefix ''.wh.'' (last p)"
| "change_ok (Whiteout p) \<longleftrightarrow> good_path p \<and> last p \<noteq> ''.wh..opq''"
| "change_ok (Opaque d) \<longleftrightarrow> list_all good_seg d"

text \<open>How a change is written in a tar stream.\<close>

fun change_name :: "'v change \<Rightarrow> string" where
  "change_name (Add p t) = join_path p"
| "change_name (Whiteout p) = join_path (butlast p @ [''.wh.'' @ last p])"
| "change_name (Opaque d) = join_path (d @ [''.wh..wh..opq''])"

fun change_type :: "tar_type \<Rightarrow> tar_type change \<Rightarrow> bool" where
  "change_type t (Add p u) \<longleftrightarrow> t = u \<and> u \<noteq> TypeOther"
| "change_type t _ \<longleftrightarrow> True"

fun hides :: "'v change \<Rightarrow> segs \<Rightarrow> bool" where
  "hides (Add p t) q \<longleftrightarrow> False"
| "hides (Whiteout p) q \<longleftrightarrow> prefix p q"
| "hides (Opaque d) q \<longleftrightarrow> strict_prefix d q"

fun added :: "'v change list \<Rightarrow> segs \<Rightarrow> 'v option" where
  "added [] q = None"
| "added (c # cs) q =
     (case added cs q of Some t \<Rightarrow> Some t
      | None \<Rightarrow> (case c of Add p t \<Rightarrow> if p = q then Some t else None | _ \<Rightarrow> None))"

text \<open>A layer over the files below it: what it adds, and what it does not hide. The order inside the layer is of no importance.\<close>

definition overlay :: "(segs \<Rightarrow> 'v option) \<Rightarrow> 'v change list \<Rightarrow> segs \<Rightarrow> 'v option" where
  "overlay lower cs q =
     (case added cs q of Some t \<Rightarrow> Some t
      | None \<Rightarrow> if list_ex (\<lambda>c. hides c q) cs then None else lower q)"

text \<open>A layer whose markers hide nothing that the layer itself added before them.\<close>

fun layer_ordered :: "'v change list \<Rightarrow> bool" where
  "layer_ordered [] = True"
| "layer_ordered (c # cs) =
     (layer_ordered cs \<and> (case c of Add p t \<Rightarrow> list_all (\<lambda>d. \<not> hides d p) cs | _ \<Rightarrow> True))"

fun apply_change :: "(segs \<Rightarrow> 'v option) \<Rightarrow> 'v change \<Rightarrow> segs \<Rightarrow> 'v option" where
  "apply_change f (Add p t) q = (if q = p then Some t else f q)"
| "apply_change f c q = (if hides c q then None else f q)"

lemma added_hides: "added cs q = Some t \<Longrightarrow> \<exists>p u. Add p u \<in> set cs \<and> p = q"
  by (induction cs) (auto split: option.splits change.splits if_splits)

lemma apply_changes: "layer_ordered cs \<Longrightarrow> foldl apply_change f cs = overlay f cs"
proof (induction cs arbitrary: f)
  case Nil
  then show ?case by (auto simp: overlay_def)
next
  case (Cons c cs)
  then have "foldl apply_change (apply_change f c) cs = overlay (apply_change f c) cs" by simp
  moreover have "overlay (apply_change f c) cs q = overlay f (c # cs) q" for q
    using Cons.prems by (cases c) (auto simp: overlay_def list_all_iff list_ex_iff split: option.split)
  ultimately show ?case by auto
qed

section \<open>Maps by path and the overlay\<close>

definition index_ok :: "(string \<times> 'v) list \<Rightarrow> bool" where
  "index_ok m \<longleftrightarrow> distinct (map fst m) \<and> (\<forall>k \<in> set (map fst m). \<exists>p. good_path p \<and> k = join_path p)"

definition index_at :: "(string \<times> 'v) list \<Rightarrow> segs \<Rightarrow> 'v option" where
  "index_at m p = (if good_path p then map_of m (join_path p) else None)"

lemma good_wh: "good_seg x \<Longrightarrow> good_seg (''.wh.'' @ x)" "good_seg ''.wh..wh..opq''"
  by (auto simp: good_seg_def)

lemma good_path_snoc: "good_path p \<Longrightarrow> p = butlast p @ [last p] \<and> list_all good_seg (butlast p) \<and> good_seg (last p)"
  unfolding good_path_def by (metis append_butlast_last_id list_all_append list.pred_inject(2))

lemma map_of_delete_keys: "map_of (delete_keys P m) k = (if P k then None else map_of m k)"
  by (induction m) (auto simp: delete_keys_def)

lemma keys_delete_keys: "set (map fst (delete_keys P m)) \<subseteq> set (map fst m)" "distinct (map fst m) \<Longrightarrow> distinct (map fst (delete_keys P m))"
  by (auto simp: delete_keys_def distinct_map inj_on_def intro: inj_on_subset)

lemma below_path:
  assumes "good_path p" "good_path q"
  shows "has_prefix (join_path p @ ''/'') (join_path q) \<longleftrightarrow> strict_prefix p q"
  using below_good [of p q] assms by (auto simp: good_path_def strict_prefix_def prefix_def)

lemma join_path_eq: "good_path p \<Longrightarrow> good_path q \<Longrightarrow> join_path p = join_path q \<longleftrightarrow> p = q"
  by (simp add: good_path_def join_path_inj)

lemma join_path_not_dot:
  assumes "good_path d"
  shows "join_path d \<noteq> ''.''"
proof
  assume "join_path d = ''.''"
  then have "split_on CHR ''/'' (join_path d) = [''.'']" by simp
  with assms show False by (simp add: good_path_def split_join good_noslash) (auto simp: good_seg_def)
qed

text \<open>What \<open>path.Dir\<close> and \<open>path.Base\<close> make of the name of a change.\<close>

fun change_dir :: "'v change \<Rightarrow> segs" where
  "change_dir (Add p t) = butlast p"
| "change_dir (Whiteout p) = butlast p"
| "change_dir (Opaque d) = d"

fun change_base :: "'v change \<Rightarrow> string" where
  "change_base (Add p t) = last p"
| "change_base (Whiteout p) = ''.wh.'' @ last p"
| "change_base (Opaque d) = ''.wh..wh..opq''"

lemma change_parts:
  assumes "change_ok c"
  shows "change_name c = join_path (change_dir c @ [change_base c])" "list_all good_seg (change_dir c @ [change_base c])"
proof -
  have "change_name c = join_path (change_dir c @ [change_base c]) \<and> list_all good_seg (change_dir c @ [change_base c])"
  proof (cases c)
    case (Add p t)
    with assms show ?thesis by (simp add: good_path_def)
  next
    case (Whiteout p)
    with assms good_path_snoc [of p] good_wh(1) [of "last p"] show ?thesis by simp
  next
    case (Opaque d)
    with assms good_wh(2) show ?thesis by simp
  qed
  then show "change_name c = join_path (change_dir c @ [change_base c])" "list_all good_seg (change_dir c @ [change_base c])" by auto
qed

lemma change_name_parts:
  assumes "change_ok c"
  shows "path_dir (change_name c) = (if change_dir c = [] then ''.'' else join_path (change_dir c))"
    "path_base (change_name c) = change_base c" "change_name c \<noteq> []"
  using change_parts [OF assms] dir_good base_good join_path_not_Nil by auto

lemma whiteout_target:
  assumes "good_path p"
  shows "path_join [if butlast p = [] then ''.'' else join_path (butlast p), last p] = join_path p"
proof -
  from assms obtain xs x where p: "p = xs @ [x]" "list_all good_seg (xs @ [x])"
    by (cases p rule: rev_cases) (auto simp: good_path_def)
  from join_good [OF p(2)] show ?thesis by (simp only: p(1) butlast_snoc last_snoc)
qed

definition header_for :: "string \<times> tar_type \<Rightarrow> tar_type change \<Rightarrow> bool" where
  "header_for h c \<longleftrightarrow> change_ok c \<and> cleanPath (fst h) = change_name c \<and> change_type (snd h) c"

lemma index_ok_update: "index_ok m \<Longrightarrow> good_path p \<Longrightarrow> index_ok (AList.update (join_path p) t m)"
  by (auto simp: index_ok_def distinct_update update_keys)

lemma delete_is_delete_keys: "AList.delete k m = delete_keys (\<lambda>x. k = x) m"
  by (simp add: delete_keys_def AList.delete_eq)

lemma index_ok_delete: "index_ok m \<Longrightarrow> index_ok (delete_keys P m)"
  using keys_delete_keys [where P = P and m = m] unfolding index_ok_def by blast

text \<open>The updates of the code on a map by path are the changes.\<close>

lemma update_add:
  assumes "good_path p" "index_ok m"
  shows "index_ok (AList.update (join_path p) t m) \<and> index_at (AList.update (join_path p) t m) = apply_change (index_at m) (Add p t)"
proof -
  have "index_at (AList.update (join_path p) t m) q = apply_change (index_at m) (Add p t) q" for q
    using assms(1) by (auto simp: index_at_def update_conv join_path_eq)
  then show ?thesis using index_ok_update [OF assms(2,1)] by auto
qed

definition remove_tree :: "segs \<Rightarrow> (string \<times> 'v) list \<Rightarrow> (string \<times> 'v) list" where
  "remove_tree p m = delete_keys (has_prefix (join_path p @ ''/'')) (AList.delete (join_path p) m)"

definition remove_below :: "segs \<Rightarrow> (string \<times> 'v) list \<Rightarrow> (string \<times> 'v) list" where
  "remove_below d m = delete_keys (has_prefix (join_path d @ ''/'')) m"

lemma remove_whiteout:
  assumes "good_path p" "index_ok m"
  shows "index_ok (remove_tree p m) \<and> index_at (remove_tree p m) = apply_change (index_at m) (Whiteout p)"
proof -
  have "index_at (remove_tree p m) q = apply_change (index_at m) (Whiteout p) q" for q
    using assms(1) by (auto simp: remove_tree_def index_at_def map_of_delete_keys delete_conv' below_path join_path_eq prefix_order.le_less)
  then show ?thesis using assms(2) by (auto simp: remove_tree_def delete_is_delete_keys index_ok_delete)
qed

lemma remove_opaque:
  assumes "good_path d" "index_ok m"
  shows "index_ok (remove_below d m) \<and> index_at (remove_below d m) = apply_change (index_at m) (Opaque d)"
proof -
  have "index_at (remove_below d m) q = apply_change (index_at m) (Opaque d) q" for q
    using assms(1) by (auto simp: remove_below_def index_at_def map_of_delete_keys below_path)
  then show ?thesis using assms(2) by (auto simp: remove_below_def index_ok_delete)
qed

section \<open>The index implements the overlay\<close>

lemma record_change:
  assumes h: "header_for (name, t) c" and m: "index_ok m"
  shows "index_ok (path_record m name t) \<and> index_at (path_record m name t) = apply_change (index_at m) c"
proof -
  have c: "change_ok c" "cleanPath name = change_name c" "change_type t c" using h by (simp_all add: header_for_def)
  note parts = change_name_parts [OF c(1)]
  show ?thesis
  proof (cases c)
    case (Add p u)
    then have p: "good_path p" "\<not> has_prefix ''.wh.'' (last p)" "u \<noteq> TypeOther" "t = u" using c by simp_all
    have b: "last p \<noteq> ''.wh..wh..opq''" using p(2) by (auto simp: has_prefix_def)
    have "u \<in> {TypeReg, TypeSymlink, TypeLink, TypeDir}" using p(3) by (cases u) simp_all
    then have "path_record m name t = AList.update (join_path p) u m"
      using Add parts p b c(2) by (simp add: path_record_def Let_def)
    then show ?thesis using update_add [OF p(1) m] Add by simp
  next
    case (Whiteout p)
    then have p: "good_path p" "last p \<noteq> ''.wh..opq''" using c by simp_all
    have cd: "change_dir c = butlast p" "change_base c = ''.wh.'' @ last p" using Whiteout by simp_all
    have "path_record m name t = removeTree m (join_path p)"
      unfolding path_record_def Let_def c(2) parts(1,2) cd using p(2) parts(3) whiteout_target [OF p(1)]
      by (simp add: has_prefix_def)
    also have "\<dots> = remove_tree p m"
      using p(1) join_path_not_Nil by (simp add: removeTree_def removeDescendants_def good_path_def remove_tree_def)
    finally show ?thesis using remove_whiteout [OF p(1) m] Whiteout by simp
  next
    case (Opaque d)
    then have d: "list_all good_seg d" using c by simp
    show ?thesis
    proof (cases "d = []")
      case True
      then have r: "path_record m name t = []" using Opaque parts c(2) by (simp add: path_record_def removeDescendants_def Let_def)
      have "index_at [] q = apply_change (index_at m) (Opaque []) q" for q
        by (cases q) (auto simp: index_at_def good_path_def)
      with r True Opaque show ?thesis by (auto simp: index_ok_def)
    next
      case False
      then have g: "good_path d" using d by (simp add: good_path_def)
      have "path_record m name t = remove_below d m"
        using False Opaque parts c(2) g join_path_not_Nil [of d] join_path_not_dot [OF g]
        by (simp add: path_record_def removeDescendants_def Let_def good_path_def remove_below_def)
      then show ?thesis using remove_opaque [OF g m] Opaque by simp
    qed
  qed
qed

definition record_layer :: "path_index \<Rightarrow> (string \<times> tar_type) list \<Rightarrow> path_index" where
  "record_layer m hs = foldl (\<lambda>m h. path_record m (fst h) (snd h)) m hs"

lemma record_changes:
  "list_all2 header_for hs cs \<Longrightarrow> index_ok m \<Longrightarrow>
     index_ok (record_layer m hs) \<and> index_at (record_layer m hs) = foldl apply_change (index_at m) cs"
proof (induction hs cs arbitrary: m rule: list_all2_induct)
  case (Cons h hs c cs)
  have "index_ok (path_record m (fst h) (snd h)) \<and> index_at (path_record m (fst h) (snd h)) = apply_change (index_at m) c"
    using Cons.hyps(1) Cons.prems by (intro record_change) simp_all
  with Cons.IH show ?case by (simp add: record_layer_def)
qed (simp add: record_layer_def)

lemma record_layers:
  assumes "list_all2 (list_all2 header_for) layers css" "list_all layer_ordered css" "index_ok m"
  shows "index_ok (foldl record_layer m layers) \<and> index_at (foldl record_layer m layers) = foldl overlay (index_at m) css"
  using assms
proof (induction layers css arbitrary: m rule: list_all2_induct)
  case (Cons hs layers cs css)
  from record_changes [OF Cons.hyps(1) Cons.prems(2)] Cons.prems(1)
  have "index_ok (record_layer m hs)" "index_at (record_layer m hs) = overlay (index_at m) cs" by (simp_all add: apply_changes)
  with Cons.IH Cons.prems(1) show ?case by simp
qed simp

section \<open>Flatten implements the overlay\<close>

text \<open>The value of a path in the flattened image: its header, as the layer has it, and its body.\<close>

definition flat_index :: "(string \<times> fileEntry) list \<Rightarrow> (string \<times> (tar_header \<times> bytes)) list" where
  "flat_index fs = map (\<lambda>(k, e). (k, (header e, body e))) fs"

lemma flat_index_ops:
  "flat_index (delete_keys P fs) = delete_keys P (flat_index fs)"
  "flat_index (AList.update k e fs) = AList.update k (header e, body e) (flat_index fs)"
  "map fst (flat_index fs) = map fst fs" "flat_index [] = []"
  by (induction fs) (auto simp: flat_index_def delete_keys_def)

lemma delete_keys_cong: "(\<And>k. k \<in> set (map fst m) \<Longrightarrow> P k = Q k) \<Longrightarrow> delete_keys P m = delete_keys Q m"
  unfolding delete_keys_def by (induction m) auto

text \<open>The paths that a layer has added so far, and that it announces an opaque directory before its marker.\<close>

fun opaque_ok :: "segs list \<Rightarrow> 'v change list \<Rightarrow> bool" where
  "opaque_ok seen [] = True"
| "opaque_ok seen (Add p t # cs) = opaque_ok (p # seen) cs"
| "opaque_ok seen (Whiteout p # cs) = opaque_ok seen cs"
| "opaque_ok seen (Opaque d # cs) \<longleftrightarrow> d \<in> set seen \<and> opaque_ok seen cs"

text \<open>A member that can be read writes a change; an added path carries the member's header and contents. Only a regular
  file has contents.\<close>

fun has_contents :: "tar_member \<Rightarrow> bytes \<Rightarrow> bool" where
  "has_contents (hdr, content) b \<longleftrightarrow>
     (if ttype hdr = TypeReg \<and> 0 < tsize hdr then content = Inr b else b = [])"

fun member_value :: "tar_member \<Rightarrow> (tar_header \<times> bytes) change \<Rightarrow> bool" where
  "member_value m (Add p v) \<longleftrightarrow> fst v = fst m \<and> has_contents m (snd v)"
| "member_value m _ \<longleftrightarrow> True"

definition member_for :: "tar_member \<Rightarrow> (tar_header \<times> bytes) change \<Rightarrow> bool" where
  "member_for m c \<longleftrightarrow> change_ok c \<and> cleanPath (tname (fst m)) = change_name c \<and> member_value m c"

lemma flatten_add:
  assumes m: "member_for m (Add p v)"
  shows "\<exists>s'. flatten_member s m = Inr s'
    \<and> flat_index (files s') = AList.update (join_path p) v (flat_index (files s))
    \<and> currentLayerPaths s' = join_path p # currentLayerPaths s"
proof -
  obtain hdr b where mb: "m = (hdr, b)" by (cases m)
  have c: "change_ok (Add p v)" "cleanPath (tname hdr) = join_path p" "fst v = hdr" "has_contents (hdr, b) (snd v)"
    using m mb by (auto simp: member_for_def)
  note parts = change_name_parts [OF c(1)]
  have b: "last p \<noteq> ''.wh..wh..opq''" "\<not> has_prefix ''.wh.'' (last p)" using c(1) by (auto simp: has_prefix_def)
  have "(if ttype hdr = TypeReg \<and> 0 < tsize hdr then b else Inr []) = Inr (snd v)" using c(4) by (auto split: if_splits)
  then show ?thesis using parts b c by (auto simp: mb flatten_member_def Let_def flat_index_ops)
qed

lemma flatten_whiteout:
  assumes m: "member_for m (Whiteout p)"
  shows "\<exists>s'. flatten_member s m = Inr s' \<and> flat_index (files s') = remove_tree p (flat_index (files s))
    \<and> currentLayerPaths s' = currentLayerPaths s"
proof -
  obtain hdr b where mb: "m = (hdr, b)" by (cases m)
  define c :: "(tar_header \<times> bytes) change" where "c = Whiteout p"
  have c: "change_ok c" "cleanPath (tname hdr) = change_name c" "good_path p" "last p \<noteq> ''.wh..opq''"
    using m mb by (auto simp: member_for_def c_def)
  note parts = change_name_parts [OF c(1)]
  have cd: "change_dir c = butlast p" "change_base c = ''.wh.'' @ last p" by (simp_all add: c_def)
  note tg = whiteout_target [OF c(3)]
  have f: "flatten_member s m = Inr (s\<lparr>files := remove_tree p (files s)\<rparr>)"
    unfolding mb flatten_member_def prod.case Let_def c(2) parts(1,2) cd using c(4) tg by (simp add: has_prefix_def remove_tree_def)
  show ?thesis using f by (simp add: mb remove_tree_def flat_index_ops delete_is_delete_keys)
qed

lemma flatten_opaque:
  assumes m: "member_for m (Opaque d)" and d: "d \<noteq> []" "join_path d \<in> set (currentLayerPaths s)"
    and cur: "\<forall>k \<in> set (currentLayerPaths s). \<not> has_prefix (join_path d @ ''/'') k"
  shows "\<exists>s'. flatten_member s m = Inr s' \<and> flat_index (files s') = remove_below d (flat_index (files s))
    \<and> currentLayerPaths s' = currentLayerPaths s"
proof -
  obtain hdr b where mb: "m = (hdr, b)" by (cases m)
  define c :: "(tar_header \<times> bytes) change" where "c = Opaque d"
  have c: "change_ok c" "cleanPath (tname hdr) = change_name c"
    using m mb d(1) by (auto simp: member_for_def c_def)
  note parts = change_name_parts [OF c(1)]
  have cd: "change_dir c = d" "change_base c = ''.wh..wh..opq''" by (simp_all add: c_def)
  have f: "flatten_member s m = Inr (s\<lparr>files := delete_keys (\<lambda>p. (p = join_path d \<or> has_prefix (join_path d @ ''/'') p)
      \<and> p \<notin> set (currentLayerPaths s)) (files s)\<rparr>)"
    unfolding mb flatten_member_def prod.case Let_def c(2) parts(1,2) cd using d(1) by simp
  have "delete_keys (\<lambda>p. (p = join_path d \<or> has_prefix (join_path d @ ''/'') p) \<and> p \<notin> set (currentLayerPaths s)) (files s)
      = remove_below d (files s)"
    unfolding remove_below_def by (rule delete_keys_cong) (use d(2) cur in auto)
  then show ?thesis using f by (simp add: mb flat_index_ops remove_below_def)
qed

definition flat_ok :: "flatten_state \<Rightarrow> bool" where
  "flat_ok s \<longleftrightarrow> index_ok (flat_index (files s))"

definition flat_at :: "flatten_state \<Rightarrow> segs \<Rightarrow> (tar_header \<times> bytes) option" where
  "flat_at s = index_at (flat_index (files s))"

lemma flatten_members_overlay:
  assumes "list_all2 member_for ms cs" "layer_ordered cs" "opaque_ok seen cs" "flat_ok s"
    "currentLayerPaths s = map join_path seen" "list_all good_path seen" "\<forall>p \<in> set seen. \<forall>c \<in> set cs. \<not> hides c p"
  shows "\<exists>s'. flatten_members s ms = Inr s' \<and> flat_ok s' \<and> flat_at s' = foldl apply_change (flat_at s) cs"
  using assms
proof (induction ms cs arbitrary: s seen rule: list_all2_induct)
  case Nil
  then show ?case by simp
next
  case (Cons m ms c cs)
  have h: "change_ok c" using Cons.hyps(1) by (simp add: member_for_def)
  have step: ?case if "flatten_member s m = Inr s1" "flat_ok s1 \<and> flat_at s1 = apply_change (flat_at s) c"
      "currentLayerPaths s1 = map join_path seen1" "opaque_ok seen1 cs" "list_all good_path seen1"
      "\<forall>p \<in> set seen1. \<forall>c \<in> set cs. \<not> hides c p" for s1 seen1
    using Cons.IH [of seen1 s1] that Cons.prems(1) by auto
  have ok: "index_ok (flat_index (files s))" using Cons.prems(3) by (simp add: flat_ok_def)
  show ?case
  proof (cases c)
    case (Add p v)
    then have g: "good_path p" using h by simp
    from flatten_add [OF Cons.hyps(1) [unfolded Add], of s] obtain s1 where s1: "flatten_member s m = Inr s1"
      "flat_index (files s1) = AList.update (join_path p) v (flat_index (files s))"
      "currentLayerPaths s1 = join_path p # currentLayerPaths s" by blast
    have "flat_ok s1 \<and> flat_at s1 = apply_change (flat_at s) c" unfolding flat_ok_def flat_at_def s1(2) Add by (rule update_add [OF g ok])
    then show ?thesis using Cons.prems Add g s1 by (intro step [of s1 "p # seen"]) (auto simp: list_all_iff)
  next
    case (Whiteout p)
    then have g: "good_path p" using h by simp
    from flatten_whiteout [OF Cons.hyps(1) [unfolded Whiteout], of s] obtain s1 where s1: "flatten_member s m = Inr s1"
      "flat_index (files s1) = remove_tree p (flat_index (files s))" "currentLayerPaths s1 = currentLayerPaths s" by blast
    have "flat_ok s1 \<and> flat_at s1 = apply_change (flat_at s) c" unfolding flat_ok_def flat_at_def s1(2) Whiteout by (rule remove_whiteout [OF g ok])
    then show ?thesis using Cons.prems Whiteout s1 by (intro step [of s1 seen]) auto
  next
    case (Opaque d)
    then have d: "d \<in> set seen" "good_path d" using Cons.prems by (auto simp: list_all_iff)
    have nh: "\<not> has_prefix (join_path d @ ''/'') k" if k: "k \<in> set (currentLayerPaths s)" for k
    proof -
      obtain q where q: "q \<in> set seen" "k = join_path q" using k Cons.prems(4) by auto
      then have "good_path q" "\<not> strict_prefix d q" using Cons.prems(5,6) Opaque by (auto simp: list_all_iff)
      then show ?thesis using below_path [OF d(2)] q(2) by simp
    qed
    have "d \<noteq> []" "join_path d \<in> set (currentLayerPaths s)" using d Cons.prems(4) by (auto simp: good_path_def)
    from flatten_opaque [OF Cons.hyps(1) [unfolded Opaque] this] nh obtain s1 where s1: "flatten_member s m = Inr s1"
      "flat_index (files s1) = remove_below d (flat_index (files s))" "currentLayerPaths s1 = currentLayerPaths s" by blast
    have "flat_ok s1 \<and> flat_at s1 = apply_change (flat_at s) c" unfolding flat_ok_def flat_at_def s1(2) Opaque by (rule remove_opaque [OF d(2) ok])
    then show ?thesis using Cons.prems Opaque s1 by (intro step [of s1 seen]) auto
  qed
qed

definition layer_for :: "layer \<Rightarrow> (tar_header \<times> bytes) change list \<Rightarrow> bool" where
  "layer_for l cs \<longleftrightarrow> next_error l = None \<and> list_all2 member_for (members l) cs \<and> layer_ordered cs \<and> opaque_ok [] cs"

lemma flatten_layers_overlay:
  "list_all2 layer_for ls css \<Longrightarrow> flat_ok s \<Longrightarrow>
     \<exists>s'. flatten_layers s ls = Inr s' \<and> flat_ok s' \<and> flat_at s' = foldl overlay (flat_at s) css"
proof (induction ls css arbitrary: s rule: list_all2_induct)
  case (Cons l ls cs css)
  from Cons.hyps(1) have l: "next_error l = None" "list_all2 member_for (members l) cs" "layer_ordered cs" "opaque_ok [] cs"
    by (simp_all add: layer_for_def)
  let ?s = "s\<lparr>currentLayerPaths := []\<rparr>"
  have "flat_ok ?s" using Cons.prems by (simp add: flat_ok_def)
  from flatten_members_overlay [OF l(2-4) this] obtain s1 where "flatten_members ?s (members l) = Inr s1" "flat_ok s1"
    "flat_at s1 = overlay (flat_at s) cs" using apply_changes [OF l(3)] by (auto simp: flat_at_def)
  with Cons.IH [of s1] l(1) show ?case by simp
qed simp

text \<open>The output has one entry per key, under its own name.\<close>

lemma flatten_output_entries:
  assumes "distinct (map fst fs)"
  shows "map (tname \<circ> fst) (flatten_output fs) = sort (map fst fs)"
    "set (flatten_output fs) = {(h\<lparr>tname := k\<rparr>, b) | k h b. map_of (flat_index fs) k = Some (h, b)}"
proof -
  have k: "p \<in> set (map fst fs) \<Longrightarrow> \<exists>e. map_of fs p = Some e" for p by (metis map_of_eq_None_iff not_None_eq set_map)
  have "map (tname \<circ> fst) (concat (map (\<lambda>p. case map_of fs p of Some e \<Rightarrow> [((header e)\<lparr>tname := p\<rparr>, body e)] | None \<Rightarrow> []) ps)) = ps"
    if "set ps \<subseteq> set (map fst fs)" for ps
    using that k by (induction ps) (auto split: option.split)
  then show "map (tname \<circ> fst) (flatten_output fs) = sort (map fst fs)" unfolding flatten_output_def by simp
  have i: "map_of (flat_index fs) p = map_option (\<lambda>e. (header e, body e)) (map_of fs p)" for p
    by (induction fs) (auto simp: flat_index_def)
  let ?out = "\<lambda>p. case map_of fs p of Some e \<Rightarrow> [((header e)\<lparr>tname := p\<rparr>, body e)] | None \<Rightarrow> []"
  have out: "x \<in> set (?out p) \<longleftrightarrow> (\<exists>h b. x = (h\<lparr>tname := p\<rparr>, b) \<and> map_of (flat_index fs) p = Some (h, b))" for x p
    unfolding i by (cases "map_of fs p") auto
  have "p \<in> set (map fst fs)" if "map_of (flat_index fs) p = Some v" for p v
    using that by (force simp: i dest: map_of_SomeD)
  then show "set (flatten_output fs) = {(h\<lparr>tname := k\<rparr>, b) | k h b. map_of (flat_index fs) k = Some (h, b)}"
    unfolding flatten_output_def set_concat set_map set_sort image_image using out by blast
qed

lemma index_keys:
  assumes "index_ok m"
  shows "set (map fst m) = join_path ` {p. index_at m p \<noteq> None}"
proof -
  have "k \<in> set (map fst m) \<longleftrightarrow> map_of m k \<noteq> None" for k by (simp add: map_of_eq_None_iff)
  then show ?thesis using assms unfolding index_ok_def index_at_def by (auto simp del: not_None_eq)
qed

lemma index_at_values:
  assumes "index_ok m"
  shows "map_of m k = Some v \<Longrightarrow> \<exists>p. k = join_path p \<and> index_at m p = Some v"
    "index_at m p = Some v \<Longrightarrow> map_of m (join_path p) = Some v"
proof -
  show "\<exists>p. k = join_path p \<and> index_at m p = Some v" if v: "map_of m k = Some v"
  proof -
    have "k \<in> set (map fst m)" using v by (force dest: map_of_SomeD)
    then obtain p where "good_path p" "k = join_path p" using assms unfolding index_ok_def by blast
    with v show ?thesis by (auto simp: index_at_def)
  qed
qed (simp add: index_at_def split: if_splits)

lemma index_empty: "index_ok []" "index_at [] = (\<lambda>_. None)"
  by (auto simp: index_ok_def index_at_def)

section \<open>Theorems about merged layers\<close>

text \<open>
  The path index is the overlay of the layers. For layers whose markers hide nothing that the same layer added
  before them, however the names are spelled, the sorted paths of the index are exactly the paths of the merged file system:
  what the top layers add and no layer above hides by a whiteout or an opaque marker, also at the root.
\<close>

theorem index_overlay:
  assumes "list_all2 (list_all2 header_for) layers css" "list_all layer_ordered css"
  shows "sorted (sortedPaths (foldl record_layer [] layers)) \<and> distinct (sortedPaths (foldl record_layer [] layers))
    \<and> set (sortedPaths (foldl record_layer [] layers)) = join_path ` {p. foldl overlay (\<lambda>_. None) css p \<noteq> None}"
proof -
  from record_layers [OF assms index_empty(1)]
  have i: "index_ok (foldl record_layer [] layers)" "index_at (foldl record_layer [] layers) = foldl overlay (\<lambda>_. None) css"
    by (simp_all add: index_empty(2))
  from index_keys [OF i(1)] i show ?thesis by (simp add: sortedPaths_def index_ok_def)
qed

definition layers0 :: "tar_type change list list" where
  "layers0 = [[Add [''a''] TypeDir, Add [''a'', ''x''] TypeReg, Add [''b''] TypeReg],
     [Add [''a''] TypeDir, Opaque [''a''], Whiteout [''b''], Add [''a'', ''y''] TypeReg]]"

definition headers0 :: "(string \<times> tar_type) list list" where
  "headers0 = [[(''./a/'', TypeDir), (''a/x'', TypeReg), (''/b'', TypeReg)],
     [(''a'', TypeDir), (''a/.wh..wh..opq'', TypeReg), (''.wh.b'', TypeReg), (''a//y'', TypeReg)]]"

lemma headers0_for: "list_all2 (list_all2 header_for) headers0 layers0 \<and> list_all layer_ordered layers0"
  by code_simp

theorem index_overlay_witness:
  "sortedPaths (foldl record_layer [] headers0) = [''a'', ''a/y'']
    \<and> set [''a'', ''a/y''] = join_path ` {p. foldl overlay (\<lambda>_. None) layers0 p \<noteq> None}"
proof -
  have "sortedPaths (foldl record_layer [] headers0) = [''a'', ''a/y'']" by code_simp
  with index_overlay [of headers0 layers0] headers0_for show ?thesis by metis
qed

text \<open>
  C18. \<open>Flatten\<close> writes the overlay of the layers. For layers that can be read, whose markers hide nothing that
  the same layer added before them and that announce each opaque directory before its marker, it succeeds; its members are in
  ascending order of their names, one for each path of the merged file system, and each is the header, under the
  cleaned name, and the body that the topmost layer with this path gives it.
\<close>

theorem flatten_overlay:
  assumes "list_all2 layer_for ls css"
  shows "\<exists>entries. Flatten ls = Inr entries \<and> sorted (map (tname \<circ> fst) entries) \<and> distinct (map (tname \<circ> fst) entries)
    \<and> set entries = {(h\<lparr>tname := join_path p\<rparr>, b) | p h b. foldl overlay (\<lambda>_. None) css p = Some (h, b)}"
proof -
  let ?s0 = "\<lparr>files = [], norder = 0, currentLayerPaths = []\<rparr>"
  have "flat_ok ?s0" "flat_at ?s0 = (\<lambda>_. None)" by (simp_all add: flat_ok_def flat_at_def flat_index_ops index_empty)
  from flatten_layers_overlay [OF assms this(1)] this(2) obtain s where s: "flatten_layers ?s0 ls = Inr s"
    "index_ok (flat_index (files s))" "index_at (flat_index (files s)) = foldl overlay (\<lambda>_. None) css"
    by (auto simp: flat_ok_def flat_at_def)
  have d: "distinct (map fst (files s))" using s(2) by (simp add: index_ok_def flat_index_ops)
  note entries = flatten_output_entries [OF d]
  have "sorted (map (tname \<circ> fst) (flatten_output (files s)))" "distinct (map (tname \<circ> fst) (flatten_output (files s)))"
    using d by (simp_all only: entries(1) sorted_sort distinct_sort)
  moreover have "set (flatten_output (files s)) = {(h\<lparr>tname := join_path p\<rparr>, b) | p h b. foldl overlay (\<lambda>_. None) css p = Some (h, b)}"
    unfolding entries(2) s(3) [symmetric] using index_at_values [OF s(2)] by blast
  moreover have "Flatten ls = Inr (flatten_output (files s))" using s(1) by (simp add: Flatten_def)
  ultimately show ?thesis by blast
qed

text \<open>A file that the upper layer replaces, one below an opaque directory and one that is whited out.\<close>

definition reg0 :: "string \<Rightarrow> bytes \<Rightarrow> tar_member" where
  "reg0 n b = (\<lparr>tname = n, ttype = TypeReg, tsize = length b, tmeta = []\<rparr>, Inr b)"

definition dir0 :: "string \<Rightarrow> tar_member" where
  "dir0 n = (\<lparr>tname = n, ttype = TypeDir, tsize = 0, tmeta = []\<rparr>, Inr [])"

definition image0 :: "layer list" where
  "image0 = [\<lparr>members = [dir0 ''./a/'', reg0 ''a/x'' [1], reg0 ''/b'' [2], reg0 ''c'' [3]], next_error = None\<rparr>,
     \<lparr>members = [dir0 ''a'', reg0 ''a/.wh..wh..opq'' [], reg0 ''.wh.b'' [], reg0 ''a//y'' [4], reg0 ''c'' [5, 6]], next_error = None\<rparr>]"

definition changes0 :: "(tar_header \<times> bytes) change list list" where
  "changes0 = [[Add [''a''] (fst (dir0 ''./a/''), []), Add [''a'', ''x''] (fst (reg0 ''a/x'' [1]), [1]),
      Add [''b''] (fst (reg0 ''/b'' [2]), [2]), Add [''c''] (fst (reg0 ''c'' [3]), [3])],
     [Add [''a''] (fst (dir0 ''a''), []), Opaque [''a''], Whiteout [''b''],
      Add [''a'', ''y''] (fst (reg0 ''a//y'' [4]), [4]), Add [''c''] (fst (reg0 ''c'' [5, 6]), [5, 6])]]"

theorem flatten_overlay_witness:
  "\<exists>entries. Flatten image0 = Inr entries
    \<and> map (\<lambda>(h, b). (tname h, b)) entries = [(''a'', []), (''a/y'', [4]), (''c'', [5, 6])]
    \<and> set entries = {(h\<lparr>tname := join_path p\<rparr>, b) | p h b. foldl overlay (\<lambda>_. None) changes0 p = Some (h, b)}"
proof -
  have "list_all2 layer_for image0 changes0" by code_simp
  from flatten_overlay [OF this] obtain entries where e: "Flatten image0 = Inr entries"
    "set entries = {(h\<lparr>tname := join_path p\<rparr>, b) | p h b. foldl overlay (\<lambda>_. None) changes0 p = Some (h, b)}" by blast
  moreover have "map_sum id (map (\<lambda>(h, b). (tname h, b))) (Flatten image0) = Inr [(''a'', []), (''a/y'', [4]), (''c'', [5, 6])]" by code_simp
  ultimately show ?thesis by auto
qed

text \<open>
  Two limits of \<open>Flatten\<close>. An opaque marker at the root deletes nothing, although the index then
  drops every path below; and a whiteout deletes an entry that the same layer added before it, although it is meant
  for the layers below.
\<close>

theorem flatten_marker_limits:
  "map_sum id (map (tname \<circ> fst)) (Flatten [\<lparr>members = [reg0 ''a'' []], next_error = None\<rparr>,
       \<lparr>members = [reg0 ''.wh..wh..opq'' []], next_error = None\<rparr>]) = Inr [''a'']
   \<and> sortedPaths (foldl record_layer [] [[(''a'', TypeReg)], [(''.wh..wh..opq'', TypeReg)]]) = []
   \<and> Flatten [\<lparr>members = [reg0 ''a'' [], reg0 ''.wh.a'' []], next_error = None\<rparr>] = Inr []"
  by code_simp

end
