(* ===== verification/Dtb.thy ===== *)
theory Dtb
  imports GoStrings "HOL-Library.AList"
begin

text \<open>
  The flattened device tree that describes the machine to an ARM64 guest: the builder of
  \<open>src/pkg/vm/kvm/dtb.go\<close> and \<open>buildDTB\<close> of \<open>vcpu_arm64.go\<close>. The reference is a reader of the format after the
  Devicetree specification; what the builder writes is read back as the tree that was meant.
\<close>

section \<open>The builder\<close>

definition fdtMagic :: u32 where "fdtMagic = 0xd00dfeed"
definition fdtVersion :: u32 where "fdtVersion = 17"
definition fdtLastComp :: u32 where "fdtLastComp = 16"
definition fdtBeginNode :: u32 where "fdtBeginNode = 1"
definition fdtEndNode :: u32 where "fdtEndNode = 2"
definition fdtProp :: u32 where "fdtProp = 3"
definition fdtEnd :: u32 where "fdtEnd = 9"

record fdtBuilder =
  structs :: bytes
  strings :: bytes
  strIndex :: "(string \<times> u32) list"

definition newFDTBuilder :: fdtBuilder where
  "newFDTBuilder = \<lparr>structs = [], strings = [], strIndex = []\<rparr>"

definition addString :: "string \<Rightarrow> fdtBuilder \<Rightarrow> u32 \<times> fdtBuilder" where
  "addString s f =
     (case map_of (strIndex f) s of
        Some off \<Rightarrow> (off, f)
      | None \<Rightarrow> (let off = of_nat (length (strings f))
                in (off, f\<lparr>strIndex := AList.update s off (strIndex f), strings := strings f @ bytes_of_string s @ [0]\<rparr>)))"

definition appendU32 :: "u32 \<Rightarrow> fdtBuilder \<Rightarrow> fdtBuilder" where
  "appendU32 v f = f\<lparr>structs := structs f @ be32 v\<rparr>"

definition padTo4 :: "bytes \<Rightarrow> bytes" where
  "padTo4 data = (let pad = length data mod 4 in if pad \<noteq> 0 then data @ zeros (4 - pad) else data)"

definition beginNode :: "string \<Rightarrow> fdtBuilder \<Rightarrow> fdtBuilder" where
  "beginNode name f =
     (let f1 = appendU32 fdtBeginNode f in f1\<lparr>structs := structs f1 @ padTo4 (bytes_of_string name @ [0])\<rparr>)"

definition endNode :: "fdtBuilder \<Rightarrow> fdtBuilder" where
  "endNode f = appendU32 fdtEndNode f"

definition propRaw :: "string \<Rightarrow> bytes \<Rightarrow> fdtBuilder \<Rightarrow> fdtBuilder" where
  "propRaw name data f =
     (let f1 = appendU32 (of_nat (length data)) (appendU32 fdtProp f);
          (off, f2) = addString name f1;
          f3 = appendU32 off f2
      in f3\<lparr>structs := structs f3 @ padTo4 data\<rparr>)"

definition propU32 :: "string \<Rightarrow> u32 \<Rightarrow> fdtBuilder \<Rightarrow> fdtBuilder" where
  "propU32 name v = propRaw name (be32 v)"

definition propU64 :: "string \<Rightarrow> u64 \<Rightarrow> fdtBuilder \<Rightarrow> fdtBuilder" where
  "propU64 name v = propRaw name (be64 v)"

definition propString :: "string \<Rightarrow> string \<Rightarrow> fdtBuilder \<Rightarrow> fdtBuilder" where
  "propString name v = propRaw name (bytes_of_string v @ [0])"

definition propEmpty :: "string \<Rightarrow> fdtBuilder \<Rightarrow> fdtBuilder" where
  "propEmpty name = propRaw name []"

definition propStringList :: "string \<Rightarrow> string list \<Rightarrow> fdtBuilder \<Rightarrow> fdtBuilder" where
  "propStringList name vs = propRaw name (concat (map (\<lambda>v. bytes_of_string v @ [0]) vs))"

definition propU32Array :: "string \<Rightarrow> u32 list \<Rightarrow> fdtBuilder \<Rightarrow> fdtBuilder" where
  "propU32Array name vs = propRaw name (concat (map be32 vs))"

definition propRegU64 :: "u64 \<Rightarrow> u64 \<Rightarrow> fdtBuilder \<Rightarrow> fdtBuilder" where
  "propRegU64 addr sz = propRaw ''reg'' (be64 addr @ be64 sz)"

definition propRegPair :: "u64 \<Rightarrow> u64 \<Rightarrow> u64 \<Rightarrow> u64 \<Rightarrow> fdtBuilder \<Rightarrow> fdtBuilder" where
  "propRegPair addr1 size1 addr2 size2 = propRaw ''reg'' (be64 addr1 @ be64 size1 @ be64 addr2 @ be64 size2)"

definition finish :: "fdtBuilder \<Rightarrow> bytes" where
  "finish f0 =
     (let f = appendU32 fdtEnd f0;
          headerSize = 40 :: u32;
          structsSize = of_nat (length (structs f)) :: u32;
          stringsSize = of_nat (length (strings f)) :: u32;
          memRsvMap = zeros 16;
          memRsvMapOffset = headerSize;
          structsOffset = memRsvMapOffset + of_nat (length memRsvMap);
          stringsOffset = structsOffset + structsSize;
          totalSize = stringsOffset + stringsSize
      in be32 fdtMagic @ be32 totalSize @ be32 structsOffset @ be32 stringsOffset @ be32 memRsvMapOffset
         @ be32 fdtVersion @ be32 fdtLastComp @ be32 0 @ be32 stringsSize @ be32 structsSize
         @ memRsvMap @ structs f @ strings f)"

section \<open>The reader of the format\<close>

text \<open>A node: its name, its properties, its children.\<close>

datatype dtnode = Node string "(string \<times> bytes) list" "dtnode list"

definition token :: "bytes \<Rightarrow> (u32 \<times> bytes) option" where
  "token b = (if 4 \<le> length b then Some (get_be32 b, drop 4 b) else None)"

text \<open>A string up to its NUL, and the bytes after the NUL.\<close>

definition cstring :: "bytes \<Rightarrow> string option" where
  "cstring b = (if 0 \<in> set b then Some (string_of_bytes (takeWhile (\<lambda>x. x \<noteq> 0) b)) else None)"

definition pad4 :: "nat \<Rightarrow> nat" where
  "pad4 n = (n + 3) div 4 * 4"

fun read_props :: "nat \<Rightarrow> bytes \<Rightarrow> bytes \<Rightarrow> ((string \<times> bytes) list \<times> bytes) option" where
  "read_props 0 strs b = None"
| "read_props (Suc n) strs b =
     (case token b of
        None \<Rightarrow> None
      | Some (t, b1) \<Rightarrow>
          if t \<noteq> fdtProp then Some ([], b)
          else let len = unat (get_be32 b1); off = unat (get_be32 (drop 4 b1)); data = take len (drop 8 b1)
               in if length b1 < 8 + pad4 len then None
                  else case cstring (drop off strs) of
                         None \<Rightarrow> None
                       | Some name \<Rightarrow>
                           (case read_props n strs (drop (8 + pad4 len) b1) of
                              None \<Rightarrow> None
                            | Some (ps, rest) \<Rightarrow> Some ((name, data) # ps, rest)))"

function read_node :: "nat \<Rightarrow> bytes \<Rightarrow> bytes \<Rightarrow> (dtnode \<times> bytes) option"
  and read_nodes :: "nat \<Rightarrow> bytes \<Rightarrow> bytes \<Rightarrow> (dtnode list \<times> bytes) option" where
  "read_node 0 strs b = None"
| "read_node (Suc n) strs b =
     (case token b of
        None \<Rightarrow> None
      | Some (t, b1) \<Rightarrow>
          if t \<noteq> fdtBeginNode then None
          else case cstring b1 of
                 None \<Rightarrow> None
               | Some name \<Rightarrow>
                   (case read_props (Suc n) strs (drop (pad4 (length name + 1)) b1) of
                      None \<Rightarrow> None
                    | Some (ps, b2) \<Rightarrow>
                        (case read_nodes n strs b2 of
                           None \<Rightarrow> None
                         | Some (cs, b3) \<Rightarrow> Some (Node name ps cs, b3))))"
| "read_nodes 0 strs b = None"
| "read_nodes (Suc n) strs b =
     (case token b of
        None \<Rightarrow> None
      | Some (t, b1) \<Rightarrow>
          if t = fdtEndNode then Some ([], b1)
          else case read_node n strs b of
                 None \<Rightarrow> None
               | Some (c, b2) \<Rightarrow>
                   (case read_nodes n strs b2 of None \<Rightarrow> None | Some (cs, b3) \<Rightarrow> Some (c # cs, b3)))"
  by pat_completeness auto
termination by (relation "measure (\<lambda>x. case x of Inl (n, _) \<Rightarrow> n | Inr (n, _) \<Rightarrow> n)") auto

definition field32 :: "bytes \<Rightarrow> nat \<Rightarrow> u32" where
  "field32 b i = get_be32 (drop i b)"

definition read_dtb :: "bytes \<Rightarrow> dtnode option" where
  "read_dtb b =
     (let so = unat (field32 b 8); to = unat (field32 b 12); tn = unat (field32 b 32); sn = unat (field32 b 36)
      in if length b < 40 \<or> field32 b 0 \<noteq> fdtMagic \<or> unat (field32 b 4) \<noteq> length b \<or> 17 < field32 b 24
            \<or> length b < so + sn \<or> length b < to + tn then None
         else case read_node (length b) (take tn (drop to b)) (take sn (drop so b)) of
                Some (t, rest) \<Rightarrow> if rest = be32 fdtEnd then Some t else None
              | None \<Rightarrow> None)"

section \<open>Writing trees\<close>

text \<open>Statements on a builder, one after the other.\<close>

primrec run :: "(fdtBuilder \<Rightarrow> fdtBuilder) list \<Rightarrow> fdtBuilder \<Rightarrow> fdtBuilder" where
  "run [] f = f"
| "run (op # ops) f = run ops (op f)"

primrec emit :: "dtnode \<Rightarrow> fdtBuilder \<Rightarrow> fdtBuilder" where
  "emit (Node name ps cs) f = endNode (run (map emit cs) (fold (\<lambda>(k, v). propRaw k v) ps (beginNode name f)))"

fun nul_free :: "string \<Rightarrow> bool" where
  "nul_free s \<longleftrightarrow> CHR 0x00 \<notin> set s"

primrec tree_ok :: "dtnode \<Rightarrow> bool" where
  "tree_ok (Node name ps cs) \<longleftrightarrow>
     nul_free name \<and> list_all (\<lambda>(k, v). nul_free k \<and> length v < 2 ^ 32) ps \<and> list_all id (map tree_ok cs)"

primrec weight :: "dtnode \<Rightarrow> nat" where
  "weight (Node name ps cs) = length ps + sum_list (map weight cs) + 2"

lemma weight_pos: "2 \<le> weight t"
  by (cases t) simp

section \<open>Strings\<close>

definition string_at :: "bytes \<Rightarrow> nat \<Rightarrow> string \<Rightarrow> bool" where
  "string_at strs off s \<longleftrightarrow> (\<exists>p q. strs = p @ bytes_of_string s @ [0] @ q \<and> length p = off)"

lemma nul_free_bytes: "nul_free s \<longleftrightarrow> 0 \<notin> set (bytes_of_string s)"
proof -
  have inv: "char_of (unat (word_of_nat (of_char c) :: u8)) = c" for c
    using string_of_bytes_of_string [of "[c]"] by (simp add: string_of_bytes_def bytes_of_string_def)
  have "word_of_nat (of_char c) = (0 :: u8) \<longleftrightarrow> c = CHR 0x00" for c
  proof
    assume "word_of_nat (of_char c) = (0 :: u8)"
    then show "c = CHR 0x00" using inv [of c] by (simp add: char_of_def)
  qed simp
  then show ?thesis by (auto simp: bytes_of_string_def image_iff)
qed

lemma cstring_bytes: "nul_free s \<Longrightarrow> cstring (bytes_of_string s @ 0 # q) = Some s"
proof -
  assume "nul_free s"
  then have "takeWhile (\<lambda>x. x \<noteq> 0) (bytes_of_string s) = bytes_of_string s"
    unfolding nul_free_bytes takeWhile_eq_all_conv by metis
  then show ?thesis by (simp add: cstring_def takeWhile_tail)
qed

lemma string_at_cstring: "string_at strs off s \<Longrightarrow> nul_free s \<Longrightarrow> cstring (drop off (strs @ more')) = Some s"
  by (auto simp: string_at_def cstring_bytes)

lemma string_at_append: "string_at strs off s \<Longrightarrow> string_at (strs @ t) off s"
  unfolding string_at_def by (metis append.assoc)

definition index_valid :: "fdtBuilder \<Rightarrow> bool" where
  "index_valid f \<longleftrightarrow> (\<forall>k off. map_of (strIndex f) k = Some off \<longrightarrow> string_at (strings f) (unat off) k)"

lemma addString_spec:
  assumes "index_valid f" "length (strings f) < 2 ^ 32" "addString s f = (off, f')"
  shows "index_valid f' \<and> string_at (strings f') (unat off) s \<and> structs f' = structs f \<and> (\<exists>t. strings f' = strings f @ t)"
proof (cases "map_of (strIndex f) s")
  case (Some o')
  with assms show ?thesis by (auto simp: addString_def index_valid_def)
next
  case None
  then have f': "off = of_nat (length (strings f))"
    "f' = f\<lparr>strIndex := AList.update s off (strIndex f), strings := strings f @ bytes_of_string s @ [0]\<rparr>"
    using assms(3) by (auto simp: addString_def Let_def)
  have "unat off = length (strings f)" using assms(2) by (simp add: f'(1) unat_of_nat)
  then have at: "string_at (strings f') (unat off) s" by (auto simp: f'(2) string_at_def)
  have "string_at (strings f') (unat o') k" if "map_of (strIndex f) k = Some o'" for k o'
    using that assms(1) string_at_append by (auto simp: index_valid_def f'(2))
  then have "index_valid f'" using at by (auto simp: index_valid_def f'(2) update_conv split: if_splits)
  with at show ?thesis by (auto simp: f'(2))
qed

lemma padTo4_split: "\<exists>z. padTo4 d = d @ z \<and> length (padTo4 d) = pad4 (length d)"
proof -
  let ?n = "length d"
  have "?n mod 4 = 0 \<or> ?n mod 4 = 1 \<or> ?n mod 4 = 2 \<or> ?n mod 4 = 3" by linarith
  moreover have "?n = 4 * (?n div 4) + ?n mod 4" by simp
  ultimately have "length (padTo4 d) = pad4 ?n" unfolding padTo4_def Let_def pad4_def by (elim disjE) (simp_all, presburger+)
  then show ?thesis by (auto simp: padTo4_def Let_def)
qed

section \<open>Reading back\<close>

definition no_prop :: "bytes \<Rightarrow> bool" where
  "no_prop b \<longleftrightarrow> 4 \<le> length b \<and> get_be32 b \<noteq> fdtProp"

definition reads_props :: "bytes \<Rightarrow> bytes \<Rightarrow> (string \<times> bytes) list \<Rightarrow> bool" where
  "reads_props strs enc ps \<longleftrightarrow> (\<forall>rest n more'. length ps < n \<and> no_prop rest \<longrightarrow>
     read_props n (strs @ more') (enc @ rest) = Some (ps, rest))"

definition reads_node :: "bytes \<Rightarrow> bytes \<Rightarrow> dtnode \<Rightarrow> bool" where
  "reads_node strs enc t \<longleftrightarrow> no_prop enc \<and> weight t \<le> length enc \<and> get_be32 enc = fdtBeginNode \<and>
     (\<forall>rest n more'. weight t \<le> n \<longrightarrow> read_node n (strs @ more') (enc @ rest) = Some (t, rest))"

definition reads_nodes :: "bytes \<Rightarrow> bytes \<Rightarrow> dtnode list \<Rightarrow> bool" where
  "reads_nodes strs enc ts \<longleftrightarrow> sum_list (map weight ts) \<le> length enc \<and> no_prop (enc @ be32 fdtEndNode) \<and>
     (\<forall>rest n more'. sum_list (map weight ts) < n \<longrightarrow>
        read_nodes n (strs @ more') (enc @ be32 fdtEndNode @ rest) = Some (ts, rest))"

lemma token_be32: "token (be32 w @ b) = Some (w, b)"
  by (simp add: token_def codec_simps len_simps)

lemma token_words: "fdtProp \<noteq> fdtBeginNode" "fdtProp \<noteq> fdtEndNode" "fdtEndNode \<noteq> fdtBeginNode" "fdtBeginNode \<noteq> fdtEndNode"
  "fdtEndNode \<noteq> fdtProp" "fdtBeginNode \<noteq> fdtProp"
  by (simp_all add: fdtProp_def fdtBeginNode_def fdtEndNode_def)

lemma get_be32_append: "4 \<le> length a \<Longrightarrow> get_be32 (a @ b) = get_be32 a"
  by (auto simp: get_be32_def nth_append)

lemma drop_be32: "drop 4 (be32 w @ b) = b" "drop 8 (be32 v @ be32 w @ b) = b"
  by (simp_all add: be32_def)

lemma read_props_end: "no_prop rest \<Longrightarrow> read_props (Suc n) strs rest = Some ([], rest)"
  by (simp add: no_prop_def token_def)

lemma reads_props_Nil: "reads_props strs [] []"
  unfolding reads_props_def using read_props_end by (metis append_Nil length_0_conv less_imp_Suc_add list.size(3))

lemma read_prop:
  assumes "string_at strs (unat off) k" "nul_free k" "length v < 2 ^ 32"
  shows "read_props (Suc n) strs (be32 fdtProp @ be32 (of_nat (length v)) @ be32 off @ padTo4 v @ b) =
    (case read_props n strs b of None \<Rightarrow> None | Some (ps, rest) \<Rightarrow> Some ((k, v) # ps, rest))"
proof -
  define b1 where "b1 = be32 (of_nat (length v)) @ be32 off @ padTo4 v @ b"
  obtain z where z: "padTo4 v = v @ z" "length (padTo4 v) = pad4 (length v)" using padTo4_split by blast
  have len: "unat (get_be32 b1) = length v" using assms(3) by (simp add: b1_def codec_simps unat_of_nat)
  have off: "get_be32 (drop 4 b1) = off" unfolding b1_def drop_be32 by (simp add: codec_simps)
  have d: "drop 8 b1 = padTo4 v @ b" unfolding b1_def drop_be32 ..
  then have d2: "drop (8 + pad4 (length v)) b1 = b" using z(2) by (metis drop_drop add.commute append_eq_conv_conj)
  have l: "\<not> length b1 < 8 + pad4 (length v)" using z(2) by (simp add: b1_def len_simps)
  have c: "cstring (drop (unat off) strs) = Some k" using string_at_cstring [OF assms(1,2), of "[]"] by simp
  have t: "take (length v) (drop 8 b1) = v" unfolding d z(1) by simp
  show ?thesis unfolding read_props.simps token_be32 b1_def [symmetric] by (simp add: len off d2 l c t Let_def split: option.split)
qed

lemma no_prop_append: "no_prop b \<Longrightarrow> no_prop (b @ c)"
  by (auto simp: no_prop_def get_be32_def nth_append)

lemma read_props_step:
  assumes "string_at strs (unat off) k" "nul_free k" "length v < 2 ^ 32" "reads_props strs enc ps"
  shows "reads_props strs (be32 fdtProp @ be32 (of_nat (length v)) @ be32 off @ padTo4 v @ enc) ((k, v) # ps)"
  unfolding reads_props_def
proof (intro allI impI)
  fix rest n more' assume a: "length ((k, v) # ps) < n \<and> no_prop rest"
  then obtain m where m: "n = Suc m" "length ps < m" by (cases n) auto
  from read_prop [OF string_at_append [OF assms(1)] assms(2,3)] assms(4) a m
  show "read_props n (strs @ more') ((be32 fdtProp @ be32 (of_nat (length v)) @ be32 off @ padTo4 v @ enc) @ rest) = Some ((k, v) # ps, rest)"
    by (simp add: reads_props_def)
qed

lemma reads_props_more: "reads_props strs enc ps \<Longrightarrow> reads_props (strs @ t) enc ps"
  unfolding reads_props_def by simp

lemma reads_node_more: "reads_node strs enc c \<Longrightarrow> reads_node (strs @ t) enc c"
  unfolding reads_node_def by simp

lemma reads_nodes_Nil: "reads_nodes strs [] []"
  unfolding reads_nodes_def
  by (auto simp: no_prop_def codec_simps len_simps token_words gr0_conv_Suc token_be32)

lemma reads_nodes_Cons:
  assumes c: "reads_node strs e1 c" and cs: "reads_nodes strs e2 cs"
  shows "reads_nodes strs (e1 @ e2) (c # cs)"
  unfolding reads_nodes_def
proof (intro conjI allI impI)
  show "sum_list (map weight (c # cs)) \<le> length (e1 @ e2)" using c cs by (simp add: reads_node_def reads_nodes_def)
  show "no_prop ((e1 @ e2) @ be32 fdtEndNode)" using c by (simp add: reads_node_def no_prop_append)
  fix rest n more' assume n: "sum_list (map weight (c # cs)) < n"
  then obtain m where m: "n = Suc m" "weight c + sum_list (map weight cs) \<le> m" by (cases n) auto
  define b where "b = e1 @ e2 @ be32 fdtEndNode @ rest"
  have tk: "token b = Some (fdtBeginNode, drop 4 b)"
  proof -
    have "4 \<le> length e1" "get_be32 e1 = fdtBeginNode" using c by (auto simp: reads_node_def no_prop_def)
    then show ?thesis by (simp add: b_def token_def get_be32_append)
  qed
  have "read_node m (strs @ more') b = Some (c, e2 @ be32 fdtEndNode @ rest)"
    using c m by (simp add: reads_node_def b_def)
  moreover have "read_nodes m (strs @ more') (e2 @ be32 fdtEndNode @ rest) = Some (cs, rest)"
    using cs m weight_pos [of c] by (simp add: reads_nodes_def)
  ultimately have "read_nodes n (strs @ more') b = Some (c # cs, rest)"
    by (simp add: m(1) tk token_words)
  then show "read_nodes n (strs @ more') ((e1 @ e2) @ be32 fdtEndNode @ rest) = Some (c # cs, rest)" by (simp add: b_def)
qed

lemma reads_node_Node:
  assumes name: "nul_free name" and ps: "reads_props strs e1 ps" "12 * length ps \<le> length e1" and cs: "reads_nodes strs e2 cs"
  shows "reads_node strs (be32 fdtBeginNode @ padTo4 (bytes_of_string name @ [0]) @ e1 @ e2 @ be32 fdtEndNode) (Node name ps cs)"
  unfolding reads_node_def
proof (intro conjI allI impI)
  let ?nb = "padTo4 (bytes_of_string name @ [0])"
  let ?e = "be32 fdtBeginNode @ ?nb @ e1 @ e2 @ be32 fdtEndNode"
  show "no_prop ?e" "get_be32 ?e = fdtBeginNode" by (simp_all add: no_prop_def codec_simps len_simps token_words)
  show "weight (Node name ps cs) \<le> length ?e" using ps(2) cs by (simp add: reads_nodes_def len_simps)
  obtain z where z: "?nb = (bytes_of_string name @ [0]) @ z" "length ?nb = pad4 (length name + 1)"
    using padTo4_split [of "bytes_of_string name @ [0]"] by auto
  fix rest n more' assume "weight (Node name ps cs) \<le> n"
  then obtain m where m: "n = Suc m" "length ps < Suc m" "sum_list (map weight cs) < m" by (cases n) auto
  define tl where "tl = e2 @ be32 fdtEndNode @ rest"
  define b1 where "b1 = ?nb @ e1 @ tl"
  have c: "cstring b1 = Some name" unfolding b1_def z(1) using cstring_bytes [OF name] by simp
  have d: "drop (pad4 (length name + 1)) b1 = e1 @ tl" unfolding b1_def using z(2) by simp
  have np: "no_prop tl" using cs no_prop_append [of "e2 @ be32 fdtEndNode" rest] by (simp add: reads_nodes_def tl_def)
  have p: "read_props (Suc m) (strs @ more') (e1 @ tl) = Some (ps, tl)"
    using ps(1) np m(2) unfolding reads_props_def by blast
  have q: "read_nodes m (strs @ more') tl = Some (cs, rest)" using cs m(3) by (simp add: reads_nodes_def tl_def)
  have "read_node n (strs @ more') (be32 fdtBeginNode @ b1) = Some (Node name ps cs, rest)"
    unfolding m(1) read_node.simps token_be32 by (simp add: c d [simplified] p q del: read_props.simps)
  then show "read_node n (strs @ more') (?e @ rest) = Some (Node name ps cs, rest)" by (simp add: b1_def tl_def)
qed

section \<open>What the builder writes\<close>

lemma propRaw_spec:
  assumes "index_valid f" "length (strings f) < 2 ^ 32"
  shows "\<exists>off t. structs (propRaw k v f) = structs f @ be32 fdtProp @ be32 (of_nat (length v)) @ be32 off @ padTo4 v
    \<and> strings (propRaw k v f) = strings f @ t \<and> index_valid (propRaw k v f) \<and> string_at (strings (propRaw k v f)) (unat off) k"
proof -
  define f1 where "f1 = appendU32 (of_nat (length v)) (appendU32 fdtProp f)"
  obtain off f2 where f2: "addString k f1 = (off, f2)" by (cases "addString k f1")
  have "index_valid f1" "strings f1 = strings f" using assms(1) by (simp_all add: f1_def appendU32_def index_valid_def)
  with addString_spec [OF _ _ f2] assms(2)
  have *: "index_valid f2" "string_at (strings f2) (unat off) k" "structs f2 = structs f1" "\<exists>t. strings f2 = strings f @ t" by auto
  have p: "propRaw k v f = (appendU32 off f2)\<lparr>structs := structs (appendU32 off f2) @ padTo4 v\<rparr>"
    by (simp add: propRaw_def f1_def [symmetric] f2 Let_def)
  show ?thesis using * unfolding p by (auto simp: appendU32_def f1_def index_valid_def)
qed

text \<open>The string table only grows.\<close>

definition grows :: "fdtBuilder \<Rightarrow> fdtBuilder \<Rightarrow> bool" where
  "grows f g \<longleftrightarrow> (\<exists>t. strings g = strings f @ t)"

lemma grows_refl: "grows f f" and grows_trans: "grows f g \<Longrightarrow> grows g h \<Longrightarrow> grows f h"
  and grows_length: "grows f g \<Longrightarrow> length (strings f) \<le> length (strings g)"
  by (auto simp: grows_def)

lemma propRaw_grows: "grows f (propRaw k v f)"
  by (auto simp: grows_def propRaw_def addString_def appendU32_def Let_def split: option.split prod.split)

abbreviation add_props :: "(string \<times> bytes) list \<Rightarrow> fdtBuilder \<Rightarrow> fdtBuilder" where
  "add_props ps \<equiv> fold (\<lambda>(k, v). propRaw k v) ps"

lemma add_props_grows: "grows f (add_props ps f)"
  by (induction ps arbitrary: f) (auto intro: grows_refl grows_trans [OF propRaw_grows])

lemma beginNode_grows: "grows f (beginNode n f)" "grows f (endNode f)" "grows f (appendU32 w f)"
  by (simp_all add: grows_def beginNode_def endNode_def appendU32_def)

lemma emit_grows: "grows f (emit t f)"
proof (induction t arbitrary: f)
  case (Node name ps cs)
  have "grows f (run (map emit cs) f)" for f
    using Node.IH by (induction cs arbitrary: f) (auto intro: grows_refl grows_trans)
  then show ?case unfolding emit.simps by (meson beginNode_grows add_props_grows grows_trans)
qed

lemma add_props_spec:
  assumes "list_all (\<lambda>(k, v). nul_free k \<and> length v < 2 ^ 32) ps" "index_valid f" "length (strings (add_props ps f)) < 2 ^ 32"
  shows "\<exists>enc. structs (add_props ps f) = structs f @ enc \<and> index_valid (add_props ps f) \<and> 12 * length ps \<le> length enc
    \<and> reads_props (strings (add_props ps f)) enc ps"
  using assms
proof (induction ps arbitrary: f)
  case Nil
  then show ?case by (simp add: reads_props_Nil)
next
  case (Cons p ps)
  obtain k v where p: "p = (k, v)" by (cases p)
  let ?g = "propRaw k v f"
  have fin: "length (strings (add_props ps ?g)) < 2 ^ 32" using Cons.prems(3) p by simp
  have "length (strings f) < 2 ^ 32"
    using fin grows_length [OF grows_trans [OF propRaw_grows add_props_grows [of ?g ps]]] by (meson le_less_trans)
  from propRaw_spec [OF Cons.prems(2) this, of k v] obtain off where g: "index_valid ?g" "string_at (strings ?g) (unat off) k"
    "structs ?g = structs f @ be32 fdtProp @ be32 (of_nat (length v)) @ be32 off @ padTo4 v" by blast
  from Cons.IH [OF _ g(1) fin] Cons.prems(1) obtain enc where enc: "structs (add_props ps ?g) = structs ?g @ enc"
    "index_valid (add_props ps ?g)" "12 * length ps \<le> length enc" "reads_props (strings (add_props ps ?g)) enc ps" by auto
  from add_props_grows [of ?g ps] have at: "string_at (strings (add_props ps ?g)) (unat off) k"
    using g(2) string_at_append by (auto simp: grows_def)
  have "reads_props (strings (add_props ps ?g)) (be32 fdtProp @ be32 (of_nat (length v)) @ be32 off @ padTo4 v @ enc) ((k, v) # ps)"
    using read_props_step [OF at _ _ enc(4)] Cons.prems(1) p by simp
  with g(3) enc(1-3) p show ?case
    by (intro exI [of _ "be32 fdtProp @ be32 (of_nat (length v)) @ be32 off @ padTo4 v @ enc"]) (simp add: len_simps)
qed

lemma emit_spec:
  "tree_ok t \<Longrightarrow> index_valid f \<Longrightarrow> length (strings (emit t f)) < 2 ^ 32 \<Longrightarrow>
     \<exists>enc. structs (emit t f) = structs f @ enc \<and> index_valid (emit t f) \<and> reads_node (strings (emit t f)) enc t"
proof (induction t arbitrary: f)
  case (Node name ps cs)
  have nodes: "\<exists>enc. structs (run (map emit cs') f) = structs f @ enc \<and> index_valid (run (map emit cs') f)
      \<and> reads_nodes (strings (run (map emit cs') f)) enc cs'"
    if "set cs' \<subseteq> set cs" "list_all tree_ok cs'" "index_valid f" "length (strings (run (map emit cs') f)) < 2 ^ 32" for f cs'
    using that
  proof (induction cs' arbitrary: f)
    case Nil
    then show ?case by (simp add: reads_nodes_Nil)
  next
    case (Cons c cs')
    have gr: "grows g (run (map emit cs') g)" for g
      by (induction cs' arbitrary: g) (auto intro: grows_refl grows_trans [OF emit_grows])
    have fin: "length (strings (run (map emit cs') (emit c f))) < 2 ^ 32" using Cons.prems(4) by simp
    then have "length (strings (emit c f)) < 2 ^ 32" using grows_length [OF gr [of "emit c f"]] by (meson le_less_trans)
    with Node.IH [of c f] Cons.prems obtain e1 where e1: "structs (emit c f) = structs f @ e1" "index_valid (emit c f)"
      "reads_node (strings (emit c f)) e1 c" by auto
    from Cons.IH [OF _ _ e1(2) fin] Cons.prems obtain e2 where e2: "structs (run (map emit cs') (emit c f)) = structs (emit c f) @ e2"
      "index_valid (run (map emit cs') (emit c f))" "reads_nodes (strings (run (map emit cs') (emit c f))) e2 cs'" by auto
    have "reads_node (strings (run (map emit cs') (emit c f))) e1 c"
      using gr [of "emit c f"] e1(3) reads_node_more by (auto simp: grows_def)
    from reads_nodes_Cons [OF this e2(3)] e1(1) e2(1,2) show ?case by auto
  qed
  let ?b = "beginNode name f"
  let ?p = "add_props ps ?b"
  let ?n = "run (map emit cs) ?p"
  have ok: "nul_free name" "list_all (\<lambda>(k, v). nul_free k \<and> length v < 2 ^ 32) ps" "list_all tree_ok cs"
    using Node.prems(1) by (auto simp: list_all_iff)
  have fin: "length (strings ?n) < 2 ^ 32" using Node.prems(3) by (simp add: endNode_def appendU32_def)
  have gr: "grows ?p ?n"
  proof -
    have "grows g (run (map emit cs') g)" for g cs'
      by (induction cs' arbitrary: g) (auto intro: grows_refl grows_trans [OF emit_grows])
    then show ?thesis .
  qed
  have "index_valid ?b" using Node.prems(2) by (simp add: beginNode_def appendU32_def index_valid_def)
  moreover have "length (strings ?p) < 2 ^ 32" using fin grows_length [OF gr] by (meson le_less_trans)
  ultimately obtain e1 where e1: "structs ?p = structs ?b @ e1" "index_valid ?p" "12 * length ps \<le> length e1" "reads_props (strings ?p) e1 ps"
    using add_props_spec [OF ok(2)] by blast
  from nodes [OF subset_refl ok(3) e1(2) fin] obtain e2 where e2: "structs ?n = structs ?p @ e2" "index_valid ?n" "reads_nodes (strings ?n) e2 cs"
    by blast
  have "reads_props (strings ?n) e1 ps" using gr e1(4) reads_props_more by (auto simp: grows_def)
  from reads_node_Node [OF ok(1) this e1(3) e2(3)] e1(1) e2(1,2)
  show ?case by (simp add: endNode_def beginNode_def appendU32_def index_valid_def)
qed

lemma field32_be32: "field32 (be32 w @ b) 0 = w" "4 \<le> i \<Longrightarrow> field32 (be32 w @ b) i = field32 b (i - 4)"
  by (simp_all add: field32_def codec_simps len_simps)

lemma read_finish:
  assumes "tree_ok t" "length (finish (emit t newFDTBuilder)) < 2 ^ 32"
  shows "read_dtb (finish (emit t newFDTBuilder)) = Some t"
proof -
  define f where "f = emit t newFDTBuilder"
  define sn where "sn = length (structs f) + 4"
  define tn where "tn = length (strings f)"
  define b where "b = finish f"
  have b: "b = be32 fdtMagic @ be32 (56 + of_nat sn + of_nat tn) @ be32 56 @ be32 (56 + of_nat sn) @ be32 40
      @ be32 fdtVersion @ be32 fdtLastComp @ be32 0 @ be32 (of_nat tn) @ be32 (of_nat sn)
      @ zeros 16 @ (structs f @ be32 fdtEnd) @ strings f"
    by (simp add: b_def finish_def appendU32_def Let_def sn_def tn_def len_simps)
  have len: "length b = 56 + sn + tn" by (simp add: b len_simps sn_def tn_def)
  then have lt: "56 + sn + tn < 2 ^ 32" using assms(2) by (simp add: b_def f_def)
  have u: "unat (of_nat sn :: u32) = sn" "unat (of_nat tn :: u32) = tn" "unat (56 + of_nat sn :: u32) = 56 + sn"
    "unat (56 + of_nat sn + of_nat tn :: u32) = 56 + sn + tn"
    using lt by (simp_all add: unat_word_ariths unat_of_nat)
  have fl: "field32 b 0 = fdtMagic" "field32 b 4 = 56 + of_nat sn + of_nat tn" "field32 b 8 = 56" "field32 b 12 = 56 + of_nat sn"
    "field32 b 24 = fdtLastComp" "field32 b 32 = of_nat tn" "field32 b 36 = of_nat sn"
    unfolding b by (simp_all add: field32_be32)
  have "length (strings f) < 2 ^ 32" using lt by (simp add: tn_def)
  moreover have "index_valid newFDTBuilder" by (simp add: index_valid_def newFDTBuilder_def)
  ultimately obtain enc where "structs f = enc" "reads_node (strings f) enc t"
    using emit_spec [OF assms(1), of newFDTBuilder] by (auto simp: f_def newFDTBuilder_def)
  then have rd: "reads_node (strings f) (structs f) t" by simp
  define hd56 where "hd56 = take 56 b"
  have hb: "b = hd56 @ (structs f @ be32 fdtEnd) @ strings f" "length hd56 = 56" unfolding hd56_def b by (simp_all add: len_simps)
  have st: "take sn (drop 56 b) = structs f @ be32 fdtEnd" using hb by (simp add: sn_def len_simps)
  have tt: "take tn (drop (56 + sn) b) = strings f" using hb by (simp add: sn_def tn_def len_simps)
  have "weight t \<le> length b" using rd len by (simp add: reads_node_def sn_def)
  then have "read_node (length b) (strings f @ []) (structs f @ be32 fdtEnd) = Some (t, be32 fdtEnd)"
    using rd unfolding reads_node_def by blast
  then have "read_dtb b = Some t" unfolding read_dtb_def Let_def fl u
    using len st tt by (simp add: fdtLastComp_def u tn_def)
  then show ?thesis by (simp add: b_def f_def)
qed

section \<open>The tree of the machine\<close>

fun hex_char :: "nat \<Rightarrow> char" where
  "hex_char d = (if d < 10 then char_of (48 + d) else char_of (87 + d))"

text \<open>\<open>Sprintf("%x", n)\<close>.\<close>

fun itox :: "nat \<Rightarrow> string" where
  "itox n = (if n < 16 then [hex_char n] else itox (n div 16) @ [hex_char (n mod 16)])"

declare itox.simps [simp del]

record bootConfig =
  initrdAddr :: u64
  initrdSize :: u64
  memSize :: u64
  commandLine :: string
  numCPUs :: nat
  virtioDevices :: "u64 list"

definition guestMemBase :: u64 where "guestMemBase = 0x40000000"
definition gicDistBase :: u64 where "gicDistBase = 0x08000000"
definition gicCPUBase :: u64 where "gicCPUBase = 0x08010000"
definition gicRedistBase :: u64 where "gicRedistBase = 0x080A0000"
definition gicRedistSize :: u64 where "gicRedistSize = 0x00F60000"

definition hi32 :: "u64 \<Rightarrow> u32" where "hi32 w = ucast (drop_bit 32 w)"
definition lo32 :: "u64 \<Rightarrow> u32" where "lo32 w = ucast w"

definition memory_node :: "bootConfig \<Rightarrow> (fdtBuilder \<Rightarrow> fdtBuilder) list" where
  "memory_node boot =
     [beginNode (''memory@'' @ itox (unat guestMemBase)),
      propString ''device_type'' ''memory'',
      propU32Array ''reg'' [hi32 guestMemBase, lo32 guestMemBase, hi32 (memSize boot), lo32 (memSize boot)],
      endNode]"

definition chosen_node :: "bootConfig \<Rightarrow> (fdtBuilder \<Rightarrow> fdtBuilder) list" where
  "chosen_node boot =
     [beginNode ''chosen'', propString ''bootargs'' (commandLine boot), propString ''stdout-path'' ''/pl011@9000000'']
     @ (if 0 < initrdSize boot
        then [propU64 ''linux,initrd-start'' (initrdAddr boot), propU64 ''linux,initrd-end'' (initrdAddr boot + initrdSize boot)]
        else [])
     @ [endNode]"

definition psci_node :: "(fdtBuilder \<Rightarrow> fdtBuilder) list" where
  "psci_node = [beginNode ''psci'', propString ''compatible'' ''arm,psci-0.2'', propString ''method'' ''hvc'', endNode]"

definition cpu_node :: "string \<Rightarrow> nat \<Rightarrow> (fdtBuilder \<Rightarrow> fdtBuilder) list" where
  "cpu_node cpuCompat i =
     [beginNode (''cpu@'' @ itoa i), propString ''device_type'' ''cpu'', propString ''compatible'' cpuCompat,
      propU32 ''reg'' (of_nat i), propString ''enable-method'' ''psci'', endNode]"

definition cpus_node :: "bootConfig \<Rightarrow> string \<Rightarrow> (fdtBuilder \<Rightarrow> fdtBuilder) list" where
  "cpus_node boot cpuCompat =
     [beginNode ''cpus'', propU32 ''#address-cells'' 1, propU32 ''#size-cells'' 0]
     @ concat (map (cpu_node cpuCompat) [0..<numCPUs boot]) @ [endNode]"

definition clock_node :: "(fdtBuilder \<Rightarrow> fdtBuilder) list" where
  "clock_node = [beginNode ''apb-pclk'', propString ''compatible'' ''fixed-clock'', propU32 ''#clock-cells'' 0,
     propU32 ''clock-frequency'' 24000000, propU32 ''phandle'' 2, endNode]"

definition gic_node :: "nat \<Rightarrow> (fdtBuilder \<Rightarrow> fdtBuilder) list" where
  "gic_node gicVersion =
     [beginNode (''intc@'' @ itox (unat gicDistBase))]
     @ (if gicVersion = 3
        then [propString ''compatible'' ''arm,gic-v3'', propU32 ''#interrupt-cells'' 3, propEmpty ''interrupt-controller'',
              propU32 ''#address-cells'' 2, propU32 ''#size-cells'' 2, propEmpty ''ranges'',
              propU32Array ''reg'' [hi32 gicDistBase, lo32 gicDistBase, 0, 0x10000,
                hi32 gicRedistBase, lo32 gicRedistBase, hi32 gicRedistSize, lo32 gicRedistSize]]
        else [propString ''compatible'' ''arm,cortex-a15-gic'', propU32 ''#interrupt-cells'' 3, propEmpty ''interrupt-controller'',
              propU32 ''#address-cells'' 2, propU32 ''#size-cells'' 2, propEmpty ''ranges'',
              propU32Array ''reg'' [hi32 gicDistBase, lo32 gicDistBase, 0, 0x10000,
                hi32 gicCPUBase, lo32 gicCPUBase, 0, 0x10000]])
     @ [propU32 ''phandle'' 1, endNode]"

definition timer_node :: "(fdtBuilder \<Rightarrow> fdtBuilder) list" where
  "timer_node = [beginNode ''timer'', propStringList ''compatible'' [''arm,armv8-timer'', ''arm,armv7-timer''], propEmpty ''always-on'',
     propU32Array ''interrupts'' [1, 13, 4, 1, 14, 4, 1, 11, 4, 1, 10, 4], endNode]"

definition pl011_node :: "(fdtBuilder \<Rightarrow> fdtBuilder) list" where
  "pl011_node = [beginNode ''pl011@9000000'', propStringList ''compatible'' [''arm,pl011'', ''arm,primecell''],
     propU32Array ''reg'' [0, 0x09000000, 0, 0x1000], propU32Array ''interrupts'' [0, 1, 4], propU32 ''interrupt-parent'' 1,
     propStringList ''clock-names'' [''uartclk'', ''apb_pclk''], propU32Array ''clocks'' [2, 2], endNode]"

definition pl031_node :: "(fdtBuilder \<Rightarrow> fdtBuilder) list" where
  "pl031_node = [beginNode ''pl031@9010000'', propStringList ''compatible'' [''arm,pl031'', ''arm,primecell''],
     propU32Array ''reg'' [0, 0x09010000, 0, 0x1000], propU32Array ''interrupts'' [0, 2, 4], propU32 ''interrupt-parent'' 1,
     propStringList ''clock-names'' [''apb_pclk''], propU32Array ''clocks'' [2], endNode]"

definition virtio_node :: "nat \<times> u64 \<Rightarrow> (fdtBuilder \<Rightarrow> fdtBuilder) list" where
  "virtio_node d =
     (case d of (i, baseAddr) \<Rightarrow>
        [beginNode (''virtio_mmio@'' @ itox (unat baseAddr)), propString ''compatible'' ''virtio,mmio'',
         propU32Array ''reg'' [hi32 baseAddr, lo32 baseAddr, 0, 0x200],
         propU32Array ''interrupts'' [0, of_nat (16 + i), 1], propU32 ''interrupt-parent'' 1, propEmpty ''dma-coherent'', endNode])"

definition buildDTB :: "nat \<Rightarrow> bootConfig \<Rightarrow> string \<Rightarrow> bytes" where
  "buildDTB gicVersion boot cpuCompat =
     finish (run
       ([beginNode [], propString ''compatible'' ''linux,dummy-virt'', propU32 ''#address-cells'' 2, propU32 ''#size-cells'' 2,
         propU32 ''interrupt-parent'' 1]
        @ memory_node boot @ chosen_node boot @ psci_node @ cpus_node boot cpuCompat @ clock_node @ gic_node gicVersion
        @ timer_node @ pl011_node @ pl031_node
        @ concat (map virtio_node (enumerate 0 (virtioDevices boot))) @ [endNode]) newFDTBuilder)"

section \<open>The guest reads the machine that was configured\<close>

definition cstr :: "string \<Rightarrow> bytes" where "cstr s = bytes_of_string s @ [0]"

definition memory_tree :: "bootConfig \<Rightarrow> dtnode" where
  "memory_tree boot = Node ''memory@40000000'' [(''device_type'', cstr ''memory''), (''reg'', be64 guestMemBase @ be64 (memSize boot))] []"

definition chosen_tree :: "bootConfig \<Rightarrow> dtnode" where
  "chosen_tree boot = Node ''chosen'' ([(''bootargs'', cstr (commandLine boot)), (''stdout-path'', cstr ''/pl011@9000000'')]
     @ (if 0 < initrdSize boot
        then [(''linux,initrd-start'', be64 (initrdAddr boot)), (''linux,initrd-end'', be64 (initrdAddr boot + initrdSize boot))]
        else [])) []"

definition cpu_tree :: "string \<Rightarrow> nat \<Rightarrow> dtnode" where
  "cpu_tree cpuCompat i = Node (''cpu@'' @ itoa i) [(''device_type'', cstr ''cpu''), (''compatible'', cstr cpuCompat),
     (''reg'', be32 (of_nat i)), (''enable-method'', cstr ''psci'')] []"

definition virtio_tree :: "nat \<times> u64 \<Rightarrow> dtnode" where
  "virtio_tree d = (case d of (i, baseAddr) \<Rightarrow> Node (''virtio_mmio@'' @ itox (unat baseAddr))
     [(''compatible'', cstr ''virtio,mmio''), (''reg'', be64 baseAddr @ be64 0x200),
      (''interrupts'', be32 0 @ be32 (of_nat (16 + i)) @ be32 1), (''interrupt-parent'', be32 1), (''dma-coherent'', [])] [])"

lemma be64_halves: "be32 (hi32 w) @ be32 (lo32 w) = be64 w"
proof -
  have l: "(ucast (drop_bit n (ucast (drop_bit 32 w) :: u32)) :: u8) = ucast (drop_bit (n + 32) w)"
    "(ucast (drop_bit n (ucast w :: u32)) :: u8) = ucast (drop_bit n w)" if "n \<le> 24" for n
    using that by (auto intro!: bit_word_eqI simp: bit_simps ac_simps)
  show ?thesis using l [of 24] l [of 16] l [of 8] l [of 0] by (simp add: be32_def be64_def hi32_def lo32_def)
qed

lemma run_append: "run (a @ b) f = run b (run a f)"
  by (induction a arbitrary: f) simp_all

lemma run_concat: "(\<And>x f. run (g x) f = emit (t x) f) \<Longrightarrow> run (concat (map g xs)) f = run (map emit (map t xs)) f"
  by (induction xs arbitrary: f) (simp_all add: run_append)

lemmas prop_defs = propString_def propU32_def propU64_def propEmpty_def propStringList_def propU32Array_def

lemma itox_bases: "itox (unat guestMemBase) = ''40000000''" "itox (unat gicDistBase) = ''8000000''"
  by (simp_all add: guestMemBase_def gicDistBase_def itox.simps char_of_def bit_0)

lemma emit_flat: "emit (Node name ps []) f = endNode (add_props ps (beginNode name f))"
  by simp

lemmas node_defs = be64_halves [symmetric] prop_defs cstr_def itox_bases

lemma run_memory: "run (memory_node boot) f = emit (memory_tree boot) f"
  by (simp add: memory_node_def memory_tree_def node_defs)

lemma run_chosen: "run (chosen_node boot) f = emit (chosen_tree boot) f"
  by (simp add: chosen_node_def chosen_tree_def node_defs)

lemma run_cpu: "run (cpu_node c i) f = emit (cpu_tree c i) f"
  by (simp add: cpu_node_def cpu_tree_def node_defs)

lemma run_virtio: "run (virtio_node d) f = emit (virtio_tree d) f"
proof -
  have "be32 0 @ be32 0x200 = be64 0x200" by code_simp
  then show ?thesis by (cases d) (simp add: virtio_node_def virtio_tree_def node_defs)
qed

text \<open>The other nodes, read off the statements.\<close>

definition psci_tree :: dtnode where
  "psci_tree = Node ''psci'' [(''compatible'', cstr ''arm,psci-0.2''), (''method'', cstr ''hvc'')] []"

definition cpus_tree :: "bootConfig \<Rightarrow> string \<Rightarrow> dtnode" where
  "cpus_tree boot c = Node ''cpus'' [(''#address-cells'', be32 1), (''#size-cells'', be32 0)] (map (cpu_tree c) [0..<numCPUs boot])"

definition clock_tree :: dtnode where
  "clock_tree = Node ''apb-pclk'' [(''compatible'', cstr ''fixed-clock''), (''#clock-cells'', be32 0),
     (''clock-frequency'', be32 24000000), (''phandle'', be32 2)] []"

definition gic_tree :: "nat \<Rightarrow> dtnode" where
  "gic_tree gicVersion = Node ''intc@8000000''
     [(''compatible'', cstr (if gicVersion = 3 then ''arm,gic-v3'' else ''arm,cortex-a15-gic'')), (''#interrupt-cells'', be32 3),
      (''interrupt-controller'', []), (''#address-cells'', be32 2), (''#size-cells'', be32 2), (''ranges'', []),
      (''reg'', be64 gicDistBase @ be32 0 @ be32 0x10000 @
         (if gicVersion = 3 then be64 gicRedistBase @ be64 gicRedistSize else be64 gicCPUBase @ be32 0 @ be32 0x10000)),
      (''phandle'', be32 1)] []"

definition timer_tree :: dtnode where
  "timer_tree = Node ''timer'' [(''compatible'', cstr ''arm,armv8-timer'' @ cstr ''arm,armv7-timer''), (''always-on'', []),
     (''interrupts'', concat (map be32 [1, 13, 4, 1, 14, 4, 1, 11, 4, 1, 10, 4]))] []"

definition pl011_tree :: dtnode where
  "pl011_tree = Node ''pl011@9000000'' [(''compatible'', cstr ''arm,pl011'' @ cstr ''arm,primecell''),
     (''reg'', concat (map be32 [0, 0x09000000, 0, 0x1000])), (''interrupts'', concat (map be32 [0, 1, 4])), (''interrupt-parent'', be32 1),
     (''clock-names'', cstr ''uartclk'' @ cstr ''apb_pclk''), (''clocks'', be32 2 @ be32 2)] []"

definition pl031_tree :: dtnode where
  "pl031_tree = Node ''pl031@9010000'' [(''compatible'', cstr ''arm,pl031'' @ cstr ''arm,primecell''),
     (''reg'', concat (map be32 [0, 0x09010000, 0, 0x1000])), (''interrupts'', concat (map be32 [0, 2, 4])), (''interrupt-parent'', be32 1),
     (''clock-names'', cstr ''apb_pclk''), (''clocks'', be32 2)] []"

lemma run_fixed:
  "run psci_node f = emit psci_tree f" "run clock_node f = emit clock_tree f" "run timer_node f = emit timer_tree f"
  "run pl011_node f = emit pl011_tree f" "run pl031_node f = emit pl031_tree f" "run (gic_node v) f = emit (gic_tree v) f"
  by (simp_all add: psci_node_def psci_tree_def clock_node_def clock_tree_def timer_node_def timer_tree_def pl011_node_def
      pl011_tree_def pl031_node_def pl031_tree_def gic_node_def gic_tree_def node_defs)

lemma run_cpus: "run (cpus_node boot c) f = emit (cpus_tree boot c) f"
  by (simp add: cpus_node_def cpus_tree_def node_defs run_append run_concat [of "cpu_node c" "cpu_tree c", OF run_cpu] comp_def)

definition dtb_tree :: "nat \<Rightarrow> bootConfig \<Rightarrow> string \<Rightarrow> dtnode" where
  "dtb_tree v boot c = Node []
     [(''compatible'', cstr ''linux,dummy-virt''), (''#address-cells'', be32 2), (''#size-cells'', be32 2), (''interrupt-parent'', be32 1)]
     ([memory_tree boot, chosen_tree boot, psci_tree, cpus_tree boot c, clock_tree, gic_tree v, timer_tree, pl011_tree, pl031_tree]
      @ map virtio_tree (enumerate 0 (virtioDevices boot)))"

lemma buildDTB_emit: "buildDTB v boot c = finish (emit (dtb_tree v boot c) newFDTBuilder)"
  unfolding buildDTB_def dtb_tree_def
  by (simp add: run_append run_memory run_chosen run_fixed run_cpus run_concat [of virtio_node virtio_tree, OF run_virtio] node_defs del: emit.simps) simp

lemma hex_char_val: "d < 16 \<Longrightarrow> (of_char (hex_char d) :: nat) = (if d < 10 then 48 + d else 87 + d)"
  by simp

lemma itox_nul_free: "nul_free (itox n)"
proof (induction n rule: itox.induct)
  case (1 n)
  have nz: "(CHR 0x00 = hex_char d) = False" if "d < 16" for d
  proof -
    have "(of_char (hex_char d) :: nat) \<noteq> 0" using hex_char_val [OF that] by (simp del: hex_char.simps)
    moreover have "(of_char (CHR 0x00) :: nat) = 0" by simp
    ultimately show ?thesis by metis
  qed
  show ?case using 1 by (subst itox.simps) (simp add: nz del: hex_char.simps)
qed

definition hex_val :: "char \<Rightarrow> nat" where
  "hex_val c = (let n = of_char c :: nat in if n < 58 then n - 48 else n - 87)"

lemma itox_val: "foldl (\<lambda>a c. 16 * a + hex_val c) 0 (itox n) = n"
proof (induction n rule: itox.induct)
  case (1 n)
  have v: "hex_val (hex_char d) = d" if "d < 16" for d
    using hex_char_val [OF that] that by (auto simp: hex_val_def Let_def simp del: hex_char.simps)
  show ?case
  proof (cases "n < 16")
    case True
    then show ?thesis using v by (simp add: itox.simps [of n] del: hex_char.simps)
  next
    case False
    then show ?thesis using v 1 by (simp add: itox.simps [of n] del: hex_char.simps)
  qed
qed

lemma itox_inj: "itox m = itox n \<longleftrightarrow> m = n"
  by (metis itox_val)

lemma dtb_tree_ok:
  assumes "nul_free (commandLine boot)" "length (commandLine boot) < 2 ^ 31" "nul_free c" "length c < 2 ^ 31"
  shows "tree_ok (dtb_tree v boot c)"
proof -
  have i: "CHR 0x00 \<notin> set (itoa n)" for n using digit_notin_itoa [of "CHR 0x00" n] by (simp add: is_digit_def)
  have x: "CHR 0x00 \<notin> set (itox n)" for n using itox_nul_free [of n] by simp
  have cpu: "list_all tree_ok (map (cpu_tree c) [0..<numCPUs boot])"
    using assms i by (simp add: list_all_iff cpu_tree_def cstr_def len_simps)
  have vio: "list_all tree_ok (map virtio_tree (enumerate 0 (virtioDevices boot)))"
    using x by (auto simp: list_all_iff virtio_tree_def cstr_def len_simps)
  have fixed: "tree_ok psci_tree" "tree_ok clock_tree" "tree_ok (gic_tree v)" "tree_ok timer_tree" "tree_ok pl011_tree" "tree_ok pl031_tree"
    by (simp_all add: psci_tree_def clock_tree_def gic_tree_def timer_tree_def pl011_tree_def pl031_tree_def cstr_def len_simps)
  have "tree_ok (memory_tree boot)" "tree_ok (chosen_tree boot)" "tree_ok (cpus_tree boot c)"
    using assms cpu by (simp_all add: memory_tree_def chosen_tree_def cpus_tree_def cstr_def len_simps list.pred_map comp_def)
  with fixed vio show ?thesis by (simp add: dtb_tree_def cstr_def len_simps list.pred_map comp_def)
qed

fun node_name :: "dtnode \<Rightarrow> string" where
  "node_name (Node n ps cs) = n"

text \<open>A property of a node by its path.\<close>

fun dt_prop :: "dtnode \<Rightarrow> string list \<Rightarrow> string \<Rightarrow> bytes option" where
  "dt_prop (Node n ps cs) [] k = map_of ps k"
| "dt_prop (Node n ps cs) (x # xs) k =
     (case find (\<lambda>c. node_name c = x) cs of None \<Rightarrow> None | Some c \<Rightarrow> dt_prop c xs k)"

text \<open>The names of the nodes below a node, in their order.\<close>

fun dt_children :: "dtnode \<Rightarrow> string list \<Rightarrow> string list option" where
  "dt_children (Node n ps cs) [] = Some (map node_name cs)"
| "dt_children (Node n ps cs) (x # xs) =
     (case find (\<lambda>c. node_name c = x) cs of None \<Rightarrow> None | Some c \<Rightarrow> dt_children c xs)"

definition cpu_name :: "nat \<Rightarrow> string" where
  "cpu_name i = ''cpu@'' @ itoa i"

definition virtio_name :: "u64 \<Rightarrow> string" where
  "virtio_name b = ''virtio_mmio@'' @ itox (unat b)"

lemma cpu_tree_name [simp]: "node_name (cpu_tree c i) = cpu_name j \<longleftrightarrow> i = j"
  by (auto simp: cpu_tree_def cpu_name_def dest: itoa_inj)

lemma find_cpu: "i \<in> set xs \<Longrightarrow> find (\<lambda>x. node_name x = cpu_name i) (map (cpu_tree c) xs) = Some (cpu_tree c i)"
  by (induction xs) auto

lemma virtio_tree_name [simp]: "node_name (virtio_tree (i, b)) = ''virtio_mmio@'' @ itox (unat b)"
  by (simp add: virtio_tree_def)

lemma find_virtio:
  "distinct ds \<Longrightarrow> i < length ds \<Longrightarrow>
     find (\<lambda>c. node_name c = ''virtio_mmio@'' @ itox (unat (ds ! i))) (map virtio_tree (enumerate j ds)) = Some (virtio_tree (j + i, ds ! i))"
proof (induction ds arbitrary: i j)
  case (Cons d ds)
  show ?case
  proof (cases i)
    case 0
    then show ?thesis by simp
  next
    case (Suc k)
    then have "ds ! k \<noteq> d" using Cons.prems by (auto simp: in_set_conv_nth)
    then have "unat (ds ! k) \<noteq> unat d" by (simp add: word_unat_eq_iff)
    then show ?thesis using Suc Cons.IH [of k "Suc j"] Cons.prems by (simp add: itox_inj)
  qed
qed simp

lemma dt_prop_virtio:
  assumes "distinct (virtioDevices boot)" "i < length (virtioDevices boot)"
  shows "dt_prop (dtb_tree v boot c) [''virtio_mmio@'' @ itox (unat (virtioDevices boot ! i))] k
    = dt_prop (virtio_tree (i, virtioDevices boot ! i)) [] k"
  using find_virtio [OF assms, of 0]
  by (simp add: dtb_tree_def memory_tree_def chosen_tree_def psci_tree_def cpus_tree_def clock_tree_def gic_tree_def timer_tree_def
      pl011_tree_def pl031_tree_def)

lemma dt_prop_cpus: "dt_prop (dtb_tree v boot c) (''cpus'' # xs) k = dt_prop (cpus_tree boot c) xs k"
  by (simp add: dtb_tree_def memory_tree_def chosen_tree_def psci_tree_def cpus_tree_def)

lemma dt_prop_cpu: "i < numCPUs boot \<Longrightarrow> dt_prop (dtb_tree v boot c) [''cpus'', cpu_name i] k = dt_prop (cpu_tree c i) [] k"
  unfolding dt_prop_cpus using find_cpu [of i "[0..<numCPUs boot]" c] by (simp add: cpus_tree_def)

lemma dt_cpus: "dt_children (dtb_tree v boot c) [''cpus''] = Some (map cpu_name [0..<numCPUs boot])"
  by (simp add: dtb_tree_def memory_tree_def chosen_tree_def psci_tree_def cpus_tree_def cpu_tree_def cpu_name_def comp_def)

lemma map_node_name_virtio: "map (node_name \<circ> virtio_tree) (enumerate j ds) = map virtio_name ds"
  by (induction ds arbitrary: j) (simp_all add: virtio_name_def)

lemma dt_nodes: "dt_children (dtb_tree v boot c) [] = Some ([''memory@40000000'', ''chosen'', ''psci'', ''cpus'', ''apb-pclk'',
    ''intc@8000000'', ''timer'', ''pl011@9000000'', ''pl031@9010000''] @ map virtio_name (virtioDevices boot))"
  by (simp add: dtb_tree_def memory_tree_def chosen_tree_def psci_tree_def cpus_tree_def clock_tree_def gic_tree_def
      timer_tree_def pl011_tree_def pl031_tree_def map_node_name_virtio)

text \<open>
  C19. The device tree that the builder writes is read back. For every tree whose names hold no NUL byte, a
  reader of the flattened format recovers from the finished blob exactly the nodes, names, properties and
  values that were written, with property names shared in the string table.
\<close>

theorem fdt_roundtrip:
  assumes "tree_ok t" "length (finish (emit t newFDTBuilder)) < 2 ^ 32"
  shows "read_dtb (finish (emit t newFDTBuilder)) = Some t"
  using assms by (rule read_finish)

definition tree0 :: dtnode where
  "tree0 = Node [] [(''a'', [1, 2, 3, 4, 5])] [Node ''n'' [(''a'', []), (''b'', [7])] []]"

theorem fdt_roundtrip_witness: "read_dtb (finish (emit tree0 newFDTBuilder)) = Some tree0"
proof -
  have "tree_ok tree0" by (simp add: tree0_def)
  moreover have "length (finish (emit tree0 newFDTBuilder)) < 2 ^ 32"
    by (simp add: finish_def tree0_def newFDTBuilder_def Let_def endNode_def propRaw_def addString_def beginNode_def appendU32_def
        padTo4_def len_simps bytes_of_string_def)
  ultimately show ?thesis by (rule fdt_roundtrip)
qed

text \<open>
  C20. The guest reads from the device tree the machine that was configured: its command line, its memory, the
  range of the initial RAM disk when there is one, exactly one node for each CPU with its number and compatible string, and
  exactly one node for each virtio device with the base address, the size of its register window and the interrupt
  that the monitor raises for it.
\<close>

theorem dtb_describes_machine:
  assumes "nul_free (commandLine boot)" "length (commandLine boot) < 2 ^ 31" "nul_free c" "length c < 2 ^ 31"
    "distinct (virtioDevices boot)" "length (buildDTB v boot c) < 2 ^ 32"
  shows "\<exists>t. read_dtb (buildDTB v boot c) = Some t
    \<and> dt_children t [] = Some ([''memory@40000000'', ''chosen'', ''psci'', ''cpus'', ''apb-pclk'', ''intc@8000000'', ''timer'',
        ''pl011@9000000'', ''pl031@9010000''] @ map virtio_name (virtioDevices boot))
    \<and> dt_prop t [''chosen''] ''bootargs'' = Some (bytes_of_string (commandLine boot) @ [0])
    \<and> dt_prop t [''memory@40000000''] ''reg'' = Some (be64 guestMemBase @ be64 (memSize boot))
    \<and> dt_prop t [''chosen''] ''linux,initrd-start'' = (if 0 < initrdSize boot then Some (be64 (initrdAddr boot)) else None)
    \<and> dt_prop t [''chosen''] ''linux,initrd-end'' = (if 0 < initrdSize boot then Some (be64 (initrdAddr boot + initrdSize boot)) else None)
    \<and> dt_children t [''cpus''] = Some (map cpu_name [0..<numCPUs boot])
    \<and> (\<forall>i < numCPUs boot. dt_prop t [''cpus'', cpu_name i] ''device_type'' = Some (bytes_of_string ''cpu'' @ [0])
         \<and> dt_prop t [''cpus'', cpu_name i] ''compatible'' = Some (bytes_of_string c @ [0])
         \<and> dt_prop t [''cpus'', cpu_name i] ''reg'' = Some (be32 (of_nat i))
         \<and> dt_prop t [''cpus'', cpu_name i] ''enable-method'' = Some (bytes_of_string ''psci'' @ [0]))
    \<and> (\<forall>i < length (virtioDevices boot).
         dt_prop t [virtio_name (virtioDevices boot ! i)] ''reg'' = Some (be64 (virtioDevices boot ! i) @ be64 0x200)
         \<and> dt_prop t [virtio_name (virtioDevices boot ! i)] ''interrupts'' = Some (be32 0 @ be32 (of_nat (16 + i)) @ be32 1))"
proof -
  let ?t = "dtb_tree v boot c"
  have "read_dtb (buildDTB v boot c) = Some ?t"
    using read_finish [OF dtb_tree_ok [OF assms(1-4)], of v] assms(6) by (simp add: buildDTB_emit)
  moreover have "dt_prop ?t [''chosen''] k = dt_prop (chosen_tree boot) [] k" for k
    by (simp add: dtb_tree_def memory_tree_def chosen_tree_def)
  moreover have "dt_prop ?t [''memory@40000000''] k = dt_prop (memory_tree boot) [] k" for k
    by (simp add: dtb_tree_def memory_tree_def)
  moreover note dt_prop_virtio [OF assms(5), of _ v c, folded virtio_name_def]
  ultimately show ?thesis
    by (intro exI [of _ ?t])
      (simp add: chosen_tree_def memory_tree_def virtio_tree_def cstr_def dt_nodes dt_cpus dt_prop_cpu, simp add: cpu_tree_def cstr_def)
qed

text \<open>How long a blob can get.\<close>

primrec blob_size :: "dtnode \<Rightarrow> nat" where
  "blob_size (Node name ps cs) =
     length name + 13 + sum_list (map (\<lambda>(k, v). length k + length v + 17) ps) + sum_list (map blob_size cs)"

lemma pad4_le: "pad4 n \<le> n + 3"
  by (simp add: pad4_def)

lemma padTo4_le: "length (padTo4 d) \<le> length d + 3"
  using padTo4_split [of d] pad4_le [of "length d"] by auto

abbreviation used :: "fdtBuilder \<Rightarrow> nat" where
  "used f \<equiv> length (structs f) + length (strings f)"

lemma propRaw_used: "used (propRaw k v f) \<le> used f + length k + length v + 17"
  using padTo4_le [of v]
  by (auto simp: propRaw_def addString_def appendU32_def Let_def len_simps split: option.split)

lemma add_props_used: "used (add_props ps f) \<le> used f + sum_list (map (\<lambda>(k, v). length k + length v + 17) ps)"
proof (induction ps arbitrary: f)
  case (Cons p ps)
  obtain k v where p: "p = (k, v)" by (cases p)
  from Cons.IH [of "propRaw k v f"] propRaw_used [of k v f] show ?case by (simp add: p)
qed simp

lemma emit_used: "used (emit t f) \<le> used f + blob_size t"
proof (induction t arbitrary: f)
  case (Node name ps cs)
  have cs: "used (run (map emit cs) f) \<le> used f + sum_list (map blob_size cs)" for f
    using Node.IH
  proof (induction cs arbitrary: f)
    case (Cons c cs)
    from Cons.IH [of "emit c f"] Cons.prems [of c f] Cons.prems show ?case by fastforce
  qed simp
  have b: "used (beginNode name f) \<le> used f + length name + 8"
    using padTo4_le [of "bytes_of_string name @ [0]"] by (simp add: beginNode_def appendU32_def len_simps)
  have "used (endNode g) = used g + 4" for g by (simp add: endNode_def appendU32_def len_simps)
  from this [of "run (map emit cs) (add_props ps (beginNode name f))"] cs [of "add_props ps (beginNode name f)"] add_props_used [of ps "beginNode name f"] b show ?case
    unfolding emit.simps blob_size.simps by linarith
qed

lemma finish_length: "length (finish f) = 60 + used f"
  by (simp add: finish_def appendU32_def Let_def len_simps)

definition boot0 :: bootConfig where
  "boot0 = \<lparr>initrdAddr = 0x48000000, initrdSize = 4096, memSize = 0x20000000, commandLine = ''console=ttyAMA0'', numCPUs = 2,
     virtioDevices = [0xa000000]\<rparr>"

theorem dtb_describes_machine_witness:
  "\<exists>t. read_dtb (buildDTB 3 boot0 ''arm,armv8'') = Some t
    \<and> dt_prop t [''chosen''] ''bootargs'' = Some (bytes_of_string ''console=ttyAMA0'' @ [0])
    \<and> dt_children t [''cpus''] = Some [''cpu@0'', ''cpu@1'']
    \<and> dt_prop t [''cpus'', ''cpu@1''] ''reg'' = Some (be32 1)
    \<and> dt_prop t [virtio_name 0xa000000] ''reg'' = Some (be64 0xa000000 @ be64 0x200)"
proof -
  have "length (buildDTB 3 boot0 ''arm,armv8'') \<le> 60 + blob_size (dtb_tree 3 boot0 ''arm,armv8'')"
    using emit_used [of "dtb_tree 3 boot0 ''arm,armv8''" newFDTBuilder] by (simp add: buildDTB_emit finish_length newFDTBuilder_def)
  also have "\<dots> \<le> 4000"
    by (simp add: dtb_tree_def memory_tree_def chosen_tree_def psci_tree_def cpus_tree_def cpu_tree_def clock_tree_def gic_tree_def
        timer_tree_def pl011_tree_def pl031_tree_def virtio_tree_def cstr_def len_simps boot0_def itoa.simps itox.simps upt_rec)
  finally have "length (buildDTB 3 boot0 ''arm,armv8'') < 2 ^ 32" by simp
  from dtb_describes_machine [OF _ _ _ _ _ this] obtain t where "read_dtb (buildDTB 3 boot0 ''arm,armv8'') = Some t"
    "dt_prop t [''chosen''] ''bootargs'' = Some (bytes_of_string ''console=ttyAMA0'' @ [0])"
    "dt_children t [''cpus''] = Some (map cpu_name [0..<2])" "dt_prop t [''cpus'', cpu_name 1] ''reg'' = Some (be32 (of_nat 1))"
    "dt_prop t [virtio_name 0xa000000] ''reg'' = Some (be64 0xa000000 @ be64 0x200)"
    by (auto simp: boot0_def)
  moreover have "map cpu_name [0..<2] = [''cpu@0'', ''cpu@1'']" "cpu_name 1 = ''cpu@1''"
    by (simp_all add: cpu_name_def upt_rec itoa.simps digit_char_def char_of_def bit_0)
  ultimately show ?thesis by auto
qed

end
