(* ===== verification/Cpio.thy ===== *)
theory Cpio
  imports GoStrings
begin

text \<open>
  The newc archives of \<open>src/pkg/vm/kernel/cpio.go\<close> and how \<open>initrd.go\<close> puts them together: the writers, the lookup that
  follows the kernel's unpacker, and the removal of the trailer. A buffer is the list of its bytes; the writers align on
  the length of the whole buffer.
\<close>

section \<open>Hexadecimal fields\<close>

definition hex_byte :: "nat \<Rightarrow> byte" where
  "hex_byte d = of_nat (if d < 10 then 48 + d else 55 + d)"

fun hex_upper :: "nat \<Rightarrow> bytes" where
  "hex_upper n = (if n < 16 then [hex_byte n] else hex_upper (n div 16) @ [hex_byte (n mod 16)])"

declare hex_upper.simps [simp del]

text \<open>\<open>Fprintf(buf, "%08X", n)\<close>.\<close>

definition fmt08X :: "nat \<Rightarrow> bytes" where
  "fmt08X n = replicate (8 - length (hex_upper n)) 48 @ hex_upper n"

fun parseHex :: "bytes \<Rightarrow> u64" where
  "parseHex b = foldl (\<lambda>val c.
     let v = push_bit 4 val
     in if 48 \<le> c \<and> c \<le> 57 then v OR ucast (c - 48)
        else if 97 \<le> c \<and> c \<le> 102 then v OR ucast (c - 97 + 10)
        else if 65 \<le> c \<and> c \<le> 70 then v OR ucast (c - 65 + 10)
        else v) 0 b"

definition align4 :: "nat \<Rightarrow> nat" where
  "align4 n = (n + 3) div 4 * 4"

section \<open>Writers\<close>

definition cpio_magic :: bytes where "cpio_magic = bytes_of_string ''070701''"

text \<open>The pad loop adds zeros until the length is a multiple of four.\<close>

definition cpiopad :: "bytes \<Rightarrow> bytes" where
  "cpiopad buf = buf @ zeros ((4 - length buf mod 4) mod 4)"

definition cpio_fields :: "bytes \<Rightarrow> nat list \<Rightarrow> bytes \<Rightarrow> bytes" where
  "cpio_fields buf fs nameWithNull = cpiopad (buf @ cpio_magic @ concat (map fmt08X fs) @ nameWithNull)"

definition writeCPIODir :: "bytes \<Rightarrow> string \<Rightarrow> u32 \<Rightarrow> bytes" where
  "writeCPIODir buf name ino =
     (let nameWithNull = bytes_of_string name @ [0]
      in cpio_fields buf [unat ino, 16877, 0, 0, 2, 0, 0, 0, 0, 0, 0, length nameWithNull, 0] nameWithNull)"

definition writeCPIOFile :: "bytes \<Rightarrow> string \<Rightarrow> bytes \<Rightarrow> u32 \<Rightarrow> u32 \<Rightarrow> bytes" where
  "writeCPIOFile buf name data mode ino =
     (let nameWithNull = bytes_of_string name @ [0];
          filesize = length data;
          buf1 = cpio_fields buf [unat ino, unat mode, 0, 0, 1, 0, filesize, 0, 0, 0, 0, length nameWithNull, 0] nameWithNull
      in if 0 < filesize then cpiopad (buf1 @ data) else buf1)"

definition writeCPIOCharDev :: "bytes \<Rightarrow> string \<Rightarrow> u32 \<Rightarrow> u32 \<Rightarrow> u32 \<Rightarrow> u32 \<Rightarrow> bytes" where
  "writeCPIOCharDev buf name mode major minor ino =
     (let nameWithNull = bytes_of_string name @ [0]
      in cpio_fields buf [unat ino, unat mode, 0, 0, 1, 0, 0, 0, 0, unat major, unat minor, length nameWithNull, 0] nameWithNull)"

definition write_trailer :: "bytes \<Rightarrow> bytes" where
  "write_trailer buf = writeCPIOFile buf ''TRAILER!!!'' [] 0 0"

definition newcCPIO :: "string \<Rightarrow> bytes \<Rightarrow> u32 \<Rightarrow> bytes" where
  "newcCPIO name data mode = write_trailer (writeCPIOFile [] name data mode 1)"

section \<open>Lookup\<close>

datatype cpio_error = InvalidMagic nat bytes | DataOverflow string | NotFound string | CpioPanic go_panic | GzipError string

fun skip_zeros :: "nat \<Rightarrow> bytes \<Rightarrow> nat" where
  "skip_zeros off [] = off"
| "skip_zeros off (b # bs) = (if b = 0 then skip_zeros (off + 1) bs else off)"

definition strip_name :: "string \<Rightarrow> string" where
  "strip_name s = dropWhile (\<lambda>c. c = CHR ''.'' \<or> c = CHR ''/'') s"

lemma skip_zeros_ge: "off \<le> skip_zeros off bs"
  by (induction off bs rule: skip_zeros.induct) auto

lemma align4_ge: "n \<le> align4 n"
  by (simp add: align4_def)

text \<open>One turn per header, from \<open>offset\<close> on, with the data found so far.\<close>

function find_from :: "bytes \<Rightarrow> string \<Rightarrow> bytes option \<Rightarrow> nat \<Rightarrow> cpio_error + bytes option" where
  "find_from data target found offset0 =
     (if length data \<le> offset0 then Inr found
      else let offset = skip_zeros offset0 (drop offset0 data)
           in if length data < offset + 110 then Inr found
              else let magic = slice data offset (offset + 6)
                   in if magic \<noteq> cpio_magic \<and> magic \<noteq> bytes_of_string ''070702'' then Inl (InvalidMagic offset magic)
                      else let filesize = unat (parseHex (slice data (offset + 54) (offset + 62)));
                               namesize = unat (parseHex (slice data (offset + 94) (offset + 102)));
                               nameEnd = offset + 110 + namesize
                           in if length data < nameEnd then Inr found
                              else if namesize = 0 then Inl (CpioPanic SliceBounds)
                              else let name = string_of_bytes (slice data (offset + 110) (nameEnd - 1));
                                       dataStart = align4 nameEnd;
                                       dataEnd = dataStart + filesize
                                   in if name = ''TRAILER!!!'' then find_from data target found (align4 dataEnd)
                                      else if strip_name name = target \<and> 0 < filesize then
                                        (if length data < dataEnd then Inl (DataOverflow target)
                                         else find_from data target (Some (slice data dataStart dataEnd)) (align4 dataEnd))
                                      else find_from data target found (align4 dataEnd))"
  by pat_completeness auto
termination
proof (relation "measure (\<lambda>(data, _, _, off). length data - off)", goal_cases)
  case (2 data target found offset0 offset magic filesize namesize nameEnd name dataStart dataEnd)
  then show ?case using skip_zeros_ge [of offset0 "drop offset0 data"] align4_ge [of nameEnd] align4_ge [of dataEnd] by simp
next
  case (3 data target found offset0 offset magic filesize namesize nameEnd name dataStart dataEnd)
  then show ?case using skip_zeros_ge [of offset0 "drop offset0 data"] align4_ge [of nameEnd] align4_ge [of dataEnd] by simp
next
  case (4 data target found offset0 offset magic filesize namesize nameEnd name dataStart dataEnd)
  then show ?case using skip_zeros_ge [of offset0 "drop offset0 data"] align4_ge [of nameEnd] align4_ge [of dataEnd] by simp
qed simp

declare find_from.simps [simp del]

definition findInCPIO :: "bytes \<Rightarrow> string \<Rightarrow> cpio_error + bytes" where
  "findInCPIO data target =
     (case find_from data target None 0 of
        Inl e \<Rightarrow> Inl e
      | Inr None \<Rightarrow> Inl (NotFound target)
      | Inr (Some b) \<Rightarrow> Inr b)"

section \<open>Removing the trailer\<close>

text \<open>
  The scan from the end: \<open>offset\<close> runs down to 110. A slice expression is bounded by the capacity of the slice, so the
  name size may be read from \<open>spare\<close>, the bytes of the array behind the slice.
\<close>

fun strip_from :: "bytes \<Rightarrow> bytes \<Rightarrow> nat \<Rightarrow> go_panic + bytes" where
  "strip_from data spare offset =
     (if offset < 110 then Inr data
      else if slice data (offset - 5) (offset + 1) \<noteq> cpio_magic then strip_from data spare (offset - 1)
      else let pos = offset - 5
           in if length data + length spare < pos + 102 then Inl SliceBounds
              else let nameSize = unat (parseHex (slice (data @ spare) (pos + 94) (pos + 102)));
                       nameStart = pos + 110;
                       nameEnd = nameStart + nameSize - 1
                   in if nameSize < 11 then strip_from data spare (offset - 1)
                      else if length data < nameEnd then strip_from data spare (offset - 1)
                      else if slice data nameStart nameEnd = bytes_of_string ''TRAILER!!!'' then Inr (take pos data)
                      else strip_from data spare (offset - 1))"

declare strip_from.simps [simp del]

definition stripCPIOTrailer :: "bytes \<Rightarrow> bytes \<Rightarrow> go_panic + bytes" where
  "stripCPIOTrailer data spare = (if data = [] then Inr data else strip_from data spare (length data - 1))"

section \<open>The image\<close>

text \<open>
  \<open>appendOverlay\<close> writes the original image, the padding and the overlay to a new file. \<open>gunzip\<close> stands for the
  gzip reader: it takes the input from the first byte of a member on, and gives the data of that member with the input
  behind it, or an error.
\<close>

definition appendOverlay :: "bytes \<Rightarrow> bytes \<Rightarrow> bytes" where
  "appendOverlay origData overlay = origData @ zeros ((4 - length origData mod 4) mod 4) @ overlay"

definition isScript :: "bytes \<Rightarrow> bool" where
  "isScript init = (take 2 init = bytes_of_string ''#!'')"

type_synonym gunzip = "bytes \<Rightarrow> string + (bytes \<times> bytes)"

partial_function (option) gunzip_members :: "gunzip \<Rightarrow> bytes \<Rightarrow> bytes \<Rightarrow> (cpio_error + bytes \<times> bytes) option" where
  "gunzip_members gunzip out rest0 =
     (let rest = dropWhile (\<lambda>b. b = 0) rest0
      in if length rest < 2 \<or> rest ! 0 \<noteq> 0x1f \<or> rest ! 1 \<noteq> 0x8b then Some (Inr (out, rest))
         else case gunzip rest of
                Inl e \<Rightarrow> Some (Inl (GzipError e))
              | Inr xr \<Rightarrow> gunzip_members gunzip (out @ fst xr) (snd xr))"

definition decompressInitrd :: "gunzip \<Rightarrow> bytes \<Rightarrow> (cpio_error + bytes) option" where
  "decompressInitrd gunzip data =
     (case gunzip_members gunzip [] data of
        None \<Rightarrow> None
      | Some (Inl e) \<Rightarrow> Some (Inl e)
      | Some (Inr (out, rest)) \<Rightarrow> Some (Inr (if out = [] then data else out @ rest)))"

definition extractInit :: "gunzip \<Rightarrow> bytes \<Rightarrow> (cpio_error + bytes) option" where
  "extractInit gunzip data =
     (case decompressInitrd gunzip data of
        None \<Rightarrow> None
      | Some (Inl e) \<Rightarrow> Some (Inl e)
      | Some (Inr cpioData) \<Rightarrow> Some (findInCPIO cpioData ''init''))"

definition nl_line :: "string \<Rightarrow> bytes" where
  "nl_line s = bytes_of_string s @ [10]"

text \<open>The entries of \<open>CreateFromBinary\<close>, in the order they are written.\<close>

definition initCPIO :: "bytes \<Rightarrow> bytes" where
  "initCPIO binData =
     (let b = writeCPIODir [] ''dev'' 0xFFF0;
          b = writeCPIOCharDev b ''dev/console'' 8592 5 1 0xFFF1;
          b = writeCPIODir b ''etc'' 0xFFE0;
          b = writeCPIOFile b ''etc/nsswitch.conf'' (nl_line ''hosts: files dns'') 33188 0xFFE1;
          b = writeCPIOFile b ''etc/resolv.conf'' [] 33188 0xFFE2;
          b = writeCPIOFile b ''etc/hosts'' (nl_line ''127.0.0.1 localhost'' @ nl_line ''::1 localhost'') 33188 0xFFE3;
          b = writeCPIOFile b ''init'' binData 33261 0xFFF2
      in write_trailer b)"

text \<open>What \<open>CreateFromBinary\<close> compresses: the base image without its trailer, then its own entries.\<close>

definition initrd_content :: "gunzip \<Rightarrow> bytes option \<Rightarrow> bytes \<Rightarrow> bytes \<Rightarrow> (cpio_error + bytes) option" where
  "initrd_content gunzip base spare binData =
     (case base of
        None \<Rightarrow> Some (Inr (initCPIO binData))
      | Some baseData \<Rightarrow>
          (case decompressInitrd gunzip baseData of
             None \<Rightarrow> None
           | Some (Inl e) \<Rightarrow> Some (Inl e)
           | Some (Inr baseCPIO) \<Rightarrow>
               (case stripCPIOTrailer baseCPIO spare of
                  Inl p \<Rightarrow> Some (Inl (CpioPanic p))
                | Inr stripped \<Rightarrow> Some (Inr (stripped @ initCPIO binData)))))"

section \<open>Fields are read back\<close>

definition hex_step :: "u64 \<Rightarrow> byte \<Rightarrow> u64" where
  "hex_step val c =
     (let v = push_bit 4 val
      in if 48 \<le> c \<and> c \<le> 57 then v OR ucast (c - 48)
         else if 97 \<le> c \<and> c \<le> 102 then v OR ucast (c - 97 + 10)
         else if 65 \<le> c \<and> c \<le> 70 then v OR ucast (c - 65 + 10)
         else v)"

lemma parseHex_foldl: "parseHex b = foldl hex_step 0 b"
  by (simp add: hex_step_def [abs_def] Let_def)

lemma nibble_or: "d < 16 \<Longrightarrow> push_bit 4 (v :: u64) OR of_nat d = v * 16 + of_nat d"
proof -
  assume d: "d < 16"
  have "push_bit 4 v AND of_nat d = 0"
  proof (rule bit_word_eqI)
    fix n assume "n < LENGTH(64)"
    have "\<not> bit d n" if "4 \<le> n"
    proof -
      have "(2::nat) ^ 4 \<le> 2 ^ n" using that by (rule power_increasing) simp
      then show ?thesis using d by (simp add: bit_iff_odd)
    qed
    then show "bit (push_bit 4 v AND of_nat d) n = bit (0 :: u64) n" by (auto simp: bit_simps)
  qed
  then have "push_bit 4 v + of_nat d = push_bit 4 v OR of_nat d" by (rule disjunctive_add_eq_or)
  then show ?thesis by (simp add: push_bit_eq_mult)
qed

lemma hex_step_byte: "d < 16 \<Longrightarrow> hex_step v (hex_byte d) = v * 16 + of_nat d"
proof -
  assume d: "d < 16"
  have "hex_step v (hex_byte d) = push_bit 4 v OR of_nat d"
  proof -
    have "d \<in> {0, 1, 2, 3, 4, 5, 6, 7, 8, 9, 10, 11, 12, 13, 14, 15}"
      unfolding insert_iff empty_iff using d by presburger
    then show ?thesis by (elim insertE emptyE) (simp_all add: hex_step_def hex_byte_def Let_def)
  qed
  with nibble_or [OF d] show ?thesis by simp
qed

lemma hex_upper_value: "foldl hex_step v (hex_upper n) = v * 16 ^ length (hex_upper n) + of_nat n"
proof (induction n arbitrary: v rule: hex_upper.induct)
  case (1 n)
  show ?case
  proof (cases "n < 16")
    case True
    then show ?thesis by (simp add: hex_upper.simps [of n] hex_step_byte)
  next
    case False
    have "foldl hex_step v (hex_upper n) = (v * 16 ^ length (hex_upper (n div 16)) + of_nat (n div 16)) * 16 + of_nat (n mod 16)"
      using False 1 by (simp add: hex_upper.simps [of n] hex_step_byte)
    also have "\<dots> = v * 16 ^ length (hex_upper n) + (of_nat (n div 16) * 16 + of_nat (n mod 16))"
      using False by (simp add: hex_upper.simps [of n] algebra_simps)
    also have "of_nat (n div 16) * 16 + of_nat (n mod 16) = (of_nat (n div 16 * 16 + n mod 16) :: u64)"
      by (simp only: of_nat_add of_nat_mult of_nat_numeral)
    finally show ?thesis by (simp only: div_mult_mod_eq)
  qed
qed

lemma hex_upper_length: "n < 16 ^ k \<Longrightarrow> 0 < k \<Longrightarrow> length (hex_upper n) \<le> k"
proof (induction n arbitrary: k rule: hex_upper.induct)
  case (1 n)
  show ?case
  proof (cases "n < 16")
    case True
    with 1 show ?thesis by (simp add: hex_upper.simps [of n])
  next
    case False
    with "1.prems" obtain j where k: "k = Suc j" "0 < j" by (cases k; cases "k - 1") auto
    have "n div 16 < 16 ^ j" using "1.prems" k by (simp add: less_mult_imp_div_less)
    with "1.IH" [OF False _ k(2)] False k show ?thesis by (simp add: hex_upper.simps [of n])
  qed
qed

lemma fmt08X_read: "n < 2 ^ 32 \<Longrightarrow> parseHex (fmt08X n) = of_nat n" "n < 2 ^ 32 \<Longrightarrow> length (fmt08X n) = 8"
proof -
  assume n: "n < 2 ^ 32"
  have "foldl hex_step 0 (replicate k 48) = 0" for k by (induction k) (simp_all add: hex_step_def)
  then show "parseHex (fmt08X n) = of_nat n" unfolding parseHex_foldl fmt08X_def by (simp add: hex_upper_value)
  have "length (hex_upper n) \<le> 8" using n by (intro hex_upper_length) simp_all
  then show "length (fmt08X n) = 8" by (simp add: fmt08X_def)
qed

lemma field_size: "n < 2 ^ 32 \<Longrightarrow> unat (parseHex (fmt08X n)) = n"
  by (simp add: fmt08X_read unat_of_nat del: parseHex.simps)

lemma slice_fields:
  assumes "list_all (\<lambda>n. n < 2 ^ 32) fs" "i < length fs"
  shows "slice (concat (map fmt08X fs) @ r) (8 * i) (8 * i + 8) = fmt08X (fs ! i)"
  using assms
proof (induction fs arbitrary: i)
  case (Cons f fs)
  have l: "length (fmt08X f) = 8" using Cons.prems fmt08X_read(2) by simp
  show ?case
  proof (cases i)
    case 0
    with l show ?thesis by (simp add: slice_def)
  next
    case (Suc j)
    with Cons l show ?thesis by (simp add: slice_def)
  qed
qed simp

lemma concat_fields_length: "list_all (\<lambda>n. n < 2 ^ 32) fs \<Longrightarrow> length (concat (map fmt08X fs)) = 8 * length fs"
  by (induction fs) (simp_all add: fmt08X_read)

section \<open>Entries\<close>

lemma cpiopad_length: "length (cpiopad b) = align4 (length b)"
proof -
  have "n + (4 - n mod 4) mod 4 = (n + 3) div 4 * 4" for n :: nat
  proof -
    have "n mod 4 = 0 \<or> n mod 4 = 1 \<or> n mod 4 = 2 \<or> n mod 4 = 3" by linarith
    then show ?thesis by (elim disjE) (simp_all, presburger+)
  qed
  then show ?thesis by (simp add: cpiopad_def align4_def)
qed

lemma align4_mod: "align4 n mod 4 = 0" "n mod 4 = 0 \<Longrightarrow> align4 n = n" "m mod 4 = 0 \<Longrightarrow> align4 (m + n) = m + align4 n"
  unfolding align4_def by (simp, presburger, presburger)

lemma cpiopad_append: "length a mod 4 = 0 \<Longrightarrow> cpiopad (a @ b) = a @ cpiopad b"
proof -
  assume "length a mod 4 = 0"
  then have "(length a + length b) mod 4 = length b mod 4" by (metis add.left_neutral mod_add_left_eq)
  then show ?thesis by (simp add: cpiopad_def)
qed

lemma cpiopad_Nil [simp]: "cpiopad [] = []"
  by (simp add: cpiopad_def)

text \<open>An entry with its thirteen fields, name and data; the writers write such entries.\<close>

definition raw_entry :: "nat list \<Rightarrow> string \<Rightarrow> bytes \<Rightarrow> bytes" where
  "raw_entry fs name data = cpiopad (cpio_magic @ concat (map fmt08X fs) @ bytes_of_string name @ [0]) @ cpiopad data"

definition fields_ok :: "nat list \<Rightarrow> string \<Rightarrow> bytes \<Rightarrow> bool" where
  "fields_ok fs name data \<longleftrightarrow> length fs = 13 \<and> list_all (\<lambda>n. n < 2 ^ 32) fs \<and> fs ! 6 = length data \<and> fs ! 11 = length name + 1"

lemma raw_entry_mod: "length (raw_entry fs name data) mod 4 = 0"
  by (simp add: raw_entry_def cpiopad_length) (metis align4_mod(1) mod_add_eq mod_0 add.left_neutral)

lemma cpio_magic_length [simp]: "length cpio_magic = 6"
  by (simp add: cpio_magic_def)

lemma cpio_fields_eq:
  "length buf mod 4 = 0 \<Longrightarrow> cpio_fields buf fs nm = buf @ cpiopad (cpio_magic @ concat (map fmt08X fs) @ nm)"
  by (simp add: cpio_fields_def cpiopad_append)

lemma cpio_fields_data:
  assumes "length buf mod 4 = 0"
  shows "cpiopad (cpio_fields buf fs (bytes_of_string name @ [0]) @ data) = buf @ raw_entry fs name data"
proof -
  define h where "h = cpiopad (cpio_magic @ concat (map fmt08X fs) @ bytes_of_string name @ [0])"
  have "length h mod 4 = 0" by (simp add: h_def cpiopad_length align4_mod)
  then have "cpiopad (h @ data) = h @ cpiopad data" by (rule cpiopad_append)
  with assms show ?thesis by (simp add: cpio_fields_eq cpiopad_append raw_entry_def flip: h_def)
qed

lemma cpio_fields_raw:
  "length buf mod 4 = 0 \<Longrightarrow> cpio_fields buf fs (bytes_of_string name @ [0]) = buf @ raw_entry fs name []"
  by (simp add: cpio_fields_eq raw_entry_def)

datatype cpio_entry =
    CDir string u32
  | CFile string bytes u32 u32
  | CChar string u32 u32 u32 u32

fun put_entry :: "bytes \<Rightarrow> cpio_entry \<Rightarrow> bytes" where
  "put_entry buf (CDir name ino) = writeCPIODir buf name ino"
| "put_entry buf (CFile name data mode ino) = writeCPIOFile buf name data mode ino"
| "put_entry buf (CChar name mode major minor ino) = writeCPIOCharDev buf name mode major minor ino"

fun entry_name :: "cpio_entry \<Rightarrow> string" where
  "entry_name (CDir name ino) = name"
| "entry_name (CFile name data mode ino) = name"
| "entry_name (CChar name mode major minor ino) = name"

fun entry_data :: "cpio_entry \<Rightarrow> bytes" where
  "entry_data (CFile name data mode ino) = data"
| "entry_data _ = []"

definition entry_fits :: "cpio_entry \<Rightarrow> bool" where
  "entry_fits e \<longleftrightarrow> length (entry_name e) < 2 ^ 31 \<and> length (entry_data e) < 2 ^ 32"

lemma put_entry_raw:
  assumes "entry_fits e"
  obtains fs where "fields_ok fs (entry_name e) (entry_data e)"
    "\<And>buf. length buf mod 4 = 0 \<Longrightarrow> put_entry buf e = buf @ raw_entry fs (entry_name e) (entry_data e)"
proof -
  have u: "unat (w :: u32) < 2 ^ 32" for w using unsigned_less [of w] by simp
  define fs where "fs = (case e of
      CDir name ino \<Rightarrow> [unat ino, 16877, 0, 0, 2, 0, 0, 0, 0, 0, 0, length name + 1, 0]
    | CFile name data mode ino \<Rightarrow> [unat ino, unat mode, 0, 0, 1, 0, length data, 0, 0, 0, 0, length name + 1, 0]
    | CChar name mode major minor ino \<Rightarrow> [unat ino, unat mode, 0, 0, 1, 0, 0, 0, 0, unat major, unat minor, length name + 1, 0])"
  have "fields_ok fs (entry_name e) (entry_data e)"
    using assms u by (cases e) (simp_all add: fs_def fields_ok_def entry_fits_def)
  moreover have "put_entry buf e = buf @ raw_entry fs (entry_name e) (entry_data e)" if "length buf mod 4 = 0" for buf
  proof (cases e)
    case (CFile name data mode ino)
    show ?thesis
    proof (cases "data = []")
      case True
      then show ?thesis using CFile by (simp add: fs_def writeCPIOFile_def Let_def cpio_fields_raw [OF that])
    next
      case False
      then show ?thesis using CFile by (simp add: fs_def writeCPIOFile_def Let_def cpio_fields_data [OF that])
    qed
  qed (simp_all add: fs_def writeCPIODir_def writeCPIOCharDev_def Let_def cpio_fields_raw [OF that])
  ultimately show ?thesis using that by blast
qed

section \<open>The lookup sees one entry\<close>

lemma bytes_09: "cpio_magic ! 0 \<noteq> 0"
  by (simp add: cpio_magic_def bytes_of_string_def)

lemma slice_shift: "slice (a @ b) (length a + i) (length a + j) = slice b i j"
  by (simp add: slice_def)

lemma raw_entry_parts:
  assumes "fields_ok fs name d"
  defines "x \<equiv> raw_entry fs name d"
  shows "slice (x @ r) 0 6 = cpio_magic" "unat (parseHex (slice (x @ r) 54 62)) = length d"
    "unat (parseHex (slice (x @ r) 94 102)) = length name + 1"
    "slice (x @ r) 110 (110 + length name) = bytes_of_string name"
    "slice (x @ r) (align4 (111 + length name)) (align4 (111 + length name) + length d) = d"
    "length x = align4 (align4 (111 + length name) + length d)"
proof -
  let ?f = "concat (map fmt08X fs)"
  have fs: "length fs = 13" "list_all (\<lambda>n. n < 2 ^ 32) fs" "fs ! 6 = length d" "fs ! 11 = length name + 1"
    using assms(1) by (simp_all add: fields_ok_def)
  have lf: "length ?f = 104" using concat_fields_length [OF fs(2)] fs(1) by simp
  obtain z where z: "cpiopad (cpio_magic @ ?f @ bytes_of_string name @ [0]) = cpio_magic @ ?f @ bytes_of_string name @ [0] @ z"
    by (simp add: cpiopad_def)
  obtain z2 where z2: "cpiopad d = d @ z2" by (simp add: cpiopad_def)
  have x: "x @ r = cpio_magic @ ?f @ bytes_of_string name @ [0] @ z @ d @ z2 @ r" by (simp add: x_def raw_entry_def z z2)
  have l1: "length (cpiopad (cpio_magic @ ?f @ bytes_of_string name @ [0])) = align4 (111 + length name)"
    using lf by (simp add: cpiopad_length)
  show "slice (x @ r) 0 6 = cpio_magic" unfolding x by (simp add: slice_def)
  have sf: "slice (x @ r) (6 + 8 * i) (6 + 8 * i + 8) = fmt08X (fs ! i)" if "i < 13" for i
    using slice_shift [of cpio_magic "?f @ bytes_of_string name @ [0] @ z @ d @ z2 @ r" "8 * i" "8 * i + 8"]
      slice_fields [OF fs(2), of i] that fs(1) unfolding x by (simp add: add.assoc)
  have f32: "fs ! 6 < 2 ^ 32" "fs ! 11 < 2 ^ 32" using fs(1,2) by (simp_all add: list_all_length)
  show "unat (parseHex (slice (x @ r) 54 62)) = length d" using sf [of 6] field_size [OF f32(1)] fs(3) by (simp del: parseHex.simps)
  show "unat (parseHex (slice (x @ r) 94 102)) = length name + 1" using sf [of 11] field_size [OF f32(2)] fs(4) by (simp del: parseHex.simps)
  show "slice (x @ r) 110 (110 + length name) = bytes_of_string name" unfolding x using lf by (simp add: slice_def)
  have x2: "x @ r = cpiopad (cpio_magic @ ?f @ bytes_of_string name @ [0]) @ d @ z2 @ r" by (simp add: x_def raw_entry_def z2)
  show "slice (x @ r) (align4 (111 + length name)) (align4 (111 + length name) + length d) = d"
    unfolding x2 using l1 by (simp add: slice_def)
  show "length x = align4 (align4 (111 + length name) + length d)"
    using l1 align4_mod(3) [OF align4_mod(1)] by (simp add: x_def raw_entry_def cpiopad_length)
qed

lemma find_entry:
  assumes f: "fields_ok fs name d" and a: "length pre mod 4 = 0" and data_def: "data = pre @ raw_entry fs name d @ rest"
  shows "find_from data target found (length pre) =
    find_from data target (if name \<noteq> ''TRAILER!!!'' \<and> strip_name name = target \<and> d \<noteq> [] then Some d else found)
      (length pre + length (raw_entry fs name d))"
proof -
  define x where "x = raw_entry fs name d"
  define p where "p = length pre"
  note parts = raw_entry_parts(1-5) [OF f, where r = rest, folded x_def] raw_entry_parts(6) [OF f, folded x_def]
  have data: "data = pre @ x @ rest" by (simp add: data_def x_def)
  have lx: "111 + length name \<le> length x"
    using parts(6) align4_ge [of "111 + length name"] align4_ge [of "align4 (111 + length name) + length d"] by linarith
  have xne: "x \<noteq> []" using lx by auto
  have sl: "slice data (p + i) (p + j) = slice (x @ rest) i j" for i j
    unfolding data p_def by (rule slice_shift)
  have h: "(x @ rest) ! 0 \<noteq> 0"
    using parts(1) bytes_09 lx by (metis nth_take slice_0 zero_less_numeral)
  have sk: "skip_zeros p (drop p data) = p"
    using h xne unfolding data p_def by (cases x) auto
  have al: "align4 (p + n) = p + align4 n" for n using a by (simp add: p_def align4_mod(3))
  have ge: "\<not> length data \<le> p" "\<not> length data < p + 110" "\<not> length data < p + 110 + (length name + 1)"
    using lx xne by (simp_all add: data p_def)
  have de: "\<not> length data < p + align4 (111 + length name) + length d"
    using parts(6) align4_ge [of "align4 (111 + length name) + length d"] by (simp add: data p_def)
  have s1: "slice data p (p + 6) = cpio_magic" using sl [of 0 6] parts(1) by simp
  have s2: "unat (parseHex (slice data (p + 54) (p + 62))) = length d" "unat (parseHex (slice data (p + 94) (p + 102))) = length name + 1"
    unfolding sl by (rule parts(2), rule parts(3))
  have s3: "slice data (p + 110) (p + 110 + (length name + 1) - 1) = bytes_of_string name"
    using sl [of 110 "110 + length name"] parts(4) by (simp add: ac_simps)
  have ns: "align4 (p + 110 + (length name + 1)) = p + align4 (111 + length name)" using al [of "111 + length name"] by (simp add: ac_simps)
  have s4: "slice data (p + align4 (111 + length name)) (p + align4 (111 + length name) + length d) = d"
    using sl [of "align4 (111 + length name)" "align4 (111 + length name) + length d"] parts(5) by (simp add: add.assoc)
  have nx: "align4 (p + align4 (111 + length name) + length d) = p + length x" using al parts(6) by (simp add: add.assoc)
  show ?thesis unfolding p_def [symmetric] x_def [symmetric]
    by (subst find_from.simps)
      (simp only: Let_def sk ge s1 s2 s3 ns s4 nx de if_False if_True simp_thms string_of_bytes_of_string, simp)
qed

section \<open>Archives\<close>

definition put_entries :: "bytes \<Rightarrow> cpio_entry list \<Rightarrow> bytes" where
  "put_entries buf es = foldl put_entry buf es"

definition archive :: "cpio_entry list \<Rightarrow> bytes" where
  "archive es = write_trailer (put_entries [] es)"

abbreviation trailer_entry :: cpio_entry where
  "trailer_entry \<equiv> CFile ''TRAILER!!!'' [] 0 0"

lemma write_trailer_put: "write_trailer buf = put_entry buf trailer_entry"
  by (simp add: write_trailer_def)

lemma archive_put: "archive es = put_entries [] (es @ [trailer_entry])"
  by (simp add: archive_def put_entries_def write_trailer_put)

text \<open>The file a lookup is to find: the data of the last non-empty entry with the name.\<close>

definition matches :: "string \<Rightarrow> cpio_entry \<Rightarrow> bool" where
  "matches t e \<longleftrightarrow> entry_name e \<noteq> ''TRAILER!!!'' \<and> strip_name (entry_name e) = t \<and> entry_data e \<noteq> []"

definition seen :: "string \<Rightarrow> cpio_entry list \<Rightarrow> bytes option \<Rightarrow> bytes option" where
  "seen t es found = fold (\<lambda>e f. if matches t e then Some (entry_data e) else f) es found"

definition last_match :: "string \<Rightarrow> cpio_entry list \<Rightarrow> bytes option" where
  "last_match t es = map_option entry_data (find (matches t) (rev es))"

lemma seen_last: "seen t es found = (case last_match t es of None \<Rightarrow> found | Some d \<Rightarrow> Some d)"
  by (induction es rule: rev_induct) (simp_all add: seen_def last_match_def)

lemma last_match_append: "last_match t (es @ es') = (case last_match t es' of None \<Rightarrow> last_match t es | Some d \<Rightarrow> Some d)"
  by (induction es' rule: rev_induct) (simp_all add: last_match_def)

lemma last_match_trailer: "last_match t (es @ [trailer_entry]) = last_match t es"
  by (simp add: last_match_def matches_def)

lemma put_entries_append: "list_all entry_fits es \<Longrightarrow> length buf mod 4 = 0 \<Longrightarrow>
    put_entries buf es = buf @ put_entries [] es \<and> length (put_entries buf es) mod 4 = 0"
proof (induction es rule: rev_induct)
  case (snoc e es)
  obtain fs where fs: "\<And>buf. length buf mod 4 = 0 \<Longrightarrow> put_entry buf e = buf @ raw_entry fs (entry_name e) (entry_data e)"
    using put_entry_raw [of e] snoc.prems(1) by auto
  have 1: "put_entries buf es = buf @ put_entries [] es" "length (put_entries buf es) mod 4 = 0" "length (put_entries [] es) mod 4 = 0"
    using snoc by (auto simp: dvd_add_right_iff)
  have "put_entries b (es @ [e]) = put_entry (put_entries b es) e" for b by (simp add: put_entries_def)
  then have 2: "put_entries buf (es @ [e]) = put_entries buf es @ raw_entry fs (entry_name e) (entry_data e)"
    "put_entries [] (es @ [e]) = put_entries [] es @ raw_entry fs (entry_name e) (entry_data e)"
    using fs [OF 1(2)] fs [OF 1(3)] by simp_all
  have "length (put_entries buf (es @ [e])) mod 4 = 0" unfolding 2(1) length_append
    using 1(2) raw_entry_mod by (metis mod_add_eq add_0 mod_0)
  then show ?case using 1(1) 2 by simp
qed (simp add: put_entries_def)

lemma find_entries:
  "list_all entry_fits es \<Longrightarrow> length pre mod 4 = 0 \<Longrightarrow> data = put_entries pre es @ rest \<Longrightarrow>
    find_from data t found (length pre) = find_from data t (seen t es found) (length (put_entries pre es))"
proof (induction es arbitrary: pre found)
  case (Cons e es)
  obtain fs where fs: "fields_ok fs (entry_name e) (entry_data e)"
    "\<And>buf. length buf mod 4 = 0 \<Longrightarrow> put_entry buf e = buf @ raw_entry fs (entry_name e) (entry_data e)"
    using put_entry_raw [of e] Cons.prems(1) by auto
  let ?x = "raw_entry fs (entry_name e) (entry_data e)"
  have m: "length (pre @ ?x) mod 4 = 0" unfolding length_append
    using Cons.prems(2) raw_entry_mod by (metis mod_add_eq add_0 mod_0)
  have p: "put_entries pre (e # es) = put_entries (pre @ ?x) es" using fs(2) [OF Cons.prems(2)] by (simp add: put_entries_def)
  have "put_entries (pre @ ?x) es = (pre @ ?x) @ put_entries [] es" using put_entries_append [OF _ m] Cons.prems(1) by simp
  then have d: "data = pre @ ?x @ put_entries [] es @ rest" using Cons.prems(3) p by simp
  have "find_from data t found (length pre) = find_from data t (if matches t e then Some (entry_data e) else found) (length (pre @ ?x))"
    using find_entry [OF fs(1) Cons.prems(2) d] by (simp add: matches_def)
  also have "\<dots> = find_from data t (seen t es (if matches t e then Some (entry_data e) else found)) (length (put_entries (pre @ ?x) es))"
    using Cons.IH [OF _ m] Cons.prems(1,3) p by simp
  finally show ?case using p by (simp add: seen_def)
qed (simp add: seen_def put_entries_def)

lemma skip_zeros_zeros: "skip_zeros p (zeros k @ r) = skip_zeros (p + k) r"
  by (induction k arbitrary: p) simp_all

lemma find_pad: "data = pre @ zeros k @ rest \<Longrightarrow> find_from data t found (length pre) = find_from data t found (length pre + k)"
proof (cases "rest = []")
  case True
  assume d: "data = pre @ zeros k @ rest"
  show ?thesis using True skip_zeros_zeros [of "length pre" k "[]"] by (simp add: find_from.simps d)
next
  case False
  assume d: "data = pre @ zeros k @ rest"
  have "skip_zeros (length pre) (drop (length pre) data) = skip_zeros (length pre + k) (drop (length pre + k) data)"
    using skip_zeros_zeros [of "length pre" k rest] by (simp add: d)
  moreover have "length pre + k < length data" using False by (simp add: d)
  ultimately show ?thesis by (simp add: find_from.simps [of data t found])
qed

lemma find_end: "find_from data t found (length data) = Inr found"
  by (simp add: find_from.simps)

lemma put_entries_mod: "list_all entry_fits es \<Longrightarrow> length (put_entries [] es) mod 4 = 0"
  using put_entries_append [of es "[]"] by simp

lemma put_entries_two: "list_all entry_fits es \<Longrightarrow> list_all entry_fits es' \<Longrightarrow>
    put_entries [] (es @ es') = put_entries [] es @ put_entries [] es'"
  using put_entries_append [of es' "put_entries [] es"] put_entries_mod [of es] by (simp add: put_entries_def)

lemma trailer_fits: "entry_fits trailer_entry"
  by (simp add: entry_fits_def)

lemma archive_split: "list_all entry_fits es \<Longrightarrow> archive es = put_entries [] es @ archive []"
  using put_entries_two [of es "[trailer_entry]"] trailer_fits by (simp add: archive_put)

lemma archive_append: "list_all entry_fits es \<Longrightarrow> list_all entry_fits es' \<Longrightarrow> put_entries [] es @ archive es' = archive (es @ es')"
  by (simp add: archive_split [of es'] archive_split [of "es @ es'"] put_entries_two)

lemma archive_mod: "list_all entry_fits es \<Longrightarrow> length (archive es) mod 4 = 0"
  unfolding archive_put using put_entries_mod trailer_fits by simp

lemma find_archive:
  assumes "list_all entry_fits es" "length pre mod 4 = 0" "data = pre @ archive es @ rest"
  shows "find_from data t found (length pre) =
    find_from data t (case last_match t es of None \<Rightarrow> found | Some d \<Rightarrow> Some d) (length pre + length (archive es))"
proof -
  have f: "list_all entry_fits (es @ [trailer_entry])" using assms(1) trailer_fits by simp
  have p: "put_entries pre (es @ [trailer_entry]) = pre @ archive es" using put_entries_append [OF f assms(2)] by (simp add: archive_put)
  have d: "data = put_entries pre (es @ [trailer_entry]) @ rest" unfolding p using assms(3) by simp
  show ?thesis using find_entries [OF f assms(2) d, of t found] unfolding p by (simp add: seen_last last_match_trailer)
qed

lemma find_two_archives:
  assumes "list_all entry_fits es" "list_all entry_fits es'" "k mod 4 = 0" "data = archive es @ zeros k @ archive es'"
  shows "findInCPIO data t = (case last_match t (es @ es') of None \<Rightarrow> Inl (NotFound t) | Some d \<Rightarrow> Inr d)"
proof -
  let ?f = "case last_match t es of None \<Rightarrow> None | Some d \<Rightarrow> Some d"
  let ?p = "archive es @ zeros k"
  have m: "length ?p mod 4 = 0" unfolding length_append using archive_mod [OF assms(1)] assms(3)
    by (metis mod_add_eq add_0 mod_0 length_replicate)
  have "find_from data t None 0 = find_from data t ?f (length (archive es))"
    using find_archive [of es "[]" data "zeros k @ archive es'" t None] assms by simp
  also have "\<dots> = find_from data t ?f (length ?p)" using find_pad [OF assms(4), of t] by simp
  also have "\<dots> = find_from data t (case last_match t es' of None \<Rightarrow> ?f | Some d \<Rightarrow> Some d) (length data)"
    using find_archive [OF assms(2) m, of data "[]" t ?f] by (simp add: assms(4) add.assoc)
  finally show ?thesis by (simp add: findInCPIO_def find_end last_match_append split: option.split)
qed

section \<open>Removing the trailer of an archive\<close>

lemma entry_length: "entry_fits e \<Longrightarrow> 111 \<le> length (put_entry [] e)"
proof -
  assume "entry_fits e"
  then obtain fs where fs: "fields_ok fs (entry_name e) (entry_data e)" "put_entry [] e = raw_entry fs (entry_name e) (entry_data e)"
    using put_entry_raw [of e] by (metis append_Nil list.size(3) mod_0)
  show ?thesis using raw_entry_parts(6) [OF fs(1)] align4_ge [of "111 + length (entry_name e)"]
      align4_ge [of "align4 (111 + length (entry_name e)) + length (entry_data e)"] by (simp add: fs(2))
qed

text \<open>The byte \<open>7\<close> stands only in the magic of a trailer, so the scan over a trailer meets no other magic.\<close>

lemma trailer_no_seven:
  obtains T where "archive [] = cpio_magic @ T" "(55 :: byte) \<notin> set T"
proof -
  let ?fs = "[0, 0, 0, 0, 1, 0, 0, 0, 0, 0, 0, 11, 0] :: nat list"
  let ?T = "concat (map fmt08X ?fs) @ bytes_of_string ''TRAILER!!!'' @ [0]"
  have h: "hex_upper 0 = [48]" "hex_upper 1 = [49]" "hex_upper 11 = [66]"
    by (simp_all add: hex_upper.simps hex_byte_def)
  have "55 \<notin> set (fmt08X 0)" "55 \<notin> set (fmt08X 1)" "55 \<notin> set (fmt08X 11)"
    by (simp_all add: fmt08X_def h [simplified])
  then have "55 \<notin> set (concat (map fmt08X ?fs))" by simp
  moreover have "55 \<notin> set (bytes_of_string ''TRAILER!!!'' @ [0])" by (simp add: bytes_of_string_def)
  ultimately have T: "55 \<notin> set ?T" by simp
  have "archive [] = cpiopad (cpio_magic @ ?T)"
    by (simp add: archive_def put_entries_def write_trailer_def writeCPIOFile_def cpio_fields_def Let_def numeral_eq_Suc)
  then have "archive [] = cpio_magic @ (?T @ zeros ((4 - length (cpio_magic @ ?T) mod 4) mod 4))" by (simp add: cpiopad_def)
  moreover have "55 \<notin> set (?T @ zeros n)" for n using T by simp
  ultimately show ?thesis using that by blast
qed

lemma strip_scan:
  assumes d: "data = body @ cpio_magic @ T" and T: "55 \<notin> set T"
    and o: "length body + 5 \<le> offset" "offset < length data" "105 \<le> length body"
  shows "strip_from data spare offset = strip_from data spare (length body + 5)"
  using o(1,2)
proof (induction "offset - (length body + 5)" arbitrary: offset)
  case (Suc n)
  have gt: "length body + 5 < offset" using Suc.hyps(2) by simp
  have "offset - 5 + 3 = offset - 2" using gt by simp
  then have "slice data (offset - 5) (offset + 1) ! 3 = data ! (offset - 2)"
    using gt Suc.prems by (simp add: slice_def)
  also have "data ! (offset - 2) \<noteq> 55"
  proof (cases "offset - 2 < length body + 6")
    case True
    then obtain j where j: "offset - 2 = length body + j" "j \<in> {4, 5}" using gt
      by (intro that [of "offset - 2 - length body"]) auto
    have "cpio_magic ! j \<noteq> 55" using j(2) by (auto simp: cpio_magic_def bytes_of_string_def)
    moreover have "j < 6" using j(2) by auto
    ultimately show ?thesis by (simp add: d j(1) nth_append)
  next
    case False
    then obtain i where i: "offset - 2 = length body + (6 + i)" by (metis add.assoc le_Suc_ex not_less)
    then have "data ! (offset - 2) = T ! i" by (simp add: d nth_append)
    moreover have "i < length T" using i gt Suc.prems(2) by (simp add: d)
    ultimately have "data ! (offset - 2) \<in> set T" by simp
    with T show ?thesis by metis
  qed
  finally have "slice data (offset - 5) (offset + 1) \<noteq> cpio_magic" by (auto simp: cpio_magic_def bytes_of_string_def)
  then have "strip_from data spare offset = strip_from data spare (offset - 1)"
    using gt o(3) by (simp add: strip_from.simps [of data spare offset])
  also have "\<dots> = strip_from data spare (length body + 5)" using Suc.hyps(1) [of "offset - 1"] Suc.hyps(2) Suc.prems gt by simp
  finally show ?case .
qed simp

lemma raw_trailer: "\<exists>fs. fields_ok fs ''TRAILER!!!'' [] \<and> archive [] = raw_entry fs ''TRAILER!!!'' []"
proof -
  obtain fs where fs: "fields_ok fs ''TRAILER!!!'' []"
    "\<And>buf. length buf mod 4 = 0 \<Longrightarrow> put_entry buf trailer_entry = buf @ raw_entry fs ''TRAILER!!!'' []"
    using put_entry_raw [OF trailer_fits] by (metis entry_data.simps(1) entry_name.simps(2))
  have "archive [] = put_entry [] trailer_entry" by (simp add: archive_put put_entries_def del: put_entry.simps)
  with fs(1) fs(2) [of "[]"] show ?thesis by auto
qed

lemma strip_archive:
  assumes "list_all entry_fits es" "es \<noteq> []"
  shows "stripCPIOTrailer (archive es @ zeros k) spare = Inr (put_entries [] es)"
proof -
  define body where "body = put_entries [] es"
  define data where "data = archive es @ zeros k"
  obtain e es' where es: "es = e # es'" using assms(2) by (cases es) auto
  have "put_entries [] es = put_entry [] e @ put_entries [] es'"
    using put_entries_two [of "[e]" es'] assms(1) by (simp add: es put_entries_def)
  then have b: "105 \<le> length body" using entry_length [of e] assms(1) by (simp add: body_def es)
  obtain T where T: "archive [] = cpio_magic @ T" "55 \<notin> set T" by (rule trailer_no_seven)
  have d: "data = body @ cpio_magic @ (T @ zeros k)" using archive_split [OF assms(1)] T(1) by (simp add: data_def body_def)
  have T2: "55 \<notin> set (T @ zeros k)" using T(2) by simp
  obtain fs where fs: "fields_ok fs ''TRAILER!!!'' []" "archive [] = raw_entry fs ''TRAILER!!!'' []"
    using raw_trailer by blast
  have d2: "data = body @ (raw_entry fs ''TRAILER!!!'' [] @ zeros k)" using d fs(2) T(1) by simp
  note parts = raw_entry_parts(1-4) [OF fs(1), where r = "zeros k"] raw_entry_parts(1-4) [OF fs(1), where r = "zeros k @ spare"]
    raw_entry_parts(6) [OF fs(1)]
  have sl: "slice data (length body + i) (length body + j) = slice (raw_entry fs ''TRAILER!!!'' [] @ zeros k) i j" for i j
    unfolding d2 by (rule slice_shift)
  have sl2: "slice (data @ spare) (length body + i) (length body + j) = slice (raw_entry fs ''TRAILER!!!'' [] @ zeros k @ spare) i j" for i j
    unfolding d2 append_assoc by (rule slice_shift)
  have len: "124 \<le> length data - length body" using parts(9) by (simp add: d2 align4_def)
  have len2: "\<not> length data + length spare < length body + 102" "\<not> length data < 120 + length body" using len by simp_all
  have s: "slice data (length body + 5 - 5) (length body + 5 + 1) = cpio_magic"
    using sl [of 0 6] parts(1) by (simp add: add.commute)
  have n: "unat (parseHex (slice (data @ spare) (length body + 94) (length body + 102))) = 11"
    unfolding sl2 using parts(7) by simp
  have m: "slice data (length body + 110) (120 + length body) = bytes_of_string ''TRAILER!!!''"
    unfolding add.commute [of 120] sl using parts(4) by simp
  have "stripCPIOTrailer data spare = strip_from data spare (length body + 5)"
    unfolding stripCPIOTrailer_def using strip_scan [OF d T2 _ _ b, of "length data - 1"] len by (auto simp: d)
  also have "\<dots> = Inr (take (length body) data)"
    using s n m len2 b by (subst strip_from.simps) (simp add: Let_def del: parseHex.simps)
  finally show ?thesis by (simp add: data_def [symmetric] body_def [symmetric]) (simp add: d)
qed

section \<open>Gzip members in front of an archive\<close>

text \<open>\<open>member gunzip m x\<close>: the bytes \<open>m\<close> are one gzip member that holds \<open>x\<close>, and the reader stops exactly behind it.\<close>

definition member :: "gunzip \<Rightarrow> bytes \<Rightarrow> bytes \<Rightarrow> bool" where
  "member gunzip m x \<longleftrightarrow> take 2 m = [0x1f, 0x8b] \<and> (\<forall>r. gunzip (m @ r) = Inr (x, r))"

lemma member_head:
  assumes "member gunzip m x"
  obtains t where "m = 0x1f # 0x8b # t"
proof -
  have "m = take 2 m @ drop 2 m" by simp
  also have "take 2 m = [0x1f, 0x8b]" using assms by (simp add: member_def)
  finally have "m = 0x1f # 0x8b # drop 2 m" by simp
  then show ?thesis by (rule that)
qed

lemma dropWhile_zeros: "dropWhile (\<lambda>b. b = 0) (zeros k @ r) = dropWhile (\<lambda>b. b = 0) r"
  by (induction k) simp_all

lemma gunzip_members_end:
  assumes "r = [] \<or> (hd r \<noteq> 0 \<and> hd r \<noteq> 0x1f)"
  shows "gunzip_members gunzip out (zeros k @ r) = Some (Inr (out, r))"
proof -
  have "dropWhile (\<lambda>b. b = 0) (zeros k @ r) = r" using assms by (cases r) (auto simp: dropWhile_zeros)
  then show ?thesis using assms by (subst gunzip_members.simps) (cases r; auto simp: Let_def)
qed

lemma gunzip_members_member:
  "member gunzip m x \<Longrightarrow> gunzip_members gunzip out (zeros k @ m @ r) = gunzip_members gunzip (out @ x) r"
proof -
  assume m: "member gunzip m x"
  obtain t where t: "m = 0x1f # 0x8b # t" using m by (rule member_head)
  have "dropWhile (\<lambda>b. b = 0) (zeros k @ m @ r) = m @ r" by (simp add: t dropWhile_zeros)
  moreover have "gunzip (m @ r) = Inr (x, r)" using m by (simp add: member_def)
  ultimately show ?thesis by (subst gunzip_members.simps) (simp add: Let_def t)
qed

lemma decompress_member:
  assumes "member gunzip m x" "x \<noteq> []" "r = [] \<or> (hd r \<noteq> 0 \<and> hd r \<noteq> 0x1f)"
  shows "decompressInitrd gunzip (m @ zeros k @ r) = Some (Inr (x @ r))"
  unfolding decompressInitrd_def
  using gunzip_members_member [OF assms(1), of "[]" 0 "zeros k @ r"] gunzip_members_end [OF assms(3), of gunzip x k] assms(2) by simp

lemma decompress_plain:
  assumes "r = [] \<or> (hd r \<noteq> 0 \<and> hd r \<noteq> 0x1f)"
  shows "decompressInitrd gunzip r = Some (Inr r)"
  unfolding decompressInitrd_def using gunzip_members_end [OF assms, of gunzip "[]" 0] by simp

lemma archive_hd: "list_all entry_fits es \<Longrightarrow> archive es \<noteq> [] \<and> hd (archive es) = 48"
proof -
  assume f: "list_all entry_fits es"
  define es2 where "es2 = es @ [trailer_entry]"
  obtain e r where er: "es2 = e # r" by (cases es2) (auto simp: es2_def)
  have f2: "list_all entry_fits es2" using f trailer_fits by (simp add: es2_def)
  have a: "archive es = put_entry [] e @ put_entries [] r"
    using put_entries_two [of "[e]" r] f2 by (simp add: archive_put es2_def [symmetric] er put_entries_def)
  obtain fs where "put_entry [] e = raw_entry fs (entry_name e) (entry_data e)"
    using put_entry_raw [of e] f2 er by (metis append_Nil list.pred_inject(2) list.size(3) mod_0)
  moreover have "cpio_magic = 48 # tl cpio_magic" by (simp add: cpio_magic_def bytes_of_string_def)
  ultimately obtain t where "put_entry [] e = 48 # t" unfolding raw_entry_def cpiopad_def by (metis append_Cons append_assoc)
  then show ?thesis by (simp add: a)
qed

section \<open>What the guest boots\<close>

definition init_entries :: "bytes \<Rightarrow> cpio_entry list" where
  "init_entries binData =
     [CDir ''dev'' 0xFFF0, CChar ''dev/console'' 8592 5 1 0xFFF1, CDir ''etc'' 0xFFE0,
      CFile ''etc/nsswitch.conf'' (nl_line ''hosts: files dns'') 33188 0xFFE1, CFile ''etc/resolv.conf'' [] 33188 0xFFE2,
      CFile ''etc/hosts'' (nl_line ''127.0.0.1 localhost'' @ nl_line ''::1 localhost'') 33188 0xFFE3,
      CFile ''init'' binData 33261 0xFFF2]"

lemma initCPIO_archive: "initCPIO binData = archive (init_entries binData)"
  by (simp add: initCPIO_def archive_def put_entries_def init_entries_def Let_def)

lemma newcCPIO_archive: "newcCPIO name data mode = archive [CFile name data mode 1]"
  by (simp add: newcCPIO_def archive_def put_entries_def)

lemma init_entries_fit: "length binData < 2 ^ 32 \<Longrightarrow> list_all entry_fits (init_entries binData)"
  by (simp add: init_entries_def entry_fits_def nl_line_def)

lemma init_entries_init: "binData \<noteq> [] \<Longrightarrow> last_match ''init'' (es @ init_entries binData) = Some binData"
  by (simp add: last_match_def init_entries_def matches_def strip_name_def)

lemma init_entries_other:
  "t \<notin> {''init'', ''etc/hosts'', ''etc/nsswitch.conf''} \<Longrightarrow> last_match t (es @ init_entries binData) = last_match t es"
  by (auto simp add: last_match_def init_entries_def matches_def strip_name_def)

lemma find_one_archive:
  assumes "list_all entry_fits es"
  shows "findInCPIO (archive es) t = (case last_match t es of None \<Rightarrow> Inl (NotFound t) | Some d \<Rightarrow> Inr d)"
  using find_archive [OF assms, of "[]" "archive es" "[]" t None] by (simp add: findInCPIO_def find_end split: option.split)

text \<open>
  An overlay wins over the image it is appended to. When the base image is one gzip member holding an archive,
  followed by padding, or the plain archive, then the \<open>init\<close> that is found in the image after \<open>appendOverlay\<close> is the
  one of the overlay.
\<close>

theorem overlay_wins:
  assumes "list_all entry_fits es" "d \<noteq> []" "length d < 2 ^ 32"
    and "base = archive es \<or> member gunzip base (archive es)"
  shows "extractInit gunzip (appendOverlay base (newcCPIO ''init'' d mode)) = Some (Inr d)"
proof -
  let ?e = "[CFile ''init'' d mode 1]"
  have f: "list_all entry_fits ?e" using assms(3) by (simp add: entry_fits_def)
  have m: "last_match ''init'' (es @ ?e) = Some d" using assms(2) by (simp add: last_match_def matches_def strip_name_def)
  note two = find_two_archives [OF assms(1) f, where k = 0 and t = "''init''", simplified m, simplified]
  show ?thesis
  proof (cases "base = archive es")
    case True
    have "decompressInitrd gunzip (archive es @ archive ?e) = Some (Inr (archive es @ archive ?e))"
      using archive_hd [OF assms(1)] by (intro decompress_plain) (simp add: hd_append)
    moreover have "appendOverlay base (newcCPIO ''init'' d mode) = archive es @ archive ?e"
      using archive_mod [OF assms(1)] by (simp add: appendOverlay_def newcCPIO_archive True)
    ultimately show ?thesis using two by (simp add: extractInit_def)
  next
    case False
    then have "member gunzip base (archive es)" using assms(4) by simp
    from decompress_member [OF this, of "archive ?e"] archive_hd [OF assms(1)] archive_hd [OF f] two
    show ?thesis by (simp add: extractInit_def appendOverlay_def newcCPIO_archive)
  qed
qed

text \<open>A reader of members that are stored as they are, for the witnesses.\<close>

definition stored_gunzip :: "nat \<Rightarrow> gunzip" where
  "stored_gunzip n r = Inr (slice r 2 n, drop n r)"

lemma stored_member: "member (stored_gunzip (2 + length x)) ([0x1f, 0x8b] @ x) x"
  by (simp add: member_def stored_gunzip_def slice_def)

theorem overlay_wins_witness:
  "extractInit (stored_gunzip (2 + length (archive [CFile ''init'' [1] 33261 1])))
     (appendOverlay ([0x1f, 0x8b] @ archive [CFile ''init'' [1] 33261 1]) (newcCPIO ''init'' [2, 3] 33261)) = Some (Inr [2, 3])"
  by (rule overlay_wins [where es = "[CFile ''init'' [1] 33261 1]"]) (use stored_member in \<open>simp_all add: entry_fits_def\<close>)

text \<open>
  C21. The image of \<open>CreateFromBinary\<close> over a base image is one archive with a single trailer at its end, which holds the
  entries of the base followed by the entries of sandal (\<open>dev\<close>, \<open>dev/console\<close>, \<open>etc\<close>, the three files below it and
  \<open>init\<close>). The \<open>init\<close> that is found in it is the given binary, whatever the base holds, and every name that sandal does
  not write is found as in the base.
\<close>

theorem initrd_merge:
  assumes "list_all entry_fits es" "es \<noteq> []" "binData \<noteq> []" "length binData < 2 ^ 32"
    and "base = archive es \<or> member gunzip base (archive es)"
    and "\<forall>e \<in> set (init_entries binData). t \<noteq> strip_name (entry_name e)"
  shows "\<exists>image. initrd_content gunzip (Some base) spare binData = Some (Inr image) \<and>
           image = archive (es @ init_entries binData) \<and> findInCPIO image ''init'' = Inr binData \<and> findInCPIO image t = findInCPIO (archive es) t"
proof -
  note f = init_entries_fit [OF assms(4)]
  have t: "t \<notin> {''init'', ''etc/hosts'', ''etc/nsswitch.conf''}" using assms(6) by (auto simp: init_entries_def strip_name_def)
  have "decompressInitrd gunzip base = Some (Inr (archive es))"
    using assms(5) decompress_plain [of "archive es" gunzip] decompress_member [of gunzip base "archive es" "[]" 0]
      archive_hd [OF assms(1)] by auto
  then have "initrd_content gunzip (Some base) spare binData = Some (Inr (archive (es @ init_entries binData)))"
    using strip_archive [OF assms(1,2), of 0 spare] by (simp add: initrd_content_def initCPIO_archive archive_append [OF assms(1) f])
  moreover have "list_all entry_fits (es @ init_entries binData)" using assms(1) f by simp
  ultimately show ?thesis
    by (simp add: find_one_archive assms(1) init_entries_init [OF assms(3)] init_entries_other [OF t])
qed

theorem initrd_merge_witness:
  "\<exists>image. initrd_content (stored_gunzip (2 + length (archive [CFile ''init'' [1] 33261 1])))
       (Some ([0x1f, 0x8b] @ archive [CFile ''init'' [1] 33261 1])) [] [7] = Some (Inr image) \<and>
     image = archive ([CFile ''init'' [1] 33261 1] @ init_entries [7]) \<and> findInCPIO image ''init'' = Inr [7] \<and> findInCPIO image ''lib/a'' = findInCPIO (archive [CFile ''init'' [1] 33261 1]) ''lib/a''"
  by (rule initrd_merge) (use stored_member in \<open>simp_all add: entry_fits_def init_entries_def strip_name_def\<close>)

section \<open>Where the reader and the stripper stop short\<close>

lemma zero_name_size:
  "findInCPIO (cpio_magic @ replicate 104 48) t = Inl (CpioPanic SliceBounds)"
proof -
  let ?d = "cpio_magic @ replicate 104 (48 :: byte)"
  have z: "parseHex (replicate n 48) = 0" for n
    unfolding parseHex_foldl by (induction n) (simp_all add: hex_step_def)
  have s: "slice ?d (6 + i) (6 + i + 8) = replicate 8 48" if "i + 8 \<le> 104" for i
    using slice_shift [of cpio_magic "replicate 104 48" i "i + 8"] that by (simp add: slice_def add.assoc)
  have "skip_zeros 0 ?d = 0" by (simp add: cpio_magic_def bytes_of_string_def)
  moreover have "slice ?d 0 6 = cpio_magic" by (simp add: slice_def)
  moreover have "unat (parseHex (slice ?d 94 102)) = 0" using s [of 88] z [of 8] by (simp del: parseHex.simps)
  ultimately show ?thesis by (simp add: findInCPIO_def find_from.simps del: parseHex.simps)
qed

lemma magic_at_end: "stripCPIOTrailer (replicate 105 0 @ cpio_magic) [] = Inl SliceBounds"
proof -
  have "slice (replicate 105 0 @ cpio_magic) (105 + 0) (105 + 6) = cpio_magic"
    using slice_shift [of "replicate 105 0" cpio_magic 0 6] by (simp add: slice_def)
  then show ?thesis by (simp add: stripCPIOTrailer_def strip_from.simps)
qed

lemma strip_none:
  "(\<And>i. 110 \<le> i \<Longrightarrow> i \<le> n \<Longrightarrow> slice data (i - 5) (i + 1) \<noteq> cpio_magic) \<Longrightarrow> strip_from data spare n = Inr data"
proof (induction n)
  case (Suc n)
  then have "strip_from data spare n = Inr data" by simp
  then show ?case using Suc.prems [of "Suc n"] by (simp add: strip_from.simps [of data spare "Suc n"])
qed (simp add: strip_from.simps)

lemma lone_trailer_stays: "stripCPIOTrailer (archive []) spare = Inr (archive [])"
proof -
  obtain T where T: "archive [] = cpio_magic @ T" "55 \<notin> set T" by (rule trailer_no_seven)
  have "slice (archive []) (i - 5) (i + 1) \<noteq> cpio_magic" if i: "110 \<le> i" "i \<le> length (archive []) - 1" for i
  proof -
    have lt: "i < 6 + length T" using i by (simp add: T(1))
    have "i - 5 + 3 = i - 2" using i by simp
    then have "slice (archive []) (i - 5) (i + 1) ! 3 = archive [] ! (i - 2)" using i by (simp add: slice_def)
    also have "\<dots> = T ! (i - 8)"
    proof -
      obtain j where "i = 8 + j" using i(1) le_Suc_ex [of 8 i] by auto
      then show ?thesis by (simp add: T(1) nth_append)
    qed
    also have "\<dots> \<noteq> 55"
    proof -
      have "i - 8 < length T" using i lt by linarith
      with T(2) show ?thesis by (metis nth_mem)
    qed
    finally show ?thesis by (auto simp: cpio_magic_def bytes_of_string_def)
  qed
  then show ?thesis by (simp add: stripCPIOTrailer_def strip_none)
qed

end
