(* ===== verification/Squashfs.thy ===== *)
theory Squashfs
  imports GoPath "HOL-Library.Char_ord" "HOL-Library.List_Lexorder"
begin

text \<open>
  The squashfs writer of \<open>src/pkg/lib/squashfs\<close> (\<open>writer.go\<close>, \<open>struct.go\<close>, \<open>filter.go\<close>, \<open>info.go\<close>). The directory tree on
  the host is a value, with what \<open>Lstat\<close>, \<open>Open\<close> and \<open>Readlink\<close> find; \<open>listDir\<close> and the path filter are arguments. The
  output file is the list of bytes after the superblock; its writes succeed. \<open>zlib\<close> is the compressor. The offset
  \<open>dataPos\<close> of the source is always 96 plus the bytes written.
\<close>

section \<open>Constants and the superblock\<close>

definition defaultBlockSize :: u32 where "defaultBlockSize = 131072"
definition metadataBlockSize :: nat where "metadataBlockSize = 8192"
definition metadataUncompBit :: u16 where "metadataUncompBit = 0x8000"
definition dataUncompBit :: u32 where "dataUncompBit = 0x1000000"
definition sqfsTypeDir :: u16 where "sqfsTypeDir = 1"
definition sqfsTypeFile :: u16 where "sqfsTypeFile = 2"
definition sqfsTypeSymlink :: u16 where "sqfsTypeSymlink = 3"
definition sqfsTypeLDir :: u16 where "sqfsTypeLDir = 8"
definition flagNoXattrs :: u16 where "flagNoXattrs = 0x0200"
definition flagDuplicates :: u16 where "flagDuplicates = 0x0040"
definition SQUASHFS_MAGIC :: u32 where "SQUASHFS_MAGIC = 0x73717368"
definition SQUASHFS_MAGIC_LE :: u32 where "SQUASHFS_MAGIC_LE = 0x68737173"
definition SquashfsHeaderSize :: nat where "SquashfsHeaderSize = 96"

lemmas sq_types = sqfsTypeDir_def sqfsTypeFile_def sqfsTypeSymlink_def sqfsTypeLDir_def

record SquashfsHeader =
  Magic :: u32
  Inodes :: u32
  MkfsTime :: u32
  BlockSize :: u32
  Fragments :: u32
  Compression :: u16
  BlockLog :: u16
  Flags :: u16
  NoIds :: u16
  VersionMajor :: u16
  VersionMinor :: u16
  RootInode :: u64
  BytesUsed :: u64
  IdTableStart :: u64
  XattrTableStart :: u64
  InodeTableStart :: u64
  DirectoryTableStart :: u64
  FragmentTableStart :: u64
  ExportTableStart :: u64

definition enc_header :: "SquashfsHeader \<Rightarrow> bytes" where
  "enc_header h = le32 (Magic h) @ le32 (Inodes h) @ le32 (MkfsTime h) @ le32 (BlockSize h) @ le32 (Fragments h) @
     le16 (Compression h) @ le16 (BlockLog h) @ le16 (Flags h) @ le16 (NoIds h) @ le16 (VersionMajor h) @ le16 (VersionMinor h) @
     le64 (RootInode h) @ le64 (BytesUsed h) @ le64 (IdTableStart h) @ le64 (XattrTableStart h) @ le64 (InodeTableStart h) @
     le64 (DirectoryTableStart h) @ le64 (FragmentTableStart h) @ le64 (ExportTableStart h)"

section \<open>The host tree and the writer\<close>

text \<open>A directory entry as the host has it, with \<open>fs.FileMode\<close> and modification time; a regular file has the size of
  \<open>Lstat\<close> and the bytes that reading delivers. \<open>Unreadable\<close> is an entry for which \<open>Lstat\<close> fails.\<close>

datatype node =
    Dir u32 int "(string \<times> node) list"
  | File u32 int nat bytes
  | Symlink int string
  | Special
  | Unreadable

record inodeInfo =
  inodeNum :: u32
  inodeType :: u16
  cname :: string

record Writer =
  wout :: bytes
  blockSize :: u32
  comp :: u16
  mkfsTime :: int
  nextInode :: u32
  idTable :: "u32 list"
  idMap :: "u32 \<rightharpoonup> u16"
  inodeRaw :: bytes
  dirRaw :: bytes
  inodePos :: "u32 \<Rightarrow> nat"
  dirEntryFixups :: "(nat \<times> u32) list"
  dirInodeFixups :: "(nat \<times> nat) list"
  fragments :: "(u64 \<times> u32) list"
  fragBuf :: bytes

datatype sq_error = ListError | StatError | ReadError | ZeroBlockSize | SqPanic

definition NewWriter :: "u32 \<Rightarrow> u16 \<Rightarrow> int \<Rightarrow> Writer" where
  "NewWriter bs c t = \<lparr>wout = [], blockSize = bs, comp = c, mkfsTime = t, nextInode = 1, idTable = [], idMap = Map.empty,
     inodeRaw = [], dirRaw = [], inodePos = (\<lambda>_. 0), dirEntryFixups = [], dirInodeFixups = [], fragments = [], fragBuf = []\<rparr>"

definition dataPos :: "Writer \<Rightarrow> nat" where
  "dataPos w = SquashfsHeaderSize + length (wout w)"

definition allocInode :: "Writer \<Rightarrow> u32 \<times> Writer" where
  "allocInode w = (nextInode w, w\<lparr>nextInode := nextInode w + 1\<rparr>)"

definition lookupID :: "u32 \<Rightarrow> Writer \<Rightarrow> u16 \<times> Writer" where
  "lookupID i w =
     (case idMap w i of
        Some idx \<Rightarrow> (idx, w)
      | None \<Rightarrow> let idx = word_of_nat (length (idTable w))
                in (idx, w\<lparr>idTable := idTable w @ [i], idMap := (idMap w)(i \<mapsto> idx)\<rparr>))"

text \<open>The bytes of a data block and its size word: compressed when that is shorter.\<close>

definition pack_block :: "(bytes \<Rightarrow> bytes) \<Rightarrow> bytes \<Rightarrow> bytes \<times> u32" where
  "pack_block zlib data =
     (let c = zlib data
      in if length c < length data then (c, word_of_nat (length c))
         else (data, word_of_nat (length data) OR dataUncompBit))"

definition writeDataBlock :: "(bytes \<Rightarrow> bytes) \<Rightarrow> bytes \<Rightarrow> Writer \<Rightarrow> u32 \<times> Writer" where
  "writeDataBlock zlib data w =
     (case pack_block zlib data of (bs, sz) \<Rightarrow> (sz, w\<lparr>wout := wout w @ bs\<rparr>))"

definition flushFragBlock :: "(bytes \<Rightarrow> bytes) \<Rightarrow> Writer \<Rightarrow> Writer" where
  "flushFragBlock zlib w =
     (if fragBuf w = [] then w
      else case pack_block zlib (fragBuf w) of (bs, sz) \<Rightarrow>
             w\<lparr>wout := wout w @ bs, fragments := fragments w @ [(word_of_nat (dataPos w), sz)], fragBuf := []\<rparr>)"

definition addFragment :: "(bytes \<Rightarrow> bytes) \<Rightarrow> bytes \<Rightarrow> Writer \<Rightarrow> u32 \<times> u32 \<times> Writer" where
  "addFragment zlib data w =
     (let w1 = (if unat (blockSize w) < length (fragBuf w) + length data \<and> 0 < length (fragBuf w)
                then flushFragBlock zlib w else w)
      in (word_of_nat (length (fragments w1)), word_of_nat (length (fragBuf w1)), w1\<lparr>fragBuf := fragBuf w1 @ data\<rparr>))"

text \<open>The full blocks of a file; the remainder is returned. The loop of the source does not end for block size zero.\<close>

function write_blocks :: "(bytes \<Rightarrow> bytes) \<Rightarrow> nat \<Rightarrow> bytes \<Rightarrow> Writer \<Rightarrow> u32 list \<times> bytes \<times> Writer" where
  "write_blocks zlib bs data w =
     (if bs = 0 \<or> length data < bs then ([], data, w)
      else case writeDataBlock zlib (take bs data) w of
             (sz, w1) \<Rightarrow> apfst (Cons sz) (write_blocks zlib bs (drop bs data) w1))"
  by pat_completeness auto
termination
  by (relation "measure (\<lambda>(z, bs, data, w). length data)") auto

declare write_blocks.simps [simp del]

definition writeFileDataStreamed ::
    "(bytes \<Rightarrow> bytes) \<Rightarrow> nat \<Rightarrow> bytes \<Rightarrow> Writer \<Rightarrow> sq_error + (u32 \<times> u32 list \<times> u32 \<times> u32) \<times> Writer" where
  "writeFileDataStreamed zlib sz content w =
     (if blockSize w = 0 then Inl ZeroBlockSize
      else if length content < sz then Inl ReadError
      else case write_blocks zlib (unat (blockSize w)) (take sz content) w of
             (sizes, tail, w1) \<Rightarrow>
               if tail = [] then Inr ((word_of_nat (dataPos w), sizes, 0xFFFFFFFF, 0), w1)
               else case addFragment zlib tail w1 of
                      (idx, off, w2) \<Rightarrow> Inr ((word_of_nat (dataPos w), sizes, idx, off), w2))"

definition appendInode :: "u32 \<Rightarrow> bytes \<Rightarrow> Writer \<Rightarrow> Writer" where
  "appendInode num data w = w\<lparr>inodePos := (inodePos w)(num := length (inodeRaw w)), inodeRaw := inodeRaw w @ data\<rparr>"

section \<open>Inodes\<close>

definition unixMode :: "u32 \<Rightarrow> u16" where
  "unixMode m = ucast (m AND 511) OR (if bit m 23 then 2048 else 0) OR (if bit m 22 then 1024 else 0)
     OR (if bit m 20 then 512 else 0)"

text \<open>The fields that all inodes begin with.\<close>

definition inode_head :: "u16 \<Rightarrow> u16 \<Rightarrow> u16 \<Rightarrow> u16 \<Rightarrow> int \<Rightarrow> u32 \<Rightarrow> bytes" where
  "inode_head ty mode uid gid mtime num =
     le16 ty @ le16 mode @ le16 uid @ le16 gid @ le32 (word_of_int mtime) @ le32 num"

text \<open>The two forms of a directory inode; the block index and offset are filled in later.\<close>

definition dir_inode :: "u16 \<Rightarrow> u16 \<Rightarrow> u16 \<Rightarrow> int \<Rightarrow> u32 \<Rightarrow> u32 \<Rightarrow> u16 \<Rightarrow> u32 \<Rightarrow> u16 \<Rightarrow> bytes" where
  "dir_inode mode uid gid mtime num links sz blk off =
     inode_head sqfsTypeDir mode uid gid mtime num @ le32 blk @ le32 links @ le16 sz @ le16 off @ le32 1"

definition ldir_inode :: "u16 \<Rightarrow> u16 \<Rightarrow> u16 \<Rightarrow> int \<Rightarrow> u32 \<Rightarrow> u32 \<Rightarrow> u32 \<Rightarrow> u32 \<Rightarrow> u16 \<Rightarrow> bytes" where
  "ldir_inode mode uid gid mtime num links sz blk off =
     inode_head sqfsTypeLDir mode uid gid mtime num @ le32 links @ le32 sz @ le32 blk @ le32 1 @ le16 0 @ le16 off @ le32 0"

definition buildDirInode :: "u32 \<Rightarrow> int \<Rightarrow> inodeInfo list \<Rightarrow> nat \<Rightarrow> u32 \<Rightarrow> Writer \<Rightarrow> u32 \<times> Writer" where
  "buildDirInode mode mtime children dirRawPos dirSize w =
     (let (num, w1) = allocInode w;
          (uid, w2) = lookupID 0 w1;
          (gid, w3) = lookupID 0 w2;
          fileSize = dirSize + 3;
          links = word_of_nat (length children + 2);
          base = length (inodeRaw w3)
      in if fileSize \<le> 0xFFFF
         then let w4 = appendInode num (dir_inode (unixMode mode) uid gid mtime num links (ucast fileSize) 0 0) w3
              in (num, if children = [] then w4 else w4\<lparr>dirInodeFixups := dirInodeFixups w4 @ [(base + 16, dirRawPos)]\<rparr>)
         else let w4 = appendInode num (ldir_inode (unixMode mode) uid gid mtime num links fileSize 0 0) w3
              in (num, if children = [] then w4 else w4\<lparr>dirInodeFixups := dirInodeFixups w4 @ [(base + 24, dirRawPos)]\<rparr>))"

definition file_inode :: "u16 \<Rightarrow> u16 \<Rightarrow> u16 \<Rightarrow> int \<Rightarrow> u32 \<Rightarrow> u32 \<Rightarrow> u32 \<Rightarrow> u32 \<Rightarrow> u32 \<Rightarrow> u32 list \<Rightarrow> bytes" where
  "file_inode mode uid gid mtime num start frag off sz sizes =
     inode_head sqfsTypeFile mode uid gid mtime num @ le32 start @ le32 frag @ le32 off @ le32 sz @ concat (map le32 sizes)"

definition buildFileInode :: "(bytes \<Rightarrow> bytes) \<Rightarrow> u32 \<Rightarrow> int \<Rightarrow> nat \<Rightarrow> bytes \<Rightarrow> Writer \<Rightarrow> sq_error + u32 \<times> Writer" where
  "buildFileInode zlib mode mtime sz content w =
     rbind (writeFileDataStreamed zlib sz content w) (\<lambda>((start, sizes, frag, off), w0).
       let (num, w1) = allocInode w0;
           (uid, w2) = lookupID 0 w1;
           (gid, w3) = lookupID 0 w2
       in Inr (num, appendInode num (file_inode (unixMode mode) uid gid mtime num start frag off (word_of_nat sz) sizes) w3))"

definition link_inode :: "u16 \<Rightarrow> u16 \<Rightarrow> int \<Rightarrow> u32 \<Rightarrow> string \<Rightarrow> bytes" where
  "link_inode uid gid mtime num target =
     inode_head sqfsTypeSymlink 511 uid gid mtime num @ le32 1 @ le32 (word_of_nat (length target)) @ bytes_of_string target"

definition buildSymlinkInode :: "int \<Rightarrow> string \<Rightarrow> Writer \<Rightarrow> u32 \<times> Writer" where
  "buildSymlinkInode mtime target w =
     (let (num, w1) = allocInode w;
          (uid, w2) = lookupID 0 w1;
          (gid, w3) = lookupID 0 w2
      in (num, appendInode num (link_inode uid gid mtime num target) w3))"

section \<open>Directory entries\<close>

text \<open>The children after the first that go into its group: those whose inode starts in the same metadata block, at
  most \<open>n\<close>.\<close>

fun take_group :: "(u32 \<Rightarrow> nat) \<Rightarrow> nat \<Rightarrow> nat \<Rightarrow> inodeInfo list \<Rightarrow> inodeInfo list \<times> inodeInfo list" where
  "take_group ip blk n [] = ([], [])"
| "take_group ip blk n (c # cs) =
     (if n = 0 \<or> ip (inodeNum c) div metadataBlockSize \<noteq> blk then ([], c # cs)
      else apfst (Cons c) (take_group ip blk (n - 1) cs))"

lemma take_group_append: "fst (take_group ip blk n cs) @ snd (take_group ip blk n cs) = cs"
  by (induction cs arbitrary: n) auto

lemma take_group_length: "length (snd (take_group ip blk n cs)) \<le> length cs"
  by (induction cs arbitrary: n) (auto simp: le_SucI)

function dir_groups :: "(u32 \<Rightarrow> nat) \<Rightarrow> inodeInfo list \<Rightarrow> inodeInfo list list" where
  "dir_groups ip [] = []"
| "dir_groups ip (c # cs) =
     (let g = take_group ip (ip (inodeNum c) div metadataBlockSize) 255 cs
      in (c # fst g) # dir_groups ip (snd g))"
  by pat_completeness auto
termination
  by (relation "measure (\<lambda>(ip, cs). length cs)") (auto simp: take_group_length le_imp_less_Suc)

definition enc_entry :: "(u32 \<Rightarrow> nat) \<Rightarrow> u32 \<Rightarrow> inodeInfo \<Rightarrow> bytes" where
  "enc_entry ip first c =
     le16 (word_of_nat (ip (inodeNum c) mod metadataBlockSize)) @ le16 (ucast (inodeNum c - first)) @ le16 (inodeType c) @
     le16 (word_of_nat (length (cname c)) - 1) @ bytes_of_string (cname c)"

definition enc_group :: "(u32 \<Rightarrow> nat) \<Rightarrow> u32 \<Rightarrow> inodeInfo list \<Rightarrow> bytes" where
  "enc_group ip start g =
     (let first = inodeNum (hd g)
      in le32 (word_of_nat (length g - 1)) @ le32 start @ le32 first @ concat (map (enc_entry ip first) g))"

text \<open>Where the start fields of the groups are, and whose inode they are about.\<close>

fun group_fixups :: "(u32 \<Rightarrow> nat) \<Rightarrow> nat \<Rightarrow> inodeInfo list list \<Rightarrow> (nat \<times> u32) list" where
  "group_fixups ip pos [] = []"
| "group_fixups ip pos (g # gs) = (pos + 4, inodeNum (hd g)) # group_fixups ip (pos + length (enc_group ip 0 g)) gs"

definition buildDirEntries :: "inodeInfo list \<Rightarrow> Writer \<Rightarrow> nat \<times> u32 \<times> Writer" where
  "buildDirEntries children w =
     (let pos = length (dirRaw w)
      in if children = [] then (pos, 0, w)
         else let gs = dir_groups (inodePos w) (sort_key cname children);
                  buf = concat (map (enc_group (inodePos w) 0) gs)
              in (pos, word_of_nat (length buf),
                  w\<lparr>dirRaw := dirRaw w @ buf, dirEntryFixups := dirEntryFixups w @ group_fixups (inodePos w) pos gs\<rparr>))"

section \<open>The walk\<close>

lemma rbind_cong [fundef_cong]: "m = m' \<Longrightarrow> (\<And>x. m' = Inr x \<Longrightarrow> f x = f' x) \<Longrightarrow> rbind m f = rbind m' f'"
  by (cases m') auto

definition is_dir :: "node \<Rightarrow> bool" where
  "is_dir c \<longleftrightarrow> (case c of Dir m t ks \<Rightarrow> True | _ \<Rightarrow> False)"

definition included :: "(string \<Rightarrow> bool \<Rightarrow> bool) option \<Rightarrow> string list \<Rightarrow> node \<Rightarrow> bool" where
  "included filt path c = (case filt of None \<Rightarrow> True | Some f \<Rightarrow> f (CHR ''/'' # join_path path) (is_dir c))"

definition finish_dir :: "u32 \<Rightarrow> int \<Rightarrow> inodeInfo list \<Rightarrow> Writer \<Rightarrow> u32 \<times> Writer" where
  "finish_dir mode mtime children w =
     (case buildDirEntries children w of (pos, sz, w1) \<Rightarrow> buildDirInode mode mtime children pos sz w1)"

lemma kids_size:
  assumes "map_of kids n = Some (Dir m t ks)"
  shows "size_list (size_prod (\<lambda>_. 0) size) ks < size_list (size_prod (\<lambda>_. 0) size) kids"
proof -
  have "(n, Dir m t ks) \<in> set kids" using assms by (rule map_of_SomeD)
  then have "size_prod (\<lambda>_. 0) size (n, Dir m t ks) \<le> size_list (size_prod (\<lambda>_. 0) size) kids"
    by (rule size_list_estimation') simp
  then show ?thesis by simp
qed

text \<open>The children of the directory at \<open>path\<close>, by name.\<close>

function process_children :: "(bytes \<Rightarrow> bytes) \<Rightarrow> (string list \<Rightarrow> string list option) \<Rightarrow> (string \<Rightarrow> bool \<Rightarrow> bool) option
    \<Rightarrow> string list \<Rightarrow> (string \<times> node) list \<Rightarrow> string list \<Rightarrow> inodeInfo list \<Rightarrow> Writer \<Rightarrow> sq_error + inodeInfo list \<times> Writer" where
  "process_children zlib listDir filt path kids [] acc w = Inr (acc, w)"
| "process_children zlib listDir filt path kids (n # ns) acc w =
     (case map_of kids n of
        None \<Rightarrow> process_children zlib listDir filt path kids ns acc w
      | Some c \<Rightarrow>
          if c = Unreadable then Inl StatError
          else if \<not> included filt (path @ [n]) c then process_children zlib listDir filt path kids ns acc w
          else case c of
            Symlink t target \<Rightarrow>
              (case buildSymlinkInode t target w of
                 (i, w1) \<Rightarrow> process_children zlib listDir filt path kids ns (acc @ [\<lparr>inodeNum = i, inodeType = sqfsTypeSymlink, cname = n\<rparr>]) w1)
          | Dir m t ks \<Rightarrow>
              (case listDir (path @ [n]) of
                 None \<Rightarrow> Inl ListError
               | Some names \<Rightarrow>
                   rbind (process_children zlib listDir filt (path @ [n]) ks (sort names) [] w) (\<lambda>(cs, w1).
                     (case finish_dir m t cs w1 of
                        (i, w2) \<Rightarrow> process_children zlib listDir filt path kids ns (acc @ [\<lparr>inodeNum = i, inodeType = sqfsTypeDir, cname = n\<rparr>]) w2)))
          | File m t sz content \<Rightarrow>
              rbind (buildFileInode zlib m t sz content w) (\<lambda>(i, w1).
                process_children zlib listDir filt path kids ns (acc @ [\<lparr>inodeNum = i, inodeType = sqfsTypeFile, cname = n\<rparr>]) w1)
          | _ \<Rightarrow> process_children zlib listDir filt path kids ns acc w)"
  by pat_completeness auto
termination
  by (relation "measures [\<lambda>(z, l, f, p, kids, ns, acc, w). size_list (size_prod (\<lambda>_. 0) size) kids, \<lambda>(z, l, f, p, kids, ns, acc, w). length ns]")
    (auto dest: kids_size)

definition processDir :: "(bytes \<Rightarrow> bytes) \<Rightarrow> (string list \<Rightarrow> string list option) \<Rightarrow> (string \<Rightarrow> bool \<Rightarrow> bool) option
    \<Rightarrow> string list \<Rightarrow> node \<Rightarrow> Writer \<Rightarrow> sq_error + u32 \<times> Writer" where
  "processDir zlib listDir filt path d w =
     (case d of
        Dir m t kids \<Rightarrow>
          (case listDir path of
             None \<Rightarrow> Inl ListError
           | Some names \<Rightarrow>
               rbind (process_children zlib listDir filt path kids (sort names) [] w) (\<lambda>(cs, w1). Inr (finish_dir m t cs w1)))
      | _ \<Rightarrow> Inl ListError)"

section \<open>Metadata blocks\<close>

function pieces :: "bytes \<Rightarrow> bytes list" where
  "pieces raw = (if raw = [] then [] else take metadataBlockSize raw # pieces (drop metadataBlockSize raw))"
  by pat_completeness auto
termination
  by (relation "measure length") (auto simp: metadataBlockSize_def)

declare pieces.simps [simp del]

record metadataCache =
  offsets :: "nat list"
  blocks :: "bytes list"
  headers :: "u16 list"

text \<open>The header and the stored bytes of one block.\<close>

definition meta_pack :: "(bytes \<Rightarrow> bytes) \<Rightarrow> bool \<Rightarrow> bytes \<Rightarrow> u16 \<times> bytes" where
  "meta_pack zlib fixedSize chunk =
     (let c = zlib chunk
      in if \<not> fixedSize \<and> length c < length chunk then (word_of_nat (length c), c)
         else (word_of_nat (length chunk) OR metadataUncompBit, chunk))"

fun block_offsets :: "nat \<Rightarrow> bytes list \<Rightarrow> nat list" where
  "block_offsets pos [] = []"
| "block_offsets pos (b # bs) = pos # block_offsets (pos + 2 + length b) bs"

definition compressMetadataBlocks :: "(bytes \<Rightarrow> bytes) \<Rightarrow> bytes \<Rightarrow> bool \<Rightarrow> metadataCache" where
  "compressMetadataBlocks zlib raw fixedSize =
     (let ps = map (meta_pack zlib fixedSize) (pieces raw)
      in \<lparr>offsets = block_offsets 0 (map snd ps), blocks = map snd ps, headers = map fst ps\<rparr>)"

definition meta_bytes :: "u16 list \<Rightarrow> bytes list \<Rightarrow> bytes" where
  "meta_bytes hs bs = concat (map (\<lambda>(h, b). le16 h @ b) (zip hs bs))"

definition writeMetadataCached :: "metadataCache \<Rightarrow> Writer \<Rightarrow> Writer" where
  "writeMetadataCached mc w = w\<lparr>wout := wout w @ meta_bytes (headers mc) (blocks mc)\<rparr>"

text \<open>\<open>None\<close> is the panic of an index out of range.\<close>

definition inodeRef :: "nat \<Rightarrow> nat list \<Rightarrow> u64 option" where
  "inodeRef rawPos offs =
     (let i = rawPos div metadataBlockSize
      in if i < length offs then Some (push_bit 16 (word_of_nat (offs ! i)) OR word_of_nat (rawPos mod metadataBlockSize)) else None)"

definition writeMetadataBlocksTracked :: "(bytes \<Rightarrow> bytes) \<Rightarrow> bytes \<Rightarrow> Writer \<Rightarrow> nat list \<times> Writer" where
  "writeMetadataBlocksTracked zlib raw w =
     (let mc = compressMetadataBlocks zlib raw False
      in (map (\<lambda>p. dataPos w + p) (offsets mc), w\<lparr>wout := wout w @ meta_bytes (headers mc) (blocks mc)\<rparr>))"

definition frag_entry :: "u64 \<times> u32 \<Rightarrow> bytes" where
  "frag_entry f = le64 (fst f) @ le32 (snd f) @ le32 0"

definition write_pointers :: "nat list \<Rightarrow> Writer \<Rightarrow> nat \<times> Writer" where
  "write_pointers ps w = (dataPos w, w\<lparr>wout := wout w @ concat (map (\<lambda>p. le64 (word_of_nat p)) ps)\<rparr>)"

definition writeFragmentTable :: "(bytes \<Rightarrow> bytes) \<Rightarrow> Writer \<Rightarrow> nat \<times> Writer" where
  "writeFragmentTable zlib w =
     (if fragments w = [] then (dataPos w, w)
      else case writeMetadataBlocksTracked zlib (concat (map frag_entry (fragments w))) w of
             (ps, w1) \<Rightarrow> write_pointers ps w1)"

definition writeIDTable :: "(bytes \<Rightarrow> bytes) \<Rightarrow> Writer \<Rightarrow> nat \<times> Writer" where
  "writeIDTable zlib w =
     (let w0 = (if idTable w = [] then snd (lookupID 0 w) else w)
      in case writeMetadataBlocksTracked zlib (concat (map le32 (idTable w0))) w0 of
           (ps, w1) \<Rightarrow> write_pointers ps w1)"

section \<open>The image\<close>

text \<open>\<open>PutUint32(buf[off:], v)\<close> and \<open>PutUint16\<close>; \<open>None\<close> is the panic when the slice is too short.\<close>

definition put_at :: "nat \<Rightarrow> bytes \<Rightarrow> bytes \<Rightarrow> bytes option" where
  "put_at off v buf = (if off + length v \<le> length buf then Some (take off buf @ v @ drop (off + length v) buf) else None)"

fun patch_entries :: "nat list \<Rightarrow> (u32 \<Rightarrow> nat) \<Rightarrow> (nat \<times> u32) list \<Rightarrow> bytes \<Rightarrow> bytes option" where
  "patch_entries offs ip [] buf = Some buf"
| "patch_entries offs ip ((off, num) # fs) buf =
     (let i = ip num div metadataBlockSize
      in if i < length offs
         then Option.bind (put_at off (le32 (word_of_nat (offs ! i))) buf) (patch_entries offs ip fs)
         else None)"

fun patch_inodes :: "nat list \<Rightarrow> (nat \<times> nat) list \<Rightarrow> bytes \<Rightarrow> bytes option" where
  "patch_inodes offs [] buf = Some buf"
| "patch_inodes offs ((off, pos) # fs) buf =
     (let i = pos div metadataBlockSize
      in if i < length offs
         then Option.bind (put_at off (le32 (word_of_nat (offs ! i))) buf)
                (\<lambda>b. Option.bind (put_at (off + 10) (le16 (word_of_nat (pos mod metadataBlockSize))) b) (patch_inodes offs fs))
         else None)"

fun block_log :: "nat \<Rightarrow> nat" where
  "block_log n = (if n > 1 then Suc (block_log (n div 2)) else 0)"

declare block_log.simps [simp del]

text \<open>The tables behind the data, the padding, and the superblock in front.\<close>

definition write_tables :: "(bytes \<Rightarrow> bytes) \<Rightarrow> metadataCache \<Rightarrow> metadataCache \<Rightarrow> u64 \<Rightarrow> Writer \<Rightarrow> bytes" where
  "write_tables zlib inodeCache dirCache rootRef w =
     (let inodeTableStart = dataPos w;
          w1 = writeMetadataCached inodeCache w;
          dirTableStart = dataPos w1;
          w2 = writeMetadataCached dirCache w1;
          (fragTableStart, w3) = writeFragmentTable zlib w2;
          (idTableStart, w4) = writeIDTable zlib w3;
          pad = (4096 - dataPos w4 mod 4096) mod 4096;
          h = \<lparr>Magic = SQUASHFS_MAGIC, Inodes = nextInode w4 - 1, MkfsTime = word_of_int (mkfsTime w4),
               BlockSize = blockSize w4, Fragments = word_of_nat (length (fragments w4)), Compression = comp w4,
               BlockLog = word_of_nat (block_log (unat (blockSize w4))), Flags = flagNoXattrs OR flagDuplicates,
               NoIds = word_of_nat (length (idTable w4)), VersionMajor = 4, VersionMinor = 0, RootInode = rootRef,
               BytesUsed = word_of_nat (dataPos w4), IdTableStart = word_of_nat idTableStart,
               XattrTableStart = 0xFFFFFFFFFFFFFFFF, InodeTableStart = word_of_nat inodeTableStart,
               DirectoryTableStart = word_of_nat dirTableStart,
               FragmentTableStart = (if fragments w4 = [] then 0xFFFFFFFFFFFFFFFF else word_of_nat fragTableStart),
               ExportTableStart = 0xFFFFFFFFFFFFFFFF\<rparr>
      in enc_header h @ wout w4 @ zeros pad)"

definition of_panic :: "'a option \<Rightarrow> sq_error + 'a" where
  "of_panic x = (case x of None \<Rightarrow> Inl SqPanic | Some y \<Rightarrow> Inr y)"

definition build :: "(bytes \<Rightarrow> bytes) \<Rightarrow> (string list \<Rightarrow> string list option) \<Rightarrow> (string \<Rightarrow> bool \<Rightarrow> bool) option
    \<Rightarrow> node \<Rightarrow> Writer \<Rightarrow> sq_error + bytes" where
  "build zlib listDir filt root w0 =
     rbind (processDir zlib listDir filt [] root w0) (\<lambda>(i, w1).
       let w = flushFragBlock zlib w1;
           inodeOffs = offsets (compressMetadataBlocks zlib (inodeRaw w) True)
       in rbind (of_panic (patch_entries inodeOffs (inodePos w) (dirEntryFixups w) (dirRaw w))) (\<lambda>dirData.
            let dirCache = compressMetadataBlocks zlib dirData True
            in rbind (of_panic (patch_inodes (offsets dirCache) (dirInodeFixups w) (inodeRaw w))) (\<lambda>inodeData.
                 let inodeCache = compressMetadataBlocks zlib inodeData True
                 in rbind (of_panic (inodeRef (inodePos w (nextInode w - 1)) (offsets inodeCache))) (\<lambda>rootRef.
                      Inr (write_tables zlib inodeCache dirCache rootRef w)))))"

text \<open>\<open>CreateFromDir\<close> lists what the tree has.\<close>

fun lookup_dir :: "node \<Rightarrow> string list \<Rightarrow> string list option" where
  "lookup_dir (Dir m t kids) [] = Some (map fst kids)"
| "lookup_dir (Dir m t kids) (n # p) = (case map_of kids n of None \<Rightarrow> None | Some c \<Rightarrow> lookup_dir c p)"
| "lookup_dir c p = None"

definition CreateFromDir :: "(bytes \<Rightarrow> bytes) \<Rightarrow> (string \<Rightarrow> bool \<Rightarrow> bool) option \<Rightarrow> node \<Rightarrow> Writer \<Rightarrow> sq_error + bytes" where
  "CreateFromDir zlib filt root w = build zlib (lookup_dir root) filt root w"

text \<open>\<open>CreateFromPaths\<close> lists the given paths and the directories they imply: pairs of a directory and a name in it.\<close>

fun implied :: "string \<Rightarrow> string list \<Rightarrow> (string \<times> string) list" where
  "implied cur [] = []"
| "implied cur (p # ps) = (if p = [] then implied cur ps else (cur, p) # implied (path_join [cur, p]) ps)"

definition children_of :: "string \<Rightarrow> string list \<Rightarrow> (string \<times> string) list" where
  "children_of rootPath paths =
     concat (map (\<lambda>rel. let r = path_clean rel
                        in if r = ''.'' \<or> r = ''/'' then [] else implied (path_clean rootPath) (split_on CHR ''/'' r)) paths)"

definition list_paths :: "string \<Rightarrow> (string \<times> string) list \<Rightarrow> string list \<Rightarrow> string list option" where
  "list_paths rootPath children path =
     (let dir = path_clean (foldl (\<lambda>c p. path_join [c, p]) rootPath path)
      in Some (remdups (map snd (filter (\<lambda>c. fst c = dir) children))))"

definition CreateFromPaths :: "(bytes \<Rightarrow> bytes) \<Rightarrow> (string \<Rightarrow> bool \<Rightarrow> bool) option \<Rightarrow> string \<Rightarrow> string list \<Rightarrow> node \<Rightarrow> Writer
    \<Rightarrow> sq_error + bytes" where
  "CreateFromPaths zlib filt rootPath paths root w = build zlib (list_paths rootPath (children_of rootPath paths)) filt root w"

section \<open>The path filter\<close>

definition norm_path :: "string \<Rightarrow> string" where
  "norm_path p = trim_suffix ''/'' (if has_prefix ''/'' p then p else CHR ''/'' # p)"

definition NewIncludeExcludeFilter :: "string list \<Rightarrow> string list \<Rightarrow> string \<Rightarrow> bool \<Rightarrow> bool" where
  "NewIncludeExcludeFilter includes excludes relPath isDir =
     (let p = norm_path relPath
      in if list_ex (\<lambda>e. p = norm_path e \<or> has_prefix (norm_path e @ ''/'') p) excludes then False
         else list_ex (\<lambda>i. p = norm_path i \<or> has_prefix (norm_path i @ ''/'') p \<or>
                            isDir \<and> has_prefix (p @ ''/'') (norm_path i)) includes)"

section \<open>Reading back\<close>

datatype info_error = BadHeader | BadMagic | TruncatedBlock | BadBlock | UnknownInode u16 nat

definition dec_header :: "bytes \<Rightarrow> SquashfsHeader" where
  "dec_header b = \<lparr>Magic = get_le32 b, Inodes = get_le32 (drop 4 b), MkfsTime = get_le32 (drop 8 b),
     BlockSize = get_le32 (drop 12 b), Fragments = get_le32 (drop 16 b), Compression = get_le16 (drop 20 b),
     BlockLog = get_le16 (drop 22 b), Flags = get_le16 (drop 24 b), NoIds = get_le16 (drop 26 b),
     VersionMajor = get_le16 (drop 28 b), VersionMinor = get_le16 (drop 30 b), RootInode = get_le64 (drop 32 b),
     BytesUsed = get_le64 (drop 40 b), IdTableStart = get_le64 (drop 48 b), XattrTableStart = get_le64 (drop 56 b),
     InodeTableStart = get_le64 (drop 64 b), DirectoryTableStart = get_le64 (drop 72 b),
     FragmentTableStart = get_le64 (drop 80 b), ExportTableStart = get_le64 (drop 88 b)\<rparr>"

definition Info :: "bytes \<Rightarrow> info_error + SquashfsHeader" where
  "Info img =
     (if length img < SquashfsHeaderSize then Inl BadHeader
      else let h = dec_header img
           in if Magic h \<noteq> SQUASHFS_MAGIC \<and> Magic h \<noteq> SQUASHFS_MAGIC_LE then Inl BadMagic else Inr h)"

text \<open>The inode table as one sequence of bytes; \<open>unzlib\<close> decompresses a block.\<close>

function read_table :: "(bytes \<Rightarrow> bytes option) \<Rightarrow> bytes \<Rightarrow> nat \<Rightarrow> nat \<Rightarrow> info_error + bytes" where
  "read_table unzlib img pos end =
     (if end \<le> pos then Inr []
      else if length img < pos + 2 then Inl TruncatedBlock
      else let h = get_le16 (drop pos img);
               sz = unat (h AND 0x7FFF);
               chunk = slice img (pos + 2) (pos + 2 + sz)
           in if length img < pos + 2 + sz then Inl TruncatedBlock
              else rbind (if bit h 15 then Inr chunk else case unzlib chunk of None \<Rightarrow> Inl BadBlock | Some d \<Rightarrow> Inr d) (\<lambda>d.
                     rbind (read_table unzlib img (pos + 2 + sz) end) (\<lambda>rest. Inr (d @ rest))))"
  by pat_completeness auto
termination
  by (relation "measure (\<lambda>(u, img, pos, e). e - pos)") auto

declare read_table.simps [simp del]

definition inodeSize :: "u16 \<Rightarrow> bytes \<Rightarrow> nat \<Rightarrow> nat option" where
  "inodeSize itype buf bs =
     (if itype = 1 then Some 32
      else if itype = 2 then (if length buf < 32 then None else Some (32 + 4 * (unat (get_le32 (drop 28 buf)) div bs)))
      else if itype = 3 then (if length buf < 24 then None else Some (24 + unat (get_le32 (drop 20 buf))))
      else if itype = 8 then Some 40
      else None)"

text \<open>The count so far comes with an error.\<close>

fun count_files :: "nat \<Rightarrow> nat \<Rightarrow> bytes \<Rightarrow> nat \<Rightarrow> nat \<times> info_error option" where
  "count_files bs 0 buf i = (0, None)"
| "count_files bs (Suc n) buf i =
     (if length buf < i + 2 then (0, None)
      else let itype = get_le16 (drop i buf)
           in case inodeSize itype (drop i buf) bs of
                None \<Rightarrow> (0, Some (UnknownInode itype i))
              | Some sz \<Rightarrow> apfst ((+) (if itype = 2 then 1 else 0)) (count_files bs n buf (i + sz)))"

definition CountRegularFiles :: "(bytes \<Rightarrow> bytes option) \<Rightarrow> bytes \<Rightarrow> nat \<times> info_error option" where
  "CountRegularFiles unzlib img =
     (case Info img of
        Inl e \<Rightarrow> (0, Some e)
      | Inr h \<Rightarrow>
          (case read_table unzlib img (unat (InodeTableStart h)) (unat (DirectoryTableStart h)) of
             Inl e \<Rightarrow> (0, Some e)
           | Inr raw \<Rightarrow> count_files (if BlockSize h = 0 then 131072 else unat (BlockSize h)) (unat (Inodes h)) raw 0))"

end
