(* ===== verification/SquashfsRead.thy ===== *)
theory SquashfsRead
  imports Squashfs
begin

text \<open>
  A reader of the squashfs format, version 4.0, as far as the writer uses it: it finds the root inode from the
  superblock, reads inodes and directory listings from metadata blocks and file contents from data blocks and
  fragments. It is written from the format, independently of the writer, and stands for the kernel that mounts an image.
  \<open>SquashfsRoundtrip\<close> shows that it reads back what the writer was given.
\<close>

section \<open>Blocks\<close>

text \<open>A data block by its size word: bit 24 marks stored data.\<close>

definition word_len :: "u32 \<Rightarrow> nat" where
  "word_len szw = unat (szw AND 0xFFFFFF)"

definition unblock :: "(bytes \<Rightarrow> bytes option) \<Rightarrow> bytes \<Rightarrow> u32 \<Rightarrow> bytes option" where
  "unblock unzlib b szw = (if bit szw 24 then Some b else unzlib b)"

text \<open>A metadata block at a position, with the position behind it.\<close>

definition meta_block :: "(bytes \<Rightarrow> bytes option) \<Rightarrow> bytes \<Rightarrow> nat \<Rightarrow> (bytes \<times> nat) option" where
  "meta_block unzlib img pos =
     (if length img < pos + 2 then None
      else let h = get_le16 (drop pos img);
               n = unat (h AND 0x7FFF);
               b = slice img (pos + 2) (pos + 2 + n)
           in if length img < pos + 2 + n then None
              else map_option (\<lambda>d. (d, pos + 2 + n)) (if bit h 15 then Some b else unzlib b))"

text \<open>The next \<open>n\<close> bytes of the metadata stream that starts with the block at \<open>pos\<close>.\<close>

fun meta_stream :: "(bytes \<Rightarrow> bytes option) \<Rightarrow> bytes \<Rightarrow> nat \<Rightarrow> nat \<Rightarrow> nat \<Rightarrow> bytes option" where
  "meta_stream unzlib img fuel pos n =
     (if n = 0 then Some []
      else case fuel of
        0 \<Rightarrow> None
      | Suc f \<Rightarrow>
          (case meta_block unzlib img pos of
             None \<Rightarrow> None
           | Some (d, nxt) \<Rightarrow>
               if n \<le> length d then Some (take n d)
               else map_option ((@) d) (meta_stream unzlib img f nxt (n - length d))))"

declare meta_stream.simps [simp del]

definition meta_read :: "(bytes \<Rightarrow> bytes option) \<Rightarrow> bytes \<Rightarrow> nat \<Rightarrow> nat \<Rightarrow> nat \<Rightarrow> nat \<Rightarrow> bytes option" where
  "meta_read unzlib img start blk off n = map_option (drop off) (meta_stream unzlib img (off + n) (start + blk) (off + n))"

section \<open>The parts of a disk\<close>

record disk =
  inode_read :: "nat \<Rightarrow> nat \<Rightarrow> nat \<Rightarrow> bytes option"
  dir_read :: "nat \<Rightarrow> nat \<Rightarrow> nat \<Rightarrow> bytes option"
  data_read :: "nat \<Rightarrow> nat \<Rightarrow> bytes option"
  frag_at :: "nat \<Rightarrow> (u64 \<times> u32) option"
  unz :: "bytes \<Rightarrow> bytes option"
  blk_size :: nat

datatype inode =
    IDir u16 u32 nat nat nat
  | IFile u16 u32 nat u32 nat nat "u32 list"
  | ILink u32 string

fun get_words :: "nat \<Rightarrow> bytes \<Rightarrow> u32 list" where
  "get_words 0 b = []"
| "get_words (Suc n) b = get_le32 b # get_words n (drop 4 b)"

text \<open>The number of an inode and its contents. A file without fragment has a block for its last bytes, too.\<close>

definition read_inode :: "disk \<Rightarrow> nat \<Rightarrow> nat \<Rightarrow> (u32 \<times> inode) option" where
  "read_inode d blk off =
     (case inode_read d blk off 16 of
        None \<Rightarrow> None
      | Some h \<Rightarrow>
          (let ty = get_le16 h; mode = get_le16 (drop 2 h); mtime = get_le32 (drop 8 h); num = get_le32 (drop 12 h)
           in if ty = 1 then
                map_option (\<lambda>b. (num, IDir mode mtime (unat (get_le32 (drop 16 b))) (unat (get_le16 (drop 26 b)))
                  (unat (get_le16 (drop 24 b))))) (inode_read d blk off 32)
              else if ty = 8 then
                map_option (\<lambda>b. (num, IDir mode mtime (unat (get_le32 (drop 24 b))) (unat (get_le16 (drop 34 b)))
                  (unat (get_le32 (drop 20 b))))) (inode_read d blk off 40)
              else if ty = 2 then
                (case inode_read d blk off 32 of
                   None \<Rightarrow> None
                 | Some b \<Rightarrow>
                     (let frag = get_le32 (drop 20 b); sz = unat (get_le32 (drop 28 b));
                          n = (if frag = 0xFFFFFFFF then (sz + blk_size d - 1) div blk_size d else sz div blk_size d)
                      in map_option (\<lambda>c. (num, IFile mode mtime (unat (get_le32 (drop 16 b))) frag (unat (get_le32 (drop 24 b)))
                           sz (get_words n (drop 32 c)))) (inode_read d blk off (32 + 4 * n))))
              else if ty = 3 then
                (case inode_read d blk off 24 of
                   None \<Rightarrow> None
                 | Some b \<Rightarrow>
                     (let n = unat (get_le32 (drop 20 b))
                      in map_option (\<lambda>c. (num, ILink mtime (string_of_bytes (drop 24 c)))) (inode_read d blk off (24 + n))))
              else None))"

section \<open>File contents\<close>

text \<open>A size word of zero is a hole.\<close>

fun read_blocks :: "disk \<Rightarrow> nat \<Rightarrow> u32 list \<Rightarrow> bytes option" where
  "read_blocks d pos [] = Some []"
| "read_blocks d pos (s # ss) =
     (if s = 0 then map_option ((@) (zeros (blk_size d))) (read_blocks d pos ss)
      else case data_read d pos (word_len s) of
        None \<Rightarrow> None
      | Some b \<Rightarrow>
          (case unblock (unz d) b s of
             None \<Rightarrow> None
           | Some c \<Rightarrow> map_option ((@) c) (read_blocks d (pos + word_len s) ss)))"

definition read_frag :: "disk \<Rightarrow> nat \<Rightarrow> bytes option" where
  "read_frag d i =
     (case frag_at d i of
        None \<Rightarrow> None
      | Some (start, s) \<Rightarrow>
          (case data_read d (unat start) (word_len s) of None \<Rightarrow> None | Some b \<Rightarrow> unblock (unz d) b s))"

definition read_file :: "disk \<Rightarrow> nat \<Rightarrow> u32 \<Rightarrow> nat \<Rightarrow> nat \<Rightarrow> u32 list \<Rightarrow> bytes option" where
  "read_file d start frag off sz sizes =
     (case read_blocks d start sizes of
        None \<Rightarrow> None
      | Some body \<Rightarrow>
          if frag = 0xFFFFFFFF then (if length body = sz then Some body else None)
          else case read_frag d (unat frag) of
            None \<Rightarrow> None
          | Some fb \<Rightarrow>
              (let c = body @ take (sz mod blk_size d) (drop off fb) in if length c = sz then Some c else None))"

section \<open>Directories\<close>

text \<open>An entry: name, block and offset of the inode, inode number.\<close>

fun parse_entries :: "nat \<Rightarrow> nat \<Rightarrow> u32 \<Rightarrow> bytes \<Rightarrow> ((string \<times> nat \<times> nat \<times> u32) list \<times> bytes) option" where
  "parse_entries 0 start base b = Some ([], b)"
| "parse_entries (Suc n) start base b =
     (let len = unat (get_le16 (drop 6 b)) + 1
      in if length b < 8 + len then None
         else map_option (apfst (Cons (string_of_bytes (slice b 8 (8 + len)), start, unat (get_le16 b),
                base + scast (get_le16 (drop 2 b))))) (parse_entries n start base (drop (8 + len) b)))"

lemma parse_entries_length: "parse_entries n start base b = Some (es, r) \<Longrightarrow> length r \<le> length b"
  by (induction n arbitrary: b es) (fastforce simp: Let_def split: if_splits)+

function parse_listing :: "bytes \<Rightarrow> (string \<times> nat \<times> nat \<times> u32) list option" where
  "parse_listing b =
     (if b = [] then Some []
      else if length b < 12 then None
      else case parse_entries (unat (get_le32 b) + 1) (unat (get_le32 (drop 4 b))) (get_le32 (drop 8 b)) (drop 12 b) of
             None \<Rightarrow> None
           | Some (es, r) \<Rightarrow> map_option ((@) es) (parse_listing r))"
  by pat_completeness auto
termination
  by (relation "measure length") (auto simp del: parse_entries.simps dest!: parse_entries_length)

declare parse_listing.simps [simp del]

datatype rnode =
    RDir u16 u32 "(string \<times> rnode) list"
  | RFile u16 u32 bytes
  | RLink u32 string

fun read_node :: "disk \<Rightarrow> nat \<Rightarrow> nat \<Rightarrow> nat \<Rightarrow> (u32 \<times> rnode) option" where
  "read_node d 0 blk off = None"
| "read_node d (Suc fuel) blk off =
     (case read_inode d blk off of
        None \<Rightarrow> None
      | Some (num, IFile mode mtime start frag foff sz sizes) \<Rightarrow>
          map_option (\<lambda>c. (num, RFile mode mtime c)) (read_file d start frag foff sz sizes)
      | Some (num, ILink mtime target) \<Rightarrow> Some (num, RLink mtime target)
      | Some (num, IDir mode mtime dblk doff sz) \<Rightarrow>
          (case (if sz \<le> 3 then Some [] else dir_read d dblk doff (sz - 3)) of
             None \<Rightarrow> None
           | Some b \<Rightarrow>
               (case parse_listing b of
                  None \<Rightarrow> None
                | Some es \<Rightarrow>
                    map_option (\<lambda>kids. (num, RDir mode mtime kids))
                      (those (map (\<lambda>(name, cblk, coff, cnum).
                         case read_node d fuel cblk coff of
                           Some (n, r) \<Rightarrow> if n = cnum then Some (name, r) else None
                         | None \<Rightarrow> None) es)))))"

section \<open>Images\<close>

text \<open>The fragment table: pointers to metadata blocks of 512 entries.\<close>

definition image_frag :: "(bytes \<Rightarrow> bytes option) \<Rightarrow> bytes \<Rightarrow> nat \<Rightarrow> nat \<Rightarrow> (u64 \<times> u32) option" where
  "image_frag unzlib img start i =
     (let p = start + 8 * (i div 512)
      in if length img < p + 8 then None
         else case meta_block unzlib img (unat (get_le64 (drop p img))) of
                None \<Rightarrow> None
              | Some (b, nxt) \<Rightarrow>
                  (let e = drop (16 * (i mod 512)) b
                   in if length e < 16 then None else Some (get_le64 e, get_le32 (drop 8 e))))"

definition image_disk :: "(bytes \<Rightarrow> bytes option) \<Rightarrow> bytes \<Rightarrow> SquashfsHeader \<Rightarrow> disk" where
  "image_disk unzlib img h =
     \<lparr>inode_read = meta_read unzlib img (unat (InodeTableStart h)),
      dir_read = meta_read unzlib img (unat (DirectoryTableStart h)),
      data_read = (\<lambda>pos n. if length img < pos + n then None else Some (slice img pos (pos + n))),
      frag_at = image_frag unzlib img (unat (FragmentTableStart h)),
      unz = unzlib,
      blk_size = unat (BlockSize h)\<rparr>"

definition read_image :: "(bytes \<Rightarrow> bytes option) \<Rightarrow> nat \<Rightarrow> bytes \<Rightarrow> rnode option" where
  "read_image unzlib fuel img =
     (if length img < SquashfsHeaderSize then None
      else let h = dec_header img
           in if Magic h \<noteq> SQUASHFS_MAGIC then None
              else map_option snd (read_node (image_disk unzlib img h) fuel
                (unat (drop_bit 16 (RootInode h))) (unat (RootInode h AND 0xFFFF))))"

section \<open>The tree that the writer is given\<close>

text \<open>What the image should contain: the entries that are listed and pass the filter, in the order of their names.\<close>

function listed :: "(string list \<Rightarrow> string list option) \<Rightarrow> (string \<Rightarrow> bool \<Rightarrow> bool) option \<Rightarrow> string list \<Rightarrow> (string \<times> node) list
    \<Rightarrow> string list \<Rightarrow> (string \<times> rnode) list" where
  "listed listDir filt path kids [] = []"
| "listed listDir filt path kids (n # ns) =
     (case map_of kids n of
        None \<Rightarrow> listed listDir filt path kids ns
      | Some c \<Rightarrow>
          if \<not> included filt (path @ [n]) c then listed listDir filt path kids ns
          else case c of
            Symlink t target \<Rightarrow> (n, RLink (word_of_int t) target) # listed listDir filt path kids ns
          | Dir m t ks \<Rightarrow>
              (n, RDir (unixMode m) (word_of_int t)
                (case listDir (path @ [n]) of None \<Rightarrow> [] | Some names \<Rightarrow> listed listDir filt (path @ [n]) ks (sort names)))
              # listed listDir filt path kids ns
          | File m t sz content \<Rightarrow> (n, RFile (unixMode m) (word_of_int t) (take sz content)) # listed listDir filt path kids ns
          | _ \<Rightarrow> listed listDir filt path kids ns)"
  by pat_completeness auto
termination
  by (relation "measures [\<lambda>(l, f, p, kids, ns). size_list (size_prod (\<lambda>_. 0) size) kids, \<lambda>(l, f, p, kids, ns). length ns]")
    (auto dest: kids_size)

definition source_tree :: "(string list \<Rightarrow> string list option) \<Rightarrow> (string \<Rightarrow> bool \<Rightarrow> bool) option \<Rightarrow> node \<Rightarrow> rnode option" where
  "source_tree listDir filt root =
     (case root of
        Dir m t kids \<Rightarrow> map_option (\<lambda>names. RDir (unixMode m) (word_of_int t) (listed listDir filt [] kids (sort names))) (listDir [])
      | _ \<Rightarrow> None)"

end
