(* ===== verification/SquashfsLayout.thy ===== *)
theory SquashfsLayout
  imports SquashfsRead "HOL-Library.Sublist"
begin

text \<open>
  What the writer has laid out at any moment: the inode and directory tables with their references filled in, as far as
  they are built, and the relation of a later state of the writer to an earlier one. References depend only on
  positions that never change again, so the completed tables only grow.
\<close>

section \<open>Patches\<close>

definition put :: "nat \<times> bytes \<Rightarrow> bytes \<Rightarrow> bytes" where
  "put p buf = take (fst p) buf @ snd p @ drop (fst p + length (snd p)) buf"

definition puts :: "(nat \<times> bytes) list \<Rightarrow> bytes \<Rightarrow> bytes" where
  "puts ps buf = fold put ps buf"

definition fits :: "nat \<Rightarrow> nat \<times> bytes \<Rightarrow> bool" where
  "fits n p \<longleftrightarrow> fst p + length (snd p) \<le> n"

definition shift :: "nat \<Rightarrow> nat \<times> bytes \<Rightarrow> nat \<times> bytes" where
  "shift n p = (fst p - n, snd p)"

lemma puts_simps [simp]: "puts [] b = b" "puts (p # ps) b = puts ps (put p b)"
  by (simp_all add: puts_def)

lemma puts_append_list: "puts (ps @ qs) b = puts qs (puts ps b)"
  by (simp add: puts_def)

lemma put_at_put: "fits (length b) p \<Longrightarrow> put_at (fst p) (snd p) b = Some (put p b)"
  by (simp add: put_at_def put_def fits_def)

lemma length_put: "fits (length b) p \<Longrightarrow> length (put p b) = length b"
  by (simp add: put_def fits_def)

lemma length_puts: "list_all (fits (length b)) ps \<Longrightarrow> length (puts ps b) = length b"
  by (induction ps arbitrary: b) (auto simp: length_put)

lemma put_left: "fits (length a) p \<Longrightarrow> put p (a @ c) = put p a @ c"
  by (simp add: put_def fits_def)

lemma put_right: "length a \<le> fst p \<Longrightarrow> put p (a @ c) = a @ put (shift (length a) p) c"
  by (simp add: put_def shift_def)

lemma puts_left: "list_all (fits (length a)) ps \<Longrightarrow> puts ps (a @ c) = puts ps a @ c"
  by (induction ps arbitrary: a) (auto simp: put_left length_put)

lemma puts_right: "list_all (\<lambda>p. length a \<le> fst p) ps \<Longrightarrow> puts ps (a @ c) = a @ puts (map (shift (length a)) ps) c"
  by (induction ps arbitrary: c) (auto simp: put_right)

text \<open>Old patches stay in the old part, new ones in the new part.\<close>

lemma puts_grow:
  assumes "list_all (fits (length a)) ps" "list_all (\<lambda>p. length a \<le> fst p) qs"
  shows "puts (ps @ qs) (a @ c) = puts ps a @ puts (map (shift (length a)) qs) c"
  using assms by (simp add: puts_append_list puts_left puts_right length_puts)

section \<open>The completed tables\<close>

text \<open>Block \<open>k\<close> of an uncompressed table starts at \<open>k * 8194\<close>.\<close>

definition blk_of :: "nat \<Rightarrow> nat" where
  "blk_of pos = pos div 8192 * 8194"

definition efix :: "(u32 \<Rightarrow> nat) \<Rightarrow> nat \<times> u32 \<Rightarrow> nat \<times> bytes" where
  "efix ip f = (fst f, le32 (word_of_nat (blk_of (ip (snd f)))))"

definition ifix :: "nat \<times> nat \<Rightarrow> (nat \<times> bytes) list" where
  "ifix f = [(fst f, le32 (word_of_nat (blk_of (snd f)))), (fst f + 10, le16 (word_of_nat (snd f mod 8192)))]"

definition ifixes :: "(nat \<times> nat) list \<Rightarrow> (nat \<times> bytes) list" where
  "ifixes fs = concat (map ifix fs)"

definition pinode :: "Writer \<Rightarrow> bytes" where
  "pinode w = puts (ifixes (dirInodeFixups w)) (inodeRaw w)"

definition pdir :: "Writer \<Rightarrow> bytes" where
  "pdir w = puts (map (efix (inodePos w)) (dirEntryFixups w)) (dirRaw w)"

lemma ifixes_simps [simp]: "ifixes [] = []" "ifixes (f # fs) = ifix f @ ifixes fs" "ifixes (fs @ gs) = ifixes fs @ ifixes gs"
  by (simp_all add: ifixes_def)

text \<open>The data of a fragment block: of a written one, or of the one being filled.\<close>

definition fcontent :: "(bytes \<Rightarrow> bytes option) \<Rightarrow> Writer \<Rightarrow> nat \<Rightarrow> bytes" where
  "fcontent unzlib w i =
     (if i < length (fragments w)
      then case fragments w ! i of (start, s) \<Rightarrow>
             (case unblock unzlib (take (word_len s) (drop (unat start - 96) (wout w))) s of Some b \<Rightarrow> b | None \<Rightarrow> [])
      else if i = length (fragments w) then fragBuf w else [])"

section \<open>Invariant of the writer\<close>

text \<open>Inodes are numbered in the order of their positions and have at least 24 bytes; fixups and fragments point into
  what is written.\<close>

definition count :: "Writer \<Rightarrow> nat" where
  "count w = unat (nextInode w) - 1"

definition frag_ok :: "(bytes \<Rightarrow> bytes option) \<Rightarrow> Writer \<Rightarrow> u64 \<times> u32 \<Rightarrow> bool" where
  "frag_ok unzlib w f \<longleftrightarrow> 96 \<le> unat (fst f) \<and> unat (fst f) + word_len (snd f) \<le> dataPos w \<and>
     unblock unzlib (take (word_len (snd f)) (drop (unat (fst f) - 96) (wout w))) (snd f) \<noteq> None"

definition winv :: "(bytes \<Rightarrow> bytes option) \<Rightarrow> Writer \<Rightarrow> bool" where
  "winv unzlib w \<longleftrightarrow>
     0 < unat (nextInode w) \<and>
     24 * count w \<le> length (inodeRaw w) \<and>
     (\<forall>i j. 0 < unat i \<and> i < j \<and> j < nextInode w \<longrightarrow> inodePos w i + 24 * (unat j - unat i) \<le> inodePos w j) \<and>
     (\<forall>i. 0 < unat i \<and> i < nextInode w \<longrightarrow> inodePos w i + 24 * (unat (nextInode w) - unat i) \<le> length (inodeRaw w)) \<and>
     list_all (\<lambda>f. fst f + 4 \<le> length (dirRaw w) \<and> 0 < unat (snd f) \<and> snd f < nextInode w) (dirEntryFixups w) \<and>
     list_all (\<lambda>f. fst f + 12 \<le> length (inodeRaw w) \<and> snd f < length (dirRaw w)) (dirInodeFixups w) \<and>
     list_all (frag_ok unzlib w) (fragments w) \<and>
     length (fragments w) \<le> length (wout w) \<and>
     length (fragBuf w) \<le> unat (blockSize w)"

lemma winvE:
  assumes "winv unzlib w"
  shows "0 < unat (nextInode w)" "24 * count w \<le> length (inodeRaw w)"
    "\<And>i j. 0 < unat i \<Longrightarrow> i < j \<Longrightarrow> j < nextInode w \<Longrightarrow> inodePos w i + 24 * (unat j - unat i) \<le> inodePos w j"
    "\<And>i. 0 < unat i \<Longrightarrow> i < nextInode w \<Longrightarrow> inodePos w i + 24 * (unat (nextInode w) - unat i) \<le> length (inodeRaw w)"
    "list_all (\<lambda>f. fst f + 4 \<le> length (dirRaw w) \<and> 0 < unat (snd f) \<and> snd f < nextInode w) (dirEntryFixups w)"
    "list_all (\<lambda>f. fst f + 12 \<le> length (inodeRaw w) \<and> snd f < length (dirRaw w)) (dirInodeFixups w)"
    "list_all (frag_ok unzlib w) (fragments w)" "length (fragments w) \<le> length (wout w)" "length (fragBuf w) \<le> unat (blockSize w)"
  using assms by (auto simp: winv_def)

lemma ifixes_fit: "list_all (\<lambda>f. fst f + 12 \<le> n \<and> snd f < m) fs \<Longrightarrow> list_all (fits n) (ifixes fs)"
  by (induction fs) (auto simp: ifix_def fits_def)

lemma efix_fit: "list_all (\<lambda>f. fst f + 4 \<le> n \<and> P f) fs \<Longrightarrow> list_all (fits n) (map (efix ip) fs)"
  by (induction fs) (auto simp: efix_def fits_def)

lemma winv_fits:
  assumes "winv unzlib w"
  shows "list_all (fits (length (inodeRaw w))) (ifixes (dirInodeFixups w))"
    "list_all (fits (length (dirRaw w))) (map (efix ip) (dirEntryFixups w))"
  using ifixes_fit [OF winvE(6) [OF assms]] efix_fit [OF winvE(5) [OF assms]] by auto

lemma winv_lengths:
  assumes "winv unzlib w"
  shows "length (pinode w) = length (inodeRaw w)" "length (pdir w) = length (dirRaw w)"
  using winv_fits [OF assms] by (simp_all add: pinode_def pdir_def length_puts)

section \<open>Later states\<close>

definition extends :: "(bytes \<Rightarrow> bytes option) \<Rightarrow> Writer \<Rightarrow> Writer \<Rightarrow> bool" where
  "extends unzlib w v \<longleftrightarrow>
     prefix (wout w) (wout v) \<and> prefix (pinode w) (pinode v) \<and> prefix (pdir w) (pdir v) \<and>
     length (inodeRaw w) \<le> length (inodeRaw v) \<and> length (dirRaw w) \<le> length (dirRaw v) \<and>
     nextInode w \<le> nextInode v \<and>
     (\<forall>i. 0 < unat i \<and> i < nextInode w \<longrightarrow> inodePos v i = inodePos w i) \<and>
     prefix (fragments w) (fragments v) \<and>
     (\<forall>i \<le> length (fragments w). prefix (fcontent unzlib w i) (fcontent unzlib v i)) \<and>
     blockSize v = blockSize w"

lemma extends_refl [simp]: "extends unzlib w w"
  by (simp add: extends_def)

lemma extends_trans:
  assumes "extends unzlib u v" "extends unzlib v w"
  shows "extends unzlib u w"
proof -
  have "prefix (fcontent unzlib u i) (fcontent unzlib w i)" if "i \<le> length (fragments u)" for i
  proof -
    have "i \<le> length (fragments v)"
      using that assms(1) prefix_length_le [of "fragments u" "fragments v"] by (simp add: extends_def)
    then show ?thesis
      using that assms prefix_order.trans unfolding extends_def by meson
  qed
  moreover have "inodePos w i = inodePos u i" if "0 < unat i" "i < nextInode u" for i
    using that assms unfolding extends_def by (metis order_less_le_trans)
  ultimately show ?thesis
    using assms unfolding extends_def by (auto intro: prefix_order.trans)
qed

section \<open>Data blocks and fragments\<close>

text \<open>What the writer relies on in the compressor, and the reader in the decompressor.\<close>

definition zok :: "(bytes \<Rightarrow> bytes) \<Rightarrow> (bytes \<Rightarrow> bytes option) \<Rightarrow> bool" where
  "zok zlib unzlib \<longleftrightarrow> (\<forall>d. d \<noteq> [] \<longrightarrow> zlib d \<noteq> [] \<and> unzlib (zlib d) = Some d)"

lemma stored_word:
  assumes "n < 2 ^ 24"
  shows "word_len (word_of_nat n) = n" "word_len (word_of_nat n OR dataUncompBit) = n"
    "\<not> bit (word_of_nat n :: u32) 24" "bit (word_of_nat n OR dataUncompBit) 24"
proof -
  have m: "(0xFFFFFF :: u32) = mask 24"
    by (simp add: mask_eq_exp_minus_1)
  have u: "unat (word_of_nat n :: u32) = n"
    using assms by (simp add: unat_of_nat)
  have "unat (take_bit 24 (word_of_nat n :: u32)) = take_bit 24 n"
    by (subst unsigned_take_bit_eq) (simp_all add: u)
  also have "take_bit 24 n = n"
    using assms by (simp add: take_bit_nat_eq_self_iff)
  finally have t: "unat (take_bit 24 (word_of_nat n :: u32)) = n" .
  then show "word_len (word_of_nat n) = n"
    by (simp add: word_len_def m flip: take_bit_eq_mask)
  have "take_bit 24 (dataUncompBit) = 0"
    by (simp add: dataUncompBit_def take_bit_eq_mod)
  then show "word_len (word_of_nat n OR dataUncompBit) = n"
    using t by (simp add: word_len_def m take_bit_or flip: take_bit_eq_mask)
  have "(word_of_nat n :: u32) = take_bit 24 (word_of_nat n)"
    using t u by (metis word_unat_eq_iff)
  then show "\<not> bit (word_of_nat n :: u32) 24"
    by (metis bit_take_bit_iff order_less_irrefl)
  have "bit (2 ^ 24 :: u32) 24"
    by (simp add: bit_exp_iff)
  then show "bit (word_of_nat n OR dataUncompBit) 24"
    by (simp add: dataUncompBit_def bit_or_iff)
qed

lemma pack_block_ok:
  assumes "zok zlib unzlib" "data \<noteq> []" "length data < 2 ^ 24" "pack_block zlib data = (bs, s)"
  shows "word_len s = length bs" "unblock unzlib bs s = Some data" "bs \<noteq> []" "s \<noteq> 0"
proof -
  have z: "zlib data \<noteq> []" "unzlib (zlib data) = Some data"
    using assms(1,2) by (auto simp: zok_def)
  show l: "word_len s = length bs"
    using assms(3,4) stored_word(1) [of "length (zlib data)"] stored_word(2) [OF assms(3)]
    by (auto simp: pack_block_def Let_def split: if_splits)
  show "unblock unzlib bs s = Some data"
    using assms(3,4) z stored_word(3) [of "length (zlib data)"] stored_word(4) [OF assms(3)]
    by (auto simp: pack_block_def Let_def unblock_def split: if_splits)
  show n: "bs \<noteq> []"
    using assms(2,4) z(1) by (auto simp: pack_block_def Let_def split: if_splits)
  show "s \<noteq> 0"
    using l n by (auto simp: word_len_def)
qed

lemma table_upd [simp]:
  "pinode (w\<lparr>wout := x\<rparr>) = pinode w" "pdir (w\<lparr>wout := x\<rparr>) = pdir w"
  "pinode (w\<lparr>fragments := fs\<rparr>) = pinode w" "pdir (w\<lparr>fragments := fs\<rparr>) = pdir w"
  "pinode (w\<lparr>fragBuf := x\<rparr>) = pinode w" "pdir (w\<lparr>fragBuf := x\<rparr>) = pdir w"
  "pinode (w\<lparr>idTable := t\<rparr>) = pinode w" "pdir (w\<lparr>idTable := t\<rparr>) = pdir w"
  "pinode (w\<lparr>idMap := m\<rparr>) = pinode w" "pdir (w\<lparr>idMap := m\<rparr>) = pdir w"
  by (simp_all add: pinode_def pdir_def)

lemma frag_ok_upd [simp]: "frag_ok unzlib (w\<lparr>fragBuf := x\<rparr>) = frag_ok unzlib w"
  by (rule ext) (simp add: frag_ok_def dataPos_def)

lemma frag_ok_grow:
  assumes "frag_ok unzlib w f" "wout v = wout w @ x"
  shows "frag_ok unzlib v f"
    "take (word_len (snd f)) (drop (unat (fst f) - 96) (wout v)) = take (word_len (snd f)) (drop (unat (fst f) - 96) (wout w))"
proof -
  have "unat (fst f) - 96 + word_len (snd f) \<le> length (wout w)" "unat (fst f) - 96 \<le> length (wout w)"
    using assms(1) by (auto simp: frag_ok_def dataPos_def SquashfsHeaderSize_def)
  then show t: "take (word_len (snd f)) (drop (unat (fst f) - 96) (wout v)) = take (word_len (snd f)) (drop (unat (fst f) - 96) (wout w))"
    using assms(2) by simp
  show "frag_ok unzlib v f"
    using assms t by (auto simp: frag_ok_def dataPos_def)
qed

lemma fcontent_grow:
  assumes "winv unzlib w" "wout v = wout w @ x" "fragments v = fragments w @ y" "i < length (fragments w)"
  shows "fcontent unzlib v i = fcontent unzlib w i"
proof -
  have "frag_ok unzlib w (fragments w ! i)"
    using winvE(7) [OF assms(1)] assms(4) by (simp add: list_all_length)
  from frag_ok_grow(2) [OF this assms(2)] show ?thesis
    using assms(3,4) by (simp add: fcontent_def nth_append case_prod_beta)
qed

text \<open>More data.\<close>

lemma data_step:
  assumes "winv unzlib w" "v = w\<lparr>wout := wout w @ x\<rparr>"
  shows "winv unzlib v \<and> extends unzlib w v"
proof -
  have "list_all (frag_ok unzlib v) (fragments v)"
    using winvE(7) [OF assms(1)] frag_ok_grow(1) [of unzlib w _ v x] assms(2) by (auto simp: list_all_iff)
  moreover have "fcontent unzlib v i = fcontent unzlib w i" for i
    using fcontent_grow [OF assms(1), of v x "[]" i] assms(2) by (cases "i < length (fragments w)") (auto simp: fcontent_def)
  ultimately show ?thesis
    using assms by (auto simp: winv_def extends_def count_def)
qed

lemma flush_step:
  assumes "winv unzlib w" "zok zlib unzlib" "unat (blockSize w) < 2 ^ 24" "dataPos (flushFragBlock zlib w) < 2 ^ 32"
  shows "winv unzlib (flushFragBlock zlib w) \<and> extends unzlib w (flushFragBlock zlib w) \<and> fragBuf (flushFragBlock zlib w) = [] \<and>
    (\<exists>x. wout (flushFragBlock zlib w) = wout w @ x)"
proof (cases "fragBuf w = []")
  case True
  then show ?thesis using assms(1) by (simp add: flushFragBlock_def)
next
  case False
  obtain bs s where p: "pack_block zlib (fragBuf w) = (bs, s)" by fastforce
  define f where "f = (word_of_nat (dataPos w) :: u64, s)"
  define v where "v = w\<lparr>wout := wout w @ bs, fragments := fragments w @ [f], fragBuf := []\<rparr>"
  have v: "flushFragBlock zlib w = v"
    using False p by (simp add: flushFragBlock_def v_def f_def)
  have "length (fragBuf w) < 2 ^ 24"
    using winvE(9) [OF assms(1)] assms(3) by linarith
  note ok = pack_block_ok [OF assms(2) False this p]
  have "dataPos w \<le> dataPos v"
    by (simp add: v_def dataPos_def)
  then have "dataPos w < 2 ^ 32"
    using assms(4) v by simp
  then have d: "unat (fst f) = dataPos w"
    by (simp add: f_def unat_of_nat)
  have sl: "take (word_len s) (drop (unat (fst f) - 96) (wout v)) = bs"
    using ok(1) d by (simp add: v_def dataPos_def SquashfsHeaderSize_def)
  have fo: "frag_ok unzlib v f"
    using ok d sl by (simp add: frag_ok_def f_def v_def dataPos_def SquashfsHeaderSize_def)
  have "frag_ok unzlib v g" if "g \<in> set (fragments w)" for g
    using winvE(7) [OF assms(1)] frag_ok_grow(1) [of unzlib w g v bs] that by (auto simp: list_all_iff v_def)
  then have "list_all (frag_ok unzlib v) (fragments v)"
    using fo by (auto simp: list_all_iff v_def)
  moreover have "length (fragments v) \<le> length (wout v)"
    using winvE(8) [OF assms(1)] ok(3) by (cases bs) (auto simp: v_def)
  ultimately have "winv unzlib v"
    using assms(1) by (auto simp: winv_def count_def v_def)
  moreover have "prefix (fcontent unzlib w i) (fcontent unzlib v i)" if "i \<le> length (fragments w)" for i
  proof (cases "i < length (fragments w)")
    case True
    then show ?thesis using fcontent_grow [OF assms(1), of v bs "[f]" i] by (simp add: v_def)
  next
    case False
    then have i: "i = length (fragments w)" using that by simp
    have "fcontent unzlib v i = fragBuf w"
      using sl ok(2) by (simp add: fcontent_def i v_def f_def)
    then show ?thesis by (simp add: fcontent_def i)
  qed
  then have "extends unzlib w v"
    by (auto simp: extends_def v_def)
  ultimately show ?thesis
    by (simp add: v) (simp add: v_def)
qed

text \<open>A tail put into a fragment can be found there ever after.\<close>

lemma fragment_step:
  assumes "winv unzlib w" "zok zlib unzlib" "unat (blockSize w) < 2 ^ 24" "length data \<le> unat (blockSize w)"
    and a: "addFragment zlib data w = (idx, off, v)" and "dataPos v < 2 ^ 32"
  shows "winv unzlib v \<and> extends unzlib w v \<and>
    (\<forall>u. extends unzlib v u \<longrightarrow> take (length data) (drop (unat off) (fcontent unzlib u (unat idx))) = data) \<and>
    unat idx \<le> length (fragments v) \<and> idx \<noteq> 0xFFFFFFFF"
proof -
  define w1 where "w1 = (if unat (blockSize w) < length (fragBuf w) + length data \<and> 0 < length (fragBuf w)
                then flushFragBlock zlib w else w)"
  have v: "v = w1\<lparr>fragBuf := fragBuf w1 @ data\<rparr>" "idx = word_of_nat (length (fragments w1))" "off = word_of_nat (length (fragBuf w1))"
    using a by (auto simp: addFragment_def w1_def Let_def)
  have "dataPos w1 < 2 ^ 32"
    using assms(6) by (simp add: v(1) dataPos_def)
  then have s1: "winv unzlib w1 \<and> extends unzlib w w1" and len: "length (fragBuf w1) + length data \<le> unat (blockSize w1)"
    using flush_step [OF assms(1-3)] assms(1,4)
    by (auto simp: w1_def extends_def split: if_splits)
  then have "winv unzlib v"
    by (auto simp: v(1) winv_def count_def)
  moreover have "prefix (fcontent unzlib w1 i) (fcontent unzlib v i)" for i
    by (auto simp: fcontent_def v(1))
  then have "extends unzlib w1 v"
    by (auto simp: extends_def v(1))
  moreover have "blockSize w1 = blockSize w"
    using s1 by (auto simp: extends_def)
  moreover have "length (fragments w1) < 2 ^ 32 - 1" "length (fragBuf w1) < 2 ^ 24"
    using winvE(8) [of unzlib w1] s1 \<open>dataPos w1 < 2 ^ 32\<close> len assms(3) calculation
    by (auto simp: dataPos_def SquashfsHeaderSize_def)
  then have u: "unat idx = length (fragments w1)" "unat off = length (fragBuf w1)"
    by (simp_all add: v unat_of_nat)
  moreover have "idx \<noteq> 0xFFFFFFFF"
  proof
    assume "idx = 0xFFFFFFFF"
    then have "unat idx = 4294967295" by simp
    with u(1) \<open>length (fragments w1) < 2 ^ 32 - 1\<close> show False by simp
  qed
  moreover have "take (length data) (drop (unat off) (fcontent unzlib t (unat idx))) = data" if "extends unzlib v t" for t
  proof -
    have "prefix (fcontent unzlib v (unat idx)) (fcontent unzlib t (unat idx))"
      using that u(1) by (auto simp: extends_def v(1))
    moreover have "fcontent unzlib v (unat idx) = fragBuf w1 @ data"
      by (simp add: fcontent_def u(1)) (simp add: v(1))
    ultimately show ?thesis
      by (auto simp: prefix_def u(2))
  qed
  ultimately show ?thesis
    using s1 extends_trans [of unzlib w w1 v] by (simp add: v(1))
qed

end
