(* ===== verification/SquashfsInodes.thy ===== *)
theory SquashfsInodes
  imports SquashfsLayout
begin

text \<open>
  Adding an inode and filling in the references: what allocating, appending and patching an inode does to the layout of
  \<open>SquashfsLayout\<close>, the invariant \<open>winv\<close> of the writer and its preservation.
\<close>

section \<open>Adding an inode\<close>

definition adds_inode :: "bytes \<Rightarrow> (nat \<times> nat) list \<Rightarrow> Writer \<Rightarrow> Writer \<Rightarrow> bool" where
  "adds_inode data fs w v \<longleftrightarrow>
     inodeRaw v = inodeRaw w @ data \<and> nextInode v = nextInode w + 1 \<and>
     inodePos v = (inodePos w)(nextInode w := length (inodeRaw w)) \<and> dirInodeFixups v = dirInodeFixups w @ fs \<and>
     wout v = wout w \<and> fragments v = fragments w \<and> fragBuf v = fragBuf w \<and> dirRaw v = dirRaw w \<and>
     dirEntryFixups v = dirEntryFixups w \<and> blockSize v = blockSize w"

lemma adds_inodeD:
  assumes "adds_inode data fs w v"
  shows "inodeRaw v = inodeRaw w @ data" "nextInode v = nextInode w + 1"
    "inodePos v = (inodePos w)(nextInode w := length (inodeRaw w))" "dirInodeFixups v = dirInodeFixups w @ fs"
    "wout v = wout w" "fragments v = fragments w" "fragBuf v = fragBuf w" "dirRaw v = dirRaw w"
    "dirEntryFixups v = dirEntryFixups w" "blockSize v = blockSize w"
  using assms by (simp_all add: adds_inode_def)

text \<open>Numbers do not wrap, since an inode takes at least 24 bytes.\<close>

lemma next_no_wrap:
  assumes "winv unzlib w" "length (inodeRaw w) < 2 ^ 32"
  shows "unat (nextInode w + 1) = Suc (unat (nextInode w))" "nextInode w < nextInode w + 1" "unat (nextInode w) < 2 ^ 29"
proof -
  have "24 * (unat (nextInode w) - 1) \<le> length (inodeRaw w)"
    using winvE(2) [OF assms(1)] by (simp add: count_def)
  then show b: "unat (nextInode w) < 2 ^ 29" using assms(2) by simp
  then show s: "unat (nextInode w + 1) = Suc (unat (nextInode w))"
    by (simp add: unat_word_ariths)
  then show "nextInode w < nextInode w + 1" by (simp add: word_less_nat_alt)
qed

lemma efix_cong:
  assumes "list_all (\<lambda>f. P f \<and> 0 < unat (snd f) \<and> snd f < n) fs" "\<And>i. 0 < unat i \<Longrightarrow> i < n \<Longrightarrow> ip' i = ip i"
  shows "map (efix ip') fs = map (efix ip) fs"
  using assms by (auto simp: efix_def list_all_iff)

lemma pdir_inode:
  assumes "winv unzlib w" "adds_inode data fs w v"
  shows "pdir v = pdir w"
proof -
  have "map (efix (inodePos v)) (dirEntryFixups w) = map (efix (inodePos w)) (dirEntryFixups w)"
    by (rule efix_cong [OF winvE(5) [OF assms(1)]]) (auto simp: adds_inodeD(3) [OF assms(2)])
  then show ?thesis
    unfolding pdir_def adds_inodeD(8,9) [OF assms(2)] by (rule arg_cong)
qed

lemma ifixes_from:
  "list_all (\<lambda>f. n \<le> fst f) fs \<Longrightarrow> list_all (\<lambda>p. n \<le> fst p) (ifixes fs)"
  by (induction fs) (auto simp: ifix_def)

lemma ifixes_shift:
  "list_all (\<lambda>f. n \<le> fst f) fs \<Longrightarrow> map (shift n) (ifixes fs) = ifixes (map (\<lambda>f. (fst f - n, snd f)) fs)"
  by (induction fs) (auto simp: ifix_def shift_def)

lemma pinode_inode:
  assumes "winv unzlib w" "adds_inode data fs w v" "list_all (\<lambda>f. length (inodeRaw w) \<le> fst f) fs"
  shows "pinode v = pinode w @ puts (ifixes (map (\<lambda>f. (fst f - length (inodeRaw w), snd f)) fs)) data"
  using puts_grow [OF winv_fits(1) [OF assms(1)] ifixes_from [OF assms(3)]]
  by (simp add: pinode_def adds_inodeD [OF assms(2)] ifixes_shift [OF assms(3)])

lemma fcontent_cong: "wout v = wout w \<Longrightarrow> fragments v = fragments w \<Longrightarrow> fragBuf v = fragBuf w \<Longrightarrow> fcontent unzlib v = fcontent unzlib w"
  by (intro HOL.ext) (simp add: fcontent_def)

lemma frag_ok_cong: "wout v = wout w \<Longrightarrow> frag_ok unzlib v = frag_ok unzlib w"
  by (intro HOL.ext) (simp add: frag_ok_def dataPos_def)

lemma inode_step:
  assumes w: "winv unzlib w" and a: "adds_inode data fs w v" and "24 \<le> length data" and "length (inodeRaw v) < 2 ^ 32"
    and fs: "list_all (\<lambda>f. length (inodeRaw w) \<le> fst f \<and> fst f + 12 \<le> length (inodeRaw v) \<and> snd f < length (dirRaw w)) fs"
  shows "winv unzlib v \<and> extends unzlib w v"
proof -
  note d = adds_inodeD [OF a]
  have "length (inodeRaw w) < 2 ^ 32" using assms(4) by (simp add: d)
  note n = next_no_wrap [OF w this]
  have c: "count v = Suc (count w)"
    using winvE(1) [OF w] n(1) by (simp add: count_def d)
  have lt: "i < nextInode w \<or> i = nextInode w" if "i < nextInode v" for i
    using that n(1) by (auto simp: d word_less_nat_alt less_Suc_eq word_unat_eq_iff)
  have order: "inodePos v i + 24 * (unat j - unat i) \<le> inodePos v j" if ij: "0 < unat i" "i < j" "j < nextInode v" for i j
  proof -
    have "i < nextInode w" using ij lt [of j] by auto
    then show ?thesis
      using lt [OF ij(3)] ij winvE(3,4) [OF w, of i] by (auto simp: d)
  qed
  have room: "inodePos v i + 24 * (unat (nextInode v) - unat i) \<le> length (inodeRaw v)" if i: "0 < unat i" "i < nextInode v" for i
    using lt [OF i(2)]
  proof
    assume "i < nextInode w"
    then show ?thesis
      using winvE(4) [OF w, of i] i assms(3) n(1) by (auto simp: d word_less_nat_alt)
  next
    assume "i = nextInode w"
    then show ?thesis using assms(3) n(1) by (simp add: d)
  qed
  have ef: "list_all (\<lambda>f. fst f + 4 \<le> length (dirRaw v) \<and> 0 < unat (snd f) \<and> snd f < nextInode v) (dirEntryFixups v)"
    using winvE(5) [OF w] n(2) by (auto simp: list_all_iff d intro: order_less_trans)
  have jf: "list_all (\<lambda>f. fst f + 12 \<le> length (inodeRaw v) \<and> snd f < length (dirRaw v)) (dirInodeFixups v)"
    using winvE(6) [OF w] fs by (auto simp: list_all_iff d)
  have "winv unzlib v"
    unfolding winv_def
    using order room ef jf winvE [OF w] c n(1) assms(3) frag_ok_cong [of v w] by (simp add: d)
  moreover have "list_all (\<lambda>f. length (inodeRaw w) \<le> fst f) fs"
    using fs by (auto simp: list_all_iff)
  then have "extends unzlib w v"
    unfolding extends_def using n(2) pdir_inode [OF w a] pinode_inode [OF w a] fcontent_cong [of v w] by (simp add: d)
  ultimately show ?thesis ..
qed

section \<open>Directory listings\<close>

definition entry_of :: "(u32 \<Rightarrow> nat) \<Rightarrow> inodeInfo \<Rightarrow> string \<times> nat \<times> nat \<times> u32" where
  "entry_of ip c = (cname c, blk_of (ip (inodeNum c)), ip (inodeNum c) mod 8192, inodeNum c)"

definition group_start :: "(u32 \<Rightarrow> nat) \<Rightarrow> inodeInfo list \<Rightarrow> u32" where
  "group_start ip g = word_of_nat (blk_of (ip (inodeNum (hd g))))"

definition listing :: "(u32 \<Rightarrow> nat) \<Rightarrow> inodeInfo list list \<Rightarrow> bytes" where
  "listing ip gs = concat (map (\<lambda>g. enc_group ip (group_start ip g) g) gs)"

lemma enc_group_length: "length (enc_group ip s g) = length (enc_group ip 0 g)"
  by (simp add: enc_group_def Let_def)

lemma group_length: "12 \<le> length (enc_group ip s g)"
  by (simp add: enc_group_def Let_def)

lemma put_start:
  "put (length a + 4, le32 s) (a @ enc_group ip 0 g @ r) = a @ enc_group ip s g @ r"
  by (simp add: put_def enc_group_def Let_def)

lemma puts_groups:
  "puts (map (efix ip) (group_fixups ip (length a) gs)) (a @ concat (map (enc_group ip 0) gs)) = a @ listing ip gs"
proof (induction gs arbitrary: a)
  case (Cons g gs)
  have "efix ip (length a + 4, inodeNum (hd g)) = (length a + 4, le32 (group_start ip g))"
    by (simp add: efix_def group_start_def)
  moreover note Cons [of "a @ enc_group ip (group_start ip g) g"]
  ultimately show ?case
    by (simp add: put_start listing_def enc_group_length [of _ "group_start ip g"])
qed (simp add: listing_def)

lemma group_fixups_bound:
  "(p, n) \<in> set (group_fixups ip pos gs) \<Longrightarrow>
     p + 4 \<le> pos + length (concat (map (enc_group ip 0) gs)) \<and> (\<exists>g \<in> set gs. n = inodeNum (hd g))"
proof (induction gs arbitrary: pos)
  case (Cons g gs)
  then show ?case
    using group_length [of ip 0 g] Cons.IH [of "pos + length (enc_group ip 0 g)"] by (auto simp: add.assoc)
qed simp

lemma length_listing: "length (listing ip gs) = length (concat (map (enc_group ip 0) gs))"
  by (induction gs) (simp_all add: listing_def enc_group_length [of _ "group_start _ _"])

text \<open>Reading a listing back.\<close>

definition name_ok :: "string \<Rightarrow> bool" where
  "name_ok n \<longleftrightarrow> 0 < length n \<and> length n \<le> 65536"

definition same_block :: "(u32 \<Rightarrow> nat) \<Rightarrow> inodeInfo \<Rightarrow> inodeInfo \<Rightarrow> bool" where
  "same_block ip c d \<longleftrightarrow> ip (inodeNum c) div 8192 = ip (inodeNum d) div 8192"

lemma same_block_refl [simp]: "same_block ip c c"
  by (simp add: same_block_def)

definition group_ok :: "(u32 \<Rightarrow> nat) \<Rightarrow> inodeInfo list \<Rightarrow> bool" where
  "group_ok ip g \<longleftrightarrow> g \<noteq> [] \<and> length g \<le> 256 \<and> blk_of (ip (inodeNum (hd g))) < 2 ^ 32 \<and>
     (\<forall>c \<in> set g. same_block ip c (hd g) \<and> name_ok (cname c) \<and>
        inodeNum (hd g) \<le> inodeNum c \<and> unat (inodeNum c) - unat (inodeNum (hd g)) < 2 ^ 15)"

lemma bytes_roundtrip [simp]: "string_of_bytes (bytes_of_string s) = s"
proof -
  have "unat (word_of_nat (of_char c) :: u8) = of_char c" for c :: char
    using of_char_of by (simp add: unat_of_nat of_char_mod_256)
  then show ?thesis
    by (simp add: string_of_bytes_def bytes_of_string_def map_idI)
qed

lemma delta_exact:
  assumes "first \<le> num" "unat num - unat first < 2 ^ 15"
  shows "first + scast (ucast (num - first) :: u16) = (num :: u32)"
proof -
  define k where "k = unat num - unat first"
  have "unat (num - first) = k"
    using assms(1) by (simp add: k_def unat_sub word_le_nat_alt)
  then have d: "num - first = word_of_nat k"
    by (metis of_nat_unat ucast_id)
  have "sint (word_of_nat k :: u16) = int k"
    using assms(2) by (simp add: k_def signed_of_nat signed_take_bit_int_eq_self)
  then have "scast (word_of_nat k :: u16) = (word_of_nat k :: u32)"
    by (simp add: scast_eq)
  moreover have "ucast (num - first) = (word_of_nat k :: u16)"
    using assms(2) by (simp add: d unsigned_of_nat take_bit_nat_eq_self k_def)
  ultimately have "first + scast (ucast (num - first) :: u16) = first + (num - first)"
    by (simp add: d)
  then show ?thesis by simp
qed

lemma name_len:
  assumes "name_ok n"
  shows "unat (word_of_nat (length n) - 1 :: u16) + 1 = length n"
proof -
  obtain m where m: "length n = Suc m" "m < 2 ^ 16"
    using assms by (cases n) (auto simp: name_ok_def)
  then show ?thesis by (simp add: unat_of_nat)
qed

lemma parse_group:
  assumes "\<forall>c \<in> set g. name_ok (cname c) \<and> first \<le> inodeNum c \<and> unat (inodeNum c) - unat first < 2 ^ 15"
  shows "parse_entries (length g) start first (concat (map (enc_entry ip first) g) @ r) =
    Some (map (\<lambda>c. (cname c, start, ip (inodeNum c) mod 8192, inodeNum c)) g, r)"
  using assms
proof (induction g)
  case (Cons c g)
  define rest where "rest = concat (map (enc_entry ip first) g) @ r"
  have b: "ip (inodeNum c) mod 8192 < 2 ^ 16" using mod_less_divisor [of 8192 "ip (inodeNum c)"] by simp
  have ip: "unat (word_of_nat (ip (inodeNum c) mod metadataBlockSize) :: u16) = ip (inodeNum c) mod 8192"
    using b by (simp add: metadataBlockSize_def unat_of_nat)
  note n = name_len [of "cname c"] and dl = delta_exact [of first "inodeNum c"]
  have e: "enc_entry ip first c @ rest =
    le16 (word_of_nat (ip (inodeNum c) mod metadataBlockSize)) @ le16 (ucast (inodeNum c - first)) @ le16 (inodeType c) @
     le16 (word_of_nat (length (cname c)) - 1) @ bytes_of_string (cname c) @ rest"
    by (simp add: enc_entry_def)
  have "parse_entries (Suc (length g)) start first (enc_entry ip first c @ rest) =
      map_option (apfst (Cons (cname c, start, ip (inodeNum c) mod 8192, inodeNum c))) (parse_entries (length g) start first rest)"
    using Cons.prems n dl
    by (simp add: e Let_def codec_simps ip slice_def)
  then show ?case
    using Cons by (simp add: rest_def)
qed simp

lemma parse_listing_step:
  "parse_listing (le32 a @ le32 b @ le32 c @ r) =
     (case parse_entries (unat a + 1) (unat b) c r of None \<Rightarrow> None | Some (es, r') \<Rightarrow> map_option ((@) es) (parse_listing r'))"
  by (subst parse_listing.simps) (simp add: codec_simps del: parse_entries.simps)

lemma parse_listing_ok:
  "list_all (group_ok ip) gs \<Longrightarrow> parse_listing (listing ip gs) = Some (map (entry_of ip) (concat gs))"
proof (induction gs)
  case Nil
  then show ?case by (simp add: listing_def parse_listing.simps)
next
  case (Cons g gs)
  define first where "first = inodeNum (hd g)"
  define blk where "blk = blk_of (ip first)"
  have ok: "group_ok ip g" using Cons.prems by simp
  have e: "listing ip (g # gs) =
      le32 (word_of_nat (length g - 1)) @ le32 (word_of_nat blk) @ le32 first @ concat (map (enc_entry ip first) g) @ listing ip gs"
    by (simp add: listing_def enc_group_def Let_def group_start_def first_def blk_def)
  have n: "unat (word_of_nat (length g - 1) :: u32) + 1 = length g"
    using ok by (cases g) (simp_all add: group_ok_def unat_of_nat)
  have b: "unat (word_of_nat blk :: u32) = blk"
    using ok by (simp add: group_ok_def blk_def first_def unat_of_nat)
  have "\<forall>c \<in> set g. name_ok (cname c) \<and> first \<le> inodeNum c \<and> unat (inodeNum c) - unat first < 2 ^ 15"
    using ok by (simp add: group_ok_def first_def)
  note pg = parse_group [OF this, of blk ip "listing ip gs"]
  have m: "map (\<lambda>c. (cname c, blk, ip (inodeNum c) mod 8192, inodeNum c)) g = map (entry_of ip) g"
  proof (rule map_cong [OF refl])
    fix c assume "c \<in> set g"
    then have "same_block ip c (hd g)" using ok by (simp add: group_ok_def)
    then show "(cname c, blk, ip (inodeNum c) mod 8192, inodeNum c) = entry_of ip c"
      by (simp add: entry_of_def blk_def first_def blk_of_def same_block_def)
  qed
  show ?case
    unfolding e parse_listing_step n b pg using Cons by (simp add: m)
qed

lemma take_group_block: "c \<in> set (fst (take_group ip blk n cs)) \<Longrightarrow> ip (inodeNum c) div 8192 = blk"
  by (induction cs arbitrary: n) (auto simp: metadataBlockSize_def split: if_splits)

lemma take_group_max: "length (fst (take_group ip blk n cs)) \<le> n"
proof (induction cs arbitrary: n)
  case (Cons c cs)
  then show ?case by (cases n) auto
qed simp

lemma concat_dir_groups: "concat (dir_groups ip cs) = cs"
  by (induction ip cs rule: dir_groups.induct) (simp_all add: Let_def take_group_append)

lemma dir_groups_shape:
  "g \<in> set (dir_groups ip cs) \<Longrightarrow>
     g \<noteq> [] \<and> length g \<le> 256 \<and> (\<forall>c \<in> set g. same_block ip c (hd g))"
proof (induction ip cs rule: dir_groups.induct)
  case (2 ip c cs)
  define t where "t = take_group ip (ip (inodeNum c) div metadataBlockSize) 255 cs"
  have t: "length (fst t) \<le> 255" "\<And>d. d \<in> set (fst t) \<Longrightarrow> same_block ip d c"
    by (auto simp: t_def take_group_max metadataBlockSize_def same_block_def dest: take_group_block)
  consider "g = c # fst t" | "g \<in> set (dir_groups ip (snd t))"
    using "2.prems" by (auto simp: Let_def t_def)
  then show ?case
  proof cases
    case 1
    then show ?thesis using t by auto
  next
    case 2
    then show ?thesis using "2.IH" [OF refl] by (simp add: t_def)
  qed
qed simp

lemma dir_groups_ordered:
  assumes "g \<in> set (dir_groups ip cs)" "sorted_wrt (<) (map inodeNum cs)" "c \<in> set g"
  shows "inodeNum (hd g) \<le> inodeNum c"
proof -
  obtain a b where "dir_groups ip cs = a @ g # b" using split_list [OF assms(1)] by blast
  then have "cs = concat a @ g @ concat b" using concat_dir_groups [of ip cs] by simp
  then have "sorted_wrt (<) (map inodeNum g)" using assms(2) by (simp add: sorted_wrt_append)
  then show ?thesis using assms(3) by (cases g) auto
qed

text \<open>The inode numbers of a group fit into sixteen bits: its inodes start in one metadata block.\<close>

lemma same_block_delta:
  assumes "winv unzlib w" "0 < unat i" "i \<le> j" "j < nextInode w" "inodePos w j div 8192 = inodePos w i div 8192"
  shows "unat j - unat i < 342"
proof (cases "i = j")
  case False
  then have "inodePos w i + 24 * (unat j - unat i) \<le> inodePos w j"
    using winvE(3) [OF assms(1,2)] assms(3,4) by simp
  moreover have "inodePos w j < inodePos w i + 8192"
    using assms(5) div_mult_mod_eq [of "inodePos w i" 8192] div_mult_mod_eq [of "inodePos w j" 8192]
      mod_less_divisor [of 8192 "inodePos w j"] by linarith
  ultimately show ?thesis by simp
qed simp

definition small :: "Writer \<Rightarrow> bool" where
  "small w \<longleftrightarrow> dataPos w < 2 ^ 32 \<and> blk_of (length (inodeRaw w)) < 2 ^ 32 \<and> blk_of (length (dirRaw w)) < 2 ^ 32 \<and>
     length (inodeRaw w) + 96 < 2 ^ 32 \<and> length (dirRaw w) + 96 < 2 ^ 32"

lemma blk_of_mono: "p \<le> q \<Longrightarrow> blk_of p \<le> blk_of q"
  by (simp add: blk_of_def div_le_mono)

lemma dir_groups_ok:
  assumes "winv unzlib w" "small w" "sorted_wrt (<) (map inodeNum cs)"
    "\<forall>c \<in> set cs. 0 < unat (inodeNum c) \<and> inodeNum c < nextInode w \<and> name_ok (cname c)"
  shows "list_all (group_ok (inodePos w)) (dir_groups (inodePos w) cs)"
  unfolding list_all_iff
proof
  fix g assume g: "g \<in> set (dir_groups (inodePos w) cs)"
  note s = dir_groups_shape [OF g]
  have sub: "set g \<subseteq> set cs" using g concat_dir_groups [of "inodePos w" cs] by (metis UN_I set_concat subsetI)
  then have h: "0 < unat (inodeNum (hd g))" "inodeNum (hd g) < nextInode w" using hd_in_set [of g] s assms(4) by blast+
  have "inodePos w (inodeNum (hd g)) \<le> length (inodeRaw w)"
    using winvE(4) [OF assms(1) h] by simp
  then have "blk_of (inodePos w (inodeNum (hd g))) < 2 ^ 32"
    using assms(2) blk_of_mono by (force simp: small_def)
  moreover have "unat (inodeNum c) - unat (inodeNum (hd g)) < 2 ^ 15" if "c \<in> set g" for c
    using same_block_delta [OF assms(1) h(1) dir_groups_ordered [OF g assms(3) that]] s sub assms(4) that
    by (fastforce simp: same_block_def)
  ultimately show "group_ok (inodePos w) g"
    using s sub assms(4) dir_groups_ordered [OF g assms(3)] by (auto simp: group_ok_def)
qed

section \<open>Adding a listing\<close>

lemma listing_step:
  assumes w: "winv unzlib w" and gs: "gs = dir_groups (inodePos w) cs"
    and cs: "\<forall>c \<in> set cs. 0 < unat (inodeNum c) \<and> inodeNum c < nextInode w"
    and v: "v = w\<lparr>dirRaw := dirRaw w @ concat (map (enc_group (inodePos w) 0) gs),
      dirEntryFixups := dirEntryFixups w @ group_fixups (inodePos w) (length (dirRaw w)) gs\<rparr>"
  shows "winv unzlib v \<and> extends unzlib w v \<and> pdir v = pdir w @ listing (inodePos w) gs"
proof -
  have p: "pdir v = pdir w @ listing (inodePos w) gs"
    using puts_groups [of "inodePos w" "pdir w" gs] winv_lengths(2) [OF w] puts_left [OF winv_fits(2) [OF w]]
    by (simp add: v pdir_def puts_append_list)
  have q: "pinode v = pinode w" by (simp add: v pinode_def)
  have "0 < unat n \<and> n < nextInode w" if pn: "(p, n) \<in> set (group_fixups (inodePos w) (length (dirRaw w)) gs)" for p n
  proof -
    obtain g where g: "g \<in> set gs" "n = inodeNum (hd g)" using group_fixups_bound [OF pn] by blast
    then have "hd g \<in> set g" using dir_groups_shape [of g "inodePos w" cs] gs by simp
    then have "hd g \<in> set cs" using g(1) concat_dir_groups [of "inodePos w" cs] gs by (metis UN_I set_concat)
    then show ?thesis using cs g(2) by simp
  qed
  then have ef: "list_all (\<lambda>f. fst f + 4 \<le> length (dirRaw v) \<and> 0 < unat (snd f) \<and> snd f < nextInode v) (dirEntryFixups v)"
    using winvE(5) [OF w] group_fixups_bound [of _ _ "inodePos w" "length (dirRaw w)" gs]
    by (auto simp: v list_all_iff)
  have jf: "list_all (\<lambda>f. fst f + 12 \<le> length (inodeRaw v) \<and> snd f < length (dirRaw v)) (dirInodeFixups v)"
    using winvE(6) [OF w] by (auto simp: v list_all_iff)
  have "frag_ok unzlib v = frag_ok unzlib w" "fcontent unzlib v = fcontent unzlib w"
    by (rule frag_ok_cong fcontent_cong; simp add: v)+
  then have "winv unzlib v"
    unfolding winv_def using winvE [OF w] ef jf by (simp add: v count_def)
  moreover have "extends unzlib w v"
    unfolding extends_def using p q \<open>fcontent unzlib v = fcontent unzlib w\<close> by (simp add: v)
  ultimately show ?thesis using p by simp
qed

end
