(* ===== verification/SquashfsNodes.thy ===== *)
theory SquashfsNodes
  imports SquashfsInodes
begin

text \<open>
  One step of the walk for each kind of node: the inode that \<open>buildFileInode\<close>, \<open>buildSymlinkInode\<close> and \<open>buildDirInode\<close>
  append is read back by the reader of \<open>SquashfsRead\<close> from every later state of the writer.
\<close>

section \<open>A disk that holds what was written\<close>

definition disk_ok :: "(bytes \<Rightarrow> bytes option) \<Rightarrow> Writer \<Rightarrow> disk \<Rightarrow> bool" where
  "disk_ok unzlib v D \<longleftrightarrow>
     (\<forall>p n. p + n \<le> length (pinode v) \<longrightarrow> inode_read D (blk_of p) (p mod 8192) n = Some (take n (drop p (pinode v)))) \<and>
     (\<forall>p n. p + n \<le> length (pdir v) \<longrightarrow> dir_read D (blk_of p) (p mod 8192) n = Some (take n (drop p (pdir v)))) \<and>
     (\<forall>p n. p + n \<le> length (wout v) \<longrightarrow> data_read D (96 + p) n = Some (take n (drop p (wout v)))) \<and>
     (\<forall>i < length (fragments v). frag_at D i = Some (fragments v ! i)) \<and>
     unz D = unzlib \<and> blk_size D = unat (blockSize v)"

text \<open>A later state of the writer with all fragments written, and a disk with it.\<close>

definition final :: "(bytes \<Rightarrow> bytes option) \<Rightarrow> Writer \<Rightarrow> Writer \<Rightarrow> disk \<Rightarrow> bool" where
  "final unzlib w v D \<longleftrightarrow> extends unzlib w v \<and> winv unzlib v \<and> disk_ok unzlib v D \<and> fragBuf v = []"

lemma final_earlier: "final unzlib w v D \<Longrightarrow> extends unzlib u w \<Longrightarrow> final unzlib u v D"
  using extends_trans by (auto simp: final_def)

text \<open>Inode \<open>i\<close> will be read as \<open>rn\<close>.\<close>

definition reads :: "(bytes \<Rightarrow> bytes option) \<Rightarrow> Writer \<Rightarrow> u32 \<Rightarrow> rnode \<Rightarrow> bool" where
  "reads unzlib w i rn \<longleftrightarrow> 0 < unat i \<and> i < nextInode w \<and>
     (\<forall>v D fuel. final unzlib w v D \<longrightarrow> size rn < fuel \<longrightarrow>
        read_node D fuel (blk_of (inodePos w i)) (inodePos w i mod 8192) = Some (i, rn))"

lemma reads_later:
  assumes "reads unzlib w i rn" "extends unzlib w v"
  shows "reads unzlib v i rn"
proof -
  have "inodePos v i = inodePos w i" "i < nextInode v"
    using assms by (auto simp: reads_def extends_def intro: order_less_le_trans)
  then show ?thesis
    using assms(1) final_earlier [OF _ assms(2)] by (simp add: reads_def) blast
qed

lemma prefix_part: "prefix a b \<Longrightarrow> p + n \<le> length a \<Longrightarrow> take n (drop p b) = take n (drop p a)"
  by (auto simp: prefix_def)

lemma final_reads:
  assumes "final unzlib w v D"
  shows "p + n \<le> length (pinode w) \<Longrightarrow> inode_read D (blk_of p) (p mod 8192) n = Some (take n (drop p (pinode w)))"
    "p + n \<le> length (pdir w) \<Longrightarrow> dir_read D (blk_of p) (p mod 8192) n = Some (take n (drop p (pdir w)))"
    "p + n \<le> length (wout w) \<Longrightarrow> data_read D (96 + p) n = Some (take n (drop p (wout w)))"
    "unz D = unzlib" "blk_size D = unat (blockSize w)"
  using assms prefix_part prefix_length_le [of "pinode w" "pinode v"] prefix_length_le [of "pdir w" "pdir v"]
    prefix_length_le [of "wout w" "wout v"]
  by (auto simp: final_def extends_def disk_ok_def)

text \<open>A fragment that holds something is on the disk.\<close>

lemma final_frag:
  assumes "final unzlib w v D" "fcontent unzlib v i \<noteq> []"
  shows "read_frag D i = Some (fcontent unzlib v i)"
proof -
  have i: "i < length (fragments v)" using assms by (auto simp: fcontent_def final_def split: if_splits)
  obtain start s where f: "fragments v ! i = (start, s)" by fastforce
  have "winv unzlib v" using assms(1) by (simp add: final_def)
  then have ok: "frag_ok unzlib v (start, s)"
    using winvE(7) [of unzlib v] i f by (auto simp: list_all_length)
  then have u: "96 + (unat start - 96) = unat start" "unat start - 96 + word_len s \<le> length (wout v)"
    by (auto simp: frag_ok_def dataPos_def SquashfsHeaderSize_def)
  have "final unzlib v v D" using assms(1) by (simp add: final_def)
  from final_reads(3) [OF this, of "unat start - 96" "word_len s"]
  have "data_read D (unat start) (word_len s) = Some (take (word_len s) (drop (unat start - 96) (wout v)))"
    using u by simp
  moreover have "frag_at D i = Some (start, s)" "unz D = unzlib"
    using assms(1) i f by (auto simp: final_def disk_ok_def)
  ultimately show ?thesis
    using ok i f by (auto simp: read_frag_def fcontent_def frag_ok_def)
qed

section \<open>Symbolic links\<close>

definition reads_new :: "(bytes \<Rightarrow> bytes option) \<Rightarrow> Writer \<Rightarrow> Writer \<Rightarrow> u32 \<Rightarrow> rnode \<Rightarrow> bool" where
  "reads_new unzlib w v i rn \<longleftrightarrow> winv unzlib v \<and> extends unzlib w v \<and> reads unzlib v i rn \<and> nextInode w \<le> i"

lemma lookupID_fields:
  assumes "lookupID x w = (i, v)"
  shows "\<exists>t m. v = w\<lparr>idTable := t, idMap := m\<rparr>"
proof (cases "idMap w x")
  case None
  then show ?thesis using assms by (auto simp: lookupID_def Let_def)
next
  case (Some a)
  then have "v = w\<lparr>idTable := idTable w, idMap := idMap w\<rparr>" using assms by (simp add: lookupID_def)
  then show ?thesis by blast
qed

text \<open>What is done for every inode.\<close>

lemma new_inode:
  assumes "allocInode w = (num, w1)" "lookupID 0 w1 = (uid, w2)" "lookupID 0 w2 = (gid, w3)"
  shows "num = nextInode w" "inodeRaw w3 = inodeRaw w"
    "adds_inode data [] w (appendInode num data w3)"
    "adds_inode data [f] w ((appendInode num data w3)\<lparr>dirInodeFixups := dirInodeFixups (appendInode num data w3) @ [f]\<rparr>)"
  using assms lookupID_fields [OF assms(2)] lookupID_fields [OF assms(3)]
  by (auto simp: allocInode_def appendInode_def adds_inode_def)

lemma new_pos:
  assumes "winv unzlib w" "adds_inode data fs w v" "list_all (\<lambda>f. length (inodeRaw w) \<le> fst f) fs" "winv unzlib v"
    "final unzlib v u D" "n \<le> length data"
  shows "inode_read D (blk_of (inodePos v (nextInode w))) (inodePos v (nextInode w) mod 8192) n =
    Some (take n (puts (ifixes (map (\<lambda>f. (fst f - length (inodeRaw w), snd f)) fs)) data))"
proof -
  note p = pinode_inode [OF assms(1-3)]
  have "inodePos v (nextInode w) = length (pinode w)"
    using adds_inodeD(3) [OF assms(2)] winv_lengths(1) [OF assms(1)] by simp
  moreover have "length (pinode v) = length (pinode w) + length data"
    using winv_lengths(1) [OF assms(1)] winv_lengths(1) [OF assms(4)] adds_inodeD(1) [OF assms(2)] by simp
  ultimately show ?thesis
    using final_reads(1) [OF assms(5), of "length (pinode w)" n] assms(6) p by simp
qed

lemma link_inode_adds:
  assumes "buildSymlinkInode t target w = (i, v)"
  shows "i = nextInode w" "\<exists>uid gid. adds_inode (link_inode uid gid t i target) [] w v"
proof -
  obtain num w1 uid w2 gid w3 where s: "allocInode w = (num, w1)" "lookupID 0 w1 = (uid, w2)" "lookupID 0 w2 = (gid, w3)"
    by (metis prod.exhaust)
  have "i = num" "v = appendInode num (link_inode uid gid t num target) w3"
    using assms s by (auto simp: buildSymlinkInode_def)
  then show "i = nextInode w" "\<exists>uid gid. adds_inode (link_inode uid gid t i target) [] w v"
    using new_inode(1,3) [OF s] by auto
qed

lemma symlink_step:
  assumes "winv unzlib w" "buildSymlinkInode t target w = (i, v)" "small v"
  shows "reads_new unzlib w v i (RLink (word_of_int t) target)"
proof -
  note n = link_inode_adds(1) [OF assms(2)]
  obtain uid gid where a: "adds_inode (link_inode uid gid t i target) [] w v" using link_inode_adds(2) [OF assms(2)] by blast
  define data where "data = link_inode uid gid t i target"
  note a = a [folded data_def]
  have len: "length data = 24 + length target" by (simp add: data_def link_inode_def inode_head_def)
  have st: "winv unzlib v \<and> extends unzlib w v"
    using inode_step [OF assms(1) a] assms(3) len by (simp add: small_def)
  have t: "unat (word_of_nat (length target) :: u32) = length target"
    using adds_inodeD(1) [OF a] assms(3) len by (simp add: small_def unat_of_nat)
  have "read_node D fuel (blk_of (inodePos v i)) (inodePos v i mod 8192) = Some (i, RLink (word_of_int t) target)"
    if "final unzlib v u D" "0 < fuel" for u D fuel
  proof -
    have rd: "inode_read D (blk_of (inodePos v i)) (inodePos v i mod 8192) n = Some (take n data)" if "n \<le> length data" for n
      using new_pos [OF assms(1) a _ _ \<open>final unzlib v u D\<close> that] st n by simp
    have "read_inode D (blk_of (inodePos v i)) (inodePos v i mod 8192) = Some (i, ILink (word_of_int t) target)"
      unfolding read_inode_def
      by (simp add: rd len Let_def) (simp add: data_def link_inode_def inode_head_def sq_types codec_simps t rd [unfolded data_def link_inode_def inode_head_def sq_types])
    then show ?thesis using that(2) by (cases fuel) auto
  qed
  moreover have "0 < unat i" "i < nextInode v"
    using winvE(1) [OF assms(1)] next_no_wrap(2) [OF assms(1)] adds_inodeD(1,2) [OF a] n assms(3) by (auto simp: small_def)
  ultimately show ?thesis
    using st n by (auto simp: reads_new_def reads_def)
qed

section \<open>Regular files\<close>

lemma blocks_step:
  assumes "write_blocks zlib bs data w = (sizes, tail, v)" "winv unzlib w" "zok zlib unzlib" "0 < bs" "bs < 2 ^ 24"
  shows "winv unzlib v \<and> extends unzlib w v \<and> length sizes = length data div bs \<and> tail = drop (length data div bs * bs) data \<and>
    (\<forall>u D. final unzlib v u D \<longrightarrow> read_blocks D (dataPos w) sizes = Some (take (length data div bs * bs) data))"
  using assms
proof (induction zlib bs data w arbitrary: sizes tail v rule: write_blocks.induct)
  case (1 zlib bs data w)
  show ?case
  proof (cases "length data < bs")
    case True
    then show ?thesis using "1.prems" by (simp add: write_blocks.simps)
  next
    case False
    obtain b s where p: "pack_block zlib (take bs data) = (b, s)" by fastforce
    define w1 where "w1 = w\<lparr>wout := wout w @ b\<rparr>"
    obtain ss where ss: "write_blocks zlib bs (drop bs data) w1 = (ss, tail, v)" "sizes = s # ss"
      using "1.prems"(1,4) False p
      by (subst (asm) write_blocks.simps) (auto simp: writeDataBlock_def w1_def apfst_def map_prod_def split: prod.splits)
    have step: "winv unzlib w1 \<and> extends unzlib w w1"
      using data_step [OF "1.prems"(2)] by (simp add: w1_def)
    have wd: "writeDataBlock zlib (take bs data) w = (s, w1)"
      using p by (simp add: writeDataBlock_def w1_def)
    have ih: "winv unzlib v" "extends unzlib w1 v" "length ss = length (drop bs data) div bs"
      "tail = drop (length (drop bs data) div bs * bs) (drop bs data)"
      "\<And>u D. final unzlib v u D \<Longrightarrow> read_blocks D (dataPos w1) ss = Some (take (length (drop bs data) div bs * bs) (drop bs data))"
      using "1.IH" [OF _ wd [symmetric] ss(1) _ "1.prems"(3-5)] False "1.prems"(4) step by auto
    have k: "length data div bs = Suc (length (drop bs data) div bs)"
      using False "1.prems"(4) by (simp add: le_div_geq)
    have "take bs data \<noteq> []" "length (take bs data) < 2 ^ 24"
      using False "1.prems"(4,5) by auto
    note ok = pack_block_ok [OF "1.prems"(3) this p]
    have "read_blocks D (dataPos w) sizes = Some (take (length data div bs * bs) data)" if f: "final unzlib v u D" for u D
    proof -
      have f1: "final unzlib w1 u D" using final_earlier [OF f ih(2)] .
      have "data_read D (dataPos w) (word_len s) = Some b"
        using final_reads(3) [OF f1, of "length (wout w)" "length b"] ok(1) by (simp add: w1_def dataPos_def SquashfsHeaderSize_def)
      moreover have "dataPos w + word_len s = dataPos w1"
        using ok(1) by (simp add: w1_def dataPos_def)
      ultimately show ?thesis
        using ih(5) [OF f] ok(2,4) final_reads(4) [OF f1] k
        by (simp add: ss(2) take_add)
    qed
    then show ?thesis
      using ih(1,3,4) extends_trans [of unzlib w w1 v] step ih(2) k
      by (simp add: ss(2) add.commute)
  qed
qed

lemma file_data:
  assumes "writeFileDataStreamed zlib sz content w = Inr ((start, sizes, frag, off), v)" "winv unzlib w" "zok zlib unzlib"
    "unat (blockSize w) < 2 ^ 24" "dataPos v < 2 ^ 32"
  shows "winv unzlib v \<and> extends unzlib w v \<and> 0 < unat (blockSize w) \<and>
    length sizes = sz div unat (blockSize w) \<and> (frag = 0xFFFFFFFF \<longrightarrow> sz mod unat (blockSize w) = 0) \<and>
    (\<forall>u D. final unzlib v u D \<longrightarrow> read_file D (unat start) frag (unat off) sz sizes = Some (take sz content))"
proof -
  define bs where "bs = unat (blockSize w)"
  have b: "0 < bs" "sz \<le> length content"
    using assms(1) by (auto simp: writeFileDataStreamed_def bs_def unat_gt_0 split: if_splits)
  obtain tail w1 where wb: "write_blocks zlib bs (take sz content) w = (sizes, tail, w1)"
    using assms(1) by (auto simp: writeFileDataStreamed_def bs_def split: if_splits prod.splits)
  have len: "length (take sz content) = sz" using b(2) by simp
  from blocks_step [OF wb assms(2,3) b(1)] assms(4)
  have s1: "winv unzlib w1" "extends unzlib w w1" "length sizes = sz div bs" "tail = drop (sz div bs * bs) (take sz content)"
    and rb: "\<And>u D. final unzlib w1 u D \<Longrightarrow> read_blocks D (dataPos w) sizes = Some (take (sz div bs * bs) (take sz content))"
    using b(2) by (auto simp: bs_def len)
  have tl: "length tail = sz mod bs"
    using len by (simp add: s1(4) minus_div_mult_eq_mod)
  have bs1: "blockSize w1 = blockSize w" using s1(2) by (simp add: extends_def)
  show ?thesis
  proof (cases "tail = []")
    case True
    then have v: "start = word_of_nat (dataPos w)" "frag = 0xFFFFFFFF" "v = w1"
      using assms(1) wb b by (auto simp: writeFileDataStreamed_def bs_def split: if_splits)
    have "dataPos w \<le> dataPos v" using s1(2) by (simp add: v extends_def dataPos_def prefix_length_le)
    then have st: "unat start = dataPos w" using assms(5) by (simp add: v(1) unat_of_nat)
    have "sz div bs * bs = sz" using True tl by (simp add: mod_0_imp_dvd)
    then have "read_file D (unat start) frag (unat off) sz sizes = Some (take sz content)" if "final unzlib v u D" for u D
      using rb [of u D] that len by (simp add: read_file_def st v(2,3))
    then show ?thesis using s1 b(1) True tl by (auto simp: v bs_def)
  next
    case False
    then have v: "start = word_of_nat (dataPos w)" "addFragment zlib tail w1 = (frag, off, v)"
      using assms(1) wb b by (auto simp: writeFileDataStreamed_def bs_def split: if_splits prod.splits)
    have "length tail \<le> unat (blockSize w1)" "unat (blockSize w1) < 2 ^ 24"
      using tl b(1) assms(4) by (simp_all add: bs1 bs_def less_imp_le)
    note fr = fragment_step [OF s1(1) assms(3) this(2,1) v(2) assms(5)]
    have e: "extends unzlib w1 v" "extends unzlib w v" using fr extends_trans [OF s1(2)] by auto
    have "dataPos w \<le> dataPos v" using e(2) by (simp add: extends_def dataPos_def prefix_length_le)
    then have st: "unat start = dataPos w" using assms(5) by (simp add: v(1) unat_of_nat)
    have "read_file D (unat start) frag (unat off) sz sizes = Some (take sz content)" if f: "final unzlib v u D" for u D
    proof -
      have tk: "take (length tail) (drop (unat off) (fcontent unzlib u (unat frag))) = tail"
        using fr f by (simp add: final_def)
      then have "fcontent unzlib u (unat frag) \<noteq> []" using False by auto
      note rf = final_frag [OF f this]
      have "blk_size D = bs" using final_reads(5) [OF final_earlier [OF f e(2)]] by (simp add: bs_def)
      moreover have "take (sz div bs * bs) (take sz content) @ tail = take sz content"
        unfolding s1(4) by (rule append_take_drop_id)
      ultimately show ?thesis
        using rb [OF final_earlier [OF f e(1)]] rf tk fr len by (simp add: read_file_def st tl)
    qed
    then show ?thesis using fr e(2) b(1) s1(3) by (simp add: bs_def)
  qed
qed

lemma get_words_le32: "get_words (length ws) (concat (map le32 ws) @ r) = ws"
  by (induction ws) (simp_all add: codec_simps)

lemma length_words [simp]: "length (concat (map le32 ws)) = 4 * length ws"
  by (induction ws) simp_all

lemma new_number:
  assumes "winv unzlib w" "adds_inode data fs w v" "small v"
  shows "0 < unat (nextInode w)" "nextInode w < nextInode v"
  using winvE(1) [OF assms(1)] next_no_wrap(2) [OF assms(1)] adds_inodeD(1,2) [OF assms(2)] assms(3) by (auto simp: small_def)

lemma file_inode_adds:
  assumes "buildFileInode zlib m t sz content w = Inr (i, v)"
  shows "\<exists>start sizes frag off w0 uid gid. writeFileDataStreamed zlib sz content w = Inr ((start, sizes, frag, off), w0) \<and>
    i = nextInode w0 \<and> adds_inode (file_inode (unixMode m) uid gid t i start frag off (word_of_nat sz) sizes) [] w0 v"
proof -
  obtain start sizes frag off w0 where fd: "writeFileDataStreamed zlib sz content w = Inr ((start, sizes, frag, off), w0)"
    using assms by (cases "writeFileDataStreamed zlib sz content w") (auto simp: buildFileInode_def)
  obtain num w1 uid w2 gid w3 where s: "allocInode w0 = (num, w1)" "lookupID 0 w1 = (uid, w2)" "lookupID 0 w2 = (gid, w3)"
    by (metis prod.exhaust)
  have "i = num" "v = appendInode num (file_inode (unixMode m) uid gid t num start frag off (word_of_nat sz) sizes) w3"
    using assms s fd by (auto simp: buildFileInode_def)
  then show ?thesis using fd new_inode(1,3) [OF s] by auto
qed

lemma file_step:
  assumes "winv unzlib w" "zok zlib unzlib" "unat (blockSize w) < 2 ^ 24" "sz < 2 ^ 32"
    "buildFileInode zlib m t sz content w = Inr (i, v)" "small v"
  shows "reads_new unzlib w v i (RFile (unixMode m) (word_of_int t) (take sz content))"
proof -
  obtain start sizes frag off w0 uid gid where fd: "writeFileDataStreamed zlib sz content w = Inr ((start, sizes, frag, off), w0)"
    and n: "i = nextInode w0"
    and a: "adds_inode (file_inode (unixMode m) uid gid t i start frag off (word_of_nat sz) sizes) [] w0 v"
    using file_inode_adds [OF assms(5)] by blast
  define data where "data = file_inode (unixMode m) uid gid t i start frag off (word_of_nat sz) sizes"
  note a = a [folded data_def]
  have len: "length data = 32 + 4 * length sizes" by (simp add: data_def file_inode_def inode_head_def)
  have "dataPos w0 < 2 ^ 32" using assms(6) adds_inodeD(5) [OF a] by (simp add: small_def dataPos_def)
  note fs = file_data [OF fd assms(1-3) this]
  define bs where "bs = unat (blockSize w)"
  have nb: "(if frag = 0xFFFFFFFF then (sz + bs - 1) div bs else sz div bs) = length sizes"
  proof (cases "frag = 0xFFFFFFFF")
    case True
    then have "sz mod bs = 0" "0 < bs" using fs by (auto simp: bs_def)
    then have k: "sz + bs - 1 = (bs - 1) + sz div bs * bs" by auto
    have "(sz + bs - 1) div bs = sz div bs" unfolding k using div_mult_self1 [of bs "bs - 1" "sz div bs"] \<open>0 < bs\<close> by simp
    then show ?thesis using fs True by (simp add: bs_def)
  next
    case False
    then show ?thesis using fs by (simp add: bs_def)
  qed
  have st: "winv unzlib v \<and> extends unzlib w0 v"
    using inode_step [OF conjunct1 [OF fs] a] assms(6) len by (simp add: small_def)
  have e: "extends unzlib w v" using extends_trans [of unzlib w w0 v] fs st by simp
  have t: "unat (word_of_nat sz :: u32) = sz" using assms(4) by (simp add: unat_of_nat)
  have "read_node D fuel (blk_of (inodePos v i)) (inodePos v i mod 8192) =
      Some (i, RFile (unixMode m) (word_of_int t) (take sz content))"
    if f: "final unzlib v u D" "0 < fuel" for u D fuel
  proof -
    have rd: "inode_read D (blk_of (inodePos v i)) (inodePos v i mod 8192) k = Some (take k data)" if "k \<le> length data" for k
      using new_pos [OF conjunct1 [OF fs] a _ _ \<open>final unzlib v u D\<close> that] st n by simp
    have d: "data = le16 2 @ le16 (unixMode m) @ le16 uid @ le16 gid @ le32 (word_of_int t) @ le32 i @ le32 start @ le32 frag @
        le32 off @ le32 (word_of_nat sz) @ concat (map le32 sizes)"
      by (simp add: data_def file_inode_def inode_head_def sq_types)
    have "blk_size D = bs" using final_reads(5) [OF final_earlier [OF f(1) e]] by (simp add: bs_def)
    moreover have "inode_read D (blk_of (inodePos v i)) (inodePos v i mod 8192) 16 = Some (take 16 data)"
      "inode_read D (blk_of (inodePos v i)) (inodePos v i mod 8192) 32 = Some (take 32 data)"
      "inode_read D (blk_of (inodePos v i)) (inodePos v i mod 8192) (32 + 4 * length sizes) = Some data"
      by (simp_all add: rd len)
    ultimately have "read_inode D (blk_of (inodePos v i)) (inodePos v i mod 8192) =
        Some (i, IFile (unixMode m) (word_of_int t) (unat start) frag (unat off) sz sizes)"
      using get_words_le32 [of sizes "[]"] nb
      by (cases "frag = 0xFFFFFFFF") (simp_all add: read_inode_def d codec_simps t)
    moreover have "read_file D (unat start) frag (unat off) sz sizes = Some (take sz content)"
      using fs final_earlier [OF f(1)] st by blast
    ultimately show ?thesis using f(2) by (cases fuel) auto
  qed
  moreover have "nextInode w \<le> i" using fs n by (simp add: extends_def)
  ultimately show ?thesis
    using st e n new_number [OF conjunct1 [OF fs] a assms(6)] by (auto simp: reads_new_def reads_def)
qed

section \<open>Directories\<close>

definition child_ok :: "(bytes \<Rightarrow> bytes option) \<Rightarrow> Writer \<Rightarrow> inodeInfo \<Rightarrow> string \<times> rnode \<Rightarrow> bool" where
  "child_ok unzlib w c x \<longleftrightarrow> cname c = fst x \<and> name_ok (fst x) \<and> reads unzlib w (inodeNum c) (snd x)"

lemma those_Some: "list_all2 (\<lambda>a b. f a = Some b) xs ys \<Longrightarrow> those (map f xs) = Some ys"
  by (induction xs ys rule: list_all2_induct) simp_all

lemma kid_size: "x \<in> set xs \<Longrightarrow> size (snd x) < size_list (size_prod (\<lambda>_. 0) size) xs"
  using size_list_estimation' [of x xs "Suc (size (snd x))" "size_prod (\<lambda>_. 0) size"] by (cases x) auto

lemma read_dir_node:
  assumes "list_all2 (child_ok unzlib w) cs xs" "final unzlib w u D" "size (RDir mode mtime xs) < fuel"
    "read_inode D blk off = Some (num, IDir mode mtime dblk doff sz)"
    "(if sz \<le> 3 then Some [] else dir_read D dblk doff (sz - 3)) = Some b"
    "parse_listing b = Some (map (entry_of (inodePos w)) cs)"
  shows "read_node D fuel blk off = Some (num, RDir mode mtime xs)"
proof -
  obtain f where f: "fuel = Suc f" using assms(3) by (cases fuel) auto
  define rd where "rd = (\<lambda>(name :: string, cblk, coff, cnum). case read_node D f cblk coff of
      Some (n, r) \<Rightarrow> if n = cnum then Some (name, r) else None | None \<Rightarrow> None)"
  have kid: "rd (entry_of (inodePos w) c) = Some x" if "child_ok unzlib w c x" "x \<in> set xs" for c x
  proof -
    have "size (snd x) < f" using kid_size [OF that(2)] assms(3) f by simp
    then show ?thesis
      using that(1) assms(2) by (cases x) (auto simp: child_ok_def reads_def rd_def entry_of_def)
  qed
  have "list_all2 (\<lambda>c x. rd (entry_of (inodePos w) c) = Some x) cs xs"
    using assms(1) by (rule list.rel_mono_strong) (simp add: kid)
  then have "those (map rd (map (entry_of (inodePos w)) cs)) = Some xs"
    by (intro those_Some) (simp add: list_all2_map1)
  then show ?thesis
    using assms(4-6) by (simp add: f rd_def)
qed

text \<open>The inode of a directory in one of its two forms, and where it refers to the listing.\<close>

definition dir_data :: "u16 \<Rightarrow> u16 \<Rightarrow> u16 \<Rightarrow> int \<Rightarrow> u32 \<Rightarrow> u32 \<Rightarrow> u32 \<Rightarrow> u32 \<Rightarrow> u16 \<Rightarrow> bytes" where
  "dir_data mode uid gid t num links sz blk off =
     (if sz + 3 \<le> 0xFFFF then dir_inode mode uid gid t num links (ucast (sz + 3)) blk off
      else ldir_inode mode uid gid t num links (sz + 3) blk off)"

definition dir_field :: "u32 \<Rightarrow> nat" where
  "dir_field sz = (if sz + 3 \<le> 0xFFFF then 16 else 24)"

lemma length_dir_data: "length (dir_data mode uid gid t num links sz blk off) = dir_field sz + 16"
  by (simp add: dir_data_def dir_field_def dir_inode_def ldir_inode_def inode_head_def)

lemma dir_inode_adds:
  assumes "buildDirInode m t cs pos sz w = (i, v)"
  shows "i = nextInode w" "\<exists>uid gid links. adds_inode (dir_data (unixMode m) uid gid t i links sz 0 0)
    (if cs = [] then [] else [(length (inodeRaw w) + dir_field sz, pos)]) w v"
proof -
  obtain num w1 uid w2 gid w3 where s: "allocInode w = (num, w1)" "lookupID 0 w1 = (uid, w2)" "lookupID 0 w2 = (gid, w3)"
    by (metis prod.exhaust)
  note n = new_inode [OF s]
  show i: "i = nextInode w"
    using assms s n(1) by (auto simp: buildDirInode_def Let_def split: if_splits)
  have "adds_inode (dir_data (unixMode m) uid gid t i (word_of_nat (length cs + 2)) sz 0 0)
    (if cs = [] then [] else [(length (inodeRaw w) + dir_field sz, pos)]) w v"
    using assms s n by (auto simp: buildDirInode_def Let_def dir_data_def dir_field_def i split: if_splits)
  then show "\<exists>uid gid links. adds_inode (dir_data (unixMode m) uid gid t i links sz 0 0)
      (if cs = [] then [] else [(length (inodeRaw w) + dir_field sz, pos)]) w v" by blast
qed

lemma patched_dir:
  "puts (ifix (dir_field sz, pos)) (dir_data mode uid gid t num links sz 0 0) =
     dir_data mode uid gid t num links sz (word_of_nat (blk_of pos)) (word_of_nat (pos mod 8192))"
  by (simp add: ifix_def put_def dir_data_def dir_field_def dir_inode_def ldir_inode_def inode_head_def)

lemma read_dir_data:
  assumes rd: "\<And>n. n \<le> dir_field sz + 16 \<Longrightarrow> inode_read D blk off n = Some (take n (dir_data mode uid gid t num links sz dblk doff))"
    and "unat sz + 96 < 2 ^ 32"
  shows "read_inode D blk off = Some (num, IDir mode (word_of_int t) (unat dblk) (unat doff) (unat sz + 3))"
proof -
  have szu: "unat (sz + 3) = unat sz + 3" using assms(2) by (simp add: unat_word_ariths)
  show ?thesis
  proof (cases "sz + 3 \<le> 0xFFFF")
    case True
    then have "unat (ucast (sz + 3) :: u16) = unat sz + 3"
      using szu by (simp add: word_le_nat_alt unsigned_ucast_eq take_bit_eq_mod)
    moreover have "inode_read D blk off 16 = Some (take 16 (dir_inode mode uid gid t num links (ucast (sz + 3)) dblk doff))"
      "inode_read D blk off 32 = Some (take 32 (dir_inode mode uid gid t num links (ucast (sz + 3)) dblk doff))"
      using rd [of 16] rd [of 32] True by (simp_all add: dir_data_def dir_field_def)
    ultimately show ?thesis
      by (simp add: read_inode_def dir_inode_def inode_head_def sq_types codec_simps)
  next
    case False
    have "inode_read D blk off 16 = Some (take 16 (ldir_inode mode uid gid t num links (sz + 3) dblk doff))"
      "inode_read D blk off 40 = Some (take 40 (ldir_inode mode uid gid t num links (sz + 3) dblk doff))"
      using rd [of 16] rd [of 40] False by (simp_all add: dir_data_def dir_field_def)
    with szu show ?thesis
      by (simp add: read_inode_def ldir_inode_def inode_head_def sq_types codec_simps)
  qed
qed

lemma sort_key_sorted: "sorted (map f xs) \<Longrightarrow> sort_key f xs = xs"
  by (induction xs) (auto simp: insort_is_Cons)

text \<open>The listing of the children, if any.\<close>

lemma entries_step:
  assumes w: "winv unzlib w" and e: "buildDirEntries cs w = (pos, sz, v)" and "small v" and ne: "cs \<noteq> []"
    and cs: "list_all2 (child_ok unzlib w) cs xs" "sorted (map cname cs)" "sorted_wrt (<) (map inodeNum cs)"
  shows "winv unzlib v \<and> extends unzlib w v \<and> pos < length (dirRaw v) \<and> 0 < unat sz \<and> unat sz + 96 < 2 ^ 32 \<and>
    (\<exists>b. parse_listing b = Some (map (entry_of (inodePos w)) cs) \<and>
      (\<forall>u D. final unzlib v u D \<longrightarrow> dir_read D (blk_of pos) (pos mod 8192) (unat sz) = Some b))"
proof -
  define gs where "gs = dir_groups (inodePos w) cs"
  define buf where "buf = concat (map (enc_group (inodePos w) 0) gs)"
  have v: "v = w\<lparr>dirRaw := dirRaw w @ buf, dirEntryFixups := dirEntryFixups w @ group_fixups (inodePos w) (length (dirRaw w)) gs\<rparr>"
    "pos = length (dirRaw w)" "sz = word_of_nat (length buf)"
    using e ne sort_key_sorted [OF cs(2)] by (auto simp: buildDirEntries_def Let_def gs_def buf_def)
  have c: "\<forall>c \<in> set cs. 0 < unat (inodeNum c) \<and> inodeNum c < nextInode w \<and> name_ok (cname c)"
    using cs(1) by (auto simp: child_ok_def reads_def list_all2_conv_all_nth in_set_conv_nth)
  have st: "winv unzlib v" "extends unzlib w v" "pdir v = pdir w @ listing (inodePos w) gs"
    using listing_step [OF w gs_def _ v(1) [unfolded buf_def]] c by auto
  have "small w" using \<open>small v\<close> blk_of_mono [of "length (dirRaw w)" "length (dirRaw v)"] by (auto simp: small_def v(1) dataPos_def)
  note gok = dir_groups_ok [OF w this cs(3) c, folded gs_def]
  have "gs \<noteq> []" using ne concat_dir_groups [of "inodePos w" cs] by (auto simp: gs_def)
  then have bl: "0 < length buf" using group_length [of "inodePos w" 0 "hd gs"] by (cases gs) (auto simp: buf_def)
  have sz: "unat sz = length buf" "length buf + 96 < 2 ^ 32" using \<open>small v\<close> by (simp_all add: v small_def unat_of_nat)
  have ll: "length (listing (inodePos w) gs) = length buf" by (simp add: length_listing buf_def)
  have "dir_read D (blk_of pos) (pos mod 8192) (unat sz) = Some (listing (inodePos w) gs)" if "final unzlib v u D" for u D
    using final_reads(2) [OF that, of pos "length buf"] winv_lengths(2) [OF w] ll by (simp add: st(3) sz v(2))
  then show ?thesis
    using st sz bl parse_listing_ok [OF gok] concat_dir_groups [of "inodePos w" cs] by (auto simp: v(1,2) gs_def)
qed

text \<open>The references in a directory inode fit their fields.\<close>

lemma dir_ref:
  assumes "pos < length (dirRaw w)" "small w"
  shows "unat (word_of_nat (blk_of pos) :: u32) = blk_of pos" "unat (word_of_nat (pos mod 8192) :: u16) = pos mod 8192"
proof -
  have "pos mod 8192 < 2 ^ 16" using mod_less_divisor [of 8192 pos] by simp
  moreover have "blk_of pos < 2 ^ 32"
    using assms blk_of_mono [of pos "length (dirRaw w)"] by (simp add: small_def)
  ultimately show "unat (word_of_nat (blk_of pos) :: u32) = blk_of pos" "unat (word_of_nat (pos mod 8192) :: u16) = pos mod 8192"
    by (simp_all add: unat_of_nat)
qed

lemma dir_step:
  assumes w: "winv unzlib w" and e: "finish_dir m t cs w = (i, v)" and "small v"
    and cs: "list_all2 (child_ok unzlib w) cs xs" "sorted (map cname cs)" "sorted_wrt (<) (map inodeNum cs)"
  shows "reads_new unzlib w v i (RDir (unixMode m) (word_of_int t) xs)"
proof -
  obtain pos sz w0 where be: "buildDirEntries cs w = (pos, sz, w0)" by (metis prod.exhaust)
  then have bi: "buildDirInode m t cs pos sz w0 = (i, v)" using e by (simp add: finish_dir_def)
  define fs where "fs = (if cs = [] then [] else [(length (inodeRaw w0) + dir_field sz, pos)])"
  obtain uid gid links where a: "adds_inode (dir_data (unixMode m) uid gid t i links sz 0 0) fs w0 v"
    using dir_inode_adds(2) [OF bi] unfolding fs_def by blast
  note n = dir_inode_adds(1) [OF bi] and len = length_dir_data [of "unixMode m" uid gid t i links sz 0 0]
  have s0: "small w0" "length (inodeRaw v) < 2 ^ 32"
    using \<open>small v\<close> adds_inodeD [OF a] blk_of_mono [of "length (inodeRaw w0)" "length (inodeRaw v)"]
    by (auto simp: small_def dataPos_def)
  note es = entries_step [OF w be s0(1) _ cs]
  have st0: "winv unzlib w0" "extends unzlib w w0" "cs \<noteq> [] \<longrightarrow> pos < length (dirRaw w0)" "unat sz + 96 < 2 ^ 32"
    using es w be by (cases "cs = []"; auto simp: buildDirEntries_def)+
  have st: "winv unzlib v" "extends unzlib w0 v"
    using inode_step [OF st0(1) a _ s0(2)] st0(3) len adds_inodeD(1) [OF a] by (auto simp: fs_def dir_field_def)
  have ev: "extends unzlib w v" using extends_trans [OF st0(2) st(2)] .
  define B where "B = (if cs = [] then 0 else word_of_nat (blk_of pos) :: u32)"
  define Q where "Q = (if cs = [] then 0 else word_of_nat (pos mod 8192) :: u16)"
  have "read_node D fuel (blk_of (inodePos v i)) (inodePos v i mod 8192) = Some (i, RDir (unixMode m) (word_of_int t) xs)"
    if f: "final unzlib v u D" "size (RDir (unixMode m) (word_of_int t) xs) < fuel" for u D fuel
  proof -
    have "puts (ifixes (map (\<lambda>f. (fst f - length (inodeRaw w0), snd f)) fs)) (dir_data (unixMode m) uid gid t i links sz 0 0) =
        dir_data (unixMode m) uid gid t i links sz B Q"
      using patched_dir by (simp add: fs_def B_def Q_def)
    then have ri: "read_inode D (blk_of (inodePos v i)) (inodePos v i mod 8192) =
        Some (i, IDir (unixMode m) (word_of_int t) (unat B) (unat Q) (unat sz + 3))"
      using new_pos [OF st0(1) a _ st(1) f(1)] len by (intro read_dir_data [OF _ st0(4)]) (simp add: n fs_def)
    note node = read_dir_node [OF cs(1) final_earlier [OF f(1) ev] f(2) ri]
    show ?thesis
    proof (cases "cs = []")
      case True
      then have "sz = 0" using be by (simp add: buildDirEntries_def)
      then show ?thesis using node True by (simp add: parse_listing.simps)
    next
      case False
      then obtain b where "parse_listing b = Some (map (entry_of (inodePos w)) cs)"
        "dir_read D (blk_of pos) (pos mod 8192) (unat sz) = Some b" "0 < unat sz"
        using es final_earlier [OF f(1) st(2)] by blast
      then show ?thesis
        using node dir_ref [OF _ s0(1)] st0(3) False by (simp add: B_def Q_def)
    qed
  qed
  moreover have "nextInode w \<le> i" using st0(2) n by (simp add: extends_def)
  ultimately show ?thesis
    using st ev n new_number [OF st0(1) a \<open>small v\<close>] by (auto simp: reads_new_def reads_def)
qed

end
