(* ===== verification/SquashfsWalk.thy ===== *)
theory SquashfsWalk
  imports SquashfsNodes
begin

text \<open>
  The recursive walk of \<open>processDir\<close>: it lists the accepted children of every directory in ascending order and
  writes for each of them an inode that reads back as the node.
\<close>

section \<open>Growth\<close>

definition grows :: "Writer \<Rightarrow> Writer \<Rightarrow> bool" where
  "grows w v \<longleftrightarrow> length (wout w) \<le> length (wout v) \<and> length (inodeRaw w) \<le> length (inodeRaw v) \<and>
     length (dirRaw w) \<le> length (dirRaw v) \<and> blockSize v = blockSize w"

lemma grows_self [simp]: "grows w w"
  by (simp add: grows_def)

lemma grows_trans [trans]: "grows u v \<Longrightarrow> grows v w \<Longrightarrow> grows u w"
  by (auto simp: grows_def)

lemma small_earlier: "small v \<Longrightarrow> grows w v \<Longrightarrow> small w"
  using blk_of_mono [of "length (dirRaw w)" "length (dirRaw v)"] blk_of_mono [of "length (inodeRaw w)" "length (inodeRaw v)"]
  by (auto simp: small_def grows_def dataPos_def)

lemma grows_adds: "adds_inode data fs w v \<Longrightarrow> grows w v"
  by (simp add: adds_inode_def grows_def)

lemma grows_flush: "grows w (flushFragBlock zlib w)"
  by (auto simp: flushFragBlock_def grows_def split: prod.split)

lemma grows_fragment: "addFragment zlib data w = (idx, off, v) \<Longrightarrow> grows w v"
  using grows_flush [of w zlib] by (auto simp: addFragment_def Let_def grows_def)

lemma grows_blocks: "write_blocks zlib bs data w = (sizes, tail, v) \<Longrightarrow> grows w v"
proof (induction zlib bs data w arbitrary: sizes tail v rule: write_blocks.induct)
  case (1 zlib bs data w)
  obtain s w1 where wd: "writeDataBlock zlib (take bs data) w = (s, w1)" by fastforce
  then have g: "grows w w1" by (auto simp: writeDataBlock_def grows_def split: prod.splits)
  show ?case
  proof (cases "bs = 0 \<or> length data < bs")
    case True
    then show ?thesis using "1.prems" by (auto simp: write_blocks.simps)
  next
    case False
    then obtain ss where "write_blocks zlib bs (drop bs data) w1 = (ss, tail, v)"
      using "1.prems" wd by (subst (asm) write_blocks.simps) (auto simp: apfst_def map_prod_def split: prod.splits)
    from "1.IH" [OF False wd [symmetric] this] show ?thesis using grows_trans [OF g] by blast
  qed
qed

lemma grows_file_data: "writeFileDataStreamed zlib sz content w = Inr (r, v) \<Longrightarrow> grows w v"
  by (auto simp: writeFileDataStreamed_def split: if_splits prod.splits
      intro: grows_blocks grows_trans [OF grows_blocks grows_fragment])

lemma grows_file: "buildFileInode zlib m t sz content w = Inr (i, v) \<Longrightarrow> grows w v"
  by (auto dest!: file_inode_adds intro: grows_trans [OF grows_file_data grows_adds])

lemma grows_symlink: "buildSymlinkInode t target w = (i, v) \<Longrightarrow> grows w v"
  using link_inode_adds(2) grows_adds by blast

lemma finish_dir_adds:
  assumes "finish_dir m t cs w = (i, v)"
  shows "\<exists>w0 data fs. grows w w0 \<and> adds_inode data fs w0 v \<and> i = nextInode w0"
proof -
  obtain pos sz w0 where be: "buildDirEntries cs w = (pos, sz, w0)" by (metis prod.exhaust)
  then have bi: "buildDirInode m t cs pos sz w0 = (i, v)" using assms by (simp add: finish_dir_def)
  have "grows w w0" using be by (auto simp: buildDirEntries_def Let_def grows_def split: if_splits)
  then show ?thesis using dir_inode_adds [OF bi] by blast
qed

lemma grows_dir: "finish_dir m t cs w = (i, v) \<Longrightarrow> grows w v"
  using finish_dir_adds grows_adds grows_trans by blast

lemma dir_number: "finish_dir m t cs w = (i, v) \<Longrightarrow> nextInode v - 1 = i"
  using finish_dir_adds by (fastforce simp: adds_inode_def)

section \<open>The walk as a relation\<close>

text \<open>A successful run over the names \<open>ns\<close> of a directory with entries \<open>kids\<close>: the inodes that it makes, and the part
  of the tree that they stand for.\<close>

inductive walk :: "(bytes \<Rightarrow> bytes) \<Rightarrow> (string \<times> node) list \<Rightarrow> string list \<Rightarrow> Writer \<Rightarrow> inodeInfo list \<Rightarrow> (string \<times> rnode) list
    \<Rightarrow> Writer \<Rightarrow> bool" for zlib where
  walk_nil: "walk zlib kids [] w [] [] w"
| walk_skip: "walk zlib kids ns w cs xs v \<Longrightarrow> walk zlib kids (n # ns) w cs xs v"
| walk_link: "map_of kids n = Some (Symlink t target) \<Longrightarrow> buildSymlinkInode t target w = (i, w1) \<Longrightarrow>
     walk zlib kids ns w1 cs xs v \<Longrightarrow>
     walk zlib kids (n # ns) w (\<lparr>inodeNum = i, inodeType = sqfsTypeSymlink, cname = n\<rparr> # cs) ((n, RLink (word_of_int t) target) # xs) v"
| walk_file: "map_of kids n = Some (File m t sz content) \<Longrightarrow> buildFileInode zlib m t sz content w = Inr (i, w1) \<Longrightarrow>
     walk zlib kids ns w1 cs xs v \<Longrightarrow>
     walk zlib kids (n # ns) w (\<lparr>inodeNum = i, inodeType = sqfsTypeFile, cname = n\<rparr> # cs)
       ((n, RFile (unixMode m) (word_of_int t) (take sz content)) # xs) v"
| walk_dir: "map_of kids n = Some (Dir m t ks) \<Longrightarrow> walk zlib ks (sort names) w ds ys w1 \<Longrightarrow> finish_dir m t ds w1 = (i, w2) \<Longrightarrow>
     walk zlib kids ns w2 cs xs v \<Longrightarrow>
     walk zlib kids (n # ns) w (\<lparr>inodeNum = i, inodeType = sqfsTypeDir, cname = n\<rparr> # cs)
       ((n, RDir (unixMode m) (word_of_int t) ys) # xs) v"

lemma rbind_Inr: "rbind m f = Inr y \<Longrightarrow> \<exists>x. m = Inr x \<and> f x = Inr y"
  by (cases m) auto

lemma process_children_walk:
  "process_children zlib listDir filt path kids ns acc w = Inr (cs, v) \<Longrightarrow>
     \<exists>new. cs = acc @ new \<and> walk zlib kids ns w new (listed listDir filt path kids ns) v"
proof (induction zlib listDir filt path kids ns acc w arbitrary: cs v rule: process_children.induct)
  case (1 zlib listDir filt path kids acc w)
  then show ?case by (auto intro: walk_nil)
next
  case (2 zlib listDir filt path kids n ns acc w)
  show ?case
  proof (cases "map_of kids n")
    case None
    then show ?thesis using "2.IH"(1) "2.prems" by (auto intro: walk_skip)
  next
    case (Some c)
    show ?thesis
    proof (cases "included filt (path @ [n]) c")
      case False
      then show ?thesis
        using Some "2.prems" "2.IH"(2) [OF Some _ _] by (auto intro: walk_skip split: if_splits)
    next
      case inc: True
      note pr = "2.prems" [unfolded process_children.simps(2) Some option.case, simplified inc, simplified]
      show ?thesis
      proof (cases c)
        case (Dir m t ks)
        then obtain names ds w1 where d: "listDir (path @ [n]) = Some names"
          "process_children zlib listDir filt (path @ [n]) ks (sort names) [] w = Inr (ds, w1)"
          using pr by (auto split: option.splits dest!: rbind_Inr)
        obtain i w2 where f: "finish_dir m t ds w1 = (i, w2)" by fastforce
        have "walk zlib ks (sort names) w ds (listed listDir filt (path @ [n]) ks (sort names)) w1"
          using "2.IH"(3) [OF Some _ _ Dir d(1) d(2)] inc Dir by auto
        moreover have "\<exists>new. cs = (acc @ [\<lparr>inodeNum = i, inodeType = sqfsTypeDir, cname = n\<rparr>]) @ new \<and>
            walk zlib kids ns w2 new (listed listDir filt path kids ns) v"
          using "2.IH"(4) [OF Some _ _ Dir d(1) d(2) refl f [symmetric]] inc Dir pr d f by auto
        ultimately show ?thesis
          using Some inc Dir d f by (auto intro: walk_dir)
      next
        case (File m t sz content)
        then obtain i w1 where f: "buildFileInode zlib m t sz content w = Inr (i, w1)"
          using pr by (auto dest!: rbind_Inr)
        have "\<exists>new. cs = (acc @ [\<lparr>inodeNum = i, inodeType = sqfsTypeFile, cname = n\<rparr>]) @ new \<and>
            walk zlib kids ns w1 new (listed listDir filt path kids ns) v"
          using "2.IH"(5) [OF Some _ _ File f refl] inc File pr f by auto
        then show ?thesis
          using Some inc File f by (auto intro: walk_file)
      next
        case (Symlink t target)
        obtain i w1 where f: "buildSymlinkInode t target w = (i, w1)" by fastforce
        have "\<exists>new. cs = (acc @ [\<lparr>inodeNum = i, inodeType = sqfsTypeSymlink, cname = n\<rparr>]) @ new \<and>
            walk zlib kids ns w1 new (listed listDir filt path kids ns) v"
          using "2.IH"(6) [OF Some _ _ Symlink f [symmetric]] inc Symlink pr f by auto
        then show ?thesis
          using Some inc Symlink f by (auto intro: walk_link)
      next
        case Special
        then show ?thesis
          using "2.IH"(7) [OF Some _ _ Special] inc pr Some by (auto intro: walk_skip)
      next
        case Unreadable
        then show ?thesis using pr by simp
      qed
    qed
  qed
qed

lemma grows_walk: "walk zlib kids ns w cs xs v \<Longrightarrow> grows w v"
proof (induction rule: walk.induct)
  case (walk_dir kids n m t ks names w ds ys w1 i w2 ns cs xs v)
  then show ?case using grows_dir grows_trans by meson
qed (use grows_symlink grows_file grows_trans in \<open>auto simp: grows_def; fastforce\<close>)+

text \<open>Names come out in the order in which they went in.\<close>

lemma walk_names: "walk zlib kids ns w cs xs v \<Longrightarrow> cname ` set cs \<subseteq> set ns"
  by (induction rule: walk.induct) auto

lemma walk_sorted: "walk zlib kids ns w cs xs v \<Longrightarrow> sorted ns \<Longrightarrow> sorted (map cname cs)"
  by (induction rule: walk.induct) (auto dest: walk_names)

text \<open>What a tree must satisfy to be represented: the sizes of files and the lengths of names fit their fields.\<close>

fun node_ok :: "node \<Rightarrow> bool" where
  "node_ok (Dir m t kids) = list_all (\<lambda>(n, c). name_ok n \<and> node_ok c) kids"
| "node_ok (File m t sz content) = (sz < 2 ^ 32)"
| "node_ok c = True"

lemma node_ok_lookup:
  "list_all (\<lambda>(n, c). name_ok n \<and> node_ok c) kids \<Longrightarrow> map_of kids n = Some c \<Longrightarrow> name_ok n \<and> node_ok c"
  by (auto simp: list_all_iff dest: map_of_SomeD)

lemma child_ok_later: "list_all2 (child_ok unzlib w) cs xs \<Longrightarrow> extends unzlib w v \<Longrightarrow> list_all2 (child_ok unzlib v) cs xs"
  by (erule list.rel_mono_strong) (auto simp: child_ok_def intro: reads_later)

text \<open>The next child.\<close>

lemma walk_cons:
  assumes "reads_new unzlib w w1 i rn" "name_ok n"
    and "winv unzlib v \<and> extends unzlib w1 v \<and> list_all2 (child_ok unzlib v) cs xs \<and> sorted_wrt (<) (map inodeNum cs) \<and>
      (\<forall>c \<in> set cs. nextInode w1 \<le> inodeNum c)"
  shows "winv unzlib v \<and> extends unzlib w v \<and>
    list_all2 (child_ok unzlib v) (\<lparr>inodeNum = i, inodeType = ty, cname = n\<rparr> # cs) ((n, rn) # xs) \<and>
    sorted_wrt (<) (map inodeNum (\<lparr>inodeNum = i, inodeType = ty, cname = n\<rparr> # cs)) \<and>
    (\<forall>c \<in> set (\<lparr>inodeNum = i, inodeType = ty, cname = n\<rparr> # cs). nextInode w \<le> inodeNum c)"
proof -
  have r: "extends unzlib w w1" "reads unzlib w1 i rn" "nextInode w \<le> i" "i < nextInode w1"
    using assms(1) by (auto simp: reads_new_def reads_def)
  have "nextInode w \<le> nextInode w1" using r(1) by (simp add: extends_def)
  then show ?thesis
    using assms(2,3) r extends_trans [OF r(1)] reads_later [OF r(2)] by (auto simp: child_ok_def)
qed

lemma walk_reads:
  assumes "walk zlib kids ns w cs xs v" "zok zlib unzlib" "winv unzlib w" "small v" "unat (blockSize w) < 2 ^ 24"
    "list_all (\<lambda>(n, c). name_ok n \<and> node_ok c) kids"
  shows "winv unzlib v \<and> extends unzlib w v \<and> list_all2 (child_ok unzlib v) cs xs \<and> sorted_wrt (<) (map inodeNum cs) \<and>
    (\<forall>c \<in> set cs. nextInode w \<le> inodeNum c)"
  using assms(1,3-)
proof (induction rule: walk.induct)
  case (walk_link kids n t target w i w1 ns cs xs v)
  have g: "grows w w1" "grows w1 v" using walk_link.hyps grows_symlink grows_walk by auto
  have r: "reads_new unzlib w w1 i (RLink (word_of_int t) target)"
    using symlink_step [OF walk_link.prems(1) walk_link.hyps(2) small_earlier [OF walk_link.prems(2) g(2)]] .
  show ?case
    by (rule walk_cons [OF r])
      (use walk_link r g node_ok_lookup [OF walk_link.prems(4) walk_link.hyps(1)] in \<open>auto simp: reads_new_def grows_def\<close>)
next
  case (walk_file kids n m t sz content w i w1 ns cs xs v)
  have g: "grows w w1" "grows w1 v" using walk_file.hyps grows_file grows_walk by auto
  note ok = node_ok_lookup [OF walk_file.prems(4) walk_file.hyps(1)]
  have r: "reads_new unzlib w w1 i (RFile (unixMode m) (word_of_int t) (take sz content))"
    using file_step [OF walk_file.prems(1) assms(2) walk_file.prems(3) _ walk_file.hyps(2) small_earlier [OF walk_file.prems(2) g(2)]]
      ok by simp
  show ?case
    by (rule walk_cons [OF r]) (use walk_file r g ok in \<open>auto simp: reads_new_def grows_def\<close>)
next
  case (walk_dir kids n m t ks names w ds ys w1 i w2 ns cs xs v)
  have g: "grows w w1" "grows w1 w2" "grows w2 v" using walk_dir.hyps grows_walk grows_dir by auto
  have s: "small w2" "small w1"
    using small_earlier [OF walk_dir.prems(2) g(3)] small_earlier [OF _ g(2)] by auto
  note ok = node_ok_lookup [OF walk_dir.prems(4) walk_dir.hyps(1)]
  have ih: "winv unzlib w1 \<and> extends unzlib w w1 \<and> list_all2 (child_ok unzlib w1) ds ys \<and> sorted_wrt (<) (map inodeNum ds)"
    using walk_dir.IH(1) [OF walk_dir.prems(1) s(2) walk_dir.prems(3)] ok by auto
  have "sorted (map cname ds)" using walk_sorted [OF walk_dir.hyps(2)] by simp
  then have "reads_new unzlib w1 w2 i (RDir (unixMode m) (word_of_int t) ys)"
    using ih dir_step [OF _ walk_dir.hyps(3) s(1)] by blast
  then have r: "reads_new unzlib w w2 i (RDir (unixMode m) (word_of_int t) ys)"
    using ih extends_trans [of unzlib w w1 w2] by (auto simp: reads_new_def extends_def intro: order_trans)
  show ?case
    by (rule walk_cons [OF r]) (use walk_dir r g ok in \<open>auto simp: reads_new_def grows_def\<close>)
qed auto

end
