(* ===== verification/SquashfsTables.thy ===== *)
theory SquashfsTables
  imports SquashfsInodes
begin

text \<open>
  The tables at the end of an image: metadata blocks, the fragment and the ID table with their pointers, and the places at which
  the superblock finds them.
\<close>

section \<open>Metadata blocks\<close>

lemma meta_word:
  assumes "n \<le> 8192"
  shows "unat ((word_of_nat n :: u16) AND 0x7FFF) = n" "unat ((word_of_nat n OR metadataUncompBit) AND 0x7FFF) = n"
    "\<not> bit (word_of_nat n :: u16) 15" "bit (word_of_nat n OR metadataUncompBit) 15"
proof -
  have m: "(0x7FFF :: u16) = mask 15" by (simp add: mask_eq_exp_minus_1)
  have u: "unat (word_of_nat n :: u16) = n" using assms by (simp add: unat_of_nat)
  have "unat (take_bit 15 (word_of_nat n :: u16)) = take_bit 15 n"
    by (subst unsigned_take_bit_eq) (simp_all add: u)
  also have "take_bit 15 n = n" using assms by (simp add: take_bit_nat_eq_self_iff)
  finally have t: "unat (take_bit 15 (word_of_nat n :: u16)) = n" .
  then show "unat ((word_of_nat n :: u16) AND 0x7FFF) = n" by (simp add: m flip: take_bit_eq_mask)
  have "take_bit 15 metadataUncompBit = 0" by (simp add: metadataUncompBit_def take_bit_eq_mod)
  then show "unat ((word_of_nat n OR metadataUncompBit) AND 0x7FFF) = n"
    using t by (simp add: m take_bit_or flip: take_bit_eq_mask)
  have "(word_of_nat n :: u16) = take_bit 15 (word_of_nat n)" using t u by (metis word_unat_eq_iff)
  then show "\<not> bit (word_of_nat n :: u16) 15" by (metis bit_take_bit_iff order_less_irrefl)
  have "bit (2 ^ 15 :: u16) 15" by (simp add: bit_exp_iff)
  then show "bit (word_of_nat n OR metadataUncompBit) 15" by (simp add: metadataUncompBit_def bit_or_iff)
qed

lemma meta_block_pack:
  assumes "zok zlib unzlib" "meta_pack zlib fixedSize chunk = (h, b)" "chunk \<noteq> []" "length chunk \<le> 8192"
  shows "meta_block unzlib (a @ le16 h @ b @ r) (length a) = Some (chunk, length a + 2 + length b)"
proof -
  have z: "unzlib (zlib chunk) = Some chunk" using assms(1,3) by (simp add: zok_def)
  note m = meta_word [OF assms(4)]
  have "unat (h AND 0x7FFF) = length b" "(if bit h 15 then Some b else unzlib b) = Some chunk"
    using assms(2,4) z m meta_word(1,3) [of "length (zlib chunk)"]
    by (auto simp: meta_pack_def Let_def split: if_splits)
  then show ?thesis
    by (simp add: meta_block_def codec_simps slice_def)
qed

lemma pieces_simps: "pieces [] = []" "raw \<noteq> [] \<Longrightarrow> pieces raw = take 8192 raw # pieces (drop 8192 raw)"
  by (subst pieces.simps, simp add: metadataBlockSize_def)+

lemma length_pieces: "length (pieces raw) = (length raw + 8191) div 8192"
proof (induction raw rule: pieces.induct)
  case (1 raw)
  show ?case
  proof (cases "raw = []")
    case False
    then have ih: "length (pieces (drop 8192 raw)) = (length (drop 8192 raw) + 8191) div 8192"
      using 1 by (simp add: metadataBlockSize_def)
    have "Suc ((length raw - 8192 + 8191) div 8192) = (length raw + 8191) div 8192"
    proof (cases "length raw < 8192")
      case True
      have "(length raw + 8191) div 8192 = 1"
        by (rule div_nat_eqI) (use True False in \<open>cases raw, auto\<close>)
      then show ?thesis using True by simp
    qed simp
    then show ?thesis using False ih by (simp add: pieces_simps)
  qed (simp add: pieces_simps)
qed

lemma piece_nth: "k < length (pieces raw) \<Longrightarrow> pieces raw ! k = take 8192 (drop (8192 * k) raw) \<and> 8192 * k < length raw"
proof (induction raw arbitrary: k rule: pieces.induct)
  case (1 raw)
  have ne: "raw \<noteq> []" using "1.prems" by (auto simp: pieces_simps)
  show ?case
  proof (cases k)
    case (Suc j)
    then show ?thesis
      using "1.IH" [of j] "1.prems" ne by (auto simp: pieces_simps metadataBlockSize_def add.commute)
  qed (use ne in \<open>simp add: pieces_simps\<close>)
qed

section \<open>Tables in fixed blocks\<close>

definition table :: "bytes \<Rightarrow> bytes" where
  "table raw = concat (map (\<lambda>b. le16 (word_of_nat (length b) OR metadataUncompBit) @ b) (pieces raw))"

lemma meta_pack_fixed: "meta_pack zlib True b = (word_of_nat (length b) OR metadataUncompBit, b)"
  by (simp add: meta_pack_def Let_def)

lemma meta_bytes_pack: "meta_bytes (map fst ts) (map snd ts) = concat (map (\<lambda>(h, b). le16 h @ b) ts)"
  by (simp add: meta_bytes_def zip_map_fst_snd)

lemma table_fixed:
  "meta_bytes (headers (compressMetadataBlocks zlib raw True)) (blocks (compressMetadataBlocks zlib raw True)) = table raw"
proof -
  have "meta_bytes (map fst (map (meta_pack zlib True) (pieces raw))) (map snd (map (meta_pack zlib True) (pieces raw))) = table raw"
    unfolding meta_bytes_pack by (simp add: table_def meta_pack_fixed o_def)
  then show ?thesis by (simp add: compressMetadataBlocks_def Let_def)
qed

lemma table_simps: "table [] = []" "raw \<noteq> [] \<Longrightarrow> table raw =
    le16 (word_of_nat (length (take 8192 raw)) OR metadataUncompBit) @ take 8192 raw @ table (drop 8192 raw)"
  by (simp_all add: table_def pieces_simps)

lemma table_split:
  assumes "8192 * k \<le> length raw"
  shows "table raw = table (take (8192 * k) raw) @ table (drop (8192 * k) raw) \<and> length (table (take (8192 * k) raw)) = 8194 * k"
  using assms
proof (induction k arbitrary: raw)
  case (Suc k)
  have ne: "raw \<noteq> []" "8192 \<le> length raw" using Suc.prems by auto
  have "take (8192 * Suc k) raw = take 8192 raw @ take (8192 * k) (drop 8192 raw)"
    by (simp add: take_add)
  moreover have "8192 * k \<le> length (drop 8192 raw)" using Suc.prems by simp
  note ih = Suc.IH [OF this]
  ultimately show ?case
    using ne by (simp add: table_simps min_def add.commute)
qed (simp add: table_simps)

lemma table_stream:
  assumes "n \<le> length raw" "n \<le> fuel"
  shows "meta_stream unzlib (a @ table raw @ r) fuel (length a) n = Some (take n raw)"
  using assms
proof (induction raw arbitrary: a n fuel rule: pieces.induct)
  case (1 raw)
  show ?case
  proof (cases "n = 0")
    case False
    define d where "d = take 8192 raw"
    define h where "h = (word_of_nat (length d) OR metadataUncompBit :: u16)"
    have ne: "raw \<noteq> []" "d \<noteq> []" using False "1.prems" by (auto simp: d_def)
    obtain f where f: "fuel = Suc f" using False "1.prems" by (cases fuel) auto
    have t: "a @ table raw @ r = a @ le16 h @ d @ (table (drop 8192 raw) @ r)" using ne by (simp add: table_simps h_def d_def)
    have m: "unat (h AND 0x7FFF) = length d" "bit h 15" using meta_word(2,4) [of "length d"] by (simp_all add: h_def d_def)
    have mb: "meta_block unzlib (a @ table raw @ r) (length a) = Some (d, length a + 2 + length d)"
      unfolding t using m by (simp add: meta_block_def codec_simps slice_def)
    show ?thesis
    proof (cases "n \<le> length d")
      case True
      then have "take n d = take n raw" by (simp add: d_def)
      then show ?thesis using True False mb by (subst meta_stream.simps) (simp add: f)
    next
      case big: False
      then have l: "length d = 8192" using "1.prems" by (auto simp: d_def)
      have "meta_stream unzlib ((a @ le16 h @ d) @ table (drop 8192 raw) @ r) f (length (a @ le16 h @ d)) (n - 8192) =
          Some (take (n - 8192) (drop 8192 raw))"
        using "1.IH" [of "n - 8192" f "a @ le16 h @ d"] ne "1.prems" f by (simp add: metadataBlockSize_def)
      then have "meta_stream unzlib (a @ table raw @ r) f (length a + 2 + length d) (n - length d) = Some (take (n - 8192) (drop 8192 raw))"
        using t l by (simp add: add.commute)
      then show ?thesis
        using False mb big l by (subst meta_stream.simps) (simp add: f d_def take_add [symmetric])
    qed
  qed (simp add: meta_stream.simps)
qed

lemma table_read:
  assumes "p + n \<le> length raw"
  shows "meta_read unzlib (a @ table raw @ r) (length a) (blk_of p) (p mod 8192) n = Some (take n (drop p raw))"
proof -
  define k where "k = p div 8192"
  have p: "p = 8192 * k + p mod 8192" by (simp add: k_def)
  have "8192 * k \<le> length raw" using assms by (simp add: k_def)
  note t = table_split [OF this]
  have "meta_stream unzlib ((a @ table (take (8192 * k) raw)) @ table (drop (8192 * k) raw) @ r) (p mod 8192 + n)
      (length (a @ table (take (8192 * k) raw))) (p mod 8192 + n) = Some (take (p mod 8192 + n) (drop (8192 * k) raw))"
    by (rule table_stream) (use assms p in auto)
  then have "meta_stream unzlib (a @ table raw @ r) (p mod 8192 + n) (length a + blk_of p) (p mod 8192 + n) =
      Some (take (p mod 8192 + n) (drop (8192 * k) raw))"
    using t by (simp add: blk_of_def k_def mult.commute)
  then show ?thesis
    using p by (simp add: meta_read_def drop_take add.commute)
qed

section \<open>Offsets of fixed blocks\<close>

lemma block_offsets_shift: "block_offsets (a + b) bs = map ((+) a) (block_offsets b bs)"
  by (induction bs arbitrary: b) (simp_all add: add.assoc flip: add_Suc_right)

lemma length_block_offsets [simp]: "length (block_offsets a bs) = length bs"
  by (induction bs arbitrary: a) simp_all

lemma block_offsets_nth: "k < length bs \<Longrightarrow> block_offsets a bs ! k = a + length (concat (map (\<lambda>b. [0, 0 :: u8] @ b) (take k bs)))"
proof (induction bs arbitrary: a k)
  case (Cons b bs)
  then show ?case by (cases k) auto
qed simp

lemma offsets_fixed:
  assumes "p < length raw"
  shows "p div 8192 < length (offsets (compressMetadataBlocks zlib raw True))"
    "offsets (compressMetadataBlocks zlib raw True) ! (p div 8192) = blk_of p"
proof -
  have o: "offsets (compressMetadataBlocks zlib raw True) = block_offsets 0 (pieces raw)"
    by (simp add: compressMetadataBlocks_def Let_def meta_pack_fixed o_def)
  show l: "p div 8192 < length (offsets (compressMetadataBlocks zlib raw True))"
    using assms by (simp add: o length_pieces)
  have "length (pieces raw ! j) = 8192" if "j < p div 8192" for j
  proof -
    have "j < length (pieces raw)" using that l o by simp
    moreover have "8192 * j + 8192 \<le> length raw" using that assms by simp
    ultimately show ?thesis using piece_nth [of j raw] by simp
  qed
  then have "map (\<lambda>b. length ([0, 0 :: u8] @ b)) (take (p div 8192) (pieces raw)) = replicate (p div 8192) 8194"
    using l o by (intro nth_equalityI) auto
  then have "length (concat (map (\<lambda>b. [0, 0 :: u8] @ b) (take (p div 8192) (pieces raw)))) = 8194 * (p div 8192)"
    by (simp add: length_concat o_def sum_list_replicate)
  then show "offsets (compressMetadataBlocks zlib raw True) ! (p div 8192) = blk_of p"
    using l o block_offsets_nth [of "p div 8192" "pieces raw" 0] by (simp add: blk_of_def)
qed

section \<open>Filling in the references\<close>

lemma patch_entries_puts:
  assumes "list_all (\<lambda>f. fst f + 4 \<le> length buf \<and> ip (snd f) div 8192 < length offs \<and> offs ! (ip (snd f) div 8192) = blk_of (ip (snd f))) fs"
  shows "patch_entries offs ip fs buf = Some (puts (map (efix ip) fs) buf)"
  using assms
proof (induction fs arbitrary: buf)
  case (Cons f fs)
  obtain off num where f: "f = (off, num)" by fastforce
  have fit: "fits (length buf) (efix ip f)" using Cons.prems by (simp add: efix_def fits_def f)
  have "put_at off (le32 (word_of_nat (blk_of (ip num)))) buf = Some (put (efix ip f) buf)"
    using put_at_put [OF fit] by (simp add: efix_def f)
  then show ?case
    using Cons length_put [OF fit] by (simp add: f metadataBlockSize_def Let_def)
qed simp

lemma patch_inodes_puts:
  assumes "list_all (\<lambda>f. fst f + 12 \<le> length buf \<and> snd f div 8192 < length offs \<and> offs ! (snd f div 8192) = blk_of (snd f)) fs"
  shows "patch_inodes offs fs buf = Some (puts (ifixes fs) buf)"
  using assms
proof (induction fs arbitrary: buf)
  case (Cons f fs)
  obtain off pos where f: "f = (off, pos)" by fastforce
  define p q where "p = (off, le32 (word_of_nat (blk_of pos)))" and "q = (off + 10, le16 (word_of_nat (pos mod 8192)))"
  have fit: "fits (length buf) p" "fits (length (put p buf)) q"
    using Cons.prems length_put [of buf p] by (simp_all add: p_def q_def fits_def f)
  have "put_at off (le32 (word_of_nat (blk_of pos))) buf = Some (put p buf)"
    "put_at (off + 10) (le16 (word_of_nat (pos mod 8192))) (put p buf) = Some (put q (put p buf))"
    using put_at_put [OF fit(1)] put_at_put [OF fit(2)] by (simp_all add: p_def q_def)
  moreover have "length (put q (put p buf)) = length buf"
    using length_put [OF fit(1)] length_put [OF fit(2)] by simp
  ultimately show ?case
    using Cons by (simp add: f metadataBlockSize_def Let_def ifix_def p_def q_def)
qed simp

lemma patched_tables:
  assumes "winv unzlib w"
  shows "patch_entries (offsets (compressMetadataBlocks zlib (inodeRaw w) True)) (inodePos w) (dirEntryFixups w) (dirRaw w) = Some (pdir w)"
    "patch_inodes (offsets (compressMetadataBlocks zlib (pdir w) True)) (dirInodeFixups w) (inodeRaw w) = Some (pinode w)"
proof -
  have "inodePos w i < length (inodeRaw w)" if "0 < unat i" "i < nextInode w" for i
  proof -
    have "unat i < unat (nextInode w)" using that(2) by (simp add: word_less_nat_alt)
    then show ?thesis using winvE(4) [OF assms that] by simp
  qed
  then show "patch_entries (offsets (compressMetadataBlocks zlib (inodeRaw w) True)) (inodePos w) (dirEntryFixups w) (dirRaw w) = Some (pdir w)"
    unfolding pdir_def using winvE(5) [OF assms] by (intro patch_entries_puts) (auto simp: list_all_iff offsets_fixed)
  show "patch_inodes (offsets (compressMetadataBlocks zlib (pdir w) True)) (dirInodeFixups w) (inodeRaw w) = Some (pinode w)"
    unfolding pinode_def using winvE(6) [OF assms] winv_lengths(2) [OF assms]
    by (intro patch_inodes_puts) (auto simp: list_all_iff offsets_fixed)
qed

section \<open>The fragment table\<close>

definition packed :: "(bytes \<Rightarrow> bytes) \<Rightarrow> bytes \<Rightarrow> (u16 \<times> bytes) list" where
  "packed zlib raw = map (meta_pack zlib False) (pieces raw)"

definition packed_bytes :: "(bytes \<Rightarrow> bytes) \<Rightarrow> bytes \<Rightarrow> bytes" where
  "packed_bytes zlib raw = concat (map (\<lambda>(h, b). le16 h @ b) (packed zlib raw))"

definition packed_offs :: "(bytes \<Rightarrow> bytes) \<Rightarrow> bytes \<Rightarrow> nat list" where
  "packed_offs zlib raw = block_offsets 0 (map snd (packed zlib raw))"

lemma tracked:
  "writeMetadataBlocksTracked zlib raw w = (map ((+) (dataPos w)) (packed_offs zlib raw), w\<lparr>wout := wout w @ packed_bytes zlib raw\<rparr>)"
  unfolding writeMetadataBlocksTracked_def compressMetadataBlocks_def Let_def packed_def [symmetric]
  by (simp add: meta_bytes_pack packed_bytes_def packed_offs_def)

lemma packed_block:
  assumes "zok zlib unzlib" "k < length (pieces raw)"
  shows "\<exists>n. meta_block unzlib (a @ packed_bytes zlib raw @ r) (length a + packed_offs zlib raw ! k) = Some (pieces raw ! k, n)"
proof -
  define ts where "ts = packed zlib raw"
  have len: "length ts = length (pieces raw)" by (simp add: ts_def packed_def)
  obtain h b where hb: "ts ! k = (h, b)" "meta_pack zlib False (pieces raw ! k) = (h, b)"
    using assms(2) by (cases "ts ! k") (simp add: ts_def packed_def)
  define front where "front = concat (map (\<lambda>(h, b). le16 h @ b) (take k ts))"
  have "ts = take k ts @ (h, b) # drop (Suc k) ts"
    using assms(2) len hb(1) by (metis id_take_nth_drop)
  from arg_cong [OF this, of "\<lambda>t. concat (map (\<lambda>(h, b). le16 h @ b) t)"]
  have "packed_bytes zlib raw = front @ le16 h @ b @ concat (map (\<lambda>(h, b). le16 h @ b) (drop (Suc k) ts))"
    unfolding packed_bytes_def ts_def [symmetric] front_def by simp
  moreover have "packed_offs zlib raw ! k = length front"
  proof -
    have "length front = length (concat (map (\<lambda>b. [0, 0 :: u8] @ b) (take k (map snd ts))))"
      by (simp add: front_def length_concat take_map o_def case_prod_beta)
    then show ?thesis using assms(2) len by (simp add: packed_offs_def ts_def [symmetric] block_offsets_nth)
  qed
  moreover have "pieces raw ! k \<noteq> []" "length (pieces raw ! k) \<le> 8192"
    using piece_nth [OF assms(2)] by auto
  note meta_block_pack [OF assms(1) hb(2) this, of "a @ front"]
  ultimately show ?thesis by simp
qed

lemma words64_nth:
  "k < length ps \<Longrightarrow> \<exists>r'. drop (8 * k) (concat (map (\<lambda>p. le64 (f p)) ps) @ r) = le64 (f (ps ! k)) @ r'"
proof (induction ps arbitrary: k)
  case (Cons p ps)
  then show ?case by (cases k) auto
qed simp

lemma length_words64 [simp]: "length (concat (map (\<lambda>p. le64 (f p)) ps)) = 8 * length ps"
  by (induction ps) simp_all

lemma frag_raw_nth:
  "i < length fs \<Longrightarrow> \<exists>r. drop (16 * i) (concat (map frag_entry fs)) = frag_entry (fs ! i) @ r"
proof (induction fs arbitrary: i)
  case (Cons f fs)
  then show ?case by (cases i) (auto simp: frag_entry_def)
qed simp

lemma length_frag_raw [simp]: "length (concat (map frag_entry fs)) = 16 * length fs"
  by (induction fs) (simp_all add: frag_entry_def)

lemma image_frag_ok:
  assumes z: "zok zlib unzlib" and i: "i < length fs" and "raw = concat (map frag_entry fs)"
    and img: "img = a @ packed_bytes zlib raw @ concat (map (\<lambda>p. le64 (word_of_nat p)) (map ((+) (length a)) (packed_offs zlib raw))) @ r"
    and "length img < 2 ^ 32"
  shows "image_frag unzlib img (length a + length (packed_bytes zlib raw)) i = Some (fs ! i)"
proof -
  define k where "k = i div 512"
  define ps where "ps = map ((+) (length a)) (packed_offs zlib raw)"
  define start where "start = length a + length (packed_bytes zlib raw)"
  have lr: "length raw = 16 * length fs" by (simp add: assms(3))
  have k: "k < length (pieces raw)" using i by (simp add: length_pieces lr k_def)
  have kp: "k < length ps" using k by (simp add: ps_def packed_offs_def packed_def)
  obtain r' where r': "drop (8 * k) (concat (map (\<lambda>p. le64 (word_of_nat p)) ps) @ r) = le64 (word_of_nat (ps ! k)) @ r'"
    using words64_nth [OF kp] by blast
  have d: "drop (start + 8 * k) img = le64 (word_of_nat (ps ! k)) @ r'"
    using r' by (simp add: img start_def ps_def [symmetric])
  have l: "\<not> length img < start + 8 * k + 8" using kp by (simp add: img start_def ps_def [symmetric])
  obtain n where mb: "meta_block unzlib img (ps ! k) = Some (pieces raw ! k, n)"
    using packed_block [OF z k, of a] kp by (auto simp: img ps_def)
  then have "ps ! k < 2 ^ 32" using assms(5) by (auto simp: meta_block_def split: if_splits)
  then have u: "unat (word_of_nat (ps ! k) :: u64) = ps ! k" by (simp add: unat_of_nat)
  define e where "e = drop (16 * (i mod 512)) (pieces raw ! k)"
  have ei: "e = take (8192 - 16 * (i mod 512)) (drop (16 * i) raw)"
  proof -
    have "16 * (i mod 512) + 8192 * k = 16 * i" unfolding k_def using mult_div_mod_eq [of 512 i] by linarith
    then show ?thesis using piece_nth [OF k] by (simp add: e_def drop_take)
  qed
  obtain r2 where r2: "drop (16 * i) raw = frag_entry (fs ! i) @ r2"
    using frag_raw_nth [OF i] by (auto simp: assms(3))
  have "16 \<le> 8192 - 16 * (i mod 512)" using mod_less_divisor [of 512 i] by linarith
  then have "\<exists>r3. e = frag_entry (fs ! i) @ r3" by (simp add: ei r2 frag_entry_def)
  then have "\<not> length e < 16" "get_le64 e = fst (fs ! i)" "get_le32 (drop 8 e) = snd (fs ! i)"
    by (auto simp: frag_entry_def codec_simps)
  moreover from this(1) have "\<not> length (pieces raw ! k) - 16 * (i mod 512) < 16" by (simp add: e_def)
  ultimately show ?thesis
    using d l mb u by (simp add: image_frag_def Let_def start_def [symmetric] k_def [symmetric] codec_simps e_def [symmetric])
qed

end
