(* ===== verification/SquashfsImage.thy ===== *)
theory SquashfsImage
  imports SquashfsWalk SquashfsTables
begin

text \<open>
  The whole image: \<open>build\<close> puts the superblock, the data, the inode and directory tables with all references filled in and the
  other tables one after the other, and the reader finds in it a disk that holds what the walk has written.
\<close>

section \<open>The superblock\<close>

lemma length_header: "length (enc_header h) = 96"
  by (simp add: enc_header_def)

lemma dec_enc_header: "dec_header (enc_header h @ r) = h"
  by (simp add: dec_header_def enc_header_def codec_simps)

lemma ref_parts:
  assumes "b < 2 ^ 32" "off < 2 ^ 16"
  shows "unat (drop_bit 16 (push_bit 16 (word_of_nat b) OR word_of_nat off :: u64)) = b"
    "unat ((push_bit 16 (word_of_nat b) OR word_of_nat off :: u64) AND 0xFFFF) = off"
proof -
  have m: "(0xFFFF :: u64) = mask 16" by (simp add: mask_eq_exp_minus_1)
  have o: "take_bit 16 (word_of_nat off :: u64) = word_of_nat off"
    using assms(2) by (metis take_bit_nat_eq_self take_bit_of_nat)
  then have "drop_bit 16 (word_of_nat off :: u64) = 0"
    by (metis drop_bit_take_bit diff_self_eq_0 take_bit_0)
  moreover have "drop_bit 16 (push_bit 16 (word_of_nat b :: u64)) = word_of_nat b"
  proof -
    have "drop_bit 16 (push_bit 16 (word_of_nat b :: u64)) = take_bit 48 (word_of_nat b)"
      by (rule bit_eqI) (auto simp: bit_simps)
    also have "\<dots> = word_of_nat b"
    proof -
      have "b < 2 ^ 48" using assms(1) by simp
      then show ?thesis by (metis take_bit_nat_eq_self take_bit_of_nat)
    qed
    finally show ?thesis .
  qed
  ultimately show "unat (drop_bit 16 (push_bit 16 (word_of_nat b) OR word_of_nat off :: u64)) = b"
    using assms(1) by (simp add: drop_bit_or unat_of_nat)
  have "take_bit 16 (push_bit 16 (word_of_nat b :: u64)) = 0"
    by (simp add: take_bit_push_bit)
  then show "unat ((push_bit 16 (word_of_nat b) OR word_of_nat off :: u64) AND 0xFFFF) = off"
    using o assms(2) by (simp add: m take_bit_or unat_of_nat flip: take_bit_eq_mask)
qed

section \<open>The image\<close>

definition frag_part :: "(bytes \<Rightarrow> bytes) \<Rightarrow> nat \<Rightarrow> (u64 \<times> u32) list \<Rightarrow> bytes" where
  "frag_part zlib start fs =
     (if fs = [] then []
      else packed_bytes zlib (concat (map frag_entry fs)) @
        concat (map (\<lambda>p. le64 (word_of_nat p)) (map ((+) start) (packed_offs zlib (concat (map frag_entry fs))))))"

lemma fragment_table:
  "writeFragmentTable zlib w =
     (dataPos w + (if fragments w = [] then 0 else length (packed_bytes zlib (concat (map frag_entry (fragments w))))),
      w\<lparr>wout := wout w @ frag_part zlib (dataPos w) (fragments w)\<rparr>)"
  by (simp add: writeFragmentTable_def tracked write_pointers_def frag_part_def dataPos_def)

lemma id_table:
  "\<exists>st x t m. writeIDTable zlib w = (st, w\<lparr>idTable := t, idMap := m, wout := wout w @ x\<rparr>)"
proof -
  define w0 where "w0 = (if idTable w = [] then snd (lookupID 0 w) else w)"
  have "\<exists>t m. w0 = w\<lparr>idTable := t, idMap := m\<rparr>"
  proof (cases "idTable w = []")
    case True
    then show ?thesis using lookupID_fields [of 0 w "fst (lookupID 0 w)" "snd (lookupID 0 w)"] by (simp add: w0_def)
  next
    case False
    then have "w0 = w\<lparr>idTable := idTable w, idMap := idMap w\<rparr>" by (simp add: w0_def)
    then show ?thesis by blast
  qed
  then show ?thesis
    by (auto simp: writeIDTable_def w0_def [symmetric] tracked write_pointers_def Let_def) blast
qed

lemma write_tables_shape:
  assumes "inodeCache = compressMetadataBlocks zlib ir True" "dirCache = compressMetadataBlocks zlib dr True"
  shows "\<exists>h rest. write_tables zlib inodeCache dirCache ref w =
      enc_header h @ wout w @ table ir @ table dr @
        frag_part zlib (dataPos w + length (table ir) + length (table dr)) (fragments w) @ rest \<and>
    Magic h = SQUASHFS_MAGIC \<and> RootInode h = ref \<and> BlockSize h = blockSize w \<and> Inodes h = nextInode w - 1 \<and>
    InodeTableStart h = word_of_nat (dataPos w) \<and> DirectoryTableStart h = word_of_nat (dataPos w + length (table ir)) \<and>
    (fragments w \<noteq> [] \<longrightarrow> FragmentTableStart h = word_of_nat (dataPos w + length (table ir) + length (table dr) +
       length (packed_bytes zlib (concat (map frag_entry (fragments w))))))"
proof -
  define w1 where "w1 = writeMetadataCached inodeCache w"
  define w2 where "w2 = writeMetadataCached dirCache w1"
  have w1: "w1 = w\<lparr>wout := wout w @ table ir\<rparr>" "w2 = w\<lparr>wout := wout w @ table ir @ table dr\<rparr>"
    by (simp_all add: w1_def w2_def writeMetadataCached_def assms table_fixed)
  define w3 where "w3 = w2\<lparr>wout := wout w2 @ frag_part zlib (dataPos w2) (fragments w2)\<rparr>"
  obtain st x w4 where w4: "writeIDTable zlib w3 = (st, w4)" "wout w4 = wout w3 @ x" "fragments w4 = fragments w"
      "nextInode w4 = nextInode w" "blockSize w4 = blockSize w"
    using id_table [of zlib w3] by (auto simp: w3_def w1)
  have "\<exists>h rest. write_tables zlib inodeCache dirCache ref w = enc_header h @ wout w4 @ rest \<and>
      Magic h = SQUASHFS_MAGIC \<and> RootInode h = ref \<and> BlockSize h = blockSize w \<and> Inodes h = nextInode w - 1 \<and>
      InodeTableStart h = word_of_nat (dataPos w) \<and> DirectoryTableStart h = word_of_nat (dataPos w1) \<and>
      (fragments w \<noteq> [] \<longrightarrow> FragmentTableStart h = word_of_nat (dataPos w2 +
         length (packed_bytes zlib (concat (map frag_entry (fragments w2))))))"
    unfolding write_tables_def Let_def w1_def [symmetric] w2_def [symmetric] fragment_table prod.case w3_def [symmetric] w4(1)
    by (intro exI conjI, rule refl) (simp_all add: w4 w1)
  then show ?thesis
    by (simp add: w4(2) w3_def) (auto simp: w1 dataPos_def add.assoc)
qed

lemma table_length: "length raw \<le> length (table raw)" "blk_of (length raw) \<le> length (table raw)"
proof -
  have "8192 * (length raw div 8192) \<le> length raw" by simp
  from table_split [OF this] show "blk_of (length raw) \<le> length (table raw)" by (simp add: blk_of_def)
  have "concat (pieces raw) = raw"
    by (induction raw rule: pieces.induct) (subst pieces.simps, simp)
  then have "length raw = sum_list (map length (pieces raw))" by (metis length_concat)
  also have "\<dots> \<le> length (table raw)"
    by (simp add: table_def length_concat o_def sum_list_mono)
  finally show "length raw \<le> length (table raw)" .
qed

lemma patch_length:
  "patch_entries offs ip fs buf = Some b \<Longrightarrow> length b = length buf"
  "patch_inodes offs gs buf = Some b \<Longrightarrow> length b = length buf"
proof -
  have put: "length y = length x" if "put_at p v x = Some y" for p v x y
    using that by (auto simp: put_at_def split: if_splits)
  show "patch_entries offs ip fs buf = Some b \<Longrightarrow> length b = length buf"
    by (induction offs ip fs buf rule: patch_entries.induct) (auto simp: Let_def bind_eq_Some_conv put split: if_splits)
  show "patch_inodes offs gs buf = Some b \<Longrightarrow> length b = length buf"
    by (induction offs gs buf rule: patch_inodes.induct) (auto simp: Let_def bind_eq_Some_conv put split: if_splits)
qed

lemma unat64: "n < 2 ^ 32 \<Longrightarrow> unat (word_of_nat n :: u64) = n"
  by (simp add: unat_of_nat)

lemma image_disk_ok:
  assumes w: "winv unzlib w" and z: "zok zlib unzlib"
    and img: "img = enc_header h @ wout w @ table (pinode w) @ table (pdir w) @
      frag_part zlib (dataPos w + length (table (pinode w)) + length (table (pdir w))) (fragments w) @ rest"
    and len: "length img < 2 ^ 32"
    and h: "BlockSize h = blockSize w" "InodeTableStart h = word_of_nat (dataPos w)"
      "DirectoryTableStart h = word_of_nat (dataPos w + length (table (pinode w)))"
      "fragments w \<noteq> [] \<longrightarrow> FragmentTableStart h = word_of_nat (dataPos w + length (table (pinode w)) + length (table (pdir w)) +
         length (packed_bytes zlib (concat (map frag_entry (fragments w)))))"
  shows "disk_ok unzlib w (image_disk unzlib img h)"
proof -
  have d: "dataPos w = length (enc_header h @ wout w)" by (simp add: dataPos_def SquashfsHeaderSize_def length_header)
  have u: "unat (InodeTableStart h) = length (enc_header h @ wout w)"
    "unat (DirectoryTableStart h) = length (enc_header h @ wout w @ table (pinode w))"
  proof -
    have "dataPos w < 2 ^ 32" "dataPos w + length (table (pinode w)) < 2 ^ 32" using len by (simp_all add: img d)
    from this [THEN unat64] show "unat (InodeTableStart h) = length (enc_header h @ wout w)"
      "unat (DirectoryTableStart h) = length (enc_header h @ wout w @ table (pinode w))"
      unfolding h(2,3) by (simp_all only: d length_append add.assoc)
  qed
  have "meta_read unzlib img (unat (InodeTableStart h)) (blk_of p) (p mod 8192) n = Some (take n (drop p (pinode w)))"
    if "p + n \<le> length (pinode w)" for p n
    using table_read [OF that, of unzlib "enc_header h @ wout w"] unfolding u(1) img by simp
  moreover have "meta_read unzlib img (unat (DirectoryTableStart h)) (blk_of p) (p mod 8192) n = Some (take n (drop p (pdir w)))"
    if "p + n \<le> length (pdir w)" for p n
    using table_read [OF that, of unzlib "enc_header h @ wout w @ table (pinode w)"] unfolding u(2) img by simp
  moreover have "image_frag unzlib img (unat (FragmentTableStart h)) i = Some (fragments w ! i)" if i: "i < length (fragments w)" for i
  proof -
    define a where "a = enc_header h @ wout w @ table (pinode w) @ table (pdir w)"
    define raw where "raw = concat (map frag_entry (fragments w))"
    have ne: "fragments w \<noteq> []" using i by auto
    have "img = a @ packed_bytes zlib raw @ concat (map (\<lambda>p. le64 (word_of_nat p)) (map ((+) (length a)) (packed_offs zlib raw))) @ rest"
      using ne by (simp add: img a_def raw_def frag_part_def d add.assoc)
    note f = image_frag_ok [OF z i raw_def this len] and e = this
    have "unat (FragmentTableStart h) = length a + length (packed_bytes zlib raw)"
    proof -
      have "length a + length (packed_bytes zlib raw) < 2 ^ 32" using len by (simp add: e)
      moreover have "FragmentTableStart h = word_of_nat (length a + length (packed_bytes zlib raw))"
        using h(4) ne by (simp add: a_def raw_def d add.assoc)
      ultimately show ?thesis by (simp only: unat64)
    qed
    then show ?thesis using f by simp
  qed
  moreover have "data_read (image_disk unzlib img h) (96 + p) n = Some (take n (drop p (wout w)))" if "p + n \<le> length (wout w)" for p n
    using that by (simp add: image_disk_def img slice_def length_header)
  ultimately show ?thesis
    by (simp add: disk_ok_def image_disk_def h(1))
qed

section \<open>The round trip\<close>

lemma winv_new: "winv unzlib (NewWriter bs c t)"
  by (auto simp: winv_def NewWriter_def count_def word_less_nat_alt)

text \<open>Everything up to the tables, for a walk that succeeds.\<close>

lemma processDir_walk:
  assumes "processDir zlib listDir filt [] root w0 = Inr (i, w)"
  shows "\<exists>m mt kids names cs w1. root = Dir m mt kids \<and> listDir [] = Some names \<and>
    walk zlib kids (sort names) w0 cs (listed listDir filt [] kids (sort names)) w1 \<and> finish_dir m mt cs w1 = (i, w)"
proof -
  obtain m mt kids where root: "root = Dir m mt kids" using assms by (cases root) (auto simp: processDir_def)
  obtain names where names: "listDir [] = Some names" using assms by (auto simp: processDir_def root split: option.splits)
  obtain cs w1 where pc: "process_children zlib listDir filt [] kids (sort names) [] w0 = Inr (cs, w1)"
    and f: "finish_dir m mt cs w1 = (i, w)"
    using assms by (auto simp: processDir_def root names dest!: rbind_Inr)
  show ?thesis using process_children_walk [OF pc] root names f by auto
qed

lemma walk_root:
  assumes "processDir zlib listDir filt [] root (NewWriter bs c t) = Inr (i, w)" "zok zlib unzlib" "unat bs < 2 ^ 24"
    "node_ok root" "small w"
  shows "\<exists>tree. source_tree listDir filt root = Some tree \<and> winv unzlib w \<and> reads unzlib w i tree \<and> nextInode w - 1 = i \<and> blockSize w = bs"
proof -
  obtain m mt kids names cs w1 where root: "root = Dir m mt kids" and names: "listDir [] = Some names"
    and wk: "walk zlib kids (sort names) (NewWriter bs c t) cs (listed listDir filt [] kids (sort names)) w1"
    and f: "finish_dir m mt cs w1 = (i, w)"
    using processDir_walk [OF assms(1)] by blast
  have s1: "small w1" using small_earlier [OF assms(5) grows_dir [OF f]] .
  have ok: "list_all (\<lambda>(n, c). name_ok n \<and> node_ok c) kids" using assms(4) root by simp
  have bs: "unat (blockSize (NewWriter bs c t)) < 2 ^ 24" using assms(3) by (simp add: NewWriter_def)
  note r = walk_reads [OF wk assms(2) winv_new s1 bs ok]
  have "sorted (map cname cs)" using walk_sorted [OF wk] by simp
  then have "reads_new unzlib w1 w i (RDir (unixMode m) (word_of_int mt) (listed listDir filt [] kids (sort names)))"
    using r dir_step [OF _ f assms(5)] by blast
  moreover have "blockSize w = bs"
    using grows_dir [OF f] grows_walk [OF wk] by (simp add: grows_def NewWriter_def)
  ultimately show ?thesis using dir_number [OF f] by (auto simp: reads_new_def source_tree_def root names)
qed

lemma of_panic_Inr: "of_panic x = Inr y \<longleftrightarrow> x = Some y"
  by (simp add: of_panic_def split: option.split)

lemma build_parts:
  assumes "build zlib listDir filt root w0 = Inr img"
  shows "\<exists>i w1 w dirData inodeData ref. processDir zlib listDir filt [] root w0 = Inr (i, w1) \<and> w = flushFragBlock zlib w1 \<and>
    patch_entries (offsets (compressMetadataBlocks zlib (inodeRaw w) True)) (inodePos w) (dirEntryFixups w) (dirRaw w) = Some dirData \<and>
    patch_inodes (offsets (compressMetadataBlocks zlib dirData True)) (dirInodeFixups w) (inodeRaw w) = Some inodeData \<and>
    inodeRef (inodePos w (nextInode w - 1)) (offsets (compressMetadataBlocks zlib inodeData True)) = Some ref \<and>
    img = write_tables zlib (compressMetadataBlocks zlib inodeData True) (compressMetadataBlocks zlib dirData True) ref w"
proof -
  obtain i w1 where p: "processDir zlib listDir filt [] root w0 = Inr (i, w1)"
    using assms by (auto simp: build_def dest!: rbind_Inr)
  show ?thesis
    using assms p by (auto simp: build_def Let_def of_panic_Inr dest!: rbind_Inr)
qed

lemma flush_fields:
  "nextInode (flushFragBlock zlib w) = nextInode w" "blockSize (flushFragBlock zlib w) = blockSize w"
  by (simp_all add: flushFragBlock_def split: prod.split)

lemma root_ref:
  assumes "winv unzlib w" "small w" "0 < unat i" "i < nextInode w"
    "inodeRef (inodePos w i) (offsets (compressMetadataBlocks zlib (pinode w) True)) = Some ref"
  shows "unat (drop_bit 16 ref) = blk_of (inodePos w i)" "unat (ref AND 0xFFFF) = inodePos w i mod 8192"
proof -
  have "unat i < unat (nextInode w)" using assms(4) by (simp add: word_less_nat_alt)
  then have p: "inodePos w i < length (pinode w)"
    using winvE(4) [OF assms(1,3,4)] winv_lengths(1) [OF assms(1)] by simp
  have r: "ref = push_bit 16 (word_of_nat (blk_of (inodePos w i))) OR word_of_nat (inodePos w i mod 8192)"
    using assms(5) offsets_fixed [OF p, of zlib] by (simp add: inodeRef_def Let_def metadataBlockSize_def)
  have "inodePos w i \<le> length (inodeRaw w)" using p winv_lengths(1) [OF assms(1)] by simp
  from blk_of_mono [OF this] have "blk_of (inodePos w i) < 2 ^ 32" using assms(2) by (simp add: small_def)
  moreover have "inodePos w i mod 8192 < 2 ^ 16" using mod_less_divisor [of 8192 "inodePos w i"] by simp
  ultimately show "unat (drop_bit 16 ref) = blk_of (inodePos w i)" "unat (ref AND 0xFFFF) = inodePos w i mod 8192"
    unfolding r by (rule ref_parts)+
qed

lemma build_image:
  assumes "build zlib listDir filt root (NewWriter bs c t) = Inr img" "zok zlib unzlib" "unat bs < 2 ^ 24" "length img < 2 ^ 32" "node_ok root"
  shows "\<exists>tree i w1 w h rest. processDir zlib listDir filt [] root (NewWriter bs c t) = Inr (i, w1) \<and> w = flushFragBlock zlib w1 \<and>
    small w1 \<and> winv unzlib w \<and> source_tree listDir filt root = Some tree \<and> reads unzlib w (nextInode w - 1) tree \<and>
    final unzlib w w (image_disk unzlib img h) \<and> img = enc_header h @ wout w @ table (pinode w) @ rest \<and>
    Magic h = SQUASHFS_MAGIC \<and> Inodes h = nextInode w - 1 \<and> BlockSize h = bs \<and>
    InodeTableStart h = word_of_nat (dataPos w) \<and> DirectoryTableStart h = word_of_nat (dataPos w + length (table (pinode w))) \<and>
    unat (drop_bit 16 (RootInode h)) = blk_of (inodePos w (nextInode w - 1)) \<and>
    unat (RootInode h AND 0xFFFF) = inodePos w (nextInode w - 1) mod 8192"
proof -
  obtain i w1 w dr ir ref where pd: "processDir zlib listDir filt [] root (NewWriter bs c t) = Inr (i, w1)"
    and w: "w = flushFragBlock zlib w1"
    and pe: "patch_entries (offsets (compressMetadataBlocks zlib (inodeRaw w) True)) (inodePos w) (dirEntryFixups w) (dirRaw w) = Some dr"
    and pi: "patch_inodes (offsets (compressMetadataBlocks zlib dr True)) (dirInodeFixups w) (inodeRaw w) = Some ir"
    and ref: "inodeRef (inodePos w (nextInode w - 1)) (offsets (compressMetadataBlocks zlib ir True)) = Some ref"
    and img: "img = write_tables zlib (compressMetadataBlocks zlib ir True) (compressMetadataBlocks zlib dr True) ref w"
    using build_parts [OF assms(1)] by blast
  obtain h rest where h: "img = enc_header h @ wout w @ table ir @ table dr @
        frag_part zlib (dataPos w + length (table ir) + length (table dr)) (fragments w) @ rest"
      "Magic h = SQUASHFS_MAGIC" "RootInode h = ref" "BlockSize h = blockSize w" "Inodes h = nextInode w - 1"
      "InodeTableStart h = word_of_nat (dataPos w)" "DirectoryTableStart h = word_of_nat (dataPos w + length (table ir))"
      "fragments w \<noteq> [] \<longrightarrow> FragmentTableStart h = word_of_nat (dataPos w + length (table ir) + length (table dr) +
         length (packed_bytes zlib (concat (map frag_entry (fragments w)))))"
    using write_tables_shape [OF refl refl, of zlib ir dr ref w] img by blast
  have sm: "small w"
    using assms(4) table_length [of ir] table_length [of dr] patch_length(1) [OF pe] patch_length(2) [OF pi]
    by (simp add: h(1) small_def dataPos_def SquashfsHeaderSize_def length_header)
  then have s1: "small w1" using small_earlier grows_flush w by blast
  from walk_root [OF pd assms(2,3,5) s1] obtain tree where tree: "source_tree listDir filt root = Some tree"
      "winv unzlib w1" "reads unzlib w1 i tree" "nextInode w1 - 1 = i" "blockSize w1 = bs" by blast
  have fl: "winv unzlib w" "extends unzlib w1 w" "fragBuf w = []"
    using flush_step [OF tree(2) assms(2)] sm assms(3) tree(5) by (auto simp: w small_def)
  have i: "nextInode w - 1 = i" using tree(4) flush_fields(1) by (simp add: w)
  have r: "reads unzlib w i tree" using reads_later [OF tree(3) fl(2)] .
  have parts: "dr = pdir w" "ir = pinode w" using pe pi patched_tables [OF fl(1)] by auto
  have "disk_ok unzlib w (image_disk unzlib img h)"
    using image_disk_ok [OF fl(1) assms(2) _ assms(4), of h rest] h by (simp add: parts)
  then have fin: "final unzlib w w (image_disk unzlib img h)" using fl by (simp add: final_def)
  have n: "0 < unat i" "i < nextInode w" using r by (simp_all add: reads_def)
  have "inodeRef (inodePos w i) (offsets (compressMetadataBlocks zlib (pinode w) True)) = Some (RootInode h)"
    using ref by (simp add: i parts h(3))
  note rr = root_ref [OF fl(1) sm n this]
  obtain rest' where "img = enc_header h @ wout w @ table (pinode w) @ rest'" using h(1) parts by blast
  moreover have "BlockSize h = bs" using h(4) tree(5) flush_fields(2) by (simp add: w)
  moreover have "InodeTableStart h = word_of_nat (dataPos w)"
    "DirectoryTableStart h = word_of_nat (dataPos w + length (table (pinode w)))" using h(6,7) parts by simp_all
  ultimately show ?thesis
    using pd w s1 fl(1) tree(1) r fin h(2,5) rr unfolding i [symmetric] by blast
qed

end
