(* ===== verification/SquashfsCount.thy ===== *)
theory SquashfsCount
  imports SquashfsImage
begin

text \<open>
  \<open>CountRegularFiles\<close>: the inode table is a sequence of inodes whose lengths \<open>inodeSize\<close> computes, with as many
  file inodes as the walk has written.
\<close>

section \<open>The inode table as a sequence of inodes\<close>

text \<open>An inode as \<open>inodeSize\<close> expects it.\<close>

definition chunk_ok :: "nat \<Rightarrow> bytes \<Rightarrow> bool" where
  "chunk_ok bs c \<longleftrightarrow>
     get_le16 c = 1 \<and> length c = 32 \<or> get_le16 c = 8 \<and> length c = 40 \<or>
     get_le16 c = 2 \<and> length c = 32 + 4 * (unat (get_le32 (drop 28 c)) div bs) \<or>
     get_le16 c = 3 \<and> length c = 24 + unat (get_le32 (drop 20 c))"

definition file_chunks :: "bytes list \<Rightarrow> nat" where
  "file_chunks cs = length (filter (\<lambda>c. get_le16 c = 2) cs)"

lemma inodeSize_cases:
  "inodeSize 1 b bs = Some 32" "inodeSize 8 b bs = Some 40"
  "32 \<le> length b \<Longrightarrow> inodeSize 2 b bs = Some (32 + 4 * (unat (get_le32 (drop 28 b)) div bs))"
  "24 \<le> length b \<Longrightarrow> inodeSize 3 b bs = Some (24 + unat (get_le32 (drop 20 b)))"
  by (simp_all add: inodeSize_def)

lemma chunk_size:
  assumes "chunk_ok bs c"
  shows "2 \<le> length c" "get_le16 (c @ r) = get_le16 c" "inodeSize (get_le16 c) (c @ r) bs = Some (length c)"
proof -
  have l: "24 \<le> length c" using assms unfolding chunk_ok_def by linarith
  then show "2 \<le> length c" "get_le16 (c @ r) = get_le16 c" by (simp_all add: get_le_append)
  have d: "get_le32 (drop 20 (c @ r)) = get_le32 (drop 20 c)" using l by (simp add: get_le_append)
  have e: "get_le32 (drop 28 (c @ r)) = get_le32 (drop 28 c)" if "32 \<le> length c" using that by (simp add: get_le_append)
  consider "get_le16 c = 1" "length c = 32" | "get_le16 c = 8" "length c = 40"
    | "get_le16 c = 2" "32 \<le> length c" "length c = 32 + 4 * (unat (get_le32 (drop 28 c)) div bs)"
    | "get_le16 c = 3" "length c = 24 + unat (get_le32 (drop 20 c))"
    using assms unfolding chunk_ok_def by linarith
  then show "inodeSize (get_le16 c) (c @ r) bs = Some (length c)"
  proof cases
    case 3
    have "32 \<le> length (c @ r)" using 3(2) by simp
    from inodeSize_cases(3) [OF this, of bs] show ?thesis unfolding 3(1) e [OF 3(2)] 3(3) [symmetric] .
  next
    case 4
    have "24 \<le> length (c @ r)" using l by simp
    from inodeSize_cases(4) [OF this, of bs] show ?thesis unfolding 4(1) d 4(2) [symmetric] .
  qed (simp_all add: inodeSize_cases)
qed

lemma count_chunks:
  "list_all (chunk_ok bs) cs \<Longrightarrow> count_files bs (length cs) (a @ concat cs) (length a) = (file_chunks cs, None)"
proof (induction cs arbitrary: a)
  case (Cons c cs)
  have c: "chunk_ok bs c" using Cons.prems by simp
  note c = chunk_size(1) [OF c] chunk_size(2,3) [OF c, of "concat cs"]
  have "count_files bs (length cs) ((a @ c) @ concat cs) (length (a @ c)) = (file_chunks cs, None)"
    using Cons.IH [of "a @ c"] Cons.prems by simp
  then show ?case
    using Cons.prems c by (simp add: file_chunks_def apfst_def)
qed (simp add: file_chunks_def)

definition scanned :: "nat \<Rightarrow> Writer \<Rightarrow> nat \<Rightarrow> bool" where
  "scanned bs w f \<longleftrightarrow> (\<exists>cs. pinode w = concat cs \<and> list_all (chunk_ok bs) cs \<and> length cs = count w \<and> file_chunks cs = f)"

lemma scanned_add:
  assumes "scanned bs w f" "winv unzlib w" "adds_inode data fs w v" "small v" "list_all (\<lambda>f. length (inodeRaw w) \<le> fst f) fs"
    "c = puts (ifixes (map (\<lambda>f. (fst f - length (inodeRaw w), snd f)) fs)) data" "chunk_ok bs c"
  shows "scanned bs v (f + (if get_le16 c = 2 then 1 else 0))"
proof -
  obtain cs where cs: "pinode w = concat cs" "list_all (chunk_ok bs) cs" "length cs = count w" "file_chunks cs = f"
    using assms(1) by (auto simp: scanned_def)
  have "length (inodeRaw w) < 2 ^ 32" using assms(4) adds_inodeD(1) [OF assms(3)] by (simp add: small_def)
  from next_no_wrap(1) [OF assms(2) this] have "count v = Suc (count w)"
    using winvE(1) [OF assms(2)] adds_inodeD(2) [OF assms(3)] by (simp add: count_def)
  then show ?thesis
    using cs assms(7) pinode_inode [OF assms(2,3,5)] unfolding scanned_def
    by (intro exI [of _ "cs @ [c]"]) (simp add: file_chunks_def assms(6))
qed

text \<open>Data and listings leave the inodes alone.\<close>

definition same_inodes :: "Writer \<Rightarrow> Writer \<Rightarrow> bool" where
  "same_inodes w v \<longleftrightarrow> inodeRaw v = inodeRaw w \<and> dirInodeFixups v = dirInodeFixups w \<and> nextInode v = nextInode w"

lemma same_scanned: "same_inodes w v \<Longrightarrow> scanned bs v = scanned bs w"
  by (intro HOL.ext) (simp add: same_inodes_def scanned_def pinode_def count_def)

lemma same_flush: "same_inodes w (flushFragBlock zlib w)"
  by (simp add: same_inodes_def flushFragBlock_def split: prod.split)

lemma same_fragment: "addFragment zlib data w = (idx, off, v) \<Longrightarrow> same_inodes w v"
  using same_flush [of w zlib] by (auto simp: addFragment_def Let_def same_inodes_def)

lemma same_blocks: "write_blocks zlib bs data w = (sizes, tail, v) \<Longrightarrow> same_inodes w v"
proof (induction zlib bs data w arbitrary: sizes tail v rule: write_blocks.induct)
  case (1 zlib bs data w)
  obtain s w1 where wd: "writeDataBlock zlib (take bs data) w = (s, w1)" by fastforce
  then have g: "same_inodes w w1" by (auto simp: writeDataBlock_def same_inodes_def split: prod.splits)
  show ?case
  proof (cases "bs = 0 \<or> length data < bs")
    case True
    then show ?thesis using "1.prems" by (auto simp: write_blocks.simps same_inodes_def)
  next
    case False
    then obtain ss where "write_blocks zlib bs (drop bs data) w1 = (ss, tail, v)"
      using "1.prems" wd by (subst (asm) write_blocks.simps) (auto simp: apfst_def map_prod_def split: prod.splits)
    from "1.IH" [OF False wd [symmetric] this] show ?thesis using g by (simp add: same_inodes_def)
  qed
qed

lemma same_file_data: "writeFileDataStreamed zlib sz content w = Inr (r, v) \<Longrightarrow> same_inodes w v"
  by (auto simp: writeFileDataStreamed_def split: if_splits prod.splits dest!: same_blocks same_fragment) (auto simp: same_inodes_def)

lemma same_entries: "buildDirEntries cs w = (pos, sz, v) \<Longrightarrow> same_inodes w v"
  by (auto simp: buildDirEntries_def same_inodes_def Let_def split: if_splits)

section \<open>Counting\<close>

fun files :: "rnode \<Rightarrow> nat" where
  "files (RDir m t kids) = sum_list (map (\<lambda>(n, r). files r) kids)"
| "files (RFile m t c) = 1"
| "files (RLink t target) = 0"

lemma scan_link:
  assumes "buildSymlinkInode t target w = (i, v)" "winv unzlib w" "small v" "scanned bs w f"
  shows "scanned bs v f"
proof -
  obtain uid gid where a: "adds_inode (link_inode uid gid t i target) [] w v" using link_inode_adds(2) [OF assms(1)] by blast
  have "unat (word_of_nat (length target) :: u32) = length target"
    using adds_inodeD(1) [OF a] assms(3) by (simp add: small_def unat_of_nat link_inode_def)
  then have "chunk_ok bs (link_inode uid gid t i target)"
    by (simp add: chunk_ok_def link_inode_def inode_head_def sq_types codec_simps)
  then show ?thesis
    using scanned_add [OF assms(4,2) a assms(3) _ refl] by (simp add: link_inode_def inode_head_def sq_types codec_simps)
qed

lemma scan_file:
  assumes "buildFileInode zlib m t sz content w = Inr (i, v)" "winv unzlib w" "zok zlib unzlib" "unat (blockSize w) < 2 ^ 24"
    "sz < 2 ^ 32" "small v" "scanned (unat (blockSize w)) w f"
  shows "scanned (unat (blockSize w)) v (f + 1)"
proof -
  obtain start sizes frag off w0 uid gid where fd: "writeFileDataStreamed zlib sz content w = Inr ((start, sizes, frag, off), w0)"
    and a: "adds_inode (file_inode (unixMode m) uid gid t i start frag off (word_of_nat sz) sizes) [] w0 v"
    using file_inode_adds [OF assms(1)] by blast
  have "dataPos w0 < 2 ^ 32" using assms(6) adds_inodeD(5) [OF a] by (simp add: small_def dataPos_def)
  note d = file_data [OF fd assms(2-4) this]
  have "unat (word_of_nat sz :: u32) = sz" using assms(5) by (simp add: unat_of_nat)
  then have "chunk_ok (unat (blockSize w)) (file_inode (unixMode m) uid gid t i start frag off (word_of_nat sz) sizes)"
    using d by (simp add: chunk_ok_def file_inode_def inode_head_def sq_types codec_simps)
  moreover have "scanned (unat (blockSize w)) w0 f" using assms(7) same_scanned [OF same_file_data [OF fd]] by simp
  ultimately show ?thesis
    using scanned_add [OF _ conjunct1 [OF d] a assms(6) _ refl] by (simp add: file_inode_def inode_head_def sq_types codec_simps)
qed

lemma scan_dir:
  assumes "finish_dir m t cs w = (i, v)" "winv unzlib w" "small v" "scanned bs w f"
    and cs: "list_all2 (child_ok unzlib w) cs xs" "sorted (map cname cs)" "sorted_wrt (<) (map inodeNum cs)"
  shows "scanned bs v f"
proof -
  obtain pos sz w0 where be: "buildDirEntries cs w = (pos, sz, w0)" by (metis prod.exhaust)
  then have bi: "buildDirInode m t cs pos sz w0 = (i, v)" using assms(1) by (simp add: finish_dir_def)
  define fs where "fs = (if cs = [] then [] else [(length (inodeRaw w0) + dir_field sz, pos)])"
  obtain uid gid links where a: "adds_inode (dir_data (unixMode m) uid gid t i links sz 0 0) fs w0 v"
    using dir_inode_adds(2) [OF bi] unfolding fs_def by blast
  have s0: "small w0" using small_earlier [OF assms(3) grows_adds [OF a]] .
  have w0: "winv unzlib w0"
    using entries_step [OF assms(2) be s0 _ cs] be assms(2) by (cases "cs = []") (auto simp: buildDirEntries_def)
  define B where "B = (if cs = [] then 0 else word_of_nat (blk_of pos) :: u32)"
  define Q where "Q = (if cs = [] then 0 else word_of_nat (pos mod 8192) :: u16)"
  have p: "dir_data (unixMode m) uid gid t i links sz B Q =
      puts (ifixes (map (\<lambda>f. (fst f - length (inodeRaw w0), snd f)) fs)) (dir_data (unixMode m) uid gid t i links sz 0 0)"
    using patched_dir by (simp add: fs_def B_def Q_def)
  have "chunk_ok bs (dir_data (unixMode m) uid gid t i links sz B Q)" "get_le16 (dir_data (unixMode m) uid gid t i links sz B Q) \<noteq> 2"
    by (simp_all add: chunk_ok_def dir_data_def dir_inode_def ldir_inode_def inode_head_def sq_types codec_simps)
  moreover have "scanned bs w0 f" using assms(4) same_scanned [OF same_entries [OF be]] by simp
  ultimately show ?thesis
    using scanned_add [OF _ w0 a assms(3) _ p] by (simp add: fs_def)
qed

lemma scan_walk:
  assumes "walk zlib kids ns w cs xs v" "zok zlib unzlib" "winv unzlib w" "small v" "unat (blockSize w) < 2 ^ 24"
    "list_all (\<lambda>(n, c). name_ok n \<and> node_ok c) kids" "scanned (unat (blockSize w)) w f"
  shows "scanned (unat (blockSize w)) v (f + sum_list (map (files \<circ> snd) xs))"
  using assms(1,3-)
proof (induction arbitrary: f rule: walk.induct)
  case (walk_link kids n t target w i w1 ns cs xs v)
  have g: "grows w w1" "grows w1 v" using walk_link.hyps grows_symlink grows_walk by auto
  note s1 = small_earlier [OF walk_link.prems(2) g(2)]
  have "winv unzlib w1" using symlink_step [OF walk_link.prems(1) walk_link.hyps(2) s1] by (simp add: reads_new_def)
  moreover have "scanned (unat (blockSize w)) w1 f"
    using scan_link [OF walk_link.hyps(2) walk_link.prems(1) s1 walk_link.prems(5)] .
  ultimately show ?case using walk_link.IH walk_link.prems g by (simp add: grows_def)
next
  case (walk_file kids n m t sz content w i w1 ns cs xs v)
  have g: "grows w w1" "grows w1 v" using walk_file.hyps grows_file grows_walk by auto
  have sz: "sz < 2 ^ 32" using node_ok_lookup [OF walk_file.prems(4) walk_file.hyps(1)] by simp
  note s1 = small_earlier [OF walk_file.prems(2) g(2)]
  have "winv unzlib w1"
    using file_step [OF walk_file.prems(1) assms(2) walk_file.prems(3) sz walk_file.hyps(2) s1] by (simp add: reads_new_def)
  moreover have "scanned (unat (blockSize w)) w1 (f + 1)"
    using scan_file [OF walk_file.hyps(2) walk_file.prems(1) assms(2) walk_file.prems(3) sz s1 walk_file.prems(5)] .
  ultimately have "scanned (unat (blockSize w)) v ((f + 1) + sum_list (map (files \<circ> snd) xs))"
    using walk_file.IH [of "f + 1"] walk_file.prems g by (simp add: grows_def o_def)
  then show ?case by (simp add: o_def)
next
  case (walk_dir kids n m t ks names w ds ys w1 i w2 ns cs xs v)
  have g: "grows w w1" "grows w1 w2" "grows w2 v" using walk_dir.hyps grows_walk grows_dir by auto
  have s: "small w2" "small w1"
    using small_earlier [OF walk_dir.prems(2) g(3)] small_earlier [OF _ g(2)] by auto
  have ok: "list_all (\<lambda>(n, c). name_ok n \<and> node_ok c) ks"
    using node_ok_lookup [OF walk_dir.prems(4) walk_dir.hyps(1)] by simp
  note r = walk_reads [OF walk_dir.hyps(2) assms(2) walk_dir.prems(1) s(2) walk_dir.prems(3) ok]
  have so: "sorted (map cname ds)" using walk_sorted [OF walk_dir.hyps(2)] by simp
  have w2: "winv unzlib w2" using r so dir_step [OF _ walk_dir.hyps(3) s(1)] by (auto simp: reads_new_def)
  have "scanned (unat (blockSize w)) w1 (f + sum_list (map (files \<circ> snd) ys))"
    using walk_dir.IH(1) [OF walk_dir.prems(1) s(2) walk_dir.prems(3) ok walk_dir.prems(5)] .
  then have "scanned (unat (blockSize w)) w2 (f + sum_list (map (files \<circ> snd) ys))"
    using r so scan_dir [OF walk_dir.hyps(3) _ s(1)] by blast
  then have "scanned (unat (blockSize w)) v (f + sum_list (map (files \<circ> snd) ys) + sum_list (map (files \<circ> snd) xs))"
    using walk_dir.IH(2) [OF w2 walk_dir.prems(2) _ walk_dir.prems(4)] walk_dir.prems(3) g by (simp add: grows_def o_def)
  then show ?case by (simp add: case_prod_beta' o_def add.assoc)
qed auto

lemma read_table_ok:
  "read_table unzlib (a @ table raw @ r) (length a) (length a + length (table raw)) = Inr raw"
proof (induction raw arbitrary: a rule: pieces.induct)
  case (1 raw)
  show ?case
  proof (cases "raw = []")
    case True
    then show ?thesis by (simp add: table_simps read_table.simps)
  next
    case False
    define d where "d = take 8192 raw"
    define h where "h = (word_of_nat (length d) OR metadataUncompBit :: u16)"
    have m: "unat (h AND 0x7FFF) = length d" "bit h 15" using meta_word(2,4) [of "length d"] by (simp_all add: h_def d_def)
    have t: "table raw = le16 h @ d @ table (drop 8192 raw)" using False by (simp add: table_simps h_def d_def)
    have "read_table unzlib ((a @ le16 h @ d) @ table (drop 8192 raw) @ r) (length (a @ le16 h @ d))
        (length (a @ le16 h @ d) + length (table (drop 8192 raw))) = Inr (drop 8192 raw)"
      using "1" [of "a @ le16 h @ d"] False unfolding metadataBlockSize_def by blast
    then have "read_table unzlib (a @ table raw @ r) (length a + 2 + length d) (length a + length (table raw)) = Inr (drop 8192 raw)"
      by (simp add: t add.assoc)
    then show ?thesis
      using m by (subst read_table.simps) (simp add: t codec_simps slice_def Let_def, simp add: d_def)
  qed
qed

end
