(* ===== verification/SquashfsRoundtrip.thy ===== *)
theory SquashfsRoundtrip
  imports SquashfsCount
begin

text \<open>
  The theorems about squashfs images: an independent reader recovers the source tree from every image that
  \<open>build\<close> writes, and \<open>CountRegularFiles\<close> counts its regular files. The sample tree has a directory with a file of
  one full block and a tail in a fragment.
\<close>

section \<open>The tree of the host\<close>

text \<open>The host tree as an image shows it: modes and times as the format has them, names in ascending order, and no special files.\<close>

fun host_tree :: "node \<Rightarrow> rnode option" where
  "host_tree (Dir m t kids) = Some (RDir (unixMode m) (word_of_int t)
     (concat (map (\<lambda>(n, x). case x of None \<Rightarrow> [] | Some r \<Rightarrow> [(n, r)]) (sort_key fst (map (\<lambda>(n, c). (n, host_tree c)) kids)))))"
| "host_tree (File m t sz content) = Some (RFile (unixMode m) (word_of_int t) (take sz content))"
| "host_tree (Symlink t target) = Some (RLink (word_of_int t) target)"
| "host_tree Special = None"
| "host_tree Unreadable = None"

fun distinct_names :: "node \<Rightarrow> bool" where
  "distinct_names (Dir m t kids) \<longleftrightarrow> distinct (map fst kids) \<and> list_all (\<lambda>(n, c). distinct_names c) kids"
| "distinct_names c = True"

lemma insort_map: "(\<And>x. fst (f x) = fst x) \<Longrightarrow> insort_key fst (f x) (map f xs) = map f (insort_key fst x xs)"
  by (induction xs) auto

lemma sort_map: "(\<And>x. fst (f x) = fst x) \<Longrightarrow> sort_key fst (map f xs) = map f (sort_key fst xs)"
  by (induction xs) (simp_all add: insort_map)

lemma insort_fst: "insort (fst x) (map fst xs) = map fst (insort_key fst x xs)"
  by (induction xs) auto

lemma sort_fst: "sort (map fst xs) = map fst (sort_key fst xs)"
  by (induction xs) (simp_all add: insort_fst)

lemma listed_entries:
  assumes "\<And>n. n \<in> set ns \<Longrightarrow> \<exists>c. map_of kids n = Some c \<and>
    (\<forall>m t ks. c = Dir m t ks \<longrightarrow> (\<exists>names. l (path @ [n]) = Some names \<and>
       Some (RDir (unixMode m) (word_of_int t) (listed l None (path @ [n]) ks (sort names))) = host_tree c))"
  shows "listed l None path kids ns =
    concat (map (\<lambda>n. case host_tree (the (map_of kids n)) of None \<Rightarrow> [] | Some r \<Rightarrow> [(n, r)]) ns)"
  using assms
proof (induction ns)
  case (Cons n ns)
  then obtain c where c: "map_of kids n = Some c" "\<forall>m t ks. c = Dir m t ks \<longrightarrow> (\<exists>names. l (path @ [n]) = Some names \<and>
       Some (RDir (unixMode m) (word_of_int t) (listed l None (path @ [n]) ks (sort names))) = host_tree c)" by (meson list.set_intros(1))
  have "listed l None path kids ns = concat (map (\<lambda>n. case host_tree (the (map_of kids n)) of None \<Rightarrow> [] | Some r \<Rightarrow> [(n, r)]) ns)"
    using Cons.IH Cons.prems by (meson list.set_intros(2))
  moreover have "listed l None path kids (n # ns) = (case host_tree c of None \<Rightarrow> [] | Some r \<Rightarrow> [(n, r)]) @ listed l None path kids ns"
  proof (cases c)
    case (Dir m t ks)
    then obtain names where "l (path @ [n]) = Some names"
      "host_tree c = Some (RDir (unixMode m) (word_of_int t) (listed l None (path @ [n]) ks (sort names)))" using c(2) by metis
    with Dir c(1) show ?thesis by (simp add: included_def del: host_tree.simps)
  qed (use c(1) in \<open>simp_all add: included_def\<close>)
  ultimately show ?case using c(1) by simp
qed simp

lemma listed_host:
  assumes "distinct_names d" "\<And>p. lookup_dir root (path @ p) = lookup_dir d p" "d = Dir m t kids"
  shows "Some (RDir (unixMode m) (word_of_int t) (listed (lookup_dir root) None path kids (sort (map fst kids)))) = host_tree d"
  using assms
proof (induction d arbitrary: path m t kids)
  case (Dir m' t' kids')
  then have d: "distinct (map fst kids)" "\<And>n c. (n, c) \<in> set kids \<Longrightarrow> distinct_names c" by (auto simp: list_all_iff)
  let ?out = "\<lambda>(n, x). case x of None \<Rightarrow> [] | Some r \<Rightarrow> [(n, r)]"
  have "\<exists>c. map_of kids n = Some c \<and> (\<forall>m t ks. c = Dir m t ks \<longrightarrow> (\<exists>names. lookup_dir root (path @ [n]) = Some names \<and>
       Some (RDir (unixMode m) (word_of_int t) (listed (lookup_dir root) None (path @ [n]) ks (sort names))) = host_tree c))"
    if n: "n \<in> set (sort (map fst kids))" for n
  proof -
    obtain c where c: "(n, c) \<in> set kids" using n by auto
    then have mc: "map_of kids n = Some c" using d(1) by simp
    have l: "lookup_dir root ((path @ [n]) @ p) = lookup_dir c p" for p
      using Dir.prems(2) [of "n # p"] Dir.prems(3) mc by simp
    have "Some (RDir (unixMode m) (word_of_int t) (listed (lookup_dir root) None (path @ [n]) ks (sort (map fst ks)))) = host_tree c"
      if "c = Dir m t ks" for m t ks
      using Dir.IH [of "(n, c)" c "path @ [n]" m t ks] c d(2) [OF c] l that Dir.prems(3) by auto
    moreover have "lookup_dir root (path @ [n]) = Some (map fst ks)" if "c = Dir m t ks" for m t ks
      using l [of "[]"] that by simp
    ultimately show ?thesis using mc by blast
  qed
  then have "listed (lookup_dir root) None path kids (sort (map fst kids)) =
      concat (map (\<lambda>n. ?out (n, host_tree (the (map_of kids n)))) (sort (map fst kids)))"
    unfolding prod.case by (rule listed_entries)
  also have "\<dots> = concat (map (\<lambda>n. ?out (n, host_tree (the (map_of kids n)))) (map fst (sort_key fst kids)))"
    by (simp only: sort_fst)
  also have "\<dots> = concat (map (\<lambda>x. ?out (fst x, host_tree (snd x))) (sort_key fst kids))"
    unfolding map_map by (intro arg_cong [where f = concat] map_cong refl) (use d(1) in auto)
  also have "\<dots> = concat (map ?out (sort_key fst (map (\<lambda>(n, c). (n, host_tree c)) kids)))"
    by (simp add: sort_map case_prod_beta' o_def)
  finally show ?case using Dir.prems(3) by simp
qed simp_all

lemma source_tree_host:
  assumes "distinct_names root" "source_tree (lookup_dir root) None root = Some tree"
  shows "host_tree root = Some tree"
proof -
  obtain m t kids where r: "root = Dir m t kids" using assms(2) by (cases root) (simp_all add: source_tree_def)
  from listed_host [OF assms(1) _ r, of root "[]"] assms(2) r show ?thesis by (simp add: source_tree_def)
qed

section \<open>A sample image\<close>

definition sample_tree :: node where
  "sample_tree = Dir 493 7 [(''d'', Dir 488 9 [(''f'', File 420 8 6 [1, 2, 3, 4, 5, 6])])]"

lemma wb: "write_blocks (\<lambda>d. d) 4 [1, 2, 3, 4, 5, 6] w = ([4 OR dataUncompBit], [5,6], w\<lparr>wout := wout w @ [1,2,3,4]\<rparr>)"
  by (simp add: write_blocks.simps writeDataBlock_def pack_block_def)

text \<open>A tree that can be walked gives an image, unless it is too large: the references are all in range.\<close>

lemma build_succeeds:
  assumes "processDir zlib listDir filt [] root (NewWriter bs c t) = Inr (i, w1)" "zok zlib unzlib" "unat bs < 2 ^ 24" "node_ok root"
    "w = flushFragBlock zlib w1" "small w"
  shows "\<exists>ref. build zlib listDir filt root (NewWriter bs c t) =
    Inr (write_tables zlib (compressMetadataBlocks zlib (pinode w) True) (compressMetadataBlocks zlib (pdir w) True) ref w)"
proof -
  have "small w1" using small_earlier [OF assms(6)] grows_flush assms(5) by blast
  from walk_root [OF assms(1-4) this] obtain tree where tree: "winv unzlib w1" "reads unzlib w1 i tree" "nextInode w1 - 1 = i" "blockSize w1 = bs"
    by blast
  have fl: "winv unzlib w" "extends unzlib w1 w"
    using flush_step [OF tree(1) assms(2)] assms(3,6) tree(4) by (auto simp: assms(5) small_def)
  have i: "nextInode w - 1 = i" using tree(3) flush_fields(1) by (simp add: assms(5))
  have r: "0 < unat i" "i < nextInode w" using reads_later [OF tree(2) fl(2)] by (simp_all add: reads_def)
  then have "inodePos w i < length (pinode w)"
    using winvE(4) [OF fl(1) r] winv_lengths(1) [OF fl(1)] by (simp add: word_less_nat_alt)
  from offsets_fixed(1) [OF this, of zlib] obtain ref
    where ref: "inodeRef (inodePos w (nextInode w - 1)) (offsets (compressMetadataBlocks zlib (pinode w) True)) = Some ref"
    by (simp add: inodeRef_def Let_def metadataBlockSize_def i)
  show ?thesis
    using assms(1) patched_tables [OF fl(1)] ref
    by (simp add: build_def Let_def of_panic_def assms(5) [symmetric]) blast
qed

lemma sample_walk: "\<exists>w1 i w. processDir (\<lambda>d. d) (lookup_dir sample_tree) None [] sample_tree (NewWriter 4 1 0) = Inr (i, w1) \<and>
    w = flushFragBlock (\<lambda>d. d) w1 \<and> length (wout w) = 6 \<and> length (fragments w) = 1 \<and> length (idTable w) = 1 \<and>
    length (inodeRaw w) = 100 \<and> length (dirRaw w) = 42"
  by (simp add: processDir_def sample_tree_def NewWriter_def included_def buildFileInode_def writeFileDataStreamed_def wb
      finish_dir_def allocInode_def lookupID_def appendInode_def file_inode_def inode_head_def addFragment_def buildDirEntries_def
      metadataBlockSize_def enc_group_def enc_entry_def bytes_of_string_def buildDirInode_def dir_inode_def Let_def flushFragBlock_def pack_block_def)

lemma sample_source: "source_tree (lookup_dir sample_tree) None sample_tree =
   Some (RDir (unixMode 493) 7 [(''d'', RDir (unixMode 488) 9 [(''f'', RFile (unixMode 420) 8 [1,2,3,4,5,6])])])"
  by (simp add: source_tree_def sample_tree_def included_def)

lemma length_table: "length (table raw) = length raw + 2 * length (pieces raw)"
proof (induction raw rule: pieces.induct)
  case (1 raw)
  then show ?case by (cases "raw = []") (simp_all add: table_simps pieces_simps metadataBlockSize_def)
qed

lemma length_packed: "length (packed_bytes zlib raw) \<le> length raw + 2 * length (pieces raw)"
proof (induction raw rule: pieces.induct)
  case (1 raw)
  show ?case
  proof (cases "raw = []")
    case False
    have "length (snd (meta_pack zlib False (take 8192 raw))) \<le> length (take 8192 raw)"
      by (simp add: meta_pack_def Let_def)
    moreover have "packed_bytes zlib raw = le16 (fst (meta_pack zlib False (take 8192 raw))) @ snd (meta_pack zlib False (take 8192 raw)) @
        packed_bytes zlib (drop 8192 raw)"
      using False by (simp add: packed_bytes_def packed_def pieces_simps case_prod_beta)
    moreover have "length (packed_bytes zlib (drop 8192 raw)) \<le> length (drop 8192 raw) + 2 * length (pieces (drop 8192 raw))"
      using 1 False by (simp add: metadataBlockSize_def)
    ultimately show ?thesis using False by (simp add: pieces_simps) arith
  qed (simp add: packed_bytes_def packed_def pieces_simps)
qed

lemma length_packed_offs: "length (packed_offs zlib raw) = length (pieces raw)"
  by (simp add: packed_offs_def packed_def)

text \<open>An image with little in it is small.\<close>

lemma write_tables_bound:
  assumes "length (fragments w) \<le> 1" "length (idTable w) = 1" "length (wout w) \<le> 4096" "length ir \<le> 4096" "length dr \<le> 4096"
  shows "length (write_tables zlib (compressMetadataBlocks zlib ir True) (compressMetadataBlocks zlib dr True) ref w) < 2 ^ 32"
proof -
  define w1 where "w1 = writeMetadataCached (compressMetadataBlocks zlib ir True) w"
  define w2 where "w2 = writeMetadataCached (compressMetadataBlocks zlib dr True) w1"
  have w1: "w1 = w\<lparr>wout := wout w @ table ir\<rparr>" "w2 = w\<lparr>wout := wout w @ table ir @ table dr\<rparr>"
    by (simp_all add: w1_def w2_def writeMetadataCached_def table_fixed)
  define w3 where "w3 = w2\<lparr>wout := wout w2 @ frag_part zlib (dataPos w2) (fragments w2)\<rparr>"
  obtain st w4 where w4: "writeIDTable zlib w3 = (st, w4)" by fastforce
  have "length (concat (map frag_entry (fragments w))) \<le> 16" using assms(1) by simp
  then have "length (pieces (concat (map frag_entry (fragments w)))) \<le> 1"
    unfolding length_pieces by linarith
  then have "length (frag_part zlib (dataPos w2) (fragments w2)) \<le> 26"
    using length_packed [of zlib "concat (map frag_entry (fragments w))"] assms(1)
    by (simp add: frag_part_def w1 length_packed_offs o_def)
  moreover have "length (table ir) \<le> 4098" "length (table dr) \<le> 4098"
    using assms(4,5) unfolding length_table length_pieces by linarith+
  ultimately have "length (wout w3) \<le> 13000" using assms(3) by (simp add: w3_def w1)
  moreover have "length (wout w4) \<le> length (wout w3) + 14"
  proof -
    have i: "idTable w3 \<noteq> []" "length (concat (map le32 (idTable w3))) = 4" using assms(2) by (auto simp: w3_def w1)
    then have "length (pieces (concat (map le32 (idTable w3)))) = 1" by (simp add: length_pieces)
    then show ?thesis
      using w4 i length_packed [of zlib "concat (map le32 (idTable w3))"]
      by (auto simp: writeIDTable_def tracked write_pointers_def Let_def length_packed_offs o_def)
  qed
  moreover have "length (write_tables zlib (compressMetadataBlocks zlib ir True) (compressMetadataBlocks zlib dr True) ref w)
      \<le> 96 + length (wout w4) + 4096"
    unfolding write_tables_def Let_def w1_def [symmetric] w2_def [symmetric] fragment_table prod.case w3_def [symmetric] w4
    by (simp add: length_header less_imp_le)
  ultimately show ?thesis by simp
qed

lemma sample_image: "\<exists>img. build (\<lambda>d. d) (lookup_dir sample_tree) None sample_tree (NewWriter 4 1 0) = Inr img \<and> length img < 2 ^ 32"
proof -
  obtain w1 i w where w: "processDir (\<lambda>d. d) (lookup_dir sample_tree) None [] sample_tree (NewWriter 4 1 0) = Inr (i, w1)"
      "w = flushFragBlock (\<lambda>d. d) w1" "length (wout w) = 6" "length (fragments w) = 1" "length (idTable w) = 1"
      "length (inodeRaw w) = 100" "length (dirRaw w) = 42" using sample_walk by blast
  have z: "zok (\<lambda>d. d) Some" by (simp add: zok_def)
  have ok: "node_ok sample_tree" by (simp add: sample_tree_def name_ok_def)
  have sm: "small w" using w by (simp add: small_def dataPos_def SquashfsHeaderSize_def blk_of_def)
  from build_succeeds [OF w(1) z _ ok w(2) sm] obtain ref where b: "build (\<lambda>d. d) (lookup_dir sample_tree) None sample_tree (NewWriter 4 1 0) =
    Inr (write_tables (\<lambda>d. d) (compressMetadataBlocks (\<lambda>d. d) (pinode w) True) (compressMetadataBlocks (\<lambda>d. d) (pdir w) True) ref w)" by auto
  have "small w1" using small_earlier [OF sm] grows_flush w(2) by blast
  from walk_root [OF w(1) z _ ok this] flush_step [OF _ z, of w1] sm w(2) have "winv Some w" by (auto simp: small_def)
  then have "length (pinode w) \<le> 4096" "length (pdir w) \<le> 4096" using w(6,7) winv_lengths by auto
  from b write_tables_bound [OF _ _ _ this] w(3-5) show ?thesis by simp
qed

section \<open>Theorems\<close>

lemma build_read:
  assumes "build zlib listDir filt root (NewWriter bs c t) = Inr img" "zok zlib unzlib"
    "unat bs < 2 ^ 24" "length img < 2 ^ 32" "node_ok root"
  shows "\<exists>tree. source_tree listDir filt root = Some tree \<and> (\<forall>fuel > size tree. read_image unzlib fuel img = Some tree)"
proof -
  from build_image [OF assms]
  obtain tree w h rest where r: "source_tree listDir filt root = Some tree" "reads unzlib w (nextInode w - 1) tree"
      "final unzlib w w (image_disk unzlib img h)" "img = enc_header h @ wout w @ table (pinode w) @ rest" "Magic h = SQUASHFS_MAGIC"
      "unat (drop_bit 16 (RootInode h)) = blk_of (inodePos w (nextInode w - 1))"
      "unat (RootInode h AND 0xFFFF) = inodePos w (nextInode w - 1) mod 8192"
    by blast
  have "read_image unzlib fuel img = Some tree" if "size tree < fuel" for fuel
    using r that by (simp add: read_image_def dec_enc_header length_header SquashfsHeaderSize_def reads_def)
  with r(1) show ?thesis by blast
qed

text \<open>
  C23. A directory survives the way into an image and back. Whenever \<open>CreateFromDir\<close> without a filter writes an image of less than
  4 GiB, with blocks smaller than 16 MiB and a decompressor that inverts the compressor, a reader of the format that starts at
  the superblock recovers the whole directory tree: names in ascending order, permission bits, modification times, file contents
  to the last byte and link targets; only devices, pipes and sockets are left out. Names, targets and file sizes are as the
  format allows (\<open>node_ok\<close>).
\<close>

theorem create_from_dir:
  assumes "CreateFromDir zlib None root (NewWriter bs c t) = Inr img" "zok zlib unzlib"
    "unat bs < 2 ^ 24" "length img < 2 ^ 32" "node_ok root" "distinct_names root"
  shows "\<exists>tree. host_tree root = Some tree \<and> (\<forall>fuel > size tree. read_image unzlib fuel img = Some tree)"
  using build_read [OF assms(1) [unfolded CreateFromDir_def] assms(2-5)] source_tree_host [OF assms(6)] by blast

theorem create_from_dir_witness:
  "\<exists>img. CreateFromDir (\<lambda>d. d) None sample_tree (NewWriter 4 1 0) = Inr img \<and>
     (\<forall>fuel > 12. read_image Some fuel img = map_option id (host_tree sample_tree)) \<and> host_tree sample_tree \<noteq> None"
proof -
  obtain img where b: "CreateFromDir (\<lambda>d. d) None sample_tree (NewWriter 4 1 0) = Inr img" "length img < 2 ^ 32"
    using sample_image by (auto simp: CreateFromDir_def)
  have "zok (\<lambda>d. d) Some" "node_ok sample_tree" "distinct_names sample_tree" by (simp_all add: zok_def sample_tree_def name_ok_def)
  from create_from_dir [OF b(1) this(1) _ b(2) this(2,3)] obtain tree
    where "host_tree sample_tree = Some tree" "\<forall>fuel > size tree. read_image Some fuel img = Some tree" by auto
  moreover have "size (the (host_tree sample_tree)) \<le> 12" by (simp add: sample_tree_def)
  ultimately show ?thesis using b(1) by (auto simp: option.map_id)
qed

text \<open>
  C24. An image holds what was listed and accepted. Whenever \<open>build\<close>, the common part of \<open>CreateFromDir\<close> and
  \<open>CreateFromPaths\<close>, writes an image under the conditions above, for any path list and any filter, the reader recovers exactly
  the entries that \<open>listDir\<close> lists, that exist and that the filter accepts, below directories for which this holds.
\<close>

theorem squashfs_roundtrip:
  assumes "build zlib listDir filt root (NewWriter bs c t) = Inr img" "zok zlib unzlib"
    "unat bs < 2 ^ 24" "length img < 2 ^ 32" "node_ok root"
  shows "\<exists>tree. source_tree listDir filt root = Some tree \<and> (\<forall>fuel > size tree. read_image unzlib fuel img = Some tree)"
  using assms by (rule build_read)

theorem squashfs_roundtrip_witness:
  "\<exists>img. build (\<lambda>d. d) (lookup_dir sample_tree) None sample_tree (NewWriter 4 1 0) = Inr img \<and>
     read_image Some 30 img =
       Some (RDir (unixMode 493) 7 [(''d'', RDir (unixMode 488) 9 [(''f'', RFile (unixMode 420) 8 [1, 2, 3, 4, 5, 6])])])"
proof -
  obtain img where b: "build (\<lambda>d. d) (lookup_dir sample_tree) None sample_tree (NewWriter 4 1 0) = Inr img" "length img < 2 ^ 32"
    using sample_image by blast
  have "zok (\<lambda>d. d) Some" "node_ok sample_tree" by (simp_all add: zok_def sample_tree_def name_ok_def)
  from squashfs_roundtrip [OF b(1) this(1) _ b(2) this(2)] b(1) show ?thesis
    by (auto simp: sample_source)
qed

text \<open>
  C25. The file count of an image is right. For every image that is written under the same conditions, \<open>CountRegularFiles\<close>
  reports no error and exactly the number of regular files of the tree that the image holds.
\<close>

theorem count_regular_files:
  assumes "build zlib listDir filt root (NewWriter bs c t) = Inr img" "zok zlib unzlib"
    "0 < unat bs" "unat bs < 2 ^ 24" "length img < 2 ^ 32" "node_ok root"
  shows "\<exists>tree. source_tree listDir filt root = Some tree \<and> CountRegularFiles unzlib img = (files tree, None)"
proof -
  from build_image [OF assms(1,2,4-6)] obtain i w1 w h rest where b: "processDir zlib listDir filt [] root (NewWriter bs c t) = Inr (i, w1)"
      "w = flushFragBlock zlib w1" "small w1" "winv unzlib w" "Magic h = SQUASHFS_MAGIC" "Inodes h = nextInode w - 1" "BlockSize h = bs"
      "img = enc_header h @ wout w @ table (pinode w) @ rest"
      "InodeTableStart h = word_of_nat (dataPos w)" "DirectoryTableStart h = word_of_nat (dataPos w + length (table (pinode w)))"
    by blast
  obtain m mt kids names cs w0 where p: "root = Dir m mt kids" "listDir [] = Some names"
      "walk zlib kids (sort names) (NewWriter bs c t) cs (listed listDir filt [] kids (sort names)) w0" "finish_dir m mt cs w0 = (i, w1)"
    using processDir_walk [OF b(1)] by blast
  define xs where "xs = listed listDir filt [] kids (sort names)"
  have s0: "small w0" using small_earlier [OF b(3) grows_dir [OF p(4)]] .
  have ok: "list_all (\<lambda>(n, c). name_ok n \<and> node_ok c) kids" "unat (blockSize (NewWriter bs c t)) < 2 ^ 24"
    using assms(4,6) p(1) by (simp_all add: NewWriter_def)
  have bs: "blockSize (NewWriter bs c t) = bs" by (simp add: NewWriter_def)
  have "scanned (unat bs) (NewWriter bs c t) 0"
    by (simp add: scanned_def pinode_def NewWriter_def count_def file_chunks_def)
  from scan_walk [OF p(3) assms(2) winv_new s0 ok(2,1), unfolded bs, OF this]
  have "scanned (unat bs) w0 (sum_list (map (files \<circ> snd) xs))" by (simp add: xs_def)
  moreover note r = walk_reads [OF p(3) assms(2) winv_new s0 ok(2,1)]
  have "sorted (map cname cs)" using walk_sorted [OF p(3)] by simp
  ultimately have "scanned (unat bs) w1 (sum_list (map (files \<circ> snd) xs))"
    using r scan_dir [OF p(4) _ b(3)] by blast
  then have "scanned (unat bs) w (sum_list (map (files \<circ> snd) xs))"
    using same_scanned [OF same_flush [of w1 zlib]] by (simp add: b(2))
  then obtain chunks where ch: "pinode w = concat chunks" "list_all (chunk_ok (unat bs)) chunks" "length chunks = count w"
      "file_chunks chunks = sum_list (map (files \<circ> snd) xs)" by (auto simp: scanned_def)
  have n: "unat (Inodes h) = length chunks"
    using winvE(1) [OF b(4)] unat_minus_one [of "nextInode w"] by (cases "nextInode w = 0") (simp_all add: b(6) ch(3) count_def)
  have "length (enc_header h @ wout w) < 2 ^ 32" "length (enc_header h @ wout w) + length (table (pinode w)) < 2 ^ 32"
    using assms(5) by (simp_all add: b(8))
  moreover have "dataPos w = length (enc_header h @ wout w)" by (simp add: dataPos_def SquashfsHeaderSize_def length_header)
  ultimately have u: "unat (InodeTableStart h) = length (enc_header h @ wout w)"
      "unat (DirectoryTableStart h) = length (enc_header h @ wout w) + length (table (pinode w))"
    unfolding b(9,10) by (simp_all only: unat64)
  have "read_table unzlib img (unat (InodeTableStart h)) (unat (DirectoryTableStart h)) = Inr (concat chunks)"
    using read_table_ok [of unzlib "enc_header h @ wout w" "pinode w" rest] unfolding u b(8) ch(1) by simp
  moreover have "Info img = Inr h"
    by (simp add: Info_def b(5,8) dec_enc_header length_header SquashfsHeaderSize_def)
  ultimately have "CountRegularFiles unzlib img = (file_chunks chunks, None)"
    using count_chunks [OF ch(2), of "[]"] assms(3) by (simp add: CountRegularFiles_def n b(7) unat_gt_0)
  moreover have "source_tree listDir filt root = Some (RDir (unixMode m) (word_of_int mt) xs)"
    by (simp add: source_tree_def p(1,2) xs_def)
  ultimately show ?thesis by (simp add: ch(4) case_prod_beta' o_def)
qed

theorem count_regular_files_witness:
  "\<exists>img. build (\<lambda>d. d) (lookup_dir sample_tree) None sample_tree (NewWriter 4 1 0) = Inr img \<and> CountRegularFiles Some img = (1, None)"
proof -
  obtain img where b: "build (\<lambda>d. d) (lookup_dir sample_tree) None sample_tree (NewWriter 4 1 0) = Inr img" "length img < 2 ^ 32"
    using sample_image by blast
  have "zok (\<lambda>d. d) Some" "node_ok sample_tree" by (simp_all add: zok_def sample_tree_def name_ok_def)
  from count_regular_files [OF b(1) this(1) _ _ b(2) this(2)] b(1) show ?thesis
    by (auto simp: sample_source)
qed

end
