(* ===== verification/RenumberService.thy ===== *)
theory RenumberService
  imports IpAlloc
begin

text \<open>
  The supervisor of the prefix source and the applier, \<open>src/pkg/container/net/renumber/service.go\<close>. The state is the
  record behind \<open>mu\<close> with the list of live \<open>drain\<close> goroutines. Each region under the lock is one atomic operation;
  between two of them a goroutine waits for a timer, for \<open>Apply\<close> or for the lock. An interleaving is a sequence of
  such steps. Durations are nanoseconds.
\<close>

section \<open>State and operations\<close>

definition defaultRetryBackoff :: int where "defaultRetryBackoff = 5 * 10 ^ 9"
definition maxRetryBackoff :: int where "maxRetryBackoff = 60 * 10 ^ 9"

text \<open>Where a \<open>drain\<close> goroutine stands, with its current backoff and the prefix it has taken.\<close>

datatype drain =
    DTop int
  | DDebounce int IPNet
  | DApply int IPNet
  | DRetry int IPNet

record Service =
  pending :: "IPNet option"
  current :: "IPNet option"
  running :: bool
  drains :: "drain list"
  debounce :: int
  retryBackoff :: int

definition NewService :: "int \<Rightarrow> Service" where
  "NewService deb = \<lparr>pending = None, current = None, running = False, drains = [],
     debounce = (if deb \<le> 0 then 2 * 10 ^ 9 else deb), retryBackoff = defaultRetryBackoff\<rparr>"

definition enqueue :: "IPNet \<Rightarrow> Service \<Rightarrow> Service" where
  "enqueue p s =
     (if (\<exists>c \<in> set_option (current s). cidrEqual c p) then s
      else let s1 = s\<lparr>pending := Some p\<rparr>
           in if running s1 then s1
              else s1\<lparr>running := True, drains := drains s1 @ [DTop (retryBackoff s1)]\<rparr>)"

definition set_drain :: "nat \<Rightarrow> drain \<Rightarrow> Service \<Rightarrow> Service" where
  "set_drain i d s = s\<lparr>drains := (drains s)[i := d]\<rparr>"

text \<open>A goroutine that returns leaves the list.\<close>

definition end_drain :: "nat \<Rightarrow> Service \<Rightarrow> Service" where
  "end_drain i s = s\<lparr>running := False, drains := take i (drains s) @ drop (Suc i) (drains s)\<rparr>"

definition drain_top :: "nat \<Rightarrow> int \<Rightarrow> Service \<Rightarrow> Service" where
  "drain_top i backoff s =
     (let s1 = s\<lparr>pending := None\<rparr>
      in case pending s of
           None \<Rightarrow> end_drain i s1
         | Some next \<Rightarrow> set_drain i (DDebounce backoff next) s1)"

definition drain_debounced :: "nat \<Rightarrow> int \<Rightarrow> IPNet \<Rightarrow> Service \<Rightarrow> Service" where
  "drain_debounced i backoff next0 s =
     (let next = (case pending s of None \<Rightarrow> next0 | Some q \<Rightarrow> q);
          s1 = s\<lparr>pending := None, current := Some next\<rparr>
      in set_drain i (DApply backoff next) s1)"

definition drain_applied :: "nat \<Rightarrow> int \<Rightarrow> IPNet \<Rightarrow> bool \<Rightarrow> Service \<Rightarrow> Service" where
  "drain_applied i backoff next ok s =
     (if ok then set_drain i (DTop (retryBackoff s)) s
      else set_drain i (DRetry backoff next) (s\<lparr>current := None\<rparr>))"

definition drain_retry :: "nat \<Rightarrow> int \<Rightarrow> IPNet \<Rightarrow> Service \<Rightarrow> Service" where
  "drain_retry i backoff next s =
     set_drain i (DTop (min (backoff * 2) maxRetryBackoff))
       (case pending s of None \<Rightarrow> s\<lparr>pending := Some next\<rparr> | Some q \<Rightarrow> s)"

section \<open>Interleavings\<close>

datatype event = Enqueue IPNet | Take | Debounced | Applied IPNet bool | Retried | Cancelled

inductive svc_step :: "Service \<Rightarrow> event \<Rightarrow> Service \<Rightarrow> bool" where
  step_enqueue: "svc_step s (Enqueue p) (enqueue p s)"
| step_take: "i < length (drains s) \<Longrightarrow> drains s ! i = DTop b \<Longrightarrow> svc_step s Take (drain_top i b s)"
| step_debounced: "i < length (drains s) \<Longrightarrow> drains s ! i = DDebounce b p \<Longrightarrow> svc_step s Debounced (drain_debounced i b p s)"
| step_applied: "i < length (drains s) \<Longrightarrow> drains s ! i = DApply b p \<Longrightarrow> svc_step s (Applied p ok) (drain_applied i b p ok s)"
| step_retried: "i < length (drains s) \<Longrightarrow> drains s ! i = DRetry b p \<Longrightarrow> svc_step s Retried (drain_retry i b p s)"
| step_cancelled: "i < length (drains s) \<Longrightarrow> drains s ! i \<in> {DDebounce b p, DRetry b p} \<Longrightarrow> svc_step s Cancelled (end_drain i s)"

inductive_cases svc_stepE: "svc_step s e s'"

inductive svc_run :: "Service \<Rightarrow> event list \<Rightarrow> Service \<Rightarrow> bool" where
  run_nil: "svc_run s [] s"
| run_snoc: "svc_run s es s1 \<Longrightarrow> svc_step s1 e s2 \<Longrightarrow> svc_run s (es @ [e]) s2"

section \<open>One drain at a time\<close>

definition backoff_ok :: "Service \<Rightarrow> int \<Rightarrow> bool" where
  "backoff_ok s b \<longleftrightarrow> retryBackoff s \<le> b \<and> b \<le> maxRetryBackoff"

fun drain_ok :: "Service \<Rightarrow> drain \<Rightarrow> bool" where
  "drain_ok s (DTop b) = backoff_ok s b"
| "drain_ok s (DDebounce b p) = backoff_ok s b"
| "drain_ok s (DApply b p) = (backoff_ok s b \<and> current s = Some p)"
| "drain_ok s (DRetry b p) = (backoff_ok s b \<and> current s = None)"

definition svc_inv :: "Service \<Rightarrow> bool" where
  "svc_inv s \<longleftrightarrow> 0 \<le> retryBackoff s \<and> retryBackoff s \<le> maxRetryBackoff \<and>
     (running s \<longrightarrow> (\<exists>d. drains s = [d] \<and> drain_ok s d)) \<and> (\<not> running s \<longrightarrow> drains s = [])"

lemma svc_inv_cases:
  assumes "svc_inv s"
  obtains "\<not> running s" "drains s = []" | d where "running s" "drains s = [d]" "drain_ok s d"
  using assms by (auto simp: svc_inv_def)

lemmas svc_ops = enqueue_def drain_top_def drain_debounced_def drain_applied_def drain_retry_def set_drain_def end_drain_def

lemma drain_ok_pending [simp]: "drain_ok (s\<lparr>pending := x\<rparr>) d = drain_ok s d"
  by (cases d) (simp_all add: backoff_ok_def)

lemma svc_inv_step: "svc_step s e s' \<Longrightarrow> svc_inv s \<Longrightarrow> svc_inv s'"
  by (erule svc_step.cases; auto simp: svc_inv_def svc_ops backoff_ok_def Let_def min_def split: option.splits)

lemma svc_inv_run: "svc_run s es s' \<Longrightarrow> svc_inv s \<Longrightarrow> svc_inv s'"
  by (induction rule: svc_run.induct) (auto intro: svc_inv_step)

lemma svc_inv_new: "svc_inv (NewService d)"
  by (simp add: svc_inv_def NewService_def defaultRetryBackoff_def maxRetryBackoff_def)

section \<open>Nothing accepted is lost\<close>

text \<open>Without a cancellation a pending prefix has a goroutine that will take it.\<close>

definition svc_attended :: "Service \<Rightarrow> bool" where
  "svc_attended s \<longleftrightarrow> (pending s \<noteq> None \<longrightarrow> running s)"

lemma svc_attended_step: "svc_step s e s' \<Longrightarrow> e \<noteq> Cancelled \<Longrightarrow> svc_inv s \<Longrightarrow> svc_attended s \<Longrightarrow> svc_attended s'"
  by (erule svc_step.cases; auto simp: svc_inv_def svc_attended_def svc_ops Let_def split: option.splits)

lemma svc_attended_run:
  "svc_run s es s' \<Longrightarrow> Cancelled \<notin> set es \<Longrightarrow> svc_inv s \<Longrightarrow> svc_attended s \<Longrightarrow> svc_attended s'"
proof (induction rule: svc_run.induct)
  case (run_snoc s es s1 e s2)
  then show ?case using svc_attended_step [of s1 e s2] svc_inv_run [of s es s1] by auto
qed simp

text \<open>The prefix the service is working towards.\<close>

fun taken :: "drain \<Rightarrow> IPNet option" where
  "taken (DTop b) = None"
| "taken (DDebounce b p) = Some p"
| "taken (DApply b p) = Some p"
| "taken (DRetry b p) = Some p"

definition target :: "Service \<Rightarrow> IPNet option" where
  "target s =
     (case pending s of
        Some p \<Rightarrow> Some p
      | None \<Rightarrow> (case drains s of
                  [] \<Rightarrow> current s
                | d # ds \<Rightarrow> (case taken d of Some p \<Rightarrow> Some p | None \<Rightarrow> current s)))"

fun drain_event :: "event \<Rightarrow> bool" where
  "drain_event (Enqueue p) = False"
| "drain_event Cancelled = False"
| "drain_event _ = True"

fun failure :: "event \<Rightarrow> bool" where
  "failure (Applied p ok) = (\<not> ok)"
| "failure _ = False"

lemma target_step: "svc_step s e s' \<Longrightarrow> drain_event e \<Longrightarrow> svc_inv s \<Longrightarrow> target s' = target s"
  by (erule svc_step.cases; auto simp: svc_inv_def svc_ops target_def Let_def split: option.splits)

text \<open>The number of steps to go when every \<open>Apply\<close> succeeds.\<close>

definition rank :: "Service \<Rightarrow> nat" where
  "rank s =
     (case drains s of
        [] \<Rightarrow> 0
      | DTop b # ds \<Rightarrow> if pending s = None then 1 else 4
      | DDebounce b p # ds \<Rightarrow> 3
      | DApply b p # ds \<Rightarrow> if pending s = None then 2 else 5
      | DRetry b p # ds \<Rightarrow> 5)"

lemma rank_le: "rank s \<le> 5"
  by (simp add: rank_def split: list.split drain.split)

lemma rank_step:
  "svc_step s e s' \<Longrightarrow> drain_event e \<Longrightarrow> svc_inv s \<Longrightarrow> rank s' + 1 \<le> rank s + (if failure e then 4 else 0)"
  by (erule svc_step.cases; auto simp: svc_inv_def svc_ops rank_def Let_def split: option.splits)

lemma drain_run:
  "svc_run s ls s' \<Longrightarrow> list_all drain_event ls \<Longrightarrow> svc_inv s \<Longrightarrow>
     length ls + rank s' \<le> rank s + 4 * length (filter failure ls) \<and> target s' = target s"
proof (induction rule: svc_run.induct)
  case (run_snoc s es s1 e s2)
  then have i: "svc_inv s1" using svc_inv_run by blast
  have "rank s2 + 1 \<le> rank s1 + (if failure e then 4 else 0)" "target s2 = target s1"
    using rank_step [of s1 e s2] target_step [of s1 e s2] run_snoc i by auto
  then show ?case using run_snoc by (auto split: if_splits)
qed simp

lemma drain_progress:
  assumes "svc_inv s" "running s"
  shows "\<exists>e s'. drain_event e \<and> svc_step s e s'"
proof -
  from assms obtain d where d: "drains s = [d]" by (auto simp: svc_inv_def)
  show ?thesis
  proof (cases d)
    case (DTop b)
    with d show ?thesis using step_take [of 0 s b] by (intro exI [of _ Take]) auto
  next
    case (DDebounce b p)
    with d show ?thesis using step_debounced [of 0 s b p] by (intro exI [of _ Debounced]) auto
  next
    case (DApply b p)
    with d show ?thesis using step_applied [of 0 s b p True] by (intro exI [of _ "Applied p True"]) auto
  next
    case (DRetry b p)
    with d show ?thesis using step_retried [of 0 s b p] by (intro exI [of _ Retried]) auto
  qed
qed

lemma svc_run_append: "svc_run s1 es2 s2 \<Longrightarrow> svc_run s0 es1 s1 \<Longrightarrow> svc_run s0 (es1 @ es2) s2"
proof (induction rule: svc_run.induct)
  case (run_snoc s es s1 e s2)
  then have "svc_run s0 (es1 @ es) s1" by simp
  then have "svc_run s0 ((es1 @ es) @ [e]) s2" using run_snoc.hyps(2) by (rule svc_run.run_snoc)
  then show ?case by simp
qed simp

section \<open>Theorems\<close>

text \<open>
  C30. Renumbering is single-flight. In every interleaving of prefix events, timers, results of \<open>Apply\<close> and
  cancellation there is at most one \<open>drain\<close> goroutine, exactly while \<open>running\<close> is set; while it applies a prefix, that
  prefix is the current one; after a failure nothing is current; and the backoff stays between its start and 60 seconds.
\<close>

theorem single_flight:
  assumes "svc_run (NewService deb) es s"
  shows "(running s \<longrightarrow> (\<exists>d. drains s = [d] \<and> drain_ok s d)) \<and> (\<not> running s \<longrightarrow> drains s = [])"
  using svc_inv_run [OF assms svc_inv_new] by (simp add: svc_inv_def)

definition net0 :: "byte \<Rightarrow> IPNet" where
  "net0 b = \<lparr>nIP = 0x20 # b # zeros 14, nMask = replicate 8 255 @ zeros 8\<rparr>"

lemma net0_eq: "cidrEqual (net0 1) (net0 1)" "\<not> cidrEqual (net0 1) (net0 2)" "\<not> cidrEqual (net0 2) (net0 1)"
  by (code_simp)+

text \<open>Executing a run from the list of its events, for a state with at most one goroutine.\<close>

fun svc_exec :: "event list \<Rightarrow> Service \<Rightarrow> Service option" where
  "svc_exec [] s = Some s"
| "svc_exec (Enqueue p # es) s = svc_exec es (enqueue p s)"
| "svc_exec (Cancelled # es) s = None"
| "svc_exec (e # es) s =
     (case (e, drains s) of
        (Take, [DTop b]) \<Rightarrow> svc_exec es (drain_top 0 b s)
      | (Debounced, [DDebounce b p]) \<Rightarrow> svc_exec es (drain_debounced 0 b p s)
      | (Applied q ok, [DApply b p]) \<Rightarrow> if q = p then svc_exec es (drain_applied 0 b p ok s) else None
      | (Retried, [DRetry b p]) \<Rightarrow> svc_exec es (drain_retry 0 b p s)
      | _ \<Rightarrow> None)"

lemma svc_run_Cons: "svc_step s e s1 \<Longrightarrow> svc_run s1 es s2 \<Longrightarrow> svc_run s (e # es) s2"
  using svc_run_append [of s1 es s2 s "[e]"] run_snoc [OF run_nil] by fastforce

lemma svc_exec_run: "svc_exec es s = Some s' \<Longrightarrow> svc_run s es s'"
  by (induction es s rule: svc_exec.induct)
    (auto split: list.splits drain.splits if_splits intro!: svc_run_Cons svc_step.intros svc_run.run_nil)

definition run1 :: "event list" where
  "run1 = [Enqueue (net0 1), Take, Debounced, Applied (net0 1) False, Retried]"

theorem single_flight_witness:
  "\<exists>s. svc_run (NewService 0) run1 s \<and> running s \<and> drains s = [DTop (10 * 10 ^ 9)] \<and> drain_ok s (DTop (10 * 10 ^ 9))"
proof -
  obtain s where s: "svc_exec run1 (NewService 0) = Some s" "running s" "drains s = [DTop (10 * 10 ^ 9)]"
    by (simp add: run1_def NewService_def svc_ops Let_def defaultRetryBackoff_def maxRetryBackoff_def)
  from svc_exec_run [OF s(1)] have r: "svc_run (NewService 0) run1 s" .
  from single_flight [OF r] s(2,3) have "drain_ok s (DTop (10 * 10 ^ 9))" by auto
  with r s show ?thesis by blast
qed

text \<open>
  C31. The latest accepted prefix is applied. Take any state reached without cancellation and a prefix that is not the
  current one there. After it is enqueued, with no further event, the goroutine takes at most \<open>5 + 4 f\<close> steps, where \<open>f\<close>
  is the number of failed \<open>Apply\<close> calls; it is never stuck; and when it has stopped, that prefix is the current one, so
  its \<open>Apply\<close> was the last and succeeded.
\<close>

theorem latest_prefix_applied:
  assumes "svc_run (NewService deb) es s0" "Cancelled \<notin> set es" "\<forall>c \<in> set_option (current s0). \<not> cidrEqual c p"
    and "svc_run (enqueue p s0) ls s" "list_all drain_event ls"
  shows "length ls \<le> 5 + 4 * length (filter failure ls) \<and>
    (if running s then \<exists>e s'. drain_event e \<and> svc_step s e s' else pending s = None \<and> current s = Some p)"
proof -
  have i0: "svc_inv s0" "svc_attended s0"
    using svc_inv_run [OF assms(1) svc_inv_new] svc_attended_run [OF assms(1,2) svc_inv_new]
    by (simp_all add: svc_attended_def NewService_def)
  have i1: "svc_inv (enqueue p s0)" "svc_attended (enqueue p s0)"
    using svc_inv_step [OF step_enqueue i0(1)] svc_attended_step [OF step_enqueue _ i0] by auto
  have t1: "target (enqueue p s0) = Some p" using assms(3) by (auto simp: enqueue_def Let_def target_def)
  have "Cancelled \<notin> set ls" using assms(5) by (auto simp: list_all_iff)
  then have i: "svc_inv s" "svc_attended s"
    using svc_inv_run [OF assms(4) i1(1)] svc_attended_run [OF assms(4) _ i1] by auto
  have d: "length ls + rank s \<le> rank (enqueue p s0) + 4 * length (filter failure ls)" "target s = Some p"
    using drain_run [OF assms(4,5) i1(1)] t1 by auto
  have "pending s = None \<and> current s = Some p" if "\<not> running s"
    using that i d(2) by (auto simp: svc_attended_def svc_inv_def target_def)
  with d(1) rank_le [of "enqueue p s0"] drain_progress [OF i(1)] show ?thesis by auto
qed

definition run2 :: "event list" where
  "run2 = [Take, Debounced, Applied (net0 2) False, Retried, Take, Debounced, Applied (net0 2) True, Take]"

definition svc1 :: Service where
  "svc1 = the (svc_exec [Enqueue (net0 1), Take, Debounced, Applied (net0 1) True, Take] (NewService 0))"

lemma svc1_fields: "svc1 = NewService 0 \<lparr>current := Some (net0 1)\<rparr>"
  "svc_exec [Enqueue (net0 1), Take, Debounced, Applied (net0 1) True, Take] (NewService 0) = Some svc1"
  by (simp_all add: svc1_def NewService_def svc_ops Let_def)

theorem latest_prefix_applied_witness:
  "\<exists>s. svc_run (enqueue (net0 2) svc1) run2 s \<and> current s = Some (net0 2)"
proof -
  obtain s where s: "svc_exec run2 (enqueue (net0 2) svc1) = Some s" "\<not> running s"
    using net0_eq by (simp add: run2_def svc1_fields NewService_def svc_ops Let_def)
  note r = svc_exec_run [OF s(1)]
  have "list_all drain_event run2" by (simp add: run2_def)
  moreover have "\<forall>c \<in> set_option (current svc1). \<not> cidrEqual c (net0 2)" using net0_eq by (simp add: svc1_fields)
  ultimately show ?thesis using latest_prefix_applied [OF svc_exec_run [OF svc1_fields(2)] _ _ r] s(2) r by auto
qed

end
