(* ===== verification/RaWatch.thy ===== *)
theory RaWatch
  imports IpAlloc "HOL-Library.AList"
begin

text \<open>
  Which prefixes the routers still advertise: \<open>src/pkg/container/net/renumber/ra_watch.go\<close>. The tracker is pure in the
  source, too: callers pass the clock. A time is a number of nanoseconds, zero is the zero value of \<open>time.Time\<close>. A Go
  map is an association list; where the result depends on the order in which the runtime enumerates a map, that order
  is an argument. The keys are the texts of an address and of a prefix in the source; text and value determine each
  other, so the value is the key here.
\<close>

section \<open>Maps as association lists\<close>

definition map_vals :: "('k \<Rightarrow> 'v \<Rightarrow> 'w) \<Rightarrow> ('k \<times> 'v) list \<Rightarrow> ('k \<times> 'w) list" where
  "map_vals f xs = map (\<lambda>(k, v). (k, f k v)) xs"

definition filter_vals :: "('k \<Rightarrow> 'v \<Rightarrow> bool) \<Rightarrow> ('k \<times> 'v) list \<Rightarrow> ('k \<times> 'v) list" where
  "filter_vals P xs = filter (\<lambda>(k, v). P k v) xs"

lemma map_of_map_vals [simp]: "map_of (map_vals f xs) k = map_option (f k) (map_of xs k)"
  unfolding map_vals_def by (induction xs) auto

lemma keys_map_vals [simp]: "map fst (map_vals f xs) = map fst xs"
  unfolding map_vals_def by (induction xs) auto

lemma length_map_vals [simp]: "length (map_vals f xs) = length xs"
  by (simp add: map_vals_def)

lemma map_of_filter_vals:
  "distinct (map fst xs) \<Longrightarrow>
    map_of (filter_vals P xs) k = (case map_of xs k of None \<Rightarrow> None | Some v \<Rightarrow> if P k v then Some v else None)"
  unfolding filter_vals_def by (induction xs) (auto simp: map_of_eq_None_iff split: option.split)

lemma distinct_filter_vals [simp]: "distinct (map fst xs) \<Longrightarrow> distinct (map fst (filter_vals P xs))"
  unfolding filter_vals_def by (induction xs) auto

lemma length_filter_vals: "length (filter_vals P xs) \<le> length xs"
  by (simp add: filter_vals_def)

lemma length_alist_update:
  "length (AList.update k v xs) = (if map_of xs k = None then Suc (length xs) else length xs)"
  by (induction xs) auto

section \<open>Advertisements\<close>

definition raMissLimit :: nat where "raMissLimit = 2"
definition raMissTimeout :: int where "raMissTimeout = 30 * 10 ^ 9"
definition raSolicitGap :: int where "raSolicitGap = 10 * 10 ^ 9"
definition raConfirmDelay :: int where "raConfirmDelay = 4 * 10 ^ 9"
definition raBurstGap :: int where "raBurstGap = 200 * 10 ^ 6"
definition raWithdrawKeep :: int where "raWithdrawKeep = 2 * 3600 * 10 ^ 9"
definition raMaxRouters :: nat where "raMaxRouters = 8"
definition raMaxPrefixes :: nat where "raMaxPrefixes = 32"

datatype ra_reason = raReasonWithdrawn | raReasonMissing | raReasonTimeout

record raPIO =
  pPrefix :: IPNet
  pValid :: u32

definition isMulticast :: "ip \<Rightarrow> bool" where
  "isMulticast ip =
     (case To4 ip of
        Some i4 \<Rightarrow> i4 ! 0 AND 0xf0 = 0xe0
      | None \<Rightarrow> length ip = 16 \<and> ip ! 0 = 0xff)"

definition mask64 :: ipmask where "mask64 = (case CIDRMask 64 128 of None \<Rightarrow> [] | Some m \<Rightarrow> m)"

definition ra_pio :: "bytes \<Rightarrow> raPIO list" where
  "ra_pio opt =
     (let plen = opt ! 2; flags = opt ! 3;
          valid = get_be32 (slice opt 4 8); pref = get_be32 (slice opt 8 12);
          ip = slice opt 16 32
      in if plen = 64 \<and> flags AND 0xc0 \<noteq> 0 \<and> pref \<le> valid \<and> isGlobal ip \<and> \<not> isMulticast ip
         then [\<lparr>pPrefix = \<lparr>nIP = (case ip_Mask ip mask64 of None \<Rightarrow> [] | Some i \<Rightarrow> i), nMask = mask64\<rparr>, pValid = valid\<rparr>]
         else [])"

function ra_options :: "bytes \<Rightarrow> raPIO list \<Rightarrow> raPIO list option" where
  "ra_options opts pios =
     (if opts = [] then Some pios
      else if length opts < 2 then None
      else let l = unat (opts ! 1) * 8
           in if l = 0 \<or> length opts < l then None
              else ra_options (drop l opts) (pios @ (if opts ! 0 = 3 \<and> 32 \<le> l then ra_pio opts else [])))"
  by pat_completeness auto
termination by (relation "measure (length \<circ> fst)") auto

declare ra_options.simps [simp del]

text \<open>\<open>None\<close> stands for \<open>ok = false\<close>.\<close>

definition parseRA :: "bytes \<Rightarrow> raPIO list option" where
  "parseRA b = (if length b < 16 \<or> b ! 0 \<noteq> 134 \<or> b ! 1 \<noteq> 0 then None else ra_options (drop 16 b) [])"

section \<open>The tracker\<close>

record raHold =
  misses :: nat
  lastMiss :: int
  hUntil :: int

record raPrefix =
  withdrawn :: bool
  missCount :: nat
  missSince :: int
  rsAt :: int
  pUntil :: int

record raBurst =
  bStart :: int
  bLast :: int
  bUnicast :: bool
  bSeen :: "IPNet list"

record raTracker =
  routers :: "(ip \<times> (IPNet \<times> raHold) list) list"
  prefixes :: "(IPNet \<times> raPrefix) list"
  bursts :: "(ip \<times> raBurst) list"
  lastRS :: int

definition raReset :: raTracker where
  "raReset = \<lparr>routers = [], prefixes = [], bursts = [], lastRS = 0\<rparr>"

definition raLifetimeEnd :: "int \<Rightarrow> u32 \<Rightarrow> int" where
  "raLifetimeEnd now valid =
     (if valid = 0xffffffff then now + 100 * 365 * 24 * 3600 * 10 ^ 9 else now + uint valid * 10 ^ 9)"

definition laterOf :: "int \<Rightarrow> int \<Rightarrow> int" where
  "laterOf a b = (if b < a then a else b)"

definition raExpire :: "int \<Rightarrow> raTracker \<Rightarrow> raTracker" where
  "raExpire now t =
     (let rs = filter_vals (\<lambda>r hs. hs \<noteq> []) (map_vals (\<lambda>r. filter_vals (\<lambda>k h. \<not> hUntil h < now)) (routers t))
      in t\<lparr>routers := rs,
           prefixes := filter_vals (\<lambda>k st. \<not> pUntil st < now) (prefixes t),
           bursts := filter_vals (\<lambda>r b. map_of rs r \<noteq> None) (bursts t)\<rparr>)"

definition missed_hold :: "raBurst \<Rightarrow> IPNet \<Rightarrow> raHold \<Rightarrow> raHold" where
  "missed_hold b k h = (if k \<in> set (bSeen b) then h else h\<lparr>misses := misses h + 1, lastMiss := bStart b\<rparr>)"

definition missed_prefix :: "raBurst \<Rightarrow> IPNet \<Rightarrow> raPrefix \<Rightarrow> raPrefix" where
  "missed_prefix b k st =
     (if k \<in> set (bSeen b) then st
      else st\<lparr>missSince := (if missCount st = 0 then bStart b else missSince st), missCount := missCount st + 1\<rparr>)"

definition closeBurst :: "ip \<Rightarrow> raBurst \<Rightarrow> raTracker \<Rightarrow> raTracker" where
  "closeBurst r b t =
     t\<lparr>bursts := AList.delete r (bursts t),
       routers := map_vals (\<lambda>r' hs. if r' = r then map_vals (missed_hold b) hs else hs) (routers t),
       prefixes := map_vals (missed_prefix b) (prefixes t)\<rparr>"

definition closeBursts :: "ip list \<Rightarrow> int \<Rightarrow> raTracker \<Rightarrow> raTracker" where
  "closeBursts ord now t =
     fold (\<lambda>r t. case map_of (bursts t) r of
                    None \<Rightarrow> t
                  | Some b \<Rightarrow> if raBurstGap < now - bLast b then closeBurst r b t else t) ord t"

definition holds_of :: "raTracker \<Rightarrow> ip \<Rightarrow> (IPNet \<times> raHold) list" where
  "holds_of t r = (case map_of (routers t) r of None \<Rightarrow> [] | Some hs \<Rightarrow> hs)"

text \<open>A prefix advertised with lifetime zero.\<close>

definition withdraw :: "ip \<Rightarrow> int \<Rightarrow> IPNet \<Rightarrow> raTracker \<Rightarrow> raTracker" where
  "withdraw r now k t =
     t\<lparr>routers := map_vals (\<lambda>r' hs. if r' = r then AList.delete k hs else hs) (routers t),
       prefixes := map_vals (\<lambda>k' st. if k' = k then st\<lparr>withdrawn := True, pUntil := laterOf (pUntil st) (now + raWithdrawKeep)\<rparr> else st)
         (prefixes t)\<rparr>"

definition drop_router :: "ip \<Rightarrow> raTracker \<Rightarrow> raTracker" where
  "drop_router r t = (if holds_of t r = [] then t\<lparr>routers := AList.delete r (routers t)\<rparr> else t)"

text \<open>A router advertises a prefix that is or can be tracked.\<close>

definition track :: "ip \<Rightarrow> int \<Rightarrow> raPIO \<Rightarrow> raTracker \<Rightarrow> raTracker" where
  "track r now p t =
     (let k = pPrefix p;
          until = raLifetimeEnd now (pValid p);
          old = (case map_of (prefixes t) k of None \<Rightarrow> 0 | Some st \<Rightarrow> pUntil st);
          st = \<lparr>withdrawn = False, missCount = 0, missSince = 0, rsAt = 0, pUntil = laterOf old until\<rparr>;
          h = \<lparr>misses = 0, lastMiss = 0, hUntil = until\<rparr>
      in t\<lparr>prefixes := AList.update k st (prefixes t), routers := AList.update r (AList.update k h (holds_of t r)) (routers t)\<rparr>)"

definition trackable :: "raTracker \<Rightarrow> IPNet \<Rightarrow> bool" where
  "trackable t k \<longleftrightarrow> map_of (prefixes t) k \<noteq> None \<or> length (prefixes t) < raMaxPrefixes"

text \<open>One option: the prefixes seen in the burst and whether a prefix is new go along.\<close>

definition advertise :: "ip \<Rightarrow> int \<Rightarrow> IPNet option \<Rightarrow> raPIO \<Rightarrow> raTracker \<times> IPNet list \<times> bool \<Rightarrow> raTracker \<times> IPNet list \<times> bool" where
  "advertise r now active p = (\<lambda>(t, seen, newPrefix).
     let k = pPrefix p
     in if pValid p = 0 then (t, seen, newPrefix)
        else if \<not> trackable t k then (t, if active = Some k then k # seen else seen, newPrefix)
        else (track r now p t, k # seen, newPrefix \<or> map_of (prefixes t) k = None))"

definition observe :: "ip list \<Rightarrow> ip \<Rightarrow> bool \<Rightarrow> raPIO list \<Rightarrow> IPNet option \<Rightarrow> int \<Rightarrow> raTracker \<Rightarrow> bool \<times> raTracker" where
  "observe ord r unicast pios active now t0 =
     (let t1 = closeBursts ord now (raExpire now t0);
          t2 = drop_router r (fold (\<lambda>p t. if pValid p = 0 then withdraw r now (pPrefix p) t else t) pios t1)
      in if list_all (\<lambda>p. pValid p = 0) pios then (False, t2)
         else if map_of (routers t2) r = None \<and> raMaxRouters \<le> length (routers t2) then (False, t2)
         else
           let t3 = (if map_of (routers t2) r = None then t2\<lparr>routers := AList.update r [] (routers t2)\<rparr> else t2);
               t4 = (case map_of (bursts t3) r of
                       Some b \<Rightarrow> if bUnicast b \<noteq> unicast then closeBurst r b t3 else t3
                     | None \<Rightarrow> t3);
               b = (case map_of (bursts t4) r of
                      Some b \<Rightarrow> b | None \<Rightarrow> \<lparr>bStart = now, bLast = now, bUnicast = unicast, bSeen = []\<rparr>);
               (t5, seen, newPrefix) = fold (advertise r now active) pios (t4, bSeen b, False);
               t6 = t5\<lparr>bursts := AList.update r (b\<lparr>bLast := now, bSeen := seen\<rparr>) (bursts t5)\<rparr>;
               unconfirmed = (case active of
                                None \<Rightarrow> False
                              | Some k \<Rightarrow> (case map_of (prefixes t6) k of None \<Rightarrow> False | Some st \<Rightarrow> rsAt st = 0))
           in case active of
                None \<Rightarrow> (False, t6)
              | Some k \<Rightarrow>
                  if k \<in> set seen \<or> \<not> newPrefix \<and> \<not> unconfirmed then (False, t6)
                  else if lastRS t6 \<noteq> 0 \<and> now - lastRS t6 < raSolicitGap then (False, t6)
                  else (True, t6\<lparr>lastRS := now\<rparr>))"

definition solicited :: "int \<Rightarrow> raTracker \<Rightarrow> raTracker" where
  "solicited now t = t\<lparr>prefixes := map_vals (\<lambda>k st. if rsAt st = 0 then st\<lparr>rsAt := now\<rparr> else st) (prefixes t)\<rparr>"

definition advertisedOtherThan :: "raTracker \<Rightarrow> IPNet \<Rightarrow> bool" where
  "advertisedOtherThan t k \<longleftrightarrow> list_ex (\<lambda>(r, hs). list_ex (\<lambda>(k2, h). k2 \<noteq> k \<and> misses h < raMissLimit) hs) (routers t)"

definition holders :: "raTracker \<Rightarrow> IPNet \<Rightarrow> raHold list" where
  "holders t k = List.map_filter (\<lambda>(r, hs). map_of hs k) (routers t)"

definition abandon_reason :: "int \<Rightarrow> raTracker \<Rightarrow> IPNet \<Rightarrow> raPrefix \<Rightarrow> ra_reason option" where
  "abandon_reason now t k st =
     (if \<not> advertisedOtherThan t k then None
      else let hs = holders t k;
               allMissed = list_all (\<lambda>h. raMissLimit \<le> misses h) hs;
               answered = list_all (\<lambda>h. rsAt st < lastMiss h) hs;
               allHeard = list_all (\<lambda>h. \<not> lastMiss h < missSince st) hs;
               confirmed = (rsAt st \<noteq> 0 \<and> answered \<and> raConfirmDelay \<le> now - rsAt st)
           in if withdrawn st \<and> hs = [] then Some raReasonWithdrawn
              else if raMissLimit \<le> missCount st \<and> allMissed \<and> confirmed then Some raReasonMissing
              else if raMissLimit \<le> missCount st \<and> allHeard \<and> raMissTimeout \<le> now - missSince st then Some raReasonTimeout
              else None)"

definition abandoned :: "ip list \<Rightarrow> int \<Rightarrow> raTracker \<Rightarrow> (IPNet \<times> ra_reason) list \<times> raTracker" where
  "abandoned ord now t0 =
     (let t = closeBursts ord now (raExpire now t0)
      in (List.map_filter (\<lambda>(k, st). map_option (Pair k) (abandon_reason now t k st)) (prefixes t), t))"

definition dropAbandoned :: "Candidate list \<Rightarrow> (IPNet \<times> ra_reason) list \<Rightarrow> Candidate list" where
  "dropAbandoned cands ab =
     (if ab = [] then cands
      else filter (\<lambda>c. case Prefix c of
              None \<Rightarrow> True
            | Some p \<Rightarrow> map_of ab \<lparr>nIP = (case ip_Mask (nIP p) (nMask p) of None \<Rightarrow> [] | Some i \<Rightarrow> i), nMask = nMask p\<rparr> = None) cands)"

section \<open>What an operation does to a hold\<close>

definition hold :: "raTracker \<Rightarrow> ip \<Rightarrow> IPNet \<Rightarrow> raHold option" where
  "hold t r k = map_of (holds_of t r) k"

definition tracker_wf :: "raTracker \<Rightarrow> bool" where
  "tracker_wf t \<longleftrightarrow> distinct (map fst (routers t)) \<and> (\<forall>r hs. map_of (routers t) r = Some hs \<longrightarrow> distinct (map fst hs)) \<and>
     distinct (map fst (prefixes t)) \<and> distinct (map fst (bursts t))"

lemma wf_holds: "tracker_wf t \<Longrightarrow> distinct (map fst (holds_of t r))"
  by (auto simp: tracker_wf_def holds_of_def split: option.split)

lemma hold_expire:
  assumes "tracker_wf t"
  shows "hold (raExpire now t) r k = (case hold t r k of None \<Rightarrow> None | Some h \<Rightarrow> if hUntil h < now then None else Some h)"
proof -
  have d: "distinct (map fst (routers t))" using assms by (simp add: tracker_wf_def)
  have "holds_of (raExpire now t) r = filter_vals (\<lambda>k h. \<not> hUntil h < now) (holds_of t r)"
    using d by (auto simp: raExpire_def Let_def holds_of_def map_of_filter_vals filter_vals_def [of _ "[]"] split: option.split)
  then show ?thesis using wf_holds [OF assms] by (simp add: hold_def map_of_filter_vals split: option.split)
qed

lemma hold_closeBurst:
  "hold (closeBurst r0 b t) r k = map_option (\<lambda>h. if r = r0 then missed_hold b k h else h) (hold t r k)"
  by (auto simp: hold_def holds_of_def closeBurst_def option.map_ident split: option.split)

lemma hold_withdraw: "hold (withdraw r0 now k0 t) r k = (if r = r0 \<and> k = k0 then None else hold t r k)"
  by (auto simp: hold_def holds_of_def withdraw_def delete_conv' split: option.split)

lemma hold_drop_router: "hold (drop_router r0 t) r k = hold t r k"
  by (auto simp: hold_def holds_of_def drop_router_def delete_conv' split: option.splits)

lemma hold_new_router: "map_of (routers t) r0 = None \<Longrightarrow> hold (t\<lparr>routers := AList.update r0 [] (routers t)\<rparr>) r k = hold t r k"
  by (auto simp: hold_def holds_of_def update_conv' split: option.split)

lemma hold_other_fields [simp]: "hold (t\<lparr>bursts := x\<rparr>) = hold t" "hold (t\<lparr>lastRS := y\<rparr>) = hold t" "hold (t\<lparr>prefixes := z\<rparr>) = hold t"
  by (simp_all add: hold_def [abs_def] holds_of_def)

lemma hold_add:
  "hold (t\<lparr>prefixes := z, routers := AList.update r0 (AList.update k0 h (holds_of t r0)) (routers t)\<rparr>) r k =
    (if r = r0 \<and> k = k0 then Some h else hold t r k)"
  by (auto simp: hold_def holds_of_def update_conv')

section \<open>The invariant\<close>

definition tracker_inv :: "raTracker \<Rightarrow> bool" where
  "tracker_inv t \<longleftrightarrow> tracker_wf t \<and> length (routers t) \<le> raMaxRouters \<and> length (prefixes t) \<le> raMaxPrefixes \<and>
     (\<forall>r k h. hold t r k = Some h \<longrightarrow> (\<exists>st. map_of (prefixes t) k = Some st \<and> hUntil h \<le> pUntil st)) \<and>
     (\<forall>k st. map_of (prefixes t) k = Some st \<and> 0 < missCount st \<longrightarrow> 0 < missSince st) \<and>
     (\<forall>r b. map_of (bursts t) r = Some b \<longrightarrow> 0 < bStart b)"

lemma inv_wf: "tracker_inv t \<Longrightarrow> tracker_wf t"
  by (simp add: tracker_inv_def)

lemma inv_hold: "tracker_inv t \<Longrightarrow> hold t r k = Some h \<Longrightarrow> \<exists>st. map_of (prefixes t) k = Some st \<and> hUntil h \<le> pUntil st"
  by (simp add: tracker_inv_def)

lemma inv_parts:
  assumes "tracker_inv t"
  shows "length (routers t) \<le> raMaxRouters" "length (prefixes t) \<le> raMaxPrefixes"
    "map_of (prefixes t) k = Some st \<Longrightarrow> 0 < missCount st \<Longrightarrow> 0 < missSince st"
    "map_of (bursts t) r = Some b \<Longrightarrow> 0 < bStart b"
  using assms unfolding tracker_inv_def by blast+

lemma inv_intro:
  assumes "tracker_wf t" "length (routers t) \<le> raMaxRouters" "length (prefixes t) \<le> raMaxPrefixes"
    "\<And>r k h. hold t r k = Some h \<Longrightarrow> \<exists>st. map_of (prefixes t) k = Some st \<and> hUntil h \<le> pUntil st"
    "\<And>k st. map_of (prefixes t) k = Some st \<Longrightarrow> 0 < missCount st \<Longrightarrow> 0 < missSince st"
    "\<And>r b. map_of (bursts t) r = Some b \<Longrightarrow> 0 < bStart b"
  shows "tracker_inv t"
  using assms unfolding tracker_inv_def by blast

lemma wf_expire: "tracker_wf t \<Longrightarrow> tracker_wf (raExpire now t)"
  by (auto simp: tracker_wf_def raExpire_def Let_def map_of_filter_vals split: option.splits if_splits)

lemma prefixes_expire: "tracker_wf t \<Longrightarrow> map_of (prefixes (raExpire now t)) k =
    (case map_of (prefixes t) k of None \<Rightarrow> None | Some st \<Rightarrow> if pUntil st < now then None else Some st)"
  by (simp add: raExpire_def Let_def map_of_filter_vals tracker_wf_def split: option.split)

lemma bursts_expire: "tracker_wf t \<Longrightarrow> map_of (bursts (raExpire now t)) r = Some b \<Longrightarrow> map_of (bursts t) r = Some b"
  by (auto simp: raExpire_def Let_def map_of_filter_vals tracker_wf_def split: option.splits if_splits)

lemma inv_expire:
  assumes "tracker_inv t"
  shows "tracker_inv (raExpire now t)"
proof (rule inv_intro)
  note wf = inv_wf [OF assms]
  note p = prefixes_expire [OF wf, of now]
  show "tracker_wf (raExpire now t)" using wf by (rule wf_expire)
  show "length (routers (raExpire now t)) \<le> raMaxRouters"
    using length_filter_vals [of "\<lambda>r hs. hs \<noteq> []" "map_vals (\<lambda>r. filter_vals (\<lambda>k h. \<not> hUntil h < now)) (routers t)"] inv_parts(1) [OF assms]
    by (simp add: raExpire_def Let_def)
  show "length (prefixes (raExpire now t)) \<le> raMaxPrefixes"
    using length_filter_vals [of "\<lambda>k st. \<not> pUntil st < now" "prefixes t"] inv_parts(2) [OF assms] by (simp add: raExpire_def Let_def)
  show "\<exists>st. map_of (prefixes (raExpire now t)) k = Some st \<and> hUntil h \<le> pUntil st" if "hold (raExpire now t) r k = Some h" for r k h
  proof -
    from that have h: "hold t r k = Some h" "\<not> hUntil h < now" by (auto simp: hold_expire [OF wf] split: option.splits if_splits)
    from inv_hold [OF assms h(1)] obtain st where "map_of (prefixes t) k = Some st" "hUntil h \<le> pUntil st" by blast
    with h(2) show ?thesis by (simp add: p)
  qed
  show "0 < missSince st" if "map_of (prefixes (raExpire now t)) k = Some st" "0 < missCount st" for k st
    using that inv_parts(3) [OF assms, of k st] by (auto simp: p split: option.splits if_splits)
  show "0 < bStart b" if "map_of (bursts (raExpire now t)) r = Some b" for r b
    using inv_parts(4) [OF assms] bursts_expire [OF wf that] by blast
qed

lemma missed_until [simp]: "hUntil (missed_hold b k h) = hUntil h" "pUntil (missed_prefix b k st) = pUntil st"
  by (simp_all add: missed_hold_def missed_prefix_def)

lemma prefixes_closeBurst: "map_of (prefixes (closeBurst r b t)) k = map_option (missed_prefix b k) (map_of (prefixes t) k)"
  by (simp add: closeBurst_def)

lemma bursts_closeBurst: "map_of (bursts (closeBurst r b t)) = (map_of (bursts t))(r := None)"
  by (simp add: closeBurst_def delete_conv')

lemma wf_closeBurst: "tracker_wf t \<Longrightarrow> tracker_wf (closeBurst r b t)"
  by (auto simp: tracker_wf_def closeBurst_def distinct_delete split: if_splits)

lemma inv_closeBurst:
  assumes "tracker_inv t" "0 < bStart b"
  shows "tracker_inv (closeBurst r b t)"
proof (rule inv_intro)
  show "tracker_wf (closeBurst r b t)" using inv_wf [OF assms(1)] by (rule wf_closeBurst)
  show "length (routers (closeBurst r b t)) \<le> raMaxRouters" "length (prefixes (closeBurst r b t)) \<le> raMaxPrefixes"
    using inv_parts [OF assms(1)] by (simp_all add: closeBurst_def)
  show "\<exists>st. map_of (prefixes (closeBurst r b t)) k = Some st \<and> hUntil h \<le> pUntil st" if "hold (closeBurst r b t) r' k = Some h" for r' k h
    using that inv_hold [OF assms(1)] by (auto simp: hold_closeBurst prefixes_closeBurst split: if_splits) fastforce+
  show "0 < missSince st" if "map_of (prefixes (closeBurst r b t)) k = Some st" "0 < missCount st" for k st
    using that assms(2) inv_parts(3) [OF assms(1), of k] by (auto simp: prefixes_closeBurst missed_prefix_def split: if_splits)
  show "0 < bStart b'" if "map_of (bursts (closeBurst r b t)) r' = Some b'" for r' b'
    using that inv_parts(4) [OF assms(1), of r'] by (auto simp: bursts_closeBurst split: if_splits)
qed

lemma closeBursts_rule:
  assumes "P t" "\<And>t r b. P t \<Longrightarrow> map_of (bursts t) r = Some b \<Longrightarrow> P (closeBurst r b t)"
  shows "P (closeBursts ord now t)"
  unfolding closeBursts_def using assms(1)
  by (induction ord arbitrary: t) (auto intro: assms(2) split: option.split)

lemma withdrawals_rule:
  assumes "P t" "\<And>t k. P t \<Longrightarrow> P (withdraw r now k t)"
  shows "P (fold (\<lambda>p t. if pValid p = 0 then withdraw r now (pPrefix p) t else t) pios t)"
  using assms(1) by (induction pios arbitrary: t) (auto intro: assms(2))

lemma advertise_bursts: "bursts (fst (fold (advertise r now active) pios s)) = bursts (fst s)"
  by (induction pios arbitrary: s) (auto simp: advertise_def track_def Let_def split: prod.split)

lemma advertise_rule:
  assumes "P (fst s)" "\<And>t p. P t \<Longrightarrow> trackable t (pPrefix p) \<Longrightarrow> pValid p \<noteq> 0 \<Longrightarrow> P (track r now p t)"
  shows "P (fst (fold (advertise r now active) pios s))"
  using assms(1)
proof (induction pios arbitrary: s)
  case (Cons p pios)
  have "P (fst (advertise r now active p s))"
    using Cons.prems assms(2) by (cases s) (simp add: advertise_def Let_def)
  then show ?case using Cons.IH by simp
qed simp

text \<open>A property that the parts of \<open>observe\<close> keep is kept by \<open>observe\<close>.\<close>

lemma observe_rule:
  assumes start: "P (raExpire now t)"
    and close: "\<And>t r b. P t \<Longrightarrow> map_of (bursts t) r = Some b \<Longrightarrow> P (closeBurst r b t)"
    and wd: "\<And>t k. P t \<Longrightarrow> P (withdraw r now k t)"
    and dr: "\<And>t. P t \<Longrightarrow> P (drop_router r t)"
    and new: "\<And>t. P t \<Longrightarrow> map_of (routers t) r = None \<Longrightarrow> length (routers t) < raMaxRouters \<Longrightarrow>
               P (t\<lparr>routers := AList.update r [] (routers t)\<rparr>)"
    and track: "\<And>t p. P t \<Longrightarrow> trackable t (pPrefix p) \<Longrightarrow> pValid p \<noteq> 0 \<Longrightarrow> map_of (routers t) r \<noteq> None \<Longrightarrow>
               P (track r now p t)"
    and burst: "\<And>t b seen. P t \<Longrightarrow> map_of (bursts t) r = Some b \<or> bStart b = now \<Longrightarrow>
               P (t\<lparr>bursts := AList.update r (b\<lparr>bLast := now, bSeen := seen\<rparr>) (bursts t)\<rparr>)"
    and rs: "\<And>t. P t \<Longrightarrow> P (t\<lparr>lastRS := now\<rparr>)"
  shows "P (snd (observe ord r unicast pios active now t))"
proof -
  define t2 where "t2 = drop_router r (fold (\<lambda>p t. if pValid p = 0 then withdraw r now (pPrefix p) t else t) pios
      (closeBursts ord now (raExpire now t)))"
  have "P (closeBursts ord now (raExpire now t))" by (rule closeBursts_rule [where P = P, OF start close])
  then have p2: "P t2" unfolding t2_def by (rule dr [OF withdrawals_rule [where P = P, OF _ wd]])
  define t3 where "t3 = (if map_of (routers t2) r = None then t2\<lparr>routers := AList.update r [] (routers t2)\<rparr> else t2)"
  define t4 where "t4 = (case map_of (bursts t3) r of Some b \<Rightarrow> if bUnicast b \<noteq> unicast then closeBurst r b t3 else t3 | None \<Rightarrow> t3)"
  define b where "b = (case map_of (bursts t4) r of Some b \<Rightarrow> b | None \<Rightarrow> \<lparr>bStart = now, bLast = now, bUnicast = unicast, bSeen = []\<rparr>)"
  obtain t5 seen new where f: "fold (advertise r now active) pios (t4, bSeen b, False) = (t5, seen, new)"
    by (metis prod_cases3)
  define t6 where "t6 = t5\<lparr>bursts := AList.update r (b\<lparr>bLast := now, bSeen := seen\<rparr>) (bursts t5)\<rparr>"
  have p6: "P t6" if nf: "\<not> (map_of (routers t2) r = None \<and> raMaxRouters \<le> length (routers t2))"
  proof -
    have p3: "P t3" "map_of (routers t3) r \<noteq> None" using p2 new nf unfolding t3_def by (auto simp: update_conv')
    have r4: "map_of (routers t4) r \<noteq> None" using p3(2) by (simp add: t4_def closeBurst_def split: option.split)
    have p4: "P t4" using p3(1) unfolding t4_def by (auto intro: close split: option.split)
    have keep: "map_of (routers (track r now p t)) r \<noteq> None" for p t by (simp add: track_def Let_def update_conv')
    have p5: "P t5" using advertise_rule [of "\<lambda>t. P t \<and> map_of (routers t) r \<noteq> None" "(t4, bSeen b, False)" r now active pios]
        track keep p4 r4 f by simp
    have "bursts t5 = bursts t4" using advertise_bursts [of r now active pios "(t4, bSeen b, False)"] f by simp
    then have "map_of (bursts t5) r = Some b \<or> bStart b = now" by (auto simp: b_def split: option.split)
    then show ?thesis unfolding t6_def by (rule burst [OF p5])
  qed
  have "snd (observe ord r unicast pios active now t) \<in> (if list_all (\<lambda>p. pValid p = 0) pios \<or>
      map_of (routers t2) r = None \<and> raMaxRouters \<le> length (routers t2) then {t2} else {t6, t6\<lparr>lastRS := now\<rparr>})"
    unfolding observe_def Let_def t2_def [symmetric] t3_def [symmetric] t4_def [symmetric] b_def [symmetric] f prod.case t6_def [symmetric]
    by (auto split: option.split)
  then show ?thesis using p2 p6 rs by (auto split: if_splits)
qed

lemma hold_track: "hold (track r0 now p t) r k =
    (if r = r0 \<and> k = pPrefix p then Some \<lparr>misses = 0, lastMiss = 0, hUntil = raLifetimeEnd now (pValid p)\<rparr> else hold t r k)"
  unfolding track_def Let_def by (rule hold_add)

lemma prefixes_track: "map_of (prefixes (track r now p t)) k =
    (if k = pPrefix p then Some \<lparr>withdrawn = False, missCount = 0, missSince = 0, rsAt = 0,
        pUntil = laterOf (case map_of (prefixes t) k of None \<Rightarrow> 0 | Some st \<Rightarrow> pUntil st) (raLifetimeEnd now (pValid p))\<rparr>
     else map_of (prefixes t) k)"
  by (simp add: track_def Let_def update_conv')

lemma laterOf_ge: "a \<le> laterOf a b" "b \<le> laterOf a b"
  by (simp_all add: laterOf_def)

lemma inv_withdraw:
  assumes "tracker_inv t"
  shows "tracker_inv (withdraw r now k0 t)"
proof (rule inv_intro)
  have p: "map_of (prefixes (withdraw r now k0 t)) k = map_option (\<lambda>st. if k = k0 then st\<lparr>withdrawn := True,
      pUntil := laterOf (pUntil st) (now + raWithdrawKeep)\<rparr> else st) (map_of (prefixes t) k)" for k
    by (simp add: withdraw_def)
  show "tracker_wf (withdraw r now k0 t)"
    using inv_wf [OF assms] by (auto simp: tracker_wf_def withdraw_def distinct_delete split: if_splits)
  show "length (routers (withdraw r now k0 t)) \<le> raMaxRouters" "length (prefixes (withdraw r now k0 t)) \<le> raMaxPrefixes"
    using inv_parts [OF assms] by (simp_all add: withdraw_def)
  show "\<exists>st. map_of (prefixes (withdraw r now k0 t)) k = Some st \<and> hUntil h \<le> pUntil st" if "hold (withdraw r now k0 t) r' k = Some h" for r' k h
  proof -
    from that have "hold t r' k = Some h" by (auto simp: hold_withdraw split: if_splits)
    from inv_hold [OF assms this] obtain st where "map_of (prefixes t) k = Some st" "hUntil h \<le> pUntil st" by blast
    then show ?thesis using laterOf_ge(1) [of "pUntil st"] by (auto simp: p intro: order_trans)
  qed
  show "0 < missSince st" if "map_of (prefixes (withdraw r now k0 t)) k = Some st" "0 < missCount st" for k st
    using that inv_parts(3) [OF assms, of k] by (auto simp: p split: if_splits)
  show "0 < bStart b" if "map_of (bursts (withdraw r now k0 t)) r' = Some b" for r' b
    using that inv_parts(4) [OF assms, of r'] by (simp add: withdraw_def)
qed

lemma length_alist_delete: "length (AList.delete k xs) \<le> length xs"
  by (simp add: AList.delete_eq)

lemma inv_drop_router:
  assumes "tracker_inv t"
  shows "tracker_inv (drop_router r t)"
proof (rule inv_intro)
  show "tracker_wf (drop_router r t)"
    using inv_wf [OF assms] by (auto simp: tracker_wf_def drop_router_def AList.delete_eq distinct_map_filter split: if_splits)
  show "length (routers (drop_router r t)) \<le> raMaxRouters" "length (prefixes (drop_router r t)) \<le> raMaxPrefixes"
    using inv_parts(1,2) [OF assms] length_alist_delete [of r "routers t"] by (simp_all add: drop_router_def)
  show "\<exists>st. map_of (prefixes (drop_router r t)) k = Some st \<and> hUntil h \<le> pUntil st" if "hold (drop_router r t) r' k = Some h" for r' k h
    using that inv_hold [OF assms, of r' k h] by (simp add: hold_drop_router) (simp add: drop_router_def)
  show "0 < missSince st" if "map_of (prefixes (drop_router r t)) k = Some st" "0 < missCount st" for k st
    using that inv_parts(3) [OF assms, of k st] by (simp add: drop_router_def split: if_splits)
  show "0 < bStart b" if "map_of (bursts (drop_router r t)) r' = Some b" for r' b
    using that inv_parts(4) [OF assms, of r'] by (simp add: drop_router_def split: if_splits)
qed

lemma inv_new_router:
  assumes "tracker_inv t" "map_of (routers t) r = None" "length (routers t) < raMaxRouters"
  shows "tracker_inv (t\<lparr>routers := AList.update r [] (routers t)\<rparr>)"
proof (rule inv_intro)
  show "tracker_wf (t\<lparr>routers := AList.update r [] (routers t)\<rparr>)"
    using inv_wf [OF assms(1)] by (auto simp: tracker_wf_def distinct_update update_conv' split: if_splits)
  show "\<exists>st. map_of (prefixes (t\<lparr>routers := AList.update r [] (routers t)\<rparr>)) k = Some st \<and> hUntil h \<le> pUntil st"
    if "hold (t\<lparr>routers := AList.update r [] (routers t)\<rparr>) r' k = Some h" for r' k h
    using that inv_hold [OF assms(1), of r' k h] by (simp add: hold_new_router [OF assms(2)])
qed (use inv_parts [OF assms(1)] assms(2,3) in \<open>auto simp: length_alist_update\<close>)

lemma inv_track:
  assumes "tracker_inv t" "trackable t (pPrefix p)" "pValid p \<noteq> 0" "map_of (routers t) r \<noteq> None"
  shows "tracker_inv (track r now p t)"
proof -
  note wf = inv_wf [OF assms(1)]
  have l: "length (routers (track r now p t)) = length (routers t)"
    "length (prefixes (track r now p t)) \<le> (if map_of (prefixes t) (pPrefix p) = None then Suc (length (prefixes t)) else length (prefixes t))"
    using assms(4) by (simp_all add: track_def Let_def length_alist_update)
  show "tracker_inv (track r now p t)"
  proof (rule inv_intro)
    show "tracker_wf (track r now p t)"
      using wf wf_holds [OF wf, of r] by (auto simp: tracker_wf_def track_def Let_def distinct_update update_conv' split: if_splits)
    show "length (routers (track r now p t)) \<le> raMaxRouters" "length (prefixes (track r now p t)) \<le> raMaxPrefixes"
      using l inv_parts(1,2) [OF assms(1)] assms(2) by (auto simp: trackable_def split: if_splits)
    show "\<exists>st. map_of (prefixes (track r now p t)) k = Some st \<and> hUntil h \<le> pUntil st" if "hold (track r now p t) r' k = Some h" for r' k h
    proof (cases "k = pPrefix p")
      case True
      have "hUntil h \<le> laterOf (case map_of (prefixes t) k of None \<Rightarrow> 0 | Some st \<Rightarrow> pUntil st) (raLifetimeEnd now (pValid p))"
      proof (cases "r' = r")
        case True
        with that \<open>k = pPrefix p\<close> show ?thesis by (auto simp: hold_track laterOf_ge)
      next
        case False
        with that have "hold t r' k = Some h" by (simp add: hold_track)
        from inv_hold [OF assms(1) this] show ?thesis using laterOf_ge(1) order_trans by fastforce
      qed
      then show ?thesis using True by (simp add: prefixes_track)
    next
      case False
      with that inv_hold [OF assms(1), of r' k h] show ?thesis by (simp add: hold_track prefixes_track)
    qed
    show "0 < missSince st" if "map_of (prefixes (track r now p t)) k = Some st" "0 < missCount st" for k st
      using that inv_parts(3) [OF assms(1), of k st] by (auto simp: prefixes_track split: if_splits)
    show "0 < bStart b" if "map_of (bursts (track r now p t)) r' = Some b" for r' b
      using that inv_parts(4) [OF assms(1), of r'] by (simp add: track_def Let_def)
  qed
qed

lemma inv_burst:
  assumes "tracker_inv t" "0 < bStart b"
  shows "tracker_inv (t\<lparr>bursts := AList.update r (b\<lparr>bLast := now, bSeen := seen\<rparr>) (bursts t)\<rparr>)"
proof (rule inv_intro)
  show "tracker_wf (t\<lparr>bursts := AList.update r (b\<lparr>bLast := now, bSeen := seen\<rparr>) (bursts t)\<rparr>)"
    using inv_wf [OF assms(1)] by (simp add: tracker_wf_def distinct_update)
qed (use inv_parts [OF assms(1)] inv_hold [OF assms(1)] assms(2) in \<open>auto simp: update_conv' split: if_splits\<close>)

lemma inv_lastRS: "tracker_inv t \<Longrightarrow> tracker_inv (t\<lparr>lastRS := now\<rparr>)"
proof -
  assume i: "tracker_inv t"
  have "tracker_wf (t\<lparr>lastRS := now\<rparr>)" using inv_wf [OF i] by (simp add: tracker_wf_def del: map_of_eq_Some_iff)
  then show ?thesis by (rule inv_intro) (use inv_parts [OF i] inv_hold [OF i] in simp_all)
qed

lemma inv_observe:
  assumes "tracker_inv t" "0 < now"
  shows "tracker_inv (snd (observe ord r unicast pios active now t))"
proof (rule observe_rule [where P = tracker_inv, OF inv_expire [OF assms(1)]])
  show "tracker_inv (closeBurst r' b t)" if "tracker_inv t" "map_of (bursts t) r' = Some b" for t r' b
    using inv_closeBurst [OF that(1) inv_parts(4) [OF that]] .
  show "tracker_inv (t\<lparr>bursts := AList.update r (b\<lparr>bLast := now, bSeen := seen\<rparr>) (bursts t)\<rparr>)"
    if "tracker_inv t" "map_of (bursts t) r = Some b \<or> bStart b = now" for t b seen
    using that inv_parts(4) [OF that(1), of r b] assms(2) by (intro inv_burst) auto
qed (blast intro: inv_expire inv_withdraw inv_drop_router inv_new_router inv_track inv_lastRS)+

lemma inv_solicited: "tracker_inv t \<Longrightarrow> tracker_inv (solicited now t)"
proof (rule inv_intro)
  assume i: "tracker_inv t"
  have p: "map_of (prefixes (solicited now t)) k = map_option (\<lambda>st. if rsAt st = 0 then st\<lparr>rsAt := now\<rparr> else st) (map_of (prefixes t) k)" for k
    by (simp add: solicited_def)
  show "tracker_wf (solicited now t)" using inv_wf [OF i] by (simp add: tracker_wf_def solicited_def)
  show "length (routers (solicited now t)) \<le> raMaxRouters" "length (prefixes (solicited now t)) \<le> raMaxPrefixes"
    using inv_parts(1,2) [OF i] by (simp_all add: solicited_def)
  show "\<exists>st. map_of (prefixes (solicited now t)) k = Some st \<and> hUntil h \<le> pUntil st" if "hold (solicited now t) r k = Some h" for r k h
  proof -
    from that have "hold t r k = Some h" by (simp add: solicited_def)
    from inv_hold [OF i this] obtain st where "map_of (prefixes t) k = Some st" "hUntil h \<le> pUntil st" by blast
    then show ?thesis by (cases "rsAt st = 0") (simp_all add: p)
  qed
  show "0 < missSince st" if "map_of (prefixes (solicited now t)) k = Some st" "0 < missCount st" for k st
    using that inv_parts(3) [OF i, of k] by (auto simp: p split: if_splits)
  show "0 < bStart b" if "map_of (bursts (solicited now t)) r = Some b" for r b
    using that inv_parts(4) [OF i, of r] by (simp add: solicited_def)
qed

lemma inv_swept: "tracker_inv t \<Longrightarrow> tracker_inv (closeBursts ord now (raExpire now t))"
  using closeBursts_rule [of tracker_inv "raExpire now t" ord now] inv_expire inv_closeBurst inv_parts(4) by blast

lemma inv_reset: "tracker_inv raReset"
  by (auto simp: tracker_inv_def tracker_wf_def raReset_def hold_def holds_of_def)

section \<open>A silent router\<close>

text \<open>The last that router \<open>r\<close> said about \<open>k\<close> is that it advertises it until \<open>u\<close>.\<close>

definition kept :: "ip \<Rightarrow> IPNet \<Rightarrow> int \<Rightarrow> raTracker \<Rightarrow> bool" where
  "kept r k u t \<longleftrightarrow> hold t r k = Some \<lparr>misses = 0, lastMiss = 0, hUntil = u\<rparr> \<and>
     (\<forall>b. map_of (bursts t) r = Some b \<longrightarrow> k \<in> set (bSeen b))"

lemma kept_expire: "tracker_wf t \<Longrightarrow> now \<le> u \<Longrightarrow> kept r k u t \<Longrightarrow> kept r k u (raExpire now t)"
  using bursts_expire [of t now r] by (auto simp: kept_def hold_expire)

lemma kept_closeBurst: "kept r k u t \<Longrightarrow> map_of (bursts t) r' = Some b \<Longrightarrow> kept r k u (closeBurst r' b t)"
  by (auto simp: kept_def hold_closeBurst bursts_closeBurst missed_hold_def)

lemma kept_swept:
  assumes "tracker_inv t" "now \<le> u" "kept r k u t"
  shows "kept r k u (closeBursts ord now (raExpire now t))"
  using closeBursts_rule [of "kept r k u" "raExpire now t" ord now] kept_closeBurst kept_expire [OF inv_wf [OF assms(1)] assms(2,3)] by blast

lemma kept_other:
  assumes "kept r k u t" "r' \<noteq> r"
  shows "kept r k u (withdraw r' now k' t)" "kept r k u (drop_router r' t)" "kept r k u (track r' now p t)"
    "map_of (routers t) r' = None \<Longrightarrow> kept r k u (t\<lparr>routers := AList.update r' [] (routers t)\<rparr>)"
    "kept r k u (t\<lparr>bursts := AList.update r' b (bursts t)\<rparr>)" "kept r k u (t\<lparr>lastRS := now\<rparr>)"
  using assms by (auto simp: kept_def hold_withdraw hold_drop_router hold_track hold_new_router update_conv')
    (auto simp: withdraw_def drop_router_def track_def Let_def split: if_splits)

lemma kept_observe:
  assumes "tracker_inv t" "kept r k u t" "r' \<noteq> r" "0 < now" "now \<le> u"
  shows "kept r k u (snd (observe ord r' unicast pios active now t))"
proof -
  have "tracker_inv (snd (observe ord r' unicast pios active now t)) \<and> kept r k u (snd (observe ord r' unicast pios active now t))"
  proof (rule observe_rule [where P = "\<lambda>t. tracker_inv t \<and> kept r k u t"])
    show "tracker_inv (raExpire now t) \<and> kept r k u (raExpire now t)"
      using assms(1,2) inv_expire kept_expire [OF inv_wf assms(5)] by blast
    show "tracker_inv (closeBurst r' b t) \<and> kept r k u (closeBurst r' b t)"
      if "tracker_inv t \<and> kept r k u t" "map_of (bursts t) r' = Some b" for t r' b
      using that inv_closeBurst [of t b] inv_parts(4) kept_closeBurst by blast
    show "tracker_inv (t\<lparr>bursts := AList.update r' (b\<lparr>bLast := now, bSeen := seen\<rparr>) (bursts t)\<rparr>) \<and>
        kept r k u (t\<lparr>bursts := AList.update r' (b\<lparr>bLast := now, bSeen := seen\<rparr>) (bursts t)\<rparr>)"
      if "tracker_inv t \<and> kept r k u t" "map_of (bursts t) r' = Some b \<or> bStart b = now" for t b seen
      using that inv_parts(4) [of t r' b] assms(3,4) inv_burst [of t b] kept_other(5) by auto
    show "tracker_inv (withdraw r' now k' t) \<and> kept r k u (withdraw r' now k' t)" if "tracker_inv t \<and> kept r k u t" for t k'
      using that inv_withdraw kept_other(1) [OF _ assms(3)] by simp
    show "tracker_inv (drop_router r' t) \<and> kept r k u (drop_router r' t)" if "tracker_inv t \<and> kept r k u t" for t
      using that inv_drop_router kept_other(2) [OF _ assms(3)] by simp
    show "tracker_inv (track r' now p t) \<and> kept r k u (track r' now p t)"
      if "tracker_inv t \<and> kept r k u t" "trackable t (pPrefix p)" "pValid p \<noteq> 0" "map_of (routers t) r' \<noteq> None" for t p
      using that inv_track [of t p r'] kept_other(3) [OF _ assms(3)] by simp
    show "tracker_inv (t\<lparr>routers := AList.update r' [] (routers t)\<rparr>) \<and> kept r k u (t\<lparr>routers := AList.update r' [] (routers t)\<rparr>)"
      if "tracker_inv t \<and> kept r k u t" "map_of (routers t) r' = None" "length (routers t) < raMaxRouters" for t
      using that inv_new_router kept_other(4) [OF _ assms(3)] by simp
    show "tracker_inv (t\<lparr>lastRS := now\<rparr>) \<and> kept r k u (t\<lparr>lastRS := now\<rparr>)" if "tracker_inv t \<and> kept r k u t" for t
      using that inv_lastRS kept_other(6) [OF _ assms(3)] by simp
  qed
  then show ?thesis by blast
qed

lemma kept_solicited: "kept r k u t \<Longrightarrow> kept r k u (solicited now t)"
  by (simp add: kept_def solicited_def)

text \<open>As long as the router is only silent, its prefix is not given up.\<close>

lemma kept_holder: "kept r k u t \<Longrightarrow> \<lparr>misses = 0, lastMiss = 0, hUntil = u\<rparr> \<in> set (holders t k)"
proof -
  assume "kept r k u t"
  then obtain hs where "map_of (routers t) r = Some hs" "map_of hs k = Some \<lparr>misses = 0, lastMiss = 0, hUntil = u\<rparr>"
    by (auto simp: kept_def hold_def holds_of_def split: option.splits)
  then show ?thesis using map_of_SomeD [of "routers t" r hs] by (force simp: holders_def List.map_filter_def)
qed

lemma kept_no_reason:
  assumes "tracker_inv t" "kept r k u t" "map_of (prefixes t) k = Some st"
  shows "abandon_reason now t k st = None"
proof -
  note h = kept_holder [OF assms(2)]
  have "holders t k \<noteq> []" using h by auto
  moreover have "\<not> list_all (\<lambda>h. raMissLimit \<le> misses h) (holders t k)" using h by (force simp: list_all_iff raMissLimit_def)
  moreover have "\<not> list_all (\<lambda>h. \<not> lastMiss h < missSince st) (holders t k)" if "raMissLimit \<le> missCount st"
    using h inv_parts(3) [OF assms(1,3)] that by (force simp: list_all_iff raMissLimit_def)
  ultimately show ?thesis by (auto simp: abandon_reason_def Let_def)
qed

lemma kept_not_abandoned:
  assumes "tracker_inv t" "now \<le> u" "kept r k u t"
  shows "map_of (fst (abandoned ord now t)) k = None"
proof -
  define t1 where "t1 = closeBursts ord now (raExpire now t)"
  have i: "tracker_inv t1" "kept r k u t1" using inv_swept [OF assms(1)] kept_swept [OF assms] by (auto simp: t1_def)
  have "abandon_reason now t1 k st = None" if "(k, st) \<in> set (prefixes t1)" for st
    using kept_no_reason [OF i] map_of_is_SomeI [OF _ that] inv_wf [OF i(1)] by (auto simp: tracker_wf_def)
  then show ?thesis
    by (auto simp: abandoned_def Let_def t1_def [symmetric] map_of_eq_None_iff List.map_filter_def)
qed

text \<open>An advertisement that carries the prefix once puts it into this state, if there is room for router and prefix.\<close>

lemma advertise_skip:
  "pPrefix p \<noteq> k \<Longrightarrow> hold (fst (advertise r now active p s)) r k = hold (fst s) r k \<and>
    map_of (prefixes (fst (advertise r now active p s))) k = map_of (prefixes (fst s)) k \<and>
    set (fst (snd s)) \<subseteq> set (fst (snd (advertise r now active p s)))"
  by (cases s) (auto simp: advertise_def Let_def hold_track prefixes_track)

lemma advertises_skip:
  "\<forall>p \<in> set pios. pPrefix p \<noteq> k \<Longrightarrow> hold (fst (fold (advertise r now active) pios s)) r k = hold (fst s) r k \<and>
    map_of (prefixes (fst (fold (advertise r now active) pios s))) k = map_of (prefixes (fst s)) k \<and>
    set (fst (snd s)) \<subseteq> set (fst (snd (fold (advertise r now active) pios s)))"
proof (induction pios arbitrary: s)
  case (Cons p pios)
  then show ?case using advertise_skip [of p k r now active s] by (simp) blast
qed simp

lemma advertise_refresh:
  assumes "filter (\<lambda>p. pPrefix p = k) pios = [q]" "pValid q \<noteq> 0"
    and "map_of (prefixes (fst (fold (advertise r now active) pios s))) k \<noteq> None"
  shows "hold (fst (fold (advertise r now active) pios s)) r k = Some \<lparr>misses = 0, lastMiss = 0, hUntil = raLifetimeEnd now (pValid q)\<rparr>
    \<and> k \<in> set (fst (snd (fold (advertise r now active) pios s)))"
proof -
  obtain xs ys where xy: "pios = xs @ q # ys" "\<forall>p \<in> set xs. pPrefix p \<noteq> k" "pPrefix q = k" "\<forall>p \<in> set ys. pPrefix p \<noteq> k"
  proof -
    from assms(1) obtain xs ys where e: "pios = xs @ q # ys" "\<forall>p \<in> set xs. pPrefix p \<noteq> k" "pPrefix q = k" "[] = filter (\<lambda>p. pPrefix p = k) ys"
      by (auto simp: filter_eq_Cons_iff)
    have "\<forall>p \<in> set ys. pPrefix p \<noteq> k" using e(4) by (metis (mono_tags) filter_empty_conv)
    with e(1-3) show ?thesis by (rule that)
  qed
  let ?s1 = "advertise r now active q (fold (advertise r now active) xs s)"
  have f: "fold (advertise r now active) pios s = fold (advertise r now active) ys ?s1" by (simp add: xy(1))
  note sk = advertises_skip [OF xy(4), of r now active ?s1]
  have "trackable (fst (fold (advertise r now active) xs s)) k"
  proof (rule ccontr)
    assume "\<not> ?thesis"
    then have "map_of (prefixes (fst ?s1)) k = None" using assms(2) xy(3)
      by (cases "fold (advertise r now active) xs s") (simp add: advertise_def Let_def trackable_def)
    with assms(3) sk f show False by simp
  qed
  then have "hold (fst ?s1) r k = Some \<lparr>misses = 0, lastMiss = 0, hUntil = raLifetimeEnd now (pValid q)\<rparr>" "k \<in> set (fst (snd ?s1))"
    using assms(2) xy(3) by (cases "fold (advertise r now active) xs s"; simp add: advertise_def Let_def hold_track)+
  then show ?thesis unfolding f using sk by auto
qed

lemma observe_refresh:
  assumes "filter (\<lambda>p. pPrefix p = k) pios = [q]" "pValid q \<noteq> 0"
    and "t' = snd (observe ord r unicast pios active now t)"
    and "map_of (routers t') r \<noteq> None" "map_of (prefixes t') k \<noteq> None"
  shows "kept r k (raLifetimeEnd now (pValid q)) t'"
proof -
  define t2 where "t2 = drop_router r (fold (\<lambda>p t. if pValid p = 0 then withdraw r now (pPrefix p) t else t) pios
      (closeBursts ord now (raExpire now t)))"
  define t3 where "t3 = (if map_of (routers t2) r = None then t2\<lparr>routers := AList.update r [] (routers t2)\<rparr> else t2)"
  define t4 where "t4 = (case map_of (bursts t3) r of Some b \<Rightarrow> if bUnicast b \<noteq> unicast then closeBurst r b t3 else t3 | None \<Rightarrow> t3)"
  define b where "b = (case map_of (bursts t4) r of Some b \<Rightarrow> b | None \<Rightarrow> \<lparr>bStart = now, bLast = now, bUnicast = unicast, bSeen = []\<rparr>)"
  obtain t5 seen new where f: "fold (advertise r now active) pios (t4, bSeen b, False) = (t5, seen, new)" by (metis prod_cases3)
  define t6 where "t6 = t5\<lparr>bursts := AList.update r (b\<lparr>bLast := now, bSeen := seen\<rparr>) (bursts t5)\<rparr>"
  have "\<not> list_all (\<lambda>p. pValid p = 0) pios" using assms(1,2) by (auto simp: list_all_iff filter_eq_Cons_iff)
  then have "t' \<in> (if map_of (routers t2) r = None \<and> raMaxRouters \<le> length (routers t2) then {t2} else {t6, t6\<lparr>lastRS := now\<rparr>})"
    unfolding assms(3) observe_def Let_def t2_def [symmetric] t3_def [symmetric] t4_def [symmetric] b_def [symmetric] f prod.case t6_def [symmetric]
    by (auto split: option.split)
  then have t': "t' = t6 \<or> t' = t6\<lparr>lastRS := now\<rparr>" using assms(4) by (auto split: if_splits)
  have "map_of (prefixes t5) k \<noteq> None" using assms(5) t' by (auto simp: t6_def)
  then have "hold t5 r k = Some \<lparr>misses = 0, lastMiss = 0, hUntil = raLifetimeEnd now (pValid q)\<rparr> \<and> k \<in> set seen"
    using advertise_refresh [OF assms(1,2), of r now active "(t4, bSeen b, False)"] f by simp
  then have "kept r k (raLifetimeEnd now (pValid q)) t6" by (auto simp: kept_def t6_def update_conv')
  then show ?thesis using t' by (auto simp: kept_def)
qed

section \<open>Runs\<close>

datatype ra_event =
    Heard "ip list" ip bool "raPIO list" "IPNet option"
  | Solicited
  | Polled "ip list"
  | Failed

text \<open>\<open>Failed\<close> is a socket error, after which the tracker is reset. The lists give the enumeration order of the bursts.\<close>

fun ra_apply :: "int \<times> ra_event \<Rightarrow> raTracker \<Rightarrow> raTracker" where
  "ra_apply (now, Heard ord r unicast pios active) t = snd (observe ord r unicast pios active now t)"
| "ra_apply (now, Solicited) t = solicited now t"
| "ra_apply (now, Polled ord) t = snd (abandoned ord now t)"
| "ra_apply (now, Failed) t = raReset"

lemma inv_apply: "tracker_inv t \<Longrightarrow> 0 < now \<Longrightarrow> tracker_inv (ra_apply (now, e) t)"
  by (cases e) (simp_all add: inv_observe inv_solicited inv_reset abandoned_def Let_def inv_swept)

lemma inv_run: "tracker_inv t \<Longrightarrow> \<forall>e \<in> set evs. 0 < fst e \<Longrightarrow> tracker_inv (fold ra_apply evs t)"
proof (induction evs arbitrary: t)
  case (Cons e evs)
  then show ?case using inv_apply [of t "fst e" "snd e"] by simp
qed simp

fun silent :: "ip \<Rightarrow> ra_event \<Rightarrow> bool" where
  "silent r (Heard ord r' unicast pios active) = (r' \<noteq> r)"
| "silent r Failed = False"
| "silent r _ = True"

lemma kept_apply:
  "tracker_inv t \<Longrightarrow> kept r k u t \<Longrightarrow> silent r e \<Longrightarrow> 0 < now \<Longrightarrow> now \<le> u \<Longrightarrow> kept r k u (ra_apply (now, e) t)"
  by (cases e) (auto simp: kept_solicited abandoned_def Let_def intro: kept_observe kept_swept)

lemma kept_run:
  "tracker_inv t \<Longrightarrow> kept r k u t \<Longrightarrow> \<forall>(now, e) \<in> set evs. 0 < now \<and> now \<le> u \<and> silent r e \<Longrightarrow> kept r k u (fold ra_apply evs t)"
  by (induction evs arbitrary: t) (auto intro!: kept_apply inv_apply)

section \<open>The format\<close>

datatype ra_opt = PIO byte byte u32 u32 ip | Other byte bytes

fun opt_bytes :: "ra_opt \<Rightarrow> bytes" where
  "opt_bytes (PIO plen flags valid pref ip) = [3, 4, plen, flags] @ be32 valid @ be32 pref @ zeros 4 @ ip"
| "opt_bytes (Other ty body) = [ty, of_nat ((length body + 2) div 8)] @ body"

fun opt_ok :: "ra_opt \<Rightarrow> bool" where
  "opt_ok (PIO plen flags valid pref ip) = (length ip = 16)"
| "opt_ok (Other ty body) = (ty \<noteq> 3 \<and> (length body + 2) mod 8 = 0 \<and> length body + 2 \<le> 2040)"

text \<open>What the tracker is told about an option.\<close>

fun opt_pios :: "ra_opt \<Rightarrow> raPIO list" where
  "opt_pios (PIO plen flags valid pref ip) =
     (if plen = 64 \<and> flags AND 0xc0 \<noteq> 0 \<and> pref \<le> valid \<and> isGlobal ip \<and> \<not> isMulticast ip
      then [\<lparr>pPrefix = \<lparr>nIP = take 8 ip @ zeros 8, nMask = mask64\<rparr>, pValid = valid\<rparr>] else [])"
| "opt_pios (Other ty body) = []"

lemma mask64_bytes: "mask64 = replicate 8 255 @ zeros 8"
  by code_simp

lemma ip_mask64: "length ip = 16 \<Longrightarrow> ip_Mask ip mask64 = Some (take 8 ip @ zeros 8)"
proof -
  assume l: "length ip = 16"
  have m: "length mask64 = 16" by (simp add: mask64_bytes)
  have "(255 :: byte) = - 1" by simp
  then have ff: "w AND 255 = w" for w :: byte by (simp only: and.right_neutral)
  have "and_bytes ip mask64 = take 8 ip @ zeros 8"
  proof (rule nth_equalityI)
    fix i assume "i < length (and_bytes ip mask64)"
    then have i: "i < 16" using l m by simp
    show "and_bytes ip mask64 ! i = (take 8 ip @ zeros 8) ! i"
      using i l m by (cases "i < 8") (simp_all add: nth_and_bytes mask64_bytes nth_append ff)
  qed (simp add: l m)
  then show ?thesis by (simp add: ip_Mask_def l m)
qed

lemma opt_step:
  assumes "opt_ok op"
  shows "ra_options (opt_bytes op @ rest) pios = ra_options rest (pios @ opt_pios op)"
proof (cases op)
  case (PIO plen flags valid pref ip)
  have l: "length ip = 16" using assms PIO by simp
  define x where "x = opt_bytes op"
  have x: "x = [3, 4, plen, flags] @ be32 valid @ be32 pref @ zeros 4 @ ip" using PIO by (simp add: x_def)
  have lx: "length x = 32" by (simp add: x l)
  have "slice (x @ rest) 4 8 = be32 valid" "slice (x @ rest) 8 12 = be32 pref" "slice (x @ rest) 16 32 = ip"
    using l by (simp_all add: x slice_def)
  then have "ra_pio (x @ rest) = opt_pios op"
    using l by (simp add: ra_pio_def x PIO ip_mask64 Let_def get_be32_be32 [where r = "[]", simplified])
  moreover have "(x @ rest) ! 0 = 3" "(x @ rest) ! 1 = 4" "drop 32 (x @ rest) = rest" "x \<noteq> []" using lx by (auto simp: x)
  ultimately show ?thesis unfolding x_def [symmetric] by (subst ra_options.simps) (simp add: lx Let_def)
next
  case (Other ty body)
  have b: "ty \<noteq> 3" "(length body + 2) mod 8 = 0" "length body + 2 \<le> 2040" using assms Other by auto
  define n where "n = (length body + 2) div 8"
  have n: "length body + 2 = n * 8" "n \<le> 255" "0 < n" using b by (auto simp: n_def)
  have u: "unat (of_nat n :: byte) = n" using n(2) by (simp add: unat_of_nat)
  have "drop (n * 8) (ty # of_nat n # body @ rest) = rest" unfolding n(1) [symmetric] by simp
  then show ?thesis using n b u by (subst ra_options.simps) (simp add: Other n_def [symmetric] Let_def)
qed

lemma opts_read:
  "list_all opt_ok os \<Longrightarrow> ra_options (concat (map opt_bytes os) @ rest) pios = ra_options rest (pios @ concat (map opt_pios os))"
  by (induction os arbitrary: pios) (simp_all add: opt_step)

section \<open>Theorems\<close>

text \<open>
  The prefix options of a Router Advertisement are read back: a message of well-formed options gives exactly the
  global 64-bit prefixes with the on-link or autonomous flag and a preferred lifetime within the valid one, in order and
  cut to 64 bits; other options are skipped. A message with an option of length zero, or one cut in an option header, is
  refused.
\<close>

theorem ra_roundtrip:
  assumes "list_all opt_ok os" "length hdr = 14"
  shows "parseRA ([134, 0] @ hdr @ concat (map opt_bytes os)) = Some (concat (map opt_pios os))
    \<and> parseRA ([134, 0] @ hdr @ concat (map opt_bytes os) @ [ty, 0] @ rest) = None
    \<and> parseRA ([134, 0] @ hdr @ concat (map opt_bytes os) @ [ty]) = None"
proof -
  have d: "drop 16 ([134, 0] @ hdr @ x) = x" for x using assms(2) by simp
  have p: "parseRA ([134, 0] @ hdr @ x) = ra_options x []" for x
    unfolding parseRA_def d using assms(2) by simp
  show ?thesis unfolding p
    using opts_read [OF assms(1), of "[]" "[]"] opts_read [OF assms(1), of "[ty, 0] @ rest" "[]"] opts_read [OF assms(1), of "[ty]" "[]"]
    by (simp add: ra_options.simps)
qed

definition ip0 :: "byte \<Rightarrow> ip" where
  "ip0 b = [0x20, 1, 0xd, 0xb8, 0, 0, 0, b] @ zeros 8"

definition opts0 :: "ra_opt list" where
  "opts0 = [PIO 64 0xc0 7200 3600 (ip0 1), Other 1 [2, 0, 0, 0, 0, 1], PIO 48 0xc0 7200 3600 (ip0 2)]"

theorem ra_roundtrip_witness:
  "parseRA ([134, 0] @ zeros 14 @ concat (map opt_bytes opts0)) = Some [\<lparr>pPrefix = \<lparr>nIP = ip0 1, nMask = mask64\<rparr>, pValid = 7200\<rparr>]"
proof -
  have "list_all opt_ok opts0" by (simp add: opts0_def ip0_def)
  moreover have "concat (map opt_pios opts0) = [\<lparr>pPrefix = \<lparr>nIP = ip0 1, nMask = mask64\<rparr>, pValid = 7200\<rparr>]" by code_simp
  ultimately show ?thesis using ra_roundtrip [of opts0 "zeros 14"] by simp
qed

text \<open>Every open burst belongs to a tracked router, except perhaps that of the router that was heard last.\<close>

definition stray :: "ip set \<Rightarrow> raTracker \<Rightarrow> bool" where
  "stray X t \<longleftrightarrow> fst ` set (bursts t) \<subseteq> fst ` set (routers t) \<union> X"

lemma stray_expire: "stray X (raExpire now t)"
  by (force simp: stray_def raExpire_def Let_def filter_vals_def map_of_eq_None_iff)

lemma fst_delete: "fst ` set (AList.delete k xs) = fst ` set xs - {k}"
  by (auto simp: AList.delete_eq image_iff)

lemma fst_update: "fst ` set (AList.update k v xs) = insert k (fst ` set xs)"
  by (simp add: dom_update flip: dom_map_of_conv_image_fst) (auto simp: update_conv')

lemma fst_map_vals [simp]: "fst ` set (map_vals f xs) = fst ` set xs"
  by (force simp: map_vals_def)

lemma stray_closeBurst: "stray X t \<Longrightarrow> stray X (closeBurst r b t)"
  by (auto simp: stray_def closeBurst_def fst_delete)

lemma stray_swept: "stray X (closeBursts ord now (raExpire now t))"
  by (rule closeBursts_rule [where P = "stray X"]) (auto intro: stray_expire stray_closeBurst)

lemma stray_observe: "stray {r} (snd (observe ord r unicast pios active now t))"
proof (rule observe_rule [where P = "stray {r}", OF stray_expire])
  show "stray {r} (drop_router r t)" if "stray {r} t" for t
    using that by (auto simp: stray_def drop_router_def fst_delete)
  show "stray {r} (closeBurst r' b t)" if "stray {r} t" for t r' b using that by (rule stray_closeBurst)
qed (auto simp: stray_def withdraw_def track_def Let_def fst_update)

lemma stray_apply: "\<exists>r. stray {r} t \<Longrightarrow> \<exists>r. stray {r} (ra_apply (now, e) t)"
proof (cases e)
  case (Heard ord r unicast pios active)
  then show ?thesis by (auto intro!: exI [of _ r] stray_observe)
next
  case (Polled ord)
  then show ?thesis using stray_swept by (auto simp: abandoned_def Let_def)
qed (auto simp: solicited_def stray_def raReset_def)

lemma stray_run: "\<exists>r. stray {r} (fold ra_apply evs raReset)"
proof -
  have "\<exists>r. stray {r} t \<Longrightarrow> \<exists>r. stray {r} (fold ra_apply evs t)" for t
  proof (induction evs arbitrary: t)
    case (Cons e evs)
    then show ?case using stray_apply [of t "fst e" "snd e"] by simp
  qed simp
  then show ?thesis by (auto simp: stray_def raReset_def)
qed

text \<open>
  C33. The tracker is bounded and consistent whatever the routers send. After any events it holds at most 8 routers and
  32 prefixes, each once; every router's hold belongs to a tracked prefix that is not forgotten before it, and a prefix that
  was missed has the time of its first miss. There is at most one burst per router, and every burst belongs to a tracked
  router, except perhaps one, of a router that has just withdrawn its prefixes; the next sweep removes it.
\<close>

theorem tracker_bounded:
  assumes "\<forall>e \<in> set evs. 0 < fst e" "t = fold ra_apply evs raReset"
  shows "length (routers t) \<le> 8 \<and> distinct (map fst (routers t)) \<and> (\<forall>(r, hs) \<in> set (routers t). distinct (map fst hs))
    \<and> length (prefixes t) \<le> 32 \<and> distinct (map fst (prefixes t))
    \<and> (\<forall>r k h. hold t r k = Some h \<longrightarrow> (\<exists>st. map_of (prefixes t) k = Some st \<and> hUntil h \<le> pUntil st))
    \<and> (\<forall>k st. map_of (prefixes t) k = Some st \<and> 0 < missCount st \<longrightarrow> 0 < missSince st)
    \<and> distinct (map fst (bursts t)) \<and> (\<exists>r0. fst ` set (bursts t) \<subseteq> fst ` set (routers t) \<union> {r0})
    \<and> (\<forall>ord now. fst ` set (bursts (snd (abandoned ord now t))) \<subseteq> fst ` set (routers (snd (abandoned ord now t))))"
proof -
  have i: "tracker_inv t" using inv_run [OF inv_reset assms(1)] assms(2) by simp
  have w: "tracker_wf t" using i by (rule inv_wf)
  then have "\<forall>(r, hs) \<in> set (routers t). distinct (map fst hs)" unfolding tracker_wf_def by auto
  moreover have "distinct (map fst (routers t))" "distinct (map fst (prefixes t))" "distinct (map fst (bursts t))"
    using w by (simp_all add: tracker_wf_def)
  moreover have "\<exists>r0. fst ` set (bursts t) \<subseteq> fst ` set (routers t) \<union> {r0}" using stray_run [of evs] assms(2) by (simp add: stray_def)
  moreover have "\<forall>ord now. fst ` set (bursts (snd (abandoned ord now t))) \<subseteq> fst ` set (routers (snd (abandoned ord now t)))"
    using stray_swept [of "{}" _ _ t] by (simp add: stray_def abandoned_def Let_def)
  moreover have "length (routers t) \<le> 8" "length (prefixes t) \<le> 32"
    using inv_parts(1,2) [OF i] by (simp_all add: raMaxRouters_def raMaxPrefixes_def)
  moreover have "\<forall>r k h. hold t r k = Some h \<longrightarrow> (\<exists>st. map_of (prefixes t) k = Some st \<and> hUntil h \<le> pUntil st)"
    using inv_hold [OF i] by blast
  moreover have "\<forall>k st. map_of (prefixes t) k = Some st \<and> 0 < missCount st \<longrightarrow> 0 < missSince st" using inv_parts(3) [OF i] by blast
  ultimately show ?thesis by - (intro conjI; assumption)
qed

definition pfx0 :: "byte \<Rightarrow> IPNet" where
  "pfx0 b = \<lparr>nIP = ip0 b, nMask = mask64\<rparr>"

definition ll0 :: "byte \<Rightarrow> ip" where
  "ll0 b = [0xfe, 0x80] @ zeros 13 @ [b]"

text \<open>Router 2 advertises another prefix, twice, with a solicitation in between.\<close>

definition evs1 :: "(int \<times> ra_event) list" where
  "evs1 = [(2 * 10 ^ 9, Heard [ll0 1] (ll0 2) False [\<lparr>pPrefix = pfx0 2, pValid = 3600\<rparr>] (Some (pfx0 1))),
           (2 * 10 ^ 9 + 1, Solicited),
           (5 * 10 ^ 9, Heard [ll0 2] (ll0 2) False [\<lparr>pPrefix = pfx0 2, pValid = 3600\<rparr>] (Some (pfx0 1))),
           (40 * 10 ^ 9, Polled [ll0 2])]"

theorem tracker_bounded_witness:
  "length (routers (fold ra_apply evs1 raReset)) \<le> 8 \<and> distinct (map fst (bursts (fold ra_apply evs1 raReset)))"
  using tracker_bounded [of evs1] by (simp add: evs1_def)

text \<open>
  C32. A silent router never causes a switch. Take any history, then an advertisement from router \<open>r\<close> that carries the
  prefix \<open>k\<close> once and finds room. While nothing more is heard from \<open>r\<close> and the advertised lifetime has not ended, \<open>k\<close>
  is not reported as abandoned, whatever the other routers advertise, withdraw or omit, and in whatever order the
  runtime enumerates the bursts. So if the kernel still offers \<open>k\<close> as a global candidate, the selection stays on it.
\<close>

theorem silent_router_keeps_prefix:
  assumes "\<forall>e \<in> set evs0. 0 < fst e" "0 < now0"
    and "t1 = ra_apply (now0, Heard ord r unicast pios active) (fold ra_apply evs0 raReset)"
    and "filter (\<lambda>p. pPrefix p = k) pios = [\<lparr>pPrefix = k, pValid = v\<rparr>]" "v \<noteq> 0"
    and "map_of (routers t1) r \<noteq> None" "map_of (prefixes t1) k \<noteq> None"
    and "\<forall>(now, e) \<in> set evs. 0 < now \<and> now \<le> raLifetimeEnd now0 v \<and> silent r e"
    and "now1 \<le> raLifetimeEnd now0 v"
    and "ab = fst (abandoned ord1 now1 (fold ra_apply evs t1))"
  shows "map_of ab k = None \<and>
    (\<forall>cands c. c \<in> set (select_globals cands) \<and> Prefix c = Some k \<and> ip_Mask (nIP k) (nMask k) = Some (nIP k) \<longrightarrow>
       (\<exists>p. Select (dropAbandoned cands ab) (Some k) = Some p \<and> cidrEqual p k))"
proof -
  have i1: "tracker_inv t1" unfolding assms(3) by (intro inv_apply inv_run inv_reset assms(1,2))
  have k1: "kept r k (raLifetimeEnd now0 v) t1"
    using observe_refresh [OF assms(4) _ _ assms(6,7)] assms(3,5) by simp
  have "\<forall>e \<in> set evs. 0 < fst e" using assms(8) by auto
  then have i: "tracker_inv (fold ra_apply evs t1)" "kept r k (raLifetimeEnd now0 v) (fold ra_apply evs t1)"
    using inv_run [OF i1] kept_run [OF i1 k1 assms(8)] by auto
  have n: "map_of ab k = None" unfolding assms(10) using kept_not_abandoned [OF i(1) assms(9) i(2)] .
  have "\<exists>p. Select (dropAbandoned cands ab) (Some k) = Some p \<and> cidrEqual p k"
    if c: "c \<in> set (select_globals cands)" "Prefix c = Some k" "ip_Mask (nIP k) (nMask k) = Some (nIP k)" for cands c
  proof -
    have "c \<in> set (select_globals (dropAbandoned cands ab))"
      using c n by (cases k) (auto simp: select_globals_def dropAbandoned_def)
    then show ?thesis using c(2) by (rule select_prefix_laws(3)) (simp add: cidrEqual_def)
  qed
  with n show ?thesis by blast
qed

definition heard1 :: raTracker where
  "heard1 = ra_apply (10 ^ 9, Heard [] (ll0 1) False [\<lparr>pPrefix = pfx0 1, pValid = 7200\<rparr>] None) (fold ra_apply [] raReset)"

theorem silent_router_keeps_prefix_witness:
  "map_of (fst (abandoned [ll0 2] (100 * 10 ^ 9) (fold ra_apply evs1 heard1))) (pfx0 1) = None"
proof -
  have "map_of (routers heard1) (ll0 1) \<noteq> None" "map_of (prefixes heard1) (pfx0 1) \<noteq> None"
    by (simp_all add: heard1_def observe_def Let_def closeBursts_def raExpire_def raReset_def drop_router_def holds_of_def
        advertise_def trackable_def track_def raMaxPrefixes_def raMaxRouters_def filter_vals_def map_vals_def)
  moreover have "ll0 2 \<noteq> ll0 1" by (simp add: ll0_def)
  moreover have "raLifetimeEnd (10 ^ 9) 7200 = 7201 * 10 ^ 9" by (simp add: raLifetimeEnd_def)
  ultimately show ?thesis
    using silent_router_keeps_prefix [OF _ _ heard1_def, of "pfx0 1" 7200 evs1 "100 * 10 ^ 9" _ "[ll0 2]"]
    by (simp add: evs1_def)
qed

end
