(* ===== verification/LeaseLoop.thy ===== *)
theory LeaseLoop
  imports Prelude
begin

text \<open>
  The lease loop of the DHCPv6 client, \<open>src/pkg/lib/dhcp/lease_loop.go\<close>. Times and durations are nanoseconds; the
  arithmetic of \<open>time.Duration\<close> is that of \<open>int64\<close>. \<open>Run\<close> is a machine with one program point per clock reading, wait
  or call; its inputs are what the surroundings decide: a clock reading, a timer, the cancellation of the context,
  the answer of the refresher. Several readings of the clock in one turn are separate arguments of its input.

  Shown: Renew is called between T1 and T2 only, Rebind between T2 and the end of the lease only, failed calls are
  100 ms apart; the loop returns by cancellation or after the end of the lease only, and calls Release exactly once;
  after cancellation and after the end of the lease it returns within a few steps.
\<close>

section \<open>Durations\<close>

definition wrap64 :: "int \<Rightarrow> int" where
  "wrap64 x = signed_take_bit 63 x"

text \<open>Division of Go: towards zero.\<close>

definition quo :: "int \<Rightarrow> int \<Rightarrow> int" where
  "quo a b = (if a < 0 then - ((- a) div b) else a div b)"

abbreviation second :: int where "second \<equiv> 1000000000"
abbreviation millisecond :: int where "millisecond \<equiv> 1000000"

record LeaseTimes =
  LT1 :: int
  LT2 :: int
  LValid :: int

definition defaultsFor :: "LeaseTimes \<Rightarrow> int \<times> int \<times> int" where
  "defaultsFor i =
     (let valid = (if LValid i \<le> 0 then 24 * 3600 * second else LValid i);
          t1 = (if LT1 i \<le> 0 then quo valid 2 else LT1 i);
          t2 = (if LT2 i \<le> 0 then quo (wrap64 (valid * 4)) 5 else LT2 i)
      in (t1, t2, valid))"

definition retryBackoff :: "int \<Rightarrow> int \<Rightarrow> int" where
  "retryBackoff t1 t2 =
     (let d = quo (wrap64 (t2 - t1)) 4;
          d1 = (if d < 100 * millisecond then 100 * millisecond else d)
      in if d1 > 10 * second then 10 * second else d1)"

section \<open>The loop\<close>

datatype call = Renew | Rebind

datatype pc =
    Head
  | Sleeping int
  | RenewTop
  | Renewing
  | RenewWait int
  | RebindTop
  | Rebinding
  | RebindWait int
  | Returned

text \<open>\<open>calls\<close> are the calls for the present lease with their times, the latest first; \<open>releases\<close> counts the calls of
  Release, \<open>closed\<close> is the channel \<open>done\<close>.\<close>

record LeaseLoop =
  pc :: pc
  now :: int
  t1 :: int
  t2 :: int
  t1Deadline :: int
  t2Deadline :: int
  validDeadline :: int
  cancelled :: bool
  calls :: "(call \<times> int) list"
  releases :: nat
  closed :: bool

datatype input =
    Cancel
  | Clock int
  | Fire int
  | Done
  | Answer int int int "LeaseTimes option"

text \<open>A new lease: its three deadlines are computed from three readings of the clock.\<close>

definition bind_lease :: "int \<Rightarrow> int \<Rightarrow> int \<Rightarrow> LeaseTimes \<Rightarrow> LeaseLoop \<Rightarrow> LeaseLoop" where
  "bind_lease n1 n2 n3 lt s =
     (case defaultsFor lt of (a, b, v) \<Rightarrow>
        s\<lparr>t1 := a, t2 := b, t1Deadline := n1 + a, t2Deadline := n2 + b, validDeadline := n3 + v,
          calls := [], pc := Head, now := n3\<rparr>)"

definition run_start :: "int \<Rightarrow> int \<Rightarrow> int \<Rightarrow> LeaseTimes \<Rightarrow> LeaseLoop" where
  "run_start n1 n2 n3 lt = bind_lease n1 n2 n3 lt
     \<lparr>pc = Head, now = n1, t1 = 0, t2 = 0, t1Deadline = 0, t2Deadline = 0, validDeadline = 0, cancelled = False,
      calls = [], releases = 0, closed = False\<rparr>"

text \<open>\<open>return\<close> runs the deferred functions: Release, then the channel is closed.\<close>

definition return_loop :: "LeaseLoop \<Rightarrow> LeaseLoop" where
  "return_loop s = s\<lparr>pc := Returned, releases := Suc (releases s), closed := True\<rparr>"

definition at_head :: "LeaseLoop \<Rightarrow> LeaseLoop" where
  "at_head s = (if now s < t1Deadline s then s\<lparr>pc := Sleeping (t1Deadline s)\<rparr> else s\<lparr>pc := RenewTop\<rparr>)"

definition at_renew :: "LeaseLoop \<Rightarrow> LeaseLoop" where
  "at_renew s =
     (if \<not> now s < t2Deadline s then s\<lparr>pc := RebindTop\<rparr>
      else s\<lparr>calls := (Renew, now s) # calls s, pc := Renewing\<rparr>)"

definition at_rebind :: "LeaseLoop \<Rightarrow> LeaseLoop" where
  "at_rebind s =
     (if \<not> now s < validDeadline s then return_loop s
      else s\<lparr>calls := (Rebind, now s) # calls s, pc := Rebinding\<rparr>)"

text \<open>The end of a call: the context is tested first, then the error. The time of the next attempt is set by a later
  reading of the clock.\<close>

definition renewed :: "int \<Rightarrow> int \<Rightarrow> int \<Rightarrow> LeaseTimes option \<Rightarrow> LeaseLoop \<Rightarrow> LeaseLoop" where
  "renewed n1 n2 n3 r s =
     (if cancelled s then return_loop s
      else case r of
        Some lt \<Rightarrow> bind_lease n1 n2 n3 lt s
      | None \<Rightarrow>
          if \<not> n1 < t2Deadline s then s\<lparr>now := n1, pc := RebindTop\<rparr>
          else s\<lparr>now := n2, pc := RenewWait (n2 + retryBackoff (t1 s) (t2 s))\<rparr>)"

definition rebound :: "int \<Rightarrow> int \<Rightarrow> int \<Rightarrow> LeaseTimes option \<Rightarrow> LeaseLoop \<Rightarrow> LeaseLoop" where
  "rebound n1 n2 n3 r s =
     (if cancelled s then return_loop s
      else case r of
        Some lt \<Rightarrow> bind_lease n1 n2 n3 lt s
      | None \<Rightarrow>
          if \<not> n1 < validDeadline s then return_loop (s\<lparr>now := n1\<rparr>)
          else s\<lparr>now := n2, pc := RebindWait (n2 + retryBackoff (t1 s) (t2 s))\<rparr>)"

fun lstep :: "input \<Rightarrow> LeaseLoop \<Rightarrow> LeaseLoop option" where
  "lstep Cancel s = Some (s\<lparr>cancelled := True\<rparr>)"
| "lstep (Clock n) s =
     (if n < now s then None
      else let s1 = s\<lparr>now := n\<rparr>
           in case pc s of
                Head \<Rightarrow> Some (at_head s1)
              | RenewTop \<Rightarrow> Some (at_renew s1)
              | RebindTop \<Rightarrow> Some (at_rebind s1)
              | _ \<Rightarrow> None)"
| "lstep (Fire n) s =
     (if n < now s then None
      else case pc s of
             Sleeping w \<Rightarrow> if n < w then None else Some (s\<lparr>now := n, pc := RenewTop\<rparr>)
           | RenewWait w \<Rightarrow> if n < w then None else Some (s\<lparr>now := n, pc := RenewTop\<rparr>)
           | RebindWait w \<Rightarrow> if n < w then None else Some (s\<lparr>now := n, pc := RebindTop\<rparr>)
           | _ \<Rightarrow> None)"
| "lstep Done s =
     (if \<not> cancelled s then None
      else case pc s of
             Sleeping w \<Rightarrow> Some (return_loop s)
           | RenewWait w \<Rightarrow> Some (return_loop s)
           | RebindWait w \<Rightarrow> Some (return_loop s)
           | _ \<Rightarrow> None)"
| "lstep (Answer n1 n2 n3 r) s =
     (if n1 < now s \<or> n2 < n1 \<or> n3 < n2 then None
      else case pc s of
             Renewing \<Rightarrow> Some (renewed n1 n2 n3 r s)
           | Rebinding \<Rightarrow> Some (rebound n1 n2 n3 r s)
           | _ \<Rightarrow> None)"

fun lrun :: "input list \<Rightarrow> LeaseLoop \<Rightarrow> LeaseLoop option" where
  "lrun [] s = Some s"
| "lrun (i # is) s = (case lstep i s of None \<Rightarrow> None | Some s1 \<Rightarrow> lrun is s1)"

lemmas loop_defs = bind_lease_def return_loop_def at_head_def at_renew_def at_rebind_def renewed_def rebound_def

section \<open>Backoff and defaults\<close>

lemma retryBackoff_bounds: "100 * millisecond \<le> retryBackoff a b" "retryBackoff a b \<le> 10 * second"
  by (simp_all add: retryBackoff_def Let_def)

lemma wrap64_small: "- (2 ^ 63) \<le> x \<Longrightarrow> x < 2 ^ 63 \<Longrightarrow> wrap64 x = x"
  by (simp add: wrap64_def signed_take_bit_int_eq_self)

section \<open>Invariant\<close>

text \<open>Calls of one kind are 100 ms apart, each kind has its window, and no Renew follows a Rebind.\<close>

fun spaced :: "int list \<Rightarrow> bool" where
  "spaced (b # a # ts) = (a + 100 * millisecond \<le> b \<and> spaced (a # ts))"
| "spaced _ = True"

definition times_of :: "call \<Rightarrow> LeaseLoop \<Rightarrow> int list" where
  "times_of k s = map snd (filter (\<lambda>(k', t). k' = k) (calls s))"

definition calls_ok :: "LeaseLoop \<Rightarrow> bool" where
  "calls_ok s \<longleftrightarrow>
     spaced (times_of Renew s) \<and> spaced (times_of Rebind s) \<and>
     list_all (\<lambda>t. t1Deadline s \<le> t \<and> t < t2Deadline s) (times_of Renew s) \<and>
     list_all (\<lambda>t. t1Deadline s \<le> t \<and> t2Deadline s \<le> t \<and> t < validDeadline s) (times_of Rebind s) \<and>
     list_all (\<lambda>c. snd c \<le> now s) (calls s)"

definition later :: "call \<Rightarrow> int \<Rightarrow> LeaseLoop \<Rightarrow> bool" where
  "later k w s \<longleftrightarrow> list_all (\<lambda>t. t + 100 * millisecond \<le> w) (times_of k s)"

fun pc_ok :: "pc \<Rightarrow> LeaseLoop \<Rightarrow> bool" where
  "pc_ok Head s \<longleftrightarrow> calls s = []"
| "pc_ok (Sleeping w) s \<longleftrightarrow> calls s = [] \<and> w = t1Deadline s"
| "pc_ok RenewTop s \<longleftrightarrow> t1Deadline s \<le> now s \<and> later Renew (now s) s \<and> times_of Rebind s = []"
| "pc_ok Renewing s \<longleftrightarrow> t1Deadline s \<le> now s \<and> times_of Rebind s = []"
| "pc_ok (RenewWait w) s \<longleftrightarrow> t1Deadline s \<le> now s \<and> later Renew w s \<and> times_of Rebind s = []"
| "pc_ok RebindTop s \<longleftrightarrow> t1Deadline s \<le> now s \<and> t2Deadline s \<le> now s \<and> later Rebind (now s) s"
| "pc_ok Rebinding s \<longleftrightarrow> t1Deadline s \<le> now s \<and> t2Deadline s \<le> now s"
| "pc_ok (RebindWait w) s \<longleftrightarrow> t1Deadline s \<le> now s \<and> t2Deadline s \<le> now s \<and> later Rebind w s"
| "pc_ok Returned s \<longleftrightarrow>
     cancelled s \<or> t1Deadline s \<le> now s \<and> t2Deadline s \<le> now s \<and> validDeadline s \<le> now s"

definition loop_inv :: "LeaseLoop \<Rightarrow> bool" where
  "loop_inv s \<longleftrightarrow> calls_ok s \<and> pc_ok (pc s) s \<and> closed s = (pc s = Returned) \<and> releases s = (if closed s then 1 else 0)"

lemma times_of_upd [simp]:
  "times_of k (s\<lparr>pc := p\<rparr>) = times_of k s" "times_of k (s\<lparr>now := n\<rparr>) = times_of k s"
  "times_of k (s\<lparr>cancelled := c\<rparr>) = times_of k s" "times_of k (s\<lparr>releases := m\<rparr>) = times_of k s"
  "times_of k (s\<lparr>closed := d\<rparr>) = times_of k s" "times_of k (s\<lparr>calls := []\<rparr>) = []"
  "times_of k (s\<lparr>calls := (k', t) # cs\<rparr>) = (if k' = k then t # times_of k (s\<lparr>calls := cs\<rparr>) else times_of k (s\<lparr>calls := cs\<rparr>))"
  by (simp_all add: times_of_def)

lemma times_of_same [simp]: "times_of k (s\<lparr>calls := calls s\<rparr>) = times_of k s"
  by (simp add: times_of_def)

lemma times_of_empty [simp]: "calls s = [] \<Longrightarrow> times_of k s = []"
  by (simp add: times_of_def)

lemma later_upd [simp]:
  "later k w (s\<lparr>pc := p\<rparr>) = later k w s" "later k w (s\<lparr>now := n\<rparr>) = later k w s"
  "later k w (s\<lparr>cancelled := c\<rparr>) = later k w s"
  by (simp_all add: later_def)

lemma later_empty [simp]: "times_of k s = [] \<Longrightarrow> later k w s"
  by (simp add: later_def)

lemma later_mono: "later k w s \<Longrightarrow> w \<le> w' \<Longrightarrow> later k w' s"
  by (auto simp: later_def list_all_iff)

lemma spaced_Cons: "spaced ts \<Longrightarrow> list_all (\<lambda>a. a + 100 * millisecond \<le> b) ts \<Longrightarrow> spaced (b # ts)"
  by (cases ts) auto

lemma times_of_le: "list_all (\<lambda>c. snd c \<le> n) (calls s) \<Longrightarrow> list_all (\<lambda>t. t \<le> n) (times_of k s)"
  by (auto simp: times_of_def list_all_iff)

lemma later_backoff:
  assumes "calls_ok s" "now s \<le> n"
  shows "later k (n + retryBackoff a b) s"
  using assms times_of_le [of "now s" s k] retryBackoff_bounds(1) [of a b]
  by (fastforce simp: later_def calls_ok_def list_all_iff)

lemma calls_ok_upd [simp]:
  "calls_ok (s\<lparr>pc := p\<rparr>) = calls_ok s" "calls_ok (s\<lparr>cancelled := c\<rparr>) = calls_ok s"
  "calls_ok (s\<lparr>releases := m\<rparr>) = calls_ok s" "calls_ok (s\<lparr>closed := d\<rparr>) = calls_ok s"
  by (simp_all add: calls_ok_def)

lemma calls_ok_now: "calls_ok s \<Longrightarrow> now s \<le> n \<Longrightarrow> calls_ok (s\<lparr>now := n\<rparr>)"
  by (auto simp: calls_ok_def list_all_iff)

lemma calls_ok_empty [simp]: "calls s = [] \<Longrightarrow> calls_ok s"
  by (simp add: calls_ok_def)

lemma calls_ok_renew:
  "calls_ok s \<Longrightarrow> later Renew (now s) s \<Longrightarrow> t1Deadline s \<le> now s \<Longrightarrow> now s < t2Deadline s
     \<Longrightarrow> calls_ok (s\<lparr>calls := (Renew, now s) # calls s\<rparr>)"
  by (auto simp: calls_ok_def later_def intro!: spaced_Cons)

lemma calls_ok_rebind:
  "calls_ok s \<Longrightarrow> later Rebind (now s) s \<Longrightarrow> t1Deadline s \<le> now s \<Longrightarrow> t2Deadline s \<le> now s \<Longrightarrow> now s < validDeadline s
     \<Longrightarrow> calls_ok (s\<lparr>calls := (Rebind, now s) # calls s\<rparr>)"
  by (auto simp: calls_ok_def later_def intro!: spaced_Cons)

text \<open>One lemma per operation; the loop is still running where the operation starts.\<close>

definition open_inv :: "LeaseLoop \<Rightarrow> bool" where
  "open_inv s \<longleftrightarrow> calls_ok s \<and> \<not> closed s \<and> releases s = 0"

lemma open_invI: "loop_inv s \<Longrightarrow> pc s \<noteq> Returned \<Longrightarrow> open_inv s"
  by (auto simp: loop_inv_def open_inv_def)

lemma loop_invI: "open_inv s \<Longrightarrow> p \<noteq> Returned \<Longrightarrow> pc_ok p (s\<lparr>pc := p\<rparr>) \<Longrightarrow> loop_inv (s\<lparr>pc := p\<rparr>)"
  by (auto simp: loop_inv_def open_inv_def)

lemma open_inv_now: "open_inv s \<Longrightarrow> now s \<le> n \<Longrightarrow> open_inv (s\<lparr>now := n\<rparr>)"
  by (simp add: open_inv_def calls_ok_now)

lemma return_inv:
  "open_inv s \<Longrightarrow> cancelled s \<or> t1Deadline s \<le> now s \<and> t2Deadline s \<le> now s \<and> validDeadline s \<le> now s
     \<Longrightarrow> loop_inv (return_loop s)"
  by (auto simp: loop_inv_def open_inv_def return_loop_def)

lemma bind_inv: "open_inv s \<Longrightarrow> loop_inv (bind_lease n1 n2 n3 lt s)"
  by (auto simp: loop_inv_def open_inv_def bind_lease_def split: prod.split)

lemma at_head_inv: "open_inv s \<Longrightarrow> calls s = [] \<Longrightarrow> loop_inv (at_head s)"
  by (auto simp: at_head_def later_def intro!: loop_invI)

lemma at_renew_inv:
  assumes "open_inv s" "pc_ok RenewTop s"
  shows "loop_inv (at_renew s)"
proof (cases "now s < t2Deadline s")
  case True
  have "open_inv (s\<lparr>calls := (Renew, now s) # calls s\<rparr>)"
    using assms True calls_ok_renew [of s] by (simp add: open_inv_def)
  from loop_invI [OF this, of Renewing] show ?thesis
    using assms True by (simp add: at_renew_def)
next
  case False
  then show ?thesis
    using assms loop_invI [of s RebindTop] by (auto simp: at_renew_def later_def)
qed

lemma at_rebind_inv:
  assumes "open_inv s" "pc_ok RebindTop s"
  shows "loop_inv (at_rebind s)"
proof (cases "now s < validDeadline s")
  case True
  have "open_inv (s\<lparr>calls := (Rebind, now s) # calls s\<rparr>)"
    using assms True calls_ok_rebind [of s] by (simp add: open_inv_def)
  from loop_invI [OF this, of Rebinding] show ?thesis
    using assms True by (simp add: at_rebind_def)
next
  case False
  then show ?thesis
    using assms return_inv [of s] by (simp add: at_rebind_def)
qed

lemma renewed_inv:
  assumes "open_inv s" "pc_ok Renewing s" "now s \<le> n1" "n1 \<le> n2"
  shows "loop_inv (renewed n1 n2 n3 r s)"
proof -
  have "loop_inv (s\<lparr>now := n1, pc := RebindTop\<rparr>)" if "t2Deadline s \<le> n1"
    using that assms open_inv_now [of s n1] by (intro loop_invI) (auto simp: later_def)
  moreover have "loop_inv (s\<lparr>now := n2, pc := RenewWait (n2 + retryBackoff (t1 s) (t2 s))\<rparr>)"
    using assms open_inv_now [of s n2] later_backoff [of s n2]
    by (intro loop_invI) (auto simp: open_inv_def)
  ultimately show ?thesis
    using assms return_inv [of s] bind_inv [of s]
    by (auto simp: renewed_def split: option.split)
qed

lemma rebound_inv:
  assumes "open_inv s" "pc_ok Rebinding s" "now s \<le> n1" "n1 \<le> n2"
  shows "loop_inv (rebound n1 n2 n3 r s)"
proof -
  have "loop_inv (return_loop (s\<lparr>now := n1\<rparr>))" if "validDeadline s \<le> n1"
    using that assms open_inv_now [of s n1] by (intro return_inv) auto
  moreover have "loop_inv (s\<lparr>now := n2, pc := RebindWait (n2 + retryBackoff (t1 s) (t2 s))\<rparr>)"
    using assms open_inv_now [of s n2] later_backoff [of s n2]
    by (intro loop_invI) (auto simp: open_inv_def)
  ultimately show ?thesis
    using assms return_inv [of s] bind_inv [of s]
    by (auto simp: rebound_def split: option.split)
qed

lemma fire_inv:
  assumes "open_inv s" "now s \<le> n" "p \<in> {RenewTop, RebindTop}" "pc_ok p (s\<lparr>now := n\<rparr>)"
  shows "loop_inv (s\<lparr>now := n, pc := p\<rparr>)"
  using assms open_inv_now [of s n] by (intro loop_invI) auto

lemma pc_ok_cancel: "pc_ok p s \<Longrightarrow> pc_ok p (s\<lparr>cancelled := True\<rparr>)"
  by (cases p) auto

lemma lstep_inv:
  assumes "loop_inv s" "lstep i s = Some s'"
  shows "loop_inv s'"
proof -
  have ok: "pc_ok (pc s) s"
    using assms(1) by (simp add: loop_inv_def)
  show ?thesis
  proof (cases i)
    case Cancel
    then show ?thesis
      using assms by (auto simp: loop_inv_def intro: pc_ok_cancel)
  next
    case (Clock n)
    with assms(2) have "now s \<le> n" "pc s \<noteq> Returned"
      by (auto split: if_splits)
    then have "open_inv (s\<lparr>now := n\<rparr>)"
      using assms(1) by (intro open_inv_now open_invI)
    then show ?thesis
      using Clock assms(2) ok \<open>now s \<le> n\<close> at_head_inv [of "s\<lparr>now := n\<rparr>"] at_renew_inv [of "s\<lparr>now := n\<rparr>"]
        at_rebind_inv [of "s\<lparr>now := n\<rparr>"]
      by (auto simp: Let_def split: if_splits pc.splits intro: later_mono)
  next
    case (Fire n)
    with assms(2) have "now s \<le> n" "pc s \<noteq> Returned"
      by (auto split: if_splits)
    then have "open_inv s"
      using assms(1) by (intro open_invI)
    moreover have "\<not> n < w \<Longrightarrow> later k w s \<Longrightarrow> later k n s" for k w
      by (rule later_mono) auto
    ultimately show ?thesis
      using Fire assms(2) ok \<open>now s \<le> n\<close> fire_inv [of s n RenewTop] fire_inv [of s n RebindTop]
      by (auto split: if_splits pc.splits)
  next
    case Done
    then show ?thesis
      using assms open_invI [of s] return_inv [of s] by (auto split: if_splits pc.splits)
  next
    case (Answer n1 n2 n3 r)
    then show ?thesis
      using assms(2) ok open_invI [OF assms(1)] renewed_inv [of s n1 n2 n3 r] rebound_inv [of s n1 n2 n3 r]
      by (auto split: if_splits pc.splits)
  qed
qed

lemma lrun_inv: "loop_inv s \<Longrightarrow> lrun is s = Some s' \<Longrightarrow> loop_inv s'"
  by (induction "is" arbitrary: s) (auto split: option.splits dest: lstep_inv)

lemma run_start_inv: "loop_inv (run_start n1 n2 n3 lt)"
  unfolding run_start_def by (rule bind_inv) (simp add: open_inv_def)

section \<open>Termination\<close>

text \<open>Steps that the loop itself takes. After the cancellation, and after the end of the lease without a new one, each
  of them lowers the rank.\<close>

definition own :: "input \<Rightarrow> bool" where
  "own i \<longleftrightarrow> i \<noteq> Cancel"

fun rank :: "pc \<Rightarrow> nat" where
  "rank Head = 6"
| "rank (Sleeping w) = 5"
| "rank RenewTop = 4"
| "rank Renewing = 3"
| "rank (RenewWait w) = 5"
| "rank RebindTop = 2"
| "rank Rebinding = 1"
| "rank (RebindWait w) = 3"
| "rank Returned = 0"

text \<open>A state in which no call can be repeated: the context is cancelled, or every deadline has passed.\<close>

definition ending :: "LeaseLoop \<Rightarrow> bool" where
  "ending s \<longleftrightarrow> cancelled s \<or> t1Deadline s \<le> now s \<and> t2Deadline s \<le> now s \<and> validDeadline s \<le> now s"

definition fails :: "input \<Rightarrow> bool" where
  "fails i \<longleftrightarrow> (\<forall>n1 n2 n3 lt. i \<noteq> Answer n1 n2 n3 (Some lt))"

lemma lstep_ending:
  assumes "ending s" "cancelled s \<or> fails i" "lstep i s = Some s'"
  shows "ending s'" "rank (pc s') + (if own i then 1 else 0) \<le> rank (pc s)" "cancelled s \<Longrightarrow> cancelled s'"
proof -
  have "ending s' \<and> rank (pc s') + (if own i then 1 else 0) \<le> rank (pc s) \<and> (cancelled s \<longrightarrow> cancelled s')"
    using assms
    by (cases i; cases "pc s")
      (auto simp: ending_def fails_def own_def loop_defs Let_def split: if_splits option.splits prod.splits)
  then show "ending s'" "rank (pc s') + (if own i then 1 else 0) \<le> rank (pc s)" "cancelled s \<Longrightarrow> cancelled s'"
    by auto
qed

lemma lrun_ending:
  "ending s \<Longrightarrow> cancelled s \<or> list_all fails is \<Longrightarrow> lrun is s = Some s'
     \<Longrightarrow> rank (pc s') + length (filter own is) \<le> rank (pc s)"
proof (induction "is" arbitrary: s)
  case (Cons i "is")
  from Cons.prems(3) obtain s1 where s1: "lstep i s = Some s1" "lrun is s1 = Some s'"
    by (auto split: option.splits)
  have c: "cancelled s \<or> fails i"
    using Cons.prems(2) by auto
  note e = lstep_ending [OF Cons.prems(1) c s1(1)]
  have "rank (pc s') + length (filter own is) \<le> rank (pc s1)"
    using e(1,3) Cons.prems(2) s1(2) by (intro Cons.IH) auto
  then show ?case
    using e(2) by (auto split: if_splits)
qed simp

lemma pc_rank_le: "rank p \<le> 6"
  by (cases p) auto

lemma loop_progress:
  assumes "pc s \<noteq> Returned"
  shows "\<exists>i. own i \<and> fails i \<and> lstep i s \<noteq> None"
proof (cases "pc s")
  case (Sleeping w)
  then show ?thesis
    by (intro exI [of _ "Fire (max w (now s))"]) (simp add: own_def fails_def)
next
  case (RenewWait w)
  then show ?thesis
    by (intro exI [of _ "Fire (max w (now s))"]) (simp add: own_def fails_def)
next
  case (RebindWait w)
  then show ?thesis
    by (intro exI [of _ "Fire (max w (now s))"]) (simp add: own_def fails_def)
next
  case Renewing
  then show ?thesis
    by (intro exI [of _ "Answer (now s) (now s) (now s) None"]) (simp add: own_def fails_def)
next
  case Rebinding
  then show ?thesis
    by (intro exI [of _ "Answer (now s) (now s) (now s) None"]) (simp add: own_def fails_def)
qed (use assms in \<open>auto simp: own_def fails_def Let_def intro!: exI [of _ "Clock (now s)"]\<close>)

section \<open>A loop with its refresher\<close>

text \<open>The loop together with the state of the refresher. A call runs \<open>refresh\<close> on a script of what happens during it, and
  has no successor when the script leaves it unfinished; \<open>return\<close> runs \<open>release\<close>. In between the surroundings act on
  the shared state.\<close>

datatype ('e, 'v) dinput = Loop input | Call int int int 'e | Env 'v

definition released :: "('s \<Rightarrow> 's) \<Rightarrow> LeaseLoop option \<Rightarrow> 's \<Rightarrow> (LeaseLoop \<times> 's) option" where
  "released release l s = map_option (\<lambda>l'. (l', if pc l' = Returned then release s else s)) l"

fun dstep :: "(call \<Rightarrow> 'e \<Rightarrow> 's \<Rightarrow> (LeaseTimes option \<times> 's) option) \<Rightarrow> ('s \<Rightarrow> 's) \<Rightarrow> ('v \<Rightarrow> 's \<Rightarrow> 's)
    \<Rightarrow> ('e, 'v) dinput \<Rightarrow> LeaseLoop \<times> 's \<Rightarrow> (LeaseLoop \<times> 's) option" where
  "dstep refresh release env (Loop i) (l, s) =
     (if pc l = Returned \<or> pc l = Renewing \<or> pc l = Rebinding
      then (if i = Cancel then Some (l\<lparr>cancelled := True\<rparr>, s) else None)
      else released release (lstep i l) s)"
| "dstep refresh release env (Call n1 n2 n3 e) (l, s) =
     (if pc l \<noteq> Renewing \<and> pc l \<noteq> Rebinding then None
      else case refresh (if pc l = Renewing then Renew else Rebind) e s of
             None \<Rightarrow> None
           | Some (r, s') \<Rightarrow> released release (lstep (Answer n1 n2 n3 r) l) s')"
| "dstep refresh release env (Env v) (l, s) = Some (l, env v s)"

fun drun :: "(call \<Rightarrow> 'e \<Rightarrow> 's \<Rightarrow> (LeaseTimes option \<times> 's) option) \<Rightarrow> ('s \<Rightarrow> 's) \<Rightarrow> ('v \<Rightarrow> 's \<Rightarrow> 's)
    \<Rightarrow> ('e, 'v) dinput list \<Rightarrow> LeaseLoop \<times> 's \<Rightarrow> (LeaseLoop \<times> 's) option" where
  "drun refresh release env [] x = Some x"
| "drun refresh release env (i # is) x =
     (case dstep refresh release env i x of None \<Rightarrow> None | Some y \<Rightarrow> drun refresh release env is y)"

lemma dstep_Call:
  assumes "dstep refresh release env (Call n1 n2 n3 e) (l, s) = Some (l', s')"
  obtains c r s1 where "refresh c e s = Some (r, s1)" "lstep (Answer n1 n2 n3 r) l = Some l'"
    "s' = (if pc l' = Returned then release s1 else s1)"
  using assms
  by (fastforce simp: released_def simp del: lstep.simps split: if_splits option.splits)

text \<open>The contract of \<open>LeaseRefresher\<close>, as far as the loop relies on it: calls, releases and the surroundings keep the
  invariant of the refresher's state.\<close>

locale lease_refresher =
  fixes refresh :: "call \<Rightarrow> 'e \<Rightarrow> 's \<Rightarrow> (LeaseTimes option \<times> 's) option"
    and release :: "'s \<Rightarrow> 's"
    and env :: "'v \<Rightarrow> 's \<Rightarrow> 's"
    and ok :: "'e \<Rightarrow> bool"
    and inv :: "'s \<Rightarrow> bool"
  assumes refresh_inv: "ok e \<Longrightarrow> inv s \<Longrightarrow> refresh c e s = Some (r, s') \<Longrightarrow> inv s'"
    and release_inv: "inv s \<Longrightarrow> inv (release s)"
    and env_inv: "inv s \<Longrightarrow> inv (env v s)"
begin

definition dok :: "('e, 'v) dinput \<Rightarrow> bool" where
  "dok i \<longleftrightarrow> (case i of Call n1 n2 n3 e \<Rightarrow> ok e | _ \<Rightarrow> True)"

lemma dstep_inv: "dok i \<Longrightarrow> inv s \<Longrightarrow> dstep refresh release env i (l, s) = Some (l', s') \<Longrightarrow> inv s'"
proof (cases i)
  case (Call n1 n2 n3 e)
  assume a: "dok i" "inv s" "dstep refresh release env i (l, s) = Some (l', s')"
  from a(3) obtain c r s1 where "refresh c e s = Some (r, s1)" "s' = (if pc l' = Returned then release s1 else s1)"
    unfolding Call by (rule dstep_Call)
  then show ?thesis
    using a(1,2) refresh_inv [of e s c r s1] release_inv [of s1] Call by (auto simp: dok_def)
qed (auto simp: released_def release_inv env_inv split: if_splits)

text \<open>A driven loop is a loop: its steps are steps of the loop with the answers that the refresher gives.\<close>

lemma dstep_lrun: "dstep refresh release env i (l, s) = Some (l', s') \<Longrightarrow> \<exists>is. lrun is l = Some l'"
proof (cases i)
  case (Loop j)
  assume d: "dstep refresh release env i (l, s) = Some (l', s')"
  have "lrun [j] l = Some l' \<or> lrun [Cancel] l = Some l'"
    using Loop d by (auto simp: released_def split: if_splits)
  then show ?thesis by blast
next
  case (Call n1 n2 n3 e)
  assume "dstep refresh release env i (l, s) = Some (l', s')"
  then obtain r where "lstep (Answer n1 n2 n3 r) l = Some l'"
    unfolding Call by (rule dstep_Call)
  then have "lrun [Answer n1 n2 n3 r] l = Some l'" by (simp del: lstep.simps)
  then show ?thesis by blast
next
  case (Env v)
  assume "dstep refresh release env i (l, s) = Some (l', s')"
  then have "lrun [] l = Some l'" using Env by simp
  then show ?thesis by blast
qed

lemma lrun_append: "lrun (is @ js) l = (case lrun is l of None \<Rightarrow> None | Some l' \<Rightarrow> lrun js l')"
  by (induction "is" arbitrary: l) (auto split: option.split)

lemma drun_inv:
  "list_all dok is \<Longrightarrow> inv s \<Longrightarrow> drun refresh release env is (l, s) = Some (l', s') \<Longrightarrow>
     inv s' \<and> (\<exists>js. lrun js l = Some l')"
proof (induction "is" arbitrary: l s)
  case Nil
  then show ?case by (auto intro: exI [of _ "[]"])
next
  case (Cons i "is")
  from Cons.prems(3) obtain l1 s1 where 1: "dstep refresh release env i (l, s) = Some (l1, s1)"
    "drun refresh release env is (l1, s1) = Some (l', s')"
    by (auto split: option.splits)
  have "inv s1" using dstep_inv [OF _ Cons.prems(2) 1(1)] Cons.prems(1) by simp
  then have "inv s'" "\<exists>js. lrun js l1 = Some l'"
    using Cons.IH [OF _ _ 1(2)] Cons.prems(1) by auto
  then show ?case
    using dstep_lrun [OF 1(1)] lrun_append by (metis option.simps(5))
qed

end

section \<open>Properties\<close>

text \<open>C34. In every run, for the present lease: Renew is called between its T1 and T2 deadlines only, Rebind between T2
  and the end of the valid lifetime only, and two calls of one kind are at least 100 ms apart. The loop has returned
  only if the context was cancelled or all deadlines of the lease have passed, and it calls Release exactly once, when
  it returns.\<close>

theorem lease_schedule:
  assumes "lrun is (run_start n1 n2 n3 lt) = Some s"
  shows "list_all (\<lambda>t. t1Deadline s \<le> t \<and> t < t2Deadline s) (times_of Renew s) \<and>
    list_all (\<lambda>t. t1Deadline s \<le> t \<and> t2Deadline s \<le> t \<and> t < validDeadline s) (times_of Rebind s) \<and>
    spaced (times_of Renew s) \<and> spaced (times_of Rebind s) \<and>
    (pc s = Returned \<longrightarrow>
      cancelled s \<or> t1Deadline s \<le> now s \<and> t2Deadline s \<le> now s \<and> validDeadline s \<le> now s) \<and>
    (closed s \<longleftrightarrow> pc s = Returned) \<and> releases s = (if pc s = Returned then 1 else 0)"
proof -
  have "loop_inv s"
    using lrun_inv [OF run_start_inv assms] .
  then have "calls_ok s" "pc_ok (pc s) s" "closed s = (pc s = Returned)" "releases s = (if closed s then 1 else 0)"
    by (auto simp: loop_inv_def)
  then show ?thesis
    by (auto simp: calls_ok_def)
qed

text \<open>A run: a renewal that fails once and is then answered at second 12; the new lease of four seconds is neither
  renewed nor rebound, and the loop ends.\<close>

definition lt0 :: LeaseTimes where "lt0 = \<lparr>LT1 = 10 * second, LT2 = 16 * second, LValid = 20 * second\<rparr>"

definition lt1 :: LeaseTimes where "lt1 = \<lparr>LT1 = second, LT2 = 2 * second, LValid = 4 * second\<rparr>"

definition inputs0 :: "input list" where
  "inputs0 = [Clock 0, Fire (10 * second), Clock (10 * second), Answer (10 * second) (10 * second) (10 * second) None,
     Fire (12 * second), Clock (12 * second), Answer (12 * second) (12 * second) (12 * second) (Some lt1),
     Clock (12 * second), Fire (13 * second), Clock (13 * second)]"

definition inputs1 :: "input list" where
  "inputs1 = [Answer (14 * second) (14 * second) (14 * second) None, Clock (14 * second),
     Answer (16 * second) (16 * second) (16 * second) None]"

lemmas run_simps = run_start_def loop_defs defaultsFor_def lt0_def lt1_def inputs0_def inputs1_def retryBackoff_def quo_def
  wrap64_small Let_def

definition state0 :: LeaseLoop where
  "state0 = \<lparr>pc = Renewing, now = 13 * second, t1 = second, t2 = 2 * second, t1Deadline = 13 * second,
     t2Deadline = 14 * second, validDeadline = 16 * second, cancelled = False, calls = [(Renew, 13 * second)],
     releases = 0, closed = False\<rparr>"

lemma run_state0: "lrun inputs0 (run_start 0 0 0 lt0) = Some state0"
  by (simp add: run_simps state0_def)

definition state1 :: LeaseLoop where
  "state1 = state0\<lparr>pc := Returned, now := 16 * second, calls := [(Rebind, 14 * second), (Renew, 13 * second)],
     releases := 1, closed := True\<rparr>"

lemma run_state1: "lrun (inputs0 @ inputs1) (run_start 0 0 0 lt0) = Some state1"
  by (simp add: run_simps state0_def state1_def)

theorem lease_schedule_witness:
  "times_of Renew state1 = [13 * second] \<and> times_of Rebind state1 = [14 * second] \<and>
   list_all (\<lambda>t. t2Deadline state1 \<le> t \<and> t < validDeadline state1) (times_of Rebind state1) \<and> releases state1 = 1"
  using lease_schedule [OF run_state1] by (simp add: state1_def state0_def times_of_def)

text \<open>C35. Once the context is cancelled, or once all deadlines have passed and no call succeeds any more, the loop takes
  at most six more steps; as long as it has not returned a step is possible. Hence it returns.\<close>

theorem lease_loop_ends:
  assumes "lrun is0 (run_start n1 n2 n3 lt) = Some s"
    and "cancelled s \<or>
      t1Deadline s \<le> now s \<and> t2Deadline s \<le> now s \<and> validDeadline s \<le> now s \<and> list_all fails is"
    and "lrun is s = Some s'"
  shows "length (filter own is) \<le> 6 \<and>
    (length (filter own is) = 6 \<longrightarrow> pc s' = Returned) \<and>
    (pc s' \<noteq> Returned \<longrightarrow> (\<exists>i. own i \<and> fails i \<and> lstep i s' \<noteq> None)) \<and>
    (pc s' = Returned \<longrightarrow> releases s' = 1)"
proof -
  have "rank (pc s') + length (filter own is) \<le> 6"
    using lrun_ending [of s "is" s'] assms(2,3) pc_rank_le [of "pc s"] by (auto simp: ending_def)
  moreover have "rank p = 0 \<Longrightarrow> p = Returned" for p
    by (cases p) auto
  moreover have "loop_inv s'"
    using lrun_inv [OF run_start_inv assms(1)] assms(3) by (rule lrun_inv)
  ultimately show ?thesis
    using loop_progress [of s'] by (auto simp: loop_inv_def)
qed

definition state2 :: LeaseLoop where
  "state2 = state0\<lparr>cancelled := True\<rparr>"

theorem lease_loop_ends_witness:
  "cancelled state2 \<and> lrun [Answer (14 * second) (14 * second) (14 * second) (Some lt1)] state2 = Some (return_loop state2) \<and>
   releases (return_loop state2) = 1"
proof -
  have "lrun (inputs0 @ [Cancel]) (run_start 0 0 0 lt0) = Some state2"
    by (simp add: run_simps state0_def state2_def)
  moreover have "lrun [Answer (14 * second) (14 * second) (14 * second) (Some lt1)] state2 = Some (return_loop state2)"
    by (simp add: state2_def state0_def renewed_def)
  ultimately show ?thesis
    using lease_loop_ends [of "inputs0 @ [Cancel]" 0 0 0 lt0 state2 "[Answer (14 * second) (14 * second) (14 * second) (Some lt1)]" "return_loop state2"]
    by (simp add: state2_def state0_def return_loop_def)
qed

text \<open>Lifetimes below 2^61 nanoseconds (73 years) get ordered defaults: half and four fifths of the valid lifetime. For
  the infinite lifetime of 2^32 - 1 seconds the product wraps around: T2 is negative, so that its deadline lies before
  T1 and no Renew is ever sent, for any T1.\<close>

theorem default_times:
  "(0 < v \<and> v < 2 ^ 61 \<longrightarrow>
      defaultsFor \<lparr>LT1 = 0, LT2 = 0, LValid = v\<rparr> = (v div 2, v * 4 div 5, v) \<and>
      0 \<le> v div 2 \<and> v div 2 \<le> v * 4 div 5 \<and> v * 4 div 5 \<le> v) \<and>
   fst (snd (defaultsFor \<lparr>LT1 = a, LT2 = 0, LValid = 4294967295 * second\<rparr>)) < 0"
proof -
  have "wrap64 (4294967295 * second * 4) = 4294967295 * second * 4 - 2 ^ 64"
    unfolding wrap64_def by (simp add: signed_take_bit_eq_take_bit_shift take_bit_eq_mod)
  then have "fst (snd (defaultsFor \<lparr>LT1 = a, LT2 = 0, LValid = 4294967295 * second\<rparr>)) < 0"
    by (simp add: defaultsFor_def Let_def quo_def)
  then show ?thesis
    by (auto simp: defaultsFor_def Let_def quo_def wrap64_small)
qed

theorem default_times_witness:
  "defaultsFor \<lparr>LT1 = 0, LT2 = 0, LValid = 100 * second\<rparr> = (50 * second, 80 * second, 100 * second)"
  using default_times [of "100 * second" 0] by simp

end
