(* ===== verification/DhcpClient6.thy ===== *)
theory DhcpClient6
  imports Dhcp6 LeaseLoop
begin

text \<open>
  The DHCPv6 client: the exchange with retransmission of \<open>src/pkg/lib/dhcp/retransmit6.go\<close>, the messages and leases of
  \<open>client6.go\<close> and \<open>client6_pd.go\<close>.
  What the socket, the clock and the context do during an exchange is a script: a list of rounds, one per
  transmission, each with the attempts to send and the reads. The timeout of a round is part of the script, because
  \<open>nextRT\<close> computes it with floating-point numbers. A script that ends before the exchange returns gives \<open>XRunning\<close>.
\<close>

section \<open>Elapsed time\<close>

definition elapsedCS :: "int \<Rightarrow> u16" where
  "elapsedCS d =
     (let cs = quo d (10 * millisecond)
      in if cs < 0 then 0 else if cs > 0xffff then 0xffff else word_of_int cs)"

text \<open>\<open>PutUint16\<close> overwrites two bytes of the first Elapsed Time option and panics (\<open>None\<close>) when it has fewer.\<close>

fun set_elapsed :: "u16 \<Rightarrow> Options6 \<Rightarrow> Options6 option" where
  "set_elapsed v [] = Some [Option6ElapsedTime v]"
| "set_elapsed v (q # qs) =
     (if Code6 q = Opt6ElapsedTime
      then if length (Data6 q) < 2 then None else Some (q\<lparr>Data6 := be16 v @ drop 2 (Data6 q)\<rparr> # qs)
      else map_option (Cons q) (set_elapsed v qs))"

definition setElapsed :: "int \<Rightarrow> Packet6 \<Rightarrow> Packet6 option" where
  "setElapsed d pkt = map_option (\<lambda>qs. pkt\<lparr>P6Options := qs\<rparr>) (set_elapsed (elapsedCS d) (P6Options pkt))"

section \<open>The exchange\<close>

datatype xerror = ContextEnded | ReadFailed | NoReply string nat | ListenFailed

text \<open>An attempt to send: whether it succeeds and, if not, whether the context has ended.\<close>

fun sendUntil :: "(bool \<times> bool) list \<Rightarrow> bool option" where
  "sendUntil [] = None"
| "sendUntil ((ok, ended) # as) = (if ok then Some True else if ended then Some False else sendUntil as)"

datatype outcome = Timeout | ReadError | Datagram bytes

record read =
  tick :: int
  ended0 :: bool
  outcome :: outcome
  ended1 :: bool

datatype rresult = RReply Packet6 | RError xerror | RDeadline | RRunning

text \<open>The reads until the deadline. The buffer holds 1500 bytes.\<close>

fun read_replies :: "int \<Rightarrow> bytes \<Rightarrow> u8 \<Rightarrow> read list \<Rightarrow> rresult" where
  "read_replies deadline xid want [] = RRunning"
| "read_replies deadline xid want (r # rs) =
     (if \<not> tick r < deadline then RDeadline
      else if ended0 r then RError ContextEnded
      else case outcome r of
        Timeout \<Rightarrow> if ended1 r then RError ContextEnded else read_replies deadline xid want rs
      | ReadError \<Rightarrow> RError (if ended1 r then ContextEnded else ReadFailed)
      | Datagram d \<Rightarrow>
          (case Unmarshal6 (take 1500 d) of
             Inl _ \<Rightarrow> read_replies deadline xid want rs
           | Inr p \<Rightarrow>
               if TransactionID p \<noteq> xid then read_replies deadline xid want rs
               else if MsgType p = want then RReply p
               else read_replies deadline xid want rs))"

record round =
  begun :: int
  sends :: "(bool \<times> bool) list"
  sentAt :: int
  armedAt :: int
  timeout :: int
  reads :: "read list"
  ended :: bool

datatype xresult = XReply Packet6 | XError xerror | XPanic | XRunning

text \<open>The datagrams sent and the result. \<open>mrc\<close> is the maximum transmission count, zero for none.\<close>

fun exch :: "Packet6 \<Rightarrow> u8 \<Rightarrow> nat \<Rightarrow> nat \<Rightarrow> int \<Rightarrow> round list \<Rightarrow> bytes list \<times> xresult" where
  "exch pkt want mrc count first [] = ([], XRunning)"
| "exch pkt want mrc count first (r # rs) =
     (case setElapsed (if count = 1 then 0 else begun r - first) pkt of
        None \<Rightarrow> ([], XPanic)
      | Some pkt1 \<Rightarrow>
          (case sendUntil (sends r) of
             None \<Rightarrow> ([], XRunning)
           | Some False \<Rightarrow> ([], XError ContextEnded)
           | Some True \<Rightarrow>
               let first1 = (if count = 1 then sentAt r else first)
               in apfst (Cons (Packet6_Marshal pkt1))
                   (case read_replies (armedAt r + timeout r) (TransactionID pkt1) want (reads r) of
                      RReply p \<Rightarrow> ([], XReply p)
                    | RError e \<Rightarrow> ([], XError e)
                    | RRunning \<Rightarrow> ([], XRunning)
                    | RDeadline \<Rightarrow>
                        if ended r then ([], XError ContextEnded)
                        else if 0 < mrc \<and> mrc \<le> count then ([], XError (NoReply (MessageType6 want) count))
                        else exch pkt1 want mrc (Suc count) first1 rs)))"

definition exchange :: "Packet6 \<Rightarrow> u8 \<Rightarrow> nat \<Rightarrow> round list \<Rightarrow> bytes list \<times> xresult" where
  "exchange pkt want mrc rounds = exch pkt want mrc 1 0 rounds"

definition solicitMRC :: nat where "solicitMRC = 0"
definition requestMRC :: nat where "requestMRC = 10"
definition renewMRC :: nat where "renewMRC = 0"
definition rebindMRC :: nat where "rebindMRC = 0"

lemmas mrc_defs = solicitMRC_def requestMRC_def renewMRC_def rebindMRC_def

section \<open>Messages and leases\<close>

record Lease6 =
  ClientIP :: ip
  LPreferred :: int
  LValidLifetime :: int
  LDNS :: "ip list"
  ServerDUID :: "bytes option"
  L6T1 :: int
  L6T2 :: int

datatype lease_error = Exchange xerror | NoIA | IAStatus u16 string | NoAddress

definition seconds :: "u32 \<Rightarrow> int" where
  "seconds w = wrap64 (uint w * second)"

definition newSolicit :: "bytes \<Rightarrow> bytes \<Rightarrow> Packet6" where
  "newSolicit duid xid = \<lparr>MsgType = Msg6Solicit, TransactionID = xid,
     P6Options = [Option6ClientID duid, Option6ElapsedTime 0,
       Option6IANAOpt \<lparr>IAID = 1, T1 = 0, T2 = 0, IAOptions = []\<rparr>, Option6ORO [Opt6DNSServers]]\<rparr>"

text \<open>The server identifier and the offered association are copied from the Advertise.\<close>

definition copied :: "u16 \<Rightarrow> bytes option \<Rightarrow> Options6" where
  "copied code d = (case d of None \<Rightarrow> [] | Some x \<Rightarrow> [\<lparr>Code6 = code, Data6 = x\<rparr>])"

definition newRequest :: "bytes \<Rightarrow> bytes \<Rightarrow> Packet6 \<Rightarrow> Packet6" where
  "newRequest duid xid adv = \<lparr>MsgType = Msg6Request, TransactionID = xid,
     P6Options = [Option6ClientID duid, Option6ElapsedTime 0, Option6ORO [Opt6DNSServers]] @
       copied Opt6ServerID (Options6_ServerID (P6Options adv)) @ copied Opt6IANA (Options6_Get (P6Options adv) Opt6IANA)\<rparr>"

definition lease_ia :: "Lease6 \<Rightarrow> IANA" where
  "lease_ia l = \<lparr>IAID = 1, T1 = 0, T2 = 0, IAOptions = [Option6IAAddr (ClientIP l) 0 0]\<rparr>"

definition renewPacket :: "bytes \<Rightarrow> bytes \<Rightarrow> Lease6 \<Rightarrow> Packet6" where
  "renewPacket duid xid l = \<lparr>MsgType = Msg6Renew, TransactionID = xid,
     P6Options = [Option6ClientID duid, Option6ServerID (opt_data (ServerDUID l)), Option6ElapsedTime 0,
       Option6IANAOpt (lease_ia l), Option6ORO [Opt6DNSServers]]\<rparr>"

definition releasePacket :: "bytes \<Rightarrow> bytes \<Rightarrow> Lease6 \<Rightarrow> Packet6" where
  "releasePacket duid xid l = \<lparr>MsgType = Msg6Release, TransactionID = xid,
     P6Options = [Option6ClientID duid, Option6ServerID (opt_data (ServerDUID l)), Option6IANAOpt (lease_ia l)]\<rparr>"

definition toLease6 :: "Packet6 \<Rightarrow> lease_error + Lease6" where
  "toLease6 pkt =
     (case Options6_IANA (P6Options pkt) of
        None \<Rightarrow> Inl NoIA
      | Some ia \<Rightarrow>
          (case IANA_Addresses ia of
             [] \<Rightarrow> (case Options6_StatusCode (IAOptions ia) of (code, msg) \<Rightarrow>
                      if code \<noteq> Status6Success then Inl (IAStatus code msg) else Inl NoAddress)
           | a # as \<Rightarrow>
               Inr \<lparr>ClientIP = AddrIP a, LPreferred = seconds (APreferredLifetime a),
                 LValidLifetime = seconds (AValidLifetime a), LDNS = Options6_DNS (P6Options pkt),
                 ServerDUID = Options6_ServerID (P6Options pkt), L6T1 = seconds (T1 ia), L6T2 = seconds (T2 ia)\<rparr>))"

section \<open>Prefix delegation\<close>

record PDLease =
  PDPrefix :: IPNet
  PDPreferred :: int
  PDValid :: int
  PDServerDUID :: "bytes option"
  PDT1 :: int
  PDT2 :: int

text \<open>\<open>net.CIDRMask\<close> of a length above 128 is a \<open>nil\<close> mask.\<close>

definition cidr_mask :: "nat \<Rightarrow> ipmask" where
  "cidr_mask n = (case CIDRMask n 128 of None \<Rightarrow> [] | Some m \<Rightarrow> m)"

definition pd_prefix :: "IPNet \<Rightarrow> IAPrefix" where
  "pd_prefix pl = \<lparr>PreferredLifetime = 0, ValidLifetime = 0, PrefixLength = word_of_nat (fst (mask_Size (nMask pl))),
     Prefix = opt_data (To16 (nIP pl)), PrefOptions = []\<rparr>"

definition pd_ia :: "IPNet \<Rightarrow> IAPD" where
  "pd_ia pl = \<lparr>IAID = 1, T1 = 0, T2 = 0, IAOptions = [Option6IAPrefixOpt (pd_prefix pl)]\<rparr>"

definition newPDSolicit :: "bytes \<Rightarrow> bytes \<Rightarrow> u8 option \<Rightarrow> Packet6" where
  "newPDSolicit duid xid hint =
     (let opts = (case hint of
                    None \<Rightarrow> []
                  | Some n \<Rightarrow> if n > 0
                      then [Option6IAPrefixOpt \<lparr>PreferredLifetime = 0, ValidLifetime = 0, PrefixLength = n, Prefix = zeros 16,
                              PrefOptions = []\<rparr>]
                      else [])
      in \<lparr>MsgType = Msg6Solicit, TransactionID = xid,
          P6Options = [Option6ClientID duid, Option6ElapsedTime 0,
            Option6IAPDOpt \<lparr>IAID = 1, T1 = 0, T2 = 0, IAOptions = opts\<rparr>, Option6ORO [Opt6DNSServers]]\<rparr>)"

definition newPDRequest :: "bytes \<Rightarrow> bytes \<Rightarrow> Packet6 \<Rightarrow> Packet6" where
  "newPDRequest duid xid adv = \<lparr>MsgType = Msg6Request, TransactionID = xid,
     P6Options = [Option6ClientID duid, Option6ElapsedTime 0] @
       copied Opt6ServerID (Options6_ServerID (P6Options adv)) @ copied Opt6IAPD (Options6_Get (P6Options adv) Opt6IAPD)\<rparr>"

definition renewPDPacket :: "bytes \<Rightarrow> bytes \<Rightarrow> PDLease \<Rightarrow> Packet6" where
  "renewPDPacket duid xid l = \<lparr>MsgType = Msg6Renew, TransactionID = xid,
     P6Options = [Option6ClientID duid, Option6ServerID (opt_data (PDServerDUID l)), Option6ElapsedTime 0,
       Option6IAPDOpt (pd_ia (PDPrefix l))]\<rparr>"

definition rebindPDPacket :: "bytes \<Rightarrow> bytes \<Rightarrow> PDLease \<Rightarrow> Packet6" where
  "rebindPDPacket duid xid l = \<lparr>MsgType = Msg6Rebind, TransactionID = xid,
     P6Options = [Option6ClientID duid, Option6ElapsedTime 0, Option6IAPDOpt (pd_ia (PDPrefix l))]\<rparr>"

definition releasePDPacket :: "bytes \<Rightarrow> bytes \<Rightarrow> PDLease \<Rightarrow> Packet6" where
  "releasePDPacket duid xid l = \<lparr>MsgType = Msg6Release, TransactionID = xid,
     P6Options = [Option6ClientID duid, Option6ServerID (opt_data (PDServerDUID l)), Option6IAPDOpt (pd_ia (PDPrefix l))]\<rparr>"

definition toPDLease :: "Packet6 \<Rightarrow> lease_error + PDLease" where
  "toPDLease pkt =
     (case Options6_IAPD (P6Options pkt) of
        None \<Rightarrow> Inl NoIA
      | Some ia \<Rightarrow>
          (case IAPD_Prefixes ia of
             [] \<Rightarrow> (case Options6_StatusCode (IAOptions ia) of (code, msg) \<Rightarrow>
                      if code \<noteq> Status6Success then Inl (IAStatus code msg) else Inl NoAddress)
           | p # ps \<Rightarrow>
               Inr \<lparr>PDPrefix = \<lparr>nIP = Prefix p, nMask = cidr_mask (unat (PrefixLength p))\<rparr>,
                 PDPreferred = seconds (PreferredLifetime p), PDValid = seconds (ValidLifetime p),
                 PDServerDUID = Options6_ServerID (P6Options pkt), PDT1 = seconds (T1 ia), PDT2 = seconds (T2 ia)\<rparr>))"

section \<open>Leases by exchange\<close>

datatype 'a client_result = Leased 'a | Failed lease_error | Panicked | Running

definition finish :: "(Packet6 \<Rightarrow> lease_error + 'a) \<Rightarrow> xresult \<Rightarrow> 'a client_result" where
  "finish conv r =
     (case r of
        XReply p \<Rightarrow> (case conv p of Inl e \<Rightarrow> Failed e | Inr l \<Rightarrow> Leased l)
      | XError e \<Rightarrow> Failed (Exchange e)
      | XPanic \<Rightarrow> Panicked
      | XRunning \<Rightarrow> Running)"

text \<open>Solicit, Advertise, Request, Reply: the messages differ for addresses and prefixes, the sequence does not.\<close>

definition sarr :: "Packet6 \<Rightarrow> (Packet6 \<Rightarrow> Packet6) \<Rightarrow> (Packet6 \<Rightarrow> lease_error + 'a) \<Rightarrow> round list \<Rightarrow> round list
    \<Rightarrow> bytes list \<times> 'a client_result" where
  "sarr solicit request conv rs1 rs2 =
     (case exchange solicit Msg6Advertise solicitMRC rs1 of
        (sent1, XReply adv) \<Rightarrow>
          (case exchange (request adv) Msg6Reply requestMRC rs2 of
             (sent2, r) \<Rightarrow> (sent1 @ sent2, finish conv r))
      | (sent1, XError e) \<Rightarrow> (sent1, Failed (Exchange e))
      | (sent1, XPanic) \<Rightarrow> (sent1, Panicked)
      | (sent1, XRunning) \<Rightarrow> (sent1, Running))"

definition ObtainLease :: "bytes \<Rightarrow> bool \<Rightarrow> bytes \<Rightarrow> round list \<Rightarrow> round list \<Rightarrow> bytes list \<times> Lease6 client_result" where
  "ObtainLease duid listens xid rs1 rs2 =
     (if \<not> listens then ([], Failed (Exchange ListenFailed))
      else sarr (newSolicit duid xid) (newRequest duid xid) toLease6 rs1 rs2)"

definition RenewLease :: "bytes \<Rightarrow> bool \<Rightarrow> bytes \<Rightarrow> Lease6 \<Rightarrow> round list \<Rightarrow> bytes list \<times> Lease6 client_result" where
  "RenewLease duid listens xid l rs =
     (if \<not> listens then ([], Failed (Exchange ListenFailed))
      else apsnd (finish toLease6) (exchange (renewPacket duid xid l) Msg6Reply renewMRC rs))"

definition ObtainPDLease :: "bytes \<Rightarrow> bool \<Rightarrow> bytes \<Rightarrow> u8 option \<Rightarrow> round list \<Rightarrow> round list \<Rightarrow> bytes list \<times> PDLease client_result" where
  "ObtainPDLease duid listens xid hint rs1 rs2 =
     (if \<not> listens then ([], Failed (Exchange ListenFailed))
      else sarr (newPDSolicit duid xid hint) (newPDRequest duid xid) toPDLease rs1 rs2)"

definition RenewPDLease :: "bytes \<Rightarrow> bool \<Rightarrow> bytes \<Rightarrow> PDLease \<Rightarrow> round list \<Rightarrow> bytes list \<times> PDLease client_result" where
  "RenewPDLease duid listens xid l rs =
     (if \<not> listens then ([], Failed (Exchange ListenFailed))
      else apsnd (finish toPDLease) (exchange (renewPDPacket duid xid l) Msg6Reply renewMRC rs))"

definition RebindPDLease :: "bytes \<Rightarrow> bool \<Rightarrow> bytes \<Rightarrow> PDLease \<Rightarrow> round list \<Rightarrow> bytes list \<times> PDLease client_result" where
  "RebindPDLease duid listens xid l rs =
     (if \<not> listens then ([], Failed (Exchange ListenFailed))
      else apsnd (finish toPDLease) (exchange (rebindPDPacket duid xid l) Msg6Reply rebindMRC rs))"

definition ReleaseLease6 :: "bytes \<Rightarrow> bool \<Rightarrow> bytes \<Rightarrow> Lease6 \<Rightarrow> bytes list \<times> xerror option" where
  "ReleaseLease6 duid listens xid l =
     (if \<not> listens then ([], Some ListenFailed) else ([Packet6_Marshal (releasePacket duid xid l)], None))"

definition ReleasePDLease :: "bytes \<Rightarrow> bool \<Rightarrow> bytes \<Rightarrow> PDLease \<Rightarrow> bytes list \<times> xerror option" where
  "ReleasePDLease duid listens xid l =
     (if \<not> listens then ([], Some ListenFailed) else ([Packet6_Marshal (releasePDPacket duid xid l)], None))"

section \<open>Transmissions\<close>

text \<open>Apart from the Elapsed Time option a retransmission is the first message.\<close>

definition no_elapsed :: "Options6 \<Rightarrow> Options6" where
  "no_elapsed qs = filter (\<lambda>q. Code6 q \<noteq> Opt6ElapsedTime) qs"

definition sendable :: "Packet6 \<Rightarrow> bool" where
  "sendable p \<longleftrightarrow> length (TransactionID p) = 3 \<and>
     list_all (\<lambda>q. option6_ok q \<and> (Code6 q = Opt6ElapsedTime \<longrightarrow> 2 \<le> length (Data6 q))) (P6Options p)"

definition same_message :: "Packet6 \<Rightarrow> Packet6 \<Rightarrow> bool" where
  "same_message p q \<longleftrightarrow> MsgType q = MsgType p \<and> TransactionID q = TransactionID p \<and>
     no_elapsed (P6Options q) = no_elapsed (P6Options p)"

lemma same_message_trans: "same_message p q \<Longrightarrow> same_message q r \<Longrightarrow> same_message p r"
  by (simp add: same_message_def)

lemma set_elapsed_ok:
  "list_all (\<lambda>q. option6_ok q \<and> (Code6 q = Opt6ElapsedTime \<longrightarrow> 2 \<le> length (Data6 q))) qs \<Longrightarrow>
     \<exists>qs'. set_elapsed v qs = Some qs' \<and> no_elapsed qs' = no_elapsed qs \<and>
       list_all (\<lambda>q. option6_ok q \<and> (Code6 q = Opt6ElapsedTime \<longrightarrow> 2 \<le> length (Data6 q))) qs'"
  by (induction qs) (auto simp: Option6ElapsedTime_def option6_ok_def no_elapsed_def len_simps)

lemma setElapsed_ok:
  assumes "sendable p"
  obtains q where "setElapsed d p = Some q" "same_message p q" "sendable q"
proof -
  from assms set_elapsed_ok [of "P6Options p" "elapsedCS d"] obtain qs where
    "set_elapsed (elapsedCS d) (P6Options p) = Some qs" "no_elapsed qs = no_elapsed (P6Options p)"
    "list_all (\<lambda>q. option6_ok q \<and> (Code6 q = Opt6ElapsedTime \<longrightarrow> 2 \<le> length (Data6 q))) qs"
    by (auto simp: sendable_def)
  then show ?thesis
    using assms by (intro that [of "p\<lparr>P6Options := qs\<rparr>"]) (auto simp: setElapsed_def same_message_def sendable_def)
qed

lemma sendable_decodes: "sendable p \<Longrightarrow> Unmarshal6 (Packet6_Marshal p) = Inr p"
  by (rule Unmarshal6_Marshal) (auto simp: sendable_def list_all_iff)

section \<open>Soundness of the exchange\<close>

definition received :: "Packet6 \<Rightarrow> round \<Rightarrow> bool" where
  "received p r \<longleftrightarrow> (\<exists>x\<in>set (reads r). tick x < armedAt r + timeout r \<and>
     (\<exists>d. outcome x = Datagram d \<and> Unmarshal6 (take 1500 d) = Inr p))"

lemma read_replies_reply:
  "read_replies dl xid want rs = RReply p \<Longrightarrow>
     MsgType p = want \<and> TransactionID p = xid \<and>
     (\<exists>x\<in>set rs. tick x < dl \<and> (\<exists>d. outcome x = Datagram d \<and> Unmarshal6 (take 1500 d) = Inr p))"
  by (induction rs) (auto split: if_splits outcome.splits sum.splits)

lemma read_replies_no_reply: "read_replies dl xid want rs \<noteq> RError (NoReply n k)"
  by (induction rs) (auto split: outcome.split sum.split)

definition exch_ok :: "Packet6 \<Rightarrow> u8 \<Rightarrow> nat \<Rightarrow> nat \<Rightarrow> round list \<Rightarrow> bytes list \<times> xresult \<Rightarrow> bool" where
  "exch_ok pkt want mrc count rounds res \<longleftrightarrow>
     snd res \<noteq> XPanic \<and>
     (0 < mrc \<and> count \<le> mrc \<longrightarrow> length (fst res) + count \<le> Suc mrc) \<and>
     (\<forall>d\<in>set (fst res). \<exists>q. Unmarshal6 d = Inr q \<and> same_message pkt q) \<and>
     (\<forall>p. snd res = XReply p \<longrightarrow>
        MsgType p = want \<and> TransactionID p = TransactionID pkt \<and> (\<exists>r\<in>set rounds. received p r)) \<and>
     (\<forall>n k. snd res = XError (NoReply n k) \<longrightarrow> 0 < mrc \<and> mrc \<le> k \<and> length (fst res) + count = Suc k)"

lemma exch_ok_Cons:
  assumes ih: "exch_ok q want mrc (Suc count) rs res" and same: "same_message pkt q" and dec: "Unmarshal6 d = Inr q"
    and count: "\<not> (0 < mrc \<and> mrc \<le> count)"
  shows "exch_ok pkt want mrc count (r # rs) (apfst (Cons d) res)"
proof -
  have "\<exists>q'. Unmarshal6 d' = Inr q' \<and> same_message pkt q'" if "d' \<in> set (d # fst res)" for d'
    using that ih same dec same_message_trans [OF same] unfolding exch_ok_def by (cases "d' = d") fastforce+
  moreover have "TransactionID q = TransactionID pkt"
    using same by (simp add: same_message_def)
  ultimately show ?thesis
    using ih count unfolding exch_ok_def by (auto simp: not_le Suc_le_eq)
qed

lemma exch_ok_none: "x \<in> {XRunning, XError ContextEnded} \<Longrightarrow> exch_ok pkt want mrc count rounds ([], x)"
  by (auto simp: exch_ok_def)

lemma exch_ok_one:
  assumes "same_message pkt q" "Unmarshal6 d = Inr q" "x \<noteq> XPanic"
    and "\<And>p. x = XReply p \<Longrightarrow> MsgType p = want \<and> TransactionID p = TransactionID pkt \<and> received p r"
    and "\<And>n k. x = XError (NoReply n k) \<Longrightarrow> 0 < mrc \<and> mrc \<le> k \<and> k = count"
  shows "exch_ok pkt want mrc count (r # rs) ([d], x)"
  using assms unfolding exch_ok_def by auto

lemma exch_sound: "sendable pkt \<Longrightarrow> exch_ok pkt want mrc count rounds (exch pkt want mrc count first rounds)"
proof (induction rounds arbitrary: pkt count first)
  case Nil
  then show ?case by (simp add: exch_ok_def)
next
  case (Cons r rs)
  define d where "d = (if count = 1 then 0 else begun r - first)"
  obtain q where q: "setElapsed d pkt = Some q" "same_message pkt q" "sendable q"
    using setElapsed_ok [OF Cons.prems] by blast
  have dec: "Unmarshal6 (Packet6_Marshal q) = Inr q"
    using q(3) by (rule sendable_decodes)
  have xid: "TransactionID q = TransactionID pkt"
    using q(2) by (simp add: same_message_def)
  define rr where "rr = read_replies (armedAt r + timeout r) (TransactionID q) want (reads r)"
  define f where "f = (if count = 1 then sentAt r else first)"
  note IH = Cons.IH [OF q(3), of "Suc count" f]
  have rd: "MsgType p = want" "TransactionID p = TransactionID pkt" "received p r" if "rr = RReply p" for p
    using read_replies_reply [OF that [unfolded rr_def]] xid by (auto simp: received_def)
  have rn: "rr \<noteq> RError (NoReply n k)" for n k
    unfolding rr_def by (rule read_replies_no_reply)
  have step: "exch pkt want mrc count first (r # rs) =
      (case sendUntil (sends r) of
         None \<Rightarrow> ([], XRunning)
       | Some False \<Rightarrow> ([], XError ContextEnded)
       | Some True \<Rightarrow> apfst (Cons (Packet6_Marshal q))
           (case rr of
              RReply p \<Rightarrow> ([], XReply p) | RError e \<Rightarrow> ([], XError e) | RRunning \<Rightarrow> ([], XRunning)
            | RDeadline \<Rightarrow>
                if ended r then ([], XError ContextEnded)
                else if 0 < mrc \<and> mrc \<le> count then ([], XError (NoReply (MessageType6 want) count))
                else exch q want mrc (Suc count) f rs))"
    using q(1) unfolding exch.simps d_def rr_def f_def Let_def by (simp only: option.case)
  show ?case
  proof (cases "sendUntil (sends r) = Some True \<and> rr = RDeadline \<and> \<not> ended r \<and> \<not> (0 < mrc \<and> mrc \<le> count)")
    case True
    then have e: "exch pkt want mrc count first (r # rs)
        = apfst (Cons (Packet6_Marshal q)) (exch q want mrc (Suc count) f rs)"
      unfolding step by auto
    show ?thesis
      unfolding e using IH q(2) dec True by (intro exch_ok_Cons) simp_all
  next
    case False
    then show ?thesis
      unfolding step
      by (cases "sendUntil (sends r)"; cases rr)
        (auto intro!: exch_ok_none exch_ok_one [OF q(2) dec] rd simp: rn split: bool.split)
  qed
qed

section \<open>Completeness of the exchange\<close>

text \<open>A read that the loop skips: a timeout, or a datagram that is malformed, of another transaction or of another
  type. A lost round is one in which only such reads happen before its deadline.\<close>

definition skipped :: "int \<Rightarrow> bytes \<Rightarrow> u8 \<Rightarrow> read \<Rightarrow> bool" where
  "skipped dl xid want x \<longleftrightarrow> tick x < dl \<and> \<not> ended0 x \<and>
     (case outcome x of
        Timeout \<Rightarrow> \<not> ended1 x
      | ReadError \<Rightarrow> False
      | Datagram d \<Rightarrow> (case Unmarshal6 (take 1500 d) of Inl _ \<Rightarrow> True | Inr p \<Rightarrow> TransactionID p \<noteq> xid \<or> MsgType p \<noteq> want))"

lemma read_replies_skip:
  "list_all (skipped dl xid want) rs \<Longrightarrow> read_replies dl xid want (rs @ rs') = read_replies dl xid want rs'"
  by (induction rs) (auto simp: skipped_def split: outcome.splits sum.splits)

definition lost :: "bytes \<Rightarrow> u8 \<Rightarrow> round \<Rightarrow> bool" where
  "lost xid want r \<longleftrightarrow> sendUntil (sends r) = Some True \<and> \<not> ended r \<and>
     (\<exists>ig x more. reads r = ig @ x # more \<and> list_all (skipped (armedAt r + timeout r) xid want) ig \<and>
        \<not> tick x < armedAt r + timeout r)"

definition answered :: "bytes \<Rightarrow> u8 \<Rightarrow> Packet6 \<Rightarrow> round \<Rightarrow> bool" where
  "answered xid want p r \<longleftrightarrow> sendUntil (sends r) = Some True \<and>
     (\<exists>ig x more. reads r = ig @ x # more \<and> list_all (skipped (armedAt r + timeout r) xid want) ig \<and>
        tick x < armedAt r + timeout r \<and> \<not> ended0 x \<and> outcome x = Datagram (Packet6_Marshal p))"

text \<open>The first rounds are lost, then \<open>p\<close> arrives.\<close>

definition delivers :: "bytes \<Rightarrow> u8 \<Rightarrow> nat \<Rightarrow> round list \<Rightarrow> Packet6 \<Rightarrow> bool" where
  "delivers xid want mrc rounds p \<longleftrightarrow> (\<exists>ls r rest. rounds = ls @ r # rest \<and> list_all (lost xid want) ls \<and>
     (0 < mrc \<longrightarrow> length ls < mrc) \<and> answered xid want p r)"

definition reply_ok :: "bytes \<Rightarrow> u8 \<Rightarrow> Packet6 \<Rightarrow> bool" where
  "reply_ok xid want p \<longleftrightarrow> TransactionID p = xid \<and> length xid = 3 \<and> MsgType p = want \<and>
     list_all option6_ok (P6Options p) \<and> length (Packet6_Marshal p) \<le> 1500"

lemma read_replies_answered:
  assumes "answered xid want p r" "reply_ok xid want p"
  shows "read_replies (armedAt r + timeout r) xid want (reads r) = RReply p"
proof -
  from assms(1) obtain ig x more where r: "reads r = ig @ x # more"
    and ig: "list_all (skipped (armedAt r + timeout r) xid want) ig"
    and x: "tick x < armedAt r + timeout r" "\<not> ended0 x" "outcome x = Datagram (Packet6_Marshal p)"
    by (auto simp: answered_def)
  have "Unmarshal6 (Packet6_Marshal p) = Inr p"
    using assms(2) by (intro Unmarshal6_Marshal) (auto simp: reply_ok_def)
  then show ?thesis
    using assms(2) x by (simp add: r read_replies_skip [OF ig] reply_ok_def)
qed

lemma read_replies_lost:
  "lost xid want r \<Longrightarrow> read_replies (armedAt r + timeout r) xid want (reads r) = RDeadline"
  by (auto simp: lost_def read_replies_skip)

lemma exch_complete:
  assumes "list_all (lost xid want) ls" "answered xid want p r" "reply_ok xid want p"
  shows "sendable pkt \<Longrightarrow> TransactionID pkt = xid \<Longrightarrow> 0 < count \<Longrightarrow> (0 < mrc \<longrightarrow> length ls + count \<le> mrc) \<Longrightarrow>
     \<exists>sent. exch pkt want mrc count first (ls @ r # rest) = (sent, XReply p) \<and> length sent = Suc (length ls)"
  using assms(1)
proof (induction ls arbitrary: pkt count first)
  case Nil
  obtain q where q: "setElapsed (if count = 1 then 0 else begun r - first) pkt = Some q" "same_message pkt q"
    using setElapsed_ok [OF Nil.prems(1)] by blast
  then show ?case
    using Nil read_replies_answered [OF assms(2,3)] assms(2)
    by (auto simp: Let_def same_message_def answered_def)
next
  case (Cons l ls)
  obtain q where q: "setElapsed (if count = 1 then 0 else begun l - first) pkt = Some q" "same_message pkt q" "sendable q"
    using setElapsed_ok [OF Cons.prems(1)] by blast
  have xid: "TransactionID q = xid"
    using q(2) Cons.prems(2) by (simp add: same_message_def)
  have l: "lost xid want l"
    using Cons.prems(5) by simp
  obtain sent where "exch q want mrc (Suc count) (if count = 1 then sentAt l else first) (ls @ r # rest) = (sent, XReply p)"
    "length sent = Suc (length ls)"
    using Cons.IH [OF q(3) xid, of "Suc count" "if count = 1 then sentAt l else first"] Cons.prems(3-5) by auto
  then show ?case
    using q(1) xid l read_replies_lost [OF l] Cons.prems(4) by (auto simp: Let_def lost_def)
qed

lemma exchange_complete:
  assumes "delivers (TransactionID pkt) want mrc rounds p" "reply_ok (TransactionID pkt) want p" "sendable pkt"
  shows "\<exists>sent. exchange pkt want mrc rounds = (sent, XReply p) \<and> sent \<noteq> []"
proof -
  from assms(1) obtain ls r rest where d: "rounds = ls @ r # rest" "list_all (lost (TransactionID pkt) want) ls"
    "0 < mrc \<longrightarrow> length ls < mrc" "answered (TransactionID pkt) want p r"
    by (auto simp: delivers_def)
  have "0 < mrc \<longrightarrow> length ls + 1 \<le> mrc" using d(3) by auto
  from exch_complete [OF d(2,4) assms(2,3) refl zero_less_one this, of 0 rest] show ?thesis
    by (auto simp: exchange_def d(1))
qed

lemma exch_reply_received: "exch pkt want mrc count first rounds = (sent, XReply p) \<Longrightarrow> \<exists>r\<in>set rounds. received p r"
proof (induction rounds arbitrary: pkt count first sent)
  case (Cons r rs)
  obtain q where q: "setElapsed (if count = 1 then 0 else begun r - first) pkt = Some q"
    using Cons.prems by (auto split: option.splits)
  define rr where "rr = read_replies (armedAt r + timeout r) (TransactionID q) want (reads r)"
  have "rr = RReply p \<or> (\<exists>n f sent'. exch q want mrc n f rs = (sent', XReply p))"
    using Cons.prems q unfolding rr_def
    by (auto simp: Let_def apfst_def map_prod_def simp del: One_nat_def
        split: option.splits bool.splits rresult.splits if_splits prod.splits)
  moreover have "received p r" if "rr = RReply p"
    using read_replies_reply [OF that [unfolded rr_def]] by (auto simp: received_def)
  ultimately show ?case
    using Cons.IH by (metis list.set_intros)
qed simp

section \<open>Leases\<close>

lemma seconds_eq: "seconds w = uint w * second"
proof -
  have "0 \<le> uint w * second" "uint w * second < 2 ^ 63"
    using uint_lt2p [of w] by simp_all
  then show ?thesis
    unfolding seconds_def by (intro wrap64_small) linarith+
qed

lemma newSolicit_sendable:
  "length xid = 3 \<Longrightarrow> length duid < 65536 \<Longrightarrow> sendable (newSolicit duid xid)"
  by (simp add: newSolicit_def sendable_def option6_ok_def Option6ClientID_def Option6ElapsedTime_def Option6IANAOpt_def
      IANA_Marshal_def Option6ORO_def len_simps)

text \<open>What a decoded message hands over is short enough to be sent again.\<close>

lemma Options6_Get_ok: "list_all option6_ok qs \<Longrightarrow> Options6_Get qs c = Some d \<Longrightarrow> length d < 65536"
  by (induction qs) (auto simp: option6_ok_def split: if_splits)

lemma newRequest_sendable:
  "length xid = 3 \<Longrightarrow> length duid < 65536 \<Longrightarrow> list_all option6_ok (P6Options adv) \<Longrightarrow> sendable (newRequest duid xid adv)"
  using Options6_Get_ok [of "P6Options adv"]
  by (auto simp: newRequest_def sendable_def option6_ok_def Option6ClientID_def Option6ElapsedTime_def copied_def
      Option6ORO_def Options6_ServerID_def len_simps split: option.split)

lemma Options6_Get_no_elapsed: "c \<noteq> Opt6ElapsedTime \<Longrightarrow> Options6_Get (no_elapsed qs) c = Options6_Get qs c"
  by (induction qs) (auto simp: no_elapsed_def)

lemma same_message_Get:
  "same_message p q \<Longrightarrow> c \<noteq> Opt6ElapsedTime \<Longrightarrow> Options6_Get (P6Options q) c = Options6_Get (P6Options p) c"
  using Options6_Get_no_elapsed [of c "P6Options p"] Options6_Get_no_elapsed [of c "P6Options q"]
  by (simp add: same_message_def)

lemma newRequest_Get:
  "Options6_Get (P6Options (newRequest duid xid adv)) Opt6ServerID = Options6_Get (P6Options adv) Opt6ServerID"
  "Options6_Get (P6Options (newRequest duid xid adv)) Opt6IANA = Options6_Get (P6Options adv) Opt6IANA"
  by (simp_all add: newRequest_def Option6ClientID_def Option6ElapsedTime_def Option6ORO_def copied_def
      Options6_ServerID_def split: option.split)

text \<open>The Reply of a server: its identifier and one address.\<close>

definition server_ia :: "u32 \<Rightarrow> u32 \<Rightarrow> ip \<Rightarrow> u32 \<Rightarrow> u32 \<Rightarrow> IANA" where
  "server_ia a b ip pref valid = \<lparr>IAID = 1, T1 = a, T2 = b, IAOptions = [Option6IAAddr ip pref valid]\<rparr>"

definition server_reply :: "bytes \<Rightarrow> bytes \<Rightarrow> bytes \<Rightarrow> IANA \<Rightarrow> Packet6" where
  "server_reply xid cid sid ia = \<lparr>MsgType = Msg6Reply, TransactionID = xid,
     P6Options = [Option6ClientID cid, Option6ServerID sid, Option6IANAOpt ia]\<rparr>"

lemma toLease6_server:
  assumes "length ip = 16"
  shows "toLease6 (server_reply xid cid sid (server_ia a b ip pref valid)) =
    Inr \<lparr>ClientIP = ip, LPreferred = uint pref * second, LValidLifetime = uint valid * second, LDNS = [],
      ServerDUID = Some sid, L6T1 = uint a * second, L6T2 = uint b * second\<rparr>"
proof -
  have "parseIA (IANA_Marshal (server_ia a b ip pref valid)) = Some (server_ia a b ip pref valid)"
    by (rule parseIA_Marshal) (simp add: server_ia_def option6_ok_def Option6IAAddr_def len_simps)
  then have ia: "Options6_IANA (P6Options (server_reply xid cid sid (server_ia a b ip pref valid))) = Some (server_ia a b ip pref valid)"
    by (simp add: Options6_IANA_def server_reply_def Option6ClientID_def Option6ServerID_def Option6IANAOpt_def opt_data_def)
  have addr: "IANA_Addresses (server_ia a b ip pref valid) = [\<lparr>AddrIP = ip, APreferredLifetime = pref, AValidLifetime = valid\<rparr>]"
    using assms by (simp add: IANA_Addresses_def server_ia_def Option6IAAddr_def ip16_field_def To16_def slice_append_right
        slice_append_left codec_simps slice_def len_simps)
  have "Options6_DNS (P6Options (server_reply xid cid sid ia)) = []"
    "Options6_ServerID (P6Options (server_reply xid cid sid ia)) = Some sid" for ia
    by (simp_all add: Options6_DNS_def Options6_ServerID_def server_reply_def Option6ClientID_def Option6ServerID_def
        Option6IANAOpt_def opt_data_def chunks.simps [of 16 "[]"])
  then show ?thesis
    by (simp add: toLease6_def ia addr seconds_eq) (simp add: server_ia_def)
qed

lemma prefixes_of_length: "x \<in> set (prefixes_of qs) \<Longrightarrow> length (Prefix x) = 16"
  by (induction qs) (auto simp: parseIAPrefix_def slice_def split: if_splits sum.splits)

lemma toPDLease_prefix:
  assumes "toPDLease p = Inr l"
  shows "length (nIP (PDPrefix l)) = 16"
proof -
  obtain ia x xs where "IAPD_Prefixes ia = x # xs" "nIP (PDPrefix l) = Prefix x"
    using assms by (auto simp: toPDLease_def split: option.splits list.splits if_splits prod.splits)
  then show ?thesis
    using prefixes_of_length [of x "IAOptions ia"] by (simp add: IAPD_Prefixes_def)
qed

lemma finish_Leased: "finish conv x = Leased l \<longleftrightarrow> (\<exists>p. x = XReply p \<and> conv p = Inr l)"
  by (auto simp: finish_def split: xresult.splits sum.splits)

text \<open>A renewed delegation comes from a datagram of the exchange.\<close>

lemma pd_lease_received:
  assumes "snd (RenewPDLease duid listens xid l rs) = Leased l' \<or> snd (RebindPDLease duid listens xid l rs) = Leased l'"
  shows "\<exists>r\<in>set rs. \<exists>p. received p r \<and> toPDLease p = Inr l'"
proof -
  obtain pkt mrc p where "snd (exchange pkt Msg6Reply mrc rs) = XReply p" "toPDLease p = Inr l'"
    using assms by (auto simp: RenewPDLease_def RebindPDLease_def finish_Leased split: if_splits)
  then show ?thesis
    using exch_reply_received by (metis exchange_def prod.collapse)
qed

section \<open>Delegations\<close>

lemma newPDSolicit_sendable:
  "length xid = 3 \<Longrightarrow> length duid < 65536 \<Longrightarrow> sendable (newPDSolicit duid xid hint)"
  by (auto simp: newPDSolicit_def Let_def sendable_def option6_ok_def Option6ClientID_def Option6ElapsedTime_def Option6IAPDOpt_def
      IAPD_Marshal_def Option6IAPrefixOpt_def Option6ORO_def enc_option6_def len_simps split: option.split)

lemma newPDRequest_sendable:
  "length xid = 3 \<Longrightarrow> length duid < 65536 \<Longrightarrow> list_all option6_ok (P6Options adv) \<Longrightarrow> sendable (newPDRequest duid xid adv)"
  using Options6_Get_ok [of "P6Options adv"]
  by (auto simp: newPDRequest_def sendable_def option6_ok_def Option6ClientID_def Option6ElapsedTime_def copied_def
      Options6_ServerID_def len_simps split: option.split)

lemma renewPDPacket_sendable:
  "length xid = 3 \<Longrightarrow> length duid < 65536 \<Longrightarrow> length (opt_data (PDServerDUID l)) < 65536 \<Longrightarrow> sendable (renewPDPacket duid xid l)"
  by (auto simp: renewPDPacket_def sendable_def option6_ok_def Option6ClientID_def Option6ServerID_def Option6ElapsedTime_def
      Option6IAPDOpt_def IAPD_Marshal_def Option6IAPrefixOpt_def pd_ia_def pd_prefix_def enc_option6_def len_simps)

text \<open>The Reply of a delegating server.\<close>

definition server_prefix :: "u32 \<Rightarrow> u32 \<Rightarrow> u8 \<Rightarrow> ip \<Rightarrow> IAPrefix" where
  "server_prefix pref valid plen ip =
     \<lparr>PreferredLifetime = pref, ValidLifetime = valid, PrefixLength = plen, Prefix = ip, PrefOptions = []\<rparr>"

definition server_pd :: "u8 \<Rightarrow> bytes \<Rightarrow> bytes \<Rightarrow> u32 \<Rightarrow> u32 \<Rightarrow> IAPrefix \<Rightarrow> Packet6" where
  "server_pd mt xid sid a b p = \<lparr>MsgType = mt, TransactionID = xid,
     P6Options = [Option6ServerID sid, Option6IAPDOpt \<lparr>IAID = 1, T1 = a, T2 = b, IAOptions = [Option6IAPrefixOpt p]\<rparr>]\<rparr>"

lemma toPDLease_server:
  assumes "length ip = 16"
  shows "toPDLease (server_pd mt xid sid a b (server_prefix pref valid plen ip)) =
    Inr \<lparr>PDPrefix = \<lparr>nIP = ip, nMask = cidr_mask (unat plen)\<rparr>, PDPreferred = uint pref * second,
      PDValid = uint valid * second, PDServerDUID = Some sid, PDT1 = uint a * second, PDT2 = uint b * second\<rparr>"
proof -
  define p where "p = server_prefix pref valid plen ip"
  define ia where "ia = \<lparr>IAID = 1, T1 = a, T2 = b, IAOptions = [Option6IAPrefixOpt p]\<rparr>"
  have p: "parseIAPrefix (Data6 (Option6IAPrefixOpt p)) = Inr p"
    using assms by (intro parseIAPrefix_Marshal) (simp_all add: p_def server_prefix_def)
  have "parseIA (IANA_Marshal ia) = Some ia"
    by (rule parseIA_Marshal) (simp add: ia_def option6_ok_def Option6IAPrefixOpt_def p_def server_prefix_def len_simps)
  then have i: "Options6_IAPD (P6Options (server_pd mt xid sid a b p)) = Some ia"
    by (simp add: Options6_IAPD_def parseIAPD_def server_pd_def Option6ServerID_def Option6IAPDOpt_def opt_data_def
        IAPD_Marshal_def IANA_Marshal_def ia_def)
  have x: "IAPD_Prefixes ia = [p]"
    using p by (simp add: IAPD_Prefixes_def ia_def) (simp add: Option6IAPrefixOpt_def)
  have "Options6_ServerID (P6Options (server_pd mt xid sid a b p)) = Some sid"
    by (simp add: Options6_ServerID_def server_pd_def Option6ServerID_def)
  then show ?thesis
    unfolding p_def [symmetric] by (simp add: toPDLease_def i x seconds_eq) (simp add: p_def ia_def server_prefix_def)
qed

lemma obtain_pd_lease:
  assumes "length xid = 3" "length duid < 65536"
    and "reply_ok xid Msg6Advertise adv" "delivers xid Msg6Advertise solicitMRC rs1 adv"
    and "reply_ok xid Msg6Reply reply" "delivers xid Msg6Reply requestMRC rs2 reply" "toPDLease reply = Inr l"
  shows "snd (ObtainPDLease duid True xid hint rs1 rs2) = Leased l"
proof -
  obtain sent1 where e1: "exchange (newPDSolicit duid xid hint) Msg6Advertise solicitMRC rs1 = (sent1, XReply adv)"
    using exchange_complete [of "newPDSolicit duid xid hint" Msg6Advertise solicitMRC rs1 adv]
      newPDSolicit_sendable [OF assms(1,2), of hint] assms(3,4)
    by (auto simp: newPDSolicit_def Let_def)
  have "sendable (newPDRequest duid xid adv)"
    using assms(1-3) by (intro newPDRequest_sendable) (auto simp: reply_ok_def)
  then obtain sent2 where e2: "exchange (newPDRequest duid xid adv) Msg6Reply requestMRC rs2 = (sent2, XReply reply)"
    using exchange_complete [of "newPDRequest duid xid adv" Msg6Reply requestMRC rs2 reply] assms(5,6)
    by (auto simp: newPDRequest_def)
  show ?thesis
    by (simp add: ObtainPDLease_def sarr_def e1 e2 finish_def assms(7))
qed

lemma renew_pd_lease:
  assumes "length xid = 3" "length duid < 65536" "length (opt_data (PDServerDUID l)) < 65536"
    and "reply_ok xid Msg6Reply reply" "delivers xid Msg6Reply renewMRC rs reply" "toPDLease reply = Inr l'"
  shows "snd (RenewPDLease duid True xid l rs) = Leased l'"
proof -
  obtain sent where "exchange (renewPDPacket duid xid l) Msg6Reply renewMRC rs = (sent, XReply reply)"
    using exchange_complete [of "renewPDPacket duid xid l" Msg6Reply renewMRC rs reply]
      renewPDPacket_sendable [OF assms(1-3)] assms(4,5)
    by (auto simp: renewPDPacket_def)
  then show ?thesis
    by (simp add: RenewPDLease_def finish_def assms(6))
qed

section \<open>Properties\<close>

text \<open>C36. An exchange never panics on a message with a well-formed Elapsed Time option. Every datagram it sends decodes to
  the message given, with the same transaction identifier and the same other options; with a maximum transmission
  count it sends no more. The message it returns has the wanted type and the transaction identifier, and is the
  decoding of a datagram that arrived before the deadline of its round. It reports the lack of a reply only after the
  maximum number of transmissions.\<close>

theorem exchange_sound:
  assumes "sendable pkt" "exchange pkt want mrc rounds = (sent, r)"
  shows "r \<noteq> XPanic \<and> (0 < mrc \<longrightarrow> length sent \<le> mrc) \<and>
    (\<forall>d\<in>set sent. \<exists>q. Unmarshal6 d = Inr q \<and> same_message pkt q) \<and>
    (\<forall>p. r = XReply p \<longrightarrow>
       MsgType p = want \<and> TransactionID p = TransactionID pkt \<and> (\<exists>rd\<in>set rounds. received p rd)) \<and>
    (\<forall>n k. r = XError (NoReply n k) \<longrightarrow> 0 < mrc \<and> k = mrc \<and> length sent = mrc)"
proof -
  have "exch_ok pkt want mrc 1 rounds (sent, r)"
    using exch_sound [OF assms(1), of want mrc 1 rounds 0] assms(2) by (simp add: exchange_def)
  then show ?thesis
    by (fastforce simp: exch_ok_def)
qed

definition ex_xid :: bytes where "ex_xid = [1, 2, 3]"
definition ex_duid :: bytes where "ex_duid = DUIDLL 1 [2, 0, 0, 0, 0, 1]"
definition ex_ip6 :: ip where "ex_ip6 = 0x20 # 0x01 # zeros 13 @ [1]"

definition ex_adv :: Packet6 where
  "ex_adv = \<lparr>MsgType = Msg6Advertise, TransactionID = ex_xid, P6Options = [Option6ServerID [0, 3, 7]]\<rparr>"

definition ex_reply :: Packet6 where
  "ex_reply = server_reply ex_xid ex_duid [0, 3, 7] (server_ia 100 160 ex_ip6 200 300)"

definition ex_read :: "outcome \<Rightarrow> int \<Rightarrow> read" where
  "ex_read out t = \<lparr>tick = t, ended0 = False, outcome = out, ended1 = False\<rparr>"

definition ex_round :: "read list \<Rightarrow> round" where
  "ex_round rs = \<lparr>begun = 0, sends = [(False, False), (True, False)], sentAt = 0, armedAt = 0, timeout = 10, reads = rs, ended = False\<rparr>"

text \<open>A lost round, then a datagram of garbage and the answer.\<close>

definition ex_rounds :: "Packet6 \<Rightarrow> round list" where
  "ex_rounds p = [ex_round [ex_read Timeout 5, ex_read Timeout 10],
     ex_round [ex_read (Datagram [9]) 11, ex_read (Datagram (Packet6_Marshal p)) 12]\<lparr>begun := 10, armedAt := 10\<rparr>]"

lemma ex_reply_ok: "reply_ok ex_xid Msg6Advertise ex_adv" "reply_ok ex_xid Msg6Reply ex_reply"
  by (simp_all add: reply_ok_def ex_adv_def ex_reply_def ex_xid_def server_reply_def server_ia_def option6_ok_def
      Option6ClientID_def Option6ServerID_def Option6IANAOpt_def IANA_Marshal_def Option6IAAddr_def DUIDLL_def ex_duid_def
      Packet6_Marshal_def enc_option6_def copy_into_def len_simps)

lemma ex_delivers: "mrc \<noteq> 1 \<Longrightarrow> delivers xid want mrc (ex_rounds p) p"
proof -
  assume "mrc \<noteq> 1"
  define r where "r = ex_round [ex_read (Datagram [9]) 11, ex_read (Datagram (Packet6_Marshal p)) 12]\<lparr>begun := 10, armedAt := 10\<rparr>"
  have "lost xid want (ex_round [ex_read Timeout 5, ex_read Timeout 10])"
    unfolding lost_def
    by (intro conjI exI [of _ "[ex_read Timeout 5]"] exI [of _ "ex_read Timeout 10"] exI [of _ "[]"])
      (simp_all add: ex_round_def ex_read_def skipped_def)
  moreover have "answered xid want p r"
    unfolding answered_def r_def
    by (intro conjI exI [of _ "[ex_read (Datagram [9]) 11]"] exI [of _ "ex_read (Datagram (Packet6_Marshal p)) 12"] exI [of _ "[]"])
      (simp_all add: ex_round_def ex_read_def skipped_def Unmarshal6_def)
  ultimately show ?thesis
    using \<open>mrc \<noteq> 1\<close> unfolding delivers_def
    by (intro exI [of _ "[ex_round [ex_read Timeout 5, ex_read Timeout 10]]"] exI [of _ r] exI [of _ "[]"])
      (auto simp: ex_rounds_def r_def)
qed

lemma ex_received: "r \<in> set (ex_rounds q) \<Longrightarrow> reply_ok xid want q \<Longrightarrow> received p r \<Longrightarrow> p = q"
  using Unmarshal6_Marshal [of q]
  by (auto simp: ex_rounds_def ex_round_def ex_read_def received_def reply_ok_def Unmarshal6_def [of "[9]"])

lemma ex_solicit_sendable: "sendable (newSolicit ex_duid ex_xid)"
  by (rule newSolicit_sendable) (simp_all add: ex_xid_def ex_duid_def DUIDLL_def)

theorem exchange_sound_witness:
  "\<exists>sent. exchange (newSolicit ex_duid ex_xid) Msg6Advertise 2 (ex_rounds ex_adv) = (sent, XReply ex_adv) \<and> length sent \<le> 2 \<and>
     (\<forall>d\<in>set sent. \<exists>q. Unmarshal6 d = Inr q \<and> same_message (newSolicit ex_duid ex_xid) q)"
proof -
  have "delivers (TransactionID (newSolicit ex_duid ex_xid)) Msg6Advertise 2 (ex_rounds ex_adv) ex_adv"
    by (rule ex_delivers) simp
  then obtain sent where e: "exchange (newSolicit ex_duid ex_xid) Msg6Advertise 2 (ex_rounds ex_adv) = (sent, XReply ex_adv)"
    using exchange_complete [of "newSolicit ex_duid ex_xid" Msg6Advertise 2 "ex_rounds ex_adv" ex_adv] ex_reply_ok(1) ex_solicit_sendable
    by (auto simp: newSolicit_def)
  then show ?thesis
    using exchange_sound [OF ex_solicit_sendable e] by auto
qed

text \<open>C37. The client obtains the lease that the server offers: if, after at most nine lost rounds of the Request and any
  number of the Solicit, among other traffic, an Advertise and the Reply of the server arrive, \<open>ObtainLease\<close> returns
  the address, lifetimes, T1, T2 and server identifier of the Reply. The Requests carry the server identifier and the
  association of the Advertise.\<close>

theorem obtain_lease:
  assumes "length xid = 3" "length duid < 65536" "length ip = 16"
    and "reply_ok xid Msg6Advertise adv" "delivers xid Msg6Advertise solicitMRC rs1 adv"
    and "reply = server_reply xid cid sid (server_ia a b ip pref valid)"
    and "reply_ok xid Msg6Reply reply" "delivers xid Msg6Reply requestMRC rs2 reply"
  shows "\<exists>sent1 sent2. ObtainLease duid True xid rs1 rs2 = (sent1 @ sent2,
      Leased \<lparr>ClientIP = ip, LPreferred = uint pref * second, LValidLifetime = uint valid * second, LDNS = [],
        ServerDUID = Some sid, L6T1 = uint a * second, L6T2 = uint b * second\<rparr>) \<and>
    sent2 \<noteq> [] \<and>
    (\<forall>d\<in>set sent2. \<exists>q. Unmarshal6 d = Inr q \<and> MsgType q = Msg6Request \<and>
       Options6_ServerID (P6Options q) = Options6_ServerID (P6Options adv) \<and>
       Options6_Get (P6Options q) Opt6IANA = Options6_Get (P6Options adv) Opt6IANA)"
proof -
  have s1: "sendable (newSolicit duid xid)"
    using assms(1,2) by (rule newSolicit_sendable)
  have s2: "sendable (newRequest duid xid adv)"
    using assms(1,2,4) by (intro newRequest_sendable) (auto simp: reply_ok_def)
  obtain sent1 where e1: "exchange (newSolicit duid xid) Msg6Advertise solicitMRC rs1 = (sent1, XReply adv)"
    using exchange_complete [of "newSolicit duid xid" Msg6Advertise solicitMRC rs1 adv] assms(4,5) s1
    by (auto simp: newSolicit_def)
  obtain sent2 where e2: "exchange (newRequest duid xid adv) Msg6Reply requestMRC rs2 = (sent2, XReply reply)" "sent2 \<noteq> []"
    using exchange_complete [of "newRequest duid xid adv" Msg6Reply requestMRC rs2 reply] assms(7,8) s2
    by (auto simp: newRequest_def)
  have "exch_ok (newRequest duid xid adv) Msg6Reply requestMRC 1 rs2 (sent2, XReply reply)"
    using exch_sound [OF s2, of Msg6Reply requestMRC 1 rs2 0] e2(1) by (simp add: exchange_def)
  then have sent: "\<exists>q. Unmarshal6 d = Inr q \<and> same_message (newRequest duid xid adv) q" if "d \<in> set sent2" for d
    using that by (simp add: exch_ok_def)
  have req: "MsgType q = Msg6Request \<and> Options6_ServerID (P6Options q) = Options6_ServerID (P6Options adv) \<and>
      Options6_Get (P6Options q) Opt6IANA = Options6_Get (P6Options adv) Opt6IANA"
    if "same_message (newRequest duid xid adv) q" for q
    using that same_message_Get [OF that, of Opt6ServerID] same_message_Get [OF that, of Opt6IANA]
    by (simp add: newRequest_Get Options6_ServerID_def) (simp add: same_message_def newRequest_def)
  have "ObtainLease duid True xid rs1 rs2 = (sent1 @ sent2,
      Leased \<lparr>ClientIP = ip, LPreferred = uint pref * second, LValidLifetime = uint valid * second, LDNS = [],
        ServerDUID = Some sid, L6T1 = uint a * second, L6T2 = uint b * second\<rparr>)"
    by (simp add: ObtainLease_def sarr_def e1 e2(1)) (simp add: finish_def assms(6) toLease6_server [OF assms(3)])
  then show ?thesis
    using e2(2) sent req by blast
qed

theorem obtain_lease_witness:
  "\<exists>sent l. ObtainLease ex_duid True ex_xid (ex_rounds ex_adv) (ex_rounds ex_reply) = (sent, Leased l) \<and>
     ClientIP l = ex_ip6 \<and> L6T1 l = 100 * second \<and> LValidLifetime l = 300 * second \<and> ServerDUID l = Some [0, 3, 7]"
proof -
  have "length ex_xid = 3" "length ex_duid < 65536" "length ex_ip6 = 16"
    by (simp_all add: ex_xid_def ex_duid_def DUIDLL_def ex_ip6_def)
  note ob = obtain_lease [OF this ex_reply_ok(1) ex_delivers ex_reply_def ex_reply_ok(2) ex_delivers]
  show ?thesis
    using ob by (auto simp: mrc_defs)
qed

end
