(* ===== verification/PdSource.thy ===== *)
theory PdSource
  imports DhcpClient6 IpAlloc
begin

text \<open>
  The source of delegated prefixes, \<open>src/pkg/container/net/renumber/source_pd.go\<close>: it obtains a delegation, publishes a
  /64 of it to the renumbering service over a channel of capacity one, and keeps the lease with the lease loop, whose
  refresher it is. A cycle runs over scripts: what the socket delivers, the inputs of the loop, and when the service
  takes the published prefix.
\<close>

section \<open>The source\<close>

text \<open>\<open>out\<close> is the channel, \<open>published\<close> the value sent last; \<open>onced\<close> says that \<open>releaseOnce\<close> has run and \<open>returned\<close>
  lists the delegations for which a Release was sent.\<close>

record PDSource =
  out :: "IPNet list"
  published :: "IPNet option"
  client :: bool
  lease :: "PDLease option"
  onced :: bool
  returned :: "PDLease list"

definition NewPDSource :: PDSource where
  "NewPDSource = \<lparr>out = [], published = None, client = False, lease = None, onced = False, returned = []\<rparr>"

definition Stop :: "PDSource \<Rightarrow> PDSource" where
  "Stop s =
     (if onced s then s
      else s\<lparr>onced := True,
             returned := (case lease s of Some l \<Rightarrow> if client s then l # returned s else returned s | None \<Rightarrow> returned s)\<rparr>)"

definition subAllocate64 :: "IPNet option \<Rightarrow> IPNet option" where
  "subAllocate64 delegated =
     (case delegated of
        None \<Rightarrow> None
      | Some d \<Rightarrow>
          if 64 < fst (mask_Size (nMask d)) then None
          else Some \<lparr>nIP = opt_data (To16 (nIP d)), nMask = cidr_mask 64\<rparr>)"

text \<open>A full channel is emptied and the prefix sent; when the context has ended (\<open>Some dropped\<close>) the loop may be left
  before, with or without the stale prefix.\<close>

definition publish :: "bool option \<Rightarrow> IPNet option \<Rightarrow> PDSource \<Rightarrow> bool \<times> PDSource" where
  "publish abort delegated s =
     (case subAllocate64 delegated of
        None \<Rightarrow> (False, s)
      | Some sub \<Rightarrow>
          (case abort of
             None \<Rightarrow> (True, s\<lparr>out := [sub], published := Some sub\<rparr>)
           | Some dropped \<Rightarrow> (False, if dropped then s\<lparr>out := []\<rparr> else s)))"

section \<open>The refresher\<close>

record refresh_script =
  listens :: bool
  rxid :: bytes
  rrounds :: "round list"
  rabort :: "bool option"

definition refreshed :: "bool option \<Rightarrow> PDLease \<Rightarrow> PDLease \<Rightarrow> PDSource \<Rightarrow> LeaseTimes option \<times> PDSource" where
  "refreshed abort new old s =
     (let s1 = (if cidrEqual (PDPrefix new) (PDPrefix old) then s else snd (publish abort (Some (PDPrefix new)) s))
      in (Some \<lparr>LT1 = PDT1 new, LT2 = PDT2 new, LValid = PDValid new\<rparr>, s1\<lparr>lease := Some new\<rparr>))"

definition pdRefresher :: "bytes \<Rightarrow> call \<Rightarrow> refresh_script \<Rightarrow> PDSource \<Rightarrow> (LeaseTimes option \<times> PDSource) option" where
  "pdRefresher duid c e s =
     (case lease s of
        None \<Rightarrow> None
      | Some old \<Rightarrow>
          (case snd ((case c of Renew \<Rightarrow> RenewPDLease | Rebind \<Rightarrow> RebindPDLease) duid (listens e) (rxid e) old (rrounds e)) of
             Leased new \<Rightarrow> Some (refreshed (rabort e) new old s)
           | Failed err \<Rightarrow> Some (None, s)
           | _ \<Rightarrow> None))"

text \<open>The service receives from the channel.\<close>

definition receive :: "unit \<Rightarrow> PDSource \<Rightarrow> PDSource" where
  "receive u s = s\<lparr>out := []\<rparr>"

section \<open>Cycles\<close>

definition hint_len :: "string \<Rightarrow> u8 option" where
  "hint_len h =
     (if h = '''' then None
      else case parse_digits h of
             None \<Rightarrow> None
           | Some v \<Rightarrow> if v > 255 \<or> v = 0 \<or> v > 128 then None else Some (word_of_nat v))"

record cycle_script =
  newClient :: bool
  clistens :: bool
  cxid :: bytes
  solicits :: "round list"
  requests :: "round list"
  cabort :: "bool option"
  starts :: "int \<times> int \<times> int"
  inputs :: "(refresh_script, unit) dinput list"

text \<open>\<open>None\<close> is a cycle that its script leaves unfinished.\<close>

definition cycle :: "bytes \<Rightarrow> string \<Rightarrow> cycle_script \<Rightarrow> PDSource \<Rightarrow> PDSource option" where
  "cycle duid hint c s =
     (if \<not> newClient c then Some s
      else let s1 = s\<lparr>client := True\<rparr>
           in case snd (ObtainPDLease duid (clistens c) (cxid c) (hint_len hint) (solicits c) (requests c)) of
                Failed e \<Rightarrow> Some s1
              | Leased l \<Rightarrow>
                  (case publish (cabort c) (Some (PDPrefix l)) (s1\<lparr>lease := Some l\<rparr>) of
                     (False, s2) \<Rightarrow> Some s2
                   | (True, s2) \<Rightarrow>
                       (case starts c of (n1, n2, n3) \<Rightarrow>
                          (case drun (pdRefresher duid) Stop receive (inputs c)
                              (run_start n1 n2 n3 \<lparr>LT1 = PDT1 l, LT2 = PDT2 l, LValid = PDValid l\<rparr>, s2) of
                             None \<Rightarrow> None
                           | Some (loop, s3) \<Rightarrow> if pc loop = Returned then Some s3 else None)))
              | _ \<Rightarrow> None)"

fun cycles :: "bytes \<Rightarrow> string \<Rightarrow> cycle_script list \<Rightarrow> PDSource \<Rightarrow> PDSource option" where
  "cycles duid hint [] s = Some s"
| "cycles duid hint (c # cs) s = (case cycle duid hint c s of None \<Rightarrow> None | Some s' \<Rightarrow> cycles duid hint cs s')"

section \<open>What is published\<close>

text \<open>The prefix published last is the /64 of the lease, and the channel is empty or holds it.\<close>

definition pd_inv :: "PDSource \<Rightarrow> bool" where
  "pd_inv s \<longleftrightarrow> (\<exists>l x. lease s = Some l \<and> length (nIP (PDPrefix l)) = 16 \<and>
     subAllocate64 (Some (PDPrefix l)) = Some x \<and> published s = Some x \<and> out s \<in> {[], [x]})"

definition script_ok :: "refresh_script \<Rightarrow> bool" where
  "script_ok e \<longleftrightarrow> rabort e = None \<and>
     (\<forall>r\<in>set (rrounds e). \<forall>p l. received p r \<and> toPDLease p = Inr l \<longrightarrow> fst (mask_Size (nMask (PDPrefix l))) \<le> 64)"

lemma subAllocate64_cidrEqual:
  "cidrEqual a b \<Longrightarrow> length (nIP a) = 16 \<Longrightarrow> length (nIP b) = 16 \<Longrightarrow> subAllocate64 (Some a) = subAllocate64 (Some b)"
  by (simp add: cidrEqual_def ip_Equal_def subAllocate64_def)

lemma refreshed_inv:
  assumes "pd_inv s" "lease s = Some old" "length (nIP (PDPrefix new)) = 16" "fst (mask_Size (nMask (PDPrefix new))) \<le> 64"
  shows "pd_inv (snd (refreshed None new old s))"
proof -
  obtain x where x: "subAllocate64 (Some (PDPrefix old)) = Some x" "published s = Some x" "out s \<in> {[], [x]}"
    "length (nIP (PDPrefix old)) = 16"
    using assms(1,2) by (auto simp: pd_inv_def)
  show ?thesis
  proof (cases "cidrEqual (PDPrefix new) (PDPrefix old)")
    case True
    with x assms(3) have "subAllocate64 (Some (PDPrefix new)) = Some x"
      by (simp add: subAllocate64_cidrEqual [of "PDPrefix new" "PDPrefix old"])
    then show ?thesis
      using x assms(3) True by (simp add: refreshed_def pd_inv_def)
  next
    case False
    then show ?thesis
      using assms(3,4) by (simp add: refreshed_def pd_inv_def publish_def subAllocate64_def)
  qed
qed

lemma pdRefresher_inv:
  assumes "script_ok e" "pd_inv s" "pdRefresher duid c e s = Some (r, s')"
  shows "pd_inv s'"
proof -
  obtain old where old: "lease s = Some old"
    using assms(2) by (auto simp: pd_inv_def)
  have "pd_inv (snd (refreshed (rabort e) new old s))"
    if "snd ((case c of Renew \<Rightarrow> RenewPDLease | Rebind \<Rightarrow> RebindPDLease) duid (listens e) (rxid e) old (rrounds e)) = Leased new" for new
  proof -
    have "snd (RenewPDLease duid (listens e) (rxid e) old (rrounds e)) = Leased new \<or>
        snd (RebindPDLease duid (listens e) (rxid e) old (rrounds e)) = Leased new"
      using that by (cases c) simp_all
    from pd_lease_received [OF this] obtain rd p where "rd \<in> set (rrounds e)" "received p rd" "toPDLease p = Inr new"
      by blast
    then show ?thesis
      using assms(1,2) old toPDLease_prefix [of p new] by (auto simp: script_ok_def intro!: refreshed_inv)
  qed
  then show ?thesis
    using assms(2,3) old by (auto simp: pdRefresher_def split: client_result.splits)
qed

interpretation pd: lease_refresher "pdRefresher duid" Stop receive script_ok pd_inv
proof unfold_locales
  show "pd_inv s'" if "script_ok e" "pd_inv s" "pdRefresher duid c e s = Some (r, s')" for e s c r s'
    using that by (rule pdRefresher_inv)
qed (auto simp: Stop_def receive_def pd_inv_def)

section \<open>Releases\<close>

definition quiet :: "PDSource \<Rightarrow> PDSource \<Rightarrow> bool" where
  "quiet s0 s \<longleftrightarrow> onced s \<and> returned s = returned s0"

lemma publish_quiet [simp]: "onced (snd (publish a d s)) = onced s" "returned (snd (publish a d s)) = returned s"
  by (simp_all add: publish_def split: option.split)

lemma pdRefresher_returned:
  "pdRefresher duid c e s = Some (r, s') \<Longrightarrow> onced s' = onced s \<and> returned s' = returned s"
  by (auto simp: pdRefresher_def refreshed_def Let_def split: option.splits client_result.splits if_splits)

text \<open>The second instance of the contract: after the first Release no other is sent.\<close>

interpretation quiet: lease_refresher "pdRefresher duid" Stop receive "\<lambda>e. True" "quiet s0"
  by unfold_locales (auto simp: quiet_def Stop_def receive_def dest: pdRefresher_returned)

lemma cycle_quiet: "onced s \<Longrightarrow> cycle duid hint c s = Some s' \<Longrightarrow> quiet s s'"
proof -
  assume o: "onced s" and c: "cycle duid hint c s = Some s'"
  have drun: "quiet s s3" if "drun (pdRefresher duid) Stop receive is (loop0, s2) = Some (loop, s3)" "quiet s s2"
    for "is" loop0 loop s2 s3
    using quiet.drun_inv [OF _ that(2,1)] by (simp add: list_all_iff quiet.dok_def split: dinput.split)
  have pub: "quiet s (snd (publish a d (s\<lparr>client := True, lease := l\<rparr>)))" for a d l
    using o by (simp add: quiet_def)
  show "quiet s s'"
  proof (cases "snd (ObtainPDLease duid (clistens c) (cxid c) (hint_len hint) (solicits c) (requests c))")
    case (Leased l)
    obtain b s2 where p: "publish (cabort c) (Some (PDPrefix l)) (s\<lparr>client := True, lease := Some l\<rparr>) = (b, s2)"
      by fastforce
    then have "quiet s s2" using pub [of "cabort c" "Some (PDPrefix l)" "Some l"] by simp
    then show ?thesis
      using c Leased o p drun
      by (auto simp: cycle_def quiet_def split: if_splits option.splits prod.splits bool.splits)
  qed (use o c in \<open>auto simp: cycle_def quiet_def split: if_splits\<close>)
qed

lemma cycles_quiet: "onced s \<Longrightarrow> cycles duid hint cs s = Some s' \<Longrightarrow> quiet s s'"
proof (induction cs arbitrary: s)
  case (Cons c cs)
  then obtain s1 where s1: "cycle duid hint c s = Some s1" "cycles duid hint cs s1 = Some s'"
    by (auto split: option.splits)
  have "quiet s s1" using Cons.prems(1) s1(1) by (rule cycle_quiet)
  then show ?case
    using Cons.IH [OF _ s1(2)] by (auto simp: quiet_def)
qed (simp add: quiet_def)

section \<open>Properties\<close>

text \<open>C39. What the source publishes is the sub-allocation (\<open>subAllocate64\<close>) of the delegation it holds. From the publication of the first lease on, through
  every Renew and Rebind and whenever the service takes the prefix from the channel: the prefix published last is the
  sub-allocation of the current lease, the channel is empty or holds exactly it, and the loop has called Release once
  if it has returned. This is for runs in which every received delegation has a prefix of at most 64 bits and no
  publication is cut off by its context: Renew and Rebind ignore the result of publishing, so that otherwise the source
  holds a lease that it has not published.\<close>

theorem pd_publishes_lease:
  assumes "publish None (Some (PDPrefix l0)) (s\<lparr>lease := Some l0\<rparr>) = (True, s0)" "length (nIP (PDPrefix l0)) = 16"
    and "list_all (\<lambda>i. case i of Call n1 n2 n3 e \<Rightarrow> script_ok e | _ \<Rightarrow> True) is"
    and "drun (pdRefresher duid) Stop receive is (run_start n1 n2 n3 lt, s0) = Some (loop, s')"
  shows "(\<exists>l x. lease s' = Some l \<and> subAllocate64 (Some (PDPrefix l)) = Some x \<and> published s' = Some x \<and> out s' \<in> {[], [x]}) \<and>
    releases loop = (if pc loop = Returned then 1 else 0)"
proof -
  have "pd_inv s0"
    using assms(1,2) by (auto simp: pd_inv_def publish_def split: option.splits)
  moreover have "list_all pd.dok is"
    using assms(3) by (auto simp: list_all_iff pd.dok_def)
  ultimately have "pd_inv s'" "\<exists>js. lrun js (run_start n1 n2 n3 lt) = Some loop"
    using pd.drun_inv [OF _ _ assms(4)] by auto
  then show ?thesis
    using lrun_inv [OF run_start_inv] by (fastforce simp: pd_inv_def loop_inv_def)
qed

definition ex_lease :: "byte \<Rightarrow> PDLease" where
  "ex_lease b = \<lparr>PDPrefix = \<lparr>nIP = 0x20 # b # zeros 14, nMask = cidr_mask 60\<rparr>, PDPreferred = 3 * second, PDValid = 3 * second,
     PDServerDUID = Some [0, 3, 7], PDT1 = second, PDT2 = 2 * second\<rparr>"

definition ex_pd :: "u8 \<Rightarrow> byte \<Rightarrow> Packet6" where
  "ex_pd mt b = server_pd mt ex_xid [0, 3, 7] 1 2 (server_prefix 3 3 60 (0x20 # b # zeros 14))"

lemma ex_pd_lease: "toPDLease (ex_pd mt b) = Inr (ex_lease b)"
  unfolding ex_pd_def by (subst toPDLease_server) (simp_all add: ex_lease_def)

lemma ex_pd_ok: "reply_ok ex_xid mt (ex_pd mt b)"
  by (simp add: reply_ok_def ex_pd_def server_pd_def server_prefix_def ex_xid_def option6_ok_def Option6ServerID_def
      Option6IAPDOpt_def IAPD_Marshal_def Option6IAPrefixOpt_def Packet6_Marshal_def enc_option6_def copy_into_def len_simps)

definition ex_cycle :: "byte \<Rightarrow> cycle_script" where
  "ex_cycle b = \<lparr>newClient = True, clistens = True, cxid = ex_xid, solicits = ex_rounds (ex_pd Msg6Advertise b),
     requests = ex_rounds (ex_pd Msg6Reply b), cabort = None, starts = (0, 0, 0),
     inputs = [Loop (Clock 0), Env (), Loop (Fire (3 * second)), Loop (Clock (3 * second)), Loop (Clock (3 * second))]\<rparr>"

lemma ex_obtain:
  "snd (ObtainPDLease ex_duid True ex_xid hint (ex_rounds (ex_pd Msg6Advertise b)) (ex_rounds (ex_pd Msg6Reply b))) = Leased (ex_lease b)"
  by (rule obtain_pd_lease [OF _ _ ex_pd_ok ex_delivers ex_pd_ok ex_delivers ex_pd_lease])
    (simp_all add: ex_xid_def ex_duid_def DUIDLL_def mrc_defs)


definition ex_script :: refresh_script where
  "ex_script = \<lparr>listens = True, rxid = ex_xid, rrounds = ex_rounds (ex_pd Msg6Reply 2), rabort = None\<rparr>"

lemma ex_renew: "snd (RenewPDLease ex_duid True ex_xid (ex_lease 1) (ex_rounds (ex_pd Msg6Reply 2))) = Leased (ex_lease 2)"
  by (rule renew_pd_lease [OF _ _ _ ex_pd_ok ex_delivers ex_pd_lease])
    (simp_all add: ex_xid_def ex_duid_def DUIDLL_def mrc_defs ex_lease_def opt_data_def)

lemma ex_mask: "mask_Size (cidr_mask 60) = (60, 128)"
  by code_simp

lemma ex_sub: "subAllocate64 (Some (PDPrefix (ex_lease b))) = Some \<lparr>nIP = 0x20 # b # zeros 14, nMask = cidr_mask 64\<rparr>"
  by (simp add: subAllocate64_def ex_lease_def ex_mask opt_data_def)

lemma ex_script_ok: "script_ok ex_script"
  using ex_received [OF _ ex_pd_ok, of _ Msg6Reply 2] ex_pd_lease [of Msg6Reply 2]
  by (fastforce simp: script_ok_def ex_script_def ex_lease_def ex_mask)

lemma ex_refresh:
  assumes "lease s = Some (ex_lease 1)"
  shows "\<exists>s'. pdRefresher ex_duid Renew ex_script s = Some (Some \<lparr>LT1 = second, LT2 = 2 * second, LValid = 3 * second\<rparr>, s') \<and>
    lease s' = Some (ex_lease 2) \<and> out s' \<noteq> []"
proof -
  have "\<not> cidrEqual (PDPrefix (ex_lease 2)) (PDPrefix (ex_lease 1))"
    by (simp add: cidrEqual_def ip_Equal_def ex_lease_def)
  moreover have "PDT1 (ex_lease 2) = second" "PDT2 (ex_lease 2) = 2 * second" "PDValid (ex_lease 2) = 3 * second"
    by (simp_all add: ex_lease_def)
  ultimately show ?thesis
    using assms by (simp add: pdRefresher_def ex_script_def ex_renew refreshed_def publish_def ex_sub)
qed

text \<open>The renewal of the first delegation brings another prefix.\<close>

theorem pd_publishes_lease_witness:
  "\<exists>loop s'. drun (pdRefresher ex_duid) Stop receive
      [Loop (Clock 0), Env (), Loop (Fire second), Loop (Clock second), Call second second second ex_script]
      (run_start 0 0 0 \<lparr>LT1 = second, LT2 = 2 * second, LValid = 3 * second\<rparr>,
       snd (publish None (Some (PDPrefix (ex_lease 1))) (NewPDSource\<lparr>lease := Some (ex_lease 1)\<rparr>))) = Some (loop, s') \<and>
     published s' = subAllocate64 (Some (PDPrefix (ex_lease 2)))"
proof -
  obtain s0 where s0: "publish None (Some (PDPrefix (ex_lease 1))) (NewPDSource\<lparr>lease := Some (ex_lease 1)\<rparr>) = (True, s0)"
    by (simp add: publish_def ex_sub)
  then have "lease (s0\<lparr>out := []\<rparr>) = Some (ex_lease 1)"
    by (auto simp: publish_def ex_sub)
  from ex_refresh [OF this] obtain s' where s': "pdRefresher ex_duid Renew ex_script (s0\<lparr>out := []\<rparr>)
      = Some (Some \<lparr>LT1 = second, LT2 = 2 * second, LValid = 3 * second\<rparr>, s')" "lease s' = Some (ex_lease 2)"
    by blast
  then obtain loop where run: "drun (pdRefresher ex_duid) Stop receive
      [Loop (Clock 0), Env (), Loop (Fire second), Loop (Clock second), Call second second second ex_script]
      (run_start 0 0 0 \<lparr>LT1 = second, LT2 = 2 * second, LValid = 3 * second\<rparr>, s0) = Some (loop, s')"
    by (simp add: run_start_def loop_defs defaultsFor_def Let_def released_def receive_def)
  have "length (nIP (PDPrefix (ex_lease 1))) = 16"
    by (simp add: ex_lease_def)
  from pd_publishes_lease [OF s0 this _ run] s' s0 run ex_script_ok show ?thesis
    by auto
qed

text \<open>C40. Only one Release is ever sent. Once the lease loop of a cycle has ended and released its delegation, no later
  cycle, whatever it obtains, releases anything, not even when the source is stopped.\<close>

theorem one_release_for_all_cycles:
  assumes "cycle duid hint c NewPDSource = Some s1" "onced s1" "cycles duid hint cs s1 = Some s2"
  shows "returned (Stop s2) = returned s1"
  using cycles_quiet [OF assms(2,3)] by (simp add: quiet_def Stop_def)

lemma ex_cycle_run:
  "\<exists>s'. cycle ex_duid [] (ex_cycle b) s = Some s' \<and> lease s' = Some (ex_lease b) \<and> onced s' \<and>
     (\<not> onced s \<longrightarrow> returned s' = ex_lease b # returned s)"
proof -
  have t: "PDT1 (ex_lease b) = second" "PDT2 (ex_lease b) = 2 * second" "PDValid (ex_lease b) = 3 * second"
    by (simp_all add: ex_lease_def)
  show ?thesis
    by (simp add: cycle_def ex_cycle_def ex_obtain publish_def ex_sub t run_start_def loop_defs defaultsFor_def Let_def
        released_def receive_def Stop_def)
qed

text \<open>The second delegation is held but not released.\<close>

theorem one_release_for_all_cycles_witness:
  "\<exists>s1 s2. cycle ex_duid [] (ex_cycle 1) NewPDSource = Some s1 \<and> cycles ex_duid [] [ex_cycle 2] s1 = Some s2 \<and>
     lease s2 = Some (ex_lease 2) \<and> ex_lease 2 \<notin> set (returned (Stop s2))"
proof -
  obtain s1 where s1: "cycle ex_duid [] (ex_cycle 1) NewPDSource = Some s1" "onced s1" "returned s1 = [ex_lease 1]"
    using ex_cycle_run [of 1 NewPDSource] by (auto simp: NewPDSource_def)
  obtain s2 where s2: "cycle ex_duid [] (ex_cycle 2) s1 = Some s2" "lease s2 = Some (ex_lease 2)"
    using ex_cycle_run [of 2 s1] by blast
  then have c: "cycles ex_duid [] [ex_cycle 2] s1 = Some s2"
    by simp
  have "ex_lease 2 \<noteq> ex_lease 1"
    by (simp add: ex_lease_def)
  then show ?thesis
    using one_release_for_all_cycles [OF s1(1,2) c] s1 s2(2) c by auto
qed

end
