(* ===== verification/DhcpClient4.thy ===== *)
theory DhcpClient4
  imports Dhcp4
begin

text \<open>
  The DHCPv4 client of \<open>src/pkg/lib/dhcp/client.go\<close>: its messages, the discovery with retransmission, the wait for the
  acknowledgement, and the lease. The reads of the socket and the clock are a script, one entry per turn of a loop; a
  script that ends before the loop returns gives \<open>Waiting\<close>.
\<close>

section \<open>Messages and leases\<close>

record Lease =
  ClientIP :: ip
  SubnetMask :: ipmask
  Router :: "ip option"
  DNS :: "ip list"
  ServerIP :: "ip option"
  LeaseTime :: int

definition requestPacket :: "bytes \<Rightarrow> u32 \<Rightarrow> Options \<Rightarrow> Packet" where
  "requestPacket mac xid qs = \<lparr>Op = OpRequest, HType = HTypeEthernet, HLen = word_of_nat (length mac), Hops = 0, XID = xid,
     Secs = 0, Flags = 0, CIAddr = [], YIAddr = [], SIAddr = [], GIAddr = [], CHAddr = mac, POptions = qs\<rparr>"

abbreviation paramList :: Option4 where
  "paramList \<equiv> OptionParamRequestList [OptSubnetMask, OptRouter, OptDNS, OptLeaseTime, OptDomainName]"

definition newDiscover :: "bytes \<Rightarrow> u32 \<Rightarrow> Packet" where
  "newDiscover mac xid = (requestPacket mac xid
     [OptionMessageType MsgDiscover, OptionClientID HTypeEthernet mac, paramList])\<lparr>Flags := FlagBroadcast\<rparr>"

definition newRequest4 :: "bytes \<Rightarrow> u32 \<Rightarrow> Packet \<Rightarrow> Packet" where
  "newRequest4 mac xid offer = (requestPacket mac xid
     [OptionMessageType MsgRequest, OptionClientID HTypeEthernet mac, OptionRequestedIP (YIAddr offer),
      OptionServerID (opt_data (Options_ServerID (POptions offer))), paramList])\<lparr>Flags := FlagBroadcast\<rparr>"

definition renewPacket4 :: "bytes \<Rightarrow> u32 \<Rightarrow> Lease \<Rightarrow> Packet" where
  "renewPacket4 mac xid l = (requestPacket mac xid
     [OptionMessageType MsgRequest, OptionClientID HTypeEthernet mac])\<lparr>CIAddr := ClientIP l\<rparr>"

definition releasePacket4 :: "bytes \<Rightarrow> u32 \<Rightarrow> Lease \<Rightarrow> Packet" where
  "releasePacket4 mac xid l = (requestPacket mac xid
     [OptionMessageType MsgRelease, OptionServerID (opt_data (ServerIP l))])\<lparr>CIAddr := ClientIP l\<rparr>"

definition toLease :: "Packet \<Rightarrow> Lease" where
  "toLease pkt =
     \<lparr>ClientIP = YIAddr pkt,
      SubnetMask = (case Options_SubnetMask (POptions pkt) of Some m \<Rightarrow> m | None \<Rightarrow> opt_data (CIDRMask 24 32)),
      Router = Options_Router (POptions pkt), DNS = Options_DNS (POptions pkt), ServerIP = Options_ServerID (POptions pkt),
      LeaseTime = (if Options_LeaseTime (POptions pkt) > 0 then uint (Options_LeaseTime (POptions pkt)) * 10 ^ 9 else 0)\<rparr>"

section \<open>Exchanges\<close>

datatype error4 = Listen4 | Send4 | Ended4 | Read4 | Nak4 | Random4

text \<open>One turn: a timeout or another error, with the state of the context and, for a timeout, two readings of the
  clock; or a datagram.\<close>

datatype read4 = Timeout4 bool int int | Error4 bool | Datagram4 bytes

datatype 'a result4 = Got 'a | Err error4 | Waiting

fun recv :: "u32 \<Rightarrow> MessageType \<Rightarrow> read4 list \<Rightarrow> Packet result4" where
  "recv xid want [] = Waiting"
| "recv xid want (Timeout4 ended n1 n2 # rs) = (if ended then Err Ended4 else recv xid want rs)"
| "recv xid want (Error4 ended # rs) = Err (if ended then Ended4 else Read4)"
| "recv xid want (Datagram4 d # rs) =
     (case Unmarshal (take 1500 d) of
        Inl _ \<Rightarrow> recv xid want rs
      | Inr pkt \<Rightarrow>
          if XID pkt \<noteq> xid \<or> Op pkt \<noteq> OpReply then recv xid want rs
          else let mt = Options_MessageType (POptions pkt)
               in if mt = MsgNak then Err Nak4
                  else if mt = want then Got pkt
                  else recv xid want rs)"

definition retransmit :: int where "retransmit = 2 * 10 ^ 9"

text \<open>The discovery after the first DISCOVER: the datagrams sent in addition, and the offer.\<close>

fun offer_loop :: "bytes \<Rightarrow> u32 \<Rightarrow> int \<Rightarrow> read4 list \<Rightarrow> bytes list \<times> Packet result4" where
  "offer_loop disc xid next [] = ([], Waiting)"
| "offer_loop disc xid next (Timeout4 ended n1 n2 # rs) =
     (if ended then ([], Err Ended4)
      else if next < n1 then apfst (Cons disc) (offer_loop disc xid (n2 + retransmit) rs)
      else offer_loop disc xid next rs)"
| "offer_loop disc xid next (Error4 ended # rs) = ([], Err (if ended then Ended4 else Read4))"
| "offer_loop disc xid next (Datagram4 d # rs) =
     (case Unmarshal (take 1500 d) of
        Inl _ \<Rightarrow> offer_loop disc xid next rs
      | Inr pkt \<Rightarrow>
          if XID pkt \<noteq> xid \<or> Op pkt \<noteq> OpReply then offer_loop disc xid next rs
          else let mt = Options_MessageType (POptions pkt)
               in if mt = MsgNak then ([], Err Nak4)
                  else if mt = MsgOffer then ([], Got pkt)
                  else offer_loop disc xid next rs)"

definition discoverOffer :: "Packet \<Rightarrow> u32 \<Rightarrow> bool \<Rightarrow> int \<Rightarrow> read4 list \<Rightarrow> bytes list \<times> Packet result4" where
  "discoverOffer discover xid sent now0 rs =
     (if \<not> sent then ([], Err Send4)
      else apfst (Cons (Packet_Marshal discover)) (offer_loop (Packet_Marshal discover) xid (now0 + retransmit) rs))"

text \<open>What else a call depends on: whether the socket opens, the random numbers come, the messages are sent, and the
  clock at the first transmission.\<close>

record script4 =
  listens4 :: bool
  random4 :: bool
  sent1 :: bool
  sent2 :: bool
  clock4 :: int
  reads1 :: "read4 list"
  reads2 :: "read4 list"

fun map_result4 :: "('a \<Rightarrow> 'b) \<Rightarrow> 'a result4 \<Rightarrow> 'b result4" where
  "map_result4 f (Got x) = Got (f x)"
| "map_result4 f (Err e) = Err e"
| "map_result4 f Waiting = Waiting"

definition ObtainLease4 :: "bytes \<Rightarrow> u32 \<Rightarrow> script4 \<Rightarrow> bytes list \<times> Lease result4" where
  "ObtainLease4 mac xid e =
     (if \<not> listens4 e then ([], Err Listen4)
      else if \<not> random4 e then ([], Err Random4)
      else case discoverOffer (newDiscover mac xid) xid (sent1 e) (clock4 e) (reads1 e) of
             (ds, Got offer) \<Rightarrow>
               if \<not> sent2 e then (ds, Err Send4)
               else (ds @ [Packet_Marshal (newRequest4 mac xid offer)], map_result4 toLease (recv xid MsgAck (reads2 e)))
           | (ds, Err x) \<Rightarrow> (ds, Err x)
           | (ds, Waiting) \<Rightarrow> (ds, Waiting))"

definition RenewLease4 :: "bytes \<Rightarrow> u32 \<Rightarrow> Lease \<Rightarrow> script4 \<Rightarrow> bytes list \<times> Lease result4" where
  "RenewLease4 mac xid l e =
     (if \<not> listens4 e then ([], Err Listen4)
      else if \<not> random4 e then ([], Err Random4)
      else if \<not> sent1 e then ([], Err Send4)
      else ([Packet_Marshal (renewPacket4 mac xid l)], map_result4 toLease (recv xid MsgAck (reads2 e))))"

definition ReleaseLease4 :: "bytes \<Rightarrow> u32 \<Rightarrow> Lease \<Rightarrow> script4 \<Rightarrow> bytes list \<times> error4 option" where
  "ReleaseLease4 mac xid l e =
     (if \<not> listens4 e then ([], Some Listen4)
      else if \<not> random4 e then ([], Some Random4)
      else if \<not> sent1 e then ([], Some Send4)
      else ([Packet_Marshal (releasePacket4 mac xid l)], None))"

section \<open>The transaction\<close>

text \<open>A turn that does not end the wait for \<open>want\<close>.\<close>

fun passes :: "u32 \<Rightarrow> MessageType \<Rightarrow> read4 \<Rightarrow> bool" where
  "passes xid want (Timeout4 ended n1 n2) = (\<not> ended)"
| "passes xid want (Error4 ended) = False"
| "passes xid want (Datagram4 d) =
     (case Unmarshal (take 1500 d) of
        Inl _ \<Rightarrow> True
      | Inr pkt \<Rightarrow> XID pkt \<noteq> xid \<or> Op pkt \<noteq> OpReply \<or> Options_MessageType (POptions pkt) \<notin> {MsgNak, want})"

lemma recv_passes: "list_all (passes xid want) rs \<Longrightarrow> recv xid want (rs @ rs') = recv xid want rs'"
proof (induction rs)
  case (Cons r rs)
  then show ?case by (cases r) (auto simp: Let_def split: sum.splits)
qed simp

lemma offer_passes:
  "list_all (passes xid MsgOffer) rs \<Longrightarrow>
     \<exists>n next'. offer_loop disc xid next (rs @ rs') = apfst ((@) (replicate n disc)) (offer_loop disc xid next' rs')"
proof (induction rs arbitrary: "next")
  case Nil
  have "offer_loop disc xid next ([] @ rs') = apfst ((@) (replicate 0 disc)) (offer_loop disc xid next rs')"
    by (simp add: apfst_def map_prod_def split: prod.split)
  then show ?case by blast
next
  case (Cons r rs)
  have ih: "\<exists>n next'. offer_loop disc xid nx (rs @ rs') = apfst ((@) (replicate n disc)) (offer_loop disc xid next' rs')" for nx
    using Cons by simp
  show ?case
  proof (cases "\<exists>n1 n2. r = Timeout4 False n1 n2 \<and> next < n1")
    case True
    then obtain n1 n2 where r: "r = Timeout4 False n1 n2" "next < n1" by blast
    from ih [of "n2 + retransmit"] obtain n next' where
      "offer_loop disc xid (n2 + retransmit) (rs @ rs') = apfst ((@) (replicate n disc)) (offer_loop disc xid next' rs')"
      by blast
    then have "offer_loop disc xid next ((r # rs) @ rs') = apfst ((@) (replicate (Suc n) disc)) (offer_loop disc xid next' rs')"
      by (simp add: r apfst_def map_prod_def split: prod.split)
    then show ?thesis by blast
  next
    case False
    then have "offer_loop disc xid next ((r # rs) @ rs') = offer_loop disc xid next (rs @ rs')"
      using Cons.prems by (cases r) (auto simp: Let_def split: sum.splits)
    then show ?thesis using ih [of "next"] by simp
  qed
qed

text \<open>A message of the server in wire form.\<close>

definition server_message :: "u32 \<Rightarrow> MessageType \<Rightarrow> Packet \<Rightarrow> bool" where
  "server_message xid mt p \<longleftrightarrow> packet_wf p \<and> XID p = xid \<and> Op p = OpReply \<and>
     Options_MessageType (POptions p) = mt \<and> length (Packet_Marshal p) \<le> 1500"

lemma server_message_decodes:
  "server_message xid mt p \<Longrightarrow> Unmarshal (take 1500 (Packet_Marshal p)) = Inr p"
  using Unmarshal_Marshal_wire [of p] wire_packet_wf [of p] option_ok_short [of "POptions p"]
  by (simp add: server_message_def packet_wf_def)

lemma recv_answer: "server_message xid want p \<Longrightarrow> want \<noteq> MsgNak \<Longrightarrow> recv xid want (Datagram4 (Packet_Marshal p) # rs) = Got p"
  using server_message_decodes [of xid want p] by (simp add: server_message_def Let_def)

lemma recv_nak: "server_message xid MsgNak p \<Longrightarrow> recv xid want (Datagram4 (Packet_Marshal p) # rs) = Err Nak4"
  using server_message_decodes [of xid MsgNak p] by (simp add: server_message_def Let_def)

lemma offer_answer:
  "server_message xid MsgOffer p \<Longrightarrow> offer_loop disc xid next (Datagram4 (Packet_Marshal p) # rs) = ([], Got p)"
  using server_message_decodes [of xid MsgOffer p] by (simp add: server_message_def Let_def)

lemma request_decodes:
  assumes "length mac < 255"
  shows "Unmarshal (Packet_Marshal (newRequest4 mac xid offer)) = Inr (wire_packet (newRequest4 mac xid offer))"
  using assms by (intro Unmarshal_Marshal_wire)
    (simp add: newRequest4_def requestPacket_def OptionMessageType_def OptionClientID_def OptionRequestedIP_def OptionServerID_def
      OptionParamRequestList_def)

section \<open>Properties\<close>

text \<open>C38. The client obtains the lease that the server acknowledges. If among other traffic first an Offer of the
  transaction arrives and then an Ack or Nak, the client sends one DISCOVER or more, all the same, and one REQUEST
  that asks the offering server for the offered address; the result is the lease of the Ack, or the error of a
  refusal after a Nak.\<close>

theorem obtain_lease4:
  assumes "listens4 e" "random4 e" "sent1 e" "sent2 e" "length mac < 255"
    and "server_message xid MsgOffer offer" "Options_ServerID (POptions offer) = Some sid"
    and "reads1 e = ig1 @ Datagram4 (Packet_Marshal offer) # rest1" "list_all (passes xid MsgOffer) ig1"
    and "reads2 e = ig2 @ Datagram4 (Packet_Marshal answer) # rest2" "list_all (passes xid MsgAck) ig2"
    and "server_message xid mt answer" "mt \<in> {MsgAck, MsgNak}"
  shows "\<exists>n q. fst (ObtainLease4 mac xid e)
        = replicate (Suc n) (Packet_Marshal (newDiscover mac xid)) @ [Packet_Marshal (newRequest4 mac xid offer)] \<and>
    Unmarshal (Packet_Marshal (newRequest4 mac xid offer)) = Inr q \<and> XID q = xid \<and>
    Options_Get (POptions q) OptRequestedIP = Some (YIAddr offer) \<and> Options_ServerID (POptions q) = Some sid \<and>
    snd (ObtainLease4 mac xid e) = (if mt = MsgAck then Got (toLease answer) else Err Nak4)"
proof -
  obtain n next' where "offer_loop (Packet_Marshal (newDiscover mac xid)) xid (clock4 e + retransmit) (reads1 e)
      = apfst ((@) (replicate n (Packet_Marshal (newDiscover mac xid))))
          (offer_loop (Packet_Marshal (newDiscover mac xid)) xid next' (Datagram4 (Packet_Marshal offer) # rest1))"
    using offer_passes [OF assms(9)] unfolding assms(8) by blast
  then have d: "discoverOffer (newDiscover mac xid) xid True (clock4 e) (reads1 e)
      = (replicate (Suc n) (Packet_Marshal (newDiscover mac xid)), Got offer)"
    by (simp add: discoverOffer_def offer_answer [OF assms(6)] del: offer_loop.simps)
  have r: "recv xid MsgAck (reads2 e) = (if mt = MsgAck then Got answer else Err Nak4)"
    using assms(12,13) by (auto simp: assms(10) recv_passes [OF assms(11)] recv_answer recv_nak simp del: recv.simps)
  define q where "q = wire_packet (newRequest4 mac xid offer)"
  have opts: "POptions q = [OptionMessageType MsgRequest, OptionClientID HTypeEthernet mac, OptionRequestedIP (YIAddr offer),
      OptionServerID sid, paramList]"
    by (simp add: q_def wire_packet_def newRequest4_def requestPacket_def assms(7) opt_data_def OptionMessageType_def
        OptionClientID_def OptionRequestedIP_def OptionServerID_def OptionParamRequestList_def)
  have "length (YIAddr offer) = 4"
    using assms(6) by (simp add: server_message_def packet_wf_def)
  moreover have "length sid = 4"
    using assms(7) by (auto simp: Options_ServerID_def Let_def split: if_splits)
  ultimately have q: "XID q = xid" "Options_Get (POptions q) OptRequestedIP = Some (YIAddr offer)"
    "Options_ServerID (POptions q) = Some sid"
    by (simp_all add: opts Options_ServerID_def OptionMessageType_def OptionClientID_def OptionRequestedIP_def OptionServerID_def
        opt_data_def ipTo4_def) (simp add: q_def wire_packet_def newRequest4_def requestPacket_def)
  show ?thesis
    using assms(1-4) request_decodes [OF assms(5), of xid offer] q
    by (intro exI [of _ n] exI [of _ q]) (auto simp: ObtainLease4_def d r q_def)
qed

definition ex_message :: "MessageType \<Rightarrow> Packet" where
  "ex_message mt = \<lparr>Op = OpReply, HType = 1, HLen = 6, Hops = 0, XID = 7, Secs = 0, Flags = 0, CIAddr = zeros 4,
     YIAddr = [10, 0, 0, 5], SIAddr = zeros 4, GIAddr = zeros 4, CHAddr = [2, 0, 0, 0, 0, 1],
     POptions = [OptionMessageType mt, OptionServerID [10, 0, 0, 1]]\<rparr>"

definition ex_script4 :: script4 where
  "ex_script4 = \<lparr>listens4 = True, random4 = True, sent1 = True, sent2 = True, clock4 = 0,
     reads1 = [Timeout4 False 3000000000 3000000000, Datagram4 [1], Datagram4 (Packet_Marshal (ex_message MsgOffer))],
     reads2 = [Datagram4 (Packet_Marshal (ex_message MsgAck))]\<rparr>"

lemma ex_message_ok: "server_message 7 mt (ex_message mt)"
  by (simp add: server_message_def ex_message_def packet_wf_def option_ok_def OptionMessageType_def OptionServerID_def
      Options_MessageType_def opt_data_def Packet_Marshal_def enc_option_def len_simps)

theorem obtain_lease4_witness:
  "\<exists>l. snd (ObtainLease4 [2, 0, 0, 0, 0, 1] 7 ex_script4) = Got l \<and> ClientIP l = [10, 0, 0, 5]"
proof -
  have p: "list_all (passes 7 MsgOffer) [Timeout4 False 3000000000 3000000000, Datagram4 [1]]"
    by (simp add: Unmarshal_def)
  have "Options_ServerID (POptions (ex_message MsgOffer)) = Some [10, 0, 0, 1]"
    by (simp add: ex_message_def Options_ServerID_def OptionMessageType_def OptionServerID_def opt_data_def ipTo4_def)
  with obtain_lease4 [of ex_script4 "[2, 0, 0, 0, 0, 1]" 7 "ex_message MsgOffer" "[10, 0, 0, 1]"
      "[Timeout4 False 3000000000 3000000000, Datagram4 [1]]" "[]" "[]" "ex_message MsgAck" "[]" MsgAck]
    ex_message_ok p
  show ?thesis
    by (auto simp: ex_script4_def toLease_def) (simp add: ex_message_def)
qed

end
