(* ===== verification/Xxhash.thy ===== *)
theory Xxhash
  imports Prelude
begin

text \<open>
  The checksum of a Zstandard frame, \<open>src/pkg/lib/zstd/xxhash.go\<close>: xxHash-64 with seed 0, computed
  incrementally over the buffers of the blocks. The reference \<open>xxh64\<close> is the hash of a whole message; the
  incremental state is shown to compute it for every way of cutting the message into buffers.
\<close>

section \<open>The incremental hash\<close>

definition xxhPrime64c1 :: u64 where "xxhPrime64c1 = 0x9e3779b185ebca87"
definition xxhPrime64c2 :: u64 where "xxhPrime64c2 = 0xc2b2ae3d27d4eb4f"
definition xxhPrime64c3 :: u64 where "xxhPrime64c3 = 0x165667b19e3779f9"
definition xxhPrime64c4 :: u64 where "xxhPrime64c4 = 0x85ebca77c2b2ae63"
definition xxhPrime64c5 :: u64 where "xxhPrime64c5 = 0x27d4eb2f165667c5"

type_synonym accs = "u64 \<times> u64 \<times> u64 \<times> u64"

record xxhash64 =
  xlen :: u64
  xv :: accs
  xbuf :: bytes
  xcnt :: nat

definition xinit :: accs where
  "xinit = (xxhPrime64c1 + xxhPrime64c2, xxhPrime64c2, 0, - xxhPrime64c1)"

definition xreset :: "xxhash64 \<Rightarrow> xxhash64" where
  "xreset xh = \<lparr>xlen = 0, xv = xinit, xbuf = zeros 32, xcnt = 0\<rparr>"

definition xround :: "u64 \<Rightarrow> u64 \<Rightarrow> u64" where
  "xround v n = word_rotl 31 (v + n * xxhPrime64c2) * xxhPrime64c1"

definition mergeRound :: "u64 \<Rightarrow> u64 \<Rightarrow> u64" where
  "mergeRound v n = (v XOR xround 0 n) * xxhPrime64c1 + xxhPrime64c4"

text \<open>One 32-byte stripe into the four accumulators.\<close>

definition stripe :: "accs \<Rightarrow> bytes \<Rightarrow> accs" where
  "stripe v b =
     (case v of (v0, v1, v2, v3) \<Rightarrow>
        (xround v0 (get_le64 b), xround v1 (get_le64 (drop 8 b)),
         xround v2 (get_le64 (drop 16 b)), xround v3 (get_le64 (drop 24 b))))"

text \<open>\<open>for len(b) >= 32\<close>: the accumulators and the bytes that are left.\<close>

function stripes :: "accs \<Rightarrow> bytes \<Rightarrow> accs \<times> bytes" where
  "stripes v b = (if 32 \<le> length b then stripes (stripe v b) (drop 32 b) else (v, b))"
  by pat_completeness auto
termination
  by (relation "measure (length \<circ> snd)") auto

declare stripes.simps [simp del]

definition xupdate :: "xxhash64 \<Rightarrow> bytes \<Rightarrow> xxhash64" where
  "xupdate xh b =
     (let xh1 = xh\<lparr>xlen := xlen xh + of_nat (length b)\<rparr>
      in if xcnt xh + length b < 32
         then xh1\<lparr>xbuf := copy_into (xbuf xh) (xcnt xh) (32 - xcnt xh) b, xcnt := xcnt xh + length b\<rparr>
         else
           let n = min (32 - xcnt xh) (length b);
               buf1 = copy_into (xbuf xh) (xcnt xh) (32 - xcnt xh) b;
               (xh2, b1) = (if 0 < xcnt xh
                  then (xh1\<lparr>xbuf := buf1, xv := stripe (xv xh) buf1, xcnt := 0\<rparr>, drop n b)
                  else (xh1, b));
               (v', b2) = stripes (xv xh2) b1;
               xh3 = xh2\<lparr>xv := v'\<rparr>
           in if 0 < length b2 then xh3\<lparr>xbuf := copy_into (xbuf xh3) 0 32 b2, xcnt := length b2\<rparr>
              else xh3)"

fun digest_words :: "u64 \<Rightarrow> nat \<Rightarrow> bytes \<Rightarrow> u64 \<times> nat \<times> bytes" where
  "digest_words h n buf =
     (if 8 \<le> n
      then digest_words (word_rotl 27 (h XOR xround 0 (get_le64 buf)) * xxhPrime64c1 + xxhPrime64c4)
             (n - 8) (drop 8 buf)
      else (h, n, buf))"

declare digest_words.simps [simp del]

fun digest_bytes :: "u64 \<Rightarrow> nat \<Rightarrow> bytes \<Rightarrow> u64" where
  "digest_bytes h 0 buf = h"
| "digest_bytes h (Suc n) buf =
     digest_bytes (word_rotl 11 (h XOR ucast (buf ! 0) * xxhPrime64c5) * xxhPrime64c1) n (drop 1 buf)"

definition digest_tail :: "u64 \<Rightarrow> nat \<Rightarrow> bytes \<Rightarrow> u64" where
  "digest_tail h0 n0 buf0 =
     (let (h1, n1, buf1) = digest_words h0 n0 buf0;
          (h2, n2, buf2) = (if 4 \<le> n1
             then (word_rotl 23 (h1 XOR ucast (get_le32 buf1) * xxhPrime64c1) * xxhPrime64c2 + xxhPrime64c3,
                   n1 - 4, drop 4 buf1)
             else (h1, n1, buf1))
      in digest_bytes h2 n2 buf2)"

definition avalanche :: "u64 \<Rightarrow> u64" where
  "avalanche h =
     (let h1 = (h XOR drop_bit 33 h) * xxhPrime64c2;
          h2 = (h1 XOR drop_bit 29 h1) * xxhPrime64c3
      in h2 XOR drop_bit 32 h2)"

definition merge_accs :: "accs \<Rightarrow> u64" where
  "merge_accs v =
     (case v of (v0, v1, v2, v3) \<Rightarrow>
        mergeRound (mergeRound (mergeRound (mergeRound
          (word_rotl 1 v0 + word_rotl 7 v1 + word_rotl 12 v2 + word_rotl 18 v3) v0) v1) v2) v3)"

definition xdigest :: "xxhash64 \<Rightarrow> u64" where
  "xdigest xh =
     (let h = (if xlen xh < 32 then fst (snd (snd (xv xh))) + xxhPrime64c5 else merge_accs (xv xh))
      in avalanche (digest_tail (h + xlen xh) (unat (xlen xh AND 31)) (xbuf xh)))"

section \<open>The hash of a message\<close>

definition xxh64 :: "bytes \<Rightarrow> u64" where
  "xxh64 m =
     (let (v, rest) = stripes xinit m;
          h = (if length m < 32 then xxhPrime64c5 else merge_accs v)
      in avalanche (digest_tail (h + of_nat (length m)) (length rest) rest))"

section \<open>Cutting a message\<close>

lemma stripe_take: "32 \<le> length b \<Longrightarrow> stripe v (b @ c) = stripe v b"
  by (cases v) (simp add: stripe_def get_le_append)

lemma stripes_short: "length b < 32 \<Longrightarrow> stripes v b = (v, b)"
  by (simp add: stripes.simps)

lemma stripes_block: "length a = 32 \<Longrightarrow> stripes v (a @ b) = stripes (stripe v a) b"
  by (subst stripes.simps) (simp add: stripe_take)

lemma stripes_rest:
  "stripes v b = (v', r) \<Longrightarrow> length r = length b mod 32 \<and> r = drop (length b - length r) b"
proof (induction v b arbitrary: v' r rule: stripes.induct)
  case (1 v b)
  show ?case
  proof (cases "32 \<le> length b")
    case True
    with "1.prems" have "stripes (stripe v b) (drop 32 b) = (v', r)" by (simp add: stripes.simps [of v b])
    from "1.IH" [OF True this] have l: "length r = (length b - 32) mod 32"
      and r: "r = drop (length b - 32 - length r) (drop 32 b)" unfolding length_drop by blast+
    have "length r \<le> length b - 32" using l by (simp add: mod_less_eq_dividend)
    then have "drop (length b - 32 - length r) (drop 32 b) = drop (length b - length r) b"
      using True by (simp add: add.commute)
    moreover from l True have "length r = length b mod 32" by (simp add: le_mod_geq)
    ultimately show ?thesis using r by metis
  next
    case False
    with "1.prems" show ?thesis by (simp add: stripes_short)
  qed
qed

lemma stripes_append:
  "stripes v (a @ b) = (case stripes v a of (v', r) \<Rightarrow> stripes v' (r @ b))"
proof (induction v a rule: stripes.induct)
  case (1 v a)
  show ?case
  proof (cases "32 \<le> length a")
    case True
    then have "stripes v (a @ b) = stripes (stripe v a) (drop 32 a @ b)"
      by (subst stripes.simps) (simp add: stripe_take)
    with "1.IH" [OF True] True show ?thesis by (simp add: stripes.simps [of v a])
  next
    case False
    then show ?thesis by (simp add: stripes_short)
  qed
qed

text \<open>The tail of the digest reads only the bytes that are left.\<close>

lemma digest_words_take:
  "n \<le> length r \<Longrightarrow>
     digest_words h n (r @ s) = (case digest_words h n r of (h', n', r') \<Rightarrow> (h', n', r' @ s))
     \<and> fst (snd (digest_words h n r)) \<le> length (snd (snd (digest_words h n r)))
     \<and> fst (snd (digest_words h n r)) < 8"
proof (induction h n r rule: digest_words.induct)
  case (1 h n r)
  show ?case
  proof (cases "8 \<le> n")
    case True
    with "1.prems" have "get_le64 (r @ s) = get_le64 r" by (simp add: get_le_append)
    with "1.IH" [OF True] True "1.prems" show ?thesis
      by (simp add: digest_words.simps [of h n r] digest_words.simps [of h n "r @ s"])
  next
    case False
    with "1.prems" show ?thesis
      by (simp add: digest_words.simps [of h n r] digest_words.simps [of h n "r @ s"])
  qed
qed

lemma digest_bytes_take: "n \<le> length r \<Longrightarrow> digest_bytes h n (r @ s) = digest_bytes h n r"
  by (induction h n r rule: digest_bytes.induct) (auto simp: nth_append)

lemma digest_tail_take: "n \<le> length r \<Longrightarrow> digest_tail h n (r @ s) = digest_tail h n r"
proof -
  assume "n \<le> length r"
  from digest_words_take [OF this, of h s]
  obtain h1 n1 r1 where w: "digest_words h n r = (h1, n1, r1)" "digest_words h n (r @ s) = (h1, n1, r1 @ s)"
    and l: "n1 \<le> length r1" by (cases "digest_words h n r") auto
  have "4 \<le> n1 \<Longrightarrow> get_le32 (r1 @ s) = get_le32 r1" using l by (simp add: get_le_append)
  with l show ?thesis by (simp add: digest_tail_def w digest_bytes_take)
qed

section \<open>The state after a prefix of the message\<close>

definition hashed :: "bytes \<Rightarrow> xxhash64 \<Rightarrow> bool" where
  "hashed m xh \<longleftrightarrow>
     xlen xh = of_nat (length m) \<and> length (xbuf xh) = 32 \<and> xcnt xh < 32
     \<and> stripes xinit m = (xv xh, take (xcnt xh) (xbuf xh))"

lemma hashed_reset: "hashed [] (xreset xh)"
  by (simp add: hashed_def xreset_def stripes_short)

lemma hashed_update:
  assumes "hashed m xh"
  shows "hashed (m @ b) (xupdate xh b)"
proof -
  let ?r = "take (xcnt xh) (xbuf xh)" and ?buf = "copy_into (xbuf xh) (xcnt xh) (32 - xcnt xh) b"
  have len: "length (xbuf xh) = 32" "xcnt xh < 32" and s: "stripes xinit m = (xv xh, ?r)"
    and xl: "xlen xh = of_nat (length m)"
    using assms by (simp_all add: hashed_def)
  have app: "stripes xinit (m @ b) = stripes (xv xh) (?r @ b)"
    by (subst stripes_append) (simp add: s)
  show ?thesis
  proof (cases "xcnt xh + length b < 32")
    case True
    then have "take (xcnt xh + length b) ?buf = ?r @ b" "length ?buf = 32"
      using len by (simp_all add: copy_into_def min_def)
    moreover have "stripes (xv xh) (?r @ b) = (xv xh, ?r @ b)" using True len by (intro stripes_short) simp
    ultimately show ?thesis using True xl app by (simp add: hashed_def xupdate_def Let_def)
  next
    case False
    define b1 where "b1 = (if 0 < xcnt xh then drop (32 - xcnt xh) b else b)"
    define v1 where "v1 = (if 0 < xcnt xh then stripe (xv xh) ?buf else xv xh)"
    define c1 where "c1 = (if 0 < xcnt xh then ?buf else xbuf xh)"
    have c1: "length c1 = 32" using len False by (simp add: c1_def copy_into_def)
    have "?r @ b = ?buf @ b1" if "0 < xcnt xh"
      using that len False by (simp add: b1_def copy_into_def)
    moreover have "length ?buf = 32" using len False by (simp add: copy_into_def)
    ultimately have st: "stripes (xv xh) (?r @ b) = stripes v1 b1"
      by (cases "0 < xcnt xh") (simp_all add: stripes_block v1_def b1_def)
    obtain v2 b2 where s2: "stripes v1 b1 = (v2, b2)" by (cases "stripes v1 b1")
    then have b2: "length b2 < 32" using stripes_rest [OF s2] by simp
    have mn: "min (32 - xcnt xh) (length b) = 32 - xcnt xh" using False by simp
    have up: "xupdate xh b = \<lparr>xlen = xlen xh + of_nat (length b), xv = v2,
        xbuf = (if 0 < length b2 then copy_into c1 0 32 b2 else c1), xcnt = length b2\<rparr>"
      using False s2 unfolding xupdate_def Let_def mn
      by (cases "0 < xcnt xh") (simp_all add: v1_def b1_def c1_def)
    have "take (length b2) (xbuf (xupdate xh b)) = b2" "length (xbuf (xupdate xh b)) = 32"
      using b2 c1 by (simp_all add: up copy_into_def)
    then show ?thesis using xl b2 app st s2 by (simp add: hashed_def up)
  qed
qed

lemma hashed_updates: "hashed m xh \<Longrightarrow> hashed (m @ concat bs) (foldl xupdate xh bs)"
proof (induction bs arbitrary: m xh)
  case (Cons b bs)
  from Cons.IH [OF hashed_update [OF Cons.prems]] show ?case by simp
qed simp

lemma hashed_digest:
  assumes "hashed m xh" "length m < 2 ^ 64"
  shows "xdigest xh = xxh64 m"
proof -
  let ?r = "take (xcnt xh) (xbuf xh)"
  have s: "stripes xinit m = (xv xh, ?r)" and xl: "xlen xh = of_nat (length m)"
    and len: "length (xbuf xh) = 32" "xcnt xh < 32" using assms(1) by (simp_all add: hashed_def)
  have u: "unat (xlen xh) = length m" using assms(2) by (simp add: xl unat_of_nat)
  have r: "length ?r = length m mod 32" using stripes_rest [OF s] by simp
  have "unat (xlen xh AND 31) = length m mod 32"
  proof -
    have "xlen xh AND 31 = take_bit 5 (xlen xh)" by (simp add: take_bit_eq_mask mask_eq_exp_minus_1)
    then have "unat (xlen xh AND 31) = take_bit 5 (unat (xlen xh))" by (simp only: unsigned_take_bit_eq)
    then have "unat (xlen xh AND 31) = unat (xlen xh) mod 32" by (simp add: take_bit_eq_mod)
    then show ?thesis by (simp add: u)
  qed
  then have "digest_tail h (unat (xlen xh AND 31)) (xbuf xh) = digest_tail h (length ?r) ?r" for h
    using digest_tail_take [of "length ?r" ?r h "drop (xcnt xh) (xbuf xh)"] r by (simp only: append_take_drop_id)
  moreover have "xlen xh < 32 \<longleftrightarrow> length m < 32" by (simp add: word_less_nat_alt u)
  moreover have "length m < 32 \<Longrightarrow> fst (snd (snd (xv xh))) = 0"
    using s by (cases "xv xh") (auto simp: stripes_short xinit_def)
  ultimately show ?thesis by (simp add: xdigest_def xxh64_def s Let_def xl)
qed

text \<open>the frame checksum does not depend on how the output is cut into blocks. Resetting the state and
  updating it with any sequence of buffers gives the xxHash-64 of their concatenation.\<close>

theorem checksum_streaming:
  assumes "length (concat bs) < 2 ^ 64"
  shows "xdigest (foldl xupdate (xreset xh) bs) = xxh64 (concat bs)"
  using hashed_digest [OF _ assms] hashed_updates [OF hashed_reset] by simp

definition xh0 :: xxhash64 where "xh0 = \<lparr>xlen = 0, xv = (0, 0, 0, 0), xbuf = [], xcnt = 0\<rparr>"

theorem checksum_streaming_witness:
  "xdigest (foldl xupdate (xreset xh0) [[], []]) = 0xEF46DB3751D8E999"
proof -
  have "xxh64 [] = 0xEF46DB3751D8E999" by code_simp
  then show ?thesis using checksum_streaming [of "[[], []]"] by simp
qed

end
