(* ===== verification/ZstdWindow.thy ===== *)
theory ZstdWindow
  imports Prelude
begin

text \<open>
  The window of the Zstandard decoder, \<open>src/pkg/lib/zstd/window.go\<close>: a circular buffer that holds the last
  bytes of the output for back references. Its abstraction is the list of these bytes, oldest first.

  The results of the decoder are values of \<open>zerr + 'a\<close>. \<open>ZPanic\<close> is a run-time panic and \<open>ZDiverge\<close> a loop
  that makes no progress; the decoder is shown to reach neither.
\<close>

section \<open>Errors of the decoder\<close>

datatype zerr = ZEOF | ZUnexpectedEOF | ZErr int string | ZPanic go_panic | ZDiverge

text \<open>A slice expression, and an index expression.\<close>

definition zslice :: "'a list \<Rightarrow> nat \<Rightarrow> nat \<Rightarrow> zerr + 'a list" where
  "zslice xs i j = (if i \<le> j \<and> j \<le> length xs then Inr (slice xs i j) else Inl (ZPanic SliceBounds))"

definition znth :: "'a list \<Rightarrow> nat \<Rightarrow> zerr + 'a" where
  "znth xs i = (if i < length xs then Inr (xs ! i) else Inl (ZPanic IndexRange))"

definition zupd :: "'a list \<Rightarrow> nat \<Rightarrow> 'a \<Rightarrow> zerr + 'a list" where
  "zupd xs i x = (if i < length xs then Inr (xs[i := x]) else Inl (ZPanic IndexRange))"

lemma zslice_ok [simp]: "i \<le> j \<Longrightarrow> j \<le> length xs \<Longrightarrow> zslice xs i j = Inr (slice xs i j)"
  by (simp add: zslice_def)

lemma znth_ok [simp]: "i < length xs \<Longrightarrow> znth xs i = Inr (xs ! i)"
  by (simp add: znth_def)

lemma zupd_ok [simp]: "i < length xs \<Longrightarrow> zupd xs i x = Inr (xs[i := x])"
  by (simp add: zupd_def)

section \<open>The circular buffer\<close>

record window =
  wsize :: nat
  wdata :: bytes
  woff :: nat

definition wreset :: "window \<Rightarrow> nat \<Rightarrow> window" where
  "wreset w sz = \<lparr>wsize = sz, wdata = [], woff = 0\<rparr>"

definition wlen :: "window \<Rightarrow> u32" where
  "wlen w = of_nat (length (wdata w))"

definition wsave :: "window \<Rightarrow> bytes \<Rightarrow> window" where
  "wsave w buf =
     (if wsize w = 0 \<or> buf = [] then w
      else if wsize w \<le> length buf
      then w\<lparr>wdata := drop (length buf - wsize w) buf, woff := 0\<rparr>
      else
        let free = wsize w - length (wdata w)
        in if free = 0 then
             let room = length (wdata w) - woff w;
                 n = min room (length buf);
                 data' = copy_into (wdata w) (woff w) room buf
             in if n = length buf then w\<lparr>wdata := data', woff := woff w + n\<rparr>
                else w\<lparr>wdata := copy_into data' 0 (length data') (drop n buf),
                       woff := min (length data') (length buf - n)\<rparr>
           else if length buf \<le> free then w\<lparr>wdata := wdata w @ buf\<rparr>
           else let data' = wdata w @ take free buf
                in w\<lparr>wdata := copy_into data' 0 (length data') (drop free buf),
                     woff := min (length data') (length buf - free)\<rparr>)"

definition wappendTo :: "window \<Rightarrow> bytes \<Rightarrow> u32 \<Rightarrow> u32 \<Rightarrow> zerr + bytes" where
  "wappendTo w buf from0 to0 =
     (let dataLen = of_nat (length (wdata w));
          from1 = from0 + of_nat (woff w);
          to1 = to0 + of_nat (woff w);
          (from2, wrap1) = (if dataLen < from1 then (from1 - dataLen, True) else (from1, False));
          (to2, wrap2) = (if dataLen < to1 then (to1 - dataLen, \<not> wrap1) else (to1, wrap1))
      in if wrap2
         then rbind (zslice (wdata w) (unat from2) (length (wdata w))) (\<lambda>a.
                rbind (zslice (wdata w) 0 (unat to2)) (\<lambda>b. Inr (buf @ a @ b)))
         else rbind (zslice (wdata w) (unat from2) (unat to2)) (\<lambda>a. Inr (buf @ a)))"

section \<open>A history of bounded length\<close>

text \<open>The last \<open>k\<close> elements of a list.\<close>

definition lastn :: "nat \<Rightarrow> 'a list \<Rightarrow> 'a list" where
  "lastn k xs = drop (length xs - k) xs"

lemma length_lastn [simp]: "length (lastn k xs) = min k (length xs)"
  by (simp add: lastn_def)

lemma lastn_all: "length xs \<le> k \<Longrightarrow> lastn k xs = xs"
  by (simp add: lastn_def)

lemma lastn_append: "lastn k (lastn k xs @ ys) = lastn k (xs @ ys)"
proof (cases "length xs \<le> k")
  case True
  then show ?thesis by (simp add: lastn_all)
next
  case False
  have "drop (k + length ys - k) (drop (length xs - k) xs) = drop (length xs + length ys - k) xs"
    using False by (simp add: add.commute)
  with False show ?thesis by (simp add: lastn_def)
qed

text \<open>What the decoder needs of a window: saving keeps the last bytes up to the capacity, and reading
  a range appends exactly these bytes.\<close>

locale byte_history =
  fixes inv :: "'w \<Rightarrow> bool" and cap :: "'w \<Rightarrow> nat" and contents :: "'w \<Rightarrow> bytes"
    and save :: "'w \<Rightarrow> bytes \<Rightarrow> 'w" and read :: "'w \<Rightarrow> bytes \<Rightarrow> u32 \<Rightarrow> u32 \<Rightarrow> zerr + bytes"
  assumes save_inv: "inv w \<Longrightarrow> inv (save w b)"
    and save_cap: "inv w \<Longrightarrow> cap (save w b) = cap w"
    and save_contents: "inv w \<Longrightarrow> contents (save w b) = lastn (cap w) (contents w @ b)"
    and read_contents: "inv w \<Longrightarrow> from \<le> to \<Longrightarrow> unat to \<le> length (contents w) \<Longrightarrow>
      read w b from to = Inr (b @ slice (contents w) (unat from) (unat to))"
    and bounded: "inv w \<Longrightarrow> length (contents w) \<le> cap w \<and> cap w < 2 ^ 31"
begin

lemma saves:
  "inv w \<Longrightarrow> inv (foldl save w bs) \<and> cap (foldl save w bs) = cap w
     \<and> contents (foldl save w bs) = lastn (cap w) (contents w @ concat bs)"
proof (induction bs arbitrary: w)
  case Nil
  then show ?case using bounded by (simp add: lastn_all)
next
  case (Cons b bs)
  then show ?case using save_inv save_cap save_contents by (simp add: lastn_append)
qed

end

section \<open>The circular buffer is such a history\<close>

definition window_inv :: "window \<Rightarrow> bool" where
  "window_inv w \<longleftrightarrow>
     wsize w < 2 ^ 31 \<and> length (wdata w) \<le> wsize w \<and> woff w \<le> length (wdata w)
     \<and> (length (wdata w) < wsize w \<longrightarrow> woff w = 0)"

definition wcontents :: "window \<Rightarrow> bytes" where
  "wcontents w = drop (woff w) (wdata w) @ take (woff w) (wdata w)"

lemma length_wcontents [simp]: "length (wcontents w) = length (wdata w)"
  by (simp add: wcontents_def)

lemma lastn_rotate:
  assumes "n = length buf" "n < length d" "o' \<le> length d"
  shows "o' + n \<le> length d \<Longrightarrow>
      lastn (length d) ((drop o' d @ take o' d) @ buf) = drop (o' + n) d @ take o' d @ buf"
    and "length d < o' + n \<Longrightarrow>
      lastn (length d) ((drop o' d @ take o' d) @ buf) = drop (o' + n - length d) (take o' d) @ buf"
  using assms by (simp_all add: lastn_def add.commute)

lemma wsave_full:
  assumes i: "window_inv w" and f: "length (wdata w) = wsize w" and b: "buf \<noteq> []" "length buf < wsize w"
  shows "window_inv (wsave w buf) \<and> wsize (wsave w buf) = wsize w
    \<and> wcontents (wsave w buf) = lastn (wsize w) (wcontents w @ buf)"
proof (cases "woff w + length buf \<le> length (wdata w)")
  case True
  let ?d = "wdata w" and ?o = "woff w"
  have "wsave w buf = w\<lparr>wdata := take ?o ?d @ buf @ drop (?o + length buf) ?d, woff := ?o + length buf\<rparr>"
    using True f b i by (simp add: wsave_def copy_into_def window_inv_def Let_def)
  then show ?thesis
    using True i f b lastn_rotate(1) [of "length buf" buf ?d ?o] by (simp add: window_inv_def wcontents_def)
next
  case False
  let ?d = "wdata w" and ?o = "woff w"
  let ?k = "length ?d - ?o"
  have o: "?o \<le> length ?d" using i by (simp add: window_inv_def)
  have k: "?k < length buf" using False o by linarith
  have d': "copy_into ?d ?o ?k buf = take ?o ?d @ take ?k buf" using o k by (simp add: copy_into_def)
  have "copy_into (take ?o ?d @ take ?k buf) 0 (length ?d) (drop ?k buf)
      = drop ?k buf @ drop (length buf - ?k) (take ?o ?d @ take ?k buf)"
    using b f k by (simp add: copy_into_def)
  also have "\<dots> = drop ?k buf @ drop (length buf - ?k) (take ?o ?d) @ take ?k buf"
    using k o b f by simp
  finally have "wsave w buf = w\<lparr>wdata := drop ?k buf @ drop (length buf - ?k) (take ?o ?d) @ take ?k buf,
      woff := length buf - ?k\<rparr>"
    using f b k o d' by (cases "wsize w = ?o") (simp_all add: wsave_def Let_def min_def copy_into_def)
  moreover have "?o + length buf - length ?d = length buf - ?k" using o k by simp
  ultimately show ?thesis
    using i f b o k False lastn_rotate(2) [of "length buf" buf ?d ?o] by (simp add: window_inv_def wcontents_def)
qed

lemma wsave_grow:
  assumes i: "window_inv w" and f: "length (wdata w) < wsize w" and b: "buf \<noteq> []" "length buf < wsize w"
  shows "window_inv (wsave w buf) \<and> wsize (wsave w buf) = wsize w
    \<and> wcontents (wsave w buf) = lastn (wsize w) (wcontents w @ buf)"
proof -
  let ?d = "wdata w"
  let ?free = "wsize w - length ?d"
  have o: "woff w = 0" and s: "wsize w < 2 ^ 31" using i f by (simp_all add: window_inv_def)
  show ?thesis
  proof (cases "length buf \<le> ?free")
    case True
    then have "wsave w buf = w\<lparr>wdata := ?d @ buf\<rparr>" using f b by (simp add: wsave_def Let_def)
    with True o f s show ?thesis by (simp add: window_inv_def wcontents_def lastn_all)
  next
    case False
    have len: "length (?d @ take ?free buf) = wsize w" using f False by simp
    have "copy_into (?d @ take ?free buf) 0 (wsize w) (drop ?free buf)
        = drop ?free buf @ drop (length buf - ?free) ?d @ take ?free buf"
      using f False b by (simp add: copy_into_def)
    then have "wsave w buf = w\<lparr>wdata := drop ?free buf @ drop (length buf - ?free) ?d @ take ?free buf,
        woff := length buf - ?free\<rparr>"
      using f b False len by (simp add: wsave_def Let_def min_def)
    moreover have "lastn (wsize w) (?d @ buf) = drop (length buf - ?free) ?d @ buf"
      using f False b by (simp add: lastn_def add.commute)
    moreover have "length buf - ?free \<le> length ?d" using b f by simp
    ultimately show ?thesis using o f s False b by (simp add: window_inv_def wcontents_def)
  qed
qed

lemma wsave_spec:
  assumes "window_inv w"
  shows "window_inv (wsave w buf) \<and> wsize (wsave w buf) = wsize w
    \<and> wcontents (wsave w buf) = lastn (wsize w) (wcontents w @ buf)"
proof -
  consider (skip) "wsize w = 0 \<or> buf = []" | (big) "0 < wsize w" "buf \<noteq> []" "wsize w \<le> length buf"
    | (full) "buf \<noteq> []" "length buf < wsize w" "length (wdata w) = wsize w"
    | (grow) "buf \<noteq> []" "length buf < wsize w" "length (wdata w) < wsize w"
    using assms by (fastforce simp: window_inv_def)
  then show ?thesis
  proof cases
    case skip
    with assms show ?thesis by (auto simp: wsave_def window_inv_def wcontents_def lastn_def)
  next
    case big
    then have "wsave w buf = w\<lparr>wdata := drop (length buf - wsize w) buf, woff := 0\<rparr>" by (simp add: wsave_def)
    with big assms show ?thesis by (simp add: window_inv_def wcontents_def lastn_def)
  qed (use assms wsave_full wsave_grow in blast)+
qed

lemma slice_rotated:
  assumes "o' \<le> length d" "i \<le> j" "j \<le> length d"
  shows "slice (drop o' d @ take o' d) i j =
    (if length d < o' + i then slice d (o' + i - length d) (o' + j - length d)
     else if length d < o' + j then drop (o' + i) d @ take (o' + j - length d) d
     else slice d (o' + i) (o' + j))"
proof -
  have t: "take (j - i) (drop (i - (length d - o')) (take o' d)) = slice d (o' + i - length d) (o' + j - length d)"
    if "length d \<le> o' + i"
  proof -
    have "i - (length d - o') = o' + i - length d" "o' + j - length d - (o' + i - length d) = j - i"
      using that assms by simp_all
    moreover have "j - i \<le> o' - (o' + i - length d)" using assms that by linarith
    ultimately show ?thesis by (simp add: slice_def drop_take min_def)
  qed
  show ?thesis
  proof (cases "length d < o' + i")
    case True
    then have "drop i (drop o' d) = []" by (simp add: add.commute)
    with True t show ?thesis using assms by (simp add: slice_def [of "drop o' d @ take o' d"])
  next
    case False
    then have "i - (length d - o') = 0" using assms by simp
    with False assms show ?thesis by (auto simp: slice_def add.commute min_def intro!: arg_cong2 [where f = take])
  qed
qed

lemma wappendTo_spec:
  assumes i: "window_inv w" and ft: "from \<le> to" "unat to \<le> length (wcontents w)"
  shows "wappendTo w buf from to = Inr (buf @ slice (wcontents w) (unat from) (unat to))"
proof -
  let ?d = "wdata w" and ?o = "woff w"
  let ?f = "unat from" and ?t = "unat to"
  have len: "length ?d < 2 ^ 31" "?o \<le> length ?d" using i by (simp_all add: window_inv_def)
  have f: "?f \<le> ?t" "?t \<le> length ?d" using ft by (simp_all add: word_le_nat_alt)
  have ud: "unat (of_nat (length ?d) :: u32) = length ?d" using len by (simp add: unat_of_nat)
  have uo: "unat (of_nat ?o :: u32) = ?o" using len by (simp add: unat_of_nat)
  have uf: "unat (from + of_nat ?o) = ?f + ?o" and ut: "unat (to + of_nat ?o) = ?t + ?o"
    using f len uo by (simp_all add: unat_word_ariths)
  have lf: "of_nat (length ?d) < from + of_nat ?o \<longleftrightarrow> length ?d < ?o + ?f"
    and lt: "of_nat (length ?d) < to + of_nat ?o \<longleftrightarrow> length ?d < ?o + ?t"
    using uf ut by (simp_all add: word_less_nat_alt ud add.commute)
  have sf: "length ?d < ?o + ?f \<Longrightarrow> unat (from + of_nat ?o - of_nat (length ?d)) = ?o + ?f - length ?d"
    and st: "length ?d < ?o + ?t \<Longrightarrow> unat (to + of_nat ?o - of_nat (length ?d)) = ?o + ?t - length ?d"
    using uf ut ud by (simp_all add: unat_sub word_le_nat_alt add.commute)
  note r = slice_rotated [OF len(2) f, folded wcontents_def]
  consider "length ?d < ?o + ?f" | "\<not> length ?d < ?o + ?f" "length ?d < ?o + ?t" | "\<not> length ?d < ?o + ?t" "\<not> length ?d < ?o + ?f" by blast
  then show ?thesis
  proof cases
    case 1
    then have "length ?d < ?o + ?t" using f by simp
    with 1 f show ?thesis using len by (simp add: wappendTo_def Let_def lf lt sf st r)
  next
    case 2
    with f len show ?thesis by (simp add: wappendTo_def Let_def lf lt st r uf slice_to_end add.commute)
  next
    case 3
    with f len show ?thesis by (simp add: wappendTo_def Let_def lf lt r uf ut add.commute)
  qed
qed

interpretation wnd: byte_history window_inv wsize wcontents wsave wappendTo
  by unfold_locales (use wsave_spec wappendTo_spec in blast, use wsave_spec in blast, use wsave_spec in blast,
    use wappendTo_spec in blast, simp add: window_inv_def)

lemma wreset_inv: "sz < 2 ^ 31 \<Longrightarrow> window_inv (wreset w sz) \<and> wcontents (wreset w sz) = []"
  by (simp add: window_inv_def wreset_def wcontents_def)

text \<open>the circular window is the tail of the output. After a reset to \<open>sz\<close> bytes and any sequence of
  saves it stands for the last \<open>sz\<close> bytes of what was saved, and reading a range of it appends exactly that
  range, without a panic.\<close>

theorem window_refines_history:
  assumes "sz < 2 ^ 31"
  shows "wcontents (foldl wsave (wreset w sz) bs) = lastn sz (concat bs)
    \<and> (from \<le> to \<longrightarrow> unat to \<le> min sz (length (concat bs)) \<longrightarrow>
        wappendTo (foldl wsave (wreset w sz) bs) buf from to
          = Inr (buf @ slice (lastn sz (concat bs)) (unat from) (unat to)))"
proof -
  have s: "wsize (wreset w sz) = sz" by (simp add: wreset_def)
  from wnd.saves [OF conjunct1 [OF wreset_inv [OF assms]], of w bs] wreset_inv [OF assms, of w]
  have i: "window_inv (foldl wsave (wreset w sz) bs)"
    and c: "wcontents (foldl wsave (wreset w sz) bs) = lastn sz (concat bs)" by (simp_all add: s)
  show ?thesis using wnd.read_contents [OF i, of "from" to buf] by (simp add: c)
qed

definition window0 :: window where "window0 = \<lparr>wsize = 0, wdata = [], woff = 0\<rparr>"

theorem window_refines_history_witness:
  "wcontents (foldl wsave (wreset window0 3) [[1, 2], [3, 4], [5]]) = [3, 4, 5]
   \<and> wappendTo (foldl wsave (wreset window0 3) [[1, 2], [3, 4], [5]]) [9] 1 3 = Inr [9, 4, 5]"
proof -
  have "lastn 3 (concat [[1, 2], [3, 4], [5]]) = [3, 4, 5 :: byte]" by (simp add: lastn_def)
  with window_refines_history [of 3 window0 "[[1, 2], [3, 4], [5]]" 1 3 "[9]"] show ?thesis by (simp add: slice_def)
qed

end
