(* ===== verification/ZstdBits.thy ===== *)
theory ZstdBits
  imports ZstdWindow
begin

text \<open>
  The bit readers of the Zstandard decoder, \<open>src/pkg/lib/zstd/bits.go\<close>. The forward reader takes bits from
  the low end of a little-endian number, the reverse reader from its high end; both are shown to do so.
  Counts and buffers are 32-bit words as in the code. The \<open>r\<close> field of the readers serves only error offsets:
  it is the first argument here, the offset of the current block.
\<close>

section \<open>Errors with an offset\<close>

definition makeError :: "int \<Rightarrow> int \<Rightarrow> string \<Rightarrow> zerr + 'a" where
  "makeError bo off msg = Inl (ZErr (bo + off) msg)"

definition makeEOFError :: "int \<Rightarrow> int \<Rightarrow> zerr + 'a" where
  "makeEOFError bo off = Inl (ZErr (bo + off) ''unexpected EOF'')"

text \<open>An error that the decoder reports, as opposed to a panic or a loop that never ends.\<close>

fun safe :: "zerr + 'a \<Rightarrow> bool" where
  "safe (Inl (ZPanic p)) = False"
| "safe (Inl ZDiverge) = False"
| "safe _ = True"

lemma safe_simps [simp]: "safe (makeError bo off msg)" "safe (makeEOFError bo off)" "safe (Inr x)"
  by (simp_all add: makeError_def makeEOFError_def)

lemma err_not_Inr [simp]: "makeError bo off msg \<noteq> Inr x" "makeEOFError bo off \<noteq> Inr x"
  by (simp_all add: makeError_def makeEOFError_def)

lemma safe_rbind: "safe m \<Longrightarrow> (\<And>x. m = Inr x \<Longrightarrow> safe (f x)) \<Longrightarrow> safe (rbind m f)"
  by (cases m) (auto elim: safe.elims)

text \<open>A computation that ends well, in an error of the decoder or in a value with the stated property.\<close>

definition ensures :: "zerr + 'a \<Rightarrow> ('a \<Rightarrow> bool) \<Rightarrow> bool" where
  "ensures m Q \<longleftrightarrow> safe m \<and> (\<forall>x. m = Inr x \<longrightarrow> Q x)"

lemma ensures_simps [simp]:
  "ensures (makeError bo off msg) Q" "ensures (makeEOFError bo off) Q" "ensures (Inr x) Q \<longleftrightarrow> Q x"
  by (simp_all add: ensures_def)

lemma ensures_rbind: "ensures m P \<Longrightarrow> (\<And>x. P x \<Longrightarrow> ensures (f x) Q) \<Longrightarrow> ensures (rbind m f) Q"
  by (cases m) (auto simp: ensures_def elim: safe.elims)

lemma ensures_mono: "ensures m P \<Longrightarrow> (\<And>x. P x \<Longrightarrow> Q x) \<Longrightarrow> ensures m Q"
  by (auto simp: ensures_def)

lemma ensures_case: "ensures m P \<Longrightarrow> (\<And>x. P x \<Longrightarrow> ensures (f x) Q) \<Longrightarrow> ensures (case m of Inl e \<Rightarrow> Inl e | Inr x \<Rightarrow> f x) Q"
  by (cases m) (auto simp: ensures_def elim: safe.elims)

lemma ensures_eq: "m = Inr x \<Longrightarrow> Q x \<Longrightarrow> ensures m Q"
  by simp

lemma ensures_exec: "ensures m Q \<Longrightarrow> m = Inr x \<Longrightarrow> Q x"
  by (simp add: ensures_def)

section \<open>Reading forward\<close>

lemma unat_ucast_byte [simp]: "unat (ucast (b::u8) :: u32) = unat b"
proof -
  have "unat b < 2 ^ 32" using unsigned_less [of b, where 'a = nat] by simp
  then show ?thesis by (simp only: unsigned_ucast_eq take_bit_eq_mod) simp
qed

record bitReader =
  bdata :: bytes
  boff :: u32
  bbits :: u32
  bcnt :: u32

definition makeBitReader :: "bytes \<Rightarrow> nat \<Rightarrow> bitReader" where
  "makeBitReader data off = \<lparr>bdata = data, boff = of_nat off, bbits = 0, bcnt = 0\<rparr>"

lemma unat_add_small: "unat (w::u32) < 16 \<Longrightarrow> unat (w + 8) = unat w + 8"
  by (simp add: unat_word_ariths)

function moreBits :: "int \<Rightarrow> bitReader \<Rightarrow> zerr + bitReader" where
  "moreBits bo br =
     (if bcnt br < 16 then
        (if of_nat (length (bdata br)) \<le> boff br then makeEOFError bo (uint (boff br))
         else let c = bdata br ! unat (boff br)
              in moreBits bo (br\<lparr>boff := boff br + 1,
                   bbits := bbits br OR push_bit (unat (bcnt br)) (ucast c), bcnt := bcnt br + 8\<rparr>))
      else Inr br)"
  by pat_completeness auto
termination
  by (relation "measure (\<lambda>(_, br). 16 - unat (bcnt br))") (auto simp: word_less_nat_alt unat_add_small)

declare moreBits.simps [simp del]

definition bval :: "bitReader \<Rightarrow> u8 \<Rightarrow> u32 \<times> bitReader" where
  "bval br b =
     (bbits br AND (push_bit (unat b) 1 - 1),
      br\<lparr>bbits := drop_bit (unat b) (bbits br), bcnt := bcnt br - ucast b\<rparr>)"

function backup :: "bitReader \<Rightarrow> bitReader" where
  "backup br = (if 8 \<le> bcnt br then backup (br\<lparr>boff := boff br - 1, bcnt := bcnt br - 8\<rparr>) else br)"
  by pat_completeness auto
termination
  by (relation "measure (unat \<circ> bcnt)") (auto simp: word_le_nat_alt unat_sub)

declare backup.simps [simp del]

section \<open>Reading backward\<close>

text \<open>\<open>bits.Len\<close>: the number of bits of a number; the leading zeros of an \<open>n\<close>-bit word are \<open>n\<close> minus it.\<close>

fun bitlen :: "nat \<Rightarrow> nat" where
  "bitlen n = (if n = 0 then 0 else Suc (bitlen (n div 2)))"

declare bitlen.simps [simp del]

definition leadingZeros :: "nat \<Rightarrow> nat \<Rightarrow> nat" where
  "leadingZeros w n = w - bitlen n"

record reverseBitReader =
  rdata :: bytes
  roff :: u32
  rstart :: u32
  rbits :: u32
  rcnt :: u32

definition makeReverseBitReader :: "int \<Rightarrow> bytes \<Rightarrow> int \<Rightarrow> int \<Rightarrow> zerr + reverseBitReader" where
  "makeReverseBitReader bo data off start =
     (if off < 0 then Inl (ZPanic IndexRange)
      else rbind (znth data (nat off)) (\<lambda>streamStart.
        if streamStart = 0 then makeError bo off ''zero byte at reverse bit stream start''
        else Inr \<lparr>rdata = data, roff = of_int off, rstart = of_int start, rbits = ucast streamStart,
                  rcnt = of_nat (7 - leadingZeros 8 (unat streamStart))\<rparr>))"

function fetch :: "reverseBitReader \<Rightarrow> u8 \<Rightarrow> zerr + bool \<times> reverseBitReader" where
  "fetch rbr b =
     (if rcnt rbr < ucast b then
        (if roff rbr \<le> rstart rbr then Inr (False, rbr)
         else rbind (znth (rdata rbr) (unat (roff rbr - 1))) (\<lambda>c.
                fetch (rbr\<lparr>roff := roff rbr - 1, rbits := push_bit 8 (rbits rbr) OR ucast c, rcnt := rcnt rbr + 8\<rparr>) b))
      else Inr (True, rbr))"
  by pat_completeness auto
termination
proof (relation "measure (\<lambda>(rbr, b). unat b - unat (rcnt rbr))", goal_cases)
  case (2 rbr b c)
  have "unat (ucast b :: u32) = unat b" by (rule unat_ucast_byte)
  moreover have "unat b < 256" using unsigned_less [of b, where 'a = nat] by simp
  moreover have "unat (rcnt rbr) < unat b"
    using 2(1) calculation(1) by (simp add: word_less_nat_alt)
  ultimately show ?case by (simp add: unat_word_ariths)
qed simp

declare fetch.simps [simp del]

definition rval :: "int \<Rightarrow> reverseBitReader \<Rightarrow> u8 \<Rightarrow> zerr + u32 \<times> reverseBitReader" where
  "rval bo rbr b =
     rbind (fetch rbr b) (\<lambda>(got, r1).
       if \<not> got then makeEOFError bo (uint (roff r1))
       else let r2 = r1\<lparr>rcnt := rcnt r1 - ucast b\<rparr>
            in Inr (drop_bit (unat (rcnt r2)) (rbits r2) AND (push_bit (unat b) 1 - 1), r2))"

section \<open>Word and number facts\<close>

lemma unat_byte_less: "unat (b::u8) < 256"
  using unsigned_less [of b, where 'a = nat] by simp

lemma unat_and_mask:
  "unat (w AND (2 ^ n - 1) :: 'a::len word) = unat w mod 2 ^ n"
  "unat (w AND (push_bit n 1 - 1) :: 'a::len word) = unat w mod 2 ^ n"
proof -
  have t: "w AND (2 ^ n - 1) = take_bit n w" by (simp add: take_bit_eq_mask mask_eq_exp_minus_1)
  show "unat (w AND (2 ^ n - 1)) = unat w mod 2 ^ n"
    by (simp only: t unsigned_take_bit_eq take_bit_eq_mod [of n "unat w"])
  then show "unat (w AND (push_bit n 1 - 1)) = unat w mod 2 ^ n" by (simp add: push_bit_eq_mult)
qed

lemma unat_drop_bit: "unat (drop_bit n w :: 'a::len word) = unat w div 2 ^ n"
  by (simp only: unat_drop_bit_eq drop_bit_eq_div [of n "unat w"])

lemma bitlen_bounds: "0 < n \<Longrightarrow> 2 ^ (bitlen n - 1) \<le> n \<and> n < 2 ^ bitlen n \<and> 0 < bitlen n"
proof (induction n rule: bitlen.induct)
  case (1 n)
  show ?case
  proof (cases "n = 1")
    case True
    then show ?thesis by (simp add: bitlen.simps)
  next
    case False
    with "1.prems" have h: "0 < n div 2" "n \<noteq> 0" by simp_all
    from "1.IH" [OF h(2,1)] have b: "2 ^ (bitlen (n div 2) - 1) \<le> n div 2" "n div 2 < 2 ^ bitlen (n div 2)"
      "0 < bitlen (n div 2)" by simp_all
    have e: "bitlen n = Suc (bitlen (n div 2))" using h(2) by (subst bitlen.simps) simp
    obtain k where k: "bitlen (n div 2) = Suc k" using b(3) by (cases "bitlen (n div 2)") auto
    show ?thesis using b e k by auto
  qed
qed

lemma bitlen_less: "n < 2 ^ k \<Longrightarrow> bitlen n \<le> k"
proof (cases "n = 0")
  case False
  assume "n < 2 ^ k"
  with bitlen_bounds [of n] False have "(2::nat) ^ (bitlen n - 1) < 2 ^ k" by linarith
  then show ?thesis by simp
qed (simp add: bitlen.simps)

text \<open>The number that bytes stand for, lowest first.\<close>

fun le_val :: "bytes \<Rightarrow> nat" where
  "le_val [] = 0"
| "le_val (b # bs) = unat b + 256 * le_val bs"

lemma le_val_append: "le_val (a @ b) = le_val a + 256 ^ length a * le_val b"
  by (induction a) (simp_all add: algebra_simps)

lemma le_val_less: "le_val bs < 256 ^ length bs"
proof (induction bs)
  case (Cons b bs)
  then have "le_val bs + 1 \<le> 256 ^ length bs" by simp
  then have "256 * (le_val bs + 1) \<le> 256 * 256 ^ length bs" by (rule mult_le_mono2)
  with unat_byte_less [of b] show ?case by simp
qed simp

section \<open>What the forward reader reads\<close>

definition br_ok :: "bitReader \<Rightarrow> bool" where
  "br_ok br \<longleftrightarrow> length (bdata br) < 2 ^ 31 \<and> unat (boff br) \<le> length (bdata br)
     \<and> unat (bcnt br) \<le> 24 \<and> unat (bcnt br) \<le> 8 * unat (boff br) \<and> unat (bbits br) < 2 ^ unat (bcnt br)"

text \<open>The unread bits as a number, and how many bits were consumed.\<close>

definition br_rest :: "bitReader \<Rightarrow> nat" where
  "br_rest br = unat (bbits br) + 2 ^ unat (bcnt br) * le_val (drop (unat (boff br)) (bdata br))"

definition br_pos :: "bitReader \<Rightarrow> nat" where
  "br_pos br = 8 * unat (boff br) - unat (bcnt br)"

lemma makeBitReader_ok:
  assumes "length data < 2 ^ 31" "off \<le> length data"
  shows "br_ok (makeBitReader data off) \<and> br_pos (makeBitReader data off) = 8 * off
    \<and> br_rest (makeBitReader data off) = le_val (drop off data)"
  using assms by (simp add: br_ok_def br_pos_def br_rest_def makeBitReader_def unat_of_nat)

lemma or_push_byte:
  assumes "unat (w::u32) < 2 ^ n" "n < 16"
  shows "unat (w OR push_bit n (ucast (c::u8))) = unat w + 2 ^ n * unat c"
proof -
  have "(2::nat) ^ n \<le> 2 ^ 15" using assms(2) by (intro power_increasing) simp_all
  then have "unat c * 2 ^ n < 256 * 2 ^ 15" using unat_byte_less [of c] by (intro mult_less_le_imp_less) simp_all
  then have p: "unat (push_bit n (ucast c :: u32)) = 2 ^ n * unat c"
    by (simp only: unsigned_push_bit_eq push_bit_eq_mult [where ?'a = nat] take_bit_eq_mod [where ?'a = nat]
        unat_ucast_byte) (simp add: mult.commute)
  have "w AND push_bit n (ucast c) = 0"
  proof (rule bit_word_eqI)
    fix i
    have "\<not> bit w i" if "n \<le> i"
    proof
      assume "bit w i"
      then have "bit (unat w) i" by (simp add: bit_unsigned_iff)
      then have "odd (unat w div 2 ^ i)" by (simp add: bit_iff_odd)
      moreover have "unat w div 2 ^ i = 0"
        using assms(1) that by (simp add: div_eq_0_iff) (meson less_le_trans one_le_numeral power_increasing)
      ultimately show False by simp
    qed
    then show "bit (w AND push_bit n (ucast c)) i = bit (0::u32) i"
      by (auto simp: bit_and_iff bit_push_bit_iff)
  qed
  then have "w OR push_bit n (ucast c) = w + push_bit n (ucast c)"
    using word_plus_and_or [of w "push_bit n (ucast c)"] by simp
  moreover have "unat w + 2 ^ n * unat c < 2 ^ 32"
    using p assms \<open>unat c * 2 ^ n < 256 * 2 ^ 15\<close> \<open>(2::nat) ^ n \<le> 2 ^ 15\<close> by (simp add: mult.commute)
  ultimately show ?thesis by (simp add: unat_word_ariths p)
qed


lemma moreBits_step:
  assumes ok: "br_ok br" and c: "bcnt br < 16" "\<not> of_nat (length (bdata br)) \<le> boff br"
    and br': "br' = br\<lparr>boff := boff br + 1,
      bbits := bbits br OR push_bit (unat (bcnt br)) (ucast (bdata br ! unat (boff br))), bcnt := bcnt br + 8\<rparr>"
  shows "br_ok br' \<and> br_rest br' = br_rest br \<and> br_pos br' = br_pos br \<and> bdata br' = bdata br"
proof -
  let ?n = "unat (bcnt br)" and ?o = "unat (boff br)"
  have d: "length (bdata br) < 2 ^ 31" and b: "unat (bbits br) < 2 ^ ?n" using ok by (simp_all add: br_ok_def)
  have n: "?n < 16" using c(1) by (simp add: word_less_nat_alt)
  have o: "?o < length (bdata br)"
    using c(2) d by (simp add: word_le_nat_alt unat_of_nat)
  have o1: "unat (boff br + 1) = ?o + 1" using o d by (simp add: unat_word_ariths)
  note v = or_push_byte [OF b n, of "bdata br ! ?o"]
  have "2 ^ ?n * (unat (bdata br ! ?o) + 1) \<le> 2 ^ ?n * 256"
    using unat_byte_less [of "bdata br ! ?o"] by (intro mult_le_mono2) simp
  then have "2 ^ ?n * unat (bdata br ! ?o) + 2 ^ ?n \<le> 2 ^ (?n + 8)"
    by (simp only: distrib_left mult_1_right power_add) simp
  moreover have "unat (bbits br') = unat (bbits br) + 2 ^ ?n * unat (bdata br ! ?o)" by (simp add: br' v)
  ultimately have "unat (bbits br') < 2 ^ (?n + 8)" using b by linarith
  moreover have "br_rest br' = br_rest br"
    unfolding br_rest_def br' using v n o o1 Cons_nth_drop_Suc [OF o, symmetric]
    by (simp add: unat_add_small power_add algebra_simps)
  moreover have "br_pos br' = br_pos br"
    using ok n o1 by (simp add: br_pos_def br' br_ok_def unat_add_small)
  ultimately show ?thesis using ok n o o1 by (simp add: br_ok_def br' unat_add_small)
qed

lemma moreBits_spec:
  "br_ok br \<Longrightarrow> safe (moreBits bo br) \<and>
     (\<forall>br'. moreBits bo br = Inr br' \<longrightarrow>
        br_ok br' \<and> br_rest br' = br_rest br \<and> br_pos br' = br_pos br \<and> bdata br' = bdata br \<and> 16 \<le> unat (bcnt br'))"
proof (induction bo br rule: moreBits.induct)
  case (1 bo br)
  show ?case
  proof (cases "bcnt br < 16")
    case c: True
    show ?thesis
    proof (cases "of_nat (length (bdata br)) \<le> boff br")
      case True
      with c show ?thesis by (simp add: moreBits.simps [of bo br])
    next
      case False
      let ?br = "br\<lparr>boff := boff br + 1,
          bbits := bbits br OR push_bit (unat (bcnt br)) (ucast (bdata br ! unat (boff br))), bcnt := bcnt br + 8\<rparr>"
      have s: "br_ok ?br" "br_rest ?br = br_rest br" "br_pos ?br = br_pos br" "bdata ?br = bdata br"
        using moreBits_step [OF "1.prems" c False refl] by blast+
      have e: "moreBits bo br = moreBits bo ?br" using c False by (subst moreBits.simps) (simp add: Let_def)
      show ?thesis using "1.IH" [OF c False refl s(1)] unfolding e s(2-4) .
    qed
  next
    case False
    with "1.prems" show ?thesis by (simp add: moreBits.simps [of bo br] word_less_nat_alt)
  qed
qed

lemma drop_bits_spec:
  assumes "br_ok br" "n \<le> unat (bcnt br)" "unat k = n"
    "br' = br\<lparr>bbits := drop_bit n (bbits br), bcnt := bcnt br - k\<rparr>"
  shows "br_ok br' \<and> br_rest br' = br_rest br div 2 ^ n \<and> br_pos br' = br_pos br + n \<and> bdata br' = bdata br
    \<and> unat (bcnt br') = unat (bcnt br) - n"
proof -
  let ?c = "unat (bcnt br)" and ?L = "le_val (drop (unat (boff br)) (bdata br))"
  have c: "unat (bcnt br - k) = ?c - n" using assms(2,3) by (simp add: unat_sub word_le_nat_alt)
  have p: "(2::nat) ^ ?c = 2 ^ n * 2 ^ (?c - n)" using assms(2) by (simp flip: power_add)
  have "br_rest br div 2 ^ n = unat (bbits br) div 2 ^ n + 2 ^ (?c - n) * ?L"
    by (simp add: br_rest_def p mult.assoc)
  moreover have "unat (bbits br) div 2 ^ n < 2 ^ (?c - n)"
    using assms(1) p by (simp add: br_ok_def less_mult_imp_div_less mult.commute)
  ultimately show ?thesis
    using assms c by (auto simp: br_ok_def br_rest_def br_pos_def unat_drop_bit)
qed

lemma bval_spec:
  assumes "br_ok br" "unat b \<le> unat (bcnt br)" "bval br b = (v, br')"
  shows "unat v = br_rest br mod 2 ^ unat b \<and> br_ok br' \<and> br_rest br' = br_rest br div 2 ^ unat b
    \<and> br_pos br' = br_pos br + unat b \<and> bdata br' = bdata br \<and> unat (bcnt br') = unat (bcnt br) - unat b"
proof -
  have "br' = br\<lparr>bbits := drop_bit (unat b) (bbits br), bcnt := bcnt br - ucast b\<rparr>"
    and v: "v = bbits br AND (push_bit (unat b) 1 - 1)" using assms(3) by (simp_all add: bval_def)
  note d = drop_bits_spec [OF assms(1,2) unat_ucast_byte this(1)]
  have "(2::nat) ^ unat b dvd 2 ^ unat (bcnt br)" using assms(2) by (rule le_imp_power_dvd)
  then have "br_rest br mod 2 ^ unat b = unat (bbits br) mod 2 ^ unat b"
    by (auto simp: br_rest_def dvd_def mult.assoc)
  with d show ?thesis by (simp add: v unat_and_mask)
qed

lemma backup_spec:
  "unat (bcnt br) \<le> 8 * unat (boff br) \<Longrightarrow>
     unat (boff (backup br)) = (br_pos br + 7) div 8 \<and> unat (boff (backup br)) \<le> unat (boff br)"
proof (induction br rule: backup.induct)
  case (1 br)
  show ?case
  proof (cases "8 \<le> bcnt br")
    case True
    let ?br = "br\<lparr>boff := boff br - 1, bcnt := bcnt br - 8\<rparr>"
    have c: "8 \<le> unat (bcnt br)" using True by (simp add: word_le_nat_alt)
    then have o: "1 \<le> unat (boff br)" using "1.prems" by simp
    have u: "unat (bcnt br - 8) = unat (bcnt br) - 8" "unat (boff br - 1) = unat (boff br) - 1"
      using c o by (simp_all add: unat_sub word_le_nat_alt)
    have "br_pos ?br = br_pos br" using c o u by (simp add: br_pos_def)
    moreover have "backup br = backup ?br" using True by (subst backup.simps) simp
    moreover have "unat (bcnt ?br) \<le> 8 * unat (boff ?br)" using "1.prems" c o u by simp
    ultimately have "unat (boff (backup br)) = (br_pos br + 7) div 8 \<and> unat (boff (backup br)) \<le> unat (boff br) - 1"
      using "1.IH" [OF True] u by simp
    then show ?thesis by linarith
  next
    case False
    then have "unat (bcnt br) < 8" by (simp add: word_le_nat_alt)
    with False "1.prems" show ?thesis by (simp add: br_pos_def backup.simps [of br])
  qed
qed

section \<open>What the reverse reader reads\<close>

text \<open>The unread bits: how many there are, and the number they form.\<close>

definition rbr_count :: "reverseBitReader \<Rightarrow> nat" where
  "rbr_count r = unat (rcnt r) + 8 * (unat (roff r) - unat (rstart r))"

definition rbr_value :: "reverseBitReader \<Rightarrow> nat" where
  "rbr_value r = unat (rbits r) mod 2 ^ unat (rcnt r) * 256 ^ (unat (roff r) - unat (rstart r))
     + le_val (slice (rdata r) (unat (rstart r)) (unat (roff r)))"

definition rbr_ok :: "reverseBitReader \<Rightarrow> bool" where
  "rbr_ok r \<longleftrightarrow> unat (roff r) \<le> length (rdata r) \<and> length (rdata r) < 2 ^ 31 \<and> unat (rcnt r) \<le> 32"

lemma shift_in_byte:
  assumes "unat k + 8 \<le> 32"
  shows "unat (push_bit 8 w OR ucast (c::u8) :: u32) mod 2 ^ (unat (k::u32) + 8) = unat w mod 2 ^ unat k * 256 + unat c"
proof -
  let ?n = "unat k + 8"
  have "take_bit ?n (push_bit 8 w OR ucast c :: u32) = push_bit 8 (take_bit (unat k) w) OR ucast c"
  proof (rule bit_word_eqI)
    fix i
    assume "i < LENGTH(32)"
    then show "bit (take_bit ?n (push_bit 8 w OR ucast c :: u32)) i = bit (push_bit 8 (take_bit (unat k) w) OR ucast c :: u32) i"
      using bit_byte_ge [of i c] by (auto simp: bit_take_bit_iff bit_or_iff bit_push_bit_iff bit_wide_byte)
  qed
  moreover have "unat (push_bit 8 (take_bit (unat k) w) OR ucast c :: u32) = unat (take_bit (unat k) w) * 256 + unat c"
  proof -
    have "ucast c AND push_bit 8 (take_bit (unat k) w) = (0::u32)"
      using bit_byte_ge [of _ c] by (intro bit_word_eqI) (auto simp: bit_and_iff bit_push_bit_iff bit_wide_byte)
    then have e: "push_bit 8 (take_bit (unat k) w) OR ucast c = push_bit 8 (take_bit (unat k) w) + (ucast c :: u32)"
      using word_plus_and_or [of "push_bit 8 (take_bit (unat k) w)" "ucast c"] by (simp add: and.commute)
    have t: "unat (take_bit (unat k) w) = unat w mod 2 ^ unat k"
      by (simp only: unsigned_take_bit_eq take_bit_eq_mod [of _ "unat w"])
    have "(2::nat) ^ unat k \<le> 2 ^ 24" using assms by (intro power_increasing) simp_all
    then have "unat w mod 2 ^ unat k < 2 ^ 24" by (meson mod_less_divisor less_le_trans zero_less_numeral zero_less_power)
    then have p: "unat (push_bit 8 (take_bit (unat k) w)) = unat (take_bit (unat k) w) * 256"
      unfolding unsigned_push_bit_eq push_bit_eq_mult [where ?'a = nat] take_bit_eq_mod [of "LENGTH(32)", where ?'a = nat]
      by (simp add: t)
    show ?thesis
      using p t \<open>unat w mod 2 ^ unat k < 2 ^ 24\<close> unat_byte_less [of c] unfolding e by (simp add: unat_word_ariths)
  qed
  ultimately have "unat (take_bit ?n (push_bit 8 w OR ucast c :: u32)) = unat w mod 2 ^ unat k * 256 + unat c"
    by (simp only: unsigned_take_bit_eq take_bit_eq_mod [of _ "unat w"])
  then show ?thesis by (simp only: unsigned_take_bit_eq take_bit_eq_mod [where ?'a = nat])
qed

lemma fetch_step:
  assumes o: "unat (roff r) \<le> length (rdata r)" and c: "rcnt r < ucast (b::u8)" "\<not> roff r \<le> rstart r"
    and r': "r' = r\<lparr>roff := roff r - 1, rbits := push_bit 8 (rbits r) OR ucast x, rcnt := rcnt r + 8\<rparr>"
    and x: "x = rdata r ! unat (roff r - 1)"
  shows "unat (roff r') = unat (roff r) - 1 \<and> unat (rcnt r') = unat (rcnt r) + 8 \<and> unat (rcnt r) < unat b
    \<and> unat (roff r - 1) < length (rdata r) \<and> rbr_count r' = rbr_count r
    \<and> (unat (rcnt r) + 8 \<le> 32 \<longrightarrow> rbr_value r' = rbr_value r)"
proof -
  have c': "unat (rcnt r) < unat b" using c(1) by (simp add: word_less_nat_alt)
  have s: "unat (rstart r) < unat (roff r)" using c(2) by (simp add: word_le_nat_alt)
  have u: "unat (roff r - 1) = unat (roff r) - 1" using s by (simp add: unat_sub word_le_nat_alt)
  have n: "unat (rcnt r + 8) = unat (rcnt r) + 8" using c' unat_byte_less [of b] by (simp add: unat_word_ariths)
  obtain k where k: "unat (roff r) = Suc k" "unat (rstart r) \<le> k" using s by (cases "unat (roff r)") auto
  have "slice (rdata r) (unat (rstart r)) (Suc k) = slice (rdata r) (unat (rstart r)) k @ [x]"
    using k o u by (simp add: slice_def Suc_diff_le take_Suc_conv_app_nth x)
  moreover have "length (slice (rdata r) (unat (rstart r)) k) = k - unat (rstart r)"
    using k o by (simp add: length_slice)
  ultimately have "unat (rcnt r) + 8 \<le> 32 \<Longrightarrow> rbr_value r' = rbr_value r"
    using shift_in_byte [of "rcnt r" "rbits r" x] k u n
    by (simp add: rbr_value_def r' le_val_append Suc_diff_le algebra_simps)
  then show ?thesis using c' n u k o by (simp add: r' rbr_count_def Suc_diff_le)
qed

text \<open>\<open>fetch\<close> never leaves the data; it succeeds exactly when enough bits are left; and it keeps the unread
  bits, as long as the count stays within the 32 bits of the buffer.\<close>

lemma fetch_spec:
  assumes "unat (roff r) \<le> length (rdata r)"
  shows "\<exists>got r'. fetch r b = Inr (got, r') \<and> unat (roff r') \<le> unat (roff r) \<and> rdata r' = rdata r
    \<and> rstart r' = rstart r \<and> rbr_count r' = rbr_count r \<and> unat (rcnt r') \<le> max (unat (rcnt r)) (unat b + 7)
    \<and> (got \<longrightarrow> unat b \<le> unat (rcnt r')) \<and> (\<not> got \<longrightarrow> unat (rcnt r') = rbr_count r \<and> unat (rcnt r') < unat b)
    \<and> (unat b \<le> 25 \<longrightarrow> rbr_value r' = rbr_value r)"
  using assms
proof (induction r b rule: fetch.induct)
  case (1 r b)
  show ?case
  proof (cases "rcnt r < ucast b")
    case c: True
    then have c': "unat (rcnt r) < unat b" by (simp add: word_less_nat_alt)
    show ?thesis
    proof (cases "roff r \<le> rstart r")
      case True
      with c c' show ?thesis
        by (intro exI [of _ False] exI [of _ r])
          (simp add: fetch.simps [of r b] rbr_count_def word_le_nat_alt)
    next
      case False
      let ?r = "r\<lparr>roff := roff r - 1, rbits := push_bit 8 (rbits r) OR ucast (rdata r ! unat (roff r - 1)), rcnt := rcnt r + 8\<rparr>"
      have f: "unat (roff ?r) = unat (roff r) - 1" "unat (rcnt ?r) = unat (rcnt r) + 8"
        "unat (roff r - 1) < length (rdata r)" "rbr_count ?r = rbr_count r"
        "unat (rcnt r) + 8 \<le> 32 \<Longrightarrow> rbr_value ?r = rbr_value r"
        using fetch_step [OF "1.prems" c False refl refl] by blast+
      have e: "fetch r b = fetch ?r b" using c False f(3) by (subst fetch.simps) simp
      have z: "znth (rdata r) (unat (roff r - 1)) = Inr (rdata r ! unat (roff r - 1))" using f(3) by simp
      have "unat (roff ?r) \<le> length (rdata ?r)" using f(1) "1.prems" by simp
      from "1.IH" [OF c False this] obtain got r' where r': "fetch ?r b = Inr (got, r')"
        "unat (roff r') \<le> unat (roff ?r)" "rdata r' = rdata r" "rstart r' = rstart r" "rbr_count r' = rbr_count ?r"
        "unat (rcnt r') \<le> max (unat (rcnt ?r)) (unat b + 7)" "got \<longrightarrow> unat b \<le> unat (rcnt r')"
        "\<not> got \<longrightarrow> unat (rcnt r') = rbr_count ?r \<and> unat (rcnt r') < unat b"
        "unat b \<le> 25 \<longrightarrow> rbr_value r' = rbr_value ?r"
        by auto
      moreover have "max (unat (rcnt ?r)) (unat b + 7) \<le> max (unat (rcnt r)) (unat b + 7)" using f(2) c' by simp
      ultimately show ?thesis
        using f c' by (intro exI [of _ got] exI [of _ r']) (auto simp: e)
    qed
  next
    case False
    then show ?thesis
      by (intro exI [of _ True] exI [of _ r]) (simp add: fetch.simps [of r b] word_less_nat_alt)
  qed
qed

lemma take_top:
  assumes "(b::nat) \<le> c"
  shows "((x::nat) mod 2 ^ c) * 256 ^ k + y = (x div 2 ^ (c - b) mod 2 ^ b) * 2 ^ (c - b + 8 * k) + (x mod 2 ^ (c - b)) * 256 ^ k + y"
proof -
  have "x mod 2 ^ c = 2 ^ (c - b) * (x div 2 ^ (c - b) mod 2 ^ b) + x mod 2 ^ (c - b)"
    using assms mod_mult2_eq [of x "2 ^ (c - b)" "2 ^ b"] by (simp flip: power_add)
  moreover have "(256::nat) ^ k = 2 ^ (8 * k)" by (simp add: power_mult)
  ultimately show ?thesis by (simp add: power_add algebra_simps)
qed

lemma rbr_low_less:
  assumes "unat (roff r) \<le> length (rdata r)"
  shows "unat (rbits r) mod 2 ^ c * 256 ^ (unat (roff r) - unat (rstart r))
     + le_val (slice (rdata r) (unat (rstart r)) (unat (roff r))) < 2 ^ (c + 8 * (unat (roff r) - unat (rstart r)))"
proof -
  let ?k = "unat (roff r) - unat (rstart r)" and ?s = "slice (rdata r) (unat (rstart r)) (unat (roff r))"
  have "length ?s = ?k" using assms by (simp add: length_slice)
  then have l: "le_val ?s < 256 ^ ?k" using le_val_less [of ?s] by simp
  have "unat (rbits r) mod 2 ^ c + 1 \<le> 2 ^ c" by (simp add: Suc_leI)
  then have "(unat (rbits r) mod 2 ^ c + 1) * 256 ^ ?k \<le> 2 ^ c * 256 ^ ?k" by (rule mult_le_mono1)
  moreover have "(2::nat) ^ c * 256 ^ ?k = 2 ^ (c + 8 * ?k)" by (simp add: power_add power_mult)
  ultimately show ?thesis using l by (simp add: algebra_simps)
qed

lemma rval_spec:
  assumes ok: "rbr_ok r" and b: "unat b \<le> 31"
  shows "(rbr_count r < unat b \<longrightarrow> safe (rval bo r b) \<and> (\<forall>x. rval bo r b \<noteq> Inr x))
    \<and> (unat b \<le> rbr_count r \<longrightarrow> (\<exists>v r'. rval bo r b = Inr (v, r') \<and> rbr_ok r' \<and> rdata r' = rdata r \<and> rstart r' = rstart r
          \<and> unat v < 2 ^ unat b \<and> rbr_count r' = rbr_count r - unat b
          \<and> (unat b \<le> 25 \<longrightarrow> unat v = rbr_value r div 2 ^ (rbr_count r - unat b)
               \<and> rbr_value r' = rbr_value r mod 2 ^ (rbr_count r - unat b))))"
proof -
  have o: "unat (roff r) \<le> length (rdata r)" and c32: "unat (rcnt r) \<le> 32" using ok by (simp_all add: rbr_ok_def)
  from fetch_spec [OF o, of b] obtain got r1 where f: "fetch r b = Inr (got, r1)"
    "unat (roff r1) \<le> unat (roff r)" "rdata r1 = rdata r" "rstart r1 = rstart r" "rbr_count r1 = rbr_count r"
    "unat (rcnt r1) \<le> max (unat (rcnt r)) (unat b + 7)" "got \<longrightarrow> unat b \<le> unat (rcnt r1)"
    "\<not> got \<longrightarrow> unat (rcnt r1) = rbr_count r \<and> unat (rcnt r1) < unat b"
    "unat b \<le> 25 \<longrightarrow> rbr_value r1 = rbr_value r" by blast
  have got: "got \<longleftrightarrow> unat b \<le> rbr_count r"
    using f(5,7,8) by (cases got) (auto simp: rbr_count_def)
  show ?thesis
  proof (cases "unat b \<le> rbr_count r")
    case False
    with got show ?thesis by (simp add: rval_def f(1))
  next
    case True
    let ?c = "unat (rcnt r1) - unat b" and ?k = "unat (roff r1) - unat (rstart r1)"
    let ?r = "r1\<lparr>rcnt := rcnt r1 - ucast b\<rparr>" and ?v = "drop_bit ?c (rbits r1) AND (push_bit (unat b) 1 - 1)"
    have b1: "unat b \<le> unat (rcnt r1)" using f(7) got True by simp
    have c: "unat (rcnt r1 - ucast b) = ?c" using b1 by (simp add: unat_sub word_le_nat_alt)
    have e: "rval bo r b = Inr (?v, ?r)" using True got c by (simp add: rval_def f(1) Let_def)
    have v: "unat ?v = unat (rbits r1) div 2 ^ ?c mod 2 ^ unat b" by (simp only: unat_and_mask(2) unat_drop_bit)
    have cnt: "rbr_count ?r = rbr_count r - unat b" "?c + 8 * ?k = rbr_count r - unat b"
      using c b1 f(5) by (auto simp: rbr_count_def)
    have ok': "rbr_ok ?r" using ok f(2,3,6) b b1 c by (auto simp: rbr_ok_def)
    have o1: "unat (roff r1) \<le> length (rdata r1)" using o f(2,3) by simp
    have val: "rbr_value r1 = unat ?v * 2 ^ (rbr_count r - unat b) + rbr_value ?r"
      using take_top [OF b1, of "unat (rbits r1)" ?k "le_val (slice (rdata r1) (unat (rstart r1)) (unat (roff r1)))"] c cnt(2)
      unfolding v rbr_value_def by simp
    have "rbr_value ?r < 2 ^ (rbr_count r - unat b)"
      using rbr_low_less [OF o1, of ?c] c cnt(2) by (simp add: rbr_value_def)
    with val have "rbr_value r1 div 2 ^ (rbr_count r - unat b) = unat ?v" "rbr_value r1 mod 2 ^ (rbr_count r - unat b) = rbr_value ?r"
      by simp_all
    then show ?thesis using True e ok' f(3,4,9) cnt(1) v by auto
  qed
qed


lemma makeReverseBitReader_safe:
  assumes "length data < 2 ^ 31" "0 \<le> off" "off < int (length data)"
  shows "safe (makeReverseBitReader bo data off start) \<and>
    (\<forall>r. makeReverseBitReader bo data off start = Inr r \<longrightarrow> rbr_ok r \<and> rdata r = data \<and> data ! nat off \<noteq> 0
       \<and> unat (roff r) = nat off \<and> rstart r = of_int start \<and> rbits r = ucast (data ! nat off)
       \<and> unat (rcnt r) = bitlen (unat (data ! nat off)) - 1)"
proof (cases "data ! nat off = 0")
  case True
  with assms show ?thesis by (simp add: makeReverseBitReader_def)
next
  case False
  let ?x = "data ! nat off"
  obtain k where k: "off = int k" "k < length data" using assms(2,3) by (metis nonneg_int_cases of_nat_less_iff)
  have "bitlen (unat ?x) \<le> 8" using unat_byte_less [of ?x] by (intro bitlen_less) simp
  moreover have "0 < bitlen (unat ?x)" using False bitlen_bounds [of "unat ?x"] by (simp add: unat_gt_0)
  ultimately have "7 - leadingZeros 8 (unat ?x) = bitlen (unat ?x) - 1" "bitlen (unat ?x) - 1 < 8"
    by (auto simp: leadingZeros_def)
  then show ?thesis using assms(1) k False
    by (simp add: makeReverseBitReader_def rbr_ok_def unat_of_nat)
qed

lemma makeReverseBitReader_spec:
  assumes "length data < 2 ^ 31" "start \<le> off" "off < length data" "data ! off \<noteq> 0"
  shows "\<exists>r. makeReverseBitReader bo data (int off) (int start) = Inr r \<and> rbr_ok r \<and> rdata r = data
    \<and> rbr_count r = bitlen (unat (data ! off)) - 1 + 8 * (off - start)
    \<and> rbr_value r + 2 ^ rbr_count r = le_val (slice data start (off + 1))"
proof -
  let ?x = "unat (data ! off)" and ?k = "off - start"
  obtain r where m: "makeReverseBitReader bo data (int off) (int start) = Inr r"
    using assms(3,4) by (simp add: makeReverseBitReader_def)
  with makeReverseBitReader_safe [of data "int off" bo "int start"] assms
  have r: "rbr_ok r" "rdata r = data" "unat (roff r) = off" "rstart r = of_nat start"
    "rbits r = ucast (data ! off)" "unat (rcnt r) = bitlen ?x - 1" by auto
  have s: "unat (rstart r) = start" using r(4) assms(1-3) by (simp add: unat_of_nat)
  have x: "2 ^ (bitlen ?x - 1) \<le> ?x" "?x < 2 ^ bitlen ?x" "0 < bitlen ?x"
    using bitlen_bounds [of ?x] assms(4) by (simp_all add: unat_gt_0)
  then have "?x mod 2 ^ (bitlen ?x - 1) + 2 ^ (bitlen ?x - 1) = ?x"
    by (cases "bitlen ?x") (simp_all add: le_mod_geq)
  then have "(?x mod 2 ^ (bitlen ?x - 1)) * 256 ^ ?k + 2 ^ (bitlen ?x - 1 + 8 * ?k) = ?x * 256 ^ ?k"
    by (simp add: power_add power_mult flip: distrib_right)
  moreover have "slice data start (off + 1) = slice data start off @ [data ! off]"
    using assms(2,3) by (simp add: slice_def Suc_diff_le take_Suc_conv_app_nth)
  moreover have "length (slice data start off) = ?k" using assms(3) by (simp add: length_slice)
  ultimately have "rbr_value r + 2 ^ rbr_count r = le_val (slice data start (off + 1))"
    using r s by (simp add: rbr_value_def rbr_count_def le_val_append algebra_simps)
  then show ?thesis using m r s by (auto simp: rbr_count_def)
qed

text \<open>The same facts in the form used for safety.\<close>

lemma fetch_ensures:
  assumes "rbr_ok r" "unat b \<le> 25"
  shows "ensures (fetch r b) (\<lambda>(got, r'). rbr_ok r' \<and> rdata r' = rdata r \<and> rstart r' = rstart r
    \<and> (got \<longrightarrow> unat b \<le> unat (rcnt r')))"
proof -
  have o: "unat (roff r) \<le> length (rdata r)" using assms(1) by (simp add: rbr_ok_def)
  from fetch_spec [OF o, of b] obtain got r' where "fetch r b = Inr (got, r')" "unat (roff r') \<le> unat (roff r)"
    "rdata r' = rdata r" "rstart r' = rstart r" "unat (rcnt r') \<le> max (unat (rcnt r)) (unat b + 7)"
    "got \<longrightarrow> unat b \<le> unat (rcnt r')" by blast
  with assms show ?thesis by (auto simp: rbr_ok_def)
qed

lemma rval_ensures:
  assumes "rbr_ok r" "unat b \<le> 31"
  shows "ensures (rval bo r b) (\<lambda>(v, r'). rbr_ok r' \<and> rdata r' = rdata r \<and> rstart r' = rstart r \<and> unat v < 2 ^ unat b)"
  using rval_spec [OF assms, of bo] by (cases "rbr_count r < unat b") (auto simp: ensures_def)

lemma makeReverseBitReader_ensures:
  assumes "length data < 2 ^ 31" "0 \<le> off" "off < int (length data)"
  shows "ensures (makeReverseBitReader bo data off start) (\<lambda>r. rbr_ok r \<and> rdata r = data)"
  unfolding ensures_def using makeReverseBitReader_safe [OF assms, of bo start] by blast

section \<open>Fields of a reverse stream\<close>

text \<open>A sequence of fields, each a width and a value, as one number with the first field on top.\<close>

fun join_val :: "(nat \<times> nat) list \<Rightarrow> nat" where
  "join_val [] = 0"
| "join_val ((w, v) # fs) = v * 2 ^ sum_list (map fst fs) + join_val fs"

definition field_ok :: "nat \<times> nat \<Rightarrow> bool" where
  "field_ok f \<longleftrightarrow> fst f \<le> 25 \<and> snd f < 2 ^ fst f"

fun read_fields :: "int \<Rightarrow> reverseBitReader \<Rightarrow> nat list \<Rightarrow> zerr + nat list \<times> reverseBitReader" where
  "read_fields bo r [] = Inr ([], r)"
| "read_fields bo r (w # ws) =
     rbind (rval bo r (of_nat w)) (\<lambda>(v, r').
       rbind (read_fields bo r' ws) (\<lambda>(vs, r''). Inr (unat v # vs, r'')))"

lemma join_val_less: "list_all field_ok fs \<Longrightarrow> join_val fs < 2 ^ sum_list (map fst fs)"
proof (induction fs rule: join_val.induct)
  case (2 w v fs)
  then have "v + 1 \<le> 2 ^ w" by (simp add: field_ok_def Suc_leI)
  then have "(v + 1) * 2 ^ sum_list (map fst fs) \<le> 2 ^ w * 2 ^ sum_list (map fst fs)" by (rule mult_le_mono1)
  with 2 show ?case by (simp add: power_add)
qed simp

lemma read_fields_spec:
  assumes "list_all field_ok fs" "rbr_ok r" "rbr_count r = sum_list (map fst fs)" "rbr_value r = join_val fs"
  shows "\<exists>r'. read_fields bo r (map fst fs) = Inr (map snd fs, r') \<and> rbr_count r' = 0"
  using assms
proof (induction fs arbitrary: r rule: join_val.induct)
  case 1
  then show ?case by simp
next
  case (2 w v fs)
  let ?W = "sum_list (map fst fs)"
  have w: "w \<le> 25" "v < 2 ^ w" and fs: "list_all field_ok fs"
    using "2.prems"(1) by (simp_all add: field_ok_def [of "(w, v)"])
  have uw: "unat (of_nat w :: u8) = w" using w by (simp add: unat_of_nat)
  have low: "join_val fs < 2 ^ ?W" using join_val_less [OF fs] .
  obtain x r' where x: "rval bo r (of_nat w) = Inr (x, r')" "rbr_ok r'" "rbr_count r' = ?W"
    "unat x = rbr_value r div 2 ^ ?W" "rbr_value r' = rbr_value r mod 2 ^ ?W"
    using rval_spec [OF "2.prems"(2), of "of_nat w" bo] w "2.prems"(3) by (auto simp: uw)
  have "unat x = v" "rbr_value r' = join_val fs" using x(4,5) low "2.prems"(4) by simp_all
  with "2.IH" [OF fs x(2,3)] x(1) show ?case by auto
qed

text \<open>the reverse bit reader undoes a bit writer. When the bytes of a stream are the fields, first field
  on top, under a leading 1 bit that lies in the last byte, then reading fields of the same widths returns
  their values and ends with no bit left.\<close>

theorem reverse_stream_roundtrip:
  assumes "list_all field_ok fs" "data \<noteq> []" "last data \<noteq> 0" "length data < 2 ^ 31"
    and "le_val data = 2 ^ sum_list (map fst fs) + join_val fs"
  shows "\<exists>r r'. makeReverseBitReader bo data (int (length data - 1)) 0 = Inr r
    \<and> read_fields bo r (map fst fs) = Inr (map snd fs, r') \<and> rbr_count r' = 0"
proof -
  let ?W = "sum_list (map fst fs)" and ?n = "length data - 1"
  have n: "?n < length data" "slice data 0 (?n + 1) = data" "data ! ?n \<noteq> 0" using assms(2,3) by (simp_all add: last_conv_nth)
  obtain r where r: "makeReverseBitReader bo data (int ?n) 0 = Inr r" "rbr_ok r"
    "rbr_value r + 2 ^ rbr_count r = le_val data" "rdata r = data"
    using makeReverseBitReader_spec [OF assms(4) _ n(1,3), of 0 bo] n(2) by auto
  have lv: "rbr_value r < 2 ^ rbr_count r"
    using rbr_low_less [of r "unat (rcnt r)"] r(2) by (simp add: rbr_ok_def rbr_value_def rbr_count_def)
  have lf: "join_val fs < 2 ^ ?W" by (rule join_val_less [OF assms(1)])
  have c: "rbr_count r = ?W"
  proof (rule ccontr)
    assume "rbr_count r \<noteq> ?W"
    then consider "Suc (rbr_count r) \<le> ?W" | "Suc ?W \<le> rbr_count r" by linarith
    then show False
    proof cases
      case 1
      then have "(2::nat) ^ Suc (rbr_count r) \<le> 2 ^ ?W" by (rule power_increasing) simp
      with lv r(3) assms(5) show False by simp
    next
      case 2
      then have "(2::nat) ^ Suc ?W \<le> 2 ^ rbr_count r" by (rule power_increasing) simp
      with lf r(3) assms(5) show False by simp
    qed
  qed
  with r(3) assms(5) have "rbr_value r = join_val fs" by simp
  from read_fields_spec [OF assms(1) r(2) c this] r(1) show ?thesis by blast
qed

theorem reverse_stream_roundtrip_witness:
  "\<exists>r r'. makeReverseBitReader 0 [0x35, 0x05] 1 0 = Inr r \<and> read_fields 0 r [4, 0, 6] = Inr ([4, 0, 0x35], r')
     \<and> rbr_count r' = 0"
proof -
  have "list_all field_ok [(4, 4), (0, 0), (6, 0x35)]" by (simp add: field_ok_def)
  moreover have "le_val [0x35, 0x05] = 2 ^ sum_list (map fst [(4, 4), (0, 0), (6, 0x35)]) + join_val [(4, 4), (0, 0), (6, 0x35 :: nat)]"
    by simp
  ultimately show ?thesis using reverse_stream_roundtrip [of "[(4, 4), (0, 0), (6, 0x35)]" "[0x35, 0x05]" 0] by simp
qed

end
