(* ===== verification/ZstdFse.thy ===== *)
theory ZstdFse
  imports ZstdBits
begin

text \<open>
  Finite state entropy tables, \<open>src/pkg/lib/zstd/fse.go\<close>: reading the normalised counts, building the
  decoding table, and the conversion to baseline tables for literal lengths, offsets and match lengths.

  Go's \<open>int\<close> variables are integers or natural numbers; the counts fit an \<open>int16\<close>. A loop that would make no
  progress is \<open>ZDiverge\<close>: the zero-run loops take fuel, at least one unit per bit of the input; the search for
  a free position takes one unit per table entry, and after so many steps it is back where it began; the
  threshold loop stops making progress at 0.
\<close>

section \<open>Building a table\<close>

record fseEntry =
  fsym :: u8
  fbits :: u8
  fbase :: u16

definition put_sym :: "fseEntry list \<Rightarrow> int \<Rightarrow> nat \<Rightarrow> zerr + fseEntry list" where
  "put_sym table i s =
     (if i < 0 then Inl (ZPanic IndexRange)
      else rbind (znth table (nat i)) (\<lambda>e. Inr (table[nat i := e\<lparr>fsym := of_nat s\<rparr>])))"

text \<open>The first loop: symbols of probability -1 go to the end of the table.\<close>

fun place_low :: "nat \<Rightarrow> int list \<Rightarrow> fseEntry list \<Rightarrow> int \<Rightarrow> u16 list \<Rightarrow> zerr + fseEntry list \<times> int \<times> u16 list" where
  "place_low i [] table high nxt = Inr (table, high, nxt)"
| "place_low i (n # ns) table high nxt =
     (if 0 \<le> n then place_low (i + 1) ns table high (nxt[i mod 256 := of_int n])
      else rbind (put_sym table high i) (\<lambda>table'.
             place_low (i + 1) ns table' (high - 1) (nxt[i mod 256 := 1])))"

text \<open>\<open>pos = (pos + step) & mask\<close> until the position is not above \<open>highThreshold\<close>.\<close>

fun skip_high :: "nat \<Rightarrow> nat \<Rightarrow> nat \<Rightarrow> int \<Rightarrow> nat \<Rightarrow> zerr + nat" where
  "skip_high 0 step sz high pos = (if high < int pos then Inl ZDiverge else Inr pos)"
| "skip_high (Suc fuel) step sz high pos =
     (if high < int pos then skip_high fuel step sz high ((pos + step) mod sz) else Inr pos)"

fun place_sym :: "nat \<Rightarrow> nat \<Rightarrow> nat \<Rightarrow> nat \<Rightarrow> int \<Rightarrow> fseEntry list \<Rightarrow> nat \<Rightarrow> zerr + fseEntry list \<times> nat" where
  "place_sym i 0 step sz high table pos = Inr (table, pos)"
| "place_sym i (Suc j) step sz high table pos =
     rbind (put_sym table (int pos) i) (\<lambda>table'.
       rbind (skip_high sz step sz high ((pos + step) mod sz)) (\<lambda>pos'.
         place_sym i j step sz high table' pos'))"

fun place_all :: "nat \<Rightarrow> int list \<Rightarrow> nat \<Rightarrow> nat \<Rightarrow> int \<Rightarrow> fseEntry list \<Rightarrow> nat \<Rightarrow> zerr + fseEntry list \<times> nat" where
  "place_all i [] step sz high table pos = Inr (table, pos)"
| "place_all i (n # ns) step sz high table pos =
     rbind (place_sym i (nat n) step sz high table pos) (\<lambda>(table', pos').
       place_all (i + 1) ns step sz high table' pos')"

text \<open>The last loop, over the entries \<open>i\<close> to \<open>i + k - 1\<close>.\<close>

fun assign_states :: "int \<Rightarrow> nat \<Rightarrow> nat \<Rightarrow> nat \<Rightarrow> nat \<Rightarrow> fseEntry list \<Rightarrow> u16 list \<Rightarrow> zerr + fseEntry list" where
  "assign_states bo off tableBits i 0 table nxt = Inr table"
| "assign_states bo off tableBits i (Suc k) table nxt =
     rbind (znth table i) (\<lambda>e.
       rbind (znth nxt (unat (fsym e))) (\<lambda>nextState.
         if nextState = 0 then makeError bo (int off) ''FSE state error''
         else let highBit = 15 - int (leadingZeros 16 (unat nextState));
                  bits = int tableBits - highBit
              in if bits < 0 then Inl (ZPanic NegativeShift)
                 else assign_states bo off tableBits (i + 1) k
                   (table[i := e\<lparr>fbits := of_int bits,
                      fbase := push_bit (nat bits) nextState - of_nat (2 ^ tableBits)\<rparr>])
                   (nxt[unat (fsym e) := nextState + 1])))"

definition fse_step :: "nat \<Rightarrow> nat" where
  "fse_step sz = sz div 2 + sz div 8 + 3"

definition buildFSE :: "int \<Rightarrow> nat \<Rightarrow> int list \<Rightarrow> fseEntry list \<Rightarrow> nat \<Rightarrow> zerr + fseEntry list" where
  "buildFSE bo off norm table tableBits =
     (let tableSize = 2 ^ tableBits
      in rbind (place_low 0 norm table (int tableSize - 1) (replicate 256 0)) (\<lambda>(table1, high, nxt).
           rbind (place_all 0 norm (fse_step tableSize) tableSize high table1 0) (\<lambda>(table2, pos).
             if pos \<noteq> 0 then makeError bo (int off) ''FSE count error''
             else assign_states bo off tableBits 0 tableSize table2 nxt)))"

section \<open>Reading the counts\<close>

text \<open>One loop of the repeat flags: \<open>while (bits & m) == m\<close>, add \<open>k\<close> and drop \<open>n\<close> bits.\<close>

fun zero_run :: "nat \<Rightarrow> int \<Rightarrow> nat \<Rightarrow> nat \<Rightarrow> nat \<Rightarrow> bitReader \<Rightarrow> zerr + nat \<times> bitReader" where
  "zero_run 0 bo n k zsym br = (if bbits br AND (2 ^ n - 1) = 2 ^ n - 1 then Inl ZDiverge else Inr (zsym, br))"
| "zero_run (Suc fuel) bo n k zsym br =
     (if bbits br AND (2 ^ n - 1) = 2 ^ n - 1 then
        rbind (moreBits bo (br\<lparr>bbits := drop_bit n (bbits br), bcnt := bcnt br - of_nat n\<rparr>)) (\<lambda>br'.
          zero_run fuel bo n k (zsym + k) br')
      else Inr (zsym, br))"

text \<open>\<open>for remaining < threshold\<close>.\<close>

function lower_threshold :: "int \<Rightarrow> int \<Rightarrow> int \<Rightarrow> zerr + int \<times> int" where
  "lower_threshold remaining threshold bitsNeeded =
     (if remaining < threshold then
        (if threshold \<le> 0 then Inl ZDiverge
         else lower_threshold remaining (threshold div 2) (bitsNeeded - 1))
      else Inr (threshold, bitsNeeded))"
  by pat_completeness auto
termination
  by (relation "measure (\<lambda>(_, t, _). nat t)") auto

declare lower_threshold.simps [simp del]

record fse_state =
  remaining :: int
  threshold :: int
  bitsNeeded :: int
  nsym :: nat
  prev0 :: bool
  norm :: "int list"
  fbr :: bitReader

definition read_zeros :: "int \<Rightarrow> nat \<Rightarrow> fse_state \<Rightarrow> zerr + fse_state" where
  "read_zeros bo maxSym st =
     (let fuel = 8 * length (bdata (fbr st)) + 8
      in rbind (zero_run fuel bo 12 18 (nsym st) (fbr st)) (\<lambda>(z1, br1).
           rbind (zero_run fuel bo 2 3 z1 br1) (\<lambda>(z2, br2).
             let (v, br3) = bval br2 2; zsym = z2 + unat v
             in if maxSym < zsym then makeError bo (uint (boff br3)) ''FSE symbol index overflow''
                else Inr (st\<lparr>norm := foldl (\<lambda>nm s. nm[s mod 256 := 0]) (norm st) [nsym st..<zsym],
                             nsym := max (nsym st) zsym, prev0 := False, fbr := br3\<rparr>))))"

definition read_count :: "int \<Rightarrow> fse_state \<Rightarrow> zerr + fse_state" where
  "read_count bo st =
     (let br = fbr st;
          mx = (2 * threshold st - 1) - remaining st;
          small = int (unat (bbits br AND of_int (threshold st - 1)));
          large = int (unat (bbits br AND of_int (2 * threshold st - 1)));
          isSmall = (small < mx);
          count0 = (if isSmall then small else if threshold st \<le> large then large - mx else large);
          drop = (if isSmall then bitsNeeded st - 1 else bitsNeeded st);
          br' = br\<lparr>bbits := drop_bit (nat drop) (bbits br), bcnt := bcnt br - of_int drop\<rparr>;
          count = count0 - 1;
          rem' = (if 0 \<le> count then remaining st - count else remaining st - 1)
      in if 256 \<le> nsym st then makeError bo (uint (boff br')) ''FSE sym overflow''
         else rbind (lower_threshold rem' (threshold st) (bitsNeeded st)) (\<lambda>(t, b).
                Inr (st\<lparr>remaining := rem', threshold := t, bitsNeeded := b, nsym := nsym st + 1,
                        prev0 := (count = 0), norm := (norm st)[nsym st mod 256 := count], fbr := br'\<rparr>)))"

lemma read_zeros_nsym: "read_zeros bo maxSym st = Inr st' \<Longrightarrow> nsym st \<le> nsym st' \<and> \<not> prev0 st'"
  by (auto simp: read_zeros_def Let_def rbind_Inr_iff bval_def split: prod.splits if_splits)

lemma read_count_nsym: "read_count bo st = Inr st' \<Longrightarrow> nsym st' = nsym st + 1"
  by (auto simp: read_count_def Let_def rbind_Inr_iff split: if_splits)

function read_counts :: "int \<Rightarrow> nat \<Rightarrow> fse_state \<Rightarrow> zerr + fse_state" where
  "read_counts bo maxSym st =
     (if 1 < remaining st \<and> nsym st \<le> maxSym then
        (case moreBits bo (fbr st) of
           Inl e \<Rightarrow> Inl e
         | Inr br \<Rightarrow>
             (let st1 = st\<lparr>fbr := br\<rparr>
              in case (if prev0 st1 then read_zeros bo maxSym st1 else read_count bo st1) of
                   Inl e \<Rightarrow> Inl e
                 | Inr st2 \<Rightarrow> read_counts bo maxSym st2))
      else Inr st)"
  by pat_completeness auto
termination
proof (relation "measure (\<lambda>(_, maxSym, st). 2 * (Suc maxSym - nsym st) + (if prev0 st then 1 else 0))", goal_cases)
  case (2 bo maxSym st br st1 st2)
  show ?case
  proof (cases "prev0 st")
    case True
    with 2 have "read_zeros bo maxSym (st\<lparr>fbr := br\<rparr>) = Inr st2" by simp
    from read_zeros_nsym [OF this] True show ?thesis by auto
  next
    case False
    with 2 have "read_count bo (st\<lparr>fbr := br\<rparr>) = Inr st2" by simp
    from read_count_nsym [OF this] False 2(1) show ?thesis by auto
  qed
qed simp

declare read_counts.simps [simp del]

definition readFSE ::
  "int \<Rightarrow> bytes \<Rightarrow> nat \<Rightarrow> nat \<Rightarrow> nat \<Rightarrow> fseEntry list \<Rightarrow> zerr + nat \<times> nat \<times> fseEntry list" where
  "readFSE bo data off maxSym maxBits table =
     rbind (moreBits bo (makeBitReader data off)) (\<lambda>br0.
       let (v, br) = bval br0 4; accuracyLog = unat v + 5
       in if maxBits < accuracyLog then makeError bo (uint (boff br)) ''FSE accuracy log too large''
          else rbind (read_counts bo maxSym
                 \<lparr>remaining = 2 ^ accuracyLog + 1, threshold = 2 ^ accuracyLog, bitsNeeded = int accuracyLog + 1,
                  nsym = 0, prev0 = False, norm = replicate 256 0, fbr = br\<rparr>) (\<lambda>st.
            if remaining st \<noteq> 1 then makeError bo (uint (boff (fbr st))) ''too many symbols in FSE table''
            else let nm = foldl (\<lambda>nm s. nm[s mod 256 := 0]) (norm st) [nsym st..<maxSym + 1];
                     br' = backup (fbr st)
                 in rbind (zslice nm 0 (maxSym + 1)) (\<lambda>nm'.
                      rbind (buildFSE bo off nm' table accuracyLog) (\<lambda>table'.
                        Inr (accuracyLog, unat (boff br'), table')))))"

section \<open>Baseline tables\<close>

record fseBaselineEntry =
  baseline :: u32
  basebits :: u8
  sbits :: u8
  sbase :: u16

text \<open>\<open>base | (bits << 24)\<close>.\<close>

definition pack_base :: "u32 \<times> u32 \<Rightarrow> u32" where
  "pack_base p = fst p OR push_bit 24 (snd p)"

definition literalLengthOffset :: nat where "literalLengthOffset = 16"

definition literalLengthBase :: "u32 list" where
  "literalLengthBase = map pack_base [
     (16, 1), (18, 1), (20, 1), (22, 1), (24, 2), (28, 2), (32, 3), (40, 3), (48, 4), (64, 6),
     (128, 7), (256, 8), (512, 9), (1024, 10), (2048, 11), (4096, 12), (8192, 13), (16384, 14),
     (32768, 15), (65536, 16)]"

definition matchLengthOffset :: nat where "matchLengthOffset = 32"

definition matchLengthBase :: "u32 list" where
  "matchLengthBase = map pack_base [
     (35, 1), (37, 1), (39, 1), (41, 1), (43, 2), (47, 2), (51, 3), (59, 3), (67, 4), (83, 4),
     (99, 5), (131, 7), (259, 8), (515, 9), (1027, 10), (2051, 11), (4099, 12), (8195, 13),
     (16387, 14), (32771, 15), (65539, 16)]"

text \<open>The packed values, for evaluation.\<close>

lemma literalLengthBase_code [code]:
  "literalLengthBase = [
     0x1000010, 0x1000012, 0x1000014, 0x1000016, 0x2000018, 0x200001c, 0x3000020, 0x3000028,
     0x4000030, 0x6000040, 0x7000080, 0x8000100, 0x9000200, 0xa000400, 0xb000800, 0xc001000,
     0xd002000, 0xe004000, 0xf008000, 0x10010000]"
  unfolding literalLengthBase_def by code_simp

lemma matchLengthBase_code [code]:
  "matchLengthBase = [
     0x1000023, 0x1000025, 0x1000027, 0x1000029, 0x200002b, 0x200002f, 0x3000033, 0x300003b,
     0x4000043, 0x4000053, 0x5000063, 0x7000083, 0x8000103, 0x9000203, 0xa000403, 0xb000803,
     0xc001003, 0xd002003, 0xe004003, 0xf008003, 0x10010003]"
  unfolding matchLengthBase_def by code_simp

fun map_result :: "('a \<Rightarrow> 'e + 'b) \<Rightarrow> 'a list \<Rightarrow> 'e + 'b list" where
  "map_result f [] = Inr []"
| "map_result f (x # xs) = rbind (f x) (\<lambda>y. rbind (map_result f xs) (\<lambda>ys. Inr (y # ys)))"

definition makeLiteralBaselineFSE :: "int \<Rightarrow> nat \<Rightarrow> fseEntry list \<Rightarrow> zerr + fseBaselineEntry list" where
  "makeLiteralBaselineFSE bo off = map_result (\<lambda>e.
     if unat (fsym e) < literalLengthOffset
     then Inr \<lparr>baseline = ucast (fsym e), basebits = 0, sbits = fbits e, sbase = fbase e\<rparr>
     else if 35 < unat (fsym e) then makeError bo (int off) ''FSE baseline symbol overflow''
     else rbind (znth literalLengthBase (unat (fsym e) - literalLengthOffset)) (\<lambda>bb.
       Inr \<lparr>baseline = bb AND 0xffffff, basebits = ucast (drop_bit 24 bb), sbits = fbits e, sbase = fbase e\<rparr>))"

definition makeOffsetBaselineFSE :: "int \<Rightarrow> nat \<Rightarrow> fseEntry list \<Rightarrow> zerr + fseBaselineEntry list" where
  "makeOffsetBaselineFSE bo off = map_result (\<lambda>e.
     if 31 < unat (fsym e) then makeError bo (int off) ''FSE offset symbol overflow''
     else let b = push_bit (unat (fsym e)) 1
          in Inr \<lparr>baseline = (if 2 \<le> unat (fsym e) then b - 3 else b), basebits = fsym e,
                  sbits = fbits e, sbase = fbase e\<rparr>)"

definition makeMatchBaselineFSE :: "int \<Rightarrow> nat \<Rightarrow> fseEntry list \<Rightarrow> zerr + fseBaselineEntry list" where
  "makeMatchBaselineFSE bo off = map_result (\<lambda>e.
     if unat (fsym e) < matchLengthOffset
     then Inr \<lparr>baseline = ucast (fsym e) + 3, basebits = 0, sbits = fbits e, sbase = fbase e\<rparr>
     else if 52 < unat (fsym e) then makeError bo (int off) ''FSE baseline symbol overflow''
     else rbind (znth matchLengthBase (unat (fsym e) - matchLengthOffset)) (\<lambda>bb.
       Inr \<lparr>baseline = bb AND 0xffffff, basebits = ucast (drop_bit 24 bb), sbits = fbits e, sbase = fbase e\<rparr>))"

definition baseline_entry :: "u32 \<times> u8 \<times> u8 \<times> u16 \<Rightarrow> fseBaselineEntry" where
  "baseline_entry t = (case t of (a, b, c, d) \<Rightarrow> \<lparr>baseline = a, basebits = b, sbits = c, sbase = d\<rparr>)"

definition predefinedLiteralTable :: "fseBaselineEntry list" where
  "predefinedLiteralTable = map baseline_entry [
     (0, 0, 4, 0), (0, 0, 4, 16), (1, 0, 5, 32),
     (3, 0, 5, 0), (4, 0, 5, 0), (6, 0, 5, 0),
     (7, 0, 5, 0), (9, 0, 5, 0), (10, 0, 5, 0),
     (12, 0, 5, 0), (14, 0, 6, 0), (16, 1, 5, 0),
     (20, 1, 5, 0), (22, 1, 5, 0), (28, 2, 5, 0),
     (32, 3, 5, 0), (48, 4, 5, 0), (64, 6, 5, 32),
     (128, 7, 5, 0), (256, 8, 6, 0), (1024, 10, 6, 0),
     (4096, 12, 6, 0), (0, 0, 4, 32), (1, 0, 4, 0),
     (2, 0, 5, 0), (4, 0, 5, 32), (5, 0, 5, 0),
     (7, 0, 5, 32), (8, 0, 5, 0), (10, 0, 5, 32),
     (11, 0, 5, 0), (13, 0, 6, 0), (16, 1, 5, 32),
     (18, 1, 5, 0), (22, 1, 5, 32), (24, 2, 5, 0),
     (32, 3, 5, 32), (40, 3, 5, 0), (64, 6, 4, 0),
     (64, 6, 4, 16), (128, 7, 5, 32), (512, 9, 6, 0),
     (2048, 11, 6, 0), (0, 0, 4, 48), (1, 0, 4, 16),
     (2, 0, 5, 32), (3, 0, 5, 32), (5, 0, 5, 32),
     (6, 0, 5, 32), (8, 0, 5, 32), (9, 0, 5, 32),
     (11, 0, 5, 32), (12, 0, 5, 32), (15, 0, 6, 0),
     (18, 1, 5, 32), (20, 1, 5, 32), (24, 2, 5, 32),
     (28, 2, 5, 32), (40, 3, 5, 32), (48, 4, 5, 32),
     (65536, 16, 6, 0), (32768, 15, 6, 0), (16384, 14, 6, 0),
     (8192, 13, 6, 0)]"

definition predefinedOffsetTable :: "fseBaselineEntry list" where
  "predefinedOffsetTable = map baseline_entry [
     (1, 0, 5, 0), (61, 6, 4, 0), (509, 9, 5, 0),
     (32765, 15, 5, 0), (2097149, 21, 5, 0), (5, 3, 5, 0),
     (125, 7, 4, 0), (4093, 12, 5, 0), (262141, 18, 5, 0),
     (8388605, 23, 5, 0), (29, 5, 5, 0), (253, 8, 4, 0),
     (16381, 14, 5, 0), (1048573, 20, 5, 0), (1, 2, 5, 0),
     (125, 7, 4, 16), (2045, 11, 5, 0), (131069, 17, 5, 0),
     (4194301, 22, 5, 0), (13, 4, 5, 0), (253, 8, 4, 16),
     (8189, 13, 5, 0), (524285, 19, 5, 0), (2, 1, 5, 0),
     (61, 6, 4, 16), (1021, 10, 5, 0), (65533, 16, 5, 0),
     (268435453, 28, 5, 0), (134217725, 27, 5, 0), (67108861, 26, 5, 0),
     (33554429, 25, 5, 0), (16777213, 24, 5, 0)]"

definition predefinedMatchTable :: "fseBaselineEntry list" where
  "predefinedMatchTable = map baseline_entry [
     (3, 0, 6, 0), (4, 0, 4, 0), (5, 0, 5, 32),
     (6, 0, 5, 0), (8, 0, 5, 0), (9, 0, 5, 0),
     (11, 0, 5, 0), (13, 0, 6, 0), (16, 0, 6, 0),
     (19, 0, 6, 0), (22, 0, 6, 0), (25, 0, 6, 0),
     (28, 0, 6, 0), (31, 0, 6, 0), (34, 0, 6, 0),
     (37, 1, 6, 0), (41, 1, 6, 0), (47, 2, 6, 0),
     (59, 3, 6, 0), (83, 4, 6, 0), (131, 7, 6, 0),
     (515, 9, 6, 0), (4, 0, 4, 16), (5, 0, 4, 0),
     (6, 0, 5, 32), (7, 0, 5, 0), (9, 0, 5, 32),
     (10, 0, 5, 0), (12, 0, 6, 0), (15, 0, 6, 0),
     (18, 0, 6, 0), (21, 0, 6, 0), (24, 0, 6, 0),
     (27, 0, 6, 0), (30, 0, 6, 0), (33, 0, 6, 0),
     (35, 1, 6, 0), (39, 1, 6, 0), (43, 2, 6, 0),
     (51, 3, 6, 0), (67, 4, 6, 0), (99, 5, 6, 0),
     (259, 8, 6, 0), (4, 0, 4, 32), (4, 0, 4, 48),
     (5, 0, 4, 16), (7, 0, 5, 32), (8, 0, 5, 32),
     (10, 0, 5, 32), (11, 0, 5, 32), (14, 0, 6, 0),
     (17, 0, 6, 0), (20, 0, 6, 0), (23, 0, 6, 0),
     (26, 0, 6, 0), (29, 0, 6, 0), (32, 0, 6, 0),
     (65539, 16, 6, 0), (32771, 15, 6, 0), (16387, 14, 6, 0),
     (8195, 13, 6, 0), (4099, 12, 6, 0), (2051, 11, 6, 0),
     (1027, 10, 6, 0)]"

section \<open>The predefined tables\<close>

text \<open>The default distributions of RFC 8878, section 3.1.1.3.2.2.\<close>

definition literalNorm :: "int list" where
  "literalNorm = [4, 3, 2, 2, 2, 2, 2, 2, 2, 2, 2, 2, 2, 1, 1, 1, 2, 2, 2, 2, 2, 2, 2, 2, 2, 3, 2, 1, 1, 1, 1, 1,
     -1, -1, -1, -1]"

definition matchNorm :: "int list" where
  "matchNorm = [1, 4, 3, 2, 2, 2, 2, 2, 2, 1, 1, 1, 1, 1, 1, 1, 1, 1, 1, 1, 1, 1, 1, 1, 1, 1, 1, 1, 1, 1, 1, 1, 1, 1, 1,
     1, 1, 1, 1, 1, 1, 1, 1, 1, 1, 1, -1, -1, -1, -1, -1, -1, -1]"

definition offsetNorm :: "int list" where
  "offsetNorm = [1, 1, 1, 1, 1, 1, 2, 2, 2, 1, 1, 1, 1, 1, 1, 1, 1, 1, 1, 1, 1, 1, 1, 1, -1, -1, -1, -1, -1]"

definition fse0 :: fseEntry where "fse0 = \<lparr>fsym = 0, fbits = 0, fbase = 0\<rparr>"

lemma predefined_literal:
  "rbind (buildFSE 0 0 literalNorm (replicate 64 fse0) 6) (makeLiteralBaselineFSE 0 0) = Inr predefinedLiteralTable"
  by code_simp

lemma predefined_offset:
  "rbind (buildFSE 0 0 offsetNorm (replicate 32 fse0) 5) (makeOffsetBaselineFSE 0 0) = Inr predefinedOffsetTable"
  by code_simp

lemma predefined_match:
  "rbind (buildFSE 0 0 matchNorm (replicate 64 fse0) 6) (makeMatchBaselineFSE 0 0) = Inr predefinedMatchTable"
  by code_simp

end
