(* ===== verification/ZstdFseTable.thy ===== *)
theory ZstdFseTable
  imports ZstdFse
begin

text \<open>
  Correctness of the table that \<open>buildFSE\<close> (\<open>src/pkg/lib/zstd/fse.go\<close>) builds: the spreading of the symbols
  visits every entry once, every symbol gets as many entries as its count, and the entries of one symbol split
  the states into intervals, which is what makes the table decode what an encoder wrote.
\<close>

section \<open>The walk through the table\<close>

definition walk :: "nat \<Rightarrow> nat \<Rightarrow> nat \<Rightarrow> nat" where
  "walk step sz t = (t * step) mod sz"

lemma walk_0 [simp]: "walk step sz 0 = 0"
  by (simp add: walk_def)

lemma walk_Suc: "(walk step sz t + step) mod sz = walk step sz (Suc t)"
  by (simp add: walk_def mod_simps add.commute)

lemma walk_less: "0 < sz \<Longrightarrow> walk step sz t < sz"
  by (simp add: walk_def)

lemma walk_sz [simp]: "walk step sz sz = 0"
  by (simp add: walk_def)

lemma walk_inj:
  assumes "coprime step sz" "a < sz" "b < sz" "walk step sz a = walk step sz b"
  shows "a = b"
proof -
  have *: "x = y" if "x \<le> y" "y < sz" "walk step sz x = walk step sz y" for x y
  proof -
    have "sz dvd y * step - x * step"
      using that(1,3) mod_eq_dvd_iff_nat [of "x * step" "y * step" sz] by (simp add: walk_def)
    then have "sz dvd (y - x) * step" by (simp add: diff_mult_distrib)
    then have "sz dvd y - x" using assms(1) by (simp add: coprime_dvd_mult_left_iff coprime_commute)
    with that(2) show ?thesis using that(1) by (auto dest!: dvd_imp_le)
  qed
  show ?thesis using *[of a b] *[of b a] assms by (cases "a \<le> b") auto
qed

lemma fse_step_coprime:
  assumes "5 \<le> T"
  shows "coprime (fse_step (2 ^ T)) (2 ^ T)"
proof -
  obtain k where k: "T = k + 5" using assms by (metis le_iff_add add.commute)
  have "fse_step (2 ^ T) = 2 * (2 ^ k * 8 + 2 ^ k * 2 + 1) + 1"
    by (simp add: fse_step_def k power_add)
  then have "odd (fse_step (2 ^ T))" by simp
  then show ?thesis by (simp add: coprime_right_2_iff_odd)
qed

text \<open>The search from time \<open>t\<close> on stops at the first time whose position is free.\<close>

lemma skip_high_walk:
  assumes "t \<le> u" "u \<le> t + fuel" "int (walk step sz u) \<le> high"
  shows "\<exists>t'. t \<le> t' \<and> t' \<le> u \<and> skip_high fuel step sz high (walk step sz t) = Inr (walk step sz t')
    \<and> int (walk step sz t') \<le> high \<and> (\<forall>v. t \<le> v \<and> v < t' \<longrightarrow> high < int (walk step sz v))"
  using assms
proof (induction fuel arbitrary: t)
  case 0
  then show ?case by (intro exI [of _ t]) auto
next
  case (Suc fuel)
  show ?case
  proof (cases "high < int (walk step sz t)")
    case False
    with Suc.prems show ?thesis by (intro exI [of _ t]) auto
  next
    case True
    then have "t \<noteq> u" using Suc.prems(3) by auto
    with Suc.IH [of "Suc t"] Suc.prems obtain t' where t': "Suc t \<le> t'" "t' \<le> u"
      "skip_high fuel step sz high (walk step sz (Suc t)) = Inr (walk step sz t')" "int (walk step sz t') \<le> high"
      "\<forall>v. Suc t \<le> v \<and> v < t' \<longrightarrow> high < int (walk step sz v)" by auto
    with True show ?thesis
      by (intro exI [of _ t']) (auto simp: walk_Suc not_less_eq_eq le_Suc_eq Suc_le_eq dest: le_neq_implies_less)
  qed
qed

section \<open>Counting symbols\<close>

definition sym_count :: "nat set \<Rightarrow> fseEntry list \<Rightarrow> nat \<Rightarrow> nat" where
  "sym_count A table s = card {x \<in> A. unat (fsym (table ! x)) = s}"

lemma sym_count_put:
  assumes "finite A" "x \<notin> A" "A \<subseteq> {..<length table}" "x < length table" "s < 256"
  shows "sym_count (insert x A) (table[x := e\<lparr>fsym := of_nat s\<rparr>]) s' = sym_count A table s' + (if s' = s then 1 else 0)"
proof -
  define t where "t = table[x := e\<lparr>fsym := of_nat s\<rparr>]"
  have at: "unat (fsym (t ! x)) = s" using assms(4,5) by (simp add: t_def unat_of_nat)
  have others: "t ! y = table ! y" if "y \<in> A" for y
    using that assms(2) unfolding t_def by (metis nth_list_update_neq)
  have "{y \<in> insert x A. unat (fsym (t ! y)) = s'} =
      (if s' = s then insert x {y \<in> A. unat (fsym (table ! y)) = s'} else {y \<in> A. unat (fsym (table ! y)) = s'})"
    using at others by auto
  then show ?thesis using assms(1,2) by (simp add: sym_count_def t_def)
qed

lemma put_sym_ok: "x < length table \<Longrightarrow> put_sym table (int x) s = Inr (table[x := (table ! x)\<lparr>fsym := of_nat s\<rparr>])"
  by (simp add: put_sym_def)

section \<open>Low-probability symbols\<close>

definition above :: "int \<Rightarrow> nat \<Rightarrow> nat set" where
  "above high sz = {x. high < int x \<and> x < sz}"

lemma above_finite [simp]: "finite (above high sz)"
  by (rule finite_subset [of _ "{..<sz}"]) (auto simp: above_def)

lemma above_step: "0 \<le> high \<Longrightarrow> high < int sz \<Longrightarrow> above (high - 1) sz = insert (nat high) (above high sz)"
  by (auto simp: above_def)

definition states_of :: "int \<Rightarrow> nat" where
  "states_of n = (if 0 \<le> n then nat n else 1)"

definition lows :: "int list \<Rightarrow> nat" where
  "lows ns = length (filter (\<lambda>n. n < 0) ns)"

lemma place_low_spec:
  assumes "int (lows ns) \<le> high + 1" "high < int sz" "sz \<le> length table" "i + length ns \<le> 256" "length nxt = 256"
  shows "\<exists>table' nxt'. place_low i ns table high nxt = Inr (table', high - int (lows ns), nxt')
    \<and> length table' = length table \<and> length nxt' = 256
    \<and> (\<forall>k < 256. nxt' ! k = (if i \<le> k \<and> k < i + length ns then of_nat (states_of (ns ! (k - i))) else nxt ! k))
    \<and> (\<forall>s. sym_count (above (high - int (lows ns)) sz) table' s
         = sym_count (above high sz) table s + (if i \<le> s \<and> s < i + length ns \<and> ns ! (s - i) < 0 then 1 else 0))"
  using assms
proof (induction ns arbitrary: i table high nxt)
  case Nil
  then show ?case by (auto simp: lows_def)
next
  case (Cons n ns)
  have i: "i < 256" using Cons.prems(4) by simp
  show ?case
  proof (cases "0 \<le> n")
    case True
    then have l: "lows (n # ns) = lows ns" by (simp add: lows_def)
    let ?nxt = "nxt[i := of_int n]"
    have "\<exists>table' nxt'. place_low (Suc i) ns table high ?nxt = Inr (table', high - int (lows ns), nxt')
        \<and> length table' = length table \<and> length nxt' = 256
        \<and> (\<forall>k < 256. nxt' ! k = (if Suc i \<le> k \<and> k < Suc i + length ns then of_nat (states_of (ns ! (k - Suc i))) else ?nxt ! k))
        \<and> (\<forall>s. sym_count (above (high - int (lows ns)) sz) table' s = sym_count (above high sz) table s
             + (if Suc i \<le> s \<and> s < Suc i + length ns \<and> ns ! (s - Suc i) < 0 then 1 else 0))"
      using Cons.IH [of high table "Suc i" ?nxt] Cons.prems l by simp
    then obtain table' nxt' where r: "place_low (Suc i) ns table high ?nxt = Inr (table', high - int (lows ns), nxt')"
      "length table' = length table" "length nxt' = 256"
      and n': "\<And>k. k < 256 \<Longrightarrow> nxt' ! k = (if Suc i \<le> k \<and> k < Suc i + length ns then of_nat (states_of (ns ! (k - Suc i))) else ?nxt ! k)"
      and c: "\<And>s. sym_count (above (high - int (lows ns)) sz) table' s = sym_count (above high sz) table s
             + (if Suc i \<le> s \<and> s < Suc i + length ns \<and> ns ! (s - Suc i) < 0 then 1 else 0)" by blast
    have "of_int n = (of_nat (states_of n) :: u16)" using True by (simp add: states_of_def)
    then have "\<forall>k < 256. nxt' ! k = (if i \<le> k \<and> k < i + length (n # ns) then of_nat (states_of ((n # ns) ! (k - i))) else nxt ! k)"
      using n' i Cons.prems(5) by (auto simp: nth_Cons' nth_list_update)
    moreover have "\<forall>s. sym_count (above (high - int (lows ns)) sz) table' s = sym_count (above high sz) table s
        + (if i \<le> s \<and> s < i + length (n # ns) \<and> (n # ns) ! (s - i) < 0 then 1 else 0)"
      using c True by (auto simp: nth_Cons')
    ultimately show ?thesis using True r i l by simp
  next
    case False
    then have l: "lows (n # ns) = Suc (lows ns)" by (simp add: lows_def)
    let ?nxt = "nxt[i := 1]" and ?table = "table[nat high := (table ! nat high)\<lparr>fsym := of_nat i\<rparr>]"
    have h: "0 \<le> high" "nat high < length table" using Cons.prems l by auto
    have put: "put_sym table high i = Inr ?table" using put_sym_ok [OF h(2), of i] h(1) by simp
    have "\<exists>table' nxt'. place_low (Suc i) ns ?table (high - 1) ?nxt = Inr (table', high - 1 - int (lows ns), nxt')
        \<and> length table' = length table \<and> length nxt' = 256
        \<and> (\<forall>k < 256. nxt' ! k = (if Suc i \<le> k \<and> k < Suc i + length ns then of_nat (states_of (ns ! (k - Suc i))) else ?nxt ! k))
        \<and> (\<forall>s. sym_count (above (high - 1 - int (lows ns)) sz) table' s = sym_count (above (high - 1) sz) ?table s
             + (if Suc i \<le> s \<and> s < Suc i + length ns \<and> ns ! (s - Suc i) < 0 then 1 else 0))"
      using Cons.IH [of "high - 1" ?table "Suc i" ?nxt] Cons.prems l by simp
    then obtain table' nxt' where r: "place_low (Suc i) ns ?table (high - 1) ?nxt = Inr (table', high - 1 - int (lows ns), nxt')"
      "length table' = length table" "length nxt' = 256"
      and n': "\<And>k. k < 256 \<Longrightarrow> nxt' ! k = (if Suc i \<le> k \<and> k < Suc i + length ns then of_nat (states_of (ns ! (k - Suc i))) else ?nxt ! k)"
      and c: "\<And>s. sym_count (above (high - 1 - int (lows ns)) sz) table' s = sym_count (above (high - 1) sz) ?table s
             + (if Suc i \<le> s \<and> s < Suc i + length ns \<and> ns ! (s - Suc i) < 0 then 1 else 0)" by blast
    have "sym_count (above (high - 1) sz) ?table s = sym_count (above high sz) table s + (if s = i then 1 else 0)" for s
      unfolding above_step [OF h(1) Cons.prems(2)]
      using h Cons.prems(3) i by (intro sym_count_put) (auto simp: above_def)
    then have "\<forall>s. sym_count (above (high - int (lows (n # ns))) sz) table' s = sym_count (above high sz) table s
        + (if i \<le> s \<and> s < i + length (n # ns) \<and> (n # ns) ! (s - i) < 0 then 1 else 0)"
      using c False l by (auto simp: nth_Cons' algebra_simps)
    moreover have "\<forall>k < 256. nxt' ! k = (if i \<le> k \<and> k < i + length (n # ns) then of_nat (states_of ((n # ns) ! (k - i))) else nxt ! k)"
      using n' i Cons.prems(5) False by (auto simp: nth_Cons' nth_list_update states_of_def)
    ultimately show ?thesis using False r i l put by (simp add: algebra_simps)
  qed
qed

section \<open>Spreading the other symbols\<close>

definition visited :: "nat \<Rightarrow> nat \<Rightarrow> int \<Rightarrow> nat \<Rightarrow> nat set" where
  "visited step sz high t = {x. \<exists>u < t. x = walk step sz u \<and> int x \<le> high}"

lemma visited_finite [simp]: "finite (visited step sz high t)"
  by (rule finite_subset [of _ "walk step sz ` {..<t}"]) (auto simp: visited_def)

lemma visited_0 [simp]: "visited step sz high 0 = {}"
  by (simp add: visited_def)

lemma walk_surj:
  assumes "coprime step sz" "0 < sz"
  shows "walk step sz ` {..<sz} = {..<sz}"
  using assms walk_inj [OF assms(1)] walk_less [OF assms(2)]
  by (intro endo_inj_surj) (auto simp: inj_on_def)

lemma visited_all:
  assumes "coprime step sz" "0 < sz" "high < int sz"
  shows "visited step sz high sz = {x. int x \<le> high}"
proof -
  have "\<exists>u < sz. x = walk step sz u" if "int x \<le> high" for x
    using walk_surj [OF assms(1,2)] that assms(3) by (metis (no_types, lifting) imageE le_less_trans lessThan_iff of_nat_less_iff)
  then show ?thesis by (auto simp: visited_def)
qed

lemma card_below: "0 \<le> high \<Longrightarrow> card {x. int x \<le> high} = nat (high + 1)"
proof -
  assume "0 \<le> high"
  then have "{x. int x \<le> high} = {..<nat (high + 1)}" by auto
  then show ?thesis by simp
qed

lemma visited_step:
  assumes "t < t'" "int (walk step sz t) \<le> high" "\<forall>v. Suc t \<le> v \<and> v < t' \<longrightarrow> high < int (walk step sz v)"
  shows "visited step sz high t' = insert (walk step sz t) (visited step sz high t)"
proof
  show "visited step sz high t' \<subseteq> insert (walk step sz t) (visited step sz high t)"
  proof
    fix x assume "x \<in> visited step sz high t'"
    then obtain u where u: "u < t'" "x = walk step sz u" "int x \<le> high" by (auto simp: visited_def)
    then have "u \<le> t" using assms(3) by (metis not_less_eq_eq linorder_not_less)
    with u show "x \<in> insert (walk step sz t) (visited step sz high t)"
      by (cases "u = t") (auto simp: visited_def dest: le_neq_implies_less)
  qed
  show "insert (walk step sz t) (visited step sz high t) \<subseteq> visited step sz high t'"
    using assms(1,2) by (auto simp: visited_def intro: less_trans)
qed

lemma walk_fresh:
  assumes "coprime step sz" "t < sz"
  shows "walk step sz t \<notin> visited step sz high t"
proof
  assume "walk step sz t \<in> visited step sz high t"
  then obtain u where "u < t" "walk step sz t = walk step sz u" by (auto simp: visited_def)
  with walk_inj [OF assms(1), of t u] assms(2) show False by simp
qed

text \<open>The time stays within one round as long as free entries are left.\<close>

definition on_walk :: "nat \<Rightarrow> nat \<Rightarrow> int \<Rightarrow> nat \<Rightarrow> bool" where
  "on_walk step sz high t \<longleftrightarrow> t \<le> sz \<and> int (walk step sz t) \<le> high"

lemma place_sym_spec:
  assumes c: "coprime step sz" "0 < sz" "0 \<le> high" "high < int sz" and i: "i < 256"
    and t: "on_walk step sz high t" "n + card (visited step sz high t) \<le> nat (high + 1)" and tab: "sz \<le> length table"
  shows "\<exists>table' t'. place_sym i n step sz high table (walk step sz t) = Inr (table', walk step sz t')
    \<and> length table' = length table \<and> on_walk step sz high t'
    \<and> card (visited step sz high t') = card (visited step sz high t) + n
    \<and> (\<forall>s. sym_count (above high sz \<union> visited step sz high t') table' s
         = sym_count (above high sz \<union> visited step sz high t) table s + (if s = i then n else 0))"
  using t tab
proof (induction n arbitrary: table t)
  case 0
  then show ?case by (intro exI [of _ table] exI [of _ t]) simp
next
  case (Suc n)
  let ?W = "walk step sz" and ?V = "visited step sz high"
  have "t \<noteq> sz" using Suc.prems(2) visited_all [OF c(1,2,4)] card_below [OF c(3)] by auto
  then have t: "t < sz" "int (?W t) \<le> high" using Suc.prems(1) by (simp_all add: on_walk_def)
  have x: "?W t < length table" using walk_less [OF c(2), of step t] Suc.prems(3) by simp
  let ?table = "table[?W t := (table ! ?W t)\<lparr>fsym := of_nat i\<rparr>]"
  obtain t1 where t1: "Suc t \<le> t1" "t1 \<le> sz" "skip_high sz step sz high (?W (Suc t)) = Inr (?W t1)" "int (?W t1) \<le> high"
    "\<forall>v. Suc t \<le> v \<and> v < t1 \<longrightarrow> high < int (?W v)"
    using skip_high_walk [of "Suc t" sz sz step sz high] t(1) c(3) by auto
  have V1: "?V t1 = insert (?W t) (?V t)" using visited_step [OF _ t(2) t1(5)] t1(1) by simp
  have fresh: "?W t \<notin> ?V t" by (rule walk_fresh [OF c(1) t(1)])
  have cnt1: "sym_count (above high sz \<union> ?V t1) ?table s = sym_count (above high sz \<union> ?V t) table s + (if s = i then 1 else 0)" for s
  proof -
    have "above high sz \<union> ?V t1 = insert (?W t) (above high sz \<union> ?V t)" by (auto simp: V1)
    moreover have "above high sz \<union> ?V t \<subseteq> {..<length table}"
      using Suc.prems(3) c(4) by (auto simp: above_def visited_def)
    ultimately show ?thesis using fresh t(2) x i
      by (simp only:) (rule sym_count_put, auto simp: above_def)
  qed
  have "on_walk step sz high t1" "n + card (?V t1) \<le> nat (high + 1)" "sz \<le> length ?table"
    using t1 Suc.prems fresh by (simp_all add: on_walk_def V1)
  from Suc.IH [OF this] obtain table' t' where r: "place_sym i n step sz high ?table (?W t1) = Inr (table', ?W t')"
    "length table' = length table" "on_walk step sz high t'" "card (?V t') = card (?V t1) + n"
    "\<forall>s. sym_count (above high sz \<union> ?V t') table' s = sym_count (above high sz \<union> ?V t1) ?table s + (if s = i then n else 0)"
    by auto
  have "place_sym i (Suc n) step sz high table (?W t) = Inr (table', ?W t')"
    using put_sym_ok [OF x, of i] t1(3) r(1) by (simp add: walk_Suc)
  with r fresh cnt1 show ?case by (intro exI [of _ table'] exI [of _ t']) (simp add: V1)
qed

lemma place_all_spec:
  assumes c: "coprime step sz" "0 < sz" "0 \<le> high" "high < int sz"
    and t: "on_walk step sz high t" "sum_list (map nat ns) + card (visited step sz high t) \<le> nat (high + 1)"
    and tab: "sz \<le> length table" and i: "i + length ns \<le> 256"
  shows "\<exists>table' t'. place_all i ns step sz high table (walk step sz t) = Inr (table', walk step sz t')
    \<and> length table' = length table \<and> on_walk step sz high t'
    \<and> card (visited step sz high t') = card (visited step sz high t) + sum_list (map nat ns)
    \<and> (\<forall>s. sym_count (above high sz \<union> visited step sz high t') table' s
         = sym_count (above high sz \<union> visited step sz high t) table s
           + (if i \<le> s \<and> s < i + length ns then nat (ns ! (s - i)) else 0))"
  using t tab i
proof (induction ns arbitrary: i table t)
  case Nil
  then show ?case by (intro exI [of _ table] exI [of _ t]) auto
next
  case (Cons n ns)
  let ?W = "walk step sz" and ?V = "visited step sz high"
  have "nat n + card (?V t) \<le> nat (high + 1)" "i < 256" using Cons.prems by simp_all
  from place_sym_spec [OF c this(2) Cons.prems(1) this(1) Cons.prems(3)]
  obtain table1 t1 where r1: "place_sym i (nat n) step sz high table (?W t) = Inr (table1, ?W t1)"
    "length table1 = length table" "on_walk step sz high t1" "card (?V t1) = card (?V t) + nat n"
    "\<And>s. sym_count (above high sz \<union> ?V t1) table1 s = sym_count (above high sz \<union> ?V t) table s + (if s = i then nat n else 0)"
    by blast
  from Cons.IH [of t1 table1 "Suc i"] Cons.prems r1
  obtain table' t' where r: "place_all (Suc i) ns step sz high table1 (?W t1) = Inr (table', ?W t')"
    "length table' = length table" "on_walk step sz high t'" "card (?V t') = card (?V t1) + sum_list (map nat ns)"
    and cnt: "\<And>s. sym_count (above high sz \<union> ?V t') table' s = sym_count (above high sz \<union> ?V t1) table1 s
      + (if Suc i \<le> s \<and> s < Suc i + length ns then nat (ns ! (s - Suc i)) else 0)"
    by auto
  have "\<forall>s. sym_count (above high sz \<union> ?V t') table' s = sym_count (above high sz \<union> ?V t) table s
      + (if i \<le> s \<and> s < i + length (n # ns) then nat ((n # ns) ! (s - i)) else 0)"
    using cnt r1(5) by (auto simp: nth_Cons')
  then show ?case using r r1 by (intro exI [of _ table'] exI [of _ t']) simp
qed

section \<open>Assigning the states\<close>

text \<open>The entry for state \<open>x\<close> of a symbol: \<open>x\<close> is shifted until it has \<open>T + 1\<close> bits.\<close>

definition fse_entry :: "nat \<Rightarrow> nat \<Rightarrow> fseEntry \<Rightarrow> bool" where
  "fse_entry T x e \<longleftrightarrow> unat (fbits e) = T + 1 - bitlen x \<and> unat (fbase e) = x * 2 ^ (T + 1 - bitlen x) - 2 ^ T"

lemma sym_count_Suc:
  "sym_count {..<Suc i} t s = sym_count {..<i} t s + (if unat (fsym (t ! i)) = s then 1 else 0)"
proof -
  have "{x \<in> {..<Suc i}. unat (fsym (t ! x)) = s} =
      (if unat (fsym (t ! i)) = s then insert i {x \<in> {..<i}. unat (fsym (t ! x)) = s} else {x \<in> {..<i}. unat (fsym (t ! x)) = s})"
    by (auto simp: less_Suc_eq)
  then show ?thesis by (simp add: sym_count_def)
qed

lemma sym_count_cong: "(\<And>x. x \<in> A \<Longrightarrow> fsym (t ! x) = fsym (t' ! x)) \<Longrightarrow> sym_count A t s = sym_count A t' s"
  unfolding sym_count_def by (rule arg_cong [of _ _ card]) auto

lemma sym_count_le: "sym_count {..<n} t s \<le> n"
proof -
  have "sym_count {..<n} t s \<le> card {..<n}" unfolding sym_count_def by (rule card_mono) auto
  then show ?thesis by simp
qed

lemma sym_count_before:
  assumes "i < n" "unat (fsym (t ! i)) = s"
  shows "sym_count {..<i} t s < sym_count {..<n} t s"
proof -
  have "sym_count {..<Suc i} t s \<le> sym_count {..<n} t s"
    unfolding sym_count_def using assms(1) by (intro card_mono) auto
  then show ?thesis using assms(2) by (simp add: sym_count_Suc)
qed

lemma shifted_state:
  assumes "0 < x" "x < 2 ^ (T + 1)"
  shows "bitlen x \<le> T + 1" "2 ^ T \<le> x * 2 ^ (T + 1 - bitlen x)" "(x + 1) * 2 ^ (T + 1 - bitlen x) \<le> 2 ^ (T + 1)"
proof -
  note b = bitlen_bounds [OF assms(1)]
  show l: "bitlen x \<le> T + 1" by (rule bitlen_less [OF assms(2)])
  have "(2::nat) ^ T = 2 ^ (bitlen x - 1) * 2 ^ (T + 1 - bitlen x)" using b l by (simp flip: power_add)
  also have "\<dots> \<le> x * 2 ^ (T + 1 - bitlen x)" using b by (intro mult_le_mono1) simp
  finally show "2 ^ T \<le> x * 2 ^ (T + 1 - bitlen x)" .
  have "(x + 1) * 2 ^ (T + 1 - bitlen x) \<le> 2 ^ bitlen x * 2 ^ (T + 1 - bitlen x)" using b by (intro mult_le_mono1) simp
  also have "\<dots> = 2 ^ (T + 1)" using l by (simp only: flip: power_add) simp
  finally show "(x + 1) * 2 ^ (T + 1 - bitlen x) \<le> 2 ^ (T + 1)" .
qed

lemma of_nat_neq_0: "0 < x \<Longrightarrow> x < 2 ^ 16 \<Longrightarrow> (of_nat x :: u16) \<noteq> 0"
  by (simp add: word_of_nat_eq_0_iff nat_dvd_not_less)

lemma state_entry:
  assumes x: "0 < x" "x < 2 ^ (T + 1)" and T: "T \<le> 14"
  shows "int T - (15 - int (leadingZeros 16 (unat (of_nat x :: u16)))) = int (T + 1 - bitlen x)"
    and "fse_entry T x (e\<lparr>fbits := of_nat (T + 1 - bitlen x),
           fbase := push_bit (T + 1 - bitlen x) (of_nat x) - of_nat (2 ^ T)\<rparr>)"
proof -
  let ?b = "T + 1 - bitlen x"
  have p: "(2::nat) ^ (T + 1) \<le> 2 ^ 15" using T by (intro power_increasing) simp_all
  have ux: "unat (of_nat x :: u16) = x" using x(2) p by (simp add: unat_of_nat)
  note s = shifted_state [OF x]
  have b16: "bitlen x \<le> 16" "0 < bitlen x" using s(1) T bitlen_bounds [OF x(1)] by simp_all
  then show "int T - (15 - int (leadingZeros 16 (unat (of_nat x :: u16)))) = int ?b"
    using s(1) by (simp add: ux leadingZeros_def)
  have xb: "x * 2 ^ ?b < 2 ^ 16" using s(3) p by (simp add: algebra_simps)
  have pb: "unat (push_bit ?b (of_nat x :: u16)) = x * 2 ^ ?b"
    using xb unfolding unsigned_push_bit_eq push_bit_eq_mult [where ?'a = nat] take_bit_eq_mod [of "LENGTH(16)", where ?'a = nat] ux
    by simp
  have pt: "unat (of_nat (2 ^ T) :: u16) = 2 ^ T"
    using p by (simp only: unat_of_nat) simp
  have "unat (push_bit ?b (of_nat x :: u16) - of_nat (2 ^ T)) = x * 2 ^ ?b - 2 ^ T"
    using s(2) pb pt by (simp add: unat_sub word_le_nat_alt)
  moreover have "unat (of_nat ?b :: u8) = ?b" using T by (simp add: unat_of_nat)
  ultimately show "fse_entry T x (e\<lparr>fbits := of_nat ?b, fbase := push_bit ?b (of_nat x) - of_nat (2 ^ T)\<rparr>)"
    by (simp add: fse_entry_def)
qed

lemma assign_states_spec:
  assumes T: "T \<le> 14" and ik: "i + k = 2 ^ T" "2 ^ T \<le> length table" "length nxt = 256"
    and nxt: "\<And>s. s < 256 \<Longrightarrow> nxt ! s = of_nat (c s + sym_count {..<i} table s)"
    and cnt: "\<And>s. sym_count {..<2 ^ T} table s = c s"
  shows "\<exists>table'. assign_states bo off T i k table nxt = Inr table' \<and> length table' = length table
    \<and> (\<forall>j < length table. fsym (table' ! j) = fsym (table ! j)) \<and> (\<forall>j < i. table' ! j = table ! j)
    \<and> (\<forall>j. i \<le> j \<and> j < 2 ^ T \<longrightarrow>
        fse_entry T (c (unat (fsym (table ! j))) + sym_count {..<j} table (unat (fsym (table ! j)))) (table' ! j))"
  using ik nxt cnt
proof (induction k arbitrary: i table nxt)
  case 0
  then show ?case by auto
next
  case (Suc k)
  define e where "e = table ! i"
  define s where "s = unat (fsym e)"
  define x where "x = c s + sym_count {..<i} table s"
  define e' where "e' = e\<lparr>fbits := of_nat (T + 1 - bitlen x), fbase := push_bit (T + 1 - bitlen x) (of_nat x) - of_nat (2 ^ T)\<rparr>"
  define t where "t = table[i := e']"
  define n where "n = nxt[s := of_nat x + 1]"
  have i: "i < 2 ^ T" "i < length table" using Suc.prems(1,2) by simp_all
  have s: "s < 256" unfolding s_def by (rule unat_byte_less)
  have k: "sym_count {..<i} table s < c s" using sym_count_before [OF i(1), of table s] Suc.prems(5) by (simp add: s_def e_def)
  have c: "c s \<le> 2 ^ T" using sym_count_le [of "2 ^ T" table s] Suc.prems(5) by simp
  have x: "0 < x" "x < 2 ^ (T + 1)" using k c by (simp_all add: x_def)
  have p: "(2::nat) ^ (T + 1) \<le> 2 ^ 15" using T by (intro power_increasing) simp_all
  have nz: "(of_nat x :: u16) \<noteq> 0" using x p by (intro of_nat_neq_0) simp_all
  have nx: "nxt ! s = of_nat x" using Suc.prems(4) [OF s] by (simp add: x_def)
  have sy: "fsym (t ! j) = fsym (table ! j)" if "j < length table" for j
    using that by (cases "j = i") (simp_all add: t_def e'_def e_def)
  have lt: "length t = length table" "length n = 256" using Suc.prems(3) by (simp_all add: t_def n_def)
  have cs: "sym_count {..<m} t s' = sym_count {..<m} table s'" if "m \<le> length table" for m s'
    using that by (intro sym_count_cong sy) simp
  have step: "assign_states bo off T i (Suc k) table nxt = assign_states bo off T (Suc i) k t n"
    using i(2) Suc.prems(3) s nx nz state_entry(1) [OF x T]
    by (simp add: Let_def flip: e_def s_def) (simp add: t_def n_def e'_def)
  have ns: "n ! s' = of_nat (c s' + sym_count {..<Suc i} t s')" if "s' < 256" for s'
  proof (cases "s' = s")
    case True
    have "c s + sym_count {..<Suc i} table s = x + 1" by (simp add: x_def sym_count_Suc s_def e_def)
    with True show ?thesis using s Suc.prems(3) i(2) cs [of "Suc i" s] by (simp add: n_def del: of_nat_add)
  next
    case False
    then have "sym_count {..<Suc i} table s' = sym_count {..<i} table s'" by (simp add: sym_count_Suc s_def e_def)
    with False show ?thesis using that Suc.prems(4) i(2) cs [of "Suc i" s'] by (simp add: n_def)
  qed
  have "\<exists>table'. assign_states bo off T (Suc i) k t n = Inr table' \<and> length table' = length t
    \<and> (\<forall>j < length t. fsym (table' ! j) = fsym (t ! j)) \<and> (\<forall>j < Suc i. table' ! j = t ! j)
    \<and> (\<forall>j. Suc i \<le> j \<and> j < 2 ^ T \<longrightarrow>
        fse_entry T (c (unat (fsym (t ! j))) + sym_count {..<j} t (unat (fsym (t ! j)))) (table' ! j))"
    using Suc.prems(1,2,5) lt ns cs by (intro Suc.IH) simp_all
  then obtain table' where r: "assign_states bo off T (Suc i) k t n = Inr table'" "length table' = length table"
    "\<And>j. j < length table \<Longrightarrow> fsym (table' ! j) = fsym (t ! j)" "\<And>j. j < Suc i \<Longrightarrow> table' ! j = t ! j"
    and en: "\<And>j. Suc i \<le> j \<Longrightarrow> j < 2 ^ T \<Longrightarrow>
        fse_entry T (c (unat (fsym (t ! j))) + sym_count {..<j} t (unat (fsym (t ! j)))) (table' ! j)"
    by (auto simp: lt)
  have "fse_entry T (c (unat (fsym (table ! j))) + sym_count {..<j} table (unat (fsym (table ! j)))) (table' ! j)"
    if "i \<le> j" "j < 2 ^ T" for j
  proof (cases "j = i")
    case True
    then have "table' ! j = e'" using r(4) [of i] i(2) by (simp add: t_def)
    moreover have "fse_entry T x e'" unfolding e'_def by (rule state_entry(2) [OF x T])
    ultimately show ?thesis using True by (simp add: x_def s_def e_def)
  next
    case False
    with that have "Suc i \<le> j" "j < length table" using Suc.prems(2) by simp_all
    with en [of j] that(2) show ?thesis by (simp add: sy cs)
  qed
  moreover have "table' ! j = table ! j" if "j < i" for j using r(4) [of j] that by (simp add: t_def)
  ultimately show ?case using step r(1-3) sy by (intro exI [of _ table']) simp
qed

section \<open>The table\<close>

definition fse_table :: "nat \<Rightarrow> (nat \<Rightarrow> nat) \<Rightarrow> fseEntry list \<Rightarrow> bool" where
  "fse_table T c tab \<longleftrightarrow> 2 ^ T \<le> length tab \<and> (\<forall>s. sym_count {..<2 ^ T} tab s = c s)
     \<and> (\<forall>i < 2 ^ T. fse_entry T (c (unat (fsym (tab ! i))) + sym_count {..<i} tab (unat (fsym (tab ! i)))) (tab ! i))"

definition norm_ok :: "nat \<Rightarrow> int list \<Rightarrow> bool" where
  "norm_ok T ns \<longleftrightarrow> 5 \<le> T \<and> T \<le> 14 \<and> length ns \<le> 256 \<and> sum_list (map states_of ns) = 2 ^ T"

definition counts :: "int list \<Rightarrow> nat \<Rightarrow> nat" where
  "counts ns s = (if s < length ns then states_of (ns ! s) else 0)"

lemma states_split: "sum_list (map states_of ns) = lows ns + sum_list (map nat ns)"
  by (induction ns) (auto simp: states_of_def lows_def)

lemma place_all_zero: "sum_list (map nat ns) = 0 \<Longrightarrow> place_all i ns step sz high table pos = Inr (table, pos)"
  by (induction ns arbitrary: i) auto

lemma spread:
  assumes n: "norm_ok T ns" and tab: "2 ^ T \<le> length table" and high: "high = int (2 ^ T) - 1 - int (lows ns)"
  shows "\<exists>table'. place_all 0 ns (fse_step (2 ^ T)) (2 ^ T) high table 0 = Inr (table', 0) \<and> length table' = length table
    \<and> (\<forall>s. sym_count {..<2 ^ T} table' s = sym_count (above high (2 ^ T)) table s + (if s < length ns then nat (ns ! s) else 0))"
proof -
  have sum: "lows ns + sum_list (map nat ns) = 2 ^ T" and T: "5 \<le> T" and len: "length ns \<le> 256"
    using n states_split [of ns] by (simp_all add: norm_ok_def)
  show ?thesis
  proof (cases "0 \<le> high")
    case False
    then have "2 ^ T \<le> lows ns" using high by (simp flip: of_nat_power)
    then have z: "sum_list (map nat ns) = 0" using sum by linarith
    then have "nat (ns ! s) = 0" if "s < length ns" for s using that by (simp add: sum_list_eq_0_iff)
    moreover have "above high (2 ^ T) = {..<2 ^ T}" using False by (auto simp: above_def)
    ultimately show ?thesis using place_all_zero [OF z] by auto
  next
    case True
    let ?sz = "2 ^ T :: nat" and ?st = "fse_step (2 ^ T)"
    note c = fse_step_coprime [OF T]
    have h: "high < int ?sz" using high by simp
    have tot: "nat (high + 1) = sum_list (map nat ns)" using sum high by (simp flip: of_nat_power)
    have w: "on_walk ?st ?sz high 0" using True by (simp add: on_walk_def)
    obtain table' t where r: "place_all 0 ns ?st ?sz high table 0 = Inr (table', walk ?st ?sz t)" "length table' = length table"
      "on_walk ?st ?sz high t" "card (visited ?st ?sz high t) = sum_list (map nat ns)"
      and cnt: "\<And>s. sym_count (above high ?sz \<union> visited ?st ?sz high t) table' s
        = sym_count (above high ?sz) table s + (if s < length ns then nat (ns ! s) else 0)"
      using place_all_spec [OF c _ True h w _ tab, of ns 0] tot len by auto
    have "t = ?sz"
    proof (rule ccontr)
      assume "t \<noteq> ?sz"
      then have t: "t < ?sz" "int (walk ?st ?sz t) \<le> high" using r(3) by (simp_all add: on_walk_def)
      have "insert (walk ?st ?sz t) (visited ?st ?sz high t) \<subseteq> {x. int x \<le> high}" using t(2) by (auto simp: visited_def)
      moreover have "finite {x. int x \<le> high}" using visited_all [OF c _ h] visited_finite by (metis zero_less_numeral zero_less_power)
      ultimately have "card (insert (walk ?st ?sz t) (visited ?st ?sz high t)) \<le> nat (high + 1)"
        using card_mono card_below [OF True] by metis
      with walk_fresh [OF c t(1)] r(4) tot show False by simp
    qed
    moreover have "above high ?sz \<union> visited ?st ?sz high ?sz = {..<?sz}"
    proof -
      have "x < ?sz" if "int x \<le> high" for x using le_less_trans [OF that h] by (simp only: of_nat_less_iff)
      then show ?thesis using visited_all [OF c _ h] by (auto simp: above_def)
    qed
    ultimately show ?thesis using r(1,2) cnt by auto
  qed
qed

lemma buildFSE_table:
  assumes n: "norm_ok T ns" and tab: "2 ^ T \<le> length table"
  shows "\<exists>table'. buildFSE bo off ns table T = Inr table' \<and> length table' = length table \<and> fse_table T (counts ns) table'"
proof -
  let ?sz = "2 ^ T :: nat" and ?high = "int (2 ^ T) - 1 - int (lows ns)"
  have len: "length ns \<le> 256" and T: "T \<le> 14" and l: "lows ns \<le> ?sz"
    using n states_split [of ns] by (simp_all add: norm_ok_def)
  from l have "int (lows ns) \<le> int ?sz" by (rule of_nat_mono)
  then obtain table1 nxt where r1: "place_low 0 ns table (int ?sz - 1) (replicate 256 0) = Inr (table1, ?high, nxt)"
    "length table1 = length table" "length nxt = 256"
    and nx: "\<And>k. k < 256 \<Longrightarrow> nxt ! k = (if k < length ns then of_nat (states_of (ns ! k)) else 0)"
    and c1: "\<And>s. sym_count (above ?high ?sz) table1 s = sym_count (above (int ?sz - 1) ?sz) table s + (if s < length ns \<and> ns ! s < 0 then 1 else 0)"
    using place_low_spec [of ns "int ?sz - 1" ?sz table 0 "replicate 256 0"] len tab by auto
  obtain table2 where r2: "place_all 0 ns (fse_step ?sz) ?sz ?high table1 0 = Inr (table2, 0)" "length table2 = length table1"
    and c2: "\<And>s. sym_count {..<?sz} table2 s = sym_count (above ?high ?sz) table1 s + (if s < length ns then nat (ns ! s) else 0)"
    using spread [OF n, of table1 ?high] tab r1(2) by auto
  have "above (int ?sz - 1) ?sz = {}" unfolding above_def by (auto simp del: of_nat_power)
  then have c: "sym_count {..<?sz} table2 s = counts ns s" for s
    by (simp only: c2 c1) (auto simp: counts_def states_of_def sym_count_def [of "{}"])
  have "\<exists>table'. assign_states bo off T 0 ?sz table2 nxt = Inr table' \<and> length table' = length table2
    \<and> (\<forall>j < length table2. fsym (table' ! j) = fsym (table2 ! j)) \<and> (\<forall>j < 0. table' ! j = table2 ! j)
    \<and> (\<forall>j. 0 \<le> j \<and> j < 2 ^ T \<longrightarrow>
        fse_entry T (counts ns (unat (fsym (table2 ! j))) + sym_count {..<j} table2 (unat (fsym (table2 ! j)))) (table' ! j))"
    using tab r1(2,3) r2(2) by (intro assign_states_spec [OF T]) (simp_all only: lessThan_0 nx c counts_def, simp_all add: sym_count_def)
  then obtain table' where r3: "assign_states bo off T 0 ?sz table2 nxt = Inr table'" "length table' = length table2"
    and sy: "\<And>j. j < length table2 \<Longrightarrow> fsym (table' ! j) = fsym (table2 ! j)"
    and en: "\<And>j. j < 2 ^ T \<Longrightarrow>
        fse_entry T (counts ns (unat (fsym (table2 ! j))) + sym_count {..<j} table2 (unat (fsym (table2 ! j)))) (table' ! j)" by auto
  have cong: "sym_count {..<m} table' s = sym_count {..<m} table2 s" if "m \<le> ?sz" for m s
    using that tab r1(2) r2(2) by (intro sym_count_cong sy) simp
  have "fse_table T (counts ns) table'"
    using tab r1(2) r2(2) r3(2) en by (simp add: fse_table_def cong c sy)
  then show ?thesis using r1 r2 r3 by (simp add: buildFSE_def Let_def)
qed


section \<open>The entries of a symbol split the states\<close>

definition covers :: "fseEntry \<Rightarrow> nat \<Rightarrow> bool" where
  "covers e y \<longleftrightarrow> unat (fbase e) \<le> y \<and> y < unat (fbase e) + 2 ^ unat (fbits e)"

lemma fse_entry_covers:
  assumes "fse_entry T x e" "0 < x" "x < 2 ^ (T + 1)" "y < 2 ^ T"
  shows "covers e y \<longleftrightarrow> (y + 2 ^ T) div 2 ^ (T + 1 - bitlen x) = x"
proof -
  let ?b = "T + 1 - bitlen x"
  have "covers e y \<longleftrightarrow> x * 2 ^ ?b \<le> y + 2 ^ T \<and> y + 2 ^ T < (x + 1) * 2 ^ ?b"
    using shifted_state(2) [OF assms(2,3)] assms(1) by (simp add: covers_def fse_entry_def) linarith
  also have "\<dots> \<longleftrightarrow> (y + 2 ^ T) div 2 ^ ?b = x"
    using div_less_iff_less_mult [of "2 ^ ?b" "y + 2 ^ T" "x + 1"] less_eq_div_iff_mult_less_eq [of "2 ^ ?b" x "y + 2 ^ T"]
    by auto
  finally show ?thesis .
qed

lemma bitlen_shift:
  assumes "2 ^ T \<le> z" "z < 2 ^ (T + 1)" "0 < z div 2 ^ k"
  shows "T + 1 - bitlen (z div 2 ^ k) = k"
proof -
  have kT: "k \<le> T"
  proof (rule ccontr)
    assume "\<not> k \<le> T"
    then have "(2::nat) ^ (T + 1) \<le> 2 ^ k" by (intro power_increasing) simp_all
    with assms(2,3) show False by simp
  qed
  have "z div 2 ^ k < 2 ^ (T + 1 - k)" using assms(2) kT by (simp add: less_mult_imp_div_less flip: power_add)
  then have u: "bitlen (z div 2 ^ k) \<le> T + 1 - k" by (rule bitlen_less)
  have "2 ^ (T - k) \<le> z div 2 ^ k" using assms(1) kT by (simp add: less_eq_div_iff_mult_less_eq flip: power_add)
  also have "\<dots> < 2 ^ bitlen (z div 2 ^ k)" using bitlen_bounds [OF assms(3)] by simp
  finally have "T - k < bitlen (z div 2 ^ k)" by simp
  with u kT show ?thesis by simp
qed

text \<open>Among the states \<open>c\<close> to \<open>2 c - 1\<close> of a symbol exactly one is a prefix of a given number.\<close>

lemma prefix_state:
  assumes "0 < c" "c \<le> 2 ^ T" "2 ^ T \<le> z" "z < 2 ^ (T + 1)"
  shows "\<exists>!x. c \<le> x \<and> x < 2 * c \<and> z div 2 ^ (T + 1 - bitlen x) = x"
proof (rule ex_ex1I)
  define k where "k = Max {k. c \<le> z div 2 ^ k}"
  have "k' \<le> T" if "c \<le> z div 2 ^ k'" for k'
    using bitlen_shift [OF assms(3,4), of k'] that assms(1) bitlen_bounds [of "z div 2 ^ k'"] by linarith
  then have "{k. c \<le> z div 2 ^ k} \<subseteq> {..T}" by auto
  then have f: "finite {k. c \<le> z div 2 ^ k}" by (rule finite_subset) simp
  have "0 \<in> {k. c \<le> z div 2 ^ k}" using assms(2,3) by simp
  then have "k \<in> {k. c \<le> z div 2 ^ k}" unfolding k_def using f Max_in by blast
  then have k: "c \<le> z div 2 ^ k" by simp
  have "\<not> c \<le> z div 2 ^ Suc k" using Max_ge [OF f, of "Suc k"] by (auto simp: k_def [symmetric])
  moreover have "z div 2 ^ Suc k = z div 2 ^ k div 2" by (simp add: mult.commute [of 2] div_mult2_eq)
  ultimately have "z div 2 ^ k < 2 * c" by linarith
  with k bitlen_shift [OF assms(3,4), of k] assms(1)
  show "\<exists>x. c \<le> x \<and> x < 2 * c \<and> z div 2 ^ (T + 1 - bitlen x) = x" by (intro exI [of _ "z div 2 ^ k"]) simp
next
  have *: False if "k < k'" "c \<le> z div 2 ^ k'" "z div 2 ^ k < 2 * c" for k k'
  proof -
    obtain d where d: "k' = k + Suc d" using \<open>k < k'\<close> less_imp_Suc_add by fastforce
    have "z div 2 ^ k' = z div 2 ^ k div 2 ^ Suc d" unfolding d power_add by (rule div_mult2_eq)
    also have "\<dots> = z div 2 ^ k div 2 div 2 ^ d" unfolding power_Suc by (rule div_mult2_eq)
    also have "\<dots> \<le> z div 2 ^ k div 2" by simp
    finally show False using that(2,3) by linarith
  qed
  fix x y
  assume "c \<le> x \<and> x < 2 * c \<and> z div 2 ^ (T + 1 - bitlen x) = x" "c \<le> y \<and> y < 2 * c \<and> z div 2 ^ (T + 1 - bitlen y) = y"
  then show "x = y" using * [of "T + 1 - bitlen x" "T + 1 - bitlen y"] * [of "T + 1 - bitlen y" "T + 1 - bitlen x"]
    by (metis nat_neq_iff)
qed

text \<open>The entry of a symbol with a given number of entries of that symbol before it.\<close>

lemma nth_occurrence:
  assumes "m < sym_count {..<n} t s"
  shows "\<exists>!i. i < n \<and> unat (fsym (t ! i)) = s \<and> sym_count {..<i} t s = m"
proof (rule ex_ex1I)
  show "\<exists>i. i < n \<and> unat (fsym (t ! i)) = s \<and> sym_count {..<i} t s = m" using assms
  proof (induction n)
    case 0
    then show ?case by (simp add: sym_count_def)
  next
    case (Suc n)
    show ?case
    proof (cases "m < sym_count {..<n} t s")
      case True
      with Suc.IH show ?thesis by (auto intro: less_SucI)
    next
      case False
      with Suc.prems have "unat (fsym (t ! n)) = s" "sym_count {..<n} t s = m" by (auto simp: sym_count_Suc split: if_splits)
      then show ?thesis by blast
    qed
  qed
next
  fix i j
  assume "i < n \<and> unat (fsym (t ! i)) = s \<and> sym_count {..<i} t s = m"
    "j < n \<and> unat (fsym (t ! j)) = s \<and> sym_count {..<j} t s = m"
  then show "i = j" using sym_count_before [of i j t s] sym_count_before [of j i t s] by (cases i j rule: linorder_cases) auto
qed

lemma fse_table_state:
  assumes "fse_table T c tab" "i < 2 ^ T" "unat (fsym (tab ! i)) = s"
  shows "fse_entry T (c s + sym_count {..<i} tab s) (tab ! i)" "sym_count {..<i} tab s < c s" "c s \<le> 2 ^ T"
  using assms sym_count_before [of i "2 ^ T" tab s] sym_count_le [of "2 ^ T" tab s] by (auto simp: fse_table_def)

lemma fse_table_bound:
  assumes "fse_table T c tab" "i < 2 ^ T"
  shows "unat (fbase (tab ! i)) + 2 ^ unat (fbits (tab ! i)) \<le> 2 ^ T \<and> unat (fbits (tab ! i)) \<le> T"
proof -
  define s where "s = unat (fsym (tab ! i))"
  define x where "x = c s + sym_count {..<i} tab s"
  note f = fse_table_state [OF assms s_def [symmetric]]
  have x: "0 < x" "x < 2 ^ (T + 1)" using f(2,3) by (simp_all add: x_def)
  have "0 < bitlen x" using bitlen_bounds [OF x(1)] by simp
  with shifted_state [OF x] f(1) show ?thesis by (auto simp: fse_entry_def x_def [symmetric] algebra_simps)
qed

lemma fse_table_covers:
  assumes t: "fse_table T c tab" and s: "0 < c s" and y: "y < 2 ^ T"
  shows "\<exists>!i. i < 2 ^ T \<and> unat (fsym (tab ! i)) = s \<and> covers (tab ! i) y"
proof -
  have cnt: "sym_count {..<2 ^ T} tab s = c s" using t by (simp add: fse_table_def)
  have cT: "c s \<le> 2 ^ T" using sym_count_le [of "2 ^ T" tab s] cnt by simp
  let ?P = "\<lambda>x. c s \<le> x \<and> x < 2 * c s \<and> (y + 2 ^ T) div 2 ^ (T + 1 - bitlen x) = x"
  from prefix_state [OF s cT, of "y + 2 ^ T"] y obtain x where x: "?P x" and xu: "\<And>x'. ?P x' \<Longrightarrow> x' = x" by auto
  have iff: "covers (tab ! i) y \<longleftrightarrow> sym_count {..<i} tab s = x - c s" if i: "i < 2 ^ T" "unat (fsym (tab ! i)) = s" for i
  proof -
    let ?x = "c s + sym_count {..<i} tab s"
    note f = fse_table_state [OF t i]
    have "covers (tab ! i) y \<longleftrightarrow> (y + 2 ^ T) div 2 ^ (T + 1 - bitlen ?x) = ?x"
      using f s by (intro fse_entry_covers [OF f(1) _ _ y]) simp_all
    also have "\<dots> \<longleftrightarrow> ?x = x" using x xu [of ?x] f(2) by auto
    finally show ?thesis using x by auto
  qed
  have "x - c s < sym_count {..<2 ^ T} tab s" using x cnt by auto
  from nth_occurrence [OF this] iff show ?thesis by (metis (no_types, lifting))
qed

text \<open>
  The decoding table is a correct FSE table. For normalised counts that add up to the table size (a count of
  -1 taking one entry), building succeeds, each symbol gets as many entries as it has states, an entry never
  leads out of the table, and for every symbol of positive count and every target state exactly one entry of
  that symbol reaches the target: the encoder's step is the inverse of the decoder's.
\<close>

theorem buildFSE_correct:
  assumes "norm_ok T ns" "2 ^ T \<le> length table"
  shows "\<exists>tab. buildFSE bo off ns table T = Inr tab \<and> length tab = length table
    \<and> (\<forall>s. sym_count {..<2 ^ T} tab s = counts ns s)
    \<and> (\<forall>i < 2 ^ T. unat (fbase (tab ! i)) + 2 ^ unat (fbits (tab ! i)) \<le> 2 ^ T)
    \<and> (\<forall>s y. 0 < counts ns s \<and> y < 2 ^ T \<longrightarrow> (\<exists>!i. i < 2 ^ T \<and> unat (fsym (tab ! i)) = s \<and> covers (tab ! i) y))"
proof -
  from buildFSE_table [OF assms] obtain tab where t: "buildFSE bo off ns table T = Inr tab" "length tab = length table"
    "fse_table T (counts ns) tab" by blast
  have "\<forall>s. sym_count {..<2 ^ T} tab s = counts ns s" using t(3) by (simp add: fse_table_def)
  with t fse_table_bound [OF t(3)] fse_table_covers [OF t(3)] show ?thesis by blast
qed

theorem buildFSE_correct_witness:
  "\<exists>tab. buildFSE 0 0 offsetNorm (replicate 32 fse0) 5 = Inr tab \<and> length tab = length (replicate 32 fse0)
    \<and> (\<forall>s. sym_count {..<2 ^ 5} tab s = counts offsetNorm s)
    \<and> (\<forall>i < 2 ^ 5. unat (fbase (tab ! i)) + 2 ^ unat (fbits (tab ! i)) \<le> 2 ^ 5)
    \<and> (\<forall>s y. 0 < counts offsetNorm s \<and> y < 2 ^ 5 \<longrightarrow> (\<exists>!i. i < 2 ^ 5 \<and> unat (fsym (tab ! i)) = s \<and> covers (tab ! i) y))"
proof -
  have n: "norm_ok 5 offsetNorm" by (simp add: norm_ok_def offsetNorm_def states_of_def)
  have l: "2 ^ 5 \<le> length (replicate 32 fse0)" by simp
  show ?thesis by (rule buildFSE_correct [OF n l])
qed

end
