(* ===== verification/ZstdFseRead.thy ===== *)
theory ZstdFseRead
  imports ZstdFseTable
begin

text \<open>
  Reading FSE tables is safe: on any input \<open>readFSE\<close> (\<open>src/pkg/lib/zstd/fse.go\<close>) returns an error of its own
  or a correct decoding table, and none of its loops runs forever. The argument is an invariant of the loop that
  reads the counts: the states still to be given away and the counts read so far add up to the table size.
\<close>

section \<open>The repeat flags\<close>

lemma br_pos_room: "br_ok br \<Longrightarrow> 16 \<le> unat (bcnt br) \<Longrightarrow> br_pos br + 16 \<le> 8 * length (bdata br)"
  by (auto simp: br_ok_def br_pos_def)

lemma moreBits_ensures:
  "br_ok br \<Longrightarrow> ensures (moreBits bo br) (\<lambda>br'. br_ok br' \<and> 16 \<le> unat (bcnt br') \<and> bdata br' = bdata br \<and> br_pos br' = br_pos br)"
  unfolding ensures_def using moreBits_spec [of br bo] by blast

lemma zero_run_spec:
  assumes "br_ok br" "16 \<le> unat (bcnt br)" "0 < n" "n \<le> 16" "8 * length (bdata br) \<le> br_pos br + fuel"
  shows "ensures (zero_run fuel bo n k z br) (\<lambda>(z', br'). br_ok br' \<and> 16 \<le> unat (bcnt br') \<and> bdata br' = bdata br \<and> z \<le> z')"
  using assms
proof (induction fuel arbitrary: z br)
  case 0
  then show ?case using br_pos_room [of br] by simp
next
  case (Suc fuel)
  show ?case
  proof (cases "bbits br AND (2 ^ n - 1) = 2 ^ n - 1")
    case False
    with Suc.prems show ?thesis by simp
  next
    case True
    define br1 where "br1 = br\<lparr>bbits := drop_bit n (bbits br), bcnt := bcnt br - of_nat n\<rparr>"
    have "unat (of_nat n :: u32) = n" using Suc.prems(4) by (simp add: unat_of_nat)
    from drop_bits_spec [OF Suc.prems(1) _ this br1_def] Suc.prems(2,4)
    have d: "br_ok br1" "br_pos br1 = br_pos br + n" "bdata br1 = bdata br" by auto
    have "zero_run (Suc fuel) bo n k z br = rbind (moreBits bo br1) (\<lambda>br'. zero_run fuel bo n k (z + k) br')"
      using True by (simp add: br1_def)
    moreover have "ensures (zero_run fuel bo n k (z + k) br2)
        (\<lambda>(z', br'). br_ok br' \<and> 16 \<le> unat (bcnt br') \<and> bdata br' = bdata br \<and> z \<le> z')"
      if b: "br_ok br2 \<and> 16 \<le> unat (bcnt br2) \<and> bdata br2 = bdata br1 \<and> br_pos br2 = br_pos br1" for br2
      using Suc.prems(3-5) b d by (intro ensures_mono [OF Suc.IH [of br2 "z + k"]]) auto
    ultimately show ?thesis by (simp only:) (rule ensures_rbind [OF moreBits_ensures [OF d(1)]])
  qed
qed

section \<open>The threshold\<close>

lemma lower_threshold_spec:
  assumes "1 \<le> r" "r < 2 * 2 ^ k"
  shows "\<exists>k' \<le> k. lower_threshold r (2 ^ k) (int k + 1) = Inr (2 ^ k', int k' + 1) \<and> 2 ^ k' \<le> r \<and> r < 2 * 2 ^ k'"
  using assms
proof (induction k)
  case 0
  then show ?case by (simp add: lower_threshold.simps [of r 1])
next
  case (Suc k)
  show ?case
  proof (cases "r < 2 ^ Suc k")
    case False
    with Suc.prems show ?thesis by (intro exI [of _ "Suc k"]) (simp add: lower_threshold.simps [of r "2 * 2 ^ k"])
  next
    case True
    have "lower_threshold r (2 ^ Suc k) (int (Suc k) + 1) = lower_threshold r (2 ^ k) (int k + 1)"
      using True by (subst lower_threshold.simps) (simp add: add.commute)
    with Suc.IH Suc.prems(1) True show ?thesis by (auto intro: le_SucI)
  qed
qed

section \<open>The loop invariant\<close>

definition total_states :: "int list \<Rightarrow> nat" where
  "total_states ns = sum_list (map states_of ns)"

lemma total_states_update:
  "i < length ns \<Longrightarrow> ns ! i = 0 \<Longrightarrow> total_states (ns[i := n]) = total_states ns + states_of n"
proof (induction ns arbitrary: i)
  case (Cons a ns)
  then show ?case by (cases i) (simp_all add: total_states_def states_of_def)
qed simp

definition fse_inv :: "nat \<Rightarrow> nat \<Rightarrow> bytes \<Rightarrow> fse_state \<Rightarrow> bool" where
  "fse_inv a maxSym data st \<longleftrightarrow> br_ok (fbr st) \<and> bdata (fbr st) = data \<and> nsym st \<le> maxSym + 1
     \<and> length (norm st) = 256 \<and> (\<forall>s. nsym st \<le> s \<and> s < 256 \<longrightarrow> norm st ! s = 0)
     \<and> (\<exists>k \<le> a. threshold st = 2 ^ k \<and> bitsNeeded st = int k + 1 \<and> 2 ^ k \<le> remaining st \<and> remaining st < 2 * 2 ^ k)
     \<and> remaining st - 1 + int (total_states (norm st)) = 2 ^ a"

lemma clear_zeros:
  assumes "length ns = 256" "\<forall>s. i \<le> s \<and> s < 256 \<longrightarrow> ns ! s = 0" "j \<le> 256"
  shows "foldl (\<lambda>nm s. nm[s mod 256 := 0]) ns [i..<j] = (ns :: int list)"
  using assms(3)
proof (induction j)
  case (Suc j)
  show ?case
  proof (cases "i \<le> j")
    case True
    with Suc have "ns ! j = 0" "j < 256" using assms(2) by auto
    then have "ns[j := 0] = ns" by (metis list_update_id)
    with Suc True show ?thesis by simp
  qed simp
qed simp

lemma read_zeros_spec:
  assumes inv: "fse_inv a maxSym data st" and c: "16 \<le> unat (bcnt (fbr st))" and m: "maxSym \<le> 255"
  shows "ensures (read_zeros bo maxSym st) (fse_inv a maxSym data)"
proof -
  have ok: "br_ok (fbr st)" and d: "bdata (fbr st) = data" using inv by (simp_all add: fse_inv_def)
  have fin: "ensures (let (v, br3) = bval br2 2; zsym = z2 + unat v
         in if maxSym < zsym then makeError bo (uint (boff br3)) ''FSE symbol index overflow''
            else Inr (st\<lparr>norm := foldl (\<lambda>nm s. nm[s mod 256 := 0]) (norm st) [nsym st..<zsym],
                         nsym := max (nsym st) zsym, prev0 := False, fbr := br3\<rparr>)) (fse_inv a maxSym data)"
    if b: "br_ok br2" "16 \<le> unat (bcnt br2)" "bdata br2 = data" "nsym st \<le> z2" for z2 br2
  proof -
    obtain v br3 where v: "bval br2 2 = (v, br3)" by fastforce
    from bval_spec [OF b(1) _ v] b(2,3) have r: "br_ok br3" "bdata br3 = data" by auto
    have "foldl (\<lambda>nm s. nm[s mod 256 := 0]) (norm st) [nsym st..<z2 + unat v] = norm st" if "z2 + unat v \<le> maxSym"
      using inv that m by (intro clear_zeros) (simp_all add: fse_inv_def)
    with inv r b(4) show ?thesis by (simp add: v Let_def fse_inv_def)
  qed
  show ?thesis unfolding read_zeros_def Let_def d
  proof (rule ensures_rbind)
    show "ensures (zero_run (8 * length data + 8) bo 12 18 (nsym st) (fbr st))
        (\<lambda>(z, br). br_ok br \<and> 16 \<le> unat (bcnt br) \<and> bdata br = data \<and> nsym st \<le> z)"
      using ok c d by (intro ensures_mono [OF zero_run_spec]) auto
  next
    fix p assume "case p of (z, br) \<Rightarrow> br_ok br \<and> 16 \<le> unat (bcnt br) \<and> bdata br = data \<and> nsym st \<le> z"
    then obtain z1 br1 where p: "p = (z1, br1)" and b: "br_ok br1" "16 \<le> unat (bcnt br1)" "bdata br1 = data" "nsym st \<le> z1"
      by (cases p) auto
    have "ensures (zero_run (8 * length data + 8) bo 2 3 z1 br1)
        (\<lambda>(z, br). br_ok br \<and> 16 \<le> unat (bcnt br) \<and> bdata br = data \<and> nsym st \<le> z)"
      using b by (intro ensures_mono [OF zero_run_spec]) auto
    then show "ensures (case p of (z1, br1) \<Rightarrow>
        rbind (zero_run (8 * length data + 8) bo 2 3 z1 br1) (\<lambda>(z2, br2).
          case bval br2 2 of (v, br3) \<Rightarrow>
            if maxSym < z2 + unat v then makeError bo (uint (boff br3)) ''FSE symbol index overflow''
            else Inr (st\<lparr>norm := foldl (\<lambda>nm s. nm[s mod 256 := 0]) (norm st) [nsym st..<z2 + unat v],
                         nsym := max (nsym st) (z2 + unat v), prev0 := False, fbr := br3\<rparr>))) (fse_inv a maxSym data)"
      unfolding p prod.case using fin unfolding Let_def by (elim ensures_rbind) (simp only: split_beta)
  qed
qed

text \<open>A count read from the bits lies between -1 and the states that are left.\<close>

lemma count_bounds:
  fixes w :: u32 and rem :: int
  assumes "2 ^ k \<le> rem" "rem < 2 * 2 ^ k" "k \<le> 15"
  defines "mx \<equiv> 2 * 2 ^ k - 1 - rem"
    and "small \<equiv> int (unat (w AND of_int (2 ^ k - 1)))"
    and "large \<equiv> int (unat (w AND of_int (2 * 2 ^ k - 1)))"
  shows "0 \<le> (if small < mx then small else if 2 ^ k \<le> large then large - mx else large)"
    "(if small < mx then small else if 2 ^ k \<le> large then large - mx else large) \<le> rem"
proof -
  have l: "unat (w AND of_int (2 * 2 ^ k - 1)) = unat w mod 2 ^ Suc k"
  proof -
    have "(of_int (2 * 2 ^ k - 1) :: u32) = 2 ^ Suc k - 1" by simp
    then show ?thesis using unat_and_mask(1) [of w "Suc k"] by simp
  qed
  have "unat w mod 2 ^ Suc k < 2 ^ Suc k" by simp
  then have "int (unat w mod 2 ^ Suc k) < int (2 ^ Suc k)" by (simp only: of_nat_less_iff)
  then have "large < 2 * 2 ^ k" unfolding large_def l by simp
  moreover have "0 \<le> small" "0 \<le> large" by (simp_all add: small_def large_def)
  ultimately show "0 \<le> (if small < mx then small else if 2 ^ k \<le> large then large - mx else large)"
    "(if small < mx then small else if 2 ^ k \<le> large then large - mx else large) \<le> rem"
    using assms(1,2) by (auto simp: mx_def)
qed

lemma read_count_spec:
  assumes inv: "fse_inv a maxSym data st" and c: "16 \<le> unat (bcnt (fbr st))" and a: "a \<le> 15" and m: "maxSym \<le> 255"
    and g: "1 < remaining st" "nsym st \<le> maxSym"
  shows "\<exists>st'. read_count bo st = Inr st' \<and> fse_inv a maxSym data st'"
proof -
  obtain k where k: "k \<le> a" "threshold st = 2 ^ k" "bitsNeeded st = int k + 1" "2 ^ k \<le> remaining st" "remaining st < 2 * 2 ^ k"
    using inv by (auto simp: fse_inv_def)
  define mx where "mx = (2 * threshold st - 1) - remaining st"
  define small where "small = int (unat (bbits (fbr st) AND of_int (threshold st - 1)))"
  define large where "large = int (unat (bbits (fbr st) AND of_int (2 * threshold st - 1)))"
  define count where "count = (if small < mx then small else if threshold st \<le> large then large - mx else large) - 1"
  define drop where "drop = (if small < mx then bitsNeeded st - 1 else bitsNeeded st)"
  define br where "br = (fbr st)\<lparr>bbits := drop_bit (nat drop) (bbits (fbr st)), bcnt := bcnt (fbr st) - of_int drop\<rparr>"
  define rem where "rem = (if 0 \<le> count then remaining st - count else remaining st - 1)"
  have cb: "-1 \<le> count" "count < remaining st"
    using count_bounds [OF k(4,5), of "bbits (fbr st)"] k(1) a unfolding count_def mx_def small_def large_def k(2) by linarith+
  have st: "rem = remaining st - int (states_of count)" by (simp add: rem_def states_of_def)
  have r: "1 \<le> rem" "rem < 2 * 2 ^ k" using cb g(1) k(5) by (auto simp: rem_def)
  from lower_threshold_spec [OF r] obtain k' where k': "k' \<le> k" "2 ^ k' \<le> rem" "rem < 2 * 2 ^ k'"
    and lt: "lower_threshold rem (threshold st) (bitsNeeded st) = Inr (2 ^ k', int k' + 1)" using k(2,3) by auto
  have dr: "drop = int (nat drop)" "nat drop \<le> 16" using k(1,3) a by (simp_all add: drop_def nat_le_iff)
  have "unat (of_nat (nat drop) :: u32) = nat drop" using dr(2) by (simp only: unat_of_nat) simp
  then have "unat (of_int drop :: u32) = nat drop" using dr(1) by (metis of_int_of_nat_eq)
  from drop_bits_spec [OF _ _ this br_def] inv c dr(2)
  have b: "br_ok br" "bdata br = data" by (auto simp: fse_inv_def)
  let ?st = "st\<lparr>remaining := rem, threshold := 2 ^ k', bitsNeeded := int k' + 1, nsym := nsym st + 1,
      prev0 := (count = 0), norm := (norm st)[nsym st mod 256 := count], fbr := br\<rparr>"
  have n: "nsym st < 256" using g(2) m by simp
  have "read_count bo st = Inr ?st"
    unfolding read_count_def Let_def mx_def [symmetric] small_def [symmetric] large_def [symmetric] drop_def [symmetric]
      count_def [symmetric] br_def [symmetric] rem_def [symmetric] using n lt by simp
  moreover have "total_states ((norm st)[nsym st := count]) = total_states (norm st) + states_of count"
    using inv n by (intro total_states_update) (simp_all add: fse_inv_def)
  then have "fse_inv a maxSym data ?st"
    using inv n g(2) b k' k(1) st by (auto simp: fse_inv_def)
  ultimately show ?thesis by blast
qed

lemma read_counts_spec:
  assumes "fse_inv a maxSym data st" "a \<le> 15" "maxSym \<le> 255"
  shows "ensures (read_counts bo maxSym st) (fse_inv a maxSym data)"
  using assms
proof (induction bo maxSym st rule: read_counts.induct)
  case (1 bo maxSym st)
  show ?case
  proof (cases "1 < remaining st \<and> nsym st \<le> maxSym")
    case False
    then have "read_counts bo maxSym st = Inr st" by (subst read_counts.simps) (rule if_not_P)
    with "1.prems"(1) show ?thesis by simp
  next
    case guard: True
    have ok: "br_ok (fbr st)" using "1.prems"(1) by (simp add: fse_inv_def)
    show ?thesis
    proof (cases "moreBits bo (fbr st)")
      case (Inl e)
      then show ?thesis using guard moreBits_ensures [OF ok, of bo]
        by (auto simp: read_counts.simps [of bo maxSym st] ensures_def elim: safe.elims)
    next
      case (Inr br)
      define step where "step = (if prev0 (st\<lparr>fbr := br\<rparr>) then read_zeros bo maxSym (st\<lparr>fbr := br\<rparr>) else read_count bo (st\<lparr>fbr := br\<rparr>))"
      have i: "fse_inv a maxSym data (st\<lparr>fbr := br\<rparr>)" "16 \<le> unat (bcnt (fbr (st\<lparr>fbr := br\<rparr>)))"
        using ensures_exec [OF moreBits_ensures [OF ok] Inr] "1.prems"(1) by (auto simp: fse_inv_def)
      have s: "ensures step (fse_inv a maxSym data)"
        using read_zeros_spec [OF i "1.prems"(3), of bo] read_count_spec [OF i "1.prems"(2,3), of bo] guard
        by (auto simp: step_def)
      have e: "read_counts bo maxSym st = (case step of Inl e \<Rightarrow> Inl e | Inr st2 \<Rightarrow> read_counts bo maxSym st2)"
        using guard Inr by (simp add: read_counts.simps [of bo maxSym st] Let_def step_def)
      have "ensures (read_counts bo maxSym st2) (fse_inv a maxSym data)" if "step = Inr st2" for st2
        using "1.IH" [OF guard Inr refl that [unfolded step_def] ensures_exec [OF s that] "1.prems"(2,3)] .
      then show ?thesis unfolding e using s by (cases step) (auto simp: ensures_def elim: safe.elims)
    qed
  qed
qed

section \<open>The table read\<close>

definition fse_result :: "nat \<Rightarrow> nat \<Rightarrow> bytes \<Rightarrow> fseEntry list \<Rightarrow> nat \<times> nat \<times> fseEntry list \<Rightarrow> bool" where
  "fse_result maxSym maxBits data table r \<longleftrightarrow> (case r of (T, off', tab) \<Rightarrow>
     5 \<le> T \<and> T \<le> maxBits \<and> off' \<le> length data \<and> length tab = length table
     \<and> (\<exists>ns. length ns = maxSym + 1 \<and> fse_table T (counts ns) tab))"

lemma finish_fse:
  assumes i: "fse_inv a maxSym data st" and r: "remaining st = 1" and m: "maxSym \<le> 255"
    and a: "5 \<le> a" "a \<le> maxBits" "maxBits \<le> 14" "2 ^ maxBits \<le> length table"
  shows "ensures (rbind (zslice (foldl (\<lambda>nm s. nm[s mod 256 := 0]) (norm st) [nsym st..<maxSym + 1]) 0 (maxSym + 1)) (\<lambda>nm'.
     rbind (buildFSE bo off nm' table a) (\<lambda>table'. Inr (a, unat (boff (backup (fbr st))), table'))))
     (fse_result maxSym maxBits data table)"
proof -
  let ?ns = "take (maxSym + 1) (norm st)"
  have fill: "foldl (\<lambda>nm s. nm[s mod 256 := 0]) (norm st) [nsym st..<maxSym + 1] = norm st"
    using i m by (intro clear_zeros) (simp_all add: fse_inv_def)
  have len: "length (norm st) = 256" using i by (simp add: fse_inv_def)
  then have z: "zslice (norm st) 0 (maxSym + 1) = Inr ?ns" using m by (simp add: slice_def)
  have "total_states (norm st) = total_states ?ns + total_states (drop (maxSym + 1) (norm st))"
    unfolding total_states_def by (metis append_take_drop_id map_append sum_list_append)
  moreover have "total_states (drop (maxSym + 1) (norm st)) = 0"
    using i by (auto simp: total_states_def fse_inv_def states_of_def in_set_conv_nth)
  moreover have "int (total_states (norm st)) = int (2 ^ a)" using i r by (simp add: fse_inv_def)
  then have "total_states (norm st) = 2 ^ a" by (simp only: of_nat_eq_iff)
  ultimately have "total_states ?ns = 2 ^ a" by simp
  then have "norm_ok a ?ns" unfolding norm_ok_def total_states_def [symmetric] using a m by simp
  moreover have "2 ^ a \<le> length table" using power_increasing [OF a(2), of "2::nat"] a(4) by linarith
  ultimately obtain tab where t: "buildFSE bo off ?ns table a = Inr tab" "length tab = length table"
    "fse_table a (counts ?ns) tab" using buildFSE_table by blast
  have "unat (bcnt (fbr st)) \<le> 8 * unat (boff (fbr st))" "unat (boff (fbr st)) \<le> length data"
    using i by (auto simp: fse_inv_def br_ok_def)
  with backup_spec [of "fbr st"] have "unat (boff (backup (fbr st))) \<le> length data" by simp
  then have "fse_result maxSym maxBits data table (a, unat (boff (backup (fbr st))), tab)"
    using t(2,3) a len m by (auto simp: fse_result_def intro!: exI [of _ ?ns])
  then show ?thesis unfolding fill z using t(1) by simp
qed

lemma readFSE_spec:
  assumes "length data < 2 ^ 31" "off \<le> length data" "maxSym \<le> 255" "maxBits \<le> 14" "2 ^ maxBits \<le> length table"
  shows "ensures (readFSE bo data off maxSym maxBits table) (fse_result maxSym maxBits data table)"
  unfolding readFSE_def
proof (rule ensures_rbind)
  show "ensures (moreBits bo (makeBitReader data off)) (\<lambda>br. br_ok br \<and> 16 \<le> unat (bcnt br) \<and> bdata br = data)"
    using makeBitReader_ok [OF assms(1,2)] by (intro ensures_mono [OF moreBits_ensures]) (simp_all add: makeBitReader_def)
next
  fix br0 assume b0: "br_ok br0 \<and> 16 \<le> unat (bcnt br0) \<and> bdata br0 = data"
  obtain v br where v: "bval br0 4 = (v, br)" by fastforce
  with bval_spec [OF _ _ v] b0 have b: "br_ok br" "bdata br = data" by auto
  define a where "a = unat v + 5"
  define st0 where "st0 = \<lparr>remaining = 2 ^ a + 1, threshold = 2 ^ a, bitsNeeded = int a + 1,
                  nsym = 0, prev0 = False, norm = replicate 256 0, fbr = br\<rparr>"
  have "(2::int) ^ 1 \<le> 2 ^ a" by (rule power_increasing) (simp_all add: a_def)
  then have i0: "fse_inv a maxSym data st0"
    using b by (auto simp: fse_inv_def st0_def total_states_def states_of_def sum_list_replicate)
  have "ensures (rbind (read_counts bo maxSym st0) (\<lambda>st.
            if remaining st \<noteq> 1 then makeError bo (uint (boff (fbr st))) ''too many symbols in FSE table''
            else let nm = foldl (\<lambda>nm s. nm[s mod 256 := 0]) (norm st) [nsym st..<maxSym + 1];
                     br' = backup (fbr st)
                 in rbind (zslice nm 0 (maxSym + 1)) (\<lambda>nm'.
                      rbind (buildFSE bo off nm' table a) (\<lambda>table'. Inr (a, unat (boff br'), table')))))
          (fse_result maxSym maxBits data table)" if "a \<le> maxBits"
  proof (rule ensures_rbind)
    show "ensures (read_counts bo maxSym st0) (fse_inv a maxSym data)"
      using that assms(3,4) by (intro read_counts_spec [OF i0]) simp_all
  next
    fix st assume "fse_inv a maxSym data st"
    then show "ensures (if remaining st \<noteq> 1 then makeError bo (uint (boff (fbr st))) ''too many symbols in FSE table''
        else let nm = foldl (\<lambda>nm s. nm[s mod 256 := 0]) (norm st) [nsym st..<maxSym + 1]; br' = backup (fbr st)
             in rbind (zslice nm 0 (maxSym + 1)) (\<lambda>nm'.
                  rbind (buildFSE bo off nm' table a) (\<lambda>table'. Inr (a, unat (boff br'), table'))))
        (fse_result maxSym maxBits data table)"
      using finish_fse [of a maxSym data st maxBits table bo off] that assms by (simp add: Let_def a_def)
  qed
  then show "ensures (let (v, br) = bval br0 4; accuracyLog = unat v + 5
       in if maxBits < accuracyLog then makeError bo (uint (boff br)) ''FSE accuracy log too large''
          else rbind (read_counts bo maxSym
                 \<lparr>remaining = 2 ^ accuracyLog + 1, threshold = 2 ^ accuracyLog, bitsNeeded = int accuracyLog + 1,
                  nsym = 0, prev0 = False, norm = replicate 256 0, fbr = br\<rparr>) (\<lambda>st.
            if remaining st \<noteq> 1 then makeError bo (uint (boff (fbr st))) ''too many symbols in FSE table''
            else let nm = foldl (\<lambda>nm s. nm[s mod 256 := 0]) (norm st) [nsym st..<maxSym + 1];
                     br' = backup (fbr st)
                 in rbind (zslice nm 0 (maxSym + 1)) (\<lambda>nm'.
                      rbind (buildFSE bo off nm' table accuracyLog) (\<lambda>table'.
                        Inr (accuracyLog, unat (boff br'), table')))))
      (fse_result maxSym maxBits data table)"
    unfolding v Let_def prod.case a_def [symmetric] st0_def [symmetric] by (simp add: not_less)
qed

end
