(* ===== verification/ZstdHuff.thy ===== *)
theory ZstdHuff
  imports ZstdFseRead
begin

text \<open>
  Huffman tables, \<open>src/pkg/lib/zstd/huff.go\<close>: reading the weights, directly or through two interleaved FSE
  streams, and building the decoding table. The sums over weights are natural numbers: at most 256 weights of at
  most 12 keep them far below the 32 bits of the code. The scratch table of the reader is a backing array with
  the length of the slice in use.
\<close>

section \<open>The weights\<close>

definition maxHuffmanBits :: nat where "maxHuffmanBits = 11"

type_synonym fse_slice = "fseEntry list \<times> nat"

text \<open>
  Half a turn of the loop over the two streams: the entry of one state gives a weight, and the state is updated
  unless the bits have run out; then the other state gives the last weight and the loop ends.
\<close>

datatype huff_turn = Last "u8 list" nat | Next u32 "u8 list" nat reverseBitReader

definition huff_half :: "int \<Rightarrow> fseEntry list \<Rightarrow> u32 \<Rightarrow> u32 \<Rightarrow> u8 list \<Rightarrow> nat \<Rightarrow> reverseBitReader \<Rightarrow> zerr + huff_turn" where
  "huff_half bo table state other weights count rbr =
     rbind (znth table (unat state)) (\<lambda>pt.
       rbind (fetch rbr (fbits pt)) (\<lambda>(got, rbr1).
         if \<not> got then
           (if 254 \<le> count then makeError bo (uint (roff rbr1)) ''Huffman count overflow''
            else rbind (zupd weights count (fsym pt)) (\<lambda>w1.
              rbind (znth table (unat other)) (\<lambda>po.
                rbind (zupd w1 (count + 1) (fsym po)) (\<lambda>w2. Inr (Last w2 (count + 2))))))
         else rbind (rval bo rbr1 (fbits pt)) (\<lambda>(v, rbr2).
           if 255 \<le> count then makeError bo (uint (roff rbr2)) ''Huffman count overflow''
           else rbind (zupd weights count (fsym pt)) (\<lambda>w1.
             Inr (Next (ucast (fbase pt) + v) w1 (count + 1) rbr2)))))"

lemma huff_half_count:
  "huff_half bo table s other weights count rbr = Inr (Next s' w' c' r') \<Longrightarrow> c' = count + 1 \<and> count < 255"
  by (auto simp: huff_half_def rbind_Inr_iff split: if_splits prod.splits)

function huff_loop :: "int \<Rightarrow> fseEntry list \<Rightarrow> u32 \<Rightarrow> u32 \<Rightarrow> u8 list \<Rightarrow> nat \<Rightarrow> reverseBitReader \<Rightarrow> zerr + u8 list \<times> nat" where
  "huff_loop bo table state1 state2 weights count rbr =
     (case huff_half bo table state1 state2 weights count rbr of
        Inl e \<Rightarrow> Inl e
      | Inr (Last w c) \<Rightarrow> Inr (w, c)
      | Inr (Next s1 w c r) \<Rightarrow>
          (case huff_half bo table state2 s1 w c r of
             Inl e \<Rightarrow> Inl e
           | Inr (Last w' c') \<Rightarrow> Inr (w', c')
           | Inr (Next s2 w' c' r') \<Rightarrow> huff_loop bo table s1 s2 w' c' r'))"
  by pat_completeness auto
termination
  by (relation "measure (\<lambda>(_, _, _, _, _, count, _). 256 - count)") (auto dest!: huff_half_count)

declare huff_loop.simps [simp del]

text \<open>The compressed weights; the result is the weights, their number and the scratch table.\<close>

definition huff_fse_weights :: "int \<Rightarrow> bytes \<Rightarrow> nat \<Rightarrow> u8 \<Rightarrow> fse_slice \<Rightarrow> zerr + u8 list \<times> nat \<times> fse_slice" where
  "huff_fse_weights bo data off hdr scratch =
     (let (backing, len) = (if snd scratch < 2 ^ 6 then (replicate (2 ^ 6) fse0, 2 ^ 6) else scratch)
      in rbind (readFSE bo data off 255 6 (take len backing)) (\<lambda>(fseBits, noff, table).
           if length data < off + unat hdr then makeEOFError bo (int off)
           else rbind (makeReverseBitReader bo data (int off + int (unat hdr) - 1) (int noff)) (\<lambda>rbr.
             rbind (rval bo rbr (of_nat fseBits)) (\<lambda>(state1, rbr1).
               rbind (rval bo rbr1 (of_nat fseBits)) (\<lambda>(state2, rbr2).
                 rbind (huff_loop bo table state1 state2 (replicate 256 0) 0 rbr2) (\<lambda>(weights, count).
                   Inr (weights, count, table @ drop len backing, len)))))))"

text \<open>The direct weights, two to a byte: the loop from weight \<open>i\<close>.\<close>

function huff_raw_loop :: "bytes \<Rightarrow> nat \<Rightarrow> nat \<Rightarrow> nat \<Rightarrow> u8 list \<Rightarrow> zerr + nat \<times> u8 list" where
  "huff_raw_loop data off i count weights =
     (if count \<le> i then Inr (off, weights)
      else rbind (znth data off) (\<lambda>b.
        rbind (zupd weights i (drop_bit 4 b)) (\<lambda>w1.
          rbind (zupd w1 (i + 1) (b AND 0xf)) (\<lambda>w2.
            huff_raw_loop data (off + 1) (i + 2) count w2))))"
  by pat_completeness auto
termination
  by (relation "measure (\<lambda>(_, _, i, count, _). count - i)") auto

declare huff_raw_loop.simps [simp del]

definition huff_weights :: "int \<Rightarrow> bytes \<Rightarrow> nat \<Rightarrow> u8 \<Rightarrow> fse_slice \<Rightarrow> zerr + u8 list \<times> nat \<times> nat \<times> fse_slice" where
  "huff_weights bo data off hdr scratch =
     (if hdr < 128 then
        rbind (huff_fse_weights bo data off hdr scratch) (\<lambda>(weights, count, scratch').
          Inr (weights, count, off + unat hdr, scratch'))
      else let count = unat hdr - 127
           in if length data \<le> off + (count + 1) div 2 then Inl ZUnexpectedEOF
              else rbind (huff_raw_loop data off 0 count (replicate 256 0)) (\<lambda>(off', weights).
                Inr (weights, count, off', scratch)))"

section \<open>The table\<close>

fun mark_weights :: "int \<Rightarrow> nat \<Rightarrow> u8 list \<Rightarrow> nat list \<Rightarrow> nat \<Rightarrow> zerr + nat list \<times> nat" where
  "mark_weights bo off [] marks msk = Inr (marks, msk)"
| "mark_weights bo off (w # ws) marks msk =
     (if 12 < unat w then makeError bo (int off) ''Huffman weight overflow''
      else rbind (znth marks (unat w)) (\<lambda>m.
        mark_weights bo off ws (marks[unat w := m + 1]) (if 0 < unat w then msk + 2 ^ (unat w - 1) else msk)))"

text \<open>From the number of symbols of each weight to the index of the first of them: the loop from \<open>i\<close>, for \<open>k\<close> turns.\<close>

fun mark_starts :: "nat \<Rightarrow> nat \<Rightarrow> nat \<Rightarrow> nat list \<Rightarrow> zerr + nat list" where
  "mark_starts i 0 next marks = Inr marks"
| "mark_starts i (Suc k) next marks =
     rbind (znth marks (i + 1)) (\<lambda>m. mark_starts (i + 1) k (next + m * 2 ^ i) (marks[i + 1 := next]))"

fun fill_range :: "u16 list \<Rightarrow> nat \<Rightarrow> nat \<Rightarrow> u16 \<Rightarrow> zerr + u16 list" where
  "fill_range table start 0 v = Inr table"
| "fill_range table start (Suc n) v = rbind (zupd table start v) (\<lambda>table'. fill_range table' (start + 1) n v)"

definition huff_entry :: "nat \<Rightarrow> nat \<Rightarrow> u8 \<Rightarrow> u16" where
  "huff_entry tableBits i w = push_bit 8 (of_nat i) OR (of_nat tableBits + 1 - ucast w)"

fun fill_table :: "nat \<Rightarrow> nat \<Rightarrow> u8 list \<Rightarrow> nat list \<Rightarrow> u16 list \<Rightarrow> zerr + u16 list" where
  "fill_table tableBits i [] marks table = Inr table"
| "fill_table tableBits i (w # ws) marks table =
     (if w = 0 then fill_table tableBits (i + 1) ws marks table
      else let len = 2 ^ (unat w - 1)
           in rbind (znth marks (unat w)) (\<lambda>start.
                rbind (fill_range table start len (huff_entry tableBits i w)) (\<lambda>table'.
                  fill_table tableBits (i + 1) ws (marks[unat w := start + len]) table')))"

definition huff_table :: "int \<Rightarrow> nat \<Rightarrow> u8 list \<Rightarrow> nat \<Rightarrow> u16 list \<Rightarrow> zerr + nat \<times> u16 list" where
  "huff_table bo off weights count table =
     rbind (zslice weights 0 count) (\<lambda>ws.
       rbind (mark_weights bo off ws (replicate 13 0) 0) (\<lambda>(marks, weightMask).
         if weightMask = 0 then makeError bo (int off) ''bad Huffman weights''
         else let tableBits = 32 - leadingZeros 32 weightMask
              in if maxHuffmanBits < tableBits then makeError bo (int off) ''bad Huffman weights''
                 else if length table < 2 ^ tableBits then makeError bo (int off) ''Huffman table too small''
                 else let left = 2 ^ tableBits - weightMask
                      in if left = 0 then makeError bo (int off) ''bad Huffman weights''
                         else let highBit = 31 - leadingZeros 32 left
                              in if 2 ^ highBit \<noteq> left then makeError bo (int off) ''bad Huffman weights''
                                 else if 256 \<le> count then makeError bo (int off) ''Huffman weight overflow''
                                 else rbind (zupd weights count (of_nat (highBit + 1))) (\<lambda>weights'.
                                   rbind (znth marks (highBit + 1)) (\<lambda>m.
                                     let marks' = marks[highBit + 1 := m + 1]
                                     in if marks' ! 1 < 2 \<or> odd (marks' ! 1) then makeError bo (int off) ''bad Huffman weights''
                                        else rbind (mark_starts 0 tableBits 0 marks') (\<lambda>starts.
                                          rbind (zslice weights' 0 (count + 1)) (\<lambda>ws'.
                                            rbind (fill_table tableBits 0 ws' starts table) (\<lambda>table'.
                                              Inr (tableBits, table'))))))))"

definition readHuff ::
  "int \<Rightarrow> bytes \<Rightarrow> nat \<Rightarrow> u16 list \<Rightarrow> fse_slice \<Rightarrow> zerr + nat \<times> nat \<times> u16 list \<times> fse_slice" where
  "readHuff bo data off table scratch =
     (if length data \<le> off then makeEOFError bo (int off)
      else let hdr = data ! off
           in rbind (huff_weights bo data (off + 1) hdr scratch) (\<lambda>(weights, count, off', scratch').
                rbind (huff_table bo off' weights count table) (\<lambda>(tableBits, table').
                  Inr (tableBits, off', table', scratch'))))"

section \<open>Reading the weights is safe\<close>

definition turn_ok :: "nat \<Rightarrow> huff_turn \<Rightarrow> bool" where
  "turn_ok T t \<longleftrightarrow> (case t of Last w c \<Rightarrow> length w = 256 \<and> c \<le> 255
     | Next s w c r \<Rightarrow> unat s < 2 ^ T \<and> length w = 256 \<and> c \<le> 255 \<and> rbr_ok r)"

lemma huff_half_ensures:
  assumes t: "fse_table T c table" "T \<le> 6" and s: "unat state < 2 ^ T" "unat other < 2 ^ T"
    and w: "length weights = 256" "rbr_ok rbr"
  shows "ensures (huff_half bo table state other weights count rbr) (turn_ok T)"
proof -
  define pt where "pt = table ! unat state"
  have len: "unat state < length table" "unat other < length table" using t(1) s by (auto simp: fse_table_def)
  have b: "unat (fbase pt) + 2 ^ unat (fbits pt) \<le> 2 ^ T" "unat (fbits pt) \<le> 6"
    using fse_table_bound [OF t(1) s(1)] t(2) by (simp_all add: pt_def)
  have p64: "(2::nat) ^ T \<le> 2 ^ 6" using t(2) by (rule power_increasing) simp
  have nxt: "unat (ucast (fbase pt) + v :: u32) < 2 ^ T" if "unat v < 2 ^ unat (fbits pt)" for v
  proof -
    have "unat (ucast (fbase pt) :: u32) = unat (fbase pt)"
      using b(1) p64 by (simp only: unsigned_ucast_eq take_bit_eq_mod [of _ "unat (fbase pt)"]) simp
    then show ?thesis using that b(1) p64 by (simp add: unat_word_ariths)
  qed
  have fin: "ensures (rval bo rbr1 (fbits pt)) (\<lambda>(v, r). rbr_ok r \<and> unat v < 2 ^ unat (fbits pt))" if "rbr_ok rbr1" for rbr1
    using that b(2) by (intro ensures_mono [OF rval_ensures]) auto
  have "ensures (rbind (fetch rbr (fbits pt)) (\<lambda>(got, rbr1).
         if \<not> got then
           (if 254 \<le> count then makeError bo (uint (roff rbr1)) ''Huffman count overflow''
            else rbind (zupd weights count (fsym pt)) (\<lambda>w1.
              rbind (znth table (unat other)) (\<lambda>po.
                rbind (zupd w1 (count + 1) (fsym po)) (\<lambda>w2. Inr (Last w2 (count + 2))))))
         else rbind (rval bo rbr1 (fbits pt)) (\<lambda>(v, rbr2).
           if 255 \<le> count then makeError bo (uint (roff rbr2)) ''Huffman count overflow''
           else rbind (zupd weights count (fsym pt)) (\<lambda>w1.
             Inr (Next (ucast (fbase pt) + v) w1 (count + 1) rbr2))))) (turn_ok T)"
  proof (rule ensures_rbind [OF fetch_ensures [OF w(2)]])
    show "unat (fbits pt) \<le> 25" using b(2) by simp
  next
    fix x assume "case x of (got, r') \<Rightarrow> rbr_ok r' \<and> rdata r' = rdata rbr \<and> rstart r' = rstart rbr \<and> (got \<longrightarrow> unat (fbits pt) \<le> unat (rcnt r'))"
    then obtain got rbr1 where x: "x = (got, rbr1)" and r: "rbr_ok rbr1" by (cases x) auto
    show "ensures (case x of (got, rbr1) \<Rightarrow>
         if \<not> got then
           (if 254 \<le> count then makeError bo (uint (roff rbr1)) ''Huffman count overflow''
            else rbind (zupd weights count (fsym pt)) (\<lambda>w1.
              rbind (znth table (unat other)) (\<lambda>po.
                rbind (zupd w1 (count + 1) (fsym po)) (\<lambda>w2. Inr (Last w2 (count + 2))))))
         else rbind (rval bo rbr1 (fbits pt)) (\<lambda>(v, rbr2).
           if 255 \<le> count then makeError bo (uint (roff rbr2)) ''Huffman count overflow''
           else rbind (zupd weights count (fsym pt)) (\<lambda>w1.
             Inr (Next (ucast (fbase pt) + v) w1 (count + 1) rbr2)))) (turn_ok T)"
    proof (cases got)
      case False
      then show ?thesis using w(1) len(2) by (simp add: x turn_ok_def)
    next
      case True
      show ?thesis unfolding x prod.case using True
        by (simp only: not_True_eq_False if_False) (rule ensures_rbind [OF fin [OF r]], auto simp: turn_ok_def w(1) intro: nxt)
    qed
  qed
  then show ?thesis unfolding huff_half_def znth_ok [OF len(1)] rbind.simps pt_def .
qed

lemma huff_loop_ensures:
  assumes "fse_table T c table" "T \<le> 6" "unat s1 < 2 ^ T" "unat s2 < 2 ^ T" "length weights = 256" "rbr_ok rbr"
  shows "ensures (huff_loop bo table s1 s2 weights count rbr) (\<lambda>(w, c). length w = 256 \<and> c \<le> 255)"
  using assms
proof (induction bo table s1 s2 weights count rbr rule: huff_loop.induct)
  case (1 bo table s1 s2 weights count rbr)
  note h1 = huff_half_ensures [OF "1.prems"(1-6), of bo count]
  have "ensures (case t of Last w c \<Rightarrow> Inr (w, c) | Next s1 w c r \<Rightarrow>
      (case huff_half bo table s2 s1 w c r of Inl e \<Rightarrow> Inl e | Inr (Last w' c') \<Rightarrow> Inr (w', c')
         | Inr (Next s2 w' c' r') \<Rightarrow> huff_loop bo table s1 s2 w' c' r')) (\<lambda>(w, c). length w = 256 \<and> c \<le> 255)"
    if t: "huff_half bo table s1 s2 weights count rbr = Inr t" for t
  proof (cases t)
    case (Last w c)
    with ensures_exec [OF h1 t] show ?thesis by (simp add: turn_ok_def)
  next
    case (Next s1' w c r)
    with ensures_exec [OF h1 t] have n: "unat s1' < 2 ^ T" "length w = 256" "rbr_ok r" by (simp_all add: turn_ok_def)
    note h2 = huff_half_ensures [OF "1.prems"(1,2,4) n(1,2,3), of bo c]
    have "ensures (case t' of Last w' c' \<Rightarrow> Inr (w', c') | Next s2 w' c' r' \<Rightarrow> huff_loop bo table s1' s2 w' c' r')
        (\<lambda>(w, c). length w = 256 \<and> c \<le> 255)" if t': "huff_half bo table s2 s1' w c r = Inr t'" for t'
    proof (cases t')
      case (Last w' c')
      with ensures_exec [OF h2 t'] show ?thesis by (simp add: turn_ok_def)
    next
      case N2: (Next s2' w' c' r')
      with ensures_exec [OF h2 t'] have m: "unat s2' < 2 ^ T" "length w' = 256" "rbr_ok r'" by (simp_all add: turn_ok_def)
      from "1.IH" [OF t Next t' N2 "1.prems"(1,2) n(1) m(1,2,3)] show ?thesis by (simp add: N2)
    qed
    then show ?thesis unfolding Next huff_turn.case using h2
      by (cases "huff_half bo table s2 s1' w c r") (auto simp: ensures_def split: huff_turn.splits elim: safe.elims)
  qed
  then show ?case unfolding huff_loop.simps [of bo table s1 s2] using h1
    by (cases "huff_half bo table s1 s2 weights count rbr") (auto simp: ensures_def split: huff_turn.splits elim: safe.elims)
qed

definition slice_ok :: "fse_slice \<Rightarrow> bool" where
  "slice_ok s \<longleftrightarrow> snd s \<le> length (fst s)"

lemma huff_fse_weights_ensures:
  assumes d: "length data < 2 ^ 31" "0 < off" "off \<le> length data" and s: "slice_ok scratch"
  shows "ensures (huff_fse_weights bo data off hdr scratch) (\<lambda>(weights, count, scratch').
    length weights = 256 \<and> count \<le> 255 \<and> slice_ok scratch' \<and> off + unat hdr \<le> length data)"
proof -
  obtain backing len where bl: "(if snd scratch < 2 ^ 6 then (replicate (2 ^ 6) fse0, 2 ^ 6) else scratch) = (backing, len)"
    by fastforce
  then have l: "2 ^ 6 \<le> len" "len \<le> length backing" using s by (auto simp: slice_ok_def split: if_splits)
  then have tl: "length (take len backing) = len" by simp
  show ?thesis unfolding huff_fse_weights_def bl Let_def prod.case
  proof (rule ensures_rbind [OF readFSE_spec], goal_cases)
    case (6 p)
    then obtain T noff table ns where p: "p = (T, noff, table)" and T: "T \<le> 6" "length table = len" "fse_table T (counts ns) table"
      using tl by (auto simp: fse_result_def split: prod.splits)
    have b: "unat (of_nat T :: u8) = T" using T(1) by (simp add: unat_of_nat)
    have "ensures (rbind (makeReverseBitReader bo data (int off + int (unat hdr) - 1) (int noff)) (\<lambda>rbr.
             rbind (rval bo rbr (of_nat T)) (\<lambda>(state1, rbr1).
               rbind (rval bo rbr1 (of_nat T)) (\<lambda>(state2, rbr2).
                 rbind (huff_loop bo table state1 state2 (replicate 256 0) 0 rbr2) (\<lambda>(weights, count).
                   Inr (weights, count, table @ drop len backing, len))))))
        (\<lambda>(weights, count, scratch'). length weights = 256 \<and> count \<le> 255 \<and> slice_ok scratch' \<and> off + unat hdr \<le> length data)"
      if "off + unat hdr \<le> length data"
    proof (rule ensures_rbind [OF makeReverseBitReader_ensures], goal_cases)
      case (4 rbr)
      then have r: "rbr_ok rbr" by simp
      show ?case
      proof (rule ensures_rbind [OF rval_ensures [OF r]], goal_cases)
        case (2 q)
        then obtain s1 rbr1 where q: "q = (s1, rbr1)" "rbr_ok rbr1" "unat s1 < 2 ^ T" by (auto simp: b)
        show ?case unfolding q(1) prod.case
        proof (rule ensures_rbind [OF rval_ensures [OF q(2)]], goal_cases)
          case (2 q')
          then obtain s2 rbr2 where q': "q' = (s2, rbr2)" "rbr_ok rbr2" "unat s2 < 2 ^ T" by (auto simp: b)
          show ?case unfolding q'(1) prod.case
            by (rule ensures_rbind [OF huff_loop_ensures [OF T(3,1) q(3) q'(3) _ q'(2)]]) (auto simp: slice_ok_def T(2) that)
        qed (use T(1) b in simp)
      qed (use T(1) b in simp)
    qed ((use d that in linarith)+)
    then show ?case by (simp add: p not_less)
  qed (use d tl l in auto)
qed

lemma huff_raw_loop_ensures:
  assumes "length weights = 256" "count \<le> 255" "off + (count - i + 1) div 2 \<le> length data"
  shows "ensures (huff_raw_loop data off i count weights) (\<lambda>(off', w). length w = 256 \<and> off' = off + (count - i + 1) div 2)"
  using assms
proof (induction data off i count weights rule: huff_raw_loop.induct)
  case (1 data off i count weights)
  show ?case
  proof (cases "count \<le> i")
    case True
    with "1.prems" show ?thesis by (subst huff_raw_loop.simps) simp
  next
    case False
    then have h: "(count - i + 1) div 2 = Suc ((count - (i + 2) + 1) div 2)" by (cases "count = Suc i") auto
    let ?w = "weights[i := drop_bit 4 (data ! off), i + 1 := data ! off AND 0xf]"
    have "huff_raw_loop data off i count weights = huff_raw_loop data (off + 1) (i + 2) count ?w"
      using False "1.prems" h by (subst huff_raw_loop.simps) simp
    moreover have "ensures (huff_raw_loop data (off + 1) (i + 2) count ?w)
        (\<lambda>(off', w). length w = 256 \<and> off' = off + 1 + (count - (i + 2) + 1) div 2)"
      by (rule "1.IH" [OF False]) (use False "1.prems" h in simp_all)
    ultimately show ?thesis unfolding h by simp
  qed
qed

lemma huff_weights_ensures:
  assumes d: "length data < 2 ^ 31" "0 < off" "off \<le> length data" and s: "slice_ok scratch"
  shows "ensures (huff_weights bo data off hdr scratch) (\<lambda>(weights, count, off', scratch').
    length weights = 256 \<and> count \<le> 255 \<and> off \<le> off' \<and> off' \<le> length data \<and> slice_ok scratch')"
proof (cases "hdr < 128")
  case True
  show ?thesis unfolding huff_weights_def using True
    by (simp only: if_True) (rule ensures_rbind [OF huff_fse_weights_ensures [OF assms]], auto)
next
  case False
  have u: "unat hdr < 256" by (rule unat_byte_less)
  show ?thesis
  proof (cases "length data \<le> off + (unat hdr - 127 + 1) div 2")
    case True
    with False show ?thesis by (simp add: huff_weights_def ensures_def)
  next
    case room: False
    have "ensures (huff_raw_loop data off 0 (unat hdr - 127) (replicate 256 0))
        (\<lambda>(off', w). length w = 256 \<and> off' = off + (unat hdr - 127 - 0 + 1) div 2)"
      using room u by (intro huff_raw_loop_ensures) simp_all
    then show ?thesis unfolding huff_weights_def Let_def if_not_P [OF False] if_not_P [OF room]
      by (rule ensures_rbind) (use room u s in auto)
  qed
qed

end
