(* ===== verification/ZstdHuffTable.thy ===== *)
theory ZstdHuffTable
  imports ZstdHuff
begin

text \<open>
  The Huffman table that \<open>readHuff\<close> (\<open>src/pkg/lib/zstd/huff.go\<close>) builds is a complete prefix code: every index
  belongs to exactly one symbol, and the indexes of a symbol are those that start with its code word.
\<close>

section \<open>Counting weights\<close>

definition kraft :: "u8 \<Rightarrow> nat" where
  "kraft w = (if w = 0 then 0 else 2 ^ (unat w - 1))"

abbreviation occ :: "u8 list \<Rightarrow> nat \<Rightarrow> nat" where
  "occ ws v \<equiv> count_list (map unat ws) v"

lemma mark_weights_ensures:
  assumes "length marks = 13"
  shows "ensures (mark_weights bo off ws marks msk) (\<lambda>(marks', msk'). length marks' = 13
    \<and> (\<forall>v < 13. marks' ! v = marks ! v + occ ws v) \<and> msk' = msk + sum_list (map kraft ws) \<and> (\<forall>w \<in> set ws. unat w \<le> 12))"
  using assms
proof (induction ws arbitrary: marks msk)
  case (Cons w ws)
  show ?case
  proof (cases "12 < unat w")
    case False
    let ?marks = "marks[unat w := marks ! unat w + 1]" and ?msk = "if 0 < unat w then msk + 2 ^ (unat w - 1) else msk"
    have "mark_weights bo off (w # ws) marks msk = mark_weights bo off ws ?marks ?msk"
      using False Cons.prems by simp
    moreover have "?msk = msk + kraft w" by (simp add: kraft_def unat_gt_0)
    ultimately show ?thesis using Cons.IH [of ?marks ?msk] Cons.prems False
      by (auto elim!: ensures_mono simp: nth_list_update)
  qed simp
qed simp

text \<open>The first index of weight \<open>v\<close>, from the number of symbols of each weight.\<close>

definition start_of :: "(nat \<Rightarrow> nat) \<Rightarrow> nat \<Rightarrow> nat" where
  "start_of c v = (\<Sum>u \<in> {1..<v}. c u * 2 ^ (u - 1))"

lemma start_of_1 [simp]: "start_of c 0 = 0" "start_of c (Suc 0) = 0"
  by (simp_all add: start_of_def)

lemma start_of_Suc: "0 < v \<Longrightarrow> start_of c (Suc v) = start_of c v + c v * 2 ^ (v - 1)"
  by (simp add: start_of_def)

lemma start_of_mono: "u \<le> v \<Longrightarrow> start_of c u \<le> start_of c v"
  unfolding start_of_def by (rule sum_mono2) auto

lemma mark_starts_spec:
  assumes "i + k < length marks" "\<And>v. i < v \<Longrightarrow> v \<le> i + k \<Longrightarrow> marks ! v = c v"
  shows "\<exists>m. mark_starts i k (start_of c (Suc i)) marks = Inr m \<and> length m = length marks
    \<and> (\<forall>v. i < v \<and> v \<le> i + k \<longrightarrow> m ! v = start_of c v) \<and> (\<forall>v. v \<le> i \<longrightarrow> m ! v = marks ! v)"
  using assms
proof (induction k arbitrary: i marks)
  case (Suc k)
  let ?m = "marks[i + 1 := start_of c (Suc i)]"
  have n: "start_of c (Suc i) + marks ! (i + 1) * 2 ^ i = start_of c (Suc (i + 1))"
    using Suc.prems(2) [of "i + 1"] by (simp add: start_of_Suc)
  have "\<exists>m. mark_starts (i + 1) k (start_of c (Suc (i + 1))) ?m = Inr m \<and> length m = length ?m
    \<and> (\<forall>v. i + 1 < v \<and> v \<le> i + 1 + k \<longrightarrow> m ! v = start_of c v) \<and> (\<forall>v. v \<le> i + 1 \<longrightarrow> m ! v = ?m ! v)"
    using Suc.prems by (intro Suc.IH) simp_all
  then obtain m where m: "mark_starts (i + 1) k (start_of c (Suc (i + 1))) ?m = Inr m" "length m = length marks"
    "\<And>v. i + 1 < v \<Longrightarrow> v \<le> i + 1 + k \<Longrightarrow> m ! v = start_of c v" "\<And>v. v \<le> i + 1 \<Longrightarrow> m ! v = ?m ! v" by auto
  have "m ! v = start_of c v" if "i < v" "v \<le> i + Suc k" for v
    using m(3) [of v] m(4) [of v] that Suc.prems(1) by (cases "v = i + 1") auto
  with m n Suc.prems(1) show ?case by (intro exI [of _ m]) auto
qed simp

section \<open>Filling the table\<close>

lemma fill_range_spec:
  assumes "start + n \<le> length table"
  shows "\<exists>t. fill_range table start n v = Inr t \<and> length t = length table
    \<and> (\<forall>x < length table. t ! x = (if start \<le> x \<and> x < start + n then v else table ! x))"
  using assms
proof (induction n arbitrary: start table)
  case (Suc n)
  from Suc.IH [of "start + 1" "table[start := v]"] Suc.prems show ?case by (auto simp: nth_list_update)
qed auto

text \<open>The block of indexes of symbol \<open>k\<close>, when the weights start at \<open>S\<close>.\<close>

definition blk :: "(nat \<Rightarrow> nat) \<Rightarrow> u8 list \<Rightarrow> nat \<Rightarrow> nat \<Rightarrow> bool" where
  "blk S ws k x \<longleftrightarrow> k < length ws \<and> ws ! k \<noteq> 0 \<and>
     (let w = unat (ws ! k); b = S w + occ (take k ws) w * 2 ^ (w - 1) in b \<le> x \<and> x < b + 2 ^ (w - 1))"

lemma blk_Suc:
  assumes "w \<noteq> 0"
  shows "blk S (w # ws) (Suc k) x \<longleftrightarrow> blk (S(unat w := S (unat w) + 2 ^ (unat w - 1))) ws k x"
  by (auto simp: blk_def Let_def algebra_simps)

lemma blk_Suc_0: "blk S (0 # ws) (Suc k) x \<longleftrightarrow> blk S ws k x"
  by (auto simp: blk_def Let_def unat_eq_0)

lemma fill_table_spec:
  assumes "\<And>v. v < length marks \<Longrightarrow> marks ! v = S v" "\<forall>w \<in> set ws. unat w < length marks"
    "\<forall>w \<in> set ws. w \<noteq> 0 \<longrightarrow> S (unat w) + occ ws (unat w) * 2 ^ (unat w - 1) \<le> length table"
  shows "\<exists>t. fill_table tb i ws marks table = Inr t \<and> length t = length table
    \<and> (\<forall>x < length table. \<forall>k. blk S ws k x \<and> (\<forall>k'. blk S ws k' x \<longrightarrow> k' = k) \<longrightarrow> t ! x = huff_entry tb (i + k) (ws ! k))
    \<and> (\<forall>x < length table. (\<forall>k. \<not> blk S ws k x) \<longrightarrow> t ! x = table ! x)"
  using assms
proof (induction ws arbitrary: S i marks table)
  case Nil
  then show ?case by (simp add: blk_def)
next
  case (Cons w ws)
  show ?case
  proof (cases "w = 0")
    case True
    have "\<exists>t. fill_table tb (i + 1) ws marks table = Inr t \<and> length t = length table
      \<and> (\<forall>x < length table. \<forall>k. blk S ws k x \<and> (\<forall>k'. blk S ws k' x \<longrightarrow> k' = k) \<longrightarrow> t ! x = huff_entry tb (i + 1 + k) (ws ! k))
      \<and> (\<forall>x < length table. (\<forall>k. \<not> blk S ws k x) \<longrightarrow> t ! x = table ! x)"
    proof (rule Cons.IH)
      show "\<forall>w \<in> set ws. w \<noteq> 0 \<longrightarrow> S (unat w) + occ ws (unat w) * 2 ^ (unat w - 1) \<le> length table"
        using Cons.prems(3) True by (auto simp: unat_eq_0)
    qed (use Cons.prems in auto)
    then obtain t where t: "fill_table tb (i + 1) ws marks table = Inr t" "length t = length table"
      "\<And>x k. x < length table \<Longrightarrow> blk S ws k x \<Longrightarrow> \<forall>k'. blk S ws k' x \<longrightarrow> k' = k \<Longrightarrow> t ! x = huff_entry tb (i + 1 + k) (ws ! k)"
      "\<And>x. x < length table \<Longrightarrow> \<forall>k. \<not> blk S ws k x \<Longrightarrow> t ! x = table ! x" by blast
    have n0: "\<not> blk S (w # ws) 0 x" for x using True by (simp add: blk_def)
    have "t ! x = huff_entry tb (i + k) ((w # ws) ! k)"
      if "x < length table" "blk S (w # ws) k x" "\<forall>k'. blk S (w # ws) k' x \<longrightarrow> k' = k" for x k
    proof (cases k)
      case (Suc j)
      then have "blk S ws j x" "\<forall>k'. blk S ws k' x \<longrightarrow> k' = j" using that(2,3) True by (metis blk_Suc_0 Suc_inject)+
      from t(3) [OF that(1) this] Suc show ?thesis by simp
    qed (use that(2) n0 in simp)
    moreover have "t ! x = table ! x" if "x < length table" "\<forall>k. \<not> blk S (w # ws) k x" for x
    proof (rule t(4) [OF that(1)])
      show "\<forall>k. \<not> blk S ws k x" using that(2) True blk_Suc_0 by blast
    qed
    moreover have "fill_table tb i (w # ws) marks table = Inr t" using True t(1) by simp
    ultimately show ?thesis using t(2) by blast
  next
    case False
    define len where "len = (2::nat) ^ (unat w - 1)"
    define S' where "S' = S(unat w := S (unat w) + len)"
    let ?marks = "marks[unat w := S (unat w) + len]"
    have m: "marks ! unat w = S (unat w)" "unat w < length marks" using Cons.prems by auto
    have room: "S (unat w) + len \<le> length table" using Cons.prems(3) False by (auto simp: len_def)
    from fill_range_spec [OF room, of "huff_entry tb i w"] obtain t1 where
      t1: "fill_range table (S (unat w)) len (huff_entry tb i w) = Inr t1" "length t1 = length table"
      "\<And>x. x < length table \<Longrightarrow> t1 ! x = (if S (unat w) \<le> x \<and> x < S (unat w) + len then huff_entry tb i w else table ! x)" by blast
    have "\<exists>t. fill_table tb (i + 1) ws ?marks t1 = Inr t \<and> length t = length t1
      \<and> (\<forall>x < length t1. \<forall>k. blk S' ws k x \<and> (\<forall>k'. blk S' ws k' x \<longrightarrow> k' = k) \<longrightarrow> t ! x = huff_entry tb (i + 1 + k) (ws ! k))
      \<and> (\<forall>x < length t1. (\<forall>k. \<not> blk S' ws k x) \<longrightarrow> t ! x = t1 ! x)"
    proof (rule Cons.IH)
      show "\<forall>v \<in> set ws. v \<noteq> 0 \<longrightarrow> S' (unat v) + occ ws (unat v) * 2 ^ (unat v - 1) \<le> length t1"
      proof (intro ballI impI)
        fix v assume v: "v \<in> set ws" "v \<noteq> 0"
        then have "S (unat v) + occ (w # ws) (unat v) * 2 ^ (unat v - 1) \<le> length table" using Cons.prems(3) by simp
        then show "S' (unat v) + occ ws (unat v) * 2 ^ (unat v - 1) \<le> length t1"
          using t1(2) by (auto simp: S'_def len_def algebra_simps split: if_splits)
      qed
      show "\<forall>v \<in> set ws. unat v < length ?marks" using Cons.prems(2) by simp
      show "?marks ! v = S' v" if "v < length ?marks" for v
        using Cons.prems(1) [of v] that by (simp add: S'_def nth_list_update)
    qed
    then obtain t where t: "fill_table tb (i + 1) ws ?marks t1 = Inr t" "length t = length table"
      "\<And>x k. x < length table \<Longrightarrow> blk S' ws k x \<Longrightarrow> \<forall>k'. blk S' ws k' x \<longrightarrow> k' = k \<Longrightarrow> t ! x = huff_entry tb (i + 1 + k) (ws ! k)"
      "\<And>x. x < length table \<Longrightarrow> \<forall>k. \<not> blk S' ws k x \<Longrightarrow> t ! x = t1 ! x" unfolding t1(2) by blast
    have bS: "blk S (w # ws) (Suc k) x \<longleftrightarrow> blk S' ws k x" for k x
      using blk_Suc [OF False] by (simp add: S'_def len_def)
    have b0: "blk S (w # ws) 0 x \<longleftrightarrow> S (unat w) \<le> x \<and> x < S (unat w) + len" for x
      using False by (simp add: blk_def len_def Let_def)
    have "t ! x = huff_entry tb (i + k) ((w # ws) ! k)"
      if x: "x < length table" "blk S (w # ws) k x" "\<forall>k'. blk S (w # ws) k' x \<longrightarrow> k' = k" for x k
    proof (cases k)
      case 0
      then have "\<forall>k. \<not> blk S' ws k x" using x(3) bS by auto
      with t(4) [OF x(1)] t1(3) [OF x(1)] 0 x(2) b0 show ?thesis by simp
    next
      case (Suc j)
      then have "blk S' ws j x" "\<forall>k'. blk S' ws k' x \<longrightarrow> k' = j" using x(2,3) bS by (blast, metis Suc_inject)
      from t(3) [OF x(1) this] Suc show ?thesis by simp
    qed
    moreover have "t ! x = table ! x" if "x < length table" "\<forall>k. \<not> blk S (w # ws) k x" for x
      using that t(4) [OF that(1)] t1(3) [OF that(1)] bS b0 by metis
    moreover have "fill_table tb i (w # ws) marks table = Inr t" using False m t1(1) t(1) by (simp add: Let_def len_def)
    ultimately show ?thesis using t(2) by blast
  qed
qed

section \<open>The blocks partition the table\<close>

lemma div_nat_iff: "0 < l \<Longrightarrow> x div l = c \<longleftrightarrow> c * l \<le> x \<and> x < (c + 1) * (l::nat)"
  using div_less_iff_less_mult [of l x "c + 1"] less_eq_div_iff_mult_less_eq [of l c x] by linarith

lemma occ_nth:
  assumes "c < count_list xs v"
  shows "\<exists>k < length xs. xs ! k = v \<and> count_list (take k xs) v = c"
  using assms
proof (induction xs rule: rev_induct)
  case (snoc x xs)
  show ?case
  proof (cases "c < count_list xs v")
    case True
    with snoc.IH obtain k where "k < length xs" "xs ! k = v" "count_list (take k xs) v = c" by blast
    then show ?thesis by (intro exI [of _ k]) (simp add: nth_append)
  next
    case False
    with snoc.prems have "x = v" "count_list xs v = c" by (auto split: if_splits)
    then show ?thesis by (intro exI [of _ "length xs"]) simp
  qed
qed simp

lemma occ_take_less:
  assumes "k < k'" "k' \<le> length xs" "xs ! k = v"
  shows "count_list (take k xs) v < count_list (take k' xs) v"
proof -
  have "take k' xs = take k xs @ xs ! k # drop (Suc k) (take k' xs)"
    using assms(1,2) id_take_nth_drop [of k "take k' xs"] by (simp add: min_def)
  then have "count_list (take k' xs) v = count_list (take k xs) v + Suc (count_list (drop (Suc k) (take k' xs)) v)"
    using assms(3) by (metis count_list_append count_list.simps(2) add.commute plus_1_eq_Suc)
  then show ?thesis by simp
qed

lemma occ_take_le: "k < length xs \<Longrightarrow> xs ! k = v \<Longrightarrow> count_list (take k xs) v < count_list xs v"
  using occ_take_less [of k "length xs" xs v] by simp

lemma kraft_start:
  assumes "\<forall>w \<in> set ws. unat w \<le> tb"
  shows "sum_list (map kraft ws) = start_of (occ ws) (Suc tb)"
proof -
  have k: "kraft w = (\<Sum>u \<in> {1..<Suc tb}. (if u = unat w then 1 else 0) * 2 ^ (u - 1))" if "unat w \<le> tb" for w
  proof -
    have "(\<Sum>u \<in> {1..<Suc tb}. (if u = unat w then 1 else 0) * 2 ^ (u - 1)) = (\<Sum>u \<in> {1..<Suc tb}. if u = unat w then 2 ^ (u - 1) else (0::nat))"
      by (rule sum.cong) simp_all
    also have "\<dots> = kraft w" using that by (auto simp: sum.delta kraft_def unat_eq_0 unat_gt_0 not_le)
    finally show ?thesis ..
  qed
  show ?thesis using assms unfolding start_of_def
  proof (induction ws)
    case (Cons w ws)
    have "(\<Sum>u \<in> {1..<Suc tb}. occ (w # ws) u * 2 ^ (u - 1))
        = (\<Sum>u \<in> {1..<Suc tb}. (if u = unat w then 1 else 0) * 2 ^ (u - 1) + occ ws u * 2 ^ (u - 1))"
      by (rule sum.cong) auto
    also have "\<dots> = kraft w + (\<Sum>u \<in> {1..<Suc tb}. occ ws u * 2 ^ (u - 1))"
      using k [of w] Cons.prems by (simp only: sum.distrib) simp
    finally show ?case using Cons by simp
  qed simp
qed

lemma level_of:
  assumes "x < start_of c (Suc n)"
  shows "\<exists>v. 1 \<le> v \<and> v \<le> n \<and> start_of c v \<le> x \<and> x < start_of c (Suc v)"
  using assms
proof (induction n)
  case (Suc n)
  then show ?case by (cases "x < start_of c (Suc n)") (auto intro: le_SucI exI [of _ "Suc n"])
qed simp

lemma blk_exists:
  assumes b: "\<forall>w \<in> set ws. unat w \<le> tb" and x: "x < start_of (occ ws) (Suc tb)"
  shows "\<exists>k. blk (start_of (occ ws)) ws k x"
proof -
  from level_of [OF x] obtain v where v: "1 \<le> v" "v \<le> tb" "start_of (occ ws) v \<le> x" "x < start_of (occ ws) (Suc v)" by blast
  let ?c = "(x - start_of (occ ws) v) div 2 ^ (v - 1)"
  have "x - start_of (occ ws) v < occ ws v * 2 ^ (v - 1)" using v by (simp add: start_of_Suc)
  then have "?c < occ ws v" by (simp add: less_mult_imp_div_less)
  from occ_nth [OF this] obtain k where k: "k < length ws" "unat (ws ! k) = v" "occ (take k ws) v = ?c"
    by (auto simp: take_map)
  then have "ws ! k \<noteq> 0" using v(1) by auto
  moreover have "?c * 2 ^ (v - 1) \<le> x - start_of (occ ws) v" "x - start_of (occ ws) v < (?c + 1) * 2 ^ (v - 1)"
    using div_nat_iff [of "2 ^ (v - 1)" "x - start_of (occ ws) v" ?c] by simp_all
  then have "start_of (occ ws) v + ?c * 2 ^ (v - 1) \<le> x" "x < start_of (occ ws) v + ?c * 2 ^ (v - 1) + 2 ^ (v - 1)"
    using v(3) unfolding add_mult_distrib by linarith+
  ultimately show ?thesis using k by (intro exI [of _ k]) (simp add: blk_def Let_def)
qed

lemma blk_bounds:
  assumes "blk (start_of (occ ws)) ws k x" "v = unat (ws ! k)"
  shows "0 < v" "start_of (occ ws) v \<le> x" "x < start_of (occ ws) (Suc v)"
    "(x - start_of (occ ws) v) div 2 ^ (v - 1) = occ (take k ws) v"
proof -
  let ?S = "start_of (occ ws)" and ?c = "occ (take k ws) v" and ?l = "(2::nat) ^ (v - 1)"
  have k: "k < length ws" "ws ! k \<noteq> 0" and r: "?S v + ?c * ?l \<le> x" "x < ?S v + ?c * ?l + ?l"
    using assms by (auto simp: blk_def Let_def)
  show v: "0 < v" using k(2) assms(2) by (simp add: unat_gt_0)
  show "?S v \<le> x" using r by simp
  have "?c < occ ws v" using occ_take_le [of k "map unat ws" v] k(1) assms(2) by (simp add: take_map)
  then have "(?c + 1) * ?l \<le> occ ws v * ?l" by (intro mult_le_mono1) simp
  then show "x < ?S (Suc v)" using r v by (simp add: start_of_Suc)
  have "?c * ?l \<le> x - ?S v" "x - ?S v < (?c + 1) * ?l" using r by (simp_all add: algebra_simps)
  then show "(x - ?S v) div ?l = ?c" using div_nat_iff [of ?l "x - ?S v" ?c] by simp
qed

lemma blk_unique:
  assumes "blk (start_of (occ ws)) ws k x" "blk (start_of (occ ws)) ws k' x"
  shows "k = k'"
proof -
  define v where "v = unat (ws ! k)"
  define v' where "v' = unat (ws ! k')"
  note b = blk_bounds [OF assms(1) v_def] and b' = blk_bounds [OF assms(2) v'_def]
  have "v = v'"
  proof (rule ccontr)
    assume "v \<noteq> v'"
    then have "Suc v \<le> v' \<or> Suc v' \<le> v" by linarith
    then show False using start_of_mono [of "Suc v" v' "occ ws"] start_of_mono [of "Suc v'" v "occ ws"] b(2,3) b'(2,3) by linarith
  qed
  then have o: "count_list (take k (map unat ws)) v = count_list (take k' (map unat ws)) v" using b(4) b'(4) by (simp add: take_map)
  have "k < length ws" "k' < length ws" using assms by (simp_all add: blk_def)
  then show ?thesis using o occ_take_less [of k k' "map unat ws" v] occ_take_less [of k' k "map unat ws" v] \<open>v = v'\<close>
    by (cases k k' rule: linorder_cases) (simp_all add: v_def v'_def)
qed

text \<open>The weights add up to a power of two, so every block is aligned to its size.\<close>

lemma start_of_dvd:
  assumes "start_of c (Suc tb) = 2 ^ tb" "0 < v" "v \<le> tb"
  shows "2 ^ (v - 1) dvd start_of c v"
proof -
  have "start_of c (Suc tb) = start_of c v + (\<Sum>u \<in> {v..<Suc tb}. c u * 2 ^ (u - 1))"
    using assms(2,3) sum.union_disjoint [of "{1..<v}" "{v..<Suc tb}" "\<lambda>u. c u * 2 ^ (u - 1)"]
    by (simp add: start_of_def ivl_disj_un ivl_disj_int)
  moreover have "2 ^ (v - 1) dvd (\<Sum>u \<in> {v..<Suc tb}. c u * 2 ^ (u - 1))"
    by (rule dvd_sum) (auto intro!: dvd_mult le_imp_power_dvd)
  moreover have "(2::nat) ^ (v - 1) dvd 2 ^ tb" using assms(3) by (intro le_imp_power_dvd) simp
  ultimately show ?thesis using assms(1) by (metis dvd_add_left_iff)
qed

lemma blk_prefix:
  assumes "start_of (occ ws) (Suc tb) = 2 ^ tb" "k < length ws" "ws ! k \<noteq> 0" "unat (ws ! k) \<le> tb"
  shows "\<exists>c. \<forall>x. blk (start_of (occ ws)) ws k x \<longleftrightarrow> x div 2 ^ (unat (ws ! k) - 1) = c"
proof -
  let ?v = "unat (ws ! k)"
  let ?l = "(2::nat) ^ (?v - 1)"
  have "?l dvd start_of (occ ws) ?v" using assms by (intro start_of_dvd) (simp_all add: unat_gt_0)
  then obtain d where d: "start_of (occ ws) ?v = ?l * d" by blast
  let ?c = "d + occ (take k ws) ?v"
  have "blk (start_of (occ ws)) ws k x \<longleftrightarrow> ?c * ?l \<le> x \<and> x < (?c + 1) * ?l" for x
    using assms(2,3) by (simp add: blk_def Let_def d algebra_simps)
  then have "blk (start_of (occ ws)) ws k x \<longleftrightarrow> x div ?l = ?c" for x
    using div_nat_iff [of ?l x ?c] by simp
  then show ?thesis by blast
qed

section \<open>The code\<close>

text \<open>
  A complete prefix code: \<open>ws\<close> are the weights with the last one filled in. The code word of symbol \<open>k\<close> is a
  number of \<open>tb + 1 - w\<close> bits; the indexes that start with it hold the entry of the symbol, and no others do.
\<close>

definition huff_code :: "nat \<Rightarrow> u8 list \<Rightarrow> u16 list \<Rightarrow> bool" where
  "huff_code tb ws tab \<longleftrightarrow> 1 \<le> tb \<and> tb \<le> maxHuffmanBits \<and> length ws \<le> 256 \<and> (\<forall>w \<in> set ws. unat w \<le> tb)
     \<and> sum_list (map kraft ws) = 2 ^ tb \<and> 2 ^ tb \<le> length tab
     \<and> (\<forall>x < 2 ^ tb. \<exists>k < length ws. ws ! k \<noteq> 0 \<and> tab ! x = huff_entry tb k (ws ! k))
     \<and> (\<forall>k < length ws. ws ! k \<noteq> 0 \<longrightarrow>
          (\<exists>c < 2 ^ (tb + 1 - unat (ws ! k)). \<forall>x < 2 ^ tb. tab ! x = huff_entry tb k (ws ! k) \<longleftrightarrow> x div 2 ^ (unat (ws ! k) - 1) = c))"

lemma unat_huff_entry:
  assumes "k < 256" "w \<noteq> 0" "unat w \<le> tb" "tb \<le> 11"
  shows "unat (huff_entry tb k w) = 256 * k + (tb + 1 - unat w)"
proof -
  have w: "0 < unat w" using assms(2) by (simp add: unat_gt_0)
  have c: "(ucast w :: u16) = of_nat (unat w)" by (simp only: of_nat_unat)
  have "(of_nat tb + 1 - ucast w :: u16) = of_nat (tb + 1 - unat w)"
    unfolding c using assms(3) by (simp only: of_nat_diff of_nat_add of_nat_1)
  moreover have n: "tb + 1 - unat w < 256" using assms(4) by simp
  moreover have "(push_bit 8 (of_nat k) :: u16) = of_nat (256 * k)" by (simp add: push_bit_eq_mult mult.commute)
  ultimately have e: "huff_entry tb k w = of_nat (256 * k) OR of_nat (tb + 1 - unat w)" by (simp add: huff_entry_def)
  have "(256 * k) OR (tb + 1 - unat w) = push_bit 8 k OR take_bit 8 (tb + 1 - unat w)"
    using n by (simp add: push_bit_eq_mult mult.commute take_bit_nat_eq_self)
  also have "\<dots> = push_bit 8 k + take_bit 8 (tb + 1 - unat w)"
    by (rule disjunctive_add [symmetric]) (auto simp: bit_push_bit_iff bit_take_bit_iff)
  also have "\<dots> = 256 * k + (tb + 1 - unat w)"
    using n by (simp add: push_bit_eq_mult mult.commute take_bit_nat_eq_self)
  finally have "huff_entry tb k w = of_nat (256 * k + (tb + 1 - unat w))" unfolding e of_nat_or_eq [symmetric] by simp
  then show ?thesis using assms(1) n by (simp only: unat_of_nat) simp
qed

lemma fill_code:
  assumes tb: "1 \<le> tb" "tb \<le> 11" and ws: "length ws \<le> 256" "\<forall>w \<in> set ws. unat w \<le> tb" "sum_list (map kraft ws) = 2 ^ tb"
    and tab: "2 ^ tb \<le> length table" and st: "length starts = 13" "\<And>v. 0 < v \<Longrightarrow> v \<le> tb \<Longrightarrow> starts ! v = start_of (occ ws) v"
  shows "\<exists>t. fill_table tb 0 ws starts table = Inr t \<and> length t = length table \<and> huff_code tb ws t"
proof -
  let ?S = "start_of (occ ws)"
  define S where "S v = (if 0 < v \<and> v \<le> tb then ?S v else starts ! v)" for v
  have tot: "?S (Suc tb) = 2 ^ tb" using kraft_start [OF ws(2)] ws(3) by simp
  have SS: "S (unat w) = ?S (unat w)" if "w \<in> set ws" "w \<noteq> 0" for w using that ws(2) by (simp add: S_def unat_gt_0)
  have bS: "blk S ws k x \<longleftrightarrow> blk ?S ws k x" for k x
    using SS [of "ws ! k"] by (auto simp: blk_def Let_def)
  have "\<exists>t. fill_table tb 0 ws starts table = Inr t \<and> length t = length table
    \<and> (\<forall>x < length table. \<forall>k. blk S ws k x \<and> (\<forall>k'. blk S ws k' x \<longrightarrow> k' = k) \<longrightarrow> t ! x = huff_entry tb (0 + k) (ws ! k))
    \<and> (\<forall>x < length table. (\<forall>k. \<not> blk S ws k x) \<longrightarrow> t ! x = table ! x)"
  proof (rule fill_table_spec)
    show "starts ! v = S v" if "v < length starts" for v using st(2) by (simp add: S_def)
    show "\<forall>w \<in> set ws. unat w < length starts" using ws(2) tb(2) st(1) by auto
    show "\<forall>w \<in> set ws. w \<noteq> 0 \<longrightarrow> S (unat w) + occ ws (unat w) * 2 ^ (unat w - 1) \<le> length table"
    proof (intro ballI impI)
      fix w assume w: "w \<in> set ws" "w \<noteq> 0"
      then have "S (unat w) + occ ws (unat w) * 2 ^ (unat w - 1) = ?S (Suc (unat w))"
        using SS by (simp add: start_of_Suc unat_gt_0)
      also have "\<dots> \<le> 2 ^ tb" unfolding tot [symmetric] using ws(2) w(1) by (intro start_of_mono) simp
      finally show "S (unat w) + occ ws (unat w) * 2 ^ (unat w - 1) \<le> length table" using tab by simp
    qed
  qed
  then obtain t where t: "fill_table tb 0 ws starts table = Inr t" "length t = length table"
    and e: "\<And>x k. x < length table \<Longrightarrow> blk ?S ws k x \<Longrightarrow> t ! x = huff_entry tb k (ws ! k)"
    unfolding bS using blk_unique by (metis add_0)
  have ex: "\<exists>k < length ws. ws ! k \<noteq> 0 \<and> t ! x = huff_entry tb k (ws ! k)" if "x < 2 ^ tb" for x
    using blk_exists [OF ws(2), of x] that tot e [of x] tab by (auto simp: blk_def)
  have iff: "t ! x = huff_entry tb k (ws ! k) \<longleftrightarrow> blk ?S ws k x" if "x < 2 ^ tb" "k < length ws" "ws ! k \<noteq> 0" for x k
  proof
    assume eq: "t ! x = huff_entry tb k (ws ! k)"
    from blk_exists [OF ws(2), of x] that(1) tot obtain k' where k': "blk ?S ws k' x" by auto
    then have l: "k' < length ws" "ws ! k' \<noteq> 0" by (simp_all add: blk_def)
    have "huff_entry tb k' (ws ! k') = huff_entry tb k (ws ! k)" using e [OF _ k'] that(1) tab eq by simp
    then have "256 * k' + (tb + 1 - unat (ws ! k')) = 256 * k + (tb + 1 - unat (ws ! k))"
      using unat_huff_entry [of k' "ws ! k'" tb] unat_huff_entry [of k "ws ! k" tb] l that(2,3) ws(1,2) tb(2) by simp
    then have "k = k'" using tb(2) by linarith
    with k' show "blk ?S ws k x" by simp
  qed (use e that tab in simp)
  have "\<exists>c < 2 ^ (tb + 1 - unat (ws ! k)). \<forall>x < 2 ^ tb. t ! x = huff_entry tb k (ws ! k) \<longleftrightarrow> x div 2 ^ (unat (ws ! k) - 1) = c"
    if k: "k < length ws" "ws ! k \<noteq> 0" for k
  proof -
    let ?w = "unat (ws ! k)"
    have w: "0 < ?w" "?w \<le> tb" using k ws(2) by (simp_all add: unat_gt_0)
    obtain c where c: "\<And>x. blk ?S ws k x \<longleftrightarrow> x div 2 ^ (?w - 1) = c" using blk_prefix [OF tot k w(2)] by blast
    have "blk ?S ws k (c * 2 ^ (?w - 1))" using c by simp
    then have "c * 2 ^ (?w - 1) < ?S (Suc ?w)" by (rule blk_bounds(3)) simp
    also have "\<dots> \<le> 2 ^ tb" unfolding tot [symmetric] using w(2) by (intro start_of_mono) simp
    also have "(2::nat) ^ tb = 2 ^ (tb + 1 - ?w) * 2 ^ (?w - 1)" using w by (simp flip: power_add)
    finally have "c < 2 ^ (tb + 1 - ?w)" by simp
    with c iff [OF _ k] show ?thesis by blast
  qed
  with ex t tb ws tab show ?thesis by (auto simp: huff_code_def maxHuffmanBits_def)
qed

section \<open>The table read from the weights\<close>

definition huff_result :: "u8 list \<Rightarrow> u16 list \<Rightarrow> nat \<times> u16 list \<Rightarrow> bool" where
  "huff_result ws table r \<longleftrightarrow> (case r of (tb, t) \<Rightarrow> length t = length table \<and> (\<exists>w. huff_code tb (ws @ [w]) t))"

text \<open>The last weight fills the sum up to the next power of two.\<close>

lemma finish_huff:
  assumes ws: "length ws \<le> 255" "\<forall>w \<in> set ws. unat w \<le> 12" and mk: "length marks = 13" "\<forall>v < 13. marks ! v = occ ws v"
    and tb: "bitlen (sum_list (map kraft ws)) = tb" "0 < sum_list (map kraft ws)" "tb \<le> 11" "2 ^ tb \<le> length table"
    and hb: "2 ^ hb = 2 ^ tb - sum_list (map kraft ws)"
  shows "\<exists>starts t. mark_starts 0 tb 0 (marks[hb + 1 := marks ! (hb + 1) + 1]) = Inr starts
    \<and> fill_table tb 0 (ws @ [of_nat (hb + 1)]) starts table = Inr t \<and> huff_result ws table (tb, t) \<and> hb + 1 < 13"
proof -
  let ?K = "sum_list (map kraft ws)" and ?w = "of_nat (hb + 1) :: u8"
  have b: "2 ^ (tb - 1) \<le> ?K" "?K < 2 ^ tb" "0 < tb" using bitlen_bounds [OF tb(2)] tb(1) by auto
  have "(2::nat) ^ tb = 2 * 2 ^ (tb - 1)" using b(3) by (cases tb) simp_all
  then have "(2::nat) ^ hb \<le> 2 ^ (tb - 1)" using hb b by linarith
  then have h: "hb + 1 \<le> tb" using b(3) by (simp add: power_increasing_iff)
  then have uw: "unat ?w = hb + 1" using tb(3) by (simp only: unat_of_nat) simp
  then have w0: "?w \<noteq> 0" by auto
  have "\<forall>w \<in> set ws. unat w \<le> tb"
  proof
    fix w assume w: "w \<in> set ws"
    then have "kraft w \<le> ?K" by (intro member_le_sum_list) simp_all
    then have "kraft w < 2 ^ tb" using b(2) by simp
    then show "unat w \<le> tb" by (auto simp: kraft_def unat_eq_0 split: if_splits)
  qed
  with h uw have le: "\<forall>w \<in> set (ws @ [?w]). unat w \<le> tb" by simp
  have "kraft ?w = 2 ^ hb" using w0 uw by (simp add: kraft_def)
  then have tot: "sum_list (map kraft (ws @ [?w])) = 2 ^ tb" using hb b(2) by simp
  let ?marks = "marks[hb + 1 := marks ! (hb + 1) + 1]"
  have "?marks ! v = occ (ws @ [?w]) v" if "v < 13" for v
    using mk that h tb(3) uw by (simp add: nth_list_update)
  then have "\<exists>m. mark_starts 0 tb (start_of (occ (ws @ [?w])) (Suc 0)) ?marks = Inr m \<and> length m = length ?marks
    \<and> (\<forall>v. 0 < v \<and> v \<le> 0 + tb \<longrightarrow> m ! v = start_of (occ (ws @ [?w])) v) \<and> (\<forall>v. v \<le> 0 \<longrightarrow> m ! v = ?marks ! v)"
    using mk(1) tb(3) by (intro mark_starts_spec) simp_all
  then obtain m where m: "mark_starts 0 tb 0 ?marks = Inr m" "length m = 13"
    "\<And>v. 0 < v \<Longrightarrow> v \<le> tb \<Longrightarrow> m ! v = start_of (occ (ws @ [?w])) v" using mk(1) by auto
  have "\<exists>t. fill_table tb 0 (ws @ [?w]) m table = Inr t \<and> length t = length table \<and> huff_code tb (ws @ [?w]) t"
    using b(3) tb(3,4) ws(1) le tot m(2,3) by (intro fill_code) simp_all
  with m(1) h tb(3) show ?thesis by (auto simp: huff_result_def)
qed

lemma huff_table_ensures:
  assumes "length weights = 256" "count \<le> 255"
  shows "ensures (huff_table bo off weights count table) (huff_result (take count weights) table)"
proof -
  let ?ws = "take count weights"
  have z: "zslice weights 0 count = Inr ?ws" using assms by (simp add: slice_def)
  have fin: "ensures (if msk = 0 then makeError bo (int off) ''bad Huffman weights''
         else let tableBits = 32 - leadingZeros 32 msk
              in if maxHuffmanBits < tableBits then makeError bo (int off) ''bad Huffman weights''
                 else if length table < 2 ^ tableBits then makeError bo (int off) ''Huffman table too small''
                 else let left = 2 ^ tableBits - msk
                      in if left = 0 then makeError bo (int off) ''bad Huffman weights''
                         else let highBit = 31 - leadingZeros 32 left
                              in if 2 ^ highBit \<noteq> left then makeError bo (int off) ''bad Huffman weights''
                                 else if 256 \<le> count then makeError bo (int off) ''Huffman weight overflow''
                                 else rbind (zupd weights count (of_nat (highBit + 1))) (\<lambda>weights'.
                                   rbind (znth marks (highBit + 1)) (\<lambda>m.
                                     let marks' = marks[highBit + 1 := m + 1]
                                     in if marks' ! 1 < 2 \<or> odd (marks' ! 1) then makeError bo (int off) ''bad Huffman weights''
                                        else rbind (mark_starts 0 tableBits 0 marks') (\<lambda>starts.
                                          rbind (zslice weights' 0 (count + 1)) (\<lambda>ws'.
                                            rbind (fill_table tableBits 0 ws' starts table) (\<lambda>table'.
                                              Inr (tableBits, table'))))))) (huff_result ?ws table)"
    if mk: "length marks = 13" "\<forall>v < 13. marks ! v = replicate 13 0 ! v + occ ?ws v" "msk = 0 + sum_list (map kraft ?ws)"
      "\<forall>w \<in> set ?ws. unat w \<le> 12" for marks msk
  proof -
    define tb where "tb = 32 - leadingZeros 32 msk"
    define hb where "hb = 31 - leadingZeros 32 (2 ^ tb - msk)"
    have *: "ensures (rbind (zupd weights count (of_nat (hb + 1))) (\<lambda>weights'.
        rbind (znth marks (hb + 1)) (\<lambda>m.
          let marks' = marks[hb + 1 := m + 1]
          in if marks' ! 1 < 2 \<or> odd (marks' ! 1) then makeError bo (int off) ''bad Huffman weights''
             else rbind (mark_starts 0 tb 0 marks') (\<lambda>starts.
               rbind (zslice weights' 0 (count + 1)) (\<lambda>ws'.
                 rbind (fill_table tb 0 ws' starts table) (\<lambda>table'. Inr (tb, table'))))))) (huff_result ?ws table)"
      if g: "msk \<noteq> 0" "tb \<le> 11" "2 ^ tb \<le> length table" "2 ^ hb = 2 ^ tb - msk"
    proof -
      have pos: "0 < sum_list (map kraft ?ws)" using g(1) mk(3) by linarith
      have bl: "bitlen msk = tb" using g(2) by (auto simp: tb_def leadingZeros_def)
      have "\<exists>starts t. mark_starts 0 tb 0 (marks[hb + 1 := marks ! (hb + 1) + 1]) = Inr starts
        \<and> fill_table tb 0 (?ws @ [of_nat (hb + 1)]) starts table = Inr t \<and> huff_result ?ws table (tb, t) \<and> hb + 1 < 13"
        using assms(2) mk g bl by (intro finish_huff [OF _ _ _ _ _ pos]) simp_all
      then obtain starts t where r: "mark_starts 0 tb 0 (marks[hb + 1 := marks ! (hb + 1) + 1]) = Inr starts"
        "fill_table tb 0 (?ws @ [of_nat (hb + 1)]) starts table = Inr t" "huff_result ?ws table (tb, t)" "hb + 1 < 13" by blast
      have "slice (weights[count := of_nat (hb + 1)]) 0 (count + 1) = ?ws @ [of_nat (hb + 1)]"
        using assms by (simp add: slice_def take_Suc_conv_app_nth)
      then have "zslice (weights[count := of_nat (hb + 1)]) 0 (count + 1) = Inr (?ws @ [of_nat (hb + 1)])" using assms by simp
      with r show ?thesis using assms mk(1) by (simp add: Let_def)
    qed
    then show ?thesis unfolding Let_def tb_def [symmetric] hb_def [symmetric] maxHuffmanBits_def by (simp only: ensures_simps split: if_split) auto
  qed
  show ?thesis unfolding huff_table_def z rbind.simps
    by (rule ensures_rbind [OF mark_weights_ensures]) (use fin in \<open>auto simp del: One_nat_def\<close>)
qed

lemma readHuff_ensures:
  assumes "length data < 2 ^ 31" "slice_ok scratch"
  shows "ensures (readHuff bo data off table scratch) (\<lambda>(tb, off', t, scratch'). off < off' \<and> off' \<le> length data
    \<and> length t = length table \<and> slice_ok scratch' \<and> (\<exists>ws. huff_code tb ws t))"
proof (cases "length data \<le> off")
  case False
  have "ensures (huff_weights bo data (off + 1) (data ! off) scratch) (\<lambda>(weights, count, off', scratch').
    length weights = 256 \<and> count \<le> 255 \<and> off + 1 \<le> off' \<and> off' \<le> length data \<and> slice_ok scratch')"
    using False assms by (intro huff_weights_ensures) simp_all
  then show ?thesis unfolding readHuff_def if_not_P [OF False] Let_def
  proof (rule ensures_rbind)
    fix p :: "u8 list \<times> nat \<times> nat \<times> fse_slice"
    assume "case p of (weights, count, off', scratch') \<Rightarrow>
      length weights = 256 \<and> count \<le> 255 \<and> off + 1 \<le> off' \<and> off' \<le> length data \<and> slice_ok scratch'"
    then obtain weights count off' scratch' where p: "p = (weights, count, off', scratch')"
      "length weights = 256" "count \<le> 255" "off + 1 \<le> off'" "off' \<le> length data" "slice_ok scratch'" by (cases p) auto
    show "ensures (case p of (weights, count, off', scratch') \<Rightarrow>
        rbind (huff_table bo off' weights count table) (\<lambda>(tableBits, table'). Inr (tableBits, off', table', scratch')))
      (\<lambda>(tb, off', t, scratch'). off < off' \<and> off' \<le> length data \<and> length t = length table \<and> slice_ok scratch' \<and> (\<exists>ws. huff_code tb ws t))"
      unfolding p(1) prod.case
      by (rule ensures_rbind [OF huff_table_ensures [OF p(2,3)]]) (use p(4-6) in \<open>auto simp: huff_result_def\<close>)
  qed
qed (simp add: readHuff_def)

text \<open>
  C17. Every Huffman table that \<open>readHuff\<close> accepts is a complete prefix code, and reading one never panics. There are
  weights with a Kraft sum of exactly \<open>2 ^ tb\<close> such that each of the \<open>2 ^ tb\<close> table entries names a symbol of
  non-zero weight with its code length, and a symbol fills exactly the entries that start with its code.
\<close>

theorem huff_prefix_code:
  assumes "length data < 2 ^ 31" "slice_ok scratch"
  shows "ensures (readHuff bo data off table scratch) (\<lambda>(tb, off', t, scratch'). off < off' \<and> off' \<le> length data \<and> (\<exists>ws. huff_code tb ws t))"
  using readHuff_ensures [OF assms] by (rule ensures_mono) auto

theorem huff_prefix_code_witness:
  "\<exists>t s. readHuff 0 [128, 0x10, 0] 0 (replicate 4 0) ([], 0) = Inr (1, 2, t, s) \<and> (\<exists>ws. huff_code 1 ws t)"
proof -
  have "case readHuff 0 [128, 0x10, 0] 0 (replicate 4 0) ([], 0) of Inr (tb, off, t, s) \<Rightarrow> tb = 1 \<and> off = 2 | _ \<Rightarrow> False"
    by code_simp
  then obtain t s where r: "readHuff 0 [128, 0x10, 0] 0 (replicate 4 0) ([], 0) = Inr (1, 2, t, s)"
    by (auto split: sum.splits prod.splits)
  have "length [128, 0x10, 0 :: u8] < 2 ^ 31" "slice_ok ([], 0)" by (simp_all add: slice_ok_def)
  from ensures_exec [OF huff_prefix_code [OF this] r] r show ?thesis by auto
qed

end
