(* ===== verification/ZstdLiterals.thy ===== *)
theory ZstdLiterals
  imports ZstdHuffTable Xxhash
begin

text \<open>
  The state of the Zstandard reader (\<open>src/pkg/lib/zstd/zstd.go\<close>) and the literals section of a compressed block
  (\<open>src/pkg/lib/zstd/literals.go\<close>): raw and run-length literals, and Huffman coded ones in one stream or four.

  The fields \<open>compressedBuf\<close>, \<open>literals\<close> and \<open>scratch\<close> of the reader are buffers that are filled before they
  are read; they are not part of the state here. An operation returns the new state together with its result;
  after an error the reader is not used again.
\<close>

section \<open>The reader\<close>

text \<open>
  The underlying input: the bytes left, the error it reports at their end other than \<open>io.EOF\<close>, and whether it is
  an \<open>io.Seeker\<close> and if so the error its \<open>Seek\<close> returns.
\<close>

record zinput =
  idata :: bytes
  ierr :: "string option"
  iseek :: "string option option"

record Reader =
  inp :: zinput
  sawFrameHeader :: bool
  hasChecksum :: bool
  readOneFrame :: bool
  frameSizeUnknown :: bool
  remainingFrameSize :: u64
  blockOffset :: int
  buffer :: bytes
  boffset :: nat
  repeatedOffset1 :: u32
  repeatedOffset2 :: u32
  repeatedOffset3 :: u32
  huffmanTable :: "u16 list"
  huffmanTableBits :: nat
  zwindow :: window
  seqTables :: "fseBaselineEntry list list"
  seqTableBits :: "u8 list"
  seqTableBuffers :: "fseBaselineEntry list list"
  fseScratch :: fse_slice
  checksum :: xxhash64

text \<open>\<open>new(Reader)\<close>, with its input.\<close>

definition zeroReader :: "zinput \<Rightarrow> Reader" where
  "zeroReader i = \<lparr>inp = i, sawFrameHeader = False, hasChecksum = False, readOneFrame = False,
     frameSizeUnknown = False, remainingFrameSize = 0, blockOffset = 0, buffer = [], boffset = 0,
     repeatedOffset1 = 0, repeatedOffset2 = 0, repeatedOffset3 = 0, huffmanTable = [], huffmanTableBits = 0,
     zwindow = \<lparr>wsize = 0, wdata = [], woff = 0\<rparr>, seqTables = [[], [], []], seqTableBits = [0, 0, 0],
     seqTableBuffers = [[], [], []], fseScratch = ([], 0),
     checksum = \<lparr>xlen = 0, xv = (0, 0, 0, 0), xbuf = zeros 32, xcnt = 0\<rparr>\<rparr>"

section \<open>Raw and run-length literals\<close>

definition raw_size :: "int \<Rightarrow> bytes \<Rightarrow> nat \<Rightarrow> u8 \<Rightarrow> zerr + nat \<times> nat" where
  "raw_size bo data off hdr =
     (let kind = unat (drop_bit 2 hdr AND 3)
      in if kind = 0 \<or> kind = 2 then Inr (unat (drop_bit 3 hdr), off)
         else if kind = 1 then
           (if length data \<le> off then makeEOFError bo (int off)
            else Inr (unat (drop_bit 4 hdr) + push_bit 4 (unat (data ! off)), off + 1))
         else
           (if length data \<le> off + 1 then makeEOFError bo (int off)
            else Inr (unat (drop_bit 4 hdr) + push_bit 4 (unat (data ! off)) + push_bit 12 (unat (data ! (off + 1))), off + 2)))"

definition readRawRLELiterals :: "int \<Rightarrow> bytes \<Rightarrow> nat \<Rightarrow> u8 \<Rightarrow> bytes \<Rightarrow> zerr + nat \<times> bytes" where
  "readRawRLELiterals bo data off0 hdr outbuf =
     rbind (raw_size bo data off0 hdr) (\<lambda>(regeneratedSize, off).
       if 131072 < regeneratedSize then makeError bo (int off) ''literal size too large''
       else if hdr AND 3 = 0 then
         (if length data < off + regeneratedSize then makeError bo (int off) ''raw literal size too large''
          else rbind (zslice data off (off + regeneratedSize)) (\<lambda>b. Inr (off + regeneratedSize, outbuf @ b)))
       else
         (if length data \<le> off then makeError bo (int off) ''RLE literal missing''
          else Inr (off + 1, outbuf @ replicate regeneratedSize (data ! off))))"

section \<open>Huffman streams\<close>

text \<open>The table entry for the next bits, which stay in the reader.\<close>

definition fetchHuff :: "int \<Rightarrow> u16 list \<Rightarrow> u32 \<Rightarrow> reverseBitReader \<Rightarrow> zerr + u16 \<times> reverseBitReader" where
  "fetchHuff bo table huffBits rbr =
     rbind (fetch rbr (ucast huffBits)) (\<lambda>(got, r).
       if \<not> got then makeError bo (uint (roff r)) ''literals Huffman stream out of bits''
       else rbind (znth table (unat (drop_bit (unat (rcnt r - huffBits)) (rbits r) AND (push_bit (unat huffBits) 1 - 1)))) (\<lambda>t.
         Inr (t, r)))"

definition use_bits :: "u16 \<Rightarrow> reverseBitReader \<Rightarrow> reverseBitReader" where
  "use_bits t rbr = rbr\<lparr>rcnt := rcnt rbr - ucast (t AND 0xff)\<rparr>"

definition lit_byte :: "u16 \<Rightarrow> byte" where
  "lit_byte t = ucast (drop_bit 8 t)"

fun one_stream :: "int \<Rightarrow> u16 list \<Rightarrow> u32 \<Rightarrow> nat \<Rightarrow> reverseBitReader \<Rightarrow> bytes \<Rightarrow> zerr + bytes" where
  "one_stream bo table huffBits 0 rbr outbuf = Inr outbuf"
| "one_stream bo table huffBits (Suc n) rbr outbuf =
     rbind (fetchHuff bo table huffBits rbr) (\<lambda>(t, r).
       one_stream bo table huffBits n (use_bits t r) (outbuf @ [lit_byte t]))"

definition readLiteralsOneStream :: "Reader \<Rightarrow> bytes \<Rightarrow> nat \<Rightarrow> nat \<Rightarrow> nat \<Rightarrow> bytes \<Rightarrow> zerr + bytes" where
  "readLiteralsOneStream r data off compressedSize regeneratedSize outbuf =
     rbind (makeReverseBitReader (blockOffset r) data (int off + int compressedSize - 1) (int off - 2)) (\<lambda>rbr.
       one_stream (blockOffset r) (huffmanTable r) (of_nat (huffmanTableBits r)) regeneratedSize rbr outbuf)"

text \<open>\<open>outbuf[o] = byte(t >> 8)\<close> and the bits of the entry are used up.\<close>

definition put_lit :: "u16 \<Rightarrow> nat \<Rightarrow> reverseBitReader \<Rightarrow> bytes \<Rightarrow> zerr + reverseBitReader \<times> bytes" where
  "put_lit t o1 rbr outbuf = rbind (zupd outbuf o1 (lit_byte t)) (\<lambda>b. Inr (use_bits t rbr, b))"

text \<open>Turns \<open>i\<close> to \<open>i + k - 1\<close> of the loop; stream \<open>j\<close> writes at \<open>oj + i\<close>, the fourth while \<open>i < n4\<close>.\<close>

fun four_streams ::
  "int \<Rightarrow> u16 list \<Rightarrow> u32 \<Rightarrow> nat \<Rightarrow> nat \<Rightarrow> nat \<Rightarrow> nat \<times> nat \<times> nat \<times> nat \<Rightarrow>
   reverseBitReader \<times> reverseBitReader \<times> reverseBitReader \<times> reverseBitReader \<Rightarrow> bytes \<Rightarrow> zerr + bytes" where
  "four_streams bo table hb n4 i 0 os rs outbuf = Inr outbuf"
| "four_streams bo table hb n4 i (Suc k) (o1, o2, o3, o4) (rbr1, rbr2, rbr3, rbr4) outbuf =
     rbind (fetchHuff bo table hb rbr1) (\<lambda>(t1, r1).
     rbind (fetchHuff bo table hb rbr2) (\<lambda>(t2, r2).
     rbind (fetchHuff bo table hb rbr3) (\<lambda>(t3, r3).
     rbind (if i < n4 then rbind (fetchHuff bo table hb rbr4) (\<lambda>(t4, r4). put_lit t4 (o4 + i) r4 outbuf)
            else Inr (rbr4, outbuf)) (\<lambda>(r4, b4).
     rbind (put_lit t1 (o1 + i) r1 b4) (\<lambda>(r1', b1).
     rbind (put_lit t2 (o2 + i) r2 b1) (\<lambda>(r2', b2).
     rbind (put_lit t3 (o3 + i) r3 b2) (\<lambda>(r3', b3).
       four_streams bo table hb n4 (i + 1) k (o1, o2, o3, o4) (r1', r2', r3', r4) b3)))))))"

definition readLiteralsFourStreams :: "Reader \<Rightarrow> bytes \<Rightarrow> nat \<Rightarrow> nat \<Rightarrow> nat \<Rightarrow> bytes \<Rightarrow> zerr + bytes" where
  "readLiteralsFourStreams r data off0 totalStreamsSize regeneratedSize outbuf =
     (let bo = blockOffset r; regeneratedStreamSize = (regeneratedSize + 3) div 4
      in if length data \<le> off0 + 5 then makeEOFError bo (int off0)
         else if totalStreamsSize < 6 then makeError bo (int off0) ''total streams size too small for jump table''
         else if regeneratedSize < regeneratedStreamSize * 3
         then makeError bo (int off0) ''regenerated size too small to decode streams''
         else let streamSize1 = unat (get_le16 (drop off0 data));
                  streamSize2 = unat (get_le16 (drop (off0 + 2) data));
                  streamSize3 = unat (get_le16 (drop (off0 + 4) data));
                  tot = streamSize1 + streamSize2 + streamSize3
              in if totalStreamsSize - 6 < tot then makeEOFError bo (int off0 + 6)
                 else let streamSize4 = totalStreamsSize - 6 - tot;
                          off = off0 + 5;
                          off1 = off + streamSize1;
                          off2 = off1 + streamSize2;
                          off3 = off2 + streamSize3;
                          off4 = off3 + streamSize4;
                          out1 = length outbuf;
                          out2 = out1 + regeneratedStreamSize;
                          out3 = out2 + regeneratedStreamSize;
                          out4 = out3 + regeneratedStreamSize
                      in rbind (makeReverseBitReader bo data (int off1) (int off - 1)) (\<lambda>rbr1.
                         rbind (makeReverseBitReader bo data (int off2) (int off1 - 1)) (\<lambda>rbr2.
                         rbind (makeReverseBitReader bo data (int off3) (int off2 - 1)) (\<lambda>rbr3.
                         rbind (makeReverseBitReader bo data (int off4) (int off3 - 1)) (\<lambda>rbr4.
                           four_streams bo (huffmanTable r) (of_nat (huffmanTableBits r))
                             (regeneratedSize - regeneratedStreamSize * 3) 0 regeneratedStreamSize
                             (out1, out2, out3, out4) (rbr1, rbr2, rbr3, rbr4)
                             (outbuf @ zeros regeneratedSize))))))"

section \<open>The literals section\<close>

text \<open>The header: regenerated size, compressed size, number of streams and the new offset.\<close>

definition huff_sizes :: "int \<Rightarrow> bytes \<Rightarrow> nat \<Rightarrow> u8 \<Rightarrow> zerr + nat \<times> nat \<times> nat \<times> nat" where
  "huff_sizes bo data off hdr =
     (let kind = unat (drop_bit 2 hdr AND 3); h = drop_bit 4 (unat hdr); d = (\<lambda>i. unat (data ! (off + i)))
      in if kind = 0 \<or> kind = 1 then
           (if length data \<le> off + 1 then makeEOFError bo (int off)
            else Inr (h OR push_bit 4 (d 0 AND 0x3f), drop_bit 6 (d 0) OR push_bit 2 (d 1),
                      if kind = 0 then 1 else 4, off + 2))
         else if kind = 2 then
           (if length data \<le> off + 2 then makeEOFError bo (int off)
            else Inr (h OR push_bit 4 (d 0) OR push_bit 12 (d 1 AND 3), drop_bit 2 (d 1) OR push_bit 6 (d 2), 4, off + 3))
         else
           (if length data \<le> off + 3 then makeEOFError bo (int off)
            else Inr (h OR push_bit 4 (d 0) OR push_bit 12 (d 1 AND 0x3f),
                      drop_bit 6 (d 1) OR push_bit 2 (d 2) OR push_bit 10 (d 3), 4, off + 4)))"

text \<open>The Huffman tree, new or kept; the result is the reader, the size of the streams and the offset.\<close>

definition huff_tree :: "Reader \<Rightarrow> bytes \<Rightarrow> nat \<Rightarrow> u8 \<Rightarrow> nat \<Rightarrow> zerr + Reader \<times> nat \<times> nat" where
  "huff_tree r data off hdr compressedSize =
     (if hdr AND 3 = 2 then
        (let table = (if length (huffmanTable r) < 2 ^ maxHuffmanBits then replicate (2 ^ maxHuffmanBits) 0
                      else huffmanTable r)
         in rbind (readHuff (blockOffset r) data off table (fseScratch r)) (\<lambda>(bits, hoff, table', scratch).
              let r' = r\<lparr>huffmanTable := table', huffmanTableBits := bits, fseScratch := scratch\<rparr>
              in if int compressedSize < int hoff - int off
                 then makeError (blockOffset r) (int off) ''Huffman table too big''
                 else Inr (r', compressedSize - (hoff - off), hoff)))
      else if huffmanTableBits r = 0 then makeError (blockOffset r) (int off) ''missing literals Huffman tree''
      else Inr (r, compressedSize, off))"

definition readHuffLiterals :: "Reader \<Rightarrow> bytes \<Rightarrow> nat \<Rightarrow> u8 \<Rightarrow> bytes \<Rightarrow> zerr + Reader \<times> nat \<times> bytes" where
  "readHuffLiterals r data off0 hdr outbuf =
     rbind (huff_sizes (blockOffset r) data off0 hdr) (\<lambda>(regeneratedSize, compressedSize, streams, off).
       if 131072 < regeneratedSize then makeError (blockOffset r) (int off) ''literal size too large''
       else if length data < off + compressedSize then makeEOFError (blockOffset r) (int off)
       else rbind (huff_tree r data off hdr compressedSize) (\<lambda>(r', totalStreamsSize, off').
         rbind (if streams = 1 then readLiteralsOneStream r' data off' totalStreamsSize regeneratedSize outbuf
                else readLiteralsFourStreams r' data off' totalStreamsSize regeneratedSize outbuf) (\<lambda>outbuf'.
           Inr (r', off + compressedSize, outbuf'))))"

definition readLiterals :: "Reader \<Rightarrow> bytes \<Rightarrow> nat \<Rightarrow> bytes \<Rightarrow> zerr + Reader \<times> nat \<times> bytes" where
  "readLiterals r data off outbuf =
     (if length data \<le> off then makeEOFError (blockOffset r) (int off)
      else let hdr = data ! off
           in if hdr AND 3 = 0 \<or> hdr AND 3 = 1
              then rbind (readRawRLELiterals (blockOffset r) data (off + 1) hdr outbuf) (\<lambda>(off', b). Inr (r, off', b))
              else readHuffLiterals r data (off + 1) hdr outbuf)"

section \<open>Reading literals is safe\<close>

definition huff_ready :: "Reader \<Rightarrow> bool" where
  "huff_ready r \<longleftrightarrow> slice_ok (fseScratch r) \<and>
     (huffmanTableBits r = 0 \<or> (\<exists>ws. huff_code (huffmanTableBits r) ws (huffmanTable r)))"

definition lit_frame :: "Reader \<Rightarrow> Reader \<Rightarrow> bool" where
  "lit_frame r r' \<longleftrightarrow> (\<exists>t b s. r' = r\<lparr>huffmanTable := t, huffmanTableBits := b, fseScratch := s\<rparr>)"

lemma huff_code_entry:
  assumes "huff_code tb ws tab" "x < 2 ^ tb"
  obtains k where "k < length ws" "ws ! k \<noteq> 0" "unat (ws ! k) \<le> tb" "tab ! x = huff_entry tb k (ws ! k)"
    "unat (tab ! x AND 0xff) = tb + 1 - unat (ws ! k)" "lit_byte (tab ! x) = of_nat k"
proof -
  from assms obtain k where k: "k < length ws" "ws ! k \<noteq> 0" "tab ! x = huff_entry tb k (ws ! k)" by (auto simp: huff_code_def)
  with assms(1) have w: "unat (ws ! k) \<le> tb" "tb \<le> 11" "k < 256" by (auto simp: huff_code_def maxHuffmanBits_def)
  note e = unat_huff_entry [OF w(3) k(2) w(1,2)]
  have b: "tb + 1 - unat (ws ! k) < 256" using w(2) by simp
  have "(0xff :: u16) = 2 ^ 8 - 1" by simp
  then have "unat (tab ! x AND 0xff) = unat (tab ! x) mod 2 ^ 8" by (simp only: unat_and_mask(1))
  also have "\<dots> = tb + 1 - unat (ws ! k)" unfolding k(3) e using b by simp
  finally have low: "unat (tab ! x AND 0xff) = tb + 1 - unat (ws ! k)" .
  have "unat (drop_bit 8 (tab ! x)) = k" unfolding unat_drop_bit k(3) e using b by simp
  then have "lit_byte (tab ! x) = of_nat k" unfolding lit_byte_def by (metis of_nat_unat)
  with k w(1) low that show ?thesis by blast
qed

lemma huff_code_bits:
  assumes "huff_code tb ws tab" "x < 2 ^ tb"
  shows "unat (tab ! x AND 0xff) \<le> tb"
proof (rule huff_code_entry [OF assms])
  fix k assume "ws ! k \<noteq> 0" "unat (tab ! x AND 0xff) = tb + 1 - unat (ws ! k)"
  moreover from this have "0 < unat (ws ! k)" by (simp add: unat_gt_0)
  ultimately show ?thesis by linarith
qed

lemma fetchHuff_ensures:
  assumes h: "huff_code tb ws tab" and r: "rbr_ok rbr"
  shows "ensures (fetchHuff bo tab (of_nat tb) rbr) (\<lambda>(t, r). rbr_ok (use_bits t r))"
proof -
  have tb: "tb \<le> 11" "2 ^ tb \<le> length tab" using h by (simp_all add: huff_code_def maxHuffmanBits_def)
  have u: "unat (of_nat tb :: u32) = tb" "unat (ucast (of_nat tb :: u32) :: u8) = tb"
    using tb(1) by (simp_all add: unat_of_nat unsigned_ucast_eq take_bit_nat_eq_self)
  show ?thesis unfolding fetchHuff_def
  proof (rule ensures_rbind [OF fetch_ensures [OF r]])
    show "unat (ucast (of_nat tb :: u32) :: u8) \<le> 25" using u tb(1) by simp
  next
    fix p assume "case p of (got, r') \<Rightarrow> rbr_ok r' \<and> rdata r' = rdata rbr \<and> rstart r' = rstart rbr
      \<and> (got \<longrightarrow> unat (ucast (of_nat tb :: u32) :: u8) \<le> unat (rcnt r'))"
    then obtain got r1 where p: "p = (got, r1)" "rbr_ok r1" "got \<longrightarrow> tb \<le> unat (rcnt r1)" using u(2) by (cases p) auto
    define x where "x = unat (drop_bit (unat (rcnt r1 - of_nat tb)) (rbits r1) AND (push_bit tb 1 - 1))"
    have x: "x < 2 ^ tb" by (simp add: x_def unat_and_mask)
    have "rbr_ok (use_bits (tab ! x) r1)" if "tb \<le> unat (rcnt r1)"
    proof -
      note n = huff_code_bits [OF h x]
      have "unat (ucast (tab ! x AND 0xff) :: u32) = unat (tab ! x AND 0xff)"
        using n tb(1) by (simp add: unsigned_ucast_eq take_bit_nat_eq_self)
      then have "unat (rcnt r1 - ucast (tab ! x AND 0xff)) = unat (rcnt r1) - unat (tab ! x AND 0xff)"
        using n that by (simp add: unat_sub word_le_nat_alt)
      with p(2) show ?thesis by (auto simp: rbr_ok_def use_bits_def)
    qed
    then show "ensures (case p of (got, r) \<Rightarrow>
       if \<not> got then makeError bo (uint (roff r)) ''literals Huffman stream out of bits''
       else rbind (znth tab (unat (drop_bit (unat (rcnt r - of_nat tb)) (rbits r) AND (push_bit (unat (of_nat tb :: u32)) 1 - 1)))) (\<lambda>t.
         Inr (t, r))) (\<lambda>(t, r). rbr_ok (use_bits t r))"
      unfolding p(1) prod.case u(1) x_def [symmetric] using p(3) x tb(2) by (cases got) simp_all
  qed
qed

lemma one_stream_ensures:
  assumes "huff_code tb ws tab" "rbr_ok rbr"
  shows "ensures (one_stream bo tab (of_nat tb) n rbr outbuf) (\<lambda>b. length b = length outbuf + n)"
  using assms(2)
proof (induction n arbitrary: rbr outbuf)
  case (Suc n)
  show ?case unfolding one_stream.simps
    by (rule ensures_rbind [OF fetchHuff_ensures [OF assms(1) Suc.prems]])
      (auto intro!: ensures_mono [OF Suc.IH])
qed simp

lemma put_lit_ensures: "o1 < length b \<Longrightarrow> rbr_ok (use_bits t r) \<Longrightarrow>
    ensures (put_lit t o1 r b) (\<lambda>(r', b'). rbr_ok r' \<and> length b' = length b)"
  by (simp add: put_lit_def)

text \<open>Reading and placing one byte of a stream.\<close>

lemma four_streams_ensures:
  assumes h: "huff_code tb ws tab"
    and r: "rbr_ok r1" "rbr_ok r2" "rbr_ok r3" "rbr_ok r4"
    and o: "o1 + i + k \<le> length outbuf" "o2 + i + k \<le> length outbuf" "o3 + i + k \<le> length outbuf" "o4 + n4 \<le> length outbuf"
  shows "ensures (four_streams bo tab (of_nat tb) n4 i k (o1, o2, o3, o4) (r1, r2, r3, r4) outbuf) (\<lambda>b. length b = length outbuf)"
  using r o
proof (induction k arbitrary: i r1 r2 r3 r4 outbuf)
  case (Suc k)
  note f = fetchHuff_ensures [OF h]
  have s4: "ensures (if i < n4 then rbind (fetchHuff bo tab (of_nat tb) r4) (\<lambda>(t4, r4). put_lit t4 (o4 + i) r4 outbuf)
      else Inr (r4, outbuf)) (\<lambda>(r', b'). rbr_ok r' \<and> length b' = length outbuf)"
  proof (cases "i < n4")
    case True
    have "ensures (rbind (fetchHuff bo tab (of_nat tb) r4) (\<lambda>(t4, r4). put_lit t4 (o4 + i) r4 outbuf))
        (\<lambda>(r', b'). rbr_ok r' \<and> length b' = length outbuf)"
      by (rule ensures_rbind [OF f [OF Suc.prems(4)]]) (use True Suc.prems(8) in \<open>auto intro!: put_lit_ensures\<close>)
    with True show ?thesis by simp
  qed (use Suc.prems in simp)
  show ?case unfolding four_streams.simps
  proof (rule ensures_rbind [OF f [OF Suc.prems(1)]], goal_cases)
    case (1 p1)
    obtain t1 q1 where p1: "p1 = (t1, q1)" "rbr_ok (use_bits t1 q1)" using 1 by (cases p1) auto
    show ?case unfolding p1(1) prod.case
    proof (rule ensures_rbind [OF f [OF Suc.prems(2)]], goal_cases)
      case (1 p2)
      obtain t2 q2 where p2: "p2 = (t2, q2)" "rbr_ok (use_bits t2 q2)" using 1 by (cases p2) auto
      show ?case unfolding p2(1) prod.case
      proof (rule ensures_rbind [OF f [OF Suc.prems(3)]], goal_cases)
        case (1 p3)
        obtain t3 q3 where p3: "p3 = (t3, q3)" "rbr_ok (use_bits t3 q3)" using 1 by (cases p3) auto
        show ?case unfolding p3(1) prod.case
        proof (rule ensures_rbind [OF s4], goal_cases)
          case (1 p4)
          obtain q4 b4 where p4: "p4 = (q4, b4)" "rbr_ok q4" "length b4 = length outbuf" using 1 by (cases p4) auto
          show ?case unfolding p4(1) prod.case using p1(2) p2(2) p3(2) p4(2,3) Suc.prems(5-8)
            by (auto simp: put_lit_def intro!: ensures_mono [OF Suc.IH])
        qed
      qed
    qed
  qed
qed simp

lemma readLiteralsOneStream_ensures:
  assumes "huff_code (huffmanTableBits r) ws (huffmanTable r)" "length data < 2 ^ 31" "0 < off" "off + c \<le> length data"
  shows "ensures (readLiteralsOneStream r data off c n outbuf) (\<lambda>b. length b = length outbuf + n)"
  unfolding readLiteralsOneStream_def using assms(2-4)
  by (intro ensures_rbind [OF makeReverseBitReader_ensures] one_stream_ensures [OF assms(1)]) simp_all

lemma readLiteralsFourStreams_ensures:
  assumes h: "huff_code (huffmanTableBits r) ws (huffmanTable r)" and d: "length data < 2 ^ 31" "off + c \<le> length data"
  shows "ensures (readLiteralsFourStreams r data off c n outbuf) (\<lambda>b. length b = length outbuf + n)"
proof -
  define s where "s = (n + 3) div 4"
  define s1 where "s1 = unat (get_le16 (drop off data))"
  define s2 where "s2 = unat (get_le16 (drop (off + 2) data))"
  define s3 where "s3 = unat (get_le16 (drop (off + 4) data))"
  have s4: "n \<le> 4 * s" by (simp add: s_def)
  have "ensures (rbind (makeReverseBitReader bo data (int (off + 5 + s1)) (int (off + 5) - 1)) (\<lambda>rbr1.
                 rbind (makeReverseBitReader bo data (int (off + 5 + s1 + s2)) (int (off + 5 + s1) - 1)) (\<lambda>rbr2.
                 rbind (makeReverseBitReader bo data (int (off + 5 + s1 + s2 + s3)) (int (off + 5 + s1 + s2) - 1)) (\<lambda>rbr3.
                 rbind (makeReverseBitReader bo data (int (off + 5 + s1 + s2 + s3 + (c - 6 - (s1 + s2 + s3)))) (int (off + 5 + s1 + s2 + s3) - 1)) (\<lambda>rbr4.
                   four_streams bo (huffmanTable r) (of_nat (huffmanTableBits r)) (n - s * 3) 0 s
                     (length outbuf, length outbuf + s, length outbuf + s + s, length outbuf + s + s + s) (rbr1, rbr2, rbr3, rbr4)
                     (outbuf @ zeros n)))))) (\<lambda>b. length b = length outbuf + n)"
    if "6 \<le> c" "s * 3 \<le> n" "s1 + s2 + s3 \<le> c - 6" for bo
    using d that s4
    by (intro ensures_rbind [OF makeReverseBitReader_ensures] ensures_mono [OF four_streams_ensures [OF h]]) (linarith | simp)+
  then show ?thesis unfolding readLiteralsFourStreams_def Let_def s_def [symmetric] s1_def [symmetric] s2_def [symmetric] s3_def [symmetric]
    by (simp only: ensures_simps not_less not_le split: if_split) blast
qed

lemma lit_frame_refl [simp]: "lit_frame r r"
  unfolding lit_frame_def by (intro exI [of _ "huffmanTable r"] exI [of _ "huffmanTableBits r"] exI [of _ "fseScratch r"]) simp

lemma lit_frame_upd [simp]: "lit_frame r (r\<lparr>huffmanTable := t, huffmanTableBits := b, fseScratch := s\<rparr>)"
  unfolding lit_frame_def by blast

lemma huff_code_pos: "huff_code tb ws tab \<Longrightarrow> tb \<noteq> 0"
  by (auto simp: huff_code_def)

lemma huff_tree_ensures:
  assumes r: "huff_ready r" and d: "length data < 2 ^ 31"
  shows "ensures (huff_tree r data off hdr c) (\<lambda>(r', c', off'). huff_ready r' \<and> huffmanTableBits r' \<noteq> 0 \<and> lit_frame r r'
    \<and> off \<le> off' \<and> off' + c' \<le> off + c)"
proof (cases "hdr AND 3 = 2")
  case True
  define table where "table = (if length (huffmanTable r) < 2 ^ maxHuffmanBits then replicate (2 ^ maxHuffmanBits) 0 else huffmanTable r)"
  have s: "slice_ok (fseScratch r)" using r by (simp add: huff_ready_def)
  show ?thesis unfolding huff_tree_def if_P [OF True] Let_def table_def [symmetric]
    by (rule ensures_rbind [OF readHuff_ensures [OF d s]])
      (auto simp: huff_ready_def dest: huff_code_pos)
next
  case False
  with r show ?thesis by (auto simp: huff_tree_def)
qed

lemma huff_sizes_ensures: "0 < off \<Longrightarrow> ensures (huff_sizes bo data off hdr) (\<lambda>(n, c, streams, off'). 0 < off')"
  by (simp add: huff_sizes_def Let_def)

lemma readHuffLiterals_ensures:
  assumes r: "huff_ready r" and d: "length data < 2 ^ 31" "0 < off"
  shows "ensures (readHuffLiterals r data off hdr outbuf) (\<lambda>(r', off', b). huff_ready r' \<and> lit_frame r r'
    \<and> off' \<le> length data \<and> length b \<le> length outbuf + 131072)"
  unfolding readHuffLiterals_def
proof (rule ensures_rbind [OF huff_sizes_ensures [OF d(2)]], goal_cases)
  case (1 p)
  then obtain n c streams off1 where p: "p = (n, c, streams, off1)" "0 < off1" by (cases p) auto
  have "ensures (rbind (huff_tree r data off1 hdr c) (\<lambda>(r', c', off').
         rbind (if streams = 1 then readLiteralsOneStream r' data off' c' n outbuf
                else readLiteralsFourStreams r' data off' c' n outbuf) (\<lambda>outbuf'. Inr (r', off1 + c, outbuf'))))
      (\<lambda>(r', off', b). huff_ready r' \<and> lit_frame r r' \<and> off' \<le> length data \<and> length b \<le> length outbuf + 131072)"
    if g: "n \<le> 131072" "off1 + c \<le> length data"
  proof (rule ensures_rbind [OF huff_tree_ensures [OF r d(1)]], goal_cases)
    case (1 q)
    then obtain r' c' off' where q: "q = (r', c', off')" "huff_ready r'" "huffmanTableBits r' \<noteq> 0" "lit_frame r r'"
      "off1 \<le> off'" "off' + c' \<le> off1 + c" by (cases q) auto
    then obtain ws where h: "huff_code (huffmanTableBits r') ws (huffmanTable r')" by (auto simp: huff_ready_def)
    have "ensures (if streams = 1 then readLiteralsOneStream r' data off' c' n outbuf
        else readLiteralsFourStreams r' data off' c' n outbuf) (\<lambda>b. length b = length outbuf + n)"
      using readLiteralsOneStream_ensures [OF h d(1), of off' c' n outbuf]
        readLiteralsFourStreams_ensures [OF h d(1), of off' c' n outbuf] q p(2) g by simp
    then show ?case unfolding q(1) prod.case by (rule ensures_rbind) (use q g in simp)
  qed
  then show ?case unfolding p(1) prod.case by (simp only: ensures_simps not_less split: if_split) blast
qed

lemma readRawRLELiterals_ensures:
  "ensures (readRawRLELiterals bo data off hdr outbuf) (\<lambda>(off', b). off' \<le> length data \<and> length b \<le> length outbuf + 131072)"
  unfolding readRawRLELiterals_def
proof (rule ensures_rbind)
  show "ensures (raw_size bo data off hdr) (\<lambda>_. True)" by (simp add: raw_size_def Let_def)
qed (auto simp: length_slice split: prod.splits)

lemma readLiterals_ensures:
  assumes "huff_ready r" "length data < 2 ^ 31"
  shows "ensures (readLiterals r data off outbuf) (\<lambda>(r', off', b). huff_ready r' \<and> lit_frame r r'
    \<and> off' \<le> length data \<and> length b \<le> length outbuf + 131072)"
proof (cases "length data \<le> off")
  case False
  have "ensures (rbind (readRawRLELiterals (blockOffset r) data (off + 1) (data ! off) outbuf) (\<lambda>(off', b). Inr (r, off', b)))
      (\<lambda>(r', off', b). huff_ready r' \<and> lit_frame r r' \<and> off' \<le> length data \<and> length b \<le> length outbuf + 131072)"
    by (rule ensures_rbind [OF readRawRLELiterals_ensures]) (use assms in auto)
  with readHuffLiterals_ensures [OF assms, of "off + 1"] False show ?thesis by (simp add: readLiterals_def Let_def)
qed (simp add: readLiterals_def)

end
