(* ===== verification/ZstdBlock.thy ===== *)
theory ZstdBlock
  imports ZstdLiterals
begin

text \<open>
  The sequences of a compressed block, \<open>src/pkg/lib/zstd/block.go\<close>: the tables of the three codes, the
  repeated offsets, and the execution of the sequences against the literals, the output and the window.
  A match whose copy length is 0 would loop forever; it is \<open>ZDiverge\<close>.
\<close>

section \<open>Sequence tables\<close>

datatype seqCode = seqLiteral | seqOffset | seqMatch

fun kind_index :: "seqCode \<Rightarrow> nat" where
  "kind_index seqLiteral = 0"
| "kind_index seqOffset = 1"
| "kind_index seqMatch = 2"

record seqCodeInfoData =
  predefTable :: "fseBaselineEntry list"
  predefTableBits :: nat
  maxSym :: nat
  maxBits :: nat
  toBaseline :: "int \<Rightarrow> nat \<Rightarrow> fseEntry list \<Rightarrow> zerr + fseBaselineEntry list"

fun seqCodeInfo :: "seqCode \<Rightarrow> seqCodeInfoData" where
  "seqCodeInfo seqLiteral = \<lparr>predefTable = predefinedLiteralTable, predefTableBits = 6, maxSym = 35, maxBits = 9,
     toBaseline = makeLiteralBaselineFSE\<rparr>"
| "seqCodeInfo seqOffset = \<lparr>predefTable = predefinedOffsetTable, predefTableBits = 5, maxSym = 31, maxBits = 8,
     toBaseline = makeOffsetBaselineFSE\<rparr>"
| "seqCodeInfo seqMatch = \<lparr>predefTable = predefinedMatchTable, predefTableBits = 6, maxSym = 52, maxBits = 9,
     toBaseline = makeMatchBaselineFSE\<rparr>"

definition set_table :: "Reader \<Rightarrow> seqCode \<Rightarrow> fseBaselineEntry list \<Rightarrow> u8 \<Rightarrow> Reader" where
  "set_table r kind table bits = r\<lparr>seqTables := (seqTables r)[kind_index kind := table],
     seqTableBits := (seqTableBits r)[kind_index kind := bits]\<rparr>"

text \<open>
  The buffer of a kind, allocated at its first use; \<open>toBaseline\<close> writes a prefix of it, which becomes the table.
  A table that shares the buffer is always replaced in the same step, so that its contents are a value.
\<close>

definition table_buffer :: "Reader \<Rightarrow> seqCode \<Rightarrow> fseBaselineEntry list" where
  "table_buffer r kind =
     (let buf = seqTableBuffers r ! kind_index kind
      in if buf = [] then replicate (2 ^ maxBits (seqCodeInfo kind)) (baseline_entry (0, 0, 0, 0)) else buf)"

definition use_buffer :: "Reader \<Rightarrow> seqCode \<Rightarrow> nat \<Rightarrow> nat \<Rightarrow> fseEntry list \<Rightarrow> zerr + Reader \<times> fseBaselineEntry list" where
  "use_buffer r kind off n entries =
     rbind (zslice (table_buffer r kind) 0 n) (\<lambda>_.
       rbind (toBaseline (seqCodeInfo kind) (blockOffset r) off entries) (\<lambda>table.
         Inr (r\<lparr>seqTableBuffers := (seqTableBuffers r)[kind_index kind := table @ drop n (table_buffer r kind)]\<rparr>, table)))"

definition setSeqTable :: "Reader \<Rightarrow> bytes \<Rightarrow> nat \<Rightarrow> seqCode \<Rightarrow> u8 \<Rightarrow> zerr + Reader \<times> nat" where
  "setSeqTable r data off kind mode =
     (let info = seqCodeInfo kind; bo = blockOffset r
      in if mode = 0 then Inr (set_table r kind (predefTable info) (of_nat (predefTableBits info)), off)
         else if mode = 1 then
           (if length data \<le> off then makeEOFError bo (int off)
            else rbind (use_buffer r kind (off + 1) 1 [\<lparr>fsym = data ! off, fbits = 0, fbase = 0\<rparr>]) (\<lambda>(r', table).
              Inr (set_table r' kind table 0, off + 1)))
         else if mode = 2 then
           (let backing = (if length (fst (fseScratch r)) < 2 ^ maxBits info then replicate (2 ^ maxBits info) fse0
                           else fst (fseScratch r));
                len = 2 ^ maxBits info
            in rbind (zslice backing 0 len) (\<lambda>scratch.
                 rbind (readFSE bo data off (maxSym info) (maxBits info) scratch) (\<lambda>(tableBits, roff, fse).
                   rbind (zslice fse 0 (2 ^ tableBits)) (\<lambda>fse'.
                     let r1 = r\<lparr>fseScratch := (fse @ drop len backing, 2 ^ tableBits)\<rparr>
                     in rbind (use_buffer r1 kind roff (2 ^ tableBits) fse') (\<lambda>(r2, table).
                          Inr (set_table r2 kind table (of_nat tableBits), roff))))))
         else if mode = 3 then
           (if seqTables r ! kind_index kind = [] then makeError bo (int off) ''missing repeat sequence FSE table''
            else Inr (r, off))
         else Inl (ZPanic Unreachable))"

definition seq_count :: "int \<Rightarrow> bytes \<Rightarrow> nat \<Rightarrow> u8 \<Rightarrow> zerr + nat \<times> nat" where
  "seq_count bo data off seqHdr =
     (if seqHdr < 128 then Inr (unat seqHdr, off)
      else if seqHdr < 255 then
        (if length data \<le> off then makeEOFError bo (int off)
         else Inr (push_bit 8 (unat seqHdr - 128) + unat (data ! off), off + 1))
      else
        (if length data \<le> off + 1 then makeEOFError bo (int off)
         else Inr (unat (data ! off) + push_bit 8 (unat (data ! (off + 1))) + 0x7f00, off + 2)))"

definition initSeqs :: "Reader \<Rightarrow> bytes \<Rightarrow> nat \<Rightarrow> zerr + Reader \<times> nat \<times> nat" where
  "initSeqs r data off0 =
     (if length data \<le> off0 then makeEOFError (blockOffset r) (int off0)
      else let seqHdr = data ! off0
           in if seqHdr = 0 then Inr (r, 0, off0 + 1)
              else rbind (seq_count (blockOffset r) data (off0 + 1) seqHdr) (\<lambda>(seqCount, off).
                if length data \<le> off then makeEOFError (blockOffset r) (int off)
                else let symMode = data ! off
                     in if symMode AND 3 \<noteq> 0 then makeError (blockOffset r) (int off) ''invalid symbol compression mode''
                        else rbind (setSeqTable r data (off + 1) seqLiteral (drop_bit 6 symMode AND 3)) (\<lambda>(r1, off1).
                          rbind (setSeqTable r1 data off1 seqOffset (drop_bit 4 symMode AND 3)) (\<lambda>(r2, off2).
                            rbind (setSeqTable r2 data off2 seqMatch (drop_bit 2 symMode AND 3)) (\<lambda>(r3, off3).
                              Inr (r3, seqCount, off3))))))"

section \<open>Copying matches\<close>

text \<open>The loop that copies bytes that the same copy adds.\<close>

function copy_loop :: "bytes \<Rightarrow> u32 \<Rightarrow> u32 \<Rightarrow> zerr + bytes" where
  "copy_loop buf bufferOffset match =
     (if 0 < match then
        (let copy = min (of_nat (length buf) - bufferOffset) match
         in if copy = 0 then Inl ZDiverge
            else case zslice buf (unat bufferOffset) (unat (bufferOffset + copy)) of
                   Inl e \<Rightarrow> Inl e
                 | Inr b \<Rightarrow> copy_loop (buf @ b) bufferOffset (match - copy))
      else Inr buf)"
  by pat_completeness auto
termination
proof (relation "measure (\<lambda>(_, _, m). unat m)", goal_cases)
  case (2 buf bo m copy)
  then have "copy \<le> m" "copy \<noteq> 0" by simp_all
  then have "unat (m - copy) = unat m - unat copy" "0 < unat copy" "unat copy \<le> unat m"
    by (simp_all add: unat_sub word_le_nat_alt unat_gt_0)
  then show ?case by simp
qed simp

declare copy_loop.simps [simp del]

definition copyFromWindow :: "Reader \<Rightarrow> reverseBitReader \<Rightarrow> u32 \<Rightarrow> u32 \<Rightarrow> zerr + Reader" where
  "copyFromWindow r rbr offset match =
     (if offset = 0 then makeError (blockOffset r) (uint (roff rbr)) ''invalid zero offset''
      else let lenBlock = of_nat (length (buffer r))
           in if lenBlock < offset then
                let lenWindow = wlen (zwindow r); copy0 = offset - lenBlock
                in if lenWindow < copy0 then makeError (blockOffset r) (uint (roff rbr)) ''offset past window''
                   else let windowOffset = lenWindow - copy0; copy = (if match < copy0 then match else copy0)
                        in rbind (wappendTo (zwindow r) (buffer r) windowOffset (windowOffset + copy)) (\<lambda>buf.
                             rbind (copy_loop buf 0 (match - copy)) (\<lambda>buf'. Inr (r\<lparr>buffer := buf'\<rparr>)))
              else rbind (copy_loop (buffer r) (lenBlock - offset) match) (\<lambda>buf'. Inr (r\<lparr>buffer := buf'\<rparr>)))"

section \<open>Repeated offsets\<close>

definition repeat_offset :: "Reader \<Rightarrow> u8 \<Rightarrow> u32 \<Rightarrow> u32 \<Rightarrow> Reader \<times> u32" where
  "repeat_offset r bits offset0 literal =
     (if 1 < bits then
        (r\<lparr>repeatedOffset3 := repeatedOffset2 r, repeatedOffset2 := repeatedOffset1 r, repeatedOffset1 := offset0\<rparr>, offset0)
      else let offset = (if literal = 0 then offset0 + 1 else offset0)
           in if offset = 1 then (r, repeatedOffset1 r)
              else if offset = 2 then
                (r\<lparr>repeatedOffset2 := repeatedOffset1 r, repeatedOffset1 := repeatedOffset2 r\<rparr>, repeatedOffset2 r)
              else if offset = 3 then
                (r\<lparr>repeatedOffset3 := repeatedOffset2 r, repeatedOffset2 := repeatedOffset1 r,
                   repeatedOffset1 := repeatedOffset3 r\<rparr>, repeatedOffset3 r)
              else if offset = 4 then
                (r\<lparr>repeatedOffset3 := repeatedOffset2 r, repeatedOffset2 := repeatedOffset1 r,
                   repeatedOffset1 := repeatedOffset1 r - 1\<rparr>, repeatedOffset1 r - 1)
              else (r, offset))"

section \<open>Executing the sequences\<close>

text \<open>The three states of the sequence codes and the bit reader.\<close>

record seq_reader =
  lstate :: u32
  ostate :: u32
  mstate :: u32
  srbr :: reverseBitReader

text \<open>A sequence as it is read: literal length, offset and match length.\<close>

definition next_states ::
  "int \<Rightarrow> fseBaselineEntry \<Rightarrow> fseBaselineEntry \<Rightarrow> fseBaselineEntry \<Rightarrow> seq_reader \<Rightarrow> zerr + seq_reader" where
  "next_states bo ptliteral ptmatch ptoffset s =
     rbind (rval bo (srbr s) (sbits ptliteral)) (\<lambda>(add1, rbr1).
     rbind (rval bo rbr1 (sbits ptmatch)) (\<lambda>(add2, rbr2).
     rbind (rval bo rbr2 (sbits ptoffset)) (\<lambda>(add3, rbr3).
       Inr \<lparr>lstate = ucast (sbase ptliteral) + add1, ostate = ucast (sbase ptoffset) + add3,
            mstate = ucast (sbase ptmatch) + add2, srbr = rbr3\<rparr>)))"

definition read_seq :: "Reader \<Rightarrow> bool \<Rightarrow> seq_reader \<Rightarrow> zerr + Reader \<times> (u32 \<times> u32 \<times> u32) \<times> seq_reader" where
  "read_seq r again s =
     (let bo = blockOffset r
      in rbind (znth (seqTables r ! 1) (unat (ostate s))) (\<lambda>ptoffset.
         rbind (znth (seqTables r ! 2) (unat (mstate s))) (\<lambda>ptmatch.
         rbind (znth (seqTables r ! 0) (unat (lstate s))) (\<lambda>ptliteral.
         rbind (rval bo (srbr s) (basebits ptoffset)) (\<lambda>(add1, rbr1).
         rbind (rval bo rbr1 (basebits ptmatch)) (\<lambda>(add2, rbr2).
         rbind (rval bo rbr2 (basebits ptliteral)) (\<lambda>(add3, rbr3).
           let match = baseline ptmatch + add2;
               literal = baseline ptliteral + add3;
               (r', offset) = repeat_offset r (basebits ptoffset) (baseline ptoffset + add1) literal
           in rbind (if again then next_states bo ptliteral ptmatch ptoffset (s\<lparr>srbr := rbr3\<rparr>)
                     else Inr (s\<lparr>srbr := rbr3\<rparr>)) (\<lambda>s'.
                Inr (r', (literal, offset, match), s')))))))))"

definition exec_seq :: "Reader \<Rightarrow> reverseBitReader \<Rightarrow> u32 \<times> u32 \<times> u32 \<Rightarrow> bytes \<Rightarrow> zerr + Reader \<times> bytes" where
  "exec_seq r rbr sq litbuf =
     (case sq of (literal, offset, match) \<Rightarrow>
        if of_nat (length litbuf) < literal then makeError (blockOffset r) (uint (roff rbr)) ''literal byte overflow''
        else rbind (zslice litbuf 0 (unat literal)) (\<lambda>lit.
          let r1 = r\<lparr>buffer := buffer r @ lit\<rparr>; litbuf' = drop (unat literal) litbuf
          in rbind (if 0 < match then copyFromWindow r1 rbr offset match else Inr r1) (\<lambda>r2. Inr (r2, litbuf'))))"

fun seq_loop :: "nat \<Rightarrow> Reader \<Rightarrow> bytes \<Rightarrow> seq_reader \<Rightarrow> zerr + Reader \<times> bytes \<times> seq_reader" where
  "seq_loop 0 r litbuf s = Inr (r, litbuf, s)"
| "seq_loop (Suc n) r litbuf s =
     (if 131072 < length (buffer r) + length litbuf
      then makeError (blockOffset r) (uint (roff (srbr s))) ''uncompressed size too big''
      else rbind (read_seq r (0 < n) s) (\<lambda>(r1, sq, s').
        rbind (exec_seq r1 (srbr s') sq litbuf) (\<lambda>(r2, litbuf').
          seq_loop n r2 litbuf' s')))"

definition execSeqs :: "Reader \<Rightarrow> bytes \<Rightarrow> nat \<Rightarrow> bytes \<Rightarrow> nat \<Rightarrow> zerr + Reader" where
  "execSeqs r data off litbuf seqCount =
     (let bo = blockOffset r
      in rbind (makeReverseBitReader bo data (int (length data) - 1) (int off)) (\<lambda>rbr.
         rbind (rval bo rbr (seqTableBits r ! 0)) (\<lambda>(ls, rbr1).
         rbind (rval bo rbr1 (seqTableBits r ! 1)) (\<lambda>(os, rbr2).
         rbind (rval bo rbr2 (seqTableBits r ! 2)) (\<lambda>(ms, rbr3).
         rbind (seq_loop seqCount r litbuf \<lparr>lstate = ls, ostate = os, mstate = ms, srbr = rbr3\<rparr>) (\<lambda>(r', litbuf', s).
           let r2 = r'\<lparr>buffer := buffer r' @ litbuf'\<rparr>
           in if rcnt (srbr s) \<noteq> 0 then makeError bo (int off) ''extraneous data after sequences''
              else Inr r2))))))"

section \<open>A compressed block\<close>

text \<open>The data is the block as read from the input.\<close>

definition decode_block :: "Reader \<Rightarrow> bytes \<Rightarrow> zerr + Reader" where
  "decode_block r data =
     rbind (readLiterals (r\<lparr>buffer := []\<rparr>) data 0 []) (\<lambda>(r1, off1, litbuf).
       rbind (initSeqs r1 data off1) (\<lambda>(r2, seqCount, off2).
         if seqCount = 0 then
           (if off2 < length data then makeError (blockOffset r) (int off2) ''extraneous data after no sequences''
            else Inr (r2\<lparr>buffer := buffer r2 @ litbuf\<rparr>))
         else execSeqs r2 data off2 litbuf seqCount))"

end
