(* ===== verification/ZstdCopy.thy ===== *)
theory ZstdCopy
  imports ZstdBlock
begin

text \<open>
  Matches: \<open>copyFromWindow\<close> (\<open>src/pkg/lib/zstd/block.go\<close>), which copies blocks that double in size, is the
  byte-by-byte copy of LZ77 on the output with the window before it.
\<close>

section \<open>The reference copy\<close>

fun lz_copy :: "nat \<Rightarrow> nat \<Rightarrow> 'a list \<Rightarrow> 'a list" where
  "lz_copy offset 0 h = h"
| "lz_copy offset (Suc n) h = lz_copy offset n (h @ [h ! (length h - offset)])"

lemma length_lz_copy [simp]: "length (lz_copy offset n h) = length h + n"
  by (induction n arbitrary: h) simp_all

lemma lz_copy_add: "lz_copy offset (m + n) h = lz_copy offset n (lz_copy offset m h)"
  by (induction m arbitrary: h) simp_all

definition cyc :: "nat \<Rightarrow> nat \<Rightarrow> nat \<Rightarrow> 'a list \<Rightarrow> 'a list" where
  "cyc from p n h = map (\<lambda>j. h ! (from + j mod p)) [0..<n]"

lemma length_cyc [simp]: "length (cyc from p n h) = n"
  by (simp add: cyc_def)

lemma nth_cyc [simp]: "i < n \<Longrightarrow> cyc from p n h ! i = h ! (from + i mod p)"
  by (simp add: cyc_def)

lemma cyc_Suc: "cyc from p (Suc n) h = cyc from p n h @ [h ! (from + n mod p)]"
  by (simp add: cyc_def)

lemma lz_copy_cyc:
  assumes "0 < offset" "offset \<le> length h"
  shows "lz_copy offset n h = h @ cyc (length h - offset) offset n h"
  using assms
proof (induction n rule: nat.induct)
  case (Suc n)
  have "h @ cyc (length h - offset) offset n h @ [(h @ cyc (length h - offset) offset n h) ! (length h + n - offset)]
      = h @ cyc (length h - offset) offset (Suc n) h"
  proof (cases "n < offset")
    case True
    then have "length h + n - offset < length h" "length h - offset + n mod offset = length h + n - offset" using Suc.prems by auto
    then show ?thesis by (simp add: cyc_Suc nth_append)
  next
    case False
    have "(h @ cyc (length h - offset) offset n h) ! (length h + n - offset) = cyc (length h - offset) offset n h ! (n - offset)"
      using False Suc.prems by (simp add: nth_append)
    also have "\<dots> = h ! (length h - offset + n mod offset)"
      using False Suc.prems by (simp add: mod_if [of n offset])
    finally show ?thesis by (simp add: cyc_Suc)
  qed
  moreover have "lz_copy offset (Suc n) h = lz_copy offset 1 (lz_copy offset n h)" using lz_copy_add [of offset n 1 h] by simp
  ultimately show ?case using Suc by simp
qed (simp add: cyc_def)

section \<open>Copying in blocks\<close>

text \<open>From \<open>from\<close> on the list repeats itself every \<open>p\<close> elements, a whole number of times.\<close>

definition periodic :: "nat \<Rightarrow> nat \<Rightarrow> 'a list \<Rightarrow> bool" where
  "periodic from p h \<longleftrightarrow> 0 < p \<and> from < length h \<and> p dvd (length h - from)
     \<and> (\<forall>j < length h - from. h ! (from + j) = h ! (from + j mod p))"

lemma slice_cyc:
  assumes "periodic from p h" "n \<le> length h - from"
  shows "slice h from (from + n) = cyc from p n h"
proof (rule nth_equalityI)
  show "length (slice h from (from + n)) = length (cyc from p n h)" using assms(2) by (simp add: length_slice)
  fix i assume "i < length (slice h from (from + n))"
  then have "i < n" "i < length h - from" using assms(2) by (auto simp: length_slice)
  with assms show "slice h from (from + n) ! i = cyc from p n h ! i"
    by (auto simp: nth_slice cyc_def periodic_def)
qed

lemma periodic_double:
  assumes "periodic from p h"
  defines "d \<equiv> length h - from"
  shows "periodic from p (h @ cyc from p d h)"
proof -
  have p: "0 < p" "from < length h" "p dvd d" "\<And>j. j < d \<Longrightarrow> h ! (from + j) = h ! (from + j mod p)"
    using assms by (auto simp: periodic_def)
  have fd: "from + d = length h" using p(2) by (simp add: d_def)
  have pd: "p \<le> d" using p(2,3) by (intro dvd_imp_le) (simp_all add: d_def)
  have "(h @ cyc from p d h) ! (from + j) = (h @ cyc from p d h) ! (from + j mod p)" if "j < d + d" for j
  proof -
    have m: "from + j mod p < length h" using p(1) pd fd mod_less_divisor [OF p(1), of j] by linarith
    show ?thesis
    proof (cases "j < d")
      case True
      then show ?thesis using p(4) [OF True] m fd by (simp add: nth_append)
    next
      case False
      then have "(j - d) mod p = j mod p" using p(3) by (metis le_add_diff_inverse linorder_not_less mod_add_self2 dvd_def add.commute mod_mult_self2 mult.commute)
      moreover have "from + j - length h = j - d" "j - d < d" using False that fd by linarith+
      ultimately show ?thesis using False m fd by (simp add: nth_append)
    qed
  qed
  moreover have "length (h @ cyc from p d h) - from = d + d" using p(2) by (simp add: d_def)
  ultimately show ?thesis using p(1-3) by (simp add: periodic_def)
qed

lemma cyc_append:
  assumes "p dvd d" "d \<le> n" "\<And>j. j < p \<Longrightarrow> h' ! (from + j) = h ! (from + j)" "0 < p"
  shows "cyc from p d h @ cyc from p (n - d) h' = cyc from p n h"
proof (rule nth_equalityI)
  show "length (cyc from p d h @ cyc from p (n - d) h') = length (cyc from p n h)" using assms(2) by simp
  fix i assume "i < length (cyc from p d h @ cyc from p (n - d) h')"
  then have i: "i < n" using assms(2) by simp
  show "(cyc from p d h @ cyc from p (n - d) h') ! i = cyc from p n h ! i"
  proof (cases "i < d")
    case True
    with i show ?thesis by (simp add: nth_append)
  next
    case False
    obtain k where k: "d = p * k" using assms(1) by blast
    have "(i - d) mod p = i mod p" using False k by (metis le_add_diff_inverse2 linorder_not_less mod_mult_self2)
    with False i assms(3) [of "i mod p"] assms(4) show ?thesis by (simp add: nth_append diff_less_mono)
  qed
qed

lemma copy_loop_spec:
  assumes "periodic (unat from) p buf" "length buf + unat match < 2 ^ 32"
  shows "copy_loop buf from match = Inr (buf @ cyc (unat from) p (unat match) buf)"
  using assms
proof (induction buf "from" match rule: copy_loop.induct)
  case (1 buf "from" match)
  let ?f = "unat from" and ?m = "unat match"
  have p: "?f < length buf" "0 < p" "p dvd (length buf - ?f)" using "1.prems"(1) by (simp_all add: periodic_def)
  have lb: "unat (of_nat (length buf) :: u32) = length buf" using "1.prems"(2) by (simp add: unat_of_nat)
  have ud: "unat (of_nat (length buf) - from) = length buf - ?f"
    using p(1) lb by (simp add: unat_sub word_le_nat_alt)
  show ?case
  proof (cases "0 < match")
    case False
    then have "match = 0" by (metis word_gt_0)
    then show ?thesis by (simp add: copy_loop.simps [of buf "from"] cyc_def)
  next
    case True
    define copy where "copy = min (of_nat (length buf) - from) match"
    have uc: "unat copy = min (length buf - ?f) ?m" by (auto simp: copy_def min_def word_le_nat_alt ud)
    have m0: "0 < ?m" using True by (simp add: word_less_nat_alt)
    then have c0: "copy \<noteq> 0" using uc p(1) by auto
    have uf: "unat (from + copy) = ?f + unat copy" using uc p(1) "1.prems"(2) by (simp add: unat_word_ariths)
    define b where "b = cyc ?f p (unat copy) buf"
    have z: "zslice buf ?f (unat (from + copy)) = Inr b"
      using slice_cyc [OF "1.prems"(1), of "unat copy"] uc p(1) by (simp add: uf b_def zslice_def)
    have step: "copy_loop buf from match = copy_loop (buf @ b) from (match - copy)"
      using True c0 z by (simp add: copy_loop.simps [of buf "from" match] Let_def flip: copy_def)
    have um: "unat (match - copy) = ?m - unat copy" using uc by (simp add: unat_sub word_le_nat_alt)
    show ?thesis
    proof (cases "?m \<le> length buf - ?f")
      case full: True
      then have "match - copy = 0" using um uc by (simp add: unat_eq_0 [symmetric])
      then have "copy_loop (buf @ b) from (match - copy) = Inr (buf @ b)" by (simp add: copy_loop.simps [of "buf @ b" "from" 0])
      with step full uc show ?thesis by (simp add: b_def)
    next
      case False
      then have cd: "unat copy = length buf - ?f" using uc by simp
      have per: "periodic ?f p (buf @ b)" using periodic_double [OF "1.prems"(1)] by (simp add: b_def cd)
      have len: "length (buf @ b) + unat (match - copy) < 2 ^ 32" using "1.prems"(2) um cd False by (simp add: b_def)
      have "copy_loop (buf @ b) from (match - copy) = Inr ((buf @ b) @ cyc ?f p (unat (match - copy)) (buf @ b))"
        using "1.IH" [OF True copy_def _ _ per len] c0 z by simp
      moreover have "b @ cyc ?f p (?m - unat copy) (buf @ b) = cyc ?f p ?m buf"
      proof -
        have "p \<le> length buf - ?f" using p by (intro dvd_imp_le) simp_all
        then show ?thesis unfolding b_def cd using p False by (intro cyc_append) (auto simp: nth_append)
      qed
      ultimately show ?thesis using step um by simp
    qed
  qed
qed

section \<open>Copying from the window\<close>

definition history :: "Reader \<Rightarrow> bytes" where
  "history r = wcontents (zwindow r) @ buffer r"

lemma copyFromWindow_spec:
  assumes w: "window_inv (zwindow r)" and l: "length (buffer r) + unat match < 2 ^ 32"
    and o: "0 < unat offset" "unat offset \<le> length (history r)"
  shows "\<exists>b. copyFromWindow r rbr offset match = Inr (r\<lparr>buffer := b\<rparr>)
    \<and> wcontents (zwindow r) @ b = lz_copy (unat offset) (unat match) (history r)"
proof -
  let ?W = "wcontents (zwindow r)" and ?B = "buffer r" and ?o = "unat offset" and ?m = "unat match"
  have lb: "unat (of_nat (length ?B) :: u32) = length ?B" using l by (simp add: unat_of_nat)
  have lw: "unat (wlen (zwindow r)) = length ?W" using w by (simp add: wlen_def window_inv_def unat_of_nat)
  have h: "lz_copy ?o ?m (history r) = history r @ cyc (length (history r) - ?o) ?o ?m (history r)"
    using o by (rule lz_copy_cyc)
  have o0: "offset \<noteq> 0" using o(1) by auto
  show ?thesis
  proof (cases "length ?B < ?o")
    case False
    let ?f = "length ?B - ?o"
    have uf: "unat (of_nat (length ?B) - offset) = ?f" using False lb by (simp add: unat_sub word_le_nat_alt)
    have "periodic ?f ?o ?B" using False o(1) by (simp add: periodic_def)
    then have "copy_loop ?B (of_nat (length ?B) - offset) match = Inr (?B @ cyc ?f ?o ?m ?B)"
      using copy_loop_spec [of "of_nat (length ?B) - offset" ?o ?B match] l uf by simp
    then have "copyFromWindow r rbr offset match = Inr (r\<lparr>buffer := ?B @ cyc ?f ?o ?m ?B\<rparr>)"
      using o0 False lb by (simp add: copyFromWindow_def Let_def word_less_nat_alt)
    moreover have "cyc (length (history r) - ?o) ?o ?m (history r) = cyc ?f ?o ?m ?B"
      using False o(1) by (auto simp: cyc_def history_def nth_append)
    ultimately show ?thesis using h by (auto simp: history_def)
  next
    case True
    define c0 where "c0 = offset - of_nat (length ?B)"
    have uc0: "unat c0 = ?o - length ?B" using True lb by (simp add: c0_def unat_sub word_le_nat_alt)
    have c0w: "unat c0 \<le> length ?W" using uc0 o(2) by (simp add: history_def)
    define wo where "wo = wlen (zwindow r) - c0"
    have uwo: "unat wo = length ?W - unat c0" using c0w lw by (simp add: wo_def unat_sub word_le_nat_alt)
    define c where "c = (if match < c0 then match else c0)"
    have uc: "unat c = min ?m (unat c0)" by (auto simp: c_def word_less_nat_alt)
    have "length ?W < 2 ^ 31" using w by (simp add: window_inv_def)
    then have uwc: "unat (wo + c) = unat wo + unat c" using uwo uc c0w by (simp add: unat_word_ariths)
    define s where "s = slice ?W (unat wo) (unat wo + unat c)"
    have ls: "length s = unat c" using uwo uc c0w by (simp add: s_def length_slice)
    have app: "wappendTo (zwindow r) ?B wo (wo + c) = Inr (?B @ s)"
      using wnd.read_contents [OF w, of wo "wo + c" ?B] uwc uwo uc c0w by (simp add: s_def word_le_nat_alt)
    have um: "unat (match - c) = ?m - unat c" using uc by (simp add: unat_sub word_le_nat_alt)
    have fw: "length (history r) - ?o = unat wo" using True uwo uc0 c0w by (simp add: history_def)
    have sc: "s = cyc (length (history r) - ?o) ?o (unat c) (history r)"
    proof (rule nth_equalityI)
      fix i assume "i < length s"
      then have "i < unat c" "i < ?o" "unat wo + i < length ?W" "unat wo + unat c \<le> length ?W"
        using ls uc uc0 uwo c0w True by linarith+
      then show "s ! i = cyc (length (history r) - ?o) ?o (unat c) (history r) ! i"
        unfolding fw by (simp add: s_def nth_slice nth_append history_def)
    qed (simp add: ls)
    have lz: "lz_copy ?o (unat c) (history r) = history r @ s" using lz_copy_cyc [OF o] sc by simp
    have run: "copyFromWindow r rbr offset match = rbind (copy_loop (?B @ s) 0 (match - c)) (\<lambda>b. Inr (r\<lparr>buffer := b\<rparr>))"
    proof -
      have "of_nat (length ?B) < offset" "\<not> wlen (zwindow r) < c0" using True lb lw c0w by (simp_all add: word_less_nat_alt)
      with o0 app show ?thesis
        unfolding copyFromWindow_def Let_def c0_def [symmetric] wo_def [symmetric] c_def [symmetric] by simp
    qed
    show ?thesis
    proof (cases "?m \<le> unat c0")
      case all: True
      then have "match - c = 0" "unat c = ?m" using um uc by (simp_all add: unat_eq_0 [symmetric])
      then have "copyFromWindow r rbr offset match = Inr (r\<lparr>buffer := ?B @ s\<rparr>)"
        using run by (simp add: copy_loop.simps [of "?B @ s" 0 0])
      with lz \<open>unat c = ?m\<close> show ?thesis by (auto simp: history_def)
    next
      case False
      then have c: "unat c = unat c0" using uc by simp
      then have lbs: "length (?B @ s) = ?o" using uc0 True ls by simp
      have "periodic (unat (0 :: u32)) ?o (?B @ s)" using lbs o(1) by (auto simp: periodic_def)
      then have "copy_loop (?B @ s) 0 (match - c) = Inr ((?B @ s) @ cyc 0 ?o (?m - unat c) (?B @ s))"
        using copy_loop_spec [of 0 ?o "?B @ s" "match - c"] l um ls uc by simp
      then have run': "copyFromWindow r rbr offset match = Inr (r\<lparr>buffer := (?B @ s) @ cyc 0 ?o (?m - unat c) (?B @ s)\<rparr>)"
        using run by simp
      have "lz_copy ?o ?m (history r) = lz_copy ?o (?m - unat c) (history r @ s)"
        using lz_copy_add [of ?o "unat c" "?m - unat c" "history r"] lz uc by simp
      also have "\<dots> = (history r @ s) @ cyc (length ?W) ?o (?m - unat c) (history r @ s)"
        using lz_copy_cyc [of ?o "history r @ s" "?m - unat c"] o lbs by (simp add: history_def)
      also have "cyc (length ?W) ?o (?m - unat c) (history r @ s) = cyc 0 ?o (?m - unat c) (?B @ s)"
        by (simp add: cyc_def history_def nth_append)
      finally show ?thesis using run' by (auto simp: history_def)
    qed
  qed
qed


lemma copyFromWindow_error:
  assumes w: "window_inv (zwindow r)" and l: "length (buffer r) < 2 ^ 32"
    and o: "unat offset = 0 \<or> length (history r) < unat offset"
  shows "copyFromWindow r rbr offset match = makeError (blockOffset r) (uint (roff rbr))
    (if offset = 0 then ''invalid zero offset'' else ''offset past window'')"
proof (cases "offset = 0")
  case False
  let ?W = "wcontents (zwindow r)" and ?B = "buffer r"
  have past: "length ?W + length ?B < unat offset" using o False by (auto simp: history_def unat_eq_0)
  have lb: "unat (of_nat (length ?B) :: u32) = length ?B" using l by (simp add: unat_of_nat)
  have lw: "unat (wlen (zwindow r)) = length ?W" using w by (simp add: wlen_def window_inv_def unat_of_nat)
  have "unat (offset - of_nat (length ?B)) = unat offset - length ?B" using past lb by (simp add: unat_sub word_le_nat_alt)
  then have "of_nat (length ?B) < offset" "wlen (zwindow r) < offset - of_nat (length ?B)"
    using past lb lw unfolding word_less_nat_alt by linarith+
  with False show ?thesis by (simp add: copyFromWindow_def Let_def)
qed (simp add: copyFromWindow_def)

text \<open>
  A match is the copy of LZ77. With the bytes of the window followed by the output of the block as history, an
  offset that lies within the history makes \<open>copyFromWindow\<close> append \<open>match\<close> bytes, each the one \<open>offset\<close> bytes
  before it, also where the match overlaps its own output or spans window and buffer; any other offset is an error
  and the loop never runs forever.
\<close>

theorem copyFromWindow_lz77:
  assumes "window_inv (zwindow r)" "length (buffer r) + unat match < 2 ^ 32"
  shows "if 0 < unat offset \<and> unat offset \<le> length (history r)
    then \<exists>b. copyFromWindow r rbr offset match = Inr (r\<lparr>buffer := b\<rparr>)
      \<and> wcontents (zwindow r) @ b = lz_copy (unat offset) (unat match) (wcontents (zwindow r) @ buffer r)
    else copyFromWindow r rbr offset match = makeError (blockOffset r) (uint (roff rbr))
      (if offset = 0 then ''invalid zero offset'' else ''offset past window'')"
  using copyFromWindow_spec [OF assms, of offset rbr] copyFromWindow_error [OF assms(1), of offset rbr match] assms(2)
  by (auto simp: history_def)

definition copy0 :: Reader where
  "copy0 = (zeroReader \<lparr>idata = [], ierr = None, iseek = None\<rparr>)\<lparr>buffer := [1, 2, 3],
     zwindow := \<lparr>wsize = 4, wdata = [9, 8], woff = 0\<rparr>\<rparr>"

theorem copyFromWindow_lz77_witness:
  "\<exists>b. copyFromWindow copy0 \<lparr>rdata = [], roff = 0, rstart = 0, rbits = 0, rcnt = 0\<rparr> 4 6 = Inr (copy0\<lparr>buffer := b\<rparr>)
    \<and> [9, 8] @ b = [9, 8, 1, 2, 3, 8, 1, 2, 3, 8, 1]"
proof -
  have w: "window_inv (zwindow copy0)" by (simp add: copy0_def window_inv_def)
  have c: "wcontents (zwindow copy0) = [9, 8]" "buffer copy0 = [1, 2, 3]" by (simp_all add: copy0_def wcontents_def)
  have z: "lz_copy 4 6 [9, 8, 1, 2, 3] = [9, 8, 1, 2, 3, 8, 1, 2, 3, 8, (1::u8)]" by code_simp
  show ?thesis using copyFromWindow_lz77 [OF w, of 6 4 "\<lparr>rdata = [], roff = 0, rstart = 0, rbits = 0, rcnt = 0\<rparr>"] c z
    by (simp add: history_def)
qed

end
