(* ===== verification/ZstdSeqs.thy ===== *)
theory ZstdSeqs
  imports ZstdCopy
begin

text \<open>
  The sequences of a block (\<open>src/pkg/lib/zstd/block.go\<close>): the tables set up are sound, executing them never
  panics, and the loop that reads and executes the sequences one by one is LZ77 on the list of sequences.
\<close>

section \<open>Sound tables\<close>

definition seq_entry_ok :: "seqCode \<Rightarrow> nat \<Rightarrow> fseBaselineEntry \<Rightarrow> bool" where
  "seq_entry_ok kind bits e \<longleftrightarrow> unat (sbase e) + 2 ^ unat (sbits e) \<le> 2 ^ bits \<and> basebits e \<le> 31
     \<and> (kind = seqOffset \<or> basebits e \<le> 16 \<and> baseline e \<le> 65539)"

definition table_ok :: "seqCode \<Rightarrow> nat \<Rightarrow> fseBaselineEntry list \<Rightarrow> bool" where
  "table_ok kind bits tab \<longleftrightarrow> bits \<le> 9 \<and> length tab = 2 ^ bits \<and> list_all (seq_entry_ok kind bits) tab"

lemma predefined_ok:
  "table_ok seqLiteral 6 predefinedLiteralTable"
  "table_ok seqOffset 5 predefinedOffsetTable"
  "table_ok seqMatch 6 predefinedMatchTable"
  by code_simp+

definition bounded_base :: "u32 list \<Rightarrow> bool" where
  "bounded_base = list_all (\<lambda>bb. (ucast (drop_bit 24 bb) :: u8) \<le> 16 \<and> bb AND 0xffffff \<le> 65539)"

lemma base_tables: "bounded_base literalLengthBase" "bounded_base matchLengthBase"
  "length literalLengthBase = 20" "length matchLengthBase = 21"
  by code_simp+

lemma map_result_ensures:
  assumes "\<And>x. x \<in> set xs \<Longrightarrow> ensures (f x) (P x)"
  shows "ensures (map_result f xs) (\<lambda>ys. list_all2 P xs ys)"
  using assms
proof (induction xs)
  case (Cons x xs)
  have "ensures (f x) (P x)" "ensures (map_result f xs) (\<lambda>ys. list_all2 P xs ys)" using Cons by auto
  then show ?case by (auto intro!: ensures_rbind)
qed simp

definition based_on :: "seqCode \<Rightarrow> fseEntry \<Rightarrow> fseBaselineEntry \<Rightarrow> bool" where
  "based_on kind e b \<longleftrightarrow> sbits b = fbits e \<and> sbase b = fbase e \<and> basebits b \<le> 31
     \<and> (kind = seqOffset \<or> basebits b \<le> 16 \<and> baseline b \<le> 65539)"

lemma bounded_base_nth:
  assumes "bounded_base bs" "i < length bs"
  shows "(ucast (drop_bit 24 (bs ! i)) :: u8) \<le> 16" "(ucast (drop_bit 24 (bs ! i)) :: u8) \<le> 31" "bs ! i AND 0xffffff \<le> 65539"
  using assms by (auto simp: bounded_base_def list_all_length intro: order_trans [of _ 16])

lemma small_base: "(ucast (b :: u8) :: u32) \<le> 65539" "(ucast (b :: u8) :: u32) + 3 \<le> 65539"
  using unat_byte_less [of b] by (simp_all add: word_le_nat_alt unat_word_ariths)

lemma toBaseline_ensures: "ensures (toBaseline (seqCodeInfo kind) bo off es) (\<lambda>bs. list_all2 (based_on kind) es bs)"
proof (cases kind)
  case seqLiteral
  then show ?thesis using base_tables(1,3) small_base(1)
    by (auto intro!: map_result_ensures simp: makeLiteralBaselineFSE_def based_on_def literalLengthOffset_def bounded_base_nth)
next
  case seqOffset
  then show ?thesis
    by (auto intro!: map_result_ensures simp: makeOffsetBaselineFSE_def based_on_def Let_def word_le_nat_alt)
next
  case seqMatch
  then show ?thesis using base_tables(2,4) small_base(2)
    by (auto intro!: map_result_ensures simp: makeMatchBaselineFSE_def based_on_def matchLengthOffset_def bounded_base_nth)
qed

lemma based_table_ok:
  assumes "list_all2 (based_on kind) es bs" "length es = 2 ^ T" "T \<le> 9"
    "\<And>e. e \<in> set es \<Longrightarrow> unat (fbase e) + 2 ^ unat (fbits e) \<le> 2 ^ T"
  shows "table_ok kind T bs"
proof -
  have "seq_entry_ok kind T b" if "b \<in> set bs" for b
  proof -
    from that assms(1) obtain e where "e \<in> set es" "based_on kind e b"
      by (metis in_set_conv_nth list_all2_conv_all_nth)
    with assms(4) show ?thesis by (auto simp: based_on_def seq_entry_ok_def)
  qed
  then show ?thesis using assms(1-3) by (auto simp: table_ok_def list_all_iff dest: list_all2_lengthD)
qed

section \<open>Setting up the tables\<close>

definition kind_ready :: "Reader \<Rightarrow> seqCode \<Rightarrow> bool" where
  "kind_ready r kind \<longleftrightarrow> table_ok kind (unat (seqTableBits r ! kind_index kind)) (seqTables r ! kind_index kind)"

definition seqs_ready :: "Reader \<Rightarrow> bool" where
  "seqs_ready r \<longleftrightarrow> length (seqTables r) = 3 \<and> length (seqTableBits r) = 3 \<and> length (seqTableBuffers r) = 3
     \<and> slice_ok (fseScratch r)
     \<and> (\<forall>kind. (seqTables r ! kind_index kind = [] \<or> kind_ready r kind)
          \<and> (seqTableBuffers r ! kind_index kind = [] \<or> length (seqTableBuffers r ! kind_index kind) = 2 ^ maxBits (seqCodeInfo kind)))"

definition seq_frame :: "Reader \<Rightarrow> Reader \<Rightarrow> bool" where
  "seq_frame r r' \<longleftrightarrow> (\<exists>t b u s. r' = r\<lparr>seqTables := t, seqTableBits := b, seqTableBuffers := u, fseScratch := s\<rparr>)"

lemma kind_index_less [simp]: "kind_index kind < 3" "kind_index kind < Suc (Suc (Suc 0))"
  by (cases kind; simp)+

lemma kind_index_eq [simp]: "kind_index k = kind_index k' \<longleftrightarrow> k = k'"
  by (cases k; cases k') simp_all

lemma info_bits: "5 \<le> maxBits (seqCodeInfo kind)" "maxBits (seqCodeInfo kind) \<le> 9" "maxSym (seqCodeInfo kind) \<le> 255"
  by (cases kind; simp)+

lemma seq_frame_refl [simp]: "seq_frame r r"
  unfolding seq_frame_def
  by (intro exI [of _ "seqTables r"] exI [of _ "seqTableBits r"] exI [of _ "seqTableBuffers r"] exI [of _ "fseScratch r"]) simp

lemma seq_frame_trans: "seq_frame r r' \<Longrightarrow> seq_frame r' r'' \<Longrightarrow> seq_frame r r''"
  unfolding seq_frame_def by (elim exE, hypsubst) (intro exI, simp)

lemma seq_frame_upd: "seq_frame r (r\<lparr>seqTables := t, seqTableBits := b, seqTableBuffers := u, fseScratch := s\<rparr>)"
  unfolding seq_frame_def by blast

lemma set_table_ready:
  assumes "seqs_ready r" "table_ok kind (unat bits) tab"
  shows "seqs_ready (set_table r kind tab bits) \<and> kind_ready (set_table r kind tab bits) kind
    \<and> (\<forall>k. kind_ready r k \<longrightarrow> kind_ready (set_table r kind tab bits) k) \<and> seq_frame r (set_table r kind tab bits)"
proof -
  let ?r = "set_table r kind tab bits"
  have l: "length (seqTables r) = 3" "length (seqTableBits r) = 3" using assms(1) by (simp_all add: seqs_ready_def)
  have k: "kind_ready ?r k \<longleftrightarrow> (if k = kind then True else kind_ready r k)" for k
    using assms(2) l by (simp add: kind_ready_def set_table_def)
  have "seqTables ?r ! kind_index k = [] \<or> kind_ready ?r k" for k
    using assms(1) k l by (auto simp: seqs_ready_def set_table_def)
  then have "seqs_ready ?r" using assms(1) by (simp add: seqs_ready_def set_table_def)
  moreover have "seq_frame r ?r"
    using seq_frame_upd [of r "fseScratch r" "seqTableBuffers r" "seqTableBits ?r" "seqTables ?r"] by (simp add: set_table_def)
  ultimately show ?thesis using k by simp
qed

lemma use_buffer_ensures:
  assumes r: "seqs_ready r" and n: "length es = n" "n \<le> 2 ^ maxBits (seqCodeInfo kind)"
  shows "ensures (use_buffer r kind off n es) (\<lambda>(r', tab). seqs_ready r' \<and> seq_frame r r' \<and> (\<forall>k. kind_ready r' k = kind_ready r k)
    \<and> list_all2 (based_on kind) es tab)"
proof -
  let ?buf = "table_buffer r kind"
  have len: "length ?buf = 2 ^ maxBits (seqCodeInfo kind)" using r by (auto simp: table_buffer_def Let_def seqs_ready_def)
  define upd where "upd tab = r\<lparr>seqTableBuffers := (seqTableBuffers r)[kind_index kind := tab @ drop n ?buf]\<rparr>" for tab
  have fin: "seqs_ready (upd tab) \<and> seq_frame r (upd tab) \<and> (\<forall>k. kind_ready (upd tab) k = kind_ready r k)"
    if "list_all2 (based_on kind) es tab" for tab
  proof -
    have "length (tab @ drop n ?buf) = 2 ^ maxBits (seqCodeInfo kind)"
      using list_all2_lengthD [OF that] n len by simp
    moreover have "seq_frame r (upd tab)"
      using seq_frame_upd [of r "fseScratch r" "seqTableBuffers (upd tab)" "seqTableBits r" "seqTables r"] by (simp add: upd_def)
    ultimately show ?thesis using r by (auto simp: upd_def seqs_ready_def kind_ready_def nth_list_update)
  qed
  show ?thesis unfolding use_buffer_def zslice_ok [OF le0 n(2) [folded len]] rbind.simps upd_def [symmetric]
    by (rule ensures_rbind [OF toBaseline_ensures]) (use fin in auto)
qed

definition table_set :: "Reader \<Rightarrow> bytes \<Rightarrow> seqCode \<Rightarrow> Reader \<times> nat \<Rightarrow> bool" where
  "table_set r data kind p \<longleftrightarrow> (case p of (r', off') \<Rightarrow> seqs_ready r' \<and> off' \<le> length data \<and> seq_frame r r'
     \<and> kind_ready r' kind \<and> (\<forall>k. kind_ready r k \<longrightarrow> kind_ready r' k))"

lemma set_used_table:
  assumes "list_all2 (based_on kind) es tab" "length es = 2 ^ T" "T \<le> 9" "unat bits = T"
    "\<And>e. e \<in> set es \<Longrightarrow> unat (fbase e) + 2 ^ unat (fbits e) \<le> 2 ^ T"
    "seqs_ready r'" "seq_frame r r'" "\<And>k. kind_ready r k \<Longrightarrow> kind_ready r' k" "off' \<le> length data"
  shows "table_set r data kind (set_table r' kind tab bits, off')"
proof -
  have "table_ok kind (unat bits) tab" unfolding assms(4) using assms(1-3,5) by (rule based_table_ok)
  note t = set_table_ready [OF assms(6) this]
  then have t: "seqs_ready (set_table r' kind tab bits)" "kind_ready (set_table r' kind tab bits) kind"
    "\<And>k. kind_ready r' k \<Longrightarrow> kind_ready (set_table r' kind tab bits) k" "seq_frame r' (set_table r' kind tab bits)" by simp_all
  from seq_frame_trans [OF assms(7) t(4)] t(1-3) show ?thesis
    unfolding table_set_def prod.case by (simp add: assms(8,9))
qed

lemma setSeqTable_ensures:
  assumes r: "seqs_ready r" and d: "length data < 2 ^ 31" "off \<le> length data" and m: "unat mode \<le> 3"
  shows "ensures (setSeqTable r data off kind mode) (table_set r data kind)"
proof -
  let ?info = "seqCodeInfo kind" and ?bo = "blockOffset r"
  have "unat mode = 0 \<or> unat mode = 1 \<or> unat mode = 2 \<or> unat mode = 3" using m by linarith
  then consider "mode = 0" | "mode = 1" | "mode = 2" | "mode = 3" by (auto simp: word_unat_eq_iff)
  then show ?thesis
  proof cases
    case 1
    have "table_ok kind (unat (of_nat (predefTableBits ?info) :: u8)) (predefTable ?info)"
      using predefined_ok by (cases kind) simp_all
    from set_table_ready [OF r this] 1 d(2) show ?thesis by (simp add: setSeqTable_def Let_def table_set_def)
  next
    case 2
    show ?thesis
    proof (cases "length data \<le> off")
      case False
      have n: "1 \<le> (2::nat) ^ maxBits ?info" by simp
      have "ensures (rbind (use_buffer r kind (off + 1) 1 [\<lparr>fsym = data ! off, fbits = 0, fbase = 0\<rparr>]) (\<lambda>(r', table).
          Inr (set_table r' kind table 0, off + 1))) (table_set r data kind)"
        by (rule ensures_rbind [OF use_buffer_ensures [OF r _ n]])
          (use False in \<open>auto intro!: set_used_table [where T = 0 and es = "[\<lparr>fsym = data ! off, fbits = 0, fbase = 0\<rparr>]"]\<close>)
      with 2 False show ?thesis by (simp add: setSeqTable_def Let_def)
    qed (use 2 in \<open>simp add: setSeqTable_def Let_def\<close>)
  next
    case 3
    define len where "len = (2::nat) ^ maxBits ?info"
    define backing where "backing = (if length (fst (fseScratch r)) < len then replicate len fse0 else fst (fseScratch r))"
    have lb: "len \<le> length backing" by (auto simp: backing_def)
    then have tl: "length (take len backing) = len" by simp
    have "ensures (rbind (zslice backing 0 len) (\<lambda>scratch.
        rbind (readFSE ?bo data off (maxSym ?info) (maxBits ?info) scratch) (\<lambda>(tableBits, roff, fse).
          rbind (zslice fse 0 (2 ^ tableBits)) (\<lambda>fse'.
            let r1 = r\<lparr>fseScratch := (fse @ drop len backing, 2 ^ tableBits)\<rparr>
            in rbind (use_buffer r1 kind roff (2 ^ tableBits) fse') (\<lambda>(r2, table).
                 Inr (set_table r2 kind table (of_nat tableBits), roff)))))) (table_set r data kind)"
      unfolding zslice_ok [OF le0 lb] rbind.simps slice_0
    proof (rule ensures_rbind [OF readFSE_spec], goal_cases)
      case (6 p)
      then obtain T roff fse ns where p: "p = (T, roff, fse)" and T: "5 \<le> T" "T \<le> maxBits ?info" "roff \<le> length data"
        "length fse = len" "fse_table T (counts ns) fse" using tl by (auto simp: fse_result_def split: prod.splits)
      have T9: "T \<le> 9" using T(2) info_bits(2) le_trans by blast
      have lT: "2 ^ T \<le> length fse" using T(5) by (simp add: fse_table_def)
      define r1 where "r1 = r\<lparr>fseScratch := (fse @ drop len backing, 2 ^ T)\<rparr>"
      have r1: "seqs_ready r1" "\<And>k. kind_ready r1 k = kind_ready r k" "seq_frame r r1"
        using r lT seq_frame_upd [of r "(fse @ drop len backing, 2 ^ T)" "seqTableBuffers r" "seqTableBits r" "seqTables r"]
        by (simp_all add: r1_def seqs_ready_def kind_ready_def slice_ok_def)
      have e: "unat (fbase e) + 2 ^ unat (fbits e) \<le> 2 ^ T" if "e \<in> set (take (2 ^ T) fse)" for e
        using that fse_table_bound [OF T(5)] lT by (auto simp: in_set_conv_nth)
      have n: "(2::nat) ^ T \<le> 2 ^ maxBits ?info" using T(2) by (intro power_increasing) simp_all
      have lt: "length (take (2 ^ T) fse) = 2 ^ T" using lT by simp
      have uT: "unat (of_nat T :: u8) = T" using T9 by (simp add: unat_of_nat)
      show ?case unfolding p prod.case zslice_ok [OF le0 lT] rbind.simps slice_0 Let_def r1_def [symmetric]
        by (rule ensures_rbind [OF use_buffer_ensures [OF r1(1) lt n]])
          (use T(3) r1 lt T9 uT e in \<open>auto intro!: set_used_table [where es = "take (2 ^ T) fse"] intro: seq_frame_trans\<close>)
    qed (use d tl info_bits [of kind] in \<open>auto simp: len_def\<close>)
    with 3 show ?thesis unfolding setSeqTable_def Let_def len_def [symmetric] backing_def [symmetric] by simp
  next
    case 4
    with r d(2) show ?thesis by (auto simp: setSeqTable_def Let_def table_set_def seqs_ready_def)
  qed
qed

lemma mode_small: "unat (drop_bit n (b :: u8) AND 3) \<le> 3"
proof -
  have "unat (drop_bit n b AND (2 ^ 2 - 1)) < 2 ^ 2" unfolding unat_and_mask(1) by simp
  then show ?thesis by simp
qed

lemma seq_count_ensures: "off \<le> length data \<Longrightarrow> ensures (seq_count bo data off h) (\<lambda>_. True)"
  by (simp add: seq_count_def)

lemma initSeqs_ensures:
  assumes r: "seqs_ready r" and d: "length data < 2 ^ 31"
  shows "ensures (initSeqs r data off) (\<lambda>(r', n, off'). seqs_ready r' \<and> seq_frame r r'
    \<and> (0 < n \<longrightarrow> off' \<le> length data \<and> (\<forall>k. kind_ready r' k)))"
proof (cases "length data \<le> off")
  case False
  define h where "h = data ! off"
  have "ensures (rbind (seq_count (blockOffset r) data (off + 1) h) (\<lambda>(seqCount, off).
      if length data \<le> off then makeEOFError (blockOffset r) (int off)
      else let symMode = data ! off
           in if symMode AND 3 \<noteq> 0 then makeError (blockOffset r) (int off) ''invalid symbol compression mode''
              else rbind (setSeqTable r data (off + 1) seqLiteral (drop_bit 6 symMode AND 3)) (\<lambda>(r1, off1).
                rbind (setSeqTable r1 data off1 seqOffset (drop_bit 4 symMode AND 3)) (\<lambda>(r2, off2).
                  rbind (setSeqTable r2 data off2 seqMatch (drop_bit 2 symMode AND 3)) (\<lambda>(r3, off3).
                    Inr (r3, seqCount, off3)))))) (\<lambda>(r', n, off'). seqs_ready r' \<and> seq_frame r r'
        \<and> (0 < n \<longrightarrow> off' \<le> length data \<and> (\<forall>k. kind_ready r' k)))"
  proof (rule ensures_rbind [OF seq_count_ensures], goal_cases)
    case (2 p)
    obtain n off1 where p: "p = (n, off1)" by fastforce
    define m where "m = data ! off1"
    have "ensures (rbind (setSeqTable r data (off1 + 1) seqLiteral (drop_bit 6 m AND 3)) (\<lambda>(r1, off1).
                rbind (setSeqTable r1 data off1 seqOffset (drop_bit 4 m AND 3)) (\<lambda>(r2, off2).
                  rbind (setSeqTable r2 data off2 seqMatch (drop_bit 2 m AND 3)) (\<lambda>(r3, off3).
                    Inr (r3, n, off3))))) (\<lambda>(r', n, off'). seqs_ready r' \<and> seq_frame r r'
        \<and> (0 < n \<longrightarrow> off' \<le> length data \<and> (\<forall>k. kind_ready r' k)))" if "off1 < length data"
    proof (rule ensures_rbind [OF setSeqTable_ensures [OF r d _ mode_small]], goal_cases)
      case (2 p1)
      then obtain r1 o1 where p1: "p1 = (r1, o1)" "seqs_ready r1" "o1 \<le> length data" "seq_frame r r1" "kind_ready r1 seqLiteral"
        by (cases p1) (auto simp: table_set_def)
      show ?case unfolding p1(1) prod.case
      proof (rule ensures_rbind [OF setSeqTable_ensures [OF p1(2) d p1(3) mode_small]], goal_cases)
        case (1 p2)
        then obtain r2 o2 where p2: "p2 = (r2, o2)" "seqs_ready r2" "o2 \<le> length data" "seq_frame r1 r2"
          "kind_ready r2 seqLiteral" "kind_ready r2 seqOffset"
          using p1(5) by (cases p2) (auto simp: table_set_def)
        show ?case unfolding p2(1) prod.case
        proof (rule ensures_rbind [OF setSeqTable_ensures [OF p2(2) d p2(3) mode_small]], goal_cases)
          case (1 p3)
          then obtain r3 o3 where p3: "p3 = (r3, o3)" "seqs_ready r3" "o3 \<le> length data" "seq_frame r2 r3"
            "kind_ready r3 seqLiteral" "kind_ready r3 seqOffset" "kind_ready r3 seqMatch"
            using p2(5,6) by (cases p3) (auto simp: table_set_def)
          have "kind_ready r3 k" for k using p3(5-7) by (cases k) simp_all
          moreover have "seq_frame r r3" using p1(4) p2(4) p3(4) seq_frame_trans by blast
          ultimately show ?case using p3(1-3) by simp blast
        qed
      qed
    qed (use that in simp)
    then show ?case unfolding p prod.case Let_def m_def by (simp only: ensures_simps not_le split: if_split) blast
  qed (use False in simp)
  with False r show ?thesis by (simp add: initSeqs_def Let_def h_def)
qed (simp add: initSeqs_def)

section \<open>Reading the sequences\<close>

definition states_ok :: "Reader \<Rightarrow> seq_reader \<Rightarrow> bool" where
  "states_ok r s \<longleftrightarrow> rbr_ok (srbr s) \<and> unat (lstate s) < length (seqTables r ! 0)
     \<and> unat (ostate s) < length (seqTables r ! 1) \<and> unat (mstate s) < length (seqTables r ! 2)"

definition tables_ready :: "Reader \<Rightarrow> bool" where
  "tables_ready r \<longleftrightarrow> (\<forall>k. kind_ready r k)"

lemma kind_entry:
  assumes "kind_ready r kind" "i < length (seqTables r ! kind_index kind)" "e = seqTables r ! kind_index kind ! i"
  shows "unat (sbase e) + 2 ^ unat (sbits e) \<le> length (seqTables r ! kind_index kind)"
    "unat (sbits e) \<le> 9" "unat (basebits e) \<le> 31"
    "kind \<noteq> seqOffset \<Longrightarrow> unat (basebits e) \<le> 16" "kind \<noteq> seqOffset \<Longrightarrow> unat (baseline e) \<le> 65539"
    "length (seqTables r ! kind_index kind) \<le> 512"
proof -
  let ?b = "unat (seqTableBits r ! kind_index kind)"
  have t: "?b \<le> 9" "length (seqTables r ! kind_index kind) = 2 ^ ?b" "seq_entry_ok kind ?b e"
    using assms by (auto simp: kind_ready_def table_ok_def list_all_length)
  then show s: "unat (sbase e) + 2 ^ unat (sbits e) \<le> length (seqTables r ! kind_index kind)"
    "unat (basebits e) \<le> 31" "kind \<noteq> seqOffset \<Longrightarrow> unat (basebits e) \<le> 16" "kind \<noteq> seqOffset \<Longrightarrow> unat (baseline e) \<le> 65539"
    by (auto simp: seq_entry_ok_def word_le_nat_alt)
  have "(2::nat) ^ unat (sbits e) \<le> 2 ^ ?b" using s(1) unfolding t(2) by linarith
  then have "unat (sbits e) \<le> ?b" by (rule power_le_imp_le_exp [rotated]) simp
  then show "unat (sbits e) \<le> 9" using t(1) by linarith
  have "(2::nat) ^ ?b \<le> 2 ^ 9" using t(1) by (intro power_increasing) simp_all
  with t(2) show "length (seqTables r ! kind_index kind) \<le> 512" by simp
qed

lemma next_state_ok:
  assumes "unat (b :: u16) + 2 ^ n \<le> l" "l \<le> 512" "unat (v :: u32) < 2 ^ n"
  shows "unat (ucast b + v :: u32) < l"
proof -
  have "unat (ucast b :: u32) = unat b" using assms(1,2) by (simp add: unsigned_ucast_eq take_bit_nat_eq_self)
  then show ?thesis using assms by (simp add: unat_word_ariths)
qed

lemma next_states_ensures:
  assumes t: "tables_ready r" and s: "states_ok r s" and rb: "rbr_ok (srbr s')"
    and pl: "pl = seqTables r ! 0 ! unat (lstate s)" and po: "po = seqTables r ! 1 ! unat (ostate s)"
    and pm: "pm = seqTables r ! 2 ! unat (mstate s)"
  shows "ensures (next_states bo pl pm po s') (states_ok r)"
proof -
  have k: "kind_ready r seqLiteral" "kind_ready r seqOffset" "kind_ready r seqMatch" using t by (simp_all add: tables_ready_def)
  have i: "unat (lstate s) < length (seqTables r ! kind_index seqLiteral)" "unat (ostate s) < length (seqTables r ! kind_index seqOffset)"
    "unat (mstate s) < length (seqTables r ! kind_index seqMatch)" using s by (simp_all add: states_ok_def)
  note el = kind_entry [OF k(1) i(1), unfolded kind_index.simps, OF pl]
    and eo = kind_entry [OF k(2) i(2), unfolded kind_index.simps, OF po]
    and em = kind_entry [OF k(3) i(3), unfolded kind_index.simps, OF pm]
  show ?thesis unfolding next_states_def
  proof (rule ensures_rbind [OF rval_ensures [OF rb]], goal_cases)
    case (2 p1)
    then obtain a1 r1 where p1: "p1 = (a1, r1)" "rbr_ok r1" "unat a1 < 2 ^ unat (sbits pl)" by (cases p1) auto
    show ?case unfolding p1(1) prod.case
    proof (rule ensures_rbind [OF rval_ensures [OF p1(2)]], goal_cases)
      case (2 p2)
      then obtain a2 r2 where p2: "p2 = (a2, r2)" "rbr_ok r2" "unat a2 < 2 ^ unat (sbits pm)" by (cases p2) auto
      show ?case unfolding p2(1) prod.case
      proof (rule ensures_rbind [OF rval_ensures [OF p2(2)]], goal_cases)
        case (2 p3)
        then obtain a3 r3 where p3: "p3 = (a3, r3)" "rbr_ok r3" "unat a3 < 2 ^ unat (sbits po)" by (cases p3) auto
        show ?case using p1(3) p2(3) p3 el(1,6) eo(1,6) em(1,6) by (simp add: states_ok_def next_state_ok)
      qed (use eo(2) in simp)
    qed (use em(2) in simp)
  qed (use el(2) in simp)
qed

definition rep_frame :: "Reader \<Rightarrow> Reader \<Rightarrow> bool" where
  "rep_frame r r' \<longleftrightarrow> r' = r\<lparr>repeatedOffset1 := repeatedOffset1 r', repeatedOffset2 := repeatedOffset2 r',
     repeatedOffset3 := repeatedOffset3 r'\<rparr>"

lemma repeat_offset_frame: "rep_frame r (fst (repeat_offset r bits o0 l))"
  by (simp add: rep_frame_def repeat_offset_def Let_def)

lemma rep_frame_fields:
  assumes "rep_frame r r'"
  shows "seqTables r' = seqTables r" "seqTableBits r' = seqTableBits r" "zwindow r' = zwindow r" "buffer r' = buffer r"
    "blockOffset r' = blockOffset r"
  by (subst assms [unfolded rep_frame_def], simp)+

end
