(* ===== verification/ZstdExec.thy ===== *)
theory ZstdExec
  imports ZstdSeqs
begin

text \<open>
  The loop of \<open>execSeqs\<close> (\<open>src/pkg/lib/zstd/block.go\<close>) reads a sequence and executes it at once. It is shown to
  be the two-phase decoder of the format: first all sequences are read, then they are executed as LZ77. The
  decoding of a compressed block is safe.
\<close>

section \<open>Reading one sequence\<close>

lemma read_seq_ensures:
  assumes t: "tables_ready r" and s: "states_ok r s"
  shows "ensures (read_seq r again s) (\<lambda>(r', (l, ofs, m), s'). rep_frame r r' \<and> unat m \<le> 131074
    \<and> rbr_ok (srbr s') \<and> (again \<longrightarrow> states_ok r s'))"
proof -
  have k: "kind_ready r seqLiteral" "kind_ready r seqOffset" "kind_ready r seqMatch" using t by (simp_all add: tables_ready_def)
  have i: "unat (lstate s) < length (seqTables r ! 0)" "unat (ostate s) < length (seqTables r ! 1)"
    "unat (mstate s) < length (seqTables r ! 2)" and rb: "rbr_ok (srbr s)" using s by (simp_all add: states_ok_def)
  define pl where "pl = seqTables r ! 0 ! unat (lstate s)"
  define po where "po = seqTables r ! 1 ! unat (ostate s)"
  define pm where "pm = seqTables r ! 2 ! unat (mstate s)"
  note el = kind_entry [OF k(1), unfolded kind_index.simps, OF i(1) pl_def]
    and eo = kind_entry [OF k(2), unfolded kind_index.simps, OF i(2) po_def]
    and em = kind_entry [OF k(3), unfolded kind_index.simps, OF i(3) pm_def]
  have n: "ensures (if again then next_states bo pl pm po s1 else Inr s1) (\<lambda>s'. rbr_ok (srbr s') \<and> (again \<longrightarrow> states_ok r s'))"
    if "rbr_ok (srbr s1)" for bo s1
    using next_states_ensures [OF t s that pl_def po_def pm_def, of bo] that
    by (auto elim!: ensures_mono simp: states_ok_def)
  show ?thesis unfolding read_seq_def Let_def znth_ok [OF i(1)] znth_ok [OF i(2)] znth_ok [OF i(3)] rbind.simps
      pl_def [symmetric] po_def [symmetric] pm_def [symmetric]
  proof (rule ensures_rbind [OF rval_ensures [OF rb eo(3)]], goal_cases)
    case (1 p1)
    then obtain a1 r1 where p1: "p1 = (a1, r1)" "rbr_ok r1" by (cases p1) auto
    have b: "unat (basebits pm) \<le> 31" "unat (basebits pl) \<le> 31" using em(3) el(3) by simp_all
    show ?case unfolding p1(1) prod.case
    proof (rule ensures_rbind [OF rval_ensures [OF p1(2) b(1)]], goal_cases)
      case (1 p2)
      then obtain a2 r2 where p2: "p2 = (a2, r2)" "rbr_ok r2" "unat a2 < 2 ^ unat (basebits pm)" by (cases p2) auto
      have "(2::nat) ^ unat (basebits pm) \<le> 2 ^ 16" using em(4) by (intro power_increasing) simp_all
      then have m: "unat (baseline pm + a2) \<le> 131074" using em(5) p2(3) by (simp add: unat_word_ariths)
      show ?case unfolding p2(1) prod.case
      proof (rule ensures_rbind [OF rval_ensures [OF p2(2) b(2)]], goal_cases)
        case (1 p3)
        then obtain a3 r3 where p3: "p3 = (a3, r3)" "rbr_ok r3" by (cases p3) auto
        show ?case unfolding p3(1) prod.case split_beta
          by (rule ensures_rbind [OF n]) (use p3(2) m repeat_offset_frame in auto)
      qed
    qed
  qed
qed

section \<open>Executing one sequence\<close>

definition seq_valid :: "Reader \<Rightarrow> u32 \<times> u32 \<times> u32 \<Rightarrow> bytes \<Rightarrow> bool" where
  "seq_valid r sq lits \<longleftrightarrow> (case sq of (l, ofs, m) \<Rightarrow> unat l \<le> length lits
     \<and> (m = 0 \<or> 0 < unat ofs \<and> unat ofs \<le> length (history r) + unat l))"

lemma exec_seq_valid:
  assumes "window_inv (zwindow r)" "length (buffer r) + length lits \<le> 131072" "unat m \<le> 131074" "seq_valid r (l, ofs, m) lits"
  shows "\<exists>b. exec_seq r rbr (l, ofs, m) lits = Inr (r\<lparr>buffer := b\<rparr>, drop (unat l) lits)
    \<and> wcontents (zwindow r) @ b = lz_copy (unat ofs) (unat m) (history r @ take (unat l) lits)"
proof -
  define r1 where "r1 = r\<lparr>buffer := buffer r @ take (unat l) lits\<rparr>"
  have v: "unat l \<le> length lits" "m = 0 \<or> 0 < unat ofs \<and> unat ofs \<le> length (history r) + unat l"
    using assms(4) by (simp_all add: seq_valid_def)
  have "unat (of_nat (length lits) :: u32) = length lits" using assms(2) by (simp add: unat_of_nat)
  then have l: "\<not> of_nat (length lits) < l" using v(1) by (simp add: word_less_nat_alt)
  have run: "exec_seq r rbr (l, ofs, m) lits
      = rbind (if 0 < m then copyFromWindow r1 rbr ofs m else Inr r1) (\<lambda>r2. Inr (r2, drop (unat l) lits))"
    using l v(1) by (simp add: exec_seq_def Let_def r1_def)
  have h: "history r1 = history r @ take (unat l) lits" "length (history r1) = length (history r) + unat l"
    using v(1) by (simp_all add: history_def r1_def)
  show ?thesis
  proof (cases "m = 0")
    case True
    with run h(1) show ?thesis by (auto simp: r1_def history_def)
  next
    case False
    have "\<exists>b. copyFromWindow r1 rbr ofs m = Inr (r1\<lparr>buffer := b\<rparr>)
        \<and> wcontents (zwindow r1) @ b = lz_copy (unat ofs) (unat m) (history r1)"
      using assms(1-3) v False h(2) by (intro copyFromWindow_spec) (auto simp: r1_def)
    with run h(1) False show ?thesis by (auto simp: r1_def word_gt_0)
  qed
qed

lemma exec_seq_invalid:
  assumes "window_inv (zwindow r)" "length (buffer r) + length lits \<le> 131072" "\<not> seq_valid r (l, ofs, m) lits"
  shows "\<exists>i msg. exec_seq r rbr (l, ofs, m) lits = makeError (blockOffset r) i msg"
proof (cases "unat l \<le> length lits")
  case False
  have "unat (of_nat (length lits) :: u32) = length lits" using assms(2) by (simp add: unat_of_nat)
  with False have "of_nat (length lits) < l" by (simp add: word_less_nat_alt)
  then show ?thesis by (auto simp: exec_seq_def)
next
  case True
  define r1 where "r1 = r\<lparr>buffer := buffer r @ take (unat l) lits\<rparr>"
  have m: "m \<noteq> 0" and o: "unat ofs = 0 \<or> length (history r1) < unat ofs"
    using assms(3) True by (auto simp: seq_valid_def r1_def history_def)
  have "copyFromWindow r1 rbr ofs m = makeError (blockOffset r1) (uint (roff rbr))
      (if ofs = 0 then ''invalid zero offset'' else ''offset past window'')"
    using assms(1,2) o by (intro copyFromWindow_error) (simp_all add: r1_def)
  moreover have "unat (of_nat (length lits) :: u32) = length lits" using assms(2) by (simp add: unat_of_nat)
  then have "\<not> of_nat (length lits) < l" using True by (simp add: word_less_nat_alt)
  ultimately show ?thesis using True m by (simp add: exec_seq_def Let_def r1_def makeError_def word_gt_0)
qed

section \<open>The two phases\<close>

fun read_all :: "nat \<Rightarrow> Reader \<Rightarrow> seq_reader \<Rightarrow> zerr + Reader \<times> (u32 \<times> u32 \<times> u32) list \<times> seq_reader" where
  "read_all 0 r s = Inr (r, [], s)"
| "read_all (Suc n) r s =
     rbind (read_seq r (0 < n) s) (\<lambda>(r1, sq, s1).
       rbind (read_all n r1 s1) (\<lambda>(r2, sqs, s2). Inr (r2, sq # sqs, s2)))"

text \<open>LZ77 on a list of sequences: the literals left and the history, of which the first \<open>w\<close> bytes are the window.\<close>

fun lz_run :: "nat \<Rightarrow> (u32 \<times> u32 \<times> u32) list \<Rightarrow> bytes \<Rightarrow> bytes \<Rightarrow> (bytes \<times> bytes) option" where
  "lz_run w [] lits h = Some (lits, h)"
| "lz_run w ((l, ofs, m) # sqs) lits h =
     (if length h - w + length lits \<le> 131072 \<and> unat l \<le> length lits
         \<and> (m = 0 \<or> 0 < unat ofs \<and> unat ofs \<le> length h + unat l)
      then lz_run w sqs (drop (unat l) lits) (lz_copy (unat ofs) (unat m) (h @ take (unat l) lits))
      else None)"

definition two_phase :: "nat \<Rightarrow> Reader \<Rightarrow> bytes \<Rightarrow> seq_reader \<Rightarrow> (Reader \<times> bytes \<times> seq_reader) option" where
  "two_phase n r lits s =
     (case read_all n r s of Inl e \<Rightarrow> None
      | Inr (r1, sqs, s1) \<Rightarrow>
          (case lz_run (length (wcontents (zwindow r))) sqs lits (history r) of None \<Rightarrow> None
           | Some (lits', h) \<Rightarrow> Some (r1\<lparr>buffer := drop (length (wcontents (zwindow r))) h\<rparr>, lits', s1)))"

definition set_buf :: "bytes \<Rightarrow> Reader \<times> 'b \<Rightarrow> Reader \<times> 'b" where
  "set_buf b p = (fst p\<lparr>buffer := b\<rparr>, snd p)"

lemma map_rbind: "map_sum id g (rbind m f) = rbind m (\<lambda>x. map_sum id g (f x))"
  by (cases m) simp_all

lemma repeat_offset_buffer: "repeat_offset (r\<lparr>buffer := b\<rparr>) bits o0 l = set_buf b (repeat_offset r bits o0 l)"
  by (simp add: repeat_offset_def Let_def set_buf_def)

lemma read_seq_buffer: "read_seq (r\<lparr>buffer := b\<rparr>) again s = map_sum id (set_buf b) (read_seq r again s)"
  by (simp add: read_seq_def Let_def map_rbind repeat_offset_buffer case_prod_unfold set_buf_def)

lemma read_all_buffer: "read_all n (r\<lparr>buffer := b\<rparr>) s = map_sum id (set_buf b) (read_all n r s)"
proof (induction n arbitrary: r s)
  case (Suc n)
  show ?case
  proof (cases "read_seq r (0 < n) s")
    case (Inr p)
    obtain r1 sq s1 where p: "p = (r1, sq, s1)" by (cases p) auto
    show ?thesis using Inr p Suc.IH [of r1 s1] by (cases "read_all n r1 s1") (auto simp: read_seq_buffer set_buf_def)
  qed (simp add: read_seq_buffer)
qed (simp add: set_buf_def)

section \<open>The loop is the two-phase decoder\<close>

lemma tables_ready_frame: "rep_frame r r' \<Longrightarrow> tables_ready r' = tables_ready r" "rep_frame r r' \<Longrightarrow> states_ok r' s = states_ok r s"
  by (simp_all add: tables_ready_def kind_ready_def states_ok_def rep_frame_fields)

lemma tables_ready_buffer [simp]: "tables_ready (r\<lparr>buffer := b\<rparr>) = tables_ready r" "states_ok (r\<lparr>buffer := b\<rparr>) s = states_ok r s"
  by (simp_all add: tables_ready_def kind_ready_def states_ok_def)

lemma seq_valid_frame: "rep_frame r r' \<Longrightarrow> seq_valid r' sq lits = seq_valid r sq lits"
  by (simp add: seq_valid_def history_def rep_frame_fields)

text \<open>One turn of the loop, in both decoders, when the size check passes.\<close>

lemma two_phase_step:
  assumes rs: "read_seq r (0 < n) s = Inr (r1, sq, s1)" and f: "rep_frame r r1"
    and v: "seq_valid r sq lits" "length (buffer r) + length lits \<le> 131072"
    and b: "wcontents (zwindow r) @ b = lz_copy (unat (fst (snd sq))) (unat (snd (snd sq))) (history r @ take (unat (fst sq)) lits)"
  shows "two_phase (Suc n) r lits s = two_phase n (r1\<lparr>buffer := b\<rparr>) (drop (unat (fst sq)) lits) s1"
proof -
  obtain l ofs m where sq: "sq = (l, ofs, m)" by (cases sq) auto
  have h: "history (r1\<lparr>buffer := b\<rparr>) = lz_copy (unat ofs) (unat m) (history r @ take (unat l) lits)"
    using b by (simp add: history_def rep_frame_fields [OF f] sq)
  have g: "length (history r) - length (wcontents (zwindow r)) + length lits \<le> 131072 \<and> unat l \<le> length lits
         \<and> (m = 0 \<or> 0 < unat ofs \<and> unat ofs \<le> length (history r) + unat l)"
    using v by (simp add: history_def seq_valid_def sq)
  show ?thesis
  proof (cases "read_all n r1 s1")
    case (Inl e)
    then show ?thesis using rs by (simp add: two_phase_def read_all_buffer)
  next
    case (Inr p)
    obtain r2 sqs s2 where p: "p = (r2, sqs, s2)" by (cases p) auto
    have "read_all n (r1\<lparr>buffer := b\<rparr>) s1 = Inr (r2\<lparr>buffer := b\<rparr>, sqs, s2)"
      using Inr p by (simp add: read_all_buffer set_buf_def)
    with Inr p rs h g show ?thesis
      by (simp add: two_phase_def sq rep_frame_fields [OF f] split: option.split)
  qed
qed

lemma two_phase_stop:
  assumes rs: "read_seq r (0 < n) s = Inr (r1, sq, s1)"
    and v: "\<not> seq_valid r sq lits \<or> 131072 < length (buffer r) + length lits"
  shows "two_phase (Suc n) r lits s = None"
proof -
  obtain l ofs m where sq: "sq = (l, ofs, m)" by (cases sq) auto
  have g: "\<not> (length (history r) - length (wcontents (zwindow r)) + length lits \<le> 131072 \<and> unat l \<le> length lits
         \<and> (m = 0 \<or> 0 < unat ofs \<and> unat ofs \<le> length (history r) + unat l))"
    using v by (auto simp: history_def seq_valid_def sq)
  show ?thesis
  proof (cases "read_all n r1 s1")
    case (Inr p)
    have "lz_run (length (wcontents (zwindow r))) ((l, ofs, m) # sqs) lits (history r) = None" for sqs
      unfolding lz_run.simps if_not_P [OF g] ..
    then show ?thesis using rs Inr by (cases p) (simp add: two_phase_def sq del: lz_run.simps)
  qed (use rs in \<open>simp add: two_phase_def\<close>)
qed

lemma seq_loop_spec:
  assumes "tables_ready r" "window_inv (zwindow r)" "0 < n \<longrightarrow> states_ok r s"
  shows "ensures (seq_loop n r lits s) (\<lambda>x. two_phase n r lits s = Some x) \<and>
    (two_phase n r lits s \<noteq> None \<longrightarrow> (\<exists>x. seq_loop n r lits s = Inr x))"
  using assms
proof (induction n arbitrary: r lits s)
  case 0
  have "r\<lparr>buffer := buffer r\<rparr> = r" by simp
  then show ?case by (simp add: two_phase_def history_def)
next
  case (Suc n)
  have st: "states_ok r s" using Suc.prems(3) by simp
  note rd = read_seq_ensures [OF Suc.prems(1) st, of "0 < n"]
  show ?case
  proof (cases "read_seq r (0 < n) s")
    case (Inl e)
    then have "safe (Inl e :: zerr + Reader \<times> bytes \<times> seq_reader)" using rd by (auto simp: ensures_def elim: safe.elims)
    with Inl show ?thesis by (simp add: two_phase_def ensures_def)
  next
    case (Inr p)
    obtain r1 l ofs m s1 where p: "p = (r1, (l, ofs, m), s1)" by (cases p) auto
    have rs: "read_seq r (0 < n) s = Inr (r1, (l, ofs, m), s1)" using Inr p by simp
    have q: "rep_frame r r1" "unat m \<le> 131074" "0 < n \<longrightarrow> states_ok r s1" using ensures_exec [OF rd rs] by auto
    note f = rep_frame_fields [OF q(1)]
    show ?thesis
    proof (cases "seq_valid r (l, ofs, m) lits \<and> length (buffer r) + length lits \<le> 131072")
      case False
      have "\<exists>i msg. seq_loop (Suc n) r lits s = makeError (blockOffset r) i msg"
      proof (cases "131072 < length (buffer r) + length lits")
        case False
        then have "\<not> seq_valid r1 (l, ofs, m) lits"
          using \<open>\<not> (seq_valid r (l, ofs, m) lits \<and> length (buffer r) + length lits \<le> 131072)\<close> seq_valid_frame [OF q(1)] by auto
        then have "\<exists>i msg. exec_seq r1 (srbr s1) (l, ofs, m) lits = makeError (blockOffset r1) i msg"
          using Suc.prems(2) False f by (intro exec_seq_invalid) simp_all
        with False rs f show ?thesis by (auto simp: makeError_def)
      qed auto
      moreover have "two_phase (Suc n) r lits s = None" using two_phase_stop [OF rs] False by auto
      ultimately show ?thesis by auto
    next
      case True
      then have "\<exists>b. exec_seq r1 (srbr s1) (l, ofs, m) lits = Inr (r1\<lparr>buffer := b\<rparr>, drop (unat l) lits)
          \<and> wcontents (zwindow r1) @ b = lz_copy (unat ofs) (unat m) (history r1 @ take (unat l) lits)"
        using Suc.prems(2) f q(2) seq_valid_frame [OF q(1)] by (intro exec_seq_valid) simp_all
      then obtain b where b: "exec_seq r1 (srbr s1) (l, ofs, m) lits = Inr (r1\<lparr>buffer := b\<rparr>, drop (unat l) lits)"
        "wcontents (zwindow r) @ b = lz_copy (unat ofs) (unat m) (history r @ take (unat l) lits)"
        by (auto simp: f history_def)
      have "seq_loop (Suc n) r lits s = seq_loop n (r1\<lparr>buffer := b\<rparr>) (drop (unat l) lits) s1" using True rs b(1) by simp
      moreover have "two_phase (Suc n) r lits s = two_phase n (r1\<lparr>buffer := b\<rparr>) (drop (unat l) lits) s1"
        using two_phase_step [OF rs q(1)] True b(2) by simp
      ultimately show ?thesis
        using Suc.IH [of "r1\<lparr>buffer := b\<rparr>" s1 "drop (unat l) lits"] Suc.prems(1,2) q(3) f tables_ready_frame [OF q(1)] by simp
    qed
  qed
qed

section \<open>A compressed block\<close>

lemma rep_frame_refl: "rep_frame r r"
  by (simp add: rep_frame_def)

lemma rep_frame_trans: "rep_frame r r' \<Longrightarrow> rep_frame r' r'' \<Longrightarrow> rep_frame r r''"
proof -
  assume a: "rep_frame r r'" and b: "rep_frame r' r''"
  have "r'' = r'\<lparr>repeatedOffset1 := repeatedOffset1 r'', repeatedOffset2 := repeatedOffset2 r'', repeatedOffset3 := repeatedOffset3 r''\<rparr>"
    using b by (simp only: rep_frame_def)
  also have "\<dots> = r\<lparr>repeatedOffset1 := repeatedOffset1 r'', repeatedOffset2 := repeatedOffset2 r'', repeatedOffset3 := repeatedOffset3 r''\<rparr>"
    by (subst a [unfolded rep_frame_def]) simp
  finally show ?thesis by (simp only: rep_frame_def)
qed

lemma read_seq_frame: "read_seq r again s = Inr (r', sq, s') \<Longrightarrow> rep_frame r r'"
  unfolding read_seq_def Let_def case_prod_unfold rbind_Inr_iff using repeat_offset_frame by auto

lemma read_all_frame: "read_all n r s = Inr (r', sqs, s') \<Longrightarrow> rep_frame r r'"
proof (induction n arbitrary: r s sqs)
  case (Suc n)
  then show ?case by (auto simp: rbind_Inr_iff split: prod.splits dest!: read_seq_frame intro: rep_frame_trans)
qed (simp add: rep_frame_refl)

text \<open>What decoding relies on between blocks.\<close>

definition decoder_inv :: "Reader \<Rightarrow> bool" where
  "decoder_inv r \<longleftrightarrow> huff_ready r \<and> seqs_ready r \<and> window_inv (zwindow r)"

lemma decoder_inv_buffer [simp]: "decoder_inv (r\<lparr>buffer := b\<rparr>) = decoder_inv r"
  by (simp add: decoder_inv_def huff_ready_def seqs_ready_def kind_ready_def)

lemma decoder_inv_rep: "rep_frame r r' \<Longrightarrow> decoder_inv r' = decoder_inv r"
proof -
  assume "rep_frame r r'"
  then have r: "r' = r\<lparr>repeatedOffset1 := repeatedOffset1 r', repeatedOffset2 := repeatedOffset2 r', repeatedOffset3 := repeatedOffset3 r'\<rparr>"
    by (simp only: rep_frame_def)
  show ?thesis by (subst r) (simp add: decoder_inv_def huff_ready_def seqs_ready_def kind_ready_def)
qed

lemma two_phase_inv:
  assumes "two_phase n r lits s = Some (r', lits', s')" "decoder_inv r"
  shows "decoder_inv r' \<and> blockOffset r' = blockOffset r \<and> inp r' = inp r"
proof -
  obtain r1 sqs h where r1: "read_all n r s = Inr (r1, sqs, s')" "r' = r1\<lparr>buffer := h\<rparr>"
    using assms(1) by (auto simp: two_phase_def split: sum.splits prod.splits option.splits)
  from read_all_frame [OF r1(1)] have f: "rep_frame r r1" .
  then have "inp r1 = inp r" "blockOffset r1 = blockOffset r" by (subst f [unfolded rep_frame_def], simp)+
  with decoder_inv_rep [OF f] assms(2) r1(2) show ?thesis by simp
qed

lemma execSeqs_ensures:
  assumes r: "decoder_inv r" "tables_ready r" and d: "length data < 2 ^ 31" "0 < length data"
  shows "ensures (execSeqs r data off lits n) (\<lambda>r'. decoder_inv r' \<and> blockOffset r' = blockOffset r \<and> inp r' = inp r)"
proof -
  have k: "unat (seqTableBits r ! i) \<le> 9 \<and> length (seqTables r ! i) = 2 ^ unat (seqTableBits r ! i)" if "i < 3" for i
  proof -
    from that have "i = kind_index seqLiteral \<or> i = kind_index seqOffset \<or> i = kind_index seqMatch" by auto
    then obtain kind where "i = kind_index kind" by blast
    with r(2) show ?thesis by (auto simp: tables_ready_def kind_ready_def table_ok_def)
  qed
  show ?thesis unfolding execSeqs_def Let_def
  proof (rule ensures_rbind [OF makeReverseBitReader_ensures], goal_cases)
    case (4 rbr)
    then have rb: "rbr_ok rbr" by simp
    show ?case
    proof (rule ensures_rbind [OF rval_ensures [OF rb]], goal_cases)
      case (2 p1)
      then obtain ls r1 where p1: "p1 = (ls, r1)" "rbr_ok r1" "unat ls < 2 ^ unat (seqTableBits r ! 0)" by (cases p1) auto
      show ?case unfolding p1(1) prod.case
      proof (rule ensures_rbind [OF rval_ensures [OF p1(2)]], goal_cases)
        case (2 p2)
        then obtain os r2 where p2: "p2 = (os, r2)" "rbr_ok r2" "unat os < 2 ^ unat (seqTableBits r ! 1)" by (cases p2) auto
        show ?case unfolding p2(1) prod.case
        proof (rule ensures_rbind [OF rval_ensures [OF p2(2)]], goal_cases)
          case (2 p3)
          then obtain ms r3 where p3: "p3 = (ms, r3)" "rbr_ok r3" "unat ms < 2 ^ unat (seqTableBits r ! 2)" by (cases p3) auto
          define s0 where "s0 = \<lparr>lstate = ls, ostate = os, mstate = ms, srbr = r3\<rparr>"
          have "states_ok r s0" using p1(3) p2(3) p3(2,3) k [of 0] k [of 1] k [of 2] by (simp add: states_ok_def s0_def)
          then have "ensures (seq_loop n r lits s0) (\<lambda>x. two_phase n r lits s0 = Some x)"
            using seq_loop_spec [OF r(2)] r(1) by (simp add: decoder_inv_def)
          then show ?case unfolding p3(1) prod.case s0_def [symmetric]
            by (rule ensures_rbind) (use r(1) in \<open>auto dest!: two_phase_inv\<close>)
        qed (use k [of 2] in simp)
      qed (use k [of 1] in simp)
    qed (use k [of 0] in simp)
  qed (use d in auto)
qed

lemma decoder_inv_seq: "seq_frame r r' \<Longrightarrow> seqs_ready r' \<Longrightarrow> decoder_inv r \<Longrightarrow> decoder_inv r'"
  by (auto simp: seq_frame_def decoder_inv_def huff_ready_def seqs_ready_def)

lemma decoder_inv_lit: "lit_frame r r' \<Longrightarrow> huff_ready r' \<Longrightarrow> decoder_inv r \<Longrightarrow> decoder_inv r'"
  by (auto simp: lit_frame_def decoder_inv_def huff_ready_def seqs_ready_def kind_ready_def)

lemma decode_block_ensures:
  assumes r: "decoder_inv r" and d: "length data < 2 ^ 31"
  shows "ensures (decode_block r data) (\<lambda>r'. decoder_inv r' \<and> blockOffset r' = blockOffset r \<and> inp r' = inp r)"
proof (cases "data = []")
  case True
  then show ?thesis by (simp add: decode_block_def readLiterals_def makeEOFError_def ensures_def)
next
  case ne: False
  have h: "huff_ready (r\<lparr>buffer := []\<rparr>)" using r by (simp add: decoder_inv_def huff_ready_def)
  show ?thesis unfolding decode_block_def
  proof (rule ensures_rbind [OF readLiterals_ensures [OF h d]], goal_cases)
    case (1 p1)
    then obtain r1 off1 lits where p1: "p1 = (r1, off1, lits)" "huff_ready r1" "lit_frame (r\<lparr>buffer := []\<rparr>) r1" by (cases p1) auto
    have i1: "decoder_inv r1" using decoder_inv_lit [OF p1(3,2)] r by simp
    have f1: "blockOffset r1 = blockOffset r" "inp r1 = inp r" using p1(3) by (auto simp: lit_frame_def)
    have s1: "seqs_ready r1" using i1 by (simp add: decoder_inv_def)
    show ?case unfolding p1(1) prod.case
    proof (rule ensures_rbind [OF initSeqs_ensures [OF s1 d]], goal_cases)
      case (1 p2)
      then obtain r2 n off2 where p2: "p2 = (r2, n, off2)" "seqs_ready r2" "seq_frame r1 r2"
        "0 < n \<longrightarrow> off2 \<le> length data \<and> (\<forall>k. kind_ready r2 k)" by (cases p2) auto
      have i2: "decoder_inv r2" using decoder_inv_seq [OF p2(3,2) i1] .
      have f2: "blockOffset r2 = blockOffset r" "inp r2 = inp r" using p2(3) f1 by (auto simp: seq_frame_def)
      show ?case
      proof (cases "n = 0")
        case True
        with i2 f2 show ?thesis by (simp add: p2(1))
      next
        case False
        then have "tables_ready r2" using p2(4) by (simp add: tables_ready_def)
        from execSeqs_ensures [OF i2 this d] ne f2 False show ?thesis by (simp add: p2(1))
      qed
    qed
  qed
qed

section \<open>The execution of sequences is LZ77\<close>

text \<open>
  C16. Executing the sequences of a block is LZ77. With sound tables, the loop that interleaves reading and execution
  never panics and never loops; it succeeds exactly when all sequences can be read and executed one after the other
  on the literals and the history within the size limits, and then its output is that of the reference.
\<close>

theorem sequences_are_lz77:
  assumes "tables_ready r" "window_inv (zwindow r)" "states_ok r s"
  shows "safe (seq_loop n r lits s) \<and> (\<forall>x. seq_loop n r lits s = Inr x \<longleftrightarrow> two_phase n r lits s = Some x)"
proof -
  have *: "ensures (seq_loop n r lits s) (\<lambda>x. two_phase n r lits s = Some x)"
    "two_phase n r lits s \<noteq> None \<Longrightarrow> \<exists>x. seq_loop n r lits s = Inr x"
    using seq_loop_spec [OF assms(1,2), of n s lits] assms(3) by simp_all
  have "seq_loop n r lits s = Inr x" if x: "two_phase n r lits s = Some x" for x
  proof -
    obtain y where y: "seq_loop n r lits s = Inr y" using *(2) x by auto
    from ensures_exec [OF *(1) y] x y show ?thesis by simp
  qed
  with *(1) show ?thesis unfolding ensures_def by blast
qed

definition exec0 :: Reader where
  "exec0 = copy0\<lparr>repeatedOffset1 := 1, repeatedOffset2 := 4, repeatedOffset3 := 8,
     seqTables := [predefinedLiteralTable, predefinedOffsetTable, predefinedMatchTable], seqTableBits := [6, 5, 6]\<rparr>"

definition seq0 :: seq_reader where
  "seq0 = \<lparr>lstate = 2, ostate = 0, mstate = 0, srbr = \<lparr>rdata = [], roff = 0, rstart = 0, rbits = 0, rcnt = 0\<rparr>\<rparr>"

theorem sequences_are_lz77_witness:
  "safe (seq_loop 1 exec0 [7, 8] seq0) \<and> (\<forall>x. seq_loop 1 exec0 [7, 8] seq0 = Inr x \<longleftrightarrow> two_phase 1 exec0 [7, 8] seq0 = Some x)"
proof -
  have "kind_ready exec0 k" for k
    using predefined_ok by (cases k) (simp_all add: kind_ready_def exec0_def)
  then have t: "tables_ready exec0" by (simp add: tables_ready_def)
  have w: "window_inv (zwindow exec0)" by (simp add: exec0_def copy0_def window_inv_def)
  have s: "states_ok exec0 seq0"
    by (simp add: states_ok_def exec0_def seq0_def rbr_ok_def predefinedLiteralTable_def predefinedOffsetTable_def predefinedMatchTable_def)
  show ?thesis by (rule sequences_are_lz77 [OF t w s])
qed

end
