(* ===== verification/Zstd.thy ===== *)
theory Zstd
  imports ZstdExec
begin

text \<open>
  Frames of the Zstandard decoder, \<open>src/pkg/lib/zstd/zstd.go\<close> and \<open>decode.go\<close>: the frame header, skippable
  frames, the block loop with sizes, window and checksum, and the reader on top. The flag \<open>fuzzing\<close> of the code is
  false outside its tests. \<open>io.ReadFull\<close> and \<open>io.CopyN\<close> are those of the Go library on the input.
\<close>

section \<open>Reading from the input\<close>

datatype io_error = IoEOF | IoUnexpectedEOF | IoErr string

definition readFull :: "zinput \<Rightarrow> nat \<Rightarrow> io_error + bytes \<times> zinput" where
  "readFull i n =
     (if n \<le> length (idata i) then Inr (take n (idata i), i\<lparr>idata := drop n (idata i)\<rparr>)
      else Inl (case ierr i of Some e \<Rightarrow> IoErr e | None \<Rightarrow> if idata i = [] then IoEOF else IoUnexpectedEOF))"

fun io_text :: "io_error \<Rightarrow> string" where
  "io_text IoEOF = ''EOF''"
| "io_text IoUnexpectedEOF = ''unexpected EOF''"
| "io_text (IoErr e) = e"

definition wrapError :: "int \<Rightarrow> int \<Rightarrow> io_error \<Rightarrow> zerr" where
  "wrapError bo off e = (if e = IoEOF then ZEOF else ZErr (bo + off) (io_text e))"

definition wrapNonEOFError :: "int \<Rightarrow> int \<Rightarrow> io_error \<Rightarrow> zerr" where
  "wrapNonEOFError bo off e = wrapError bo off (if e = IoEOF then IoUnexpectedEOF else e)"

definition read_full :: "Reader \<Rightarrow> int \<Rightarrow> nat \<Rightarrow> zerr + bytes \<times> Reader" where
  "read_full r off n =
     (case readFull (inp r) n of
        Inl e \<Rightarrow> Inl (wrapNonEOFError (blockOffset r) off e)
      | Inr (b, i) \<Rightarrow> Inr (b, r\<lparr>inp := i\<rparr>))"

definition advance :: "int \<Rightarrow> Reader \<Rightarrow> Reader" where
  "advance n r = r\<lparr>blockOffset := blockOffset r + n\<rparr>"

definition skip_input :: "nat \<Rightarrow> Reader \<Rightarrow> Reader" where
  "skip_input n r = r\<lparr>inp := (inp r)\<lparr>idata := drop n (idata (inp r))\<rparr>\<rparr>"

section \<open>Frame headers\<close>

definition skipFrame :: "Reader \<Rightarrow> zerr + Reader" where
  "skipFrame r =
     rbind (read_full r 0 4) (\<lambda>(b, r1).
       let sz = unat (get_le32 b); left = length (idata (inp r1))
       in if sz = 0 then Inr (advance 4 r1)
          else case iseek (inp r1) of
                 Some serr \<Rightarrow>
                   (let r2 = advance 4 r1
                    in case serr of
                         Some e \<Rightarrow> Inl (wrapError (blockOffset r2) 0 (IoErr e))
                       | None \<Rightarrow> if left < sz then makeEOFError (blockOffset r2 + int left) 0
                                 else Inr (advance (int sz) (skip_input sz r2)))
               | None \<Rightarrow>
                   if left < sz
                   then Inl (wrapNonEOFError (blockOffset r1) (4 + int left)
                          (case ierr (inp r1) of Some e \<Rightarrow> IoErr e | None \<Rightarrow> IoEOF))
                   else Inr (advance (4 + int sz) (skip_input sz r1)))"

text \<open>The window size of the header, before it is limited.\<close>

definition window_size :: "u8 \<Rightarrow> u64" where
  "window_size wd =
     (let windowLog = unat (drop_bit 3 wd) + 10;
          windowBase = push_bit windowLog 1 :: u64
      in windowBase + windowBase div 8 * ucast (wd AND 7))"

definition content_size :: "nat \<Rightarrow> bytes \<Rightarrow> zerr + bool \<times> u64" where
  "content_size fcsFieldSize fb =
     (if fcsFieldSize = 0 then Inr (True, 0)
      else if fcsFieldSize = 1 then rbind (znth fb 0) (\<lambda>b. Inr (False, ucast b))
      else if fcsFieldSize = 2 then rbind (zslice fb 0 2) (\<lambda>b. Inr (False, 256 + ucast (get_le16 b)))
      else if fcsFieldSize = 4 then rbind (zslice fb 0 4) (\<lambda>b. Inr (False, ucast (get_le32 b)))
      else if fcsFieldSize = 8 then rbind (zslice fb 0 8) (\<lambda>b. Inr (False, get_le64 b))
      else Inl (ZPanic Unreachable))"

definition maxWindowSize :: u64 where "maxWindowSize = 0x800000"

definition start_frame :: "Reader \<Rightarrow> bool \<Rightarrow> u64 \<Rightarrow> u64 \<Rightarrow> nat \<Rightarrow> Reader" where
  "start_frame r unknown fsize windowSize frameHeaderSize =
     (advance (5 + int frameHeaderSize) r)\<lparr>frameSizeUnknown := unknown, remainingFrameSize := fsize, sawFrameHeader := True,
        readOneFrame := True, repeatedOffset1 := 1, repeatedOffset2 := 4, repeatedOffset3 := 8, huffmanTableBits := 0,
        zwindow := wreset (zwindow r) (unat windowSize), seqTables := [[], [], []]\<rparr>"

text \<open>The sizes of the header's fields, from the frame header descriptor.\<close>

definition singleSegment :: "u8 \<Rightarrow> bool" where
  "singleSegment descriptor \<longleftrightarrow> descriptor AND 32 \<noteq> 0"

definition windowDescriptorSize :: "u8 \<Rightarrow> nat" where
  "windowDescriptorSize descriptor = (if singleSegment descriptor then 0 else 1)"

definition fcsFieldSize :: "u8 \<Rightarrow> nat" where
  "fcsFieldSize descriptor =
     (let n = 2 ^ unat (drop_bit 6 descriptor) in if n = 1 \<and> \<not> singleSegment descriptor then 0 else n)"

definition dictionaryIdSize :: "u8 \<Rightarrow> nat" where
  "dictionaryIdSize descriptor = (if descriptor AND 3 \<noteq> 0 then 2 ^ (unat (descriptor AND 3) - 1) else 0)"

definition frameHeaderSize :: "u8 \<Rightarrow> nat" where
  "frameHeaderSize descriptor = windowDescriptorSize descriptor + dictionaryIdSize descriptor + fcsFieldSize descriptor"

text \<open>The fields \<open>h\<close> after the descriptor, and the whole header after the magic number.\<close>

definition frame_fields :: "Reader \<Rightarrow> u8 \<Rightarrow> bytes \<Rightarrow> zerr + Reader" where
  "frame_fields r descriptor h =
     (let n = windowDescriptorSize descriptor; k = n + dictionaryIdSize descriptor
      in rbind (zslice h n k) (\<lambda>dictionaryId.
           if \<not> list_all (\<lambda>b. b = 0) dictionaryId
           then makeError (blockOffset r) 5 ''dictionaries are not supported''
           else rbind (content_size (fcsFieldSize descriptor) (drop k h)) (\<lambda>(unknown, fsize).
             let windowSize = (if singleSegment descriptor then fsize else window_size (h ! 0))
             in Inr (start_frame r unknown fsize (if maxWindowSize < windowSize then maxWindowSize else windowSize)
                  (frameHeaderSize descriptor)))))"

definition set_checksum :: "Reader \<Rightarrow> bool \<Rightarrow> Reader" where
  "set_checksum r c = r\<lparr>hasChecksum := c, checksum := (if c then xreset (checksum r) else checksum r)\<rparr>"

definition frame_header :: "Reader \<Rightarrow> zerr + Reader" where
  "frame_header r =
     rbind (read_full r 4 1) (\<lambda>(d, r1).
       let descriptor = d ! 0
       in if descriptor AND 8 \<noteq> 0 then makeError (blockOffset r1) 4 ''reserved bit set in frame header descriptor''
          else rbind (read_full (set_checksum r1 (descriptor AND 4 \<noteq> 0)) 5 (frameHeaderSize descriptor)) (\<lambda>(h, r2).
            frame_fields r2 descriptor h))"

lemma read_full_inp:
  "read_full r off n = Inr (b, r') \<Longrightarrow> length b = n \<and> idata (inp r) = b @ idata (inp r') \<and> (\<exists>i. r' = r\<lparr>inp := i\<rparr>)"
  by (auto simp: read_full_def readFull_def split: if_splits sum.splits)

lemma readFull_inp: "readFull i n = Inr (b, i') \<Longrightarrow> length b = n \<and> idata i = b @ idata i'"
  by (auto simp: readFull_def split: if_splits)

lemma skipFrame_inp:
  assumes "skipFrame r = Inr r'"
  shows "length (idata (inp r')) \<le> length (idata (inp r))"
proof -
  from assms obtain b r1 where r1: "read_full r 0 4 = Inr (b, r1)"
    and r': "length (idata (inp r')) \<le> length (idata (inp r1))"
    by (auto simp: skipFrame_def rbind_Inr_iff Let_def advance_def skip_input_def makeEOFError_def split: if_splits option.splits)
  from read_full_inp [OF r1] have "length (idata (inp r1)) \<le> length (idata (inp r))" by (metis length_append le_add2)
  with r' show ?thesis by simp
qed

function readFrameHeader :: "Reader \<Rightarrow> zerr + Reader" where
  "readFrameHeader r =
     (case readFull (inp r) 4 of
        Inl e \<Rightarrow> Inl (wrapError (blockOffset r) 0 (if e = IoEOF \<and> \<not> readOneFrame r then IoUnexpectedEOF else e))
      | Inr (b, i) \<Rightarrow>
          (let magic = get_le32 b; r1 = r\<lparr>inp := i\<rparr>
           in if magic = 0xfd2fb528 then frame_header r1
              else if 0x184d2a50 \<le> magic \<and> magic \<le> 0x184d2a5f then
                (case skipFrame (advance 4 r1) of
                   Inl e \<Rightarrow> Inl e
                 | Inr r2 \<Rightarrow> readFrameHeader (r2\<lparr>readOneFrame := True\<rparr>))
              else makeError (blockOffset r) 0 ''invalid magic number''))"
  by pat_completeness auto
termination
proof (relation "measure (\<lambda>r. length (idata (inp r)))", goal_cases)
  case (2 r p b i magic r1 r2)
  then have "length (idata (inp r2)) \<le> length (idata (inp (advance 4 (r\<lparr>inp := i\<rparr>))))" by (simp add: skipFrame_inp)
  moreover have "idata (inp r) = b @ idata i" "length b = 4" using readFull_inp 2(1,2) by auto
  ultimately show ?case by (simp add: advance_def)
qed simp

declare readFrameHeader.simps [simp del]

section \<open>Blocks\<close>

definition setBufferSize :: "Reader \<Rightarrow> nat \<Rightarrow> Reader" where
  "setBufferSize r n = r\<lparr>buffer := take n (buffer r) @ zeros (n - length (buffer r))\<rparr>"

definition compressedBlock :: "Reader \<Rightarrow> nat \<Rightarrow> zerr + Reader" where
  "compressedBlock r blockSize = rbind (read_full r 0 blockSize) (\<lambda>(data, r1). decode_block r1 data)"

text \<open>The contents of a block by its type, with the relative offset that later errors use.\<close>

definition block_contents :: "Reader \<Rightarrow> u32 \<Rightarrow> nat \<Rightarrow> zerr + Reader \<times> int" where
  "block_contents r blockType blockSize =
     (if blockType = 0 then
        rbind (read_full (setBufferSize r blockSize) 3 blockSize) (\<lambda>(b, r1).
          Inr (advance (3 + int blockSize) (r1\<lparr>buffer := b\<rparr>), 3 + int blockSize))
      else if blockType = 1 then
        rbind (read_full (setBufferSize r blockSize) 3 1) (\<lambda>(b, r1).
          Inr (advance 4 (r1\<lparr>buffer := replicate (length (buffer r1)) (b ! 0)\<rparr>), 4))
      else if blockType = 2 then
        rbind (compressedBlock (advance 3 r) blockSize) (\<lambda>r1. Inr (advance (int blockSize) r1, 3))
      else makeError (blockOffset r) 3 ''invalid block type'')"

fun hex_digit :: "nat \<Rightarrow> char" where
  "hex_digit d = (if d < 10 then char_of (48 + d) else char_of (87 + d))"

fun hex_digits :: "nat \<Rightarrow> string" where
  "hex_digits n = (if n < 16 then [hex_digit n] else hex_digits (n div 16) @ [hex_digit (n mod 16)])"

declare hex_digits.simps [simp del]

definition hex :: "u32 \<Rightarrow> string" where
  "hex w = ''0x'' @ hex_digits (unat w)"

definition check_sum :: "Reader \<Rightarrow> zerr + Reader" where
  "check_sum r =
     (if hasChecksum r then
        rbind (read_full r 0 4) (\<lambda>(b, r1).
          let inputChecksum = get_le32 b; dataChecksum = ucast (xdigest (checksum r1)) :: u32
          in if inputChecksum \<noteq> dataChecksum
             then Inl (wrapError (blockOffset r1) 0
                    (IoErr (''invalid checksum: got '' @ hex dataChecksum @ '' want '' @ hex inputChecksum)))
             else Inr (advance 4 r1))
      else Inr r)"

definition finish_block :: "Reader \<Rightarrow> bool \<Rightarrow> int \<Rightarrow> zerr + Reader" where
  "finish_block r lastBlock rel =
     (if \<not> frameSizeUnknown r \<and> remainingFrameSize r < of_nat (length (buffer r))
      then makeError (blockOffset r) rel ''too many uncompressed bytes in frame''
      else let r1 = (if frameSizeUnknown r then r
                     else r\<lparr>remainingFrameSize := remainingFrameSize r - of_nat (length (buffer r))\<rparr>);
               r2 = (if hasChecksum r1 then r1\<lparr>checksum := xupdate (checksum r1) (buffer r1)\<rparr> else r1)
           in if \<not> lastBlock then Inr (r2\<lparr>zwindow := wsave (zwindow r2) (buffer r2)\<rparr>)
              else if \<not> frameSizeUnknown r2 \<and> remainingFrameSize r2 \<noteq> 0
              then makeError (blockOffset r2) rel ''not enough uncompressed bytes for frame''
              else rbind (check_sum r2) (\<lambda>r3. Inr (r3\<lparr>sawFrameHeader := False\<rparr>)))"

definition readBlock :: "Reader \<Rightarrow> zerr + Reader" where
  "readBlock r =
     rbind (read_full r 0 3) (\<lambda>(b, r1).
       let header = ucast (b ! 0) OR push_bit 8 (ucast (b ! 1)) OR push_bit 16 (ucast (b ! 2)) :: u32;
           lastBlock = (header AND 1 \<noteq> 0);
           blockType = drop_bit 1 header AND 3;
           blockSize = unat (drop_bit 3 header)
       in if 131072 < blockSize \<or> (0 < wsize (zwindow r1) \<and> wsize (zwindow r1) < blockSize)
          then makeError (blockOffset r1) 3 ''block size too large''
          else rbind (block_contents r1 blockType blockSize) (\<lambda>(r2, rel). finish_block r2 lastBlock rel))"

section \<open>The reader\<close>

definition refill :: "Reader \<Rightarrow> zerr + Reader" where
  "refill r = rbind (if sawFrameHeader r then Inr r else readFrameHeader r) readBlock"

text \<open>Decoding a compressed block leaves the state of the frame alone.\<close>

definition frame_state where
  "frame_state r = ((inp r, blockOffset r, zwindow r, checksum r),
     (sawFrameHeader r, hasChecksum r, readOneFrame r, frameSizeUnknown r, remainingFrameSize r))"

text \<open>Partial correctness, with rules that follow the code.\<close>

definition keeps :: "(zerr + 'a) \<Rightarrow> ('a \<Rightarrow> bool) \<Rightarrow> bool" where
  "keeps m P \<longleftrightarrow> (\<forall>x. m = Inr x \<longrightarrow> P x)"

lemma keeps_intros:
  "keeps (Inl e) P" "keeps (makeError bo off msg) P" "keeps (makeEOFError bo off) P"
  "keeps a P \<Longrightarrow> keeps b P \<Longrightarrow> keeps (if c then a else b) P"
  "(\<And>x y. p = (x, y) \<Longrightarrow> keeps (f x y) P) \<Longrightarrow> keeps (case p of (x, y) \<Rightarrow> f x y) P"
  "(\<And>x. keeps (g x) P) \<Longrightarrow> keeps (rbind m g) P"
  by (auto simp: keeps_def rbind_Inr_iff split: prod.split)

lemma keeps_Inr [simp]: "keeps (Inr x) P \<longleftrightarrow> P x"
  by (simp add: keeps_def)

lemma keeps_bind: "keeps m Q \<Longrightarrow> (\<And>x. Q x \<Longrightarrow> keeps (g x) P) \<Longrightarrow> keeps (rbind m g) P"
  by (auto simp: keeps_def rbind_Inr_iff)

lemma copyFromWindow_state: "keeps (copyFromWindow r rbr ofs m) (\<lambda>r'. frame_state r' = frame_state r)"
  unfolding copyFromWindow_def Let_def by (intro keeps_intros) (simp_all add: frame_state_def)

lemma exec_seq_state: "keeps (exec_seq r rbr sq lits) (\<lambda>(r', lits'). frame_state r' = frame_state r)"
proof -
  have c: "keeps (if 0 < m then copyFromWindow (r\<lparr>buffer := b\<rparr>) rbr ofs m else Inr (r\<lparr>buffer := b\<rparr>))
      (\<lambda>r'. frame_state r' = frame_state r)" for b m ofs
    using copyFromWindow_state [of "r\<lparr>buffer := b\<rparr>"] by (simp add: frame_state_def)
  show ?thesis unfolding exec_seq_def Let_def by (intro keeps_intros keeps_bind [OF c]) simp
qed

lemma readLiterals_state: "keeps (readLiterals r data off out) (\<lambda>(r', off', b). frame_state r' = frame_state r)"
proof -
  have t: "keeps (huff_tree r data off hdr n) (\<lambda>(r', m, off'). frame_state r' = frame_state r)" for off hdr n
    unfolding huff_tree_def Let_def by (intro keeps_intros) (simp_all add: frame_state_def)
  show ?thesis unfolding readLiterals_def readHuffLiterals_def Let_def
    by (rule keeps_bind [OF t] keeps_intros | simp)+
qed

lemma setSeqTable_state: "keeps (setSeqTable r data off kind mode) (\<lambda>(r', off'). frame_state r' = frame_state r)"
proof -
  have u: "keeps (use_buffer r kind off n es) (\<lambda>(r', t). frame_state r' = frame_state r)" for r off n es
    unfolding use_buffer_def by (intro keeps_intros) (simp add: frame_state_def)
  have s: "frame_state (set_table r' kind t b) = frame_state r'" "frame_state (r\<lparr>fseScratch := x\<rparr>) = frame_state r" for r' t b x
    by (simp_all add: set_table_def frame_state_def)
  show ?thesis unfolding setSeqTable_def Let_def
    by (rule keeps_bind [OF u] keeps_intros | simp add: s)+
qed

lemma initSeqs_state: "keeps (initSeqs r data off) (\<lambda>(r', n, off'). frame_state r' = frame_state r)"
  unfolding initSeqs_def Let_def by (rule keeps_bind [OF setSeqTable_state] keeps_intros | simp)+

lemma rep_frame_state: "rep_frame r r' \<Longrightarrow> frame_state r' = frame_state r"
  by (subst rep_frame_def [THEN iffD1]) (simp_all add: frame_state_def)

lemma seq_loop_state: "keeps (seq_loop n r lits s) (\<lambda>(r', lits', s'). frame_state r' = frame_state r)"
proof (induction n arbitrary: r lits s)
  case (Suc n)
  have t: "keeps (read_seq r again s) (\<lambda>(r', sq, s'). frame_state r' = frame_state r)" for r again s
    using rep_frame_state [OF read_seq_frame] by (auto simp: keeps_def)
  show ?case unfolding seq_loop.simps
    by (rule keeps_bind [OF t] keeps_bind [OF exec_seq_state] keeps_intros | simp)+ (use Suc.IH in \<open>auto simp: keeps_def\<close>)
qed simp

lemma decode_block_state: "keeps (decode_block r data) (\<lambda>r'. frame_state r' = frame_state r)"
proof -
  have b: "frame_state (r\<lparr>buffer := b\<rparr>) = frame_state r" for r b by (simp add: frame_state_def)
  have e: "keeps (execSeqs r data off lits n) (\<lambda>r'. frame_state r' = frame_state r)" for r off lits n
    unfolding execSeqs_def Let_def by (rule keeps_bind [OF seq_loop_state] keeps_intros | simp add: b)+
  show ?thesis unfolding decode_block_def
    by (rule keeps_bind [OF readLiterals_state] keeps_bind [OF initSeqs_state] keeps_intros | simp add: b)+
       (use e in \<open>auto simp: keeps_def\<close>)
qed

lemma decode_block_inp: "decode_block r data = Inr r' \<Longrightarrow> inp r' = inp r"
  using decode_block_state [of r data] by (simp add: keeps_def frame_state_def)

text \<open>No operation on blocks gives input back.\<close>

lemma read_full_le: "read_full r off n = Inr (b, r') \<Longrightarrow> length (idata (inp r')) + n = length (idata (inp r))"
  using read_full_inp [of r off n b r'] by auto

lemma setBufferSize_inp [simp]: "inp (setBufferSize r n) = inp r" "inp (advance k r) = inp r"
  by (simp_all add: setBufferSize_def advance_def)

lemma compressedBlock_inp: "compressedBlock r n = Inr r' \<Longrightarrow> length (idata (inp r')) \<le> length (idata (inp r))"
  by (auto simp: compressedBlock_def rbind_Inr_iff dest!: decode_block_inp read_full_le)

lemma block_contents_inp: "block_contents r t n = Inr (r', rel) \<Longrightarrow> length (idata (inp r')) \<le> length (idata (inp r))"
  by (auto simp: block_contents_def rbind_Inr_iff makeError_def split: if_splits dest!: compressedBlock_inp read_full_le)

lemma check_sum_inp: "check_sum r = Inr r' \<Longrightarrow> length (idata (inp r')) \<le> length (idata (inp r))"
  by (auto simp: check_sum_def rbind_Inr_iff Let_def split: if_splits dest!: read_full_le)

lemma finish_block_inp: "finish_block r l rel = Inr r' \<Longrightarrow> length (idata (inp r')) \<le> length (idata (inp r))"
  by (auto simp: finish_block_def rbind_Inr_iff Let_def makeError_def split: if_splits dest!: check_sum_inp)

lemma readBlock_inp:
  assumes "readBlock r = Inr r'"
  shows "length (idata (inp r')) < length (idata (inp r))"
proof -
  from assms obtain b r1 t n r2 rel l where "read_full r 0 3 = Inr (b, r1)" "block_contents r1 t n = Inr (r2, rel)"
    "finish_block r2 l rel = Inr r'"
    by (auto simp: readBlock_def rbind_Inr_iff Let_def makeError_def split: if_splits)
  then show ?thesis by (auto dest!: read_full_le block_contents_inp finish_block_inp)
qed

lemma start_frame_inp [simp]: "inp (start_frame r u f w n) = inp r"
  by (simp add: start_frame_def)

lemma frame_fields_inp: "frame_fields r d h = Inr r' \<Longrightarrow> inp r' = inp r"
  unfolding frame_fields_def Let_def by (auto simp: rbind_Inr_iff makeError_def split: if_split_asm)

lemma frame_header_inp:
  assumes "frame_header r = Inr r'"
  shows "length (idata (inp r')) \<le> length (idata (inp r))"
proof -
  from assms obtain d r1 c n h r2 where "read_full r 4 1 = Inr (d, r1)" "read_full (set_checksum r1 c) 5 n = Inr (h, r2)"
    "frame_fields r2 (d ! 0) h = Inr r'"
    unfolding frame_header_def Let_def rbind_Inr_iff by (auto simp: rbind_Inr_iff makeError_def split: if_split_asm)
  then show ?thesis by (auto simp: set_checksum_def dest!: read_full_le frame_fields_inp)
qed

lemma readFrameHeader_inp: "readFrameHeader r = Inr r' \<Longrightarrow> length (idata (inp r')) \<le> length (idata (inp r))"
proof (induction r rule: readFrameHeader.induct)
  case (1 r)
  from "1.prems" obtain b i where bi: "readFull (inp r) 4 = Inr (b, i)"
    by (subst (asm) readFrameHeader.simps) (auto split: sum.splits)
  have le: "length (idata i) \<le> length (idata (inp r))" using readFull_inp [OF bi] by simp
  consider (hdr) "frame_header (r\<lparr>inp := i\<rparr>) = Inr r'"
    | (skip) r2 where "get_le32 b \<noteq> 0xfd2fb528" "0x184d2a50 \<le> get_le32 b \<and> get_le32 b \<le> 0x184d2a5f"
        "skipFrame (advance 4 (r\<lparr>inp := i\<rparr>)) = Inr r2" "readFrameHeader (r2\<lparr>readOneFrame := True\<rparr>) = Inr r'"
    using "1.prems" bi
    by (subst (asm) readFrameHeader.simps) (auto simp: Let_def makeError_def split: if_splits sum.splits)
  then show ?case
  proof cases
    case hdr
    then show ?thesis using frame_header_inp le by fastforce
  next
    case (skip r2)
    then have "length (idata (inp r')) \<le> length (idata (inp r2))"
      using "1.IH" [OF bi refl refl refl] by simp
    then show ?thesis using skipFrame_inp [OF skip(3)] le by simp
  qed
qed

lemma refill_inp: "refill r = Inr r' \<Longrightarrow> length (idata (inp r')) < length (idata (inp r))"
  by (auto simp: refill_def rbind_Inr_iff split: if_splits dest!: readFrameHeader_inp readBlock_inp)

text \<open>\<open>Reset\<close>, \<open>NewReader\<close> and the loop that skips empty blocks.\<close>

definition Reset :: "Reader \<Rightarrow> zinput \<Rightarrow> Reader" where
  "Reset r i = r\<lparr>inp := i, sawFrameHeader := False, hasChecksum := False, readOneFrame := False,
     frameSizeUnknown := False, remainingFrameSize := 0, blockOffset := 0, buffer := [], boffset := 0\<rparr>"

definition NewReader :: "zinput \<Rightarrow> Reader" where
  "NewReader i = Reset (zeroReader i) i"

function refillIfNeeded :: "Reader \<Rightarrow> zerr + Reader" where
  "refillIfNeeded r =
     (if length (buffer r) \<le> boffset r then
        (case refill r of Inl e \<Rightarrow> Inl e | Inr r1 \<Rightarrow> refillIfNeeded (r1\<lparr>boffset := 0\<rparr>))
      else Inr r)"
  by pat_completeness auto
termination by (relation "measure (\<lambda>r. length (idata (inp r)))") (auto dest: refill_inp)

declare refillIfNeeded.simps [simp del]

definition ReadTo :: "Reader \<Rightarrow> nat \<Rightarrow> zerr + bytes \<times> Reader" where
  "ReadTo r n =
     rbind (refillIfNeeded r) (\<lambda>r1.
       rbind (zslice (buffer r1) (boffset r1) (length (buffer r1))) (\<lambda>rest.
         let b = take n rest in Inr (b, r1\<lparr>boffset := boffset r1 + length b\<rparr>)))"

definition ReadByte :: "Reader \<Rightarrow> zerr + u8 \<times> Reader" where
  "ReadByte r =
     rbind (refillIfNeeded r) (\<lambda>r1.
       rbind (znth (buffer r1) (boffset r1)) (\<lambda>v. Inr (v, r1\<lparr>boffset := boffset r1 + 1\<rparr>)))"

lemma refillIfNeeded_inp:
  "refillIfNeeded r = Inr r' \<Longrightarrow> boffset r' < length (buffer r') \<and>
     (r' = r \<or> length (idata (inp r')) < length (idata (inp r)))"
proof (induction r rule: refillIfNeeded.induct)
  case (1 r)
  show ?case
  proof (cases "length (buffer r) \<le> boffset r")
    case True
    with "1.prems" obtain r1 where r1: "refill r = Inr r1" "refillIfNeeded (r1\<lparr>boffset := 0\<rparr>) = Inr r'"
      by (subst (asm) refillIfNeeded.simps) (auto split: sum.splits)
    from "1.IH" [OF True r1] refill_inp [OF r1(1)] show ?thesis by auto
  next
    case False
    with "1.prems" show ?thesis by (subst (asm) refillIfNeeded.simps) auto
  qed
qed

text \<open>\<open>io.ReadAll\<close>: reads into the free part of a growing slice. How much is free, always at least one byte, is the
  run-time system's choice and a parameter: \<open>room n\<close> is one less than the free part when \<open>n\<close> bytes are read.\<close>

function readAll :: "(nat \<Rightarrow> nat) \<Rightarrow> Reader \<Rightarrow> bytes \<Rightarrow> bytes \<times> zerr option" where
  "readAll room r b =
     (case ReadTo r (Suc (room (length b))) of
        Inl e \<Rightarrow> (b, if e = ZEOF then None else Some e)
      | Inr (c, r1) \<Rightarrow> readAll room r1 (b @ c))"
  by pat_completeness auto
termination
proof (relation "measures [\<lambda>(room, r, b). length (idata (inp r)), \<lambda>(room, r, b). length (buffer r) - boffset r]", goal_cases)
  case (2 room r b p c r1)
  then obtain r0 where r0: "refillIfNeeded r = Inr r0" "r1 = r0\<lparr>boffset := boffset r0 + length c\<rparr>" "c \<noteq> []"
    using refillIfNeeded_inp by (fastforce simp: ReadTo_def rbind_Inr_iff Let_def zslice_def slice_def split: if_splits)
  from refillIfNeeded_inp [OF r0(1)] r0(2,3) show ?case by (auto simp: diff_less_mono2)
qed simp

declare readAll.simps [simp del]

definition Decode :: "(nat \<Rightarrow> nat) \<Rightarrow> bytes \<Rightarrow> bytes \<times> zerr option" where
  "Decode room data = readAll room (NewReader \<lparr>idata = data, ierr = None, iseek = Some None\<rparr>) []"

end
