(* ===== verification/ZstdFrame.thy ===== *)
theory ZstdFrame
  imports Zstd
begin

text \<open>
  Theorems about whole streams (\<open>src/pkg/lib/zstd/zstd.go\<close>, \<open>decode.go\<close>): every input is decoded or refused with an
  error, the pieces in which the output is read do not matter, an accepted frame has the size and checksum that it
  announces, and frames of stored blocks are decoded to their contents.
\<close>

section \<open>Every input is decoded or refused\<close>

lemma decoder_inv_upd [simp]:
  "decoder_inv (r\<lparr>inp := i\<rparr>) = decoder_inv r" "decoder_inv (r\<lparr>blockOffset := k\<rparr>) = decoder_inv r"
  "decoder_inv (r\<lparr>boffset := n\<rparr>) = decoder_inv r" "decoder_inv (r\<lparr>hasChecksum := c\<rparr>) = decoder_inv r"
  "decoder_inv (r\<lparr>checksum := x\<rparr>) = decoder_inv r" "decoder_inv (r\<lparr>remainingFrameSize := s\<rparr>) = decoder_inv r"
  "decoder_inv (r\<lparr>sawFrameHeader := c\<rparr>) = decoder_inv r" "decoder_inv (r\<lparr>readOneFrame := c\<rparr>) = decoder_inv r"
  "decoder_inv (r\<lparr>frameSizeUnknown := c\<rparr>) = decoder_inv r"
  by (simp_all add: decoder_inv_def huff_ready_def seqs_ready_def kind_ready_def)

lemma decoder_inv_moves [simp]:
  "decoder_inv (advance n r) = decoder_inv r" "decoder_inv (skip_input k r) = decoder_inv r"
  "decoder_inv (setBufferSize r k) = decoder_inv r" "decoder_inv (set_checksum r c) = decoder_inv r"
  by (simp_all add: advance_def skip_input_def setBufferSize_def set_checksum_def)

lemma ensures_wrap [simp]: "ensures (Inl (wrapError bo off e)) Q" "ensures (Inl (wrapNonEOFError bo off e)) Q"
  by (simp_all add: wrapError_def wrapNonEOFError_def ensures_def)

lemma read_full_ensures: "ensures (read_full r off n) (\<lambda>(b, r'). length b = n \<and> (\<exists>i. r' = r\<lparr>inp := i\<rparr>))"
  using read_full_inp [of r off n] by (auto simp: read_full_def ensures_def wrapError_def wrapNonEOFError_def split: sum.splits)

lemma skipFrame_ensures: "decoder_inv r \<Longrightarrow> ensures (skipFrame r) decoder_inv"
  unfolding skipFrame_def
  by (rule ensures_rbind [OF read_full_ensures]) (auto simp: Let_def split: option.split)

lemma descriptor_sizes: "fcsFieldSize d \<in> {0, 1, 2, 4, 8}" "\<not> singleSegment d \<Longrightarrow> windowDescriptorSize d = 1"
proof -
  have "drop_bit 6 d = 0 \<or> drop_bit 6 d = 1 \<or> drop_bit 6 d = 2 \<or> drop_bit 6 d = 3"
  proof -
    have "unat d < 2 ^ LENGTH(8)" by (rule unsigned_less)
    then have "unat (drop_bit 6 d) < 4" by (simp add: drop_bit_eq_div unat_div less_mult_imp_div_less)
    then have "unat (drop_bit 6 d) \<in> {0, 1, 2, 3}" by (auto simp: less_Suc_eq numeral_eq_Suc)
    then show ?thesis by (auto simp: word_unat_eq_iff)
  qed
  then show "fcsFieldSize d \<in> {0, 1, 2, 4, 8}" by (auto simp: fcsFieldSize_def Let_def)
qed (simp add: windowDescriptorSize_def)

lemma content_size_ensures: "length fb = n \<Longrightarrow> n \<in> {0, 1, 2, 4, 8} \<Longrightarrow> ensures (content_size n fb) (\<lambda>x. True)"
  by (auto simp: content_size_def)

lemma start_frame_inv:
  assumes "decoder_inv r" "w \<le> maxWindowSize"
  shows "decoder_inv (start_frame r u f w n)"
proof -
  have "unat w < 2 ^ 31" using assms(2) by (simp add: word_le_nat_alt maxWindowSize_def)
  then have "window_inv (wreset (zwindow r) (unat w))" by (simp add: wreset_inv)
  moreover have "[[], [], []] ! kind_index k = ([] :: fseBaselineEntry list)" for k by (cases k) simp_all
  ultimately show ?thesis using assms(1) by (auto simp: start_frame_def advance_def decoder_inv_def huff_ready_def seqs_ready_def)
qed

lemma frame_fields_ensures:
  assumes "decoder_inv r" "length h = frameHeaderSize d"
  shows "ensures (frame_fields r d h) decoder_inv"
proof -
  have c: "ensures (content_size (fcsFieldSize d) (drop (windowDescriptorSize d + dictionaryIdSize d) h)) (\<lambda>x. True)"
    using assms(2) descriptor_sizes(1) by (intro content_size_ensures) (simp_all add: frameHeaderSize_def)
  have w: "(if maxWindowSize < w then maxWindowSize else w) \<le> maxWindowSize" for w by auto
  show ?thesis using assms(2) unfolding frame_fields_def Let_def
    by (auto simp: frameHeaderSize_def intro!: ensures_rbind [OF c] start_frame_inv assms(1) w)
qed

lemma frame_header_ensures: "decoder_inv r \<Longrightarrow> ensures (frame_header r) decoder_inv"
  unfolding frame_header_def Let_def
  by (rule ensures_rbind [OF read_full_ensures], clarsimp, rule ensures_rbind [OF read_full_ensures])
    (auto intro!: frame_fields_ensures)

lemma readFrameHeader_ensures: "decoder_inv r \<Longrightarrow> ensures (readFrameHeader r) decoder_inv"
proof (induction r rule: readFrameHeader.induct)
  case (1 r)
  show ?case
  proof (cases "readFull (inp r) 4")
    case (Inl e)
    then show ?thesis by (subst readFrameHeader.simps) simp
  next
    case (Inr p)
    obtain b i where p: "p = (b, i)" by (cases p)
    have h: "ensures (frame_header (r\<lparr>inp := i\<rparr>)) decoder_inv" using "1.prems" by (intro frame_header_ensures) simp
    have s: "ensures (skipFrame (advance 4 (r\<lparr>inp := i\<rparr>))) decoder_inv" using "1.prems" by (intro skipFrame_ensures) simp
    show ?thesis
    proof (cases "skipFrame (advance 4 (r\<lparr>inp := i\<rparr>))")
      case (Inl e)
      with s have "ensures (Inl e :: zerr + Reader) decoder_inv" by simp
      with Inl Inr p h show ?thesis by (subst readFrameHeader.simps) (simp add: Let_def)
    next
      case r2: (Inr r2)
      with s have "decoder_inv (r2\<lparr>readOneFrame := True\<rparr>)" by simp
      with "1.IH" [OF Inr p [symmetric] refl refl] r2 Inr p h show ?thesis by (subst readFrameHeader.simps) (simp add: Let_def)
    qed
  qed
qed

lemma compressedBlock_ensures: "decoder_inv r \<Longrightarrow> n \<le> 131072 \<Longrightarrow> ensures (compressedBlock r n) decoder_inv"
  unfolding compressedBlock_def
  by (rule ensures_rbind [OF read_full_ensures]) (auto intro!: ensures_mono [OF decode_block_ensures])

lemma block_contents_ensures:
  assumes "decoder_inv r" "n \<le> 131072"
  shows "ensures (block_contents r t n) (\<lambda>(r', rel). decoder_inv r')"
proof -
  have c: "ensures (compressedBlock (advance 3 r) n) decoder_inv" using assms by (intro compressedBlock_ensures) simp_all
  show ?thesis unfolding block_contents_def
    using assms(1) by (auto intro!: ensures_rbind [OF read_full_ensures] ensures_rbind [OF c])
qed

lemma check_sum_ensures: "decoder_inv r \<Longrightarrow> ensures (check_sum r) decoder_inv"
  unfolding check_sum_def Let_def by (auto intro!: ensures_rbind [OF read_full_ensures])

lemma decoder_inv_save: "decoder_inv r \<Longrightarrow> window_inv w \<Longrightarrow> decoder_inv (r\<lparr>zwindow := wsave w b\<rparr>)"
  using wsave_spec [of w b] by (simp add: decoder_inv_def huff_ready_def seqs_ready_def kind_ready_def)

lemma finish_block_ensures:
  assumes "decoder_inv r"
  shows "ensures (finish_block r l rel) decoder_inv"
proof -
  have "window_inv (zwindow r)" using assms by (simp add: decoder_inv_def)
  with assms show ?thesis unfolding finish_block_def Let_def
    by (simp only: ensures_simps split: if_split) (auto intro!: ensures_rbind [OF check_sum_ensures] decoder_inv_save)
qed

lemma readBlock_ensures:
  assumes "decoder_inv r"
  shows "ensures (readBlock r) decoder_inv"
  unfolding readBlock_def Let_def
proof (rule ensures_rbind [OF read_full_ensures], goal_cases)
  case (1 p)
  then obtain b i where p: "p = (b, r\<lparr>inp := i\<rparr>)" by (cases p) auto
  show ?case unfolding p prod.case
    using assms by (auto intro!: ensures_rbind [OF block_contents_ensures] finish_block_ensures)
qed

lemma refill_ensures: "decoder_inv r \<Longrightarrow> ensures (refill r) decoder_inv"
  unfolding refill_def
  by (rule ensures_rbind [where P = decoder_inv]) (auto intro: readFrameHeader_ensures readBlock_ensures)

lemma refillIfNeeded_ensures: "decoder_inv r \<Longrightarrow> ensures (refillIfNeeded r) decoder_inv"
proof (induction r rule: refillIfNeeded.induct)
  case (1 r)
  show ?case
  proof (cases "length (buffer r) \<le> boffset r")
    case True
    note e = refill_ensures [OF "1.prems"]
    show ?thesis
    proof (cases "refill r")
      case (Inl x)
      with e True show ?thesis by (subst refillIfNeeded.simps) simp
    next
      case (Inr r1)
      with e have "decoder_inv (r1\<lparr>boffset := 0\<rparr>)" by simp
      with "1.IH" [OF True Inr] True Inr show ?thesis by (subst refillIfNeeded.simps) simp
    qed
  next
    case False
    with "1.prems" show ?thesis by (subst refillIfNeeded.simps) simp
  qed
qed


lemma ReadTo_ensures: "decoder_inv r \<Longrightarrow> ensures (ReadTo r n) (\<lambda>(b, r'). decoder_inv r')"
proof -
  assume r: "decoder_inv r"
  have "ensures (refillIfNeeded r) (\<lambda>r1. decoder_inv r1 \<and> boffset r1 < length (buffer r1))"
    using refillIfNeeded_ensures [OF r] refillIfNeeded_inp by (auto simp: ensures_def)
  then show ?thesis unfolding ReadTo_def Let_def by (rule ensures_rbind) simp
qed

lemma ReadByte_ensures: "decoder_inv r \<Longrightarrow> ensures (ReadByte r) (\<lambda>(b, r'). decoder_inv r')"
proof -
  assume r: "decoder_inv r"
  have "ensures (refillIfNeeded r) (\<lambda>r1. decoder_inv r1 \<and> boffset r1 < length (buffer r1))"
    using refillIfNeeded_ensures [OF r] refillIfNeeded_inp by (auto simp: ensures_def)
  then show ?thesis unfolding ReadByte_def by (rule ensures_rbind) simp
qed

lemma NewReader_inv: "decoder_inv (NewReader i)"
proof -
  have "[[], [], []] ! kind_index k = ([] :: fseBaselineEntry list)" for k by (cases k) simp_all
  then show ?thesis
    by (simp add: NewReader_def Reset_def zeroReader_def decoder_inv_def huff_ready_def seqs_ready_def slice_ok_def window_inv_def)
qed

text \<open>The results of the reader: an error that the decoder reports, or the end of the input.\<close>

fun reported :: "zerr option \<Rightarrow> bool" where
  "reported (Some (ZErr off msg)) = True"
| "reported (Some ZUnexpectedEOF) = True"
| "reported None = True"
| "reported _ = False"

lemma readAll_reported: "decoder_inv r \<Longrightarrow> reported (snd (readAll room r b))"
proof (induction room r b rule: readAll.induct)
  case (1 room r b)
  note e = ReadTo_ensures [OF "1.prems", of "Suc (room (length b))"]
  show ?case
  proof (cases "ReadTo r (Suc (room (length b)))")
    case (Inl x)
    with e show ?thesis by (subst readAll.simps) (cases x, auto simp: ensures_def)
  next
    case (Inr p)
    obtain c r1 where p: "p = (c, r1)" by (cases p)
    with Inr e have "decoder_inv r1" by simp
    with "1.IH" [OF Inr p [symmetric]] Inr p show ?thesis by (subst readAll.simps) simp
  qed
qed

section \<open>The output is the concatenation of the blocks\<close>

function decoded :: "Reader \<Rightarrow> bytes \<times> zerr option" where
  "decoded r =
     (case refill r of
        Inl e \<Rightarrow> ([], if e = ZEOF then None else Some e)
      | Inr r1 \<Rightarrow> (case decoded (r1\<lparr>boffset := length (buffer r1)\<rparr>) of (b, e) \<Rightarrow> (buffer r1 @ b, e)))"
  by pat_completeness auto
termination by (relation "measure (\<lambda>r. length (idata (inp r)))") (auto dest: refill_inp)

declare decoded.simps [simp del]

definition unread :: "Reader \<Rightarrow> bytes \<times> zerr option" where
  "unread r = (case decoded (r\<lparr>boffset := length (buffer r)\<rparr>) of (b, e) \<Rightarrow> (drop (boffset r) (buffer r) @ b, e))"

lemma refillIfNeeded_unread:
  "boffset r \<le> length (buffer r) \<Longrightarrow>
     (case refillIfNeeded r of
        Inl e \<Rightarrow> unread r = ([], if e = ZEOF then None else Some e)
      | Inr r1 \<Rightarrow> unread r1 = unread r)"
proof (induction r rule: refillIfNeeded.induct)
  case (1 r)
  show ?case
  proof (cases "length (buffer r) \<le> boffset r")
    case True
    with "1.prems" have b: "boffset r = length (buffer r)" "r\<lparr>boffset := length (buffer r)\<rparr> = r" by simp_all
    then have u: "unread r = decoded r" unfolding unread_def b(2) by (simp add: b(1) split: prod.split)
    show ?thesis
    proof (cases "refill r")
      case (Inl e)
      with True u show ?thesis by (subst refillIfNeeded.simps) (simp add: decoded.simps [of r])
    next
      case (Inr r1)
      have "unread (r1\<lparr>boffset := 0\<rparr>) = unread r" using u Inr by (simp add: unread_def decoded.simps [of r])
      with "1.IH" [OF True Inr] True Inr show ?thesis by (subst refillIfNeeded.simps) (auto split: sum.splits)
    qed
  next
    case False
    then show ?thesis by (subst refillIfNeeded.simps) simp
  qed
qed

lemma unread_step:
  assumes "boffset r + length c \<le> length (buffer r)" "c = take n (drop (boffset r) (buffer r))"
  shows "unread r = (case unread (r\<lparr>boffset := boffset r + length c\<rparr>) of (b, e) \<Rightarrow> (c @ b, e))"
proof -
  have "drop (boffset r) (buffer r) = c @ drop (boffset r + length c) (buffer r)"
    using assms by (metis append_take_drop_id drop_drop add.commute append_eq_conv_conj length_take min.commute)
  then show ?thesis by (simp add: unread_def split: prod.split)
qed

lemma readAll_unread:
  "boffset r \<le> length (buffer r) \<Longrightarrow> readAll room r b = (case unread r of (c, e) \<Rightarrow> (b @ c, e))"
proof (induction room r b rule: readAll.induct)
  case (1 room r b)
  note u = refillIfNeeded_unread [OF "1.prems"]
  show ?case
  proof (cases "refillIfNeeded r")
    case (Inl e)
    with u show ?thesis by (subst readAll.simps) (simp add: ReadTo_def)
  next
    case (Inr r1)
    let ?n = "Suc (room (length b))"
    define c where "c = take ?n (drop (boffset r1) (buffer r1))"
    define r2 where "r2 = r1\<lparr>boffset := boffset r1 + length c\<rparr>"
    have o: "boffset r1 < length (buffer r1)" using refillIfNeeded_inp [OF Inr] by simp
    then have rd: "ReadTo r ?n = Inr (c, r2)" using Inr by (simp add: ReadTo_def slice_def c_def r2_def)
    have o2: "boffset r1 + length c \<le> length (buffer r1)" using o by (simp add: c_def)
    then have "readAll room r b = (case unread r2 of (d, e) \<Rightarrow> ((b @ c) @ d, e))"
      using "1.IH" [OF rd refl] rd by (subst readAll.simps) (simp add: r2_def)
    also have "\<dots> = (case unread r1 of (d, e) \<Rightarrow> (b @ d, e))"
      using unread_step [OF o2 c_def] by (simp add: r2_def split: prod.split)
    finally show ?thesis using u Inr by simp
  qed
qed

text \<open>
  \<open>Decode\<close> returns the concatenation of the decoded blocks of the input, up to its end or the first error, and the
  error; how \<open>io.ReadAll\<close> grows its slice, and so in which pieces the output is read, makes no difference.
\<close>

lemma decode_concat: "Decode room data = decoded (NewReader \<lparr>idata = data, ierr = None, iseek = Some None\<rparr>)"
  by (simp add: Decode_def readAll_unread NewReader_def Reset_def unread_def split: prod.split)

section \<open>Frames of stored blocks\<close>

datatype zblock = RawBlock bytes | RunBlock nat u8
datatype zframe = Skippable nat bytes | Stored "zblock list"

fun block_out :: "zblock \<Rightarrow> bytes" where
  "block_out (RawBlock b) = b"
| "block_out (RunBlock n v) = replicate n v"

definition block_head :: "bool \<Rightarrow> u32 \<Rightarrow> nat \<Rightarrow> bytes" where
  "block_head l t n = take 3 (le32 ((if l then 1 else 0) OR push_bit 1 t OR push_bit 3 (of_nat n)))"

fun put_block :: "bool \<Rightarrow> zblock \<Rightarrow> bytes" where
  "put_block l (RawBlock b) = block_head l 0 (length b) @ b"
| "put_block l (RunBlock n v) = block_head l 1 n @ [v]"

fun put_blocks :: "zblock list \<Rightarrow> bytes" where
  "put_blocks [] = []"
| "put_blocks (b # bs) = put_block (bs = []) b @ put_blocks bs"

definition blocks_out :: "zblock list \<Rightarrow> bytes" where
  "blocks_out bs = concat (map block_out bs)"

fun put_frame :: "zframe \<Rightarrow> bytes" where
  "put_frame (Skippable k b) = le32 (0x184d2a50 + of_nat k) @ le32 (of_nat (length b)) @ b"
| "put_frame (Stored bs) = le32 0xfd2fb528 @ [0x04, 0x38] @ put_blocks bs @ le32 (ucast (xxh64 (blocks_out bs)))"

fun frame_out :: "zframe \<Rightarrow> bytes" where
  "frame_out (Skippable k b) = []"
| "frame_out (Stored bs) = blocks_out bs"

fun frame_ok :: "zframe \<Rightarrow> bool" where
  "frame_ok (Skippable k b) \<longleftrightarrow> k < 16 \<and> length b < 2 ^ 32"
| "frame_ok (Stored bs) \<longleftrightarrow> bs \<noteq> [] \<and> list_all (\<lambda>b. length (block_out b) \<le> 131072) bs \<and> length (blocks_out bs) < 2 ^ 64"

text \<open>Inside such a frame: what was put out, and the input left.\<close>

definition in_frame :: "bytes \<Rightarrow> Reader \<Rightarrow> bytes \<Rightarrow> bool" where
  "in_frame h r rest \<longleftrightarrow> sawFrameHeader r \<and> readOneFrame r \<and> frameSizeUnknown r \<and> hasChecksum r
     \<and> window_inv (zwindow r) \<and> wsize (zwindow r) = 131072 \<and> hashed h (checksum r)
     \<and> inp r = \<lparr>idata = rest, ierr = None, iseek = Some None\<rparr>"

definition between :: "Reader \<Rightarrow> bytes \<Rightarrow> bool" where
  "between r rest \<longleftrightarrow> \<not> sawFrameHeader r \<and> inp r = \<lparr>idata = rest, ierr = None, iseek = Some None\<rparr>"

lemma in_frame_boffset [simp]: "in_frame h (r\<lparr>boffset := n\<rparr>) rest = in_frame h r rest" "between (r\<lparr>boffset := n\<rparr>) rest = between r rest"
  by (simp_all add: in_frame_def between_def)

lemma block_head_length [simp]: "length (block_head l t n) = 3"
  by (simp add: block_head_def le32_def)

lemma block_head_get:
  assumes "n \<le> 131072" "t = 0 \<or> t = 1" and h: "h = ucast (block_head l t n ! 0) OR push_bit 8 (ucast (block_head l t n ! 1)) OR push_bit 16 (ucast (block_head l t n ! 2))"
  shows "(h AND 1 \<noteq> 0) = l" "drop_bit 1 h AND 3 = t" "unat (drop_bit 3 h) = n"
proof -
  define w :: u32 where "w = ((if l then 1 else 0) OR push_bit 1 t OR push_bit 3 (of_nat n))"
  have nb: "\<not> bit (of_nat n :: u32) k" if "18 \<le> k" for k
  proof -
    have "n < 2 ^ k" using assms(1) power_increasing [OF that, of "2::nat"] by simp
    then have "\<not> bit n k" by (simp add: bit_iff_odd)
    then show ?thesis by (simp add: bit_of_nat_iff)
  qed
  have wb: "bit w k \<longleftrightarrow> (k = 0 \<and> l) \<or> (k = 1 \<and> t = 1) \<or> (3 \<le> k \<and> k < 32 \<and> bit (of_nat n :: u32) (k - 3))" for k
    using assms(2) by (auto simp: w_def bit_simps)
  have e: "block_head l t n ! 0 = ucast w" "block_head l t n ! 1 = ucast (drop_bit 8 w)" "block_head l t n ! 2 = ucast (drop_bit 16 w)"
    by (simp_all add: block_head_def le32_def w_def)
  have hw: "h = w"
  proof (rule bit_word_eqI)
    fix k assume "k < LENGTH(32)"
    moreover have "bit w k \<Longrightarrow> k < 24" using nb [of "k - 3"] by (cases "18 \<le> k - 3") (auto simp: wb)
    ultimately show "bit h k = bit w k" unfolding h e
      by (cases "k < 8"; cases "k < 16"; cases "k < 24") (auto simp: bit_simps)
  qed
  show "(h AND 1 \<noteq> 0) = l" using wb [of 0] by (simp add: hw and_one_eq bit_0 odd_iff_mod_2_eq_one)
  have "bit (drop_bit 1 h AND 3) k \<longleftrightarrow> bit t k" for k
    using assms(2) by (cases k) (auto simp: hw bit_simps wb bit_numeral_rec numeral_eq_Suc)
  then show "drop_bit 1 h AND 3 = t" by (simp add: bit_eq_iff)
  have "drop_bit 3 h = of_nat n"
  proof (rule bit_word_eqI)
    fix k assume "k < LENGTH(32)"
    then show "bit (drop_bit 3 h) k = bit (of_nat n :: u32) k" using nb [of k] by (cases "18 \<le> k") (auto simp: hw bit_simps wb)
  qed
  then show "unat (drop_bit 3 h) = n" using assms(1) by (simp add: unat_of_nat)
qed

lemma readFull_data:
  "readFull \<lparr>idata = b @ rest, ierr = e, iseek = s\<rparr> n = Inr (b, \<lparr>idata = rest, ierr = e, iseek = s\<rparr>)" if "length b = n"
  using that by (simp add: readFull_def)

lemma read_full_data:
  assumes "inp r = \<lparr>idata = b @ rest, ierr = e, iseek = s\<rparr>" "length b = n"
  shows "read_full r off n = Inr (b, r\<lparr>inp := \<lparr>idata = rest, ierr = e, iseek = s\<rparr>\<rparr>)"
  using assms by (simp add: read_full_def readFull_data)

lemma block_contents_stored:
  assumes "inp r = \<lparr>idata = drop 3 (put_block l b) @ rest, ierr = None, iseek = Some None\<rparr>"
  shows "\<exists>bo rel. block_contents r (case b of RawBlock x \<Rightarrow> 0 | RunBlock n v \<Rightarrow> 1)
       (case b of RawBlock x \<Rightarrow> length x | RunBlock n v \<Rightarrow> n)
     = Inr (r\<lparr>inp := \<lparr>idata = rest, ierr = None, iseek = Some None\<rparr>, buffer := block_out b, blockOffset := bo\<rparr>, rel)"
proof (cases b)
  case (RawBlock x)
  then have "inp (setBufferSize r (length x)) = \<lparr>idata = x @ rest, ierr = None, iseek = Some None\<rparr>" using assms by simp
  from read_full_data [OF this refl] RawBlock show ?thesis
    by (auto simp: block_contents_def advance_def setBufferSize_def)
next
  case (RunBlock n v)
  then have "inp (setBufferSize r n) = \<lparr>idata = [v] @ rest, ierr = None, iseek = Some None\<rparr>" using assms by simp
  moreover have "length (buffer (setBufferSize r n)) = n" by (simp add: setBufferSize_def)
  ultimately show ?thesis using RunBlock
    by (auto simp: block_contents_def read_full_data [of _ "[v]"] advance_def) (auto simp: setBufferSize_def)
qed

text \<open>One block that is not the last, and the last one with the checksum.\<close>

lemma readBlock_stored:
  assumes r: "in_frame h r (put_block l b @ rest)" and b: "length (block_out b) \<le> 131072"
  shows "\<exists>r1 rel bo. readBlock r = finish_block r1 l rel \<and> buffer r1 = block_out b \<and>
    r1 = r\<lparr>inp := \<lparr>idata = rest, ierr = None, iseek = Some None\<rparr>, buffer := block_out b, blockOffset := bo\<rparr>"
proof -
  define t :: u32 where "t = (case b of RawBlock x \<Rightarrow> 0 | RunBlock n v \<Rightarrow> 1)"
  define n where "n = (case b of RawBlock x \<Rightarrow> length x | RunBlock n v \<Rightarrow> n)"
  have n: "n \<le> 131072" "t = 0 \<or> t = 1" using b by (cases b; simp add: n_def t_def)+
  have p: "put_block l b = block_head l t n @ drop 3 (put_block l b)" by (cases b) (simp_all add: t_def n_def)
  define r0 where "r0 = r\<lparr>inp := \<lparr>idata = drop 3 (put_block l b) @ rest, ierr = None, iseek = Some None\<rparr>\<rparr>"
  have rd: "read_full r 0 3 = Inr (block_head l t n, r0)"
    unfolding r0_def using r p by (intro read_full_data) (simp_all add: in_frame_def)
  have "inp r0 = \<lparr>idata = drop 3 (put_block l b) @ rest, ierr = None, iseek = Some None\<rparr>" by (simp add: r0_def)
  from block_contents_stored [OF this] obtain bo rel where c: "block_contents r0 t n
     = Inr (r0\<lparr>inp := \<lparr>idata = rest, ierr = None, iseek = Some None\<rparr>, buffer := block_out b, blockOffset := bo\<rparr>, rel)"
    unfolding t_def n_def by blast
  have w: "wsize (zwindow r0) = 131072" using r by (simp add: r0_def in_frame_def)
  have "readBlock r = finish_block (r0\<lparr>inp := \<lparr>idata = rest, ierr = None, iseek = Some None\<rparr>, buffer := block_out b, blockOffset := bo\<rparr>) l rel"
    unfolding readBlock_def rd rbind.simps prod.case Let_def block_head_get [OF n refl] using n(1) w c by simp
  then show ?thesis by (auto simp: r0_def)
qed

lemma readBlock_more:
  assumes r: "in_frame h r (put_block False b @ rest)" and b: "length (block_out b) \<le> 131072"
  shows "\<exists>r'. readBlock r = Inr r' \<and> in_frame (h @ block_out b) r' rest \<and> buffer r' = block_out b"
proof -
  from readBlock_stored [OF r b] obtain r1 rel bo where r1: "readBlock r = finish_block r1 False rel"
    "r1 = r\<lparr>inp := \<lparr>idata = rest, ierr = None, iseek = Some None\<rparr>, buffer := block_out b, blockOffset := bo\<rparr>" by blast
  have "window_inv (zwindow r)" "wsize (zwindow r) = 131072" using r by (simp_all add: in_frame_def)
  then have "window_inv (wsave (zwindow r) (block_out b)) \<and> wsize (wsave (zwindow r) (block_out b)) = 131072"
    using wsave_spec by metis
  moreover have "hashed (h @ block_out b) (xupdate (checksum r) (block_out b))" using r by (simp add: in_frame_def hashed_update)
  ultimately show ?thesis using r unfolding r1 by (simp add: finish_block_def in_frame_def)
qed

lemma readBlock_last:
  assumes r: "in_frame h r (put_block True b @ le32 (ucast (xxh64 (h @ block_out b))) @ rest)"
    and b: "length (block_out b) \<le> 131072" and l: "length (h @ block_out b) < 2 ^ 64"
  shows "\<exists>r'. readBlock r = Inr r' \<and> between r' rest \<and> readOneFrame r' \<and> buffer r' = block_out b"
proof -
  let ?c = "le32 (ucast (xxh64 (h @ block_out b)))"
  from readBlock_stored [OF r b] obtain r1 rel bo where r1: "readBlock r = finish_block r1 True rel"
    "r1 = r\<lparr>inp := \<lparr>idata = ?c @ rest, ierr = None, iseek = Some None\<rparr>, buffer := block_out b, blockOffset := bo\<rparr>" by blast
  have "hashed (h @ block_out b) (xupdate (checksum r) (block_out b))" using r by (simp add: in_frame_def hashed_update)
  then have d: "xdigest (xupdate (checksum r) (block_out b)) = xxh64 (h @ block_out b)" using l by (rule hashed_digest)
  define r2 where "r2 = r1\<lparr>checksum := xupdate (checksum r1) (buffer r1)\<rparr>"
  have "inp r2 = \<lparr>idata = ?c @ rest, ierr = None, iseek = Some None\<rparr>" by (simp add: r2_def r1)
  then have rd: "read_full r2 0 4 = Inr (?c, r2\<lparr>inp := \<lparr>idata = rest, ierr = None, iseek = Some None\<rparr>\<rparr>)"
    by (rule read_full_data) (simp add: le32_def)
  have f: "frameSizeUnknown r" "hasChecksum r" "readOneFrame r" using r by (simp_all add: in_frame_def)
  have "finish_block r1 True rel = rbind (check_sum r2) (\<lambda>r3. Inr (r3\<lparr>sawFrameHeader := False\<rparr>))"
    using f by (simp add: finish_block_def r2_def r1(2))
  also have "check_sum r2 = Inr (advance 4 (r2\<lparr>inp := \<lparr>idata = rest, ierr = None, iseek = Some None\<rparr>\<rparr>))"
    using f unfolding check_sum_def rd by (simp add: r2_def r1(2) d codec_simps)
  finally show ?thesis using f by (simp add: r1 between_def r2_def advance_def)
qed


lemma refill_frame: "sawFrameHeader r \<Longrightarrow> refill r = readBlock r"
  by (simp add: refill_def)

lemma decoded_refill: "refill r = Inr r1 \<Longrightarrow>
    decoded r = (case decoded (r1\<lparr>boffset := length (buffer r1)\<rparr>) of (b, e) \<Rightarrow> (buffer r1 @ b, e))"
  by (simp add: decoded.simps [of r])

lemma blocks_out_Cons [simp]: "blocks_out [] = []" "blocks_out (b # bs) = block_out b @ blocks_out bs"
  by (simp_all add: blocks_out_def)

text \<open>The blocks of a frame, when \<open>d\<close> is what the rest of the input gives after the frame.\<close>

lemma decoded_blocks:
  assumes d: "\<And>r. between r rest \<Longrightarrow> readOneFrame r \<Longrightarrow> decoded r = d"
  shows "bs \<noteq> [] \<Longrightarrow> list_all (\<lambda>b. length (block_out b) \<le> 131072) bs \<Longrightarrow> length (h @ blocks_out bs) < 2 ^ 64 \<Longrightarrow>
    in_frame h r (put_blocks bs @ le32 (ucast (xxh64 (h @ blocks_out bs))) @ rest) \<Longrightarrow>
    decoded r = (blocks_out bs @ fst d, snd d)"
proof (induction bs arbitrary: h r)
  case (Cons b bs)
  have s: "sawFrameHeader r" and b: "length (block_out b) \<le> 131072" using Cons.prems by (simp_all add: in_frame_def)
  show ?case
  proof (cases "bs = []")
    case True
    with Cons.prems have "in_frame h r (put_block True b @ le32 (ucast (xxh64 (h @ block_out b))) @ rest)"
      "length (h @ block_out b) < 2 ^ 64" by simp_all
    from readBlock_last [OF this(1) b this(2)] obtain r' where r': "readBlock r = Inr r'" "between r' rest" "readOneFrame r'"
      "buffer r' = block_out b" by blast
    have "decoded (r'\<lparr>boffset := length (buffer r')\<rparr>) = d" using r' by (intro d) simp_all
    with r' decoded_refill [of r r'] refill_frame [OF s] True show ?thesis by (simp split: prod.split)
  next
    case False
    with Cons.prems have "in_frame h r (put_block False b @ put_blocks bs @ le32 (ucast (xxh64 ((h @ block_out b) @ blocks_out bs))) @ rest)"
      by simp
    from readBlock_more [OF this b] obtain r' where r': "readBlock r = Inr r'"
      "in_frame (h @ block_out b) r' (put_blocks bs @ le32 (ucast (xxh64 ((h @ block_out b) @ blocks_out bs))) @ rest)"
      "buffer r' = block_out b" by blast
    have "decoded (r'\<lparr>boffset := length (buffer r')\<rparr>) = (blocks_out bs @ fst d, snd d)"
      using r' Cons.prems False by (intro Cons.IH [where h = "h @ block_out b"]) simp_all
    with r' decoded_refill [of r r'] refill_frame [OF s] show ?thesis by simp
  qed
qed simp

section \<open>The headers of such frames\<close>

lemma header_stored:
  assumes "between r (put_frame (Stored bs) @ rest)"
  shows "\<exists>r'. readFrameHeader r = Inr r' \<and> in_frame [] r' (put_blocks bs @ le32 (ucast (xxh64 (blocks_out bs))) @ rest)"
proof -
  define tl where "tl = put_blocks bs @ le32 (ucast (xxh64 (blocks_out bs))) @ rest"
  define i where "i = (\<lambda>d. \<lparr>idata = d, ierr = None, iseek = Some None\<rparr> :: zinput)"
  have r: "inp r = i (le32 0xfd2fb528 @ [0x04] @ [0x38] @ tl)" using assms by (simp add: between_def tl_def i_def)
  have 1: "readFull (inp r) 4 = Inr (le32 0xfd2fb528, i ([0x04] @ [0x38] @ tl))"
    unfolding r i_def by (rule readFull_data) (simp add: le32_def)
  have 2: "read_full (r\<lparr>inp := i ([0x04] @ [0x38] @ tl)\<rparr>) 4 1 = Inr ([0x04], r\<lparr>inp := i ([0x38] @ tl)\<rparr>)"
    by (subst read_full_data [where b = "[0x04]"]) (simp_all add: i_def)
  have s: "\<not> singleSegment 4" "windowDescriptorSize 4 = 1" "dictionaryIdSize 4 = 0" "fcsFieldSize 4 = 0" "frameHeaderSize 4 = 1"
    by (simp_all add: frameHeaderSize_def singleSegment_def windowDescriptorSize_def dictionaryIdSize_def fcsFieldSize_def Let_def)
  have w: "window_size 0x38 = 0x20000" by code_simp
  have 3: "read_full (set_checksum (r\<lparr>inp := i ([0x38] @ tl)\<rparr>) True) 5 1 = Inr ([0x38], (set_checksum r True)\<lparr>inp := i tl\<rparr>)"
    by (subst read_full_data [where b = "[0x38]"]) (simp_all add: i_def set_checksum_def)
  have "readFrameHeader r = frame_header (r\<lparr>inp := i ([0x04] @ [0x38] @ tl)\<rparr>)"
    by (subst readFrameHeader.simps) (simp add: 1 codec_simps del: append.simps)
  also have "\<dots> = frame_fields ((set_checksum r True)\<lparr>inp := i tl\<rparr>) 4 [0x38]"
    unfolding frame_header_def 2 rbind.simps prod.case Let_def using 3 by (simp add: s(5))
  also have "\<dots> = Inr (start_frame ((set_checksum r True)\<lparr>inp := i tl\<rparr>) True 0 0x20000 1)"
    by (simp add: frame_fields_def s content_size_def w maxWindowSize_def slice_def)
  finally show ?thesis using hashed_reset
    by (simp add: in_frame_def start_frame_def set_checksum_def advance_def wreset_def window_inv_def i_def tl_def)
qed

lemma header_skippable:
  assumes "between r (put_frame (Skippable k b) @ rest)" "k < 16" "length b < 2 ^ 32"
  shows "\<exists>r'. readFrameHeader r = readFrameHeader r' \<and> between r' rest \<and> readOneFrame r'"
proof -
  define i where "i = (\<lambda>d. \<lparr>idata = d, ierr = None, iseek = Some None\<rparr> :: zinput)"
  let ?m = "0x184d2a50 + of_nat k :: u32" and ?n = "of_nat (length b) :: u32"
  have r: "inp r = i (le32 ?m @ le32 ?n @ b @ rest)" using assms(1) by (simp add: between_def i_def)
  have 1: "readFull (inp r) 4 = Inr (le32 ?m, i (le32 ?n @ b @ rest))"
    unfolding r i_def by (rule readFull_data) (simp add: le32_def)
  have "unat ?m = 0x184d2a50 + k" using assms(2) by (simp add: unat_word_ariths unat_of_nat)
  then have m: "?m \<noteq> 0xfd2fb528" "0x184d2a50 \<le> ?m" "?m \<le> 0x184d2a5f"
    using assms(2) by (auto simp: word_le_nat_alt word_unat_eq_iff)
  have n: "unat ?n = length b" using assms(3) by (simp add: unat_of_nat)
  define r1 where "r1 = advance 4 (r\<lparr>inp := i (le32 ?n @ b @ rest)\<rparr>)"
  have 2: "read_full r1 0 4 = Inr (le32 ?n, r1\<lparr>inp := i (b @ rest)\<rparr>)"
    unfolding i_def by (rule read_full_data) (simp_all add: r1_def i_def advance_def le32_def)
  have "\<exists>bo. skipFrame r1 = Inr (r1\<lparr>inp := i rest, blockOffset := bo\<rparr>)"
    unfolding skipFrame_def 2 rbind.simps prod.case Let_def
    using n by (auto simp: codec_simps i_def advance_def skip_input_def)
  then obtain bo where sk: "skipFrame r1 = Inr (r1\<lparr>inp := i rest, blockOffset := bo\<rparr>)" ..
  have "readFrameHeader r = readFrameHeader (r1\<lparr>inp := i rest, blockOffset := bo, readOneFrame := True\<rparr>)"
    using m sk by (subst readFrameHeader.simps) (simp add: 1 codec_simps r1_def Let_def)
  moreover have "between (r1\<lparr>inp := i rest, blockOffset := bo, readOneFrame := True\<rparr>) rest"
    using assms(1) by (simp add: between_def i_def r1_def advance_def)
  ultimately show ?thesis by fastforce
qed

lemma decoded_end: "between r [] \<Longrightarrow> readOneFrame r \<Longrightarrow> decoded r = ([], None)"
  by (simp add: decoded.simps refill_def readFrameHeader.simps [of r] between_def readFull_def wrapError_def)

lemma decoded_frames:
  "list_all frame_ok fs \<Longrightarrow> between r (concat (map put_frame fs)) \<Longrightarrow> fs = [] \<longrightarrow> readOneFrame r \<Longrightarrow>
     decoded r = (concat (map frame_out fs), None)"
proof (induction fs arbitrary: r)
  case Nil
  then show ?case by (simp add: decoded_end)
next
  case (Cons f fs)
  have n: "\<not> sawFrameHeader r" using Cons.prems by (simp add: between_def)
  have IH: "decoded r' = (concat (map frame_out fs), None)" if "between r' (concat (map put_frame fs))" "readOneFrame r'" for r'
    using that Cons.prems by (intro Cons.IH) simp_all
  show ?case
  proof (cases f)
    case (Skippable k b)
    with Cons.prems have "between r (put_frame (Skippable k b) @ concat (map put_frame fs))" "k < 16" "length b < 2 ^ 32" by simp_all
    from header_skippable [OF this] obtain r' where r': "readFrameHeader r = readFrameHeader r'"
      "between r' (concat (map put_frame fs))" "readOneFrame r'" by blast
    then have "refill r = refill r'" using n by (simp add: refill_def between_def)
    then have "decoded r = decoded r'" by (simp add: decoded.simps [of r] decoded.simps [of r'])
    with IH r' Skippable show ?thesis by simp
  next
    case (Stored bs)
    with Cons.prems have "between r (put_frame (Stored bs) @ concat (map put_frame fs))" by simp
    from header_stored [OF this] obtain r' where r': "readFrameHeader r = Inr r'"
      "in_frame [] r' (put_blocks bs @ le32 (ucast (xxh64 ([] @ blocks_out bs))) @ concat (map put_frame fs))" by auto
    have "refill r = refill r'" using n r' by (simp add: refill_def in_frame_def)
    then have "decoded r = decoded r'" by (simp add: decoded.simps [of r] decoded.simps [of r'])
    also have "\<dots> = (blocks_out bs @ concat (map frame_out fs), None)"
      using decoded_blocks [OF IH _ _ _ r'(2)] Cons.prems Stored by simp
    finally show ?thesis using Stored by simp
  qed
qed

section \<open>What an accepted frame guarantees\<close>

lemma le32_get_le32: "length bs = 4 \<Longrightarrow> le32 (get_le32 bs) = bs"
proof -
  assume "length bs = 4"
  then obtain a b c d where bs: "bs = [a, b, c, d]"
    by (auto simp: numeral_eq_Suc length_Suc_conv)
  have "ucast (drop_bit 24 (get_le32 [a, b, c, d])) = d"
    by (rule bit_word_eqI) (auto simp: get_le32_def bit_simps bit_byte_ge)
  moreover have "ucast (drop_bit 16 (get_le32 [a, b, c, d])) = c"
    by (rule bit_word_eqI) (auto simp: get_le32_def bit_simps bit_byte_ge)
  moreover have "ucast (drop_bit 8 (get_le32 [a, b, c, d])) = b"
    by (rule bit_word_eqI) (auto simp: get_le32_def bit_simps bit_byte_ge)
  moreover have "ucast (get_le32 [a, b, c, d]) = a"
    by (rule bit_word_eqI) (auto simp: get_le32_def bit_simps bit_byte_ge)
  ultimately show ?thesis by (simp add: le32_def bs)
qed

text \<open>The state of the frame that reading its blocks must not lose.\<close>

definition frame_kept :: "Reader \<Rightarrow> Reader \<Rightarrow> bool" where
  "frame_kept r r' \<longleftrightarrow> (\<exists>pre. idata (inp r) = pre @ idata (inp r')) \<and> checksum r' = checksum r
     \<and> sawFrameHeader r' = sawFrameHeader r \<and> hasChecksum r' = hasChecksum r
     \<and> frameSizeUnknown r' = frameSizeUnknown r \<and> remainingFrameSize r' = remainingFrameSize r"

lemma frame_kept_trans: "frame_kept r r' \<Longrightarrow> frame_kept r' r'' \<Longrightarrow> frame_kept r r''"
  by (auto simp: frame_kept_def)

lemma frame_kept_upd [simp]:
  "frame_kept r (r'\<lparr>buffer := b\<rparr>) = frame_kept r r'" "frame_kept r (advance k r') = frame_kept r r'"
  "frame_kept (setBufferSize r n) r' = frame_kept r r'" "frame_kept (advance k r) r' = frame_kept r r'"
  by (simp_all add: frame_kept_def advance_def setBufferSize_def)

lemma read_full_kept: "keeps (read_full r off n) (\<lambda>(b, r'). frame_kept r r')"
  using read_full_inp [of r off n] by (auto simp: keeps_def frame_kept_def)

lemma compressedBlock_kept: "keeps (compressedBlock r n) (frame_kept r)"
proof -
  have d: "keeps (decode_block r' data) (frame_kept r')" for r' data
    unfolding keeps_def
  proof (intro allI impI)
    fix x assume "decode_block r' data = Inr x"
    with decode_block_state [of r' data] have "frame_state x = frame_state r'" by (simp add: keeps_def)
    then show "frame_kept r' x" by (simp add: frame_state_def frame_kept_def)
  qed
  show ?thesis unfolding compressedBlock_def
    by (rule keeps_bind [OF read_full_kept] keeps_intros)+ (use d frame_kept_trans in \<open>auto simp: keeps_def\<close>)
qed

lemma block_contents_kept: "keeps (block_contents r t n) (\<lambda>(r', rel). frame_kept r r')"
  unfolding block_contents_def
  by (rule keeps_bind [OF read_full_kept] keeps_bind [OF compressedBlock_kept] keeps_intros | simp)+

lemma readBlock_parts:
  assumes "readBlock r = Inr r'"
  obtains r1 l rel where "frame_kept r r1" "finish_block r1 l rel = Inr r'"
proof -
  from assms obtain b r0 t n r1 rel l where "read_full r 0 3 = Inr (b, r0)" "block_contents r0 t n = Inr (r1, rel)"
    "finish_block r1 l rel = Inr r'"
    by (auto simp: readBlock_def rbind_Inr_iff Let_def makeError_def split: if_splits)
  moreover from this have "frame_kept r r0" "frame_kept r0 r1"
    using read_full_kept [of r 0 3] block_contents_kept [of r0 t n] by (simp_all add: keeps_def)
  ultimately show ?thesis using that frame_kept_trans by blast
qed

inductive frame_run :: "Reader \<Rightarrow> bytes \<Rightarrow> Reader \<Rightarrow> bool" for r0 where
  start: "frame_run r0 [] r0"
| block: "frame_run r0 h r \<Longrightarrow> sawFrameHeader r \<Longrightarrow> readBlock (r\<lparr>boffset := k\<rparr>) = Inr r' \<Longrightarrow>
    frame_run r0 (h @ buffer r') r'"

definition frame_inv :: "Reader \<Rightarrow> bytes \<Rightarrow> Reader \<Rightarrow> bool" where
  "frame_inv r0 h r \<longleftrightarrow> sawFrameHeader r \<and> hasChecksum r = hasChecksum r0 \<and> frameSizeUnknown r = frameSizeUnknown r0
     \<and> (hasChecksum r \<longrightarrow> hashed h (checksum r))
     \<and> (\<not> frameSizeUnknown r \<longrightarrow> unat (remainingFrameSize r) + length h = unat (remainingFrameSize r0))
     \<and> (\<exists>pre. idata (inp r0) = pre @ idata (inp r))"

definition frame_done :: "Reader \<Rightarrow> bytes \<Rightarrow> Reader \<Rightarrow> bool" where
  "frame_done r0 h r \<longleftrightarrow> (frameSizeUnknown r0 \<or> length h = unat (remainingFrameSize r0))
     \<and> (hasChecksum r0 \<longrightarrow> (\<exists>pre. idata (inp r0) = pre @ le32 (ucast (xxh64 h)) @ idata (inp r)))"

lemma frame_inv_kept: "frame_inv r0 h r \<Longrightarrow> frame_kept (r\<lparr>boffset := k\<rparr>) r1 \<Longrightarrow> frame_inv r0 h r1"
  by (auto simp: frame_inv_def frame_kept_def)

text \<open>The two accounts of the frame, the bytes left and the hash, after the contents of a block.\<close>

definition account :: "Reader \<Rightarrow> Reader" where
  "account r = (let r1 = (if frameSizeUnknown r then r
                     else r\<lparr>remainingFrameSize := remainingFrameSize r - of_nat (length (buffer r))\<rparr>)
     in if hasChecksum r1 then r1\<lparr>checksum := xupdate (checksum r1) (buffer r1)\<rparr> else r1)"

lemma finish_block_account:
  "finish_block r l rel =
     (if \<not> frameSizeUnknown r \<and> remainingFrameSize r < of_nat (length (buffer r))
      then makeError (blockOffset r) rel ''too many uncompressed bytes in frame''
      else if \<not> l then Inr ((account r)\<lparr>zwindow := wsave (zwindow (account r)) (buffer (account r))\<rparr>)
      else if \<not> frameSizeUnknown (account r) \<and> remainingFrameSize (account r) \<noteq> 0
      then makeError (blockOffset (account r)) rel ''not enough uncompressed bytes for frame''
      else rbind (check_sum (account r)) (\<lambda>r3. Inr (r3\<lparr>sawFrameHeader := False\<rparr>)))"
  by (simp only: finish_block_def account_def Let_def)

lemma account_fields [simp]:
  "buffer (account r) = buffer r" "sawFrameHeader (account r) = sawFrameHeader r" "hasChecksum (account r) = hasChecksum r"
  "frameSizeUnknown (account r) = frameSizeUnknown r" "inp (account r) = inp r"
  by (simp_all add: account_def Let_def)

lemma finish_block_buffer: "keeps (finish_block r l rel) (\<lambda>r'. buffer r' = buffer r)"
proof -
  have rd: "keeps (read_full r off n) (\<lambda>(b, r'). buffer r' = buffer r)" for r off n
    using read_full_inp [of r off n] by (auto simp: keeps_def)
  have c: "keeps (check_sum r) (\<lambda>r'. buffer r' = buffer r)" for r
    unfolding check_sum_def Let_def by (rule keeps_bind [OF rd] keeps_intros | simp add: advance_def)+
  show ?thesis unfolding finish_block_account by (rule keeps_bind [OF c] keeps_intros | simp)+
qed

lemma account_inv:
  assumes "frame_inv r0 h r" "\<not> (\<not> frameSizeUnknown r \<and> remainingFrameSize r < of_nat (length (buffer r)))"
    "length (buffer r) < 2 ^ 64"
  shows "frame_inv r0 (h @ buffer r) (account r)"
proof -
  have u: "unat (of_nat (length (buffer r)) :: u64) = length (buffer r)" using assms(3) by (simp add: unat_of_nat)
  have "unat (remainingFrameSize r - of_nat (length (buffer r))) + length (buffer r) = unat (remainingFrameSize r)"
    if "\<not> frameSizeUnknown r" using that assms(2) u by (simp add: unat_sub word_less_nat_alt word_le_nat_alt)
  then have c: "\<not> frameSizeUnknown r \<longrightarrow> unat (remainingFrameSize (account r)) + length (buffer r) = unat (remainingFrameSize r)"
    by (simp add: account_def Let_def)
  have "hasChecksum r \<longrightarrow> hashed (h @ buffer r) (checksum (account r))"
    using assms(1) hashed_update by (simp add: frame_inv_def account_def Let_def)
  with c assms(1) show ?thesis by (auto simp: frame_inv_def)
qed

lemma finish_block_spec:
  assumes "frame_inv r0 h r" "length (h @ buffer r) < 2 ^ 64" "finish_block r l rel = Inr r'"
  shows "buffer r' = buffer r \<and> (if l then \<not> sawFrameHeader r' \<and> frame_done r0 (h @ buffer r) r' else frame_inv r0 (h @ buffer r) r')"
proof -
  have nb: "\<not> (\<not> frameSizeUnknown r \<and> remainingFrameSize r < of_nat (length (buffer r)))"
    using assms(3) by (auto simp: finish_block_account)
  have i: "frame_inv r0 (h @ buffer r) (account r)" using assms(1,2) nb by (intro account_inv) simp_all
  show ?thesis
  proof (cases l)
    case False
    with assms(3) nb have "r' = (account r)\<lparr>zwindow := wsave (zwindow (account r)) (buffer (account r))\<rparr>"
      by (simp add: finish_block_account split: if_split_asm)
    with False i show ?thesis by (simp add: frame_inv_def)
  next
    case True
    with assms(3) nb obtain r3 where z: "frameSizeUnknown r \<or> remainingFrameSize (account r) = 0"
      and r3: "check_sum (account r) = Inr r3" "r' = r3\<lparr>sawFrameHeader := False\<rparr>"
      by (auto simp: finish_block_account rbind_Inr_iff split: if_split_asm)
    have s: "frameSizeUnknown r0 \<or> length (h @ buffer r) = unat (remainingFrameSize r0)"
      using i z by (auto simp: frame_inv_def)
    show ?thesis
    proof (cases "hasChecksum r")
      case False
      then have "r3 = account r" using r3(1) by (simp add: check_sum_def)
      moreover have "\<not> hasChecksum r0" using False i by (simp add: frame_inv_def)
      ultimately show ?thesis using True s r3(2) by (simp add: frame_done_def)
    next
      case c: True
      then obtain b r2 where rd: "read_full (account r) 0 4 = Inr (b, r2)"
        and e: "get_le32 b = ucast (xdigest (checksum r2))" "r3 = advance 4 r2"
        using r3(1) by (auto simp: check_sum_def rbind_Inr_iff Let_def split: if_split_asm)
      note f = read_full_inp [OF rd]
      have "hashed (h @ buffer r) (checksum (account r))" using i c by (simp add: frame_inv_def)
      then have "xdigest (checksum (account r)) = xxh64 (h @ buffer r)" using assms(2) by (rule hashed_digest)
      moreover have "checksum r2 = checksum (account r)" "buffer r2 = buffer r" using f by auto
      ultimately have b: "b = le32 (ucast (xxh64 (h @ buffer r)))" using e(1) f le32_get_le32 [of b] by simp
      from i obtain pre where "idata (inp r0) = pre @ idata (inp (account r))" by (auto simp: frame_inv_def)
      then have "idata (inp r0) = pre @ le32 (ucast (xxh64 (h @ buffer r))) @ idata (inp r')"
        using f b e(2) r3(2) by (simp add: advance_def)
      with True s \<open>buffer r2 = buffer r\<close> e(2) r3(2) show ?thesis by (auto simp: frame_done_def advance_def)
    qed
  qed
qed

lemma frame_run_spec:
  assumes "frame_run r0 h r" "frame_inv r0 [] r0"
  shows "length h < 2 ^ 64 \<Longrightarrow> if sawFrameHeader r then frame_inv r0 h r else frame_done r0 h r"
  using assms(1)
proof (induction rule: frame_run.induct)
  case start
  then show ?case using assms(2) by (simp add: frame_inv_def)
next
  case (block h r k r')
  then have i: "frame_inv r0 h r" by simp
  from readBlock_parts [OF block.hyps(3)] obtain r1 l rel where r1: "frame_kept (r\<lparr>boffset := k\<rparr>) r1" "finish_block r1 l rel = Inr r'" .
  have bf: "buffer r' = buffer r1" using finish_block_buffer [of r1 l rel] r1(2) by (simp add: keeps_def)
  have "if l then \<not> sawFrameHeader r' \<and> frame_done r0 (h @ buffer r1) r' else frame_inv r0 (h @ buffer r1) r'"
    using finish_block_spec [OF frame_inv_kept [OF i r1(1)] _ r1(2)] block.prems bf by simp
  then show ?case by (cases l) (simp_all add: bf frame_inv_def)
qed

lemma frame_header_start: "keeps (frame_header r) (\<lambda>r'. frame_inv r' [] r')"
proof -
  have f: "keeps (frame_fields r d h) (\<lambda>r'. sawFrameHeader r' \<and> hasChecksum r' = hasChecksum r \<and> checksum r' = checksum r)" for r d h
    unfolding frame_fields_def Let_def by (intro keeps_intros) (simp_all add: start_frame_def advance_def)
  have "keeps (read_full (set_checksum r c) off n) (\<lambda>(b, r'). hasChecksum r' \<longrightarrow> hashed [] (checksum r'))" for r c off n
    using read_full_inp [of "set_checksum r c" off n] hashed_reset by (auto simp: keeps_def set_checksum_def)
  note g = this
  show ?thesis unfolding frame_header_def Let_def
    by (rule keeps_bind [OF g] keeps_intros)+ (use f in \<open>auto simp: keeps_def frame_inv_def\<close>)
qed

lemma readFrameHeader_start: "readFrameHeader r = Inr r' \<Longrightarrow> frame_inv r' [] r'"
proof (induction r rule: readFrameHeader.induct)
  case (1 r)
  from "1.prems" obtain b i where bi: "readFull (inp r) 4 = Inr (b, i)"
    by (subst (asm) readFrameHeader.simps) (auto split: sum.splits)
  consider (hdr) "frame_header (r\<lparr>inp := i\<rparr>) = Inr r'"
    | (skip) r2 where "get_le32 b \<noteq> 0xfd2fb528" "0x184d2a50 \<le> get_le32 b \<and> get_le32 b \<le> 0x184d2a5f"
        "skipFrame (advance 4 (r\<lparr>inp := i\<rparr>)) = Inr r2" "readFrameHeader (r2\<lparr>readOneFrame := True\<rparr>) = Inr r'"
    using "1.prems" bi
    by (subst (asm) readFrameHeader.simps) (auto simp: Let_def makeError_def split: if_splits sum.splits)
  then show ?case
    by cases (use frame_header_start [of "r\<lparr>inp := i\<rparr>"] "1.IH" [OF bi refl refl refl] in \<open>auto simp: keeps_def\<close>)
qed

text \<open>
  C13. An accepted frame has the length and the checksum that it announces. When the header was read and the
  blocks up to the last one were decoded, the output of the frame has exactly the content size of the header, if it
  has one, and, if the header announces a checksum, the four bytes of the input after the last block are the low half of the XXH64
  hash of the output.
\<close>

theorem frame_accepted:
  assumes "readFrameHeader r = Inr r0" "frame_run r0 h r'" "\<not> sawFrameHeader r'" "length h < 2 ^ 64"
  shows "(frameSizeUnknown r0 \<or> length h = unat (remainingFrameSize r0))
    \<and> (hasChecksum r0 \<longrightarrow> (\<exists>pre. idata (inp r0) = pre @ le32 (ucast (xxh64 h)) @ idata (inp r')))"
  using frame_run_spec [OF assms(2) readFrameHeader_start [OF assms(1)] assms(4)] assms(3) by (simp add: frame_done_def)

definition frame0 :: Reader where
  "frame0 = NewReader \<lparr>idata = put_frame (Stored [RunBlock 3 7]), ierr = None, iseek = Some None\<rparr>"

theorem frame_accepted_witness:
  "\<exists>r0 r'. readFrameHeader frame0 = Inr r0 \<and> frame_run r0 [7, 7, 7] r' \<and> hasChecksum r0
    \<and> (\<exists>pre. idata (inp r0) = pre @ le32 (ucast (xxh64 [7, 7, 7])) @ idata (inp r'))"
proof -
  have o: "block_out (RunBlock 3 7) = [7, 7, 7]" by (simp add: numeral_eq_Suc)
  have "between frame0 (put_frame (Stored [RunBlock 3 7]) @ [])" by (simp add: frame0_def between_def NewReader_def Reset_def)
  from header_stored [OF this] obtain r0 where r0: "readFrameHeader frame0 = Inr r0"
    "in_frame [] r0 (put_block True (RunBlock 3 7) @ le32 (ucast (xxh64 ([] @ block_out (RunBlock 3 7)))) @ [])" by auto
  have "length (block_out (RunBlock 3 7)) \<le> 131072" "length ([] @ block_out (RunBlock 3 7)) < 2 ^ 64" by simp_all
  from readBlock_last [OF r0(2) this] obtain r' where r': "readBlock r0 = Inr r'" "between r' []" "buffer r' = [7, 7, 7]"
    unfolding o by blast
  have s: "sawFrameHeader r0" "hasChecksum r0" using r0(2) by (simp_all add: in_frame_def)
  have "readBlock (r0\<lparr>boffset := boffset r0\<rparr>) = Inr r'" using r'(1) by simp
  then have run: "frame_run r0 [7, 7, 7] r'" using frame_run.block [OF frame_run.start s(1)] r'(3) by fastforce
  have n: "\<not> sawFrameHeader r'" using r'(2) by (simp add: between_def)
  have "length [7, 7, 7 :: u8] < 2 ^ 64" by simp
  from frame_accepted [OF r0(1) run n this] r0(1) run s(2) show ?thesis by blast
qed

text \<open>
  C15. Reading keeps the decoder well-formed. In a well-formed reader, \<open>Read\<close> reports an error or returns between one and \<open>n\<close>
  bytes when \<open>n\<close> is positive and leaves a well-formed reader, whatever the input: tables of the announced
  sizes with entries in range, a Huffman table that is a complete prefix code, and a window within its capacity. It never panics.
\<close>

theorem read_keeps_decoder:
  assumes "decoder_inv r" "0 < n"
  shows "ensures (ReadTo r n) (\<lambda>(b, r'). decoder_inv r' \<and> 0 < length b \<and> length b \<le> n)"
proof -
  have "keeps (ReadTo r n) (\<lambda>(b, r'). 0 < length b \<and> length b \<le> n)"
    unfolding keeps_def ReadTo_def Let_def
    using refillIfNeeded_inp [of r] assms(2) by (auto simp: rbind_Inr_iff zslice_def slice_def split: if_splits)
  with ReadTo_ensures [OF assms(1), of n] show ?thesis by (auto simp: ensures_def keeps_def)
qed

theorem read_keeps_decoder_witness:
  "ensures (ReadTo frame0 2) (\<lambda>(b, r'). decoder_inv r' \<and> 0 < length b \<and> length b \<le> 2)"
  by (rule read_keeps_decoder) (simp_all add: frame0_def NewReader_inv)

text \<open>
  C14. \<open>Decode\<close> returns on every input, with the output up to the end of the data or to an error that the decoder
  reports; no input makes it panic or loop.
\<close>

theorem decode_total: "reported (snd (Decode room data))"
  by (simp add: Decode_def readAll_reported NewReader_inv)

text \<open>
  C12. Stored data is decoded: a stream of frames of raw and run-length blocks with checksums, with skippable frames
  between them, is decoded without an error to the concatenation of the contents of its blocks.
\<close>

theorem stored_roundtrip:
  assumes "fs \<noteq> []" "list_all frame_ok fs"
  shows "Decode room (concat (map put_frame fs)) = (concat (map frame_out fs), None)"
proof -
  have "between (NewReader \<lparr>idata = concat (map put_frame fs), ierr = None, iseek = Some None\<rparr>) (concat (map put_frame fs))"
    by (simp add: NewReader_def Reset_def between_def)
  from decoded_frames [OF assms(2) this] assms(1) show ?thesis by (simp add: decode_concat)
qed

theorem stored_roundtrip_witness:
  "Decode (\<lambda>n. 511) (concat (map put_frame [Skippable 3 [1, 2], Stored [RawBlock [1, 2], RunBlock 3 9]])) = ([1, 2, 9, 9, 9], None)"
proof -
  have "list_all frame_ok [Skippable 3 [1, 2], Stored [RawBlock [1, 2], RunBlock 3 9]]" by simp
  from stored_roundtrip [OF _ this, of "\<lambda>n. 511"]
  show ?thesis by (simp add: numeral_3_eq_3 del: put_frame.simps)
qed

end
