(* ===== verification/Spec2Isabelle.thy ===== *)
theory Spec2Isabelle
  imports
    Prelude GoStrings GoNet Dhcp4 Dhcp6 ContainerConfig Controller Virtio VirtioDevices Mmio
    IpAlloc PortForward Dockerfile GoPath ImageLayers Dtb Cpio
    Squashfs SquashfsRead SquashfsLayout SquashfsInodes SquashfsNodes SquashfsWalk SquashfsTables SquashfsImage SquashfsCount
    SquashfsRoundtrip
    RenumberService RaWatch LeaseLoop DhcpClient6 PdSource DhcpClient4
    Xxhash ZstdWindow ZstdBits ZstdFse ZstdFseTable ZstdFseRead ZstdHuff ZstdHuffTable ZstdLiterals ZstdBlock ZstdCopy
    ZstdSeqs ZstdExec Zstd ZstdFrame
begin

text \<open>
  A verification of the core logic of sandal, a container and virtual machine runtime (\<open>src/pkg\<close>).

  \<^bold>\<open>The program.\<close> A command-line tool and a daemon share container records: one JSON file per container
  in a state directory, and the daemon's list in memory. The tool writes a record through the daemon or,
  without one, straight to its file; the daemon follows the directory with inotify and reconciles when
  events may be lost. Containers get addresses from the allocator, ports from \<open>-p\<close> flags and images from
  Dockerfiles. A virtual machine monitor over KVM serves the guest's device accesses: it dispatches MMIO
  exits to a serial port, a clock and virtio devices, which share queues with the guest in guest memory.
  A DHCP client obtains leases and IPv6 prefixes.

  \<^bold>\<open>Theories and sources.\<close>
  \<^item> \<open>Prelude\<close>: list slices, \<open>copy\<close>, byte orders, runtime panics, the error monad. \<open>GoStrings\<close>: the functions
    of \<open>strings\<close> and \<open>strconv\<close> in use, on ASCII. \<open>GoNet\<close>: \<open>net.IP\<close> and \<open>net.IPNet\<close> on byte lists.
  \<^item> \<open>Dhcp4\<close>: \<open>lib/dhcp/options.go\<close> and \<open>packet.go\<close>. \<open>Dhcp6\<close>: \<open>options6.go\<close>, \<open>options6_pd.go\<close>, \<open>packet6.go\<close>.
    Packets are records of bytes and words; decoders return an error or the packet.
  \<^item> \<open>ContainerConfig\<close>: \<open>container/config\<close> and \<open>container/runtime/status.go\<close>: the record, its names and files,
    and whether a process is still the one recorded.
  \<^item> \<open>Controller\<close>: \<open>controller/{set,get,del,containers,loadFile}.go\<close> and \<open>daemon/disk-events.go\<close>. The state is
    the record list and the directory. The attempts of a file write say where it fails. Concurrency is a
    sequence of atomic steps, the regions under \<open>containerListMu\<close>, with file reads that are applied later.
  \<^item> \<open>Virtio\<close>: \<open>vm/kvm/virtio.go\<close>: guest memory as bytes, device registers, queues, the two ring loops; a
    device is a handler from its state, memory and buffers. \<open>VirtioDevices\<close>: \<open>virtio_blk.go\<close> and
    \<open>virtio_console.go\<close>. \<open>Mmio\<close>: \<open>uart.go\<close>, \<open>rtc.go\<close>, the exit handling of \<open>vm.go\<close> and \<open>exit.go\<close>.
  \<^item> \<open>IpAlloc\<close>: \<open>container/net/addr.go\<close>, \<open>ip-allocation.go\<close> and \<open>renumber/prefix.go\<close>.
  \<^item> \<open>DhcpClient4\<close> and \<open>DhcpClient6\<close>: \<open>lib/dhcp/client.go\<close>, \<open>client6.go\<close>, \<open>client6_pd.go\<close> and \<open>retransmit6.go\<close>: messages,
    exchanges and leases over scripts of what socket and clock do. \<open>LeaseLoop\<close>: \<open>lease_loop.go\<close> as a machine over
    clock readings, timers, cancellation and answers. \<open>PdSource\<close>: \<open>container/net/renumber/source_pd.go\<close>, which drives the
    loop. \<open>RenumberService\<close>: \<open>renumber/service.go\<close>, the regions under its lock as atomic steps. \<open>RaWatch\<close>:
    \<open>renumber/ra_watch.go\<close>, the parser and tracker of router advertisements.
  \<^item> \<open>PortForward\<close>: \<open>container/forward/spec.go\<close>. \<open>Dockerfile\<close>: \<open>lib/container/build/{instruction,dockerfile,
    expand,stage}.go\<close>.
  \<^item> \<open>GoPath\<close>: the functions of \<open>path\<close> in use. \<open>ImageLayers\<close>: \<open>lib/container/image/{flatten,pathindex}.go\<close>, over the
    members that the tar reader delivers. \<open>Dtb\<close>: \<open>vm/kvm/dtb.go\<close> and \<open>buildDTB\<close> of \<open>vcpu_arm64.go\<close>, with a reader
    of the device tree format. \<open>Cpio\<close>: \<open>vm/kernel/cpio.go\<close> and the composition of images in \<open>initrd.go\<close>; gzip is an
    argument.
  \<^item> \<open>Squashfs\<close>: \<open>lib/squashfs/{writer,struct,filter,info}.go\<close>. The host tree is a value, the output the list of bytes
    behind the superblock, zlib an argument. \<open>SquashfsRead\<close> is a reader of the format, written independently of the
    writer. \<open>SquashfsLayout\<close>, \<open>SquashfsInodes\<close>, \<open>SquashfsNodes\<close> and \<open>SquashfsWalk\<close> hold the invariant of the writer and what the walk
    writes, \<open>SquashfsTables\<close> and \<open>SquashfsImage\<close> the tables and the image, \<open>SquashfsCount\<close> and \<open>SquashfsRoundtrip\<close> the theorems.
  \<^item> \<open>Xxhash\<close>, \<open>ZstdWindow\<close>, \<open>ZstdBits\<close>, \<open>ZstdFse\<close>, \<open>ZstdHuff\<close>, \<open>ZstdLiterals\<close>, \<open>ZstdBlock\<close>, \<open>Zstd\<close>: the files
    of \<open>lib/zstd\<close> of the same names, with \<open>decode.go\<close> in the last. The state is the record \<open>Reader\<close>; a result is
    a value or an error of \<open>zerr\<close>, in which run-time panics and loops without progress are values of their own.
    \<open>ZstdFseTable\<close>, \<open>ZstdFseRead\<close>, \<open>ZstdHuffTable\<close>, \<open>ZstdCopy\<close>, \<open>ZstdSeqs\<close>, \<open>ZstdExec\<close> and \<open>ZstdFrame\<close> hold the
    theorems about tables, matches, sequences and streams.

  \<^bold>\<open>Interfaces.\<close> \<open>record_store\<close> (Controller) is the contract of a store of records by name, interpreted on
  the daemon's memory. \<open>virtio_handler\<close> (Virtio) is what the ring loop relies on in a device, interpreted on
  the block device and on both console queues. \<open>mmio_window\<close> (Mmio) is a device that owns an address range,
  interpreted on the serial port, the clock and the virtio transport. \<open>lease_refresher\<close> (LeaseLoop) is what the
  lease loop needs of its client, interpreted twice on the delegation source. \<open>byte_history\<close> (ZstdWindow) is a bounded
  history of the output, interpreted on the circular window.

  \<^bold>\<open>What is shown.\<close> For the controller: it implements a map, updates are not lost under interleaving, file
  replacement is atomic, reconciliation converges, start-up yields a consistent store. For the monitor:
  guest accesses stay in guest memory, the block device serves every chain once and moves the right
  bytes, a read-only disk never changes, exits reach the right device, the serial interrupt line is exact
  and no input byte is lost. For the network code: encoders and decoders are inverse, decoders are bounded,
  the allocator ends and returns the first unused address, the prefix choice and the address replacement
  meet their rules; the DHCP clients obtain the lease of the server, the lease loop keeps its schedule and ends, the
  delegation source publishes the sub-allocation of its lease, the service applies the latest prefix with one goroutine at a time,
  and a router that falls silent does not lose its prefix. For the decompressor: every input is decoded or refused with an error, an accepted frame has
  the size and checksum that it announces, FSE and Huffman tables are complete codes, sequences are executed as
  LZ77, stored streams are decoded to their contents. For images: the layers of a container image are merged to their
  overlay with the contents of the topmost layer, a directory tree is recovered from the squashfs image it is written to,
  the device tree is read back as the configured machine, and the guest finds the intended \<open>init\<close> in the initramfs. For the text formats: flags and Dockerfiles are parsed as specified, with round trips.
  Some theorems record behaviour that differs from a comment or from the evident intent, such as \<open>chain_walk_bound\<close>,
  \<open>one_release_for_all_cycles\<close> and \<open>flatten_marker_limits\<close>.

  \<^bold>\<open>Fuel.\<close> The descriptor walk takes 65536 units: indices have 16 bits, so a longer walk has repeated an
  index and never ends (\<open>chain_walk_bound\<close>). The ring loop takes one unit per pending chain and one to see
  that none is left; at most 65535 are pending. The allocator takes one round more than there are addresses
  in use (\<open>ip_alloc_first_free\<close>). The JSON reader takes the length of its input. The
  loops of the decompressor are total functions; a turn that would make no progress is the value \<open>ZDiverge\<close>, which
  is shown never to be reached. Everything else is total.

  \<^bold>\<open>Words.\<close> Go's fixed-width integers are words where they can wrap: guest addresses, ring indices, option
  lengths, generations. Lengths of slices are natural numbers.

  \<^bold>\<open>Not modelled.\<close> System calls, netlink, KVM ioctls, mounts, sockets and HTTP; the network, vsock and file
  system virtio devices; the retransmission time \<open>nextRT\<close>, which is computed with floating-point numbers (it is an
  input of the exchange); image transfer; the compressors zlib and gzip (arguments); the
  Objective-C backend; command-line definitions. Logging has no model. Text is ASCII.

  \<^bold>\<open>Simplifications.\<close> The state directory is a flat map of files: directories in it, which the code skips, do not occur.
  \<open>setContainerByDisk\<close> is one atomic step, although its lock orders only the writers of one process. \<open>Clone\<close> is the identity; the
  source copies through JSON, which keeps the modelled fields. The guest does not write to its memory while the monitor serves a
  queue. \<open>findInCPIO\<close> passes over empty files, as the code does, so that the empty \<open>etc/resolv.conf\<close> of sandal is in the image but
  is not found by it. Set and get are stated for the controller of the daemon's memory. The replies of \<open>obtain_lease\<close> have one
  address and no name servers.

  \<^bold>\<open>Plan.\<close> Next: image references and the ignore file, the init script and modules of the initramfs, partition
  tables, the daemon's recovery decisions.
\<close>

end
